(* ===== verification/Prelude.thy ===== *)
theory Prelude
  imports Main "HOL-Library.Word"
begin

text \<open>
  Shared vocabulary of the development: the machine types of the C sources, the big-endian
  and little-endian reading of byte strings, the result type of calls that advance a cursor,
  and the lemmas on words and lists that the component theories use.

  Sizes (\<open>size_t\<close>, 64 bits on the arm64 and x86-64 iOS targets) are natural numbers; wherever
  the C code relies on wrap-around the reduction \<open>mod SIZE_MOD\<close> is written out.
\<close>

unbundle bit_operations_syntax

named_theorems cbs_simps
  \<open>facts that execute the cursor operations\<close>
named_theorems byte_simps
  \<open>facts on the numeric reading of byte strings\<close>

type_synonym byte = "8 word"
type_synonym u16 = "16 word"
type_synonym u32 = "32 word"
type_synonym u64 = "64 word"

abbreviation SIZE_MOD :: nat where
  "SIZE_MOD \<equiv> 18446744073709551616"

abbreviation INT_MAX :: nat where
  "INT_MAX \<equiv> 2147483647"

text \<open>The C type \<open>int\<close>: its range, and the conversion of a \<open>long\<close> or \<open>size_t\<close> to it.\<close>

definition in_int :: "int \<Rightarrow> bool" where
  "in_int x \<longleftrightarrow> - (2 ^ 31) \<le> x \<and> x < 2 ^ 31"

definition int32 :: "int \<Rightarrow> int" where
  "int32 x = sint (word_of_int x :: u32)"

lemma int32_id: "in_int x \<Longrightarrow> int32 x = x"
  unfolding int32_def in_int_def by (simp add: sint_sbintrunc' signed_take_bit_int_eq_self)

section \<open>Numbers as byte strings\<close>

fun be_value :: "byte list \<Rightarrow> nat" where
  "be_value [] = 0"
| "be_value (b # bs) = unat b * 256 ^ length bs + be_value bs"

definition le_value :: "byte list \<Rightarrow> nat" where
  "le_value bs = be_value (rev bs)"

fun be_bytes :: "nat \<Rightarrow> nat \<Rightarrow> byte list" where
  "be_bytes 0 v = []"
| "be_bytes (Suc n) v = of_nat (v div 256 ^ n) # be_bytes n v"

lemma length_be_bytes [simp]: "length (be_bytes n v) = n"
  by (induction n) auto

lemma unat_of_nat_byte [simp]: "unat (of_nat n :: byte) = n mod 256"
  by (simp add: unat_of_nat)

lemma unat_byte_less: "unat (b :: byte) < 256"
  using unsigned_less [of b, where 'a = nat] by simp

lemma be_value_append [byte_simps]:
  "be_value (xs @ ys) = be_value xs * 256 ^ length ys + be_value ys"
  by (induction xs) (auto simp: algebra_simps power_add)

lemma be_value_less [byte_simps]: "be_value bs < 256 ^ length bs"
proof (induction bs)
  case Nil
  then show ?case by simp
next
  case (Cons b bs)
  have "unat b + 1 \<le> 256" using unat_byte_less [of b] by linarith
  then have "(unat b + 1) * 256 ^ length bs \<le> 256 * 256 ^ length bs"
    by (rule mult_le_mono1)
  then have "unat b * 256 ^ length bs + 256 ^ length bs \<le> 256 ^ length (b # bs)"
    by (simp only: add_mult_distrib mult_1 list.size power_Suc add.commute [of 0] plus_nat.add_0
        add_Suc_right add_0_right)
  with Cons show ?case unfolding be_value.simps by linarith
qed

lemma be_value_replicate_0 [byte_simps]: "be_value (replicate n 0) = 0"
  by (induction n) auto

lemma be_value_be_bytes [byte_simps]: "be_value (be_bytes n v) = v mod 256 ^ n"
proof (induction n)
  case 0
  then show ?case by simp
next
  case (Suc n)
  have "v mod 256 ^ Suc n = v mod 256 ^ n + 256 ^ n * (v div 256 ^ n mod 256)"
    using mod_mult2_eq [of v "256 ^ n" 256] by (simp add: mult.commute)
  with Suc show ?case by (simp add: algebra_simps)
qed

lemma be_bytes_mod_cong: "a mod 256 ^ n = b mod 256 ^ n \<Longrightarrow> be_bytes n a = be_bytes n b"
proof (induction n)
  case 0
  then show ?case by simp
next
  case (Suc n)
  have "(256 :: nat) ^ n dvd 256 ^ Suc n" by simp
  then have "a mod 256 ^ n = b mod 256 ^ n"
    using Suc.prems mod_mod_cancel by metis
  then have tl: "be_bytes n a = be_bytes n b" by (rule Suc.IH)
  have "(a mod 256 ^ Suc n) div 256 ^ n = (b mod 256 ^ Suc n) div 256 ^ n"
    using Suc.prems by simp
  then have "a div 256 ^ n mod 256 = b div 256 ^ n mod 256"
    using mod_mult2_eq [of a "256 ^ n" 256] mod_mult2_eq [of b "256 ^ n" 256]
    by (simp add: mult.commute)
  then have "unat (of_nat (a div 256 ^ n) :: byte) = unat (of_nat (b div 256 ^ n) :: byte)"
    by simp
  then have "(of_nat (a div 256 ^ n) :: byte) = of_nat (b div 256 ^ n)"
    by (rule word_unat_eq_iff [THEN iffD2])
  with tl show ?case by simp
qed

lemma be_bytes_be_value [byte_simps]: "be_bytes (length bs) (be_value bs) = bs"
proof (induction bs)
  case Nil
  then show ?case by simp
next
  case (Cons b bs)
  have "be_bytes (length bs) (be_value (b # bs)) = be_bytes (length bs) (be_value bs)"
    by (rule be_bytes_mod_cong) simp
  moreover have "be_value (b # bs) div 256 ^ length bs = unat b"
    using be_value_less [of bs] by simp
  ultimately show ?case using Cons by simp
qed

lemma be_value_inj: "length xs = length ys \<Longrightarrow> be_value xs = be_value ys \<Longrightarrow> xs = ys"
  by (metis be_bytes_be_value)

lemma be_bytes_Suc_snoc:
  "be_bytes (Suc n) v = be_bytes n (v div 256) @ [of_nat v]"
proof -
  have "be_value (be_bytes n (v div 256) @ [of_nat v]) = v mod 256 ^ Suc n"
    using mod_mult2_eq [of v 256 "256 ^ n"] by (simp add: byte_simps mult.commute)
  then show ?thesis
    by (intro be_value_inj) (simp_all add: be_value_be_bytes del: be_bytes.simps)
qed

lemma odd_div_128: "n < (256 :: nat) \<Longrightarrow> odd (n div 128) \<longleftrightarrow> 128 \<le> n"
proof (cases "n < 128")
  case False
  moreover assume "n < 256"
  ultimately have "n div 128 = 1" by (intro div_nat_eqI) simp_all
  with False show ?thesis by simp
qed simp

lemma high_byte_mod: "n < (256 :: nat) \<Longrightarrow> 128 \<le> n \<Longrightarrow> 128 + n mod 128 = n"
  using le_mod_geq [of 128 n] by simp

section \<open>Lists\<close>

lemma list_update_block:
  "k \<le> length xs \<Longrightarrow> take k (xs[k := v]) = take k xs"
  by simp

lemma nth_append_here [simp]: "(xs @ y # ys) ! length xs = y"
  by simp

lemma take_drop_split: "i \<le> j \<Longrightarrow> take j xs = take i xs @ take (j - i) (drop i xs)"
  by (metis le_add_diff_inverse take_add)

section \<open>Words\<close>

lemma unat_ucast_byte_u32 [simp]: "unat (ucast (b :: byte) :: u32) = unat b"
  using unat_byte_less [of b]
  by (simp add: unsigned_ucast_eq take_bit_nat_eq_self_iff)

lemma unat_ucast_byte_u64 [simp]: "unat (ucast (b :: byte) :: u64) = unat b"
  using unat_byte_less [of b]
  by (simp add: unsigned_ucast_eq take_bit_nat_eq_self_iff)

lemma unat_of_nat_u64: "n < SIZE_MOD \<Longrightarrow> unat (of_nat n :: u64) = n"
  by (simp add: unat_of_nat)

lemma unat_of_nat_u32: "n < 4294967296 \<Longrightarrow> unat (of_nat n :: u32) = n"
  by (simp add: unat_of_nat)

lemma unat_drop: "unat (drop_bit n (a :: 'a :: len word)) = unat a div 2 ^ n"
  by (subst unat_drop_bit_eq) (simp add: drop_bit_eq_div)

lemma unat_ucast_byte: "unat (ucast (u :: u32) :: byte) = unat u mod 256"
  by (simp add: unsigned_ucast_eq take_bit_eq_mod unat_mod_distrib)

lemma word_xor_eq_0 [simp]: "(a :: 'a::len word) XOR b = 0 \<longleftrightarrow> a = b"
  by (metis xor.assoc xor_self_eq xor.left_neutral xor.right_neutral)

lemma or_disjoint_add:
  fixes a b :: "'a::len word"
  assumes "a AND b = 0"
  shows "a OR b = a + b"
  using assms by (simp add: disjunctive_add_eq_or)

section \<open>Wire formats\<close>

text \<open>
  The result of a call that reads from a byte cursor: the value, if the call succeeds, and the
  cursor after it.
\<close>

type_synonym 'a cursor_result = "'a option \<times> byte list"

text \<open>
  A \<open>wire_format\<close> is the contract between a reader and the encoding it accepts: the reader takes every
  valid encoding off the front of its input and accepts nothing else.
\<close>

locale wire_format =
  fixes enc :: "'a \<Rightarrow> byte list"
    and dec :: "byte list \<Rightarrow> 'a cursor_result"
    and valid :: "'a \<Rightarrow> bool"
  assumes dec_enc: "valid x \<Longrightarrow> dec (enc x @ rest) = (Some x, rest)"
    and dec_sound: "dec cbs = (Some x, rest) \<Longrightarrow> valid x \<and> cbs = enc x @ rest"
begin

lemma dec_iff: "dec cbs = (Some x, rest) \<longleftrightarrow> valid x \<and> cbs = enc x @ rest"
  using dec_enc dec_sound by blast

lemma prefix_free:
  assumes "valid x" and "valid y" and "enc x @ r = enc y @ s"
  shows "x = y \<and> r = s"
  by (metis assms dec_enc option.inject prod.inject)

lemma enc_inj: "valid x \<Longrightarrow> valid y \<Longrightarrow> enc x = enc y \<Longrightarrow> x = y"
  using prefix_free [of x y "[]" "[]"] by simp

lemma concat_inj:
  "list_all valid xs \<Longrightarrow> list_all valid ys \<Longrightarrow> length xs = length ys \<Longrightarrow>
    concat (map enc xs) @ r = concat (map enc ys) @ s \<Longrightarrow> xs = ys \<and> r = s"
proof (induction xs arbitrary: ys)
  case Nil
  then show ?case by simp
next
  case (Cons x xs)
  then obtain y ys' where ys: "ys = y # ys'" by (cases ys) auto
  with Cons.prems have "enc x @ (concat (map enc xs) @ r) = enc y @ (concat (map enc ys') @ s)"
    and "valid x" and "valid y" by simp_all
  then have "x = y" and "concat (map enc xs) @ r = concat (map enc ys') @ s"
    using prefix_free by blast+
  moreover from this(2) Cons.prems(1-3) ys have "xs = ys' \<and> r = s"
    by (intro Cons.IH) simp_all
  ultimately show ?case using ys by simp
qed

end

section \<open>Sinks\<close>

text \<open>
  A \<open>byte_sink\<close> is the contract of an operation that appends to a builder: on success the contents
  grow by the encoding of the argument; on failure the builder is dead and has no contents; and the
  operation succeeds when there is room. \<open>shape\<close> is the part of the state it leaves alone; \<open>arg\<close> says
  which arguments the C types allow (a block is smaller than the address space), \<open>valid\<close> which of
  them have an encoding.
\<close>

fun put_list :: "('s \<Rightarrow> 'a \<Rightarrow> bool \<times> 's) \<Rightarrow> 's \<Rightarrow> 'a list \<Rightarrow> bool \<times> 's" where
  "put_list put s [] = (True, s)"
| "put_list put s (x # xs) = (case put s x of
      (False, s') \<Rightarrow> (False, s')
    | (True, s') \<Rightarrow> put_list put s' xs)"

locale byte_sink =
  fixes ok :: "'s \<Rightarrow> bool"
    and contents :: "'s \<Rightarrow> byte list option"
    and dead :: "'s \<Rightarrow> bool"
    and room :: "'s \<Rightarrow> nat \<Rightarrow> bool"
    and shape :: "'s \<Rightarrow> 'b"
    and put :: "'s \<Rightarrow> 'a \<Rightarrow> bool \<times> 's"
    and enc :: "'a \<Rightarrow> byte list"
    and arg :: "'a \<Rightarrow> bool"
    and valid :: "'a \<Rightarrow> bool"
  assumes dead_contents: "dead s \<Longrightarrow> contents s = None"
    and room_mono: "room s n \<Longrightarrow> m \<le> n \<Longrightarrow> room s m"
    and put_True: "ok s \<Longrightarrow> arg x \<Longrightarrow> put s x = (True, s') \<Longrightarrow>
      valid x \<and> ok s' \<and> shape s' = shape s \<and> (\<forall>n. room s n \<longrightarrow> room s' n) \<and>
      (\<exists>w. contents s = Some w \<and> contents s' = Some (w @ enc x))"
    and put_False: "ok s \<Longrightarrow> arg x \<Longrightarrow> put s x = (False, s') \<Longrightarrow>
      ok s' \<and> contents s' = None \<and> (contents s \<noteq> None \<longrightarrow> dead s')"
    and put_room: "ok s \<Longrightarrow> contents s = Some w \<Longrightarrow> arg x \<Longrightarrow> valid x \<Longrightarrow> room s (length (w @ enc x)) \<Longrightarrow>
      fst (put s x)"
begin

lemma put_list_True:
  assumes "ok s" and "list_all arg xs" and "put_list put s xs = (True, s')" and "contents s \<noteq> None"
  shows "list_all valid xs \<and> ok s' \<and> shape s' = shape s \<and> (\<forall>n. room s n \<longrightarrow> room s' n) \<and>
    (\<exists>w. contents s = Some w \<and> contents s' = Some (w @ concat (map enc xs)))"
  using assms
proof (induction xs arbitrary: s)
  case Nil
  then show ?case by auto
next
  case (Cons x xs)
  obtain s1 where p: "put s x = (True, s1)" and rest: "put_list put s1 xs = (True, s')"
    using Cons.prems(3) by (auto split: prod.splits bool.splits)
  obtain w where first: "valid x" "ok s1" "shape s1 = shape s" "\<And>n. room s n \<Longrightarrow> room s1 n"
    "contents s = Some w" "contents s1 = Some (w @ enc x)"
    using put_True [OF Cons.prems(1) _ p] Cons.prems(2) by auto
  with Cons.IH [OF first(2) _ rest] Cons.prems(2) show ?case by auto
qed

lemma put_list_False:
  "ok s \<Longrightarrow> list_all arg xs \<Longrightarrow> put_list put s xs = (False, s') \<Longrightarrow>
    ok s' \<and> contents s' = None \<and> (contents s \<noteq> None \<longrightarrow> dead s')"
proof (induction xs arbitrary: s)
  case Nil
  then show ?case by simp
next
  case (Cons x xs)
  obtain q s1 where p: "put s x = (q, s1)" by fastforce
  show ?case
  proof (cases q)
    case True
    with p have p': "put s x = (True, s1)" by simp
    from put_True [OF Cons.prems(1) _ p'] Cons.prems(2) have "ok s1" "contents s1 \<noteq> None" by auto
    with Cons p' show ?thesis by simp
  next
    case False
    with p Cons.prems put_False [OF Cons.prems(1), of x] show ?thesis by simp
  qed
qed

lemma put_list_room:
  assumes "ok s" and "contents s = Some w" and "list_all arg xs" and "list_all valid xs"
    and "room s (length (w @ concat (map enc xs)))"
  shows "fst (put_list put s xs)"
  using assms
proof (induction xs arbitrary: s w)
  case Nil
  then show ?case by simp
next
  case (Cons x xs)
  have "room s (length (w @ enc x))" using Cons.prems(5) by (rule room_mono) simp
  with Cons.prems obtain s1 where p: "put s x = (True, s1)"
    using put_room [of s w x] by (cases "put s x") auto
  from put_True [OF Cons.prems(1) _ p] Cons.prems(2,3,5) have s1: "ok s1" "contents s1 = Some (w @ enc x)"
    "room s1 (length ((w @ enc x) @ concat (map enc xs)))" by auto
  from Cons.IH [OF s1(1,2) _ _ s1(3)] Cons.prems(3,4) p show ?case by simp
qed

end

lemma fst_TrueE:
  assumes "fst p"
  obtains s where "p = (True, s)"
  using assms by (cases p) auto

text \<open>Two operations in sequence, the second only if the first succeeds.\<close>

definition put_seq :: "('s \<Rightarrow> 'a \<Rightarrow> bool \<times> 's) \<Rightarrow> ('s \<Rightarrow> 'a \<Rightarrow> bool \<times> 's) \<Rightarrow> 's \<Rightarrow> 'a \<Rightarrow> bool \<times> 's" where
  "put_seq p q s x = (case p s x of (False, s') \<Rightarrow> (False, s') | (True, s') \<Rightarrow> q s' x)"

lemma byte_sink_seq:
  assumes p: "byte_sink ok contents dead room shape p e1 a1 v1"
    and q: "byte_sink ok contents dead room shape q e2 a2 v2"
  shows "byte_sink ok contents dead room shape (put_seq p q)
    (\<lambda>x. e1 x @ e2 x) (\<lambda>x. a1 x \<and> a2 x) (\<lambda>x. v1 x \<and> v2 x)"
proof
  fix s assume "dead s" then show "contents s = None" by (rule byte_sink.dead_contents [OF p])
next
  fix s n m assume "room s n" "m \<le> n" then show "room s m" by (rule byte_sink.room_mono [OF p])
next
  fix s x s' assume ok: "ok s" and a: "a1 x \<and> a2 x" and put: "put_seq p q s x = (True, s')"
  obtain s1 where s1: "p s x = (True, s1)" "q s1 x = (True, s')"
    using put by (auto simp: put_seq_def split: prod.splits bool.splits)
  from byte_sink.put_True [OF p ok _ s1(1)] a obtain w where w: "v1 x" "ok s1" "shape s1 = shape s"
    "\<And>n. room s n \<Longrightarrow> room s1 n" "contents s = Some w" "contents s1 = Some (w @ e1 x)" by auto
  from byte_sink.put_True [OF q w(2) _ s1(2)] a w show "(v1 x \<and> v2 x) \<and> ok s' \<and> shape s' = shape s \<and>
      (\<forall>n. room s n \<longrightarrow> room s' n) \<and> (\<exists>w. contents s = Some w \<and> contents s' = Some (w @ e1 x @ e2 x))" by auto
next
  fix s x s' assume ok: "ok s" and a: "a1 x \<and> a2 x" and put: "put_seq p q s x = (False, s')"
  obtain r s1 where s1: "p s x = (r, s1)" by fastforce
  show "ok s' \<and> contents s' = None \<and> (contents s \<noteq> None \<longrightarrow> dead s')"
  proof (cases r)
    case False
    with s1 put a byte_sink.put_False [OF p ok, of x s'] show ?thesis by (simp add: put_seq_def)
  next
    case True
    with s1 have p1: "p s x = (True, s1)" by simp
    from byte_sink.put_True [OF p ok _ p1] a have "ok s1" "contents s1 \<noteq> None" by auto
    with byte_sink.put_False [OF q, of s1 x s'] a p1 put show ?thesis by (simp add: put_seq_def)
  qed
next
  fix s w x assume ok: "ok s" and c: "contents s = Some w" and a: "a1 x \<and> a2 x" and v: "v1 x \<and> v2 x"
    and r: "room s (length (w @ e1 x @ e2 x))"
  have "room s (length (w @ e1 x))" by (rule byte_sink.room_mono [OF p r]) simp
  then have "fst (p s x)" using byte_sink.put_room [OF p ok c] a v by blast
  then obtain s1 where p1: "p s x = (True, s1)" by (cases "p s x") simp
  from byte_sink.put_True [OF p ok _ p1] a c r have "ok s1" "contents s1 = Some (w @ e1 x)"
    "room s1 (length ((w @ e1 x) @ e2 x))" by auto
  from byte_sink.put_room [OF q this(1,2) _ _ this(3)] a v p1 show "fst (put_seq p q s x)" by (simp add: put_seq_def)
qed

text \<open>Precomposition with a function on the argument.\<close>

lemma byte_sink_comp:
  assumes "byte_sink ok contents dead room shape put enc arg valid"
  shows "byte_sink ok contents dead room shape (\<lambda>s x. put s (f x)) (\<lambda>x. enc (f x)) (\<lambda>x. arg (f x)) (\<lambda>x. valid (f x))"
  using assms unfolding byte_sink_def by blast

lemma byte_sink_if:
  assumes p: "byte_sink ok contents dead room shape p e1 a1 v1"
    and q: "byte_sink ok contents dead room shape q e2 a2 v2"
  shows "byte_sink ok contents dead room shape (\<lambda>s x. if b x then p s x else q s x)
    (\<lambda>x. if b x then e1 x else e2 x) (\<lambda>x. if b x then a1 x else a2 x) (\<lambda>x. if b x then v1 x else v2 x)"
proof
  fix s assume "dead s" then show "contents s = None" by (rule byte_sink.dead_contents [OF p])
next
  fix s n m assume "room s n" "m \<le> n" then show "room s m" by (rule byte_sink.room_mono [OF p])
next
  fix s x s' assume "ok s" "if b x then a1 x else a2 x" "(if b x then p s x else q s x) = (True, s')"
  then show "(if b x then v1 x else v2 x) \<and> ok s' \<and> shape s' = shape s \<and> (\<forall>n. room s n \<longrightarrow> room s' n) \<and>
      (\<exists>w. contents s = Some w \<and> contents s' = Some (w @ (if b x then e1 x else e2 x)))"
    using byte_sink.put_True [OF p, of s x s'] byte_sink.put_True [OF q, of s x s'] by (cases "b x") simp_all
next
  fix s x s' assume "ok s" "if b x then a1 x else a2 x" "(if b x then p s x else q s x) = (False, s')"
  then show "ok s' \<and> contents s' = None \<and> (contents s \<noteq> None \<longrightarrow> dead s')"
    using byte_sink.put_False [OF p, of s x s'] byte_sink.put_False [OF q, of s x s'] by (cases "b x") simp_all
next
  fix s w x assume "ok s" "contents s = Some w" "if b x then a1 x else a2 x" "if b x then v1 x else v2 x"
    "room s (length (w @ (if b x then e1 x else e2 x)))"
  then show "fst (if b x then p s x else q s x)"
    using byte_sink.put_room [OF p, of s w x] byte_sink.put_room [OF q, of s w x] by (cases "b x") simp_all
qed

text \<open>An operation that agrees with a sink on the arguments it takes is a sink.\<close>

lemma byte_sink_cong:
  assumes p: "byte_sink ok contents dead room shape p e a v"
    and put: "\<And>s x. arg x \<Longrightarrow> put s x = p s x" and args: "\<And>x. arg x \<Longrightarrow> a x \<and> enc x = e x \<and> (valid x \<longleftrightarrow> v x)"
  shows "byte_sink ok contents dead room shape put enc arg valid"
proof
  fix s assume "dead s" then show "contents s = None" by (rule byte_sink.dead_contents [OF p])
next
  fix s n m assume "room s n" "m \<le> n" then show "room s m" by (rule byte_sink.room_mono [OF p])
next
  fix s x s' assume "ok s" "arg x" "put s x = (True, s')"
  then show "valid x \<and> ok s' \<and> shape s' = shape s \<and> (\<forall>n. room s n \<longrightarrow> room s' n) \<and>
      (\<exists>w. contents s = Some w \<and> contents s' = Some (w @ enc x))"
    using byte_sink.put_True [OF p, of s x s'] put [of x s] args [of x] by simp
next
  fix s x s' assume "ok s" "arg x" "put s x = (False, s')"
  then show "ok s' \<and> contents s' = None \<and> (contents s \<noteq> None \<longrightarrow> dead s')"
    using byte_sink.put_False [OF p, of s x s'] put [of x s] args [of x] by simp
next
  fix s w x assume "ok s" "contents s = Some w" "arg x" "valid x" "room s (length (w @ enc x))"
  then show "fst (put s x)"
    using byte_sink.put_room [OF p, of s w x] put [of x s] args [of x] by simp
qed

end
