(* ===== verification/Mem.thy ===== *)
theory Mem
  imports Prelude
begin

text \<open>
  The memory and string helpers of \<^verbatim>\<open>crypto/mem.c\<close>. The C library's \<open>malloc\<close> is a parameter: an
  \<open>allocator\<close> says which request sizes are granted and what a fresh block holds. The weak
  symbols \<open>OPENSSL_memory_*\<close> are null on this platform, so only the default path of
  \<open>OPENSSL_malloc\<close> and \<open>OPENSSL_realloc\<close> is modelled. A pointer to \<open>n\<close> bytes is the list of those
  bytes, a null pointer is \<open>None\<close>; a C string is the list of its bytes before the terminator.
\<close>

record allocator =
  grants :: "nat \<Rightarrow> bool"
  junk :: "nat \<Rightarrow> byte"

text \<open>An allocator that grants every request, for the concrete instances.\<close>

definition generous :: allocator where
  "generous = \<lparr>grants = (\<lambda>_. True), junk = (\<lambda>_. 0)\<rparr>"

definition malloc :: "allocator \<Rightarrow> nat \<Rightarrow> byte list option" where
  "malloc mem n = (if grants mem n then Some (map (junk mem) [0..<n]) else None)"

definition OPENSSL_MALLOC_PREFIX :: nat where
  "OPENSSL_MALLOC_PREFIX = 8"

text \<open>The block that \<open>malloc\<close> returns starts with the eight bytes of the stored size (little endian);
  the caller gets the bytes after it.\<close>

definition OPENSSL_malloc :: "allocator \<Rightarrow> nat \<Rightarrow> byte list option" where
  "OPENSSL_malloc mem sz =
     (if (sz + OPENSSL_MALLOC_PREFIX) mod SIZE_MOD < sz then None
      else case malloc mem ((sz + OPENSSL_MALLOC_PREFIX) mod SIZE_MOD) of
          None \<Rightarrow> None
        | Some ptr \<Rightarrow>
            let ptr = rev (be_bytes OPENSSL_MALLOC_PREFIX sz) @ drop OPENSSL_MALLOC_PREFIX ptr
            in Some (drop OPENSSL_MALLOC_PREFIX ptr))"

definition OPENSSL_realloc :: "allocator \<Rightarrow> byte list option \<Rightarrow> nat \<Rightarrow> byte list option" where
  "OPENSSL_realloc mem orig_ptr new_size =
     (case orig_ptr of
        None \<Rightarrow> OPENSSL_malloc mem new_size
      | Some old \<Rightarrow>
          (case OPENSSL_malloc mem new_size of
             None \<Rightarrow> None
           | Some ret \<Rightarrow>
               let to_copy = (if length old < new_size then length old else new_size)
               in Some (take to_copy old @ drop to_copy ret)))"

definition OPENSSL_cleanse :: "byte list \<Rightarrow> byte list" where
  "OPENSSL_cleanse ptr = replicate (length ptr) 0"

definition OPENSSL_memdup :: "allocator \<Rightarrow> byte list \<Rightarrow> byte list option" where
  "OPENSSL_memdup mem data =
     (if length data = 0 then None
      else case OPENSSL_malloc mem (length data) of
          None \<Rightarrow> None
        | Some ret \<Rightarrow> Some (data @ drop (length data) ret))"

definition OPENSSL_memmove :: "byte list \<Rightarrow> nat \<Rightarrow> nat \<Rightarrow> nat \<Rightarrow> byte list" where
  "OPENSSL_memmove buf dst src n = take dst buf @ take n (drop src buf) @ drop (dst + n) buf"

definition OPENSSL_memcpy :: "byte list \<Rightarrow> nat \<Rightarrow> byte list \<Rightarrow> byte list" where
  "OPENSSL_memcpy buf dst data = take dst buf @ data @ drop (dst + length data) buf"

fun CRYPTO_memcmp_loop :: "byte \<Rightarrow> byte list \<Rightarrow> byte list \<Rightarrow> byte" where
  "CRYPTO_memcmp_loop x (a # as) (b # bs) = CRYPTO_memcmp_loop (x OR (a XOR b)) as bs"
| "CRYPTO_memcmp_loop x as bs = x"

definition CRYPTO_memcmp :: "byte list \<Rightarrow> byte list \<Rightarrow> nat \<Rightarrow> byte" where
  "CRYPTO_memcmp in_a in_b len = CRYPTO_memcmp_loop 0 (take len in_a) (take len in_b)"

fun OPENSSL_hash32_loop :: "u32 \<Rightarrow> byte list \<Rightarrow> u32" where
  "OPENSSL_hash32_loop h [] = h"
| "OPENSSL_hash32_loop h (b # bs) = OPENSSL_hash32_loop ((h XOR ucast b) * 16777619) bs"

definition OPENSSL_hash32 :: "byte list \<Rightarrow> u32" where
  "OPENSSL_hash32 ptr = OPENSSL_hash32_loop 2166136261 ptr"

definition OPENSSL_strhash :: "byte list \<Rightarrow> u32" where
  "OPENSSL_strhash s = OPENSSL_hash32 s"

text \<open>\<open>OPENSSL_strnlen\<close> reads at most \<open>len\<close> bytes of a buffer that need not hold a terminator. As with every C string of this theory, the
  end of the list stands for the terminator; callers with a buffer that has none pass a \<open>len\<close> within it.\<close>

fun OPENSSL_strnlen :: "byte list \<Rightarrow> nat \<Rightarrow> nat" where
  "OPENSSL_strnlen s 0 = 0"
| "OPENSSL_strnlen [] (Suc len) = 0"
| "OPENSSL_strnlen (c # s) (Suc len) = (if c = 0 then 0 else Suc (OPENSSL_strnlen s len))"

definition OPENSSL_strdup :: "allocator \<Rightarrow> byte list option \<Rightarrow> byte list option" where
  "OPENSSL_strdup mem s =
     (case s of
        None \<Rightarrow> None
      | Some s \<Rightarrow>
          let len = length s + 1
          in case OPENSSL_malloc mem len of
               None \<Rightarrow> None
             | Some ret \<Rightarrow> Some ((s @ [0]) @ drop len ret))"

text \<open>The block \<open>OPENSSL_strndup\<close> returns, terminator included.\<close>

definition OPENSSL_strndup :: "allocator \<Rightarrow> byte list \<Rightarrow> nat \<Rightarrow> byte list option" where
  "OPENSSL_strndup mem str sz =
     (let sz = OPENSSL_strnlen str sz;
          alloc_size = (sz + 1) mod SIZE_MOD
      in if alloc_size < sz then None
         else case OPENSSL_malloc mem alloc_size of
             None \<Rightarrow> None
           | Some ret \<Rightarrow> Some ((take sz str @ drop sz ret)[sz := 0]))"

definition OPENSSL_tolower :: "int \<Rightarrow> int" where
  "OPENSSL_tolower c = (if c \<ge> 65 \<and> c \<le> 90 then c + (97 - 65) else c)"

text \<open>\<open>char\<close> is signed on this platform, and reading at the end of a C string gives the terminator.\<close>

definition char_at :: "byte list \<Rightarrow> int" where
  "char_at s = (case s of [] \<Rightarrow> 0 | c # _ \<Rightarrow> sint c)"

function OPENSSL_strcasecmp :: "byte list \<Rightarrow> byte list \<Rightarrow> int" where
  "OPENSSL_strcasecmp a b =
     (let aa = OPENSSL_tolower (char_at a);
          bb = OPENSSL_tolower (char_at b)
      in if aa < bb then - 1
         else if aa > bb then 1
         else if aa = 0 then 0
         else OPENSSL_strcasecmp (tl a) (tl b))"
  by pat_completeness auto
termination
  by (relation "measure (\<lambda>(a, b). length a)")
    (auto simp: char_at_def OPENSSL_tolower_def split: list.splits)

declare OPENSSL_strcasecmp.simps [simp del]

fun OPENSSL_strncasecmp :: "byte list \<Rightarrow> byte list \<Rightarrow> nat \<Rightarrow> int" where
  "OPENSSL_strncasecmp a b 0 = 0"
| "OPENSSL_strncasecmp a b (Suc n) =
     (let aa = OPENSSL_tolower (char_at a);
          bb = OPENSSL_tolower (char_at b)
      in if aa < bb then - 1
         else if aa > bb then 1
         else if aa = 0 then 0
         else OPENSSL_strncasecmp (tl a) (tl b) n)"

text \<open>\<open>OPENSSL_strlcpy dst src dst_size\<close> gives the new contents of the block \<open>dst\<close> and the value
  returned. The loop copies while there is room for one more byte and the source has not ended.\<close>

fun strlcpy_loop :: "byte list \<Rightarrow> byte list \<Rightarrow> nat \<Rightarrow> byte list \<times> byte list \<times> nat \<times> nat" where
  "strlcpy_loop done src dst_size =
     (case src of
        [] \<Rightarrow> (done, src, dst_size, length done)
      | c # src' \<Rightarrow>
          if dst_size > 1 \<and> c \<noteq> 0 then strlcpy_loop (done @ [c]) src' (dst_size - 1)
          else (done, src, dst_size, length done))"

definition OPENSSL_strlcpy :: "byte list \<Rightarrow> byte list \<Rightarrow> nat \<Rightarrow> byte list \<times> nat" where
  "OPENSSL_strlcpy dst src dst_size =
     (case strlcpy_loop [] src dst_size of
        (done, src', dst_size', l) \<Rightarrow>
          let dst' = done @ drop (length done) dst;
              dst' = (if dst_size' \<noteq> 0 then dst'[length done := 0] else dst')
          in (dst', l + OPENSSL_strnlen src' (length src')))"

fun strlcat_scan :: "byte list \<Rightarrow> nat \<Rightarrow> nat" where
  "strlcat_scan [] dst_size = 0"
| "strlcat_scan (c # dst) dst_size =
     (if dst_size > 0 \<and> c \<noteq> 0 then Suc (strlcat_scan dst (dst_size - 1)) else 0)"

definition OPENSSL_strlcat :: "byte list \<Rightarrow> byte list \<Rightarrow> nat \<Rightarrow> byte list \<times> nat" where
  "OPENSSL_strlcat dst src dst_size =
     (let l = strlcat_scan dst dst_size
      in case OPENSSL_strlcpy (drop l dst) src (dst_size - l) of
           (dst', r) \<Rightarrow> (take l dst @ dst', l + r))"

section \<open>Allocation\<close>

lemma length_malloc: "malloc mem n = Some p \<Longrightarrow> length p = n"
  by (auto simp: malloc_def split: if_splits)

lemma size_prefix_wrap:
  "sz < SIZE_MOD \<Longrightarrow> \<not> (sz + OPENSSL_MALLOC_PREFIX) mod SIZE_MOD < sz \<Longrightarrow>
    (sz + OPENSSL_MALLOC_PREFIX) mod SIZE_MOD = sz + OPENSSL_MALLOC_PREFIX"
  by (auto simp: OPENSSL_MALLOC_PREFIX_def mod_if split: if_splits)

lemma length_OPENSSL_malloc:
  assumes "OPENSSL_malloc mem n = Some p" and "n < SIZE_MOD"
  shows "length p = n"
  using assms size_prefix_wrap [of n]
  by (auto simp: OPENSSL_malloc_def OPENSSL_MALLOC_PREFIX_def Let_def dest!: length_malloc
      split: if_splits option.splits)

lemma length_OPENSSL_realloc:
  assumes "OPENSSL_realloc mem old n = Some p" and "n < SIZE_MOD"
  shows "length p = n"
  using assms
  by (auto simp: OPENSSL_realloc_def Let_def dest: length_OPENSSL_malloc split: option.splits)

lemma OPENSSL_realloc_keeps:
  assumes "OPENSSL_realloc mem (Some old) n = Some p" and "n < SIZE_MOD" and "k \<le> length old" and "k \<le> n"
  shows "take k p = take k old"
  using assms
  by (auto simp: OPENSSL_realloc_def Let_def min_def dest: length_OPENSSL_malloc split: option.splits)

lemma OPENSSL_malloc_granted:
  "grants mem (n + 8) \<Longrightarrow> n + 8 < SIZE_MOD \<Longrightarrow> \<exists>p. OPENSSL_malloc mem n = Some p"
  by (simp add: OPENSSL_malloc_def OPENSSL_MALLOC_PREFIX_def malloc_def Let_def)

lemma OPENSSL_realloc_granted:
  "grants mem (n + 8) \<Longrightarrow> n + 8 < SIZE_MOD \<Longrightarrow> \<exists>p. OPENSSL_realloc mem old n = Some p"
  using OPENSSL_malloc_granted [of mem n]
  by (auto simp: OPENSSL_realloc_def Let_def split: option.splits)

lemma OPENSSL_memdup_copy:
  assumes "length data < SIZE_MOD"
  shows "OPENSSL_memdup mem data =
    (if data = [] \<or> OPENSSL_malloc mem (length data) = None then None else Some data)"
  using assms
  by (auto simp: OPENSSL_memdup_def dest: length_OPENSSL_malloc split: option.splits)

section \<open>Constant-time comparison\<close>

lemma or_eq_0_iff_word: "(x :: byte) OR y = 0 \<longleftrightarrow> x = 0 \<and> y = 0"
  by (fact or_eq_0_iff)

lemma CRYPTO_memcmp_loop_0:
  "length as = length bs \<Longrightarrow> CRYPTO_memcmp_loop x as bs = 0 \<longleftrightarrow> x = 0 \<and> as = bs"
  by (induction x as bs rule: CRYPTO_memcmp_loop.induct) (auto simp: or_eq_0_iff_word)

lemma CRYPTO_memcmp_0:
  "length a = len \<Longrightarrow> length b = len \<Longrightarrow> CRYPTO_memcmp a b len = 0 \<longleftrightarrow> a = b"
  by (simp add: CRYPTO_memcmp_def CRYPTO_memcmp_loop_0)

end
