(* ===== verification/CBS.thy ===== *)
theory CBS
  imports Mem
begin

text \<open>
  The cursor over immutable bytes of \<^verbatim>\<open>crypto/bytestring/cbs.c\<close>. A \<open>CBS\<close> (data pointer and
  length) is the list of bytes it still covers. An operation \<open>int f(CBS *cbs, T *out)\<close> is a function
  from the cursor to the value written to \<open>out\<close> (\<open>None\<close> when the call returns zero) and the cursor
  after the call, on failure too: some operations fail without moving the cursor, others after
  consuming a prefix. The values an out-parameter holds after a failed call are not modelled.
  \<open>CBS_asn1_oid_to_text\<close>, which needs the builder, is in theory \<open>OID\<close>.
\<close>

type_synonym CBS = "byte list"
type_synonym 'a cbs_result = "'a cursor_result"

section \<open>Reading bytes and integers\<close>

definition cbs_get :: "CBS \<Rightarrow> nat \<Rightarrow> byte list cbs_result" where
  "cbs_get cbs n = (if length cbs < n then (None, cbs) else (Some (take n cbs), drop n cbs))"

definition CBS_skip :: "CBS \<Rightarrow> nat \<Rightarrow> unit cbs_result" where
  "CBS_skip cbs len = (case cbs_get cbs len of
      (None, cbs') \<Rightarrow> (None, cbs')
    | (Some _, cbs') \<Rightarrow> (Some (), cbs'))"

text \<open>\<open>CBS_stow\<close> returns whether it succeeded and the copy, a null pointer for an empty cursor.\<close>

definition CBS_stow :: "allocator \<Rightarrow> CBS \<Rightarrow> bool \<times> byte list option" where
  "CBS_stow mem cbs =
     (if length cbs = 0 then (True, None)
      else case OPENSSL_memdup mem cbs of
          None \<Rightarrow> (False, None)
        | Some p \<Rightarrow> (True, Some p))"

definition CBS_strdup :: "allocator \<Rightarrow> CBS \<Rightarrow> byte list option" where
  "CBS_strdup mem cbs = OPENSSL_strndup mem cbs (length cbs)"

text \<open>\<open>OPENSSL_memchr\<close>: the offset of the first byte equal to \<open>c\<close>.\<close>

fun OPENSSL_memchr :: "byte list \<Rightarrow> byte \<Rightarrow> nat option" where
  "OPENSSL_memchr [] c = None"
| "OPENSSL_memchr (b # bs) c = (if b = c then Some 0 else map_option Suc (OPENSSL_memchr bs c))"

definition CBS_contains_zero_byte :: "CBS \<Rightarrow> bool" where
  "CBS_contains_zero_byte cbs = (OPENSSL_memchr cbs 0 \<noteq> None)"

definition CBS_mem_equal :: "CBS \<Rightarrow> byte list \<Rightarrow> nat \<Rightarrow> bool" where
  "CBS_mem_equal cbs data len =
     (if len \<noteq> length cbs then False else CRYPTO_memcmp cbs data len = 0)"

fun cbs_get_u_loop :: "u64 \<Rightarrow> byte list \<Rightarrow> u64" where
  "cbs_get_u_loop result [] = result"
| "cbs_get_u_loop result (b # data) = cbs_get_u_loop (push_bit 8 result OR ucast b) data"

definition cbs_get_u :: "CBS \<Rightarrow> nat \<Rightarrow> u64 cbs_result" where
  "cbs_get_u cbs len = (case cbs_get cbs len of
      (None, cbs') \<Rightarrow> (None, cbs')
    | (Some data, cbs') \<Rightarrow> (Some (cbs_get_u_loop 0 data), cbs'))"

definition CBS_get_u8 :: "CBS \<Rightarrow> byte cbs_result" where
  "CBS_get_u8 cbs = (case cbs_get cbs 1 of
      (None, cbs') \<Rightarrow> (None, cbs')
    | (Some v, cbs') \<Rightarrow> (Some (v ! 0), cbs'))"

definition CBS_get_u16 :: "CBS \<Rightarrow> u16 cbs_result" where
  "CBS_get_u16 cbs = (case cbs_get_u cbs 2 of
      (None, cbs') \<Rightarrow> (None, cbs')
    | (Some v, cbs') \<Rightarrow> (Some (ucast v), cbs'))"

text \<open>The byte-swapping intrinsics: reverse the bytes of the big-endian encoding.\<close>

definition CRYPTO_bswap2 :: "u16 \<Rightarrow> u16" where
  "CRYPTO_bswap2 x = of_nat (le_value (be_bytes 2 (unat x)))"

definition CRYPTO_bswap4 :: "u32 \<Rightarrow> u32" where
  "CRYPTO_bswap4 x = of_nat (le_value (be_bytes 4 (unat x)))"

definition CRYPTO_bswap8 :: "u64 \<Rightarrow> u64" where
  "CRYPTO_bswap8 x = of_nat (le_value (be_bytes 8 (unat x)))"

definition CBS_get_u16le :: "CBS \<Rightarrow> u16 cbs_result" where
  "CBS_get_u16le cbs = (case CBS_get_u16 cbs of
      (None, cbs') \<Rightarrow> (None, cbs')
    | (Some v, cbs') \<Rightarrow> (Some (CRYPTO_bswap2 v), cbs'))"

definition CBS_get_u24 :: "CBS \<Rightarrow> u32 cbs_result" where
  "CBS_get_u24 cbs = (case cbs_get_u cbs 3 of
      (None, cbs') \<Rightarrow> (None, cbs')
    | (Some v, cbs') \<Rightarrow> (Some (ucast v), cbs'))"

definition CBS_get_u32 :: "CBS \<Rightarrow> u32 cbs_result" where
  "CBS_get_u32 cbs = (case cbs_get_u cbs 4 of
      (None, cbs') \<Rightarrow> (None, cbs')
    | (Some v, cbs') \<Rightarrow> (Some (ucast v), cbs'))"

definition CBS_get_u32le :: "CBS \<Rightarrow> u32 cbs_result" where
  "CBS_get_u32le cbs = (case CBS_get_u32 cbs of
      (None, cbs') \<Rightarrow> (None, cbs')
    | (Some v, cbs') \<Rightarrow> (Some (CRYPTO_bswap4 v), cbs'))"

definition CBS_get_u64 :: "CBS \<Rightarrow> u64 cbs_result" where
  "CBS_get_u64 cbs = cbs_get_u cbs 8"

definition CBS_get_u64le :: "CBS \<Rightarrow> u64 cbs_result" where
  "CBS_get_u64le cbs = (case cbs_get_u cbs 8 of
      (None, cbs') \<Rightarrow> (None, cbs')
    | (Some v, cbs') \<Rightarrow> (Some (CRYPTO_bswap8 v), cbs'))"

definition CBS_get_last_u8 :: "CBS \<Rightarrow> byte cbs_result" where
  "CBS_get_last_u8 cbs =
     (if length cbs = 0 then (None, cbs)
      else (Some (cbs ! (length cbs - 1)), take (length cbs - 1) cbs))"

definition CBS_get_bytes :: "CBS \<Rightarrow> nat \<Rightarrow> CBS cbs_result" where
  "CBS_get_bytes cbs len = (case cbs_get cbs len of
      (None, cbs') \<Rightarrow> (None, cbs')
    | (Some v, cbs') \<Rightarrow> (Some v, cbs'))"

definition CBS_copy_bytes :: "CBS \<Rightarrow> nat \<Rightarrow> byte list cbs_result" where
  "CBS_copy_bytes cbs len = (case cbs_get cbs len of
      (None, cbs') \<Rightarrow> (None, cbs')
    | (Some v, cbs') \<Rightarrow> (Some (take len v), cbs'))"

definition cbs_get_length_prefixed :: "CBS \<Rightarrow> nat \<Rightarrow> CBS cbs_result" where
  "cbs_get_length_prefixed cbs len_len = (case cbs_get_u cbs len_len of
      (None, cbs') \<Rightarrow> (None, cbs')
    | (Some len, cbs') \<Rightarrow> CBS_get_bytes cbs' (unat len))"

definition CBS_get_u8_length_prefixed :: "CBS \<Rightarrow> CBS cbs_result" where
  "CBS_get_u8_length_prefixed cbs = cbs_get_length_prefixed cbs 1"

definition CBS_get_u16_length_prefixed :: "CBS \<Rightarrow> CBS cbs_result" where
  "CBS_get_u16_length_prefixed cbs = cbs_get_length_prefixed cbs 2"

definition CBS_get_u24_length_prefixed :: "CBS \<Rightarrow> CBS cbs_result" where
  "CBS_get_u24_length_prefixed cbs = cbs_get_length_prefixed cbs 3"

definition CBS_get_until_first :: "CBS \<Rightarrow> byte \<Rightarrow> CBS cbs_result" where
  "CBS_get_until_first cbs c = (case OPENSSL_memchr cbs c of
      None \<Rightarrow> (None, cbs)
    | Some split \<Rightarrow> CBS_get_bytes cbs split)"

section \<open>ASN.1 elements\<close>

text \<open>The tag constants of \<^verbatim>\<open>bytestring.h\<close>.\<close>

definition CBS_ASN1_TAG_SHIFT :: nat where "CBS_ASN1_TAG_SHIFT = 24"
definition CBS_ASN1_CONSTRUCTED :: u32 where "CBS_ASN1_CONSTRUCTED = 0x20000000"
definition CBS_ASN1_TAG_NUMBER_MASK :: u32 where "CBS_ASN1_TAG_NUMBER_MASK = 0x1fffffff"
definition CBS_ASN1_BOOLEAN :: u32 where "CBS_ASN1_BOOLEAN = 0x1"
definition CBS_ASN1_INTEGER :: u32 where "CBS_ASN1_INTEGER = 0x2"
definition CBS_ASN1_OCTETSTRING :: u32 where "CBS_ASN1_OCTETSTRING = 0x4"

lemmas asn1_tag_defs = CBS_ASN1_TAG_SHIFT_def CBS_ASN1_CONSTRUCTED_def CBS_ASN1_TAG_NUMBER_MASK_def
  CBS_ASN1_BOOLEAN_def CBS_ASN1_INTEGER_def CBS_ASN1_OCTETSTRING_def

text \<open>The \<open>do\<close> loop of \<open>parse_base128_integer\<close>; each round starts with \<open>CBS_get_u8\<close>, which fails
  exactly on the empty cursor.\<close>

fun parse_base128_loop :: "u64 \<Rightarrow> CBS \<Rightarrow> u64 cbs_result" where
  "parse_base128_loop v [] = (None, [])"
| "parse_base128_loop v (b # cbs) =
     (if drop_bit (64 - 7) v \<noteq> 0 then (None, cbs)
      else if v = 0 \<and> b = 0x80 then (None, cbs)
      else let v' = push_bit 7 v OR ucast (b AND 0x7f)
           in if b AND 0x80 \<noteq> 0 then parse_base128_loop v' cbs else (Some v', cbs))"

definition parse_base128_integer :: "CBS \<Rightarrow> u64 cbs_result" where
  "parse_base128_integer cbs = parse_base128_loop 0 cbs"

definition parse_asn1_tag :: "CBS \<Rightarrow> u32 cbs_result" where
  "parse_asn1_tag cbs = (case CBS_get_u8 cbs of
      (None, cbs') \<Rightarrow> (None, cbs')
    | (Some tag_byte, cbs') \<Rightarrow>
        let tag = push_bit CBS_ASN1_TAG_SHIFT (ucast tag_byte AND 0xe0 :: u32);
            tag_number = ucast (tag_byte AND 0x1f) :: u32
        in if tag_number = 0x1f then
             (case parse_base128_integer cbs' of
                (None, cbs'') \<Rightarrow> (None, cbs'')
              | (Some v, cbs'') \<Rightarrow>
                  if v > ucast CBS_ASN1_TAG_NUMBER_MASK \<or> v < 0x1f then (None, cbs'')
                  else (Some (tag OR ucast v), cbs''))
           else (Some (tag OR tag_number), cbs'))"

record asn1_element =
  el_out :: CBS
  el_tag :: u32
  el_header_len :: nat
  el_ber_found :: bool

definition cbs_get_any_asn1_element :: "CBS \<Rightarrow> bool \<Rightarrow> asn1_element cbs_result" where
  "cbs_get_any_asn1_element cbs ber_ok =
     (case parse_asn1_tag cbs of
        (None, _) \<Rightarrow> (None, cbs)
      | (Some tag, header) \<Rightarrow>
     (case CBS_get_u8 header of
        (None, _) \<Rightarrow> (None, cbs)
      | (Some length_byte, header) \<Rightarrow>
        let header_len = length cbs - length header;
            result = (\<lambda>len header_len ber_found. case CBS_get_bytes cbs len of
                (None, cbs') \<Rightarrow> (None, cbs')
              | (Some out, cbs') \<Rightarrow> (Some \<lparr>el_out = out, el_tag = tag,
                  el_header_len = header_len, el_ber_found = ber_found\<rparr>, cbs'))
        in if length_byte AND 0x80 = 0 then
             result (unat length_byte + header_len) header_len False
           else let num_bytes = unat (length_byte AND 0x7f)
           in if ber_ok \<and> tag AND CBS_ASN1_CONSTRUCTED \<noteq> 0 \<and> num_bytes = 0 then
                result header_len header_len True
              else if num_bytes = 0 \<or> num_bytes > 4 then (None, cbs)
              else (case cbs_get_u header num_bytes of
                  (None, _) \<Rightarrow> (None, cbs)
                | (Some len64, header) \<Rightarrow>
                    let not_short = len64 < 128;
                        not_minimal = drop_bit ((num_bytes - 1) * 8) len64 = 0;
                        len = unat len64
                    in if not_short \<and> \<not> ber_ok then (None, cbs)
                       else if not_minimal \<and> \<not> ber_ok then (None, cbs)
                       else if (len + header_len + num_bytes) mod SIZE_MOD < len then (None, cbs)
                       else result ((len + header_len + num_bytes) mod SIZE_MOD)
                              (header_len + num_bytes) (not_short \<or> not_minimal))))"

definition CBS_get_any_asn1_element :: "CBS \<Rightarrow> asn1_element cbs_result" where
  "CBS_get_any_asn1_element cbs = cbs_get_any_asn1_element cbs False"

definition CBS_get_any_ber_asn1_element :: "CBS \<Rightarrow> asn1_element cbs_result" where
  "CBS_get_any_ber_asn1_element cbs = cbs_get_any_asn1_element cbs True"

text \<open>\<open>CBS_get_any_asn1\<close> gives the contents and the tag.\<close>

definition CBS_get_any_asn1 :: "CBS \<Rightarrow> (CBS \<times> u32) cbs_result" where
  "CBS_get_any_asn1 cbs = (case CBS_get_any_asn1_element cbs of
      (None, cbs') \<Rightarrow> (None, cbs')
    | (Some e, cbs') \<Rightarrow> (case CBS_skip (el_out e) (el_header_len e) of
          (None, _) \<Rightarrow> (None, cbs')
        | (Some _, out) \<Rightarrow> (Some (out, el_tag e), cbs')))"

definition cbs_get_asn1 :: "CBS \<Rightarrow> u32 \<Rightarrow> bool \<Rightarrow> CBS cbs_result" where
  "cbs_get_asn1 cbs tag_value skip_header = (case CBS_get_any_asn1_element cbs of
      (None, cbs') \<Rightarrow> (None, cbs')
    | (Some e, cbs') \<Rightarrow>
        if el_tag e \<noteq> tag_value then (None, cbs')
        else if skip_header then (case CBS_skip (el_out e) (el_header_len e) of
            (None, _) \<Rightarrow> (None, cbs')
          | (Some _, out) \<Rightarrow> (Some out, cbs'))
        else (Some (el_out e), cbs'))"

definition CBS_get_asn1 :: "CBS \<Rightarrow> u32 \<Rightarrow> CBS cbs_result" where
  "CBS_get_asn1 cbs tag_value = cbs_get_asn1 cbs tag_value True"

definition CBS_get_asn1_element :: "CBS \<Rightarrow> u32 \<Rightarrow> CBS cbs_result" where
  "CBS_get_asn1_element cbs tag_value = cbs_get_asn1 cbs tag_value False"

definition CBS_peek_asn1_tag :: "CBS \<Rightarrow> u32 \<Rightarrow> bool" where
  "CBS_peek_asn1_tag cbs tag_value =
     (if length cbs < 1 then False
      else case parse_asn1_tag cbs of
          (None, _) \<Rightarrow> False
        | (Some actual_tag, _) \<Rightarrow> tag_value = actual_tag)"

section \<open>ASN.1 primitive values\<close>

text \<open>\<open>CBS_is_valid_asn1_integer\<close> gives \<open>None\<close> for an invalid encoding and otherwise the sign.\<close>

definition CBS_is_valid_asn1_integer :: "CBS \<Rightarrow> bool option" where
  "CBS_is_valid_asn1_integer cbs = (case CBS_get_u8 cbs of
      (None, _) \<Rightarrow> None
    | (Some first_byte, copy) \<Rightarrow>
        let is_negative = first_byte AND 0x80 \<noteq> 0
        in case CBS_get_u8 copy of
             (None, _) \<Rightarrow> Some is_negative
           | (Some second_byte, _) \<Rightarrow>
               if (first_byte = 0x00 \<and> second_byte AND 0x80 = 0) \<or>
                  (first_byte = 0xff \<and> second_byte AND 0x80 \<noteq> 0)
               then None else Some is_negative)"

definition CBS_is_unsigned_asn1_integer :: "CBS \<Rightarrow> bool" where
  "CBS_is_unsigned_asn1_integer cbs = (case CBS_is_valid_asn1_integer cbs of
      None \<Rightarrow> False
    | Some is_negative \<Rightarrow> \<not> is_negative)"

fun asn1_uint64_loop :: "u64 \<Rightarrow> byte list \<Rightarrow> u64 option" where
  "asn1_uint64_loop out [] = Some out"
| "asn1_uint64_loop out (b # data) =
     (if drop_bit 56 out \<noteq> 0 then None
      else asn1_uint64_loop (push_bit 8 out OR ucast b) data)"

definition CBS_get_asn1_uint64 :: "CBS \<Rightarrow> u64 cbs_result" where
  "CBS_get_asn1_uint64 cbs = (case CBS_get_asn1 cbs CBS_ASN1_INTEGER of
      (None, cbs') \<Rightarrow> (None, cbs')
    | (Some bytes, cbs') \<Rightarrow>
        if \<not> CBS_is_unsigned_asn1_integer bytes then (None, cbs')
        else (asn1_uint64_loop 0 bytes, cbs'))"

text \<open>The union of an \<open>int64_t\<close> with its eight bytes is read in the platform's little-endian order;
  the loop stores the content bytes from the last one on.\<close>

fun int64_fill :: "byte list \<Rightarrow> nat \<Rightarrow> byte list \<Rightarrow> byte list" where
  "int64_fill u i [] = u"
| "int64_fill u i (b # bs) = int64_fill (u[i := b]) (Suc i) bs"

definition CBS_get_asn1_int64 :: "CBS \<Rightarrow> u64 cbs_result" where
  "CBS_get_asn1_int64 cbs = (case CBS_get_asn1 cbs CBS_ASN1_INTEGER of
      (None, cbs') \<Rightarrow> (None, cbs')
    | (Some bytes, cbs') \<Rightarrow>
        (case CBS_is_valid_asn1_integer bytes of
           None \<Rightarrow> (None, cbs')
         | Some is_negative \<Rightarrow>
             if length bytes > 8 then (None, cbs')
             else let u = int64_fill (replicate 8 (if is_negative then 0xff else 0)) 0 (rev bytes)
                  in (Some (of_nat (le_value u)), cbs')))"

definition CBS_get_asn1_bool :: "CBS \<Rightarrow> bool cbs_result" where
  "CBS_get_asn1_bool cbs = (case CBS_get_asn1 cbs CBS_ASN1_BOOLEAN of
      (None, cbs') \<Rightarrow> (None, cbs')
    | (Some bytes, cbs') \<Rightarrow>
        if length bytes \<noteq> 1 then (None, cbs')
        else let v = bytes ! 0
             in if v \<noteq> 0 \<and> v \<noteq> 0xff then (None, cbs') else (Some (v \<noteq> 0), cbs'))"

text \<open>\<open>CBS_get_optional_asn1\<close> gives \<open>Some (Some out)\<close> when the element is present, \<open>Some None\<close> when
  it is absent, and \<open>None\<close> when it is present and malformed.\<close>

definition CBS_get_optional_asn1 :: "CBS \<Rightarrow> u32 \<Rightarrow> CBS option cbs_result" where
  "CBS_get_optional_asn1 cbs tag =
     (if CBS_peek_asn1_tag cbs tag then
        (case CBS_get_asn1 cbs tag of
           (None, cbs') \<Rightarrow> (None, cbs')
         | (Some out, cbs') \<Rightarrow> (Some (Some out), cbs'))
      else (Some None, cbs))"

definition CBS_get_optional_asn1_octet_string :: "CBS \<Rightarrow> u32 \<Rightarrow> (CBS \<times> bool) cbs_result" where
  "CBS_get_optional_asn1_octet_string cbs tag = (case CBS_get_optional_asn1 cbs tag of
      (None, cbs') \<Rightarrow> (None, cbs')
    | (Some None, cbs') \<Rightarrow> (Some ([], False), cbs')
    | (Some (Some child), cbs') \<Rightarrow>
        (case CBS_get_asn1 child CBS_ASN1_OCTETSTRING of
           (None, _) \<Rightarrow> (None, cbs')
         | (Some out, child') \<Rightarrow>
             if length child' \<noteq> 0 then (None, cbs') else (Some (out, True), cbs')))"

definition CBS_get_optional_asn1_uint64 :: "CBS \<Rightarrow> u32 \<Rightarrow> u64 \<Rightarrow> u64 cbs_result" where
  "CBS_get_optional_asn1_uint64 cbs tag default_value = (case CBS_get_optional_asn1 cbs tag of
      (None, cbs') \<Rightarrow> (None, cbs')
    | (Some None, cbs') \<Rightarrow> (Some default_value, cbs')
    | (Some (Some child), cbs') \<Rightarrow>
        (case CBS_get_asn1_uint64 child of
           (None, _) \<Rightarrow> (None, cbs')
         | (Some out, child') \<Rightarrow>
             if length child' \<noteq> 0 then (None, cbs') else (Some out, cbs')))"

definition CBS_get_optional_asn1_bool :: "CBS \<Rightarrow> u32 \<Rightarrow> int \<Rightarrow> int cbs_result" where
  "CBS_get_optional_asn1_bool cbs tag default_value = (case CBS_get_optional_asn1 cbs tag of
      (None, cbs') \<Rightarrow> (None, cbs')
    | (Some None, cbs') \<Rightarrow> (Some default_value, cbs')
    | (Some (Some child), cbs') \<Rightarrow>
        (case CBS_get_asn1 child CBS_ASN1_BOOLEAN of
           (None, _) \<Rightarrow> (None, cbs')
         | (Some child2, child') \<Rightarrow>
             if length child2 \<noteq> 1 \<or> length child' \<noteq> 0 then (None, cbs')
             else let boolean = child2 ! 0
                  in if boolean = 0 then (Some 0, cbs')
                     else if boolean = 0xff then (Some 1, cbs')
                     else (None, cbs')))"

definition CBS_is_valid_asn1_bitstring :: "CBS \<Rightarrow> bool" where
  "CBS_is_valid_asn1_bitstring cbs = (case CBS_get_u8 cbs of
      (None, _) \<Rightarrow> False
    | (Some num_unused_bits, in_cbs) \<Rightarrow>
        if num_unused_bits > 7 then False
        else if num_unused_bits = 0 then True
        else case CBS_get_last_u8 in_cbs of
            (None, _) \<Rightarrow> False
          | (Some last_byte, _) \<Rightarrow>
              last_byte AND (push_bit (unat num_unused_bits) 1 - 1) = 0)"

definition CBS_asn1_bitstring_has_bit :: "CBS \<Rightarrow> u32 \<Rightarrow> bool" where
  "CBS_asn1_bitstring_has_bit cbs bit_index =
     (if \<not> CBS_is_valid_asn1_bitstring cbs then False
      else let byte_num = unat (drop_bit 3 bit_index + 1);
               bit_num = 7 - unat (bit_index AND 7)
           in byte_num < length cbs \<and> (cbs ! byte_num) AND push_bit bit_num 1 \<noteq> 0)"

section \<open>Executing the cursor operations\<close>

lemma cbs_get_append [cbs_simps]: "cbs_get (xs @ ys) (length xs) = (Some xs, ys)"
  by (simp add: cbs_get_def)

lemma CBS_skip_eq [cbs_simps]:
  "CBS_skip cbs n = (if length cbs < n then (None, cbs) else (Some (), drop n cbs))"
  by (simp add: CBS_skip_def cbs_get_def)

lemma CBS_get_bytes_eq [cbs_simps]:
  "CBS_get_bytes cbs n = (if length cbs < n then (None, cbs) else (Some (take n cbs), drop n cbs))"
  by (simp add: CBS_get_bytes_def cbs_get_def)

lemma CBS_get_u8_eq [cbs_simps]:
  "CBS_get_u8 cbs = (case cbs of [] \<Rightarrow> (None, []) | b # cbs' \<Rightarrow> (Some b, cbs'))"
  by (cases cbs) (simp_all add: CBS_get_u8_def cbs_get_def)

lemma CBS_get_u8_Nil [simp]: "CBS_get_u8 [] = (None, [])"
  and CBS_get_u8_Cons [simp]: "CBS_get_u8 (b # cbs) = (Some b, cbs)"
  by (simp_all add: CBS_get_u8_eq)

lemma push8_or: "push_bit 8 (r :: u64) OR ucast (b :: byte) = r * 256 + ucast b"
proof -
  have "push_bit 8 r AND (ucast b :: u64) = 0"
    by (rule bit_word_eqI) (auto simp: bit_simps dest: bit_imp_le_length)
  then have "push_bit 8 r OR ucast b = push_bit 8 r + (ucast b :: u64)"
    by (rule or_disjoint_add)
  then show ?thesis by (simp add: push_bit_eq_mult)
qed

lemma ucast_byte_of_nat: "(ucast (b :: byte) :: u64) = of_nat (unat b)"
  by simp

lemma cbs_get_u_loop_value:
  "cbs_get_u_loop r bs = r * 256 ^ length bs + of_nat (be_value bs)"
proof (induction bs arbitrary: r)
  case Nil
  then show ?case by simp
next
  case (Cons b bs)
  show ?case
    by (simp add: Cons push8_or algebra_simps flip: ucast_byte_of_nat)
qed

lemma be_value_u64:
  assumes "length bs \<le> 8"
  shows "be_value bs < SIZE_MOD"
proof -
  have "(256 :: nat) ^ length bs \<le> 256 ^ 8" using assms by (intro power_increasing) simp_all
  with be_value_less [of bs] show ?thesis by simp
qed

lemma cbs_get_u_eq [cbs_simps]:
  "cbs_get_u cbs n =
    (if length cbs < n then (None, cbs) else (Some (of_nat (be_value (take n cbs))), drop n cbs))"
  by (simp add: cbs_get_u_def cbs_get_def cbs_get_u_loop_value)

end
