(* ===== verification/DER.thy ===== *)
theory DER
  imports CBS
begin

text \<open>
  The DER encoding (X.690) as a specification, written without reference to the code: base-128
  numbers, identifier octets, minimal length octets and elements. The parsers of theory \<open>CBS\<close> are
  shown to accept exactly these encodings, as interpretations of \<open>wire_format\<close>.
\<close>

section \<open>Specification\<close>

fun base128_cont :: "nat \<Rightarrow> byte list" where
  "base128_cont n = (if n = 0 then [] else base128_cont (n div 128) @ [of_nat (128 + n mod 128)])"

declare base128_cont.simps [simp del]

definition base128 :: "nat \<Rightarrow> byte list" where
  "base128 n = base128_cont (n div 128) @ [of_nat (n mod 128)]"

definition der_tag_bits :: "u32 \<Rightarrow> byte" where
  "der_tag_bits tag = of_nat (unat tag div 2 ^ 29 * 32)"

definition der_tag_number :: "u32 \<Rightarrow> nat" where
  "der_tag_number tag = unat tag mod 2 ^ 29"

definition der_tag :: "u32 \<Rightarrow> byte list" where
  "der_tag tag =
     (if der_tag_number tag < 31 then [der_tag_bits tag + of_nat (der_tag_number tag)]
      else (der_tag_bits tag + 31) # base128 (der_tag_number tag))"

definition octets_needed :: "nat \<Rightarrow> nat" where
  "octets_needed n =
     (if n < 256 then 1 else if n < 65536 then 2 else if n < 16777216 then 3 else 4)"

definition der_length :: "nat \<Rightarrow> byte list" where
  "der_length n =
     (if n < 128 then [of_nat n]
      else of_nat (128 + octets_needed n) # be_bytes (octets_needed n) n)"

definition der_element :: "u32 \<Rightarrow> byte list \<Rightarrow> byte list" where
  "der_element tag contents = der_tag tag @ der_length (length contents) @ contents"

section \<open>Base-128 numbers\<close>

lemma base128_cont_0 [simp]: "base128_cont 0 = []"
  by (simp add: base128_cont.simps)

lemma push7_or:
  "push_bit 7 (v :: u64) OR ucast ((b :: byte) AND 0x7f) = v * 128 + of_nat (unat b mod 128)"
proof -
  have m: "b AND 0x7f = take_bit 7 b"
    using take_bit_eq_mask [of 7 b] by (simp add: mask_eq_exp_minus_1)
  have "push_bit 7 v AND (ucast (take_bit 7 b) :: u64) = 0"
    by (rule bit_word_eqI) (auto simp: bit_simps)
  then have "push_bit 7 v OR ucast (take_bit 7 b) = push_bit 7 v + (ucast (take_bit 7 b) :: u64)"
    by (rule or_disjoint_add)
  moreover have "(ucast (take_bit 7 b) :: u64) = of_nat (unat (take_bit 7 b))"
    by simp
  moreover have "unat (take_bit 7 b) = unat b mod 128"
    by (subst unsigned_take_bit_eq) (simp_all add: take_bit_eq_mod)
  ultimately show ?thesis by (simp add: m push_bit_eq_mult)
qed

lemma byte_high_bit: "(b :: byte) AND 0x80 \<noteq> 0 \<longleftrightarrow> 128 \<le> unat b"
proof -
  have "b AND 0x80 \<noteq> 0 \<longleftrightarrow> bit b 7"
    using bit_iff_and_push_bit_not_eq_0 [of b 7] by (simp add: push_bit_eq_mult)
  also have "\<dots> \<longleftrightarrow> odd (unat b div 128)"
  proof -
    have "bit b 7 \<longleftrightarrow> bit (unat b) 7" by (simp add: bit_unsigned_iff)
    then show ?thesis by (simp add: bit_iff_odd [of "unat b"])
  qed
  also have "\<dots> \<longleftrightarrow> 128 \<le> unat b"
    by (rule odd_div_128 [OF unat_byte_less])
  finally show ?thesis .
qed

lemma u64_top7: "drop_bit 57 (v :: u64) \<noteq> 0 \<longleftrightarrow> 2 ^ 57 \<le> unat v"
proof -
  have "drop_bit 57 v = 0 \<longleftrightarrow> unat (drop_bit 57 v) = 0" by (simp add: unat_eq_0)
  also have "\<dots> \<longleftrightarrow> unat v div 2 ^ 57 = 0" by (subst unat_drop_bit_eq) (simp add: drop_bit_eq_div)
  also have "\<dots> \<longleftrightarrow> unat v < 2 ^ 57" by (simp add: div_eq_0_iff)
  finally show ?thesis by linarith
qed

lemma parse_base128_loop_step:
  "parse_base128_loop v (b # cbs) =
    (if 2 ^ 57 \<le> unat v \<or> unat v = 0 \<and> unat b = 128 then (None, cbs)
     else if 128 \<le> unat b then parse_base128_loop (of_nat (unat v * 128 + unat b mod 128)) cbs
     else (Some (of_nat (unat v * 128 + unat b)), cbs))"
proof -
  have 0: "v = 0 \<longleftrightarrow> unat v = 0" by (simp add: unat_eq_0)
  have 80: "b = 0x80 \<longleftrightarrow> unat b = 128" by (simp add: word_unat_eq_iff)
  show ?thesis
    by (simp only: parse_base128_loop.simps push7_or byte_high_bit 0 80 Let_def)
      (simp add: u64_top7 mod_less)
qed

declare parse_base128_loop.simps(2) [simp del]

lemma parse_base128_loop_cont:
  "n < SIZE_MOD \<Longrightarrow>
    parse_base128_loop 0 (base128_cont n @ cbs) = parse_base128_loop (of_nat n) cbs"
proof (induction n arbitrary: cbs rule: base128_cont.induct)
  case (1 n)
  show ?case
  proof (cases "n = 0")
    case True
    then show ?thesis by simp
  next
    case False
    let ?b = "of_nat (128 + n mod 128) :: byte"
    have b: "unat ?b = 128 + n mod 128" by (simp only: unat_of_nat_byte) simp
    have small: "n div 128 < 2 ^ 57" using "1.prems" by simp
    then have v: "unat (of_nat (n div 128) :: u64) = n div 128" by (simp add: unat_of_nat_u64)
    have "parse_base128_loop 0 (base128_cont n @ cbs) =
        parse_base128_loop 0 (base128_cont (n div 128) @ (?b # cbs))"
      using False by (simp add: base128_cont.simps [of n])
    also have "\<dots> = parse_base128_loop (of_nat (n div 128)) (?b # cbs)"
      using False "1.prems" by (intro "1.IH") simp_all
    also have "\<dots> = parse_base128_loop (of_nat (n div 128 * 128 + (128 + n mod 128) mod 128)) cbs"
      using small False by (simp only: parse_base128_loop_step b v) auto
    also have "n div 128 * 128 + (128 + n mod 128) mod 128 = n" by simp
    finally show ?thesis .
  qed
qed

lemma parse_base128_loop_sound:
  "parse_base128_loop v cbs = (Some w, rest) \<Longrightarrow>
    base128_cont (unat v) @ cbs = base128 (unat w) @ rest"
proof (induction cbs arbitrary: v)
  case Nil
  then show ?case by simp
next
  case (Cons b cbs)
  have ok: "unat v < 2 ^ 57" "\<not> (unat v = 0 \<and> unat b = 128)"
    using Cons.prems by (auto simp: parse_base128_loop_step split: if_splits)
  show ?case
  proof (cases "128 \<le> unat b")
    case True
    let ?n = "unat v * 128 + unat b mod 128"
    have n: "unat (of_nat ?n :: u64) = ?n"
      using ok(1) by (intro unat_of_nat_u64) (simp add: mod_less_divisor [of 128 "unat b", THEN less_imp_le])
    have b': "128 + unat b mod 128 = unat b"
      using True by (rule high_byte_mod [OF unat_byte_less])
    then have b: "128 + ?n mod 128 = unat b" by simp
    have d: "?n div 128 = unat v" by simp
    moreover have "?n \<noteq> 0" using ok(2) b' by auto
    note d = d this
    have "base128_cont ?n = base128_cont (unat v) @ [b]"
      by (simp only: base128_cont.simps [of ?n] b d) simp
    moreover have "parse_base128_loop (of_nat ?n) cbs = (Some w, rest)"
      using Cons.prems True ok by (auto simp: parse_base128_loop_step)
    then have "base128_cont ?n @ cbs = base128 (unat w) @ rest"
      using Cons.IH [of "of_nat ?n"] by (simp only: n)
    ultimately show ?thesis by simp
  next
    case False
    let ?n = "unat v * 128 + unat b"
    have w: "w = of_nat ?n" and r: "rest = cbs"
      using Cons.prems False ok by (auto simp: parse_base128_loop_step)
    have "?n < SIZE_MOD" using ok(1) False by simp
    then have w: "unat w = ?n" unfolding w by (rule unat_of_nat_u64)
    have "base128 ?n = base128_cont (unat v) @ [b]"
      using False by (simp add: base128_def)
    with w r show ?thesis by simp
  qed
qed

lemma parse_base128_complete:
  "parse_base128_integer (base128 (unat w) @ rest) = (Some w, rest)"
proof -
  let ?n = "unat w" let ?b = "of_nat (?n mod 128) :: byte"
  have w: "?n < SIZE_MOD" using unsigned_less [of w, where 'a = nat] by simp
  have small: "?n div 128 < 2 ^ 57" using w by simp
  have v: "unat (of_nat (?n div 128) :: u64) = ?n div 128" using small by (simp add: unat_of_nat_u64)
  have b: "unat ?b = ?n mod 128" by simp
  have "parse_base128_integer (base128 ?n @ rest) =
      parse_base128_loop 0 (base128_cont (?n div 128) @ (?b # rest))"
    by (simp add: parse_base128_integer_def base128_def)
  also have "\<dots> = parse_base128_loop (of_nat (?n div 128)) (?b # rest)"
    using w by (intro parse_base128_loop_cont) simp
  also have "\<dots> = (Some (of_nat (?n div 128 * 128 + ?n mod 128)), rest)"
    using small by (simp only: parse_base128_loop_step b v) auto
  finally show ?thesis by simp
qed

interpretation base128: wire_format "\<lambda>w. base128 (unat w)" parse_base128_integer "\<lambda>_. True"
proof unfold_locales
  fix w rest show "parse_base128_integer (base128 (unat w) @ rest) = (Some w, rest)"
    by (rule parse_base128_complete)
next
  fix cbs w rest assume "parse_base128_integer cbs = (Some w, rest)"
  then have "base128_cont (unat (0 :: u64)) @ cbs = base128 (unat w) @ rest"
    unfolding parse_base128_integer_def by (rule parse_base128_loop_sound)
  then show "True \<and> cbs = base128 (unat w) @ rest" by simp
qed

section \<open>Identifier octets\<close>

lemma tag_compose:
  assumes "n < 2 ^ 29"
  shows "push_bit 24 (ucast (tb :: byte) AND 0xe0 :: u32) OR of_nat n =
    of_nat (unat tb div 32 * 2 ^ 29 + n)"
proof -
  have e0: "(0xe0 :: u32) = push_bit 5 (mask 3)"
    by (simp add: push_bit_eq_mult mask_eq_exp_minus_1)
  have shift: "push_bit 24 (ucast tb AND 0xe0 :: u32) = push_bit 29 (ucast (drop_bit 5 tb))"
    unfolding e0 by (rule bit_word_eqI) (auto simp: bit_simps dest: bit_imp_le_length)
  have n: "(of_nat n :: u32) = take_bit 29 (of_nat n)"
    using assms by (metis take_bit_nat_eq_self take_bit_of_nat)
  have "push_bit 29 (ucast (drop_bit 5 tb) :: u32) AND take_bit 29 (of_nat n) = 0"
    by (rule bit_word_eqI) (auto simp: bit_simps)
  then have add: "push_bit 29 (ucast (drop_bit 5 tb) :: u32) OR of_nat n =
      push_bit 29 (ucast (drop_bit 5 tb)) + of_nat n"
    by (subst (1 2) n) (rule or_disjoint_add)
  have "unat (drop_bit 5 tb) = unat tb div 32"
    by (subst unat_drop_bit_eq) (simp add: drop_bit_eq_div)
  then have top: "(ucast (drop_bit 5 tb) :: u32) = of_nat (unat tb div 32)"
    by (metis of_nat_unat)
  show ?thesis unfolding shift unfolding add unfolding top by (simp add: push_bit_eq_mult)
qed

lemma unat_low5: "unat ((tb :: byte) AND 0x1f) = unat tb mod 32"
proof -
  have "tb AND 0x1f = take_bit 5 tb"
    using take_bit_eq_mask [of 5 tb] by (simp add: mask_eq_exp_minus_1)
  then show ?thesis by (simp only:) (subst unsigned_take_bit_eq, simp_all add: take_bit_eq_mod)
qed

lemma parse_asn1_tag_eq:
  "parse_asn1_tag (tb # cbs) =
    (if unat tb mod 32 = 31 then
       (case parse_base128_integer cbs of
          (None, c) \<Rightarrow> (None, c)
        | (Some v, c) \<Rightarrow>
            if 2 ^ 29 \<le> unat v \<or> unat v < 31 then (None, c)
            else (Some (of_nat (unat tb div 32 * 2 ^ 29 + unat v)), c))
     else (Some (of_nat (unat tb div 32 * 2 ^ 29 + unat tb mod 32)), cbs))"
proof -
  have num: "(ucast (tb AND 0x1f) :: u32) = of_nat (unat tb mod 32)"
    by (metis of_nat_unat unat_low5)
  have unat_num: "unat (of_nat (unat tb mod 32) :: u32) = unat tb mod 32"
    by (rule unat_of_nat_u32) (simp add: less_trans [OF mod_less_divisor])
  have 31: "(of_nat (unat tb mod 32) :: u32) = 0x1f \<longleftrightarrow> unat tb mod 32 = 31"
    by (simp only: word_unat_eq_iff unat_num) simp
  have v: "ucast v = (of_nat (unat v) :: u32)" for v :: u64
    by simp
  have bound: "(ucast CBS_ASN1_TAG_NUMBER_MASK < v) \<longleftrightarrow> 2 ^ 29 \<le> unat v"
      "v < 0x1f \<longleftrightarrow> unat v < 31" for v :: u64
    by (auto simp: CBS_ASN1_TAG_NUMBER_MASK_def word_less_nat_alt)
  have low: "unat tb mod 32 < 2 ^ 29" by (simp add: less_trans [OF mod_less_divisor])
  note unfold = parse_asn1_tag_def CBS_get_u8_Cons prod.case option.case num 31 Let_def
    CBS_ASN1_TAG_SHIFT_def v bound of_nat_numeral
  obtain r c where p: "parse_base128_integer cbs = (r, c)" by fastforce
  show ?thesis
  proof (cases "unat tb mod 32 = 31")
    case False
    then show ?thesis by (simp only: unfold tag_compose [OF low] if_False)
  next
    case True
    show ?thesis
    proof (cases r)
      case None
      with True p show ?thesis by (simp only: unfold if_True simp_thms)
    next
      case (Some w)
      show ?thesis
      proof (cases "unat w < 2 ^ 29")
        case ok: True
        then have "\<not> 2 ^ 29 \<le> unat w" by simp
        with True p Some show ?thesis
          by (simp only: unfold if_True tag_compose [OF ok] simp_thms)
      next
        case False
        then have "2 ^ 29 \<le> unat w" by simp
        with True p Some show ?thesis by (simp only: unfold if_True simp_thms)
      qed
    qed
  qed
qed

lemma parse_asn1_tag_Nil [simp]: "parse_asn1_tag [] = (None, [])"
  by (simp add: parse_asn1_tag_def)

lemma unat_u32_split:
  fixes t :: u32
  shows "unat t div 2 ^ 29 < 8" and "unat t = unat t div 2 ^ 29 * 2 ^ 29 + der_tag_number t"
    and "der_tag_number t < 2 ^ 29"
proof -
  have "unat t < 2 ^ 32" using unsigned_less [of t, where 'a = nat] by simp
  then show "unat t div 2 ^ 29 < 8" by (simp add: less_mult_imp_div_less)
qed (simp_all add: der_tag_number_def)

lemma unat_tag_byte:
  fixes t :: u32
  assumes "n < 32"
  shows "unat (der_tag_bits t + of_nat n) = unat t div 2 ^ 29 * 32 + n"
proof -
  have "der_tag_bits t + of_nat n = of_nat (unat t div 2 ^ 29 * 32 + n)"
    by (simp add: der_tag_bits_def)
  moreover have "unat t div 2 ^ 29 * 32 + n < 256"
    using unat_u32_split(1) [of t] assms by linarith
  ultimately show ?thesis by (simp only: unat_of_nat_byte mod_less)
qed

lemma parse_asn1_tag_complete: "parse_asn1_tag (der_tag t @ rest) = (Some t, rest)"
proof (cases "der_tag_number t < 31")
  case True
  let ?tb = "der_tag_bits t + of_nat (der_tag_number t)"
  have tb: "unat ?tb = unat t div 2 ^ 29 * 32 + der_tag_number t"
    using True by (intro unat_tag_byte) simp
  have "unat ?tb div 32 = unat t div 2 ^ 29" "unat ?tb mod 32 = der_tag_number t"
    using True by (simp_all only: tb) simp_all
  with True have "parse_asn1_tag (?tb # rest) =
      (Some (of_nat (unat t div 2 ^ 29 * 2 ^ 29 + der_tag_number t)), rest)"
    by (simp only: parse_asn1_tag_eq) simp
  with True show ?thesis by (simp only: der_tag_def if_True append.simps flip: unat_u32_split(2)) simp
next
  case False
  let ?tb = "der_tag_bits t + of_nat 31" and ?v = "of_nat (der_tag_number t) :: u64"
  have tb: "unat ?tb = unat t div 2 ^ 29 * 32 + 31" by (rule unat_tag_byte) simp
  have d: "unat ?tb div 32 = unat t div 2 ^ 29" "unat ?tb mod 32 = 31"
    by (simp_all only: tb) simp_all
  have v: "unat ?v = der_tag_number t"
    using unat_u32_split(3) [of t] by (intro unat_of_nat_u64) simp
  have "parse_base128_integer (base128 (der_tag_number t) @ rest) = (Some ?v, rest)"
    using parse_base128_complete [of ?v rest] by (simp only: v)
  then have "parse_asn1_tag (?tb # base128 (der_tag_number t) @ rest) =
      (Some (of_nat (unat t div 2 ^ 29 * 2 ^ 29 + der_tag_number t)), rest)"
    using False unat_u32_split(3) [of t] by (simp only: parse_asn1_tag_eq d v) (simp add: v)
  with False show ?thesis
    by (simp only: der_tag_def if_False append.simps of_nat_numeral flip: unat_u32_split(2)) simp
qed

lemma parse_asn1_tag_sound:
  assumes "parse_asn1_tag cbs = (Some t, rest)"
  shows "cbs = der_tag t @ rest"
proof (cases cbs)
  case Nil
  with assms show ?thesis by simp
next
  case (Cons tb cbs')
  have tb8: "unat tb div 32 < 8" using unat_byte_less [of tb] by (simp add: less_mult_imp_div_less)
  have t: "unat t div 2 ^ 29 = unat tb div 32 \<and> der_tag_number t = n"
    if "t = of_nat (unat tb div 32 * 2 ^ 29 + n)" and "n < 2 ^ 29" for n
  proof -
    have "unat tb div 32 * 2 ^ 29 + n < 4294967296" using tb8 that(2) by simp
    then have "unat t = unat tb div 32 * 2 ^ 29 + n"
      unfolding that(1) by (rule unat_of_nat_u32)
    then show ?thesis using that(2) by (simp add: der_tag_number_def)
  qed
  show ?thesis
  proof (cases "unat tb mod 32 = 31")
    case False
    with assms Cons have r: "rest = cbs'" and t': "t = of_nat (unat tb div 32 * 2 ^ 29 + unat tb mod 32)"
      by (simp_all add: parse_asn1_tag_eq)
    from t [OF t'] have "unat t div 2 ^ 29 = unat tb div 32" and n: "der_tag_number t = unat tb mod 32"
      by (simp_all add: less_trans [OF mod_less_divisor])
    then have "der_tag_bits t + of_nat (der_tag_number t) = of_nat (unat tb)"
      by (simp only: der_tag_bits_def flip: of_nat_add) simp
    moreover have "der_tag_number t < 31" using False n mod_less_divisor [of 32 "unat tb"] by linarith
    ultimately show ?thesis using Cons r by (simp add: der_tag_def)
  next
    case True
    with assms Cons obtain v where v: "parse_base128_integer cbs' = (Some v, rest)"
      and b: "unat v < 2 ^ 29" "31 \<le> unat v"
      and t': "t = of_nat (unat tb div 32 * 2 ^ 29 + unat v)"
      by (auto simp: parse_asn1_tag_eq not_less split: option.splits prod.splits if_splits)
    from t [OF t' b(1)] have d: "unat t div 2 ^ 29 = unat tb div 32" and n: "der_tag_number t = unat v"
      by simp_all
    have "der_tag_bits t + 31 = of_nat (unat tb div 32 * 32 + 31)"
      by (simp only: der_tag_bits_def d of_nat_add of_nat_numeral)
    also have "unat tb div 32 * 32 + 31 = unat tb" using True by (metis div_mult_mod_eq)
    finally have "der_tag_bits t + 31 = tb" by simp
    moreover have "cbs' = base128 (unat v) @ rest" using base128.dec_sound [OF v] by simp
    ultimately show ?thesis using Cons n b(2) by (simp add: der_tag_def)
  qed
qed

interpretation asn1_tag: wire_format der_tag parse_asn1_tag "\<lambda>_. True"
  by unfold_locales (simp_all add: parse_asn1_tag_complete parse_asn1_tag_sound)

section \<open>Length octets\<close>

fun parse_der_length :: "byte list \<Rightarrow> nat cursor_result" where
  "parse_der_length [] = (None, [])"
| "parse_der_length (lb # cs) =
     (if unat lb < 128 then (Some (unat lb), cs)
      else let k = unat lb - 128; n = be_value (take k cs)
        in if k = 0 \<or> 4 < k \<or> length cs < k then (None, cs)
           else if n < 128 \<or> n < 256 ^ (k - 1) then (None, cs)
           else (Some n, drop k cs))"

lemma octets_needed_le: "octets_needed n \<le> 4"
  by (simp add: octets_needed_def)

lemma octets_needed_pos: "0 < octets_needed n"
  by (simp add: octets_needed_def)

lemma octets_needed_bounds:
  assumes "0 < n" and "n < 4294967296"
  shows "256 ^ (octets_needed n - 1) \<le> n" and "n < 256 ^ octets_needed n"
  using assms by (simp_all add: octets_needed_def)

lemma octets_needed_unique:
  assumes "256 ^ (k - 1) \<le> n" and "n < 256 ^ k" and "0 < k" and "k \<le> 4"
  shows "octets_needed n = k"
proof -
  from assms(3,4) have "k = 1 \<or> k = 2 \<or> k = 3 \<or> k = 4" by linarith
  with assms(1,2) show ?thesis by (auto simp: octets_needed_def)
qed

lemma unat_long_form_byte: "unat (of_nat (128 + octets_needed n) :: byte) = 128 + octets_needed n"
  using octets_needed_le [of n] by (simp only: unat_of_nat_byte mod_less)

lemma parse_der_length_complete:
  assumes "n < 4294967296"
  shows "parse_der_length (der_length n @ rest) = (Some n, rest)"
proof (cases "n < 128")
  case True
  then show ?thesis by (simp add: der_length_def)
next
  case False
  let ?k = "octets_needed n"
  have k: "256 ^ (?k - 1) \<le> n" "n < 256 ^ ?k" using False assms octets_needed_bounds [of n] by auto
  have v: "be_value (be_bytes ?k n) = n" using k(2) by (simp add: be_value_be_bytes)
  have d: "der_length n = of_nat (128 + ?k) # be_bytes ?k n" using False by (simp add: der_length_def)
  show ?thesis
    unfolding d append.simps parse_der_length.simps unat_long_form_byte Let_def
    using False k v octets_needed_le [of n] octets_needed_pos [of n] by simp
qed

lemma parse_der_length_sound:
  assumes "parse_der_length cbs = (Some n, rest)"
  shows "n < 4294967296 \<and> cbs = der_length n @ rest"
proof (cases cbs)
  case Nil
  with assms show ?thesis by simp
next
  case (Cons lb cs)
  show ?thesis
  proof (cases "unat lb < 128")
    case True
    with assms Cons show ?thesis by (auto simp: der_length_def)
  next
    case False
    let ?k = "unat lb - 128"
    from assms Cons False have k: "0 < ?k" "?k \<le> 4" and len: "?k \<le> length cs"
      and n: "n = be_value (take ?k cs)" "128 \<le> n" "256 ^ (?k - 1) \<le> n" and r: "rest = drop ?k cs"
      by (auto simp: Let_def not_less split: if_splits)
    have upper: "n < 256 ^ ?k" using be_value_less [of "take ?k cs"] n(1) len by (simp add: min_absorb2)
    have oct: "octets_needed n = ?k" using n(3) upper k by (intro octets_needed_unique)
    have "(256 :: nat) ^ ?k \<le> 256 ^ 4" using k(2) by (intro power_increasing) simp_all
    then have small: "n < 4294967296" using upper by simp
    have "be_bytes ?k n = take ?k cs"
      using be_bytes_be_value [of "take ?k cs"] len n(1) by (simp add: min_absorb2)
    moreover have "of_nat (128 + ?k) = lb" using False by simp
    ultimately have "der_length n = lb # take ?k cs"
      using n(2) by (simp only: der_length_def oct) simp
    with Cons r small show ?thesis by simp
  qed
qed

interpretation der_length: wire_format der_length parse_der_length "\<lambda>n. n < 4294967296"
  by unfold_locales (blast intro: parse_der_length_complete dest: parse_der_length_sound)+

section \<open>Elements\<close>

lemma length_base128_cont: "n < 128 ^ k \<Longrightarrow> length (base128_cont n) \<le> k"
proof (induction k arbitrary: n)
  case 0
  then show ?case by simp
next
  case (Suc k)
  then have "n div 128 < 128 ^ k" by (simp add: less_mult_imp_div_less mult.commute)
  then have "length (base128_cont (n div 128)) \<le> k" by (rule Suc.IH)
  then show ?case by (cases "n = 0") (simp_all add: base128_cont.simps [of n])
qed

lemma length_der_tag: "0 < length (der_tag t)" "length (der_tag t) \<le> 6"
proof -
  have "der_tag_number t div 128 < 128 ^ 4" using unat_u32_split(3) [of t] by simp
  from length_base128_cont [OF this] show "length (der_tag t) \<le> 6"
    by (simp add: der_tag_def base128_def)
qed (simp add: der_tag_def)

lemma unat_low7: "unat ((lb :: byte) AND 0x7f) = unat lb mod 128"
proof -
  have "lb AND 0x7f = take_bit 7 lb"
    using take_bit_eq_mask [of 7 lb] by (simp add: mask_eq_exp_minus_1)
  then show ?thesis by (simp only:) (subst unsigned_take_bit_eq, simp_all add: take_bit_eq_mod)
qed

lemma u64_drop_bytes_0:
  assumes "n < SIZE_MOD"
  shows "drop_bit (j * 8) (of_nat n :: u64) = 0 \<longleftrightarrow> n < 256 ^ j"
proof -
  have "drop_bit (j * 8) (of_nat n :: u64) = 0 \<longleftrightarrow> unat (drop_bit (j * 8) (of_nat n :: u64)) = 0"
    by (simp add: unat_eq_0)
  also have "\<dots> \<longleftrightarrow> n div 2 ^ (j * 8) = 0"
    using assms by (subst unat_drop_bit_eq) (simp add: unat_of_nat_u64 drop_bit_eq_div)
  also have "(2 :: nat) ^ (j * 8) = 256 ^ j"
    by (simp add: power_mult mult.commute [of j])
  finally show ?thesis by (simp add: div_eq_0_iff)
qed

lemma cbs_get_any_asn1_element_no_tag:
  "parse_asn1_tag cbs = (None, h) \<Longrightarrow> cbs_get_any_asn1_element cbs ber_ok = (None, cbs)"
  by (simp add: cbs_get_any_asn1_element_def)

lemma cbs_get_any_asn1_element_no_length:
  "parse_asn1_tag cbs = (Some t, []) \<Longrightarrow> cbs_get_any_asn1_element cbs ber_ok = (None, cbs)"
  by (simp add: cbs_get_any_asn1_element_def)

lemma byte_high_bit_clear: "(b :: byte) AND 0x80 = 0 \<longleftrightarrow> unat b < 128"
  using byte_high_bit [of b] by auto

lemma cbs_get_any_asn1_element_short:
  assumes "parse_asn1_tag cbs = (Some t, lb # cs)" and "unat lb < 128"
    and "length cs < length cbs"
  shows "cbs_get_any_asn1_element cbs ber_ok =
    (let hl = length cbs - length cs
     in if length cs < unat lb then (None, cbs)
        else (Some \<lparr>el_out = take (hl + unat lb) cbs, el_tag = t, el_header_len = hl,
                el_ber_found = False\<rparr>, drop (hl + unat lb) cbs))"
proof -
  have "length cbs < unat lb + (length cbs - length cs) \<longleftrightarrow> length cs < unat lb"
    using assms(3) by linarith
  then show ?thesis
    using assms(1,2)
    by (simp add: cbs_get_any_asn1_element_def byte_high_bit_clear CBS_get_bytes_eq Let_def add.commute)
qed

lemma cbs_get_any_asn1_element_long:
  assumes tag: "parse_asn1_tag cbs = (Some t, lb # cs)" and high: "128 \<le> unat lb"
    and len: "length cs < length cbs" "length cbs - length cs \<le> 7"
    and ber: "\<not> ber_ok"
  shows "cbs_get_any_asn1_element cbs ber_ok =
    (let k = unat lb - 128; n = be_value (take k cs); hl = length cbs - length cs + k
     in if k = 0 \<or> 4 < k \<or> length cs < k \<or> n < 128 \<or> n < 256 ^ (k - 1) \<or> length cs - k < n
        then (None, cbs)
        else (Some \<lparr>el_out = take (hl + n) cbs, el_tag = t, el_header_len = hl,
                el_ber_found = False\<rparr>, drop (hl + n) cbs))"
proof -
  define k where "k = unat lb - 128"
  define hl where "hl = length cbs - length cs"
  have k: "unat (lb AND 0x7f) = k"
    using high_byte_mod [OF unat_byte_less high] unat_low7 [of lb] by (simp add: k_def)
  have h: "lb AND 0x80 \<noteq> 0" using high by (simp add: byte_high_bit)
  note step = cbs_get_any_asn1_element_def tag prod.case option.case CBS_get_u8_Cons k hl_def [symmetric]
  show ?thesis unfolding k_def [symmetric] hl_def [symmetric] Let_def
  proof (cases "k = 0 \<or> 4 < k \<or> length cs < k")
    case True
    then show "cbs_get_any_asn1_element cbs ber_ok = (if k = 0 \<or> 4 < k \<or> length cs < k \<or>
        be_value (take k cs) < 128 \<or> be_value (take k cs) < 256 ^ (k - 1) \<or>
        length cs - k < be_value (take k cs) then (None, cbs)
      else (Some \<lparr>el_out = take (hl + k + be_value (take k cs)) cbs, el_tag = t,
                el_header_len = hl + k, el_ber_found = False\<rparr>,
            drop (hl + k + be_value (take k cs)) cbs))"
      using h ber by (auto simp: step cbs_get_u_eq Let_def)
  next
    case ok: False
    define n where "n = be_value (take k cs)"
    have "(256 :: nat) ^ k \<le> 256 ^ 4" using ok by (intro power_increasing) simp_all
    then have n: "n < 4294967296" using be_value_less [of "take k cs"] ok by (simp add: n_def)
    then have v: "unat (of_nat n :: u64) = n" by (intro unat_of_nat_u64) simp
    have lt: "of_nat n < (128 :: u64) \<longleftrightarrow> n < 128" by (simp only: word_less_nat_alt v) simp
    have dz: "drop_bit ((k - 1) * 8) (of_nat n :: u64) = 0 \<longleftrightarrow> n < 256 ^ (k - 1)"
      using n by (intro u64_drop_bytes_0) simp
    have "n + hl + k < SIZE_MOD" using n ok len(2) by (simp add: hl_def)
    then have m: "(n + hl + k) mod SIZE_MOD = hl + k + n" by simp
    have c: "length cbs < hl + k + n \<longleftrightarrow> length cs - k < n" using len(1) ok by (auto simp: hl_def)
    have u: "cbs_get_u cs k = (Some (of_nat n), drop k cs)" using ok by (simp add: cbs_get_u_eq n_def)
    show "cbs_get_any_asn1_element cbs ber_ok = (if k = 0 \<or> 4 < k \<or> length cs < k \<or>
        be_value (take k cs) < 128 \<or> be_value (take k cs) < 256 ^ (k - 1) \<or>
        length cs - k < be_value (take k cs) then (None, cbs)
      else (Some \<lparr>el_out = take (hl + k + be_value (take k cs)) cbs, el_tag = t,
                el_header_len = hl + k, el_ber_found = False\<rparr>,
            drop (hl + k + be_value (take k cs)) cbs))"
      unfolding n_def [symmetric] step Let_def u v lt dz m CBS_get_bytes_eq c
      using ok ber h by simp
  qed
qed

lemma CBS_get_any_asn1_element_eq:
  "CBS_get_any_asn1_element cbs =
    (case parse_asn1_tag cbs of
       (None, _) \<Rightarrow> (None, cbs)
     | (Some t, h) \<Rightarrow> (case parse_der_length h of
         (None, _) \<Rightarrow> (None, cbs)
       | (Some n, c) \<Rightarrow>
           let hl = length cbs - length c
           in if length c < n then (None, cbs)
              else (Some \<lparr>el_out = take (hl + n) cbs, el_tag = t, el_header_len = hl,
                      el_ber_found = False\<rparr>, drop (hl + n) cbs)))"
proof (cases "parse_asn1_tag cbs")
  case (Pair r h)
  show ?thesis
  proof (cases r)
    case None
    with Pair show ?thesis
      by (simp add: CBS_get_any_asn1_element_def cbs_get_any_asn1_element_no_tag)
  next
    case (Some t)
    then have "cbs = der_tag t @ h" using Pair by (intro parse_asn1_tag_sound) simp
    then have cbs: "length cbs = length (der_tag t) + length h" by simp
    show ?thesis
    proof (cases h)
      case Nil
      with Pair Some show ?thesis
        by (simp add: CBS_get_any_asn1_element_def cbs_get_any_asn1_element_no_length)
    next
      case (Cons lb cs)
      have tag: "parse_asn1_tag cbs = (Some t, lb # cs)" using Pair Some Cons by simp
      have len: "length cs < length cbs" "length cbs - length cs \<le> 7"
        using cbs Cons length_der_tag [of t] by auto
      have e: "length cbs - length (drop k cs) = length cbs - length cs + k" if "k \<le> length cs" for k
        using that len(1) by simp
      show ?thesis
      proof (cases "unat lb < 128")
        case True
        then show ?thesis
          unfolding CBS_get_any_asn1_element_def
          using cbs_get_any_asn1_element_short [OF tag True len(1), of False] tag
          by (simp add: Let_def)
      next
        case False
        then have high: "128 \<le> unat lb" and der: "\<not> False" by simp_all
        define k where "k = unat lb - 128"
        show ?thesis
          unfolding CBS_get_any_asn1_element_def
            cbs_get_any_asn1_element_long [OF tag high len der]
          unfolding tag prod.case option.case parse_der_length.simps Let_def k_def [symmetric]
          using False e [of k] by (cases "k \<le> length cs") simp_all
      qed
    qed
  qed
qed

lemma CBS_get_any_asn1_element_iff:
  "CBS_get_any_asn1_element cbs = (Some e, rest) \<longleftrightarrow>
    (\<exists>contents. length contents < 4294967296 \<and> cbs = der_element (el_tag e) contents @ rest \<and>
      e = \<lparr>el_out = der_element (el_tag e) contents, el_tag = el_tag e,
            el_header_len = length (der_tag (el_tag e) @ der_length (length contents)),
            el_ber_found = False\<rparr>)"
  (is "?L \<longleftrightarrow> ?R")
proof
  assume L: ?L
  then obtain t h where t: "parse_asn1_tag cbs = (Some t, h)"
    by (auto simp: CBS_get_any_asn1_element_eq split: prod.splits option.splits)
  with L obtain n c where n: "parse_der_length h = (Some n, c)"
    by (auto simp: CBS_get_any_asn1_element_eq split: prod.splits option.splits)
  have cbs: "cbs = der_tag t @ h" and h: "n < 4294967296" "h = der_length n @ c"
    using parse_asn1_tag_sound [OF t] parse_der_length_sound [OF n] by simp_all
  have c: "n \<le> length c" using L t n
    by (auto simp: CBS_get_any_asn1_element_eq Let_def not_less split: if_splits)
  then have "cbs = der_element t (take n c) @ drop n c"
    using cbs h by (simp add: der_element_def min_absorb2)
  moreover from L t n c cbs h have "rest = drop n c" and
    "e = \<lparr>el_out = der_element t (take n c), el_tag = t,
       el_header_len = length (der_tag t @ der_length n), el_ber_found = False\<rparr>"
    by (auto simp: CBS_get_any_asn1_element_eq Let_def der_element_def min_absorb2 not_less
        split: if_splits)
  ultimately show ?R using h(1) c by (intro exI [of _ "take n c"]) (simp add: min_absorb2)
next
  assume ?R
  then obtain contents where small: "length contents < 4294967296"
    and cbs: "cbs = der_element (el_tag e) contents @ rest"
    and e: "e = \<lparr>el_out = der_element (el_tag e) contents, el_tag = el_tag e,
            el_header_len = length (der_tag (el_tag e) @ der_length (length contents)),
            el_ber_found = False\<rparr>" by blast
  have t: "parse_asn1_tag cbs = (Some (el_tag e), der_length (length contents) @ contents @ rest)"
    by (simp add: cbs der_element_def parse_asn1_tag_complete)
  have n: "parse_der_length (der_length (length contents) @ contents @ rest) =
      (Some (length contents), contents @ rest)"
    by (rule parse_der_length_complete [OF small])
  have "CBS_get_any_asn1_element cbs = (Some \<lparr>el_out = der_element (el_tag e) contents,
      el_tag = el_tag e, el_header_len = length (der_tag (el_tag e) @ der_length (length contents)),
      el_ber_found = False\<rparr>, rest)"
    unfolding CBS_get_any_asn1_element_eq t n prod.case option.case Let_def
    by (simp add: cbs der_element_def)
  with e show ?L by simp
qed

text \<open>The contents parsers: \<open>CBS_get_any_asn1\<close> and \<open>CBS_get_asn1\<close> strip the header.\<close>

lemma CBS_get_any_asn1_iff:
  "CBS_get_any_asn1 cbs = (Some (contents, t), rest) \<longleftrightarrow>
    length contents < 4294967296 \<and> cbs = der_element t contents @ rest"
proof -
  have "CBS_get_any_asn1 cbs = (Some (contents, t), rest) \<longleftrightarrow>
    (\<exists>e. CBS_get_any_asn1_element cbs = (Some e, rest) \<and> el_tag e = t \<and>
       el_header_len e \<le> length (el_out e) \<and> contents = drop (el_header_len e) (el_out e))"
    by (auto simp: CBS_get_any_asn1_def CBS_skip_eq not_less
        split: prod.splits option.splits if_splits)
  also have "\<dots> \<longleftrightarrow> length contents < 4294967296 \<and> cbs = der_element t contents @ rest"
    (is "?A \<longleftrightarrow> ?B")
  proof
    assume ?A
    then obtain e where p: "CBS_get_any_asn1_element cbs = (Some e, rest)" and "el_tag e = t"
      and c: "contents = drop (el_header_len e) (el_out e)" by blast
    from p obtain c' where "length c' < 4294967296" "cbs = der_element t c' @ rest"
      "el_out e = der_element t c'" "el_header_len e = length (der_tag t @ der_length (length c'))"
      unfolding CBS_get_any_asn1_element_iff \<open>el_tag e = t\<close> by (metis asn1_element.select_convs(1,3))
    with c show ?B by (simp add: der_element_def)
  next
    assume B: ?B
    let ?e = "\<lparr>el_out = der_element t contents, el_tag = t,
      el_header_len = length (der_tag t @ der_length (length contents)), el_ber_found = False\<rparr>"
    have "CBS_get_any_asn1_element cbs = (Some ?e, rest)"
      unfolding CBS_get_any_asn1_element_iff using B by (intro exI [of _ contents]) simp
    then show ?A by (intro exI [of _ ?e]) (simp add: der_element_def)
  qed
  finally show ?thesis .
qed

interpretation asn1_any: wire_format "\<lambda>(contents, t). der_element t contents" CBS_get_any_asn1
  "\<lambda>(contents, t). length contents < 4294967296"
  by unfold_locales (auto simp: CBS_get_any_asn1_iff)

lemma CBS_get_asn1_iff:
  "CBS_get_asn1 cbs t = (Some contents, rest) \<longleftrightarrow>
    length contents < 4294967296 \<and> cbs = der_element t contents @ rest"
proof -
  have "CBS_get_asn1 cbs t = (Some contents, rest) \<longleftrightarrow>
      CBS_get_any_asn1 cbs = (Some (contents, t), rest)"
    by (auto simp: CBS_get_asn1_def cbs_get_asn1_def CBS_get_any_asn1_def
        split: prod.splits option.splits if_splits)
  then show ?thesis by (simp add: CBS_get_any_asn1_iff)
qed

interpretation asn1: wire_format "der_element t" "\<lambda>cbs. CBS_get_asn1 cbs t"
  "\<lambda>contents. length contents < 4294967296" for t
  by unfold_locales (auto simp: CBS_get_asn1_iff)

text \<open>In both modes the reader takes at least a tag and a length octet.\<close>

lemma ber_element_consumes:
  assumes "CBS_get_any_ber_asn1_element cbs = (Some e, rest)"
  shows "cbs = el_out e @ rest \<and> 2 \<le> el_header_len e \<and> el_header_len e \<le> length (el_out e)"
proof -
  obtain t lb cs where t: "parse_asn1_tag cbs = (Some t, lb # cs)"
    using assms
    by (auto simp: CBS_get_any_ber_asn1_element_def cbs_get_any_asn1_element_def CBS_get_u8_eq split: prod.splits option.splits list.splits)
  have cbs: "cbs = der_tag t @ lb # cs" using parse_asn1_tag_sound [OF t] by simp
  define hl where "hl = length cbs - length cs"
  have hl: "hl = length (der_tag t) + 1" by (simp add: hl_def cbs)
  then have hl2: "2 \<le> hl" "hl \<le> 7" using length_der_tag [of t] by linarith+
  have out: "cbs = el_out e @ rest \<and> 2 \<le> el_header_len e \<and> el_header_len e \<le> length (el_out e)"
    if r: "(case CBS_get_bytes cbs len of (None, cbs') \<Rightarrow> (None, cbs')
      | (Some x, cbs') \<Rightarrow> (Some \<lparr>el_out = x, el_tag = tg, el_header_len = h, el_ber_found = bf\<rparr>, cbs')) = (Some e, rest)"
      and h: "2 \<le> h" "h \<le> len" for len h bf tg
    using r h by (auto simp: CBS_get_bytes_eq split: if_splits)
  show ?thesis
  proof (cases "lb AND 0x80 = 0")
    case True
    with assms t hl2 show ?thesis
      by (intro out [where len = "unat lb + hl" and h = hl])
        (simp_all add: CBS_get_any_ber_asn1_element_def cbs_get_any_asn1_element_def hl_def [symmetric])
  next
    case False
    define k where "k = unat (lb AND 0x7f)"
    show ?thesis
    proof (cases "t AND CBS_ASN1_CONSTRUCTED \<noteq> 0 \<and> k = 0")
      case True
      with False assms t hl2 show ?thesis
        by (intro out [where len = hl and h = hl])
          (simp_all add: CBS_get_any_ber_asn1_element_def cbs_get_any_asn1_element_def hl_def [symmetric] k_def [symmetric])
    next
      case definite: False
      have "CBS_get_any_ber_asn1_element cbs = (None, cbs)" if "k = 0 \<or> 4 < k \<or> length cs < k"
        using that definite False
        unfolding CBS_get_any_ber_asn1_element_def cbs_get_any_asn1_element_def t prod.case option.case CBS_get_u8_Cons
          Let_def k_def [symmetric] cbs_get_u_eq
        by auto
      with assms have "\<not> (k = 0 \<or> 4 < k \<or> length cs < k)" by fastforce
      then have k: "0 < k" "k \<le> 4" "k \<le> length cs" by simp_all
      define n where "n = be_value (take k cs)"
      have "(256 :: nat) ^ k \<le> 256 ^ 4" using k by (intro power_increasing) simp_all
      then have n: "n < 4294967296" using be_value_less [of "take k cs"] k by (simp add: n_def)
      then have v: "unat (of_nat n :: u64) = n" by (intro unat_of_nat_u64) simp
      have m: "(n + hl + k) mod SIZE_MOD = n + hl + k" using n k hl2 by simp
      have u: "cbs_get_u cs k = (Some (of_nat n), drop k cs)" using k by (simp add: cbs_get_u_eq n_def)
      show ?thesis
        using definite False assms k
        unfolding CBS_get_any_ber_asn1_element_def cbs_get_any_asn1_element_def t prod.case option.case CBS_get_u8_Cons
          Let_def k_def [symmetric] hl_def [symmetric] u v m
        by (intro out [where len = "n + hl + k" and h = "hl + k"]) (use hl2 in \<open>simp_all split: if_splits\<close>)
    qed
  qed
qed

lemma ber_element_fail: "CBS_get_any_ber_asn1_element cbs = (None, rest) \<Longrightarrow> rest = cbs"
  by (auto simp: CBS_get_any_ber_asn1_element_def cbs_get_any_asn1_element_def CBS_get_bytes_eq Let_def
      split: prod.splits option.splits if_splits)

end
