(* ===== verification/CBB.thy ===== *)
theory CBB
  imports DER
begin

text \<open>
  The byte builder of \<^verbatim>\<open>crypto/bytestring/cbb.c\<close>. A top-level \<open>CBB\<close> and its descendants share one
  \<open>cbb_buffer_st\<close> and form a chain through their \<open>child\<close> pointers; at any time each has at most one
  child. The record \<open>CBB\<close> holds the shared buffer (\<open>None\<close> for a null \<open>base\<close>) and the chain: entry 0
  is the top-level object, entry \<open>d + 1\<close> the child of entry \<open>d\<close>. An operation takes the depth \<open>d\<close> of
  the object it is called on; a depth past the end of the chain is a child that has been flushed,
  whose \<open>base\<close> pointer the code has set to null. Operations return whether they succeeded (C's 1
  or 0) and the state after the call, also on failure. The string and identifier operations that
  parse text are in theory \<open>OID\<close>.
\<close>

record cbb_buffer =
  b_buf :: "byte list"
  b_len :: nat
  b_cap :: nat
  b_can_resize :: bool
  b_error :: bool

record cbb =
  c_offset :: nat
  c_pending_len_len :: nat
  c_pending_is_asn1 :: bool
  c_is_child :: bool

record CBB =
  cbb_base :: "cbb_buffer option"
  cbb_chain :: "cbb list"

section \<open>Creation\<close>

definition CBB_zero :: CBB where
  "CBB_zero = \<lparr>cbb_base = None, cbb_chain =
     [\<lparr>c_offset = 0, c_pending_len_len = 0, c_pending_is_asn1 = False, c_is_child = False\<rparr>]\<rparr>"

text \<open>\<open>sizeof(struct cbb_buffer_st)\<close>: a pointer, two sizes and two characters, padded.\<close>

definition sizeof_cbb_buffer :: nat where
  "sizeof_cbb_buffer = 32"

definition cbb_init :: "allocator \<Rightarrow> CBB \<Rightarrow> byte list \<Rightarrow> nat \<Rightarrow> bool \<times> CBB" where
  "cbb_init mem cbb buf cap = (case OPENSSL_malloc mem sizeof_cbb_buffer of
      None \<Rightarrow> (False, cbb)
    | Some _ \<Rightarrow> (True, cbb\<lparr>cbb_base := Some \<lparr>b_buf = buf, b_len = 0, b_cap = cap,
          b_can_resize = True, b_error = False\<rparr>\<rparr>))"

definition CBB_init :: "allocator \<Rightarrow> nat \<Rightarrow> bool \<times> CBB" where
  "CBB_init mem initial_capacity =
     (let cbb = CBB_zero
      in case OPENSSL_malloc mem initial_capacity of
           None \<Rightarrow> if initial_capacity > 0 then (False, cbb)
                   else (case cbb_init mem cbb [] initial_capacity of
                       (False, cbb') \<Rightarrow> (False, cbb') | (True, cbb') \<Rightarrow> (True, cbb'))
         | Some buf \<Rightarrow> (case cbb_init mem cbb buf initial_capacity of
                       (False, cbb') \<Rightarrow> (False, cbb') | (True, cbb') \<Rightarrow> (True, cbb')))"

definition CBB_init_fixed :: "allocator \<Rightarrow> byte list \<Rightarrow> bool \<times> CBB" where
  "CBB_init_fixed mem buf = (case cbb_init mem CBB_zero buf (length buf) of
      (False, cbb) \<Rightarrow> (False, cbb)
    | (True, cbb) \<Rightarrow> (True, cbb\<lparr>cbb_base := map_option (\<lambda>b. b\<lparr>b_can_resize := False\<rparr>) (cbb_base cbb)\<rparr>))"

definition CBB_cleanup :: "CBB \<Rightarrow> nat \<Rightarrow> CBB" where
  "CBB_cleanup cbb d =
     (if d < length (cbb_chain cbb) \<and> c_is_child (cbb_chain cbb ! d) then cbb
      else cbb\<lparr>cbb_base := None\<rparr>)"

section \<open>The growable buffer\<close>

text \<open>\<open>cbb_buffer_reserve\<close> gives the position of the reserved bytes.\<close>

definition cbb_buffer_reserve :: "allocator \<Rightarrow> cbb_buffer \<Rightarrow> nat \<Rightarrow> nat option \<times> cbb_buffer" where
  "cbb_buffer_reserve mem base len =
     (let newlen = (b_len base + len) mod SIZE_MOD;
          err = (None, base\<lparr>b_error := True\<rparr>)
      in if newlen < b_len base then err
         else if newlen > b_cap base then
           let newcap = b_cap base * 2 mod SIZE_MOD
           in if \<not> b_can_resize base then err
              else let newcap = (if newcap < b_cap base \<or> newcap < newlen then newlen else newcap)
                   in case OPENSSL_realloc mem (Some (b_buf base)) newcap of
                        None \<Rightarrow> err
                      | Some newbuf \<Rightarrow>
                          (Some (b_len base), base\<lparr>b_buf := newbuf, b_cap := newcap\<rparr>)
         else (Some (b_len base), base))"

definition cbb_buffer_add :: "allocator \<Rightarrow> cbb_buffer \<Rightarrow> nat \<Rightarrow> nat option \<times> cbb_buffer" where
  "cbb_buffer_add mem base len = (case cbb_buffer_reserve mem base len of
      (None, base') \<Rightarrow> (None, base')
    | (Some out, base') \<Rightarrow> (Some out, base'\<lparr>b_len := b_len base' + len\<rparr>))"

text \<open>The loop that stores a value in \<open>n\<close> bytes from the last one down; the second component is what
  is left of the value.\<close>

fun store_be :: "byte list \<Rightarrow> nat \<Rightarrow> nat \<Rightarrow> nat \<Rightarrow> byte list \<times> nat" where
  "store_be buf pos 0 v = (buf, v)"
| "store_be buf pos (Suc i) v = store_be (buf[pos + i := of_nat v]) pos i (v div 256)"

definition cbb_buffer_add_u :: "allocator \<Rightarrow> cbb_buffer \<Rightarrow> u64 \<Rightarrow> nat \<Rightarrow> bool \<times> cbb_buffer" where
  "cbb_buffer_add_u mem base v len_len =
     (if len_len = 0 then (True, base)
      else case cbb_buffer_add mem base len_len of
          (None, base') \<Rightarrow> (False, base')
        | (Some pos, base') \<Rightarrow>
            (case store_be (b_buf base') pos len_len (unat v) of
               (buf, v') \<Rightarrow>
                 let base' = base'\<lparr>b_buf := buf\<rparr>
                 in if v' \<noteq> 0 then (False, base'\<lparr>b_error := True\<rparr>) else (True, base')))"

section \<open>Flushing\<close>

text \<open>The number of length bytes and the first one, for an ASN.1 child with \<open>len\<close> content bytes.\<close>

definition asn1_len_len :: "nat \<Rightarrow> nat \<times> byte" where
  "asn1_len_len len =
     (if len > 0xffffff then (5, 0x80 OR 4)
      else if len > 0xffff then (4, 0x80 OR 3)
      else if len > 0xff then (3, 0x80 OR 2)
      else if len > 0x7f then (2, 0x80 OR 1)
      else (1, of_nat len))"

text \<open>\<open>cbb_write_prefix\<close> is the part of \<open>CBB_flush\<close> after the recursive call: it writes the length
  prefix of \<open>child\<close>, whose contents run from \<open>child_start\<close> to the end of the buffer. It returns the
  child with its updated offset and pending length.\<close>

definition cbb_write_prefix ::
  "allocator \<Rightarrow> cbb_buffer \<Rightarrow> cbb \<Rightarrow> nat \<Rightarrow> bool \<times> cbb_buffer \<times> cbb" where
  "cbb_write_prefix mem base child child_start =
     (let len = b_len base - child_start;
          fill = (\<lambda>base child len. case store_be (b_buf base) (c_offset child) (c_pending_len_len child) len of
              (buf, len') \<Rightarrow>
                let base' = base\<lparr>b_buf := buf\<rparr>
                in if len' \<noteq> 0 then (False, base'\<lparr>b_error := True\<rparr>, child) else (True, base', child))
      in if c_pending_is_asn1 child then
           if len > 0xfffffffe then (False, base\<lparr>b_error := True\<rparr>, child)
           else case asn1_len_len len of
             (len_len, initial_length_byte) \<Rightarrow>
               let finish = (\<lambda>base len.
                     let base = base\<lparr>b_buf := (b_buf base)[c_offset child := initial_length_byte]\<rparr>;
                         child = child\<lparr>c_offset := c_offset child + 1, c_pending_len_len := len_len - 1\<rparr>
                     in fill base child len)
               in if len_len \<noteq> 1 then
                    let extra_bytes = len_len - 1
                    in case cbb_buffer_add mem base extra_bytes of
                         (None, base') \<Rightarrow> (False, base'\<lparr>b_error := True\<rparr>, child)
                       | (Some _, base') \<Rightarrow>
                           finish (base'\<lparr>b_buf := OPENSSL_memmove (b_buf base')
                                     (child_start + extra_bytes) child_start len\<rparr>) len
                  else finish base 0
         else fill base child len)"

text \<open>\<open>CBB_flush\<close> on an object whose descendants are the given list.\<close>

fun cbb_flush_children :: "allocator \<Rightarrow> cbb_buffer \<Rightarrow> cbb list \<Rightarrow> bool \<times> cbb_buffer \<times> cbb list" where
  "cbb_flush_children mem base [] = (\<not> b_error base, base, [])"
| "cbb_flush_children mem base (child # descendants) =
     (if b_error base then (False, base, child # descendants)
      else if c_pending_len_len child = 0 then (True, base, child # descendants)
      else let child_start = (c_offset child + c_pending_len_len child) mod SIZE_MOD
      in case cbb_flush_children mem base descendants of
           (False, base', descendants') \<Rightarrow> (False, base'\<lparr>b_error := True\<rparr>, child # descendants')
         | (True, base', descendants') \<Rightarrow>
             if child_start < c_offset child \<or> b_len base' < child_start then
               (False, base'\<lparr>b_error := True\<rparr>, child # descendants')
             else (case cbb_write_prefix mem base' child child_start of
                 (False, base'', child') \<Rightarrow> (False, base'', child' # descendants')
               | (True, base'', child') \<Rightarrow> (True, base'', [])))"

definition CBB_flush :: "allocator \<Rightarrow> CBB \<Rightarrow> nat \<Rightarrow> bool \<times> CBB" where
  "CBB_flush mem cbb d =
     (case cbb_base cbb of
        None \<Rightarrow> (False, cbb)
      | Some base \<Rightarrow>
          if d \<ge> length (cbb_chain cbb) then (False, cbb)
          else case cbb_flush_children mem base (drop (Suc d) (cbb_chain cbb)) of
              (ok, base', descendants) \<Rightarrow>
                (ok, cbb\<lparr>cbb_base := Some base',
                         cbb_chain := take (Suc d) (cbb_chain cbb) @ descendants\<rparr>))"

text \<open>\<open>CBB_data\<close> and \<open>CBB_len\<close> assert that there is no child.\<close>

definition CBB_len :: "CBB \<Rightarrow> nat \<Rightarrow> nat option" where
  "CBB_len cbb d =
     (case cbb_base cbb of
        None \<Rightarrow> None
      | Some base \<Rightarrow>
          if Suc d \<noteq> length (cbb_chain cbb) then None
          else let c = cbb_chain cbb ! d
               in if c_offset c + c_pending_len_len c \<le> b_len base
                  then Some (b_len base - c_offset c - c_pending_len_len c) else None)"

definition CBB_data :: "CBB \<Rightarrow> nat \<Rightarrow> byte list option" where
  "CBB_data cbb d =
     (case cbb_base cbb of
        None \<Rightarrow> None
      | Some base \<Rightarrow>
          if Suc d \<noteq> length (cbb_chain cbb) then None
          else let c = cbb_chain cbb ! d
               in Some (drop (c_offset c + c_pending_len_len c) (b_buf base)))"

definition CBB_finish :: "allocator \<Rightarrow> CBB \<Rightarrow> nat \<Rightarrow> bool \<Rightarrow> byte list option \<times> CBB" where
  "CBB_finish mem cbb d outputs_given =
     (if d < length (cbb_chain cbb) \<and> c_is_child (cbb_chain cbb ! d) then (None, cbb)
      else case CBB_flush mem cbb d of
          (False, cbb') \<Rightarrow> (None, cbb')
        | (True, cbb') \<Rightarrow>
            (case cbb_base cbb' of
               None \<Rightarrow> (None, cbb')
             | Some base \<Rightarrow>
                 if b_can_resize base \<and> \<not> outputs_given then (None, cbb')
                 else (Some (take (b_len base) (b_buf base)), CBB_cleanup cbb' d)))"

section \<open>Writing\<close>

text \<open>Attach a new child to the object at depth \<open>d\<close>.\<close>

definition cbb_attach :: "CBB \<Rightarrow> nat \<Rightarrow> nat \<Rightarrow> nat \<Rightarrow> bool \<Rightarrow> CBB" where
  "cbb_attach cbb d offset len_len is_asn1 =
     cbb\<lparr>cbb_chain := take (Suc d) (cbb_chain cbb) @
        [\<lparr>c_offset = offset, c_pending_len_len = len_len, c_pending_is_asn1 = is_asn1,
          c_is_child = True\<rparr>]\<rparr>"

text \<open>Run a buffer operation after the flush that every writer starts with.\<close>

definition cbb_with_base ::
  "allocator \<Rightarrow> CBB \<Rightarrow> nat \<Rightarrow> (cbb_buffer \<Rightarrow> bool \<times> cbb_buffer) \<Rightarrow> bool \<times> CBB" where
  "cbb_with_base mem cbb d f = (case CBB_flush mem cbb d of
      (False, cbb') \<Rightarrow> (False, cbb')
    | (True, cbb') \<Rightarrow> (case cbb_base cbb' of
          None \<Rightarrow> (False, cbb')
        | Some base \<Rightarrow> (case f base of (ok, base') \<Rightarrow> (ok, cbb'\<lparr>cbb_base := Some base'\<rparr>))))"

definition cbb_add_length_prefixed :: "allocator \<Rightarrow> CBB \<Rightarrow> nat \<Rightarrow> nat \<Rightarrow> bool \<times> CBB" where
  "cbb_add_length_prefixed mem cbb d len_len = (case CBB_flush mem cbb d of
      (False, cbb') \<Rightarrow> (False, cbb')
    | (True, cbb') \<Rightarrow> (case cbb_base cbb' of
          None \<Rightarrow> (False, cbb')
        | Some base \<Rightarrow>
            let offset = b_len base
            in case cbb_buffer_add mem base len_len of
                 (None, base') \<Rightarrow> (False, cbb'\<lparr>cbb_base := Some base'\<rparr>)
               | (Some pos, base') \<Rightarrow>
                   (True, cbb_attach (cbb'\<lparr>cbb_base := Some (base'\<lparr>b_buf :=
                       OPENSSL_memcpy (b_buf base') pos (replicate len_len 0)\<rparr>)\<rparr>) d offset len_len False)))"

definition CBB_add_u8_length_prefixed :: "allocator \<Rightarrow> CBB \<Rightarrow> nat \<Rightarrow> bool \<times> CBB" where
  "CBB_add_u8_length_prefixed mem cbb d = cbb_add_length_prefixed mem cbb d 1"

definition CBB_add_u16_length_prefixed :: "allocator \<Rightarrow> CBB \<Rightarrow> nat \<Rightarrow> bool \<times> CBB" where
  "CBB_add_u16_length_prefixed mem cbb d = cbb_add_length_prefixed mem cbb d 2"

definition CBB_add_u24_length_prefixed :: "allocator \<Rightarrow> CBB \<Rightarrow> nat \<Rightarrow> bool \<times> CBB" where
  "CBB_add_u24_length_prefixed mem cbb d = cbb_add_length_prefixed mem cbb d 3"

definition CBB_add_u8 :: "allocator \<Rightarrow> CBB \<Rightarrow> nat \<Rightarrow> byte \<Rightarrow> bool \<times> CBB" where
  "CBB_add_u8 mem cbb d v = cbb_with_base mem cbb d (\<lambda>base. cbb_buffer_add_u mem base (ucast v) 1)"

definition CBB_add_u16 :: "allocator \<Rightarrow> CBB \<Rightarrow> nat \<Rightarrow> u16 \<Rightarrow> bool \<times> CBB" where
  "CBB_add_u16 mem cbb d v = cbb_with_base mem cbb d (\<lambda>base. cbb_buffer_add_u mem base (ucast v) 2)"

definition CBB_add_u16le :: "allocator \<Rightarrow> CBB \<Rightarrow> nat \<Rightarrow> u16 \<Rightarrow> bool \<times> CBB" where
  "CBB_add_u16le mem cbb d v = CBB_add_u16 mem cbb d (CRYPTO_bswap2 v)"

definition CBB_add_u24 :: "allocator \<Rightarrow> CBB \<Rightarrow> nat \<Rightarrow> u32 \<Rightarrow> bool \<times> CBB" where
  "CBB_add_u24 mem cbb d v = cbb_with_base mem cbb d (\<lambda>base. cbb_buffer_add_u mem base (ucast v) 3)"

definition CBB_add_u32 :: "allocator \<Rightarrow> CBB \<Rightarrow> nat \<Rightarrow> u32 \<Rightarrow> bool \<times> CBB" where
  "CBB_add_u32 mem cbb d v = cbb_with_base mem cbb d (\<lambda>base. cbb_buffer_add_u mem base (ucast v) 4)"

definition CBB_add_u32le :: "allocator \<Rightarrow> CBB \<Rightarrow> nat \<Rightarrow> u32 \<Rightarrow> bool \<times> CBB" where
  "CBB_add_u32le mem cbb d v = CBB_add_u32 mem cbb d (CRYPTO_bswap4 v)"

definition CBB_add_u64 :: "allocator \<Rightarrow> CBB \<Rightarrow> nat \<Rightarrow> u64 \<Rightarrow> bool \<times> CBB" where
  "CBB_add_u64 mem cbb d v = cbb_with_base mem cbb d (\<lambda>base. cbb_buffer_add_u mem base v 8)"

definition CBB_add_u64le :: "allocator \<Rightarrow> CBB \<Rightarrow> nat \<Rightarrow> u64 \<Rightarrow> bool \<times> CBB" where
  "CBB_add_u64le mem cbb d v = CBB_add_u64 mem cbb d (CRYPTO_bswap8 v)"

definition CBB_add_bytes :: "allocator \<Rightarrow> CBB \<Rightarrow> nat \<Rightarrow> byte list \<Rightarrow> bool \<times> CBB" where
  "CBB_add_bytes mem cbb d data = cbb_with_base mem cbb d
     (\<lambda>base. case cbb_buffer_add mem base (length data) of
         (None, base') \<Rightarrow> (False, base')
       | (Some dest, base') \<Rightarrow> (True, base'\<lparr>b_buf := OPENSSL_memcpy (b_buf base') dest data\<rparr>))"

text \<open>\<open>CBB_add_space\<close> and \<open>CBB_reserve\<close> also give the position of the new bytes.\<close>

definition CBB_add_space :: "allocator \<Rightarrow> CBB \<Rightarrow> nat \<Rightarrow> nat \<Rightarrow> nat option \<times> CBB" where
  "CBB_add_space mem cbb d len = (case CBB_flush mem cbb d of
      (False, cbb') \<Rightarrow> (None, cbb')
    | (True, cbb') \<Rightarrow> (case cbb_base cbb' of
          None \<Rightarrow> (None, cbb')
        | Some base \<Rightarrow> (case cbb_buffer_add mem base len of
              (out, base') \<Rightarrow> (out, cbb'\<lparr>cbb_base := Some base'\<rparr>))))"

definition CBB_add_zeros :: "allocator \<Rightarrow> CBB \<Rightarrow> nat \<Rightarrow> nat \<Rightarrow> bool \<times> CBB" where
  "CBB_add_zeros mem cbb d len = (case CBB_add_space mem cbb d len of
      (None, cbb') \<Rightarrow> (False, cbb')
    | (Some out, cbb') \<Rightarrow>
        (True, cbb'\<lparr>cbb_base := map_option (\<lambda>base. base\<lparr>b_buf :=
            OPENSSL_memcpy (b_buf base) out (replicate len 0)\<rparr>) (cbb_base cbb')\<rparr>))"

definition CBB_reserve :: "allocator \<Rightarrow> CBB \<Rightarrow> nat \<Rightarrow> nat \<Rightarrow> nat option \<times> CBB" where
  "CBB_reserve mem cbb d len = (case CBB_flush mem cbb d of
      (False, cbb') \<Rightarrow> (None, cbb')
    | (True, cbb') \<Rightarrow> (case cbb_base cbb' of
          None \<Rightarrow> (None, cbb')
        | Some base \<Rightarrow> (case cbb_buffer_reserve mem base len of
              (out, base') \<Rightarrow> (out, cbb'\<lparr>cbb_base := Some base'\<rparr>))))"

definition CBB_did_write :: "CBB \<Rightarrow> nat \<Rightarrow> nat \<Rightarrow> bool \<times> CBB" where
  "CBB_did_write cbb d len = (case cbb_base cbb of
      None \<Rightarrow> (False, cbb)
    | Some base \<Rightarrow>
        let newlen = (b_len base + len) mod SIZE_MOD
        in if Suc d \<noteq> length (cbb_chain cbb) \<or> newlen < b_len base \<or> newlen > b_cap base
           then (False, cbb)
           else (True, cbb\<lparr>cbb_base := Some (base\<lparr>b_len := newlen\<rparr>)\<rparr>))"

definition CBB_discard_child :: "CBB \<Rightarrow> nat \<Rightarrow> CBB" where
  "CBB_discard_child cbb d =
     (if Suc d \<ge> length (cbb_chain cbb) then cbb
      else cbb\<lparr>cbb_base := map_option (\<lambda>base. base\<lparr>b_len := c_offset (cbb_chain cbb ! Suc d)\<rparr>) (cbb_base cbb),
               cbb_chain := take (Suc d) (cbb_chain cbb)\<rparr>)"

section \<open>ASN.1\<close>

fun base128_len_len :: "nat \<Rightarrow> nat" where
  "base128_len_len copy = (if copy > 0 then Suc (base128_len_len (copy div 128)) else 0)"

declare base128_len_len.simps [simp del]

fun add_base128_loop :: "allocator \<Rightarrow> CBB \<Rightarrow> nat \<Rightarrow> u64 \<Rightarrow> nat \<Rightarrow> bool \<times> CBB" where
  "add_base128_loop mem cbb d v 0 = (True, cbb)"
| "add_base128_loop mem cbb d v (Suc i) =
     (let b = ucast (drop_bit (7 * i) v AND 0x7f) :: byte;
          b = (if i \<noteq> 0 then b OR 0x80 else b)
      in case CBB_add_u8 mem cbb d b of
           (False, cbb') \<Rightarrow> (False, cbb')
         | (True, cbb') \<Rightarrow> add_base128_loop mem cbb' d v i)"

definition add_base128_integer :: "allocator \<Rightarrow> CBB \<Rightarrow> nat \<Rightarrow> u64 \<Rightarrow> bool \<times> CBB" where
  "add_base128_integer mem cbb d v =
     (let len_len = base128_len_len (unat v);
          len_len = (if len_len = 0 then 1 else len_len)
      in add_base128_loop mem cbb d v len_len)"

definition CBB_add_asn1 :: "allocator \<Rightarrow> CBB \<Rightarrow> nat \<Rightarrow> u32 \<Rightarrow> bool \<times> CBB" where
  "CBB_add_asn1 mem cbb d tag = (case CBB_flush mem cbb d of
      (False, cbb') \<Rightarrow> (False, cbb')
    | (True, cbb') \<Rightarrow>
        let tag_bits = ucast (drop_bit CBS_ASN1_TAG_SHIFT tag) AND 0xe0 :: byte;
            tag_number = tag AND CBS_ASN1_TAG_NUMBER_MASK;
            (ok, cbb'') =
              (if tag_number \<ge> 0x1f then
                 (case CBB_add_u8 mem cbb' d (tag_bits OR 0x1f) of
                    (False, c) \<Rightarrow> (False, c)
                  | (True, c) \<Rightarrow> add_base128_integer mem c d (ucast tag_number))
               else CBB_add_u8 mem cbb' d (tag_bits OR ucast tag_number))
        in if \<not> ok then (False, cbb'')
           else (case cbb_base cbb'' of
               None \<Rightarrow> (False, cbb'')
             | Some base \<Rightarrow>
                 let offset = b_len base
                 in case CBB_add_u8 mem cbb'' d 0 of
                      (False, c) \<Rightarrow> (False, c)
                    | (True, c) \<Rightarrow> (True, cbb_attach c d offset 1 True)))"

fun asn1_uint64_bytes :: "allocator \<Rightarrow> CBB \<Rightarrow> nat \<Rightarrow> u64 \<Rightarrow> nat list \<Rightarrow> bool \<Rightarrow> (bool \<times> bool) \<times> CBB" where
  "asn1_uint64_bytes mem cbb d v [] started = ((True, started), cbb)"
| "asn1_uint64_bytes mem cbb d v (i # is) started =
     (let b = ucast (drop_bit (8 * (7 - i)) v AND 0xff) :: byte
      in if \<not> started \<and> b = 0 then asn1_uint64_bytes mem cbb d v is started
         else case (if \<not> started \<and> b AND 0x80 \<noteq> 0 then CBB_add_u8 mem cbb d 0 else (True, cbb)) of
             (False, cbb') \<Rightarrow> ((False, started), cbb')
           | (True, cbb') \<Rightarrow> (case CBB_add_u8 mem cbb' d b of
               (False, cbb'') \<Rightarrow> ((False, True), cbb'')
             | (True, cbb'') \<Rightarrow> asn1_uint64_bytes mem cbb'' d v is True))"

definition CBB_add_asn1_uint64 :: "allocator \<Rightarrow> CBB \<Rightarrow> nat \<Rightarrow> u64 \<Rightarrow> bool \<times> CBB" where
  "CBB_add_asn1_uint64 mem cbb d v = (case CBB_add_asn1 mem cbb d CBS_ASN1_INTEGER of
      (False, c) \<Rightarrow> (False, c)
    | (True, c) \<Rightarrow> (case asn1_uint64_bytes mem c (Suc d) v [0..<8] False of
          ((False, _), c') \<Rightarrow> (False, c')
        | ((True, started), c') \<Rightarrow>
            (case (if \<not> started then CBB_add_u8 mem c' (Suc d) 0 else (True, c')) of
               (False, c'') \<Rightarrow> (False, c'')
             | (True, c'') \<Rightarrow> CBB_flush mem c'' d)))"

text \<open>The bytes of the union, least significant first.\<close>

definition int64_bytes :: "u64 \<Rightarrow> byte list" where
  "int64_bytes v = rev (be_bytes 8 (unat v))"

fun int64_start :: "byte list \<Rightarrow> nat \<Rightarrow> nat" where
  "int64_start bytes 0 = 0"
| "int64_start bytes (Suc k) =
     (if bytes ! Suc k = 0xff \<and> bytes ! k AND 0x80 \<noteq> 0 then int64_start bytes k else Suc k)"

fun add_bytes_down :: "allocator \<Rightarrow> CBB \<Rightarrow> nat \<Rightarrow> byte list \<Rightarrow> nat \<Rightarrow> bool \<times> CBB" where
  "add_bytes_down mem cbb d bytes 0 = (True, cbb)"
| "add_bytes_down mem cbb d bytes (Suc i) = (case CBB_add_u8 mem cbb d (bytes ! i) of
      (False, cbb') \<Rightarrow> (False, cbb')
    | (True, cbb') \<Rightarrow> add_bytes_down mem cbb' d bytes i)"

definition CBB_add_asn1_int64 :: "allocator \<Rightarrow> CBB \<Rightarrow> nat \<Rightarrow> u64 \<Rightarrow> bool \<times> CBB" where
  "CBB_add_asn1_int64 mem cbb d v =
     (if 0 \<le> sint v then CBB_add_asn1_uint64 mem cbb d v
      else let u = int64_bytes v; start = int64_start u 7
           in case CBB_add_asn1 mem cbb d CBS_ASN1_INTEGER of
                (False, c) \<Rightarrow> (False, c)
              | (True, c) \<Rightarrow> (case add_bytes_down mem c (Suc d) u (Suc start) of
                    (False, c') \<Rightarrow> (False, c')
                  | (True, c') \<Rightarrow> CBB_flush mem c' d))"

definition CBB_add_asn1_octet_string :: "allocator \<Rightarrow> CBB \<Rightarrow> nat \<Rightarrow> byte list \<Rightarrow> bool \<times> CBB" where
  "CBB_add_asn1_octet_string mem cbb d data = (case CBB_add_asn1 mem cbb d CBS_ASN1_OCTETSTRING of
      (False, c) \<Rightarrow> (False, c)
    | (True, c) \<Rightarrow> (case CBB_add_bytes mem c (Suc d) data of
          (False, c') \<Rightarrow> (False, c')
        | (True, c') \<Rightarrow> CBB_flush mem c' d))"

definition CBB_add_asn1_bool :: "allocator \<Rightarrow> CBB \<Rightarrow> nat \<Rightarrow> int \<Rightarrow> bool \<times> CBB" where
  "CBB_add_asn1_bool mem cbb d v = (case CBB_add_asn1 mem cbb d CBS_ASN1_BOOLEAN of
      (False, c) \<Rightarrow> (False, c)
    | (True, c) \<Rightarrow> (case CBB_add_u8 mem c (Suc d) (if v \<noteq> 0 then 0xff else 0) of
          (False, c') \<Rightarrow> (False, c')
        | (True, c') \<Rightarrow> CBB_flush mem c' d))"

section \<open>Sorting the elements of a SET OF\<close>

text \<open>\<open>OPENSSL_memcmp\<close> on blocks of the same length: the sign of the first difference.\<close>

fun OPENSSL_memcmp :: "byte list \<Rightarrow> byte list \<Rightarrow> int" where
  "OPENSSL_memcmp (a # as) (b # bs) = (if a = b then OPENSSL_memcmp as bs else if a < b then - 1 else 1)"
| "OPENSSL_memcmp _ _ = 0"

definition compare_set_of_element :: "byte list \<Rightarrow> byte list \<Rightarrow> int" where
  "compare_set_of_element a b =
     (let a_len = length a; b_len = length b;
          min_len = (if a_len < b_len then a_len else b_len);
          ret = OPENSSL_memcmp (take min_len a) (take min_len b)
      in if ret \<noteq> 0 then ret
         else if a_len = b_len then 0
         else if a_len < b_len then - 1 else 1)"

text \<open>\<open>qsort\<close> with this comparison, as insertion sort: the C library promises only an ascending
  rearrangement, and elements that compare equal are equal.\<close>

fun qsort_insert :: "byte list \<Rightarrow> byte list list \<Rightarrow> byte list list" where
  "qsort_insert x [] = [x]"
| "qsort_insert x (y # ys) = (if compare_set_of_element x y \<le> 0 then x # y # ys else y # qsort_insert x ys)"

definition qsort_set_of :: "byte list list \<Rightarrow> byte list list" where
  "qsort_set_of xs = foldr qsort_insert xs []"

text \<open>The loops over the elements; each round consumes at least one byte, so the length of the cursor
  bounds the number of rounds.\<close>

fun split_elements :: "nat \<Rightarrow> CBS \<Rightarrow> byte list list option" where
  "split_elements fuel [] = Some []"
| "split_elements 0 cbs = None"
| "split_elements (Suc fuel) cbs = (case CBS_get_any_asn1_element cbs of
      (None, _) \<Rightarrow> None
    | (Some e, cbs') \<Rightarrow> map_option (Cons (el_out e)) (split_elements fuel cbs'))"

fun add_all_bytes :: "allocator \<Rightarrow> CBB \<Rightarrow> nat \<Rightarrow> byte list list \<Rightarrow> bool \<times> CBB" where
  "add_all_bytes mem cbb d [] = (True, cbb)"
| "add_all_bytes mem cbb d (x # xs) = (case CBB_add_bytes mem cbb d x of
      (False, cbb') \<Rightarrow> (False, cbb')
    | (True, cbb') \<Rightarrow> add_all_bytes mem cbb' d xs)"

definition sizeof_CBS :: nat where
  "sizeof_CBS = 16"

definition CBB_flush_asn1_set_of :: "allocator \<Rightarrow> CBB \<Rightarrow> nat \<Rightarrow> bool \<times> CBB" where
  "CBB_flush_asn1_set_of mem cbb d = (case CBB_flush mem cbb d of
      (False, cbb') \<Rightarrow> (False, cbb')
    | (True, cbb') \<Rightarrow>
       (case (cbb_base cbb', CBB_data cbb' d, CBB_len cbb' d) of
          (Some base, Some data, Some buf_len) \<Rightarrow>
            let contents = take buf_len data
            in case split_elements buf_len contents of
                 None \<Rightarrow> (False, cbb')
               | Some children \<Rightarrow>
                   if length children < 2 then (True, cbb')
                   else if length children > (SIZE_MOD - 1) div sizeof_CBS then (False, cbb')
                   else case (OPENSSL_memdup mem contents,
                              OPENSSL_malloc mem (length children * sizeof_CBS)) of
                       (Some buf, Some _) \<Rightarrow>
                         (case split_elements buf_len buf of
                            None \<Rightarrow> (False, cbb')
                          | Some children \<Rightarrow>
                              let c = cbb_chain cbb' ! d;
                                  cbb'' = cbb'\<lparr>cbb_base := Some (base\<lparr>b_len :=
                                      c_offset c + c_pending_len_len c\<rparr>)\<rparr>
                              in add_all_bytes mem cbb'' d (qsort_set_of children))
                     | _ \<Rightarrow> (False, cbb')
        | _ \<Rightarrow> (False, cbb')))"

end
