(* ===== verification/CBB_Spec.thy ===== *)
theory CBB_Spec
  imports CBB
begin

text \<open>
  The contract of the builder. A builder with open children stands for a stack of frames, one per
  open length prefix, each with the bytes written to it so far; flushing renders the frames, closing
  each with the prefix its kind asks for. The theory proves that the code of theory \<open>CBB\<close> keeps its
  invariant, implements this contract, and fails only for lack of room or when a length does not
  fit its prefix.
\<close>

section \<open>Specification\<close>

datatype prefix_kind = Prefix_ASN1 | Prefix_Bytes nat

fun encode_prefix :: "prefix_kind \<Rightarrow> nat \<Rightarrow> byte list option" where
  "encode_prefix Prefix_ASN1 n = (if n \<le> 0xfffffffe then Some (der_length n) else None)"
| "encode_prefix (Prefix_Bytes k) n = (if n < 256 ^ k then Some (be_bytes k n) else None)"

fun render :: "(prefix_kind \<times> byte list) list \<Rightarrow> byte list option" where
  "render [] = Some []"
| "render ((kind, bytes) # frames) = (case render frames of
      None \<Rightarrow> None
    | Some r \<Rightarrow> (case encode_prefix kind (length bytes + length r) of
          None \<Rightarrow> None
        | Some e \<Rightarrow> Some (e @ bytes @ r)))"

section \<open>Abstraction and invariant\<close>

definition buffer_ok :: "cbb_buffer \<Rightarrow> bool" where
  "buffer_ok b \<longleftrightarrow> b_cap b = length (b_buf b) \<and> b_len b \<le> b_cap b \<and> b_cap b < SIZE_MOD"

definition written :: "cbb_buffer \<Rightarrow> byte list" where
  "written b = take (b_len b) (b_buf b)"

definition kind_of :: "cbb \<Rightarrow> prefix_kind" where
  "kind_of c = (if c_pending_is_asn1 c then Prefix_ASN1 else Prefix_Bytes (c_pending_len_len c))"

abbreviation contents_start :: "cbb \<Rightarrow> nat" where
  "contents_start c \<equiv> c_offset c + c_pending_len_len c"

fun chain_ok :: "nat \<Rightarrow> nat \<Rightarrow> cbb list \<Rightarrow> bool" where
  "chain_ok lo n [] \<longleftrightarrow> lo \<le> n"
| "chain_ok lo n (c # cs) \<longleftrightarrow> lo \<le> c_offset c \<and> 1 \<le> c_pending_len_len c \<and> c_pending_len_len c \<le> 3 \<and>
     (c_pending_is_asn1 c \<longrightarrow> c_pending_len_len c = 1) \<and> c_is_child c \<and>
     chain_ok (contents_start c) n cs"

definition first_offset :: "nat \<Rightarrow> cbb list \<Rightarrow> nat" where
  "first_offset n cs = (case cs of [] \<Rightarrow> n | c # _ \<Rightarrow> c_offset c)"

fun frames_of :: "byte list \<Rightarrow> cbb list \<Rightarrow> (prefix_kind \<times> byte list) list" where
  "frames_of w [] = []"
| "frames_of w (c # cs) =
     (kind_of c, drop (contents_start c) (take (first_offset (length w) cs) w)) # frames_of w cs"

text \<open>Room for a total of \<open>n\<close> bytes: in the block there is, or by growing it. The bounds keep the
  doubled capacity below the allocator's limit of \<open>SIZE_MOD\<close>.\<close>

definition fits :: "allocator \<Rightarrow> cbb_buffer \<Rightarrow> nat \<Rightarrow> bool" where
  "fits mem b n \<longleftrightarrow> n \<le> b_cap b \<or>
     b_can_resize b \<and> (\<forall>k. grants mem k) \<and> b_cap b \<le> 2 ^ 62 \<and> n \<le> 2 ^ 61"

text \<open>What every buffer operation keeps.\<close>

definition buffer_ext :: "allocator \<Rightarrow> cbb_buffer \<Rightarrow> cbb_buffer \<Rightarrow> bool" where
  "buffer_ext mem b b' \<longleftrightarrow> buffer_ok b' \<and> b_error b' = b_error b \<and> b_can_resize b' = b_can_resize b \<and>
     (\<not> b_can_resize b \<longrightarrow> b_cap b' = b_cap b) \<and> (\<forall>n. fits mem b n \<longrightarrow> fits mem b' n)"

lemma buffer_ext_refl: "buffer_ok b \<Longrightarrow> buffer_ext mem b b"
  by (simp add: buffer_ext_def)

lemma buffer_ext_trans: "buffer_ext mem a b \<Longrightarrow> buffer_ext mem b c \<Longrightarrow> buffer_ext mem a c"
  by (auto simp: buffer_ext_def)

lemma buffer_ext_buf:
  "buffer_ok b \<Longrightarrow> length buf = length (b_buf b) \<Longrightarrow> buffer_ext mem b (b\<lparr>b_buf := buf\<rparr>)"
  by (auto simp: buffer_ext_def buffer_ok_def fits_def)

lemma length_written: "buffer_ok b \<Longrightarrow> length (written b) = b_len b"
  by (simp add: written_def buffer_ok_def min_absorb2)

section \<open>The buffer\<close>

lemma reserve_sound:
  assumes "cbb_buffer_reserve mem b n = (Some p, b')" and ok: "buffer_ok b" and n: "n < SIZE_MOD"
  shows "p = b_len b \<and> buffer_ext mem b b' \<and> b_len b' = b_len b \<and> b_len b + n \<le> b_cap b' \<and>
    written b' = written b"
proof -
  have len: "b_len b < SIZE_MOD" using ok by (simp add: buffer_ok_def)
  let ?newlen = "(b_len b + n) mod SIZE_MOD"
  have nowrap: "\<not> ?newlen < b_len b" using assms(1) by (auto simp: cbb_buffer_reserve_def Let_def)
  have newlen: "?newlen = b_len b + n"
    using nowrap len n by (auto simp: mod_if split: if_splits)
  show ?thesis
  proof (cases "b_cap b < b_len b + n")
    case False
    then show ?thesis using assms(1) ok newlen
      by (auto simp: cbb_buffer_reserve_def Let_def buffer_ext_refl split: if_splits)
  next
    case True
    define newcap where "newcap = (let c = b_cap b * 2 mod SIZE_MOD
      in if c < b_cap b \<or> c < b_len b + n then b_len b + n else c)"
    have resize: "b_can_resize b" and p: "p = b_len b"
      using assms(1) True nowrap newlen
      by (auto simp: cbb_buffer_reserve_def Let_def split: if_splits option.splits)
    obtain buf where buf: "OPENSSL_realloc mem (Some (b_buf b)) newcap = Some buf"
      and b': "b' = b\<lparr>b_buf := buf, b_cap := newcap\<rparr>"
      using assms(1) True nowrap newlen resize
      by (auto simp: cbb_buffer_reserve_def Let_def newcap_def split: option.splits if_splits)
    have "b_len b + n < SIZE_MOD" by (subst newlen [symmetric]) simp
    then have cap: "b_len b + n \<le> newcap" "newcap < SIZE_MOD" "newcap \<le> b_cap b * 2 \<or> newcap = b_len b + n"
      by (auto simp: newcap_def Let_def not_less)
    have "length buf = newcap" using buf cap(2) by (rule length_OPENSSL_realloc)
    moreover have "take (b_len b) buf = take (b_len b) (b_buf b)"
      using OPENSSL_realloc_keeps [OF buf cap(2), of "b_len b"] ok cap(1) by (simp add: buffer_ok_def)
    moreover have "fits mem b m \<Longrightarrow> fits mem b' m" for m
      using cap(1) True unfolding fits_def b' by (cases "m \<le> newcap") auto
    ultimately show ?thesis using ok cap p resize
      by (auto simp: b' buffer_ext_def buffer_ok_def written_def)
  qed
qed

lemma reserve_succeeds:
  assumes ok: "buffer_ok b" and fits: "fits mem b (b_len b + n)"
  shows "\<exists>b'. cbb_buffer_reserve mem b n = (Some (b_len b), b')"
proof -
  have cap: "b_cap b < SIZE_MOD" "b_len b \<le> b_cap b" using ok by (simp_all add: buffer_ok_def)
  have small: "b_len b + n < SIZE_MOD"
    using fits cap unfolding fits_def by auto
  show ?thesis
  proof (cases "b_cap b < b_len b + n")
    case False
    with small show ?thesis by (simp add: cbb_buffer_reserve_def Let_def)
  next
    case True
    with fits have g: "b_can_resize b" "\<And>k. grants mem k" "b_cap b \<le> 2 ^ 62" "b_len b + n \<le> 2 ^ 61"
      by (auto simp: fits_def)
    define newcap where "newcap = (if b_cap b * 2 < b_cap b \<or> b_cap b * 2 < b_len b + n
      then b_len b + n else b_cap b * 2)"
    have "newcap + 8 < SIZE_MOD" using g by (auto simp: newcap_def)
    then obtain buf where "OPENSSL_realloc mem (Some (b_buf b)) newcap = Some buf"
      using OPENSSL_realloc_granted [of mem newcap] g(2) by blast
    moreover have "b_cap b * 2 mod SIZE_MOD = b_cap b * 2" using g(3) by simp
    ultimately show ?thesis using True small g(1)
      by (simp add: cbb_buffer_reserve_def Let_def newcap_def)
  qed
qed

lemma buffer_add_sound:
  assumes "cbb_buffer_add mem b n = (Some p, b')" and "buffer_ok b" and "n < SIZE_MOD"
  shows "p = b_len b \<and> buffer_ext mem b b' \<and> b_len b' = b_len b + n \<and>
    take (b_len b) (b_buf b') = written b"
proof -
  obtain b1 where r: "cbb_buffer_reserve mem b n = (Some p, b1)" and b': "b' = b1\<lparr>b_len := b_len b1 + n\<rparr>"
    using assms(1) by (auto simp: cbb_buffer_add_def split: prod.splits option.splits)
  from reserve_sound [OF r assms(2,3)] show ?thesis
    by (auto simp: b' buffer_ext_def buffer_ok_def written_def fits_def)
qed

lemma buffer_add_succeeds:
  assumes "buffer_ok b" and "fits mem b (b_len b + n)"
  shows "\<exists>b'. cbb_buffer_add mem b n = (Some (b_len b), b')"
  using reserve_succeeds [OF assms] by (auto simp: cbb_buffer_add_def)

text \<open>Overwriting a block inside the buffer.\<close>

lemma length_memcpy [simp]:
  "pos + length data \<le> length buf \<Longrightarrow> length (OPENSSL_memcpy buf pos data) = length buf"
  by (simp add: OPENSSL_memcpy_def)

lemma take_memcpy_before: "k \<le> pos \<Longrightarrow> pos \<le> length buf \<Longrightarrow> take k (OPENSSL_memcpy buf pos data) = take k buf"
  by (simp add: OPENSSL_memcpy_def min_absorb1 min_absorb2)

lemma take_memcpy:
  assumes "pos + length data \<le> k" and "k \<le> length buf"
  shows "take k (OPENSSL_memcpy buf pos data) = OPENSSL_memcpy (take k buf) pos data"
proof -
  have "take (k - pos - length data) (drop (pos + length data) buf) = drop (pos + length data) (take k buf)"
    by (simp add: drop_take)
  then show ?thesis using assms by (simp add: OPENSSL_memcpy_def min_absorb1 min_absorb2)
qed

lemma take_memcpy_end:
  "pos + length data \<le> length buf \<Longrightarrow>
    take (pos + length data) (OPENSSL_memcpy buf pos data) = take pos buf @ data"
  by (simp add: OPENSSL_memcpy_def min_absorb2)

lemma list_update_memcpy: "pos < length buf \<Longrightarrow> buf[pos := v] = OPENSSL_memcpy buf pos [v]"
  by (simp add: OPENSSL_memcpy_def upd_conv_take_nth_drop)

lemma store_be_memcpy:
  "pos + n \<le> length buf \<Longrightarrow> store_be buf pos n v = (OPENSSL_memcpy buf pos (be_bytes n v), v div 256 ^ n)"
proof (induction n arbitrary: buf v)
  case 0
  then show ?case by (simp add: OPENSSL_memcpy_def)
next
  case (Suc n)
  let ?buf = "buf[pos + n := of_nat v]"
  have "drop (pos + n) ?buf = of_nat v # drop (Suc (pos + n)) buf"
    using Suc.prems by (simp add: upd_conv_take_nth_drop)
  then have "OPENSSL_memcpy ?buf pos (be_bytes n (v div 256)) = OPENSSL_memcpy buf pos (be_bytes (Suc n) v)"
    using Suc.prems by (simp add: OPENSSL_memcpy_def be_bytes_Suc_snoc del: be_bytes.simps)
  moreover have "store_be ?buf pos n (v div 256) =
      (OPENSSL_memcpy ?buf pos (be_bytes n (v div 256)), v div 256 div 256 ^ n)"
    using Suc.prems by (intro Suc.IH) simp
  moreover have "v div 256 div 256 ^ n = v div 256 ^ Suc n" by (simp add: div_mult2_eq)
  ultimately show ?case by (simp del: be_bytes.simps)
qed

lemma written_memcpy_end:
  assumes "take pos (b_buf b) = w" and "b_len b = pos + length data" and "buffer_ok b"
  shows "written (b\<lparr>b_buf := OPENSSL_memcpy (b_buf b) pos data\<rparr>) = w @ data"
  using assms by (simp add: written_def take_memcpy_end buffer_ok_def)

lemma buffer_add_data_sound:
  assumes "cbb_buffer_add mem b (length data) = (Some p, b')" and ok: "buffer_ok b"
    and "length data < SIZE_MOD"
  shows "buffer_ext mem b (b'\<lparr>b_buf := OPENSSL_memcpy (b_buf b') p data\<rparr>) \<and>
    written (b'\<lparr>b_buf := OPENSSL_memcpy (b_buf b') p data\<rparr>) = written b @ data"
proof -
  from buffer_add_sound [OF assms] have p: "p = b_len b" and ext: "buffer_ext mem b b'"
    and len: "b_len b' = b_len b + length data" and w: "take (b_len b) (b_buf b') = written b" by simp_all
  have ok': "buffer_ok b'" using ext by (simp add: buffer_ext_def)
  have "buffer_ext mem b' (b'\<lparr>b_buf := OPENSSL_memcpy (b_buf b') p data\<rparr>)"
    using ok' len p by (intro buffer_ext_buf) (auto simp: buffer_ok_def)
  with ext ok' len w p show ?thesis
    using buffer_ext_trans written_memcpy_end [of "b_len b" b' "written b" data] by blast
qed

lemma buffer_add_u_sound:
  assumes "cbb_buffer_add_u mem b v n = (True, b')" and ok: "buffer_ok b" and n: "0 < n" "n < SIZE_MOD"
  shows "buffer_ext mem b b' \<and> unat v < 256 ^ n \<and> written b' = written b @ be_bytes n (unat v)"
proof -
  obtain p b1 where add: "cbb_buffer_add mem b (length (be_bytes n (unat v))) = (Some p, b1)"
    using assms by (auto simp: cbb_buffer_add_u_def split: prod.splits option.splits)
  note snd = buffer_add_sound [OF add ok] buffer_add_data_sound [OF add ok]
  have "p + n \<le> length (b_buf b1)" using snd n by (auto simp: buffer_ext_def buffer_ok_def)
  then have st: "store_be (b_buf b1) p n (unat v) =
      (OPENSSL_memcpy (b_buf b1) p (be_bytes n (unat v)), unat v div 256 ^ n)"
    by (rule store_be_memcpy)
  then have "unat v div 256 ^ n = 0" and "b' = b1\<lparr>b_buf := OPENSSL_memcpy (b_buf b1) p (be_bytes n (unat v))\<rparr>"
    using assms(1) n add by (auto simp: cbb_buffer_add_u_def Let_def split: if_splits)
  with snd(2) n show ?thesis by (simp add: div_eq_0_iff)
qed

lemma buffer_add_u_succeeds:
  assumes ok: "buffer_ok b" and fits: "fits mem b (b_len b + n)" and v: "unat v < 256 ^ n" and n: "n < SIZE_MOD"
  shows "\<exists>b'. cbb_buffer_add_u mem b v n = (True, b')"
proof -
  obtain b1 where add: "cbb_buffer_add mem b n = (Some (b_len b), b1)"
    using buffer_add_succeeds [OF ok fits] by blast
  have "b_len b + n \<le> length (b_buf b1)"
    using buffer_add_sound [OF add ok n] by (auto simp: buffer_ext_def buffer_ok_def)
  then have "store_be (b_buf b1) (b_len b) n (unat v) =
      (OPENSSL_memcpy (b_buf b1) (b_len b) (be_bytes n (unat v)), unat v div 256 ^ n)"
    by (rule store_be_memcpy)
  with add v show ?thesis by (cases "n = 0") (simp_all add: cbb_buffer_add_u_def Let_def)
qed

section \<open>Length prefixes\<close>

lemma asn1_len_len_spec:
  assumes "n \<le> 0xfffffffe"
  shows "asn1_len_len n = (if n < 128 then (1, of_nat n)
    else (Suc (octets_needed n), of_nat (128 + octets_needed n)))"
  using assms by (simp add: asn1_len_len_def octets_needed_def)

lemma length_der_length: "length (der_length n) = (if n < 128 then 1 else Suc (octets_needed n))"
  by (simp add: der_length_def)

lemma write_prefix_bytes:
  assumes ok: "buffer_ok b" and start: "contents_start c \<le> b_len b" and kind: "\<not> c_pending_is_asn1 c"
  shows "cbb_write_prefix mem b c (contents_start c) =
    (let n = b_len b - contents_start c;
         b' = b\<lparr>b_buf := OPENSSL_memcpy (b_buf b) (c_offset c) (be_bytes (c_pending_len_len c) n)\<rparr>
     in if n < 256 ^ c_pending_len_len c then (True, b', c) else (False, b'\<lparr>b_error := True\<rparr>, c))"
proof -
  have "contents_start c \<le> length (b_buf b)" using ok start by (simp add: buffer_ok_def)
  then show ?thesis using kind
    by (simp add: cbb_write_prefix_def store_be_memcpy Let_def div_eq_0_iff)
qed

lemma write_prefix_short:
  assumes ok: "buffer_ok b" and start: "contents_start c \<le> b_len b" "c_pending_len_len c = 1"
    and kind: "c_pending_is_asn1 c" and n: "b_len b - contents_start c < 128"
  shows "cbb_write_prefix mem b c (contents_start c) =
    (True, b\<lparr>b_buf := OPENSSL_memcpy (b_buf b) (c_offset c) [of_nat (b_len b - contents_start c)]\<rparr>,
     c\<lparr>c_offset := c_offset c + 1, c_pending_len_len := 0\<rparr>)"
proof -
  have "c_offset c < length (b_buf b)" using ok start by (simp add: buffer_ok_def)
  then show ?thesis using kind n
    by (simp add: cbb_write_prefix_def Let_def asn1_len_len_spec list_update_memcpy)
qed

lemma memmove_then_prefix:
  fixes off k n :: nat
  assumes "off + 1 + n + k \<le> length buf" and "length bs = k"
  shows "take (off + 1 + n + k)
      (OPENSSL_memcpy ((OPENSSL_memmove buf (off + 1 + k) (off + 1) n)[off := x]) (off + 1) bs) =
    take off buf @ x # bs @ take n (drop (off + 1) buf)"
proof -
  let ?mv = "OPENSSL_memmove buf (off + 1 + k) (off + 1) n"
  have "?mv = (take off buf @ buf ! off # take k (drop (off + 1) buf)) @
      take n (drop (off + 1) buf) @ drop (off + 1 + k + n) buf"
  proof -
    have "take (off + 1 + k) buf = take (off + 1) buf @ take k (drop (off + 1) buf)"
      by (rule take_add)
    moreover have "take (off + 1) buf = take off buf @ [buf ! off]"
      using assms by (simp add: take_Suc_conv_app_nth)
    ultimately show ?thesis by (simp add: OPENSSL_memmove_def)
  qed
  then have "?mv[off := x] = take off buf @ x # take k (drop (off + 1) buf) @
      take n (drop (off + 1) buf) @ drop (off + 1 + k + n) buf"
    using assms by (simp add: list_update_append min_absorb2)
  then show ?thesis using assms by (simp add: OPENSSL_memcpy_def min_absorb2)
qed

lemma write_prefix_long:
  assumes ok: "buffer_ok b" and start: "contents_start c \<le> b_len b" "c_pending_len_len c = 1"
    and kind: "c_pending_is_asn1 c"
    and n_def: "n = b_len b - contents_start c" and n: "128 \<le> n" "n \<le> 0xfffffffe"
    and k_def: "k = octets_needed n"
  shows "cbb_write_prefix mem b c (contents_start c) =
    (case cbb_buffer_add mem b k of
       (None, b') \<Rightarrow> (False, b'\<lparr>b_error := True\<rparr>, c)
     | (Some _, b') \<Rightarrow> (True, b'\<lparr>b_buf := OPENSSL_memcpy
          ((OPENSSL_memmove (b_buf b') (c_offset c + 1 + k) (c_offset c + 1) n)
             [c_offset c := of_nat (128 + k)]) (c_offset c + 1) (be_bytes k n)\<rparr>,
        c\<lparr>c_offset := c_offset c + 1, c_pending_len_len := k\<rparr>))"
proof (cases "cbb_buffer_add mem b k")
  case (Pair r b')
  have k: "0 < k" "k \<le> 4" using octets_needed_pos octets_needed_le by (simp_all add: k_def)
  have nk: "n < 256 ^ k" using n octets_needed_bounds [of n] by (simp add: k_def)
  have ll: "asn1_len_len n = (Suc k, of_nat (128 + k))"
    using n by (simp add: asn1_len_len_spec k_def)
  have nd: "b_len b - Suc (c_offset c) = n" using start(2) n_def by simp
  show ?thesis
  proof (cases r)
    case None
    with Pair k show ?thesis using kind n start(2)
      by (simp add: cbb_write_prefix_def Let_def nd ll)
  next
    case (Some p)
    have "buffer_ok b'" "b_len b' = b_len b + k"
      using buffer_add_sound [of mem b k p b'] Pair Some ok k by (auto simp: buffer_ext_def)
    then have "c_offset c + 1 + n + k \<le> length (b_buf b')"
      using start n_def by (simp add: buffer_ok_def)
    then have "store_be ((OPENSSL_memmove (b_buf b') (c_offset c + 1 + k) (c_offset c + 1) n)
        [c_offset c := of_nat (128 + k)]) (c_offset c + 1) k n =
      (OPENSSL_memcpy ((OPENSSL_memmove (b_buf b') (c_offset c + 1 + k) (c_offset c + 1) n)
        [c_offset c := of_nat (128 + k)]) (c_offset c + 1) (be_bytes k n), 0)"
      using nk by (subst store_be_memcpy) (simp_all add: OPENSSL_memmove_def)
    with Pair Some k show ?thesis using kind n start(2)
      by (simp add: cbb_write_prefix_def Let_def nd ll)
  qed
qed

text \<open>One lemma for the three cases: the prefix of a child, and when writing it succeeds.\<close>

definition child_ok :: "cbb \<Rightarrow> nat \<Rightarrow> bool" where
  "child_ok c n \<longleftrightarrow> 1 \<le> c_pending_len_len c \<and> c_pending_len_len c \<le> 3 \<and>
     (c_pending_is_asn1 c \<longrightarrow> c_pending_len_len c = 1) \<and> contents_start c \<le> n"

lemma write_prefix_sound:
  assumes "cbb_write_prefix mem b c (contents_start c) = (True, b', c')"
    and ok: "buffer_ok b" and child: "child_ok c (b_len b)"
  shows "buffer_ext mem b b' \<and>
    (\<exists>e. encode_prefix (kind_of c) (b_len b - contents_start c) = Some e \<and>
       written b' = take (c_offset c) (written b) @ e @ drop (contents_start c) (written b))"
proof -
  have start: "contents_start c \<le> b_len b" and len: "b_len b \<le> length (b_buf b)"
    using ok child by (simp_all add: child_ok_def buffer_ok_def)
  define n where "n = b_len b - contents_start c"
  have splice: "buffer_ext mem b (b\<lparr>b_buf := OPENSSL_memcpy (b_buf b) (c_offset c) e\<rparr>)"
      "written (b\<lparr>b_buf := OPENSSL_memcpy (b_buf b) (c_offset c) e\<rparr>) =
        take (c_offset c) (written b) @ e @ drop (contents_start c) (written b)"
    if "length e = c_pending_len_len c" for e
  proof -
    have "c_offset c + length e \<le> b_len b" using start that by simp
    then show "written (b\<lparr>b_buf := OPENSSL_memcpy (b_buf b) (c_offset c) e\<rparr>) =
        take (c_offset c) (written b) @ e @ drop (contents_start c) (written b)"
      using len that by (simp add: written_def take_memcpy) (simp add: OPENSSL_memcpy_def)
    show "buffer_ext mem b (b\<lparr>b_buf := OPENSSL_memcpy (b_buf b) (c_offset c) e\<rparr>)"
      using ok start len that by (intro buffer_ext_buf) simp_all
  qed
  consider (bytes) "\<not> c_pending_is_asn1 c" | (short) "c_pending_is_asn1 c" "n < 128"
    | (large) "c_pending_is_asn1 c" "0xfffffffe < n"
    | (long) "c_pending_is_asn1 c" "128 \<le> n" "n \<le> 0xfffffffe" by linarith
  then show ?thesis
  proof cases
    case bytes
    with assms(1) have "n < 256 ^ c_pending_len_len c" and b': "b' = b\<lparr>b_buf :=
        OPENSSL_memcpy (b_buf b) (c_offset c) (be_bytes (c_pending_len_len c) n)\<rparr>"
      unfolding write_prefix_bytes [OF ok start bytes] n_def by (auto simp: Let_def split: if_splits)
    with splice [of "be_bytes (c_pending_len_len c) n"] bytes show ?thesis
      by (simp add: kind_of_def n_def)
  next
    case short
    then have "c_pending_len_len c = 1" using child by (simp add: child_ok_def)
    moreover from assms(1) have "b' = b\<lparr>b_buf := OPENSSL_memcpy (b_buf b) (c_offset c) [of_nat n]\<rparr>"
      using write_prefix_short [OF ok start calculation short(1)] short(2) by (simp add: n_def)
    ultimately show ?thesis using splice [of "[of_nat n]"] short
      by (simp add: kind_of_def der_length_def n_def)
  next
    case large
    with assms(1) show ?thesis by (simp add: cbb_write_prefix_def n_def Let_def)
  next
    case long
    define k where "k = octets_needed n"
    have k: "0 < k" "k \<le> 4" using octets_needed_pos octets_needed_le by (simp_all add: k_def)
    have p1: "c_pending_len_len c = 1" using child long by (simp add: child_ok_def)
    obtain p b1 where add: "cbb_buffer_add mem b k = (Some p, b1)" and b': "b' = b1\<lparr>b_buf := OPENSSL_memcpy
          ((OPENSSL_memmove (b_buf b1) (c_offset c + 1 + k) (c_offset c + 1) n)
             [c_offset c := of_nat (128 + k)]) (c_offset c + 1) (be_bytes k n)\<rparr>"
      using assms(1) write_prefix_long [OF ok start p1 long(1) n_def long(2,3) k_def]
      by (auto split: prod.splits option.splits)
    from buffer_add_sound [OF add ok] k have ext: "buffer_ext mem b b1" and l1: "b_len b1 = b_len b + k"
      and w: "take (b_len b) (b_buf b1) = written b" by simp_all
    have ok1: "buffer_ok b1" using ext by (simp add: buffer_ext_def)
    have off: "c_offset c + 1 + n = b_len b" using start p1 by (simp add: n_def)
    then have lb: "c_offset c + 1 + n + k \<le> length (b_buf b1)" using ok1 l1 by (simp add: buffer_ok_def)
    have "written b' = take (c_offset c) (b_buf b1) @ of_nat (128 + k) # be_bytes k n @
        take n (drop (c_offset c + 1) (b_buf b1))"
    proof -
      have "b_len b1 = c_offset c + 1 + n + k" using off l1 by simp
      then show ?thesis
        using memmove_then_prefix [OF lb, of "be_bytes k n"] by (simp add: b' written_def)
    qed
    moreover have "take (c_offset c) (b_buf b1) = take (c_offset c) (written b)"
      using off by (simp flip: w)
    moreover have "take n (drop (c_offset c + 1) (b_buf b1)) = drop (contents_start c) (written b)"
    proof -
      have "b_len b - contents_start c = n" using off p1 by simp
      then show ?thesis using p1 by (simp add: drop_take flip: w)
    qed
    moreover have "buffer_ext mem b b'"
      unfolding b' using ok1 lb
      by (intro buffer_ext_trans [OF ext] buffer_ext_buf) (simp_all add: OPENSSL_memmove_def)
    ultimately show ?thesis using long by (simp add: kind_of_def der_length_def k_def flip: n_def)
  qed
qed

lemma write_prefix_succeeds:
  assumes ok: "buffer_ok b" and child: "child_ok c (b_len b)"
    and e: "encode_prefix (kind_of c) (b_len b - contents_start c) = Some e"
    and fits: "fits mem b (b_len b - c_pending_len_len c + length e)"
  shows "\<exists>b' c'. cbb_write_prefix mem b c (contents_start c) = (True, b', c')"
proof -
  have start: "contents_start c \<le> b_len b" using child by (simp add: child_ok_def)
  define n where "n = b_len b - contents_start c"
  show ?thesis
  proof (cases "c_pending_is_asn1 c")
    case False
    with e have "n < 256 ^ c_pending_len_len c" by (simp add: kind_of_def n_def split: if_splits)
    then show ?thesis using write_prefix_bytes [OF ok start False] by (simp add: n_def)
  next
    case True
    have p1: "c_pending_len_len c = 1" using child True by (simp add: child_ok_def)
    have n: "n \<le> 0xfffffffe" "e = der_length n" using e True
      by (simp_all add: kind_of_def n_def split: if_splits)
    show ?thesis
    proof (cases "n < 128")
      case short: True
      then show ?thesis using write_prefix_short [OF ok start p1 True] by (simp add: n_def)
    next
      case False
      then have long: "128 \<le> n" by simp
      have "b_len b - 1 + length e = b_len b + octets_needed n"
        using False n start p1 by (simp add: length_der_length)
      then obtain b1 where "cbb_buffer_add mem b (octets_needed n) = (Some (b_len b), b1)"
        using buffer_add_succeeds [OF ok, of mem "octets_needed n"] fits p1 by auto
      then show ?thesis
        using write_prefix_long [OF ok start p1 True n_def long n(1) refl] by simp
    qed
  qed
qed

lemma reserve_fail:
  "cbb_buffer_reserve mem b n = (None, b') \<Longrightarrow> b' = b\<lparr>b_error := True\<rparr>"
  by (auto simp: cbb_buffer_reserve_def Let_def split: if_splits option.splits)

lemma buffer_add_fail: "cbb_buffer_add mem b n = (None, b') \<Longrightarrow> b' = b\<lparr>b_error := True\<rparr>"
  by (auto simp: cbb_buffer_add_def dest: reserve_fail split: prod.splits option.splits)

lemma buffer_ok_error [simp]: "buffer_ok (b\<lparr>b_error := e\<rparr>) = buffer_ok b"
  by (simp add: buffer_ok_def)

lemma write_prefix_fail:
  assumes "cbb_write_prefix mem b c (contents_start c) = (False, b', c')"
    and ok: "buffer_ok b" and child: "child_ok c (b_len b)"
  shows "buffer_ok b' \<and> b_error b'"
proof -
  have start: "contents_start c \<le> b_len b" "contents_start c \<le> length (b_buf b)"
    using ok child by (simp_all add: child_ok_def buffer_ok_def)
  define n where "n = b_len b - contents_start c"
  consider (bytes) "\<not> c_pending_is_asn1 c" | (short) "c_pending_is_asn1 c" "n < 128"
    | (large) "c_pending_is_asn1 c" "0xfffffffe < n"
    | (long) "c_pending_is_asn1 c" "128 \<le> n" "n \<le> 0xfffffffe" by linarith
  then show ?thesis
  proof cases
    case bytes
    with assms(1) start ok show ?thesis
      unfolding write_prefix_bytes [OF ok start(1) bytes]
      by (auto simp: Let_def buffer_ok_def split: if_splits)
  next
    case short
    then have "c_pending_len_len c = 1" using child by (simp add: child_ok_def)
    with assms(1) write_prefix_short [OF ok start(1) this short(1)] short(2) show ?thesis
      by (simp add: n_def)
  next
    case large
    with assms(1) ok show ?thesis by (auto simp: cbb_write_prefix_def n_def Let_def)
  next
    case long
    then have "c_pending_len_len c = 1" using child by (simp add: child_ok_def)
    with assms(1) write_prefix_long [OF ok start(1) this long(1) n_def long(2,3) refl] ok show ?thesis
      by (auto dest: buffer_add_fail split: prod.splits option.splits)
  qed
qed

section \<open>Flushing\<close>

lemma chain_ok_le: "chain_ok lo n cs \<Longrightarrow> lo \<le> first_offset n cs \<and> first_offset n cs \<le> n"
proof (induction cs arbitrary: lo)
  case Nil
  then show ?case by (simp add: first_offset_def)
next
  case (Cons c cs)
  then have "contents_start c \<le> n" by (auto dest!: Cons.IH)
  with Cons.prems show ?case by (simp add: first_offset_def)
qed

theorem flush_children_sound:
  assumes "cbb_flush_children mem b cs = (True, b', cs')" and "buffer_ok b"
    and "chain_ok lo (b_len b) cs"
  shows "cs' = [] \<and> buffer_ext mem b b' \<and> \<not> b_error b' \<and>
    (\<exists>r. render (frames_of (written b) cs) = Some r \<and>
       written b' = take (first_offset (b_len b) cs) (written b) @ r)"
  using assms
proof (induction cs arbitrary: b' cs' lo)
  case Nil
  then show ?case by (auto simp: first_offset_def written_def buffer_ext_refl)
next
  case (Cons c cs)
  note ok = Cons.prems(2)
  from Cons.prems(3) have child: "1 \<le> c_pending_len_len c" "c_pending_len_len c \<le> 3"
    "c_pending_is_asn1 c \<longrightarrow> c_pending_len_len c = 1" and rest: "chain_ok (contents_start c) (b_len b) cs"
    by simp_all
  from chain_ok_le [OF rest] have start: "contents_start c \<le> first_offset (b_len b) cs"
    "first_offset (b_len b) cs \<le> b_len b" by simp_all
  then have wrap: "contents_start c mod SIZE_MOD = contents_start c" using ok by (simp add: buffer_ok_def)
  obtain b1 cs1 where IH0: "cbb_flush_children mem b cs = (True, b1, cs1)"
    and w0: "\<exists>c'. cbb_write_prefix mem b1 c (contents_start c) = (True, b', c')" and cs': "cs' = []"
    and ge: "contents_start c \<le> b_len b1"
    using Cons.prems(1) child(1) wrap
    by (auto simp: Let_def split: prod.splits bool.splits if_splits)
  from Cons.IH [OF IH0 ok rest] obtain r where ext: "buffer_ext mem b b1" "\<not> b_error b1"
    and r: "render (frames_of (written b) cs) = Some r"
    and w1: "written b1 = take (first_offset (b_len b) cs) (written b) @ r" by blast
  have ok1: "buffer_ok b1" using ext by (simp add: buffer_ext_def)
  obtain c' where w: "cbb_write_prefix mem b1 c (contents_start c) = (True, b', c')" using w0 by blast
  have "child_ok c (b_len b1)" using child ge by (simp add: child_ok_def)
  from write_prefix_sound [OF w ok1 this] obtain e where ext': "buffer_ext mem b1 b'"
    and e: "encode_prefix (kind_of c) (b_len b1 - contents_start c) = Some e"
    and w': "written b' = take (c_offset c) (written b1) @ e @ drop (contents_start c) (written b1)"
    by blast
  have lw: "length (written b) = b_len b" "length (written b1) = b_len b1"
    using ok ok1 by (simp_all add: length_written)
  let ?bytes = "drop (contents_start c) (take (first_offset (b_len b) cs) (written b))"
  have tail: "drop (contents_start c) (written b1) = ?bytes @ r"
    using start lw(1) by (simp add: w1 min_absorb2)
  then have "b_len b1 - contents_start c = length ?bytes + length r"
    using lw(2) by (metis length_append length_drop)
  then have "render (frames_of (written b) (c # cs)) = Some (e @ ?bytes @ r)"
    using r e lw(1) by simp
  moreover have "take (c_offset c) (written b1) = take (c_offset c) (written b)"
    using start lw(1) by (simp add: w1 min_absorb1)
  moreover have "\<not> b_error b'" using ext ext' by (simp add: buffer_ext_def)
  ultimately show ?case
    using w' tail cs' buffer_ext_trans [OF ext(1) ext'] by (simp add: first_offset_def)
qed

lemma length_encode_prefix:
  "encode_prefix kind n = Some e \<Longrightarrow> (case kind of Prefix_ASN1 \<Rightarrow> 1 | Prefix_Bytes k \<Rightarrow> k) \<le> length e"
  by (cases kind) (auto simp: length_der_length split: if_splits)

theorem flush_children_succeeds:
  assumes "render (frames_of (written b) cs) = Some r" and "buffer_ok b" and "\<not> b_error b"
    and "chain_ok lo (b_len b) cs" and "fits mem b (first_offset (b_len b) cs + length r)"
  shows "\<exists>b'. cbb_flush_children mem b cs = (True, b', [])"
  using assms
proof (induction cs arbitrary: r lo)
  case Nil
  then show ?case by simp
next
  case (Cons c cs)
  note ok = Cons.prems(2)
  from Cons.prems(4) have child: "1 \<le> c_pending_len_len c" "c_pending_len_len c \<le> 3"
    "c_pending_is_asn1 c \<longrightarrow> c_pending_len_len c = 1" and rest: "chain_ok (contents_start c) (b_len b) cs"
    by simp_all
  from chain_ok_le [OF rest] have start: "contents_start c \<le> first_offset (b_len b) cs"
    "first_offset (b_len b) cs \<le> b_len b" by simp_all
  then have wrap: "contents_start c mod SIZE_MOD = contents_start c" using ok by (simp add: buffer_ok_def)
  have lw: "length (written b) = b_len b" using ok by (simp add: length_written)
  let ?bytes = "drop (contents_start c) (take (first_offset (b_len b) cs) (written b))"
  from Cons.prems(1) lw obtain r1 e where r1: "render (frames_of (written b) cs) = Some r1"
    and e: "encode_prefix (kind_of c) (length ?bytes + length r1) = Some e" and r: "r = e @ ?bytes @ r1"
    by (auto split: option.splits)
  have lb: "length ?bytes = first_offset (b_len b) cs - contents_start c"
    using start lw by (simp add: min_absorb2)
  have le: "c_pending_len_len c \<le> length e"
    using length_encode_prefix [OF e] child(3) by (auto simp: kind_of_def split: if_splits)
  have total: "first_offset (b_len b) (c # cs) + length r =
      first_offset (b_len b) cs + length r1 - c_pending_len_len c + length e"
  proof -
    have "first_offset (b_len b) (c # cs) = c_offset c" by (simp add: first_offset_def)
    moreover have "length r = length e + (first_offset (b_len b) cs - contents_start c) + length r1"
      by (simp only: r length_append lb)
    ultimately show ?thesis using start(1) by linarith
  qed
  then have mono: "first_offset (b_len b) cs + length r1 \<le> first_offset (b_len b) (c # cs) + length r"
    using le start(1) by linarith
  then have "fits mem b (first_offset (b_len b) cs + length r1)"
    using Cons.prems(5) by (auto simp: fits_def)
  from Cons.IH [OF r1 ok Cons.prems(3) rest this] obtain b1
    where f1: "cbb_flush_children mem b cs = (True, b1, [])" by blast
  from flush_children_sound [OF f1 ok rest] r1 have ext: "buffer_ext mem b b1"
    and w1: "written b1 = take (first_offset (b_len b) cs) (written b) @ r1" by auto
  have ok1: "buffer_ok b1" using ext by (simp add: buffer_ext_def)
  have len1: "b_len b1 = first_offset (b_len b) cs + length r1"
    using start lw by (simp add: w1 min_absorb2 flip: length_written [OF ok1])
  have "b_len b1 - contents_start c = length ?bytes + length r1" unfolding lb len1 using start(1) by simp
  moreover have "fits mem b1 (b_len b1 - c_pending_len_len c + length e)"
    using Cons.prems(5) ext total by (simp add: buffer_ext_def len1)
  moreover have "child_ok c (b_len b1)" using child start(1) by (simp add: child_ok_def len1)
  ultimately obtain b' c' where "cbb_write_prefix mem b1 c (contents_start c) = (True, b', c')"
    using write_prefix_succeeds [OF ok1, of c e mem] e by auto
  moreover have "contents_start c \<le> b_len b1" using start(1) by (simp add: len1)
  ultimately show ?case using f1 Cons.prems(3) child(1) wrap by (simp add: Let_def)
qed

section \<open>The builder as a state\<close>

text \<open>The invariant of the whole builder. Once the error flag is set the chain is no longer trusted,
  as the comment in \<open>CBB_flush\<close> says, but the buffer stays within its block.\<close>

definition top_ok :: "cbb list \<Rightarrow> bool" where
  "top_ok chain \<longleftrightarrow> chain \<noteq> [] \<and> c_offset (hd chain) = 0 \<and> c_pending_len_len (hd chain) = 0 \<and>
     \<not> c_is_child (hd chain)"

definition cbb_ok :: "CBB \<Rightarrow> bool" where
  "cbb_ok cbb \<longleftrightarrow> top_ok (cbb_chain cbb) \<and> (\<forall>b. cbb_base cbb = Some b \<longrightarrow> buffer_ok b \<and>
     (\<not> b_error b \<longrightarrow> chain_ok 0 (b_len b) (tl (cbb_chain cbb))))"

text \<open>What the buffer holds once the object at depth \<open>d\<close> has been flushed.\<close>

definition contents :: "nat \<Rightarrow> CBB \<Rightarrow> byte list option" where
  "contents d cbb = (case cbb_base cbb of
      None \<Rightarrow> None
    | Some b \<Rightarrow>
        if b_error b \<or> d \<ge> length (cbb_chain cbb) then None
        else (case render (frames_of (written b) (drop (Suc d) (cbb_chain cbb))) of
            None \<Rightarrow> None
          | Some r \<Rightarrow> Some (take (first_offset (b_len b) (drop (Suc d) (cbb_chain cbb))) (written b) @ r)))"

definition dead :: "CBB \<Rightarrow> bool" where
  "dead cbb = (case cbb_base cbb of None \<Rightarrow> True | Some b \<Rightarrow> b_error b)"

lemma dead_contents: "dead cbb \<Longrightarrow> contents d cbb = None"
  by (auto simp: dead_def contents_def split: option.splits)

definition room :: "allocator \<Rightarrow> CBB \<Rightarrow> nat \<Rightarrow> bool" where
  "room mem cbb n \<longleftrightarrow> (\<exists>b. cbb_base cbb = Some b \<and> fits mem b n)"

definition shape :: "nat \<Rightarrow> CBB \<Rightarrow> cbb list" where
  "shape d cbb = take (Suc d) (cbb_chain cbb)"

lemma chain_ok_drop: "chain_ok lo n cs \<Longrightarrow> \<exists>lo'. chain_ok lo' n (drop k cs)"
proof (induction cs arbitrary: lo k)
  case Nil
  then show ?case by auto
next
  case (Cons c cs)
  show ?case
  proof (cases k)
    case 0
    with Cons.prems show ?thesis by (intro exI [of _ lo]) simp
  next
    case (Suc k')
    moreover from Cons.prems have "chain_ok (contents_start c) n cs" by simp
    then have "\<exists>lo'. chain_ok lo' n (drop k' cs)" by (rule Cons.IH)
    ultimately show ?thesis by simp
  qed
qed

lemma chain_ok_take: "chain_ok lo n cs \<Longrightarrow> first_offset n (drop k cs) \<le> m \<Longrightarrow> chain_ok lo m (take k cs)"
proof (induction cs arbitrary: lo k)
  case Nil
  then show ?case by (auto simp: first_offset_def)
next
  case (Cons c cs)
  show ?case
  proof (cases k)
    case 0
    with Cons.prems show ?thesis by (simp add: first_offset_def)
  next
    case (Suc k')
    with Cons.prems have "chain_ok (contents_start c) m (take k' cs)" by (intro Cons.IH) simp_all
    with Suc Cons.prems show ?thesis by simp
  qed
qed

lemma tl_take_Suc: "tl (take (Suc d) xs) = take d (tl xs)"
  by (cases xs) simp_all

lemma drop_Suc_tl: "drop (Suc d) xs = drop d (tl xs)"
  by (cases xs) simp_all

lemma top_ok_take: "top_ok chain \<Longrightarrow> top_ok (take (Suc d) chain @ cs)"
  by (cases chain) (auto simp: top_ok_def)

lemma flush_children_fail:
  assumes "cbb_flush_children mem b cs = (False, b', cs')" and "buffer_ok b" and "b_error b \<or> chain_ok lo (b_len b) cs"
  shows "buffer_ok b' \<and> b_error b'"
  using assms
proof (induction cs arbitrary: b' cs' lo)
  case Nil
  then show ?case by auto
next
  case (Cons c cs)
  show ?case
  proof (cases "b_error b")
    case True
    with Cons.prems show ?thesis by auto
  next
    case False
    note ok = Cons.prems(2)
    from False Cons.prems(3) have child: "1 \<le> c_pending_len_len c" "c_pending_len_len c \<le> 3"
      "c_pending_is_asn1 c \<longrightarrow> c_pending_len_len c = 1" and rest: "chain_ok (contents_start c) (b_len b) cs"
      by simp_all
    from chain_ok_le [OF rest] have start: "contents_start c \<le> first_offset (b_len b) cs"
      "first_offset (b_len b) cs \<le> b_len b" by simp_all
    then have wrap: "contents_start c mod SIZE_MOD = contents_start c" using ok by (simp add: buffer_ok_def)
    obtain q b1 cs1 where f: "cbb_flush_children mem b cs = (q, b1, cs1)" by (metis prod_cases3)
    show ?thesis
    proof (cases q)
      case False
      with f have f': "cbb_flush_children mem b cs = (False, b1, cs1)" by simp
      from Cons.IH [OF f' ok disjI2 [OF rest]] have "buffer_ok b1" by simp
      then show ?thesis using Cons.prems(1) child(1) wrap f False \<open>\<not> b_error b\<close>
        by (auto simp: Let_def buffer_ok_def)
    next
      case True
      with f have f': "cbb_flush_children mem b cs = (True, b1, cs1)" by simp
      from flush_children_sound [OF f' ok rest] have ok1: "buffer_ok b1" by (auto simp: buffer_ext_def)
      show ?thesis
      proof (cases "b_len b1 < contents_start c")
        case True
        then show ?thesis using Cons.prems(1) child(1) wrap f' \<open>\<not> b_error b\<close> ok1
          by (auto simp: Let_def buffer_ok_def)
      next
        case False
        then have co: "child_ok c (b_len b1)" using child by (simp add: child_ok_def)
        have "\<exists>c'. cbb_write_prefix mem b1 c (contents_start c) = (False, b', c')"
          using Cons.prems(1) child(1) wrap f' \<open>\<not> b_error b\<close> False
          by (auto simp: Let_def split: prod.splits bool.splits)
        then show ?thesis using write_prefix_fail ok1 co by blast
      qed
    qed
  qed
qed

text \<open>Flushing in terms of the state: it closes the descendants, or fails and poisons the builder.\<close>

lemma cbb_ok_descendants:
  assumes "cbb_ok cbb" and "cbb_base cbb = Some b" and "\<not> b_error b"
  shows "\<exists>lo. chain_ok lo (b_len b) (drop (Suc d) (cbb_chain cbb))"
  using assms chain_ok_drop [of 0 "b_len b" "tl (cbb_chain cbb)" d] by (simp add: cbb_ok_def drop_Suc_tl)

lemma CBB_flush_True:
  assumes "CBB_flush mem cbb d = (True, cbb')" and ok: "cbb_ok cbb"
  shows "cbb_ok cbb' \<and> contents d cbb \<noteq> None \<and> contents d cbb' = contents d cbb \<and>
    cbb_chain cbb' = shape d cbb \<and> d < length (cbb_chain cbb) \<and>
    (\<forall>n. room mem cbb n \<longrightarrow> room mem cbb' n) \<and>
    (\<exists>b'. cbb_base cbb' = Some b' \<and> \<not> b_error b' \<and> contents d cbb' = Some (written b'))"
proof -
  obtain b where b: "cbb_base cbb = Some b" and d: "d < length (cbb_chain cbb)"
    using assms(1) by (auto simp: CBB_flush_def split: option.splits if_splits)
  let ?cs = "drop (Suc d) (cbb_chain cbb)"
  obtain b' cs' where f: "cbb_flush_children mem b ?cs = (True, b', cs')"
    and cbb': "cbb' = cbb\<lparr>cbb_base := Some b', cbb_chain := take (Suc d) (cbb_chain cbb) @ cs'\<rparr>"
    using assms(1) b d by (auto simp: CBB_flush_def split: prod.splits)
  have bok: "buffer_ok b" using ok b by (simp add: cbb_ok_def)
  have err: "\<not> b_error b" using f by (cases ?cs) auto
  obtain lo where lo: "chain_ok lo (b_len b) ?cs" using cbb_ok_descendants [OF ok b err] by blast
  from flush_children_sound [OF f bok lo] obtain r where cs': "cs' = []" and ext: "buffer_ext mem b b'"
    and err': "\<not> b_error b'" and r: "render (frames_of (written b) ?cs) = Some r"
    and w: "written b' = take (first_offset (b_len b) ?cs) (written b) @ r" by blast
  have bok': "buffer_ok b'" using ext by (simp add: buffer_ext_def)
  have len: "first_offset (b_len b) ?cs \<le> b_len b'"
    using chain_ok_le [OF lo] length_written [OF bok] by (simp add: w min_absorb2 flip: length_written [OF bok'])
  have "chain_ok 0 (b_len b') (take d (tl (cbb_chain cbb)))"
    using ok b err len by (intro chain_ok_take) (auto simp: cbb_ok_def drop_Suc_tl)
  then have "cbb_ok cbb'"
    using ok bok' top_ok_take [of "cbb_chain cbb" d "[]"]
    by (simp add: cbb_ok_def cbb' cs' tl_take_Suc)
  moreover have "contents d cbb = Some (written b')"
    using b err d r w by (simp add: contents_def)
  moreover have "contents d cbb' = Some (written b')"
    using err' d by (simp add: contents_def cbb' cs' first_offset_def min_absorb2 written_def)
  moreover have "room mem cbb n \<Longrightarrow> room mem cbb' n" for n
    using ext b by (auto simp: room_def cbb' buffer_ext_def)
  ultimately show ?thesis using d err' by (simp add: cbb' cs' shape_def)
qed

lemma CBB_flush_False:
  assumes "CBB_flush mem cbb d = (False, cbb')" and ok: "cbb_ok cbb"
  shows "cbb_ok cbb' \<and> (dead cbb' \<or> d \<ge> length (cbb_chain cbb) \<and> cbb' = cbb)"
proof (cases "cbb_base cbb = None \<or> d \<ge> length (cbb_chain cbb)")
  case True
  then have "cbb' = cbb" using assms(1) by (auto simp: CBB_flush_def split: option.splits)
  with ok True show ?thesis by (auto simp: dead_def)
next
  case False
  then obtain b where b: "cbb_base cbb = Some b" and d: "d < length (cbb_chain cbb)" by auto
  let ?cs = "drop (Suc d) (cbb_chain cbb)"
  obtain b' cs' where f: "cbb_flush_children mem b ?cs = (False, b', cs')"
    and cbb': "cbb' = cbb\<lparr>cbb_base := Some b', cbb_chain := take (Suc d) (cbb_chain cbb) @ cs'\<rparr>"
    using assms(1) b d by (auto simp: CBB_flush_def split: prod.splits)
  have bok: "buffer_ok b" using ok b by (simp add: cbb_ok_def)
  obtain lo where "b_error b \<or> chain_ok lo (b_len b) ?cs"
    using cbb_ok_descendants [OF ok b] by (cases "b_error b") auto
  from flush_children_fail [OF f bok this] have "buffer_ok b'" "b_error b'" by simp_all
  with ok d show ?thesis
    using top_ok_take [of "cbb_chain cbb" d cs'] by (simp add: cbb_ok_def cbb' dead_def)
qed

lemma contents_detached: "d \<ge> length (cbb_chain cbb) \<Longrightarrow> contents d cbb = None"
  by (simp add: contents_def split: option.splits)

lemma CBB_flush_False_contents:
  assumes "CBB_flush mem cbb d = (False, cbb')" and "cbb_ok cbb"
  shows "cbb_ok cbb' \<and> contents d cbb' = None \<and> (contents d cbb \<noteq> None \<longrightarrow> dead cbb')"
  using CBB_flush_False [OF assms] by (auto simp: contents_detached intro: dead_contents)

lemma CBB_flush_succeeds:
  assumes ok: "cbb_ok cbb" and c: "contents d cbb = Some w" and room: "room mem cbb (length w)"
  shows "\<exists>cbb'. CBB_flush mem cbb d = (True, cbb')"
proof -
  let ?cs = "drop (Suc d) (cbb_chain cbb)"
  obtain b r where b: "cbb_base cbb = Some b" and err: "\<not> b_error b" and d: "d < length (cbb_chain cbb)"
    and r: "render (frames_of (written b) ?cs) = Some r"
    and w: "w = take (first_offset (b_len b) ?cs) (written b) @ r"
    using c by (auto simp: contents_def split: option.splits if_splits)
  have bok: "buffer_ok b" using ok b by (simp add: cbb_ok_def)
  obtain lo where lo: "chain_ok lo (b_len b) ?cs" using cbb_ok_descendants [OF ok b err] by blast
  have "length w = first_offset (b_len b) ?cs + length r"
    using chain_ok_le [OF lo] length_written [OF bok] by (simp add: w min_absorb2)
  then have "fits mem b (first_offset (b_len b) ?cs + length r)" using room b by (simp add: room_def)
  from flush_children_succeeds [OF r bok err lo this] obtain b' where
    "cbb_flush_children mem b ?cs = (True, b', [])" by blast
  with b d show ?thesis by (simp add: CBB_flush_def)
qed

end
