(* ===== verification/CBB_Writers.thy ===== *)
theory CBB_Writers
  imports CBB_Spec
begin

text \<open>
  The writers of the builder as instances of \<open>byte_sink\<close>. A writer that flushes and then runs an
  operation on the buffer is a \<open>buffer_writer\<close>; the ASN.1 writers open a child, write its contents
  and flush.
\<close>

section \<open>Writers on a flushed buffer\<close>

locale buffer_writer =
  fixes mem :: allocator
    and f :: "'a \<Rightarrow> cbb_buffer \<Rightarrow> bool \<times> cbb_buffer"
    and enc :: "'a \<Rightarrow> byte list"
    and arg :: "'a \<Rightarrow> bool"
    and valid :: "'a \<Rightarrow> bool"
  assumes f_True: "buffer_ok b \<Longrightarrow> arg x \<Longrightarrow> f x b = (True, b') \<Longrightarrow>
      valid x \<and> buffer_ext mem b b' \<and> written b' = written b @ enc x"
    and f_False: "buffer_ok b \<Longrightarrow> arg x \<Longrightarrow> f x b = (False, b') \<Longrightarrow> buffer_ok b' \<and> b_error b'"
    and f_room: "buffer_ok b \<Longrightarrow> arg x \<Longrightarrow> valid x \<Longrightarrow> fits mem b (b_len b + length (enc x)) \<Longrightarrow> fst (f x b)"

lemma fits_mono: "fits mem b n \<Longrightarrow> m \<le> n \<Longrightarrow> fits mem b m"
  by (auto simp: fits_def)

lemma room_mono: "room mem s n \<Longrightarrow> m \<le> n \<Longrightarrow> room mem s m"
  by (auto simp: room_def intro: fits_mono)

lemma chain_ok_mono: "chain_ok lo n cs \<Longrightarrow> n \<le> m \<Longrightarrow> chain_ok lo m cs"
  by (induction cs arbitrary: lo) auto

lemma contents_leaf:
  "cbb_base s = Some b \<Longrightarrow> \<not> b_error b \<Longrightarrow> length (cbb_chain s) = Suc d \<Longrightarrow> contents d s = Some (written b)"
  by (simp add: contents_def first_offset_def written_def)

lemma cbb_ok_grow:
  assumes "cbb_ok s" and "cbb_base s = Some b" and "\<not> b_error b" and "buffer_ok b'" and "b_len b \<le> b_len b'"
  shows "cbb_ok (s\<lparr>cbb_base := Some b'\<rparr>)"
  using assms by (auto simp: cbb_ok_def intro: chain_ok_mono)

lemma buffer_len_written: "buffer_ok b \<Longrightarrow> buffer_ok b' \<Longrightarrow> written b' = written b @ e \<Longrightarrow> b_len b' = b_len b + length e"
  by (metis length_append length_written)

context buffer_writer
begin

lemma writer_True:
  assumes ok: "cbb_ok s" and "cbb_with_base mem s d (f x) = (True, s')" and arg: "arg x"
  shows "valid x \<and> cbb_ok s' \<and> cbb_chain s' = shape d s \<and> (\<forall>n. room mem s n \<longrightarrow> room mem s' n) \<and>
    (\<exists>w. contents d s = Some w \<and> contents d s' = Some (w @ enc x))"
proof -
  obtain s1 where fl: "CBB_flush mem s d = (True, s1)"
    using assms(2) by (auto simp: cbb_with_base_def split: prod.splits bool.splits)
  from CBB_flush_True [OF fl ok] obtain b where ok1: "cbb_ok s1" and c: "contents d s = Some (written b)"
    and chain: "cbb_chain s1 = shape d s" and d: "d < length (cbb_chain s)"
    and room: "\<And>n. room mem s n \<Longrightarrow> room mem s1 n" and b: "cbb_base s1 = Some b" and err: "\<not> b_error b"
    by auto
  have bok: "buffer_ok b" using ok1 b by (simp add: cbb_ok_def)
  obtain b' where fb: "f x b = (True, b')" and s': "s' = s1\<lparr>cbb_base := Some b'\<rparr>"
    using assms(2) fl b by (auto simp: cbb_with_base_def split: prod.splits)
  from f_True [OF bok arg fb] have v: "valid x" and ext: "buffer_ext mem b b'" and w: "written b' = written b @ enc x"
    by simp_all
  have bok': "buffer_ok b'" and err': "\<not> b_error b'" using ext err by (simp_all add: buffer_ext_def)
  have "cbb_ok s'" unfolding s'
    using buffer_len_written [OF bok bok' w] by (intro cbb_ok_grow [OF ok1 b err bok']) linarith
  moreover have "contents d s' = Some (written b')"
    using chain d err' by (intro contents_leaf) (simp_all add: s' shape_def)
  moreover have "room mem s n \<Longrightarrow> room mem s' n" for n
    using room [of n] b ext by (auto simp: room_def s' buffer_ext_def)
  ultimately show ?thesis using v c chain w by (simp add: s')
qed

lemma writer_False:
  assumes ok: "cbb_ok s" and "cbb_with_base mem s d (f x) = (False, s')" and arg: "arg x"
  shows "cbb_ok s' \<and> contents d s' = None \<and> (contents d s \<noteq> None \<longrightarrow> dead s')"
proof (cases "CBB_flush mem s d")
  case (Pair q s1)
  show ?thesis
  proof (cases q)
    case False
    with assms(2) Pair have "CBB_flush mem s d = (False, s')" by (simp add: cbb_with_base_def)
    then show ?thesis using ok by (rule CBB_flush_False_contents)
  next
    case True
    then have fl: "CBB_flush mem s d = (True, s1)" using Pair by simp
    from CBB_flush_True [OF fl ok] obtain b where ok1: "cbb_ok s1" and b: "cbb_base s1 = Some b" by auto
    then have bok: "buffer_ok b" by (simp add: cbb_ok_def)
    obtain b' where fb: "f x b = (False, b')" and s': "s' = s1\<lparr>cbb_base := Some b'\<rparr>"
      using assms(2) fl b by (auto simp: cbb_with_base_def split: prod.splits)
    from f_False [OF bok arg fb] ok1 show ?thesis
      by (simp add: s' cbb_ok_def dead_def dead_contents)
  qed
qed

lemma writer_room:
  assumes ok: "cbb_ok s" and c: "contents d s = Some w" and arg: "arg x" and v: "valid x"
    and room: "room mem s (length (w @ enc x))"
  shows "fst (cbb_with_base mem s d (f x))"
proof -
  have "room mem s (length w)" using room by (rule room_mono) simp
  then obtain s1 where fl: "CBB_flush mem s d = (True, s1)" using CBB_flush_succeeds [OF ok c] by blast
  from CBB_flush_True [OF fl ok] c obtain b where ok1: "cbb_ok s1" and w: "w = written b"
    and room': "\<And>n. room mem s n \<Longrightarrow> room mem s1 n" and b: "cbb_base s1 = Some b" by auto
  have bok: "buffer_ok b" using ok1 b by (simp add: cbb_ok_def)
  have "fits mem b (b_len b + length (enc x))"
    using room' [OF room] b length_written [OF bok] by (simp add: room_def w)
  from f_room [OF bok arg v this] show ?thesis using fl b
    by (cases "f x b") (simp add: cbb_with_base_def)
qed

end

lemma shape_shape: "cbb_chain s' = shape d s \<Longrightarrow> shape d s' = shape d s"
  by (simp add: shape_def)

sublocale buffer_writer \<subseteq> sink: byte_sink cbb_ok "contents d" dead "room mem" "shape d"
  "\<lambda>s x. cbb_with_base mem s d (f x)" enc arg valid for d
proof unfold_locales
  fix s x s' assume "cbb_ok s" and "arg x" and "cbb_with_base mem s d (f x) = (True, s')"
  from writer_True [OF this(1,3,2)] show "valid x \<and> cbb_ok s' \<and> shape d s' = shape d s \<and>
      (\<forall>n. room mem s n \<longrightarrow> room mem s' n) \<and> (\<exists>w. contents d s = Some w \<and> contents d s' = Some (w @ enc x))"
    by (auto intro: shape_shape)
qed (auto intro: room_mono dead_contents writer_room dest: writer_False)

lemma buffer_add_u_False:
  assumes "cbb_buffer_add_u mem b v n = (False, b')" and ok: "buffer_ok b" and n: "n < SIZE_MOD"
  shows "buffer_ok b' \<and> b_error b'"
proof (cases "cbb_buffer_add mem b n")
  case (Pair r b1)
  show ?thesis
  proof (cases r)
    case None
    with assms Pair show ?thesis
      by (auto simp: cbb_buffer_add_u_def dest: buffer_add_fail split: if_splits)
  next
    case (Some p)
    with Pair have add: "cbb_buffer_add mem b n = (Some p, b1)" by simp
    from buffer_add_sound [OF add ok n] have "buffer_ok b1" "p + n \<le> length (b_buf b1)"
      by (auto simp: buffer_ext_def buffer_ok_def)
    with assms add show ?thesis
      by (auto simp: cbb_buffer_add_u_def Let_def store_be_memcpy buffer_ok_def split: if_splits)
  qed
qed

lemma add_u_writer:
  assumes n: "0 < n" "n < SIZE_MOD"
    and valid: "\<And>x. valid x \<longleftrightarrow> unat (g x) < 256 ^ n" and enc: "\<And>x. enc x = be_bytes n (unat (g x))"
  shows "buffer_writer mem (\<lambda>x base. cbb_buffer_add_u mem base (g x) n) enc (\<lambda>_. True) valid"
proof
  fix b x b' assume ok: "buffer_ok b" and add: "cbb_buffer_add_u mem b (g x) n = (True, b')"
  from buffer_add_u_sound [OF add ok n]
  show "valid x \<and> buffer_ext mem b b' \<and> written b' = written b @ enc x" by (simp add: valid enc)
next
  fix b x b' assume ok: "buffer_ok b" and add: "cbb_buffer_add_u mem b (g x) n = (False, b')"
  from buffer_add_u_False [OF add ok n(2)] show "buffer_ok b' \<and> b_error b'" .
next
  fix b x assume "buffer_ok b" and "valid x" and "fits mem b (b_len b + length (enc x))"
  with buffer_add_u_succeeds [of b mem n "g x"] n show "fst (cbb_buffer_add_u mem b (g x) n)"
    by (auto simp: valid enc)
qed

lemma u8_be: "be_bytes 1 (unat (ucast (v :: byte) :: u64)) = [v]" "unat (ucast (v :: byte) :: u64) < 256 ^ 1"
  using unat_byte_less [of v] by simp_all

lemma unat_ucast_u16_u64 [simp]: "unat (ucast (v :: u16) :: u64) = unat v"
  using unsigned_less [of v, where 'a = nat] by (simp add: unsigned_ucast_eq take_bit_nat_eq_self_iff)

lemma unat_ucast_u32_u64 [simp]: "unat (ucast (v :: u32) :: u64) = unat v"
  using unsigned_less [of v, where 'a = nat] by (simp add: unsigned_ucast_eq take_bit_nat_eq_self_iff)

lemma unat_u16_less: "unat (v :: u16) < 256 ^ 2"
  using unsigned_less [of v, where 'a = nat] by simp

lemma unat_u32_less: "unat (v :: u32) < 256 ^ 4"
  using unsigned_less [of v, where 'a = nat] by simp

lemma unat_u64_less: "unat (v :: u64) < 256 ^ 8"
  using unsigned_less [of v, where 'a = nat] by simp

interpretation add_u8: buffer_writer mem "\<lambda>v base. cbb_buffer_add_u mem base (ucast v) 1"
  "\<lambda>v :: byte. [v]" "\<lambda>_. True" "\<lambda>_. True" for mem
  by (rule add_u_writer; (simp only: u8_be)?; simp)

interpretation add_u16: buffer_writer mem "\<lambda>v base. cbb_buffer_add_u mem base (ucast v) 2"
  "\<lambda>v :: u16. be_bytes 2 (unat v)" "\<lambda>_. True" "\<lambda>_. True" for mem
  by (rule add_u_writer) (use unat_u16_less in simp_all)

interpretation add_u24: buffer_writer mem "\<lambda>v base. cbb_buffer_add_u mem base (ucast v) 3"
  "\<lambda>v :: u32. be_bytes 3 (unat v)" "\<lambda>_. True" "\<lambda>v. unat v < 256 ^ 3" for mem
  by (rule add_u_writer) simp_all

interpretation add_u32: buffer_writer mem "\<lambda>v base. cbb_buffer_add_u mem base (ucast v) 4"
  "\<lambda>v :: u32. be_bytes 4 (unat v)" "\<lambda>_. True" "\<lambda>_. True" for mem
  by (rule add_u_writer) (use unat_u32_less in simp_all)

interpretation add_u64: buffer_writer mem "\<lambda>v base. cbb_buffer_add_u mem base v 8"
  "\<lambda>v :: u64. be_bytes 8 (unat v)" "\<lambda>_. True" "\<lambda>_. True" for mem
  by (rule add_u_writer) (use unat_u64_less in simp_all)

text \<open>\<open>CBB_add_bytes\<close>, for data whose size is a \<open>size_t\<close>.\<close>

definition add_data :: "allocator \<Rightarrow> byte list \<Rightarrow> cbb_buffer \<Rightarrow> bool \<times> cbb_buffer" where
  "add_data mem data base = (case cbb_buffer_add mem base (length data) of
      (None, base') \<Rightarrow> (False, base')
    | (Some dest, base') \<Rightarrow> (True, base'\<lparr>b_buf := OPENSSL_memcpy (b_buf base') dest data\<rparr>))"

interpretation add_data: buffer_writer mem "add_data mem" "\<lambda>data. data"
  "\<lambda>data. length data < SIZE_MOD" "\<lambda>_. True" for mem
proof
  fix b data b' assume ok: "buffer_ok b" and len: "length data < SIZE_MOD"
    and add: "add_data mem data b = (True, b')"
  from add obtain p b1 where "cbb_buffer_add mem b (length data) = (Some p, b1)"
    "b' = b1\<lparr>b_buf := OPENSSL_memcpy (b_buf b1) p data\<rparr>"
    by (auto simp: add_data_def split: prod.splits option.splits)
  with buffer_add_data_sound [OF this(1) ok len]
  show "True \<and> buffer_ext mem b b' \<and> written b' = written b @ data" by simp
next
  fix b data b' assume "buffer_ok b" and "add_data mem data b = (False, b')"
  then show "buffer_ok b' \<and> b_error b'"
    by (auto simp: add_data_def dest: buffer_add_fail split: prod.splits option.splits)
next
  fix b and data :: "byte list" assume "buffer_ok b" and "fits mem b (b_len b + length data)"
  from buffer_add_succeeds [OF this] show "fst (add_data mem data b)" by (auto simp: add_data_def)
qed

lemmas CBB_add_defs = CBB_add_u8_def CBB_add_u16_def CBB_add_u24_def CBB_add_u32_def CBB_add_u64_def

lemma CBB_add_bytes_eq: "CBB_add_bytes mem s d data = cbb_with_base mem s d (add_data mem data)"
proof -
  have "add_data mem data = (\<lambda>base. case cbb_buffer_add mem base (length data) of
         (None, base') \<Rightarrow> (False, base')
       | (Some dest, base') \<Rightarrow> (True, base'\<lparr>b_buf := OPENSSL_memcpy (b_buf base') dest data\<rparr>))"
    by (rule ext) (simp add: add_data_def)
  then show ?thesis by (simp add: CBB_add_bytes_def)
qed

interpretation u8: byte_sink cbb_ok "contents d" dead "room mem" "shape d" "\<lambda>s. CBB_add_u8 mem s d"
  "\<lambda>v. [v]" "\<lambda>_. True" "\<lambda>_. True" for mem d
  unfolding CBB_add_u8_def by unfold_locales

interpretation bytes: byte_sink cbb_ok "contents d" dead "room mem" "shape d" "\<lambda>s. CBB_add_bytes mem s d"
  "\<lambda>data. data" "\<lambda>data. length data < SIZE_MOD" "\<lambda>_. True" for mem d
  unfolding CBB_add_bytes_eq by unfold_locales

section \<open>Base-128 numbers\<close>

definition base128_byte :: "u64 \<Rightarrow> nat \<Rightarrow> byte" where
  "base128_byte v i = (let b = ucast (drop_bit (7 * i) v AND 0x7f) in if i \<noteq> 0 then b OR 0x80 else b)"

lemma add_base128_loop_put:
  "add_base128_loop mem s d v n =
    put_list (\<lambda>s. CBB_add_u8 mem s d) s (map (base128_byte v) (rev [0..<n]))"
  by (induction n arbitrary: s) (auto simp: base128_byte_def Let_def split: prod.split bool.split)

lemma or_80: "x < 128 \<Longrightarrow> (of_nat x :: byte) OR 0x80 = of_nat (128 + x)"
proof -
  assume "x < 128"
  then have "(of_nat x :: byte) AND 0x80 = 0" by (simp add: byte_high_bit_clear)
  then show ?thesis by (simp add: or_disjoint_add)
qed

lemma base128_byte_value:
  "base128_byte v i = of_nat ((if i = 0 then 0 else 128) + unat v div 128 ^ i mod 128)"
proof -
  have m: "drop_bit (7 * i) v AND 0x7f = take_bit 7 (drop_bit (7 * i) v)"
    using take_bit_eq_mask [of 7 "drop_bit (7 * i) v"] by (simp add: mask_eq_exp_minus_1)
  have "unat (take_bit 7 (drop_bit (7 * i) v)) = unat v div 128 ^ i mod 128"
    by (subst unsigned_take_bit_eq, subst unat_drop_bit_eq)
      (simp add: drop_bit_eq_div take_bit_eq_mod power_mult)
  then have "(ucast (drop_bit (7 * i) v AND 0x7f) :: byte) = of_nat (unat v div 128 ^ i mod 128)"
    by (metis m of_nat_unat)
  then show ?thesis by (simp add: base128_byte_def or_80 Let_def)
qed

lemma rev_upt_Suc: "rev [0..<Suc n] = map Suc (rev [0..<n]) @ [0]"
  by (simp add: upt_conv_Cons rev_map del: upt_Suc flip: map_Suc_upt)

lemma base128_cont_digits:
  "base128_cont k = map (\<lambda>i. of_nat (128 + k div 128 ^ i mod 128)) (rev [0..<base128_len_len k])"
proof (induction k rule: base128_cont.induct)
  case (1 k)
  show ?case
  proof (cases "k = 0")
    case True
    then show ?thesis by (simp add: base128_len_len.simps)
  next
    case False
    then have "base128_len_len k = Suc (base128_len_len (k div 128))"
      by (subst base128_len_len.simps) simp
    moreover have "base128_cont k = base128_cont (k div 128) @ [of_nat (128 + k mod 128)]"
      using False by (subst base128_cont.simps) simp
    ultimately show ?thesis using "1.IH" [OF False]
      by (simp only: rev_upt_Suc map_append map_map comp_def) (simp add: div_mult2_eq)
  qed
qed

lemma base128_digits:
  "map (base128_byte v) (rev [0..<Suc (base128_len_len (unat v div 128))]) = base128 (unat v)"
  by (simp only: rev_upt_Suc map_append map_map comp_def base128_byte_value base128_def
      base128_cont_digits list.map) (simp add: div_mult2_eq)

lemma add_base128_integer_put:
  "add_base128_integer mem s d v = put_list (\<lambda>s. CBB_add_u8 mem s d) s (base128 (unat v))"
proof -
  have "(let n = base128_len_len (unat v) in if n = 0 then 1 else n) = Suc (base128_len_len (unat v div 128))"
  proof (cases "unat v = 0")
    case True
    then have "base128_len_len (unat v) = 0" "base128_len_len (unat v div 128) = 0"
      by (simp_all add: base128_len_len.simps)
    then show ?thesis by simp
  next
    case False
    then have "base128_len_len (unat v) = Suc (base128_len_len (unat v div 128))"
      by (subst base128_len_len.simps) simp
    then show ?thesis by simp
  qed
  then show ?thesis
    by (simp add: add_base128_integer_def Let_def add_base128_loop_put flip: base128_digits)
qed

text \<open>Writing a list of bytes one by one is a writer again.\<close>

lemma contents_None_put:
  assumes "cbb_ok s" and "contents d s = None"
  shows "\<not> fst (put_list (\<lambda>s. CBB_add_u8 mem s d) s (b # bs))"
proof
  assume "fst (put_list (\<lambda>s. CBB_add_u8 mem s d) s (b # bs))"
  then obtain s' where "CBB_add_u8 mem s d b = (True, s')"
    by (auto split: prod.splits bool.splits)
  with u8.put_True [OF assms(1) TrueI] assms(2) show False by fastforce
qed

lemma u8_list_sink:
  assumes "\<And>x. enc x \<noteq> []"
  shows "byte_sink cbb_ok (contents d) dead (room mem) (shape d)
    (\<lambda>s x. put_list (\<lambda>s. CBB_add_u8 mem s d) s (enc x)) enc (\<lambda>_. True) (\<lambda>_. True)"
proof
  fix s assume "dead s" then show "contents d s = None" by (rule dead_contents)
next
  fix s n m assume "room mem s n" "m \<le> n" then show "room mem s m" by (rule room_mono)
next
  fix s x s' assume ok: "cbb_ok s" and p: "put_list (\<lambda>s. CBB_add_u8 mem s d) s (enc x) = (True, s')"
  have "contents d s \<noteq> None"
    using contents_None_put [OF ok, of d mem] p assms [of x] by (metis fst_conv neq_Nil_conv)
  with u8.put_list_True [OF ok _ p] show "True \<and> cbb_ok s' \<and> shape d s' = shape d s \<and>
      (\<forall>n. room mem s n \<longrightarrow> room mem s' n) \<and> (\<exists>w. contents d s = Some w \<and> contents d s' = Some (w @ enc x))"
    by (simp add: list_all_iff)
next
  fix s x s' assume ok: "cbb_ok s" and p: "put_list (\<lambda>s. CBB_add_u8 mem s d) s (enc x) = (False, s')"
  from u8.put_list_False [OF ok _ p]
  show "cbb_ok s' \<and> contents d s' = None \<and> (contents d s \<noteq> None \<longrightarrow> dead s')" by (simp add: list_all_iff)
next
  fix s w x assume "cbb_ok s" and "contents d s = Some w" and "room mem s (length (w @ enc x))"
  then show "fst (put_list (\<lambda>s. CBB_add_u8 mem s d) s (enc x))"
    using u8.put_list_room [of s d w "enc x" mem] by (simp add: list_all_iff)
qed

interpretation base128: byte_sink cbb_ok "contents d" dead "room mem" "shape d"
  "\<lambda>s. add_base128_integer mem s d" "\<lambda>v. base128 (unat v)" "\<lambda>_. True" "\<lambda>_. True" for mem d
  unfolding add_base128_integer_put by (rule u8_list_sink) (simp add: base128_def)

section \<open>ASN.1 elements\<close>

text \<open>Opening an element: the tag and a placeholder length byte are written and a child attached.\<close>

lemma unat_tag_number: "unat (tag AND CBS_ASN1_TAG_NUMBER_MASK) = der_tag_number tag"
proof -
  have "tag AND CBS_ASN1_TAG_NUMBER_MASK = take_bit 29 tag"
    using take_bit_eq_mask [of 29 tag] by (simp add: CBS_ASN1_TAG_NUMBER_MASK_def mask_eq_exp_minus_1)
  then show ?thesis
    by (simp only:) (subst unsigned_take_bit_eq, simp_all add: take_bit_eq_mod der_tag_number_def)
qed

lemma tag_bits_eq: "(ucast (drop_bit 24 (tag :: u32)) AND 0xe0 :: byte) = der_tag_bits tag"
proof -
  have e0: "(0xe0 :: byte) = push_bit 5 (mask 3)" by (simp add: push_bit_eq_mult mask_eq_exp_minus_1)
  have "(ucast (drop_bit 24 tag) AND 0xe0 :: byte) = push_bit 5 (ucast (drop_bit 29 tag))"
    unfolding e0 by (rule bit_word_eqI) (auto simp: bit_simps)
  moreover have "unat (drop_bit 29 tag) = unat tag div 2 ^ 29"
    by (subst unat_drop_bit_eq) (simp add: drop_bit_eq_div)
  then have "(ucast (drop_bit 29 tag) :: byte) = of_nat (unat tag div 2 ^ 29)" by (metis of_nat_unat)
  ultimately show ?thesis by (simp add: der_tag_bits_def push_bit_eq_mult)
qed

lemma tag_byte_or:
  assumes "n < 32"
  shows "der_tag_bits tag OR of_nat n = der_tag_bits tag + of_nat n"
proof -
  have bits: "der_tag_bits tag = push_bit 5 (of_nat (unat tag div 2 ^ 29))"
    by (simp add: der_tag_bits_def push_bit_eq_mult)
  have "take_bit 5 n = n" using assms by (intro take_bit_nat_eq_self) simp
  then have n: "(of_nat n :: byte) = take_bit 5 (of_nat n)" by (metis take_bit_of_nat)
  have "push_bit 5 (of_nat (unat tag div 2 ^ 29)) AND take_bit 5 (of_nat n) = (0 :: byte)"
    by (rule bit_word_eqI) (auto simp: bit_simps)
  then show ?thesis unfolding bits by (subst (1 2) n) (rule or_disjoint_add)
qed

lemma put_list_single: "put_list put s [x] = put s x"
  by (auto split: prod.split bool.split)

lemma put_list_Cons: "put_list put s (x # xs) = (case put s x of
    (False, c) \<Rightarrow> (False, c) | (True, c) \<Rightarrow> put_list put c xs)"
  by simp

definition add_asn1_child :: "allocator \<Rightarrow> CBB \<Rightarrow> nat \<Rightarrow> bool \<times> CBB" where
  "add_asn1_child mem c d = (case cbb_base c of
      None \<Rightarrow> (False, c)
    | Some base \<Rightarrow> (case CBB_add_u8 mem c d 0 of
          (False, c') \<Rightarrow> (False, c')
        | (True, c') \<Rightarrow> (True, cbb_attach c' d (b_len base) 1 True)))"

lemma CBB_add_asn1_eq:
  "CBB_add_asn1 mem s d tag = (case CBB_flush mem s d of
      (False, s') \<Rightarrow> (False, s')
    | (True, s') \<Rightarrow> (case put_list (\<lambda>s. CBB_add_u8 mem s d) s' (der_tag tag) of
          (False, c) \<Rightarrow> (False, c)
        | (True, c) \<Rightarrow> add_asn1_child mem c d))"
proof -
  let ?n = "tag AND CBS_ASN1_TAG_NUMBER_MASK"
  have ge: "?n \<ge> 0x1f \<longleftrightarrow> \<not> der_tag_number tag < 31"
    by (simp add: word_le_nat_alt unat_tag_number not_less)
  have n8: "(ucast ?n :: byte) = of_nat (der_tag_number tag)" "(ucast ?n :: u64) = of_nat (der_tag_number tag)"
    by (metis of_nat_unat unat_tag_number)+
  have u: "unat (of_nat (der_tag_number tag) :: u64) = der_tag_number tag"
    using unat_u32_split(3) [of tag] by (intro unat_of_nat_u64) simp
  have tagw: "(if ?n \<ge> 0x1f then
                 (case CBB_add_u8 mem s' d (der_tag_bits tag OR 0x1f) of
                    (False, c) \<Rightarrow> (False, c)
                  | (True, c) \<Rightarrow> add_base128_integer mem c d (ucast ?n))
               else CBB_add_u8 mem s' d (der_tag_bits tag OR ucast ?n)) =
      put_list (\<lambda>s. CBB_add_u8 mem s d) s' (der_tag tag)" for s'
  proof (cases "der_tag_number tag < 31")
    case True
    then have "der_tag_bits tag OR of_nat (der_tag_number tag) = der_tag_bits tag + of_nat (der_tag_number tag)"
      by (intro tag_byte_or) simp
    with True show ?thesis by (simp only: ge n8 der_tag_def if_True not_True_eq_False if_False put_list_single)
  next
    case False
    have "der_tag_bits tag OR 0x1f = der_tag_bits tag + 31" using tag_byte_or [of 31 tag] by simp
    with False show ?thesis
      by (simp only: ge n8 der_tag_def if_True not_False_eq_True if_False add_base128_integer_put u put_list_Cons)
  qed
  show ?thesis
    unfolding CBB_add_asn1_def CBS_ASN1_TAG_SHIFT_def tag_bits_eq Let_def tagw add_asn1_child_def
    by (auto split: prod.split bool.split option.split)
qed

lemma chain_ok_snoc:
  "chain_ok lo (c_offset c) cs \<Longrightarrow> 1 \<le> c_pending_len_len c \<Longrightarrow> c_pending_len_len c \<le> 3 \<Longrightarrow>
    (c_pending_is_asn1 c \<longrightarrow> c_pending_len_len c = 1) \<Longrightarrow> c_is_child c \<Longrightarrow> contents_start c \<le> n \<Longrightarrow>
    chain_ok lo n (cs @ [c])"
  by (induction cs arbitrary: lo) auto

lemma attach_ok:
  assumes ok: "cbb_ok s" and b: "cbb_base s = Some b" "\<not> b_error b" and d: "length (cbb_chain s) = Suc d"
    and len: "b_len b = off + k" and k: "1 \<le> k" "k \<le> 3" "asn1 \<longrightarrow> k = 1"
    and chain: "chain_ok 0 off (tl (cbb_chain s))"
  shows "cbb_ok (cbb_attach s d off k asn1) \<and> contents (Suc d) (cbb_attach s d off k asn1) = Some (written b)"
proof
  have "chain_ok 0 (b_len b) (tl (cbb_chain s) @ [\<lparr>c_offset = off, c_pending_len_len = k,
      c_pending_is_asn1 = asn1, c_is_child = True\<rparr>])"
    using chain k len by (intro chain_ok_snoc) simp_all
  then show "cbb_ok (cbb_attach s d off k asn1)"
    using ok b d by (auto simp: cbb_ok_def cbb_attach_def top_ok_def)
  show "contents (Suc d) (cbb_attach s d off k asn1) = Some (written b)"
    using b d by (intro contents_leaf) (simp_all add: cbb_attach_def)
qed

abbreviation asn1_child_at :: "nat \<Rightarrow> cbb" where
  "asn1_child_at off \<equiv> \<lparr>c_offset = off, c_pending_len_len = 1, c_pending_is_asn1 = True, c_is_child = True\<rparr>"

lemma leaf_base:
  assumes "cbb_ok s" and "contents d s = Some w" and "length (cbb_chain s) = Suc d"
  shows "\<exists>b. cbb_base s = Some b \<and> \<not> b_error b \<and> buffer_ok b \<and> written b = w \<and> b_len b = length w \<and>
    chain_ok 0 (b_len b) (tl (cbb_chain s))"
proof -
  obtain b where b: "cbb_base s = Some b" "\<not> b_error b" using assms(2)
    by (auto simp: contents_def split: option.splits if_splits)
  then have "contents d s = Some (written b)" using assms(3) by (rule contents_leaf)
  with assms(1,2) b show ?thesis by (auto simp: cbb_ok_def length_written)
qed

lemma add_asn1_child_True:
  assumes ok: "cbb_ok s" and c: "contents d s = Some w" and chain: "length (cbb_chain s) = Suc d"
    and add: "add_asn1_child mem s d = (True, s')"
  shows "cbb_ok s' \<and> cbb_chain s' = cbb_chain s @ [asn1_child_at (length w)] \<and>
    contents (Suc d) s' = Some (w @ [0]) \<and> (\<forall>n. room mem s n \<longrightarrow> room mem s' n)"
proof -
  obtain b where b: "cbb_base s = Some b" and len: "b_len b = length w"
    and cok: "chain_ok 0 (length w) (tl (cbb_chain s))"
    using leaf_base [OF ok c chain] by auto
  obtain s1 where u: "CBB_add_u8 mem s d 0 = (True, s1)" and s': "s' = cbb_attach s1 d (length w) 1 True"
    using add b len by (auto simp: add_asn1_child_def split: prod.splits bool.splits)
  from add_u8.writer_True [OF ok u [unfolded CBB_add_u8_def] TrueI] c chain
  have s1: "cbb_ok s1" "cbb_chain s1 = cbb_chain s" "contents d s1 = Some (w @ [0])"
    "\<And>n. room mem s n \<Longrightarrow> room mem s1 n" by (auto simp: shape_def)
  then obtain b1 where b1: "cbb_base s1 = Some b1" "\<not> b_error b1" "written b1 = w @ [0]" "b_len b1 = length w + 1"
    using leaf_base [OF s1(1,3)] chain by auto
  have l1: "length (cbb_chain s1) = Suc d" using s1(2) chain by simp
  have "chain_ok 0 (length w) (tl (cbb_chain s1))" using cok s1(2) by simp
  from attach_ok [OF s1(1) b1(1,2) l1 b1(4) _ _ _ this, of True] b1(3)
  have "cbb_ok s'" "contents (Suc d) s' = Some (w @ [0])" by (simp_all add: s')
  moreover have "cbb_chain s' = cbb_chain s @ [asn1_child_at (length w)]"
    using s1(2) chain by (simp add: s' cbb_attach_def)
  moreover have "room mem s n \<Longrightarrow> room mem s' n" for n
    using s1(4) [of n] by (simp add: s' cbb_attach_def room_def)
  ultimately show ?thesis by simp
qed

lemma put_u8_chain:
  "cbb_ok s \<Longrightarrow> length (cbb_chain s) = Suc d \<Longrightarrow>
    put_list (\<lambda>s. CBB_add_u8 mem s d) s xs = (True, s') \<Longrightarrow> cbb_chain s' = cbb_chain s"
proof (induction xs arbitrary: s)
  case Nil
  then show ?case by simp
next
  case (Cons x xs)
  obtain s1 where u: "CBB_add_u8 mem s d x = (True, s1)"
    and rest: "put_list (\<lambda>s. CBB_add_u8 mem s d) s1 xs = (True, s')"
    using Cons.prems(3) by (auto split: prod.splits bool.splits)
  from add_u8.writer_True [OF Cons.prems(1) u [unfolded CBB_add_u8_def] TrueI] Cons.prems(2)
  have "cbb_ok s1" "cbb_chain s1 = cbb_chain s" by (auto simp: shape_def)
  with Cons.IH [OF _ _ rest] Cons.prems(2) show ?case by simp
qed

lemma CBB_add_asn1_True:
  assumes ok: "cbb_ok s" and add: "CBB_add_asn1 mem s d tag = (True, s')"
  shows "\<exists>w. contents d s = Some w \<and> cbb_ok s' \<and> contents (Suc d) s' = Some (w @ der_tag tag @ [0]) \<and>
    cbb_chain s' = shape d s @ [asn1_child_at (length w + length (der_tag tag))] \<and>
    length (shape d s) = Suc d \<and> (\<forall>n. room mem s n \<longrightarrow> room mem s' n)"
proof -
  obtain s1 where fl: "CBB_flush mem s d = (True, s1)"
    using add by (auto simp: CBB_add_asn1_eq split: prod.splits bool.splits)
  obtain s2 where tg: "put_list (\<lambda>s. CBB_add_u8 mem s d) s1 (der_tag tag) = (True, s2)"
    and ch: "add_asn1_child mem s2 d = (True, s')"
    using add fl by (auto simp: CBB_add_asn1_eq split: prod.splits bool.splits)
  from CBB_flush_True [OF fl ok] obtain w where s1: "cbb_ok s1" "contents d s = Some w" "contents d s1 = Some w"
    "cbb_chain s1 = shape d s" "d < length (cbb_chain s)" "\<And>n. room mem s n \<Longrightarrow> room mem s1 n" by auto
  from u8.put_list_True [OF s1(1) _ tg] s1(3) have s2: "cbb_ok s2" "contents d s2 = Some (w @ der_tag tag)"
    "\<And>n. room mem s1 n \<Longrightarrow> room mem s2 n" "shape d s2 = shape d s1" by (auto simp: list_all_iff)
  have l: "length (shape d s) = Suc d" using s1(5) by (simp add: shape_def)
  then have chain: "cbb_chain s2 = shape d s" using put_u8_chain [OF s1(1) _ tg] s1(4) by simp
  from add_asn1_child_True [OF s2(1,2) _ ch] chain l s1 s2(3) show ?thesis by auto
qed

lemma CBB_add_asn1_False:
  assumes ok: "cbb_ok s" and add: "CBB_add_asn1 mem s d tag = (False, s')"
  shows "cbb_ok s' \<and> contents d s' = None \<and> (contents d s \<noteq> None \<longrightarrow> dead s')"
proof (cases "CBB_flush mem s d")
  case (Pair q s1)
  show ?thesis
  proof (cases q)
    case False
    with add Pair have "CBB_flush mem s d = (False, s')" by (simp add: CBB_add_asn1_eq)
    then show ?thesis using ok by (rule CBB_flush_False_contents)
  next
    case True
    then have fl: "CBB_flush mem s d = (True, s1)" using Pair by simp
    from CBB_flush_True [OF fl ok] have s1: "cbb_ok s1" "contents d s1 \<noteq> None" by auto
    obtain q2 s2 where tg: "put_list (\<lambda>s. CBB_add_u8 mem s d) s1 (der_tag tag) = (q2, s2)" by fastforce
    show ?thesis
    proof (cases q2)
      case False
      with tg fl add u8.put_list_False [OF s1(1), of "der_tag tag" mem d s'] s1(2) show ?thesis
        by (auto simp: CBB_add_asn1_eq list_all_iff)
    next
      case True
      with tg have tg': "put_list (\<lambda>s. CBB_add_u8 mem s d) s1 (der_tag tag) = (True, s2)" by simp
      from u8.put_list_True [OF s1(1) _ tg' s1(2)] have s2: "cbb_ok s2" "contents d s2 \<noteq> None"
        by (auto simp: list_all_iff)
      from s2(2) obtain b where b: "cbb_base s2 = Some b" by (auto simp: contents_def split: option.splits)
      have "CBB_add_u8 mem s2 d 0 = (False, s')"
        using add fl tg' b by (auto simp: CBB_add_asn1_eq add_asn1_child_def split: prod.splits bool.splits)
      with u8.put_False [OF s2(1) TrueI] s2(2) show ?thesis by auto
    qed
  qed
qed

lemma CBB_add_asn1_succeeds:
  assumes ok: "cbb_ok s" and c: "contents d s = Some w"
    and room: "room mem s (length w + length (der_tag tag) + 1)"
  shows "\<exists>s'. CBB_add_asn1 mem s d tag = (True, s')"
proof -
  have "room mem s (length w)" using room by (rule room_mono) simp
  then obtain s1 where fl: "CBB_flush mem s d = (True, s1)" using CBB_flush_succeeds [OF ok c] by blast
  from CBB_flush_True [OF fl ok] c have s1: "cbb_ok s1" "contents d s1 = Some w"
    "\<And>n. room mem s n \<Longrightarrow> room mem s1 n" by auto
  have r1: "room mem s1 (length (w @ concat (map (\<lambda>v. [v]) (der_tag tag))))"
    using s1(3) [OF room] by (rule room_mono) simp
  have "fst (put_list (\<lambda>s. CBB_add_u8 mem s d) s1 (der_tag tag))"
    by (rule u8.put_list_room [OF s1(1,2) _ _ r1]) (simp_all add: list_all_iff)
  then obtain s2 where tg: "put_list (\<lambda>s. CBB_add_u8 mem s d) s1 (der_tag tag) = (True, s2)"
    by (metis (full_types) eq_fst_iff)
  from u8.put_list_True [OF s1(1) _ tg] s1(2) have s2: "cbb_ok s2" "contents d s2 = Some (w @ der_tag tag)"
    "\<And>n. room mem s1 n \<Longrightarrow> room mem s2 n" by (auto simp: list_all_iff)
  have "fst (CBB_add_u8 mem s2 d 0)"
    using s2(3) [OF s1(3) [OF room]] by (intro u8.put_room [OF s2(1,2)]) simp_all
  then obtain s3 where "CBB_add_u8 mem s2 d 0 = (True, s3)" by (metis (full_types) eq_fst_iff)
  moreover obtain b where "cbb_base s2 = Some b"
    using s2(2) by (auto simp: contents_def split: option.splits)
  ultimately show ?thesis using fl tg by (simp add: CBB_add_asn1_eq add_asn1_child_def)
qed

text \<open>Closing an element: the contents seen from the parent.\<close>

lemma contents_parent:
  assumes ok: "cbb_ok s" and c: "contents (Suc d) s = Some v" and child: "cbb_chain s ! Suc d = c"
  shows "contents d s = (case encode_prefix (kind_of c) (length v - contents_start c) of
      None \<Rightarrow> None | Some e \<Rightarrow> Some (take (c_offset c) v @ e @ drop (contents_start c) v))"
proof -
  obtain b where b: "cbb_base s = Some b" "\<not> b_error b" and d: "Suc d < length (cbb_chain s)"
    using c by (auto simp: contents_def split: option.splits if_splits)
  let ?cs = "drop (Suc (Suc d)) (cbb_chain s)"
  from c b d obtain r where r: "render (frames_of (written b) ?cs) = Some r"
    and v: "v = take (first_offset (b_len b) ?cs) (written b) @ r"
    by (auto simp: contents_def split: option.splits)
  have descend: "drop (Suc d) (cbb_chain s) = c # ?cs" using Cons_nth_drop_Suc [OF d] child by simp
  obtain lo where "chain_ok lo (b_len b) (c # ?cs)" using cbb_ok_descendants [OF ok b, of d] descend by auto
  then have "chain_ok (contents_start c) (b_len b) ?cs" by simp
  from chain_ok_le [OF this] have le: "contents_start c \<le> first_offset (b_len b) ?cs"
    "first_offset (b_len b) ?cs \<le> b_len b" by simp_all
  have lw: "length (written b) = b_len b" using ok b by (simp add: cbb_ok_def length_written)
  let ?bytes = "drop (contents_start c) (take (first_offset (b_len b) ?cs) (written b))"
  have tail: "drop (contents_start c) v = ?bytes @ r" using le lw by (simp add: v min_absorb2)
  then have len: "length v - contents_start c = length ?bytes + length r" by (metis length_append length_drop)
  have head: "take (c_offset c) v = take (c_offset c) (written b)" using le lw by (simp add: v min_absorb1)
  have "contents d s = (case render (frames_of (written b) (c # ?cs)) of
      None \<Rightarrow> None | Some r \<Rightarrow> Some (take (c_offset c) (written b) @ r))"
    using b d by (simp add: contents_def descend first_offset_def split: option.split
      del: frames_of.simps render.simps)
  then show ?thesis using r by (simp add: len lw head tail split: option.split)
qed

end
