(* ===== verification/ASN1_Int.thy ===== *)
theory ASN1_Int
  imports DER
begin

text \<open>
  ASN.1 primitive values: the DER contents of an INTEGER, and the proof that the readers of integers
  and booleans in \<^verbatim>\<open>cbs.c\<close> accept exactly the DER encodings of their range.
\<close>

section \<open>The contents of an INTEGER\<close>

declare of_nat_unat [simp del]

text \<open>Two's complement, big endian, in as few bytes as possible.\<close>

function der_int :: "int \<Rightarrow> byte list" where
  "der_int i = (if - 128 \<le> i \<and> i < 128 then [of_int i] else der_int (i div 256) @ [of_int i])"
  by pat_completeness auto
termination
proof (relation "measure (\<lambda>i. nat (if i < 0 then - i else i))")
  fix i :: int assume "\<not> (- 128 \<le> i \<and> i < 128)"
  then show "(i div 256, i) \<in> measure (\<lambda>i. nat (if i < 0 then - i else i))"
    by (cases "i < 0") (simp_all, linarith+)
qed simp

declare der_int.simps [simp del]

definition twos_value :: "byte list \<Rightarrow> int" where
  "twos_value bs = (if bs = [] then 0
     else int (be_value bs) - (if 128 \<le> unat (hd bs) then 256 ^ length bs else 0))"

text \<open>Not empty, and the first byte cannot be dropped.\<close>

fun minimal_int :: "byte list \<Rightarrow> bool" where
  "minimal_int [] = False"
| "minimal_int [b] = True"
| "minimal_int (a # b # bs) = (\<not> (a = 0 \<and> unat b < 128 \<or> a = 0xff \<and> 128 \<le> unat b))"

lemma twos_value_single: "twos_value [b] = int (unat b) - (if 128 \<le> unat b then 256 else 0)"
  by (simp add: twos_value_def)

lemma byte_256: "(256 :: byte) = 0"
  by simp

lemma of_int_twos_single: "of_int (twos_value [b]) = b"
  by (simp add: twos_value_single of_nat_unat)

lemma twos_value_snoc:
  "xs \<noteq> [] \<Longrightarrow> twos_value (xs @ [b]) = twos_value xs * 256 + int (unat b)"
  by (simp add: twos_value_def be_value_append)

lemma unat_eq_byte: "unat (b :: byte) = 0 \<longleftrightarrow> b = 0" "unat b = 255 \<longleftrightarrow> b = 0xff"
  by (simp_all add: word_unat_eq_iff)

lemma minimal_int_snoc:
  assumes "xs \<noteq> []" and "minimal_int (xs @ [b])"
  shows "minimal_int xs" and "length xs = 1 \<Longrightarrow> \<not> (xs = [0] \<and> unat b < 128 \<or> xs = [0xff] \<and> 128 \<le> unat b)"
  using assms by (cases xs rule: minimal_int.cases; simp)+

lemma twos_value_single_cases:
  "twos_value [a] = 0 \<longleftrightarrow> a = 0" "twos_value [a] = - 1 \<longleftrightarrow> a = 0xff"
  using unat_byte_less [of a] unat_eq_byte [of a] by (auto simp: twos_value_single)

lemma minimal_int_large:
  "minimal_int bs \<Longrightarrow> 2 \<le> length bs \<Longrightarrow> \<not> (- 128 \<le> twos_value bs \<and> twos_value bs < 128)"
proof (induction bs rule: rev_induct)
  case Nil
  then show ?case by simp
next
  case (snoc b xs)
  then have ne: "xs \<noteq> []" by auto
  note b = unat_byte_less [of b]
  have m: "minimal_int xs" using minimal_int_snoc(1) [OF ne snoc.prems(1)] .
  show ?case
  proof (cases "length xs = 1")
    case True
    then obtain a where a: "xs = [a]" by (cases xs) auto
    with minimal_int_snoc(2) [OF ne snoc.prems(1)]
    have "\<not> (twos_value xs = 0 \<and> unat b < 128)" "\<not> (twos_value xs = - 1 \<and> 128 \<le> unat b)"
      by (auto simp: twos_value_single_cases)
    then show ?thesis using b by (simp add: twos_value_snoc [OF ne]) linarith
  next
    case False
    then have "2 \<le> length xs" using ne by (cases xs) (auto simp: Suc_le_eq)
    from snoc.IH [OF m this] b show ?thesis by (simp add: twos_value_snoc [OF ne]) linarith
  qed
qed

lemma der_int_twos_value: "minimal_int bs \<Longrightarrow> der_int (twos_value bs) = bs"
proof (induction bs rule: rev_induct)
  case Nil
  then show ?case by simp
next
  case (snoc b xs)
  show ?case
  proof (cases "xs = []")
    case True
    have "- 128 \<le> twos_value [b] \<and> twos_value [b] < 128"
      using unat_byte_less [of b] by (simp add: twos_value_single)
    with True show ?thesis by (simp add: der_int.simps of_int_twos_single)
  next
    case False
    have "1 \<le> length xs" using False by (cases xs) auto
    then have "\<not> (- 128 \<le> twos_value (xs @ [b]) \<and> twos_value (xs @ [b]) < 128)"
      using snoc.prems by (intro minimal_int_large) simp_all
    moreover have "twos_value (xs @ [b]) div 256 = twos_value xs"
      using unat_byte_less [of b] by (simp add: twos_value_snoc [OF False])
    moreover have "(of_int (twos_value (xs @ [b])) :: byte) = b"
      by (simp add: twos_value_snoc [OF False] of_nat_unat byte_256)
    ultimately show ?thesis
      using snoc.IH [OF minimal_int_snoc(1) [OF False snoc.prems]] by (auto simp: der_int.simps [of "twos_value (xs @ [b])"])
  qed
qed

lemma der_int_not_Nil [simp]: "der_int i \<noteq> []"
  by (subst der_int.simps) simp

lemma unat_of_int_byte: "int (unat (of_int i :: byte)) = i mod 256"
  by (simp add: of_nat_unat unsigned_of_int take_bit_eq_mod)

lemma twos_value_der_int: "twos_value (der_int i) = i"
proof (induction i rule: der_int.induct)
  case (1 i)
  show ?case
  proof (cases "- 128 \<le> i \<and> i < 128")
    case True
    have "int (unat (of_int i :: byte)) = (if i < 0 then i + 256 else i)"
      using True mod_pos_pos_trivial [of i 256] mod_pos_pos_trivial [of "i + 256" 256]
      by (auto simp: unat_of_int_byte)
    with True show ?thesis by (subst der_int.simps) (auto simp: twos_value_single)
  next
    case False
    then show ?thesis using 1
      by (subst der_int.simps) (auto simp: twos_value_snoc unat_of_int_byte)
  qed
qed

lemma minimal_int_append: "xs \<noteq> [] \<Longrightarrow> minimal_int xs \<Longrightarrow>
    \<not> (xs = [0] \<and> unat b < 128) \<Longrightarrow> \<not> (xs = [0xff] \<and> 128 \<le> unat b) \<Longrightarrow> minimal_int (xs @ [b])"
  by (cases xs rule: minimal_int.cases) simp_all

lemma minimal_der_int: "minimal_int (der_int i)"
proof (induction i rule: der_int.induct)
  case (1 i)
  show ?case
  proof (cases "- 128 \<le> i \<and> i < 128")
    case True
    then show ?thesis by (subst der_int.simps) simp
  next
    case False
    have v: "twos_value (der_int (i div 256)) = i div 256" by (rule twos_value_der_int)
    have b: "int (unat (of_int i :: byte)) = i mod 256" by (rule unat_of_int_byte)
    have i: "i = i div 256 * 256 + i mod 256" by simp
    have "minimal_int (der_int (i div 256) @ [of_int i])"
    proof (rule minimal_int_append [OF _ 1])
      show "\<not> (der_int (i div 256) = [0] \<and> unat (of_int i :: byte) < 128)"
        using v b i False by (auto simp: twos_value_single)
      show "\<not> (der_int (i div 256) = [0xff] \<and> 128 \<le> unat (of_int i :: byte))"
      proof
        assume a: "der_int (i div 256) = [0xff] \<and> 128 \<le> unat (of_int i :: byte)"
        then have "i div 256 = - 1" using v by (simp add: twos_value_single)
        moreover have "128 \<le> i mod 256" using a b by linarith
        ultimately show False using i False by linarith
      qed
    qed (use False in simp_all)
    with False show ?thesis by (subst der_int.simps) simp
  qed
qed

lemma minimal_int_iff: "minimal_int bs \<longleftrightarrow> (\<exists>i. bs = der_int i)"
  using der_int_twos_value minimal_der_int by metis

lemma der_int_inj: "der_int i = der_int j \<Longrightarrow> i = j"
  by (metis twos_value_der_int)

section \<open>Reading integers\<close>

lemma valid_asn1_integer_iff:
  "CBS_is_valid_asn1_integer bs = (if minimal_int bs then Some (128 \<le> unat (hd bs)) else None)"
  by (cases bs rule: minimal_int.cases)
    (auto simp: CBS_is_valid_asn1_integer_def byte_high_bit byte_high_bit_clear)

lemma be_value_Cons_le: "unat b * 256 ^ length bs \<le> be_value (b # bs)"
  by simp

lemma twos_value_sign:
  assumes "bs \<noteq> []"
  shows "twos_value bs < 0 \<longleftrightarrow> 128 \<le> unat (hd bs)"
proof -
  have "int (be_value bs) < 256 ^ length bs" using be_value_less [of bs] by (simp flip: of_nat_power)
  then show ?thesis using assms by (auto simp: twos_value_def)
qed

lemma unsigned_integer_iff:
  "CBS_is_unsigned_asn1_integer bs \<longleftrightarrow> minimal_int bs \<and> unat (hd bs) < 128"
  by (auto simp: CBS_is_unsigned_asn1_integer_def valid_asn1_integer_iff)

lemma twos_value_unsigned: "unat (hd bs) < 128 \<Longrightarrow> bs \<noteq> [] \<Longrightarrow> twos_value bs = int (be_value bs)"
  by (simp add: twos_value_def)

text \<open>The accumulating loop fails as soon as a byte would be shifted out.\<close>

lemma u64_top8: "drop_bit 56 (v :: u64) \<noteq> 0 \<longleftrightarrow> 2 ^ 56 \<le> unat v"
proof -
  have "unat (drop_bit 56 v) = unat v div 2 ^ 56" by (subst unat_drop_bit_eq) (simp add: drop_bit_eq_div)
  then have "drop_bit 56 v = 0 \<longleftrightarrow> unat v div 2 ^ 56 = 0" by (metis unsigned_eq_0_iff)
  then show ?thesis by (simp add: div_eq_0_iff not_less)
qed

lemma asn1_uint64_loop_eq:
  "asn1_uint64_loop v bs = (let n = unat v * 256 ^ length bs + be_value bs
    in if n < SIZE_MOD then Some (of_nat n) else None)"
proof (induction bs arbitrary: v)
  case Nil
  then show ?case using unsigned_less [of v, where 'a = nat] by (simp add: of_nat_unat)
next
  case (Cons b bs)
  let ?n = "unat v * 256 ^ length (b # bs) + be_value (b # bs)"
  show ?case
  proof (cases "2 ^ 56 \<le> unat v")
    case True
    then have "2 ^ 56 * 256 ^ 1 \<le> unat v * 256 ^ length (b # bs)"
      by (intro mult_le_mono power_increasing) simp_all
    then have "\<not> ?n < SIZE_MOD" by simp
    with True show ?thesis by (simp add: u64_top8 Let_def)
  next
    case False
    have "unat v * 256 + unat b < SIZE_MOD" using False unat_byte_less [of b] by simp
    moreover have "v * 256 + ucast b = (of_nat (unat v * 256 + unat b) :: u64)" by (simp add: of_nat_unat)
    ultimately have "unat (v * 256 + ucast b) = unat v * 256 + unat b" using unat_of_nat_u64 by metis
    with False Cons show ?thesis by (simp add: u64_top8 push8_or Let_def algebra_simps)
  qed
qed

lemma der_int_nonneg_unsigned: "0 \<le> i \<Longrightarrow> unat (hd (der_int i)) < 128"
  using twos_value_sign [of "der_int i"] by (simp add: twos_value_der_int)

lemma be_value_der_int: "0 \<le> i \<Longrightarrow> int (be_value (der_int i)) = i"
  using twos_value_unsigned [OF der_int_nonneg_unsigned] by (simp add: twos_value_der_int)

lemma length_der_int:
  assumes "- (2 ^ (8 * n + 7)) \<le> i" and "i < 2 ^ (8 * n + 7)"
  shows "length (der_int i) \<le> Suc n"
  using assms
proof (induction n arbitrary: i)
  case 0
  then show ?case by (subst der_int.simps) simp
next
  case (Suc n)
  show ?case
  proof (cases "- 128 \<le> i \<and> i < 128")
    case False
    have p: "2 ^ (8 * Suc n + 7) = 256 * (2 ^ (8 * n + 7) :: int)" by (simp add: power_add)
    have "- (2 ^ (8 * n + 7)) \<le> i div 256" "i div 256 < 2 ^ (8 * n + 7)"
      using Suc.prems unfolding p by linarith+
    from Suc.IH [OF this] False show ?thesis by (subst der_int.simps) auto
  qed (subst der_int.simps, simp)
qed

section \<open>Primitive values as wire formats\<close>

text \<open>A reader that takes an element with a given tag and then decodes its contents.\<close>

definition get_primitive :: "(byte list \<Rightarrow> 'a option) \<Rightarrow> u32 \<Rightarrow> CBS \<Rightarrow> 'a cbs_result" where
  "get_primitive dec tag cbs = (case CBS_get_asn1 cbs tag of
      (None, cbs') \<Rightarrow> (None, cbs')
    | (Some bytes, cbs') \<Rightarrow> (dec bytes, cbs'))"

locale der_primitive =
  fixes enc :: "'a \<Rightarrow> byte list" and dec :: "byte list \<Rightarrow> 'a option"
  assumes dec_iff: "dec bs = Some x \<longleftrightarrow> bs = enc x"
    and enc_small: "length (enc x) < 4294967296"
begin

lemma get_primitive_iff:
  "get_primitive dec tag cbs = (Some x, rest) \<longleftrightarrow> cbs = der_element tag (enc x) @ rest"
proof -
  have "get_primitive dec tag cbs = (Some x, rest) \<longleftrightarrow> CBS_get_asn1 cbs tag = (Some (enc x), rest)"
    by (auto simp: get_primitive_def dec_iff split: prod.splits option.splits)
  then show ?thesis using enc_small by (simp add: CBS_get_asn1_iff)
qed

end

sublocale der_primitive \<subseteq> element: wire_format "\<lambda>x. der_element tag (enc x)" "get_primitive dec tag" "\<lambda>_. True"
  for tag
  by unfold_locales (simp_all add: get_primitive_iff)

definition uint64_contents :: "byte list \<Rightarrow> u64 option" where
  "uint64_contents bytes = (if CBS_is_unsigned_asn1_integer bytes then asn1_uint64_loop 0 bytes else None)"

lemma CBS_get_asn1_uint64_eq: "CBS_get_asn1_uint64 = get_primitive uint64_contents CBS_ASN1_INTEGER"
  by (rule ext) (simp add: CBS_get_asn1_uint64_def get_primitive_def uint64_contents_def
      split: prod.split option.split)

lemma uint64_contents_iff: "uint64_contents bs = Some v \<longleftrightarrow> bs = der_int (int (unat v))"
proof -
  have "uint64_contents bs = Some v \<longleftrightarrow>
      minimal_int bs \<and> unat (hd bs) < 128 \<and> be_value bs < SIZE_MOD \<and> of_nat (be_value bs) = v"
    by (auto simp: uint64_contents_def unsigned_integer_iff asn1_uint64_loop_eq Let_def)
  also have "\<dots> \<longleftrightarrow> bs = der_int (int (unat v))"
  proof safe
    assume bs: "minimal_int bs" "unat (hd bs) < 128" and small: "be_value bs < SIZE_MOD"
    have "twos_value bs = int (be_value bs)" using bs by (intro twos_value_unsigned) auto
    then show "bs = der_int (int (unat (of_nat (be_value bs) :: u64)))"
      using der_int_twos_value [OF bs(1)] unat_of_nat_u64 [OF small] by simp
  next
    have "be_value (der_int (int (unat v))) = unat v"
      using be_value_der_int [of "int (unat v)"] by simp
    moreover have "unat v < SIZE_MOD" using unsigned_less [of v, where 'a = nat] by simp
    ultimately show "be_value (der_int (int (unat v))) < SIZE_MOD"
      and "of_nat (be_value (der_int (int (unat v)))) = v" by (simp_all add: of_nat_unat)
  qed (simp_all add: minimal_der_int der_int_nonneg_unsigned)
  finally show ?thesis .
qed

lemma length_der_int_u64: "length (der_int (int (unat (v :: u64)))) \<le> 9"
proof -
  have "unat v < SIZE_MOD" using unsigned_less [of v, where 'a = nat] by simp
  then have "length (der_int (int (unat v))) \<le> Suc 8" by (intro length_der_int) simp_all
  then show ?thesis by simp
qed

interpretation uint64: der_primitive "\<lambda>v. der_int (int (unat v))" uint64_contents
  by unfold_locales (simp_all add: uint64_contents_iff le_less_trans [OF length_der_int_u64])

lemma CBS_get_asn1_uint64_iff:
  "CBS_get_asn1_uint64 cbs = (Some v, rest) \<longleftrightarrow>
    cbs = der_element CBS_ASN1_INTEGER (der_int (int (unat v))) @ rest"
  by (simp add: CBS_get_asn1_uint64_eq uint64.get_primitive_iff)

text \<open>Signed integers.\<close>

lemma int64_fill_eq:
  "i + length bs \<le> length u \<Longrightarrow> int64_fill u i bs = take i u @ bs @ drop (i + length bs) u"
proof (induction bs arbitrary: u i)
  case Nil
  then show ?case by simp
next
  case (Cons b bs)
  then have "int64_fill (u[i := b]) (Suc i) bs = take (Suc i) (u[i := b]) @ bs @ drop (Suc i + length bs) (u[i := b])"
    by (intro Cons.IH) simp
  moreover have "take (Suc i) (u[i := b]) = take i u @ [b]"
    using Cons.prems by (simp add: take_Suc_conv_app_nth)
  ultimately show ?case by simp
qed

lemma be_value_replicate_ff: "be_value (replicate k 0xff) + 1 = 256 ^ k"
  by (induction k) simp_all

definition int64_value :: "byte list \<Rightarrow> u64" where
  "int64_value bytes = of_nat (le_value (int64_fill
     (replicate 8 (if 128 \<le> unat (hd bytes) then 0xff else 0)) 0 (rev bytes)))"

lemma int64_value_eq:
  assumes "bs \<noteq> []" and "length bs \<le> 8"
  shows "int64_value bs = of_int (twos_value bs)"
proof -
  define pad :: byte where "pad = (if 128 \<le> unat (hd bs) then 0xff else 0)"
  define k where "k = 8 - length bs"
  have "int64_fill (replicate 8 pad) 0 (rev bs) = rev bs @ replicate k pad"
    using assms(2) by (simp add: int64_fill_eq k_def)
  then have fill: "int64_value bs = of_nat (be_value (replicate k pad) * 256 ^ length bs + be_value bs)"
    by (simp add: int64_value_def le_value_def be_value_append flip: pad_def)
  show ?thesis
  proof (cases "128 \<le> unat (hd bs)")
    case False
    then show ?thesis using fill by (simp add: pad_def be_value_replicate_0 twos_value_def)
  next
    case True
    have "be_value (replicate k pad) * 256 ^ length bs + 256 ^ length bs = 256 ^ k * 256 ^ length bs"
      using be_value_replicate_ff [of k] True by (simp add: pad_def algebra_simps flip: be_value_replicate_ff)
    also have "\<dots> = SIZE_MOD" using assms(2) by (simp add: k_def flip: power_add)
    finally have "int (be_value (replicate k pad)) * 256 ^ length bs + 256 ^ length bs = 18446744073709551616"
      using arg_cong [of _ _ int] by fastforce
    then have "int (be_value (replicate k pad) * 256 ^ length bs + be_value bs) = twos_value bs + 18446744073709551616"
      using True assms(1) by (simp add: twos_value_def)
    then have "of_int (int (be_value (replicate k pad) * 256 ^ length bs + be_value bs)) =
        (of_int (twos_value bs) + of_int 18446744073709551616 :: u64)" by (simp only: of_int_add)
    then show ?thesis unfolding fill of_int_of_nat_eq by simp
  qed
qed

lemma twos_value_range:
  assumes "bs \<noteq> []"
  shows "- (128 * 256 ^ (length bs - 1)) \<le> twos_value bs" and "twos_value bs < 128 * 256 ^ (length bs - 1)"
proof -
  obtain b bs' where bs: "bs = b # bs'" using assms by (cases bs) auto
  have r: "int (be_value bs') < 256 ^ length bs'" using be_value_less [of bs'] by (simp flip: of_nat_power)
  have v: "twos_value bs = twos_value [b] * 256 ^ length bs' + int (be_value bs')"
    by (simp add: bs twos_value_def algebra_simps)
  have "- 128 \<le> twos_value [b]" "twos_value [b] + 1 \<le> 128"
    using unat_byte_less [of b] by (simp_all add: twos_value_single)
  then have "- 128 * 256 ^ length bs' \<le> twos_value [b] * 256 ^ length bs'"
    "(twos_value [b] + 1) * 256 ^ length bs' \<le> 128 * (256 ^ length bs' :: int)"
    by (intro mult_right_mono; simp)+
  then have "- (128 * 256 ^ length bs') \<le> twos_value bs" "twos_value bs < 128 * 256 ^ length bs'"
    unfolding v distrib_right using r by linarith+
  then show "- (128 * 256 ^ (length bs - 1)) \<le> twos_value bs" "twos_value bs < 128 * 256 ^ (length bs - 1)"
    by (simp_all add: bs)
qed

lemma sint_of_int_u64: "- (2 ^ 63) \<le> i \<Longrightarrow> i < 2 ^ 63 \<Longrightarrow> sint (of_int i :: u64) = i"
  by (simp add: signed_of_int signed_take_bit_int_eq_self)

definition int64_contents :: "byte list \<Rightarrow> u64 option" where
  "int64_contents bytes = (case CBS_is_valid_asn1_integer bytes of
      None \<Rightarrow> None
    | Some is_negative \<Rightarrow>
        if length bytes > 8 then None
        else Some (of_nat (le_value (int64_fill (replicate 8 (if is_negative then 0xff else 0)) 0 (rev bytes)))))"

lemma CBS_get_asn1_int64_eq: "CBS_get_asn1_int64 = get_primitive int64_contents CBS_ASN1_INTEGER"
  by (rule ext) (simp add: CBS_get_asn1_int64_def get_primitive_def int64_contents_def Let_def
      split: prod.split option.split)

lemma sint_u64_range: "- (2 ^ 63) \<le> sint (v :: u64)" "sint (v :: u64) < 2 ^ 63"
  using sint_ge [of v] sint_lt [of v] by simp_all

lemma int64_contents_iff: "int64_contents bs = Some v \<longleftrightarrow> bs = der_int (sint v)"
proof -
  have "int64_contents bs = Some v \<longleftrightarrow> minimal_int bs \<and> length bs \<le> 8 \<and> v = of_int (twos_value bs)"
  proof (cases "minimal_int bs \<and> length bs \<le> 8")
    case True
    then have "bs \<noteq> []" by auto
    with True int64_value_eq [of bs] show ?thesis
      by (auto simp: int64_contents_def valid_asn1_integer_iff int64_value_def)
  qed (auto simp: int64_contents_def valid_asn1_integer_iff)
  also have "\<dots> \<longleftrightarrow> bs = der_int (sint v)"
  proof safe
    assume m: "minimal_int bs" and l: "length bs \<le> 8"
    then have ne: "bs \<noteq> []" by auto
    have "(128 :: int) * 256 ^ (length bs - 1) \<le> 128 * 256 ^ 7"
      using l by (intro mult_left_mono power_increasing) simp_all
    with twos_value_range [OF ne] have "sint (of_int (twos_value bs) :: u64) = twos_value bs"
      by (intro sint_of_int_u64) simp_all
    then show "bs = der_int (sint (of_int (twos_value bs) :: u64))"
      using der_int_twos_value [OF m] by simp
  next
    show "length (der_int (sint v)) \<le> 8"
      using length_der_int [of 7 "sint v"] sint_u64_range [of v] by simp
  qed (simp_all add: minimal_der_int twos_value_der_int)
  finally show ?thesis .
qed

lemma length_der_int_s64: "length (der_int (sint (v :: u64))) \<le> 8"
  using length_der_int [of 7 "sint v"] sint_u64_range [of v] by simp

interpretation int64: der_primitive "\<lambda>v. der_int (sint v)" int64_contents
  by unfold_locales (simp_all add: int64_contents_iff le_less_trans [OF length_der_int_s64])

lemma CBS_get_asn1_int64_iff:
  "CBS_get_asn1_int64 cbs = (Some v, rest) \<longleftrightarrow> cbs = der_element CBS_ASN1_INTEGER (der_int (sint v)) @ rest"
  by (simp add: CBS_get_asn1_int64_eq int64.get_primitive_iff)

text \<open>Booleans: DER has one encoding of each.\<close>

definition der_bool :: "bool \<Rightarrow> byte list" where
  "der_bool v = [if v then 0xff else 0]"

definition bool_contents :: "byte list \<Rightarrow> bool option" where
  "bool_contents bytes = (if length bytes \<noteq> 1 then None
     else if bytes ! 0 \<noteq> 0 \<and> bytes ! 0 \<noteq> 0xff then None else Some (bytes ! 0 \<noteq> 0))"

lemma CBS_get_asn1_bool_eq: "CBS_get_asn1_bool = get_primitive bool_contents CBS_ASN1_BOOLEAN"
  by (rule ext) (simp add: CBS_get_asn1_bool_def get_primitive_def bool_contents_def Let_def
      split: prod.split option.split)

interpretation bool: der_primitive der_bool bool_contents
  by unfold_locales (auto simp: bool_contents_def der_bool_def length_Suc_conv split: if_splits)

lemma CBS_get_asn1_bool_iff:
  "CBS_get_asn1_bool cbs = (Some v, rest) \<longleftrightarrow> cbs = der_element CBS_ASN1_BOOLEAN (der_bool v) @ rest"
  by (simp add: CBS_get_asn1_bool_eq bool.get_primitive_iff)

declare of_nat_unat [simp]

end
