(* ===== verification/CBB_ASN1.thy ===== *)
theory CBB_ASN1
  imports CBB_Writers ASN1_Int
begin

text \<open>
  The writers of whole ASN.1 elements: each opens a child, writes the contents and flushes. If the
  body is a \<open>byte_sink\<close> at depth \<open>d + 1\<close>, the element is one at depth \<open>d\<close>, with the DER encoding. The
  same holds of length-prefixed children, so both are instances of one locale.
\<close>

definition in_child ::
  "allocator \<Rightarrow> nat \<Rightarrow> (CBB \<Rightarrow> bool \<times> CBB) \<Rightarrow> (CBB \<Rightarrow> bool \<times> CBB) \<Rightarrow> CBB \<Rightarrow> bool \<times> CBB" where
  "in_child mem d open body s = (case open s of
      (False, c) \<Rightarrow> (False, c)
    | (True, c) \<Rightarrow> (case body c of
          (False, c') \<Rightarrow> (False, c')
        | (True, c') \<Rightarrow> CBB_flush mem c' d))"

text \<open>
  An operation that opens a child: it writes a header of a fixed number of bytes and attaches the
  child; \<open>close\<close> says what header and data become when the child is flushed.
\<close>

locale child_opener =
  fixes mem :: allocator and d :: nat and "open" :: "CBB \<Rightarrow> bool \<times> CBB"
    and hdr :: "byte list" and child :: "nat \<Rightarrow> cbb" and close :: "byte list \<Rightarrow> byte list option"
  assumes open_True: "cbb_ok s \<Longrightarrow> open s = (True, s') \<Longrightarrow>
      \<exists>w. contents d s = Some w \<and> cbb_ok s' \<and> contents (Suc d) s' = Some (w @ hdr) \<and>
        cbb_chain s' = shape d s @ [child (length w)] \<and> length (shape d s) = Suc d \<and>
        (\<forall>n. room mem s n \<longrightarrow> room mem s' n)"
    and open_False: "cbb_ok s \<Longrightarrow> open s = (False, s') \<Longrightarrow>
      cbb_ok s' \<and> contents d s' = None \<and> (contents d s \<noteq> None \<longrightarrow> dead s')"
    and open_room: "cbb_ok s \<Longrightarrow> contents d s = Some w \<Longrightarrow> room mem s (length w + length hdr) \<Longrightarrow>
      \<exists>s'. open s = (True, s')"
    and close: "cbb_ok s \<Longrightarrow> contents (Suc d) s = Some (w @ hdr @ data) \<Longrightarrow>
      cbb_chain s ! Suc d = child (length w) \<Longrightarrow>
      contents d s = map_option (\<lambda>e. w @ e) (close data)"
    and close_length: "close data = Some e \<Longrightarrow> length hdr + length data \<le> length e"

lemma opened_shape:
  assumes "shape (Suc d) s2 = shape (Suc d) s1" and "cbb_chain s1 = cs @ [c]" and "length cs = Suc d"
  shows "Suc d < length (cbb_chain s2) \<and> cbb_chain s2 ! Suc d = c \<and> shape d s2 = cs"
proof -
  have sh: "take (Suc (Suc d)) (cbb_chain s2) = cs @ [c]" using assms by (simp add: shape_def)
  then have "length (take (Suc (Suc d)) (cbb_chain s2)) = Suc (Suc d)" using assms(3) by simp
  moreover have "cbb_chain s2 ! Suc d = take (Suc (Suc d)) (cbb_chain s2) ! Suc d" by simp
  then have "cbb_chain s2 ! Suc d = c" using assms(3) by (simp add: sh nth_append)
  moreover have "shape d s2 = cs"
    using arg_cong [OF sh, of "take (Suc d)"] assms(3) by (simp add: shape_def min_absorb1)
  ultimately show ?thesis by simp
qed

locale child_body = child_opener +
  body: byte_sink cbb_ok "contents (Suc d)" dead "room mem" "shape (Suc d)" put enc arg valid
  for put :: "CBB \<Rightarrow> 'a \<Rightarrow> bool \<times> CBB" and enc and arg and valid
begin

lemma opened_put:
  assumes ok: "cbb_ok s" and x: "arg x" and a: "open s = (True, s1)" and p: "put s1 x = (True, s2)"
  shows "\<exists>w. contents d s = Some w \<and> valid x \<and> cbb_ok s2 \<and> shape d s2 = shape d s \<and>
    contents d s2 = map_option (\<lambda>e. w @ e) (close (enc x)) \<and>
    d < length (cbb_chain s2) \<and> (\<forall>n. room mem s n \<longrightarrow> room mem s2 n)"
proof -
  from open_True [OF ok a] obtain w where c: "contents d s = Some w" and s1: "cbb_ok s1"
    "contents (Suc d) s1 = Some (w @ hdr)" "cbb_chain s1 = shape d s @ [child (length w)]"
    "length (shape d s) = Suc d" "\<And>n. room mem s n \<Longrightarrow> room mem s1 n" by auto
  from body.put_True [OF s1(1) x p] s1(2) have v: "valid x" and s2: "cbb_ok s2"
    "contents (Suc d) s2 = Some (w @ hdr @ enc x)" "shape (Suc d) s2 = shape (Suc d) s1"
    "\<And>n. room mem s1 n \<Longrightarrow> room mem s2 n" by auto
  have l: "Suc d < length (cbb_chain s2)" "cbb_chain s2 ! Suc d = child (length w)" "shape d s2 = shape d s"
    using opened_shape [OF s2(3) s1(3,4)] by simp_all
  from close [OF s2(1,2) l(2)] have cd: "contents d s2 = map_option (\<lambda>e. w @ e) (close (enc x))" .
  with c v s2 s1(5) cd l show ?thesis by auto
qed

lemma element_True:
  assumes ok: "cbb_ok s" and x: "arg x" and add: "in_child mem d open (\<lambda>c. put c x) s = (True, s')"
  shows "(valid x \<and> close (enc x) \<noteq> None) \<and> cbb_ok s' \<and> shape d s' = shape d s \<and>
    (\<forall>n. room mem s n \<longrightarrow> room mem s' n) \<and>
    (\<exists>w. contents d s = Some w \<and> contents d s' = Some (w @ the (close (enc x))))"
proof -
  obtain s1 s2 where a: "open s = (True, s1)" and p: "put s1 x = (True, s2)"
    and f: "CBB_flush mem s2 d = (True, s')"
    using add by (auto simp: in_child_def split: prod.splits bool.splits)
  from opened_put [OF ok x a p] obtain w where s2: "contents d s = Some w" "valid x" "cbb_ok s2"
    "shape d s2 = shape d s" "contents d s2 = map_option (\<lambda>e. w @ e) (close (enc x))"
    "\<And>n. room mem s n \<Longrightarrow> room mem s2 n" by auto
  from CBB_flush_True [OF f s2(3)] have s': "cbb_ok s'" "contents d s2 \<noteq> None" "contents d s' = contents d s2"
    "cbb_chain s' = shape d s2" "\<And>n. room mem s2 n \<Longrightarrow> room mem s' n" by auto
  have "close (enc x) \<noteq> None" using s2(5) s'(2) by auto
  with s2 s' show ?thesis by (auto simp: shape_shape)
qed

lemma element_False:
  assumes ok: "cbb_ok s" and x: "arg x" and add: "in_child mem d open (\<lambda>c. put c x) s = (False, s')"
  shows "cbb_ok s' \<and> contents d s' = None \<and> (contents d s \<noteq> None \<longrightarrow> dead s')"
proof (cases "open s")
  case (Pair q s1)
  show ?thesis
  proof (cases q)
    case False
    with Pair add open_False [OF ok, of s1] show ?thesis by (simp add: in_child_def)
  next
    case True
    then have a: "open s = (True, s1)" using Pair by simp
    from open_True [OF ok a] have s1: "cbb_ok s1" "contents (Suc d) s1 \<noteq> None" by auto
    obtain q2 s2 where p: "put s1 x = (q2, s2)" by fastforce
    show ?thesis
    proof (cases q2)
      case False
      with p have p': "put s1 x = (False, s2)" by simp
      from body.put_False [OF s1(1) x p'] s1(2) a p' add show ?thesis
        by (auto simp: in_child_def intro: dead_contents)
    next
      case True
      with p have p': "put s1 x = (True, s2)" by simp
      from opened_put [OF ok x a p'] have s2: "cbb_ok s2" "d < length (cbb_chain s2)" by auto
      have fl: "CBB_flush mem s2 d = (False, s')" using a p' add by (simp add: in_child_def)
      then show ?thesis using CBB_flush_False [OF fl s2(1)] s2(2) dead_contents [of s' d] by auto
    qed
  qed
qed

lemma element_room:
  assumes ok: "cbb_ok s" and c: "contents d s = Some w" and x: "arg x"
    and v: "valid x \<and> close (enc x) \<noteq> None" and room: "room mem s (length (w @ the (close (enc x))))"
  shows "fst (in_child mem d open (\<lambda>c. put c x) s)"
proof -
  obtain e where e: "close (enc x) = Some e" using v by auto
  then have len: "length hdr + length (enc x) \<le> length e" by (rule close_length)
  have "room mem s (length w + length hdr)" using room by (rule room_mono) (use len e in simp)
  then obtain s1 where a: "open s = (True, s1)" using open_room [OF ok c] by blast
  from open_True [OF ok a] c have s1: "cbb_ok s1" "contents (Suc d) s1 = Some (w @ hdr)"
    "\<And>n. room mem s n \<Longrightarrow> room mem s1 n" by auto
  have "room mem s1 (length ((w @ hdr) @ enc x))"
    using s1(3) [OF room] by (rule room_mono) (use len e in simp)
  with body.put_room [OF s1(1,2) x] v obtain s2 where p: "put s1 x = (True, s2)"
    by (metis (full_types) eq_fst_iff)
  from opened_put [OF ok x a p] c e have s2: "cbb_ok s2" "contents d s2 = Some (w @ e)"
    "\<And>n. room mem s n \<Longrightarrow> room mem s2 n" by auto
  obtain s' where "CBB_flush mem s2 d = (True, s')"
    using CBB_flush_succeeds [OF s2(1,2)] s2(3) [OF room] e by auto
  with a p show ?thesis by (simp add: in_child_def)
qed

end

sublocale child_body \<subseteq> element: byte_sink cbb_ok "contents d" dead "room mem" "shape d"
  "\<lambda>s x. in_child mem d open (\<lambda>c. put c x) s" "\<lambda>x. the (close (enc x))" arg
  "\<lambda>x. valid x \<and> close (enc x) \<noteq> None"
  by unfold_locales
    (rule dead_contents room_mono element_True element_False element_room; assumption)+

section \<open>ASN.1 children\<close>

definition close_asn1 :: "u32 \<Rightarrow> byte list \<Rightarrow> byte list option" where
  "close_asn1 tag data = (if length data \<le> 0xfffffffe then Some (der_element tag data) else None)"

interpretation asn1_opener: child_opener mem d "\<lambda>s. CBB_add_asn1 mem s d tag" "der_tag tag @ [0]"
  "\<lambda>off. asn1_child_at (off + length (der_tag tag))" "close_asn1 tag" for mem d tag
proof
  fix s s' assume "cbb_ok s" and "CBB_add_asn1 mem s d tag = (True, s')"
  from CBB_add_asn1_True [OF this] show "\<exists>w. contents d s = Some w \<and> cbb_ok s' \<and>
        contents (Suc d) s' = Some (w @ der_tag tag @ [0]) \<and>
        cbb_chain s' = shape d s @ [asn1_child_at (length w + length (der_tag tag))] \<and>
        length (shape d s) = Suc d \<and> (\<forall>n. room mem s n \<longrightarrow> room mem s' n)" .
next
  fix s s' assume "cbb_ok s" and "CBB_add_asn1 mem s d tag = (False, s')"
  from CBB_add_asn1_False [OF this]
  show "cbb_ok s' \<and> contents d s' = None \<and> (contents d s \<noteq> None \<longrightarrow> dead s')" .
next
  fix s w assume "cbb_ok s" "contents d s = Some w" "room mem s (length w + length (der_tag tag @ [0]))"
  then show "\<exists>s'. CBB_add_asn1 mem s d tag = (True, s')" by (intro CBB_add_asn1_succeeds) simp_all
next
  fix s w data
  assume ok: "cbb_ok s" and c: "contents (Suc d) s = Some (w @ (der_tag tag @ [0]) @ data)"
    and ch: "cbb_chain s ! Suc d = asn1_child_at (length w + length (der_tag tag))"
  from contents_parent [OF ok c ch] show "contents d s = map_option (\<lambda>e. w @ e) (close_asn1 tag data)"
    by (simp add: kind_of_def close_asn1_def der_element_def)
next
  fix data e assume "close_asn1 tag data = Some e"
  then show "length (der_tag tag @ [0]) + length data \<le> length e"
    by (auto simp: close_asn1_def der_element_def length_der_length split: if_splits)
qed

abbreviation add_element :: "allocator \<Rightarrow> CBB \<Rightarrow> nat \<Rightarrow> u32 \<Rightarrow> (CBB \<Rightarrow> bool \<times> CBB) \<Rightarrow> bool \<times> CBB" where
  "add_element mem s d tag body \<equiv> in_child mem d (\<lambda>s. CBB_add_asn1 mem s d tag) body s"

section \<open>Octet strings and booleans\<close>

interpretation octet_string: child_body mem d "\<lambda>s. CBB_add_asn1 mem s d CBS_ASN1_OCTETSTRING"
  "der_tag CBS_ASN1_OCTETSTRING @ [0]" "\<lambda>off. asn1_child_at (off + length (der_tag CBS_ASN1_OCTETSTRING))"
  "close_asn1 CBS_ASN1_OCTETSTRING" "\<lambda>s. CBB_add_bytes mem s (Suc d)" "\<lambda>data. data"
  "\<lambda>data. length data < SIZE_MOD" "\<lambda>_. True" for d mem
  by unfold_locales

lemma CBB_add_asn1_octet_string_eq:
  "CBB_add_asn1_octet_string mem s d data =
    add_element mem s d CBS_ASN1_OCTETSTRING (\<lambda>c. CBB_add_bytes mem c (Suc d) data)"
  by (simp add: CBB_add_asn1_octet_string_def in_child_def)

interpretation bool_body: byte_sink cbb_ok "contents d" dead "room mem" "shape d"
  "\<lambda>s v. CBB_add_u8 mem s d (if v \<noteq> (0 :: int) then 0xff else 0)" "\<lambda>v. der_bool (v \<noteq> 0)" "\<lambda>_. True" "\<lambda>_. True"
  for mem d
proof
  fix s and v :: int and s'
  assume ok: "cbb_ok s" and p: "CBB_add_u8 mem s d (if v \<noteq> 0 then 0xff else 0) = (True, s')"
  from u8.put_True [OF ok TrueI p] show "True \<and> cbb_ok s' \<and> shape d s' = shape d s \<and>
      (\<forall>n. room mem s n \<longrightarrow> room mem s' n) \<and>
      (\<exists>w. contents d s = Some w \<and> contents d s' = Some (w @ der_bool (v \<noteq> 0)))"
    by (auto simp: der_bool_def)
next
  fix s and v :: int and s'
  assume "cbb_ok s" and "CBB_add_u8 mem s d (if v \<noteq> 0 then 0xff else 0) = (False, s')"
  from u8.put_False [OF this(1) TrueI this(2)]
  show "cbb_ok s' \<and> contents d s' = None \<and> (contents d s \<noteq> None \<longrightarrow> dead s')" .
next
  fix s w and v :: int
  assume "cbb_ok s" and "contents d s = Some w" and "room mem s (length (w @ der_bool (v \<noteq> 0)))"
  then show "fst (CBB_add_u8 mem s d (if v \<noteq> 0 then 0xff else 0))"
    by (intro u8.put_room) (simp_all add: der_bool_def)
qed (auto intro: room_mono dead_contents)

interpretation bool: child_body mem d "\<lambda>s. CBB_add_asn1 mem s d CBS_ASN1_BOOLEAN"
  "der_tag CBS_ASN1_BOOLEAN @ [0]" "\<lambda>off. asn1_child_at (off + length (der_tag CBS_ASN1_BOOLEAN))"
  "close_asn1 CBS_ASN1_BOOLEAN" "\<lambda>s v. CBB_add_u8 mem s (Suc d) (if v \<noteq> (0 :: int) then 0xff else 0)"
  "\<lambda>v. der_bool (v \<noteq> 0)" "\<lambda>_. True" "\<lambda>_. True" for d mem
  by unfold_locales

lemma CBB_add_asn1_bool_eq:
  "CBB_add_asn1_bool mem s d v =
    add_element mem s d CBS_ASN1_BOOLEAN (\<lambda>c. CBB_add_u8 mem c (Suc d) (if v \<noteq> 0 then 0xff else 0))"
  by (simp add: CBB_add_asn1_bool_def in_child_def)

section \<open>Integers\<close>

text \<open>Drop the leading zeros, and put one back when the number would read as negative.\<close>

fun uint_strip :: "byte list \<Rightarrow> byte list" where
  "uint_strip [] = [0]"
| "uint_strip (b # bs) = (if b = 0 then uint_strip bs else if 128 \<le> unat b then 0 # b # bs else b # bs)"

lemma uint_strip_props:
  "minimal_int (uint_strip bs) \<and> twos_value (uint_strip bs) = int (be_value bs)"
proof (induction bs)
  case Nil
  then show ?case by (simp add: twos_value_def)
next
  case (Cons b bs)
  moreover have "minimal_int (b # bs)" if "b \<noteq> 0" "\<not> 128 \<le> unat b" using that by (cases bs) auto
  ultimately show ?case by (auto simp: twos_value_def)
qed

lemma uint_strip_eq: "uint_strip bs = der_int (int (be_value bs))"
  using uint_strip_props [of bs] der_int_twos_value by metis

definition uint64_tail :: "allocator \<Rightarrow> nat \<Rightarrow> (bool \<times> bool) \<times> CBB \<Rightarrow> bool \<times> CBB" where
  "uint64_tail mem d r = (case r of
      ((False, _), c) \<Rightarrow> (False, c)
    | ((True, started), c) \<Rightarrow> if \<not> started then CBB_add_u8 mem c d 0 else (True, c))"

lemma uint64_tail_simps [simp]:
  "uint64_tail mem d ((False, started), c) = (False, c)"
  "uint64_tail mem d ((True, True), c) = (True, c)"
  "uint64_tail mem d ((True, False), c) = CBB_add_u8 mem c d 0"
  by (simp_all add: uint64_tail_def)

abbreviation u64_byte :: "u64 \<Rightarrow> nat \<Rightarrow> byte" where
  "u64_byte v i \<equiv> ucast (drop_bit (8 * (7 - i)) v AND 0xff)"

lemma asn1_uint64_bytes_started:
  "uint64_tail mem d (asn1_uint64_bytes mem s d v is True) =
    put_list (\<lambda>s. CBB_add_u8 mem s d) s (map (u64_byte v) is)"
proof (induction "is" arbitrary: s)
  case (Cons i "is")
  obtain q s' where "CBB_add_u8 mem s d (u64_byte v i) = (q, s')" by fastforce
  then show ?case using Cons by (cases q) (simp_all add: Let_def)
qed simp

lemma asn1_uint64_bytes_put:
  "uint64_tail mem d (asn1_uint64_bytes mem s d v is False) =
    put_list (\<lambda>s. CBB_add_u8 mem s d) s (uint_strip (map (u64_byte v) is))"
proof (induction "is" arbitrary: s)
  case Nil
  then show ?case by (simp add: put_list_single del: put_list.simps)
next
  case (Cons i "is")
  have start: "uint64_tail mem d (case CBB_add_u8 mem s d (u64_byte v i) of
        (False, c) \<Rightarrow> ((False, True), c) | (True, c) \<Rightarrow> asn1_uint64_bytes mem c d v is True) =
      put_list (\<lambda>s. CBB_add_u8 mem s d) s (map (u64_byte v) (i # is))" for s
  proof -
    obtain q s' where "CBB_add_u8 mem s d (u64_byte v i) = (q, s')" by fastforce
    then show ?thesis by (cases q) (simp_all add: asn1_uint64_bytes_started)
  qed
  show ?case
  proof (cases "u64_byte v i = 0")
    case True
    with Cons show ?thesis by (simp add: Let_def)
  next
    case False
    obtain q s' where z: "CBB_add_u8 mem s d 0 = (q, s')" by fastforce
    show ?thesis
    proof (cases "128 \<le> unat (u64_byte v i)")
      case True
      with False z start [of s'] show ?thesis by (cases q) (simp_all add: Let_def byte_high_bit)
    next
      case small: False
      with False start [of s] show ?thesis by (simp add: Let_def byte_high_bit)
    qed
  qed
qed

lemma u64_byte_value: "u64_byte v i = of_nat (unat v div 256 ^ (7 - i))"
proof -
  have m: "drop_bit (8 * (7 - i)) v AND 0xff = take_bit 8 (drop_bit (8 * (7 - i)) v)"
    using take_bit_eq_mask [of 8 "drop_bit (8 * (7 - i)) v"] by (simp add: mask_eq_exp_minus_1)
  have "unat (take_bit 8 (drop_bit (8 * (7 - i)) v)) = unat v div 256 ^ (7 - i) mod 256"
    by (subst unsigned_take_bit_eq, subst unat_drop_bit_eq)
      (simp add: drop_bit_eq_div take_bit_eq_mod power_mult)
  then have "u64_byte v i = of_nat (unat v div 256 ^ (7 - i) mod 256)" by (metis m of_nat_unat)
  then show ?thesis by (simp add: word_unat_eq_iff)
qed

lemma be_bytes_map: "be_bytes n v = map (\<lambda>i. of_nat (v div 256 ^ (n - 1 - i))) [0..<n]"
proof (induction n)
  case 0
  then show ?case by simp
next
  case (Suc n)
  have "[0..<Suc n] = 0 # map Suc [0..<n]" by (simp add: upt_conv_Cons map_Suc_upt del: upt_Suc)
  with Suc show ?case by (simp add: comp_def del: upt_Suc)
qed

lemma u64_bytes: "map (u64_byte v) [0..<8] = be_bytes 8 (unat v)"
  by (simp only: u64_byte_value be_bytes_map) simp

lemma be_value_u64_bytes: "be_value (be_bytes 8 (unat (v :: u64))) = unat v"
  using unat_u64_less [of v] by (simp only: be_value_be_bytes mod_less)

abbreviation add_u8s :: "allocator \<Rightarrow> nat \<Rightarrow> CBB \<Rightarrow> byte list \<Rightarrow> bool \<times> CBB" where
  "add_u8s mem d s bs \<equiv> put_list (\<lambda>s. CBB_add_u8 mem s d) s bs"

lemma CBB_add_asn1_uint64_eq:
  "CBB_add_asn1_uint64 mem s d v =
    add_element mem s d CBS_ASN1_INTEGER (\<lambda>c. add_u8s mem (Suc d) c (der_int (int (unat v))))"
proof -
  have tail: "add_u8s mem (Suc d) c (der_int (int (unat v))) =
      uint64_tail mem (Suc d) (asn1_uint64_bytes mem c (Suc d) v [0..<8] False)" for c
    by (simp only: asn1_uint64_bytes_put u64_bytes uint_strip_eq be_value_u64_bytes)
  show ?thesis unfolding tail CBB_add_asn1_uint64_def in_child_def uint64_tail_def
    by (simp split: prod.split bool.split)
qed

text \<open>Negative integers: drop leading \<open>0xff\<close> bytes while the next byte still has its top bit set.\<close>

fun sint_strip :: "byte list \<Rightarrow> byte list" where
  "sint_strip (a # b # bs) = (if a = 0xff \<and> 128 \<le> unat b then sint_strip (b # bs) else a # b # bs)"
| "sint_strip bs = bs"

lemma sint_strip_props:
  "bs \<noteq> [] \<Longrightarrow> 128 \<le> unat (hd bs) \<Longrightarrow>
    minimal_int (sint_strip bs) \<and> twos_value (sint_strip bs) = twos_value bs"
  by (induction bs rule: sint_strip.induct) (auto simp: twos_value_def)

lemma int64_start_strip:
  "k < length u \<Longrightarrow> rev (take (Suc (int64_start u k)) u) = sint_strip (rev (take (Suc k) u))"
proof (induction k)
  case 0
  then show ?case by (cases u) simp_all
next
  case (Suc k)
  then have "rev (take (Suc k) u) = u ! k # rev (take k u)" "rev (take (Suc (Suc k)) u) = u ! Suc k # rev (take (Suc k) u)"
    by (simp_all add: take_Suc_conv_app_nth)
  with Suc show ?case by (simp add: byte_high_bit del: take_Suc)
qed

lemma add_bytes_down_put:
  "k \<le> length u \<Longrightarrow> add_bytes_down mem s d u k = add_u8s mem d s (rev (take k u))"
proof (induction k arbitrary: s)
  case 0
  then show ?case by simp
next
  case (Suc k)
  then have "rev (take (Suc k) u) = u ! k # rev (take k u)" by (simp add: take_Suc_conv_app_nth)
  with Suc show ?case by (simp add: split: prod.split bool.split)
qed

lemma int64_start_le: "int64_start u k \<le> k"
  by (induction k) auto

lemma twos_value_u64_bytes: "twos_value (be_bytes 8 (unat v)) = sint (v :: u64)"
proof -
  let ?bs = "be_bytes 8 (unat v)"
  have len: "length ?bs = 8" "?bs \<noteq> []" by (simp, metis length_be_bytes list.size(3) zero_neq_numeral)
  then have r: "- (2 ^ 63) \<le> twos_value ?bs" "twos_value ?bs < 2 ^ 63"
    using twos_value_range [OF len(2)] by (simp_all del: be_bytes.simps)
  have "of_int (twos_value ?bs) = (of_nat (be_value ?bs) :: u64)"
    using len by (simp add: twos_value_def del: be_bytes.simps)
  then have "of_int (twos_value ?bs) = v" by (simp add: be_value_u64_bytes)
  with sint_of_int_u64 [OF r] show ?thesis by simp
qed

lemma int64_bytes_strip:
  assumes "sint (v :: u64) < 0"
  shows "rev (take (Suc (int64_start (int64_bytes v) 7)) (int64_bytes v)) = der_int (sint v)"
proof -
  let ?bs = "be_bytes 8 (unat v)"
  have len: "length ?bs = 8" "?bs \<noteq> []" by (simp, metis length_be_bytes list.size(3) zero_neq_numeral)
  have "128 \<le> unat (hd ?bs)"
    using twos_value_sign [OF len(2)] assms by (simp only: twos_value_u64_bytes)
  from sint_strip_props [OF len(2) this] have "sint_strip ?bs = der_int (sint v)"
    using der_int_twos_value [of "sint_strip ?bs"] by (simp only: twos_value_u64_bytes)
  then show ?thesis using len int64_start_strip [of 7 "int64_bytes v"]
    by (simp add: int64_bytes_def del: be_bytes.simps)
qed

lemma sint_nonneg_unat: "0 \<le> sint (v :: u64) \<Longrightarrow> sint v = int (unat v)"
  using twos_value_u64_bytes [of v] be_value_u64_bytes [of v] twos_value_sign [of "be_bytes 8 (unat v)"]
  by (auto simp: twos_value_def unsigned_eq_0_iff simp del: be_bytes.simps split: if_splits)

lemma CBB_add_asn1_int64_eq:
  "CBB_add_asn1_int64 mem s d v =
    add_element mem s d CBS_ASN1_INTEGER (\<lambda>c. add_u8s mem (Suc d) c (der_int (sint v)))"
proof (cases "0 \<le> sint v")
  case True
  then show ?thesis by (simp add: CBB_add_asn1_int64_def CBB_add_asn1_uint64_eq sint_nonneg_unat)
next
  case False
  let ?u = "int64_bytes v"
  have "Suc (int64_start ?u 7) \<le> length ?u" using int64_start_le [of ?u 7] by (simp add: int64_bytes_def)
  from add_bytes_down_put [OF this]
  have "add_bytes_down mem c (Suc d) ?u (Suc (int64_start ?u 7)) = add_u8s mem (Suc d) c (der_int (sint v))" for c
    using False int64_bytes_strip [of v] by (simp only: not_le)
  with False show ?thesis
    by (simp add: CBB_add_asn1_int64_def Let_def in_child_def split: prod.split bool.split
        del: add_bytes_down.simps)
qed

interpretation uint64: child_body mem d "\<lambda>s. CBB_add_asn1 mem s d CBS_ASN1_INTEGER"
  "der_tag CBS_ASN1_INTEGER @ [0]" "\<lambda>off. asn1_child_at (off + length (der_tag CBS_ASN1_INTEGER))"
  "close_asn1 CBS_ASN1_INTEGER" "\<lambda>s v. add_u8s mem (Suc d) s (der_int (int (unat (v :: u64))))"
  "\<lambda>v. der_int (int (unat v))" "\<lambda>_. True" "\<lambda>_. True" for d mem
  by (intro child_body.intro u8_list_sink asn1_opener.child_opener_axioms) simp

interpretation int64: child_body mem d "\<lambda>s. CBB_add_asn1 mem s d CBS_ASN1_INTEGER"
  "der_tag CBS_ASN1_INTEGER @ [0]" "\<lambda>off. asn1_child_at (off + length (der_tag CBS_ASN1_INTEGER))"
  "close_asn1 CBS_ASN1_INTEGER" "\<lambda>s v. add_u8s mem (Suc d) s (der_int (sint (v :: u64)))"
  "\<lambda>v. der_int (sint v)" "\<lambda>_. True" "\<lambda>_. True" for d mem
  by (intro child_body.intro u8_list_sink asn1_opener.child_opener_axioms) simp

end
