(* ===== verification/Wire.thy ===== *)
theory Wire
  imports CBS
begin

text \<open>
  Fixed-width integers and length-prefixed strings as wire formats: what the readers of \<^verbatim>\<open>cbs.c\<close>
  accept.
\<close>

lemma be_value_drop_split:
  "length cbs \<ge> n \<Longrightarrow> cbs = be_bytes n (be_value (take n cbs)) @ drop n cbs"
  using be_bytes_be_value [of "take n cbs"] by simp

lemma cbs_get_u_be:
  assumes "n \<le> 8"
  shows "cbs_get_u cbs n = (Some v, rest) \<longleftrightarrow> unat v < 256 ^ n \<and> cbs = be_bytes n (unat v) @ rest"
proof
  assume L: "cbs_get_u cbs n = (Some v, rest)"
  then have len: "n \<le> length cbs" and v: "v = of_nat (be_value (take n cbs))" and r: "rest = drop n cbs"
    by (auto simp: cbs_get_u_eq split: if_splits)
  have "unat v = be_value (take n cbs)" unfolding v
    using be_value_u64 [of "take n cbs"] assms by (intro unat_of_nat_u64) simp
  then show "unat v < 256 ^ n \<and> cbs = be_bytes n (unat v) @ rest"
    using be_value_less [of "take n cbs"] be_value_drop_split [OF len] len r by simp
next
  assume R: "unat v < 256 ^ n \<and> cbs = be_bytes n (unat v) @ rest"
  then show "cbs_get_u cbs n = (Some v, rest)" by (simp add: cbs_get_u_eq be_value_be_bytes)
qed

text \<open>Reading into a type of the same width.\<close>

lemma unat_ucast_u64_less:
  fixes v :: u64
  assumes "unat v < 2 ^ LENGTH('a :: len)"
  shows "unat (ucast v :: 'a word) = unat v"
  using assms by (simp add: unsigned_ucast_eq take_bit_nat_eq_self_iff)

lemma get_u_ucast:
  fixes f :: "CBS \<Rightarrow> 'a :: len word cbs_result"
  assumes f: "\<And>cbs. f cbs = (case cbs_get_u cbs n of (None, c) \<Rightarrow> (None, c) | (Some v, c) \<Rightarrow> (Some (ucast v), c))"
    and n: "n \<le> 8" "256 ^ n \<le> (2 :: nat) ^ LENGTH('a)" "LENGTH('a) \<le> 64"
  shows "f cbs = (Some x, rest) \<longleftrightarrow> unat x < 256 ^ n \<and> cbs = be_bytes n (unat x) @ rest"
proof
  assume "f cbs = (Some x, rest)"
  then obtain v where v: "cbs_get_u cbs n = (Some v, rest)" and x: "x = ucast v"
    by (auto simp: f split: prod.splits option.splits)
  from v have b: "unat v < 256 ^ n" "cbs = be_bytes n (unat v) @ rest" using cbs_get_u_be [OF n(1)] by auto
  then have "unat x = unat v" unfolding x using n(2) by (intro unat_ucast_u64_less) linarith
  with b show "unat x < 256 ^ n \<and> cbs = be_bytes n (unat x) @ rest" by simp
next
  assume R: "unat x < 256 ^ n \<and> cbs = be_bytes n (unat x) @ rest"
  have "(256 :: nat) ^ n \<le> 256 ^ 8" using n(1) by (intro power_increasing) simp_all
  with R have "unat (of_nat (unat x) :: u64) = unat x" by (intro unat_of_nat_u64) simp
  with R cbs_get_u_be [OF n(1), of cbs "of_nat (unat x)" rest]
  have "cbs_get_u cbs n = (Some (of_nat (unat x)), rest)" by simp
  moreover have "unat (ucast (of_nat (unat x) :: u64) :: 'a word) = unat x"
    using \<open>unat (of_nat (unat x) :: u64) = unat x\<close> unat_ucast_u64_less [of "of_nat (unat x)", where 'a = 'a]
      unsigned_less [of x, where 'a = nat] by simp
  then have "ucast (of_nat (unat x) :: u64) = x" by (rule word_unat_eq_iff [THEN iffD2])
  ultimately show "f cbs = (Some x, rest)" by (simp add: f)
qed

lemma unat_word_less: "unat (x :: 'a :: len word) < 2 ^ LENGTH('a)"
  by (rule unsigned_less)

interpretation u8: wire_format "\<lambda>v :: byte. [v]" CBS_get_u8 "\<lambda>_. True"
  by unfold_locales (auto simp: CBS_get_u8_eq split: list.splits)

interpretation u16: wire_format "\<lambda>v :: u16. be_bytes 2 (unat v)" CBS_get_u16 "\<lambda>_. True"
proof -
  have "CBS_get_u16 cbs = (Some x, rest) \<longleftrightarrow> cbs = be_bytes 2 (unat x) @ rest" for cbs x rest
    using get_u_ucast [of CBS_get_u16 2, OF CBS_get_u16_def] unat_word_less [of x] by simp
  then show "wire_format (\<lambda>v :: u16. be_bytes 2 (unat v)) CBS_get_u16 (\<lambda>_. True)" by unfold_locales simp_all
qed

interpretation u24: wire_format "\<lambda>v :: u32. be_bytes 3 (unat v)" CBS_get_u24 "\<lambda>v. unat v < 256 ^ 3"
proof -
  have "CBS_get_u24 cbs = (Some x, rest) \<longleftrightarrow> unat x < 256 ^ 3 \<and> cbs = be_bytes 3 (unat x) @ rest" for cbs x rest
    by (rule get_u_ucast [of CBS_get_u24 3, OF CBS_get_u24_def]) simp_all
  then show "wire_format (\<lambda>v :: u32. be_bytes 3 (unat v)) CBS_get_u24 (\<lambda>v. unat v < 256 ^ 3)"
    by unfold_locales simp_all
qed

interpretation u32: wire_format "\<lambda>v :: u32. be_bytes 4 (unat v)" CBS_get_u32 "\<lambda>_. True"
proof -
  have "CBS_get_u32 cbs = (Some x, rest) \<longleftrightarrow> cbs = be_bytes 4 (unat x) @ rest" for cbs x rest
    using get_u_ucast [of CBS_get_u32 4, OF CBS_get_u32_def] unat_word_less [of x] by simp
  then show "wire_format (\<lambda>v :: u32. be_bytes 4 (unat v)) CBS_get_u32 (\<lambda>_. True)" by unfold_locales simp_all
qed

interpretation u64: wire_format "\<lambda>v :: u64. be_bytes 8 (unat v)" CBS_get_u64 "\<lambda>_. True"
proof -
  have "CBS_get_u64 cbs = (Some x, rest) \<longleftrightarrow> cbs = be_bytes 8 (unat x) @ rest" for cbs x rest
    using cbs_get_u_be [of 8 cbs x rest] unat_word_less [of x] by (simp add: CBS_get_u64_def)
  then show "wire_format (\<lambda>v :: u64. be_bytes 8 (unat v)) CBS_get_u64 (\<lambda>_. True)" by unfold_locales simp_all
qed

section \<open>Length-prefixed strings\<close>

definition length_prefixed :: "nat \<Rightarrow> byte list \<Rightarrow> byte list" where
  "length_prefixed k data = be_bytes k (length data) @ data"

lemma get_length_prefixed_iff:
  assumes "k \<le> 8"
  shows "cbs_get_length_prefixed cbs k = (Some data, rest) \<longleftrightarrow>
    length data < 256 ^ k \<and> cbs = length_prefixed k data @ rest"
proof
  assume "cbs_get_length_prefixed cbs k = (Some data, rest)"
  then obtain n c where n: "cbs_get_u cbs k = (Some n, c)" and c: "CBS_get_bytes c (unat n) = (Some data, rest)"
    by (auto simp: cbs_get_length_prefixed_def split: prod.splits option.splits)
  from n cbs_get_u_be [OF assms] have "unat n < 256 ^ k" "cbs = be_bytes k (unat n) @ c" by auto
  moreover from c have "c = data @ rest" "length data = unat n"
    by (auto simp: CBS_get_bytes_eq split: if_splits)
  ultimately show "length data < 256 ^ k \<and> cbs = length_prefixed k data @ rest" by (simp add: length_prefixed_def)
next
  assume R: "length data < 256 ^ k \<and> cbs = length_prefixed k data @ rest"
  have "(256 :: nat) ^ k \<le> 256 ^ 8" using assms by (intro power_increasing) simp_all
  with R have u: "unat (of_nat (length data) :: u64) = length data" by (intro unat_of_nat_u64) simp
  with R cbs_get_u_be [OF assms, of cbs "of_nat (length data)" "data @ rest"]
  have "cbs_get_u cbs k = (Some (of_nat (length data)), data @ rest)" by (simp add: length_prefixed_def)
  with u show "cbs_get_length_prefixed cbs k = (Some data, rest)"
    by (simp add: cbs_get_length_prefixed_def CBS_get_bytes_eq)
qed

interpretation prefixed8: wire_format "length_prefixed 1" CBS_get_u8_length_prefixed "\<lambda>data. length data < 256 ^ 1"
  unfolding CBS_get_u8_length_prefixed_def by unfold_locales (auto simp: get_length_prefixed_iff)

interpretation prefixed16: wire_format "length_prefixed 2" CBS_get_u16_length_prefixed "\<lambda>data. length data < 256 ^ 2"
  unfolding CBS_get_u16_length_prefixed_def by unfold_locales (auto simp: get_length_prefixed_iff)

interpretation prefixed24: wire_format "length_prefixed 3" CBS_get_u24_length_prefixed "\<lambda>data. length data < 256 ^ 3"
  unfolding CBS_get_u24_length_prefixed_def by unfold_locales (auto simp: get_length_prefixed_iff)

end
