(* ===== verification/CBB_State.thy ===== *)
theory CBB_State
  imports CBB_ASN1 Wire
begin

text \<open>
  The builder as a state machine: length-prefixed children, the operations that expose or discard
  space, finishing, and the relation of all calls a client can make, under which the invariant of the
  builder is kept and an error is final.
\<close>

section \<open>Length-prefixed children\<close>

abbreviation prefix_child_at :: "nat \<Rightarrow> nat \<Rightarrow> cbb" where
  "prefix_child_at off k \<equiv>
     \<lparr>c_offset = off, c_pending_len_len = k, c_pending_is_asn1 = False, c_is_child = True\<rparr>"

lemma add_length_prefixed_True:
  assumes ok: "cbb_ok s" and add: "cbb_add_length_prefixed mem s d k = (True, s')" and k: "1 \<le> k" "k \<le> 3"
  shows "\<exists>w. contents d s = Some w \<and> cbb_ok s' \<and> contents (Suc d) s' = Some (w @ replicate k 0) \<and>
    cbb_chain s' = shape d s @ [prefix_child_at (length w) k] \<and> length (shape d s) = Suc d \<and>
    (\<forall>n. room mem s n \<longrightarrow> room mem s' n)"
proof -
  obtain s1 where fl: "CBB_flush mem s d = (True, s1)"
    using add by (auto simp: cbb_add_length_prefixed_def split: prod.splits bool.splits)
  from CBB_flush_True [OF fl ok] obtain b where ok1: "cbb_ok s1" and w: "contents d s = Some (written b)"
    and chain: "cbb_chain s1 = shape d s" and d: "d < length (cbb_chain s)"
    and room: "\<And>n. room mem s n \<Longrightarrow> room mem s1 n" and b: "cbb_base s1 = Some b" and err: "\<not> b_error b" by auto
  have bok: "buffer_ok b" using ok1 b by (simp add: cbb_ok_def)
  obtain p b1 where ba: "cbb_buffer_add mem b k = (Some p, b1)" 
    using add fl b by (auto simp: cbb_add_length_prefixed_def Let_def split: prod.splits option.splits)
  define b2 where "b2 = b1\<lparr>b_buf := OPENSSL_memcpy (b_buf b1) p (replicate k 0)\<rparr>"
  define s2 where "s2 = s1\<lparr>cbb_base := Some b2\<rparr>"
  have s': "s' = cbb_attach s2 d (b_len b) k False"
    using add fl b ba by (simp add: cbb_add_length_prefixed_def Let_def b2_def s2_def)
  have ba': "cbb_buffer_add mem b (length (replicate k (0 :: byte))) = (Some p, b1)" using ba by simp
  have "length (replicate k (0 :: byte)) < SIZE_MOD" using k by simp
  from buffer_add_data_sound [OF ba' bok this] have ext: "buffer_ext mem b b2"
    and w2: "written b2 = written b @ replicate k 0" by (simp_all add: b2_def)
  have bok2: "buffer_ok b2" "\<not> b_error b2" using ext err by (simp_all add: buffer_ext_def)
  have len: "b_len b2 = b_len b + k" using buffer_len_written [OF bok bok2(1) w2] by simp
  have ok2: "cbb_ok s2" unfolding s2_def using len by (intro cbb_ok_grow [OF ok1 b err bok2(1)]) simp
  have l: "length (shape d s) = Suc d" using d by (simp add: shape_def)
  have "chain_ok 0 (b_len b) (tl (cbb_chain s2))" using ok1 b err by (simp add: cbb_ok_def s2_def)
  from attach_ok [of s2 b2 d "b_len b" k False, OF ok2 _ bok2(2) _ len k(1,2) _ this] l chain
  have "cbb_ok s'" "contents (Suc d) s' = Some (written b2)" by (simp_all add: s' s2_def)
  moreover have "room mem s n \<Longrightarrow> room mem s' n" for n
    using room [of n] b ext by (auto simp: s' cbb_attach_def room_def s2_def buffer_ext_def)
  moreover have "cbb_chain s' = shape d s @ [prefix_child_at (length (written b)) k]"
    using chain l length_written [OF bok] by (simp add: s' cbb_attach_def s2_def)
  ultimately show ?thesis using w w2 l by auto
qed

lemma add_length_prefixed_False:
  assumes ok: "cbb_ok s" and add: "cbb_add_length_prefixed mem s d k = (False, s')"
  shows "cbb_ok s' \<and> contents d s' = None \<and> (contents d s \<noteq> None \<longrightarrow> dead s')"
proof (cases "CBB_flush mem s d")
  case (Pair q s1)
  show ?thesis
  proof (cases q)
    case False
    with add Pair have "CBB_flush mem s d = (False, s')" by (simp add: cbb_add_length_prefixed_def)
    then show ?thesis using ok by (rule CBB_flush_False_contents)
  next
    case True
    then have fl: "CBB_flush mem s d = (True, s1)" using Pair by simp
    from CBB_flush_True [OF fl ok] obtain b where ok1: "cbb_ok s1" and b: "cbb_base s1 = Some b" by auto
    then have bok: "buffer_ok b" by (simp add: cbb_ok_def)
    obtain b1 where ba: "cbb_buffer_add mem b k = (None, b1)" and s': "s' = s1\<lparr>cbb_base := Some b1\<rparr>"
      using add fl b by (auto simp: cbb_add_length_prefixed_def Let_def split: prod.splits option.splits)
    from buffer_add_fail [OF ba] bok ok1 show ?thesis
      by (auto simp: s' cbb_ok_def dead_def intro: dead_contents)
  qed
qed

text \<open>Closing a length-prefixed child writes the length of its contents in \<open>k\<close> bytes.\<close>

lemma add_length_prefixed_succeeds:
  assumes ok: "cbb_ok s" and c: "contents d s = Some w" and room: "room mem s (length w + k)"
  shows "\<exists>s'. cbb_add_length_prefixed mem s d k = (True, s')"
proof -
  have "room mem s (length w)" using room by (rule room_mono) simp
  then obtain s1 where fl: "CBB_flush mem s d = (True, s1)" using CBB_flush_succeeds [OF ok c] by blast
  from CBB_flush_True [OF fl ok] c obtain b where ok1: "cbb_ok s1" and w: "w = written b"
    and room': "\<And>n. room mem s n \<Longrightarrow> room mem s1 n" and b: "cbb_base s1 = Some b" by auto
  have bok: "buffer_ok b" using ok1 b by (simp add: cbb_ok_def)
  have "fits mem b (b_len b + k)"
    using room' [OF room] b length_written [OF bok] by (simp add: room_def w)
  from buffer_add_succeeds [OF bok this] fl b show ?thesis
    by (auto simp: cbb_add_length_prefixed_def Let_def)
qed

definition close_prefixed :: "nat \<Rightarrow> byte list \<Rightarrow> byte list option" where
  "close_prefixed k data = (if length data < 256 ^ k then Some (length_prefixed k data) else None)"

lemma prefix_opener:
  assumes k: "1 \<le> k" "k \<le> 3"
  shows "child_opener mem d (\<lambda>s. cbb_add_length_prefixed mem s d k) (replicate k 0)
    (\<lambda>off. prefix_child_at off k) (close_prefixed k)"
proof
  fix s s' assume "cbb_ok s" and "cbb_add_length_prefixed mem s d k = (True, s')"
  from add_length_prefixed_True [OF this k] show "\<exists>w. contents d s = Some w \<and> cbb_ok s' \<and>
      contents (Suc d) s' = Some (w @ replicate k 0) \<and> cbb_chain s' = shape d s @ [prefix_child_at (length w) k] \<and>
      length (shape d s) = Suc d \<and> (\<forall>n. room mem s n \<longrightarrow> room mem s' n)" .
next
  fix s s' assume "cbb_ok s" and "cbb_add_length_prefixed mem s d k = (False, s')"
  from add_length_prefixed_False [OF this]
  show "cbb_ok s' \<and> contents d s' = None \<and> (contents d s \<noteq> None \<longrightarrow> dead s')" .
next
  fix s w assume "cbb_ok s" "contents d s = Some w" "room mem s (length w + length (replicate k (0 :: byte)))"
  then show "\<exists>s'. cbb_add_length_prefixed mem s d k = (True, s')"
    by (intro add_length_prefixed_succeeds) simp_all
next
  fix s w data
  assume ok: "cbb_ok s" and c: "contents (Suc d) s = Some (w @ replicate k 0 @ data)"
    and ch: "cbb_chain s ! Suc d = prefix_child_at (length w) k"
  from contents_parent [OF ok c ch] show "contents d s = map_option (\<lambda>e. w @ e) (close_prefixed k data)"
    by (simp add: kind_of_def close_prefixed_def length_prefixed_def)
next
  fix data e assume "close_prefixed k data = Some e"
  then show "length (replicate k (0 :: byte)) + length data \<le> length e"
    by (auto simp: close_prefixed_def length_prefixed_def split: if_splits)
qed

interpretation prefixed8: child_opener mem d "\<lambda>s. CBB_add_u8_length_prefixed mem s d" "replicate 1 0"
  "\<lambda>off. prefix_child_at off 1" "close_prefixed 1" for mem d
  unfolding CBB_add_u8_length_prefixed_def by (rule prefix_opener) simp_all

interpretation prefixed16: child_opener mem d "\<lambda>s. CBB_add_u16_length_prefixed mem s d" "replicate 2 0"
  "\<lambda>off. prefix_child_at off 2" "close_prefixed 2" for mem d
  unfolding CBB_add_u16_length_prefixed_def by (rule prefix_opener) simp_all

interpretation prefixed24: child_opener mem d "\<lambda>s. CBB_add_u24_length_prefixed mem s d" "replicate 3 0"
  "\<lambda>off. prefix_child_at off 3" "close_prefixed 3" for mem d
  unfolding CBB_add_u24_length_prefixed_def by (rule prefix_opener) simp_all

text \<open>A length-prefixed string, written into a child and closed.\<close>

interpretation string8: child_body mem d "\<lambda>s. CBB_add_u8_length_prefixed mem s d" "replicate 1 0"
  "\<lambda>off. prefix_child_at off 1" "close_prefixed 1" "\<lambda>s. CBB_add_bytes mem s (Suc d)" "\<lambda>data. data"
  "\<lambda>data. length data < SIZE_MOD" "\<lambda>_. True" for mem d
  by unfold_locales

interpretation string16: child_body mem d "\<lambda>s. CBB_add_u16_length_prefixed mem s d" "replicate 2 0"
  "\<lambda>off. prefix_child_at off 2" "close_prefixed 2" "\<lambda>s. CBB_add_bytes mem s (Suc d)" "\<lambda>data. data"
  "\<lambda>data. length data < SIZE_MOD" "\<lambda>_. True" for mem d
  by unfold_locales

interpretation string24: child_body mem d "\<lambda>s. CBB_add_u24_length_prefixed mem s d" "replicate 3 0"
  "\<lambda>off. prefix_child_at off 3" "close_prefixed 3" "\<lambda>s. CBB_add_bytes mem s (Suc d)" "\<lambda>data. data"
  "\<lambda>data. length data < SIZE_MOD" "\<lambda>_. True" for mem d
  by unfold_locales

section \<open>Space, zeros and discarding\<close>

lemma dead_base: "cbb_ok s \<Longrightarrow> cbb_base s = Some b \<Longrightarrow> cbb_ok (s\<lparr>cbb_base := Some (b\<lparr>b_error := True\<rparr>)\<rparr>)"
  by (simp add: cbb_ok_def)

lemma CBB_add_space_True:
  assumes ok: "cbb_ok s" and add: "CBB_add_space mem s d n = (Some p, s')" and n: "n < SIZE_MOD"
  shows "\<exists>w junk. contents d s = Some w \<and> p = length w \<and> length junk = n \<and> cbb_ok s' \<and>
    cbb_chain s' = shape d s \<and> contents d s' = Some (w @ junk)"
proof -
  obtain s1 where fl: "CBB_flush mem s d = (True, s1)"
    using add by (auto simp: CBB_add_space_def split: prod.splits bool.splits)
  from CBB_flush_True [OF fl ok] obtain b where ok1: "cbb_ok s1" and w: "contents d s = Some (written b)"
    and chain: "cbb_chain s1 = shape d s" and d: "d < length (cbb_chain s)"
    and b: "cbb_base s1 = Some b" and err: "\<not> b_error b" by auto
  have bok: "buffer_ok b" using ok1 b by (simp add: cbb_ok_def)
  obtain b1 where ba: "cbb_buffer_add mem b n = (Some p, b1)" and s': "s' = s1\<lparr>cbb_base := Some b1\<rparr>"
    using add fl b by (auto simp: CBB_add_space_def split: prod.splits)
  from buffer_add_sound [OF ba bok n] have p: "p = b_len b" and ext: "buffer_ext mem b b1"
    and len: "b_len b1 = b_len b + n" and t: "take (b_len b) (b_buf b1) = written b" by simp_all
  have bok1: "buffer_ok b1" "\<not> b_error b1" using ext err by (simp_all add: buffer_ext_def)
  have "take (b_len b) (written b1) = written b"
    using t len by (simp add: written_def [of b1] min_absorb1)
  then have "written b1 = written b @ drop (b_len b) (written b1)" by (metis append_take_drop_id)
  moreover have "contents d s' = Some (written b1)"
    using chain d bok1 by (intro contents_leaf) (simp_all add: s' shape_def)
  moreover have "cbb_ok s'" unfolding s' using len by (intro cbb_ok_grow [OF ok1 b err bok1(1)]) simp
  ultimately show ?thesis using w p chain len length_written [OF bok] length_written [OF bok1(1)]
    by (intro exI [of _ "written b"] exI [of _ "drop (b_len b) (written b1)"]) (simp add: s')
qed

lemma CBB_add_space_None:
  assumes ok: "cbb_ok s" and add: "CBB_add_space mem s d n = (None, s')"
  shows "cbb_ok s' \<and> (contents d s \<noteq> None \<longrightarrow> dead s')"
proof (cases "CBB_flush mem s d")
  case (Pair q s1)
  show ?thesis
  proof (cases q)
    case False
    with add Pair have "CBB_flush mem s d = (False, s')" by (simp add: CBB_add_space_def)
    from CBB_flush_False_contents [OF this ok] show ?thesis by simp
  next
    case True
    then have fl: "CBB_flush mem s d = (True, s1)" using Pair by simp
    from CBB_flush_True [OF fl ok] obtain b where ok1: "cbb_ok s1" and b: "cbb_base s1 = Some b" by auto
    obtain b1 where ba: "cbb_buffer_add mem b n = (None, b1)" and s': "s' = s1\<lparr>cbb_base := Some b1\<rparr>"
      using add fl b by (auto simp: CBB_add_space_def split: prod.splits)
    from buffer_add_fail [OF ba] dead_base [OF ok1 b] show ?thesis by (simp add: s' dead_def)
  qed
qed

text \<open>The caller of \<open>CBB_add_space\<close> and \<open>CBB_reserve\<close> fills the block itself; writing inside the buffer
  keeps the invariant.\<close>

definition cbb_store :: "CBB \<Rightarrow> nat \<Rightarrow> byte list \<Rightarrow> CBB" where
  "cbb_store s p data = s\<lparr>cbb_base := map_option (\<lambda>base. base\<lparr>b_buf :=
     OPENSSL_memcpy (b_buf base) p data\<rparr>) (cbb_base s)\<rparr>"

lemma cbb_store_ok:
  assumes "cbb_ok s" and "\<And>b. cbb_base s = Some b \<Longrightarrow> p + length data \<le> b_cap b"
  shows "cbb_ok (cbb_store s p data)"
  using assms by (auto simp: cbb_ok_def cbb_store_def buffer_ok_def)

lemma CBB_add_zeros_True:
  assumes ok: "cbb_ok s" and add: "CBB_add_zeros mem s d n = (True, s')" and n: "n < SIZE_MOD"
  shows "\<exists>w. contents d s = Some w \<and> cbb_ok s' \<and> cbb_chain s' = shape d s \<and>
    contents d s' = Some (w @ replicate n 0)"
proof -
  obtain p s1 where a: "CBB_add_space mem s d n = (Some p, s1)" and s': "s' = cbb_store s1 p (replicate n 0)"
    using add by (auto simp: CBB_add_zeros_def cbb_store_def split: prod.splits option.splits)
  from CBB_add_space_True [OF ok a n] obtain w junk where w: "contents d s = Some w" "p = length w"
    "length junk = n" "cbb_ok s1" "cbb_chain s1 = shape d s" "contents d s1 = Some (w @ junk)" by auto
  have "contents d s \<noteq> None" using w(1) by simp
  then have "length (cbb_chain s1) = Suc d" using w(5) contents_detached [of s d] by (force simp: shape_def)
  with leaf_base [OF w(4,6)] obtain b where b: "cbb_base s1 = Some b" "\<not> b_error b" "buffer_ok b"
    "written b = w @ junk" "b_len b = length (w @ junk)" by auto
  have fit: "p + length (replicate n (0 :: byte)) \<le> b_cap b" using b w(2,3) by (simp add: buffer_ok_def)
  then have "cbb_ok s'" unfolding s' using b(1) w(4) by (intro cbb_store_ok) simp_all
  moreover have "take p (b_buf b) = w"
  proof -
    have "take p (written b) = w" using b(4) w(2) by simp
    then show ?thesis using b(5) w(2) by (simp add: written_def min_absorb1)
  qed
  then have "written (b\<lparr>b_buf := OPENSSL_memcpy (b_buf b) p (replicate n 0)\<rparr>) = w @ replicate n 0"
    using b w(2,3) by (intro written_memcpy_end) simp_all
  then have "contents d s' = Some (w @ replicate n 0)"
    using b \<open>length (cbb_chain s1) = Suc d\<close> contents_leaf [of s' _ d] by (simp add: s' cbb_store_def)
  ultimately show ?thesis using w by (simp add: s' cbb_store_def)
qed

lemma CBB_add_zeros_False:
  assumes ok: "cbb_ok s" and add: "CBB_add_zeros mem s d n = (False, s')"
  shows "cbb_ok s' \<and> (contents d s \<noteq> None \<longrightarrow> dead s')"
  using add CBB_add_space_None [OF ok, of mem d n s']
  by (auto simp: CBB_add_zeros_def split: prod.splits option.splits)

lemma CBB_reserve_ok:
  assumes ok: "cbb_ok s" and add: "CBB_reserve mem s d n = (r, s')" and n: "n < SIZE_MOD"
  shows "cbb_ok s' \<and> (r \<noteq> None \<longrightarrow> contents d s' = contents d s \<and> cbb_chain s' = shape d s) \<and>
    (r = None \<longrightarrow> contents d s \<noteq> None \<longrightarrow> dead s')"
proof (cases "CBB_flush mem s d")
  case (Pair q s1)
  show ?thesis
  proof (cases q)
    case False
    with add Pair have "CBB_flush mem s d = (False, s')" "r = None" by (simp_all add: CBB_reserve_def)
    from CBB_flush_False_contents [OF this(1) ok] this(2) show ?thesis by simp
  next
    case True
    then have fl: "CBB_flush mem s d = (True, s1)" using Pair by simp
    from CBB_flush_True [OF fl ok] obtain b where ok1: "cbb_ok s1" and w: "contents d s = Some (written b)"
      and chain: "cbb_chain s1 = shape d s" and d: "d < length (cbb_chain s)"
      and b: "cbb_base s1 = Some b" and err: "\<not> b_error b" by auto
    have bok: "buffer_ok b" using ok1 b by (simp add: cbb_ok_def)
    obtain b1 where ba: "cbb_buffer_reserve mem b n = (r, b1)" and s': "s' = s1\<lparr>cbb_base := Some b1\<rparr>"
      using add fl b by (auto simp: CBB_reserve_def split: prod.splits)
    show ?thesis
    proof (cases r)
      case None
      with reserve_fail [of mem b n b1] ba dead_base [OF ok1 b] show ?thesis by (simp add: s' dead_def)
    next
      case (Some p)
      from reserve_sound [OF ba [unfolded Some] bok n] have ext: "buffer_ext mem b b1" "b_len b1 = b_len b"
        "written b1 = written b" by simp_all
      then have bok1: "buffer_ok b1" "\<not> b_error b1" using err by (simp_all add: buffer_ext_def)
      have "cbb_ok s'" unfolding s' using ext by (intro cbb_ok_grow [OF ok1 b err bok1(1)]) simp
      moreover have "contents d s' = Some (written b1)"
        using chain d bok1 by (intro contents_leaf) (simp_all add: s' shape_def)
      ultimately show ?thesis using Some w ext chain by (simp add: s')
    qed
  qed
qed

lemma CBB_did_write_ok:
  assumes ok: "cbb_ok s" and dw: "CBB_did_write s d n = (r, s')" and n: "n < SIZE_MOD"
  shows "cbb_ok s'"
proof (cases r)
  case False
  with dw have "s' = s" by (auto simp: CBB_did_write_def Let_def split: option.splits if_splits)
  with ok show ?thesis by simp
next
  case True
  with dw obtain b where b: "cbb_base s = Some b" "(b_len b + n) mod SIZE_MOD \<ge> b_len b"
    "(b_len b + n) mod SIZE_MOD \<le> b_cap b" and s': "s' = s\<lparr>cbb_base := Some (b\<lparr>b_len := (b_len b + n) mod SIZE_MOD\<rparr>)\<rparr>"
    by (auto simp: CBB_did_write_def Let_def not_less split: option.splits if_splits)
  with ok show ?thesis by (auto simp: cbb_ok_def buffer_ok_def intro: chain_ok_mono)
qed

text \<open>Discarding a child goes back to what the buffer held when the child was opened.\<close>

lemma CBB_discard_child_ok:
  assumes ok: "cbb_ok s" and alive: "\<not> dead s"
  shows "cbb_ok (CBB_discard_child s d)"
proof (cases "Suc d \<ge> length (cbb_chain s)")
  case True
  with ok show ?thesis by (simp add: CBB_discard_child_def)
next
  case False
  then have l: "Suc d < length (cbb_chain s)" by simp
  let ?off = "c_offset (cbb_chain s ! Suc d)"
  have dr: "drop d (tl (cbb_chain s)) = cbb_chain s ! Suc d # drop (Suc (Suc d)) (cbb_chain s)"
    using Cons_nth_drop_Suc [OF l] by (simp add: drop_Suc_tl [symmetric])
  have "chain_ok 0 ?off (take d (tl (cbb_chain s)))" if "chain_ok 0 n (tl (cbb_chain s))" for n
    using that by (rule chain_ok_take) (simp add: dr first_offset_def)
  moreover have "?off \<le> n" if c: "chain_ok 0 n (tl (cbb_chain s))" for n
  proof -
    from chain_ok_drop [OF c, of d] obtain lo where "chain_ok lo n (drop d (tl (cbb_chain s)))" by blast
    from chain_ok_le [OF this] dr show ?thesis by (simp add: first_offset_def)
  qed
  moreover obtain b where "cbb_base s = Some b" "\<not> b_error b" using alive by (auto simp: dead_def split: option.splits)
  ultimately show ?thesis using ok l top_ok_take [of "cbb_chain s" d "[]"] le_trans
    by (fastforce simp: cbb_ok_def CBB_discard_child_def buffer_ok_def tl_take_Suc)
qed

lemma contents_child_prefix:
  assumes ok: "cbb_ok s" and c: "contents (Suc d) s = Some v"
  shows "\<exists>b. cbb_base s = Some b \<and> \<not> b_error b \<and> Suc d < length (cbb_chain s) \<and>
    take (c_offset (cbb_chain s ! Suc d)) v = take (c_offset (cbb_chain s ! Suc d)) (written b) \<and>
    c_offset (cbb_chain s ! Suc d) \<le> b_len b"
proof -
  obtain b where b: "cbb_base s = Some b" "\<not> b_error b" and d: "Suc d < length (cbb_chain s)"
    using c by (auto simp: contents_def split: option.splits if_splits)
  let ?c = "cbb_chain s ! Suc d" and ?cs = "drop (Suc (Suc d)) (cbb_chain s)"
  obtain r where v: "v = take (first_offset (b_len b) ?cs) (written b) @ r"
    using c b d by (auto simp: contents_def split: option.splits)
  have "drop (Suc d) (cbb_chain s) = ?c # ?cs" using Cons_nth_drop_Suc [OF d] by simp
  then obtain lo where "chain_ok lo (b_len b) (?c # ?cs)" using cbb_ok_descendants [OF ok b, of d] by auto
  then have "chain_ok (contents_start ?c) (b_len b) ?cs" by simp
  from chain_ok_le [OF this] have le: "contents_start ?c \<le> first_offset (b_len b) ?cs"
    "first_offset (b_len b) ?cs \<le> b_len b" by simp_all
  moreover have "length (written b) = b_len b" using ok b by (simp add: cbb_ok_def length_written)
  ultimately show ?thesis using b d by (simp add: v min_absorb1)
qed

lemma CBB_discard_child_contents:
  assumes ok: "cbb_ok s" and c: "contents (Suc d) s = Some v"
  shows "contents d (CBB_discard_child s d) = Some (take (c_offset (cbb_chain s ! Suc d)) v)"
proof -
  let ?off = "c_offset (cbb_chain s ! Suc d)"
  from contents_child_prefix [OF ok c] obtain b where b: "cbb_base s = Some b" "\<not> b_error b"
    "Suc d < length (cbb_chain s)" "take ?off v = take ?off (written b)" "?off \<le> b_len b" by auto
  have "contents d (CBB_discard_child s d) = Some (written (b\<lparr>b_len := ?off\<rparr>))"
    using b by (intro contents_leaf) (simp_all add: CBB_discard_child_def)
  then show ?thesis using b(4,5) by (simp add: written_def min_absorb1)
qed

section \<open>Creating and finishing\<close>

lemma CBB_zero_ok: "cbb_ok CBB_zero"
  by (simp add: cbb_ok_def CBB_zero_def top_ok_def)

lemma CBB_zero_dead: "dead CBB_zero"
  by (simp add: dead_def CBB_zero_def)

lemma cbb_init_ok:
  assumes "cbb_init mem CBB_zero buf cap = (True, s)" and "length buf = cap" and "cap < SIZE_MOD"
  shows "cbb_ok s \<and> contents 0 s = Some [] \<and> cbb_base s = Some \<lparr>b_buf = buf, b_len = 0, b_cap = cap,
     b_can_resize = True, b_error = False\<rparr> \<and> length (cbb_chain s) = 1"
  using assms by (auto simp: cbb_init_def CBB_zero_def cbb_ok_def top_ok_def buffer_ok_def contents_def
      first_offset_def written_def split: option.splits)

lemma CBB_init_True:
  assumes "CBB_init mem cap = (True, s)" and cap: "cap < SIZE_MOD"
  shows "cbb_ok s \<and> contents 0 s = Some [] \<and> length (cbb_chain s) = 1 \<and>
    (\<exists>b. cbb_base s = Some b \<and> b_can_resize b \<and> b_cap b = cap)"
proof (cases "OPENSSL_malloc mem cap")
  case None
  with assms have "cbb_init mem CBB_zero [] cap = (True, s)" "cap = 0"
    by (auto simp: CBB_init_def Let_def split: if_splits prod.splits bool.splits)
  with cbb_init_ok [of mem "[]" cap s] show ?thesis by simp
next
  case (Some buf)
  with assms have "cbb_init mem CBB_zero buf cap = (True, s)"
    by (auto simp: CBB_init_def Let_def split: prod.splits bool.splits)
  from cbb_init_ok [OF this length_OPENSSL_malloc [OF Some cap] cap] show ?thesis by simp
qed

lemma CBB_init_room:
  assumes "\<And>k. grants mem k" and "CBB_init mem cap = (True, s)" and "cap \<le> 2 ^ 62" and "n \<le> 2 ^ 61"
  shows "room mem s n"
proof -
  from CBB_init_True [OF assms(2)] assms(3) obtain b where "cbb_base s = Some b" "b_can_resize b" "b_cap b = cap"
    by auto
  with assms show ?thesis by (auto simp: room_def fits_def)
qed

lemma CBB_init_succeeds:
  assumes "\<And>k. grants mem k" and "cap \<le> 2 ^ 62"
  shows "\<exists>s. CBB_init mem cap = (True, s)"
proof -
  obtain buf where "OPENSSL_malloc mem cap = Some buf" using OPENSSL_malloc_granted [of mem cap] assms by auto
  moreover obtain p where "OPENSSL_malloc mem sizeof_cbb_buffer = Some p"
    using OPENSSL_malloc_granted [of mem sizeof_cbb_buffer] assms by (auto simp: sizeof_cbb_buffer_def)
  ultimately show ?thesis by (simp add: CBB_init_def cbb_init_def)
qed

lemma CBB_init_False_ok: "CBB_init mem cap = (False, s) \<Longrightarrow> cbb_ok s \<and> dead s"
  by (auto simp: CBB_init_def cbb_init_def Let_def CBB_zero_ok CBB_zero_dead
      split: option.splits if_splits prod.splits bool.splits)

lemma CBB_init_fixed_True:
  assumes "CBB_init_fixed mem buf = (True, s)" and "length buf < SIZE_MOD"
  shows "cbb_ok s \<and> contents 0 s = Some [] \<and> length (cbb_chain s) = 1 \<and>
    (\<exists>b. cbb_base s = Some b \<and> \<not> b_can_resize b \<and> b_cap b = length buf)"
proof -
  obtain s1 where i: "cbb_init mem CBB_zero buf (length buf) = (True, s1)"
    and s: "s = s1\<lparr>cbb_base := map_option (\<lambda>b. b\<lparr>b_can_resize := False\<rparr>) (cbb_base s1)\<rparr>"
    using assms(1) by (auto simp: CBB_init_fixed_def split: prod.splits bool.splits)
  from cbb_init_ok [OF i refl assms(2)] show ?thesis
    by (auto simp: s cbb_ok_def buffer_ok_def contents_def first_offset_def written_def split: option.splits)
qed

lemma top_not_child: "cbb_ok s \<Longrightarrow> \<not> c_is_child (cbb_chain s ! 0)"
  by (auto simp: cbb_ok_def top_ok_def hd_conv_nth)

lemma CBB_finish_Some:
  assumes ok: "cbb_ok s" and fin: "CBB_finish mem s 0 outs = (Some out, s')"
  shows "contents 0 s = Some out \<and> dead s' \<and> cbb_ok s'"
proof -
  obtain s1 where fl: "CBB_flush mem s 0 = (True, s1)"
    using fin by (auto simp: CBB_finish_def split: prod.splits bool.splits if_splits)
  from CBB_flush_True [OF fl ok] obtain b where s1: "cbb_ok s1" "contents 0 s = Some (written b)" "cbb_base s1 = Some b"
    by auto
  then have "out = written b" "s' = CBB_cleanup s1 0"
    using fin fl by (auto simp: CBB_finish_def written_def split: if_splits)
  with s1 show ?thesis using top_not_child [OF s1(1)] by (simp add: CBB_cleanup_def dead_def cbb_ok_def)
qed

lemma CBB_finish_succeeds:
  assumes ok: "cbb_ok s" and c: "contents 0 s = Some w" and room: "room mem s (length w)"
  shows "\<exists>s'. CBB_finish mem s 0 True = (Some w, s')"
proof -
  from CBB_flush_succeeds [OF ok c room] obtain s1 where fl: "CBB_flush mem s 0 = (True, s1)" by blast
  from CBB_flush_True [OF fl ok] c obtain b where "cbb_base s1 = Some b" "w = written b" by auto
  with fl top_not_child [OF ok] show ?thesis by (auto simp: CBB_finish_def written_def)
qed

end
