(* ===== verification/Unicode.thy ===== *)
theory Unicode
  imports CBB_State
begin

text \<open>
  The character encodings of \<^verbatim>\<open>crypto/bytestring/unicode.c\<close>: UTF-8, Latin-1, UCS-2 and UTF-32, read
  from a cursor and written to a builder.
\<close>

section \<open>Operations\<close>

definition is_valid_code_point :: "u32 \<Rightarrow> bool" where
  "is_valid_code_point v =
     (\<not> (v > 0x10ffff \<or> v AND 0xfffe = 0xfffe \<or> (v \<ge> 0xfdd0 \<and> v \<le> 0xfdef) \<or> (v \<ge> 0xd800 \<and> v \<le> 0xdfff)))"

definition BOTTOM_BITS :: "nat \<Rightarrow> byte" where
  "BOTTOM_BITS n = push_bit n 1 - 1"

definition TOP_BITS :: "nat \<Rightarrow> byte" where
  "TOP_BITS n = NOT (BOTTOM_BITS (8 - n))"

fun utf8_loop :: "nat \<Rightarrow> u32 \<Rightarrow> CBS \<Rightarrow> u32 cbs_result" where
  "utf8_loop 0 v cbs = (Some v, cbs)"
| "utf8_loop (Suc n) v cbs = (case CBS_get_u8 cbs of
      (None, cbs') \<Rightarrow> (None, cbs')
    | (Some c, cbs') \<Rightarrow>
        if c AND TOP_BITS 2 \<noteq> TOP_BITS 1 then (None, cbs')
        else utf8_loop n (push_bit 6 v OR ucast (c AND BOTTOM_BITS 6)) cbs')"

definition cbs_get_utf8 :: "CBS \<Rightarrow> u32 cbs_result" where
  "cbs_get_utf8 cbs = (case CBS_get_u8 cbs of
      (None, cbs') \<Rightarrow> (None, cbs')
    | (Some c, cbs') \<Rightarrow>
        if c \<le> 0x7f then (Some (ucast c), cbs')
        else let more = (\<lambda>v len lower_bound. case utf8_loop len v cbs' of
                 (None, cbs'') \<Rightarrow> (None, cbs'')
               | (Some v, cbs'') \<Rightarrow>
                   if \<not> is_valid_code_point v \<or> v < lower_bound then (None, cbs'') else (Some v, cbs''))
        in if c AND TOP_BITS 3 = TOP_BITS 2 then more (ucast (c AND BOTTOM_BITS 5)) 1 0x80
           else if c AND TOP_BITS 4 = TOP_BITS 3 then more (ucast (c AND BOTTOM_BITS 4)) 2 0x800
           else if c AND TOP_BITS 5 = TOP_BITS 4 then more (ucast (c AND BOTTOM_BITS 3)) 3 0x10000
           else (None, cbs'))"

definition cbs_get_latin1 :: "CBS \<Rightarrow> u32 cbs_result" where
  "cbs_get_latin1 cbs = (case CBS_get_u8 cbs of
      (None, cbs') \<Rightarrow> (None, cbs')
    | (Some c, cbs') \<Rightarrow> (Some (ucast c), cbs'))"

definition cbs_get_ucs2_be :: "CBS \<Rightarrow> u32 cbs_result" where
  "cbs_get_ucs2_be cbs = (case CBS_get_u16 cbs of
      (None, cbs') \<Rightarrow> (None, cbs')
    | (Some c, cbs') \<Rightarrow> if \<not> is_valid_code_point (ucast c) then (None, cbs') else (Some (ucast c), cbs'))"

definition cbs_get_utf32_be :: "CBS \<Rightarrow> u32 cbs_result" where
  "cbs_get_utf32_be cbs = (case CBS_get_u32 cbs of
      (None, cbs') \<Rightarrow> (None, cbs')
    | (Some v, cbs') \<Rightarrow> if is_valid_code_point v then (Some v, cbs') else (None, cbs'))"

definition cbb_get_utf8_len :: "u32 \<Rightarrow> nat" where
  "cbb_get_utf8_len u = (if u \<le> 0x7f then 1 else if u \<le> 0x7ff then 2 else if u \<le> 0xffff then 3 else 4)"

text \<open>Each \<open>CBB_add_u8\<close> of a chain of \<open>&&\<close> runs only if the ones before it succeeded.\<close>

definition cbb_add_utf8 :: "allocator \<Rightarrow> CBB \<Rightarrow> nat \<Rightarrow> u32 \<Rightarrow> bool \<times> CBB" where
  "cbb_add_utf8 mem cbb d u =
     (if \<not> is_valid_code_point u then (False, cbb)
      else if u \<le> 0x7f then CBB_add_u8 mem cbb d (ucast u)
      else if u \<le> 0x7ff then
        (case CBB_add_u8 mem cbb d (TOP_BITS 2 OR ucast (drop_bit 6 u)) of
           (False, cbb) \<Rightarrow> (False, cbb)
         | (True, cbb) \<Rightarrow> CBB_add_u8 mem cbb d (TOP_BITS 1 OR (ucast u AND BOTTOM_BITS 6)))
      else if u \<le> 0xffff then
        (case CBB_add_u8 mem cbb d (TOP_BITS 3 OR ucast (drop_bit 12 u)) of
           (False, cbb) \<Rightarrow> (False, cbb)
         | (True, cbb) \<Rightarrow> (case CBB_add_u8 mem cbb d (TOP_BITS 1 OR (ucast (drop_bit 6 u) AND BOTTOM_BITS 6)) of
             (False, cbb) \<Rightarrow> (False, cbb)
           | (True, cbb) \<Rightarrow> CBB_add_u8 mem cbb d (TOP_BITS 1 OR (ucast u AND BOTTOM_BITS 6))))
      else if u \<le> 0x10ffff then
        (case CBB_add_u8 mem cbb d (TOP_BITS 4 OR ucast (drop_bit 18 u)) of
           (False, cbb) \<Rightarrow> (False, cbb)
         | (True, cbb) \<Rightarrow> (case CBB_add_u8 mem cbb d (TOP_BITS 1 OR (ucast (drop_bit 12 u) AND BOTTOM_BITS 6)) of
             (False, cbb) \<Rightarrow> (False, cbb)
           | (True, cbb) \<Rightarrow> (case CBB_add_u8 mem cbb d (TOP_BITS 1 OR (ucast (drop_bit 6 u) AND BOTTOM_BITS 6)) of
               (False, cbb) \<Rightarrow> (False, cbb)
             | (True, cbb) \<Rightarrow> CBB_add_u8 mem cbb d (TOP_BITS 1 OR (ucast u AND BOTTOM_BITS 6)))))
      else (False, cbb))"

definition cbb_add_latin1 :: "allocator \<Rightarrow> CBB \<Rightarrow> nat \<Rightarrow> u32 \<Rightarrow> bool \<times> CBB" where
  "cbb_add_latin1 mem cbb d u = (if u \<le> 0xff then CBB_add_u8 mem cbb d (ucast u) else (False, cbb))"

definition cbb_add_ucs2_be :: "allocator \<Rightarrow> CBB \<Rightarrow> nat \<Rightarrow> u32 \<Rightarrow> bool \<times> CBB" where
  "cbb_add_ucs2_be mem cbb d u =
     (if u \<le> 0xffff \<and> is_valid_code_point u then CBB_add_u16 mem cbb d (ucast u) else (False, cbb))"

definition cbb_add_utf32_be :: "allocator \<Rightarrow> CBB \<Rightarrow> nat \<Rightarrow> u32 \<Rightarrow> bool \<times> CBB" where
  "cbb_add_utf32_be mem cbb d u = (if is_valid_code_point u then CBB_add_u32 mem cbb d u else (False, cbb))"

section \<open>Specification\<close>

text \<open>The code units of a scalar value.\<close>

definition utf8_bytes :: "nat \<Rightarrow> byte list" where
  "utf8_bytes n =
     (if n < 0x80 then [of_nat n]
      else if n < 0x800 then [of_nat (192 + n div 64), of_nat (128 + n mod 64)]
      else if n < 0x10000 then
        [of_nat (224 + n div 4096), of_nat (128 + n div 64 mod 64), of_nat (128 + n mod 64)]
      else [of_nat (240 + n div 262144), of_nat (128 + n div 4096 mod 64), of_nat (128 + n div 64 mod 64),
        of_nat (128 + n mod 64)])"

section \<open>Masks\<close>

lemma BOTTOM_BITS_mask: "BOTTOM_BITS n = mask n"
  by (simp add: BOTTOM_BITS_def mask_eq_exp_minus_1 push_bit_eq_mult)

lemma unat_bottom: "unat (c AND BOTTOM_BITS n) = unat c mod 2 ^ n"
  unfolding BOTTOM_BITS_mask take_bit_eq_mask [symmetric]
  by (subst unsigned_take_bit_eq) (simp add: take_bit_eq_mod)

lemma high_bits_push: "push_bit n (drop_bit n (a :: byte)) = a AND NOT (mask n)"
  by (rule bit_word_eqI) (auto simp: bit_simps)

lemma drop_high_bits: "drop_bit n (a AND NOT (mask n) :: byte) = drop_bit n a"
  by (rule bit_word_eqI) (auto simp: bit_simps dest: bit_imp_le_length)

lemma high_bits_eq:
  assumes "b AND NOT (mask n) = (b :: byte)"
  shows "a AND NOT (mask n) = b \<longleftrightarrow> unat a div 2 ^ n = unat b div 2 ^ n"
proof -
  have "a AND NOT (mask n) = b \<longleftrightarrow> drop_bit n a = drop_bit n b"
    using assms by (metis drop_high_bits high_bits_push)
  also have "\<dots> \<longleftrightarrow> unat a div 2 ^ n = unat b div 2 ^ n" by (simp add: word_unat_eq_iff unat_drop)
  finally show ?thesis .
qed

lemma TOP_BITS_simps: "TOP_BITS 1 = 0x80" "TOP_BITS 2 = 0xc0" "TOP_BITS 3 = 0xe0" "TOP_BITS 4 = 0xf0"
  by (simp_all add: TOP_BITS_def BOTTOM_BITS_def push_bit_eq_mult)

lemma div_eq_range: "0 < (k :: nat) \<Longrightarrow> n div k = q \<longleftrightarrow> q * k \<le> n \<and> n < q * k + k"
  by (metis add.commute div_nat_eqI div_mult_self_is_m dividend_less_div_times times_div_less_eq_dividend mult.commute mult_Suc)

lemma lead_byte:
  "c AND TOP_BITS 2 = TOP_BITS 1 \<longleftrightarrow> 128 \<le> unat c \<and> unat c < 192"
  "c AND TOP_BITS 3 = TOP_BITS 2 \<longleftrightarrow> 192 \<le> unat c \<and> unat c < 224"
  "c AND TOP_BITS 4 = TOP_BITS 3 \<longleftrightarrow> 224 \<le> unat c \<and> unat c < 240"
  "c AND TOP_BITS 5 = TOP_BITS 4 \<longleftrightarrow> 240 \<le> unat c \<and> unat c < 248"
proof -
  have t: "TOP_BITS k = NOT (mask (8 - k))" for k by (simp add: TOP_BITS_def BOTTOM_BITS_mask)
  have h: "TOP_BITS j AND NOT (mask (8 - k)) = TOP_BITS j" if "k = j + 1" for j k
    unfolding t using that by (intro bit_word_eqI) (auto simp: bit_simps)
  have "c AND TOP_BITS k = TOP_BITS j \<longleftrightarrow> unat c div 2 ^ (8 - k) = unat (TOP_BITS j) div 2 ^ (8 - k)"
    if "k = j + 1" for j k
    using high_bits_eq [OF h [OF that], of c] by (simp only: t)
  from this [of 2 1] this [of 3 2] this [of 4 3] this [of 5 4] show
    "c AND TOP_BITS 2 = TOP_BITS 1 \<longleftrightarrow> 128 \<le> unat c \<and> unat c < 192"
    "c AND TOP_BITS 3 = TOP_BITS 2 \<longleftrightarrow> 192 \<le> unat c \<and> unat c < 224"
    "c AND TOP_BITS 4 = TOP_BITS 3 \<longleftrightarrow> 224 \<le> unat c \<and> unat c < 240"
    "c AND TOP_BITS 5 = TOP_BITS 4 \<longleftrightarrow> 240 \<le> unat c \<and> unat c < 248"
    by (simp_all add: TOP_BITS_simps [unfolded One_nat_def] div_eq_range)
qed

text \<open>A continuation byte appends six bits.\<close>

lemma push6_or:
  fixes v :: u32 and c :: byte
  assumes "unat v < 2 ^ 26"
  shows "unat (push_bit 6 v OR ucast (c AND BOTTOM_BITS 6)) = unat v * 64 + unat c mod 64"
proof -
  let ?b = "ucast (c AND BOTTOM_BITS 6) :: u32"
  have "push_bit 6 v AND ?b = 0"
    unfolding BOTTOM_BITS_mask by (rule bit_word_eqI) (auto simp: bit_simps)
  then have "push_bit 6 v OR ?b = v * 64 + ?b" by (simp add: or_disjoint_add push_bit_eq_mult)
  moreover have "?b = of_nat (unat (c AND BOTTOM_BITS 6))" by simp
  then have "?b = of_nat (unat c mod 64)" unfolding unat_bottom by simp
  ultimately have "push_bit 6 v OR ?b = of_nat (unat v * 64 + unat c mod 64)" by simp
  moreover have "unat v * 64 + unat c mod 64 < 4294967296" using assms by simp
  ultimately show ?thesis using unat_of_nat_u32 by metis
qed

lemma utf8_loop_Cons:
  "utf8_loop (Suc n) v (c # cbs) = (if 128 \<le> unat c \<and> unat c < 192
    then utf8_loop n (push_bit 6 v OR ucast (c AND BOTTOM_BITS 6)) cbs else (None, cbs))"
  by (simp add: lead_byte [unfolded One_nat_def])

fun continuation :: "byte list \<Rightarrow> bool" where
  "continuation [] = True"
| "continuation (c # cs) = (128 \<le> unat c \<and> unat c < 192 \<and> continuation cs)"

fun six_bits :: "nat \<Rightarrow> byte list \<Rightarrow> nat" where
  "six_bits v [] = v"
| "six_bits v (c # cs) = six_bits (v * 64 + unat c mod 64) cs"

lemma utf8_loop_iff:
  "(unat v + 1) * 64 ^ n \<le> 2147483648 \<Longrightarrow> utf8_loop n v cbs = (Some u, rest) \<longleftrightarrow>
    (\<exists>cs. length cs = n \<and> continuation cs \<and> cbs = cs @ rest \<and> u = of_nat (six_bits (unat v) cs))"
proof (induction n arbitrary: v cbs)
  case 0
  then show ?case by auto
next
  case (Suc n)
  show ?case
  proof (cases cbs)
    case Nil
    then show ?thesis by auto
  next
    case (Cons c cbs')
    let ?v = "push_bit 6 v OR ucast (c AND BOTTOM_BITS 6)"
    have "(unat v + 1) * 64 \<le> (unat v + 1) * 64 ^ Suc n" by (intro mult_left_mono) simp_all
    then have "(unat v + 1) * 64 \<le> 2147483648" using Suc.prems by (rule le_trans)
    then have "unat v < 2 ^ 26" by simp
    note v = push6_or [OF this, of c]
    have "(unat ?v + 1) * 64 ^ n \<le> ((unat v + 1) * 64) * 64 ^ n"
      unfolding v by (intro mult_right_mono) (simp_all add: Suc_le_eq)
    also have "\<dots> \<le> 2147483648" using Suc.prems by (simp only: power_Suc mult.assoc)
    finally have IH: "utf8_loop n ?v cbs' = (Some u, rest) \<longleftrightarrow> (\<exists>cs. length cs = n \<and> continuation cs \<and>
        cbs' = cs @ rest \<and> u = of_nat (six_bits (unat v * 64 + unat c mod 64) cs))"
      using Suc.IH by (simp only: v)
    show ?thesis unfolding Cons utf8_loop_Cons
    proof (cases "128 \<le> unat c \<and> unat c < 192")
      case True
      have "(\<exists>cs. length cs = Suc n \<and> continuation cs \<and> c # cbs' = cs @ rest \<and> u = of_nat (six_bits (unat v) cs)) \<longleftrightarrow>
        (\<exists>cs. length cs = n \<and> continuation cs \<and> cbs' = cs @ rest \<and> u = of_nat (six_bits (unat v * 64 + unat c mod 64) cs))"
        (is "(\<exists>cs. ?P cs) \<longleftrightarrow> (\<exists>cs. ?Q cs)")
      proof
        assume "\<exists>cs. ?P cs"
        then obtain cs where P: "?P cs" ..
        then obtain cs' where cs: "cs = c # cs'" by (cases cs) auto
        with P have "?Q cs'" by simp
        then show "\<exists>cs. ?Q cs" ..
      next
        assume "\<exists>cs. ?Q cs"
        then obtain cs where "?Q cs" ..
        with True have "?P (c # cs)" by simp
        then show "\<exists>cs. ?P cs" ..
      qed
      with True IH show "(if 128 \<le> unat c \<and> unat c < 192 then utf8_loop n ?v cbs' else (None, cbs')) = (Some u, rest) \<longleftrightarrow>
          (\<exists>cs. ?P cs)" by simp
    next
      case False
      have "\<not> (length cs = Suc n \<and> continuation cs \<and> c # cbs' = cs @ rest)" for cs
        using False by (cases cs) auto
      with False show "(if 128 \<le> unat c \<and> unat c < 192 then utf8_loop n ?v cbs' else (None, cbs')) = (Some u, rest) \<longleftrightarrow>
          (\<exists>cs. length cs = Suc n \<and> continuation cs \<and> c # cbs' = cs @ rest \<and> u = of_nat (six_bits (unat v) cs))"
        by auto
    qed
  qed
qed

section \<open>UTF-8 as a wire format\<close>

lemma byte_of_nat_eq: "unat (c :: byte) = k \<Longrightarrow> of_nat k = c"
  by auto

lemma unat_of_nat_small: "k < 256 \<Longrightarrow> unat (of_nat k :: byte) = k"
  by simp

lemma div_div_64: "(n :: nat) div 4096 = n div 64 div 64" "n div 262144 = n div 64 div 64 div 64"
  by (simp_all add: div_mult2_eq [symmetric])

lemma six_digits: "b < 64 \<Longrightarrow> (a * 64 + b) div 64 = (a :: nat)" "b < 64 \<Longrightarrow> (a * 64 + b) mod 64 = b"
  by simp_all

lemma lead_mods: "a < 32 \<Longrightarrow> (192 + a) mod 32 = (a :: nat)" "a < 16 \<Longrightarrow> (224 + a) mod 16 = (a :: nat)"
  "a < 8 \<Longrightarrow> (240 + a) mod 8 = (a :: nat)" "b < 64 \<Longrightarrow> (128 + b) mod 64 = (b :: nat)"
  using mod_mult_self4 [of 32 6 a] mod_mult_self4 [of 16 14 a] mod_mult_self4 [of 8 30 a] mod_mult_self4 [of 64 2 b]
  by simp_all

lemma split_64: obtains a b where "n = a * 64 + b" "b < (64 :: nat)"
  by (metis div_mult_mod_eq mod_less_divisor zero_less_numeral)

lemma unat_lead: "a < 32 \<Longrightarrow> unat (of_nat (192 + a) :: byte) = 192 + a" "a < 16 \<Longrightarrow> unat (of_nat (224 + a) :: byte) = 224 + a"
  "a < 8 \<Longrightarrow> unat (of_nat (240 + a) :: byte) = 240 + a" "b < 64 \<Longrightarrow> unat (of_nat (128 + b) :: byte) = 128 + b"
  by (subst unat_of_nat_byte, simp)+

lemma decode_2:
  assumes "192 \<le> unat c" "unat c < 224" "continuation [c1]" "128 \<le> six_bits (unat c mod 32) [c1]"
  shows "six_bits (unat c mod 32) [c1] < 2048 \<and> utf8_bytes (six_bits (unat c mod 32) [c1]) = [c, c1]"
proof -
  obtain a b where a: "unat c = 192 + a" and b: "unat c1 = 128 + b" using assms le_Suc_ex by fastforce
  then have r: "a < 32" "b < 64" using assms by simp_all
  with a b have "six_bits (unat c mod 32) [c1] = a * 64 + b" by (simp add: lead_mods)
  with assms(4) a b r show ?thesis
    by (simp add: utf8_bytes_def six_digits byte_of_nat_eq del: of_nat_add of_nat_mult)
qed

lemma decode_3:
  assumes "224 \<le> unat c" "unat c < 240" "continuation [c1, c2]" "2048 \<le> six_bits (unat c mod 16) [c1, c2]"
  shows "six_bits (unat c mod 16) [c1, c2] < 65536 \<and> utf8_bytes (six_bits (unat c mod 16) [c1, c2]) = [c, c1, c2]"
proof -
  obtain a b e where a: "unat c = 224 + a" and b: "unat c1 = 128 + b" and e: "unat c2 = 128 + e"
    using assms le_Suc_ex by fastforce
  then have r: "a < 16" "b < 64" "e < 64" using assms by simp_all
  define n where "n = (a * 64 + b) * 64 + e"
  have "six_bits (unat c mod 16) [c1, c2] = n" using a b e r by (simp add: n_def lead_mods)
  moreover have "n div 64 = a * 64 + b" "n mod 64 = e" unfolding n_def by (rule six_digits [OF r(3)])+
  moreover have "n < 65536" using r by (simp add: n_def)
  ultimately show ?thesis using assms(4) a b e r
    by (simp add: utf8_bytes_def div_div_64 six_digits byte_of_nat_eq del: of_nat_add of_nat_mult)
qed

lemma decode_4:
  assumes "240 \<le> unat c" "unat c < 248" "continuation [c1, c2, c3]" "65536 \<le> six_bits (unat c mod 8) [c1, c2, c3]"
  shows "six_bits (unat c mod 8) [c1, c2, c3] < 2097152 \<and>
    utf8_bytes (six_bits (unat c mod 8) [c1, c2, c3]) = [c, c1, c2, c3]"
proof -
  obtain a b e f where a: "unat c = 240 + a" and b: "unat c1 = 128 + b" and e: "unat c2 = 128 + e" and f: "unat c3 = 128 + f"
    using assms le_Suc_ex by fastforce
  then have r: "a < 8" "b < 64" "e < 64" "f < 64" using assms by simp_all
  define m where "m = (a * 64 + b) * 64 + e"
  define n where "n = m * 64 + f"
  have six: "six_bits (unat c mod 8) [c1, c2, c3] = n" using a b e f r by (simp add: n_def m_def lead_mods)
  have "n div 64 = m" "n mod 64 = f" unfolding n_def by (rule six_digits [OF r(4)])+
  moreover have "m div 64 = a * 64 + b" "m mod 64 = e" unfolding m_def by (rule six_digits [OF r(3)])+
  moreover have "(a * 64 + b) div 64 = a" "(a * 64 + b) mod 64 = b" by (rule six_digits [OF r(2)])+
  ultimately have "utf8_bytes n = [of_nat (240 + a), of_nat (128 + b), of_nat (128 + e), of_nat (128 + f)]"
    using assms(4) by (simp only: utf8_bytes_def div_div_64 six) simp
  then have "utf8_bytes n = [c, c1, c2, c3]"
    by (simp only: byte_of_nat_eq [OF a] byte_of_nat_eq [OF b] byte_of_nat_eq [OF e] byte_of_nat_eq [OF f])
  moreover have "n < 2097152" using r by (simp add: n_def m_def)
  ultimately show ?thesis by (simp only: six simp_thms)
qed

lemma encode_2:
  assumes "128 \<le> n" "n < 2048"
  shows "\<exists>c c1. utf8_bytes n = [c, c1] \<and> 192 \<le> unat c \<and> unat c < 224 \<and> continuation [c1] \<and> six_bits (unat c mod 32) [c1] = n"
proof -
  obtain a b where n: "n = a * 64 + b" and b: "b < 64" by (rule split_64)
  then have a: "a < 32" using assms by simp
  have "utf8_bytes n = [of_nat (192 + a), of_nat (128 + b)]"
    using assms by (simp add: utf8_bytes_def six_digits b n del: of_nat_add)
  with unat_lead(1) [OF a] unat_lead(4) [OF b] lead_mods(1) [OF a] lead_mods(4) [OF b] show ?thesis
    using a b by (simp add: n del: of_nat_add)
qed

lemma encode_3:
  assumes "2048 \<le> n" "n < 65536"
  shows "\<exists>c c1 c2. utf8_bytes n = [c, c1, c2] \<and> 224 \<le> unat c \<and> unat c < 240 \<and> continuation [c1, c2] \<and>
    six_bits (unat c mod 16) [c1, c2] = n"
proof -
  obtain m e where n: "n = m * 64 + e" and e: "e < 64" by (rule split_64)
  obtain a b where m: "m = a * 64 + b" and b: "b < 64" by (rule split_64)
  have a: "a < 16" using assms(2) by (simp add: n m)
  have "n div 64 = m" "n mod 64 = e" "m div 64 = a" "m mod 64 = b"
    using six_digits [OF e, of m] six_digits [OF b, of a] by (simp_all only: n [symmetric] m [symmetric])
  then have "utf8_bytes n = [of_nat (224 + a), of_nat (128 + b), of_nat (128 + e)]"
    using assms by (simp add: utf8_bytes_def div_div_64 del: of_nat_add)
  with unat_lead(2) [OF a] unat_lead(4) [OF b] unat_lead(4) [OF e] lead_mods(2) [OF a] lead_mods(4) [OF b] lead_mods(4) [OF e]
  show ?thesis using a b e by (simp add: n m del: of_nat_add)
qed

lemma encode_4:
  assumes "65536 \<le> n" "n < 2097152"
  shows "\<exists>c c1 c2 c3. utf8_bytes n = [c, c1, c2, c3] \<and> 240 \<le> unat c \<and> unat c < 248 \<and> continuation [c1, c2, c3] \<and>
    six_bits (unat c mod 8) [c1, c2, c3] = n"
proof -
  obtain k f where n: "n = k * 64 + f" and f: "f < 64" by (rule split_64)
  obtain m e where k: "k = m * 64 + e" and e: "e < 64" by (rule split_64)
  obtain a b where m: "m = a * 64 + b" and b: "b < 64" by (rule split_64)
  have a: "a < 8" using assms(2) by (simp add: n m k)
  have "n div 64 = k" "n mod 64 = f" "k div 64 = m" "k mod 64 = e" "m div 64 = a" "m mod 64 = b"
    using six_digits [OF f, of k] six_digits [OF e, of m] six_digits [OF b, of a]
    by (simp_all only: n [symmetric] k [symmetric] m [symmetric])
  then have "utf8_bytes n = [of_nat (240 + a), of_nat (128 + b), of_nat (128 + e), of_nat (128 + f)]"
    using assms by (simp add: utf8_bytes_def div_div_64 del: of_nat_add)
  with unat_lead(3) [OF a] unat_lead(4) [OF b] unat_lead(4) [OF e] unat_lead(4) [OF f] lead_mods(3) [OF a]
    lead_mods(4) [OF b] lead_mods(4) [OF e] lead_mods(4) [OF f]
  show ?thesis using a b e f by (simp add: n m k del: of_nat_add)
qed

lemma six_bits_less: "six_bits v cs < (v + 1) * 64 ^ length cs"
proof (induction cs arbitrary: v)
  case (Cons c cs)
  have "six_bits v (c # cs) < (v * 64 + unat c mod 64 + 1) * 64 ^ length cs" using Cons by simp
  also have "\<dots> \<le> ((v + 1) * 64) * 64 ^ length cs" by (intro mult_right_mono) (simp_all add: Suc_le_eq)
  finally show ?case by (simp only: power_Suc list.size mult.assoc add_0_right add_Suc_right)
qed simp

lemma utf8_more_iff:
  assumes "unat v < 32" "n \<le> 3" "n = 3 \<longrightarrow> unat v < 8" "n = 2 \<longrightarrow> unat v < 16"
  shows "(case utf8_loop n v cbs of
      (None, cbs'') \<Rightarrow> (None, cbs'')
    | (Some u, cbs'') \<Rightarrow> if \<not> is_valid_code_point u \<or> u < lower then (None, cbs'') else (Some u, cbs'')) = (Some u, rest) \<longleftrightarrow>
    is_valid_code_point u \<and> lower \<le> u \<and>
    (\<exists>cs. length cs = n \<and> continuation cs \<and> cbs = cs @ rest \<and> u = of_nat (six_bits (unat v) cs))"
proof -
  have "n = 0 \<or> n = 1 \<or> n = 2 \<or> n = 3" using assms(2) by auto
  then have "(unat v + 1) * 64 ^ n \<le> 2147483648" using assms by auto
  from utf8_loop_iff [OF this, of cbs u rest] show ?thesis
    by (auto simp: not_less split: prod.split option.split)
qed

lemma length_one: "(\<exists>cs. length cs = Suc 0 \<and> P cs) \<longleftrightarrow> (\<exists>c. P [c])"
  and length_two: "(\<exists>cs. length cs = 2 \<and> P cs) \<longleftrightarrow> (\<exists>c d. P [c, d])"
  and length_three: "(\<exists>cs. length cs = 3 \<and> P cs) \<longleftrightarrow> (\<exists>c d e. P [c, d, e])"
  by (auto simp: length_Suc_conv numeral_2_eq_2 numeral_3_eq_3) blast+

lemma valid_code_point_less: "is_valid_code_point u \<Longrightarrow> unat u < 1114112"
  by (simp add: is_valid_code_point_def word_less_nat_alt not_less)

lemma ascii_valid: "unat u < 128 \<Longrightarrow> is_valid_code_point u"
proof -
  assume u: "unat u < 128"
  have "u AND 0xfffe \<noteq> 0xfffe"
  proof
    assume "u AND 0xfffe = 0xfffe"
    then have "unat (0xfffe :: u32) \<le> unat u" by (metis word_and_le1 word_and_le2 word_le_nat_alt)
    with u show False by simp
  qed
  with u show ?thesis by (simp add: is_valid_code_point_def word_less_nat_alt word_le_nat_alt)
qed

definition utf8_more :: "CBS \<Rightarrow> u32 \<Rightarrow> nat \<Rightarrow> u32 \<Rightarrow> u32 cbs_result" where
  "utf8_more cbs v n lower = (case utf8_loop n v cbs of
      (None, cbs'') \<Rightarrow> (None, cbs'')
    | (Some u, cbs'') \<Rightarrow> if \<not> is_valid_code_point u \<or> u < lower then (None, cbs'') else (Some u, cbs''))"

lemma cbs_get_utf8_Cons:
  "cbs_get_utf8 (c # cbs) =
    (if unat c < 128 then (Some (ucast c), cbs)
     else if 192 \<le> unat c \<and> unat c < 224 then utf8_more cbs (ucast (c AND BOTTOM_BITS 5)) 1 0x80
     else if 224 \<le> unat c \<and> unat c < 240 then utf8_more cbs (ucast (c AND BOTTOM_BITS 4)) 2 0x800
     else if 240 \<le> unat c \<and> unat c < 248 then utf8_more cbs (ucast (c AND BOTTOM_BITS 3)) 3 0x10000
     else (None, cbs))"
proof -
  have "c \<le> 0x7f \<longleftrightarrow> unat c < 128" by (simp add: word_le_nat_alt Suc_le_eq less_Suc_eq_le [symmetric])
  then show ?thesis
    unfolding cbs_get_utf8_def CBS_get_u8_Cons prod.case option.case lead_byte Let_def utf8_more_def by (rule if_cong) simp_all
qed

lemma bottom_u32: "unat (ucast (c AND BOTTOM_BITS k) :: u32) = unat c mod 2 ^ k"
  by (simp add: unat_bottom)

lemma utf8_more_eq:
  assumes "(m, n) \<in> {(5, 1), (4, 2), (3, 3)}"
  shows "utf8_more cbs (ucast (c AND BOTTOM_BITS m)) n lower = (Some u, rest) \<longleftrightarrow>
    is_valid_code_point u \<and> lower \<le> u \<and> (\<exists>cs. length cs = n \<and> continuation cs \<and> cbs = cs @ rest \<and>
      unat u = six_bits (unat c mod 2 ^ m) cs)"
proof -
  have mod: "unat c mod 2 ^ m < 2 ^ m" by simp
  have "unat (of_nat (six_bits (unat c mod 2 ^ m) cs) :: u32) = six_bits (unat c mod 2 ^ m) cs" if "length cs = n" for cs
  proof (rule unat_of_nat_u32)
    have "six_bits (unat c mod 2 ^ m) cs < (unat c mod 2 ^ m + 1) * 64 ^ n" using six_bits_less that by metis
    also have "\<dots> \<le> 2 ^ m * 64 ^ n" using mod by (intro mult_right_mono) (simp_all add: Suc_le_eq)
    also have "\<dots> \<le> 2097152" using assms by auto
    finally show "six_bits (unat c mod 2 ^ m) cs < 4294967296" by simp
  qed
  then have *: "u = of_nat (six_bits (unat c mod 2 ^ m) cs) \<longleftrightarrow> unat u = six_bits (unat c mod 2 ^ m) cs" if "length cs = n" for cs
    using that by (metis of_nat_unat ucast_id)
  have "unat (ucast (c AND BOTTOM_BITS m) :: u32) < 32" "n \<le> 3" "n = 3 \<longrightarrow> unat (ucast (c AND BOTTOM_BITS m) :: u32) < 8"
    "n = 2 \<longrightarrow> unat (ucast (c AND BOTTOM_BITS m) :: u32) < 16"
    unfolding bottom_u32 using assms mod by auto
  from utf8_more_iff [OF this] show ?thesis unfolding utf8_more_def bottom_u32 using * by blast
qed

lemma cbs_get_utf8_sound:
  assumes "cbs_get_utf8 cbs = (Some u, rest)"
  shows "is_valid_code_point u \<and> cbs = utf8_bytes (unat u) @ rest"
proof -
  obtain c cbs' where cbs: "cbs = c # cbs'" using assms by (cases cbs) (auto simp: cbs_get_utf8_def)
  note get = assms [unfolded cbs cbs_get_utf8_Cons]
  consider "unat c < 128" | "192 \<le> unat c \<and> unat c < 224" | "224 \<le> unat c \<and> unat c < 240" | "240 \<le> unat c \<and> unat c < 248"
    using get by (auto split: if_splits)
  then show ?thesis
  proof cases
    case 1
    then have "u = ucast c" "rest = cbs'" using get by simp_all
    moreover from this 1 have "unat u = unat c" by simp
    ultimately show ?thesis using 1 by (simp add: ascii_valid utf8_bytes_def cbs)
  next
    case 2
    with get have "utf8_more cbs' (ucast (c AND BOTTOM_BITS 5)) 1 0x80 = (Some u, rest)" by simp
    then have "is_valid_code_point u \<and> 0x80 \<le> u \<and> (\<exists>cs. length cs = 1 \<and> continuation cs \<and> cbs' = cs @ rest \<and>
      unat u = six_bits (unat c mod 2 ^ 5) cs)" by (subst (asm) utf8_more_eq) simp_all
    then obtain c1 where v: "is_valid_code_point u" "0x80 \<le> u" "continuation [c1]" "cbs' = [c1] @ rest"
      "unat u = six_bits (unat c mod 32) [c1]" by (auto simp: length_one)
    have "128 \<le> unat u" using v(2) by (simp add: word_le_nat_alt)
    with decode_2 [of c c1] 2 v(3,5) have "utf8_bytes (unat u) = [c, c1]" by (simp only:)
    with v(1,4) cbs show ?thesis by simp
  next
    case 3
    with get have "utf8_more cbs' (ucast (c AND BOTTOM_BITS 4)) 2 0x800 = (Some u, rest)" by simp
    then have "is_valid_code_point u \<and> 0x800 \<le> u \<and> (\<exists>cs. length cs = 2 \<and> continuation cs \<and> cbs' = cs @ rest \<and>
      unat u = six_bits (unat c mod 2 ^ 4) cs)" by (subst (asm) utf8_more_eq) simp_all
    then obtain c1 c2 where v: "is_valid_code_point u" "0x800 \<le> u" "continuation [c1, c2]" "cbs' = [c1, c2] @ rest"
      "unat u = six_bits (unat c mod 16) [c1, c2]" by (auto simp: length_two)
    have "2048 \<le> unat u" using v(2) by (simp add: word_le_nat_alt)
    with decode_3 [of c c1 c2] 3 v(3,5) have "utf8_bytes (unat u) = [c, c1, c2]" by (simp only:)
    with v(1,4) cbs show ?thesis by simp
  next
    case 4
    with get have "utf8_more cbs' (ucast (c AND BOTTOM_BITS 3)) 3 0x10000 = (Some u, rest)" by simp
    then have "is_valid_code_point u \<and> 0x10000 \<le> u \<and> (\<exists>cs. length cs = 3 \<and> continuation cs \<and> cbs' = cs @ rest \<and>
      unat u = six_bits (unat c mod 2 ^ 3) cs)" by (subst (asm) utf8_more_eq) simp_all
    then obtain c1 c2 c3 where v: "is_valid_code_point u" "0x10000 \<le> u" "continuation [c1, c2, c3]"
      "cbs' = [c1, c2, c3] @ rest" "unat u = six_bits (unat c mod 8) [c1, c2, c3]" by (auto simp: length_three)
    have "65536 \<le> unat u" using v(2) by (simp add: word_le_nat_alt)
    with decode_4 [of c c1 c2 c3] 4 v(3,5) have "utf8_bytes (unat u) = [c, c1, c2, c3]" by (simp only:)
    with v(1,4) cbs show ?thesis by simp
  qed
qed

section \<open>Readers\<close>

lemma ucast_back: "ucast (ucast (c :: byte) :: u32) = c" "ucast (ucast (w :: u16) :: u32) = w"
  by (rule bit_word_eqI, simp add: bit_simps)+

lemma ucast_small:
  "ucast (ucast (u :: u32) :: byte) = u \<longleftrightarrow> u \<le> 0xff" "ucast (ucast (u :: u32) :: u16) = u \<longleftrightarrow> u \<le> 0xffff"
proof -
  have m: "unat u mod n = unat u \<longleftrightarrow> unat u < n" if "0 < n" for n
    using that by (metis mod_less mod_less_divisor)
  show "ucast (ucast (u :: u32) :: byte) = u \<longleftrightarrow> u \<le> 0xff" "ucast (ucast (u :: u32) :: u16) = u \<longleftrightarrow> u \<le> 0xffff"
    using m [of 256] m [of 65536]
    by (auto simp: word_unat_eq_iff unsigned_ucast_eq take_bit_eq_mod word_le_nat_alt unat_mod_distrib)
qed

lemma cbs_get_utf8_complete:
  assumes v: "is_valid_code_point u"
  shows "cbs_get_utf8 (utf8_bytes (unat u) @ rest) = (Some u, rest)"
proof -
  have less: "unat u < 1114112" using v by (rule valid_code_point_less)
  have lower: "0x80 \<le> u \<longleftrightarrow> 128 \<le> unat u" "0x800 \<le> u \<longleftrightarrow> 2048 \<le> unat u" "0x10000 \<le> u \<longleftrightarrow> 65536 \<le> unat u"
    by (simp_all add: word_le_nat_alt)
  consider "unat u < 128" | "128 \<le> unat u" "unat u < 2048" | "2048 \<le> unat u" "unat u < 65536" | "65536 \<le> unat u"
    by linarith
  then show ?thesis
  proof cases
    case 1
    then have "ucast (ucast u :: byte) = u" unfolding ucast_small by (simp add: word_le_nat_alt)
    moreover from this 1 have "unat (ucast u :: byte) < 128" using unat_ucast_byte_u32 by metis
    ultimately show ?thesis using 1 by (simp add: utf8_bytes_def cbs_get_utf8_Cons)
  next
    case 2
    from encode_2 [OF 2] obtain c d where e: "utf8_bytes (unat u) = [c, d]" "192 \<le> unat c" "unat c < 224"
      "continuation [d]" "six_bits (unat c mod 32) [d] = unat u" by blast
    then have "utf8_more (d # rest) (ucast (c AND BOTTOM_BITS 5)) 1 0x80 = (Some u, rest)"
      using v 2 by (subst utf8_more_eq) (simp_all add: lower length_one)
    with e show ?thesis by (simp add: cbs_get_utf8_Cons)
  next
    case 3
    from encode_3 [OF 3] obtain c d e where e: "utf8_bytes (unat u) = [c, d, e]" "224 \<le> unat c" "unat c < 240"
      "continuation [d, e]" "six_bits (unat c mod 16) [d, e] = unat u" by blast
    then have "utf8_more (d # e # rest) (ucast (c AND BOTTOM_BITS 4)) 2 0x800 = (Some u, rest)"
      using v 3 by (subst utf8_more_eq) (simp_all add: lower length_two)
    with e show ?thesis by (simp add: cbs_get_utf8_Cons)
  next
    case 4
    from encode_4 [OF 4] less obtain c d e f where e: "utf8_bytes (unat u) = [c, d, e, f]" "240 \<le> unat c" "unat c < 248"
      "continuation [d, e, f]" "six_bits (unat c mod 8) [d, e, f] = unat u" by auto
    then have "utf8_more (d # e # f # rest) (ucast (c AND BOTTOM_BITS 3)) 3 0x10000 = (Some u, rest)"
      using v 4 by (subst utf8_more_eq) (simp_all add: lower length_three)
    with e show ?thesis by (simp add: cbs_get_utf8_Cons)
  qed
qed

interpretation utf8: wire_format "\<lambda>u. utf8_bytes (unat u)" cbs_get_utf8 is_valid_code_point
  by unfold_locales (fact cbs_get_utf8_complete, fact cbs_get_utf8_sound)

lemma get_mapped:
  assumes "wire_format enc dec (\<lambda>_. True)"
    and "\<And>c. g (f c) = c" and "\<And>u. f (g u) = u \<longleftrightarrow> small u"
    and "\<And>cbs. get cbs = (case dec cbs of (None, cbs') \<Rightarrow> (None, cbs')
      | (Some c, cbs') \<Rightarrow> if valid (f c) then (Some (f c), cbs') else (None, cbs'))"
  shows "wire_format (\<lambda>u. enc (g u)) get (\<lambda>u. small u \<and> valid u)"
proof
  fix u rest assume "small u \<and> valid u"
  with wire_format.dec_enc [OF assms(1)] assms(3) [of u] show "get (enc (g u) @ rest) = (Some u, rest)"
    by (simp add: assms(4))
next
  fix cbs u rest assume "get cbs = (Some u, rest)"
  then obtain c where "dec cbs = (Some c, rest)" "u = f c" "valid u"
    by (auto simp: assms(4) split: prod.splits option.splits if_splits)
  with wire_format.dec_sound [OF assms(1)] show "(small u \<and> valid u) \<and> cbs = enc (g u) @ rest"
    using assms(2,3) by metis
qed

interpretation latin1: wire_format "\<lambda>u. [ucast u]" cbs_get_latin1 "\<lambda>u. u \<le> 0xff \<and> True"
  by (rule get_mapped [OF u8.wire_format_axioms ucast_back(1) ucast_small(1)])
    (simp add: cbs_get_latin1_def split: prod.split option.split)

interpretation ucs2: wire_format "\<lambda>u. be_bytes 2 (unat (ucast u :: u16))" cbs_get_ucs2_be
  "\<lambda>u. u \<le> 0xffff \<and> is_valid_code_point u"
  by (rule get_mapped [OF u16.wire_format_axioms ucast_back(2) ucast_small(2)])
    (simp add: cbs_get_ucs2_be_def split: prod.split option.split)

interpretation utf32: wire_format "\<lambda>u. be_bytes 4 (unat u)" cbs_get_utf32_be "\<lambda>u. True \<and> is_valid_code_point u"
  by (rule get_mapped [OF u32.wire_format_axioms, of "\<lambda>u. u" "\<lambda>u. u"])
    (simp_all add: cbs_get_utf32_be_def split: prod.split option.split)

section \<open>Writers\<close>

lemma byte_top_or:
  assumes "unat w < 2 ^ (8 - k)"
  shows "TOP_BITS k OR w = TOP_BITS k + w"
proof -
  have "unat (take_bit (8 - k) w) = unat w" using assms
    by (subst unsigned_take_bit_eq) (simp add: take_bit_nat_eq_self)
  then have w: "take_bit (8 - k) w = w" by (simp add: word_unat_eq_iff)
  have "TOP_BITS k AND take_bit (8 - k) w = 0"
    unfolding TOP_BITS_def BOTTOM_BITS_mask by (rule bit_word_eqI) (auto simp: bit_simps)
  then show ?thesis unfolding w by (rule or_disjoint_add)
qed

lemma lead_unit:
  assumes "unat u < 2 ^ (n + (8 - k))"
  shows "TOP_BITS k OR ucast (drop_bit n (u :: u32)) = TOP_BITS k + of_nat (unat u div 2 ^ n)"
proof -
  have "unat u div 2 ^ n < 2 ^ (8 - k)" using assms by (simp add: power_add less_mult_imp_div_less mult.commute)
  moreover have "2 ^ (8 - k) \<le> (2 :: nat) ^ 8" by (rule power_increasing) simp_all
  ultimately have "unat (ucast (drop_bit n u) :: byte) = unat u div 2 ^ n" "unat u div 2 ^ n < 2 ^ (8 - k)"
    by (simp_all add: unat_ucast_byte unat_drop)
  with byte_top_or [of "ucast (drop_bit n u)" k] show ?thesis
    by (metis of_nat_unat ucast_id)
qed

lemma trail_unit:
  "TOP_BITS 1 OR (ucast (drop_bit n (u :: u32)) AND BOTTOM_BITS 6) = of_nat (128 + unat u div 2 ^ n mod 64)"
proof -
  let ?w = "ucast (drop_bit n u) AND BOTTOM_BITS 6 :: byte"
  have "unat ?w = unat u div 2 ^ n mod 256 mod 64"
    by (simp add: unat_bottom unat_ucast_byte unat_drop)
  also have "\<dots> = unat u div 2 ^ n mod 64" by (rule mod_mod_cancel) simp
  finally have u: "unat ?w = unat u div 2 ^ n mod 64" .
  then have "?w = of_nat (unat u div 2 ^ n mod 64)" by (metis of_nat_unat ucast_id)
  moreover have "unat ?w < 2 ^ (8 - 1)" unfolding u by (rule less_trans [OF mod_less_divisor]) simp_all
  note byte_top_or [OF this]
  ultimately show ?thesis by (simp only: TOP_BITS_simps of_nat_add of_nat_numeral)
qed

text \<open>The writer as a combination of single-byte sinks.\<close>

abbreviation u8_of :: "allocator \<Rightarrow> nat \<Rightarrow> (u32 \<Rightarrow> byte) \<Rightarrow> CBB \<Rightarrow> u32 \<Rightarrow> bool \<times> CBB" where
  "u8_of mem d f \<equiv> \<lambda>s u. CBB_add_u8 mem s d (f u)"

lemma u8_of_sink:
  "byte_sink cbb_ok (contents d) dead (room mem) (shape d) (u8_of mem d f) (\<lambda>u. [f u]) (\<lambda>_. True) (\<lambda>_. True)"
  by (rule byte_sink_comp [OF u8.byte_sink_axioms])

lemma cbb_add_utf8_seq:
  assumes "is_valid_code_point u"
  shows "cbb_add_utf8 mem s d u =
    (if u \<le> 0x7f then u8_of mem d ucast s u
     else if u \<le> 0x7ff then put_seq (u8_of mem d (\<lambda>u. TOP_BITS 2 OR ucast (drop_bit 6 u)))
       (u8_of mem d (\<lambda>u. TOP_BITS 1 OR (ucast (drop_bit 0 u) AND BOTTOM_BITS 6))) s u
     else if u \<le> 0xffff then put_seq (u8_of mem d (\<lambda>u. TOP_BITS 3 OR ucast (drop_bit 12 u)))
       (put_seq (u8_of mem d (\<lambda>u. TOP_BITS 1 OR (ucast (drop_bit 6 u) AND BOTTOM_BITS 6)))
         (u8_of mem d (\<lambda>u. TOP_BITS 1 OR (ucast (drop_bit 0 u) AND BOTTOM_BITS 6)))) s u
     else put_seq (u8_of mem d (\<lambda>u. TOP_BITS 4 OR ucast (drop_bit 18 u)))
       (put_seq (u8_of mem d (\<lambda>u. TOP_BITS 1 OR (ucast (drop_bit 12 u) AND BOTTOM_BITS 6)))
         (put_seq (u8_of mem d (\<lambda>u. TOP_BITS 1 OR (ucast (drop_bit 6 u) AND BOTTOM_BITS 6)))
           (u8_of mem d (\<lambda>u. TOP_BITS 1 OR (ucast (drop_bit 0 u) AND BOTTOM_BITS 6))))) s u)"
proof -
  have "u \<le> 0x10ffff" using assms by (auto simp: is_valid_code_point_def not_less)
  with assms show ?thesis
    unfolding cbb_add_utf8_def put_seq_def drop_bit_0 id_apply by (simp only: not_True_eq_False if_False if_True)
qed

lemma utf8_units_eq:
  assumes "is_valid_code_point u"
  shows "utf8_bytes (unat u) =
    (if u \<le> 0x7f then [ucast u]
     else if u \<le> 0x7ff then [TOP_BITS 2 OR ucast (drop_bit 6 u)] @ [TOP_BITS 1 OR (ucast (drop_bit 0 u) AND BOTTOM_BITS 6)]
     else if u \<le> 0xffff then [TOP_BITS 3 OR ucast (drop_bit 12 u)] @
       [TOP_BITS 1 OR (ucast (drop_bit 6 u) AND BOTTOM_BITS 6)] @ [TOP_BITS 1 OR (ucast (drop_bit 0 u) AND BOTTOM_BITS 6)]
     else [TOP_BITS 4 OR ucast (drop_bit 18 u)] @ [TOP_BITS 1 OR (ucast (drop_bit 12 u) AND BOTTOM_BITS 6)] @
       [TOP_BITS 1 OR (ucast (drop_bit 6 u) AND BOTTOM_BITS 6)] @ [TOP_BITS 1 OR (ucast (drop_bit 0 u) AND BOTTOM_BITS 6)])"
proof -
  have "unat u < 1114112" using assms by (rule valid_code_point_less)
  then have lead: "u \<le> 0x7ff \<Longrightarrow> TOP_BITS 2 OR ucast (drop_bit 6 u) = of_nat (192 + unat u div 64)"
    "u \<le> 0xffff \<Longrightarrow> TOP_BITS 3 OR ucast (drop_bit 12 u) = of_nat (224 + unat u div 4096)"
    "TOP_BITS 4 OR ucast (drop_bit 18 u) = of_nat (240 + unat u div 262144)"
    by (subst lead_unit; simp add: TOP_BITS_simps word_le_nat_alt)+
  have "u \<le> 0x7f \<longleftrightarrow> unat u < 128" "u \<le> 0x7ff \<longleftrightarrow> unat u < 2048" "u \<le> 0xffff \<longleftrightarrow> unat u < 65536"
    by (auto simp: word_le_nat_alt)
  with lead show ?thesis unfolding trail_unit by (simp add: utf8_bytes_def del: of_nat_add)
qed

interpretation utf8: byte_sink cbb_ok "contents d" dead "room mem" "shape d" "\<lambda>s u. cbb_add_utf8 mem s d u"
  "\<lambda>u. utf8_bytes (unat u)" is_valid_code_point "\<lambda>_. True" for mem d
  by (rule byte_sink_cong [OF byte_sink_if [OF u8_of_sink byte_sink_if [OF byte_sink_seq [OF u8_of_sink u8_of_sink]
        byte_sink_if [OF byte_sink_seq [OF u8_of_sink byte_sink_seq [OF u8_of_sink u8_of_sink]]
          byte_sink_seq [OF u8_of_sink byte_sink_seq [OF u8_of_sink byte_sink_seq [OF u8_of_sink u8_of_sink]]]]]]])
    (fact cbb_add_utf8_seq, simp add: utf8_units_eq)

lemma cbb_get_utf8_len_length: "is_valid_code_point u \<Longrightarrow> cbb_get_utf8_len u = length (utf8_bytes (unat u))"
  by (simp add: cbb_get_utf8_len_def utf8_units_eq)

lemma u16_of_sink: "byte_sink cbb_ok (contents d) dead (room mem) (shape d)
    (\<lambda>s u. CBB_add_u16 mem s d (ucast u)) (\<lambda>u :: u32. be_bytes 2 (unat (ucast u :: u16))) (\<lambda>_. True) (\<lambda>_. True)"
  unfolding CBB_add_u16_def by (rule byte_sink_comp [OF add_u16.sink.byte_sink_axioms])

interpretation latin1: byte_sink cbb_ok "contents d" dead "room mem" "shape d" "\<lambda>s u. cbb_add_latin1 mem s d u"
  "\<lambda>u. [ucast u]" "\<lambda>u. u \<le> 0xff" "\<lambda>_. True" for mem d
  by (rule byte_sink_cong [OF u8_of_sink]) (simp_all add: cbb_add_latin1_def)

interpretation ucs2: byte_sink cbb_ok "contents d" dead "room mem" "shape d" "\<lambda>s u. cbb_add_ucs2_be mem s d u"
  "\<lambda>u. be_bytes 2 (unat (ucast u :: u16))" "\<lambda>u. u \<le> 0xffff \<and> is_valid_code_point u" "\<lambda>_. True" for mem d
  by (rule byte_sink_cong [OF u16_of_sink]) (simp_all add: cbb_add_ucs2_be_def)

interpretation utf32: byte_sink cbb_ok "contents d" dead "room mem" "shape d" "\<lambda>s u. cbb_add_utf32_be mem s d u"
  "\<lambda>u. be_bytes 4 (unat u)" is_valid_code_point "\<lambda>_. True" for mem d
  by (rule byte_sink_cong [OF add_u32.sink.byte_sink_axioms]) (simp_all add: cbb_add_utf32_be_def CBB_add_u32_def)

lemma length_utf8_bytes: "length (utf8_bytes n) \<le> 4"
  by (simp add: utf8_bytes_def)

end
