(* ===== verification/CBB_SetOf.thy ===== *)
theory CBB_SetOf
  imports CBB_State "HOL-Library.Multiset"
begin

text \<open>
  \<open>CBB_flush_asn1_set_of\<close>: the elements of a SET OF are put into the ascending order that DER asks for.
  The comparison is the lexicographic order of the encodings, and the result is a sorted rearrangement
  of the elements the buffer held.
\<close>

section \<open>The order of elements\<close>

fun byte_le :: "byte list \<Rightarrow> byte list \<Rightarrow> bool" where
  "byte_le [] bs = True"
| "byte_le (a # as) [] = False"
| "byte_le (a # as) (b # bs) = (a < b \<or> a = b \<and> byte_le as bs)"

lemma compare_set_of_element_Cons:
  "compare_set_of_element (a # as) (b # bs) =
    (if a = b then compare_set_of_element as bs else if a < b then - 1 else 1)"
  by (auto simp: compare_set_of_element_def Let_def)

lemma compare_set_of_element_le: "compare_set_of_element a b \<le> 0 \<longleftrightarrow> byte_le a b"
proof (induction a b rule: byte_le.induct)
  case (3 a as b bs)
  then show ?case by (auto simp: compare_set_of_element_Cons)
qed (simp_all add: compare_set_of_element_def Let_def)

lemma compare_set_of_element_0: "compare_set_of_element a b = 0 \<longleftrightarrow> a = b"
proof (induction a b rule: byte_le.induct)
  case (1 bs)
  then show ?case by (cases bs) (simp_all add: compare_set_of_element_def)
next
  case (3 a as b bs)
  then show ?case by (auto simp: compare_set_of_element_Cons)
qed (simp_all add: compare_set_of_element_def Let_def)

lemma byte_le_linear: "byte_le a b \<or> byte_le b a"
  by (induction a b rule: byte_le.induct) auto

lemma byte_le_trans: "byte_le a b \<Longrightarrow> byte_le b c \<Longrightarrow> byte_le a c"
proof (induction a b arbitrary: c rule: byte_le.induct)
  case (3 a as b bs)
  then show ?case by (cases c) auto
qed simp_all

lemma byte_le_antisym: "byte_le a b \<Longrightarrow> byte_le b a \<Longrightarrow> a = b"
  by (induction a b rule: byte_le.induct) (auto elim: byte_le.elims)

lemma mset_qsort_insert [simp]: "mset (qsort_insert x ys) = add_mset x (mset ys)"
  by (induction ys) auto

lemma sorted_qsort_insert: "sorted_wrt byte_le ys \<Longrightarrow> sorted_wrt byte_le (qsort_insert x ys)"
proof (induction ys)
  case (Cons y ys)
  have set: "set (qsort_insert x ys) = insert x (set ys)"
    using mset_qsort_insert [of x ys] by (metis set_mset_add_mset_insert set_mset_mset)
  show ?case
  proof (cases "byte_le x y")
    case True
    with Cons show ?thesis by (auto simp: compare_set_of_element_le intro: byte_le_trans)
  next
    case False
    then have "byte_le y x" using byte_le_linear by blast
    with Cons False set show ?thesis by (auto simp: compare_set_of_element_le)
  qed
qed simp

lemma qsort_set_of_sorts: "sorted_wrt byte_le (qsort_set_of xs) \<and> mset (qsort_set_of xs) = mset xs"
  by (induction xs) (auto simp: qsort_set_of_def sorted_qsort_insert)

text \<open>Any sorting routine gives this result: the order is antisymmetric.\<close>

lemma sorted_byte_le_unique:
  "sorted_wrt byte_le xs \<Longrightarrow> sorted_wrt byte_le ys \<Longrightarrow> mset xs = mset ys \<Longrightarrow> xs = ys"
proof (induction xs arbitrary: ys)
  case Nil
  then show ?case by simp
next
  case (Cons x xs)
  then obtain y ys' where ys: "ys = y # ys'" by (cases ys) auto
  have sets: "set (x # xs) = set (y # ys')" using Cons.prems(3) ys by (metis set_mset_mset)
  have "byte_le x y \<and> byte_le y x"
    using sets Cons.prems(1,2) ys byte_le_linear by (metis set_ConsD list.set_intros(1) sorted_wrt.simps(2))
  then have "x = y" using byte_le_antisym by blast
  with Cons ys show ?case by simp
qed

section \<open>Splitting the contents\<close>

definition is_der_element :: "byte list \<Rightarrow> bool" where
  "is_der_element e \<longleftrightarrow> (\<exists>t contents. length contents < 4294967296 \<and> e = der_element t contents)"

lemma der_element_not_Nil [simp]: "der_element t c \<noteq> []"
  using length_der_tag(1) [of t] by (auto simp: der_element_def)

lemma is_der_element_Nil [simp]: "\<not> is_der_element []"
  by (metis is_der_element_def der_element_not_Nil)

lemma get_element_out:
  "(\<exists>e. CBS_get_any_asn1_element cbs = (Some e, rest) \<and> el_out e = x) \<longleftrightarrow> is_der_element x \<and> cbs = x @ rest"
  (is "?L \<longleftrightarrow> ?R")
proof
  assume ?L
  then show ?R unfolding CBS_get_any_asn1_element_iff is_der_element_def
    by (metis asn1_element.select_convs(1))
next
  assume ?R
  then obtain t c where c: "length c < 4294967296" "x = der_element t c" "cbs = x @ rest"
    by (auto simp: is_der_element_def)
  let ?e = "\<lparr>el_out = der_element t c, el_tag = t,
      el_header_len = length (der_tag t @ der_length (length c)), el_ber_found = False\<rparr>"
  have "CBS_get_any_asn1_element cbs = (Some ?e, rest)"
    unfolding CBS_get_any_asn1_element_iff using c by (intro exI [of _ c]) simp
  with c show ?L by (intro exI [of _ ?e]) simp
qed

lemma split_elements_iff:
  "length cbs \<le> fuel \<Longrightarrow>
    split_elements fuel cbs = Some es \<longleftrightarrow> concat es = cbs \<and> list_all is_der_element es"
proof (induction fuel arbitrary: cbs es)
  case 0
  then show ?case by (cases es) auto
next
  case (Suc fuel)
  show ?case
  proof (cases cbs)
    case Nil
    then show ?thesis by (cases es) auto
  next
    case (Cons b bs)
    show ?thesis
    proof
      assume "split_elements (Suc fuel) cbs = Some es"
      then obtain e rest es' where e: "CBS_get_any_asn1_element cbs = (Some e, rest)"
        and es': "split_elements fuel rest = Some es'" and es: "es = el_out e # es'"
        using Cons by (auto split: prod.splits option.splits)
      have x: "is_der_element (el_out e)" "cbs = el_out e @ rest" using get_element_out e by blast+
      then have "length rest \<le> fuel" using Suc.prems by (cases "el_out e") auto
      from Suc.IH [OF this, of es'] es' x es show "concat es = cbs \<and> list_all is_der_element es" by simp
    next
      assume R: "concat es = cbs \<and> list_all is_der_element es"
      then obtain x es' where es: "es = x # es'" using Cons by (cases es) auto
      with R obtain e where e: "CBS_get_any_asn1_element cbs = (Some e, concat es')" "el_out e = x"
        using get_element_out [of cbs "concat es'" x] by auto
      have "x \<noteq> []" using R es by auto
      then have "length (concat es') \<le> fuel" using Suc.prems R es by (cases x) auto
      from Suc.IH [OF this, of es'] R es e Cons show "split_elements (Suc fuel) cbs = Some es" by simp
    qed
  qed
qed

section \<open>Sorting in place\<close>

lemma chain_ok_last:
  "chain_ok lo n cs \<Longrightarrow> cs \<noteq> [] \<Longrightarrow> chain_ok lo (contents_start (last cs)) cs \<and> contents_start (last cs) \<le> n"
proof (induction cs arbitrary: lo)
  case (Cons c cs)
  then have rest: "chain_ok (contents_start c) n cs" by simp
  show ?case
  proof (cases "cs = []")
    case True
    with Cons.prems show ?thesis by simp
  next
    case False
    from Cons.IH [OF rest this] Cons.prems False show ?thesis by simp
  qed
qed simp

lemma truncate_ok:
  assumes ok: "cbb_ok s" and c: "contents d s = Some w" and l: "length (cbb_chain s) = Suc d"
    and b: "cbb_base s = Some b"
  defines "start \<equiv> contents_start (cbb_chain s ! d)"
  shows "start \<le> b_len b" and "cbb_ok (s\<lparr>cbb_base := Some (b\<lparr>b_len := start\<rparr>)\<rparr>)"
    and "contents d (s\<lparr>cbb_base := Some (b\<lparr>b_len := start\<rparr>)\<rparr>) = Some (take start w)"
proof -
  from leaf_base [OF ok c l] b have err: "\<not> b_error b" and bok: "buffer_ok b" and w: "written b = w"
    and ch: "chain_ok 0 (b_len b) (tl (cbb_chain s))" by auto
  have last: "cbb_chain s ! d = last (cbb_chain s)" using l by (metis diff_Suc_1 last_conv_nth length_0_conv nat.simps(3))
  have "start \<le> b_len b \<and> chain_ok 0 start (tl (cbb_chain s))"
  proof (cases "tl (cbb_chain s) = []")
    case True
    then have "start = 0" using ok l unfolding start_def cbb_ok_def top_ok_def
      by (cases "cbb_chain s") auto
    with True show ?thesis by simp
  next
    case False
    then have "last (tl (cbb_chain s)) = last (cbb_chain s)" by (simp add: last_tl)
    with chain_ok_last [OF ch False] last show ?thesis by (simp add: start_def)
  qed
  then show le: "start \<le> b_len b" and "cbb_ok (s\<lparr>cbb_base := Some (b\<lparr>b_len := start\<rparr>)\<rparr>)"
    using ok b by (auto simp: cbb_ok_def buffer_ok_def)
  have "contents d (s\<lparr>cbb_base := Some (b\<lparr>b_len := start\<rparr>)\<rparr>) = Some (written (b\<lparr>b_len := start\<rparr>))"
    using l err by (intro contents_leaf) simp_all
  then show "contents d (s\<lparr>cbb_base := Some (b\<lparr>b_len := start\<rparr>)\<rparr>) = Some (take start w)"
    using le w by (auto simp: written_def min_absorb1)
qed

lemma length_le_concat: "x \<in> set es \<Longrightarrow> length x \<le> length (concat es)"
  by (induction es) auto

lemma elements_small:
  assumes "length (concat es) < SIZE_MOD"
  shows "list_all (\<lambda>x. length x < SIZE_MOD) (qsort_set_of es)"
proof -
  have "set (qsort_set_of es) = set es" using qsort_set_of_sorts by (metis set_mset_mset)
  with assms show ?thesis using length_le_concat le_less_trans by (fastforce simp: list_all_iff)
qed

lemma add_all_bytes_put: "add_all_bytes mem s d xs = put_list (\<lambda>s. CBB_add_bytes mem s d) s xs"
  by (induction xs arbitrary: s) (auto split: prod.split bool.split)

text \<open>What a successful call does: the contents of the object become the sorted elements.\<close>

lemma flush_set_of_True:
  assumes ok: "cbb_ok s" and fl: "CBB_flush_asn1_set_of mem s d = (True, s')"
  defines "start \<equiv> contents_start (cbb_chain s ! d)"
  shows "\<exists>w es. contents d s = Some w \<and> concat es = drop start w \<and> list_all is_der_element es \<and>
    cbb_ok s' \<and> shape d s' = shape d s \<and> contents d s' = Some (take start w @ concat (qsort_set_of es))"
proof -
  obtain s1 where f: "CBB_flush mem s d = (True, s1)"
    using fl by (auto simp: CBB_flush_asn1_set_of_def split: prod.splits bool.splits)
  from CBB_flush_True [OF f ok] obtain b where s1: "cbb_ok s1" "contents d s = Some (written b)"
    "contents d s1 = Some (written b)" "cbb_chain s1 = shape d s" "d < length (cbb_chain s)"
    "cbb_base s1 = Some b" "\<not> b_error b" by auto
  have l: "length (cbb_chain s1) = Suc d" and chd: "cbb_chain s1 ! d = cbb_chain s ! d"
    using s1(4,5) by (simp_all add: shape_def)
  note trunc = truncate_ok [OF s1(1,3) l s1(6), unfolded chd, folded start_def]
  have bok: "buffer_ok b" using s1(1,6) by (simp add: cbb_ok_def)
  have len: "CBB_len s1 d = Some (b_len b - start)" and dat: "CBB_data s1 d = Some (drop start (b_buf b))"
    using trunc(1) s1(6) l by (simp_all add: CBB_len_def CBB_data_def chd start_def Let_def)
  have st: "c_offset (cbb_chain s1 ! d) + c_pending_len_len (cbb_chain s1 ! d) = start"
    by (simp add: chd start_def)
  let ?c = "drop start (written b)"
  have c: "take (b_len b - start) (drop start (b_buf b)) = ?c" by (simp add: written_def drop_take)
  have lc: "length ?c = b_len b - start" "length ?c < SIZE_MOD"
    using length_written [OF bok] bok by (auto simp: buffer_ok_def)
  obtain es where es: "split_elements (b_len b - start) ?c = Some es"
    using fl by (auto simp: CBB_flush_asn1_set_of_def f s1(6) len dat c Let_def split: option.splits)
  then have esc: "concat es = ?c" "list_all is_der_element es"
    using split_elements_iff [of ?c "b_len b - start" es] lc by auto
  show ?thesis
  proof (cases "length es < 2")
    case True
    then have "s' = s1" using fl es
      by (simp add: CBB_flush_asn1_set_of_def f s1(6) len dat c Let_def)
    moreover have "qsort_set_of es = es" using True
      by (cases es rule: remdups_adj.cases) (simp_all add: qsort_set_of_def)
    moreover have "take start (written b) @ concat es = written b" by (simp add: esc)
    ultimately show ?thesis using s1 esc
      by (intro exI [of _ "written b"] exI [of _ es]) (simp add: shape_shape)
  next
    case False
    define s2 where "s2 = s1\<lparr>cbb_base := Some (b\<lparr>b_len := start\<rparr>)\<rparr>"
    have "OPENSSL_memdup mem ?c = Some ?c"
      using fl es False lc OPENSSL_memdup_copy [OF lc(2), of mem]
      by (auto simp: CBB_flush_asn1_set_of_def f s1(6) len dat c Let_def split: option.splits if_splits)
    then have add: "put_list (\<lambda>s. CBB_add_bytes mem s d) s2 (qsort_set_of es) = (True, s')"
      using fl es False
      by (auto simp: CBB_flush_asn1_set_of_def f s1(6) len dat c Let_def add_all_bytes_put s2_def st
          split: option.splits if_splits)
    have small: "list_all (\<lambda>x. length x < SIZE_MOD) (qsort_set_of es)"
      using lc(2) by (intro elements_small) (simp add: esc)
    from bytes.put_list_True [OF trunc(2) [folded s2_def] small add] trunc(3) [folded s2_def]
    have "cbb_ok s'" "shape d s' = shape d s2" "contents d s' = Some (take start (written b) @ concat (qsort_set_of es))"
      by auto
    moreover have "shape d s2 = shape d s" using s1(4) by (simp add: s2_def shape_def)
    ultimately show ?thesis using s1(2) esc by (intro exI [of _ "written b"] exI [of _ es]) simp
  qed
qed

lemma flush_set_of_False:
  assumes ok: "cbb_ok s" and fl: "CBB_flush_asn1_set_of mem s d = (False, s')"
  shows "cbb_ok s'"
proof (cases "CBB_flush mem s d")
  case (Pair q s1)
  show ?thesis
  proof (cases q)
    case False
    with fl Pair have "CBB_flush mem s d = (False, s')" by (simp add: CBB_flush_asn1_set_of_def)
    from CBB_flush_False_contents [OF this ok] show ?thesis by simp
  next
    case True
    then have f: "CBB_flush mem s d = (True, s1)" using Pair by simp
    from CBB_flush_True [OF f ok] obtain b where s1: "cbb_ok s1" "contents d s1 = Some (written b)"
      "cbb_chain s1 = shape d s" "d < length (cbb_chain s)" "cbb_base s1 = Some b" by auto
    have l: "length (cbb_chain s1) = Suc d" using s1(3,4) by (simp add: shape_def)
    have bok: "buffer_ok b" using s1(1,5) by (simp add: cbb_ok_def)
    let ?start = "contents_start (cbb_chain s1 ! d)"
    let ?s2 = "s1\<lparr>cbb_base := Some (b\<lparr>b_len := ?start\<rparr>)\<rparr>"
    note trunc = truncate_ok [OF s1(1,2) l s1(5)]
    let ?n = "b_len b - ?start" and ?buf = "drop ?start (b_buf b)"
    have len: "CBB_len s1 d = Some ?n" and dat: "CBB_data s1 d = Some ?buf"
      using trunc(1) s1(5) l by (simp_all add: CBB_len_def CBB_data_def Let_def)
    have small: "length (take ?n ?buf) < SIZE_MOD" using bok by (auto simp: buffer_ok_def)
    have dup: "OPENSSL_memdup mem (take ?n ?buf) = Some x \<Longrightarrow> x = take ?n ?buf" for x
      using OPENSSL_memdup_copy [OF small, of mem] by (auto split: if_splits)
    have "s' = s1 \<or> (\<exists>es. split_elements ?n (take ?n ?buf) = Some es \<and>
        add_all_bytes mem ?s2 d (qsort_set_of es) = (False, s'))"
      using fl dup by (auto simp: CBB_flush_asn1_set_of_def f s1(5) len dat Let_def split: option.splits if_splits)
    then show ?thesis
    proof (elim disjE exE conjE)
      fix es assume es: "split_elements ?n (take ?n ?buf) = Some es"
        and add: "add_all_bytes mem ?s2 d (qsort_set_of es) = (False, s')"
      have "concat es = take ?n ?buf" using es split_elements_iff [of "take ?n ?buf" ?n] by simp
      then have "list_all (\<lambda>x. length x < SIZE_MOD) (qsort_set_of es)" using small by (intro elements_small) simp
      from bytes.put_list_False [OF trunc(2) this] add show ?thesis by (simp add: add_all_bytes_put)
    qed (use s1 in simp)
  qed
qed

end
