(* ===== verification/CBB_Machine.thy ===== *)
theory CBB_Machine
  imports CBB_SetOf
begin

text \<open>
  The calls a client can make on a builder, as a step relation. The allocator may answer differently at
  every step. Every reachable builder satisfies the invariant, and once a call has failed no later
  call brings the builder back.
\<close>

datatype cbb_call =
    Call_flush nat
  | Call_u8 nat byte
  | Call_u16 nat u16
  | Call_u16le nat u16
  | Call_u24 nat u32
  | Call_u32 nat u32
  | Call_u32le nat u32
  | Call_u64 nat u64
  | Call_u64le nat u64
  | Call_bytes nat "byte list"
  | Call_zeros nat nat
  | Call_space nat "byte list"
  | Call_reserve nat nat
  | Call_did_write nat nat
  | Call_discard_child nat
  | Call_length_prefixed8 nat
  | Call_length_prefixed16 nat
  | Call_length_prefixed24 nat
  | Call_asn1 nat u32
  | Call_asn1_uint64 nat u64
  | Call_asn1_int64 nat u64
  | Call_asn1_octet_string nat "byte list"
  | Call_asn1_bool nat int
  | Call_flush_set_of nat
  | Call_cleanup

text \<open>\<open>Call_space\<close> is \<open>CBB_add_space\<close> followed by the caller filling the block.\<close>

fun cbb_run :: "allocator \<Rightarrow> CBB \<Rightarrow> cbb_call \<Rightarrow> CBB" where
  "cbb_run mem s (Call_flush d) = snd (CBB_flush mem s d)"
| "cbb_run mem s (Call_u8 d v) = snd (CBB_add_u8 mem s d v)"
| "cbb_run mem s (Call_u16 d v) = snd (CBB_add_u16 mem s d v)"
| "cbb_run mem s (Call_u16le d v) = snd (CBB_add_u16le mem s d v)"
| "cbb_run mem s (Call_u24 d v) = snd (CBB_add_u24 mem s d v)"
| "cbb_run mem s (Call_u32 d v) = snd (CBB_add_u32 mem s d v)"
| "cbb_run mem s (Call_u32le d v) = snd (CBB_add_u32le mem s d v)"
| "cbb_run mem s (Call_u64 d v) = snd (CBB_add_u64 mem s d v)"
| "cbb_run mem s (Call_u64le d v) = snd (CBB_add_u64le mem s d v)"
| "cbb_run mem s (Call_bytes d data) = snd (CBB_add_bytes mem s d data)"
| "cbb_run mem s (Call_zeros d n) = snd (CBB_add_zeros mem s d n)"
| "cbb_run mem s (Call_space d data) = (case CBB_add_space mem s d (length data) of
      (None, s') \<Rightarrow> s' | (Some p, s') \<Rightarrow> cbb_store s' p data)"
| "cbb_run mem s (Call_reserve d n) = snd (CBB_reserve mem s d n)"
| "cbb_run mem s (Call_did_write d n) = snd (CBB_did_write s d n)"
| "cbb_run mem s (Call_discard_child d) = CBB_discard_child s d"
| "cbb_run mem s (Call_length_prefixed8 d) = snd (CBB_add_u8_length_prefixed mem s d)"
| "cbb_run mem s (Call_length_prefixed16 d) = snd (CBB_add_u16_length_prefixed mem s d)"
| "cbb_run mem s (Call_length_prefixed24 d) = snd (CBB_add_u24_length_prefixed mem s d)"
| "cbb_run mem s (Call_asn1 d tag) = snd (CBB_add_asn1 mem s d tag)"
| "cbb_run mem s (Call_asn1_uint64 d v) = snd (CBB_add_asn1_uint64 mem s d v)"
| "cbb_run mem s (Call_asn1_int64 d v) = snd (CBB_add_asn1_int64 mem s d v)"
| "cbb_run mem s (Call_asn1_octet_string d data) = snd (CBB_add_asn1_octet_string mem s d data)"
| "cbb_run mem s (Call_asn1_bool d v) = snd (CBB_add_asn1_bool mem s d v)"
| "cbb_run mem s (Call_flush_set_of d) = snd (CBB_flush_asn1_set_of mem s d)"
| "cbb_run mem s Call_cleanup = CBB_cleanup s 0"

text \<open>Sizes fit \<open>size_t\<close>; \<open>CBB_discard_child\<close> trusts the offsets of the chain, so it is called only
  while no error has occurred.\<close>

fun call_allowed :: "CBB \<Rightarrow> cbb_call \<Rightarrow> bool" where
  "call_allowed s (Call_bytes d data) = (length data < SIZE_MOD)"
| "call_allowed s (Call_zeros d n) = (n < SIZE_MOD)"
| "call_allowed s (Call_space d data) = (length data < SIZE_MOD)"
| "call_allowed s (Call_reserve d n) = (n < SIZE_MOD)"
| "call_allowed s (Call_did_write d n) = (n < SIZE_MOD)"
| "call_allowed s (Call_discard_child d) = (\<not> dead s)"
| "call_allowed s (Call_asn1_octet_string d data) = (length data < SIZE_MOD)"
| "call_allowed s call = True"

inductive cbb_step :: "CBB \<Rightarrow> CBB \<Rightarrow> bool" where
  step_call: "call_allowed s call \<Longrightarrow> cbb_step s (cbb_run mem s call)"

inductive cbb_reachable :: "CBB \<Rightarrow> bool" where
  reach_init: "CBB_init mem cap = (r, s) \<Longrightarrow> cap < SIZE_MOD \<Longrightarrow> cbb_reachable s"
| reach_fixed: "CBB_init_fixed mem buf = (r, s) \<Longrightarrow> length buf < SIZE_MOD \<Longrightarrow> cbb_reachable s"
| reach_step: "cbb_reachable s \<Longrightarrow> cbb_step s s' \<Longrightarrow> cbb_reachable s'"

inductive_cases cbb_stepE: "cbb_step s s'"

section \<open>Every call keeps the invariant\<close>

lemma byte_sink_ok:
  assumes "byte_sink cbb_ok c dead r sh put enc arg valid" and "cbb_ok s" and "arg x"
  shows "cbb_ok (snd (put s x))"
proof (cases "put s x")
  case (Pair q s')
  with assms byte_sink.put_True [OF assms(1-3)] byte_sink.put_False [OF assms(1-3)] show ?thesis
    by (cases q) simp_all
qed

lemma integer_writers_ok:
  assumes "cbb_ok s"
  shows "cbb_ok (snd (CBB_add_u8 mem s d v8))" "cbb_ok (snd (CBB_add_u16 mem s d v16))"
    "cbb_ok (snd (CBB_add_u24 mem s d v32))" "cbb_ok (snd (CBB_add_u32 mem s d v32))"
    "cbb_ok (snd (CBB_add_u64 mem s d v64))"
  unfolding CBB_add_defs
  by - (rule byte_sink_ok [OF add_u8.sink.byte_sink_axioms assms TrueI]
    byte_sink_ok [OF add_u16.sink.byte_sink_axioms assms TrueI]
    byte_sink_ok [OF add_u24.sink.byte_sink_axioms assms TrueI]
    byte_sink_ok [OF add_u32.sink.byte_sink_axioms assms TrueI]
    byte_sink_ok [OF add_u64.sink.byte_sink_axioms assms TrueI])+

lemma child_opener_ok:
  assumes "child_opener mem d op hdr ch cl" and "cbb_ok s"
  shows "cbb_ok (snd (op s))"
proof (cases "op s")
  case (Pair q s')
  with child_opener.open_True [OF assms] child_opener.open_False [OF assms] show ?thesis
    by (cases q) auto
qed

lemma element_writers_ok:
  assumes "cbb_ok s"
  shows "cbb_ok (snd (CBB_add_asn1_uint64 mem s d v))" "cbb_ok (snd (CBB_add_asn1_int64 mem s d v))"
    "cbb_ok (snd (CBB_add_asn1_bool mem s d i))"
    "length data < SIZE_MOD \<Longrightarrow> cbb_ok (snd (CBB_add_asn1_octet_string mem s d data))"
  unfolding CBB_add_asn1_uint64_eq CBB_add_asn1_int64_eq CBB_add_asn1_bool_eq CBB_add_asn1_octet_string_eq
  by - ((rule byte_sink_ok [OF uint64.element.byte_sink_axioms assms TrueI]
    byte_sink_ok [OF int64.element.byte_sink_axioms assms TrueI]
    byte_sink_ok [OF bool.element.byte_sink_axioms assms TrueI]
    byte_sink_ok [OF octet_string.element.byte_sink_axioms assms])+, assumption)

lemma add_space_fill_ok:
  assumes ok: "cbb_ok s" and n: "length data < SIZE_MOD"
  shows "cbb_ok (cbb_run mem s (Call_space d data))"
proof (cases "CBB_add_space mem s d (length data)")
  case (Pair r s')
  show ?thesis
  proof (cases r)
    case None
    with Pair CBB_add_space_None [OF ok] show ?thesis by auto
  next
    case (Some p)
    with Pair have a: "CBB_add_space mem s d (length data) = (Some p, s')" by simp
    from CBB_add_space_True [OF ok a n] obtain w junk where w: "contents d s = Some w" "p = length w"
      "length junk = length data" "cbb_ok s'" "cbb_chain s' = shape d s" "contents d s' = Some (w @ junk)" by auto
    have "length (cbb_chain s') = Suc d" using w(1,5) contents_detached [of s d] by (force simp: shape_def)
    with leaf_base [OF w(4,6)] obtain b where "cbb_base s' = Some b" "buffer_ok b" "b_len b = length (w @ junk)"
      by auto
    then have "p + length data \<le> b_cap b'" if "cbb_base s' = Some b'" for b'
      using that w(2,3) by (auto simp: buffer_ok_def)
    then have "cbb_ok (cbb_store s' p data)" using w(4) by (intro cbb_store_ok) simp_all
    then show ?thesis using a by simp
  qed
qed

lemma flush_ok: "cbb_ok s \<Longrightarrow> cbb_ok (snd (CBB_flush mem s d))"
proof (cases "CBB_flush mem s d")
  case (Pair q s')
  assume "cbb_ok s"
  with Pair CBB_flush_True [of mem s d s'] CBB_flush_False [of mem s d s'] show ?thesis
    by (cases q) simp_all
qed

lemma bytes_ok: "cbb_ok s \<Longrightarrow> length data < SIZE_MOD \<Longrightarrow> cbb_ok (snd (CBB_add_bytes mem s d data))"
  by (rule byte_sink_ok [OF bytes.byte_sink_axioms])

lemma zeros_ok:
  assumes "cbb_ok s" and "n < SIZE_MOD"
  shows "cbb_ok (snd (CBB_add_zeros mem s d n))"
proof (cases "CBB_add_zeros mem s d n")
  case (Pair q s')
  with assms CBB_add_zeros_True [of s mem d n s'] CBB_add_zeros_False [of s mem d n s'] show ?thesis
    by (cases q) auto
qed

lemma reserve_did_write_ok:
  assumes "cbb_ok s" and "n < SIZE_MOD"
  shows "cbb_ok (snd (CBB_reserve mem s d n))" and "cbb_ok (snd (CBB_did_write s d n))"
  by (rule CBB_reserve_ok [OF assms(1) prod.collapse [symmetric] assms(2), THEN conjunct1])
    (rule CBB_did_write_ok [OF assms(1) prod.collapse [symmetric] assms(2)])

lemma openers_ok:
  assumes "cbb_ok s"
  shows "cbb_ok (snd (CBB_add_u8_length_prefixed mem s d))" "cbb_ok (snd (CBB_add_u16_length_prefixed mem s d))"
    "cbb_ok (snd (CBB_add_u24_length_prefixed mem s d))" "cbb_ok (snd (CBB_add_asn1 mem s d tag))"
  by - (rule child_opener_ok [OF prefixed8.child_opener_axioms assms]
    child_opener_ok [OF prefixed16.child_opener_axioms assms]
    child_opener_ok [OF prefixed24.child_opener_axioms assms]
    child_opener_ok [OF asn1_opener.child_opener_axioms assms])+

lemma set_of_ok: "cbb_ok s \<Longrightarrow> cbb_ok (snd (CBB_flush_asn1_set_of mem s d))"
proof (cases "CBB_flush_asn1_set_of mem s d")
  case (Pair q s')
  assume "cbb_ok s"
  with Pair flush_set_of_True [of s mem d s'] flush_set_of_False [of s mem d s'] show ?thesis
    by (cases q) auto
qed

lemma cleanup_ok: "cbb_ok s \<Longrightarrow> cbb_ok (CBB_cleanup s d)"
  by (simp add: CBB_cleanup_def cbb_ok_def)

lemmas call_ok = flush_ok bytes_ok zeros_ok add_space_fill_ok reserve_did_write_ok CBB_discard_child_ok
  openers_ok integer_writers_ok element_writers_ok set_of_ok cleanup_ok

lemma cbb_run_ok:
  assumes "cbb_ok s" and "call_allowed s call"
  shows "cbb_ok (cbb_run mem s call)"
proof (cases call)
  case (Call_space d data)
  with assms add_space_fill_ok show ?thesis by simp
qed (use assms call_ok in \<open>simp_all add: CBB_add_u16le_def CBB_add_u32le_def CBB_add_u64le_def\<close>)

lemma reachable_ok: "cbb_reachable s \<Longrightarrow> cbb_ok s"
proof (induction rule: cbb_reachable.induct)
  case (reach_init mem cap r s)
  then show ?case using CBB_init_True [of mem cap s] CBB_init_False_ok [of mem cap s] by (cases r) simp_all
next
  case (reach_fixed mem buf r s)
  then show ?case using CBB_init_fixed_True [of mem buf s]
    by (cases r) (auto simp: CBB_init_fixed_def cbb_init_def CBB_zero_ok split: option.splits)
next
  case (reach_step s s')
  then show ?case using cbb_run_ok by (auto elim: cbb_stepE)
qed

section \<open>Errors are final\<close>

lemma flush_dead:
  assumes "cbb_ok s" and "dead s"
  shows "\<exists>s'. CBB_flush mem s d = (False, s') \<and> dead s'"
proof (cases "CBB_flush mem s d")
  case (Pair q s')
  have "\<not> q" using Pair CBB_flush_True [OF _ assms(1), of mem d s'] dead_contents [OF assms(2), of d] by (cases q) auto
  with Pair CBB_flush_False [OF _ assms(1), of mem d s'] assms(2) show ?thesis by auto
qed

lemma dead_update: "dead s \<Longrightarrow> cbb_base s = Some b \<Longrightarrow> dead (s\<lparr>cbb_base := Some (b\<lparr>b_len := n\<rparr>)\<rparr>)"
  by (simp add: dead_def)

lemma cbb_run_dead:
  assumes "cbb_ok s" and "dead s"
  shows "dead (cbb_run mem s call)"
proof -
  note flush_dead [OF assms, of mem]
  then obtain f where f: "\<And>d. CBB_flush mem s d = (False, f d)" "\<And>d. dead (f d)" by metis
  note defs = CBB_add_defs CBB_add_u16le_def CBB_add_u32le_def CBB_add_u64le_def cbb_with_base_def CBB_add_bytes_def
    CBB_add_zeros_def CBB_add_space_def CBB_reserve_def CBB_add_u8_length_prefixed_def
    CBB_add_u16_length_prefixed_def CBB_add_u24_length_prefixed_def cbb_add_length_prefixed_def CBB_add_asn1_def
    CBB_flush_asn1_set_of_def CBB_add_asn1_uint64_eq CBB_add_asn1_int64_eq CBB_add_asn1_octet_string_def
    CBB_add_asn1_bool_def in_child_def
  show ?thesis
    by (cases call) (use assms(2) f in \<open>auto simp: defs CBB_did_write_def CBB_discard_child_def CBB_cleanup_def
      dead_update dead_def Let_def split: option.splits\<close>)
qed

end
