(* ===== verification/Format.thy ===== *)
theory Format
  imports Mem
begin

text \<open>
  What \<open>BIO_snprintf\<close> (the C library's \<open>vsnprintf\<close>) prints for the conversions the sources use: unsigned decimals, decimals
  padded with zeros, and hexadecimals; and how it writes a text into a block.
\<close>

section \<open>Conversions\<close>

text \<open>The decimal digits that \<open>BIO_snprintf\<close> prints for \<open>"%" PRIu64\<close>.\<close>

definition digit :: "nat \<Rightarrow> byte" where
  "digit n = of_nat (48 + n)"

fun decimal :: "nat \<Rightarrow> byte list" where
  "decimal n = (if n < 10 then [digit n] else decimal (n div 10) @ [digit (n mod 10)])"

declare decimal.simps [simp del]

text \<open>\<open>"%0<w>d"\<close>: the sign counts towards the width.\<close>

definition fmt_0d :: "nat \<Rightarrow> int \<Rightarrow> byte list" where
  "fmt_0d w n =
     (let s = decimal (nat \<bar>n\<bar>)
      in if n < 0 then 45 # replicate (w - 1 - length s) 48 @ s else replicate (w - length s) 48 @ s)"

text \<open>\<open>snprintf\<close> into a block of \<open>len\<close> bytes cuts the text short and ends it with a terminator.\<close>

definition c_snprintf :: "byte list \<Rightarrow> nat \<Rightarrow> byte list \<Rightarrow> byte list" where
  "c_snprintf buf len txt = (if len = 0 then buf else OPENSSL_memcpy buf 0 (take (len - 1) txt @ [0]))"

section \<open>Decimal numbers\<close>

lemma decimal_not_Nil [simp]: "decimal n \<noteq> []" "[] \<noteq> decimal n"
  by (subst decimal.simps, simp)+

lemma decimal_snoc: "decimal n = (if n < 10 then [] else decimal (n div 10)) @ [digit (n mod 10)]"
  by (subst decimal.simps) simp

lemma unat_digit: "n < 10 \<Longrightarrow> unat (digit n) = 48 + n"
  unfolding digit_def by (subst unat_of_nat_byte) simp

lemma decimal_digits: "x \<in> set (decimal n) \<Longrightarrow> 48 \<le> unat x \<and> unat x \<le> 57"
proof (induction n rule: decimal.induct)
  case (1 n)
  then show ?case by (subst (asm) decimal.simps) (auto simp: unat_digit split: if_splits)
qed

lemma decimal_prefix:
  "decimal n = p @ q \<Longrightarrow> p \<noteq> [] \<Longrightarrow> p = decimal (n div 10 ^ length q)"
proof (induction q arbitrary: n rule: rev_induct)
  case (snoc x q)
  then have "n \<ge> 10" by (subst (asm) decimal.simps) (auto split: if_splits simp: Cons_eq_append_conv)
  with snoc.prems(1) have "decimal (n div 10) = p @ q" by (subst (asm) decimal.simps) simp
  from snoc.IH [OF this snoc.prems(2)] show ?case by (simp add: div_mult2_eq)
qed simp

lemma decimal_inj: "decimal m = decimal n \<Longrightarrow> m = n"
proof (induction m arbitrary: n rule: decimal.induct)
  case (1 m)
  have last: "digit (m mod 10) = digit (n mod 10)"
    using 1(2) decimal_snoc [of m] decimal_snoc [of n] by simp
  have "48 + m mod 10 = unat (digit (m mod 10))" by (rule unat_digit [symmetric]) simp
  also have "\<dots> = 48 + n mod 10" unfolding last by (rule unat_digit) simp
  finally have mods: "m mod 10 = n mod 10" by (rule add_left_imp_eq)
  show ?case
  proof (cases "m < 10")
    case True
    then have "n < 10" using 1(2) decimal_snoc [of m] decimal_snoc [of n] by (auto split: if_splits)
    with True mods show ?thesis by simp
  next
    case False
    then have "\<not> n < 10" using 1(2) decimal_snoc [of m] decimal_snoc [of n] by (auto split: if_splits)
    with False 1 have "m div 10 = n div 10" using decimal_snoc [of m] decimal_snoc [of n] by simp
    with mods show ?thesis by (metis div_mult_mod_eq)
  qed
qed

text \<open>Two digits, as in a date.\<close>

definition two :: "nat \<Rightarrow> byte list" where
  "two n = [digit (n div 10), digit (n mod 10)]"

lemma length_two [simp]: "length (two n) = 2"
  by (simp add: two_def)

lemma fmt_02d: "n < 100 \<Longrightarrow> fmt_0d 2 (int n) = two n"
proof (cases "n < 10")
  case True
  then have "decimal n = [digit n]" by (subst decimal.simps) simp
  with True show ?thesis by (simp add: fmt_0d_def two_def digit_def)
next
  case False
  assume n: "n < 100"
  with False have "decimal (n div 10) = [digit (n div 10)]" by (subst decimal.simps) simp
  with False have "decimal n = two n" by (subst decimal.simps) (simp add: two_def)
  then show ?thesis by (simp add: fmt_0d_def)
qed

lemma decimal_length:
  "n < 10 ^ k \<Longrightarrow> 0 < k \<Longrightarrow> length (decimal n) \<le> k"
proof (induction k arbitrary: n)
  case (Suc k)
  show ?case
  proof (cases "n < 10")
    case True
    then show ?thesis by (subst decimal.simps) simp
  next
    case False
    with Suc.prems have "0 < k" by (cases k) simp_all
    moreover have "n div 10 < 10 ^ k" using Suc.prems(1) by (simp add: less_mult_imp_div_less)
    ultimately have "length (decimal (n div 10)) \<le> k" by (intro Suc.IH)
    with False show ?thesis by (subst decimal.simps) simp
  qed
qed simp

lemma fmt_04d: "n < 10000 \<Longrightarrow> fmt_0d 4 (int n) = two (n div 100) @ two (n mod 100)"
proof -
  assume n: "n < 10000"
  have dec: "decimal m = (if m < 10 then [digit m] else decimal (m div 10) @ [digit (m mod 10)])" for m by (rule decimal.simps)
  have d: "n div 100 div 10 = n div 1000" "n mod 100 div 10 = n div 10 mod 10" "n mod 100 mod 10 = n mod 10"
    using div_mult2_eq [of n 100 10] mod_mult2_eq [of n 10 10] by (simp_all add: mod_mod_cancel)
  have e: "n div 10 div 10 = n div 100" "n div 100 div 10 = n div 1000" using div_mult2_eq [of n 10 10] div_mult2_eq [of n 100 10] by simp_all
  have q: "n div 1000 < 10" using n by simp
  have z: "digit 0 = 48" by (simp add: digit_def)
  have rep: "replicate 3 x = [x, x, x]" "replicate 2 x = [x, x]" for x :: byte by (simp_all add: numeral_eq_Suc)
  consider "n < 10" | "10 \<le> n" "n < 100" | "100 \<le> n" "n < 1000" | "1000 \<le> n" by linarith
  then show ?thesis
  proof cases
    case 1
    then show ?thesis by (simp add: fmt_0d_def dec [of n] two_def z rep)
  next
    case 2
    then have "n div 10 < 10" by simp
    with 2 show ?thesis by (simp add: fmt_0d_def dec [of n] dec [of "n div 10"] two_def z rep)
  next
    case 3
    then have "\<not> n < 10" "\<not> n div 10 < 10" "n div 100 < 10" by simp_all
    then have "decimal n = [digit (n div 100), digit (n div 10 mod 10), digit (n mod 10)]"
      by (simp add: dec [of n] dec [of "n div 10"] dec [of "n div 100"] e)
    moreover have "n div 1000 = 0" "n div 100 mod 10 = n div 100" using 3 \<open>n div 100 < 10\<close> by simp_all
    ultimately show ?thesis by (simp add: fmt_0d_def two_def d z)
  next
    case 4
    then have "\<not> n < 10" "\<not> n div 10 < 10" "\<not> n div 100 < 10" by simp_all
    then have "decimal n = [digit (n div 1000), digit (n div 100 mod 10), digit (n div 10 mod 10), digit (n mod 10)]"
      using q by (simp add: dec [of n] dec [of "n div 10"] dec [of "n div 100"] dec [of "n div 1000"] e)
    then show ?thesis by (simp add: fmt_0d_def two_def d)
  qed
qed

end
