(* ===== verification/OID.thy ===== *)
theory OID
  imports CBB_Machine Format
begin

text \<open>
  Object identifiers as text: \<open>CBS_asn1_oid_to_text\<close> of \<^verbatim>\<open>cbs.c\<close> and \<open>CBB_add_asn1_oid_from_text\<close>
  of \<^verbatim>\<open>cbb.c\<close>. Text is the list of its ASCII codes.
\<close>

section \<open>Operations\<close>

definition add_decimal :: "allocator \<Rightarrow> CBB \<Rightarrow> nat \<Rightarrow> u64 \<Rightarrow> bool \<times> CBB" where
  "add_decimal mem out d v = CBB_add_bytes mem out d (decimal (unat v))"

lemma parse_base128_loop_shorter: "length (snd (parse_base128_loop v cbs)) \<le> length cbs - 1"
proof (induction v cbs rule: parse_base128_loop.induct)
  case (2 v b cbs)
  then show ?case by (auto simp: Let_def)
qed simp

lemma parse_base128_shorter:
  "parse_base128_integer cbs = (r, cbs') \<Longrightarrow> cbs \<noteq> [] \<Longrightarrow> length cbs' < length cbs"
  using parse_base128_loop_shorter [of 0 cbs] by (cases cbs) (auto simp: parse_base128_integer_def)

text \<open>The \<open>while\<close> loop of \<open>CBS_asn1_oid_to_text\<close>; each round consumes at least a byte.\<close>

function oid_to_text_loop :: "allocator \<Rightarrow> CBB \<Rightarrow> CBS \<Rightarrow> bool \<times> CBB" where
  "oid_to_text_loop mem cbb copy =
     (if length copy = 0 then (True, cbb)
      else case parse_base128_integer copy of
          (None, copy') \<Rightarrow> (False, cbb)
        | (Some v, copy') \<Rightarrow> (case CBB_add_u8 mem cbb 0 46 of
            (False, cbb') \<Rightarrow> (False, cbb')
          | (True, cbb') \<Rightarrow> (case add_decimal mem cbb' 0 v of
              (False, cbb'') \<Rightarrow> (False, cbb'')
            | (True, cbb'') \<Rightarrow> oid_to_text_loop mem cbb'' copy')))"
  by pat_completeness auto
termination
  by (relation "measure (\<lambda>(mem, cbb, copy). length copy)") (auto intro: parse_base128_shorter [OF sym])

declare oid_to_text_loop.simps [simp del]

definition CBS_asn1_oid_to_text :: "allocator \<Rightarrow> CBS \<Rightarrow> byte list option" where
  "CBS_asn1_oid_to_text mem cbs = (case CBB_init mem 32 of
      (False, _) \<Rightarrow> None
    | (True, cbb) \<Rightarrow> (case parse_base128_integer cbs of
        (None, _) \<Rightarrow> None
      | (Some v, copy) \<Rightarrow>
          (case (if v \<ge> 80 then
                   (case CBB_add_bytes mem cbb 0 [50, 46] of
                      (False, c) \<Rightarrow> (False, c)
                    | (True, c) \<Rightarrow> add_decimal mem c 0 (v - 80))
                 else (case add_decimal mem cbb 0 (v div 40) of
                      (False, c) \<Rightarrow> (False, c)
                    | (True, c) \<Rightarrow> (case CBB_add_u8 mem c 0 46 of
                        (False, c) \<Rightarrow> (False, c)
                      | (True, c) \<Rightarrow> add_decimal mem c 0 (v mod 40)))) of
             (False, _) \<Rightarrow> None
           | (True, cbb) \<Rightarrow> (case oid_to_text_loop mem cbb copy of
               (False, _) \<Rightarrow> None
             | (True, cbb) \<Rightarrow> (case CBB_add_u8 mem cbb 0 0 of
                 (False, _) \<Rightarrow> None
               | (True, cbb) \<Rightarrow> fst (CBB_finish mem cbb 0 True))))))"

fun parse_dotted_decimal_loop :: "u64 \<Rightarrow> bool \<Rightarrow> CBS \<Rightarrow> u64 cbs_result" where
  "parse_dotted_decimal_loop out seen_digit [] = (if seen_digit then Some out else None, [])"
| "parse_dotted_decimal_loop out seen_digit (u # cbs) =
     (if u = 46 \<and> length cbs > 0 then (if seen_digit then Some out else None, cbs)
      else if u < 48 \<or> u > 57 \<or> (seen_digit \<and> out = 0) \<or> out > (- 1) div 10 \<or>
              out * 10 > (- 1) - ucast (u - 48) then (None, cbs)
      else parse_dotted_decimal_loop (out * 10 + ucast (u - 48)) True cbs)"

definition parse_dotted_decimal :: "CBS \<Rightarrow> u64 cbs_result" where
  "parse_dotted_decimal cbs = parse_dotted_decimal_loop 0 False cbs"

lemma parse_dotted_loop_shorter: "length (snd (parse_dotted_decimal_loop v seen cbs)) \<le> length cbs - 1"
proof (induction v seen cbs rule: parse_dotted_decimal_loop.induct)
  case (2 out seen u cbs)
  then show ?case by auto
qed simp

lemma parse_dotted_shorter:
  "parse_dotted_decimal cbs = (r, cbs') \<Longrightarrow> cbs \<noteq> [] \<Longrightarrow> length cbs' < length cbs"
  using parse_dotted_loop_shorter [of 0 False cbs] by (cases cbs) (auto simp: parse_dotted_decimal_def)

function oid_from_text_loop :: "allocator \<Rightarrow> CBB \<Rightarrow> nat \<Rightarrow> CBS \<Rightarrow> bool \<times> CBB" where
  "oid_from_text_loop mem cbb d cbs =
     (if length cbs > 0 then
        (case parse_dotted_decimal cbs of
           (None, cbs') \<Rightarrow> (False, cbb)
         | (Some a, cbs') \<Rightarrow> (case add_base128_integer mem cbb d a of
             (False, cbb') \<Rightarrow> (False, cbb')
           | (True, cbb') \<Rightarrow> oid_from_text_loop mem cbb' d cbs'))
      else (True, cbb))"
  by pat_completeness auto
termination
  by (relation "measure (\<lambda>(mem, cbb, d, cbs). length cbs)") (auto intro: parse_dotted_shorter [OF sym])

declare oid_from_text_loop.simps [simp del]

definition CBB_add_asn1_oid_from_text :: "allocator \<Rightarrow> CBB \<Rightarrow> nat \<Rightarrow> byte list \<Rightarrow> bool \<times> CBB" where
  "CBB_add_asn1_oid_from_text mem cbb d text = (case CBB_flush mem cbb d of
      (False, cbb) \<Rightarrow> (False, cbb)
    | (True, cbb) \<Rightarrow> (case parse_dotted_decimal text of
        (None, _) \<Rightarrow> (False, cbb)
      | (Some a, cbs) \<Rightarrow> (case parse_dotted_decimal cbs of
          (None, _) \<Rightarrow> (False, cbb)
        | (Some b, cbs) \<Rightarrow>
            if a > 2 \<or> (a < 2 \<and> b > 39) \<or> b > - 1 - 80 then (False, cbb)
            else (case add_base128_integer mem cbb d (40 * a + b) of
                (False, cbb) \<Rightarrow> (False, cbb)
              | (True, cbb) \<Rightarrow> oid_from_text_loop mem cbb d cbs))))"

section \<open>Specification\<close>

text \<open>An identifier is its list of components.\<close>

fun dotted :: "nat list \<Rightarrow> byte list" where
  "dotted [] = []"
| "dotted [n] = decimal n"
| "dotted (n # ns) = decimal n @ 46 # dotted ns"

fun oid_bytes :: "nat list \<Rightarrow> byte list" where
  "oid_bytes (a # b # cs) = base128 (40 * a + b) @ concat (map base128 cs)"
| "oid_bytes _ = []"

fun valid_oid :: "nat list \<Rightarrow> bool" where
  "valid_oid (a # b # cs) = (a \<le> 2 \<and> (a < 2 \<longrightarrow> b \<le> 39) \<and> b \<le> SIZE_MOD - 81 \<and> (\<forall>c\<in>set cs. c < SIZE_MOD))"
| "valid_oid _ = False"

section \<open>Reading decimal numbers\<close>

text \<open>The overflow checks keep the accumulated number below \<open>2 ^ 64\<close>.\<close>

lemma dotted_overflow:
  fixes out :: u64 and u :: byte
  assumes "48 \<le> unat u" and "unat u \<le> 57"
  shows "(out > (- 1) div 10 \<or> out * 10 > (- 1) - ucast (u - 48)) \<longleftrightarrow> SIZE_MOD \<le> unat out * 10 + (unat u - 48)"
    and "unat out * 10 + (unat u - 48) < SIZE_MOD \<Longrightarrow>
      unat (out * 10 + ucast (u - 48)) = unat out * 10 + (unat u - 48)"
    and "out * 10 + ucast (u - 48) = of_nat (unat out * 10 + (unat u - 48))"
proof -
  let ?d = "unat u - 48"
  have m1: "(- 1 :: u64) = 18446744073709551615" by simp
  have d: "(ucast (u - 48) :: u64) = of_nat ?d" 
  proof -
    have "unat (u - 48) = ?d" using assms by (subst unat_sub) (simp_all add: word_le_nat_alt)
    then show ?thesis by (metis of_nat_unat)
  qed
  have ud: "unat (of_nat ?d :: u64) = ?d" using assms by (intro unat_of_nat_u64) simp
  have "unat ((- 1 :: u64) div 10) = 1844674407370955161" by (simp add: m1)
  then have c1: "out > (- 1) div 10 \<longleftrightarrow> 1844674407370955161 < unat out" by (simp only: word_less_nat_alt)
  have mul: "unat (out * 10) = unat out * 10" if "unat out \<le> 1844674407370955161"
    using that by (subst unat_mult_lem [THEN iffD1]) simp_all
  have sub: "unat ((- 1 :: u64) - of_nat ?d) = 18446744073709551615 - ?d"
    using assms ud by (subst unat_sub) (simp_all add: m1 word_le_nat_alt)
  show "(out > (- 1) div 10 \<or> out * 10 > (- 1) - ucast (u - 48)) \<longleftrightarrow> SIZE_MOD \<le> unat out * 10 + ?d"
  proof (cases "unat out \<le> 1844674407370955161")
    case True
    then have "out * 10 > (- 1) - ucast (u - 48) \<longleftrightarrow> 18446744073709551615 - ?d < unat out * 10"
      unfolding d by (simp only: word_less_nat_alt mul sub)
    then show ?thesis unfolding c1 using True assms by linarith
  next
    case False
    then show ?thesis unfolding c1 by simp
  qed
  show eq: "out * 10 + ucast (u - 48) = of_nat (unat out * 10 + ?d)" unfolding d by simp
  assume small: "unat out * 10 + ?d < SIZE_MOD"
  from eq show "unat (out * 10 + ucast (u - 48)) = unat out * 10 + ?d" using unat_of_nat_u64 [OF small] by simp
qed

lemma digit_unat: "48 \<le> unat u \<Longrightarrow> digit (unat u - 48) = u"
  unfolding digit_def by (simp only: le_add_diff_inverse of_nat_unat ucast_id)

lemma byte_digit_range: "(u :: byte) < 48 \<longleftrightarrow> unat u < 48" "u > 57 \<longleftrightarrow> 57 < unat u"
  by (simp_all add: word_less_nat_alt)

text \<open>A step of the loop, on numbers.\<close>

lemma dotted_loop_digit:
  assumes u: "\<not> (u = 46 \<and> cbs \<noteq> [])"
  shows "parse_dotted_decimal_loop out seen (u # cbs) =
    (if 48 \<le> unat u \<and> unat u \<le> 57 \<and> \<not> (seen \<and> out = 0) \<and> unat out * 10 + (unat u - 48) < SIZE_MOD
     then parse_dotted_decimal_loop (of_nat (unat out * 10 + (unat u - 48))) True cbs else (None, cbs))"
proof (cases "48 \<le> unat u \<and> unat u \<le> 57")
  case False
  then show ?thesis using u by (auto simp: byte_digit_range)
next
  case True
  then have u': "48 \<le> unat u" "unat u \<le> 57" by simp_all
  note ov = dotted_overflow [OF u', of out]
  show ?thesis
  proof (cases "unat out * 10 + (unat u - 48) < SIZE_MOD")
    case False
    then show ?thesis using ov(1) u u' by (simp add: byte_digit_range not_less)
  next
    case small: True
    then show ?thesis using ov(1) small u u'
      by (simp only: parse_dotted_decimal_loop.simps ov(3)) (auto simp: byte_digit_range not_less)
  qed
qed

lemma dotted_loop_sound:
  assumes "parse_dotted_decimal_loop out seen cbs = (Some v, rest)"
    and "if seen then p = decimal (unat out) else p = [] \<and> out = 0"
  shows "p @ cbs = decimal (unat v) \<and> rest = [] \<or> p @ cbs = decimal (unat v) @ 46 # rest \<and> rest \<noteq> []"
  using assms
proof (induction out seen cbs arbitrary: p rule: parse_dotted_decimal_loop.induct)
  case (1 out seen)
  then show ?case by (auto split: if_splits)
next
  case (2 out seen u cbs)
  show ?case
  proof (cases "u = 46 \<and> cbs \<noteq> []")
    case True
    with "2.prems" show ?thesis by (auto split: if_splits)
  next
    case False
    define n where "n = unat out * 10 + (unat u - 48)"
    have "(if 48 \<le> unat u \<and> unat u \<le> 57 \<and> \<not> (seen \<and> out = 0) \<and> n < SIZE_MOD
        then parse_dotted_decimal_loop (of_nat n) True cbs else (None, cbs)) = (Some v, rest)"
      using "2.prems"(1) unfolding dotted_loop_digit [OF False] n_def .
    then have g: "48 \<le> unat u" "unat u \<le> 57" "\<not> (seen \<and> out = 0)" "n < SIZE_MOD"
      and r: "parse_dotted_decimal_loop (of_nat n) True cbs = (Some v, rest)"
      by (simp_all split: if_splits)
    have n: "unat (of_nat n :: u64) = n" using g(4) by (rule unat_of_nat_u64)
    note w = dotted_overflow(3) [OF g(1,2), of out, folded n_def]
    have "p @ [u] = decimal n"
    proof (cases seen)
      case True
      then have "unat out \<noteq> 0" using g(3) by (simp add: unsigned_eq_0_iff)
      moreover obtain e where e: "unat u = 48 + e" using g(1) le_Suc_ex by blast
      ultimately have "\<not> n < 10" "n div 10 = unat out" "n mod 10 = unat u - 48" using g(2) by (auto simp: n_def)
      with True "2.prems"(2) show ?thesis by (subst decimal.simps) (simp add: digit_unat g(1))
    next
      case not_seen: False
      with "2.prems"(2) g have "n = unat u - 48" "n < 10" "p = []" by (auto simp: n_def)
      then show ?thesis by (subst decimal.simps) (simp add: digit_unat g(1))
    qed
    moreover have "\<not> (u < 48 \<or> u > 57 \<or> (seen \<and> out = 0) \<or> out > (- 1) div 10 \<or> out * 10 > (- 1) - ucast (u - 48))"
      using g dotted_overflow(1) [OF g(1,2), of out] by (simp add: byte_digit_range n_def not_less)
    moreover have "\<not> (u = 46 \<and> 0 < length cbs)" using False by simp
    ultimately have "(p @ [u]) @ cbs = decimal (unat v) \<and> rest = [] \<or>
        (p @ [u]) @ cbs = decimal (unat v) @ 46 # rest \<and> rest \<noteq> []"
      using n by (intro "2.IH" [unfolded w, OF _ _ r]) simp_all
    then show ?thesis by simp
  qed
qed

lemma dotted_loop_complete:
  assumes "p @ q = decimal n" and "n < SIZE_MOD" and "tail = [] \<and> rest = [] \<or> tail = 46 # rest \<and> rest \<noteq> []"
    and "if p = [] then out = 0 else unat out = n div 10 ^ length q"
  shows "parse_dotted_decimal_loop out (p \<noteq> []) (q @ tail) = (Some (of_nat n), rest)"
  using assms
proof (induction q arbitrary: p out)
  case Nil
  then have "out = of_nat n" by (metis append_Nil2 decimal_not_Nil(1) div_by_1 list.size(3) of_nat_unat power_0 ucast_id)
  with Nil show ?case by auto
next
  case (Cons u q)
  define k where "k = n div 10 ^ length q"
  have "u \<in> set (decimal n)" by (simp flip: Cons.prems(1))
  then have u: "48 \<le> unat u" "unat u \<le> 57" using decimal_digits by blast+
  have "decimal n = (p @ [u]) @ q" using Cons.prems(1) by simp
  then have pu: "p @ [u] = decimal k" unfolding k_def by (rule decimal_prefix) simp
  have kn: "k < SIZE_MOD" unfolding k_def by (rule le_less_trans [OF div_le_dividend Cons.prems(2)])
  have last: "u = digit (k mod 10)" using pu decimal_snoc [of k] by (metis last_snoc)
  have "unat u = 48 + k mod 10" unfolding last by (rule unat_digit) simp
  then have um: "unat u - 48 = k mod 10" by simp
  have pk: "p = [] \<longleftrightarrow> k < 10" using pu decimal_snoc [of k] by (auto split: if_splits)
  have out: "unat out = k div 10"
  proof (cases "p = []")
    case True
    with Cons.prems(4) pk show ?thesis by simp
  next
    case False
    have "(10 :: nat) ^ length (u # q) = 10 ^ length q * 10" by simp
    then show ?thesis using False Cons.prems(4) div_mult2_eq [of n "10 ^ length q" 10] by (simp only: k_def if_False)
  qed
  then have step: "unat out * 10 + (unat u - 48) = k" by (simp add: um)
  have "\<not> (p \<noteq> [] \<and> out = 0)" using pk out by auto
  moreover have "u \<noteq> 46" using u by auto
  ultimately have "parse_dotted_decimal_loop out (p \<noteq> []) (u # q @ tail) =
      parse_dotted_decimal_loop (of_nat k) True (q @ tail)"
    using u kn by (subst dotted_loop_digit) (simp_all add: step)
  also have "\<dots> = parse_dotted_decimal_loop (of_nat k) (p @ [u] \<noteq> []) (q @ tail)" by simp
  also have "\<dots> = (Some (of_nat n), rest)"
    using Cons.prems(1-3) unat_of_nat_u64 [OF kn] by (intro Cons.IH) (simp_all add: k_def)
  finally show ?case by simp
qed

lemma parse_dotted_complete:
  "n < SIZE_MOD \<Longrightarrow> tail = [] \<and> rest = [] \<or> tail = 46 # rest \<and> rest \<noteq> [] \<Longrightarrow>
    parse_dotted_decimal (decimal n @ tail) = (Some (of_nat n), rest)"
  using dotted_loop_complete [of "[]" "decimal n" n tail rest 0] by (simp add: parse_dotted_decimal_def)

lemma parse_dotted_sound:
  "parse_dotted_decimal cbs = (Some v, rest) \<Longrightarrow>
    cbs = decimal (unat v) \<and> rest = [] \<or> cbs = decimal (unat v) @ 46 # rest \<and> rest \<noteq> []"
  using dotted_loop_sound [of 0 False cbs v rest "[]"] by (simp add: parse_dotted_decimal_def)

lemma dotted_eq_Nil [simp]: "dotted ns = [] \<longleftrightarrow> ns = []"
  by (cases ns rule: dotted.cases) simp_all

lemma parse_dotted_Cons:
  assumes "n < SIZE_MOD"
  shows "parse_dotted_decimal (dotted (n # ns)) = (Some (of_nat n), dotted ns)"
proof (cases ns)
  case Nil
  with parse_dotted_complete [OF assms, of "[]" "[]"] show ?thesis by simp
next
  case (Cons m ms)
  have "dotted (n # ns) = decimal n @ 46 # dotted ns" using Cons by simp
  with parse_dotted_complete [OF assms, of "46 # dotted ns" "dotted ns"] Cons show ?thesis by simp
qed

lemma parse_dotted_ConsD:
  assumes "parse_dotted_decimal cbs = (Some v, dotted ns)"
  shows "cbs = dotted (unat v # ns)"
proof (cases ns)
  case Nil
  with parse_dotted_sound [OF assms] show ?thesis by simp
next
  case (Cons m ms)
  have "dotted (unat v # ns) = decimal (unat v) @ 46 # dotted ns" using Cons by simp
  with parse_dotted_sound [OF assms] Cons show ?thesis by simp
qed

section \<open>From text\<close>

lemma oid_from_text_loop_put:
  "list_all (\<lambda>n. n < SIZE_MOD) ns \<Longrightarrow> oid_from_text_loop mem s d (dotted ns) =
    put_list (\<lambda>s. add_base128_integer mem s d) s (map of_nat ns)"
proof (induction ns arbitrary: s)
  case Nil
  then show ?case by (subst oid_from_text_loop.simps) simp
next
  case (Cons n ns)
  then have "parse_dotted_decimal (dotted (n # ns)) = (Some (of_nat n), dotted ns)" by (simp add: parse_dotted_Cons)
  moreover have "length (dotted (n # ns)) > 0" by simp
  ultimately show ?case using Cons
    by (subst oid_from_text_loop.simps) (simp split: prod.split bool.split del: dotted.simps)
qed

lemma oid_from_text_loop_True:
  "oid_from_text_loop mem s d cbs = (True, s') \<Longrightarrow>
    \<exists>ns. cbs = dotted ns \<and> list_all (\<lambda>n. n < SIZE_MOD) ns"
proof (induction mem s d cbs rule: oid_from_text_loop.induct)
  case (1 mem s d cbs)
  show ?case
  proof (cases "cbs = []")
    case True
    then show ?thesis by (intro exI [of _ "[]"]) simp
  next
    case False
    then have l: "length cbs > 0" by simp
    from "1.prems" obtain v cbs' s1 where v: "parse_dotted_decimal cbs = (Some v, cbs')"
      and a: "add_base128_integer mem s d v = (True, s1)" and r: "oid_from_text_loop mem s1 d cbs' = (True, s')"
      by (subst (asm) oid_from_text_loop.simps) (use False in \<open>auto split: prod.splits option.splits bool.splits\<close>)
    from "1.IH" [OF l v [symmetric] refl a [symmetric] refl r] obtain ns where
      "cbs' = dotted ns" "list_all (\<lambda>n. n < SIZE_MOD) ns" by auto
    with parse_dotted_ConsD [of cbs v ns] v show ?thesis
      using unsigned_less [of v, where 'a = nat] by (intro exI [of _ "unat v # ns"]) simp
  qed
qed

lemma base128_put_list_values: "list_all (\<lambda>n. n < SIZE_MOD) ns \<Longrightarrow>
    concat (map (\<lambda>v. base128 (unat v)) (map (of_nat :: nat \<Rightarrow> u64) ns)) = concat (map base128 ns)"
  by (induction ns) (simp_all add: unat_of_nat_u64)

lemma oid_first_word:
  assumes "a \<le> 2" and "b \<le> SIZE_MOD - 81"
  shows "unat (40 * of_nat a + of_nat b :: u64) = 40 * a + b"
proof -
  have "40 * of_nat a + of_nat b = (of_nat (40 * a + b) :: u64)" by simp
  moreover have "40 * a + b < SIZE_MOD" using assms by linarith
  ultimately show ?thesis using unat_of_nat_u64 by metis
qed

lemma oid_guard:
  assumes "a < SIZE_MOD" and "b < SIZE_MOD"
  shows "(of_nat a > (2 :: u64) \<or> (of_nat a < (2 :: u64) \<and> of_nat b > (39 :: u64)) \<or> of_nat b > (- 1 - 80 :: u64)) \<longleftrightarrow>
    \<not> (a \<le> 2 \<and> (a < 2 \<longrightarrow> b \<le> 39) \<and> b \<le> SIZE_MOD - 81)"
proof -
  have "(- 1 - 80 :: u64) = 18446744073709551535" by simp
  then show ?thesis using unat_of_nat_u64 [OF assms(1)] unat_of_nat_u64 [OF assms(2)]
    by (simp only: word_less_nat_alt) auto
qed

text \<open>After the first two components: the identifier is written byte by byte.\<close>

lemma oid_from_text_eq:
  assumes "valid_oid cs"
  shows "CBB_add_asn1_oid_from_text mem s d (dotted cs) = (case CBB_flush mem s d of
      (False, c) \<Rightarrow> (False, c)
    | (True, c) \<Rightarrow> put_list (\<lambda>s. add_base128_integer mem s d) c
        (case cs of a # b # ns \<Rightarrow> of_nat (40 * a + b) # map of_nat ns | _ \<Rightarrow> []))"
proof -
  obtain a b ns where cs: "cs = a # b # ns" using assms by (cases cs rule: valid_oid.cases) auto
  from assms have v: "a \<le> 2" "a < 2 \<longrightarrow> b \<le> 39" "b \<le> SIZE_MOD - 81" "list_all (\<lambda>n. n < SIZE_MOD) ns"
    by (auto simp: cs list_all_iff)
  then have ab: "a < SIZE_MOD" "b < SIZE_MOD" by linarith+
  note parse_dotted_Cons [OF ab(1), of "b # ns"] parse_dotted_Cons [OF ab(2), of ns]
  then show ?thesis using v oid_guard [OF ab] oid_from_text_loop_put [OF v(4)]
    by (auto simp: CBB_add_asn1_oid_from_text_def cs simp del: dotted.simps split: prod.split bool.split)
qed

lemma oid_words:
  assumes "valid_oid cs"
  defines "ws \<equiv> (case cs of a # b # ns \<Rightarrow> of_nat (40 * a + b) # map of_nat ns | _ \<Rightarrow> []) :: u64 list"
  shows "ws \<noteq> []" and "concat (map (\<lambda>v. base128 (unat v)) ws) = oid_bytes cs"
proof -
  obtain a b ns where cs: "cs = a # b # ns" using assms(1) by (cases cs rule: valid_oid.cases) auto
  from assms(1) have v: "a \<le> 2" "b \<le> SIZE_MOD - 81" "list_all (\<lambda>n. n < SIZE_MOD) ns" by (auto simp: cs list_all_iff)
  show "ws \<noteq> []" by (simp add: ws_def cs)
  have "unat (of_nat (40 * a + b) :: u64) = 40 * a + b" using v by (intro unat_of_nat_u64) linarith
  with base128_put_list_values [OF v(3)] show "concat (map (\<lambda>v. base128 (unat v)) ws) = oid_bytes cs"
    by (simp add: ws_def cs del: of_nat_add of_nat_mult)
qed

lemma oid_from_text_True:
  assumes ok: "cbb_ok s" and t: "CBB_add_asn1_oid_from_text mem s d str = (True, s')"
  shows "\<exists>cs w. valid_oid cs \<and> str = dotted cs \<and> cbb_ok s' \<and> contents d s = Some w \<and>
    contents d s' = Some (w @ oid_bytes cs)"
proof -
  obtain s1 a c1 b c2 s2 where f: "CBB_flush mem s d = (True, s1)" and a: "parse_dotted_decimal str = (Some a, c1)"
    and b: "parse_dotted_decimal c1 = (Some b, c2)" and g: "\<not> (a > 2 \<or> (a < 2 \<and> b > 39) \<or> b > - 1 - 80)"
    and l: "oid_from_text_loop mem s2 d c2 = (True, s')"
    using t by (auto simp: CBB_add_asn1_oid_from_text_def split: prod.splits bool.splits option.splits if_splits)
  from oid_from_text_loop_True [OF l] obtain ns where ns: "c2 = dotted ns" "list_all (\<lambda>n. n < SIZE_MOD) ns" by blast
  define cs where "cs = unat a # unat b # ns"
  have str: "str = dotted cs"
    using parse_dotted_ConsD [of c1 b ns] parse_dotted_ConsD [of str a "unat b # ns"] a b ns(1) by (simp add: cs_def)
  have "unat a < SIZE_MOD" "unat b < SIZE_MOD"
    using unsigned_less [of a, where 'a = nat] unsigned_less [of b, where 'a = nat] by simp_all
  from oid_guard [OF this] g ns(2) have valid: "valid_oid cs" by (auto simp: cs_def list_all_iff)
  from CBB_flush_True [OF f ok] have s1: "cbb_ok s1" "contents d s \<noteq> None" "contents d s1 = contents d s" by auto
  define ws :: "u64 list" where "ws = (case cs of a # b # ns \<Rightarrow> of_nat (40 * a + b) # map of_nat ns | _ \<Rightarrow> [])"
  have p: "put_list (\<lambda>s. add_base128_integer mem s d) s1 ws = (True, s')"
    using t unfolding str oid_from_text_eq [OF valid] f by (simp add: ws_def)
  from base128.put_list_True [OF s1(1) _ p] s1(2,3) obtain w where "cbb_ok s'" "contents d s = Some w"
    "contents d s' = Some (w @ concat (map (\<lambda>v. base128 (unat v)) ws))" by (auto simp: list_all_iff)
  with valid str oid_words(2) [OF valid] show ?thesis by (simp add: ws_def) blast
qed

lemma oid_from_text_succeeds:
  assumes ok: "cbb_ok s" and c: "contents d s = Some w" and v: "valid_oid cs"
    and r: "room mem s (length (w @ oid_bytes cs))"
  shows "\<exists>s'. CBB_add_asn1_oid_from_text mem s d (dotted cs) = (True, s')"
proof -
  have "room mem s (length w)" using r by (rule room_mono) simp
  then obtain s1 where f: "CBB_flush mem s d = (True, s1)" using CBB_flush_succeeds [OF ok c] by blast
  from CBB_flush_True [OF f ok] c have s1: "cbb_ok s1" "contents d s1 = Some w" "\<And>n. room mem s n \<Longrightarrow> room mem s1 n" by auto
  define ws :: "u64 list" where "ws = (case cs of a # b # ns \<Rightarrow> of_nat (40 * a + b) # map of_nat ns | _ \<Rightarrow> [])"
  have "fst (put_list (\<lambda>s. add_base128_integer mem s d) s1 ws)"
    using s1(3) [OF r] oid_words(2) [OF v] by (intro base128.put_list_room [OF s1(1,2)]) (simp_all add: list_all_iff ws_def)
  then obtain s' where "put_list (\<lambda>s. add_base128_integer mem s d) s1 ws = (True, s')"
    by (elim fst_TrueE)
  then show ?thesis unfolding oid_from_text_eq [OF v] f ws_def by simp
qed

section \<open>To text\<close>

lemma length_decimal_u64: "n < 10 ^ k \<Longrightarrow> 0 < k \<Longrightarrow> length (decimal n) \<le> k"
proof (induction n arbitrary: k rule: decimal.induct)
  case (1 n)
  show ?case
  proof (cases "n < 10")
    case True
    then show ?thesis using "1.prems"(2) by (subst decimal.simps) simp
  next
    case False
    then obtain k' where k: "k = Suc k'" "0 < k'" using "1.prems" by (cases k; cases "k - 1") auto
    then have "n div 10 < 10 ^ k'" using "1.prems"(1) by (simp add: div_less_iff_less_mult mult.commute)
    from "1.IH" [OF False this k(2)] False k show ?thesis by (subst decimal.simps) simp
  qed
qed

interpretation decimal: byte_sink cbb_ok "contents d" dead "room mem" "shape d" "\<lambda>s. add_decimal mem s d"
  "\<lambda>v. decimal (unat v)" "\<lambda>_. True" "\<lambda>_. True" for mem d
proof -
  have "length (decimal (unat (v :: u64))) < SIZE_MOD" for v
    using length_decimal_u64 [of "unat v" 20] unsigned_less [of v, where 'a = nat] by simp
  then show "byte_sink cbb_ok (contents d) dead (room mem) (shape d) (\<lambda>s. add_decimal mem s d)
      (\<lambda>v. decimal (unat v)) (\<lambda>_. True) (\<lambda>_. True)"
    using byte_sink_comp [OF bytes.byte_sink_axioms [of d mem], where f = "\<lambda>v :: u64. decimal (unat v)"]
    by (simp add: add_decimal_def [abs_def])
qed

text \<open>A component after the first: a dot and the digits.\<close>

interpretation dot_decimal: byte_sink cbb_ok "contents d" dead "room mem" "shape d"
  "put_seq (\<lambda>s v. CBB_add_u8 mem s d 46) (\<lambda>s. add_decimal mem s d)" "\<lambda>v. [46] @ decimal (unat v)"
  "\<lambda>_. True \<and> True" "\<lambda>_. True \<and> True" for mem d
  by (rule byte_sink_seq [OF byte_sink_comp [OF u8.byte_sink_axioms, where f = "\<lambda>_. 46"] decimal.byte_sink_axioms])

lemma put_seq_dot: "(case CBB_add_u8 mem s d 46 of (False, c) \<Rightarrow> (False, c)
    | (True, c) \<Rightarrow> (case add_decimal mem c d v of (False, c') \<Rightarrow> (False, c') | (True, c') \<Rightarrow> F c')) =
  (case put_seq (\<lambda>s v. CBB_add_u8 mem s d 46) (\<lambda>s. add_decimal mem s d) s v of
    (False, c') \<Rightarrow> (False, c') | (True, c') \<Rightarrow> F c')"
  by (simp add: put_seq_def split: prod.split bool.split)

abbreviation add_components :: "allocator \<Rightarrow> CBB \<Rightarrow> u64 list \<Rightarrow> bool \<times> CBB" where
  "add_components mem \<equiv> put_list (put_seq (\<lambda>s v. CBB_add_u8 mem s 0 46) (\<lambda>s. add_decimal mem s 0))"

lemma oid_to_text_loop_put:
  "oid_to_text_loop mem s (concat (map (\<lambda>w. base128 (unat w)) ws)) = add_components mem s ws"
proof (induction ws arbitrary: s)
  case Nil
  then show ?case by (subst oid_to_text_loop.simps) simp
next
  case (Cons w ws)
  have "parse_base128_integer (concat (map (\<lambda>w. base128 (unat w)) (w # ws))) =
      (Some w, concat (map (\<lambda>w. base128 (unat w)) ws))" using base128.dec_enc by simp
  moreover have "concat (map (\<lambda>w. base128 (unat w)) (w # ws)) \<noteq> []" by (simp add: base128_def)
  ultimately show ?case by (subst oid_to_text_loop.simps) (simp only: length_0_conv if_False prod.case option.case
      put_seq_dot Cons put_list_Cons)
qed

lemma oid_to_text_loop_True:
  "oid_to_text_loop mem s cbs = (True, s') \<Longrightarrow> \<exists>ws. cbs = concat (map (\<lambda>w :: u64. base128 (unat w)) ws)"
proof (induction mem s cbs rule: oid_to_text_loop.induct)
  case (1 mem s cbs)
  show ?case
  proof (cases "cbs = []")
    case True
    then show ?thesis by (intro exI [of _ "[]"]) simp
  next
    case False
    then have l: "length cbs \<noteq> 0" by simp
    from "1.prems" obtain v cbs' s1 s2 where v: "parse_base128_integer cbs = (Some v, cbs')"
      and a: "CBB_add_u8 mem s 0 46 = (True, s1)" "add_decimal mem s1 0 v = (True, s2)"
      and r: "oid_to_text_loop mem s2 cbs' = (True, s')"
      by (subst (asm) oid_to_text_loop.simps) (use False in \<open>auto split: prod.splits option.splits bool.splits\<close>)
    from "1.IH" [OF l v [symmetric] refl a(1) [symmetric] refl a(2) [symmetric] refl r] obtain ws where
      "cbs' = concat (map (\<lambda>w :: u64. base128 (unat w)) ws)" by blast
    with base128.dec_sound [OF v] show ?thesis by (intro exI [of _ "v # ws"]) simp
  qed
qed

text \<open>The first number holds the first two components.\<close>

definition oid_first :: "u64 \<Rightarrow> nat \<times> nat" where
  "oid_first v = (if 80 \<le> unat v then (2, unat v - 80) else (unat v div 40, unat v mod 40))"

definition add_first :: "allocator \<Rightarrow> CBB \<Rightarrow> u64 \<Rightarrow> bool \<times> CBB" where
  "add_first mem s v = (if 80 \<le> v then put_seq (\<lambda>s v. CBB_add_bytes mem s 0 [50, 46]) (\<lambda>s v. add_decimal mem s 0 (v - 80)) s v
     else put_seq (\<lambda>s v. add_decimal mem s 0 (v div 40))
       (put_seq (\<lambda>s v. CBB_add_u8 mem s 0 46) (\<lambda>s v. add_decimal mem s 0 (v mod 40))) s v)"

lemma CBS_asn1_oid_to_text_eq:
  "CBS_asn1_oid_to_text mem cbs = (case CBB_init mem 32 of
      (False, _) \<Rightarrow> None
    | (True, cbb) \<Rightarrow> (case parse_base128_integer cbs of
        (None, _) \<Rightarrow> None
      | (Some v, copy) \<Rightarrow> (case add_first mem cbb v of
          (False, _) \<Rightarrow> None
        | (True, cbb) \<Rightarrow> (case oid_to_text_loop mem cbb copy of
            (False, _) \<Rightarrow> None
          | (True, cbb) \<Rightarrow> (case CBB_add_u8 mem cbb 0 0 of
              (False, _) \<Rightarrow> None
            | (True, cbb) \<Rightarrow> fst (CBB_finish mem cbb 0 True))))))"
  unfolding CBS_asn1_oid_to_text_def add_first_def put_seq_def by (rule refl)

lemma decimal_2: "decimal 2 = [50]"
  by (subst decimal.simps) (simp add: digit_def)

interpretation oid_first: byte_sink cbb_ok "contents 0" dead "room mem" "shape 0" "\<lambda>s v. add_first mem s v"
  "\<lambda>v. dotted [fst (oid_first v), snd (oid_first v)]" "\<lambda>_. True" "\<lambda>_. True" for mem
proof -
  have u: "unat (v - 80) = unat v - 80" if "80 \<le> v" for v :: u64
    using that by (subst unat_sub) (simp_all add: word_le_nat_alt)
  have le: "80 \<le> v \<longleftrightarrow> 80 \<le> unat v" for v :: u64 by (simp add: word_le_nat_alt)
  have enc: "(if 80 \<le> v then [50, 46] @ decimal (unat (v - 80))
      else decimal (unat (v div 40)) @ [46] @ decimal (unat (v mod 40))) =
      dotted [fst (oid_first v), snd (oid_first v)]" for v :: u64
    by (simp add: oid_first_def u decimal_2 le unat_div unat_mod del: One_nat_def)
  note s1 = byte_sink_seq [OF byte_sink_comp [OF bytes.byte_sink_axioms [of 0 mem], where f = "\<lambda>_. [50, 46]"]
      byte_sink_comp [OF decimal.byte_sink_axioms [of 0 mem], where f = "\<lambda>v. v - 80"]]
  note s2 = byte_sink_seq [OF byte_sink_comp [OF decimal.byte_sink_axioms [of 0 mem], where f = "\<lambda>v. v div 40"]
      byte_sink_seq [OF byte_sink_comp [OF u8.byte_sink_axioms [of 0 mem], where f = "\<lambda>_. 46"]
        byte_sink_comp [OF decimal.byte_sink_axioms [of 0 mem], where f = "\<lambda>v. v mod 40"]]]
  from byte_sink_if [OF s1 s2, where b = "\<lambda>v. 80 \<le> v"]
  show "byte_sink cbb_ok (contents 0) dead (room mem) (shape 0) (\<lambda>s v. add_first mem s v)
      (\<lambda>v. dotted [fst (oid_first v), snd (oid_first v)]) (\<lambda>_. True) (\<lambda>_. True)"
    unfolding enc by (simp add: add_first_def [abs_def] cong: if_cong)
qed

definition oid_of_words :: "u64 list \<Rightarrow> nat list" where
  "oid_of_words ws = (case ws of [] \<Rightarrow> [] | v # vs \<Rightarrow> fst (oid_first v) # snd (oid_first v) # map unat vs)"

lemma oid_first_eq: "40 * fst (oid_first v) + snd (oid_first v) = unat v"
  by (simp add: oid_first_def)

lemma valid_oid_of_words: "valid_oid (oid_of_words (v # vs))"
proof -
  have "unat v < SIZE_MOD" using unsigned_less [of v, where 'a = nat] by simp
  then have "unat v - 80 \<le> SIZE_MOD - 81" by linarith
  moreover have "unat w < SIZE_MOD" for w :: u64 using unsigned_less [of w, where 'a = nat] by simp
  ultimately show ?thesis by (auto simp: oid_of_words_def oid_first_def)
qed

lemma oid_bytes_of_words: "oid_bytes (oid_of_words (v # vs)) = concat (map (\<lambda>w. base128 (unat w)) (v # vs))"
  by (simp add: oid_of_words_def oid_first_eq comp_def)

lemma oid_of_words_surj:
  assumes "valid_oid cs"
  shows "\<exists>v vs. cs = oid_of_words (v # vs)"
proof -
  obtain a b ns where cs: "cs = a # b # ns" using assms by (cases cs rule: valid_oid.cases) auto
  with assms have v: "a \<le> 2" "a < 2 \<longrightarrow> b \<le> 39" "b \<le> SIZE_MOD - 81" "\<forall>n\<in>set ns. n < SIZE_MOD" by auto
  have u: "unat (of_nat (40 * a + b) :: u64) = 40 * a + b" using v by (intro unat_of_nat_u64) linarith
  have "oid_first (of_nat (40 * a + b)) = (a, b)"
  proof (cases "a = 2")
    case True
    then show ?thesis unfolding oid_first_def u by simp
  next
    case False
    then have "a < 2" "b < 40" using v by auto
    then show ?thesis unfolding oid_first_def u by simp
  qed
  moreover have "map unat (map (of_nat :: nat \<Rightarrow> u64) ns) = ns" using v(4) by (induction ns) (simp_all add: unat_of_nat_u64)
  ultimately show ?thesis unfolding cs oid_of_words_def list.case by (metis fst_conv snd_conv)
qed

lemma dotted_of_words:
  "dotted (oid_of_words (v # vs)) =
    dotted [fst (oid_first v), snd (oid_first v)] @ concat (map (\<lambda>w. [46] @ decimal (unat w)) vs)"
proof -
  have "dotted (n # ns) = decimal n @ concat (map (\<lambda>m. [46] @ decimal m) ns)" for n ns
    by (induction ns arbitrary: n) simp_all
  then show ?thesis by (simp add: oid_of_words_def comp_def del: dotted.simps)
qed

text \<open>The sequence of calls after \<open>CBB_init\<close>, as one sink.\<close>

definition oid_text_body :: "allocator \<Rightarrow> CBB \<Rightarrow> u64 list \<Rightarrow> bool \<times> CBB" where
  "oid_text_body mem s ws = (case add_first mem s (hd ws) of
      (False, c) \<Rightarrow> (False, c)
    | (True, c) \<Rightarrow> (case add_components mem c (tl ws) of
        (False, c) \<Rightarrow> (False, c)
      | (True, c) \<Rightarrow> CBB_add_u8 mem c 0 0))"

lemma oid_text_body_True:
  assumes ok: "cbb_ok s" and c: "contents 0 s = Some []" and b: "oid_text_body mem s (v # vs) = (True, s')"
  shows "cbb_ok s' \<and> contents 0 s' = Some (dotted (oid_of_words (v # vs)) @ [0])"
proof -
  obtain s1 s2 where p: "add_first mem s v = (True, s1)" "add_components mem s1 vs = (True, s2)"
    "CBB_add_u8 mem s2 0 0 = (True, s')"
    using b by (auto simp: oid_text_body_def split: prod.splits bool.splits)
  from oid_first.put_True [OF ok TrueI p(1)] c have s1: "cbb_ok s1"
    "contents 0 s1 = Some (dotted [fst (oid_first v), snd (oid_first v)])" by auto
  from dot_decimal.put_list_True [OF s1(1) _ p(2)] s1(2) have s2: "cbb_ok s2"
    "contents 0 s2 = Some (dotted (oid_of_words (v # vs)))"
    by (auto simp: list_all_iff dotted_of_words simp del: dotted.simps)
  from u8.put_True [OF s2(1) TrueI p(3)] s2(2) show ?thesis by auto
qed

lemma oid_text_body_room:
  assumes ok: "cbb_ok s" and c: "contents 0 s = Some []"
    and r: "room mem s (length (dotted (oid_of_words (v # vs)) @ [0]))"
  shows "\<exists>s'. oid_text_body mem s (v # vs) = (True, s') \<and> room mem s' (length (dotted (oid_of_words (v # vs)) @ [0]))"
proof -
  let ?n = "length (dotted (oid_of_words (v # vs)) @ [0])" and ?f = "dotted [fst (oid_first v), snd (oid_first v)]"
  have "room mem s (length ([] @ ?f))" using r by (rule room_mono) (simp add: dotted_of_words del: dotted.simps)
  then have "fst (add_first mem s v)" by (intro oid_first.put_room [OF ok c]) simp_all
  then obtain s1 where p1: "add_first mem s v = (True, s1)" by (elim fst_TrueE)
  from oid_first.put_True [OF ok TrueI p1] c r have s1: "cbb_ok s1" "contents 0 s1 = Some ?f" "room mem s1 ?n" by auto
  have "room mem s1 (length (?f @ concat (map (\<lambda>w. [46] @ decimal (unat w)) vs)))"
    using s1(3) by (rule room_mono) (simp add: dotted_of_words del: dotted.simps)
  then have "fst (add_components mem s1 vs)" by (intro dot_decimal.put_list_room [OF s1(1,2)]) (simp_all add: list_all_iff)
  then obtain s2 where p2: "add_components mem s1 vs = (True, s2)" by (elim fst_TrueE)
  from dot_decimal.put_list_True [OF s1(1) _ p2] s1(2,3) have s2: "cbb_ok s2"
    "contents 0 s2 = Some (dotted (oid_of_words (v # vs)))" "room mem s2 ?n"
    by (auto simp: list_all_iff dotted_of_words simp del: dotted.simps)
  then have "fst (CBB_add_u8 mem s2 0 0)" by (intro u8.put_room [OF s2(1,2)]) simp_all
  then obtain s3 where p3: "CBB_add_u8 mem s2 0 0 = (True, s3)" by (elim fst_TrueE)
  have "oid_text_body mem s (v # vs) = (True, s3)" using p1 p2 p3 by (simp add: oid_text_body_def)
  moreover have "room mem s3 ?n" using u8.put_True [OF s2(1) TrueI p3] s2(3) by blast
  ultimately show ?thesis by blast
qed

lemma CBS_asn1_oid_to_text_words:
  "CBS_asn1_oid_to_text mem (oid_bytes (oid_of_words (v # vs))) = (case CBB_init mem 32 of
      (False, _) \<Rightarrow> None
    | (True, cbb) \<Rightarrow> (case oid_text_body mem cbb (v # vs) of
        (False, _) \<Rightarrow> None
      | (True, cbb) \<Rightarrow> fst (CBB_finish mem cbb 0 True)))"
proof -
  have "parse_base128_integer (oid_bytes (oid_of_words (v # vs))) =
      (Some v, concat (map (\<lambda>w. base128 (unat w)) vs))"
    unfolding oid_bytes_of_words using base128.dec_enc by simp
  then show ?thesis unfolding CBS_asn1_oid_to_text_eq oid_text_body_def
    by (simp add: oid_to_text_loop_put split: prod.split bool.split)
qed

lemma CBS_asn1_oid_to_text_sound:
  assumes "CBS_asn1_oid_to_text mem cbs = Some t"
  shows "\<exists>cs. valid_oid cs \<and> cbs = oid_bytes cs \<and> t = dotted cs @ [0]"
proof -
  obtain s v copy s1 s2 where i: "CBB_init mem 32 = (True, s)" and v: "parse_base128_integer cbs = (Some v, copy)"
    and f: "add_first mem s v = (True, s1)" and l: "oid_to_text_loop mem s1 copy = (True, s2)"
    using assms by (auto simp: CBS_asn1_oid_to_text_eq split: prod.splits bool.splits option.splits)
  from oid_to_text_loop_True [OF l] obtain vs where vs: "copy = concat (map (\<lambda>w :: u64. base128 (unat w)) vs)" by blast
  have cbs: "cbs = oid_bytes (oid_of_words (v # vs))"
    using base128.dec_sound [OF v] vs by (simp add: oid_bytes_of_words)
  obtain s3 where b: "oid_text_body mem s (v # vs) = (True, s3)" and t: "fst (CBB_finish mem s3 0 True) = Some t"
    using assms unfolding cbs CBS_asn1_oid_to_text_words i by (auto split: prod.splits bool.splits)
  from CBB_init_True [OF i] have "cbb_ok s" "contents 0 s = Some []" by simp_all
  from oid_text_body_True [OF this b] have s3: "cbb_ok s3" "contents 0 s3 = Some (dotted (oid_of_words (v # vs)) @ [0])"
    by simp_all
  from t obtain s4 where "CBB_finish mem s3 0 True = (Some t, s4)" by (metis eq_fst_iff)
  from CBB_finish_Some [OF s3(1) this] s3(2) have "t = dotted (oid_of_words (v # vs)) @ [0]" by simp
  with cbs valid_oid_of_words show ?thesis by blast
qed

lemma CBS_asn1_oid_to_text_complete:
  assumes g: "\<And>k. grants mem k" and v: "valid_oid cs" and len: "length (dotted cs) < 2 ^ 61"
  shows "CBS_asn1_oid_to_text mem (oid_bytes cs) = Some (dotted cs @ [0])"
proof -
  obtain v vs where cs: "cs = oid_of_words (v # vs)" using oid_of_words_surj [OF v] by blast
  obtain s where i: "CBB_init mem 32 = (True, s)" using CBB_init_succeeds [OF g, of 32] by auto
  from CBB_init_True [OF i] have s: "cbb_ok s" "contents 0 s = Some []" by simp_all
  have r: "room mem s (length (dotted cs @ [0]))" using len by (intro CBB_init_room [OF g i]) simp_all
  from oid_text_body_room [OF s r [unfolded cs]] obtain s3 where b: "oid_text_body mem s (v # vs) = (True, s3)"
    and r3: "room mem s3 (length (dotted cs @ [0]))" unfolding cs by blast
  from oid_text_body_True [OF s b] have s3: "cbb_ok s3" "contents 0 s3 = Some (dotted cs @ [0])" by (simp_all add: cs)
  from CBB_finish_succeeds [OF s3 r3] b i show ?thesis
    unfolding cs CBS_asn1_oid_to_text_words by auto
qed

end
