(* ===== verification/RoundTrip.thy ===== *)
theory RoundTrip
  imports OID "HOL-Library.Code_Target_Nat"
begin

text \<open>
  The builder and the cursor together: what is written with one is read back by the other.
\<close>

section \<open>A client of the two interfaces\<close>

text \<open>
  A value written by a sink of the builder into a fresh builder and finished is read back by any reader
  whose wire format is the encoding of the sink.
\<close>

locale codec =
  sink: byte_sink cbb_ok "contents 0" dead "room mem" "shape 0" put enc arg valid +
  wire: wire_format wenc dec wvalid
  for mem :: allocator and put :: "CBB \<Rightarrow> 'a \<Rightarrow> bool \<times> CBB" and enc and arg and valid
    and wenc :: "'b \<Rightarrow> byte list" and dec and wvalid +
  fixes val_of :: "'a \<Rightarrow> 'b"
  assumes enc_wenc: "arg x \<Longrightarrow> valid x \<Longrightarrow> enc x = wenc (val_of x) \<and> wvalid (val_of x)"
begin

lemma written_reads_back:
  assumes "CBB_init mem cap = (True, s)" and "cap < SIZE_MOD" and "arg x" and "put s x = (True, s1)"
    and "CBB_finish mem s1 0 outs = (Some out, s2)"
  shows "dec (out @ rest) = (Some (val_of x), rest)"
proof -
  from CBB_init_True [OF assms(1,2)] have s: "cbb_ok s" "contents 0 s = Some []" by simp_all
  from sink.put_True [OF s(1) assms(3,4)] s(2) have v: "valid x" and s1: "cbb_ok s1" "contents 0 s1 = Some (enc x)"
    by auto
  from CBB_finish_Some [OF s1(1) assms(5)] s1(2) have "out = enc x" by simp
  with enc_wenc [OF assms(3) v] wire.dec_enc show ?thesis by simp
qed

lemma write_succeeds:
  assumes g: "\<And>k. grants mem k" and cap: "cap \<le> 2 ^ 62" and x: "arg x" "valid x" and len: "length (enc x) \<le> 2 ^ 61"
  shows "\<exists>s s1 s2. CBB_init mem cap = (True, s) \<and> put s x = (True, s1) \<and> CBB_finish mem s1 0 True = (Some (enc x), s2)"
proof -
  obtain s where i: "CBB_init mem cap = (True, s)" using CBB_init_succeeds [OF g cap] by blast
  from CBB_init_True [OF i] cap have s: "cbb_ok s" "contents 0 s = Some []" by simp_all
  have room: "room mem s (length (enc x))" by (rule CBB_init_room [OF g i cap len])
  have "fst (put s x)" by (rule sink.put_room [OF s x]) (use room in simp)
  then obtain s1 where p: "put s x = (True, s1)" by (metis (full_types) eq_fst_iff)
  from sink.put_True [OF s(1) x(1) p] s(2) room have "cbb_ok s1" "contents 0 s1 = Some (enc x)" "room mem s1 (length (enc x))"
    by auto
  from CBB_finish_succeeds [OF this] i p show ?thesis by blast
qed

lemma round_trip:
  assumes "\<And>k. grants mem k" and "cap \<le> 2 ^ 62" and "arg x" "valid x" and "length (enc x) \<le> 2 ^ 61"
  shows "\<exists>s s1 s2 out. CBB_init mem cap = (True, s) \<and> put s x = (True, s1) \<and>
    CBB_finish mem s1 0 True = (Some out, s2) \<and> dec (out @ rest) = (Some (val_of x), rest)"
proof -
  from write_succeeds [OF assms] obtain s s1 s2 where w: "CBB_init mem cap = (True, s)" "put s x = (True, s1)"
    "CBB_finish mem s1 0 True = (Some (enc x), s2)" by blast
  have "cap < SIZE_MOD" using assms(2) by simp
  from written_reads_back [OF w(1) this assms(3) w(2,3)] w show ?thesis by blast
qed

end

interpretation uint64_codec: codec mem "\<lambda>s v. CBB_add_asn1_uint64 mem s 0 v"
  "\<lambda>v. the (close_asn1 CBS_ASN1_INTEGER (der_int (int (unat v))))" "\<lambda>_. True"
  "\<lambda>v. True \<and> close_asn1 CBS_ASN1_INTEGER (der_int (int (unat v))) \<noteq> None"
  "\<lambda>v. der_element CBS_ASN1_INTEGER (der_int (int (unat v)))" CBS_get_asn1_uint64 "\<lambda>_. True" "\<lambda>v. v" for mem
  unfolding CBB_add_asn1_uint64_eq CBS_get_asn1_uint64_eq
  by (intro codec.intro codec_axioms.intro uint64.element.byte_sink_axioms uint64.element.wire_format_axioms)
    (simp add: close_asn1_def split: if_splits)

interpretation int64_codec: codec mem "\<lambda>s v. CBB_add_asn1_int64 mem s 0 v"
  "\<lambda>v. the (close_asn1 CBS_ASN1_INTEGER (der_int (sint v)))" "\<lambda>_. True"
  "\<lambda>v. True \<and> close_asn1 CBS_ASN1_INTEGER (der_int (sint v)) \<noteq> None"
  "\<lambda>v. der_element CBS_ASN1_INTEGER (der_int (sint v))" CBS_get_asn1_int64 "\<lambda>_. True" "\<lambda>v. v" for mem
  unfolding CBB_add_asn1_int64_eq CBS_get_asn1_int64_eq
  by (intro codec.intro codec_axioms.intro int64.element.byte_sink_axioms int64.element.wire_format_axioms)
    (simp add: close_asn1_def split: if_splits)

interpretation bool_codec: codec mem "\<lambda>s v. CBB_add_asn1_bool mem s 0 v"
  "\<lambda>v. the (close_asn1 CBS_ASN1_BOOLEAN (der_bool (v \<noteq> 0)))" "\<lambda>_. True"
  "\<lambda>v. True \<and> close_asn1 CBS_ASN1_BOOLEAN (der_bool (v \<noteq> 0)) \<noteq> None"
  "\<lambda>v. der_element CBS_ASN1_BOOLEAN (der_bool v)" CBS_get_asn1_bool "\<lambda>_. True" "\<lambda>v. v \<noteq> 0" for mem
  unfolding CBB_add_asn1_bool_eq CBS_get_asn1_bool_eq
  by (intro codec.intro codec_axioms.intro bool.element.byte_sink_axioms bool.element.wire_format_axioms)
    (simp add: close_asn1_def split: if_splits)

interpretation octet_string_codec: codec mem "\<lambda>s data. CBB_add_asn1_octet_string mem s 0 data"
  "\<lambda>data. the (close_asn1 CBS_ASN1_OCTETSTRING data)" "\<lambda>data. length data < SIZE_MOD"
  "\<lambda>data. True \<and> close_asn1 CBS_ASN1_OCTETSTRING data \<noteq> None"
  "der_element CBS_ASN1_OCTETSTRING" "\<lambda>cbs. CBS_get_asn1 cbs CBS_ASN1_OCTETSTRING"
  "\<lambda>data. length data < 4294967296" "\<lambda>data. data" for mem
  unfolding CBB_add_asn1_octet_string_eq
  by (intro codec.intro codec_axioms.intro octet_string.element.byte_sink_axioms asn1.wire_format_axioms)
    (simp add: close_asn1_def split: if_splits)

definition add_string16 :: "allocator \<Rightarrow> CBB \<Rightarrow> nat \<Rightarrow> byte list \<Rightarrow> bool \<times> CBB" where
  "add_string16 mem s d data = in_child mem d (\<lambda>s. CBB_add_u16_length_prefixed mem s d)
     (\<lambda>c. CBB_add_bytes mem c (Suc d) data) s"

interpretation string16_codec: codec mem "\<lambda>s data. add_string16 mem s 0 data"
  "\<lambda>data. the (close_prefixed 2 data)" "\<lambda>data. length data < SIZE_MOD"
  "\<lambda>data. True \<and> close_prefixed 2 data \<noteq> None" "length_prefixed 2" CBS_get_u16_length_prefixed
  "\<lambda>data. length data < 256 ^ 2" "\<lambda>data. data" for mem
  unfolding add_string16_def
  by (intro codec.intro codec_axioms.intro string16.element.byte_sink_axioms prefixed16.wire_format_axioms)
    (simp add: close_prefixed_def split: if_splits)

lemma close_small: "length data \<le> 0xfffffffe \<Longrightarrow>
    close_asn1 tag data \<noteq> None \<and> length (the (close_asn1 tag data)) \<le> 16 + length data"
proof -
  assume "length data \<le> 0xfffffffe"
  moreover have "length (der_tag tag) \<le> 6" by (rule length_der_tag)
  moreover have "length (der_length (length data)) \<le> 5"
    using octets_needed_le [of "length data"] by (auto simp: length_der_length)
  ultimately show ?thesis by (simp add: close_asn1_def der_element_def)
qed

section \<open>Properties\<close>

text \<open>Builders for the concrete instances: a fresh one, one with an open child, and one that holds a SET OF
  in the wrong order.\<close>

definition demo_start :: CBB where
  "demo_start = snd (CBB_init generous 4)"

definition demo_open :: CBB where
  "demo_open = cbb_run generous demo_start (Call_length_prefixed16 0)"

definition demo_set :: CBB where
  "demo_set = cbb_run generous (cbb_run generous (cbb_run generous demo_start (Call_asn1 0 0x20000011))
     (Call_asn1_uint64 1 300)) (Call_asn1_bool 1 1)"

lemma demo_start_reachable: "cbb_reachable demo_start"
  unfolding demo_start_def by (rule reach_init [OF prod.collapse [symmetric]]) simp

lemma demo_open_reachable: "cbb_reachable demo_open"
  unfolding demo_open_def by (rule reach_step [OF demo_start_reachable step_call]) simp

lemma demo_set_reachable: "cbb_reachable demo_set"
  unfolding demo_set_def
  by (rule reach_step [OF reach_step [OF reach_step [OF demo_start_reachable step_call] step_call] step_call]) simp_all

lemma demo_open_contents: "contents 0 demo_open = Some [0, 0]"
  by code_simp

lemma demo_open_room: "room generous demo_open (length [0 :: byte, 0])"
proof -
  have "map_option b_cap (cbb_base demo_open) = Some 4" by code_simp
  then show ?thesis by (auto simp: room_def fits_def)
qed

text \<open>An unsigned 64-bit integer written with \<open>CBB_add_asn1_uint64\<close> into a fresh builder and finished
  is read back by \<open>CBS_get_asn1_uint64\<close>, whatever follows it in the input; with memory available every
  call of the sequence succeeds.\<close>

lemma asn1_uint64_round_trip:
  assumes "\<forall>k. grants mem k" and "cap \<le> 2 ^ 62"
  shows "\<exists>s s1 s2 out. CBB_init mem cap = (True, s) \<and> CBB_add_asn1_uint64 mem s 0 v = (True, s1) \<and>
    CBB_finish mem s1 0 True = (Some out, s2) \<and> CBS_get_asn1_uint64 (out @ rest) = (Some v, rest)"
proof -
  have "length (der_int (int (unat v))) \<le> 9" by (rule length_der_int_u64)
  with close_small [of "der_int (int (unat v))" CBS_ASN1_INTEGER] assms show ?thesis
    by (intro uint64_codec.round_trip) simp_all
qed

text \<open>C23: A signed 64-bit integer written with \<open>CBB_add_asn1_int64\<close> is read back by \<open>CBS_get_asn1_int64\<close>.\<close>

theorem asn1_int64_round_trip:
  assumes "\<forall>k. grants mem k" and "cap \<le> 2 ^ 62"
  shows "\<exists>s s1 s2 out. CBB_init mem cap = (True, s) \<and> CBB_add_asn1_int64 mem s 0 v = (True, s1) \<and>
    CBB_finish mem s1 0 True = (Some out, s2) \<and> CBS_get_asn1_int64 (out @ rest) = (Some v, rest)"
proof -
  have "length (der_int (sint v)) \<le> 8" by (rule length_der_int_s64)
  with close_small [of "der_int (sint v)" CBS_ASN1_INTEGER] assms show ?thesis
    by (intro int64_codec.round_trip) simp_all
qed

theorem asn1_int64_round_trip_witness:
  "\<exists>s s1 s2 out. CBB_init generous 0 = (True, s) \<and> CBB_add_asn1_int64 generous s 0 (- 129) = (True, s1) \<and>
    CBB_finish generous s1 0 True = (Some out, s2) \<and> CBS_get_asn1_int64 (out @ []) = (Some (- 129), [])"
  by (rule asn1_int64_round_trip) (simp_all add: generous_def)

text \<open>An octet string of fewer than \<open>2 ^ 32 - 1\<close> bytes written with \<open>CBB_add_asn1_octet_string\<close> is read
  back by \<open>CBS_get_asn1\<close>.\<close>

lemma asn1_octet_string_round_trip:
  assumes "\<forall>k. grants mem k" and "cap \<le> 2 ^ 62" and "length data \<le> 0xfffffffe"
  shows "\<exists>s s1 s2 out. CBB_init mem cap = (True, s) \<and> CBB_add_asn1_octet_string mem s 0 data = (True, s1) \<and>
    CBB_finish mem s1 0 True = (Some out, s2) \<and> CBS_get_asn1 (out @ rest) CBS_ASN1_OCTETSTRING = (Some data, rest)"
  using close_small [of data CBS_ASN1_OCTETSTRING] assms
  by (intro octet_string_codec.round_trip) simp_all

text \<open>A string opened with \<open>CBB_add_u16_length_prefixed\<close>, filled with \<open>CBB_add_bytes\<close> and closed by
  flushing the parent is read back by \<open>CBS_get_u16_length_prefixed\<close>.\<close>

lemma u16_length_prefixed_round_trip:
  assumes "\<forall>k. grants mem k" and "cap \<le> 2 ^ 62" and "length data < 65536"
  shows "\<exists>s s1 s2 out. CBB_init mem cap = (True, s) \<and> add_string16 mem s 0 data = (True, s1) \<and>
    CBB_finish mem s1 0 True = (Some out, s2) \<and> CBS_get_u16_length_prefixed (out @ rest) = (Some data, rest)"
  using assms by (intro string16_codec.round_trip) (simp_all add: close_prefixed_def length_prefixed_def)

text \<open>C3: \<open>CBS_get_any_asn1_element\<close> accepts exactly the definite-length DER encodings with contents shorter
  than \<open>2 ^ 32\<close> bytes: minimal tag and minimal length. It returns the whole element, its tag and the
  length of its header, and leaves the cursor right after it.\<close>

theorem any_asn1_element_exact:
  "CBS_get_any_asn1_element cbs = (Some e, rest) \<longleftrightarrow>
    (\<exists>t c. length c < 2 ^ 32 \<and> cbs = der_element t c @ rest \<and>
      e = \<lparr>el_out = der_element t c, el_tag = t, el_header_len = length (der_tag t @ der_length (length c)),
           el_ber_found = False\<rparr>)"
  unfolding CBS_get_any_asn1_element_iff
  by (rule iffI; elim exE conjE; (rule exI)+; (intro conjI; (assumption)?; auto))

text \<open>\<open>CBS_get_asn1_int64\<close> accepts exactly the minimal two's-complement encodings of the 64-bit signed
  integers, and returns the number.\<close>

lemma asn1_int64_exact:
  "CBS_get_asn1_int64 cbs = (Some v, rest) \<longleftrightarrow>
    cbs = der_element CBS_ASN1_INTEGER (der_int (sint v)) @ rest \<and> twos_value (der_int (sint v)) = sint v"
  by (simp add: CBS_get_asn1_int64_iff twos_value_der_int)

text \<open>\<open>CBS_get_asn1_uint64\<close> accepts exactly the minimal encodings of the numbers below \<open>2 ^ 64\<close>, and
  returns the number.\<close>

lemma asn1_uint64_exact:
  "CBS_get_asn1_uint64 cbs = (Some v, rest) \<longleftrightarrow>
    (\<exists>bs. minimal_int bs \<and> twos_value bs = int (unat v) \<and> cbs = der_element CBS_ASN1_INTEGER bs @ rest)"
  using der_int_twos_value minimal_der_int twos_value_der_int by (metis CBS_get_asn1_uint64_iff)

text \<open>DER elements form a prefix-free code: no input has two readings.\<close>

lemma der_elements_unambiguous:
  assumes "length c < 2 ^ 32" and "length c' < 2 ^ 32" and "der_element t c @ r = der_element t' c' @ r'"
  shows "t = t' \<and> c = c' \<and> r = r'"
  using asn1_any.prefix_free [of "(c, t)" "(c', t')" r r'] assms by simp

text \<open>C1: Every state a client can bring a builder to, with allocations failing at any point, satisfies the
  builder's invariant: the length never passes the capacity of the block, and while no error has
  occurred the open children are nested inside the written bytes.\<close>

theorem builder_invariant:
  assumes "cbb_reachable s"
  shows "cbb_ok s"
  using assms by (rule reachable_ok)

theorem builder_invariant_witness: "cbb_ok demo_open"
  by (rule builder_invariant [OF demo_open_reachable])

text \<open>C30: Errors are final: once a builder is dead (an error occurred, or it was cleaned up), no sequence of
  calls revives it, and \<open>CBB_finish\<close> gives no output.\<close>

theorem builder_error_final:
  assumes "cbb_reachable s" and "dead s" and "cbb_step\<^sup>*\<^sup>* s s'"
  shows "dead s' \<and> fst (CBB_finish mem s' 0 outs) = None"
proof -
  from assms(3,1,2) have "cbb_reachable s' \<and> dead s'"
  proof (induction rule: rtranclp_induct)
    case (step y z)
    then obtain mem call where "z = cbb_run mem y call" by (auto elim: cbb_stepE)
    with step show ?case using cbb_run_dead reachable_ok reach_step by blast
  qed simp
  then have s': "cbb_ok s'" "dead s'" using reachable_ok by simp_all
  have "fst (CBB_finish mem s' 0 outs) = None"
  proof (cases "fst (CBB_finish mem s' 0 outs)")
    case (Some out)
    with CBB_finish_Some [OF s'(1)] dead_contents [OF s'(2)] show ?thesis by (metis option.distinct(1) prod.collapse)
  qed
  with s' show ?thesis by simp
qed

theorem builder_error_final_witness:
  "dead (cbb_run generous CBB_zero (Call_u8 0 7)) \<and>
    fst (CBB_finish generous (cbb_run generous CBB_zero (Call_u8 0 7)) 0 True) = None"
proof (rule builder_error_final [of CBB_zero])
  have "CBB_init \<lparr>grants = (\<lambda>_. False), junk = (\<lambda>_. 0)\<rparr> 4 = (False, CBB_zero)"
    by (simp add: CBB_init_def OPENSSL_malloc_def malloc_def Let_def)
  then show "cbb_reachable CBB_zero" by (rule reach_init) simp
  show "dead CBB_zero" by (rule CBB_zero_dead)
  show "cbb_step\<^sup>*\<^sup>* CBB_zero (cbb_run generous CBB_zero (Call_u8 0 7))"
    by (rule r_into_rtranclp, rule step_call) simp
qed

text \<open>C2: Flushing refines the specification of nested frames: if the frames below an object render to
  \<open>w\<close> and there is room, the flush succeeds, closes every descendant and leaves exactly \<open>w\<close>.\<close>

theorem flush_renders:
  assumes "cbb_reachable s" and "contents d s = Some w" and "room mem s (length w)"
  shows "\<exists>s' b. CBB_flush mem s d = (True, s') \<and> cbb_chain s' = shape d s \<and> cbb_base s' = Some b \<and> written b = w"
proof -
  from CBB_flush_succeeds [OF reachable_ok [OF assms(1)] assms(2,3)] obtain s' where f: "CBB_flush mem s d = (True, s')"
    by blast
  from CBB_flush_True [OF f reachable_ok [OF assms(1)]] f assms(2) show ?thesis by auto
qed

theorem flush_renders_witness:
  "\<exists>s' b. CBB_flush generous demo_open 0 = (True, s') \<and> cbb_chain s' = shape 0 demo_open \<and>
    cbb_base s' = Some b \<and> written b = [0, 0]"
  by (rule flush_renders [OF demo_open_reachable demo_open_contents demo_open_room])

text \<open>Conversely a flush that succeeds has written what the frames render to, and one that fails leaves a
  dead builder.\<close>

lemma flush_sound:
  assumes "cbb_reachable s" and "d < length (cbb_chain s)"
  shows "case CBB_flush mem s d of
      (True, s') \<Rightarrow> contents d s \<noteq> None \<and> contents d s' = contents d s
    | (False, s') \<Rightarrow> dead s'"
proof (cases "CBB_flush mem s d")
  case (Pair q s')
  note ok = reachable_ok [OF assms(1)]
  show ?thesis using Pair CBB_flush_True [OF _ ok] CBB_flush_False [OF _ ok] assms(2)
    by (cases q) fastforce+
qed

text \<open>C29: \<open>CBB_flush_asn1_set_of\<close> replaces the contents of the object by the same elements in ascending
  order.\<close>

theorem set_of_sorted:
  assumes "cbb_reachable s" and "CBB_flush_asn1_set_of mem s d = (True, s')"
  shows "\<exists>w es es'. contents d s = Some w \<and> list_all is_der_element es \<and>
    w = take (contents_start (cbb_chain s ! d)) w @ concat es \<and> mset es' = mset es \<and> sorted_wrt byte_le es' \<and>
    contents d s' = Some (take (contents_start (cbb_chain s ! d)) w @ concat es')"
proof -
  from flush_set_of_True [OF reachable_ok [OF assms(1)] assms(2)] obtain w es where
    "contents d s = Some w" "concat es = drop (contents_start (cbb_chain s ! d)) w" "list_all is_der_element es"
    "contents d s' = Some (take (contents_start (cbb_chain s ! d)) w @ concat (qsort_set_of es))" by auto
  with qsort_set_of_sorts [of es] show ?thesis
    by (intro exI [of _ w] exI [of _ es] exI [of _ "qsort_set_of es"]) simp
qed

theorem set_of_sorted_witness:
  "\<exists>w es es'. contents 1 demo_set = Some w \<and> list_all is_der_element es \<and>
    w = take (contents_start (cbb_chain demo_set ! 1)) w @ concat es \<and> mset es' = mset es \<and>
    sorted_wrt byte_le es' \<and> contents 1 (snd (CBB_flush_asn1_set_of generous demo_set 1)) =
      Some (take (contents_start (cbb_chain demo_set ! 1)) w @ concat es')"
proof -
  have "fst (CBB_flush_asn1_set_of generous demo_set 1)" by code_simp
  then have "CBB_flush_asn1_set_of generous demo_set 1 =
      (True, snd (CBB_flush_asn1_set_of generous demo_set 1))" by (metis (full_types) prod.collapse)
  from set_of_sorted [OF demo_set_reachable this] show ?thesis .
qed

text \<open>Discarding a child restores the parent to what it held when the child was opened.\<close>

lemma discard_restores_parent:
  assumes "cbb_reachable s" and "CBB_add_u16_length_prefixed mem s d = (True, s1)"
    and "length data < SIZE_MOD" and "CBB_add_bytes mem s1 (Suc d) data = (True, s2)"
  shows "contents d (CBB_discard_child s2 d) = contents d s"
proof -
  note ok = reachable_ok [OF assms(1)]
  from prefixed16.open_True [OF ok assms(2)] obtain w where w: "contents d s = Some w" "cbb_ok s1"
    "contents (Suc d) s1 = Some (w @ replicate 2 0)" "cbb_chain s1 = shape d s @ [prefix_child_at (length w) 2]"
    "length (shape d s) = Suc d" by auto
  from bytes.put_True [OF w(2) assms(3,4)] w(3) have s2: "cbb_ok s2"
    "contents (Suc d) s2 = Some (w @ replicate 2 0 @ data)" "shape (Suc d) s2 = shape (Suc d) s1" by auto
  have "cbb_chain s2 ! Suc d = shape (Suc d) s2 ! Suc d" by (simp add: shape_def)
  also have "\<dots> = prefix_child_at (length w) 2" using s2(3) w(4,5) by (simp add: shape_def nth_append)
  finally show ?thesis using CBB_discard_child_contents [OF s2(1,2)] w(1) by simp
qed

text \<open>C24: Object identifiers survive the round trip through text: the dotted form of any identifier whose
  components fit 64 bits is encoded by \<open>CBB_add_asn1_oid_from_text\<close> and printed back, with its terminator,
  by \<open>CBS_asn1_oid_to_text\<close>.\<close>

theorem oid_text_round_trip:
  assumes "\<forall>k. grants mem k" and "valid_oid cs" and "length (dotted cs) < 2 ^ 61" and "length (oid_bytes cs) \<le> 2 ^ 61"
    and "cap \<le> 2 ^ 62"
  shows "\<exists>s s1 s2 out. CBB_init mem cap = (True, s) \<and> CBB_add_asn1_oid_from_text mem s 0 (dotted cs) = (True, s1) \<and>
    CBB_finish mem s1 0 True = (Some out, s2) \<and> CBS_asn1_oid_to_text mem out = Some (dotted cs @ [0])"
proof -
  have g: "\<And>k. grants mem k" using assms(1) by simp
  obtain s where i: "CBB_init mem cap = (True, s)" using CBB_init_succeeds [OF g assms(5)] by blast
  from CBB_init_True [OF i] assms(5) have s: "cbb_ok s" "contents 0 s = Some []" by simp_all
  have r: "room mem s (length ([] @ oid_bytes cs))" using CBB_init_room [OF g i assms(5,4)] by simp
  from oid_from_text_succeeds [OF s assms(2) r] obtain s1 where
    a: "CBB_add_asn1_oid_from_text mem s 0 (dotted cs) = (True, s1)" by blast
  define ws :: "u64 list" where "ws = (case cs of a # b # ns \<Rightarrow> of_nat (40 * a + b) # map of_nat ns | _ \<Rightarrow> [])"
  from CBB_flush_succeeds [OF s] r obtain f where f: "CBB_flush mem s 0 = (True, f)" by (auto intro: room_mono)
  from CBB_flush_True [OF f s(1)] s r have f': "cbb_ok f" "contents 0 f = Some []" "room mem f (length (oid_bytes cs))"
    by auto
  have p: "put_list (\<lambda>s. add_base128_integer mem s 0) f ws = (True, s1)"
    using a unfolding oid_from_text_eq [OF assms(2)] f by (simp add: ws_def)
  from base128.put_list_True [OF f'(1) _ p] f'(2,3) oid_words(2) [OF assms(2)] have s1: "cbb_ok s1"
    "contents 0 s1 = Some (oid_bytes cs)" "room mem s1 (length (oid_bytes cs))" by (auto simp: list_all_iff ws_def)
  from CBB_finish_succeeds [OF s1] obtain s2 where fin: "CBB_finish mem s1 0 True = (Some (oid_bytes cs), s2)" by blast
  from CBS_asn1_oid_to_text_complete [OF g assms(2,3)] i a fin show ?thesis by blast
qed

theorem oid_text_round_trip_witness:
  "\<exists>s s1 s2 out. CBB_init generous 8 = (True, s) \<and>
    CBB_add_asn1_oid_from_text generous s 0 (dotted [1, 2, 840, 113554]) = (True, s1) \<and>
    CBB_finish generous s1 0 True = (Some out, s2) \<and>
    CBS_asn1_oid_to_text generous out = Some (dotted [1, 2, 840, 113554] @ [0])"
proof (rule oid_text_round_trip)
  have "length (dotted [1, 2, 840, 113554]) < 100" by code_simp
  then show "length (dotted [1, 2, 840, 113554]) < 2 ^ 61" by simp
  have "length (oid_bytes [1, 2, 840, 113554]) \<le> 100" by code_simp
  then show "length (oid_bytes [1, 2, 840, 113554]) \<le> 2 ^ 61" by simp
qed (simp_all add: generous_def)

text \<open>\<open>CBB_add_asn1_oid_from_text\<close> accepts only the canonical dotted form of a valid identifier, and
  appends exactly its contents octets.\<close>

lemma oid_from_text_exact:
  assumes "cbb_reachable s" and "CBB_add_asn1_oid_from_text mem s d str = (True, s')"
  shows "\<exists>cs w. valid_oid cs \<and> str = dotted cs \<and> contents d s = Some w \<and> contents d s' = Some (w @ oid_bytes cs)"
  using oid_from_text_True [OF reachable_ok [OF assms(1)] assms(2)] by blast

text \<open>\<open>CBS_asn1_oid_to_text\<close> prints only valid encodings: when it returns a string, the input was the
  encoding of an identifier with minimal base-128 components, and the string is its dotted form.\<close>

lemma oid_to_text_exact:
  assumes "CBS_asn1_oid_to_text mem cbs = Some t"
  shows "\<exists>cs. valid_oid cs \<and> cbs = oid_bytes cs \<and> t = dotted cs @ [0]"
  using assms by (rule CBS_asn1_oid_to_text_sound)

end
