(* ===== verification/Text_RoundTrip.thy ===== *)
theory Text_RoundTrip
  imports Unicode RoundTrip
begin

text \<open>
  The character encodings written by the builder and read back by the cursor, as instances of \<open>codec\<close>.
\<close>

interpretation utf8_codec: codec mem "\<lambda>s u. cbb_add_utf8 mem s 0 u" "\<lambda>u. utf8_bytes (unat u)"
  is_valid_code_point "\<lambda>_. True" "\<lambda>u. utf8_bytes (unat u)" cbs_get_utf8 is_valid_code_point "\<lambda>u. u" for mem
  by (intro codec.intro codec_axioms.intro utf8.byte_sink_axioms utf8.wire_format_axioms) simp

interpretation ucs2_codec: codec mem "\<lambda>s u. cbb_add_ucs2_be mem s 0 u" "\<lambda>u. be_bytes 2 (unat (ucast u :: u16))"
  "\<lambda>u. u \<le> 0xffff \<and> is_valid_code_point u" "\<lambda>_. True" "\<lambda>u. be_bytes 2 (unat (ucast u :: u16))" cbs_get_ucs2_be
  "\<lambda>u. u \<le> 0xffff \<and> is_valid_code_point u" "\<lambda>u. u" for mem
  by (intro codec.intro codec_axioms.intro ucs2.byte_sink_axioms ucs2.wire_format_axioms) simp

section \<open>Properties\<close>

text \<open>A valid code point written with \<open>cbb_add_utf8\<close> into a fresh builder and finished is read back by
  \<open>cbs_get_utf8\<close>, whatever follows it; with memory available every call succeeds, and the number of bytes is the
  one \<open>cbb_get_utf8_len\<close> announces.\<close>

lemma utf8_round_trip:
  assumes "\<forall>k. grants mem k" and "cap \<le> 2 ^ 62" and "is_valid_code_point u"
  shows "\<exists>s s1 s2 out. CBB_init mem cap = (True, s) \<and> cbb_add_utf8 mem s 0 u = (True, s1) \<and>
    CBB_finish mem s1 0 True = (Some out, s2) \<and> cbs_get_utf8 (out @ rest) = (Some u, rest) \<and>
    length out = cbb_get_utf8_len u"
proof -
  have "length (utf8_bytes (unat u)) \<le> 2 ^ 61" by (rule order_trans [OF length_utf8_bytes]) simp
  with assms obtain s s1 s2 where w: "CBB_init mem cap = (True, s)" "cbb_add_utf8 mem s 0 u = (True, s1)"
    "CBB_finish mem s1 0 True = (Some (utf8_bytes (unat u)), s2)"
    using utf8_codec.write_succeeds [of mem cap u] by auto
  with cbs_get_utf8_complete [OF assms(3)] cbb_get_utf8_len_length [OF assms(3)] show ?thesis by metis
qed

text \<open>\<open>cbs_get_utf8\<close> accepts exactly the shortest UTF-8 form of the valid code points: no overlong forms, no
  surrogates, no non-characters, nothing above \<open>0x10ffff\<close>; and it leaves the rest of the input.\<close>

lemma utf8_exact:
  "cbs_get_utf8 cbs = (Some u, rest) \<longleftrightarrow> is_valid_code_point u \<and> cbs = utf8_bytes (unat u) @ rest"
  by (rule utf8.dec_iff)

text \<open>A valid code point of the basic plane written with \<open>cbb_add_ucs2_be\<close> is read back by \<open>cbs_get_ucs2_be\<close>.\<close>

lemma ucs2_round_trip:
  assumes "\<forall>k. grants mem k" and "cap \<le> 2 ^ 62" and "u \<le> 0xffff" and "is_valid_code_point u"
  shows "\<exists>s s1 s2 out. CBB_init mem cap = (True, s) \<and> cbb_add_ucs2_be mem s 0 u = (True, s1) \<and>
    CBB_finish mem s1 0 True = (Some out, s2) \<and> cbs_get_ucs2_be (out @ rest) = (Some u, rest)"
  using assms by (intro ucs2_codec.round_trip) simp_all

end
