(* ===== verification/BER.thy ===== *)
theory BER
  imports CBB_State
begin

text \<open>
  Conversion of BER to DER, \<^verbatim>\<open>crypto/bytestring/ber.c\<close>: the walk that looks for indefinite lengths and
  constructed strings, the conversion itself, which reads from a cursor and writes to a builder, and the
  reader of implicitly tagged strings.
\<close>

section \<open>Operations\<close>

definition CBS_ASN1_UTF8STRING :: u32 where "CBS_ASN1_UTF8STRING = 0xc"
definition CBS_ASN1_NUMERICSTRING :: u32 where "CBS_ASN1_NUMERICSTRING = 0x12"
definition CBS_ASN1_PRINTABLESTRING :: u32 where "CBS_ASN1_PRINTABLESTRING = 0x13"
definition CBS_ASN1_T61STRING :: u32 where "CBS_ASN1_T61STRING = 0x14"
definition CBS_ASN1_VIDEOTEXSTRING :: u32 where "CBS_ASN1_VIDEOTEXSTRING = 0x15"
definition CBS_ASN1_IA5STRING :: u32 where "CBS_ASN1_IA5STRING = 0x16"
definition CBS_ASN1_GRAPHICSTRING :: u32 where "CBS_ASN1_GRAPHICSTRING = 0x19"
definition CBS_ASN1_VISIBLESTRING :: u32 where "CBS_ASN1_VISIBLESTRING = 0x1a"
definition CBS_ASN1_GENERALSTRING :: u32 where "CBS_ASN1_GENERALSTRING = 0x1b"
definition CBS_ASN1_UNIVERSALSTRING :: u32 where "CBS_ASN1_UNIVERSALSTRING = 0x1c"
definition CBS_ASN1_BMPSTRING :: u32 where "CBS_ASN1_BMPSTRING = 0x1e"

definition kMaxDepth :: nat where
  "kMaxDepth = 2048"

definition is_string_type :: "u32 \<Rightarrow> bool" where
  "is_string_type tag = List.member
     [CBS_ASN1_OCTETSTRING, CBS_ASN1_UTF8STRING, CBS_ASN1_NUMERICSTRING, CBS_ASN1_PRINTABLESTRING,
      CBS_ASN1_T61STRING, CBS_ASN1_VIDEOTEXSTRING, CBS_ASN1_IA5STRING, CBS_ASN1_GRAPHICSTRING,
      CBS_ASN1_VISIBLESTRING, CBS_ASN1_GENERALSTRING, CBS_ASN1_UNIVERSALSTRING, CBS_ASN1_BMPSTRING]
     (tag AND NOT CBS_ASN1_CONSTRUCTED)"

text \<open>The out parameter \<open>ber_found\<close> is the result of a walk that succeeds; it is a variable of the loop, set by
  every read and by every recursive call.\<close>

function cbs_find_ber :: "CBS \<Rightarrow> nat \<Rightarrow> bool option"
  and cbs_find_ber_loop :: "CBS \<Rightarrow> bool \<Rightarrow> nat \<Rightarrow> bool option" where
  "cbs_find_ber orig_in depth =
     (if depth > kMaxDepth then None else cbs_find_ber_loop orig_in False depth)"
| "cbs_find_ber_loop cbs ber_found depth =
     (if length cbs = 0 then Some ber_found
      else case CBS_get_any_ber_asn1_element cbs of
          (None, _) \<Rightarrow> None
        | (Some e, cbs') \<Rightarrow>
            if el_ber_found e then Some True
            else if el_tag e AND CBS_ASN1_CONSTRUCTED \<noteq> 0 then
              (if is_string_type (el_tag e) then Some True
               else case CBS_skip (el_out e) (el_header_len e) of
                   (None, _) \<Rightarrow> None
                 | (Some _, body) \<Rightarrow>
                     (case cbs_find_ber body (Suc depth) of
                        None \<Rightarrow> None
                      | Some ber_found \<Rightarrow> cbs_find_ber_loop cbs' ber_found depth))
            else cbs_find_ber_loop cbs' False depth)"
  by pat_completeness auto
termination
proof (relation "measure (\<lambda>x. case x of Inl (cbs, _) \<Rightarrow> 2 * length cbs + 1 | Inr (cbs, _, _) \<Rightarrow> 2 * length cbs)", goal_cases)
  case (3 cbs ber_found depth x y e u v contents)
  then show ?case
    using ber_element_consumes [of cbs e y] by (auto simp: CBS_skip_eq split: if_splits)
next
  case (4 cbs ber_found depth x y e)
  then show ?case using ber_element_consumes [of cbs e y] by auto
next
  case (5 cbs ber_found depth x y e)
  then show ?case using ber_element_consumes [of cbs e y] by auto
qed auto

declare cbs_find_ber.simps [simp del] cbs_find_ber_loop.simps [simp del]

definition is_eoc :: "nat \<Rightarrow> CBS \<Rightarrow> bool" where
  "is_eoc header_len body = (header_len = 2 \<and> length body = 2 \<and> OPENSSL_memcmp body [0, 0] = 0)"

text \<open>Where the contents of an element go: into the builder itself inside a constructed string, otherwise into a
  new child. The result is the depth of that builder and the string tag for the children.\<close>

definition convert_out_contents :: "allocator \<Rightarrow> CBB \<Rightarrow> nat \<Rightarrow> u32 \<Rightarrow> u32 \<Rightarrow> (nat \<times> u32) option \<times> CBB" where
  "convert_out_contents mem out d string_tag tag =
     (if string_tag \<noteq> 0 then
        (if tag AND NOT CBS_ASN1_CONSTRUCTED \<noteq> string_tag then (None, out) else (Some (d, string_tag), out))
      else let constructed_string = (tag AND CBS_ASN1_CONSTRUCTED \<noteq> 0 \<and> is_string_type tag);
               out_tag = (if constructed_string then tag AND NOT CBS_ASN1_CONSTRUCTED else tag);
               child_string_tag = (if constructed_string then out_tag else string_tag)
           in case CBB_add_asn1 mem out d out_tag of
                (False, out') \<Rightarrow> (None, out')
              | (True, out') \<Rightarrow> (Some (Suc d, child_string_tag), out'))"

text \<open>The test for an indefinite length.\<close>

definition is_indefinite :: "asn1_element \<Rightarrow> bool" where
  "is_indefinite e = (length (el_out e) = el_header_len e \<and> el_header_len e > 0 \<and>
     el_out e ! (el_header_len e - 1) = 0x80)"

text \<open>\<open>cbs_convert_ber\<close> gives the value returned, the cursor and the builder. An iteration of the loop and a
  recursive call each use one unit of fuel; running out is \<open>None\<close>.\<close>

function cbs_convert_ber ::
    "nat \<Rightarrow> allocator \<Rightarrow> CBS \<Rightarrow> CBB \<Rightarrow> nat \<Rightarrow> u32 \<Rightarrow> bool \<Rightarrow> nat \<Rightarrow> (bool \<times> CBS \<times> CBB) option"
  and cbs_convert_ber_loop ::
    "nat \<Rightarrow> allocator \<Rightarrow> CBS \<Rightarrow> CBB \<Rightarrow> nat \<Rightarrow> u32 \<Rightarrow> bool \<Rightarrow> nat \<Rightarrow> (bool \<times> CBS \<times> CBB) option" where
  "cbs_convert_ber fuel mem cbs out d string_tag looking_for_eoc depth =
     (if depth > kMaxDepth then Some (False, cbs, out)
      else cbs_convert_ber_loop fuel mem cbs out d string_tag looking_for_eoc depth)"
| "cbs_convert_ber_loop 0 mem cbs out d string_tag looking_for_eoc depth = None"
| "cbs_convert_ber_loop (Suc fuel) mem cbs out d string_tag looking_for_eoc depth =
     (if length cbs = 0 then Some (\<not> looking_for_eoc, cbs, out)
      else case CBS_get_any_ber_asn1_element cbs of
          (None, cbs') \<Rightarrow> Some (False, cbs', out)
        | (Some e, cbs') \<Rightarrow>
            if is_eoc (el_header_len e) (el_out e) then Some (looking_for_eoc, cbs', out)
            else (case convert_out_contents mem out d string_tag (el_tag e) of
                (None, out') \<Rightarrow> Some (False, cbs', out')
              | (Some (dc, child_string_tag), out') \<Rightarrow>
                  if is_indefinite e then
                    (case cbs_convert_ber fuel mem cbs' out' dc child_string_tag True (Suc depth) of
                       None \<Rightarrow> None
                     | Some (False, cbs'', out'') \<Rightarrow> Some (False, cbs'', out'')
                     | Some (True, cbs'', out'') \<Rightarrow>
                         (case CBB_flush mem out'' d of
                            (False, out3) \<Rightarrow> Some (False, cbs'', out3)
                          | (True, out3) \<Rightarrow>
                              cbs_convert_ber_loop fuel mem cbs'' out3 d string_tag looking_for_eoc depth))
                  else (case CBS_skip (el_out e) (el_header_len e) of
                      (None, _) \<Rightarrow> Some (False, cbs', out')
                    | (Some _, body) \<Rightarrow>
                        (case (if el_tag e AND CBS_ASN1_CONSTRUCTED \<noteq> 0 then
                                 map_option (\<lambda>(ok, _, out''). (ok, out''))
                                   (cbs_convert_ber fuel mem body out' dc child_string_tag False (Suc depth))
                               else Some (CBB_add_bytes mem out' dc body)) of
                           None \<Rightarrow> None
                         | Some (False, out'') \<Rightarrow> Some (False, cbs', out'')
                         | Some (True, out'') \<Rightarrow>
                             (case CBB_flush mem out'' d of
                                (False, out3) \<Rightarrow> Some (False, cbs', out3)
                              | (True, out3) \<Rightarrow>
                                  cbs_convert_ber_loop fuel mem cbs' out3 d string_tag looking_for_eoc depth)))))"
  by pat_completeness auto
termination
  by (relation "measure (\<lambda>x. case x of Inl (fuel, _) \<Rightarrow> 2 * fuel + 1 | Inr (fuel, _) \<Rightarrow> 2 * fuel)") auto

declare cbs_convert_ber.simps [simp del] cbs_convert_ber_loop.simps [simp del]

text \<open>Every iteration takes at least two bytes off its cursor, so one unit more than the bytes of the input is
  enough. The result is the element and, when a conversion was needed, the block that holds it.\<close>

definition CBS_asn1_ber_to_der :: "allocator \<Rightarrow> CBS \<Rightarrow> (CBS \<times> byte list option) cbs_result" where
  "CBS_asn1_ber_to_der mem cbs = (case cbs_find_ber cbs 0 of
      None \<Rightarrow> (None, cbs)
    | Some False \<Rightarrow>
        (case CBS_get_any_asn1_element cbs of
           (None, cbs') \<Rightarrow> (None, cbs')
         | (Some e, cbs') \<Rightarrow> (Some (el_out e, None), cbs'))
    | Some True \<Rightarrow>
        (case CBB_init mem (length cbs) of
           (False, _) \<Rightarrow> (None, cbs)
         | (True, cbb) \<Rightarrow>
             (case cbs_convert_ber (Suc (length cbs)) mem cbs cbb 0 0 False 0 of
                None \<Rightarrow> (None, cbs)
              | Some (False, cbs', cbb') \<Rightarrow> (None, cbs')
              | Some (True, cbs', cbb') \<Rightarrow>
                  (case CBB_finish mem cbb' 0 True of
                     (None, _) \<Rightarrow> (None, cbs')
                   | (Some out, _) \<Rightarrow> (Some (out, Some out), cbs')))))"

function implicit_string_loop :: "allocator \<Rightarrow> CBS \<Rightarrow> CBB \<Rightarrow> u32 \<Rightarrow> bool \<times> CBB" where
  "implicit_string_loop mem child result inner_tag =
     (if length child = 0 then (True, result)
      else case CBS_get_asn1 child inner_tag of
          (None, _) \<Rightarrow> (False, result)
        | (Some chunk, child') \<Rightarrow>
            (case CBB_add_bytes mem result 0 chunk of
               (False, result') \<Rightarrow> (False, result')
             | (True, result') \<Rightarrow> implicit_string_loop mem child' result' inner_tag))"
  by pat_completeness auto
termination
proof (relation "measure (\<lambda>(_, child, _). length child)", goal_cases)
  case (2 mem child result inner_tag x child' chunk)
  then have "CBS_get_asn1 child inner_tag = (Some chunk, child')" by simp
  then show ?case using length_der_tag(1) [of inner_tag] by (simp add: CBS_get_asn1_iff der_element_def)
qed simp

declare implicit_string_loop.simps [simp del]

definition CBS_get_asn1_implicit_string ::
    "allocator \<Rightarrow> CBS \<Rightarrow> u32 \<Rightarrow> u32 \<Rightarrow> (CBS \<times> byte list option) cbs_result" where
  "CBS_get_asn1_implicit_string mem cbs outer_tag inner_tag =
     (if CBS_peek_asn1_tag cbs outer_tag then
        (case CBS_get_asn1 cbs outer_tag of
           (None, cbs') \<Rightarrow> (None, cbs')
         | (Some out, cbs') \<Rightarrow> (Some (out, None), cbs'))
      else case CBB_init mem (length cbs) of
          (False, _) \<Rightarrow> (None, cbs)
        | (True, result) \<Rightarrow>
            (case CBS_get_asn1 cbs (outer_tag OR CBS_ASN1_CONSTRUCTED) of
               (None, cbs') \<Rightarrow> (None, cbs')
             | (Some child, cbs') \<Rightarrow>
                 (case implicit_string_loop mem child result inner_tag of
                    (False, _) \<Rightarrow> (None, cbs')
                  | (True, result') \<Rightarrow>
                      (case CBB_finish mem result' 0 True of
                         (None, _) \<Rightarrow> (None, cbs')
                       | (Some out, _) \<Rightarrow> (Some (out, Some out), cbs')))))"

end
