(* ===== verification/BER_Spec.thy ===== *)
theory BER_Spec
  imports BER
begin

text \<open>
  The conversion as a function on byte strings, the forests of DER elements it produces, and the proof that
  \<open>cbs_convert_ber\<close> writes exactly that function's result into its builder.
\<close>

section \<open>Specification\<close>

definition string_part :: "u32 \<Rightarrow> bool" where
  "string_part tag \<longleftrightarrow> tag AND CBS_ASN1_CONSTRUCTED \<noteq> 0 \<and> is_string_type tag"

definition out_tag :: "u32 \<Rightarrow> u32" where
  "out_tag tag = (if string_part tag then tag AND NOT CBS_ASN1_CONSTRUCTED else tag)"

definition child_tag :: "u32 \<Rightarrow> u32 \<Rightarrow> u32" where
  "child_tag string_tag tag = (if string_tag = 0 \<and> string_part tag then out_tag tag else string_tag)"

definition close_out :: "u32 \<Rightarrow> u32 \<Rightarrow> byte list \<Rightarrow> byte list option" where
  "close_out string_tag tag body = (if string_tag \<noteq> 0 then Some body else close_asn1 (out_tag tag) body)"

function ber_der :: "nat \<Rightarrow> CBS \<Rightarrow> u32 \<Rightarrow> bool \<Rightarrow> nat \<Rightarrow> (byte list \<times> CBS) option"
  and ber_der_loop :: "nat \<Rightarrow> CBS \<Rightarrow> u32 \<Rightarrow> bool \<Rightarrow> nat \<Rightarrow> (byte list \<times> CBS) option" where
  "ber_der fuel cbs st eoc depth = (if depth > kMaxDepth then None else ber_der_loop fuel cbs st eoc depth)"
| "ber_der_loop 0 cbs st eoc depth = None"
| "ber_der_loop (Suc fuel) cbs st eoc depth =
     (if cbs = [] then (if eoc then None else Some ([], []))
      else case CBS_get_any_ber_asn1_element cbs of
          (None, _) \<Rightarrow> None
        | (Some e, cbs') \<Rightarrow>
            if is_eoc (el_header_len e) (el_out e) then (if eoc then Some ([], cbs') else None)
            else if st \<noteq> 0 \<and> el_tag e AND NOT CBS_ASN1_CONSTRUCTED \<noteq> st then None
            else (case (if is_indefinite e then ber_der fuel cbs' (child_tag st (el_tag e)) True (Suc depth)
                        else if el_tag e AND CBS_ASN1_CONSTRUCTED \<noteq> 0 then
                          map_option (\<lambda>(body, _). (body, cbs'))
                            (ber_der fuel (drop (el_header_len e) (el_out e)) (child_tag st (el_tag e)) False (Suc depth))
                        else Some (drop (el_header_len e) (el_out e), cbs')) of
                None \<Rightarrow> None
              | Some (body, cbs'') \<Rightarrow>
                  (case close_out st (el_tag e) body of
                     None \<Rightarrow> None
                   | Some el \<Rightarrow> map_option (\<lambda>(bs, cbs3). (el @ bs, cbs3)) (ber_der_loop fuel cbs'' st eoc depth))))"
  by pat_completeness auto
termination
  by (relation "measure (\<lambda>x. case x of Inl (fuel, _) \<Rightarrow> 2 * fuel + 1 | Inr (fuel, _) \<Rightarrow> 2 * fuel)") auto

declare ber_der.simps [simp del] ber_der_loop.simps [simp del]

section \<open>Growth of a builder\<close>

definition grows :: "allocator \<Rightarrow> nat \<Rightarrow> CBB \<Rightarrow> CBB \<Rightarrow> byte list \<Rightarrow> bool" where
  "grows mem d s s' bs \<longleftrightarrow> cbb_ok s' \<and> shape d s' = shape d s \<and> (\<forall>n. room mem s n \<longrightarrow> room mem s' n) \<and>
     (\<exists>w. contents d s = Some w \<and> contents d s' = Some (w @ bs))"

lemma grows_ok: "grows mem d s s' bs \<Longrightarrow> cbb_ok s'"
  by (simp add: grows_def)

lemma grows_refl: "cbb_ok s \<Longrightarrow> contents d s \<noteq> None \<Longrightarrow> grows mem d s s []"
  by (auto simp: grows_def)

lemma grows_trans: "grows mem d s s1 bs \<Longrightarrow> grows mem d s1 s2 cs \<Longrightarrow> grows mem d s s2 (bs @ cs)"
  by (auto simp: grows_def)

lemma grows_sink:
  assumes "byte_sink cbb_ok (contents d) dead (room mem) (shape d) put enc arg valid"
    and "cbb_ok s" and "arg x" and "put s x = (True, s')"
  shows "grows mem d s s' (enc x)"
  using byte_sink.put_True [OF assms] by (auto simp: grows_def)

lemma grows_flush: "cbb_ok s \<Longrightarrow> CBB_flush mem s d = (True, s') \<Longrightarrow> grows mem d s s' []"
  using CBB_flush_True [of mem s d s'] by (auto simp: grows_def shape_shape)

context child_opener
begin

lemma opened_grows:
  assumes ok: "cbb_ok s" and a: "open s = (True, s1)" and g: "grows mem (Suc d) s1 s2 body"
  shows "\<exists>w. contents d s = Some w \<and> cbb_ok s2 \<and> contents d s2 = map_option (\<lambda>e. w @ e) (close body) \<and>
    shape d s2 = shape d s \<and> (\<forall>n. room mem s n \<longrightarrow> room mem s2 n)"
proof -
  from open_True [OF ok a] obtain w where c: "contents d s = Some w" and s1: "cbb_ok s1"
    "contents (Suc d) s1 = Some (w @ hdr)" "cbb_chain s1 = shape d s @ [child (length w)]"
    "length (shape d s) = Suc d" "\<And>n. room mem s n \<Longrightarrow> room mem s1 n" by auto
  from g s1(2) have s2: "cbb_ok s2" "contents (Suc d) s2 = Some (w @ hdr @ body)" "shape (Suc d) s2 = shape (Suc d) s1"
    "\<And>n. room mem s1 n \<Longrightarrow> room mem s2 n" by (auto simp: grows_def)
  have "cbb_chain s2 ! Suc d = child (length w)" "shape d s2 = shape d s"
    using opened_shape [OF s2(3) s1(3,4)] by simp_all
  with close [OF s2(1,2)] c s2 s1(5) show ?thesis by auto
qed

end

section \<open>The conversion writes what the specification says\<close>

text \<open>The contents of one element, and the loop in terms of it.\<close>

definition convert_body ::
    "nat \<Rightarrow> allocator \<Rightarrow> asn1_element \<Rightarrow> CBS \<Rightarrow> CBB \<Rightarrow> nat \<Rightarrow> u32 \<Rightarrow> nat \<Rightarrow> (bool \<times> CBS \<times> CBB) option" where
  "convert_body fuel mem e cbs out dc ct depth =
     (if is_indefinite e then cbs_convert_ber fuel mem cbs out dc ct True (Suc depth)
      else if el_tag e AND CBS_ASN1_CONSTRUCTED \<noteq> 0 then
        map_option (\<lambda>(ok, _, out'). (ok, cbs, out'))
          (cbs_convert_ber fuel mem (drop (el_header_len e) (el_out e)) out dc ct False (Suc depth))
      else (case CBB_add_bytes mem out dc (drop (el_header_len e) (el_out e)) of (ok, out') \<Rightarrow> Some (ok, cbs, out')))"

definition ber_body :: "nat \<Rightarrow> asn1_element \<Rightarrow> CBS \<Rightarrow> u32 \<Rightarrow> nat \<Rightarrow> (byte list \<times> CBS) option" where
  "ber_body fuel e cbs ct depth =
     (if is_indefinite e then ber_der fuel cbs ct True (Suc depth)
      else if el_tag e AND CBS_ASN1_CONSTRUCTED \<noteq> 0 then
        map_option (\<lambda>(body, _). (body, cbs)) (ber_der fuel (drop (el_header_len e) (el_out e)) ct False (Suc depth))
      else Some (drop (el_header_len e) (el_out e), cbs))"

lemma ber_element_lengths:
  assumes "CBS_get_any_ber_asn1_element cbs = (Some e, cbs')"
  shows "length cbs' < length cbs" "length (drop (el_header_len e) (el_out e)) < length cbs"
    "CBS_skip (el_out e) (el_header_len e) = (Some (), drop (el_header_len e) (el_out e))"
  using ber_element_consumes [OF assms] by (auto simp: CBS_skip_eq)

lemma convert_loop_Nil: "cbs_convert_ber_loop (Suc fuel) mem [] out d st eoc depth = Some (\<not> eoc, [], out)"
  and ber_loop_Nil: "ber_der_loop (Suc fuel) [] st eoc depth = (if eoc then None else Some ([], []))"
  by (simp_all add: cbs_convert_ber_loop.simps ber_der_loop.simps)

lemma convert_loop_Suc:
  assumes e: "CBS_get_any_ber_asn1_element cbs = (Some e, cbs1)" and ne: "cbs \<noteq> []"
  shows "cbs_convert_ber_loop (Suc fuel) mem cbs out d st eoc depth =
    (if is_eoc (el_header_len e) (el_out e) then Some (eoc, cbs1, out)
     else case convert_out_contents mem out d st (el_tag e) of
         (None, out') \<Rightarrow> Some (False, cbs1, out')
       | (Some (dc, ct), out') \<Rightarrow>
           (case convert_body fuel mem e cbs1 out' dc ct depth of
              None \<Rightarrow> None
            | Some (False, cbs2, out2) \<Rightarrow> Some (False, cbs2, out2)
            | Some (True, cbs2, out2) \<Rightarrow>
                (case CBB_flush mem out2 d of
                   (False, out3) \<Rightarrow> Some (False, cbs2, out3)
                 | (True, out3) \<Rightarrow> cbs_convert_ber_loop fuel mem cbs2 out3 d st eoc depth)))"
  using ne unfolding cbs_convert_ber_loop.simps e convert_body_def
  by (simp add: ber_element_lengths(3) [OF e] split: prod.split option.split bool.split)

lemma ber_loop_Suc:
  assumes "CBS_get_any_ber_asn1_element cbs = (Some e, cbs1)" and "cbs \<noteq> []"
  shows "ber_der_loop (Suc fuel) cbs st eoc depth =
    (if is_eoc (el_header_len e) (el_out e) then (if eoc then Some ([], cbs1) else None)
     else if st \<noteq> 0 \<and> el_tag e AND NOT CBS_ASN1_CONSTRUCTED \<noteq> st then None
     else case ber_body fuel e cbs1 (child_tag st (el_tag e)) depth of
         None \<Rightarrow> None
       | Some (body, cbs2) \<Rightarrow>
           (case close_out st (el_tag e) body of
              None \<Rightarrow> None
            | Some el \<Rightarrow> map_option (\<lambda>(bs, cbs3). (el @ bs, cbs3)) (ber_der_loop fuel cbs2 st eoc depth)))"
  using assms unfolding ber_body_def by (simp add: ber_der_loop.simps)

lemma out_contents_eq:
  "convert_out_contents mem out d st tag =
    (if st \<noteq> 0 then (if tag AND NOT CBS_ASN1_CONSTRUCTED \<noteq> st then (None, out) else (Some (d, child_tag st tag), out))
     else case CBB_add_asn1 mem out d (out_tag tag) of
         (False, out') \<Rightarrow> (None, out')
       | (True, out') \<Rightarrow> (Some (Suc d, child_tag st tag), out'))"
  by (simp add: convert_out_contents_def child_tag_def out_tag_def string_part_def Let_def split: prod.split bool.split)

lemma out_contents_opened:
  assumes ok: "cbb_ok out" and c: "contents d out = Some w"
    and o: "convert_out_contents mem out d st tag = (Some (dc, ct), out1)"
  shows "ct = child_tag st tag \<and> (st \<noteq> 0 \<longrightarrow> tag AND NOT CBS_ASN1_CONSTRUCTED = st) \<and> cbb_ok out1 \<and> contents dc out1 \<noteq> None"
    and "grows mem dc out1 out2 body \<Longrightarrow> cbb_ok out2 \<and> contents d out2 = map_option (\<lambda>el. w @ el) (close_out st tag body) \<and>
      shape d out2 = shape d out \<and> (\<forall>n. room mem out n \<longrightarrow> room mem out2 n)"
proof -
  show "ct = child_tag st tag \<and> (st \<noteq> 0 \<longrightarrow> tag AND NOT CBS_ASN1_CONSTRUCTED = st) \<and> cbb_ok out1 \<and> contents dc out1 \<noteq> None"
    using o ok c asn1_opener.open_True [OF ok, of mem d "out_tag tag" out1]
    by (auto simp: out_contents_eq split: if_splits prod.splits bool.splits)
next
  assume g: "grows mem dc out1 out2 body"
  show "cbb_ok out2 \<and> contents d out2 = map_option (\<lambda>el. w @ el) (close_out st tag body) \<and>
      shape d out2 = shape d out \<and> (\<forall>n. room mem out n \<longrightarrow> room mem out2 n)"
  proof (cases "st = 0")
    case True
    with o have "CBB_add_asn1 mem out d (out_tag tag) = (True, out1)" "dc = Suc d"
      by (auto simp: out_contents_eq split: prod.splits bool.splits)
    with asn1_opener.opened_grows [OF ok this(1)] g True c show ?thesis by (simp add: close_out_def)
  next
    case False
    with o have "dc = d" "out1 = out" by (auto simp: out_contents_eq split: if_splits)
    with g False c show ?thesis by (auto simp: close_out_def grows_def)
  qed
qed

lemma out_contents_grows:
  assumes ok: "cbb_ok out" and c: "contents d out \<noteq> None"
    and o: "convert_out_contents mem out d st tag = (Some (dc, ct), out1)" and g: "grows mem dc out1 out2 body"
    and f: "CBB_flush mem out2 d = (True, out3)"
  shows "\<exists>el. close_out st tag body = Some el \<and> grows mem d out out3 el"
proof -
  obtain w where w: "contents d out = Some w" using c by auto
  from out_contents_opened(2) [OF ok w o g] have o2: "cbb_ok out2" "shape d out2 = shape d out"
    "contents d out2 = map_option (\<lambda>el. w @ el) (close_out st tag body)" "\<And>n. room mem out n \<Longrightarrow> room mem out2 n" by auto
  from grows_flush [OF o2(1) f] w o2 show ?thesis by (auto simp: grows_def)
qed

text \<open>The contents of an element, given what recursive calls do.\<close>

lemma convert_body_sound:
  assumes conv: "\<And>cbs eoc cbs' out'. length cbs < SIZE_MOD \<Longrightarrow>
      cbs_convert_ber fuel mem cbs out dc ct eoc (Suc depth) = Some (True, cbs', out') \<Longrightarrow>
      \<exists>bs. ber_der fuel cbs ct eoc (Suc depth) = Some (bs, cbs') \<and> grows mem dc out out' bs \<and> length cbs' \<le> length cbs"
    and b: "convert_body fuel mem e cbs out dc ct depth = Some (True, cbs2, out2)" and ok: "cbb_ok out"
    and len: "length cbs < SIZE_MOD" "length (drop (el_header_len e) (el_out e)) < SIZE_MOD"
  shows "\<exists>body. ber_body fuel e cbs ct depth = Some (body, cbs2) \<and> grows mem dc out out2 body \<and> length cbs2 \<le> length cbs"
  using b len ok conv [of cbs True cbs2 out2] conv [of "drop (el_header_len e) (el_out e)" False _ out2]
    grows_sink [OF bytes.byte_sink_axioms, of out "drop (el_header_len e) (el_out e)" mem dc out2]
  by (auto simp: convert_body_def ber_body_def split: if_splits prod.splits)

lemma convert_loop_sound:
  "cbb_ok out \<Longrightarrow> contents d out \<noteq> None \<Longrightarrow> length cbs < SIZE_MOD \<Longrightarrow>
    cbs_convert_ber_loop fuel mem cbs out d st eoc depth = Some (True, cbs', out') \<Longrightarrow>
    \<exists>bs. ber_der_loop fuel cbs st eoc depth = Some (bs, cbs') \<and> grows mem d out out' bs \<and> length cbs' \<le> length cbs"
proof (induction fuel arbitrary: cbs out d st eoc depth cbs' out')
  case 0
  then show ?case by (simp add: cbs_convert_ber_loop.simps)
next
  case (Suc fuel)
  have conv: "\<exists>bs. ber_der fuel cbs st eoc depth = Some (bs, cbs') \<and> grows mem d out out' bs \<and> length cbs' \<le> length cbs"
    if "cbb_ok out" "contents d out \<noteq> None" "length cbs < SIZE_MOD"
      "cbs_convert_ber fuel mem cbs out d st eoc depth = Some (True, cbs', out')" for cbs out d st eoc depth cbs' out'
    using Suc.IH [OF that(1-3)] that(4) by (simp add: cbs_convert_ber.simps ber_der.simps split: if_splits)
  show ?case
  proof (cases "cbs = []")
    case True
    with Suc.prems show ?thesis by (auto simp: convert_loop_Nil ber_loop_Nil intro: grows_refl)
  next
    case False
    then obtain e cbs1 where e: "CBS_get_any_ber_asn1_element cbs = (Some e, cbs1)"
      using Suc.prems(4) by (auto simp: cbs_convert_ber_loop.simps split: prod.splits option.splits)
    note len = ber_element_lengths [OF e]
    note run = Suc.prems(4) [unfolded convert_loop_Suc [OF e False]]
    show ?thesis
    proof (cases "is_eoc (el_header_len e) (el_out e)")
      case True
      with run e False Suc.prems(1,2) len(1) show ?thesis by (auto simp: ber_loop_Suc intro: grows_refl)
    next
      case no_eoc: False
      then obtain dc ct out1 cbs2 out2 out3 where o: "convert_out_contents mem out d st (el_tag e) = (Some (dc, ct), out1)"
        and b: "convert_body fuel mem e cbs1 out1 dc ct depth = Some (True, cbs2, out2)"
        and f: "CBB_flush mem out2 d = (True, out3)"
        and r: "cbs_convert_ber_loop fuel mem cbs2 out3 d st eoc depth = Some (True, cbs', out')"
        using run by (auto split: prod.splits option.splits bool.splits)
      obtain w where w: "contents d out = Some w" using Suc.prems(2) by auto
      note oo = out_contents_opened(1) [OF Suc.prems(1) w o]
      from convert_body_sound [OF conv b] oo len(1,2) Suc.prems(3) obtain body where
        body: "ber_body fuel e cbs1 ct depth = Some (body, cbs2)" "grows mem dc out1 out2 body" "length cbs2 \<le> length cbs1"
        by auto
      from out_contents_grows [OF Suc.prems(1,2) o body(2) f] obtain el where
        el: "close_out st (el_tag e) body = Some el" "grows mem d out out3 el" by blast
      then have "cbb_ok out3" "contents d out3 \<noteq> None" by (auto simp: grows_def)
      from Suc.IH [OF this _ r] body(3) len(1) Suc.prems(3) obtain bs where "ber_der_loop fuel cbs2 st eoc depth = Some (bs, cbs')"
        "grows mem d out3 out' bs" "length cbs' \<le> length cbs2" by auto
      with el body(1,3) oo no_eoc len(1) grows_trans [OF el(2)] show ?thesis by (auto simp: ber_loop_Suc [OF e False])
    qed
  qed
qed

lemma convert_sound:
  assumes "cbb_ok out" and "contents d out \<noteq> None" and "length cbs < SIZE_MOD"
    and "cbs_convert_ber fuel mem cbs out d st eoc depth = Some (True, cbs', out')"
  shows "\<exists>bs. ber_der fuel cbs st eoc depth = Some (bs, cbs') \<and> grows mem d out out' bs \<and> length cbs' \<le> length cbs"
  using convert_loop_sound [OF assms(1-3), of fuel mem st eoc depth cbs' out'] assms(4)
  by (auto simp: cbs_convert_ber.simps ber_der.simps split: if_splits)

section \<open>Termination\<close>

lemma convert_loop_terminates:
  "length cbs < fuel \<Longrightarrow> \<exists>ok cbs' out'. cbs_convert_ber_loop fuel mem cbs out d st eoc depth = Some (ok, cbs', out') \<and>
    length cbs' \<le> length cbs"
proof (induction fuel arbitrary: cbs out d st eoc depth)
  case 0
  then show ?case by simp
next
  case (Suc fuel)
  have conv: "\<exists>ok cbs' out'. cbs_convert_ber fuel mem cbs out d st eoc depth = Some (ok, cbs', out') \<and> length cbs' \<le> length cbs"
    if "length cbs < fuel" for cbs out d st eoc depth
    using Suc.IH [OF that] by (cases "kMaxDepth < depth") (auto simp: cbs_convert_ber.simps)
  show ?case
  proof (cases "cbs = []")
    case True
    then show ?thesis by (simp add: convert_loop_Nil)
  next
    case False
    show ?thesis
    proof (cases "CBS_get_any_ber_asn1_element cbs")
      case (Pair r cbs1)
      show ?thesis
      proof (cases r)
        case None
        with Pair False show ?thesis
          using ber_element_fail [of cbs cbs1] by (auto simp: cbs_convert_ber_loop.simps ex_bool_eq)
      next
        case (Some e)
        with Pair have e: "CBS_get_any_ber_asn1_element cbs = (Some e, cbs1)" by simp
        note len = ber_element_lengths [OF e]
        have l: "length cbs1 < fuel" "length (drop (el_header_len e) (el_out e)) < fuel"
          using len(1,2) Suc.prems by linarith+
        have b: "\<exists>ok cbs2 out2. convert_body fuel mem e cbs1 out1 dc ct depth = Some (ok, cbs2, out2) \<and> length cbs2 \<le> length cbs1"
          for out1 dc ct
          using conv [OF l(1), of out1 dc ct True "Suc depth"] conv [OF l(2), of out1 dc ct False "Suc depth"]
          by (auto simp: convert_body_def split: prod.split)
        have n: "\<exists>ok cbs' out'. cbs_convert_ber_loop fuel mem cbs2 out3 d st eoc depth = Some (ok, cbs', out') \<and>
            length cbs' \<le> length cbs" if "length cbs2 \<le> length cbs1" for cbs2 out3
          using Suc.IH [of cbs2 out3 d st eoc depth] that l(1) len(1) by fastforce
        obtain r out1 where o: "convert_out_contents mem out d st (el_tag e) = (r, out1)" by fastforce
        show ?thesis
        proof (cases "is_eoc (el_header_len e) (el_out e) \<or> r = None")
          case True
          with o len(1) show ?thesis by (auto simp: convert_loop_Suc [OF e False])
        next
          case step: False
          then obtain dc ct where r: "r = Some (dc, ct)" by auto
          from b [of out1 dc ct] obtain ok cbs2 out2 where
            "convert_body fuel mem e cbs1 out1 dc ct depth = Some (ok, cbs2, out2)" "length cbs2 \<le> length cbs1" by blast
          with n [OF this(2)] step o r len(1) show ?thesis
            by (auto simp: convert_loop_Suc [OF e False] split: prod.split bool.split)
        qed
      qed
    qed
  qed
qed

section \<open>Success\<close>

text \<open>With room for the result, a conversion that the specification allows succeeds.\<close>

lemma close_out_length: "close_out st tag body = Some el \<Longrightarrow> length body \<le> length el"
  by (auto simp: close_out_def close_asn1_def der_element_def split: if_splits)

lemma out_contents_room:
  assumes ok: "cbb_ok out" and c: "contents d out = Some w" and t: "st \<noteq> 0 \<longrightarrow> tag AND NOT CBS_ASN1_CONSTRUCTED = st"
    and el: "close_out st tag body = Some el" and room: "room mem out (length (w @ el))"
  shows "\<exists>dc out1 v. convert_out_contents mem out d st tag = (Some (dc, child_tag st tag), out1) \<and>
    contents dc out1 = Some v \<and> room mem out1 (length (v @ body)) \<and> (\<forall>n. room mem out n \<longrightarrow> room mem out1 n)"
proof (cases "st = 0")
  case False
  with assms show ?thesis by (auto simp: out_contents_eq close_out_def)
next
  case True
  with el have el: "close_asn1 (out_tag tag) body = Some el" by (simp add: close_out_def)
  note len = asn1_opener.close_length [OF el]
  have "room mem out (length w + length (der_tag (out_tag tag) @ [0]))"
    using room by (rule room_mono) (use len in simp)
  then obtain out1 where a: "CBB_add_asn1 mem out d (out_tag tag) = (True, out1)"
    using asn1_opener.open_room [OF ok c] by blast
  from asn1_opener.open_True [OF ok a] c have v: "contents (Suc d) out1 = Some (w @ der_tag (out_tag tag) @ [0])"
    "\<And>n. room mem out n \<Longrightarrow> room mem out1 n" by auto
  moreover have "room mem out1 (length ((w @ der_tag (out_tag tag) @ [0]) @ body))"
    using v(2) [OF room] by (rule room_mono) (use len in simp)
  ultimately show ?thesis using a True by (auto simp: out_contents_eq add.assoc)
qed

lemma convert_loop_succeeds:
  "cbb_ok out \<Longrightarrow> contents d out = Some w \<Longrightarrow> length cbs < SIZE_MOD \<Longrightarrow>
    ber_der_loop fuel cbs st eoc depth = Some (bs, cbs') \<Longrightarrow> room mem out (length (w @ bs)) \<Longrightarrow>
    \<exists>out'. cbs_convert_ber_loop fuel mem cbs out d st eoc depth = Some (True, cbs', out')"
proof (induction fuel arbitrary: cbs out d w st eoc depth cbs' bs)
  case 0
  then show ?case by (simp add: ber_der_loop.simps)
next
  case (Suc fuel)
  have conv: "\<exists>out'. cbs_convert_ber fuel mem cbs out d st eoc depth = Some (True, cbs', out')"
    if "cbb_ok out" "contents d out = Some w" "length cbs < SIZE_MOD"
      "ber_der fuel cbs st eoc depth = Some (bs, cbs')" "room mem out (length (w @ bs))" for cbs out d w st eoc depth cbs' bs
    using Suc.IH [OF that(1-3) _ that(5)] that(4) by (simp add: cbs_convert_ber.simps ber_der.simps split: if_splits)
  show ?case
  proof (cases "cbs = []")
    case True
    with Suc.prems show ?thesis by (auto simp: convert_loop_Nil ber_loop_Nil split: if_splits)
  next
    case False
    then obtain e cbs1 where e: "CBS_get_any_ber_asn1_element cbs = (Some e, cbs1)"
      using Suc.prems(4) by (auto simp: ber_der_loop.simps split: prod.splits option.splits)
    note len = ber_element_lengths [OF e]
    note spec = Suc.prems(4) [unfolded ber_loop_Suc [OF e False]]
    show ?thesis
    proof (cases "is_eoc (el_header_len e) (el_out e)")
      case True
      with spec show ?thesis by (auto simp: convert_loop_Suc [OF e False] split: if_splits)
    next
      case no_eoc: False
      then obtain body cbs2 el bs2 where t: "st \<noteq> 0 \<longrightarrow> el_tag e AND NOT CBS_ASN1_CONSTRUCTED = st"
        and b: "ber_body fuel e cbs1 (child_tag st (el_tag e)) depth = Some (body, cbs2)"
        and el: "close_out st (el_tag e) body = Some el"
        and r: "ber_der_loop fuel cbs2 st eoc depth = Some (bs2, cbs')" and bs: "bs = el @ bs2"
        using spec by (auto split: option.splits if_splits)
      have "room mem out (length (w @ el))" using Suc.prems(5) by (rule room_mono) (simp add: bs)
      from out_contents_room [OF Suc.prems(1,2) t el this] obtain dc out1 v where
        o: "convert_out_contents mem out d st (el_tag e) = (Some (dc, child_tag st (el_tag e)), out1)"
        and v: "contents dc out1 = Some v" "room mem out1 (length (v @ body))" by blast
      note oo = out_contents_opened [OF Suc.prems(1,2) o]
      have "\<exists>out2. convert_body fuel mem e cbs1 out1 dc (child_tag st (el_tag e)) depth = Some (True, cbs2, out2)"
        using b v oo(1) len Suc.prems(3) conv [of out1 dc v cbs1 "child_tag st (el_tag e)" True "Suc depth" body cbs2]
          conv [of out1 dc v "drop (el_header_len e) (el_out e)" "child_tag st (el_tag e)" False "Suc depth" body]
          bytes.put_room [of out1 dc v "drop (el_header_len e) (el_out e)" mem]
        by (auto simp: convert_body_def ber_body_def ex_bool_eq split: if_splits prod.splits)
      then obtain out2 where b2: "convert_body fuel mem e cbs1 out1 dc (child_tag st (el_tag e)) depth = Some (True, cbs2, out2)" ..
      have "\<exists>b. ber_body fuel e cbs1 (child_tag st (el_tag e)) depth = Some (b, cbs2) \<and> grows mem dc out1 out2 b \<and>
          length cbs2 \<le> length cbs1"
        by (rule convert_body_sound [OF convert_sound b2]) (use oo(1) len Suc.prems(3) in auto)
      with b have g: "grows mem dc out1 out2 body" and l2: "length cbs2 \<le> length cbs1" by auto
      have o2: "cbb_ok out2" "contents d out2 = Some (w @ el)" "room mem out2 (length (w @ bs))"
        using oo(2) [OF g] el Suc.prems(5) by auto
      have "room mem out2 (length (w @ el))" using o2(3) by (rule room_mono) (simp add: bs)
      from CBB_flush_succeeds [OF o2(1,2) this] obtain out3 where f: "CBB_flush mem out2 d = (True, out3)" ..
      from CBB_flush_True [OF f o2(1)] o2(2,3) have o3: "cbb_ok out3" "contents d out3 = Some (w @ el)"
        "room mem out3 (length ((w @ el) @ bs2))" by (auto simp: bs)
      from Suc.IH [OF o3(1,2) _ r o3(3)] l2 len(1) Suc.prems(3) show ?thesis
        using no_eoc o b2 f by (auto simp: convert_loop_Suc [OF e False])
    qed
  qed
qed

end
