(* ===== verification/BER_Forest.thy ===== *)
theory BER_Forest
  imports BER_Spec
begin

text \<open>
  The result of a conversion is a forest of DER elements without constructed strings, nested no deeper than the
  limit; the walk that looks for BER finds nothing in such a forest.
\<close>

inductive der_forest :: "nat \<Rightarrow> byte list \<Rightarrow> bool" where
  forest_Nil: "der_forest n []"
| forest_primitive: "length c < 4294967296 \<Longrightarrow> t AND CBS_ASN1_CONSTRUCTED = 0 \<Longrightarrow> der_forest n rest \<Longrightarrow>
    der_forest n (der_element t c @ rest)"
| forest_constructed: "length c < 4294967296 \<Longrightarrow> t AND CBS_ASN1_CONSTRUCTED \<noteq> 0 \<Longrightarrow> \<not> is_string_type t \<Longrightarrow>
    der_forest n c \<Longrightarrow> der_forest (Suc n) rest \<Longrightarrow> der_forest (Suc n) (der_element t c @ rest)"

inductive_cases der_forest_ConsE: "der_forest n (b # bs)"

section \<open>The conversion produces a forest\<close>

lemma out_tag_primitive: "string_part t \<Longrightarrow> out_tag t AND CBS_ASN1_CONSTRUCTED = 0"
  by (simp add: out_tag_def and.assoc bit.conj_cancel_left)

lemma close_out_forest:
  assumes el: "close_out 0 t body = Some el" and rest: "der_forest n rest"
    and body: "\<not> string_part t \<Longrightarrow> t AND CBS_ASN1_CONSTRUCTED \<noteq> 0 \<Longrightarrow> \<exists>m. n = Suc m \<and> der_forest m body"
  shows "der_forest n (el @ rest)"
proof -
  have e: "el = der_element (out_tag t) body" and l: "length body < 4294967296"
    using el by (auto simp: close_out_def close_asn1_def split: if_splits)
  show ?thesis
  proof (cases "out_tag t AND CBS_ASN1_CONSTRUCTED = 0")
    case True
    with l rest show ?thesis unfolding e by (intro forest_primitive)
  next
    case False
    then have s: "\<not> string_part t" using out_tag_primitive by blast
    with False have t: "out_tag t = t" "t AND CBS_ASN1_CONSTRUCTED \<noteq> 0" by (simp_all add: out_tag_def)
    with s have "\<not> is_string_type t" by (simp add: string_part_def)
    with body [OF s t(2)] l t rest show ?thesis unfolding e by (auto intro: forest_constructed)
  qed
qed

lemma ber_loop_forest:
  "ber_der_loop fuel cbs 0 eoc depth = Some (bs, cbs') \<Longrightarrow> depth \<le> kMaxDepth \<Longrightarrow> der_forest (kMaxDepth - depth) bs"
proof (induction fuel arbitrary: cbs eoc depth bs cbs')
  case 0
  then show ?case by (simp add: ber_der_loop.simps)
next
  case (Suc fuel)
  have conv: "der_forest (kMaxDepth - depth) bs \<and> depth \<le> kMaxDepth"
    if "ber_der fuel cbs 0 eoc depth = Some (bs, cbs')" for cbs eoc depth bs cbs'
    using that Suc.IH by (simp add: ber_der.simps split: if_splits)
  show ?case
  proof (cases "cbs = []")
    case True
    with Suc.prems show ?thesis by (auto simp: ber_loop_Nil intro: forest_Nil split: if_splits)
  next
    case False
    then obtain e cbs1 where e: "CBS_get_any_ber_asn1_element cbs = (Some e, cbs1)"
      using Suc.prems(1) by (auto simp: ber_der_loop.simps split: prod.splits option.splits)
    note spec = Suc.prems(1) [unfolded ber_loop_Suc [OF e False]]
    show ?thesis
    proof (cases "is_eoc (el_header_len e) (el_out e)")
      case True
      with spec show ?thesis by (auto intro: forest_Nil split: if_splits)
    next
      case no_eoc: False
      then obtain body cbs2 el bs2 where b: "ber_body fuel e cbs1 (child_tag 0 (el_tag e)) depth = Some (body, cbs2)"
        and el: "close_out 0 (el_tag e) body = Some el"
        and r: "ber_der_loop fuel cbs2 0 eoc depth = Some (bs2, cbs')" and bs: "bs = el @ bs2"
        using spec by (auto split: option.splits if_splits)
      have "\<exists>m. kMaxDepth - depth = Suc m \<and> der_forest m body"
        if "\<not> string_part (el_tag e)" "el_tag e AND CBS_ASN1_CONSTRUCTED \<noteq> 0"
      proof -
        have "child_tag 0 (el_tag e) = 0" using that(1) by (simp add: child_tag_def)
        with b that(2) have "\<exists>cbs eoc cbs'. ber_der fuel cbs 0 eoc (Suc depth) = Some (body, cbs')"
          by (auto simp: ber_body_def split: if_splits)
        with conv have "der_forest (kMaxDepth - Suc depth) body" "Suc depth \<le> kMaxDepth" by blast+
        then show ?thesis by (intro exI [of _ "kMaxDepth - Suc depth"]) simp
      qed
      from close_out_forest [OF el Suc.IH [OF r Suc.prems(2)] this] show ?thesis unfolding bs .
    qed
  qed
qed

section \<open>The walk accepts forests\<close>

lemma der_element_is_ber:
  assumes "CBS_get_any_asn1_element cbs = (Some e, rest)"
  shows "CBS_get_any_ber_asn1_element cbs = (Some e, rest)"
proof -
  obtain t lb cs where t: "parse_asn1_tag cbs = (Some t, lb # cs)"
    using assms
    by (auto simp: CBS_get_any_asn1_element_def cbs_get_any_asn1_element_def CBS_get_u8_eq split: prod.splits option.splits list.splits)
  note step = cbs_get_any_asn1_element_def t prod.case option.case CBS_get_u8_Cons Let_def
  note run = assms [unfolded CBS_get_any_asn1_element_def step]
  show ?thesis
  proof (cases "lb AND 0x80 = 0")
    case True
    with run show ?thesis unfolding CBS_get_any_ber_asn1_element_def step by simp
  next
    case False
    with run have k: "unat (lb AND 0x7f) \<noteq> 0" by (simp split: if_splits)
    obtain r cs1 where u: "cbs_get_u cs (unat (lb AND 0x7f)) = (r, cs1)" by fastforce
    show ?thesis
    proof (cases r)
      case None
      with run False u show ?thesis by (simp split: if_splits)
    next
      case (Some v)
      have "\<not> v < 128" "drop_bit ((unat (lb AND 0x7f) - 1) * 8) v \<noteq> 0"
        using run False u Some by (simp_all split: if_splits)
      with run False u Some k show ?thesis unfolding CBS_get_any_ber_asn1_element_def step by (simp only: simp_thms if_False if_True prod.case option.case cong: if_cong)
    qed
  qed
qed

lemma ber_read_der_element:
  assumes "length c < 4294967296"
  shows "CBS_get_any_ber_asn1_element (der_element t c @ rest) =
    (Some \<lparr>el_out = der_element t c, el_tag = t, el_header_len = length (der_tag t @ der_length (length c)),
       el_ber_found = False\<rparr>, rest)"
  by (rule der_element_is_ber) (use assms in \<open>auto simp: CBS_get_any_asn1_element_iff\<close>)

lemma find_ber_loop_element:
  assumes "length c < 4294967296"
  shows "cbs_find_ber_loop (der_element t c @ rest) f depth =
    (if t AND CBS_ASN1_CONSTRUCTED \<noteq> 0 then
       if is_string_type t then Some True
       else case cbs_find_ber c (Suc depth) of None \<Rightarrow> None | Some f \<Rightarrow> cbs_find_ber_loop rest f depth
     else cbs_find_ber_loop rest False depth)"
proof -
  have "CBS_skip (der_element t c) (length (der_tag t @ der_length (length c))) = (Some (), c)"
    by (simp add: CBS_skip_eq der_element_def)
  moreover have "der_element t c \<noteq> []" using length_der_tag(1) [of t] by (auto simp: der_element_def)
  ultimately show ?thesis
    by (subst cbs_find_ber_loop.simps) (simp add: ber_read_der_element [OF assms])
qed

lemma find_ber_loop_Nil: "cbs_find_ber_loop [] f depth = Some f"
  by (simp add: cbs_find_ber_loop.simps)

lemma find_ber_forest:
  "der_forest n bs \<Longrightarrow> depth + n \<le> kMaxDepth \<Longrightarrow> cbs_find_ber_loop bs False depth = Some False"
proof (induction arbitrary: depth rule: der_forest.induct)
  case (forest_Nil n)
  then show ?case by (simp add: find_ber_loop_Nil)
next
  case (forest_primitive c t n rest)
  then show ?case by (simp add: find_ber_loop_element)
next
  case (forest_constructed c t n rest)
  then have "cbs_find_ber c (Suc depth) = Some False" by (simp add: cbs_find_ber.simps)
  with forest_constructed show ?case by (simp add: find_ber_loop_element)
qed

end
