(* ===== verification/BER_Props.thy ===== *)
theory BER_Props
  imports BER_Forest "HOL-Library.Code_Target_Nat"
begin

text \<open>
  What callers of \<^verbatim>\<open>ber.c\<close> rely on: the conversion as a whole and the reader of implicitly tagged strings.
\<close>

section \<open>Implicitly tagged strings\<close>

lemma implicit_loop_True:
  "implicit_string_loop mem child s t = (True, s') \<Longrightarrow> \<exists>chunks. list_all (\<lambda>c. length c < 4294967296) chunks \<and>
    child = concat (map (der_element t) chunks) \<and> put_list (\<lambda>s. CBB_add_bytes mem s 0) s chunks = (True, s')"
proof (induction mem child s t arbitrary: s' rule: implicit_string_loop.induct)
  case (1 mem child s t)
  show ?case
  proof (cases "child = []")
    case True
    with "1.prems" show ?thesis by (intro exI [of _ "[]"]) (simp add: implicit_string_loop.simps)
  next
    case False
    with "1.prems" obtain c child1 s1 where c: "CBS_get_asn1 child t = (Some c, child1)"
      and a: "CBB_add_bytes mem s 0 c = (True, s1)" and r: "implicit_string_loop mem child1 s1 t = (True, s')"
      by (subst (asm) implicit_string_loop.simps) (auto split: prod.splits option.splits bool.splits)
    from "1.IH" [OF _ c [symmetric] refl a [symmetric] _ r] False obtain chunks where
      "list_all (\<lambda>c. length c < 4294967296) chunks" "child1 = concat (map (der_element t) chunks)"
      "put_list (\<lambda>s. CBB_add_bytes mem s 0) s1 chunks = (True, s')" by auto
    with c a show ?thesis by (intro exI [of _ "c # chunks"]) (simp add: CBS_get_asn1_iff)
  qed
qed

lemma implicit_loop_chunks:
  "list_all (\<lambda>c. length c < 4294967296) chunks \<Longrightarrow>
    implicit_string_loop mem (concat (map (der_element t) chunks)) s t = put_list (\<lambda>s. CBB_add_bytes mem s 0) s chunks"
proof (induction chunks arbitrary: s)
  case Nil
  then show ?case by (simp add: implicit_string_loop.simps)
next
  case (Cons c chunks)
  then have "CBS_get_asn1 (concat (map (der_element t) (c # chunks))) t = (Some c, concat (map (der_element t) chunks))"
    by (simp add: CBS_get_asn1_iff)
  moreover have "der_element t c \<noteq> []" using length_der_tag(1) [of t] by (auto simp: der_element_def)
  ultimately show ?case using Cons by (subst implicit_string_loop.simps) (auto split: prod.split bool.split)
qed

lemma peek_iff: "CBS_peek_asn1_tag cbs t \<longleftrightarrow> (\<exists>rest. cbs = der_tag t @ rest)"
proof -
  have "(\<exists>rest. cbs = der_tag t @ rest) \<longleftrightarrow> (\<exists>rest. parse_asn1_tag cbs = (Some t, rest))"
    by (simp add: asn1_tag.dec_iff)
  then show ?thesis by (cases cbs) (auto simp: CBS_peek_asn1_tag_def split: prod.splits option.splits)
qed

lemma der_tag_prefix: "der_tag t @ xs = der_tag u @ ys \<Longrightarrow> t = u"
  using asn1_tag.prefix_free by blast

definition chunked :: "u32 \<Rightarrow> byte list list \<Rightarrow> byte list" where
  "chunked t chunks = concat (map (der_element t) chunks)"

lemma length_chunks: "length (concat chunks) \<le> length (chunked t chunks)"
  by (induction chunks) (auto simp: chunked_def der_element_def)

lemma implicit_constructed:
  assumes "CBS_get_asn1_implicit_string mem cbs outer inner = (Some (out, storage), rest)"
    and "\<not> CBS_peek_asn1_tag cbs outer" and "length cbs < SIZE_MOD"
  shows "storage = Some out \<and> (\<exists>chunks. list_all (\<lambda>c. length c < 4294967296) chunks \<and> out = concat chunks \<and>
    length (chunked inner chunks) < 4294967296 \<and> cbs = der_element (outer OR CBS_ASN1_CONSTRUCTED) (chunked inner chunks) @ rest)"
proof -
  from assms(1,2) obtain s child s1 s2 where i: "CBB_init mem (length cbs) = (True, s)"
    and c: "CBS_get_asn1 cbs (outer OR CBS_ASN1_CONSTRUCTED) = (Some child, rest)"
    and l: "implicit_string_loop mem child s inner = (True, s1)" and f: "CBB_finish mem s1 0 True = (Some out, s2)"
    and st: "storage = Some out"
    by (auto simp: CBS_get_asn1_implicit_string_def split: prod.splits option.splits bool.splits)
  from CBB_init_True [OF i assms(3)] have s: "cbb_ok s" "contents 0 s = Some []" by simp_all
  from implicit_loop_True [OF l] obtain chunks where ch: "list_all (\<lambda>c. length c < 4294967296) chunks"
    "child = chunked inner chunks" "put_list (\<lambda>s. CBB_add_bytes mem s 0) s chunks = (True, s1)"
    unfolding chunked_def by blast
  have "list_all (\<lambda>c. length c < SIZE_MOD) chunks" using ch(1) by (rule list.pred_mono_strong) simp
  from bytes.put_list_True [OF s(1) this ch(3)] s(2) have "cbb_ok s1" "contents 0 s1 = Some (concat chunks)" by auto
  with CBB_finish_Some [OF this(1) f] ch c st show ?thesis by (auto simp: CBS_get_asn1_iff)
qed

lemma constructed_not_peek:
  assumes outer: "outer AND CBS_ASN1_CONSTRUCTED = 0" and cbs: "cbs = der_element (outer OR CBS_ASN1_CONSTRUCTED) x @ rest"
  shows "\<not> CBS_peek_asn1_tag cbs outer"
proof -
  have "outer \<noteq> outer OR CBS_ASN1_CONSTRUCTED"
  proof
    assume "outer = outer OR CBS_ASN1_CONSTRUCTED"
    then have "outer AND CBS_ASN1_CONSTRUCTED = (outer OR CBS_ASN1_CONSTRUCTED) AND CBS_ASN1_CONSTRUCTED" by simp
    then have "CBS_ASN1_CONSTRUCTED = 0" unfolding bit.conj_disj_distrib2 outer by simp
    then show False by (simp add: CBS_ASN1_CONSTRUCTED_def CBS_ASN1_TAG_SHIFT_def)
  qed
  then show ?thesis
    using der_tag_prefix by (fastforce simp: peek_iff cbs der_element_def)
qed

lemma implicit_constructed_succeeds:
  assumes g: "\<And>k. grants mem k" and ch: "list_all (\<lambda>c. length c < 4294967296) chunks"
    and len: "length (chunked inner chunks) < 4294967296" "length cbs \<le> 2 ^ 62"
    and cbs: "cbs = der_element (outer OR CBS_ASN1_CONSTRUCTED) (chunked inner chunks) @ rest"
    and outer: "outer AND CBS_ASN1_CONSTRUCTED = 0"
  shows "CBS_get_asn1_implicit_string mem cbs outer inner = (Some (concat chunks, Some (concat chunks)), rest)"
proof -
  have peek: "\<not> CBS_peek_asn1_tag cbs outer" by (rule constructed_not_peek [OF outer cbs])
  obtain s where i: "CBB_init mem (length cbs) = (True, s)" using CBB_init_succeeds [OF g len(2)] by blast
  from CBB_init_True [OF i] len(2) have s: "cbb_ok s" "contents 0 s = Some []" by simp_all
  have "length (concat chunks) \<le> 2 ^ 61" using length_chunks [of chunks inner] len(1) by simp
  then have room: "room mem s (length (concat chunks))" by (rule CBB_init_room [OF g i len(2)])
  have big: "list_all (\<lambda>c. length c < SIZE_MOD) chunks" using ch by (rule list.pred_mono_strong) simp
  have "fst (put_list (\<lambda>s. CBB_add_bytes mem s 0) s chunks)"
    by (rule bytes.put_list_room [OF s big]) (use room in \<open>simp_all add: list_all_iff\<close>)
  then obtain s1 where p: "put_list (\<lambda>s. CBB_add_bytes mem s 0) s chunks = (True, s1)" by (elim fst_TrueE)
  from bytes.put_list_True [OF s(1) big p] s(2) room have s1: "cbb_ok s1" "contents 0 s1 = Some (concat chunks)"
    "room mem s1 (length (concat chunks))" by auto
  from CBB_finish_succeeds [OF s1] obtain s2 where "CBB_finish mem s1 0 True = (Some (concat chunks), s2)" by blast
  with i p peek implicit_loop_chunks [OF ch, of mem inner s] len(1) show ?thesis
    by (simp add: CBS_get_asn1_implicit_string_def CBS_get_asn1_iff [THEN iffD2, OF conjI [OF len(1) cbs]] chunked_def)
qed

section \<open>The conversion as a whole\<close>

lemma find_ber_0: "der_forest kMaxDepth bs \<Longrightarrow> cbs_find_ber bs 0 = Some False"
  by (simp add: cbs_find_ber.simps find_ber_forest)

lemma ber_to_der_converted:
  assumes "CBS_asn1_ber_to_der mem cbs = (Some (out, Some st), rest)" and "length cbs < SIZE_MOD"
  shows "st = out \<and> (\<exists>fuel. ber_der fuel cbs 0 False 0 = Some (out, rest))"
proof -
  from assms(1) obtain s s1 s2 where i: "CBB_init mem (length cbs) = (True, s)"
    and c: "cbs_convert_ber (Suc (length cbs)) mem cbs s 0 0 False 0 = Some (True, rest, s1)"
    and f: "CBB_finish mem s1 0 True = (Some out, s2)" and st: "st = out"
    by (auto simp: CBS_asn1_ber_to_der_def split: prod.splits option.splits bool.splits)
  from CBB_init_True [OF i assms(2)] have s: "cbb_ok s" "contents 0 s \<noteq> None" "contents 0 s = Some []" by simp_all
  from convert_sound [OF s(1,2) assms(2) c] s(3) obtain bs where
    "ber_der (Suc (length cbs)) cbs 0 False 0 = Some (bs, rest)" "cbb_ok s1" "contents 0 s1 = Some bs" by (auto simp: grows_def)
  with CBB_finish_Some [OF this(2) f] st show ?thesis by auto
qed

lemma ber_to_der_succeeds:
  assumes g: "\<And>k. grants mem k" and len: "length cbs \<le> 2 ^ 62" "length bs \<le> 2 ^ 61" and f: "cbs_find_ber cbs 0 = Some True"
    and b: "ber_der (Suc (length cbs)) cbs 0 False 0 = Some (bs, rest)"
  shows "CBS_asn1_ber_to_der mem cbs = (Some (bs, Some bs), rest)"
proof -
  obtain s where i: "CBB_init mem (length cbs) = (True, s)" using CBB_init_succeeds [OF g len(1)] by blast
  have l: "length cbs < SIZE_MOD" using len(1) by simp
  from CBB_init_True [OF i l] have s: "cbb_ok s" "contents 0 s = Some []" by simp_all
  have room: "room mem s (length bs)" by (rule CBB_init_room [OF g i len])
  from convert_loop_succeeds [OF s l, of "Suc (length cbs)" 0 False 0 bs rest mem] b room obtain s1 where
    c: "cbs_convert_ber (Suc (length cbs)) mem cbs s 0 0 False 0 = Some (True, rest, s1)"
    by (auto simp: ber_der.simps cbs_convert_ber.simps)
  from convert_sound [OF s(1) _ l c] b s(2) room have s1: "cbb_ok s1" "contents 0 s1 = Some bs" "room mem s1 (length bs)"
    by (auto simp: grows_def)
  from CBB_finish_succeeds [OF s1] obtain s2 where "CBB_finish mem s1 0 True = (Some bs, s2)" by blast
  with f i c show ?thesis by (simp add: CBS_asn1_ber_to_der_def)
qed

text \<open>For the concrete instances: a constructed octet string of indefinite length, an empty SEQUENCE of indefinite
  length, and a fresh builder.\<close>

definition demo_ber :: "byte list" where
  "demo_ber = [0x24, 0x80, 0x04, 0x01, 0x61, 0, 0]"

definition demo_nested :: "byte list" where
  "demo_nested = [0x30, 0x80, 0, 0]"

definition demo_fresh :: CBB where
  "demo_fresh = snd (CBB_init generous 4)"

lemma generous_grants: "grants generous k"
  by (simp add: generous_def)

lemma demo_fresh: "CBB_init generous 4 = (True, demo_fresh)"
  using CBB_init_succeeds [of generous 4] by (auto simp: demo_fresh_def generous_grants)

lemma demo_ber_der: "ber_der 8 demo_ber 0 False 0 = Some ([4, 1, 0x61], [])"
  by code_simp

section \<open>Properties\<close>

text \<open>C4: \<open>cbs_convert_ber\<close> implements the conversion on byte strings: into any builder it appends exactly the bytes
  the specification gives and leaves its cursor where the specification does, and when there is room for them it succeeds.\<close>

theorem convert_ber_refines:
  assumes "cbb_ok out" and "contents d out = Some w" and "length cbs < SIZE_MOD"
  shows "(cbs_convert_ber fuel mem cbs out d st eoc depth = Some (True, cbs', out') \<longrightarrow>
      (\<exists>bs. ber_der fuel cbs st eoc depth = Some (bs, cbs') \<and> cbb_ok out' \<and> contents d out' = Some (w @ bs))) \<and>
    (ber_der fuel cbs st eoc depth = Some (bs, cbs') \<and> room mem out (length (w @ bs)) \<longrightarrow>
      (\<exists>out'. cbs_convert_ber fuel mem cbs out d st eoc depth = Some (True, cbs', out')))"
proof (intro conjI impI)
  assume "cbs_convert_ber fuel mem cbs out d st eoc depth = Some (True, cbs', out')"
  from convert_sound [OF assms(1) _ assms(3) this] assms(2)
  show "\<exists>bs. ber_der fuel cbs st eoc depth = Some (bs, cbs') \<and> cbb_ok out' \<and> contents d out' = Some (w @ bs)"
    by (auto simp: grows_def)
next
  assume "ber_der fuel cbs st eoc depth = Some (bs, cbs') \<and> room mem out (length (w @ bs))"
  with convert_loop_succeeds [OF assms, of fuel st eoc depth bs cbs' mem]
  show "\<exists>out'. cbs_convert_ber fuel mem cbs out d st eoc depth = Some (True, cbs', out')"
    by (simp add: ber_der.simps cbs_convert_ber.simps split: if_splits)
qed

theorem convert_ber_refines_witness:
  "\<exists>out. cbs_convert_ber 8 generous demo_ber demo_fresh 0 0 False 0 = Some (True, [], out)"
proof -
  have ok: "cbb_ok demo_fresh" "contents 0 demo_fresh = Some []" using CBB_init_True [OF demo_fresh] by simp_all
  have "room generous demo_fresh (length ([] @ [4, 1, 0x61 :: byte]))"
    using CBB_init_room [OF generous_grants demo_fresh] by simp
  with demo_ber_der convert_ber_refines [OF ok, of demo_ber 8 generous 0 False 0 "[]" _ "[4, 1, 0x61]"] show ?thesis
    by (simp add: demo_ber_def)
qed

text \<open>C33: The loop and the recursion of \<open>cbs_convert_ber\<close> end: one unit of fuel more than the input has bytes is
  always enough, so the fuel \<open>CBS_asn1_ber_to_der\<close> passes never runs out.\<close>

theorem convert_ber_terminates:
  assumes "length cbs < fuel"
  shows "\<exists>ok cbs' out'. cbs_convert_ber fuel mem cbs out d st eoc depth = Some (ok, cbs', out') \<and> length cbs' \<le> length cbs"
  using convert_loop_terminates [OF assms, of mem out d st eoc depth]
  by (cases "kMaxDepth < depth") (auto simp: cbs_convert_ber.simps)

theorem convert_ber_terminates_witness:
  "\<exists>ok cbs' out'. cbs_convert_ber 8 generous demo_ber demo_fresh 0 0 False 0 = Some (ok, cbs', out') \<and> length cbs' \<le> length demo_ber"
  by (rule convert_ber_terminates) (simp add: demo_ber_def)

text \<open>C5: What \<open>CBS_asn1_ber_to_der\<close> converts is DER: a forest of DER elements with definite minimal lengths and
  without constructed strings, in which \<open>cbs_find_ber\<close> finds nothing left to convert.\<close>

theorem ber_to_der_is_der:
  assumes "CBS_asn1_ber_to_der mem cbs = (Some (out, Some storage), rest)" and "length cbs < SIZE_MOD"
  shows "storage = out \<and> der_forest kMaxDepth out \<and> cbs_find_ber out 0 = Some False"
proof -
  from ber_to_der_converted [OF assms] obtain fuel where "storage = out" "ber_der fuel cbs 0 False 0 = Some (out, rest)" by auto
  moreover from this(2) have "der_forest (kMaxDepth - 0) out" by (intro ber_loop_forest) (simp_all add: ber_der.simps)
  ultimately show ?thesis using find_ber_0 by simp
qed

theorem ber_to_der_is_der_witness:
  "CBS_asn1_ber_to_der generous demo_ber = (Some ([4, 1, 0x61], Some [4, 1, 0x61]), []) \<and>
    der_forest kMaxDepth [4, 1, 0x61] \<and> cbs_find_ber [4, 1, 0x61] 0 = Some False"
proof -
  have "cbs_find_ber demo_ber 0 = Some True" by code_simp
  moreover have "Suc (length demo_ber) = 8" by (simp add: demo_ber_def)
  ultimately have c: "CBS_asn1_ber_to_der generous demo_ber = (Some ([4, 1, 0x61], Some [4, 1, 0x61]), [])"
    using demo_ber_der by (intro ber_to_der_succeeds) (simp_all add: generous_grants)
  with ber_to_der_is_der [OF c] show ?thesis by (simp add: demo_ber_def)
qed

text \<open>Input that is DER already is returned as it is: the first element, no new block, and the rest of the input.\<close>

lemma der_returned_unchanged:
  assumes "der_forest kMaxDepth cbs" and "cbs = der_element t c @ rest" and "length c < 4294967296"
  shows "CBS_asn1_ber_to_der mem cbs = (Some (der_element t c, None), rest)"
proof -
  have "CBS_get_any_asn1_element cbs = (Some \<lparr>el_out = der_element t c, el_tag = t,
      el_header_len = length (der_tag t @ der_length (length c)), el_ber_found = False\<rparr>, rest)"
    unfolding CBS_get_any_asn1_element_iff using assms(2,3) by auto
  with find_ber_0 [OF assms(1)] show ?thesis by (simp add: CBS_asn1_ber_to_der_def)
qed

text \<open>C34: \<open>cbs_find_ber\<close> forgets what it found in a nested element when another element follows: whatever the walk of
  the contents reports, the primitive element after it resets the flag, and the walk reports no BER.\<close>

theorem nested_ber_overlooked:
  assumes "t AND CBS_ASN1_CONSTRUCTED \<noteq> 0" and "\<not> is_string_type t" and "u AND CBS_ASN1_CONSTRUCTED = 0"
    and "length c < 4294967296" and "length x < 4294967296" and "depth \<le> kMaxDepth"
    and "cbs_find_ber c (Suc depth) = Some True"
  shows "cbs_find_ber (der_element t c @ der_element u x) depth = Some False"
  using assms find_ber_loop_element [of x u "[]" True depth]
  by (simp add: cbs_find_ber.simps [of _ depth] find_ber_loop_element find_ber_loop_Nil)

theorem nested_ber_overlooked_witness:
  "cbs_find_ber demo_nested 1 = Some True \<and>
    cbs_find_ber (der_element 0x20000010 demo_nested @ der_element CBS_ASN1_INTEGER [5]) 0 = Some False"
proof -
  have n: "cbs_find_ber demo_nested (Suc 0) = Some True" by code_simp
  moreover have "\<not> is_string_type 0x20000010" by code_simp
  ultimately show ?thesis using nested_ber_overlooked [where t = "0x20000010" and u = CBS_ASN1_INTEGER and c = demo_nested and x = "[5]" and depth = 0]
    by (simp add: CBS_ASN1_INTEGER_def CBS_ASN1_CONSTRUCTED_def CBS_ASN1_TAG_SHIFT_def demo_nested_def kMaxDepth_def)
qed

text \<open>With memory available \<open>CBS_get_asn1_implicit_string\<close> accepts exactly the two forms of an implicitly tagged
  string: the primitive one, returned in place, and the constructed one, whose chunks are returned joined.\<close>

lemma implicit_string_exact:
  assumes "\<forall>k. grants mem k" and "length cbs \<le> 2 ^ 62" and "outer AND CBS_ASN1_CONSTRUCTED = 0"
  shows "CBS_get_asn1_implicit_string mem cbs outer inner = (Some (out, storage), rest) \<longleftrightarrow>
    storage = None \<and> length out < 4294967296 \<and> cbs = der_element outer out @ rest \<or>
    storage = Some out \<and> (\<exists>chunks. list_all (\<lambda>c. length c < 4294967296) chunks \<and> out = concat chunks \<and>
      length (chunked inner chunks) < 4294967296 \<and>
      cbs = der_element (outer OR CBS_ASN1_CONSTRUCTED) (chunked inner chunks) @ rest)"
    (is "?L \<longleftrightarrow> ?P \<or> ?C")
proof (cases "CBS_peek_asn1_tag cbs outer")
  case True
  then have "?L \<longleftrightarrow> storage = None \<and> CBS_get_asn1 cbs outer = (Some out, rest)"
    by (auto simp: CBS_get_asn1_implicit_string_def split: prod.splits option.splits)
  then have "?L \<longleftrightarrow> ?P" by (simp add: CBS_get_asn1_iff)
  moreover have "\<not> ?C" using True constructed_not_peek [OF assms(3)] by blast
  ultimately show ?thesis by blast
next
  case False
  then have "\<not> ?P" by (auto simp: peek_iff der_element_def)
  moreover have "length cbs < SIZE_MOD" using assms(2) by simp
  then have "?L \<Longrightarrow> ?C" using implicit_constructed [OF _ False] by blast
  moreover have "?C \<Longrightarrow> ?L" using implicit_constructed_succeeds [of mem _ inner cbs outer rest] assms by blast
  ultimately show ?thesis by blast
qed

end
