(* ===== verification/ConstTime.thy ===== *)
theory ConstTime
  imports Prelude
begin

text \<open>
  The branch-free comparisons and selections of \<^verbatim>\<open>crypto/internal.h\<close> on 64-bit words, and the proof that each
  computes the mask its name says. The value barriers are identities.
\<close>

section \<open>Operations\<close>

type_synonym crypto_word_t = u64

definition value_barrier_w :: "crypto_word_t \<Rightarrow> crypto_word_t" where
  "value_barrier_w a = a"

definition constant_time_msb_w :: "crypto_word_t \<Rightarrow> crypto_word_t" where
  "constant_time_msb_w a = 0 - drop_bit 63 a"

definition constant_time_lt_w :: "crypto_word_t \<Rightarrow> crypto_word_t \<Rightarrow> crypto_word_t" where
  "constant_time_lt_w a b = constant_time_msb_w (a XOR ((a XOR b) OR ((a - b) XOR a)))"

definition constant_time_lt_8 :: "crypto_word_t \<Rightarrow> crypto_word_t \<Rightarrow> byte" where
  "constant_time_lt_8 a b = ucast (constant_time_lt_w a b)"

definition constant_time_ge_w :: "crypto_word_t \<Rightarrow> crypto_word_t \<Rightarrow> crypto_word_t" where
  "constant_time_ge_w a b = NOT (constant_time_lt_w a b)"

definition constant_time_ge_8 :: "crypto_word_t \<Rightarrow> crypto_word_t \<Rightarrow> byte" where
  "constant_time_ge_8 a b = ucast (constant_time_ge_w a b)"

definition constant_time_is_zero_w :: "crypto_word_t \<Rightarrow> crypto_word_t" where
  "constant_time_is_zero_w a = constant_time_msb_w (NOT a AND (a - 1))"

definition constant_time_is_zero_8 :: "crypto_word_t \<Rightarrow> byte" where
  "constant_time_is_zero_8 a = ucast (constant_time_is_zero_w a)"

definition constant_time_eq_w :: "crypto_word_t \<Rightarrow> crypto_word_t \<Rightarrow> crypto_word_t" where
  "constant_time_eq_w a b = constant_time_is_zero_w (a XOR b)"

definition constant_time_eq_8 :: "crypto_word_t \<Rightarrow> crypto_word_t \<Rightarrow> byte" where
  "constant_time_eq_8 a b = ucast (constant_time_eq_w a b)"

text \<open>An \<open>int\<close> converts to the unsigned word with sign extension.\<close>

definition constant_time_eq_int :: "32 word \<Rightarrow> 32 word \<Rightarrow> crypto_word_t" where
  "constant_time_eq_int a b = constant_time_eq_w (scast a) (scast b)"

definition constant_time_eq_int_8 :: "32 word \<Rightarrow> 32 word \<Rightarrow> byte" where
  "constant_time_eq_int_8 a b = constant_time_eq_8 (scast a) (scast b)"

definition constant_time_select_w :: "crypto_word_t \<Rightarrow> crypto_word_t \<Rightarrow> crypto_word_t \<Rightarrow> crypto_word_t" where
  "constant_time_select_w mask_w a b = (value_barrier_w mask_w AND a) OR (value_barrier_w (NOT mask_w) AND b)"

definition constant_time_select_8 :: "byte \<Rightarrow> byte \<Rightarrow> byte \<Rightarrow> byte" where
  "constant_time_select_8 mask_8 a b = ucast (constant_time_select_w (ucast mask_8) (ucast a) (ucast b))"

definition constant_time_select_int :: "crypto_word_t \<Rightarrow> 32 word \<Rightarrow> 32 word \<Rightarrow> 32 word" where
  "constant_time_select_int mask_w a b = ucast (constant_time_select_w mask_w (scast a) (scast b))"

section \<open>The masks\<close>

definition ct_mask :: "bool \<Rightarrow> 'a :: len word" where
  "ct_mask b = (if b then - 1 else 0)"

lemma bit63: "bit (a :: u64) 63 \<longleftrightarrow> 2 ^ 63 \<le> unat a"
proof -
  have "bit a 63 \<longleftrightarrow> bit (unat a) 63" by (simp add: bit_unsigned_iff)
  also have "\<dots> \<longleftrightarrow> odd (unat a div 2 ^ 63)" by (rule bit_iff_odd)
  also have "\<dots> \<longleftrightarrow> 2 ^ 63 \<le> unat a"
  proof (cases "2 ^ 63 \<le> unat a")
    case True
    have "unat a < 2 * 2 ^ 63" using unsigned_less [of a, where 'a = nat] by simp
    with True have "unat a div 2 ^ 63 = 1" by (intro div_nat_eqI) simp_all
    with True show ?thesis by simp
  qed simp
  finally show ?thesis .
qed

lemma msb_w: "constant_time_msb_w a = ct_mask (bit a 63)"
proof -
  have "bit a (63 + n) \<longleftrightarrow> n = 0 \<and> bit a 63" for n
    using bit_imp_le_length [of a "63 + n"] by (cases n) auto
  then have "drop_bit 63 a = (if bit a 63 then 1 else 0)"
    by (intro bit_word_eqI) (auto simp: bit_drop_bit_eq bit_1_iff)
  then show ?thesis by (simp add: constant_time_msb_w_def ct_mask_def)
qed

lemma lt_w: "constant_time_lt_w a b = ct_mask (a < b)"
proof -
  have less: "unat a < 2 * 2 ^ 63" "unat b < 2 * 2 ^ 63"
    using unsigned_less [of a, where 'a = nat] unsigned_less [of b, where 'a = nat] by simp_all
  have sub: "unat (a - b) = (if unat b \<le> unat a then unat a - unat b else 2 * 2 ^ 63 + unat a - unat b)"
    by (subst add.commute) (simp add: unat_sub_if')
  have "bit (a XOR ((a XOR b) OR ((a - b) XOR a))) 63 \<longleftrightarrow>
      (if bit a 63 = bit b 63 then bit (a - b) 63 else bit b 63)"
    by (auto simp: bit_simps)
  also have "\<dots> \<longleftrightarrow> unat a < unat b"
  proof (cases "unat b \<le> unat a")
    case True
    then show ?thesis using less unfolding bit63 sub by (simp del: power_numeral) linarith
  next
    case False
    then show ?thesis using less unfolding bit63 sub by (simp del: power_numeral) linarith
  qed
  finally show ?thesis by (simp add: constant_time_lt_w_def msb_w word_less_nat_alt)
qed

lemma is_zero_w: "constant_time_is_zero_w a = ct_mask (a = 0)"
proof -
  have "bit (NOT a AND (a - 1)) 63 \<longleftrightarrow> a = 0"
  proof (cases "a = 0")
    case True
    then show ?thesis by (simp add: bit_simps)
  next
    case False
    then have "unat (a - 1) < unat a" by (simp add: unat_minus_one unat_gt_0)
    moreover have "bit (NOT a AND (a - 1)) 63 \<longleftrightarrow> \<not> bit a 63 \<and> bit (a - 1) 63" by (simp add: bit_simps)
    ultimately show ?thesis using False unfolding bit63 by linarith
  qed
  then show ?thesis by (simp add: constant_time_is_zero_w_def msb_w)
qed

lemma eq_w: "constant_time_eq_w a b = ct_mask (a = b)"
  by (simp add: constant_time_eq_w_def is_zero_w)

lemma ucast_ct_mask: "ucast (ct_mask b :: u64) = (ct_mask b :: byte)"
  by (rule bit_word_eqI) (simp add: ct_mask_def bit_simps)

lemma lt_8: "constant_time_lt_8 a b = ct_mask (a < b)"
  and ge_8: "constant_time_ge_8 a b = ct_mask (a \<ge> b)"
  and is_zero_8: "constant_time_is_zero_8 a = ct_mask (a = 0)"
  and eq_8: "constant_time_eq_8 a b = ct_mask (a = b)"
proof -
  have "NOT (ct_mask c :: u64) = ct_mask (\<not> c)" for c by (simp add: ct_mask_def)
  then show "constant_time_lt_8 a b = ct_mask (a < b)" "constant_time_ge_8 a b = ct_mask (a \<ge> b)"
    "constant_time_is_zero_8 a = ct_mask (a = 0)" "constant_time_eq_8 a b = ct_mask (a = b)"
    by (simp_all add: constant_time_lt_8_def constant_time_ge_8_def constant_time_ge_w_def constant_time_is_zero_8_def
        constant_time_eq_8_def lt_w is_zero_w eq_w ucast_ct_mask not_less)
qed

lemma select_w: "constant_time_select_w (ct_mask c) a b = (if c then a else b)"
  by (simp add: constant_time_select_w_def value_barrier_w_def ct_mask_def)

lemma select_8: "constant_time_select_8 (ct_mask c) a b = (if c then a else b)"
proof -
  have "ucast (0xff :: byte) = (0xff :: u64)" by simp
  show ?thesis
    by (rule bit_word_eqI) (simp add: constant_time_select_8_def constant_time_select_w_def value_barrier_w_def ct_mask_def bit_simps)
qed

end
