(* ===== verification/Base64.thy ===== *)
theory Base64
  imports ConstTime Mem
begin

text \<open>
  Base64, \<^verbatim>\<open>crypto/base64/base64.c\<close>: the one-shot encoder and decoder and the streaming ones that PEM uses. An output
  buffer is the list of bytes written to it. Characters are their ASCII codes: \<open>+\<close> 43, \<open>/\<close> 47, \<open>0\<close> 48, \<open>=\<close> 61,
  \<open>A\<close> 65, \<open>a\<close> 97, newline 10.
\<close>

section \<open>Operations\<close>

definition constant_time_lt_args_8 :: "byte \<Rightarrow> byte \<Rightarrow> byte" where
  "constant_time_lt_args_8 a b = (let aw = ucast a; bw = ucast b in ucast (constant_time_msb_w (aw - bw)))"

definition constant_time_in_range_8 :: "byte \<Rightarrow> byte \<Rightarrow> byte \<Rightarrow> byte" where
  "constant_time_in_range_8 a lo hi = (let a = a - lo in constant_time_lt_args_8 a (hi - lo + 1))"

definition conv_bin2ascii :: "byte \<Rightarrow> byte" where
  "conv_bin2ascii a =
     (let a = a AND 0x3f;
          ret = constant_time_select_8 (constant_time_eq_8 (ucast a) 62) 43 47;
          ret = constant_time_select_8 (constant_time_lt_args_8 a 62) (a - 52 + 48) ret;
          ret = constant_time_select_8 (constant_time_lt_args_8 a 52) (a - 26 + 97) ret;
          ret = constant_time_select_8 (constant_time_lt_args_8 a 26) (a + 65) ret
      in ret)"

definition EVP_EncodedLength :: "nat \<Rightarrow> nat option" where
  "EVP_EncodedLength len =
     (if (len + 2) mod SIZE_MOD < len then None
      else let len = (len + 2) mod SIZE_MOD;
               len = len div 3
           in if (len * 4 mod SIZE_MOD) div 4 \<noteq> len then None
              else let len = len * 4 mod SIZE_MOD
                   in if (len + 1) mod SIZE_MOD < len then None
                      else Some ((len + 1) mod SIZE_MOD))"

record EVP_ENCODE_CTX =
  data_used :: nat
  ctx_data :: "byte list"
  eof_seen :: bool
  error_encountered :: bool

abbreviation CTX_DATA :: nat where
  "CTX_DATA \<equiv> 48"

definition zero_ctx :: EVP_ENCODE_CTX where
  "zero_ctx = \<lparr>data_used = 0, ctx_data = replicate CTX_DATA 0, eof_seen = False, error_encountered = False\<rparr>"

definition sizeof_EVP_ENCODE_CTX :: nat where
  "sizeof_EVP_ENCODE_CTX = 56"

definition EVP_ENCODE_CTX_new :: "allocator \<Rightarrow> EVP_ENCODE_CTX option" where
  "EVP_ENCODE_CTX_new mem = (case OPENSSL_malloc mem sizeof_EVP_ENCODE_CTX of
      None \<Rightarrow> None
    | Some _ \<Rightarrow> Some zero_ctx)"

definition EVP_EncodeInit :: "EVP_ENCODE_CTX \<Rightarrow> EVP_ENCODE_CTX" where
  "EVP_EncodeInit ctx = zero_ctx"

text \<open>\<open>EVP_EncodeBlock\<close> gives the bytes it writes, the terminator included, and the number it returns.\<close>

fun encode_block_loop :: "byte list \<Rightarrow> byte list \<Rightarrow> nat \<Rightarrow> byte list \<times> nat" where
  "encode_block_loop [] dst ret = (dst, ret)"
| "encode_block_loop [s0] dst ret =
     (let l = push_bit 16 (ucast s0) :: u32
      in (dst @ [conv_bin2ascii (ucast (drop_bit 18 l)), conv_bin2ascii (ucast (drop_bit 12 l)), 61, 61], ret + 4))"
| "encode_block_loop [s0, s1] dst ret =
     (let l = push_bit 16 (ucast s0) :: u32;
          l = l OR push_bit 8 (ucast s1)
      in (dst @ [conv_bin2ascii (ucast (drop_bit 18 l)), conv_bin2ascii (ucast (drop_bit 12 l)),
                 conv_bin2ascii (ucast (drop_bit 6 l)), 61], ret + 4))"
| "encode_block_loop (s0 # s1 # s2 # src) dst ret =
     (let l = (push_bit 16 (ucast s0) OR push_bit 8 (ucast s1)) OR ucast s2 :: u32
      in encode_block_loop src
           (dst @ [conv_bin2ascii (ucast (drop_bit 18 l)), conv_bin2ascii (ucast (drop_bit 12 l)),
                   conv_bin2ascii (ucast (drop_bit 6 l)), conv_bin2ascii (ucast l)]) (ret + 4))"

definition EVP_EncodeBlock :: "byte list \<Rightarrow> byte list \<times> nat" where
  "EVP_EncodeBlock src = (case encode_block_loop src [] 0 of (dst, ret) \<Rightarrow> (dst @ [0], ret))"

text \<open>The loop over whole lines: the rest of the input, the bytes before the output pointer, the running tot, and
  whether the tot overflowed. \<open>*out = 0\<close> after each line is overwritten by the next one.\<close>

function encode_update_loop :: "byte list \<Rightarrow> byte list \<Rightarrow> nat \<Rightarrow> byte list \<times> byte list \<times> nat \<times> bool" where
  "encode_update_loop src out tot =
     (if length src \<ge> CTX_DATA then
        (case EVP_EncodeBlock (take CTX_DATA src) of
           (dst, encoded) \<Rightarrow>
             let src = drop CTX_DATA src;
                 out = out @ take encoded dst @ [10]
             in if (tot + encoded + 1) mod SIZE_MOD < tot then (src, out, tot, True)
                else encode_update_loop src out ((tot + encoded + 1) mod SIZE_MOD))
      else (src, out, tot, False))"
  by pat_completeness auto
termination by (relation "measure (\<lambda>(src, _, _). length src)") auto

declare encode_update_loop.simps [simp del]

text \<open>\<open>EVP_EncodeUpdate\<close> gives the context, the bytes written (with the terminator, if any) and \<open>*out_len\<close>.\<close>

definition EVP_EncodeUpdate :: "EVP_ENCODE_CTX \<Rightarrow> byte list \<Rightarrow> EVP_ENCODE_CTX \<times> byte list \<times> nat" where
  "EVP_EncodeUpdate ctx src =
     (if length src = 0 then (ctx, [], 0)
      else if CTX_DATA - data_used ctx > length src then
        (ctx\<lparr>ctx_data := OPENSSL_memcpy (ctx_data ctx) (data_used ctx) src, data_used := data_used ctx + length src\<rparr>, [], 0)
      else case (if data_used ctx \<noteq> 0 then
                   let todo = CTX_DATA - data_used ctx;
                       block = OPENSSL_memcpy (ctx_data ctx) (data_used ctx) (take todo src)
                   in case EVP_EncodeBlock block of
                        (dst, encoded) \<Rightarrow> (ctx\<lparr>ctx_data := block, data_used := 0\<rparr>, drop todo src,
                          take encoded dst @ [10], encoded + 1)
                 else (ctx, src, [], 0)) of
          (ctx, src, out, tot) \<Rightarrow>
            (case encode_update_loop src out tot of
               (src, out, tot, overflow) \<Rightarrow>
                 let written = (if out = [] then [] else out @ [0])
                 in if overflow then (ctx, written, 0)
                    else let ctx = (if length src \<noteq> 0 then ctx\<lparr>ctx_data := OPENSSL_memcpy (ctx_data ctx) 0 src\<rparr> else ctx);
                             ctx = ctx\<lparr>data_used := length src\<rparr>;
                             tot = (if tot > INT_MAX then 0 else tot)
                         in (ctx, written, tot)))"

definition EVP_EncodeFinal :: "EVP_ENCODE_CTX \<Rightarrow> EVP_ENCODE_CTX \<times> byte list \<times> nat" where
  "EVP_EncodeFinal ctx =
     (if data_used ctx = 0 then (ctx, [], 0)
      else case EVP_EncodeBlock (take (data_used ctx) (ctx_data ctx)) of
          (dst, encoded) \<Rightarrow> (ctx\<lparr>data_used := 0\<rparr>, take encoded dst @ [10, 0], encoded + 1))"

definition EVP_DecodedLength :: "nat \<Rightarrow> nat option" where
  "EVP_DecodedLength len = (if len mod 4 \<noteq> 0 then None else Some (len div 4 * 3))"

definition EVP_DecodeInit :: "EVP_ENCODE_CTX \<Rightarrow> EVP_ENCODE_CTX" where
  "EVP_DecodeInit ctx = zero_ctx"

definition base64_ascii_to_bin :: "byte \<Rightarrow> byte" where
  "base64_ascii_to_bin a =
     (let is_upper = constant_time_in_range_8 a 65 90;
          is_lower = constant_time_in_range_8 a 97 122;
          is_digit = constant_time_in_range_8 a 48 57;
          is_plus = constant_time_eq_8 (ucast a) 43;
          is_slash = constant_time_eq_8 (ucast a) 47;
          is_equals = constant_time_eq_8 (ucast a) 61;
          ret = 0;
          ret = ret OR (is_upper AND (a - 65));
          ret = ret OR (is_lower AND (a - 97 + 26));
          ret = ret OR (is_digit AND (a - 48 + 52));
          ret = ret OR (is_plus AND 62);
          ret = ret OR (is_slash AND 63);
          is_valid = is_upper OR is_lower OR is_digit OR is_plus OR is_slash OR is_equals
      in ret OR NOT is_valid)"

text \<open>The bytes a quad decodes to; their number is \<open>*out_num_bytes\<close>.\<close>

definition base64_decode_quad :: "byte list \<Rightarrow> byte list option" where
  "base64_decode_quad quad =
     (let a = base64_ascii_to_bin (quad ! 0);
          b = base64_ascii_to_bin (quad ! 1);
          c = base64_ascii_to_bin (quad ! 2);
          d = base64_ascii_to_bin (quad ! 3)
      in if a = 0xff \<or> b = 0xff \<or> c = 0xff \<or> d = 0xff then None
         else let v = ((push_bit 18 (ucast a) OR push_bit 12 (ucast b)) OR push_bit 6 (ucast c)) OR ucast d :: u32;
                  padding_pattern = push_bit 3 (of_bool (quad ! 0 = 61)) OR push_bit 2 (of_bool (quad ! 1 = 61)) OR
                    push_bit 1 (of_bool (quad ! 2 = 61)) OR of_bool (quad ! 3 = 61) :: nat
              in if padding_pattern = 0 then Some [ucast (drop_bit 16 v), ucast (drop_bit 8 v), ucast v]
                 else if padding_pattern = 1 then Some [ucast (drop_bit 16 v), ucast (drop_bit 8 v)]
                 else if padding_pattern = 3 then Some [ucast (drop_bit 16 v)]
                 else None)"

definition is_base64_space :: "byte \<Rightarrow> bool" where
  "is_base64_space c = (c = 32 \<or> c = 9 \<or> c = 13 \<or> c = 10)"

text \<open>The loop of \<open>EVP_DecodeUpdate\<close>: the context, the bytes written and whether it returned an error.\<close>

fun decode_update_loop :: "EVP_ENCODE_CTX \<Rightarrow> byte list \<Rightarrow> byte list \<Rightarrow> EVP_ENCODE_CTX \<times> byte list \<times> bool" where
  "decode_update_loop ctx out [] = (ctx, out, False)"
| "decode_update_loop ctx out (c # src) =
     (if is_base64_space c then decode_update_loop ctx out src
      else if eof_seen ctx then (ctx\<lparr>error_encountered := True\<rparr>, out, True)
      else let ctx = ctx\<lparr>ctx_data := (ctx_data ctx)[data_used ctx := c], data_used := data_used ctx + 1\<rparr>
           in if data_used ctx = 4 then
                (case base64_decode_quad (take 4 (ctx_data ctx)) of
                   None \<Rightarrow> (ctx\<lparr>error_encountered := True\<rparr>, out, True)
                 | Some bytes \<Rightarrow>
                     decode_update_loop
                       (ctx\<lparr>data_used := 0, eof_seen := (if length bytes < 3 then True else eof_seen ctx)\<rparr>) (out @ bytes) src)
              else decode_update_loop ctx out src)"

definition EVP_DecodeUpdate :: "EVP_ENCODE_CTX \<Rightarrow> byte list \<Rightarrow> EVP_ENCODE_CTX \<times> byte list \<times> nat \<times> int" where
  "EVP_DecodeUpdate ctx src =
     (if error_encountered ctx then (ctx, [], 0, - 1)
      else case decode_update_loop ctx [] src of
          (ctx, out, True) \<Rightarrow> (ctx, out, 0, - 1)
        | (ctx, out, False) \<Rightarrow>
            if length out > INT_MAX then (ctx\<lparr>error_encountered := True\<rparr>, out, 0, - 1)
            else if eof_seen ctx then (ctx, out, length out, 0)
            else (ctx, out, length out, 1))"

definition EVP_DecodeFinal :: "EVP_ENCODE_CTX \<Rightarrow> int" where
  "EVP_DecodeFinal ctx = (if error_encountered ctx \<or> data_used ctx \<noteq> 0 then - 1 else 1)"

fun decode_base64_loop :: "byte list \<Rightarrow> byte list \<Rightarrow> byte list option" where
  "decode_base64_loop (a # b # c # d # src) out = (case base64_decode_quad [a, b, c, d] of
      None \<Rightarrow> None
    | Some bytes \<Rightarrow> if length bytes \<noteq> 3 \<and> src \<noteq> [] then None else decode_base64_loop src (out @ bytes))"
| "decode_base64_loop src out = Some out"

definition EVP_DecodeBase64 :: "nat \<Rightarrow> byte list \<Rightarrow> byte list option" where
  "EVP_DecodeBase64 max_out src =
     (if length src mod 4 \<noteq> 0 then None
      else case EVP_DecodedLength (length src) of
          None \<Rightarrow> None
        | Some max_len \<Rightarrow> if max_out < max_len then None else decode_base64_loop src [])"

text \<open>The bytes of the destination; their number is the value returned, and \<open>None\<close> is \<open>-1\<close>.\<close>

function pad_zeros :: "byte list \<Rightarrow> byte list" where
  "pad_zeros dst = (if length dst mod 3 \<noteq> 0 then pad_zeros (dst @ [0]) else dst)"
  by pat_completeness auto
termination by (relation "measure (\<lambda>dst. (3 - length dst mod 3) mod 3)") (auto simp: mod_Suc)

declare pad_zeros.simps [simp del]

definition EVP_DecodeBlock :: "byte list \<Rightarrow> byte list option" where
  "EVP_DecodeBlock src =
     (let src = dropWhile (\<lambda>c. c = 32 \<or> c = 9) src;
          src = rev (dropWhile is_base64_space (rev src))
      in case EVP_DecodedLength (length src) of
           None \<Rightarrow> None
         | Some dst_len \<Rightarrow>
             if dst_len > INT_MAX then None
             else case EVP_DecodeBase64 dst_len src of
                 None \<Rightarrow> None
               | Some dst \<Rightarrow> Some (pad_zeros dst))"

end
