(* ===== verification/Base64_Spec.thy ===== *)
theory Base64_Spec
  imports Base64 "HOL-Library.Code_Target_Nat"
begin

text \<open>
  Base64 as a function on byte strings, by way of the 24-bit numbers the groups stand for, and the proofs that the
  encoder computes it and the decoder inverts it.
\<close>

section \<open>Specification\<close>

definition b64_alphabet :: "byte list" where
  "b64_alphabet = map of_char ''ABCDEFGHIJKLMNOPQRSTUVWXYZabcdefghijklmnopqrstuvwxyz0123456789+/''"

definition b64_digit :: "nat \<Rightarrow> nat \<Rightarrow> byte" where
  "b64_digit i n = b64_alphabet ! (n div 64 ^ i mod 64)"

fun b64 :: "byte list \<Rightarrow> byte list" where
  "b64 [] = []"
| "b64 [a] = (let n = unat a * 65536 in [b64_digit 3 n, b64_digit 2 n, 61, 61])"
| "b64 [a, b] = (let n = unat a * 65536 + unat b * 256 in [b64_digit 3 n, b64_digit 2 n, b64_digit 1 n, 61])"
| "b64 (a # b # c # bs) = (let n = unat a * 65536 + unat b * 256 + unat c
     in [b64_digit 3 n, b64_digit 2 n, b64_digit 1 n, b64_digit 0 n] @ b64 bs)"

section \<open>Bytes\<close>

lemma lt_args_8: "constant_time_lt_args_8 a b = ct_mask (a < b)"
proof -
  have "bit (ucast a - ucast b :: u64) 63 \<longleftrightarrow> unat a < unat b"
  proof (cases "unat b \<le> unat a")
    case True
    then have "unat (ucast a - ucast b :: u64) = unat a - unat b" by (simp add: unat_sub_if')
    with True unat_byte_less [of a] show ?thesis by (simp add: bit63)
  next
    case False
    then have "unat (ucast a - ucast b :: u64) = unat a + SIZE_MOD - unat b" by (simp add: unat_sub_if')
    with False unat_byte_less [of b] show ?thesis by (simp add: bit63)
  qed
  then show ?thesis by (simp add: constant_time_lt_args_8_def msb_w ucast_ct_mask word_less_nat_alt)
qed

lemma eq_args_8: "constant_time_eq_8 (ucast (a :: byte)) (ucast (b :: byte)) = ct_mask (a = b)"
  by (simp add: eq_8 word_unat_eq_iff)

lemma in_range_8:
  assumes "lo \<le> hi" and h: "unat hi < 255"
  shows "constant_time_in_range_8 a lo hi = ct_mask (lo \<le> a \<and> a \<le> hi)"
proof -
  have le: "unat lo \<le> unat hi" using assms(1) by (simp add: word_le_nat_alt)
  then have "unat (hi - lo) = unat hi - unat lo" by (simp add: unat_sub_if')
  then have w: "unat (hi - lo + 1) = unat hi - unat lo + 1" using h by (simp add: unat_plus_if')
  have "a - lo < hi - lo + 1 \<longleftrightarrow> lo \<le> a \<and> a \<le> hi"
    using le h unat_byte_less [of a] unfolding word_less_nat_alt word_le_nat_alt w by (auto simp: unat_sub_if')
  then show ?thesis by (simp add: constant_time_in_range_8_def lt_args_8)
qed

lemma bin2ascii_table:
  "list_all (\<lambda>n. (let a = of_nat n :: byte in if a < 26 then a + 65 else if a < 52 then a - 26 + 97
    else if a < 62 then a - 52 + 48 else if a = 62 then 43 else 47) = b64_alphabet ! n) [0..<64]"
  by (simp add: b64_alphabet_def upt_rec)

lemma conv_bin2ascii_eq: "conv_bin2ascii a = b64_alphabet ! (unat a mod 64)"
proof -
  have "a AND 0x3f = take_bit 6 a" using take_bit_eq_mask [of 6 a] by (simp add: mask_eq_exp_minus_1)
  then have a: "a AND 0x3f = of_nat (unat a mod 64)"
    by (simp add: word_unat_eq_iff unsigned_take_bit_eq take_bit_eq_mod unat_mod_distrib)
  have "conv_bin2ascii a = (let a = a AND 0x3f in if a < 26 then a + 65 else if a < 52 then a - 26 + 97
    else if a < 62 then a - 52 + 48 else if a = 62 then 43 else 47)"
    using eq_args_8 [of "a AND 0x3f" 62] by (simp add: conv_bin2ascii_def Let_def lt_args_8 select_8)
  also have "\<dots> = b64_alphabet ! (unat a mod 64)"
    unfolding a using bin2ascii_table by (simp only: list_all_iff set_upt) (drule bspec [of _ _ "unat a mod 64"], simp, assumption)
  finally show ?thesis .
qed

lemma ascii_to_bin_eq: "base64_ascii_to_bin a =
  (if 65 \<le> a \<and> a \<le> 90 then a - 65 else if 97 \<le> a \<and> a \<le> 122 then a - 97 + 26
   else if 48 \<le> a \<and> a \<le> 57 then a - 48 + 52 else if a = 43 then 62 else if a = 47 then 63
   else if a = 61 then 0 else 0xff)"
proof -
  define u l d p s e where "u = (65 \<le> a \<and> a \<le> 90)" and "l = (97 \<le> a \<and> a \<le> 122)" and "d = (48 \<le> a \<and> a \<le> 57)"
    and "p = (a = 43)" and "s = (a = 47)" and "e = (a = 61)"
  have r: "constant_time_in_range_8 a 65 90 = ct_mask u" "constant_time_in_range_8 a 97 122 = ct_mask l"
    "constant_time_in_range_8 a 48 57 = ct_mask d"
    by (simp_all add: in_range_8 u_def l_def d_def)
  have q: "constant_time_eq_8 (ucast a) 43 = ct_mask p" "constant_time_eq_8 (ucast a) 47 = ct_mask s"
    "constant_time_eq_8 (ucast a) 61 = ct_mask e"
    using eq_args_8 [of a 43] eq_args_8 [of a 47] eq_args_8 [of a 61] by (simp_all add: p_def s_def e_def)
  have x: "\<not> (u \<and> l)" "\<not> (u \<and> d)" "\<not> (l \<and> d)" "p \<Longrightarrow> \<not> u \<and> \<not> l \<and> \<not> d" "s \<Longrightarrow> \<not> u \<and> \<not> l \<and> \<not> d \<and> \<not> p"
    by (auto simp: u_def l_def d_def p_def s_def word_le_nat_alt)
  show ?thesis unfolding base64_ascii_to_bin_def r q Let_def
    unfolding u_def [symmetric] l_def [symmetric] d_def [symmetric] p_def [symmetric] s_def [symmetric] e_def [symmetric]
    using x by (cases u; cases l; cases d; cases p; cases s; cases e) (simp_all add: ct_mask_def)
qed

lemma ascii_table:
  "list_all (\<lambda>n. (let a = b64_alphabet ! n in a \<noteq> 61 \<and> (if 65 \<le> a \<and> a \<le> 90 then a - 65 else if 97 \<le> a \<and> a \<le> 122 then a - 97 + 26
   else if 48 \<le> a \<and> a \<le> 57 then a - 48 + 52 else if a = 43 then 62 else if a = 47 then 63
   else if a = 61 then 0 else 0xff) = of_nat n)) [0..<64]"
  by (simp add: b64_alphabet_def upt_rec)

lemma ascii_digit: "n < 64 \<Longrightarrow> base64_ascii_to_bin (b64_alphabet ! n) = of_nat n \<and> b64_alphabet ! n \<noteq> 61"
  using ascii_table unfolding ascii_to_bin_eq list_all_iff set_upt Let_def by (drule_tac bspec [of _ _ n]) auto

section \<open>Groups as numbers\<close>

lemma unat_push_or:
  fixes x y :: u32
  assumes "unat x * 2 ^ k + unat y < 4294967296" and "unat y < 2 ^ k"
  shows "unat (push_bit k x OR y) = unat x * 2 ^ k + unat y"
proof -
  have "unat (take_bit k y) = unat y" using assms(2) by (subst unsigned_take_bit_eq) (simp add: take_bit_nat_eq_self)
  then have y: "take_bit k y = y" by (simp add: word_unat_eq_iff)
  have "push_bit k x AND take_bit k y = 0" by (rule bit_word_eqI) (auto simp: bit_simps)
  then have "push_bit k x OR y = x * 2 ^ k + y" unfolding y by (simp add: or_disjoint_add push_bit_eq_mult)
  also have "\<dots> = of_nat (unat x * 2 ^ k + unat y)" by simp
  finally show ?thesis using assms(1) unat_of_nat_u32 by metis
qed

lemma group_3: "unat ((push_bit 16 (ucast a) OR push_bit 8 (ucast b)) OR ucast c :: u32) =
    unat (a :: byte) * 65536 + unat (b :: byte) * 256 + unat (c :: byte)"
proof -
  have ab: "unat (push_bit 8 (ucast a) OR ucast b :: u32) = unat a * 256 + unat b"
    using unat_byte_less [of a] unat_byte_less [of b] by (subst unat_push_or) simp_all
  have "(push_bit 16 (ucast a) OR push_bit 8 (ucast b)) OR ucast c =
      push_bit 8 (push_bit 8 (ucast a) OR ucast b) OR (ucast c :: u32)"
    by (simp add: push_bit_or)
  also have "unat \<dots> = unat a * 65536 + unat b * 256 + unat c"
    using unat_byte_less [of a] unat_byte_less [of b] unat_byte_less [of c] by (subst unat_push_or) (simp_all add: ab)
  finally show ?thesis .
qed

lemma group_4:
  assumes "unat a < 64" "unat b < 64" "unat c < 64" "unat d < 64"
  shows "unat (((push_bit 18 (ucast a) OR push_bit 12 (ucast b)) OR push_bit 6 (ucast c)) OR ucast d :: u32) =
    ((unat (a :: byte) * 64 + unat (b :: byte)) * 64 + unat (c :: byte)) * 64 + unat (d :: byte)"
proof -
  have ab: "unat (push_bit 6 (ucast a) OR ucast b :: u32) = unat a * 64 + unat b"
    using assms by (subst unat_push_or) simp_all
  have abc: "unat (push_bit 6 (push_bit 6 (ucast a) OR ucast b) OR ucast c :: u32) = (unat a * 64 + unat b) * 64 + unat c"
    using assms by (subst unat_push_or) (simp_all add: ab)
  have "((push_bit 18 (ucast a) OR push_bit 12 (ucast b)) OR push_bit 6 (ucast c)) OR ucast d =
      push_bit 6 (push_bit 6 (push_bit 6 (ucast a) OR ucast b) OR ucast c) OR (ucast d :: u32)"
    by (simp add: push_bit_or)
  also have "unat \<dots> = ((unat a * 64 + unat b) * 64 + unat c) * 64 + unat d"
    using assms by (subst unat_push_or) (simp_all add: abc [simplified])
  finally show ?thesis .
qed

lemma unat_byte_of_u32: "unat (ucast (drop_bit k (u :: u32)) :: byte) = unat u div 2 ^ k mod 256"
  by (simp add: unat_ucast_byte unat_drop)

lemma conv_digit: "conv_bin2ascii (ucast (drop_bit (6 * i) (l :: u32))) = b64_digit i (unat l)"
proof -
  have "unat l div 2 ^ (6 * i) mod 256 mod 64 = unat l div 64 ^ i mod 64"
    by (simp add: mod_mod_cancel power_mult)
  then show ?thesis by (simp add: conv_bin2ascii_eq unat_byte_of_u32 b64_digit_def)
qed

lemmas conv_digits = conv_digit [of 3, simplified] conv_digit [of 2, simplified] conv_digit [of 1, simplified]
  conv_digit [of 0, simplified]

lemma encode_block_loop_b64: "encode_block_loop src dst ret = (dst @ b64 src, ret + length (b64 src))"
proof (induction src dst ret rule: encode_block_loop.induct)
  case (2 s0 dst ret)
  have "unat (push_bit 16 (ucast s0) :: u32) = unat s0 * 65536" using group_3 [of s0 0 0] by simp
  then show ?case by (simp add: Let_def conv_digits [of "push_bit 16 (ucast s0)"])
next
  case (3 s0 s1 dst ret)
  have "unat (push_bit 16 (ucast s0) OR push_bit 8 (ucast s1) :: u32) = unat s0 * 65536 + unat s1 * 256"
    using group_3 [of s0 s1 0] by simp
  then show ?case by (simp add: Let_def conv_digits [of "push_bit 16 (ucast s0) OR push_bit 8 (ucast s1)"] del: drop_bit_or)
next
  case (4 s0 s1 s2 src dst ret)
  then show ?case
    by (simp add: Let_def group_3 conv_digits [of "(push_bit 16 (ucast s0) OR push_bit 8 (ucast s1)) OR ucast s2"] del: drop_bit_or)
qed simp

lemma EVP_EncodeBlock_b64: "EVP_EncodeBlock src = (b64 src @ [0], length (b64 src))"
  by (simp add: EVP_EncodeBlock_def encode_block_loop_b64)

lemma length_b64: "length (b64 src) = 4 * ((length src + 2) div 3)"
proof -
  have "(5 + n) div 3 = Suc (Suc (Suc n) div 3)" for n :: nat using div_add_self2 [of 3 "Suc (Suc n)"] by simp
  then show ?thesis by (induction src rule: b64.induct) (simp_all add: Let_def)
qed

section \<open>The decoder inverts the encoder\<close>

lemma quad_value:
  assumes "base64_ascii_to_bin p = of_nat i" "base64_ascii_to_bin q = of_nat j" "base64_ascii_to_bin r = of_nat k"
    "base64_ascii_to_bin s = of_nat m" "i < 64" "j < 64" "k < 64" "m < 64" "p \<noteq> 61" "q \<noteq> 61"
    and n: "n = ((i * 64 + j) * 64 + k) * 64 + m"
  shows "base64_decode_quad [p, q, r, s] =
    (if r \<noteq> 61 \<and> s \<noteq> 61 then Some [of_nat (n div 65536), of_nat (n div 256), of_nat n]
     else if r \<noteq> 61 then Some [of_nat (n div 65536), of_nat (n div 256)]
     else if s = 61 then Some [of_nat (n div 65536)] else None)"
proof -
  have u: "unat (of_nat x :: byte) = x" "of_nat x \<noteq> (0xff :: byte)" if "x < 64" for x
    using that by (simp_all add: word_unat_eq_iff)
  define v :: u32 where "v = ((push_bit 18 (ucast (of_nat i :: byte)) OR push_bit 12 (ucast (of_nat j :: byte))) OR
    push_bit 6 (ucast (of_nat k :: byte))) OR ucast (of_nat m :: byte)"
  have v: "unat v = n" unfolding v_def n using assms(5-8) by (subst group_4) (simp_all add: u)
  have b: "ucast (drop_bit x v) = (of_nat (n div 2 ^ x) :: byte)" for x
    by (simp add: word_unat_eq_iff unat_byte_of_u32 v)
  have q: "base64_decode_quad [p, q, r, s] = (let pattern = push_bit 3 (of_bool (p = 61)) OR push_bit 2 (of_bool (q = 61)) OR
                    push_bit 1 (of_bool (r = 61)) OR of_bool (s = 61) :: nat
              in if pattern = 0 then Some [ucast (drop_bit 16 v), ucast (drop_bit 8 v), ucast v]
                 else if pattern = 1 then Some [ucast (drop_bit 16 v), ucast (drop_bit 8 v)]
                 else if pattern = 3 then Some [ucast (drop_bit 16 v)]
                 else None)"
    using assms(5-8) by (simp add: base64_decode_quad_def assms(1-4) u v_def)
  show ?thesis
    unfolding q using assms(9,10) b [of 16] b [of 8] b [of 0] by (cases "r = 61"; cases "s = 61") (simp_all add: Let_def)
qed

lemma base64_digits:
  fixes n :: nat
  assumes "n < 16777216"
  shows "((n div 64 ^ 3 mod 64 * 64 + n div 64 ^ 2 mod 64) * 64 + n div 64 ^ 1 mod 64) * 64 + n div 64 ^ 0 mod 64 = n"
proof -
  have "n div 64 div 64 div 64 < 64" using assms by (simp add: less_mult_imp_div_less flip: div_mult2_eq)
  then have "n div 64 div 64 div 64 mod 64 = n div 64 div 64 div 64" by simp
  moreover have "x div 64 * 64 + x mod 64 = x" for x :: nat by simp
  ultimately have "((n div 64 div 64 div 64 mod 64 * 64 + n div 64 div 64 mod 64) * 64 + n div 64 mod 64) * 64 + n mod 64 = n"
    by metis
  moreover have "n div 64 ^ 3 = n div 64 div 64 div 64" "n div 64 ^ 2 = n div 64 div 64"
    by (simp_all flip: div_mult2_eq)
  ultimately show ?thesis by simp
qed

lemma digit_bin: "base64_ascii_to_bin (b64_digit i n) = of_nat (n div 64 ^ i mod 64)" "b64_digit i n \<noteq> 61"
  using ascii_digit [of "n div 64 ^ i mod 64"] by (simp_all add: b64_digit_def)

lemma pad_bin: "base64_ascii_to_bin 61 = of_nat 0"
  by (simp add: ascii_to_bin_eq)

lemma byte_of_sum: "(of_nat (x * 256 + unat b) :: byte) = b"
proof -
  have "unat (of_nat (x * 256 + unat b) :: byte) = (x * 256 + unat b) mod 256" by (rule unat_of_nat_byte)
  also have "\<dots> = unat b" using unat_byte_less [of b] by simp
  finally show ?thesis by (simp only: word_unat_eq_iff)
qed

lemma byte_of_unat: "(of_nat (unat b) :: byte) = b"
  by simp

lemma quad_3: "base64_decode_quad (b64 [a, b, c]) = Some [a, b, c]"
proof -
  define n where "n = unat a * 65536 + unat b * 256 + unat c"
  have n: "n < 16777216" "n div 65536 = unat a" "n div 256 = unat a * 256 + unat b" "n = (unat a * 256 + unat b) * 256 + unat c"
    using unat_byte_less [of a] unat_byte_less [of b] unat_byte_less [of c] by (simp_all add: n_def)
  have "base64_decode_quad [b64_digit 3 n, b64_digit 2 n, b64_digit 1 n, b64_digit 0 n] =
      Some [of_nat (n div 65536), of_nat (n div 256), of_nat n]"
    by (subst quad_value [OF digit_bin(1) digit_bin(1) digit_bin(1) digit_bin(1)])
      (simp_all only: digit_bin base64_digits [OF n(1)] mod_less_divisor zero_less_numeral simp_thms if_True)
  moreover have "(of_nat n :: byte) = c" unfolding n(4) by (rule byte_of_sum)
  ultimately show ?thesis by (simp only: b64.simps Let_def n_def [symmetric] n(2,3) byte_of_sum byte_of_unat append_Nil2)
qed

lemma quad_2: "base64_decode_quad (b64 [a, b]) = Some [a, b]"
proof -
  define n where "n = unat a * 65536 + unat b * 256"
  have n: "n < 16777216" "n div 65536 = unat a" "n div 256 = unat a * 256 + unat b"
    using unat_byte_less [of a] unat_byte_less [of b] by (simp_all add: n_def)
  have "n = 64 * (unat a * 1024 + unat b * 4)" by (simp add: n_def)
  then have z: "n div 64 ^ 0 mod 64 = 0" by simp
  have "((n div 64 ^ 3 mod 64 * 64 + n div 64 ^ 2 mod 64) * 64 + n div 64 ^ 1 mod 64) * 64 + 0 = n"
    using base64_digits [OF n(1)] unfolding z .
  then have "base64_decode_quad [b64_digit 3 n, b64_digit 2 n, b64_digit 1 n, 61] = Some [of_nat (n div 65536), of_nat (n div 256)]"
    by (subst quad_value [OF digit_bin(1) digit_bin(1) digit_bin(1) pad_bin])
      (simp_all only: digit_bin mod_less_divisor zero_less_numeral simp_thms if_True if_False)
  then show ?thesis by (simp only: b64.simps Let_def n_def [symmetric] n(2,3) byte_of_sum byte_of_unat)
qed

lemma quad_1: "base64_decode_quad (b64 [a]) = Some [a]"
proof -
  define n where "n = unat a * 65536"
  have n: "n < 16777216" "n div 65536 = unat a" using unat_byte_less [of a] by (simp_all add: n_def)
  have "n = 64 * (64 * (unat a * 16))" by (simp add: n_def)
  then have z: "n div 64 ^ 0 mod 64 = 0" "n div 64 ^ 1 mod 64 = 0" by (simp_all only: power_0 power_one_right div_by_1 nonzero_mult_div_cancel_left mod_mult_self1_is_0 refl numeral_neq_zero not_False_eq_True)
  have "((n div 64 ^ 3 mod 64 * 64 + n div 64 ^ 2 mod 64) * 64 + 0) * 64 + 0 = n"
    using base64_digits [OF n(1)] unfolding z .
  then have "base64_decode_quad [b64_digit 3 n, b64_digit 2 n, 61, 61] = Some [of_nat (n div 65536)]"
    by (subst quad_value [OF digit_bin(1) digit_bin(1) pad_bin pad_bin])
      (simp_all only: digit_bin mod_less_divisor zero_less_numeral simp_thms if_True if_False)
  then show ?thesis by (simp only: b64.simps Let_def n_def [symmetric] n(2) byte_of_unat)
qed

lemma decode_base64_b64: "decode_base64_loop (b64 src) out = Some (out @ src)"
proof (induction src arbitrary: out rule: b64.induct)
  case 1
  then show ?case by simp
next
  case (2 a)
  then show ?case using quad_1 [of a] by (simp add: Let_def)
next
  case (3 a b)
  then show ?case using quad_2 [of a b] by (simp add: Let_def)
next
  case (4 a b c bs)
  then show ?case using quad_3 [of a b c] by (simp add: Let_def)
qed

end
