(* ===== verification/Base64_Stream.thy ===== *)
theory Base64_Stream
  imports Base64_Spec
begin

text \<open>
  The streaming interface: whatever the pieces in which data is passed to \<open>EVP_EncodeUpdate\<close>, the output is the
  encoding of their concatenation in lines of 64 characters; and \<open>EVP_DecodeUpdate\<close>, fed that text in any pieces,
  gives the data back.
\<close>

section \<open>Lines\<close>

function full_lines :: "byte list \<Rightarrow> byte list" where
  "full_lines xs = (if length xs \<ge> CTX_DATA then b64 (take CTX_DATA xs) @ [10] @ full_lines (drop CTX_DATA xs) else [])"
  by pat_completeness auto
termination by (relation "measure length") auto

function leftover :: "byte list \<Rightarrow> byte list" where
  "leftover xs = (if length xs \<ge> CTX_DATA then leftover (drop CTX_DATA xs) else xs)"
  by pat_completeness auto
termination by (relation "measure length") auto

declare full_lines.simps [simp del] leftover.simps [simp del]

definition pem_lines :: "byte list \<Rightarrow> byte list" where
  "pem_lines xs = full_lines xs @ (if leftover xs = [] then [] else b64 (leftover xs) @ [10])"

lemma full_lines_short [simp]: "length xs < CTX_DATA \<Longrightarrow> full_lines xs = []"
  and leftover_short [simp]: "length xs < CTX_DATA \<Longrightarrow> leftover xs = xs"
  by (simp_all add: full_lines.simps leftover.simps)

lemma full_lines_block: "length b = CTX_DATA \<Longrightarrow> full_lines (b @ xs) = b64 b @ [10] @ full_lines xs"
  and leftover_block: "length b = CTX_DATA \<Longrightarrow> leftover (b @ xs) = leftover xs"
  by (simp_all add: full_lines.simps [of "b @ xs"] leftover.simps [of "b @ xs"])

lemma length_leftover: "length (leftover xs) < CTX_DATA"
  by (induction xs rule: leftover.induct) (simp add: leftover.simps)

lemma lines_induct [case_names short block]:
  fixes xs :: "byte list"
  assumes "\<And>xs. length xs < CTX_DATA \<Longrightarrow> P xs" and "\<And>b xs. length b = CTX_DATA \<Longrightarrow> P xs \<Longrightarrow> P (b @ xs)"
  shows "P xs"
proof (induction xs rule: leftover.induct)
  case (1 xs)
  show ?case
  proof (cases "length xs \<ge> CTX_DATA")
    case True
    with assms(2) [of "take CTX_DATA xs" "drop CTX_DATA xs"] 1 show ?thesis by simp
  qed (use assms(1) in simp)
qed

lemma lines_append:
  "full_lines (xs @ ys) = full_lines xs @ full_lines (leftover xs @ ys) \<and> leftover (xs @ ys) = leftover (leftover xs @ ys)"
  by (induction xs rule: lines_induct) (simp_all add: full_lines_block leftover_block)

lemma pem_lines_append: "pem_lines (xs @ ys) = full_lines xs @ pem_lines (leftover xs @ ys)"
  using lines_append [of xs ys] by (simp add: pem_lines_def)

section \<open>Encoding\<close>

definition ctx_ok :: "EVP_ENCODE_CTX \<Rightarrow> bool" where
  "ctx_ok ctx \<longleftrightarrow> length (ctx_data ctx) = CTX_DATA \<and> data_used ctx < CTX_DATA"

definition pending :: "EVP_ENCODE_CTX \<Rightarrow> byte list" where
  "pending ctx = take (data_used ctx) (ctx_data ctx)"

lemma encode_update_loop_lines:
  "tot + length (full_lines src) < SIZE_MOD \<Longrightarrow>
    encode_update_loop src out tot = (leftover src, out @ full_lines src, tot + length (full_lines src), False)"
proof (induction src arbitrary: out tot rule: lines_induct)
  case (short xs)
  then show ?case by (simp add: encode_update_loop.simps)
next
  case (block b xs)
  have len: "length (b64 b) = 64" using block(1) by (simp add: length_b64)
  with block have "tot + 64 + 1 < SIZE_MOD" by (simp add: full_lines_block)
  then show ?case
    using block len
    by (subst encode_update_loop.simps) (simp add: EVP_EncodeBlock_b64 full_lines_block leftover_block Let_def)
qed

definition update_result :: "EVP_ENCODE_CTX \<Rightarrow> byte list \<Rightarrow> EVP_ENCODE_CTX \<times> byte list \<times> nat \<Rightarrow> bool" where
  "update_result ctx src r \<longleftrightarrow> (case r of (ctx', out, n) \<Rightarrow>
     ctx_ok ctx' \<and> pending ctx' = leftover (pending ctx @ src) \<and>
     (let l = full_lines (pending ctx @ src) in out = (if l = [] then [] else l @ [0]) \<and> n = (if length l > INT_MAX then 0 else length l)))"

lemma memcpy_front: "length b = CTX_DATA \<Longrightarrow> length xs < CTX_DATA \<Longrightarrow>
    take (length xs) (OPENSSL_memcpy b 0 xs) = xs \<and> length (OPENSSL_memcpy b 0 xs) = CTX_DATA"
  by (simp add: OPENSSL_memcpy_def)

lemma pending_upd: "pending (ctx\<lparr>ctx_data := d, data_used := n\<rparr>) = take n d"
  by (simp add: pending_def)

lemma length_pending: "ctx_ok ctx \<Longrightarrow> length (pending ctx) = data_used ctx"
  by (simp add: ctx_ok_def pending_def)

lemma EncodeUpdate_result:
  assumes ok: "ctx_ok ctx" and small: "length (full_lines (pending ctx @ src)) < SIZE_MOD"
  shows "update_result ctx src (EVP_EncodeUpdate ctx src)"
proof -
  note lp = length_pending [OF ok]
  consider (empty) "src = []" | (short) "src \<noteq> []" "data_used ctx + length src < CTX_DATA"
    | (fill) "data_used ctx \<noteq> 0" "CTX_DATA \<le> data_used ctx + length src" "src \<noteq> []"
    | (lines) "data_used ctx = 0" "CTX_DATA \<le> length src" "src \<noteq> []"
    by fastforce
  then show ?thesis
  proof cases
    case empty
    with ok show ?thesis using lp by (simp add: EVP_EncodeUpdate_def update_result_def ctx_ok_def)
  next
    case short
    then have "length src < CTX_DATA - data_used ctx" by simp
    with short ok show ?thesis using lp
      by (simp add: EVP_EncodeUpdate_def update_result_def ctx_ok_def pending_def OPENSSL_memcpy_def)
  next
    case lines
    then have p: "pending ctx = []" using lp by simp
    note l = encode_update_loop_lines [of 0 src "[]"]
    show ?thesis using lines ok small p length_leftover [of src] memcpy_front [of "ctx_data ctx" "leftover src"]
      by (auto simp: EVP_EncodeUpdate_def update_result_def l ctx_ok_def pending_def Let_def)
  next
    case fill
    define todo where "todo = CTX_DATA - data_used ctx"
    define block where "block = pending ctx @ take todo src"
    have len: "length block = CTX_DATA" using fill lp ok by (simp add: block_def todo_def ctx_ok_def)
    have cpy: "OPENSSL_memcpy (ctx_data ctx) (data_used ctx) (take todo src) = block"
      using ok fill by (simp add: OPENSSL_memcpy_def block_def todo_def pending_def ctx_ok_def)
    have src: "pending ctx @ src = block @ drop todo src" by (simp add: block_def)
    have f: "full_lines (pending ctx @ src) = b64 block @ [10] @ full_lines (drop todo src)"
      "leftover (pending ctx @ src) = leftover (drop todo src)"
      unfolding src by (simp_all only: full_lines_block [OF len] leftover_block [OF len])
    have enc: "EVP_EncodeBlock block = (b64 block @ [0], 64)" using len by (simp add: EVP_EncodeBlock_b64 length_b64)
    have b: "length (b64 block) = 64" using len by (simp add: length_b64)
    have l: "encode_update_loop (drop todo src) (b64 block @ [10]) 65 =
        (leftover (drop todo src), b64 block @ [10] @ full_lines (drop todo src), 65 + length (full_lines (drop todo src)), False)"
      using small by (subst encode_update_loop_lines) (simp_all add: f b)
    have "\<not> length src < todo" using fill(2) by (simp add: todo_def)
    then show ?thesis using fill ok small length_leftover [of "drop todo src"] memcpy_front [OF len, of "leftover (drop todo src)"]
      by (auto simp: EVP_EncodeUpdate_def update_result_def todo_def [symmetric] cpy enc b l f len ctx_ok_def pending_upd Let_def)
  qed
qed

text \<open>A caller that passes its data in pieces and collects the announced number of bytes of each call.\<close>

fun encode_stream :: "EVP_ENCODE_CTX \<Rightarrow> byte list list \<Rightarrow> byte list" where
  "encode_stream ctx [] = (case EVP_EncodeFinal ctx of (_, out, n) \<Rightarrow> take n out)"
| "encode_stream ctx (p # ps) = (case EVP_EncodeUpdate ctx p of (ctx', out, n) \<Rightarrow> take n out @ encode_stream ctx' ps)"

lemma encode_stream_lines:
  "ctx_ok ctx \<Longrightarrow> length (pem_lines (pending ctx @ concat ps)) \<le> INT_MAX \<Longrightarrow>
    encode_stream ctx ps = pem_lines (pending ctx @ concat ps)"
proof (induction ps arbitrary: ctx)
  case Nil
  then have l: "length (pending ctx) < CTX_DATA" by (simp add: length_pending) (simp add: ctx_ok_def)
  show ?case
  proof (cases "data_used ctx = 0")
    case True
    with length_pending [OF Nil(1)] show ?thesis by (simp add: EVP_EncodeFinal_def pem_lines_def)
  next
    case False
    then have "pending ctx \<noteq> []" using length_pending [OF Nil(1)] by auto
    with False l show ?thesis by (simp add: EVP_EncodeFinal_def EVP_EncodeBlock_b64 pem_lines_def flip: pending_def)
  qed
next
  case (Cons p ps)
  have split: "pem_lines (pending ctx @ concat (p # ps)) =
      full_lines (pending ctx @ p) @ pem_lines (leftover (pending ctx @ p) @ concat ps)"
    using pem_lines_append [of "pending ctx @ p" "concat ps"] by simp
  have len: "length (full_lines (pending ctx @ p)) \<le> INT_MAX"
    "length (pem_lines (leftover (pending ctx @ p) @ concat ps)) \<le> INT_MAX"
    using Cons.prems(2) unfolding split by simp_all
  then have "length (full_lines (pending ctx @ p)) < SIZE_MOD" by simp
  from EncodeUpdate_result [OF Cons.prems(1) this] len(1) obtain ctx' out n where
    u: "EVP_EncodeUpdate ctx p = (ctx', out, n)" "ctx_ok ctx'" "pending ctx' = leftover (pending ctx @ p)"
    "take n out = full_lines (pending ctx @ p)"
    by (cases "EVP_EncodeUpdate ctx p") (auto simp: update_result_def Let_def)
  with Cons.IH [OF u(2)] len(2) show ?case unfolding split by simp
qed

section \<open>Decoding\<close>

lemma decode_loop_append:
  "decode_update_loop ctx out (xs @ ys) = (case decode_update_loop ctx out xs of
      (ctx', out', True) \<Rightarrow> (ctx', out', True)
    | (ctx', out', False) \<Rightarrow> decode_update_loop ctx' out' ys)"
  by (induction ctx out xs rule: decode_update_loop.induct) (auto simp: Let_def split: option.split)

lemma decode_loop_out:
  "decode_update_loop ctx (out @ o2) xs = (case decode_update_loop ctx o2 xs of (ctx', out', e) \<Rightarrow> (ctx', out @ out', e))"
  by (induction ctx o2 xs rule: decode_update_loop.induct) (simp_all add: Let_def split: option.split)

lemma decode_loop_error:
  "decode_update_loop ctx out xs = (ctx', out', e) \<Longrightarrow> \<not> error_encountered ctx \<Longrightarrow> error_encountered ctx' = e"
  by (induction ctx out xs rule: decode_update_loop.induct) (auto simp: Let_def split: if_splits option.splits)

definition dec_ok :: "EVP_ENCODE_CTX \<Rightarrow> bool \<Rightarrow> bool" where
  "dec_ok ctx eof \<longleftrightarrow> length (ctx_data ctx) = CTX_DATA \<and> data_used ctx = 0 \<and> eof_seen ctx = eof \<and> \<not> error_encountered ctx"

lemma decode_loop_quad:
  assumes ok: "dec_ok ctx False" and sp: "\<not> is_base64_space a" "\<not> is_base64_space b" "\<not> is_base64_space c" "\<not> is_base64_space d"
    and q: "base64_decode_quad [a, b, c, d] = Some bytes"
  shows "\<exists>ctx'. dec_ok ctx' (length bytes < 3) \<and>
    decode_update_loop ctx out ([a, b, c, d] @ src) = decode_update_loop ctx' (out @ bytes) src"
proof -
  have l: "length (ctx_data ctx) = CTX_DATA" using ok by (simp add: dec_ok_def)
  then have "Suc (Suc (Suc (Suc 0))) \<le> length (ctx_data ctx)" by simp
  then obtain e f g h xs where d: "ctx_data ctx = e # f # g # h # xs" by (auto simp only: Suc_le_length_iff)
  let ?ctx = "ctx\<lparr>ctx_data := a # b # c # d # xs, data_used := 0, eof_seen := (length bytes < 3)\<rparr>"
  have "dec_ok ?ctx (length bytes < 3)" using ok l d by (simp add: dec_ok_def)
  moreover have "decode_update_loop ctx out ([a, b, c, d] @ src) = decode_update_loop ?ctx (out @ bytes) src"
    using ok sp q d by (simp add: dec_ok_def Let_def numeral_2_eq_2 numeral_3_eq_3)
  ultimately show ?thesis by blast
qed

lemma alphabet_table: "list_all (\<lambda>n. \<not> is_base64_space (b64_alphabet ! n)) [0..<64]"
  by (simp add: b64_alphabet_def upt_rec is_base64_space_def)

lemma digit_not_space: "\<not> is_base64_space (b64_digit i n)" "\<not> is_base64_space 61"
proof -
  have "n div 64 ^ i mod 64 \<in> set [0..<64]" by simp
  then show "\<not> is_base64_space (b64_digit i n)" using alphabet_table unfolding list_all_iff b64_digit_def by blast
qed (simp add: is_base64_space_def)

lemma decode_loop_b64:
  "dec_ok ctx False \<Longrightarrow> \<exists>ctx'. dec_ok ctx' (length xs mod 3 \<noteq> 0) \<and>
    decode_update_loop ctx out (b64 xs @ src) = decode_update_loop ctx' (out @ xs) src"
proof (induction xs arbitrary: ctx out rule: b64.induct)
  case 1
  then show ?case by auto
next
  case (2 a)
  then show ?case using decode_loop_quad [OF 2 _ _ _ _ quad_1 [of a, unfolded b64.simps Let_def]] digit_not_space by (simp add: Let_def)
next
  case (3 a b)
  then show ?case using decode_loop_quad [OF 3 _ _ _ _ quad_2 [of a b, unfolded b64.simps Let_def]] digit_not_space by (simp add: Let_def)
next
  case (4 a b c bs)
  define n where "n = unat a * 65536 + unat b * 256 + unat c"
  have "base64_decode_quad [b64_digit 3 n, b64_digit 2 n, b64_digit 1 n, b64_digit 0 n] = Some [a, b, c]"
    using quad_3 [of a b c] by (simp add: Let_def n_def)
  from decode_loop_quad [OF 4(2) _ _ _ _ this, of out "b64 bs @ src"] digit_not_space obtain ctx' where
    c: "dec_ok ctx' False" "decode_update_loop ctx out (b64 (a # b # c # bs) @ src) = decode_update_loop ctx' (out @ [a, b, c]) (b64 bs @ src)"
    by (auto simp: Let_def n_def)
  from 4(1) [OF refl c(1), of "out @ [a, b, c]"] obtain ctx'' where "dec_ok ctx'' (length bs mod 3 \<noteq> 0)"
    "decode_update_loop ctx' (out @ [a, b, c]) (b64 bs @ src) = decode_update_loop ctx'' (out @ [a, b, c] @ bs) src" by auto
  moreover have "length (a # b # c # bs) = length bs + 3" by simp
  then have "length (a # b # c # bs) mod 3 = length bs mod 3" by (simp only: mod_add_self2)
  ultimately show ?case using c(2) by auto
qed

lemma decode_loop_newline: "decode_update_loop ctx out (10 # src) = decode_update_loop ctx out src"
  by (simp add: is_base64_space_def)

lemma decode_loop_full_lines:
  "dec_ok ctx False \<Longrightarrow> \<exists>ctx' ys. dec_ok ctx' False \<and> xs = ys @ leftover xs \<and>
    decode_update_loop ctx out (full_lines xs @ src) = decode_update_loop ctx' (out @ ys) src"
proof (induction xs arbitrary: ctx out rule: lines_induct)
  case (short xs)
  then show ?case by auto
next
  case (block b xs)
  from decode_loop_b64 [OF block(3), of b out "10 # full_lines xs @ src"] block(1) obtain ctx1 where
    c: "dec_ok ctx1 False" "decode_update_loop ctx out (full_lines (b @ xs) @ src) =
      decode_update_loop ctx1 (out @ b) (full_lines xs @ src)"
    by (auto simp: full_lines_block decode_loop_newline simp del: decode_update_loop.simps)
  from block(2) [OF c(1), of "out @ b"] obtain ctx' ys where "dec_ok ctx' False" "xs = ys @ leftover xs"
    "decode_update_loop ctx1 (out @ b) (full_lines xs @ src) = decode_update_loop ctx' (out @ b @ ys) src" by auto
  with c(2) block(1) show ?case by (intro exI [of _ ctx'] exI [of _ "b @ ys"]) (simp add: leftover_block)
qed

lemma decode_loop_pem:
  assumes "dec_ok ctx False"
  shows "\<exists>ctx' eof. dec_ok ctx' eof \<and> decode_update_loop ctx [] (pem_lines xs) = (ctx', xs, False)"
proof -
  let ?tail = "if leftover xs = [] then [] else b64 (leftover xs) @ [10]"
  from decode_loop_full_lines [OF assms, of xs "[]" ?tail] obtain ctx1 ys where c: "dec_ok ctx1 False" "xs = ys @ leftover xs"
    "decode_update_loop ctx [] (pem_lines xs) = decode_update_loop ctx1 ys ?tail" by (auto simp: pem_lines_def)
  show ?thesis
  proof (cases "leftover xs = []")
    case True
    with c show ?thesis by auto
  next
    case False
    from decode_loop_b64 [OF c(1), of "leftover xs" ys "[10]"] obtain ctx2 where
      "dec_ok ctx2 (length (leftover xs) mod 3 \<noteq> 0)"
      "decode_update_loop ctx1 ys (b64 (leftover xs) @ [10]) = decode_update_loop ctx2 (ys @ leftover xs) [10]" by blast
    with c False show ?thesis by (auto simp: is_base64_space_def)
  qed
qed

text \<open>A caller that decodes a text in pieces: it stops at an error, and at the end asks \<open>EVP_DecodeFinal\<close>.\<close>

fun decode_stream :: "EVP_ENCODE_CTX \<Rightarrow> byte list list \<Rightarrow> byte list option" where
  "decode_stream ctx [] = (if EVP_DecodeFinal ctx = 1 then Some [] else None)"
| "decode_stream ctx (p # ps) = (case EVP_DecodeUpdate ctx p of
      (ctx', out, n, ret) \<Rightarrow> if ret = - 1 then None else map_option (\<lambda>rest. take n out @ rest) (decode_stream ctx' ps))"

lemma decode_stream_loop:
  "\<not> error_encountered ctx \<Longrightarrow> decode_update_loop ctx [] (concat ps) = (ctx', out, False) \<Longrightarrow> length out \<le> INT_MAX \<Longrightarrow>
    data_used ctx' = 0 \<Longrightarrow> \<not> error_encountered ctx' \<Longrightarrow> decode_stream ctx ps = Some out"
proof (induction ps arbitrary: ctx out)
  case Nil
  then show ?case by (simp add: EVP_DecodeFinal_def)
next
  case (Cons p ps)
  obtain ctx1 o1 e1 where p: "decode_update_loop ctx [] p = (ctx1, o1, e1)" by (cases "decode_update_loop ctx [] p") auto
  with Cons.prems(2) have e1: "\<not> e1" and r: "decode_update_loop ctx1 o1 (concat ps) = (ctx', out, False)"
    by (auto simp: decode_loop_append split: bool.splits)
  obtain ctx2 o2 e2 where r2: "decode_update_loop ctx1 [] (concat ps) = (ctx2, o2, e2)"
    by (cases "decode_update_loop ctx1 [] (concat ps)") auto
  with r decode_loop_out [of ctx1 o1 "[]" "concat ps"] have o: "ctx2 = ctx'" "\<not> e2" "out = o1 @ o2" by simp_all
  have ok: "\<not> error_encountered ctx1" using decode_loop_error [OF p Cons.prems(1)] e1 by simp
  from Cons.IH [OF ok, of o2] r2 o Cons.prems(3-5) have "decode_stream ctx1 ps = Some o2" by simp
  with p e1 o Cons.prems(1,3) show ?case by (simp add: EVP_DecodeUpdate_def)
qed

end
