(* ===== verification/Base64_Props.thy ===== *)
theory Base64_Props
  imports Base64_Stream
begin

text \<open>
  What callers of \<^verbatim>\<open>base64.c\<close> and of the constant-time helpers of \<^verbatim>\<open>internal.h\<close> rely on.
\<close>

lemma decode_quad_length: "base64_decode_quad q = Some bytes \<Longrightarrow> length bytes \<le> 3"
  by (auto simp: base64_decode_quad_def Let_def split: if_splits)

lemma decode_base64_length:
  "decode_base64_loop src out = Some out' \<Longrightarrow> length out' \<le> length out + length src div 4 * 3"
proof (induction src out rule: decode_base64_loop.induct)
  case (1 a b c d src out)
  then obtain bytes where q: "base64_decode_quad [a, b, c, d] = Some bytes" "decode_base64_loop src (out @ bytes) = Some out'"
    "\<not> (length bytes \<noteq> 3 \<and> src \<noteq> [])"
    by (auto split: option.splits if_splits)
  have "length (a # b # c # d # src) div 4 = Suc (length src div 4)" using div_add_self1 [of 4 "length src"] by simp
  with "1.IH" [OF q(1,3,2)] decode_quad_length [OF q(1)] show ?case by simp
qed simp_all

section \<open>Properties\<close>

text \<open>C10: Data encoded in any sequence of pieces with \<open>EVP_EncodeUpdate\<close> and \<open>EVP_EncodeFinal\<close> is read back, from the
  text cut into any other pieces, by \<open>EVP_DecodeUpdate\<close> and \<open>EVP_DecodeFinal\<close>.\<close>

theorem base64_stream_round_trip:
  assumes "length (pem_lines (concat ps)) \<le> INT_MAX" and "length (concat ps) \<le> INT_MAX"
    and "concat qs = encode_stream (EVP_EncodeInit ctx) ps"
  shows "decode_stream (EVP_DecodeInit ctx') qs = Some (concat ps)"
proof -
  have z: "ctx_ok zero_ctx" "pending zero_ctx = []" "dec_ok zero_ctx False" "\<not> error_encountered zero_ctx"
    by (simp_all add: zero_ctx_def ctx_ok_def pending_def dec_ok_def)
  have "concat qs = pem_lines (concat ps)"
    using encode_stream_lines [OF z(1), of ps] z(2) assms(1,3) by (simp add: EVP_EncodeInit_def)
  with decode_loop_pem [OF z(3), of "concat ps"] obtain ctx1 eof where "dec_ok ctx1 eof"
    "decode_update_loop zero_ctx [] (concat qs) = (ctx1, concat ps, False)" by auto
  with decode_stream_loop [OF z(4) this(2) assms(2)] show ?thesis by (simp add: EVP_DecodeInit_def dec_ok_def)
qed

theorem base64_stream_round_trip_witness:
  "decode_stream (EVP_DecodeInit zero_ctx) [encode_stream (EVP_EncodeInit zero_ctx) [[1, 2], [3, 4, 5]]] = Some (concat [[1, 2], [3, 4, 5]])"
  by (rule base64_stream_round_trip) (simp_all add: pem_lines_def Let_def)

text \<open>The output of the streaming encoder does not depend on the pieces: it is the encoding of the whole data in
  lines of 64 characters.\<close>

lemma encode_stream_is_lines:
  assumes "length (pem_lines (concat ps)) \<le> INT_MAX"
  shows "encode_stream (EVP_EncodeInit ctx) ps = pem_lines (concat ps)"
  using encode_stream_lines [of zero_ctx ps] assms by (simp add: EVP_EncodeInit_def zero_ctx_def ctx_ok_def pending_def)

text \<open>\<open>EVP_EncodeBlock\<close> computes base64 as the alphabet table defines it, followed by a terminator, and returns the
  number of characters.\<close>

lemma encode_block_is_base64:
  "EVP_EncodeBlock src = (b64 src @ [0], 4 * ((length src + 2) div 3))"
  by (simp only: EVP_EncodeBlock_b64 length_b64)

text \<open>What \<open>EVP_EncodeBlock\<close> writes, \<open>EVP_DecodeBase64\<close> reads back, given room for three bytes per group.\<close>

lemma base64_block_round_trip:
  assumes "3 * ((length src + 2) div 3) \<le> max_out"
  shows "EVP_DecodeBase64 max_out (take (snd (EVP_EncodeBlock src)) (fst (EVP_EncodeBlock src))) = Some src"
  using assms decode_base64_b64 [of src "[]"]
  by (simp add: EVP_EncodeBlock_b64 EVP_DecodeBase64_def EVP_DecodedLength_def length_b64)

text \<open>\<open>EVP_EncodedLength\<close> is the exact size of what \<open>EVP_EncodeBlock\<close> writes, and fails exactly when that size does
  not fit a \<open>size_t\<close>.\<close>

lemma encoded_length_exact:
  assumes "length src < SIZE_MOD"
  shows "EVP_EncodedLength (length src) =
    (if length (fst (EVP_EncodeBlock src)) < SIZE_MOD then Some (length (fst (EVP_EncodeBlock src))) else None)"
proof -
  define len where "len = length src"
  define q where "q = (len + 2) div 3"
  have w: "length (fst (EVP_EncodeBlock src)) = q * 4 + 1" by (simp add: EVP_EncodeBlock_b64 length_b64 q_def len_def)
  have len: "len < SIZE_MOD" using assms by (simp add: len_def)
  show ?thesis unfolding w len_def [symmetric]
  proof (cases "len + 2 < SIZE_MOD")
    case wrap: False
    then have "(len + 2) mod SIZE_MOD < len" using len by (simp add: mod_if)
    moreover have "SIZE_MOD \<le> q * 4 + 1" using wrap by (simp add: q_def)
    ultimately show "EVP_EncodedLength len = (if q * 4 + 1 < SIZE_MOD then Some (q * 4 + 1) else None)"
      by (simp add: EVP_EncodedLength_def)
  next
    case True
    have "q * 4 mod SIZE_MOD div 4 = q \<longleftrightarrow> q * 4 < SIZE_MOD"
    proof
      assume "q * 4 mod SIZE_MOD div 4 = q"
      moreover have "q * 4 mod SIZE_MOD < SIZE_MOD" by simp
      then have "q * 4 mod SIZE_MOD div 4 < 4611686018427387904" by (simp add: less_mult_imp_div_less)
      ultimately show "q * 4 < SIZE_MOD" by simp
    qed simp
    moreover have "q * 4 < SIZE_MOD \<Longrightarrow> q * 4 + 1 < SIZE_MOD"
    proof -
      assume "q * 4 < SIZE_MOD"
      then have "q * 4 < 4611686018427387904 * 4" by simp
      then have "q < 4611686018427387904" by (simp only: mult_less_cancel2)
      then show ?thesis by simp
    qed
    moreover have "(len + 2) mod SIZE_MOD = len + 2" using True by (rule mod_less)
    then have "EVP_EncodedLength len = (if q * 4 mod SIZE_MOD div 4 \<noteq> q then None
        else if (q * 4 mod SIZE_MOD + 1) mod SIZE_MOD < q * 4 mod SIZE_MOD then None else Some ((q * 4 mod SIZE_MOD + 1) mod SIZE_MOD))"
      by (simp only: EVP_EncodedLength_def Let_def q_def) simp
    ultimately show "EVP_EncodedLength len = (if q * 4 + 1 < SIZE_MOD then Some (q * 4 + 1) else None)" by simp
  qed
qed

text \<open>\<open>EVP_DecodeBase64\<close> writes no more than \<open>max_out\<close> bytes.\<close>

lemma decode_within_bounds:
  assumes "EVP_DecodeBase64 max_out src = Some out"
  shows "length out \<le> max_out"
  using assms decode_base64_length [of src "[]" out]
  by (auto simp: EVP_DecodeBase64_def EVP_DecodedLength_def split: if_splits)

text \<open>Each constant-time helper computes, without a branch, the comparison its name says, for all words.\<close>

lemma constant_time_masks:
  "constant_time_lt_w a b = (if a < b then - 1 else 0) \<and> constant_time_ge_w a b = (if a \<ge> b then - 1 else 0) \<and>
   constant_time_eq_w a b = (if a = b then - 1 else 0) \<and> constant_time_is_zero_w a = (if a = 0 then - 1 else 0) \<and>
   constant_time_select_w (constant_time_lt_w a b) c d = (if a < b then c else d) \<and>
   constant_time_lt_args_8 p q = (if p < q then - 1 else 0)"
  by (simp add: lt_w eq_w is_zero_w select_w lt_args_8 constant_time_ge_w_def) (simp add: ct_mask_def not_less)

end
