(* ===== verification/Stack.thy ===== *)
theory Stack
  imports Mem
begin

text \<open>
  The stack of pointers of \<^verbatim>\<open>crypto/stack/stack.c\<close>. A pointer is a value of an option type, \<open>NULL\<close> being \<open>None\<close>; a
  comparison function is a name that \<open>call_cmp\<close> interprets, as \<open>call_cmp_func\<close> does in the source. The array is the list
  \<open>st_data\<close> of the \<open>st_num_alloc\<close> allocated slots; a slot that \<open>OPENSSL_realloc\<close> leaves uninitialised is \<open>None\<close>.
\<close>

section \<open>Operations\<close>

definition kMinSize :: nat where
  "kMinSize = 4"

definition sizeof_STACK :: nat where
  "sizeof_STACK = 40"

abbreviation sizeof_ptr :: nat where
  "sizeof_ptr \<equiv> 8"

record ('p, 'f) STACK =
  st_num :: nat
  st_data :: "'p option list"
  st_sorted :: bool
  st_num_alloc :: nat
  st_comp :: "'f option"

type_synonym ('p, 'f) stack = "('p, 'f) STACK option"

definition sk_new :: "allocator \<Rightarrow> 'f option \<Rightarrow> ('p, 'f) stack" where
  "sk_new mem cmp = (case OPENSSL_malloc mem sizeof_STACK of
      None \<Rightarrow> None
    | Some _ \<Rightarrow>
        (case OPENSSL_malloc mem (sizeof_ptr * kMinSize) of
           None \<Rightarrow> None
         | Some _ \<Rightarrow> Some \<lparr>st_num = 0, st_data = replicate kMinSize None, st_sorted = False,
             st_num_alloc = kMinSize, st_comp = cmp\<rparr>))"

definition sk_new_null :: "allocator \<Rightarrow> ('p, 'f) stack" where
  "sk_new_null mem = sk_new mem None"

definition sk_num :: "('p, 'f) stack \<Rightarrow> nat" where
  "sk_num sk = (case sk of None \<Rightarrow> 0 | Some s \<Rightarrow> st_num s)"

definition sk_zero :: "('p, 'f) stack \<Rightarrow> ('p, 'f) stack" where
  "sk_zero sk = (case sk of
      None \<Rightarrow> None
    | Some s \<Rightarrow>
        if st_num s = 0 then Some s
        else Some (s\<lparr>st_data := replicate (st_num s) None @ drop (st_num s) (st_data s), st_num := 0, st_sorted := False\<rparr>))"

definition sk_value :: "('p, 'f) stack \<Rightarrow> nat \<Rightarrow> 'p option" where
  "sk_value sk i = (case sk of
      None \<Rightarrow> None
    | Some s \<Rightarrow> if i \<ge> st_num s then None else st_data s ! i)"

definition sk_set :: "('p, 'f) stack \<Rightarrow> nat \<Rightarrow> 'p option \<Rightarrow> 'p option \<times> ('p, 'f) stack" where
  "sk_set sk i v = (case sk of
      None \<Rightarrow> (None, None)
    | Some s \<Rightarrow> if i \<ge> st_num s then (None, Some s) else (v, Some (s\<lparr>st_data := (st_data s)[i := v]\<rparr>)))"

text \<open>The pointers that \<open>sk_pop_free_ex\<close> passes to the callback, in order.\<close>

definition sk_pop_free_ex :: "('p, 'f) stack \<Rightarrow> 'p list" where
  "sk_pop_free_ex sk = (case sk of
      None \<Rightarrow> []
    | Some s \<Rightarrow> map the (filter (\<lambda>p. p \<noteq> None) (take (st_num s) (st_data s))))"

definition sk_pop_free :: "('p, 'f) stack \<Rightarrow> 'p list" where
  "sk_pop_free sk = sk_pop_free_ex sk"

text \<open>The growth step of \<open>sk_insert\<close>; \<open>None\<close> is its early return.\<close>

definition sk_grow :: "allocator \<Rightarrow> ('p, 'f) STACK \<Rightarrow> ('p, 'f) STACK option" where
  "sk_grow mem s =
     (if st_num_alloc s \<le> (st_num s + 1) mod SIZE_MOD then
        let new_alloc = st_num_alloc s * 2 mod SIZE_MOD;
            alloc_size = new_alloc * sizeof_ptr mod SIZE_MOD;
            overflow = (new_alloc < st_num_alloc s \<or> alloc_size div sizeof_ptr \<noteq> new_alloc);
            new_alloc = (if overflow then (st_num_alloc s + 1) mod SIZE_MOD else new_alloc);
            alloc_size = (if overflow then new_alloc * sizeof_ptr mod SIZE_MOD else alloc_size)
        in if new_alloc < st_num_alloc s \<or> alloc_size div sizeof_ptr \<noteq> new_alloc then None
           else case OPENSSL_realloc mem (Some (replicate (st_num_alloc s * sizeof_ptr) 0)) alloc_size of
               None \<Rightarrow> None
             | Some _ \<Rightarrow> Some (s\<lparr>st_data := st_data s @ replicate (new_alloc - st_num_alloc s) None, st_num_alloc := new_alloc\<rparr>)
      else Some s)"

definition ptr_memmove :: "'p list \<Rightarrow> nat \<Rightarrow> nat \<Rightarrow> nat \<Rightarrow> 'p list" where
  "ptr_memmove arr dst src n = take dst arr @ take n (drop src arr) @ drop (dst + n) arr"

definition sk_insert :: "allocator \<Rightarrow> ('p, 'f) stack \<Rightarrow> 'p option \<Rightarrow> nat \<Rightarrow> nat \<times> ('p, 'f) stack" where
  "sk_insert mem sk p pos = (case sk of
      None \<Rightarrow> (0, None)
    | Some s \<Rightarrow>
        (case sk_grow mem s of
           None \<Rightarrow> (0, Some s)
         | Some s \<Rightarrow>
             let arr = (if pos \<ge> st_num s then (st_data s)[st_num s := p]
                        else (ptr_memmove (st_data s) (pos + 1) pos (st_num s - pos))[pos := p]);
                 s = s\<lparr>st_data := arr, st_num := (st_num s + 1) mod SIZE_MOD, st_sorted := False\<rparr>
             in (st_num s, Some s)))"

definition sk_delete :: "('p, 'f) stack \<Rightarrow> nat \<Rightarrow> 'p option \<times> ('p, 'f) stack" where
  "sk_delete sk pos = (case sk of
      None \<Rightarrow> (None, None)
    | Some s \<Rightarrow>
        if pos \<ge> st_num s then (None, Some s)
        else let ret = st_data s ! pos;
                 arr = (if pos \<noteq> st_num s - 1 then ptr_memmove (st_data s) pos (pos + 1) (st_num s - pos - 1) else st_data s)
             in (ret, Some (s\<lparr>st_data := arr, st_num := st_num s - 1\<rparr>)))"

fun ptr_index :: "'p option \<Rightarrow> 'p option list \<Rightarrow> nat \<Rightarrow> nat option" where
  "ptr_index p [] i = None"
| "ptr_index p (x # xs) i = (if x = p then Some i else ptr_index p xs (i + 1))"

definition sk_delete_ptr :: "('p, 'f) stack \<Rightarrow> 'p option \<Rightarrow> 'p option \<times> ('p, 'f) stack" where
  "sk_delete_ptr sk p = (case sk of
      None \<Rightarrow> (None, None)
    | Some s \<Rightarrow> (case ptr_index p (take (st_num s) (st_data s)) 0 of
          None \<Rightarrow> (None, Some s)
        | Some i \<Rightarrow> sk_delete (Some s) i))"

definition sk_is_sorted :: "('p, 'f) stack \<Rightarrow> bool" where
  "sk_is_sorted sk = (case sk of None \<Rightarrow> True | Some s \<Rightarrow> st_sorted s)"

fun cmp_index :: "('p option \<Rightarrow> int) \<Rightarrow> 'p option list \<Rightarrow> nat \<Rightarrow> nat option" where
  "cmp_index r [] i = None"
| "cmp_index r (x # xs) i = (if r x = 0 then Some i else cmp_index r xs (i + 1))"

text \<open>The binary search; \<open>r\<close> compares the key with an element.\<close>

function find_sorted :: "('p option \<Rightarrow> int) \<Rightarrow> 'p option list \<Rightarrow> nat \<Rightarrow> nat \<Rightarrow> nat option" where
  "find_sorted r arr lo hi =
     (if lo < hi then
        let mid = lo + (hi - lo - 1) div 2;
            c = r (arr ! mid)
        in if c > 0 then find_sorted r arr (mid + 1) hi
           else if c < 0 then find_sorted r arr lo mid
           else if hi - lo = 1 then Some mid
           else find_sorted r arr lo (mid + 1)
      else None)"
  by pat_completeness auto
termination
proof (relation "measure (\<lambda>(_, _, lo, hi). hi - lo)", goal_cases)
  case (4 r arr lo hi mid c)
  then have "(hi - lo - 1) div 2 + 1 < hi - lo" by (simp add: div_less_iff_less_mult)
  with 4 show ?case by simp
qed auto

declare find_sorted.simps [simp del]

definition sk_find :: "('f \<Rightarrow> 'p option \<Rightarrow> 'p option \<Rightarrow> int) \<Rightarrow> ('p, 'f) stack \<Rightarrow> 'p option \<Rightarrow> nat option" where
  "sk_find call_cmp sk p = (case sk of
      None \<Rightarrow> None
    | Some s \<Rightarrow>
        (case st_comp s of
           None \<Rightarrow> ptr_index p (take (st_num s) (st_data s)) 0
         | Some cmp \<Rightarrow>
             if p = None then None
             else if \<not> sk_is_sorted sk then cmp_index (call_cmp cmp p) (take (st_num s) (st_data s)) 0
             else find_sorted (call_cmp cmp p) (st_data s) 0 (st_num s)))"

definition sk_shift :: "('p, 'f) stack \<Rightarrow> 'p option \<times> ('p, 'f) stack" where
  "sk_shift sk = (case sk of
      None \<Rightarrow> (None, None)
    | Some s \<Rightarrow> if st_num s = 0 then (None, Some s) else sk_delete (Some s) 0)"

definition sk_push :: "allocator \<Rightarrow> ('p, 'f) STACK \<Rightarrow> 'p option \<Rightarrow> nat \<times> ('p, 'f) stack" where
  "sk_push mem s p = sk_insert mem (Some s) p (st_num s)"

definition sk_pop :: "('p, 'f) stack \<Rightarrow> 'p option \<times> ('p, 'f) stack" where
  "sk_pop sk = (case sk of
      None \<Rightarrow> (None, None)
    | Some s \<Rightarrow> if st_num s = 0 then (None, Some s) else sk_delete (Some s) (st_num s - 1))"

definition sk_dup :: "allocator \<Rightarrow> ('p, 'f) stack \<Rightarrow> ('p, 'f) stack" where
  "sk_dup mem sk = (case sk of
      None \<Rightarrow> None
    | Some s \<Rightarrow>
        (case OPENSSL_malloc mem sizeof_STACK of
           None \<Rightarrow> None
         | Some _ \<Rightarrow>
             (case OPENSSL_malloc mem (sizeof_ptr * st_num_alloc s mod SIZE_MOD) of
                None \<Rightarrow> None
              | Some _ \<Rightarrow> Some \<lparr>st_num = st_num s,
                  st_data = take (st_num s) (st_data s) @ replicate (st_num_alloc s - st_num s) None,
                  st_sorted = st_sorted s, st_num_alloc = st_num_alloc s, st_comp = st_comp s\<rparr>)))"

text \<open>\<open>qsort\<close> is the library function, given the comparison and the array.\<close>

definition sk_sort ::
    "(('p option \<Rightarrow> 'p option \<Rightarrow> int) \<Rightarrow> 'p option list \<Rightarrow> 'p option list) \<Rightarrow>
     ('f \<Rightarrow> 'p option \<Rightarrow> 'p option \<Rightarrow> int) \<Rightarrow> ('p, 'f) stack \<Rightarrow> ('p, 'f) stack" where
  "sk_sort qsort call_cmp sk = (case sk of
      None \<Rightarrow> None
    | Some s \<Rightarrow>
        (case st_comp s of
           None \<Rightarrow> Some s
         | Some cmp \<Rightarrow>
             if st_sorted s then Some s
             else let s = (if st_num s \<ge> 2
                           then s\<lparr>st_data := qsort (call_cmp cmp) (take (st_num s) (st_data s)) @ drop (st_num s) (st_data s)\<rparr>
                           else s)
                  in Some (s\<lparr>st_sorted := True\<rparr>)))"

definition sk_set_cmp_func :: "('p, 'f) STACK \<Rightarrow> 'f option \<Rightarrow> 'f option \<times> ('p, 'f) STACK" where
  "sk_set_cmp_func s cmp =
     (let old = st_comp s;
          s = (if st_comp s \<noteq> cmp then s\<lparr>st_sorted := False\<rparr> else s)
      in (old, s\<lparr>st_comp := cmp\<rparr>))"

text \<open>\<open>sk_deep_copy\<close> gives the new stack and the pointers passed to the free callback.\<close>

fun deep_copy_loop :: "('p \<Rightarrow> 'p option) \<Rightarrow> 'p option list \<Rightarrow> 'p option list \<Rightarrow> 'p option list option \<times> 'p list" where
  "deep_copy_loop copy done [] = (Some done, [])"
| "deep_copy_loop copy done (None # xs) = deep_copy_loop copy (done @ [None]) xs"
| "deep_copy_loop copy done (Some p # xs) = (case copy p of
      None \<Rightarrow> (None, map the (filter (\<lambda>p. p \<noteq> None) done))
    | Some q \<Rightarrow> deep_copy_loop copy (done @ [Some q]) xs)"

definition sk_deep_copy :: "allocator \<Rightarrow> ('p, 'f) stack \<Rightarrow> ('p \<Rightarrow> 'p option) \<Rightarrow> ('p, 'f) stack \<times> 'p list" where
  "sk_deep_copy mem sk copy = (case sk_dup mem sk of
      None \<Rightarrow> (None, [])
    | Some ret \<Rightarrow>
        (case deep_copy_loop copy [] (take (st_num ret) (st_data ret)) of
           (None, freed) \<Rightarrow> (None, freed)
         | (Some arr, freed) \<Rightarrow> (Some (ret\<lparr>st_data := arr @ drop (st_num ret) (st_data ret)\<rparr>), freed)))"

end
