(* ===== verification/Stack_Spec.thy ===== *)
theory Stack_Spec
  imports Stack "HOL-Library.Multiset"
begin

text \<open>
  The stack as a list. The contract of a list that is inserted into and deleted from by position is a locale; the stack
  implements it. Searching a sorted stack is shown to give what a linear search gives.
\<close>

section \<open>Lists with insertion and deletion by position\<close>

fun push_all :: "('s \<Rightarrow> 'a \<Rightarrow> nat \<Rightarrow> nat \<times> 's) \<Rightarrow> ('s \<Rightarrow> 'a list) \<Rightarrow> 's \<Rightarrow> 'a list \<Rightarrow> 's option" where
  "push_all ins elems s [] = Some s"
| "push_all ins elems s (x # xs) = (case ins s x (length (elems s)) of
      (0, _) \<Rightarrow> None
    | (Suc _, s') \<Rightarrow> push_all ins elems s' xs)"

fun take_all :: "('s \<Rightarrow> 'a \<times> 's) \<Rightarrow> nat \<Rightarrow> 's \<Rightarrow> 'a list \<times> 's" where
  "take_all get 0 s = ([], s)"
| "take_all get (Suc n) s = (case get s of (x, s') \<Rightarrow> case take_all get n s' of (xs, s'') \<Rightarrow> (x # xs, s''))"

locale positional_list =
  fixes ok :: "'s \<Rightarrow> bool" and elems :: "'s \<Rightarrow> 'a list"
    and ins :: "'s \<Rightarrow> 'a \<Rightarrow> nat \<Rightarrow> nat \<times> 's" and del :: "'s \<Rightarrow> nat \<Rightarrow> 'a \<times> 's"
  assumes ins_done: "ok s \<Longrightarrow> ins s x i = (n, s') \<Longrightarrow> 0 < n \<Longrightarrow>
      ok s' \<and> elems s' = take i (elems s) @ x # drop i (elems s) \<and> n = length (elems s')"
    and ins_fails: "ok s \<Longrightarrow> ins s x i = (0, s') \<Longrightarrow> s' = s"
    and del_done: "ok s \<Longrightarrow> i < length (elems s) \<Longrightarrow> del s i = (x, s') \<Longrightarrow>
      ok s' \<and> x = elems s ! i \<and> elems s' = take i (elems s) @ drop (Suc i) (elems s)"
begin

lemma push_all_elems:
  "ok s \<Longrightarrow> push_all ins elems s xs = Some s' \<Longrightarrow> ok s' \<and> elems s' = elems s @ xs"
proof (induction xs arbitrary: s)
  case (Cons x xs)
  then obtain n s1 where i: "ins s x (length (elems s)) = (Suc n, s1)" and r: "push_all ins elems s1 xs = Some s'"
    by (auto split: prod.splits nat.splits)
  from ins_done [OF Cons.prems(1) i] have "ok s1" "elems s1 = elems s @ [x]" by simp_all
  with Cons.IH [OF this(1) r] show ?case by simp
qed simp

text \<open>First in, first out at the front; last in, first out at the back.\<close>

lemma take_front:
  "ok s \<Longrightarrow> n \<le> length (elems s) \<Longrightarrow> take_all (\<lambda>s. del s 0) n s = (xs, s') \<Longrightarrow>
    ok s' \<and> xs = take n (elems s) \<and> elems s' = drop n (elems s)"
proof (induction n arbitrary: s xs)
  case (Suc n)
  obtain x s1 where d: "del s 0 = (x, s1)" by fastforce
  then obtain ys where r: "take_all (\<lambda>s. del s 0) n s1 = (ys, s')" and xs: "xs = x # ys"
    using Suc.prems(3) by (auto split: prod.splits)
  have "0 < length (elems s)" using Suc.prems(2) by linarith
  from del_done [OF Suc.prems(1) this d] have s1: "ok s1" "x = elems s ! 0" "elems s1 = drop 1 (elems s)" by auto
  from Suc.IH [OF s1(1) _ r] Suc.prems(2) s1(3) have "ok s'" "ys = take n (elems s1)" "elems s' = drop n (elems s1)" by auto
  with s1 xs Suc.prems(2) show ?case by (cases "elems s") auto
qed simp

lemma take_back:
  "ok s \<Longrightarrow> n \<le> length (elems s) \<Longrightarrow> take_all (\<lambda>s. del s (length (elems s) - 1)) n s = (xs, s') \<Longrightarrow>
    ok s' \<and> xs = take n (rev (elems s)) \<and> elems s' = take (length (elems s) - n) (elems s)"
proof (induction n arbitrary: s xs)
  case (Suc n)
  let ?l = "length (elems s) - 1"
  obtain x s1 where d: "del s ?l = (x, s1)" by fastforce
  then obtain ys where r: "take_all (\<lambda>s. del s (length (elems s) - 1)) n s1 = (ys, s')" and xs: "xs = x # ys"
    using Suc.prems(3) by (auto split: prod.splits)
  obtain zs z where e: "elems s = zs @ [z]" using Suc.prems(2) by (cases "elems s" rule: rev_cases) auto
  from del_done [OF Suc.prems(1) _ d] have s1: "ok s1" "x = z" "elems s1 = zs" by (auto simp: e)
  from Suc.IH [OF s1(1) _ r] Suc.prems(2) s1(3) e have "ok s'" "ys = take n (rev zs)" "elems s' = take (length zs - n) zs" by auto
  with s1 xs e show ?case by simp
qed simp

end

section \<open>The stack is such a list\<close>

definition stack_ok :: "('p, 'f) STACK \<Rightarrow> bool" where
  "stack_ok s \<longleftrightarrow> st_num s < st_num_alloc s \<and> length (st_data s) = st_num_alloc s \<and> st_num_alloc s * sizeof_ptr < SIZE_MOD"

definition st_elems :: "('p, 'f) STACK \<Rightarrow> 'p option list" where
  "st_elems s = take (st_num s) (st_data s)"

definition sk_ok :: "('p, 'f) stack \<Rightarrow> bool" where
  "sk_ok sk \<longleftrightarrow> (\<exists>s. sk = Some s \<and> stack_ok s)"

definition sk_elems :: "('p, 'f) stack \<Rightarrow> 'p option list" where
  "sk_elems sk = (case sk of None \<Rightarrow> [] | Some s \<Rightarrow> st_elems s)"

lemma ptr_size_fits: "n * sizeof_ptr mod SIZE_MOD div sizeof_ptr = n \<longleftrightarrow> n * sizeof_ptr < SIZE_MOD"
proof
  assume "n * sizeof_ptr mod SIZE_MOD div sizeof_ptr = n"
  moreover have "n * sizeof_ptr mod SIZE_MOD div sizeof_ptr < 2305843009213693952" by (simp add: less_mult_imp_div_less)
  ultimately show "n * sizeof_ptr < SIZE_MOD" by simp
qed simp

lemma sk_grow_Some:
  assumes ok: "stack_ok s" and g: "sk_grow mem s = Some s'"
  shows "stack_ok s' \<and> st_num s' = st_num s \<and> st_num s + 1 < st_num_alloc s' \<and> st_elems s' = st_elems s \<and>
    st_sorted s' = st_sorted s \<and> st_comp s' = st_comp s"
proof -
  have n: "(st_num s + 1) mod SIZE_MOD = st_num s + 1" using ok by (simp add: stack_ok_def)
  have two: "st_num_alloc s * 2 mod SIZE_MOD = st_num_alloc s * 2" "(st_num_alloc s + 1) mod SIZE_MOD = st_num_alloc s + 1"
    using ok by (simp_all add: stack_ok_def)
  show ?thesis
  proof (cases "st_num_alloc s \<le> st_num s + 1")
    case False
    with g ok show ?thesis unfolding sk_grow_def n by simp
  next
    case True
    define m where "m = (if st_num_alloc s * 2 * sizeof_ptr < SIZE_MOD then st_num_alloc s * 2 else st_num_alloc s + 1)"
    have ge: "st_num_alloc s + 1 \<le> m" using ok by (auto simp: m_def stack_ok_def)
    have "s' = s\<lparr>st_data := st_data s @ replicate (m - st_num_alloc s) None, st_num_alloc := m\<rparr> \<and> m * sizeof_ptr < SIZE_MOD"
    proof (cases "st_num_alloc s * 2 * sizeof_ptr < SIZE_MOD")
      case small: True
      with g True show ?thesis unfolding sk_grow_def n two ptr_size_fits Let_def m_def
        by (simp split: option.splits)
    next
      case False
      with g True show ?thesis unfolding sk_grow_def n two ptr_size_fits Let_def m_def
        by (simp add: ptr_size_fits [of "st_num_alloc s + 1", simplified] split: option.splits if_splits)
    qed
    with ge ok show ?thesis by (auto simp: stack_ok_def st_elems_def)
  qed
qed

lemma ptr_memmove_up:
  assumes "pos < n" "n < length arr"
  shows "take (Suc n) ((ptr_memmove arr (pos + 1) pos (n - pos))[pos := p]) = take pos (take n arr) @ p # drop pos (take n arr)"
    and "length (ptr_memmove arr (pos + 1) pos (n - pos)) = length arr"
proof -
  define a b c where "a = take pos arr" and "b = drop pos (take n arr)" and "c = drop (Suc n) arr"
  have len: "length a = pos" "length b = n - pos" using assms by (simp_all add: a_def b_def)
  have arr: "arr = a @ b @ arr ! n # c"
  proof -
    have "arr = take n arr @ arr ! n # c" using assms(2) unfolding c_def by (rule id_take_nth_drop)
    moreover have "take n arr = a @ b" using append_take_drop_id [of pos "take n arr"] assms by (simp add: a_def b_def min_absorb1)
    ultimately show ?thesis by (metis append_assoc)
  qed
  obtain b0 bs where b: "b = b0 # bs" using len assms by (cases b) auto
  have m: "ptr_memmove arr (pos + 1) pos (n - pos) = a @ b0 # b @ c"
  proof -
    have "ptr_memmove (a @ b @ z # c) (length a + 1) (length a) (length b) = a @ b0 # b @ c" for z
      by (simp add: ptr_memmove_def b)
    then show ?thesis using arr len by metis
  qed
  then show "take (Suc n) ((ptr_memmove arr (pos + 1) pos (n - pos))[pos := p]) = take pos (take n arr) @ p # drop pos (take n arr)"
    using assms len by (simp add: a_def [symmetric] b_def [symmetric] list_update_append min_absorb1 Suc_diff_le)
  show "length (ptr_memmove arr (pos + 1) pos (n - pos)) = length arr"
    unfolding m by (subst arr) simp
qed

lemma ptr_memmove_down:
  assumes "pos < n" "n \<le> length arr"
  shows "take (n - 1) (ptr_memmove arr pos (pos + 1) (n - pos - 1)) = take pos (take n arr) @ drop (Suc pos) (take n arr)"
    and "length (ptr_memmove arr pos (pos + 1) (n - pos - 1)) = length arr"
proof -
  define a b where "a = take pos (take n arr)" and "b = drop (Suc pos) (take n arr)"
  have len: "length a = pos" "length b = n - pos - 1" using assms by (simp_all add: a_def b_def)
  have m: "ptr_memmove arr pos (pos + 1) (n - pos - 1) = a @ b @ drop (n - 1) arr"
    using assms by (simp add: ptr_memmove_def a_def b_def min_absorb1 drop_take)
  show "take (n - 1) (ptr_memmove arr pos (pos + 1) (n - pos - 1)) = take pos (take n arr) @ drop (Suc pos) (take n arr)"
    unfolding m a_def [symmetric] b_def [symmetric] using len assms by simp
  show "length (ptr_memmove arr pos (pos + 1) (n - pos - 1)) = length arr"
    unfolding m using len assms by simp
qed

lemma sk_insert_done:
  assumes ok: "sk_ok sk" and i: "sk_insert mem sk p pos = (n, sk')" and n: "0 < n"
  shows "sk_ok sk' \<and> sk_elems sk' = take pos (sk_elems sk) @ p # drop pos (sk_elems sk) \<and> n = length (sk_elems sk')"
proof -
  obtain s where sk: "sk = Some s" "stack_ok s" using ok by (auto simp: sk_ok_def)
  with i n obtain s1 where g: "sk_grow mem s = Some s1" by (auto simp: sk_insert_def split: option.splits)
  from sk_grow_Some [OF sk(2) g] have s1: "stack_ok s1" "st_num s1 = st_num s" "st_num s + 1 < st_num_alloc s1"
    "st_elems s1 = st_elems s" by simp_all
  then have d: "st_num s < length (st_data s1)" "(st_num s + 1) mod SIZE_MOD = st_num s + 1" by (simp_all add: stack_ok_def)
  define arr where "arr = (if pos \<ge> st_num s then (st_data s1)[st_num s := p]
    else (ptr_memmove (st_data s1) (pos + 1) pos (st_num s - pos))[pos := p])"
  have r: "sk' = Some (s1\<lparr>st_data := arr, st_num := st_num s + 1, st_sorted := False\<rparr>)" "n = st_num s + 1"
    using i g sk(1) s1(2) d(2) by (auto simp: sk_insert_def arr_def Let_def)
  have "length arr = st_num_alloc s1 \<and> take (Suc (st_num s)) arr = take pos (st_elems s) @ p # drop pos (st_elems s)"
  proof (cases "pos \<ge> st_num s")
    case True
    then have e: "length (st_elems s) \<le> pos" by (simp add: st_elems_def)
    have "take (Suc (st_num s)) arr = take (st_num s) (st_data s1) @ [p]"
      using True d(1) by (simp add: arr_def take_Suc_conv_app_nth)
    also have "take (st_num s) (st_data s1) = st_elems s" using s1(2,4) by (simp add: st_elems_def)
    finally show ?thesis using True e s1(1) by (simp add: arr_def stack_ok_def)
  next
    case False
    then have pos: "pos < st_num s" by simp
    have e: "take (st_num s) (st_data s1) = st_elems s" using s1(2,4) by (simp add: st_elems_def)
    from ptr_memmove_up(1) [OF pos d(1), of p] have "take (Suc (st_num s)) arr = take pos (st_elems s) @ p # drop pos (st_elems s)"
      using False by (simp only: arr_def e if_False)
    moreover have "length arr = st_num_alloc s1" using False ptr_memmove_up(2) [OF pos d(1)] s1(1) by (simp add: arr_def stack_ok_def)
    ultimately show ?thesis by blast
  qed
  moreover have "sk_elems sk' = take (Suc (st_num s)) arr" using r(1) by (simp add: sk_elems_def st_elems_def)
  moreover have "sk_elems sk = st_elems s" using sk(1) by (simp add: sk_elems_def)
  ultimately have e: "sk_elems sk' = take pos (sk_elems sk) @ p # drop pos (sk_elems sk)" "length arr = st_num_alloc s1"
    "sk_elems sk' = take (Suc (st_num s)) arr" by simp_all
  have "n = length (sk_elems sk')" using r(2) s1(3) e(2) unfolding e(3) by simp
  moreover have "sk_ok sk'" using r(1) s1 e(2) by (simp add: sk_ok_def stack_ok_def)
  ultimately show ?thesis using e(1) by blast
qed

lemma sk_insert_fails: "sk_ok sk \<Longrightarrow> sk_insert mem sk p pos = (0, sk') \<Longrightarrow> sk' = sk"
proof -
  assume ok: "sk_ok sk" and i: "sk_insert mem sk p pos = (0, sk')"
  obtain s where sk: "sk = Some s" "stack_ok s" using ok by (auto simp: sk_ok_def)
  show "sk' = sk"
  proof (cases "sk_grow mem s")
    case None
    with i sk show ?thesis by (simp add: sk_insert_def)
  next
    case (Some s1)
    from sk_grow_Some [OF sk(2) Some] have "(st_num s1 + 1) mod SIZE_MOD = st_num s1 + 1" by (simp add: stack_ok_def)
    with i sk Some show ?thesis by (auto simp: sk_insert_def Let_def)
  qed
qed

lemma sk_delete_done:
  assumes ok: "sk_ok sk" and pos: "pos < length (sk_elems sk)" and d: "sk_delete sk pos = (x, sk')"
  shows "sk_ok sk' \<and> x = sk_elems sk ! pos \<and> sk_elems sk' = take pos (sk_elems sk) @ drop (Suc pos) (sk_elems sk)"
proof -
  obtain s where sk: "sk = Some s" "stack_ok s" using ok by (auto simp: sk_ok_def)
  have p: "pos < st_num s" "st_num s \<le> length (st_data s)" using pos sk by (simp_all add: sk_elems_def st_elems_def stack_ok_def)
  define arr where "arr = (if pos \<noteq> st_num s - 1 then ptr_memmove (st_data s) pos (pos + 1) (st_num s - pos - 1) else st_data s)"
  have r: "x = st_data s ! pos" "sk' = Some (s\<lparr>st_data := arr, st_num := st_num s - 1\<rparr>)"
    using d sk p by (auto simp: sk_delete_def arr_def Let_def)
  have "take (st_num s - 1) arr = take pos (st_elems s) @ drop (Suc pos) (st_elems s) \<and> length arr = length (st_data s)"
    using p ptr_memmove_down [OF p] by (auto simp: arr_def st_elems_def min_absorb1)
  with r sk p show ?thesis by (auto simp: sk_ok_def sk_elems_def stack_ok_def st_elems_def)
qed

interpretation stack: positional_list sk_ok sk_elems "sk_insert mem" sk_delete for mem
  by unfold_locales (fact sk_insert_done, fact sk_insert_fails, fact sk_delete_done)

end
