(* ===== verification/Stack_Sort.thy ===== *)
theory Stack_Sort
  imports Stack_Spec
begin

text \<open>
  Sorting and searching. The flag \<open>st_sorted\<close> promises that the elements are in ascending order; under that promise the
  binary search finds what the linear search finds. A step relation lists the operations that keep the promise.
\<close>

section \<open>Searching\<close>

text \<open>The first position of a range with a match, if any.\<close>

definition first_match :: "('a \<Rightarrow> int) \<Rightarrow> 'a list \<Rightarrow> nat \<Rightarrow> nat \<Rightarrow> nat option \<Rightarrow> bool" where
  "first_match r xs lo hi res \<longleftrightarrow> (case res of
      None \<Rightarrow> \<forall>j. lo \<le> j \<and> j < hi \<longrightarrow> r (xs ! j) \<noteq> 0
    | Some i \<Rightarrow> lo \<le> i \<and> i < hi \<and> r (xs ! i) = 0 \<and> (\<forall>j. lo \<le> j \<and> j < i \<longrightarrow> r (xs ! j) \<noteq> 0))"

lemma first_match_unique: "first_match r xs lo hi a \<Longrightarrow> first_match r xs lo hi b \<Longrightarrow> a = b"
  by (auto simp: first_match_def split: option.splits) (metis linorder_neqE_nat)

lemma cmp_index_first_match:
  "(case cmp_index r xs k of None \<Rightarrow> \<forall>j < length xs. r (xs ! j) \<noteq> 0
    | Some i \<Rightarrow> k \<le> i \<and> i < k + length xs \<and> r (xs ! (i - k)) = 0 \<and> (\<forall>j < i - k. r (xs ! j) \<noteq> 0))"
proof (induction xs arbitrary: k)
  case (Cons x xs)
  show ?case
  proof (cases "r x = 0 \<or> cmp_index r xs (k + 1) = None")
    case True
    with Cons [of "k + 1"] show ?thesis by (auto simp: nth_Cons split: nat.splits)
  next
    case False
    then obtain i where i: "cmp_index r xs (k + 1) = Some i" by blast
    with Cons [of "k + 1"] have "k + 1 \<le> i" "i < k + 1 + length xs" "r (xs ! (i - (k + 1))) = 0"
      "\<And>j. j < i - (k + 1) \<Longrightarrow> r (xs ! j) \<noteq> 0" by auto
    moreover from this(1) obtain m where "i = k + 1 + m" using le_Suc_ex by blast
    ultimately show ?thesis using False i by (auto simp: nth_Cons split: nat.splits)
  qed
qed simp

lemma linear_first_match: "first_match r xs 0 (length xs) (cmp_index r xs 0)"
  using cmp_index_first_match [where r = r and xs = xs and k = 0] by (auto simp: first_match_def split: option.splits)

text \<open>An array seen by a key: too small, equal, too large, in this order.\<close>

definition signs_descend :: "('a \<Rightarrow> int) \<Rightarrow> 'a list \<Rightarrow> nat \<Rightarrow> bool" where
  "signs_descend r xs n \<longleftrightarrow> (\<forall>i j. i < j \<and> j < n \<longrightarrow>
     (r (xs ! j) > 0 \<longrightarrow> r (xs ! i) > 0) \<and> (r (xs ! i) < 0 \<longrightarrow> r (xs ! j) < 0))"

lemma find_sorted_first_match:
  "signs_descend r xs n \<Longrightarrow> hi \<le> n \<Longrightarrow> first_match r xs lo hi (find_sorted r xs lo hi)"
proof (induction r xs lo hi rule: find_sorted.induct)
  case (1 r xs lo hi)
  define mid where "mid = lo + (hi - lo - 1) div 2"
  define c where "c = r (xs ! mid)"
  show ?case
  proof (cases "lo < hi")
    case False
    then show ?thesis by (simp add: find_sorted.simps first_match_def)
  next
    case True
    have mid: "lo \<le> mid" "mid < hi" using True by (auto simp: mid_def)
    note signs = "1.prems"(1) [unfolded signs_descend_def, rule_format]
    note IH = "1.IH" [OF True mid_def c_def]
    have run: "find_sorted r xs lo hi = (if c > 0 then find_sorted r xs (mid + 1) hi else if c < 0 then find_sorted r xs lo mid
        else if hi - lo = 1 then Some mid else find_sorted r xs lo (mid + 1))"
      by (subst find_sorted.simps) (simp only: True if_True Let_def mid_def c_def)
    consider "c > 0" | "c < 0" | "c = 0" "hi - lo = 1" | "c = 0" "hi - lo \<noteq> 1" by linarith
    then show ?thesis
    proof cases
      case 1
      then have "r (xs ! j) > 0" if "j \<le> mid" for j
        using signs [of j mid] mid "1.prems"(2) that by (cases "j = mid") (auto simp: c_def)
      moreover have "find_sorted r xs lo hi = find_sorted r xs (mid + 1) hi"
        using 1 by (simp add: run)
      ultimately show ?thesis using IH(1) [OF 1 "1.prems"] mid
        by (auto simp: first_match_def Suc_le_eq not_less split: option.splits) (metis less_irrefl not_le_imp_less)+
    next
      case 2
      then have "r (xs ! j) < 0" if "mid \<le> j" "j < hi" for j
        using signs [of mid j] that "1.prems"(2) by (cases "j = mid") (auto simp: c_def)
      moreover have "find_sorted r xs lo hi = find_sorted r xs lo mid"
        using 2 by (simp add: run)
      ultimately show ?thesis using IH(2) "1.prems" 2 mid
        by (auto simp: first_match_def split: option.splits) (metis less_irrefl not_le_imp_less)+
    next
      case 3
      then have "mid = lo" by (simp add: mid_def)
      with 3 True show ?thesis unfolding run by (simp add: first_match_def c_def)
    next
      case 4
      have "find_sorted r xs lo hi = find_sorted r xs lo (mid + 1)"
        using 4 by (simp add: run)
      moreover have "first_match r xs lo (mid + 1) (find_sorted r xs lo (mid + 1))"
        using IH(3) "1.prems" 4 mid by simp
      ultimately show ?thesis using mid 4(1) by (auto simp: first_match_def c_def split: option.splits)
    qed
  qed
qed

section \<open>Orders\<close>

definition cmp_order :: "('a \<Rightarrow> 'a \<Rightarrow> int) \<Rightarrow> bool" where
  "cmp_order c \<longleftrightarrow> (\<forall>a b. c a b < 0 \<longleftrightarrow> c b a > 0) \<and> (\<forall>a b d. c a b \<le> 0 \<longrightarrow> c b d \<le> 0 \<longrightarrow> c a d \<le> 0)"

definition ascending :: "('a \<Rightarrow> 'a \<Rightarrow> int) \<Rightarrow> 'a list \<Rightarrow> bool" where
  "ascending c xs \<longleftrightarrow> sorted_wrt (\<lambda>a b. c a b \<le> 0) xs"

text \<open>What the C standard says of \<open>qsort\<close>: given an order, the array is rearranged into ascending order.\<close>

definition qsort_ok :: "(('a \<Rightarrow> 'a \<Rightarrow> int) \<Rightarrow> 'a list \<Rightarrow> 'a list) \<Rightarrow> bool" where
  "qsort_ok qsort \<longleftrightarrow> (\<forall>c xs. cmp_order c \<longrightarrow> mset (qsort c xs) = mset xs \<and> ascending c (qsort c xs))"

lemma ascending_signs: "cmp_order c \<Longrightarrow> ascending c xs \<Longrightarrow> signs_descend (c p) xs (length xs)"
  unfolding signs_descend_def ascending_def cmp_order_def sorted_wrt_iff_nth_less by (metis not_le)

lemma ascending_delete: "ascending c xs \<Longrightarrow> ascending c (take i xs @ drop (Suc i) xs)"
proof -
  assume "ascending c xs"
  then have "sorted_wrt (\<lambda>a b. c a b \<le> 0) (take i xs @ drop i xs)" by (simp add: ascending_def)
  moreover have "set (drop (Suc i) xs) \<subseteq> set (drop i xs)" by (rule set_drop_subset_set_drop) simp
  moreover have "sorted_wrt (\<lambda>a b. c a b \<le> 0) (drop (Suc i) xs)" using \<open>ascending c xs\<close> by (simp add: ascending_def sorted_wrt_drop)
  ultimately show ?thesis unfolding ascending_def sorted_wrt_append by blast
qed

section \<open>The promise of the flag\<close>

definition flag_ok :: "('f \<Rightarrow> 'p option \<Rightarrow> 'p option \<Rightarrow> int) \<Rightarrow> ('p, 'f) STACK \<Rightarrow> bool" where
  "flag_ok call_cmp s \<longleftrightarrow> (st_sorted s \<longrightarrow> (\<exists>f. st_comp s = Some f \<and> ascending (call_cmp f) (st_elems s)))"

definition sk_inv :: "('f \<Rightarrow> 'p option \<Rightarrow> 'p option \<Rightarrow> int) \<Rightarrow> ('p, 'f) STACK \<Rightarrow> bool" where
  "sk_inv call_cmp s \<longleftrightarrow> stack_ok s \<and> flag_ok call_cmp s"

text \<open>A copy function whose copies compare like the originals.\<close>

definition copied :: "('p \<Rightarrow> 'p option) \<Rightarrow> 'p option \<Rightarrow> 'p option \<Rightarrow> bool" where
  "copied copy a b \<longleftrightarrow> (case a of None \<Rightarrow> b = None | Some p \<Rightarrow> copy p = b \<and> b \<noteq> None)"

definition copies_alike :: "('f \<Rightarrow> 'p option \<Rightarrow> 'p option \<Rightarrow> int) \<Rightarrow> ('p \<Rightarrow> 'p option) \<Rightarrow> bool" where
  "copies_alike call_cmp copy \<longleftrightarrow> (\<forall>f a a' b b'. copied copy a a' \<longrightarrow> copied copy b b' \<longrightarrow> call_cmp f a' b' = call_cmp f a b)"

text \<open>
  The calls a client may make on a stack, each with an allocator of its own, so that memory may be refused at any point. Setting an
  element is a step as long as the flag is not set, and a deep copy when the copies compare like the originals.
\<close>

inductive sk_step :: "(('p option \<Rightarrow> 'p option \<Rightarrow> int) \<Rightarrow> 'p option list \<Rightarrow> 'p option list) \<Rightarrow>
    ('f \<Rightarrow> 'p option \<Rightarrow> 'p option \<Rightarrow> int) \<Rightarrow> ('p, 'f) STACK \<Rightarrow> ('p, 'f) STACK \<Rightarrow> bool"
  for qsort call_cmp where
  step_insert: "sk_insert mem (Some s) p pos = (n, Some s') \<Longrightarrow> sk_step qsort call_cmp s s'"
| step_delete: "sk_delete (Some s) pos = (x, Some s') \<Longrightarrow> sk_step qsort call_cmp s s'"
| step_zero: "sk_zero (Some s) = Some s' \<Longrightarrow> sk_step qsort call_cmp s s'"
| step_sort: "sk_sort qsort call_cmp (Some s) = Some s' \<Longrightarrow> sk_step qsort call_cmp s s'"
| step_set_cmp: "sk_set_cmp_func s f = (old, s') \<Longrightarrow> sk_step qsort call_cmp s s'"
| step_dup: "sk_dup mem (Some s) = Some s' \<Longrightarrow> sk_step qsort call_cmp s s'"
| step_set: "\<not> st_sorted s \<Longrightarrow> sk_set (Some s) i v = (r, Some s') \<Longrightarrow> sk_step qsort call_cmp s s'"
| step_deep_copy: "copies_alike call_cmp copy \<Longrightarrow> sk_deep_copy mem (Some s) copy = (Some s', freed) \<Longrightarrow> sk_step qsort call_cmp s s'"

inductive sk_reachable :: "(('p option \<Rightarrow> 'p option \<Rightarrow> int) \<Rightarrow> 'p option list \<Rightarrow> 'p option list) \<Rightarrow>
    ('f \<Rightarrow> 'p option \<Rightarrow> 'p option \<Rightarrow> int) \<Rightarrow> ('p, 'f) STACK \<Rightarrow> bool"
  for qsort call_cmp where
  reach_new: "sk_new mem f = Some s \<Longrightarrow> sk_reachable qsort call_cmp s"
| reach_step: "sk_reachable qsort call_cmp s \<Longrightarrow> sk_step qsort call_cmp s s' \<Longrightarrow> sk_reachable qsort call_cmp s'"

lemma flag_ok_unsorted: "\<not> st_sorted s \<Longrightarrow> flag_ok call_cmp s"
  by (simp add: flag_ok_def)

lemma sk_new_inv: "sk_new mem f = Some s \<Longrightarrow> sk_inv call_cmp s"
  by (auto simp: sk_new_def sk_inv_def stack_ok_def kMinSize_def intro: flag_ok_unsorted split: option.splits)

lemma sk_insert_inv:
  assumes inv: "sk_inv call_cmp s" and i: "sk_insert mem (Some s) p pos = (n, Some s')"
  shows "sk_inv call_cmp s'"
proof (cases "n = 0")
  case True
  with i sk_insert_fails [of "Some s"] inv show ?thesis by (auto simp: sk_ok_def sk_inv_def)
next
  case False
  with sk_insert_done [OF _ i] inv have "stack_ok s'" by (auto simp: sk_ok_def sk_inv_def)
  moreover have "\<not> st_sorted s'" using i False by (auto simp: sk_insert_def Let_def split: option.splits)
  ultimately show ?thesis by (simp add: sk_inv_def flag_ok_unsorted)
qed

lemma sk_delete_inv:
  assumes inv: "sk_inv call_cmp s" and d: "sk_delete (Some s) pos = (x, Some s')"
  shows "sk_inv call_cmp s'"
proof (cases "pos < st_num s")
  case False
  with d inv show ?thesis by (simp add: sk_delete_def)
next
  case True
  then have "pos < length (sk_elems (Some s))" using inv by (simp add: sk_elems_def st_elems_def sk_inv_def stack_ok_def)
  from sk_delete_done [OF _ this d] inv have "stack_ok s'" "st_elems s' = take pos (st_elems s) @ drop (Suc pos) (st_elems s)"
    by (auto simp: sk_ok_def sk_elems_def sk_inv_def)
  moreover have "st_sorted s' = st_sorted s" "st_comp s' = st_comp s" using d True by (auto simp: sk_delete_def Let_def)
  ultimately show ?thesis using inv ascending_delete by (fastforce simp: sk_inv_def flag_ok_def)
qed

lemma sk_sort_result:
  assumes q: "qsort_ok qsort" and c: "cmp_order (call_cmp f)" and inv: "sk_inv call_cmp s" and f: "st_comp s = Some f"
    and s: "sk_sort qsort call_cmp (Some s) = Some s'"
  shows "stack_ok s' \<and> st_sorted s' \<and> st_comp s' = Some f \<and> mset (st_elems s') = mset (st_elems s) \<and>
    ascending (call_cmp f) (st_elems s')"
proof (cases "st_sorted s \<or> st_num s < 2")
  case True
  moreover have "ascending (call_cmp f) (st_elems s)" if "st_num s < 2"
  proof -
    have "length (st_elems s) < 2" using that by (simp add: st_elems_def)
    then show ?thesis by (cases "st_elems s"; cases "tl (st_elems s)") (auto simp: ascending_def)
  qed
  ultimately show ?thesis using s f inv
    by (auto simp: sk_sort_def sk_inv_def flag_ok_def stack_ok_def st_elems_def Let_def split: if_splits)
next
  case False
  define ys where "ys = qsort (call_cmp f) (st_elems s)"
  have ys: "mset ys = mset (st_elems s)" "ascending (call_cmp f) ys" using q c by (simp_all add: qsort_ok_def ys_def)
  from ys(1) have len: "length ys = st_num s" using inv mset_eq_length [of ys "st_elems s"] by (simp add: st_elems_def sk_inv_def stack_ok_def)
  have "s' = s\<lparr>st_data := ys @ drop (st_num s) (st_data s), st_sorted := True\<rparr>"
    using s f False by (auto simp: sk_sort_def ys_def st_elems_def Let_def)
  with ys len inv f show ?thesis by (simp add: sk_inv_def stack_ok_def st_elems_def)
qed

lemma sk_dup_inv: "sk_dup mem (Some s) = Some s' \<Longrightarrow> sk_inv call_cmp s \<Longrightarrow>
    sk_inv call_cmp s' \<and> st_elems s' = st_elems s \<and> st_sorted s' = st_sorted s \<and> st_comp s' = st_comp s"
  by (auto simp: sk_dup_def sk_inv_def stack_ok_def flag_ok_def st_elems_def split: option.splits)

lemma deep_copy_loop_copied:
  "deep_copy_loop copy ys xs = (Some arr, freed) \<Longrightarrow> \<exists>zs. arr = ys @ zs \<and> list_all2 (copied copy) xs zs"
proof (induction copy ys xs rule: deep_copy_loop.induct)
  case (2 copy ys xs)
  then obtain zs where "arr = (ys @ [None]) @ zs" "list_all2 (copied copy) xs zs" by auto
  then show ?case by (intro exI [of _ "None # zs"]) (simp add: copied_def [of copy None])
next
  case (3 copy ys p xs)
  then obtain q where q: "copy p = Some q" by (auto split: option.splits)
  with 3 obtain zs where "arr = (ys @ [Some q]) @ zs" "list_all2 (copied copy) xs zs" by auto
  then show ?case using q by (intro exI [of _ "Some q # zs"]) (simp add: copied_def [of copy "Some p"])
qed simp

lemma copied_ascending:
  assumes "copies_alike call_cmp copy" and l: "list_all2 (copied copy) xs zs" and a: "ascending (call_cmp f) xs"
  shows "ascending (call_cmp f) zs"
  unfolding ascending_def sorted_wrt_iff_nth_less
proof (intro allI impI)
  fix i j assume ij: "i < j" "j < length zs"
  then have "i < length xs" "j < length xs" using list_all2_lengthD [OF l] by simp_all
  then have "copied copy (xs ! i) (zs ! i)" "copied copy (xs ! j) (zs ! j)" using l by (simp_all add: list_all2_nthD)
  then have "call_cmp f (zs ! i) (zs ! j) = call_cmp f (xs ! i) (xs ! j)" using assms(1) unfolding copies_alike_def by blast
  moreover have "call_cmp f (xs ! i) (xs ! j) \<le> 0" using a ij \<open>j < length xs\<close> by (simp add: ascending_def sorted_wrt_iff_nth_less)
  ultimately show "call_cmp f (zs ! i) (zs ! j) \<le> 0" by simp
qed

lemma sk_deep_copy_inv:
  assumes c: "copies_alike call_cmp copy" and d: "sk_deep_copy mem (Some s) copy = (Some s', freed)" and inv: "sk_inv call_cmp s"
  shows "sk_inv call_cmp s'"
proof -
  obtain t where t: "sk_dup mem (Some s) = Some t" using d by (auto simp: sk_deep_copy_def split: option.splits)
  note ti = sk_dup_inv [OF t inv]
  obtain arr fr where l: "deep_copy_loop copy [] (st_elems t) = (Some arr, fr)" "s' = t\<lparr>st_data := arr @ drop (st_num t) (st_data t)\<rparr>"
    using d t by (auto simp: sk_deep_copy_def st_elems_def split: prod.splits option.splits)
  have cp: "list_all2 (copied copy) (st_elems t) arr" using deep_copy_loop_copied [OF l(1)] by simp
  have len: "length arr = st_num t" using list_all2_lengthD [OF cp] ti by (simp add: sk_inv_def stack_ok_def st_elems_def)
  then have e: "st_elems s' = arr" by (simp add: l(2) st_elems_def)
  have "flag_ok call_cmp s'" using ti copied_ascending [OF c cp] e unfolding sk_inv_def flag_ok_def by (simp add: l(2)) metis
  then show ?thesis using ti len by (simp add: sk_inv_def stack_ok_def l(2))
qed

lemma sk_set_inv: "\<not> st_sorted s \<Longrightarrow> sk_set (Some s) i v = (r, Some s') \<Longrightarrow> sk_inv call_cmp s \<Longrightarrow> sk_inv call_cmp s'"
  by (auto simp: sk_set_def sk_inv_def stack_ok_def intro: flag_ok_unsorted split: if_splits)

lemma sk_step_inv:
  assumes q: "qsort_ok qsort" and c: "\<And>f. cmp_order (call_cmp f)"
  shows "sk_step qsort call_cmp s s' \<Longrightarrow> sk_inv call_cmp s \<Longrightarrow> sk_inv call_cmp s'"
proof (induction rule: sk_step.induct)
  case (step_zero s s')
  then show ?case by (auto simp: sk_zero_def sk_inv_def stack_ok_def intro: flag_ok_unsorted split: if_splits)
next
  case (step_sort s s')
  show ?case
  proof (cases "st_comp s")
    case None
    with step_sort show ?thesis by (simp add: sk_sort_def)
  next
    case (Some f)
    with sk_sort_result [OF q c step_sort(2) Some step_sort(1)] show ?thesis by (auto simp: sk_inv_def flag_ok_def)
  qed
next
  case (step_set_cmp s f old s')
  then show ?case by (auto simp: sk_set_cmp_func_def sk_inv_def stack_ok_def flag_ok_def st_elems_def Let_def)
next
  case (step_dup mem s s')
  then show ?case using sk_dup_inv by blast
qed (rule sk_insert_inv sk_delete_inv sk_set_inv sk_deep_copy_inv; assumption)+

lemma sk_find_linear:
  assumes inv: "sk_inv call_cmp s" and c: "\<And>f. cmp_order (call_cmp f)" and f: "st_comp s = Some f" and p: "p \<noteq> None"
  shows "first_match (call_cmp f p) (st_elems s) 0 (length (st_elems s)) (sk_find call_cmp (Some s) p)"
proof (cases "st_sorted s")
  case False
  with f p linear_first_match show ?thesis by (auto simp: sk_find_def sk_is_sorted_def st_elems_def [symmetric])
next
  case True
  with inv f have a: "ascending (call_cmp f) (st_elems s)" by (auto simp: sk_inv_def flag_ok_def)
  have n: "length (st_elems s) = st_num s" "\<And>j. j < st_num s \<Longrightarrow> st_data s ! j = st_elems s ! j"
    using inv by (simp_all add: sk_inv_def stack_ok_def st_elems_def)
  note signs = ascending_signs [OF c a, of p, unfolded n(1) signs_descend_def, rule_format]
  have "signs_descend (call_cmp f p) (st_data s) (st_num s)" unfolding signs_descend_def
  proof (intro allI impI)
    fix i j assume ij: "i < j \<and> j < st_num s"
    then have "st_data s ! i = st_elems s ! i" "st_data s ! j = st_elems s ! j" by (simp_all add: n(2))
    with signs [OF ij] show "(call_cmp f p (st_data s ! j) > 0 \<longrightarrow> call_cmp f p (st_data s ! i) > 0) \<and>
        (call_cmp f p (st_data s ! i) < 0 \<longrightarrow> call_cmp f p (st_data s ! j) < 0)" by simp
  qed
  from find_sorted_first_match [OF this le_refl] have "first_match (call_cmp f p) (st_data s) 0 (st_num s) (sk_find call_cmp (Some s) p)"
    using True f p by (auto simp: sk_find_def sk_is_sorted_def)
  then show ?thesis using n by (auto simp: first_match_def split: option.splits)
qed

section \<open>Searching past an element out of order\<close>

lemma find_sorted_None: "(\<forall>j. lo \<le> j \<and> j < hi \<longrightarrow> r (xs ! j) \<noteq> 0) \<Longrightarrow> find_sorted r xs lo hi = None"
proof (induction r xs lo hi rule: find_sorted.induct)
  case (1 r xs lo hi)
  define mid where "mid = lo + (hi - lo - 1) div 2"
  define c where "c = r (xs ! mid)"
  show ?case
  proof (cases "lo < hi")
    case True
    note IH = "1.IH" [OF True mid_def c_def]
    have mid: "lo \<le> mid" "mid < hi" using True by (auto simp: mid_def)
    then have c: "c \<noteq> 0" using "1.prems" by (simp add: c_def)
    have run: "find_sorted r xs lo hi = (if c > 0 then find_sorted r xs (mid + 1) hi else if c < 0 then find_sorted r xs lo mid
        else if hi - lo = 1 then Some mid else find_sorted r xs lo (mid + 1))"
      by (subst find_sorted.simps) (simp only: True if_True Let_def mid_def c_def)
    show ?thesis
    proof (cases "c > 0")
      case True
      then show ?thesis using IH(1) "1.prems" mid unfolding run by simp
    next
      case False
      then have "c < 0" using c by simp
      then show ?thesis using IH(2) False "1.prems" mid unfolding run by simp
    qed
  qed (simp add: find_sorted.simps)
qed

text \<open>An element in the middle that is greater than the key sends the search to the left.\<close>

lemma find_sorted_left:
  assumes "0 < n" "r (xs ! ((n - 1) div 2)) < 0" and "\<forall>x \<in> set (take ((n - 1) div 2) xs). r x \<noteq> 0" "n \<le> length xs"
  shows "find_sorted r xs 0 n = None"
proof -
  have "find_sorted r xs 0 n = find_sorted r xs 0 ((n - 1) div 2)" using assms(1,2) by (subst find_sorted.simps) simp
  also have "\<dots> = None"
  proof (rule find_sorted_None, intro allI impI)
    fix j assume j: "0 \<le> j \<and> j < (n - 1) div 2"
    then have "j < length xs" using assms(4) by linarith
    then have "xs ! j \<in> set (take ((n - 1) div 2) xs)" using j by (auto simp: in_set_conv_nth intro!: exI [of _ j])
    then show "r (xs ! j) \<noteq> 0" using assms(3) by blast
  qed
  finally show ?thesis .
qed

end
