(* ===== verification/Stack_Props.thy ===== *)
theory Stack_Props
  imports Stack_Sort "HOL-Library.Code_Target_Nat"
begin

text \<open>
  What users of the stack rely on, and the one operation that breaks the promise of the \<open>sorted\<close> flag.
\<close>

section \<open>A concrete order and sorting function\<close>

fun insert_by :: "('a \<Rightarrow> 'a \<Rightarrow> int) \<Rightarrow> 'a \<Rightarrow> 'a list \<Rightarrow> 'a list" where
  "insert_by c x [] = [x]"
| "insert_by c x (y # ys) = (if c x y \<le> 0 then x # y # ys else y # insert_by c x ys)"

definition insertion_qsort :: "('a \<Rightarrow> 'a \<Rightarrow> int) \<Rightarrow> 'a list \<Rightarrow> 'a list" where
  "insertion_qsort c xs = foldr (insert_by c) xs []"

lemma mset_insert_by: "mset (insert_by c x xs) = add_mset x (mset xs)"
  by (induction xs) auto

lemma ascending_insert_by: "cmp_order c \<Longrightarrow> ascending c xs \<Longrightarrow> ascending c (insert_by c x xs)"
proof (induction xs)
  case (Cons y ys)
  have set: "set (insert_by c x ys) = insert x (set ys)" using mset_insert_by [of c x ys] by (metis set_mset_add_mset_insert set_mset_mset)
  show ?case
  proof (cases "c x y \<le> 0")
    case True
    with Cons.prems show ?thesis by (auto simp: ascending_def cmp_order_def)
  next
    case False
    then have "c y x \<le> 0" using Cons.prems(1) by (simp add: cmp_order_def not_le) (meson less_imp_le)
    with False Cons set show ?thesis by (auto simp: ascending_def)
  qed
qed (simp add: ascending_def)

lemma insertion_qsort_ok: "qsort_ok insertion_qsort"
proof -
  have "mset (foldr (insert_by c) xs []) = mset xs" for c :: "'a \<Rightarrow> 'a \<Rightarrow> int" and xs
    by (induction xs) (simp_all add: mset_insert_by)
  moreover have "ascending c (foldr (insert_by c) xs [])" if "cmp_order c" for c :: "'a \<Rightarrow> 'a \<Rightarrow> int" and xs
    by (induction xs) (simp_all add: ascending_insert_by that ascending_def [of c "[]"])
  ultimately show ?thesis by (simp add: qsort_ok_def insertion_qsort_def)
qed

text \<open>Pointers to numbers, \<open>NULL\<close> first, compared in ascending or in descending order.\<close>

fun num_of :: "int option \<Rightarrow> int" where
  "num_of None = - 1"
| "num_of (Some n) = n"

definition num_cmp :: "bool \<Rightarrow> int option \<Rightarrow> int option \<Rightarrow> int" where
  "num_cmp up a b = (if up then num_of a - num_of b else num_of b - num_of a)"

lemma num_cmp_order: "cmp_order (num_cmp up)"
  by (auto simp: cmp_order_def num_cmp_def)

definition demo_empty :: "(int, bool) STACK" where
  "demo_empty = the (sk_new generous (Some True))"

definition demo_pushed :: "(int, bool) STACK" where
  "demo_pushed = the (snd (sk_push generous (the (snd (sk_push generous demo_empty (Some 2)))) (Some 1)))"

definition demo_sorted :: "(int, bool) STACK" where
  "demo_sorted = the (sk_sort insertion_qsort num_cmp (Some demo_pushed))"

lemma generous_malloc: "n < 1000 \<Longrightarrow> \<exists>p. OPENSSL_malloc generous n = Some p"
  by (intro OPENSSL_malloc_granted) (simp_all add: generous_def)

lemma demo_empty: "sk_new generous (Some True) = Some demo_empty"
  using generous_malloc [of sizeof_STACK] generous_malloc [of "sizeof_ptr * kMinSize"]
  by (auto simp: demo_empty_def sk_new_def sizeof_STACK_def kMinSize_def)

lemma insert_Some: "\<exists>n s'. sk_insert mem (Some s) p pos = (n, Some s')"
  by (auto simp: sk_insert_def Let_def split: option.splits)

lemma push_reachable:
  assumes "sk_reachable qsort call_cmp s"
  shows "sk_reachable qsort call_cmp (the (snd (sk_push mem s p)))"
proof -
  obtain n s' where "sk_insert mem (Some s) p (st_num s) = (n, Some s')" using insert_Some by blast
  with reach_step [OF assms step_insert [OF this]] show ?thesis by (simp add: sk_push_def)
qed

lemma sort_reachable:
  assumes "sk_reachable qsort call_cmp s"
  shows "sk_reachable qsort call_cmp (the (sk_sort qsort call_cmp (Some s)))"
proof -
  have "sk_sort qsort call_cmp (Some s) \<noteq> None" by (simp add: sk_sort_def Let_def split: option.split)
  then obtain s' where "sk_sort qsort call_cmp (Some s) = Some s'" by blast
  with reach_step [OF assms step_sort [OF this]] show ?thesis by simp
qed

lemma demo_reachable:
  "sk_reachable insertion_qsort num_cmp demo_pushed" "sk_reachable insertion_qsort num_cmp demo_sorted"
  unfolding demo_sorted_def demo_pushed_def
  by (intro sort_reachable push_reachable reach_new [OF demo_empty])+

lemma reachable_inv:
  assumes "sk_reachable qsort call_cmp s" and "qsort_ok qsort" and "\<And>f. cmp_order (call_cmp f)"
  shows "sk_inv call_cmp s"
  using assms(1) by induction (auto intro: sk_new_inv sk_step_inv [OF assms(2,3)])

lemma demo_pushed_comp: "st_comp demo_pushed = Some True"
  by code_simp

lemma demo_sorted_comp: "st_comp demo_sorted = Some True"
  by code_simp

text \<open>Shifting and popping are deletions at the two ends.\<close>

lemma shift_is_delete:
  "sk_ok sk \<Longrightarrow> n \<le> length (sk_elems sk) \<Longrightarrow> take_all sk_shift n sk = take_all (\<lambda>sk. sk_delete sk 0) n sk"
proof (induction n arbitrary: sk)
  case (Suc n)
  obtain s where s: "sk = Some s" "stack_ok s" using Suc.prems(1) by (auto simp: sk_ok_def)
  have ne: "st_num s \<noteq> 0" using Suc.prems(2) s by (auto simp: sk_elems_def st_elems_def)
  obtain x sk1 where d: "sk_delete sk 0 = (x, sk1)" by fastforce
  have "0 < length (sk_elems sk)" using Suc.prems(2) by linarith
  from sk_delete_done [OF Suc.prems(1) this d] Suc.prems(2) have "sk_ok sk1" "n \<le> length (sk_elems sk1)" by auto
  with Suc.IH d s ne show ?case by (simp add: sk_shift_def)
qed simp

lemma pop_is_delete:
  "sk_ok sk \<Longrightarrow> n \<le> length (sk_elems sk) \<Longrightarrow> take_all sk_pop n sk = take_all (\<lambda>sk. sk_delete sk (length (sk_elems sk) - 1)) n sk"
proof (induction n arbitrary: sk)
  case (Suc n)
  obtain s where s: "sk = Some s" "stack_ok s" using Suc.prems(1) by (auto simp: sk_ok_def)
  have num: "length (sk_elems sk) = st_num s" using s by (simp add: sk_elems_def st_elems_def stack_ok_def)
  then have ne: "st_num s \<noteq> 0" using Suc.prems(2) by linarith
  obtain x sk1 where d: "sk_delete sk (length (sk_elems sk) - 1) = (x, sk1)" by fastforce
  have "length (sk_elems sk) - 1 < length (sk_elems sk)" using num ne by simp
  from sk_delete_done [OF Suc.prems(1) this d] Suc.prems(2) have "sk_ok sk1" "n \<le> length (sk_elems sk1)" by auto
  with Suc.IH d s ne num show ?case by (simp add: sk_pop_def)
qed simp

section \<open>Properties\<close>

text \<open>C25: In every stack reachable by creating, inserting, deleting, clearing, sorting, changing the comparison, duplicating, copying with a
  function whose copies compare like the originals, and setting an element while the sorted flag is not set, with allocations failing at any point, \<open>sk_find\<close> gives the first element equal to the key; the binary
  search of a sorted stack gives exactly what the linear search gives.\<close>

theorem stack_find_first:
  assumes "sk_reachable qsort call_cmp s" and "qsort_ok qsort" and "\<forall>f. cmp_order (call_cmp f)"
    and "st_comp s = Some f" and "p \<noteq> None"
  shows "sk_find call_cmp (Some s) p = cmp_index (call_cmp f p) (st_elems s) 0"
proof -
  have "sk_inv call_cmp s" using reachable_inv [OF assms(1,2)] assms(3) by blast
  from sk_find_linear [OF this _ assms(4,5)] assms(3) linear_first_match [of "call_cmp f p" "st_elems s"]
  show ?thesis by (metis first_match_unique)
qed

theorem stack_find_first_witness:
  "sk_find num_cmp (Some demo_sorted) (Some 2) = cmp_index (num_cmp True (Some 2)) (st_elems demo_sorted) 0"
  by (rule stack_find_first [OF demo_reachable(2) insertion_qsort_ok _ demo_sorted_comp]) (simp_all add: num_cmp_order)

text \<open>C26: Every such stack has a free slot, a block of the recorded size, and elements in ascending order whenever the
  flag says so.\<close>

theorem stack_invariant:
  assumes "sk_reachable qsort call_cmp s" and "qsort_ok qsort" and "\<forall>f. cmp_order (call_cmp f)"
  shows "st_num s < st_num_alloc s \<and> length (st_data s) = st_num_alloc s \<and>
    (st_sorted s \<longrightarrow> (\<exists>f. st_comp s = Some f \<and> ascending (call_cmp f) (st_elems s)))"
  using reachable_inv [OF assms(1,2)] assms(3) by (simp add: sk_inv_def stack_ok_def flag_ok_def)

theorem stack_invariant_witness:
  "st_num demo_sorted < st_num_alloc demo_sorted \<and> length (st_data demo_sorted) = st_num_alloc demo_sorted \<and>
    (\<exists>f. st_comp demo_sorted = Some f \<and> ascending (num_cmp f) (st_elems demo_sorted))"
proof -
  have "st_sorted demo_sorted" by code_simp
  moreover have "\<forall>f. cmp_order (num_cmp f)" by (simp add: num_cmp_order)
  ultimately show ?thesis using stack_invariant [OF demo_reachable(2) insertion_qsort_ok] by blast
qed

text \<open>The stack implements a list: elements pushed one after the other come back in the same order from \<open>sk_shift\<close> and
  in the opposite order from \<open>sk_pop\<close>.\<close>

lemma stack_order:
  assumes "sk_ok sk" and "sk_elems sk = []" and "push_all (sk_insert mem) sk_elems sk xs = Some sk'"
  shows "fst (take_all sk_shift (length xs) sk') = xs \<and> fst (take_all sk_pop (length xs) sk') = rev xs"
proof -
  from stack.push_all_elems [OF assms(1,3)] assms(2) have sk': "sk_ok sk'" "sk_elems sk' = xs" by simp_all
  obtain ys s1 where f: "take_all (\<lambda>sk. sk_delete sk 0) (length xs) sk' = (ys, s1)" by fastforce
  obtain zs s2 where b: "take_all (\<lambda>sk. sk_delete sk (length (sk_elems sk) - 1)) (length xs) sk' = (zs, s2)" by fastforce
  from stack.take_front [OF sk'(1) _ f] stack.take_back [OF sk'(1) _ b] sk'(2) have "ys = xs" "zs = rev xs" by simp_all
  with f b shift_is_delete [OF sk'(1)] pop_is_delete [OF sk'(1)] sk'(2) show ?thesis by simp
qed

text \<open>C35: \<open>sk_set\<close> keeps the sorted flag and not the order, and then \<open>sk_find\<close> misses elements that are there. In a stack that has been
  sorted, let an element greater than the key \<open>p\<close> be stored in the middle. The stack still calls itself sorted; every \<open>p\<close> that stood
  behind the middle, and equals none before it, was found before, is still in the array, the linear search would find it, and \<open>sk_find\<close>
  does not.\<close>

theorem sk_set_hides_elements:
  assumes "sk_reachable qsort call_cmp s" and "qsort_ok qsort" and "\<forall>f. cmp_order (call_cmp f)" and "st_sorted s" and "st_comp s = Some f"
    and "p \<noteq> None" and "p \<in> set (drop ((st_num s - 1) div 2 + 1) (st_elems s))"
    and "\<forall>x \<in> set (take ((st_num s - 1) div 2) (st_elems s)). call_cmp f p x \<noteq> 0" and "call_cmp f p v < 0"
  shows "sk_find call_cmp (Some s) p \<noteq> None \<and>
    (case sk_set (Some s) ((st_num s - 1) div 2) v of
       (r, None) \<Rightarrow> False
     | (r, Some s') \<Rightarrow> sk_is_sorted (Some s') \<and> p \<in> set (st_elems s') \<and> cmp_index (call_cmp f p) (st_elems s') 0 \<noteq> None \<and>
         sk_find call_cmp (Some s') p = None)"
proof -
  define m where "m = (st_num s - 1) div 2"
  have inv: "sk_inv call_cmp s" using reachable_inv [OF assms(1,2)] assms(3) by blast
  then have len: "length (st_elems s) = st_num s" "st_num s \<le> length (st_data s)" by (simp_all add: sk_inv_def stack_ok_def st_elems_def)
  have refl: "call_cmp f p p = 0"
  proof -
    have "call_cmp f p p < 0 \<longleftrightarrow> call_cmp f p p > 0" using assms(3) unfolding cmp_order_def by blast
    then show ?thesis by linarith
  qed
  have found: "cmp_index (call_cmp f p) xs 0 \<noteq> None" if "p \<in> set xs" for xs
  proof
    assume "cmp_index (call_cmp f p) xs 0 = None"
    then have "\<forall>j < length xs. call_cmp f p (xs ! j) \<noteq> 0" using linear_first_match [of "call_cmp f p" xs] by (simp add: first_match_def)
    then show False using that refl by (auto simp: in_set_conv_nth)
  qed
  have p: "p \<in> set (drop (m + 1) (st_elems s))" using assms(7) by (simp add: m_def)
  then have n: "m < st_num s" using len by (cases "m < st_num s") simp_all
  define s' where "s' = s\<lparr>st_data := (st_data s)[m := v]\<rparr>"
  have set: "sk_set (Some s) m v = (v, Some s')" using n by (simp add: sk_set_def s'_def)
  have e: "st_elems s' = (st_elems s)[m := v]" by (simp add: s'_def st_elems_def take_update_swap)
  have "drop (m + 1) (st_elems s') = drop (m + 1) (st_elems s)" by (simp add: e)
  then have in': "p \<in> set (st_elems s')" using p by (metis in_set_dropD)
  have pre: "p \<in> set (st_elems s)" using p by (rule in_set_dropD)
  have "take m (st_data s') = take m (st_elems s)" using n by (simp add: s'_def st_elems_def min_def)
  moreover have length_st: "length (st_data s') = length (st_data s)" by (simp add: s'_def)
  moreover have "st_data s' ! m = v" using n len(2) by (simp add: s'_def)
  ultimately have "find_sorted (call_cmp f p) (st_data s') 0 (st_num s) = None"
    using assms(8) [folded m_def] assms(9) n len(2)
    by (intro find_sorted_left [where n = "st_num s" and xs = "st_data s'", folded m_def]) simp_all
  then have "sk_find call_cmp (Some s') p = None" using assms(4-6) by (auto simp: sk_find_def sk_is_sorted_def s'_def)
  moreover have "sk_find call_cmp (Some s) p \<noteq> None"
    using sk_find_linear [OF inv _ assms(5,6)] assms(3) linear_first_match [of "call_cmp f p" "st_elems s"] found [OF pre]
    by (metis first_match_unique)
  moreover have "sk_is_sorted (Some s')" using assms(4) by (simp add: sk_is_sorted_def s'_def)
  ultimately show ?thesis using in' found [OF in'] unfolding m_def [symmetric] set by simp
qed

theorem sk_set_hides_elements_witness:
  "case sk_set (Some demo_sorted) 0 (Some 3) of
     (r, None) \<Rightarrow> False
   | (r, Some s') \<Rightarrow> sk_is_sorted (Some s') \<and> Some 2 \<in> set (st_elems s') \<and> sk_find num_cmp (Some s') (Some 2) = None"
proof -
  have srt: "st_sorted demo_sorted" by code_simp
  have n: "(st_num demo_sorted - 1) div 2 = 0" by code_simp
  have e: "st_elems demo_sorted = [Some 1, Some 2]" by code_simp
  have o: "\<forall>f. cmp_order (num_cmp f)" by (simp add: num_cmp_order)
  have "Some 2 \<in> set (drop ((st_num demo_sorted - 1) div 2 + 1) (st_elems demo_sorted))"
    "\<forall>x \<in> set (take ((st_num demo_sorted - 1) div 2) (st_elems demo_sorted)). num_cmp True (Some 2) x \<noteq> 0" "num_cmp True (Some 2) (Some 3) < 0"
    unfolding n e by (simp_all add: num_cmp_def)
  from sk_set_hides_elements [OF demo_reachable(2) insertion_qsort_ok o srt demo_sorted_comp _ this] show ?thesis
    unfolding n by (auto split: prod.splits option.splits)
qed

end
