(* ===== verification/LHash.thy ===== *)
theory LHash
  imports Mem
begin

text \<open>
  The hash table of \<^verbatim>\<open>crypto/lhash/lhash.c\<close>. A chain is the list of its items; a pointer to a \<open>next\<close> field is a bucket
  number and a position in its chain, the position at the end standing for the terminating \<open>NULL\<close>. The callbacks \<open>hash\<close>
  and \<open>comp\<close> are functions in the record.
\<close>

section \<open>Operations\<close>

definition kMinNumBuckets :: nat where
  "kMinNumBuckets = 16"

definition kMaxAverageChainLength :: nat where
  "kMaxAverageChainLength = 2"

definition kMinAverageChainLength :: nat where
  "kMinAverageChainLength = 1"

abbreviation UINT_MAX :: nat where
  "UINT_MAX \<equiv> 4294967295"

record 'd LHASH_ITEM =
  it_data :: 'd
  it_hash :: u32

record 'd LHASH =
  num_items :: nat
  buckets :: "'d LHASH_ITEM list list"
  num_buckets :: nat
  callback_depth :: nat
  lh_comp :: "'d \<Rightarrow> 'd \<Rightarrow> int"
  lh_hash :: "'d \<Rightarrow> u32"

definition sizeof_LHASH :: nat where
  "sizeof_LHASH = 48"

definition sizeof_LHASH_ITEM :: nat where
  "sizeof_LHASH_ITEM = 24"

definition OPENSSL_lh_new :: "allocator \<Rightarrow> ('d \<Rightarrow> u32) \<Rightarrow> ('d \<Rightarrow> 'd \<Rightarrow> int) \<Rightarrow> 'd LHASH option" where
  "OPENSSL_lh_new mem hash cmp = (case OPENSSL_malloc mem sizeof_LHASH of
      None \<Rightarrow> None
    | Some _ \<Rightarrow>
        (case OPENSSL_malloc mem (8 * kMinNumBuckets) of
           None \<Rightarrow> None
         | Some _ \<Rightarrow> Some \<lparr>num_items = 0, buckets = replicate kMinNumBuckets [], num_buckets = kMinNumBuckets,
             callback_depth = 0, lh_comp = cmp, lh_hash = hash\<rparr>))"

definition OPENSSL_lh_num_items :: "'d LHASH \<Rightarrow> nat" where
  "OPENSSL_lh_num_items lh = num_items lh"

fun chain_pos :: "('d \<Rightarrow> bool) \<Rightarrow> 'd LHASH_ITEM list \<Rightarrow> nat" where
  "chain_pos eq [] = 0"
| "chain_pos eq (cur # chain) = (if eq (it_data cur) then 0 else Suc (chain_pos eq chain))"

text \<open>The hash and the place of the item equal to \<open>data\<close>, or of the end of its chain.\<close>

definition get_next_ptr_and_hash :: "'d LHASH \<Rightarrow> 'd \<Rightarrow> u32 \<times> nat \<times> nat" where
  "get_next_ptr_and_hash lh data =
     (let hash = lh_hash lh data;
          b = unat hash mod num_buckets lh
      in (hash, b, chain_pos (\<lambda>d. lh_comp lh d data = 0) (buckets lh ! b)))"

definition get_next_ptr_by_key :: "'d LHASH \<Rightarrow> 'k \<Rightarrow> u32 \<Rightarrow> ('k \<Rightarrow> 'd \<Rightarrow> int) \<Rightarrow> nat \<times> nat" where
  "get_next_ptr_by_key lh key key_hash cmp_key =
     (let b = unat key_hash mod num_buckets lh
      in (b, chain_pos (\<lambda>d. cmp_key key d = 0) (buckets lh ! b)))"

text \<open>\<open>*next_ptr\<close>.\<close>

definition item_at :: "'d LHASH \<Rightarrow> nat \<times> nat \<Rightarrow> 'd LHASH_ITEM option" where
  "item_at lh ptr = (case ptr of (b, i) \<Rightarrow> if i < length (buckets lh ! b) then Some (buckets lh ! b ! i) else None)"

definition OPENSSL_lh_retrieve :: "'d LHASH \<Rightarrow> 'd \<Rightarrow> 'd option" where
  "OPENSSL_lh_retrieve lh data = (case get_next_ptr_and_hash lh data of
      (_, next_ptr) \<Rightarrow> map_option it_data (item_at lh next_ptr))"

definition OPENSSL_lh_retrieve_key :: "'d LHASH \<Rightarrow> 'k \<Rightarrow> u32 \<Rightarrow> ('k \<Rightarrow> 'd \<Rightarrow> int) \<Rightarrow> 'd option" where
  "OPENSSL_lh_retrieve_key lh key key_hash cmp_key = map_option it_data (item_at lh (get_next_ptr_by_key lh key key_hash cmp_key))"

fun rebucket_chain :: "nat \<Rightarrow> 'd LHASH_ITEM list list \<Rightarrow> 'd LHASH_ITEM list \<Rightarrow> 'd LHASH_ITEM list list" where
  "rebucket_chain n new_buckets [] = new_buckets"
| "rebucket_chain n new_buckets (cur # chain) =
     (let new_bucket = unat (it_hash cur) mod n
      in rebucket_chain n (new_buckets[new_bucket := cur # new_buckets ! new_bucket]) chain)"

fun rebucket_all :: "nat \<Rightarrow> 'd LHASH_ITEM list list \<Rightarrow> 'd LHASH_ITEM list list \<Rightarrow> 'd LHASH_ITEM list list" where
  "rebucket_all n new_buckets [] = new_buckets"
| "rebucket_all n new_buckets (chain # old) = rebucket_all n (rebucket_chain n new_buckets chain) old"

definition lh_rebucket :: "allocator \<Rightarrow> 'd LHASH \<Rightarrow> nat \<Rightarrow> 'd LHASH" where
  "lh_rebucket mem lh new_num_buckets =
     (let alloc_size = 8 * new_num_buckets mod SIZE_MOD
      in if alloc_size div 8 \<noteq> new_num_buckets then lh
         else case OPENSSL_malloc mem alloc_size of
             None \<Rightarrow> lh
           | Some _ \<Rightarrow> lh\<lparr>num_buckets := new_num_buckets,
               buckets := rebucket_all new_num_buckets (replicate new_num_buckets []) (buckets lh)\<rparr>)"

definition lh_maybe_resize :: "allocator \<Rightarrow> 'd LHASH \<Rightarrow> 'd LHASH" where
  "lh_maybe_resize mem lh =
     (if callback_depth lh > 0 then lh
      else let avg_chain_length = num_items lh div num_buckets lh
           in if avg_chain_length > kMaxAverageChainLength then
                let new_num_buckets = num_buckets lh * 2 mod SIZE_MOD
                in if new_num_buckets > num_buckets lh then lh_rebucket mem lh new_num_buckets else lh
              else if avg_chain_length < kMinAverageChainLength \<and> num_buckets lh > kMinNumBuckets then
                let new_num_buckets = num_buckets lh div 2;
                    new_num_buckets = (if new_num_buckets < kMinNumBuckets then kMinNumBuckets else new_num_buckets)
                in lh_rebucket mem lh new_num_buckets
              else lh)"

text \<open>\<open>OPENSSL_lh_insert\<close> gives the value returned, \<open>*old_data\<close> and the table.\<close>

definition OPENSSL_lh_insert :: "allocator \<Rightarrow> 'd LHASH \<Rightarrow> 'd \<Rightarrow> bool \<times> 'd option \<times> 'd LHASH" where
  "OPENSSL_lh_insert mem lh data = (case get_next_ptr_and_hash lh data of
      (hash, b, i) \<Rightarrow>
        (case item_at lh (b, i) of
           Some item \<Rightarrow>
             (True, Some (it_data item),
              lh\<lparr>buckets := (buckets lh)[b := (buckets lh ! b)[i := item\<lparr>it_data := data\<rparr>]]\<rparr>)
         | None \<Rightarrow>
             (case OPENSSL_malloc mem sizeof_LHASH_ITEM of
                None \<Rightarrow> (False, None, lh)
              | Some _ \<Rightarrow>
                  let item = \<lparr>it_data = data, it_hash = hash\<rparr>;
                      lh = lh\<lparr>buckets := (buckets lh)[b := buckets lh ! b @ [item]], num_items := (num_items lh + 1) mod SIZE_MOD\<rparr>
                  in (True, None, lh_maybe_resize mem lh))))"

definition OPENSSL_lh_delete :: "allocator \<Rightarrow> 'd LHASH \<Rightarrow> 'd \<Rightarrow> 'd option \<times> 'd LHASH" where
  "OPENSSL_lh_delete mem lh data = (case get_next_ptr_and_hash lh data of
      (_, b, i) \<Rightarrow>
        (case item_at lh (b, i) of
           None \<Rightarrow> (None, lh)
         | Some item \<Rightarrow>
             let chain = take i (buckets lh ! b) @ drop (Suc i) (buckets lh ! b);
                 lh = lh\<lparr>buckets := (buckets lh)[b := chain], num_items := (num_items lh + (SIZE_MOD - 1)) mod SIZE_MOD\<rparr>
             in (Some (it_data item), lh_maybe_resize mem lh)))"

text \<open>The callback of \<open>OPENSSL_lh_doall_arg\<close> changes the state behind \<open>arg\<close>, here of type \<open>'s\<close>, and not the table.\<close>

definition OPENSSL_lh_doall_arg :: "allocator \<Rightarrow> 'd LHASH \<Rightarrow> ('d \<Rightarrow> 's \<Rightarrow> 's) \<Rightarrow> 's \<Rightarrow> 's \<times> 'd LHASH" where
  "OPENSSL_lh_doall_arg mem lh func arg =
     (let lh = (if callback_depth lh < UINT_MAX then lh\<lparr>callback_depth := callback_depth lh + 1\<rparr> else lh);
          arg = fold (\<lambda>chain. fold (\<lambda>cur. func (it_data cur)) chain) (buckets lh) arg;
          lh = (if callback_depth lh < UINT_MAX then lh\<lparr>callback_depth := callback_depth lh - 1\<rparr> else lh)
      in (arg, lh_maybe_resize mem lh))"

end
