(* ===== verification/LHash_Spec.thy ===== *)
theory LHash_Spec
  imports LHash "HOL-Library.Multiset"
begin

text \<open>
  The hash table as a map keyed by an equivalence. The contract of such a map is a locale, with the refinement of whole
  sequences of operations proved once; the table is an instance of it.
\<close>

section \<open>Keyed maps\<close>

datatype 'd map_op = Put 'd | Del 'd

fun map_op_sem :: "('d \<Rightarrow> 'd \<Rightarrow> bool) \<Rightarrow> ('d \<Rightarrow> 'd option) \<Rightarrow> 'd map_op \<Rightarrow> 'd \<Rightarrow> 'd option" where
  "map_op_sem eq m (Put d) x = (if eq d x then Some d else m x)"
| "map_op_sem eq m (Del d) x = (if eq d x then None else m x)"

fun run_map_ops :: "('t \<Rightarrow> 'd \<Rightarrow> bool \<times> 'd option \<times> 't) \<Rightarrow> ('t \<Rightarrow> 'd \<Rightarrow> 'd option \<times> 't) \<Rightarrow> 't \<Rightarrow> 'd map_op list \<Rightarrow> 't option" where
  "run_map_ops put del t [] = Some t"
| "run_map_ops put del t (Put d # ops) = (case put t d of
      (False, _, _) \<Rightarrow> None
    | (True, _, t') \<Rightarrow> run_map_ops put del t' ops)"
| "run_map_ops put del t (Del d # ops) = (case del t d of (_, t') \<Rightarrow> run_map_ops put del t' ops)"

locale keyed_map =
  fixes ok :: "'t \<Rightarrow> bool" and eq :: "'d \<Rightarrow> 'd \<Rightarrow> bool" and lookup :: "'t \<Rightarrow> 'd \<Rightarrow> 'd option"
    and put :: "'t \<Rightarrow> 'd \<Rightarrow> bool \<times> 'd option \<times> 't" and del :: "'t \<Rightarrow> 'd \<Rightarrow> 'd option \<times> 't"
  assumes put_done: "ok t \<Longrightarrow> put t d = (True, old, t') \<Longrightarrow>
      ok t' \<and> old = lookup t d \<and> (\<forall>x. lookup t' x = (if eq d x then Some d else lookup t x))"
    and put_fails: "ok t \<Longrightarrow> put t d = (False, old, t') \<Longrightarrow> t' = t"
    and del_done: "ok t \<Longrightarrow> del t d = (old, t') \<Longrightarrow>
      ok t' \<and> old = lookup t d \<and> (\<forall>x. lookup t' x = (if eq d x then None else lookup t x))"
begin

lemma run_refines:
  "ok t \<Longrightarrow> run_map_ops put del t ops = Some t' \<Longrightarrow> ok t' \<and> lookup t' = foldl (map_op_sem eq) (lookup t) ops"
proof (induction ops arbitrary: t)
  case (Cons op ops)
  have "\<exists>t1. ok t1 \<and> lookup t1 = map_op_sem eq (lookup t) op \<and> run_map_ops put del t1 ops = Some t'"
  proof (cases op)
    case (Put d)
    with Cons.prems(2) obtain old t1 where "put t d = (True, old, t1)" "run_map_ops put del t1 ops = Some t'"
      by (auto split: prod.splits bool.splits)
    with put_done [OF Cons.prems(1) this(1)] Put show ?thesis by (intro exI [of _ t1]) (simp add: fun_eq_iff)
  next
    case (Del d)
    with Cons.prems(2) obtain old t1 where "del t d = (old, t1)" "run_map_ops put del t1 ops = Some t'" by (auto split: prod.splits)
    with del_done [OF Cons.prems(1) this(1)] Del show ?thesis by (intro exI [of _ t1]) (simp add: fun_eq_iff)
  qed
  with Cons.IH show ?case by auto
qed simp

end

section \<open>The table\<close>

text \<open>What the callbacks must be: \<open>comp\<close> an equivalence and \<open>hash\<close> a function of its classes.\<close>

definition key_ok :: "('d \<Rightarrow> u32) \<Rightarrow> ('d \<Rightarrow> 'd \<Rightarrow> int) \<Rightarrow> bool" where
  "key_ok hash cmp \<longleftrightarrow> (\<forall>a. cmp a a = 0) \<and> (\<forall>a b. cmp a b = 0 \<longrightarrow> cmp b a = 0) \<and>
     (\<forall>a b c. cmp a b = 0 \<longrightarrow> cmp b c = 0 \<longrightarrow> cmp a c = 0) \<and> (\<forall>a b. cmp a b = 0 \<longrightarrow> hash a = hash b)"

definition items :: "'d LHASH \<Rightarrow> 'd list" where
  "items lh = map it_data (concat (buckets lh))"

definition placed :: "('d \<Rightarrow> u32) \<Rightarrow> nat \<Rightarrow> 'd LHASH_ITEM list list \<Rightarrow> bool" where
  "placed hash n bs \<longleftrightarrow> length bs = n \<and>
     (\<forall>b < n. \<forall>it \<in> set (bs ! b). it_hash it = hash (it_data it) \<and> unat (hash (it_data it)) mod n = b)"

definition uniq :: "('d \<Rightarrow> 'd \<Rightarrow> int) \<Rightarrow> 'd multiset \<Rightarrow> bool" where
  "uniq cmp M \<longleftrightarrow> (\<forall>a \<in># M. count M a = 1 \<and> (\<forall>b \<in># M. cmp a b = 0 \<longrightarrow> a = b))"

definition table_ok :: "('d \<Rightarrow> u32) \<Rightarrow> ('d \<Rightarrow> 'd \<Rightarrow> int) \<Rightarrow> 'd LHASH \<Rightarrow> bool" where
  "table_ok hash cmp lh \<longleftrightarrow> key_ok hash cmp \<and> lh_hash lh = hash \<and> lh_comp lh = cmp \<and> kMinNumBuckets \<le> num_buckets lh \<and>
     placed hash (num_buckets lh) (buckets lh) \<and> uniq cmp (mset (items lh)) \<and> num_items lh = length (items lh) mod SIZE_MOD"

lemma key_okD:
  assumes "key_ok hash cmp"
  shows "cmp a a = 0" "cmp a b = 0 \<Longrightarrow> cmp b a = 0" "cmp a b = 0 \<Longrightarrow> cmp b c = 0 \<Longrightarrow> cmp a c = 0" "cmp a b = 0 \<Longrightarrow> hash a = hash b"
  using assms unfolding key_ok_def by blast+

lemma table_ok_key: "table_ok hash cmp lh \<Longrightarrow> key_ok hash cmp"
  by (simp add: table_ok_def)

lemma chain_pos_le: "chain_pos eq c \<le> length c"
  by (induction c) auto

lemma chain_pos_found:
  "chain_pos eq c < length c \<longleftrightarrow> (\<exists>it \<in> set c. eq (it_data it))"
  "chain_pos eq c < length c \<Longrightarrow> eq (it_data (c ! chain_pos eq c))"
  by (induction c) auto

lemma mset_concat_update:
  "b < length xss \<Longrightarrow> mset (concat (xss[b := ys])) + mset (xss ! b) = mset (concat xss) + mset ys"
proof (induction xss arbitrary: b)
  case (Cons xs xss)
  then show ?case by (cases b) (auto simp: union_ac)
qed simp

lemma placedD:
  "placed hash n bs \<Longrightarrow> b < n \<Longrightarrow> it \<in> set (bs ! b) \<Longrightarrow> it_hash it = hash (it_data it) \<and> unat (hash (it_data it)) mod n = b"
  by (simp add: placed_def)

lemma table_ok_placed: "table_ok hash cmp lh \<Longrightarrow> placed hash (num_buckets lh) (buckets lh)"
  by (simp add: table_ok_def)

text \<open>Where \<open>get_next_ptr_and_hash\<close> points, and that it does not depend on the bucket.\<close>

lemma ptr_place:
  assumes ok: "table_ok hash cmp lh" and p: "get_next_ptr_and_hash lh x = (h, b, i)"
  shows "h = hash x" "b = unat (hash x) mod num_buckets lh" "i = chain_pos (\<lambda>d. cmp d x = 0) (buckets lh ! b)"
    "b < num_buckets lh" "b < length (buckets lh)"
proof -
  have n: "0 < num_buckets lh" "length (buckets lh) = num_buckets lh"
    using ok by (simp_all add: table_ok_def placed_def kMinNumBuckets_def)
  show "h = hash x" and b: "b = unat (hash x) mod num_buckets lh" and "i = chain_pos (\<lambda>d. cmp d x = 0) (buckets lh ! b)"
    using p ok by (auto simp: get_next_ptr_and_hash_def table_ok_def Let_def)
  show "b < num_buckets lh" "b < length (buckets lh)" using n by (simp_all add: b)
qed

lemma item_found:
  assumes ok: "table_ok hash cmp lh" and p: "get_next_ptr_and_hash lh x = (h, b, i)" and it: "item_at lh (b, i) = Some it"
  shows "i < length (buckets lh ! b)" "it = buckets lh ! b ! i" "it_hash it = hash x" "it_data it \<in># mset (items lh)"
    "cmp (it_data it) x = 0"
proof -
  note pl = ptr_place [OF ok p]
  show i: "i < length (buckets lh ! b)" and e: "it = buckets lh ! b ! i" using it by (simp_all add: item_at_def split: if_splits)
  then have m: "it \<in> set (buckets lh ! b)" by simp
  show eq: "cmp (it_data it) x = 0" using chain_pos_found(2) [of "\<lambda>d. cmp d x = 0" "buckets lh ! b"] i e pl(3) by simp
  have "it_hash it = hash (it_data it)" using placedD [OF table_ok_placed [OF ok] pl(4) m] by simp
  moreover have "hash (it_data it) = hash x" by (rule key_okD(4) [OF table_ok_key [OF ok] eq])
  ultimately show "it_hash it = hash x" by simp
  show "it_data it \<in># mset (items lh)" using m nth_mem [OF pl(5)] by (auto simp: items_def)
qed

lemma item_missing:
  assumes ok: "table_ok hash cmp lh" and p: "get_next_ptr_and_hash lh x = (h, b, i)" and it: "item_at lh (b, i) = None"
    and d: "d \<in># mset (items lh)"
  shows "cmp d x \<noteq> 0"
proof
  note pl = ptr_place [OF ok p]
  assume eq: "cmp d x = 0"
  obtain chain it where "chain \<in> set (buckets lh)" "it \<in> set chain" "d = it_data it" using d by (auto simp: items_def)
  then obtain c where c: "c < length (buckets lh)" "it \<in> set (buckets lh ! c)" "d = it_data it" by (auto simp: in_set_conv_nth [of chain])
  have "hash d = hash x" by (rule key_okD(4) [OF table_ok_key [OF ok] eq])
  moreover have "unat (hash d) mod num_buckets lh = c"
    using placedD [OF table_ok_placed [OF ok] _ c(2)] c table_ok_placed [OF ok] by (simp add: placed_def)
  ultimately have "c = b" using pl(2) by simp
  with c eq chain_pos_found(1) [of "\<lambda>d. cmp d x = 0" "buckets lh ! b"] it pl(3) show False
    by (auto simp: item_at_def split: if_splits)
qed

lemma retrieve_iff:
  assumes ok: "table_ok hash cmp lh"
  shows "OPENSSL_lh_retrieve lh x = Some d \<longleftrightarrow> d \<in># mset (items lh) \<and> cmp d x = 0"
proof -
  obtain h b i where p: "get_next_ptr_and_hash lh x = (h, b, i)" by (metis prod_cases3)
  show ?thesis
  proof (cases "item_at lh (b, i)")
    case None
    with item_missing [OF ok p] p show ?thesis by (auto simp: OPENSSL_lh_retrieve_def)
  next
    case (Some it)
    note it = item_found(4,5) [OF ok p Some]
    have "d = it_data it" if "d \<in># mset (items lh)" "cmp d x = 0"
    proof -
      have "cmp x (it_data it) = 0" by (rule key_okD(2) [OF table_ok_key [OF ok] it(2)])
      with that(2) have "cmp d (it_data it) = 0" by (rule key_okD(3) [OF table_ok_key [OF ok]])
      with that(1) it(1) ok show ?thesis by (auto simp: table_ok_def uniq_def)
    qed
    with it Some p show ?thesis by (auto simp: OPENSSL_lh_retrieve_def)
  qed
qed

section \<open>Rebucketing\<close>

lemma placed_add:
  assumes "placed hash n bs" and "0 < n" and "it_hash it = hash (it_data it)"
  shows "placed hash n (bs[unat (it_hash it) mod n := it # bs ! (unat (it_hash it) mod n)])"
  using assms by (auto simp: placed_def nth_list_update)

lemma rebucket_chain_ok:
  "placed hash n nb \<Longrightarrow> 0 < n \<Longrightarrow> \<forall>it \<in> set chain. it_hash it = hash (it_data it) \<Longrightarrow>
    placed hash n (rebucket_chain n nb chain) \<and> mset (concat (rebucket_chain n nb chain)) = mset (concat nb) + mset chain"
proof (induction chain arbitrary: nb)
  case (Cons it chain)
  let ?b = "unat (it_hash it) mod n"
  let ?nb = "nb[?b := it # nb ! ?b]"
  have p: "placed hash n ?nb" using placed_add [OF Cons.prems(1,2)] Cons.prems(3) by simp
  have "?b < length nb" using Cons.prems(1,2) by (simp add: placed_def)
  from mset_concat_update [OF this, of "it # nb ! ?b"] have "mset (concat ?nb) = add_mset it (mset (concat nb))" by simp
  with Cons.IH [OF p Cons.prems(2)] Cons.prems(3) show ?case by (simp add: Let_def)
qed simp

lemma rebucket_all_ok:
  "placed hash n nb \<Longrightarrow> 0 < n \<Longrightarrow> \<forall>it \<in> set (concat old). it_hash it = hash (it_data it) \<Longrightarrow>
    placed hash n (rebucket_all n nb old) \<and> mset (concat (rebucket_all n nb old)) = mset (concat nb) + mset (concat old)"
proof (induction old arbitrary: nb)
  case (Cons chain old)
  then have "placed hash n (rebucket_chain n nb chain)" "mset (concat (rebucket_chain n nb chain)) = mset (concat nb) + mset chain"
    using rebucket_chain_ok [OF Cons.prems(1,2), of chain] by simp_all
  with Cons.IH [of "rebucket_chain n nb chain"] Cons.prems(2,3) show ?case by (simp add: ac_simps)
qed simp

lemma items_hashed:
  assumes "placed hash n bs" and "it \<in> set (concat bs)"
  shows "it_hash it = hash (it_data it)"
proof -
  obtain c where "c < n" "it \<in> set (bs ! c)" using assms by (auto simp: placed_def in_set_conv_nth [of _ bs])
  with placedD [OF assms(1)] show ?thesis by blast
qed

lemma rebucket_ok:
  assumes ok: "table_ok hash cmp lh" and n: "kMinNumBuckets \<le> n"
  shows "table_ok hash cmp (lh_rebucket mem lh n) \<and> mset (items (lh_rebucket mem lh n)) = mset (items lh)"
proof (cases "8 * n mod SIZE_MOD div 8 \<noteq> n \<or> OPENSSL_malloc mem (8 * n mod SIZE_MOD) = None")
  case True
  then have "lh_rebucket mem lh n = lh" by (auto simp: lh_rebucket_def Let_def)
  with ok show ?thesis by simp
next
  case False
  let ?nb = "rebucket_all n (replicate n []) (buckets lh)"
  have "0 < n" using n by (simp add: kMinNumBuckets_def)
  then have r: "placed hash n ?nb \<and> mset (concat ?nb) = mset (concat (replicate n [])) + mset (concat (buckets lh))"
    using items_hashed [OF table_ok_placed [OF ok]] by (intro rebucket_all_ok) (auto simp: placed_def)
  have "mset (concat (replicate n ([] :: 'a LHASH_ITEM list))) = {#}" by (induction n) simp_all
  with r have m: "mset (map it_data (concat ?nb)) = mset (items lh)" by (simp only: mset_map items_def) simp
  have "lh_rebucket mem lh n = lh\<lparr>num_buckets := n, buckets := ?nb\<rparr>" using False by (auto simp: lh_rebucket_def Let_def)
  with ok r n m mset_eq_length [OF m] show ?thesis by (auto simp: table_ok_def items_def)
qed

lemma resize_ok:
  assumes ok: "table_ok hash cmp lh"
  shows "table_ok hash cmp (lh_maybe_resize mem lh) \<and> mset (items (lh_maybe_resize mem lh)) = mset (items lh)"
proof -
  have "kMinNumBuckets \<le> num_buckets lh" using ok by (simp add: table_ok_def)
  then show ?thesis
    using ok rebucket_ok [OF ok, of "num_buckets lh * 2 mod SIZE_MOD"]
      rebucket_ok [OF ok, of "if num_buckets lh div 2 < kMinNumBuckets then kMinNumBuckets else num_buckets lh div 2"]
    unfolding lh_maybe_resize_def Let_def by (simp split: if_splits)
qed

section \<open>Keys\<close>

lemma uniq_add:
  assumes "key_ok hash cmp" and "uniq cmp M" and "\<And>d. d \<in># M \<Longrightarrow> cmp d x \<noteq> 0"
  shows "uniq cmp (add_mset x M)"
proof -
  have x: "x \<notin># M" using assms(3) key_okD(1) [OF assms(1)] by blast
  moreover have "cmp x d \<noteq> 0" if "d \<in># M" for d using assms(3) [OF that] key_okD(2) [OF assms(1)] by blast
  ultimately show ?thesis using assms(2,3) unfolding uniq_def by (auto simp: not_in_iff)
qed

lemma uniq_remove:
  assumes "uniq cmp (add_mset a M)"
  shows "uniq cmp M" "a \<notin># M"
proof -
  have "count (add_mset a M) a = 1" using assms by (simp add: uniq_def)
  then show a: "a \<notin># M" by (simp add: not_in_iff)
  show "uniq cmp M" using assms a unfolding uniq_def by (auto simp: not_in_iff split: if_splits)
qed

lemma option_eqI_Some: "(\<And>e. x = Some e \<longleftrightarrow> y = Some e) \<Longrightarrow> x = y"
  by (cases x; cases y) auto

text \<open>
  A table whose contents are \<open>M0 + R\<close>, with \<open>R\<close> the items equal to \<open>d\<close>, before a change, and \<open>M0\<close> with or without \<open>d\<close>
  after it.
\<close>

lemma lookup_put:
  assumes t: "table_ok hash cmp t" and t': "table_ok hash cmp t'"
    and M: "mset (items t) = M0 + R" and M': "mset (items t') = add_mset d M0"
    and M0: "\<And>y. y \<in># M0 \<Longrightarrow> cmp y d \<noteq> 0" and R: "\<And>r. r \<in># R \<Longrightarrow> cmp r d = 0"
  shows "OPENSSL_lh_retrieve t' x = (if cmp d x = 0 then Some d else OPENSSL_lh_retrieve t x)"
proof (rule option_eqI_Some)
  fix e
  note k = table_ok_key [OF t]
  have "e \<in># M0 \<Longrightarrow> cmp d x = 0 \<Longrightarrow> cmp e x \<noteq> 0" using M0 key_okD(2,3) [OF k] by metis
  moreover have "e \<in># R \<Longrightarrow> cmp d x \<noteq> 0 \<Longrightarrow> cmp e x \<noteq> 0" using R key_okD(2,3) [OF k] by metis
  ultimately show "OPENSSL_lh_retrieve t' x = Some e \<longleftrightarrow> (if cmp d x = 0 then Some d else OPENSSL_lh_retrieve t x) = Some e"
    by (auto simp: retrieve_iff [OF t] retrieve_iff [OF t'] M M')
qed

lemma lookup_del:
  assumes t: "table_ok hash cmp t" and t': "table_ok hash cmp t'"
    and M: "mset (items t) = M0 + R" and M': "mset (items t') = M0"
    and M0: "\<And>y. y \<in># M0 \<Longrightarrow> cmp y d \<noteq> 0" and R: "\<And>r. r \<in># R \<Longrightarrow> cmp r d = 0"
  shows "OPENSSL_lh_retrieve t' x = (if cmp d x = 0 then None else OPENSSL_lh_retrieve t x)"
proof (rule option_eqI_Some)
  fix e
  note k = table_ok_key [OF t]
  have "e \<in># M0 \<Longrightarrow> cmp d x = 0 \<Longrightarrow> cmp e x \<noteq> 0" using M0 key_okD(2,3) [OF k] by metis
  moreover have "e \<in># R \<Longrightarrow> cmp d x \<noteq> 0 \<Longrightarrow> cmp e x \<noteq> 0" using R key_okD(2,3) [OF k] by metis
  ultimately show "OPENSSL_lh_retrieve t' x = Some e \<longleftrightarrow> (if cmp d x = 0 then None else OPENSSL_lh_retrieve t x) = Some e"
    by (auto simp: retrieve_iff [OF t] retrieve_iff [OF t'] M M')
qed

lemma placed_update:
  assumes "placed hash n bs" and "b < n" and "\<And>it. it \<in> set c \<Longrightarrow> it_hash it = hash (it_data it) \<and> unat (hash (it_data it)) mod n = b"
  shows "placed hash n (bs[b := c])"
  using assms by (auto simp: placed_def nth_list_update)

lemma found_split:
  assumes ok: "table_ok hash cmp lh" and a: "a \<in># mset (items lh)" and eq: "cmp a d = 0"
  shows "mset (items lh) = (mset (items lh) - {#a#}) + {#a#}" "uniq cmp (mset (items lh) - {#a#})"
    "y \<in># mset (items lh) - {#a#} \<Longrightarrow> cmp y d \<noteq> 0"
proof -
  let ?M0 = "mset (items lh) - {#a#}"
  show M: "mset (items lh) = ?M0 + {#a#}" using a by simp
  then have u: "uniq cmp (add_mset a ?M0)" using ok by (simp add: table_ok_def)
  show "uniq cmp ?M0" by (rule uniq_remove(1) [OF u])
  show "cmp y d \<noteq> 0" if y: "y \<in># ?M0"
  proof
    note k = table_ok_key [OF ok]
    assume "cmp y d = 0"
    then have "cmp y a = 0" using eq key_okD(2,3) [OF k] by metis
    with u y have "y = a" by (auto simp: uniq_def)
    with uniq_remove(2) [OF u] y show False by simp
  qed
qed

section \<open>Insertion and deletion\<close>

lemma mset_items_update:
  assumes "b < length (buckets lh)" and "mset chain + mset drops = mset (buckets lh ! b) + mset adds"
    and "buckets lh' = (buckets lh)[b := chain]"
  shows "mset (items lh') + mset (map it_data drops) = mset (items lh) + mset (map it_data adds)"
proof -
  have "mset (concat (buckets lh')) + mset (buckets lh ! b) + mset drops = mset (concat (buckets lh)) + mset chain + mset drops"
    using mset_concat_update [OF assms(1), of chain] assms(3) by simp
  also have "\<dots> = mset (concat (buckets lh)) + mset adds + mset (buckets lh ! b)" using assms(2) by (simp add: ac_simps)
  finally have "mset (concat (buckets lh')) + mset drops = mset (concat (buckets lh)) + mset adds" by (simp add: ac_simps)
  from arg_cong [OF this, of "image_mset it_data"] show ?thesis by (simp add: items_def)
qed

text \<open>Replacing the chain of one bucket, with the counter kept to the number of items.\<close>

lemma edit_ok:
  assumes ok: "table_ok hash cmp lh" and b: "b < num_buckets lh"
    and chain: "\<And>it. it \<in> set chain \<Longrightarrow> it_hash it = hash (it_data it) \<and> unat (hash (it_data it)) mod num_buckets lh = b"
    and u: "uniq cmp (mset (items (lh\<lparr>buckets := (buckets lh)[b := chain]\<rparr>)))"
    and n: "k = length (items (lh\<lparr>buckets := (buckets lh)[b := chain]\<rparr>)) mod SIZE_MOD"
  shows "table_ok hash cmp (lh\<lparr>buckets := (buckets lh)[b := chain], num_items := k\<rparr>)"
  using ok u n placed_update [OF table_ok_placed [OF ok] b chain] by (simp add: table_ok_def items_def)

lemma insert_replaces:
  assumes ok: "table_ok hash cmp lh" and p: "get_next_ptr_and_hash lh d = (h, b, i)" and it: "item_at lh (b, i) = Some it"
  defines "lh' \<equiv> lh\<lparr>buckets := (buckets lh)[b := (buckets lh ! b)[i := it\<lparr>it_data := d\<rparr>]]\<rparr>"
  shows "table_ok hash cmp lh'" "mset (items lh') = add_mset d (mset (items lh) - {#it_data it#})"
proof -
  note pl = ptr_place [OF ok p] and f = item_found [OF ok p it]
  note sp = found_split [OF ok f(4,5)]
  let ?c = "buckets lh ! b"
  have "mset (?c[i := it\<lparr>it_data := d\<rparr>]) + mset [it] = mset ?c + mset [it\<lparr>it_data := d\<rparr>]"
    using f(1,2) by (simp add: mset_update)
  from mset_items_update [OF pl(5) this, of lh'] have "mset (items lh') + {#it_data it#} = mset (items lh) + {#d#}"
    by (simp add: lh'_def)
  then have "mset (items lh') + {#it_data it#} = add_mset d (mset (items lh) - {#it_data it#}) + {#it_data it#}" using f(4) by simp
  then show m: "mset (items lh') = add_mset d (mset (items lh) - {#it_data it#})" by (rule add_right_imp_eq)
  have len: "length (items lh') = length (items lh)" using arg_cong [OF m, of size] arg_cong [OF sp(1), of size] by simp
  have u: "uniq cmp (mset (items lh'))" unfolding m by (rule uniq_add [OF table_ok_key [OF ok] sp(2,3)])
  have "table_ok hash cmp (lh\<lparr>buckets := (buckets lh)[b := ?c[i := it\<lparr>it_data := d\<rparr>]], num_items := num_items lh\<rparr>)"
  proof (rule edit_ok [OF ok pl(4)])
    fix x assume "x \<in> set (?c[i := it\<lparr>it_data := d\<rparr>])"
    then have "x = it\<lparr>it_data := d\<rparr> \<or> x \<in> set ?c" using set_update_subset_insert by fastforce
    then show "it_hash x = hash (it_data x) \<and> unat (hash (it_data x)) mod num_buckets lh = b"
      using placedD [OF table_ok_placed [OF ok] pl(4)] f(3) pl(2) by auto
  qed (use u len ok in \<open>simp_all add: lh'_def table_ok_def\<close>)
  then show "table_ok hash cmp lh'" by (simp add: lh'_def)
qed

lemma insert_appends:
  assumes ok: "table_ok hash cmp lh" and p: "get_next_ptr_and_hash lh d = (h, b, i)" and it: "item_at lh (b, i) = None"
  defines "lh' \<equiv> lh\<lparr>buckets := (buckets lh)[b := buckets lh ! b @ [\<lparr>it_data = d, it_hash = h\<rparr>]], num_items := (num_items lh + 1) mod SIZE_MOD\<rparr>"
  shows "table_ok hash cmp lh'" "mset (items lh') = add_mset d (mset (items lh))"
proof -
  note pl = ptr_place [OF ok p]
  let ?c = "buckets lh ! b" and ?it = "\<lparr>it_data = d, it_hash = h\<rparr>"
  have "mset (?c @ [?it]) + mset [] = mset ?c + mset [?it]" by simp
  from mset_items_update [OF pl(5) this] have m: "mset (items lh') = add_mset d (mset (items lh))" by (simp add: lh'_def)
  then show "mset (items lh') = add_mset d (mset (items lh))" .
  have len: "length (items lh') = length (items lh) + 1" using arg_cong [OF m, of size] by simp
  have u: "uniq cmp (mset (items lh'))" unfolding m
    by (rule uniq_add [OF table_ok_key [OF ok] _ item_missing [OF ok p it]]) (use ok in \<open>simp_all add: table_ok_def\<close>)
  show "table_ok hash cmp lh'" unfolding lh'_def
  proof (rule edit_ok [OF ok pl(4)])
    fix x assume "x \<in> set (?c @ [?it])"
    then show "it_hash x = hash (it_data x) \<and> unat (hash (it_data x)) mod num_buckets lh = b"
      using placedD [OF table_ok_placed [OF ok] pl(4)] pl(1,2) by auto
  next
    show "(num_items lh + 1) mod SIZE_MOD = length (items (lh\<lparr>buckets := (buckets lh)[b := ?c @ [?it]]\<rparr>)) mod SIZE_MOD"
      using len ok by (simp add: lh'_def items_def table_ok_def mod_Suc_eq)
  qed (use u in \<open>simp add: lh'_def items_def\<close>)
qed

lemma delete_removes:
  assumes ok: "table_ok hash cmp lh" and p: "get_next_ptr_and_hash lh d = (h, b, i)" and it: "item_at lh (b, i) = Some it"
  defines "lh' \<equiv> lh\<lparr>buckets := (buckets lh)[b := take i (buckets lh ! b) @ drop (Suc i) (buckets lh ! b)],
    num_items := (num_items lh + (SIZE_MOD - 1)) mod SIZE_MOD\<rparr>"
  shows "table_ok hash cmp lh'" "mset (items lh') = mset (items lh) - {#it_data it#}"
proof -
  note pl = ptr_place [OF ok p] and f = item_found [OF ok p it]
  note sp = found_split [OF ok f(4,5)]
  let ?c = "buckets lh ! b"
  let ?c' = "take i ?c @ drop (Suc i) ?c"
  have "mset ?c = mset (take i ?c @ ?c ! i # drop (Suc i) ?c)" using id_take_nth_drop [OF f(1)] by simp
  then have "mset ?c' + mset [it] = mset ?c + mset []" using f(2) by simp
  from mset_items_update [OF pl(5) this, of lh'] have eq: "mset (items lh') + {#it_data it#} = mset (items lh)" by (simp add: lh'_def)
  then show m: "mset (items lh') = mset (items lh) - {#it_data it#}" by (simp flip: eq)
  have len: "length (items lh) = length (items lh') + 1" using arg_cong [OF eq, of size] by simp
  have u: "uniq cmp (mset (items lh'))" unfolding m by (rule sp(2))
  show "table_ok hash cmp lh'" unfolding lh'_def
  proof (rule edit_ok [OF ok pl(4)])
    fix x assume "x \<in> set ?c'"
    then have "x \<in> set ?c" by (auto dest: in_set_takeD in_set_dropD)
    then show "it_hash x = hash (it_data x) \<and> unat (hash (it_data x)) mod num_buckets lh = b"
      using placedD [OF table_ok_placed [OF ok] pl(4)] by blast
  next
    have "(num_items lh + (SIZE_MOD - 1)) mod SIZE_MOD = (length (items lh') + 1 + (SIZE_MOD - 1)) mod SIZE_MOD"
      using ok len by (simp only: table_ok_def mod_add_left_eq)
    then show "(num_items lh + (SIZE_MOD - 1)) mod SIZE_MOD = length (items (lh\<lparr>buckets := (buckets lh)[b := ?c']\<rparr>)) mod SIZE_MOD"
      by (simp add: lh'_def items_def)
  qed (use u in \<open>simp add: lh'_def items_def\<close>)
qed

section \<open>The table as a keyed map\<close>

lemma retrieve_found:
  assumes ok: "table_ok hash cmp lh" and p: "get_next_ptr_and_hash lh d = (h, b, i)"
  shows "OPENSSL_lh_retrieve lh d = map_option it_data (item_at lh (b, i))"
  using p by (simp add: OPENSSL_lh_retrieve_def)

lemma insert_done:
  assumes ok: "table_ok hash cmp lh" and ins: "OPENSSL_lh_insert mem lh d = (True, old, lh')"
  shows "table_ok hash cmp lh' \<and> old = OPENSSL_lh_retrieve lh d \<and>
    (\<forall>x. OPENSSL_lh_retrieve lh' x = (if cmp d x = 0 then Some d else OPENSSL_lh_retrieve lh x))"
proof -
  obtain h b i where p: "get_next_ptr_and_hash lh d = (h, b, i)" by (metis prod_cases3)
  note r = retrieve_found [OF ok p]
  show ?thesis
  proof (cases "item_at lh (b, i)")
    case (Some it)
    note f = item_found [OF ok p Some] and new = insert_replaces [OF ok p Some]
    have lh': "lh' = lh\<lparr>buckets := (buckets lh)[b := (buckets lh ! b)[i := it\<lparr>it_data := d\<rparr>]]\<rparr>" "old = Some (it_data it)"
      using ins p Some by (auto simp: OPENSSL_lh_insert_def)
    have "OPENSSL_lh_retrieve lh' x = (if cmp d x = 0 then Some d else OPENSSL_lh_retrieve lh x)" for x
      unfolding lh' by (rule lookup_put [OF ok new(1) found_split(1) [OF ok f(4,5)] new(2) found_split(3) [OF ok f(4,5)]])
        (use f(5) in simp_all)
    with new(1) lh' r Some show ?thesis by simp
  next
    case None
    note new = insert_appends [OF ok p None] and missing = item_missing [OF ok p None]
    have lh': "lh' = lh_maybe_resize mem (lh\<lparr>buckets := (buckets lh)[b := buckets lh ! b @ [\<lparr>it_data = d, it_hash = h\<rparr>]],
        num_items := (num_items lh + 1) mod SIZE_MOD\<rparr>)" "old = None"
      using ins p None by (auto simp: OPENSSL_lh_insert_def Let_def split: option.splits)
    have new': "table_ok hash cmp lh'" "mset (items lh') = add_mset d (mset (items lh))"
      using resize_ok [OF new(1), of mem] new(2) unfolding lh' by simp_all
    have "OPENSSL_lh_retrieve lh' x = (if cmp d x = 0 then Some d else OPENSSL_lh_retrieve lh x)" for x
      by (rule lookup_put [OF ok new'(1) _ new'(2) missing, where R = "{#}"]) simp_all
    with new'(1) lh'(2) r None show ?thesis by simp
  qed
qed

lemma insert_fails: "OPENSSL_lh_insert mem lh d = (False, old, lh') \<Longrightarrow> lh' = lh"
  by (auto simp: OPENSSL_lh_insert_def Let_def split: prod.splits option.splits)

lemma delete_done:
  assumes ok: "table_ok hash cmp lh" and del: "OPENSSL_lh_delete mem lh d = (old, lh')"
  shows "table_ok hash cmp lh' \<and> old = OPENSSL_lh_retrieve lh d \<and>
    (\<forall>x. OPENSSL_lh_retrieve lh' x = (if cmp d x = 0 then None else OPENSSL_lh_retrieve lh x))"
proof -
  obtain h b i where p: "get_next_ptr_and_hash lh d = (h, b, i)" by (metis prod_cases3)
  note r = retrieve_found [OF ok p]
  show ?thesis
  proof (cases "item_at lh (b, i)")
    case None
    then have lh': "lh' = lh" "old = None" using del p by (auto simp: OPENSSL_lh_delete_def)
    have "OPENSSL_lh_retrieve lh x = (if cmp d x = 0 then None else OPENSSL_lh_retrieve lh x)" for x
      by (rule lookup_del [OF ok ok _ refl item_missing [OF ok p None], where R = "{#}"]) simp_all
    with lh' ok r None show ?thesis by simp
  next
    case (Some it)
    note f = item_found [OF ok p Some] and new = delete_removes [OF ok p Some]
    have lh': "lh' = lh_maybe_resize mem (lh\<lparr>buckets := (buckets lh)[b := take i (buckets lh ! b) @ drop (Suc i) (buckets lh ! b)],
        num_items := (num_items lh + (SIZE_MOD - 1)) mod SIZE_MOD\<rparr>)" "old = Some (it_data it)"
      using del p Some by (auto simp: OPENSSL_lh_delete_def Let_def)
    have new': "table_ok hash cmp lh'" "mset (items lh') = mset (items lh) - {#it_data it#}"
      using resize_ok [OF new(1), of mem] new(2) unfolding lh' by simp_all
    have "OPENSSL_lh_retrieve lh' x = (if cmp d x = 0 then None else OPENSSL_lh_retrieve lh x)" for x
      by (rule lookup_del [OF ok new'(1) found_split(1) [OF ok f(4,5)] new'(2) found_split(3) [OF ok f(4,5)]])
        (use f(5) in simp_all)
    with new'(1) lh'(2) r Some show ?thesis by simp
  qed
qed

interpretation table: keyed_map "table_ok hash cmp" "\<lambda>d x. cmp d x = 0" OPENSSL_lh_retrieve "OPENSSL_lh_insert mem" "OPENSSL_lh_delete mem"
  for hash :: "'d \<Rightarrow> u32" and cmp :: "'d \<Rightarrow> 'd \<Rightarrow> int" and mem :: allocator
proof unfold_locales
  fix t :: "'d LHASH" and d old t'
  assume t: "table_ok hash cmp t"
  show "OPENSSL_lh_insert mem t d = (True, old, t') \<Longrightarrow> table_ok hash cmp t' \<and> old = OPENSSL_lh_retrieve t d \<and>
      (\<forall>x. OPENSSL_lh_retrieve t' x = (if cmp d x = 0 then Some d else OPENSSL_lh_retrieve t x))"
    by (rule insert_done [OF t])
  show "OPENSSL_lh_insert mem t d = (False, old, t') \<Longrightarrow> t' = t" by (rule insert_fails)
  show "OPENSSL_lh_delete mem t d = (old, t') \<Longrightarrow> table_ok hash cmp t' \<and> old = OPENSSL_lh_retrieve t d \<and>
      (\<forall>x. OPENSSL_lh_retrieve t' x = (if cmp d x = 0 then None else OPENSSL_lh_retrieve t x))"
    by (rule delete_done [OF t])
qed

section \<open>The empty table\<close>

lemma new_ok:
  assumes k: "key_ok hash cmp" and new: "OPENSSL_lh_new mem hash cmp = Some lh"
  shows "table_ok hash cmp lh" "OPENSSL_lh_retrieve lh x = None"
proof -
  have lh: "lh = \<lparr>num_items = 0, buckets = replicate kMinNumBuckets [], num_buckets = kMinNumBuckets, callback_depth = 0,
      lh_comp = cmp, lh_hash = hash\<rparr>"
    using new by (simp add: OPENSSL_lh_new_def split: option.splits)
  have i: "items lh = []" unfolding lh items_def by simp
  show ok: "table_ok hash cmp lh"
    using k i unfolding table_ok_def by (auto simp: lh uniq_def placed_def)
  show "OPENSSL_lh_retrieve lh x = None" using retrieve_iff [OF ok] i by (metis empty_iff list.set(1) not_None_eq set_mset_mset)
qed

end
