(* ===== verification/LHash_Props.thy ===== *)
theory LHash_Props
  imports LHash_Spec
begin

text \<open>
  The properties of the hash table, from the empty table through any sequence of insertions and deletions.
\<close>

section \<open>What the items are\<close>

lemma stored_iff:
  assumes "table_ok hash cmp lh"
  shows "OPENSSL_lh_retrieve lh d = Some d \<longleftrightarrow> d \<in> set (items lh)"
  using retrieve_iff [OF assms] key_okD(1) [OF table_ok_key [OF assms]] by simp

lemma items_distinct: "table_ok hash cmp lh \<Longrightarrow> distinct (items lh)"
  by (auto simp: table_ok_def uniq_def distinct_count_atmost_1 count_mset_0_iff)

lemma items_card:
  assumes "table_ok hash cmp lh"
  shows "length (items lh) = card {d. OPENSSL_lh_retrieve lh d = Some d}"
  using distinct_card [OF items_distinct [OF assms]] stored_iff [OF assms] by (simp add: Collect_mem_eq)

lemma table_ok_depth: "table_ok hash cmp (lh\<lparr>callback_depth := n\<rparr>) \<longleftrightarrow> table_ok hash cmp lh"
  by (simp add: table_ok_def items_def)

lemma resize_retrieve:
  assumes "table_ok hash cmp lh"
  shows "OPENSSL_lh_retrieve (lh_maybe_resize mem lh) x = OPENSSL_lh_retrieve lh x"
proof (rule option_eqI_Some)
  fix e
  note r = resize_ok [OF assms, of mem]
  show "OPENSSL_lh_retrieve (lh_maybe_resize mem lh) x = Some e \<longleftrightarrow> OPENSSL_lh_retrieve lh x = Some e"
    using r retrieve_iff [OF assms] retrieve_iff [of hash cmp "lh_maybe_resize mem lh"] by simp
qed

lemma fold_chains: "fold (\<lambda>chain. fold (\<lambda>cur. f (it_data cur)) chain) bs s = fold f (map it_data (concat bs)) s"
  by (induction bs arbitrary: s) (simp_all add: fold_map comp_def)

lemma doall_fold: "fst (OPENSSL_lh_doall_arg mem lh f s) = fold f (items lh) s"
  by (simp add: OPENSSL_lh_doall_arg_def Let_def fold_chains items_def)

lemma doall_resizes: "\<exists>n. snd (OPENSSL_lh_doall_arg mem lh f s) = lh_maybe_resize mem (lh\<lparr>callback_depth := n\<rparr>)"
  by (rule exI [of _ "if callback_depth lh < UINT_MAX \<and> \<not> callback_depth lh + 1 < UINT_MAX then Suc (callback_depth lh) else callback_depth lh"])
    (auto simp: OPENSSL_lh_doall_arg_def Let_def)

lemma doall_table:
  assumes "table_ok hash cmp lh"
  shows "table_ok hash cmp (snd (OPENSSL_lh_doall_arg mem lh f s))"
    "OPENSSL_lh_retrieve (snd (OPENSSL_lh_doall_arg mem lh f s)) x = OPENSSL_lh_retrieve lh x"
proof -
  obtain n where n: "snd (OPENSSL_lh_doall_arg mem lh f s) = lh_maybe_resize mem (lh\<lparr>callback_depth := n\<rparr>)"
    using doall_resizes [of mem lh f s] by blast
  have ok: "table_ok hash cmp (lh\<lparr>callback_depth := n\<rparr>)" using assms by (simp add: table_ok_depth)
  show "table_ok hash cmp (snd (OPENSSL_lh_doall_arg mem lh f s))" unfolding n using resize_ok [OF ok] by simp
  show "OPENSSL_lh_retrieve (snd (OPENSSL_lh_doall_arg mem lh f s)) x = OPENSSL_lh_retrieve lh x"
    unfolding n resize_retrieve [OF ok] by (simp add: OPENSSL_lh_retrieve_def get_next_ptr_and_hash_def item_at_def Let_def)
qed

lemma lookup_by_key:
  assumes "table_ok hash cmp lh" and "key_hash = hash x" and "\<And>d. cmp_key key d = 0 \<longleftrightarrow> cmp d x = 0"
  shows "OPENSSL_lh_retrieve_key lh key key_hash cmp_key = OPENSSL_lh_retrieve lh x"
  using assms by (simp add: OPENSSL_lh_retrieve_key_def OPENSSL_lh_retrieve_def get_next_ptr_by_key_def
      get_next_ptr_and_hash_def Let_def table_ok_def)

lemma run_from_new:
  assumes "key_ok hash cmp" and "OPENSSL_lh_new mem hash cmp = Some lh"
    and "run_map_ops (OPENSSL_lh_insert mem) (OPENSSL_lh_delete mem) lh ops = Some lh'"
  shows "table_ok hash cmp lh'" "OPENSSL_lh_retrieve lh' = foldl (map_op_sem (\<lambda>d x. cmp d x = 0)) (\<lambda>_. None) ops"
proof -
  have "OPENSSL_lh_retrieve lh = (\<lambda>_. None)" using new_ok(2) [OF assms(1,2)] by (simp add: fun_eq_iff)
  with table.run_refines [OF new_ok(1) [OF assms(1,2)] assms(3)]
  show "table_ok hash cmp lh'" "OPENSSL_lh_retrieve lh' = foldl (map_op_sem (\<lambda>d x. cmp d x = 0)) (\<lambda>_. None) ops" by simp_all
qed

text \<open>The only failure is that memory for an item is refused.\<close>

lemma insert_succeeds: "OPENSSL_malloc mem sizeof_LHASH_ITEM \<noteq> None \<Longrightarrow> \<exists>old lh'. OPENSSL_lh_insert mem lh d = (True, old, lh')"
  by (auto simp: OPENSSL_lh_insert_def Let_def split: prod.split option.split)

lemma run_succeeds:
  "OPENSSL_malloc mem sizeof_LHASH_ITEM \<noteq> None \<Longrightarrow>
    \<exists>lh'. run_map_ops (OPENSSL_lh_insert mem) (OPENSSL_lh_delete mem) lh ops = Some lh'"
proof (induction ops arbitrary: lh)
  case (Cons op ops)
  show ?case
  proof (cases op)
    case (Put d)
    obtain old lh1 where "OPENSSL_lh_insert mem lh d = (True, old, lh1)" using insert_succeeds [OF Cons.prems, of lh d] by blast
    with Cons.IH [OF Cons.prems] Put show ?thesis by simp
  next
    case (Del d)
    with Cons.IH [OF Cons.prems] show ?thesis by (auto split: prod.split)
  qed
qed simp

section \<open>Properties\<close>

definition pair_hash :: "nat \<times> nat \<Rightarrow> u32" where
  "pair_hash p = of_nat (fst p)"

definition pair_cmp :: "nat \<times> nat \<Rightarrow> nat \<times> nat \<Rightarrow> int" where
  "pair_cmp a b = int (fst a) - int (fst b)"

lemma pair_key_ok: "key_ok pair_hash pair_cmp"
  by (auto simp: key_ok_def pair_hash_def pair_cmp_def)

definition pair_ops :: "(nat \<times> nat) map_op list" where
  "pair_ops = [Put (1, 10), Put (17, 20), Put (1, 30), Del (17, 0)]"

text \<open>C6: From an empty table, any sequence of insertions and deletions goes through when memory for the items is granted, and a
  lookup then gives what a map keyed by \<open>comp\<close> gives after the same sequence, whatever resizing of the buckets took place and
  whether or not memory for it was granted.\<close>

theorem lh_refines_map:
  assumes "key_ok hash cmp" and "OPENSSL_lh_new mem hash cmp = Some lh" and "OPENSSL_malloc mem sizeof_LHASH_ITEM \<noteq> None"
  shows "\<exists>lh'. run_map_ops (OPENSSL_lh_insert mem) (OPENSSL_lh_delete mem) lh ops = Some lh' \<and>
    OPENSSL_lh_retrieve lh' = foldl (map_op_sem (\<lambda>d x. cmp d x = 0)) (\<lambda>_. None) ops"
  using run_succeeds [OF assms(3)] run_from_new(2) [OF assms(1,2)] by blast

lemma new_generous: "OPENSSL_lh_new generous hash cmp = Some \<lparr>num_items = 0, buckets = replicate kMinNumBuckets [],
    num_buckets = kMinNumBuckets, callback_depth = 0, lh_comp = cmp, lh_hash = hash\<rparr>"
  "OPENSSL_malloc generous sizeof_LHASH_ITEM \<noteq> None"
  by (simp_all add: OPENSSL_lh_new_def OPENSSL_malloc_def malloc_def generous_def sizeof_LHASH_def kMinNumBuckets_def
      sizeof_LHASH_ITEM_def OPENSSL_MALLOC_PREFIX_def)

theorem lh_refines_map_witness:
  "\<exists>lh lh'. OPENSSL_lh_new generous pair_hash pair_cmp = Some lh \<and>
    run_map_ops (OPENSSL_lh_insert generous) (OPENSSL_lh_delete generous) lh pair_ops = Some lh' \<and>
    OPENSSL_lh_retrieve lh' (1, 0) = Some (1, 30) \<and> OPENSSL_lh_retrieve lh' (17, 0) = None"
proof -
  have m: "foldl (map_op_sem (\<lambda>d x. pair_cmp d x = 0)) (\<lambda>_. None) pair_ops (1, 0) = Some (1, 30)"
    "foldl (map_op_sem (\<lambda>d x. pair_cmp d x = 0)) (\<lambda>_. None) pair_ops (17, 0) = None"
    by (simp_all add: pair_ops_def pair_cmp_def)
  show ?thesis
    using lh_refines_map [OF pair_key_ok new_generous, of pair_ops] new_generous(1) [of pair_hash pair_cmp] m by auto
qed

text \<open>The table stores each key once, under the bucket its hash selects: after any sequence of operations the invariant of
  the buckets holds and \<open>OPENSSL_lh_num_items\<close> is the number of objects a lookup can find (as a \<open>size_t\<close>).\<close>

lemma lh_counts_items:
  assumes "key_ok hash cmp" and "OPENSSL_lh_new mem hash cmp = Some lh"
    and "run_map_ops (OPENSSL_lh_insert mem) (OPENSSL_lh_delete mem) lh ops = Some lh'"
  shows "table_ok hash cmp lh' \<and> OPENSSL_lh_num_items lh' = card {d. OPENSSL_lh_retrieve lh' d = Some d} mod SIZE_MOD"
proof -
  note ok = run_from_new(1) [OF assms]
  then have "num_items lh' = length (items lh') mod SIZE_MOD" by (simp add: table_ok_def)
  with ok items_card [OF ok] show ?thesis by (simp add: OPENSSL_lh_num_items_def)
qed

definition pair_table :: "(nat \<times> nat) LHASH" where
  "pair_table = the (run_map_ops (OPENSSL_lh_insert generous) (OPENSSL_lh_delete generous)
     (the (OPENSSL_lh_new generous pair_hash pair_cmp)) pair_ops)"

lemma pair_table_run:
  "OPENSSL_lh_new generous pair_hash pair_cmp = Some (the (OPENSSL_lh_new generous pair_hash pair_cmp))"
  "run_map_ops (OPENSSL_lh_insert generous) (OPENSSL_lh_delete generous) (the (OPENSSL_lh_new generous pair_hash pair_cmp)) pair_ops
    = Some pair_table"
  using run_succeeds [OF new_generous(2), of "the (OPENSSL_lh_new generous pair_hash pair_cmp)" pair_ops]
  by (auto simp: pair_table_def new_generous(1) [of pair_hash pair_cmp])

lemma pair_table_lookup: "OPENSSL_lh_retrieve pair_table d = (if fst d = 1 then Some (1, 30) else None)"
  unfolding run_from_new(2) [OF pair_key_ok pair_table_run] by (simp add: pair_ops_def pair_cmp_def)

text \<open>\<open>OPENSSL_lh_doall_arg\<close> calls back once for each stored object and for nothing else, and leaves a table in which every lookup
  answers as before, also when it shrinks or grows at the end.\<close>

lemma lh_doall_visits_all:
  assumes "key_ok hash cmp" and "OPENSSL_lh_new mem hash cmp = Some lh"
    and "run_map_ops (OPENSSL_lh_insert mem) (OPENSSL_lh_delete mem) lh ops = Some lh'"
  shows "\<exists>ds. distinct ds \<and> set ds = {d. OPENSSL_lh_retrieve lh' d = Some d} \<and>
    fst (OPENSSL_lh_doall_arg mem lh' func arg) = fold func ds arg \<and>
    OPENSSL_lh_retrieve (snd (OPENSSL_lh_doall_arg mem lh' func arg)) x = OPENSSL_lh_retrieve lh' x"
proof -
  note ok = run_from_new(1) [OF assms]
  show ?thesis
    using items_distinct [OF ok] stored_iff [OF ok] doall_table(2) [OF ok]
    by (intro exI [of _ "items lh'"]) (auto simp: doall_fold)
qed

end
