(* ===== verification/Buf.thy ===== *)
theory Buf
  imports Mem "HOL-Library.Code_Target_Nat"
begin

text \<open>
  The growable buffer of \<^verbatim>\<open>crypto/buf/buf.c\<close>: \<open>BUF_MEM\<close> with its operations, and the contract they keep. The block behind
  \<open>data\<close> is a list of bytes of length \<open>max\<close>, or \<open>None\<close> for the null pointer of a new buffer.
\<close>

section \<open>Operations\<close>

record BUF_MEM =
  bm_length :: nat
  bm_data :: "byte list option"
  bm_max :: nat

definition sizeof_BUF_MEM :: nat where
  "sizeof_BUF_MEM = 24"

definition BUF_MEM_new :: "allocator \<Rightarrow> BUF_MEM option" where
  "BUF_MEM_new mem = (case OPENSSL_malloc mem sizeof_BUF_MEM of
      None \<Rightarrow> None
    | Some _ \<Rightarrow> Some \<lparr>bm_length = 0, bm_data = None, bm_max = 0\<rparr>)"

definition BUF_MEM_reserve :: "allocator \<Rightarrow> BUF_MEM \<Rightarrow> nat \<Rightarrow> bool \<times> BUF_MEM" where
  "BUF_MEM_reserve mem buf cap =
     (if bm_max buf \<ge> cap then (True, buf)
      else let n = (cap + 3) mod SIZE_MOD
        in if n < cap then (False, buf)
           else let n = n div 3;
                    alloc_size = n * 4 mod SIZE_MOD
             in if alloc_size div 4 \<noteq> n then (False, buf)
                else case OPENSSL_realloc mem (bm_data buf) alloc_size of
                    None \<Rightarrow> (False, buf)
                  | Some new_buf \<Rightarrow> (True, buf\<lparr>bm_data := Some new_buf, bm_max := alloc_size\<rparr>))"

text \<open>A write of \<open>bytes\<close> at offset \<open>off\<close> of the block; through a null pointer only an empty one is made.\<close>

definition write_data :: "BUF_MEM \<Rightarrow> nat \<Rightarrow> byte list \<Rightarrow> BUF_MEM" where
  "write_data buf off bytes = buf\<lparr>bm_data := map_option (\<lambda>data. OPENSSL_memcpy data off bytes) (bm_data buf)\<rparr>"

definition BUF_MEM_grow :: "allocator \<Rightarrow> BUF_MEM \<Rightarrow> nat \<Rightarrow> nat \<times> BUF_MEM" where
  "BUF_MEM_grow mem buf len = (case BUF_MEM_reserve mem buf len of
      (False, buf) \<Rightarrow> (0, buf)
    | (True, buf) \<Rightarrow>
        let buf = (if bm_length buf < len then write_data buf (bm_length buf) (replicate (len - bm_length buf) 0) else buf)
        in (len, buf\<lparr>bm_length := len\<rparr>))"

definition BUF_MEM_grow_clean :: "allocator \<Rightarrow> BUF_MEM \<Rightarrow> nat \<Rightarrow> nat \<times> BUF_MEM" where
  "BUF_MEM_grow_clean mem buf len = BUF_MEM_grow mem buf len"

text \<open>\<open>inp\<close> is the list of the \<open>len\<close> bytes at \<open>in\<close>.\<close>

definition BUF_MEM_append :: "allocator \<Rightarrow> BUF_MEM \<Rightarrow> byte list \<Rightarrow> bool \<times> BUF_MEM" where
  "BUF_MEM_append mem buf inp =
     (let len = length inp
      in if len = 0 then (True, buf)
         else let new_len = (bm_length buf + len) mod SIZE_MOD
           in if new_len < len then (False, buf)
              else case BUF_MEM_reserve mem buf new_len of
                  (False, buf) \<Rightarrow> (False, buf)
                | (True, buf) \<Rightarrow> (True, (write_data buf (bm_length buf) inp)\<lparr>bm_length := new_len\<rparr>))"

definition BUF_strdup :: "allocator \<Rightarrow> byte list option \<Rightarrow> byte list option" where
  "BUF_strdup mem str = OPENSSL_strdup mem str"

definition BUF_strnlen :: "byte list \<Rightarrow> nat \<Rightarrow> nat" where
  "BUF_strnlen str max_len = OPENSSL_strnlen str max_len"

definition BUF_strndup :: "allocator \<Rightarrow> byte list \<Rightarrow> nat \<Rightarrow> byte list option" where
  "BUF_strndup mem str sz = OPENSSL_strndup mem str sz"

definition BUF_strlcpy :: "byte list \<Rightarrow> byte list \<Rightarrow> nat \<Rightarrow> byte list \<times> nat" where
  "BUF_strlcpy dst src dst_size = OPENSSL_strlcpy dst src dst_size"

definition BUF_strlcat :: "byte list \<Rightarrow> byte list \<Rightarrow> nat \<Rightarrow> byte list \<times> nat" where
  "BUF_strlcat dst src dst_size = OPENSSL_strlcat dst src dst_size"

definition BUF_memdup :: "allocator \<Rightarrow> byte list \<Rightarrow> byte list option" where
  "BUF_memdup mem data = OPENSSL_memdup mem data"

section \<open>Calls in sequence\<close>

datatype buf_call = Append "byte list" | Grow nat | Reserve nat

fun buf_call_run :: "allocator \<Rightarrow> BUF_MEM \<Rightarrow> buf_call \<Rightarrow> bool \<times> BUF_MEM" where
  "buf_call_run mem buf (Append inp) = BUF_MEM_append mem buf inp"
| "buf_call_run mem buf (Grow n) = (case BUF_MEM_grow mem buf n of (r, buf') \<Rightarrow> (r = n, buf'))"
| "buf_call_run mem buf (Reserve n) = BUF_MEM_reserve mem buf n"

fun buf_run :: "allocator \<Rightarrow> BUF_MEM \<Rightarrow> buf_call list \<Rightarrow> bool list \<times> BUF_MEM" where
  "buf_run mem buf [] = ([], buf)"
| "buf_run mem buf (c # cs) = (case buf_call_run mem buf c of
      (r, buf') \<Rightarrow> (case buf_run mem buf' cs of (rs, buf'') \<Rightarrow> (r # rs, buf'')))"

text \<open>The specification: a byte string, with growth padding with zeros or cutting.\<close>

fun buf_call_sem :: "byte list \<Rightarrow> buf_call \<Rightarrow> byte list" where
  "buf_call_sem w (Append inp) = w @ inp"
| "buf_call_sem w (Grow n) = take n w @ replicate (n - length w) 0"
| "buf_call_sem w (Reserve n) = w"

fun buf_sem :: "byte list \<Rightarrow> buf_call list \<Rightarrow> bool list \<Rightarrow> byte list" where
  "buf_sem w (c # cs) (r # rs) = buf_sem (if r then buf_call_sem w c else w) cs rs"
| "buf_sem w cs rs = w"

fun buf_arg :: "buf_call \<Rightarrow> bool" where
  "buf_arg (Append inp) \<longleftrightarrow> length inp < SIZE_MOD"
| "buf_arg (Grow n) \<longleftrightarrow> n < SIZE_MOD"
| "buf_arg (Reserve n) \<longleftrightarrow> n < SIZE_MOD"

definition bm_block :: "BUF_MEM \<Rightarrow> byte list" where
  "bm_block buf = (case bm_data buf of None \<Rightarrow> [] | Some data \<Rightarrow> data)"

definition bm_bytes :: "BUF_MEM \<Rightarrow> byte list" where
  "bm_bytes buf = take (bm_length buf) (bm_block buf)"

definition bm_ok :: "BUF_MEM \<Rightarrow> bool" where
  "bm_ok buf \<longleftrightarrow> length (bm_block buf) = bm_max buf \<and> bm_length buf \<le> bm_max buf \<and> bm_max buf < SIZE_MOD"

section \<open>The contract\<close>

lemma realloc_block:
  assumes "OPENSSL_realloc mem (bm_data buf) n = Some p" and "n < SIZE_MOD" and "k \<le> length (bm_block buf)" and "k \<le> n"
  shows "length p = n" "take k p = take k (bm_block buf)"
proof -
  show "length p = n" by (rule length_OPENSSL_realloc [OF assms(1,2)])
  show "take k p = take k (bm_block buf)"
    using assms OPENSSL_realloc_keeps [of mem "bm_block buf" n p k] by (cases "bm_data buf") (simp_all add: bm_block_def)
qed

lemma times_4_fits: "n * 4 mod SIZE_MOD div 4 = n \<Longrightarrow> n * 4 mod SIZE_MOD = n * 4" for n :: nat
  using mult_mod_left [of n 4611686018427387904 4] by simp

lemma reserve_size: "cap < n * 4" if "n = (cap + 3) div 3" for n cap :: nat
  using that by simp

lemma reserve_done:
  assumes ok: "bm_ok buf" and r: "BUF_MEM_reserve mem buf cap = (True, buf')" and cap: "cap < SIZE_MOD"
  shows "bm_ok buf'" "bm_bytes buf' = bm_bytes buf" "bm_length buf' = bm_length buf" "cap \<le> bm_max buf'"
proof -
  have "bm_ok buf' \<and> bm_bytes buf' = bm_bytes buf \<and> bm_length buf' = bm_length buf \<and> cap \<le> bm_max buf'"
  proof (cases "bm_max buf \<ge> cap")
    case True
    with r ok show ?thesis by (simp add: BUF_MEM_reserve_def)
  next
    case False
    let ?n = "(cap + 3) div 3"
    let ?sz = "?n * 4 mod SIZE_MOD"
    have "\<not> (cap + 3) mod SIZE_MOD < cap"
      using r False by (auto simp: BUF_MEM_reserve_def Let_def split: if_splits)
    then have m: "(cap + 3) mod SIZE_MOD = cap + 3" using cap by (auto simp: mod_if split: if_splits)
    have fit: "?sz div 4 = ?n" using r False m by (simp add: BUF_MEM_reserve_def Let_def split: if_splits)
    obtain p where p: "OPENSSL_realloc mem (bm_data buf) ?sz = Some p" and buf': "buf' = buf\<lparr>bm_data := Some p, bm_max := ?sz\<rparr>"
      using r False m fit by (auto simp: BUF_MEM_reserve_def Let_def split: option.splits)
    have "?sz = ?n * 4" using fit by (rule times_4_fits)
    then have sz: "cap < ?sz" using reserve_size [OF refl, of cap] by simp
    have l: "length p = ?sz" "take (bm_length buf) p = take (bm_length buf) (bm_block buf)"
      using realloc_block [OF p, of "bm_length buf"] ok False sz by (simp_all add: bm_ok_def)
    have "?sz < SIZE_MOD" by simp
    with ok False sz l buf' show ?thesis by (simp add: bm_ok_def bm_bytes_def bm_block_def)
  qed
  then show "bm_ok buf'" "bm_bytes buf' = bm_bytes buf" "bm_length buf' = bm_length buf" "cap \<le> bm_max buf'" by simp_all
qed

lemma reserve_fails: "BUF_MEM_reserve mem buf cap = (False, buf') \<Longrightarrow> buf' = buf \<and> cap \<noteq> 0"
  by (auto simp: BUF_MEM_reserve_def Let_def split: if_splits option.splits)

text \<open>A write that ends within the block and starts at the end of the contents.\<close>

lemma write_ok:
  assumes "bm_ok buf" and "bm_length buf + length bytes \<le> bm_max buf"
  shows "bm_ok ((write_data buf (bm_length buf) bytes)\<lparr>bm_length := bm_length buf + length bytes\<rparr>)"
    "bm_bytes ((write_data buf (bm_length buf) bytes)\<lparr>bm_length := bm_length buf + length bytes\<rparr>) = bm_bytes buf @ bytes"
  using assms by (cases "bytes = []"; fastforce simp: bm_ok_def bm_bytes_def bm_block_def write_data_def OPENSSL_memcpy_def
      split: option.splits)+

lemma append_step:
  assumes ok: "bm_ok buf" and arg: "length inp < SIZE_MOD" and a: "BUF_MEM_append mem buf inp = (r, buf')"
  shows "bm_ok buf' \<and> bm_bytes buf' = (if r then bm_bytes buf @ inp else bm_bytes buf)"
proof (cases "inp = []")
  case True
  with a ok show ?thesis by (simp add: BUF_MEM_append_def)
next
  case False
  let ?n = "(bm_length buf + length inp) mod SIZE_MOD"
  show ?thesis
  proof (cases "?n < length inp \<or> \<not> fst (BUF_MEM_reserve mem buf ?n)")
    case True
    with False a ok reserve_fails [of mem buf ?n] show ?thesis
      by (auto simp: BUF_MEM_append_def Let_def split: if_splits prod.splits bool.splits)
  next
    case False': False
    then obtain buf1 where r1: "BUF_MEM_reserve mem buf ?n = (True, buf1)" by (cases "BUF_MEM_reserve mem buf ?n") auto
    have n: "?n = bm_length buf + length inp" using False' ok arg by (auto simp: bm_ok_def mod_if split: if_splits)
    note d = reserve_done [OF ok r1]
    have d': "bm_ok buf1" "bm_bytes buf1 = bm_bytes buf" "bm_length buf1 = bm_length buf" "?n \<le> bm_max buf1"
      using d by simp_all
    have "buf' = (write_data buf1 (bm_length buf1) inp)\<lparr>bm_length := bm_length buf1 + length inp\<rparr>" "r"
      using a False False' r1 n d'(3) by (auto simp: BUF_MEM_append_def Let_def)
    with write_ok [OF d'(1), of inp] d' n show ?thesis by simp
  qed
qed

lemma grow_step:
  assumes ok: "bm_ok buf" and arg: "n < SIZE_MOD" and g: "BUF_MEM_grow mem buf n = (r, buf')"
  shows "bm_ok buf' \<and> bm_bytes buf' = (if r = n then buf_call_sem (bm_bytes buf) (Grow n) else bm_bytes buf)"
proof (cases "BUF_MEM_reserve mem buf n")
  case (Pair b buf1)
  show ?thesis
  proof (cases b)
    case False
    with Pair reserve_fails [of mem buf n buf1] g ok show ?thesis by (simp add: BUF_MEM_grow_def)
  next
    case True
    with Pair have r1: "BUF_MEM_reserve mem buf n = (True, buf1)" by simp
    note d = reserve_done [OF ok r1 arg]
    have l: "length (bm_bytes buf) = bm_length buf" using ok by (simp add: bm_ok_def bm_bytes_def)
    show ?thesis
    proof (cases "bm_length buf1 < n")
      case True
      then have "buf' = (write_data buf1 (bm_length buf1) (replicate (n - bm_length buf1) 0))\<lparr>bm_length := n\<rparr>" "r = n"
        using g r1 by (auto simp: BUF_MEM_grow_def Let_def)
      with write_ok [OF d(1), of "replicate (n - bm_length buf1) 0"] True d l show ?thesis by simp
    next
      case False
      then have "buf' = buf1\<lparr>bm_length := n\<rparr>" "r = n" using g r1 by (auto simp: BUF_MEM_grow_def Let_def)
      moreover from this have "bm_bytes buf' = take n (bm_bytes buf1)" using False by (simp add: bm_bytes_def bm_block_def min_def)
      ultimately show ?thesis using d l False by (simp add: bm_ok_def bm_block_def)
    qed
  qed
qed

lemma call_step:
  assumes "bm_ok buf" and "buf_arg c" and "buf_call_run mem buf c = (r, buf')"
  shows "bm_ok buf' \<and> bm_bytes buf' = (if r then buf_call_sem (bm_bytes buf) c else bm_bytes buf)"
proof (cases c)
  case (Append inp)
  with append_step [of buf inp mem r buf'] assms show ?thesis by simp
next
  case (Grow n)
  with grow_step [of buf n mem _ buf'] assms show ?thesis by (auto split: prod.splits)
next
  case (Reserve n)
  with reserve_done(1,2) [of buf mem n buf'] reserve_fails [of mem buf n buf'] assms show ?thesis by (cases r) auto
qed

lemma run_steps:
  "bm_ok buf \<Longrightarrow> list_all buf_arg cs \<Longrightarrow> buf_run mem buf cs = (rs, buf') \<Longrightarrow>
    bm_ok buf' \<and> length rs = length cs \<and> bm_bytes buf' = buf_sem (bm_bytes buf) cs rs"
proof (induction cs arbitrary: buf rs buf')
  case (Cons c cs)
  obtain r buf1 where c: "buf_call_run mem buf c = (r, buf1)" by fastforce
  obtain rs1 buf2 where rs: "buf_run mem buf1 cs = (rs1, buf2)" by fastforce
  from Cons.prems call_step [OF Cons.prems(1) _ c] have "bm_ok buf1" by simp
  from Cons.IH [OF this _ rs] Cons.prems c rs call_step [OF Cons.prems(1) _ c] show ?case by auto
qed simp

lemma new_buf: "BUF_MEM_new mem = Some buf \<Longrightarrow> bm_ok buf \<and> bm_bytes buf = []"
  by (auto simp: BUF_MEM_new_def bm_ok_def bm_bytes_def bm_block_def split: option.splits)

section \<open>Properties\<close>

text \<open>C28: A \<open>BUF_MEM\<close> implements a byte string: after any sequence of calls, in which any may fail, the length is within the
  block, the block has the recorded size, and the contents are those of the calls that reported success; a call that
  fails changes nothing.\<close>

theorem buf_mem_refines:
  assumes "BUF_MEM_new mem = Some buf" and "list_all buf_arg cs" and "buf_run mem buf cs = (rs, buf')"
  shows "bm_ok buf' \<and> length rs = length cs \<and> bm_bytes buf' = buf_sem [] cs rs"
  using run_steps [OF _ assms(2,3)] new_buf [OF assms(1)] by simp

text \<open>Two appends, the first of which makes the block, a growth and a cut.\<close>

theorem buf_mem_refines_witness:
  "\<exists>buf rs buf'. BUF_MEM_new generous = Some buf \<and> buf_run generous buf [Append [1, 2], Grow 4, Append [3], Grow 1] = (rs, buf') \<and>
    bm_ok buf' \<and> rs = [True, True, True, True] \<and> bm_bytes buf' = [1]"
proof -
  let ?cs = "[Append [1, 2], Grow 4, Append [3], Grow 1]"
  obtain buf where buf: "BUF_MEM_new generous = Some buf"
    by (simp add: BUF_MEM_new_def OPENSSL_malloc_def malloc_def generous_def sizeof_BUF_MEM_def OPENSSL_MALLOC_PREFIX_def)
  obtain rs buf' where run: "buf_run generous buf ?cs = (rs, buf')" by fastforce
  have "fst (buf_run generous (the (BUF_MEM_new generous)) ?cs) = [True, True, True, True]" by code_simp
  with buf run have "rs = [True, True, True, True]" by simp
  with buf run buf_mem_refines [OF buf _ run] show ?thesis by simp
qed

end
