(* ===== verification/I2D.thy ===== *)
theory I2D
  imports CBB_Machine
begin

text \<open>
  \<open>CBB_finish_i2d\<close> of \<^verbatim>\<open>crypto/bytestring/asn1_compat.c\<close>, which ends a builder in the manner of the old \<open>i2d\<close> functions: with a
  null \<open>outp\<close> it only gives the length, with \<open>*outp\<close> null it hands over the block, and otherwise it writes at \<open>*outp\<close> and
  advances it. A non-null \<open>*outp\<close> is a block with a position in it. The assertion that the builder can grow is
  a condition on the caller.
\<close>

abbreviation INT_MAX :: nat where
  "INT_MAX \<equiv> 2147483647"

type_synonym i2d_out = "(byte list \<times> nat) option option"

definition CBB_finish_i2d :: "allocator \<Rightarrow> CBB \<Rightarrow> nat \<Rightarrow> i2d_out \<Rightarrow> int \<times> i2d_out \<times> CBB" where
  "CBB_finish_i2d mem cbb d outp = (case CBB_finish mem cbb d True of
      (None, cbb) \<Rightarrow> (- 1, outp, CBB_cleanup cbb d)
    | (Some der, cbb) \<Rightarrow>
        if length der > INT_MAX then (- 1, outp, cbb)
        else (int (length der),
              (case outp of
                 None \<Rightarrow> None
               | Some None \<Rightarrow> Some (Some (der, 0))
               | Some (Some (buf, pos)) \<Rightarrow> Some (Some (OPENSSL_memcpy buf pos der, pos + length der))),
              cbb))"

section \<open>Measuring and writing\<close>

lemma i2d_fails: "fst (CBB_finish_i2d mem cbb d outp) < 0 \<Longrightarrow> fst (snd (CBB_finish_i2d mem cbb d outp)) = outp"
  by (auto simp: CBB_finish_i2d_def split: prod.splits option.splits if_splits)

lemma i2d_length: "fst (CBB_finish_i2d mem cbb d outp) = fst (CBB_finish_i2d mem cbb d None)"
  by (auto simp: CBB_finish_i2d_def split: prod.splits option.splits)

lemma i2d_writes:
  assumes r: "CBB_finish_i2d mem cbb d (Some (Some (buf, pos))) = (int n, out, cbb')" and room: "pos + n \<le> length buf"
  shows "\<exists>der buf'. fst (CBB_finish mem cbb d True) = Some der \<and> length der = n \<and> out = Some (Some (buf', pos + n)) \<and>
    length buf' = length buf \<and> take n (drop pos buf') = der \<and> take pos buf' = take pos buf \<and> drop (pos + n) buf' = drop (pos + n) buf"
proof -
  obtain der where "fst (CBB_finish mem cbb d True) = Some der" "length der = n"
    "out = Some (Some (OPENSSL_memcpy buf pos der, pos + n))"
    using r by (auto simp: CBB_finish_i2d_def split: prod.splits option.splits if_splits)
  with room show ?thesis by (intro exI [of _ der] exI [of _ "OPENSSL_memcpy buf pos der"]) (simp add: OPENSSL_memcpy_def)
qed

end
