(* ===== verification/Bio.thy ===== *)
theory Bio
  imports Mem
begin

text \<open>
  The BIO layer of \<^verbatim>\<open>crypto/bio/bio.c\<close> over the in-memory pair of \<^verbatim>\<open>crypto/bio/pair.c\<close>. The two halves of a pair point at each other,
  so objects live in a store: a map from addresses to \<open>BIO\<close>s. An operation gives \<open>None\<close> where the code would fail an
  assertion, abort or follow a dangling pointer, and otherwise its result and the store after it. The records that
  \<open>OPENSSL_PUT_ERROR\<close> leaves in the error queue are not part of this state.
\<close>

unbundle bit_operations_syntax

section \<open>Data\<close>

definition BIO_FLAGS_READ :: u32 where "BIO_FLAGS_READ = 0x01"

definition BIO_FLAGS_WRITE :: u32 where "BIO_FLAGS_WRITE = 0x02"

definition BIO_FLAGS_IO_SPECIAL :: u32 where "BIO_FLAGS_IO_SPECIAL = 0x04"

definition BIO_FLAGS_RWS :: u32 where "BIO_FLAGS_RWS = BIO_FLAGS_READ OR BIO_FLAGS_WRITE OR BIO_FLAGS_IO_SPECIAL"

definition BIO_FLAGS_SHOULD_RETRY :: u32 where "BIO_FLAGS_SHOULD_RETRY = 0x08"

definition kRetryFlags :: u32 where "kRetryFlags = BIO_FLAGS_RWS OR BIO_FLAGS_SHOULD_RETRY"

record bio_bio_st =
  bb_peer :: "nat option"
  bb_closed :: bool
  bb_len :: nat
  bb_offset :: nat
  bb_size :: nat
  bb_buf :: "byte list option"
  bb_request :: nat

text \<open>The only method table of the model is \<open>methods_biop\<close>.\<close>

datatype BIO_METHOD = methods_biop

record BIO =
  bio_method :: "BIO_METHOD option"
  bio_init :: bool
  bio_shutdown :: int
  bio_flags :: u32
  bio_retry_reason :: int
  bio_num :: int
  bio_references :: u32
  bio_ptr :: "bio_bio_st option"
  bio_next :: "nat option"
  bio_num_read :: nat
  bio_num_write :: nat

type_synonym store = "nat \<Rightarrow> BIO option"

definition sizeof_BIO :: nat where "sizeof_BIO = 80"

definition sizeof_bio_bio_st :: nat where "sizeof_bio_bio_st = 56"

section \<open>Flags and counters\<close>

definition BIO_set_flags :: "BIO \<Rightarrow> u32 \<Rightarrow> BIO" where
  "BIO_set_flags bio flags = bio\<lparr>bio_flags := bio_flags bio OR flags\<rparr>"

definition BIO_test_flags :: "BIO \<Rightarrow> u32 \<Rightarrow> u32" where
  "BIO_test_flags bio flags = bio_flags bio AND flags"

definition BIO_should_read :: "BIO \<Rightarrow> u32" where
  "BIO_should_read bio = BIO_test_flags bio BIO_FLAGS_READ"

definition BIO_should_write :: "BIO \<Rightarrow> u32" where
  "BIO_should_write bio = BIO_test_flags bio BIO_FLAGS_WRITE"

definition BIO_should_retry :: "BIO \<Rightarrow> u32" where
  "BIO_should_retry bio = BIO_test_flags bio BIO_FLAGS_SHOULD_RETRY"

definition BIO_should_io_special :: "BIO \<Rightarrow> u32" where
  "BIO_should_io_special bio = BIO_test_flags bio BIO_FLAGS_IO_SPECIAL"

definition BIO_get_retry_reason :: "BIO \<Rightarrow> int" where
  "BIO_get_retry_reason bio = bio_retry_reason bio"

definition BIO_set_retry_reason :: "BIO \<Rightarrow> int \<Rightarrow> BIO" where
  "BIO_set_retry_reason bio reason = bio\<lparr>bio_retry_reason := reason\<rparr>"

definition BIO_clear_flags :: "BIO \<Rightarrow> u32 \<Rightarrow> BIO" where
  "BIO_clear_flags bio flags = bio\<lparr>bio_flags := bio_flags bio AND NOT flags\<rparr>"

definition BIO_set_retry_read :: "BIO \<Rightarrow> BIO" where
  "BIO_set_retry_read bio = bio\<lparr>bio_flags := bio_flags bio OR (BIO_FLAGS_READ OR BIO_FLAGS_SHOULD_RETRY)\<rparr>"

definition BIO_set_retry_write :: "BIO \<Rightarrow> BIO" where
  "BIO_set_retry_write bio = bio\<lparr>bio_flags := bio_flags bio OR (BIO_FLAGS_WRITE OR BIO_FLAGS_SHOULD_RETRY)\<rparr>"

definition BIO_get_retry_flags :: "BIO \<Rightarrow> u32" where
  "BIO_get_retry_flags bio = bio_flags bio AND kRetryFlags"

definition BIO_clear_retry_flags :: "BIO \<Rightarrow> BIO" where
  "BIO_clear_retry_flags bio = bio\<lparr>bio_flags := bio_flags bio AND NOT kRetryFlags, bio_retry_reason := 0\<rparr>"

definition BIO_number_read :: "BIO \<Rightarrow> nat" where
  "BIO_number_read bio = bio_num_read bio"

definition BIO_number_written :: "BIO \<Rightarrow> nat" where
  "BIO_number_written bio = bio_num_write bio"

text \<open>The reference count, without other threads; \<open>None\<close> is the call of \<open>abort\<close>.\<close>

definition CRYPTO_refcount_inc :: "u32 \<Rightarrow> u32" where
  "CRYPTO_refcount_inc count = (if count \<noteq> 0xffffffff then count + 1 else count)"

definition CRYPTO_refcount_dec_and_test_zero :: "u32 \<Rightarrow> (bool \<times> u32) option" where
  "CRYPTO_refcount_dec_and_test_zero count =
     (if count = 0 then None
      else if count = 0xffffffff then Some (False, count)
      else let new_value = count - 1 in Some (new_value = 0, new_value))"

section \<open>The pair\<close>

definition bio_new :: "allocator \<Rightarrow> BIO \<Rightarrow> BIO option" where
  "bio_new mem bio = (case OPENSSL_malloc mem sizeof_bio_bio_st of
      None \<Rightarrow> None
    | Some _ \<Rightarrow> Some (bio\<lparr>bio_ptr := Some \<lparr>bb_peer = None, bb_closed = False, bb_len = 0, bb_offset = 0,
        bb_size = 17 * 1024, bb_buf = None, bb_request = 0\<rparr>\<rparr>))"

definition bio_destroy_pair :: "store \<Rightarrow> nat \<Rightarrow> store option" where
  "bio_destroy_pair st a = (case st a of
      None \<Rightarrow> None
    | Some bio \<Rightarrow>
        (case bio_ptr bio of
           None \<Rightarrow> Some st
         | Some b \<Rightarrow>
             (case bb_peer b of
                None \<Rightarrow> Some st
              | Some p \<Rightarrow>
                  (case st p of
                     None \<Rightarrow> None
                   | Some peer_bio \<Rightarrow>
                       (case bio_ptr peer_bio of
                          None \<Rightarrow> None
                        | Some peer_b \<Rightarrow>
                            if bb_peer peer_b \<noteq> Some a \<or> bb_buf peer_b = None \<or> bb_buf b = None then None
                            else Some (st
                              (p \<mapsto> peer_bio\<lparr>bio_init := False, bio_ptr := Some (peer_b\<lparr>bb_peer := None, bb_len := 0, bb_offset := 0\<rparr>)\<rparr>,
                               a \<mapsto> bio\<lparr>bio_init := False, bio_ptr := Some (b\<lparr>bb_peer := None, bb_len := 0, bb_offset := 0\<rparr>)\<rparr>)))))))"

definition bio_free :: "store \<Rightarrow> nat \<Rightarrow> store option" where
  "bio_free st a = (case st a of
      None \<Rightarrow> None
    | Some bio \<Rightarrow>
        (case bio_ptr bio of
           None \<Rightarrow> None
         | Some b \<Rightarrow> if bb_peer b \<noteq> None then bio_destroy_pair st a else Some st))"

text \<open>One round of the copying loop of \<open>bio_read\<close>: the bytes copied, the peer's structure and what is left to copy.\<close>

definition bio_read_round :: "bio_bio_st \<Rightarrow> nat \<Rightarrow> (byte list \<times> bio_bio_st \<times> nat) option" where
  "bio_read_round peer_b rest = (case bb_buf peer_b of
      None \<Rightarrow> None
    | Some data \<Rightarrow>
        let chunk = (if (bb_offset peer_b + rest) mod SIZE_MOD \<le> bb_size peer_b then rest else bb_size peer_b - bb_offset peer_b);
            new_len = bb_len peer_b - chunk;
            new_offset = bb_offset peer_b + chunk
        in if \<not> rest \<le> bb_len peer_b \<or> \<not> bb_offset peer_b + chunk \<le> bb_size peer_b then None
           else if new_len = 0 \<and> chunk \<noteq> rest then None
           else Some (take chunk (drop (bb_offset peer_b) data),
                  peer_b\<lparr>bb_len := new_len,
                    bb_offset := (if new_len \<noteq> 0 then if new_offset = bb_size peer_b then 0 else new_offset else 0)\<rparr>,
                  rest - chunk))"

text \<open>A round uses one unit of fuel.\<close>

fun bio_read_loop :: "nat \<Rightarrow> bio_bio_st \<Rightarrow> byte list \<Rightarrow> nat \<Rightarrow> (byte list \<times> bio_bio_st) option" where
  "bio_read_loop 0 peer_b out rest = None"
| "bio_read_loop (Suc fuel) peer_b out rest = (case bio_read_round peer_b rest of
      None \<Rightarrow> None
    | Some (bytes, peer_b, rest) \<Rightarrow>
        if rest \<noteq> 0 then bio_read_loop fuel peer_b (out @ bytes) rest else Some (out @ bytes, peer_b))"

text \<open>One or two iterations, as the comment in the code says: two units of fuel. \<open>buf_given\<close> says that \<open>buf\<close> is not null; the result is the
  value returned, the bytes written at \<open>buf\<close> and the store.\<close>

definition bio_read :: "store \<Rightarrow> nat \<Rightarrow> bool \<Rightarrow> nat \<Rightarrow> (int \<times> byte list \<times> store) option" where
  "bio_read st a buf_given n = (case st a of
      None \<Rightarrow> None
    | Some bio \<Rightarrow>
        let bio = BIO_clear_retry_flags bio;
            st = st(a \<mapsto> bio)
        in if \<not> bio_init bio then Some (0, [], st)
           else (case bio_ptr bio of
               None \<Rightarrow> None
             | Some b \<Rightarrow>
                 (case bb_peer b of
                    None \<Rightarrow> None
                  | Some p \<Rightarrow>
                      (case st p of
                         None \<Rightarrow> None
                       | Some peer_bio \<Rightarrow>
                           (case bio_ptr peer_bio of
                              None \<Rightarrow> None
                            | Some peer_b \<Rightarrow>
                                if bb_buf peer_b = None then None
                                else let peer_b = peer_b\<lparr>bb_request := 0\<rparr>;
                                         st = st(p \<mapsto> peer_bio\<lparr>bio_ptr := Some peer_b\<rparr>)
                                in if \<not> buf_given \<or> n = 0 then Some (0, [], st)
                                   else if bb_len peer_b = 0 then
                                     if bb_closed peer_b then Some (0, [], st)
                                     else let peer_b = peer_b\<lparr>bb_request := (if n \<le> bb_size peer_b then n else bb_size peer_b)\<rparr>
                                       in Some (- 1, [], st(p \<mapsto> peer_bio\<lparr>bio_ptr := Some peer_b\<rparr>, a \<mapsto> BIO_set_retry_read bio))
                                   else let sz = (if bb_len peer_b < n then bb_len peer_b else n)
                                     in (case bio_read_loop 2 peer_b [] sz of
                                           None \<Rightarrow> None
                                         | Some (out, peer_b) \<Rightarrow>
                                             Some (int sz, out, st(p \<mapsto> peer_bio\<lparr>bio_ptr := Some peer_b\<rparr>))))))))"

definition bio_write_round :: "bio_bio_st \<Rightarrow> byte list \<Rightarrow> nat \<Rightarrow> (bio_bio_st \<times> byte list \<times> nat) option" where
  "bio_write_round b buf rest = (case bb_buf b of
      None \<Rightarrow> None
    | Some data \<Rightarrow>
        let write_offset = (bb_offset b + bb_len b) mod SIZE_MOD;
            write_offset = (if write_offset \<ge> bb_size b then write_offset - bb_size b else write_offset);
            chunk = (if (write_offset + rest) mod SIZE_MOD \<le> bb_size b then rest else bb_size b - write_offset)
        in if \<not> bb_len b + rest \<le> bb_size b \<or> \<not> bb_len b + chunk \<le> bb_size b then None
           else Some (b\<lparr>bb_buf := Some (OPENSSL_memcpy data write_offset (take chunk buf)), bb_len := bb_len b + chunk\<rparr>,
                  drop chunk buf, rest - chunk))"

fun bio_write_loop :: "nat \<Rightarrow> bio_bio_st \<Rightarrow> byte list \<Rightarrow> nat \<Rightarrow> bio_bio_st option" where
  "bio_write_loop 0 b buf rest = None"
| "bio_write_loop (Suc fuel) b buf rest = (case bio_write_round b buf rest of
      None \<Rightarrow> None
    | Some (b, buf, rest) \<Rightarrow> if rest \<noteq> 0 then bio_write_loop fuel b buf rest else Some b)"

text \<open>\<open>buf\<close> is the list of the \<open>n\<close> bytes at the pointer, \<open>None\<close> a null pointer.\<close>

definition bio_write :: "store \<Rightarrow> nat \<Rightarrow> byte list option \<Rightarrow> nat \<Rightarrow> (int \<times> store) option" where
  "bio_write st a buf n = (case st a of
      None \<Rightarrow> None
    | Some bio \<Rightarrow>
        let bio = BIO_clear_retry_flags bio;
            st = st(a \<mapsto> bio)
        in (case buf of
              None \<Rightarrow> Some (0, st)
            | Some buf \<Rightarrow>
                if \<not> bio_init bio \<or> n = 0 then Some (0, st)
                else (case bio_ptr bio of
                    None \<Rightarrow> None
                  | Some b \<Rightarrow>
                      if bb_peer b = None \<or> bb_buf b = None then None
                      else let b = b\<lparr>bb_request := 0\<rparr>;
                               st = st(a \<mapsto> bio\<lparr>bio_ptr := Some b\<rparr>)
                      in if bb_closed b then Some (- 1, st)
                         else if \<not> bb_len b \<le> bb_size b then None
                         else if bb_len b = bb_size b then
                           Some (- 1, st(a \<mapsto> BIO_set_retry_write (bio\<lparr>bio_ptr := Some b\<rparr>)))
                         else let num = (if n > bb_size b - bb_len b then bb_size b - bb_len b else n)
                           in (case bio_write_loop 2 b buf num of
                                 None \<Rightarrow> None
                               | Some b \<Rightarrow> Some (int num, st(a \<mapsto> bio\<lparr>bio_ptr := Some b\<rparr>))))))"

text \<open>Giving one half its buffer; the structure keeps its new size also when memory is refused.\<close>

definition pair_alloc :: "allocator \<Rightarrow> bio_bio_st \<Rightarrow> nat \<Rightarrow> bool \<times> bio_bio_st" where
  "pair_alloc mem b writebuf_len =
     (if bb_buf b = None then
        let b = (if writebuf_len \<noteq> 0 then b\<lparr>bb_size := writebuf_len\<rparr> else b)
        in (case OPENSSL_malloc mem (bb_size b) of
              None \<Rightarrow> (False, b)
            | Some buf \<Rightarrow> (True, b\<lparr>bb_buf := Some buf, bb_len := 0, bb_offset := 0\<rparr>))
      else (True, b))"

definition bio_make_pair :: "allocator \<Rightarrow> store \<Rightarrow> nat \<Rightarrow> nat \<Rightarrow> nat \<Rightarrow> nat \<Rightarrow> (bool \<times> store) option" where
  "bio_make_pair mem st a1 a2 writebuf1_len writebuf2_len = (case (st a1, st a2) of
      (Some bio1, Some bio2) \<Rightarrow>
        (case (bio_ptr bio1, bio_ptr bio2) of
           (Some b1, Some b2) \<Rightarrow>
             if bb_peer b1 \<noteq> None \<or> bb_peer b2 \<noteq> None then Some (False, st)
             else (case pair_alloc mem b1 writebuf1_len of
                 (False, b1) \<Rightarrow> Some (False, st(a1 \<mapsto> bio1\<lparr>bio_ptr := Some b1\<rparr>))
               | (True, b1) \<Rightarrow>
                   (case pair_alloc mem b2 writebuf2_len of
                      (False, b2) \<Rightarrow> Some (False, st(a1 \<mapsto> bio1\<lparr>bio_ptr := Some b1\<rparr>, a2 \<mapsto> bio2\<lparr>bio_ptr := Some b2\<rparr>))
                    | (True, b2) \<Rightarrow>
                        Some (True, st
                          (a1 \<mapsto> bio1\<lparr>bio_ptr := Some (b1\<lparr>bb_peer := Some a2, bb_closed := False, bb_request := 0\<rparr>), bio_init := True\<rparr>,
                           a2 \<mapsto> bio2\<lparr>bio_ptr := Some (b2\<lparr>bb_peer := Some a1, bb_closed := False, bb_request := 0\<rparr>), bio_init := True\<rparr>))))
         | _ \<Rightarrow> None)
    | _ \<Rightarrow> None)"

definition long_of :: "nat \<Rightarrow> int" where
  "long_of n = sint (of_nat n :: u64)"

datatype ctrl_cmd = BIO_C_GET_WRITE_BUF_SIZE | BIO_C_GET_WRITE_GUARANTEE | BIO_C_GET_READ_REQUEST | BIO_C_RESET_READ_REQUEST
  | BIO_C_SHUTDOWN_WR | BIO_CTRL_GET_CLOSE | BIO_CTRL_SET_CLOSE | BIO_CTRL_PENDING | BIO_CTRL_WPENDING | BIO_CTRL_FLUSH
  | BIO_CTRL_EOF | BIO_CTRL_other

text \<open>\<open>ptr\<close> is only used by \<open>BIO_CTRL_EOF\<close>, where it points to another half of a pair or is null.\<close>

definition bio_ctrl :: "store \<Rightarrow> nat \<Rightarrow> ctrl_cmd \<Rightarrow> int \<Rightarrow> nat option \<Rightarrow> (int \<times> store) option" where
  "bio_ctrl st a cmd num ptr = (case st a of
      None \<Rightarrow> None
    | Some bio \<Rightarrow>
        (case bio_ptr bio of
           None \<Rightarrow> None
         | Some b \<Rightarrow>
             (case cmd of
                BIO_C_GET_WRITE_BUF_SIZE \<Rightarrow> Some (long_of (bb_size b), st)
              | BIO_C_GET_WRITE_GUARANTEE \<Rightarrow>
                  Some (if bb_peer b = None \<or> bb_closed b then 0 else sint (of_nat (bb_size b) - of_nat (bb_len b) :: u64), st)
              | BIO_C_GET_READ_REQUEST \<Rightarrow> Some (long_of (bb_request b), st)
              | BIO_C_RESET_READ_REQUEST \<Rightarrow> Some (1, st(a \<mapsto> bio\<lparr>bio_ptr := Some (b\<lparr>bb_request := 0\<rparr>)\<rparr>))
              | BIO_C_SHUTDOWN_WR \<Rightarrow> Some (1, st(a \<mapsto> bio\<lparr>bio_ptr := Some (b\<lparr>bb_closed := True\<rparr>)\<rparr>))
              | BIO_CTRL_GET_CLOSE \<Rightarrow> Some (bio_shutdown bio, st)
              | BIO_CTRL_SET_CLOSE \<Rightarrow> Some (1, st(a \<mapsto> bio\<lparr>bio_shutdown := sint (word_of_int num :: u32)\<rparr>))
              | BIO_CTRL_PENDING \<Rightarrow>
                  (case bb_peer b of
                     None \<Rightarrow> Some (0, st)
                   | Some p \<Rightarrow>
                       (case st p of
                          None \<Rightarrow> None
                        | Some peer_bio \<Rightarrow> map_option (\<lambda>peer_b. (long_of (bb_len peer_b), st)) (bio_ptr peer_bio)))
              | BIO_CTRL_WPENDING \<Rightarrow> Some (if bb_buf b \<noteq> None then long_of (bb_len b) else 0, st)
              | BIO_CTRL_FLUSH \<Rightarrow> Some (1, st)
              | BIO_CTRL_EOF \<Rightarrow>
                  (case ptr of
                     None \<Rightarrow> Some (1, st)
                   | Some other \<Rightarrow>
                       (case st other of
                          None \<Rightarrow> None
                        | Some other_bio \<Rightarrow>
                            map_option (\<lambda>other_b. (of_bool (bb_len other_b = 0 \<and> bb_closed other_b), st)) (bio_ptr other_bio)))
              | BIO_CTRL_other \<Rightarrow> Some (0, st))))"

section \<open>The generic layer\<close>

text \<open>\<open>a\<close> is the address \<open>OPENSSL_malloc\<close> gives to the new object. The outer option is for a fault, the inner one for a null result.\<close>

definition BIO_new :: "allocator \<Rightarrow> store \<Rightarrow> nat \<Rightarrow> BIO_METHOD \<Rightarrow> nat option \<times> store" where
  "BIO_new mem st a method = (case OPENSSL_malloc mem sizeof_BIO of
      None \<Rightarrow> (None, st)
    | Some _ \<Rightarrow>
        (case bio_new mem \<lparr>bio_method = Some method, bio_init = False, bio_shutdown = 1, bio_flags = 0, bio_retry_reason = 0, bio_num = 0,
            bio_references = 1, bio_ptr = None, bio_next = None, bio_num_read = 0, bio_num_write = 0\<rparr> of
           None \<Rightarrow> (None, st)
         | Some bio \<Rightarrow> (Some a, st(a \<mapsto> bio))))"

definition BIO_up_ref :: "store \<Rightarrow> nat \<Rightarrow> (int \<times> store) option" where
  "BIO_up_ref st a = (case st a of
      None \<Rightarrow> None
    | Some bio \<Rightarrow> Some (1, st(a \<mapsto> bio\<lparr>bio_references := CRYPTO_refcount_inc (bio_references bio)\<rparr>)))"

definition BIO_pop :: "store \<Rightarrow> nat option \<Rightarrow> (nat option \<times> store) option" where
  "BIO_pop st bio = (case bio of
      None \<Rightarrow> Some (None, st)
    | Some a \<Rightarrow> map_option (\<lambda>bio. (bio_next bio, st(a \<mapsto> bio\<lparr>bio_next := None\<rparr>))) (st a))"

definition BIO_next :: "store \<Rightarrow> nat option \<Rightarrow> nat option option" where
  "BIO_next st bio = (case bio of None \<Rightarrow> Some None | Some a \<Rightarrow> map_option bio_next (st a))"

text \<open>One round of \<open>BIO_free\<close>: \<open>Inl\<close> is the early return, \<open>Inr\<close> the next object of the chain.\<close>

definition BIO_free_round :: "store \<Rightarrow> nat \<Rightarrow> (store + nat option \<times> store) option" where
  "BIO_free_round st a = (case st a of
      None \<Rightarrow> None
    | Some bio \<Rightarrow>
        (case CRYPTO_refcount_dec_and_test_zero (bio_references bio) of
           None \<Rightarrow> None
         | Some (zero, count) \<Rightarrow>
             let st = st(a \<mapsto> bio\<lparr>bio_references := count\<rparr>)
             in if \<not> zero then Some (Inl st)
                else (case BIO_pop st (Some a) of
                    None \<Rightarrow> None
                  | Some (next_bio, st) \<Rightarrow>
                      (case (if bio_method bio \<noteq> None then bio_free st a else Some st) of
                         None \<Rightarrow> None
                       | Some st \<Rightarrow> Some (Inr (next_bio, st(a := None)))))))"

text \<open>Each round takes an object out of the store; \<open>fuel\<close> bounds the length of the chain.\<close>

fun BIO_free :: "nat \<Rightarrow> store \<Rightarrow> nat option \<Rightarrow> (int \<times> store) option" where
  "BIO_free fuel st None = Some (1, st)"
| "BIO_free 0 st (Some a) = None"
| "BIO_free (Suc fuel) st (Some a) = (case BIO_free_round st a of
      None \<Rightarrow> None
    | Some (Inl st) \<Rightarrow> Some (0, st)
    | Some (Inr (next_bio, st)) \<Rightarrow> BIO_free fuel st next_bio)"

definition BIO_read :: "store \<Rightarrow> nat option \<Rightarrow> bool \<Rightarrow> int \<Rightarrow> (int \<times> byte list \<times> store) option" where
  "BIO_read st bio buf_given len = (case bio of
      None \<Rightarrow> Some (- 2, [], st)
    | Some a \<Rightarrow>
        (case st a of
           None \<Rightarrow> None
         | Some bio \<Rightarrow>
             if bio_method bio = None then Some (- 2, [], st)
             else if \<not> bio_init bio then Some (- 2, [], st)
             else if len \<le> 0 then Some (0, [], st)
             else (case bio_read st a buf_given (nat len) of
                 None \<Rightarrow> None
               | Some (ret, out, st) \<Rightarrow>
                   Some (ret, out, if ret > 0 then
                       st(a := map_option (\<lambda>bio. bio\<lparr>bio_num_read := (bio_num_read bio + nat ret) mod SIZE_MOD\<rparr>) (st a)) else st))))"

text \<open>\<open>inp\<close> holds the bytes at the pointer, of which \<open>inl\<close> are written.\<close>

definition BIO_write :: "store \<Rightarrow> nat option \<Rightarrow> byte list option \<Rightarrow> int \<Rightarrow> (int \<times> store) option" where
  "BIO_write st bio inp inl = (case bio of
      None \<Rightarrow> Some (- 2, st)
    | Some a \<Rightarrow>
        (case st a of
           None \<Rightarrow> None
         | Some bio \<Rightarrow>
             if bio_method bio = None then Some (- 2, st)
             else if \<not> bio_init bio then Some (- 2, st)
             else if inl \<le> 0 then Some (0, st)
             else (case bio_write st a inp (nat inl) of
                 None \<Rightarrow> None
               | Some (ret, st) \<Rightarrow>
                   Some (ret, if ret > 0 then
                       st(a := map_option (\<lambda>bio. bio\<lparr>bio_num_write := (bio_num_write bio + nat ret) mod SIZE_MOD\<rparr>) (st a)) else st))))"

abbreviation INT_MAX :: nat where
  "INT_MAX \<equiv> 2147483647"

text \<open>Every successful round of \<open>BIO_write_all\<close> writes at least one byte.\<close>

fun write_all_loop :: "nat \<Rightarrow> store \<Rightarrow> nat option \<Rightarrow> byte list \<Rightarrow> (bool \<times> store) option" where
  "write_all_loop fuel st bio [] = Some (True, st)"
| "write_all_loop 0 st bio (c # data) = None"
| "write_all_loop (Suc fuel) st bio (c # data) =
     (case BIO_write st bio (Some (c # data)) (int (min (length (c # data)) INT_MAX)) of
        None \<Rightarrow> None
      | Some (ret, st) \<Rightarrow> if ret \<le> 0 then Some (False, st) else write_all_loop fuel st bio (drop (nat ret) (c # data)))"

definition BIO_write_all :: "store \<Rightarrow> nat option \<Rightarrow> byte list \<Rightarrow> (bool \<times> store) option" where
  "BIO_write_all st bio data = write_all_loop (length data) st bio data"

text \<open>\<open>s\<close> is the string before its terminator.\<close>

definition BIO_puts :: "store \<Rightarrow> nat option \<Rightarrow> byte list \<Rightarrow> (int \<times> store) option" where
  "BIO_puts st bio s = BIO_write st bio (Some s) (sint (of_nat (length s) :: u32))"

definition BIO_ctrl :: "store \<Rightarrow> nat option \<Rightarrow> ctrl_cmd \<Rightarrow> int \<Rightarrow> nat option \<Rightarrow> (int \<times> store) option" where
  "BIO_ctrl st bio cmd larg parg = (case bio of
      None \<Rightarrow> Some (0, st)
    | Some a \<Rightarrow>
        (case st a of
           None \<Rightarrow> None
         | Some bio \<Rightarrow> if bio_method bio = None then Some (- 2, st) else bio_ctrl st a cmd larg parg))"

definition BIO_pending :: "store \<Rightarrow> nat option \<Rightarrow> (nat \<times> store) option" where
  "BIO_pending st bio = (case BIO_ctrl st bio BIO_CTRL_PENDING 0 None of
      None \<Rightarrow> None
    | Some (r, st) \<Rightarrow> if r < 0 then None else Some (nat r, st))"

definition BIO_wpending :: "store \<Rightarrow> nat option \<Rightarrow> (nat \<times> store) option" where
  "BIO_wpending st bio = (case BIO_ctrl st bio BIO_CTRL_WPENDING 0 None of
      None \<Rightarrow> None
    | Some (r, st) \<Rightarrow> if r < 0 then None else Some (nat r, st))"

definition BIO_flush :: "store \<Rightarrow> nat option \<Rightarrow> (int \<times> store) option" where
  "BIO_flush st bio = BIO_ctrl st bio BIO_CTRL_FLUSH 0 None"

definition BIO_eof :: "store \<Rightarrow> nat option \<Rightarrow> (int \<times> store) option" where
  "BIO_eof st bio = BIO_ctrl st bio BIO_CTRL_EOF 0 None"

definition BIO_set_close :: "store \<Rightarrow> nat option \<Rightarrow> int \<Rightarrow> (int \<times> store) option" where
  "BIO_set_close st bio close_flag = BIO_ctrl st bio BIO_CTRL_SET_CLOSE close_flag None"

definition BIO_ctrl_get_read_request :: "store \<Rightarrow> nat option \<Rightarrow> (int \<times> store) option" where
  "BIO_ctrl_get_read_request st bio = BIO_ctrl st bio BIO_C_GET_READ_REQUEST 0 None"

definition BIO_ctrl_get_write_guarantee :: "store \<Rightarrow> nat option \<Rightarrow> (int \<times> store) option" where
  "BIO_ctrl_get_write_guarantee st bio = BIO_ctrl st bio BIO_C_GET_WRITE_GUARANTEE 0 None"

definition BIO_shutdown_wr :: "store \<Rightarrow> nat option \<Rightarrow> (int \<times> store) option" where
  "BIO_shutdown_wr st bio = BIO_ctrl st bio BIO_C_SHUTDOWN_WR 0 None"

text \<open>\<open>a1\<close> and \<open>a2\<close> are the addresses of the new objects. \<open>BIO_free\<close> is called on objects with no successor, so one round is enough.\<close>

definition BIO_new_bio_pair :: "allocator \<Rightarrow> store \<Rightarrow> nat \<Rightarrow> nat \<Rightarrow> nat \<Rightarrow> nat \<Rightarrow> ((nat \<times> nat) option \<times> store) option" where
  "BIO_new_bio_pair mem st a1 a2 writebuf1_len writebuf2_len =
     (case BIO_new mem st a1 methods_biop of
        (bio1, st) \<Rightarrow>
          (case BIO_new mem st a2 methods_biop of
             (bio2, st) \<Rightarrow>
               (case (case (bio1, bio2) of
                        (Some a1, Some a2) \<Rightarrow> bio_make_pair mem st a1 a2 writebuf1_len writebuf2_len
                      | _ \<Rightarrow> Some (False, st)) of
                  None \<Rightarrow> None
                | Some (True, st) \<Rightarrow> Some (Some (a1, a2), st)
                | Some (False, st) \<Rightarrow>
                    (case BIO_free 1 st bio1 of
                       None \<Rightarrow> None
                     | Some (_, st) \<Rightarrow>
                         (case BIO_free 1 st bio2 of
                            None \<Rightarrow> None
                          | Some (_, st) \<Rightarrow> Some (None, st))))))"

end
