(* ===== verification/Bio_Pair.thy ===== *)
theory Bio_Pair
  imports Bio
begin

text \<open>
  A pair of BIOs as two pipes. The ring buffer of a half is read as the list of its pending bytes; the copying loops need at
  most two rounds; and no assertion of \<^verbatim>\<open>pair.c\<close> fails on a linked pair.
\<close>

section \<open>Pipes\<close>

text \<open>
  The contract of a two-ended pipe: \<open>put\<close> at an end queues a prefix of the data for the other end, \<open>get\<close> takes from what the other
  end queued, in order.
\<close>

datatype ('e, 'c) pipe_act = Send 'e "byte list" | Recv 'e nat | Other 'e 'c

fun act_ok :: "'e set \<Rightarrow> nat \<Rightarrow> ('e, 'c) pipe_act \<Rightarrow> bool" where
  "act_ok ends lim (Send e data) \<longleftrightarrow> e \<in> ends"
| "act_ok ends lim (Recv e n) \<longleftrightarrow> e \<in> ends \<and> n \<le> lim"
| "act_ok ends lim (Other e c) \<longleftrightarrow> e \<in> ends"

locale byte_pipe =
  fixes ok :: "'s \<Rightarrow> bool" and ends :: "'e set" and lim :: nat and peer :: "'e \<Rightarrow> 'e" and pend :: "'s \<Rightarrow> 'e \<Rightarrow> byte list"
    and put :: "'s \<Rightarrow> 'e \<Rightarrow> byte list \<Rightarrow> (nat \<times> 's) option" and get :: "'s \<Rightarrow> 'e \<Rightarrow> nat \<Rightarrow> (byte list \<times> 's) option"
    and other :: "'s \<Rightarrow> 'e \<Rightarrow> 'c \<Rightarrow> 's option"
  assumes peer_peer: "e \<in> ends \<Longrightarrow> peer e \<in> ends \<and> peer (peer e) = e"
    and put_ok: "ok s \<Longrightarrow> e \<in> ends \<Longrightarrow>
      \<exists>n s'. put s e data = Some (n, s') \<and> ok s' \<and> pend s' = (pend s)(e := pend s e @ take n data)"
    and get_ok: "ok s \<Longrightarrow> e \<in> ends \<Longrightarrow> n \<le> lim \<Longrightarrow>
      \<exists>s'. get s e n = Some (take n (pend s (peer e)), s') \<and> ok s' \<and> pend s' = (pend s)(peer e := drop n (pend s (peer e)))"
    and other_ok: "ok s \<Longrightarrow> e \<in> ends \<Longrightarrow> \<exists>s'. other s e c = Some s' \<and> ok s' \<and> pend s' = pend s"

text \<open>A run with a log of what each end sent and received.\<close>

fun pipe_step :: "('s \<Rightarrow> 'e \<Rightarrow> byte list \<Rightarrow> (nat \<times> 's) option) \<Rightarrow> ('s \<Rightarrow> 'e \<Rightarrow> nat \<Rightarrow> (byte list \<times> 's) option) \<Rightarrow> ('s \<Rightarrow> 'e \<Rightarrow> 'c \<Rightarrow> 's option) \<Rightarrow>
    's \<times> ('e \<Rightarrow> byte list) \<times> ('e \<Rightarrow> byte list) \<Rightarrow> ('e, 'c) pipe_act \<Rightarrow> ('s \<times> ('e \<Rightarrow> byte list) \<times> ('e \<Rightarrow> byte list)) option" where
  "pipe_step put get other (s, sent, got) (Send e data) =
     map_option (\<lambda>(n, s'). (s', sent(e := sent e @ take n data), got)) (put s e data)"
| "pipe_step put get other (s, sent, got) (Recv e n) =
     map_option (\<lambda>(bytes, s'). (s', sent, got(e := got e @ bytes))) (get s e n)"
| "pipe_step put get other (s, sent, got) (Other e c) = map_option (\<lambda>s'. (s', sent, got)) (other s e c)"

fun pipe_run :: "('s \<Rightarrow> 'e \<Rightarrow> byte list \<Rightarrow> (nat \<times> 's) option) \<Rightarrow> ('s \<Rightarrow> 'e \<Rightarrow> nat \<Rightarrow> (byte list \<times> 's) option) \<Rightarrow> ('s \<Rightarrow> 'e \<Rightarrow> 'c \<Rightarrow> 's option) \<Rightarrow>
    's \<times> ('e \<Rightarrow> byte list) \<times> ('e \<Rightarrow> byte list) \<Rightarrow> ('e, 'c) pipe_act list \<Rightarrow> ('s \<times> ('e \<Rightarrow> byte list) \<times> ('e \<Rightarrow> byte list)) option" where
  "pipe_run put get other c [] = Some c"
| "pipe_run put get other c (act # acts) = (case pipe_step put get other c act of
      None \<Rightarrow> None
    | Some c' \<Rightarrow> pipe_run put get other c' acts)"

context byte_pipe
begin

definition fifo :: "'s \<times> ('e \<Rightarrow> byte list) \<times> ('e \<Rightarrow> byte list) \<Rightarrow> bool" where
  "fifo c \<longleftrightarrow> (case c of (s, sent, got) \<Rightarrow> ok s \<and> (\<forall>e \<in> ends. sent e = got (peer e) @ pend s e))"

lemma step_fifo:
  assumes "fifo c" and "act_ok ends lim act"
  shows "\<exists>c'. pipe_step put get other c act = Some c' \<and> fifo c'"
proof -
  obtain s sent got where c: "c = (s, sent, got)" by (cases c)
  with assms(1) have ok: "ok s" and f: "\<And>e. e \<in> ends \<Longrightarrow> sent e = got (peer e) @ pend s e" by (auto simp: fifo_def)
  show ?thesis
  proof (cases act)
    case (Send e data)
    with put_ok [OF ok, of e data] assms(2) f c show ?thesis by (fastforce simp: fifo_def)
  next
    case (Recv e n)
    with assms(2) have e: "e \<in> ends" "n \<le> lim" by simp_all
    obtain s' where s': "get s e n = Some (take n (pend s (peer e)), s')" "ok s'"
      "pend s' = (pend s)(peer e := drop n (pend s (peer e)))"
      using get_ok [OF ok e] by blast
    have "sent x = (got(e := got e @ take n (pend s (peer e)))) (peer x) @ pend s' x" if "x \<in> ends" for x
      using f [OF that] peer_peer [OF e(1)] peer_peer [OF that] s'(3) by (cases "x = peer e") auto
    with s' Recv c show ?thesis by (auto simp: fifo_def)
  next
    case (Other e a)
    with other_ok [OF ok, of e a] assms(2) f c show ?thesis by (fastforce simp: fifo_def)
  qed
qed

lemma init_fifo: "ok s \<Longrightarrow> (\<And>e. e \<in> ends \<Longrightarrow> pend s e = []) \<Longrightarrow> fifo (s, \<lambda>_. [], \<lambda>_. [])"
  by (simp add: fifo_def)

lemma fifoD: "fifo (s, sent, got) \<Longrightarrow> e \<in> ends \<Longrightarrow> sent e = got (peer e) @ pend s e" "fifo (s, sent, got) \<Longrightarrow> ok s"
  by (simp_all add: fifo_def)

lemma run_fifo:
  "fifo c \<Longrightarrow> list_all (act_ok ends lim) acts \<Longrightarrow> \<exists>c'. pipe_run put get other c acts = Some c' \<and> fifo c'"
proof (induction acts arbitrary: c)
  case (Cons act acts)
  obtain c1 where "pipe_step put get other c act = Some c1" "fifo c1" using step_fifo [OF Cons.prems(1), of act] Cons.prems(2) by auto
  with Cons.IH [of c1] Cons.prems(2) show ?case by auto
qed simp

text \<open>Reading with a positive size drains the pipe.\<close>

lemma drain:
  assumes "0 < n" and "e \<in> ends" and "n \<le> lim"
  shows "fifo (s, sent, got) \<Longrightarrow> length (pend s (peer e)) \<le> k \<Longrightarrow>
    \<exists>s' got'. pipe_run put get other (s, sent, got) (replicate k (Recv e n)) = Some (s', sent, got') \<and> got' e = sent (peer e)"
proof (induction k arbitrary: s got)
  case 0
  with peer_peer [OF assms(2)] show ?case by (auto simp: fifo_def)
next
  case (Suc k)
  then have ok: "ok s" by (simp add: fifo_def)
  obtain s1 where s1: "get s e n = Some (take n (pend s (peer e)), s1)" "pend s1 = (pend s)(peer e := drop n (pend s (peer e)))"
    using get_ok [OF ok assms(2,3)] by blast
  have "fifo (s1, sent, got(e := got e @ take n (pend s (peer e))))"
    using step_fifo [OF Suc.prems(1), of "Recv e n"] s1(1) assms(2,3) by simp
  moreover have "length (pend s1 (peer e)) \<le> k" using Suc.prems(2) s1(2) assms(1) by auto
  ultimately show ?case using Suc.IH s1(1) by simp
qed

end

section \<open>The ring buffer\<close>

text \<open>Blocks are at most half the address space.\<close>

definition ring_ok :: "bio_bio_st \<Rightarrow> bool" where
  "ring_ok b \<longleftrightarrow> (case bb_buf b of None \<Rightarrow> False
     | Some data \<Rightarrow> length data = bb_size b \<and> bb_offset b < bb_size b \<and> bb_len b \<le> bb_size b \<and> bb_size b \<le> 2 ^ 63)"

definition ring_bytes :: "bio_bio_st \<Rightarrow> byte list" where
  "ring_bytes b = (case bb_buf b of None \<Rightarrow> [] | Some data \<Rightarrow> take (bb_len b) (drop (bb_offset b) (data @ data)))"

lemma ring_okE:
  assumes "ring_ok b"
  obtains data where "bb_buf b = Some data" "length data = bb_size b" "bb_offset b < bb_size b" "bb_len b \<le> bb_size b" "bb_size b \<le> 2 ^ 63"
  using assms by (auto simp: ring_ok_def split: option.splits)

lemma length_ring: "ring_ok b \<Longrightarrow> length (ring_bytes b) = bb_len b"
  by (auto simp: ring_bytes_def elim!: ring_okE)

text \<open>A round copies up to the end of the request or of the block.\<close>

lemma read_round:
  assumes ok: "ring_ok b" and rest: "0 < rest" "rest \<le> bb_len b"
  defines "chunk \<equiv> min rest (bb_size b - bb_offset b)"
  shows "\<exists>b'. bio_read_round b rest = Some (take chunk (ring_bytes b), b', rest - chunk) \<and> ring_ok b' \<and>
    ring_bytes b' = drop chunk (ring_bytes b) \<and> bb_size b' = bb_size b \<and> bb_closed b' = bb_closed b \<and> bb_peer b' = bb_peer b \<and>
    (rest - chunk \<noteq> 0 \<longrightarrow> bb_offset b' = 0) \<and> bb_len b' = bb_len b - chunk"
proof -
  obtain data where d: "bb_buf b = Some data" "length data = bb_size b" "bb_offset b < bb_size b" "bb_len b \<le> bb_size b" "bb_size b \<le> 2 ^ 63"
    by (rule ring_okE [OF ok])
  have nw: "(bb_offset b + rest) mod SIZE_MOD = bb_offset b + rest" using d(3-5) rest(2) by simp
  have c: "(if bb_offset b + rest \<le> bb_size b then rest else bb_size b - bb_offset b) = chunk" using d(3) by (auto simp: chunk_def)
  have ch: "chunk \<le> rest" "bb_offset b + chunk \<le> bb_size b" "chunk \<le> bb_len b" "0 < chunk" using d(3) rest by (auto simp: chunk_def)
  have last: "chunk = rest" if "bb_len b - chunk = 0" using that ch rest(2) by simp
  let ?b = "b\<lparr>bb_len := bb_len b - chunk,
    bb_offset := (if bb_len b - chunk \<noteq> 0 then if bb_offset b + chunk = bb_size b then 0 else bb_offset b + chunk else 0)\<rparr>"
  have bytes: "take chunk (drop (bb_offset b) data) = take chunk (ring_bytes b)"
    using d ch by (simp add: ring_bytes_def chunk_def min_def)
  have r: "bio_read_round b rest = Some (take chunk (ring_bytes b), ?b, rest - chunk)"
    unfolding bio_read_round_def d(1) using nw c ch rest(2) last bytes by (auto simp: Let_def)
  have "ring_bytes ?b = drop chunk (ring_bytes b)"
  proof -
    have "drop chunk (ring_bytes b) = take (bb_len b - chunk) (drop (bb_offset b + chunk) (data @ data))"
      using d(1) by (simp add: ring_bytes_def drop_take add.commute del: drop_append take_append)
    then show ?thesis using d ch by (auto simp: ring_bytes_def intro!: arg_cong [where f = "\<lambda>n. take n data"])
  qed
  moreover have "ring_ok ?b" using d ch by (auto simp: ring_ok_def)
  moreover have "rest - chunk \<noteq> 0 \<longrightarrow> bb_offset ?b = 0" using d(3) by (auto simp: chunk_def min_def)
  ultimately show ?thesis using r by (intro exI [of _ ?b]) simp
qed

lemma read_loop:
  assumes ok: "ring_ok b" and rest: "0 < rest" "rest \<le> bb_len b"
  shows "\<exists>b'. bio_read_loop 2 b [] rest = Some (take rest (ring_bytes b), b') \<and> ring_ok b' \<and>
    ring_bytes b' = drop rest (ring_bytes b) \<and> bb_size b' = bb_size b \<and> bb_closed b' = bb_closed b \<and> bb_peer b' = bb_peer b"
proof -
  define c where "c = min rest (bb_size b - bb_offset b)"
  obtain b1 where b1: "bio_read_round b rest = Some (take c (ring_bytes b), b1, rest - c)" "ring_ok b1"
    "ring_bytes b1 = drop c (ring_bytes b)" "bb_size b1 = bb_size b" "bb_closed b1 = bb_closed b" "bb_peer b1 = bb_peer b"
    "rest - c \<noteq> 0 \<longrightarrow> bb_offset b1 = 0" "bb_len b1 = bb_len b - c"
    using read_round [OF ok rest] unfolding c_def by blast
  have fuel: "(2 :: nat) = Suc (Suc 0)" by simp
  show ?thesis
  proof (cases "rest - c = 0")
    case True
    then have "c = rest" by (simp add: c_def)
    with b1 show ?thesis by (simp add: fuel)
  next
    case False
    define r where "r = rest - c"
    have r: "0 < r" "r \<le> bb_len b1" "bb_offset b1 = 0" using False b1(7,8) rest(2) by (auto simp: r_def)
    have "bb_len b1 \<le> bb_size b1" by (rule ring_okE [OF b1(2)])
    with r have m: "min r (bb_size b1 - bb_offset b1) = r" by simp
    from read_round [OF b1(2) r(1,2)] obtain b2 where b2: "bio_read_round b1 r = Some (take r (ring_bytes b1), b2, 0)" "ring_ok b2"
      "ring_bytes b2 = drop r (ring_bytes b1)" "bb_size b2 = bb_size b1" "bb_closed b2 = bb_closed b1" "bb_peer b2 = bb_peer b1"
      unfolding m by auto
    have s: "c + r = rest" using False by (simp add: r_def)
    have "take c (ring_bytes b) @ take r (drop c (ring_bytes b)) = take rest (ring_bytes b)" using take_add [of c r "ring_bytes b"] s by simp
    moreover have "drop r (drop c (ring_bytes b)) = drop rest (ring_bytes b)" using s by (simp add: add.commute)
    ultimately show ?thesis using b1 b2 False by (simp add: fuel r_def)
  qed
qed

lemma write_round:
  assumes ok: "ring_ok b" and rest: "0 < rest" "bb_len b + rest \<le> bb_size b" and buf: "rest \<le> length buf"
  defines "w \<equiv> (if bb_offset b + bb_len b \<ge> bb_size b then bb_offset b + bb_len b - bb_size b else bb_offset b + bb_len b)"
  defines "chunk \<equiv> min rest (bb_size b - w)"
  shows "\<exists>b'. bio_write_round b buf rest = Some (b', drop chunk buf, rest - chunk) \<and> ring_ok b' \<and>
    ring_bytes b' = ring_bytes b @ take chunk buf \<and> bb_size b' = bb_size b \<and> bb_closed b' = bb_closed b \<and> bb_peer b' = bb_peer b \<and>
    bb_len b' = bb_len b + chunk \<and> (rest - chunk \<noteq> 0 \<longrightarrow> bb_offset b' + bb_len b' = bb_size b')"
proof -
  obtain data where d: "bb_buf b = Some data" "length data = bb_size b" "bb_offset b < bb_size b" "bb_len b \<le> bb_size b" "bb_size b \<le> 2 ^ 63"
    by (rule ring_okE [OF ok])
  have w: "w < bb_size b" using d(3,4) by (auto simp: w_def)
  have nw: "(bb_offset b + bb_len b) mod SIZE_MOD = bb_offset b + bb_len b" using d(3-5) by simp
  have nw2: "(w + rest) mod SIZE_MOD = w + rest" using d(3-5) rest(2) w by simp
  have c: "(if w + rest \<le> bb_size b then rest else bb_size b - w) = chunk" using w by (auto simp: chunk_def)
  have ch: "chunk \<le> rest" "w + chunk \<le> bb_size b" "chunk \<le> length buf" "0 < chunk" using w rest buf by (auto simp: chunk_def)
  let ?data = "OPENSSL_memcpy data w (take chunk buf)"
  let ?b = "b\<lparr>bb_buf := Some ?data, bb_len := bb_len b + chunk\<rparr>"
  have r: "bio_write_round b buf rest = Some (?b, drop chunk buf, rest - chunk)"
    unfolding bio_write_round_def d(1) option.case Let_def nw w_def [symmetric] nw2 c using ch rest(2) by simp
  have len: "length ?data = bb_size b" using d(2) ch by (simp add: OPENSSL_memcpy_def)
  have "ring_bytes ?b = ring_bytes b @ take chunk buf"
  proof (cases "bb_offset b + bb_len b \<ge> bb_size b")
    case True
    then have w': "w + bb_size b = bb_offset b + bb_len b" "w + chunk \<le> bb_offset b" using rest(2) ch(1) by (auto simp: w_def)
    have "drop (bb_offset b) ?data = drop (bb_offset b) data" using w'(2) d(2) ch by (simp add: OPENSSL_memcpy_def)
    moreover have "take (w + chunk) ?data = take w data @ take chunk buf" using d(2) w ch by (simp add: OPENSSL_memcpy_def)
    moreover have "bb_len b + chunk - (bb_size b - bb_offset b) = w + chunk" "bb_len b - (bb_size b - bb_offset b) = w" 
      "bb_size b - bb_offset b \<le> bb_len b" using w' d(3,4) True by simp_all
    ultimately show ?thesis using d len by (simp add: ring_bytes_def)
  next
    case False
    then have "w = bb_offset b + bb_len b" by (simp add: w_def)
    with d len ch show ?thesis by (simp add: ring_bytes_def OPENSSL_memcpy_def drop_take)
  qed
  moreover have "ring_ok ?b" using d ch rest(2) len by (simp add: ring_ok_def)
  moreover have "rest - chunk \<noteq> 0 \<longrightarrow> bb_offset ?b + bb_len ?b = bb_size ?b"
    using rest(2) w d(3) by (auto simp: chunk_def min_def w_def split: if_splits)
  ultimately show ?thesis using r by (intro exI [of _ ?b]) simp
qed

lemma write_loop:
  assumes ok: "ring_ok b" and rest: "0 < rest" "bb_len b + rest \<le> bb_size b" and buf: "rest \<le> length buf"
  shows "\<exists>b'. bio_write_loop 2 b buf rest = Some b' \<and> ring_ok b' \<and>
    ring_bytes b' = ring_bytes b @ take rest buf \<and> bb_size b' = bb_size b \<and> bb_closed b' = bb_closed b \<and> bb_peer b' = bb_peer b"
proof -
  obtain b1 c where b1: "bio_write_round b buf rest = Some (b1, drop c buf, rest - c)" "ring_ok b1"
    "ring_bytes b1 = ring_bytes b @ take c buf" "bb_size b1 = bb_size b" "bb_closed b1 = bb_closed b" "bb_peer b1 = bb_peer b"
    "bb_len b1 = bb_len b + c" "rest - c \<noteq> 0 \<longrightarrow> bb_offset b1 + bb_len b1 = bb_size b1" and c: "c \<le> rest"
    using write_round [OF ok rest buf] by (metis min.cobounded1)
  have fuel: "(2 :: nat) = Suc (Suc 0)" by simp
  show ?thesis
  proof (cases "rest - c = 0")
    case True
    then have "c = rest" using c by simp
    with b1 show ?thesis by (simp add: fuel)
  next
    case False
    define r where "r = rest - c"
    have r: "0 < r" "bb_len b1 + r \<le> bb_size b1" "r \<le> length (drop c buf)" "bb_offset b1 + bb_len b1 = bb_size b1"
      using False b1(4,7,8) rest(2) buf c by (auto simp: r_def)
    then have m: "min r (bb_size b1 - (if bb_offset b1 + bb_len b1 \<ge> bb_size b1 then bb_offset b1 + bb_len b1 - bb_size b1
        else bb_offset b1 + bb_len b1)) = r" by simp
    from write_round [OF b1(2) r(1-3)] obtain b2 where b2: "bio_write_round b1 (drop c buf) r = Some (b2, drop r (drop c buf), 0)" "ring_ok b2"
      "ring_bytes b2 = ring_bytes b1 @ take r (drop c buf)" "bb_size b2 = bb_size b1" "bb_closed b2 = bb_closed b1" "bb_peer b2 = bb_peer b1"
      unfolding m by auto
    have "take c buf @ take r (drop c buf) = take rest buf" using take_add [of c r buf] c by (simp add: r_def)
    then show ?thesis using b1 b2 False by (simp add: fuel r_def)
  qed
qed

section \<open>A linked pair\<close>

definition end_ok :: "store \<Rightarrow> nat \<Rightarrow> nat \<Rightarrow> bool" where
  "end_ok st a p \<longleftrightarrow> (case st a of None \<Rightarrow> False | Some bio \<Rightarrow> bio_init bio \<and> bio_method bio \<noteq> None \<and>
     (case bio_ptr bio of None \<Rightarrow> False | Some b \<Rightarrow> bb_peer b = Some p \<and> ring_ok b))"

definition pair_ok :: "nat \<Rightarrow> nat \<Rightarrow> store \<Rightarrow> bool" where
  "pair_ok a p st \<longleftrightarrow> a \<noteq> p \<and> end_ok st a p \<and> end_ok st p a"

definition pending :: "store \<Rightarrow> nat \<Rightarrow> byte list" where
  "pending st a = (case st a of None \<Rightarrow> [] | Some bio \<Rightarrow> (case bio_ptr bio of None \<Rightarrow> [] | Some b \<Rightarrow> ring_bytes b))"

lemma pair_ok_sym: "pair_ok a p st \<longleftrightarrow> pair_ok p a st"
  by (auto simp: pair_ok_def)

lemma end_okE:
  assumes "end_ok st a p"
  obtains bio b where "st a = Some bio" "bio_init bio" "bio_method bio \<noteq> None" "bio_ptr bio = Some b" "bb_peer b = Some p" "ring_ok b"
    "pending st a = ring_bytes b"
  using assms by (auto simp: end_ok_def pending_def split: option.splits)

text \<open>Updates that keep the structure of a half, or replace it with another one.\<close>

lemma upd_end:
  assumes "bio_init bio" and "bio_method bio \<noteq> None" and "bio_ptr bio = Some b" and "bb_peer b = Some p" and "ring_ok b"
  shows "end_ok (st(a \<mapsto> bio)) a p" "pending (st(a \<mapsto> bio)) = (pending st)(a := ring_bytes b)"
  using assms by (auto simp: end_ok_def pending_def)

lemma upd_other: "x \<noteq> a \<Longrightarrow> end_ok (st(a := bio)) x p \<longleftrightarrow> end_ok st x p"
  by (simp add: end_ok_def)

lemma pair_upd:
  assumes "pair_ok a p st" and "bio_init bio" and "bio_method bio \<noteq> None" and "bio_ptr bio = Some b" and "bb_peer b = Some p" and "ring_ok b"
  shows "pair_ok a p (st(a \<mapsto> bio)) \<and> pending (st(a \<mapsto> bio)) = (pending st)(a := ring_bytes b)"
  using assms by (simp add: pair_ok_def upd_end upd_other)

lemma pair_upd2:
  assumes "pair_ok a p st" and "bio_init bio" "bio_method bio \<noteq> None" "bio_ptr bio = Some b" "bb_peer b = Some p" "ring_ok b"
    and "bio_init pbio" "bio_method pbio \<noteq> None" "bio_ptr pbio = Some pb" "bb_peer pb = Some a" "ring_ok pb"
    and "ring_bytes b = pending st a"
  shows "pair_ok a p (st(a \<mapsto> bio, p \<mapsto> pbio)) \<and> pending (st(a \<mapsto> bio, p \<mapsto> pbio)) = (pending st)(p := ring_bytes pb)"
proof -
  from pair_upd [OF assms(1-6)] have 1: "pair_ok p a (st(a \<mapsto> bio))" "pending (st(a \<mapsto> bio)) = pending st"
    using assms(12) by (simp_all add: pair_ok_sym)
  from pair_upd [OF 1(1) assms(7-11)] 1(2) show ?thesis by (simp add: pair_ok_sym [of a])
qed

lemma clear_retry_simps [simp]:
  "bio_init (BIO_clear_retry_flags bio) = bio_init bio" "bio_ptr (BIO_clear_retry_flags bio) = bio_ptr bio"
  "bio_method (BIO_clear_retry_flags bio) = bio_method bio"
  by (simp_all add: BIO_clear_retry_flags_def)

lemma set_retry_simps [simp]:
  "bio_init (BIO_set_retry_read bio) = bio_init bio" "bio_ptr (BIO_set_retry_read bio) = bio_ptr bio"
  "bio_method (BIO_set_retry_read bio) = bio_method bio"
  "bio_init (BIO_set_retry_write bio) = bio_init bio" "bio_ptr (BIO_set_retry_write bio) = bio_ptr bio"
  "bio_method (BIO_set_retry_write bio) = bio_method bio"
  by (simp_all add: BIO_set_retry_read_def BIO_set_retry_write_def)

lemma request_simps [simp]:
  "ring_ok (b\<lparr>bb_request := n\<rparr>) = ring_ok b" "ring_bytes (b\<lparr>bb_request := n\<rparr>) = ring_bytes b"
  "ring_ok (b\<lparr>bb_closed := c\<rparr>) = ring_ok b" "ring_bytes (b\<lparr>bb_closed := c\<rparr>) = ring_bytes b"
  by (simp_all add: ring_ok_def ring_bytes_def split: option.split)

definition end_closed :: "store \<Rightarrow> nat \<Rightarrow> bool" where
  "end_closed st a = (case st a of None \<Rightarrow> False | Some bio \<Rightarrow> (case bio_ptr bio of None \<Rightarrow> False | Some b \<Rightarrow> bb_closed b))"

definition end_size :: "store \<Rightarrow> nat \<Rightarrow> nat" where
  "end_size st a = (case st a of None \<Rightarrow> 0 | Some bio \<Rightarrow> (case bio_ptr bio of None \<Rightarrow> 0 | Some b \<Rightarrow> bb_size b))"

text \<open>What \<open>bio_read\<close> returns and does.\<close>

definition read_result :: "byte list \<Rightarrow> bool \<Rightarrow> nat \<Rightarrow> int" where
  "read_result q closed n = (if n = 0 then 0 else if q = [] then if closed then 0 else - 1 else int (min n (length q)))"

lemma bio_read_pair:
  assumes ok: "pair_ok a p st"
  shows "\<exists>st'. bio_read st a True n = Some (read_result (pending st p) (end_closed st p) n, take n (pending st p), st') \<and>
    pair_ok a p st' \<and> pending st' = (pending st)(p := drop n (pending st p))"
proof -
  have ne: "a \<noteq> p" using ok by (simp add: pair_ok_def)
  obtain bio b where a: "st a = Some bio" "bio_init bio" "bio_method bio \<noteq> None" "bio_ptr bio = Some b" "bb_peer b = Some p" "ring_ok b"
    "pending st a = ring_bytes b" using ok by (auto simp: pair_ok_def elim: end_okE)
  obtain pbio pb where p: "st p = Some pbio" "bio_init pbio" "bio_method pbio \<noteq> None" "bio_ptr pbio = Some pb" "bb_peer pb = Some a" "ring_ok pb"
    "pending st p = ring_bytes pb" using ok by (auto simp: pair_ok_def elim: end_okE)
  have cl: "end_closed st p = bb_closed pb" using p by (simp add: end_closed_def)
  have buf: "bb_buf pb \<noteq> None" by (rule ring_okE [OF p(6)]) simp
  have len: "length (ring_bytes pb) = bb_len pb" by (rule length_ring [OF p(6)])
  show ?thesis
  proof (cases "n = 0 \<or> bb_len pb = 0")
    case True
    have e: "take n (ring_bytes pb) = []" "drop n (ring_bytes pb) = ring_bytes pb" "n \<noteq> 0 \<Longrightarrow> ring_bytes pb = []" using True len by auto
    define pb' where "pb' = pb\<lparr>bb_request := (if n = 0 \<or> bb_closed pb then 0 else if n \<le> bb_size pb then n else bb_size pb)\<rparr>"
    define bio' where "bio' = (if n = 0 \<or> bb_closed pb then BIO_clear_retry_flags bio else BIO_set_retry_read (BIO_clear_retry_flags bio))"
    have "bio_read st a True n = Some (read_result (ring_bytes pb) (bb_closed pb) n, [], st(a \<mapsto> bio', p \<mapsto> pbio\<lparr>bio_ptr := Some pb'\<rparr>))"
      using True e(3) buf a p ne by (auto simp: bio_read_def Let_def read_result_def bio'_def pb'_def fun_upd_twist)
    moreover have "pair_ok a p (st(a \<mapsto> bio', p \<mapsto> pbio\<lparr>bio_ptr := Some pb'\<rparr>)) \<and>
        pending (st(a \<mapsto> bio', p \<mapsto> pbio\<lparr>bio_ptr := Some pb'\<rparr>)) = (pending st)(p := ring_bytes pb')"
      by (rule pair_upd2 [OF ok]) (use a p in \<open>simp_all add: bio'_def pb'_def\<close>)
    ultimately show ?thesis using e(1,2) p(7) cl by (simp add: pb'_def)
  next
    case False
    define sz' where "sz' = (if bb_len pb < n then bb_len pb else n)"
    have sz: "0 < sz'" "sz' \<le> bb_len (pb\<lparr>bb_request := 0\<rparr>)" using False by (auto simp: sz'_def)
    from read_loop [OF _ sz] p(6) obtain pb' where pb': "bio_read_loop 2 (pb\<lparr>bb_request := 0\<rparr>) [] sz' = Some (take sz' (ring_bytes pb), pb')"
      "ring_ok pb'" "ring_bytes pb' = drop sz' (ring_bytes pb)" "bb_peer pb' = bb_peer pb" by auto
    have t: "take sz' (ring_bytes pb) = take n (ring_bytes pb)" "drop sz' (ring_bytes pb) = drop n (ring_bytes pb)" using len by (auto simp: sz'_def)
    have r: "read_result (ring_bytes pb) (bb_closed pb) n = int sz'" using False len by (auto simp: read_result_def sz'_def)
    have q: "ring_bytes pb \<noteq> []" using False len by auto
    have "bio_read st a True n = Some (int sz', take n (ring_bytes pb),
        st(a \<mapsto> BIO_clear_retry_flags bio, p \<mapsto> pbio\<lparr>bio_ptr := Some pb'\<rparr>))"
      using False buf a p ne pb'(1) t(1) unfolding bio_read_def by (cases "bb_len pb < n") (simp_all add: Let_def sz'_def)
    moreover have "pair_ok a p (st(a \<mapsto> BIO_clear_retry_flags bio, p \<mapsto> pbio\<lparr>bio_ptr := Some pb'\<rparr>)) \<and>
        pending (st(a \<mapsto> BIO_clear_retry_flags bio, p \<mapsto> pbio\<lparr>bio_ptr := Some pb'\<rparr>)) = (pending st)(p := ring_bytes pb')"
      by (rule pair_upd2 [OF ok]) (use a p pb' in simp_all)
    ultimately show ?thesis using r p(7) cl pb'(3) t(2) by simp
  qed
qed

definition write_result :: "nat \<Rightarrow> nat \<Rightarrow> bool \<Rightarrow> nat \<Rightarrow> int" where
  "write_result used cap closed n = (if n = 0 then 0 else if closed \<or> used = cap then - 1 else int (min n (cap - used)))"

lemma bio_write_pair:
  assumes ok: "pair_ok a p st" and n: "n \<le> length buf"
  shows "\<exists>st'. bio_write st a (Some buf) n = Some (write_result (length (pending st a)) (end_size st a) (end_closed st a) n, st') \<and>
    pair_ok a p st' \<and> pending st' = (pending st)(a := pending st a @
      take (nat (write_result (length (pending st a)) (end_size st a) (end_closed st a) n)) buf)"
proof -
  have ne: "a \<noteq> p" and pok: "end_ok st p a" using ok by (simp_all add: pair_ok_def)
  obtain bio b where a: "st a = Some bio" "bio_init bio" "bio_method bio \<noteq> None" "bio_ptr bio = Some b" "bb_peer b = Some p" "ring_ok b"
    "pending st a = ring_bytes b" using ok by (auto simp: pair_ok_def elim: end_okE)
  have cl: "end_closed st a = bb_closed b" "end_size st a = bb_size b" using a by (simp_all add: end_closed_def end_size_def)
  have buf: "bb_buf b \<noteq> None" "bb_len b \<le> bb_size b" by (rule ring_okE [OF a(6)], simp)+
  have len: "length (ring_bytes b) = bb_len b" by (rule length_ring [OF a(6)])
  show ?thesis
  proof (cases "n = 0 \<or> bb_closed b \<or> bb_len b = bb_size b")
    case True
    define bio' where "bio' = (if n = 0 then BIO_clear_retry_flags bio else if bb_closed b then (BIO_clear_retry_flags bio)\<lparr>bio_ptr := Some (b\<lparr>bb_request := 0\<rparr>)\<rparr>
      else BIO_set_retry_write ((BIO_clear_retry_flags bio)\<lparr>bio_ptr := Some (b\<lparr>bb_request := 0\<rparr>)\<rparr>))"
    define b' where "b' = (if n = 0 then b else b\<lparr>bb_request := 0\<rparr>)"
    have "bio_write st a (Some buf) n = Some (write_result (bb_len b) (bb_size b) (bb_closed b) n, st(a \<mapsto> bio'))"
      using True buf a by (auto simp: bio_write_def Let_def write_result_def bio'_def)
    moreover have "pair_ok a p (st(a \<mapsto> bio')) \<and> pending (st(a \<mapsto> bio')) = (pending st)(a := ring_bytes b')"
      by (rule pair_upd [OF ok]) (use a in \<open>simp_all add: bio'_def b'_def\<close>)
    moreover have "nat (write_result (bb_len b) (bb_size b) (bb_closed b) n) = 0" using True by (auto simp: write_result_def)
    ultimately show ?thesis using a(7) cl len by (simp add: b'_def)
  next
    case False
    define sz' where "sz' = (if n > bb_size b - bb_len b then bb_size b - bb_len b else n)"
    have sz: "0 < sz'" "bb_len (b\<lparr>bb_request := 0\<rparr>) + sz' \<le> bb_size (b\<lparr>bb_request := 0\<rparr>)" "sz' \<le> length buf" using False buf n by (auto simp: sz'_def)
    from write_loop [OF _ sz] a(6) obtain b' where b': "bio_write_loop 2 (b\<lparr>bb_request := 0\<rparr>) buf sz' = Some b'"
      "ring_ok b'" "ring_bytes b' = ring_bytes b @ take sz' buf" "bb_peer b' = bb_peer b" by auto
    have r: "write_result (bb_len b) (bb_size b) (bb_closed b) n = int sz'" using False by (auto simp: write_result_def sz'_def)
    have "bio_write st a (Some buf) n = Some (int sz', st(a \<mapsto> (BIO_clear_retry_flags bio)\<lparr>bio_ptr := Some b'\<rparr>))"
      using False buf a ne b'(1) unfolding bio_write_def by (cases "bb_size b - bb_len b < n") (simp_all add: Let_def sz'_def)
    moreover have "pair_ok a p (st(a \<mapsto> (BIO_clear_retry_flags bio)\<lparr>bio_ptr := Some b'\<rparr>)) \<and>
        pending (st(a \<mapsto> (BIO_clear_retry_flags bio)\<lparr>bio_ptr := Some b'\<rparr>)) = (pending st)(a := ring_bytes b')"
      by (rule pair_upd [OF ok]) (use a b' in simp_all)
    ultimately show ?thesis using r a(7) cl len b'(3) by simp
  qed
qed

end
