(* ===== verification/Bio_Props.thy ===== *)
theory Bio_Props
  imports Bio_Pair
begin

text \<open>
  The generic layer over a pair: \<open>BIO_read\<close>, \<open>BIO_write\<close> and \<open>BIO_ctrl\<close> keep the contract of a pipe, from
  \<open>BIO_new_bio_pair\<close> on.
\<close>

section \<open>The calls of a client\<close>

lemma pair_keep:
  assumes "pair_ok a p st" and "\<And>bio. bio_init (f bio) = bio_init bio \<and> bio_method (f bio) = bio_method bio \<and> bio_ptr (f bio) = bio_ptr bio"
  shows "pair_ok a p (st(a := map_option f (st a)))" "pending (st(a := map_option f (st a))) = pending st"
  using assms by (auto simp: pair_ok_def end_ok_def pending_def fun_eq_iff split: option.splits)

lemma BIO_read_pair:
  assumes ok: "pair_ok a p st"
  shows "\<exists>st'. BIO_read st (Some a) True (int n) = Some (read_result (pending st p) (end_closed st p) n, take n (pending st p), st') \<and>
    pair_ok a p st' \<and> pending st' = (pending st)(p := drop n (pending st p))"
proof -
  obtain bio where a: "st a = Some bio" "bio_init bio" "bio_method bio \<noteq> None" using ok by (auto simp: pair_ok_def elim: end_okE)
  show ?thesis
  proof (cases "n = 0")
    case True
    with a ok show ?thesis by (auto simp: BIO_read_def read_result_def)
  next
    case False
    from bio_read_pair [OF ok, of n] obtain st1 where st1: "bio_read st a True n =
        Some (read_result (pending st p) (end_closed st p) n, take n (pending st p), st1)"
      "pair_ok a p st1" "pending st1 = (pending st)(p := drop n (pending st p))" by blast
    let ?f = "\<lambda>bio. bio\<lparr>bio_num_read := (bio_num_read bio + nat (read_result (pending st p) (end_closed st p) n)) mod SIZE_MOD\<rparr>"
    have k: "pair_ok a p (st1(a := map_option ?f (st1 a)))" "pending (st1(a := map_option ?f (st1 a))) = pending st1"
      by (rule pair_keep [OF st1(2)], simp)+
    show ?thesis using a False st1 k by (auto simp: BIO_read_def)
  qed
qed

lemma BIO_write_pair:
  assumes ok: "pair_ok a p st" and n: "n \<le> length buf"
  defines "r \<equiv> write_result (length (pending st a)) (end_size st a) (end_closed st a) n"
  shows "\<exists>st'. BIO_write st (Some a) (Some buf) (int n) = Some (r, st') \<and>
    pair_ok a p st' \<and> pending st' = (pending st)(a := pending st a @ take (nat r) buf)"
proof -
  obtain bio where a: "st a = Some bio" "bio_init bio" "bio_method bio \<noteq> None" using ok by (auto simp: pair_ok_def elim: end_okE)
  show ?thesis
  proof (cases "n = 0")
    case True
    then have "r = 0" by (simp add: r_def write_result_def)
    with True a ok show ?thesis by (auto simp: BIO_write_def)
  next
    case False
    from bio_write_pair [OF ok n] obtain st1 where st1: "bio_write st a (Some buf) n = Some (r, st1)"
      "pair_ok a p st1" "pending st1 = (pending st)(a := pending st a @ take (nat r) buf)" unfolding r_def by blast
    let ?f = "\<lambda>bio. bio\<lparr>bio_num_write := (bio_num_write bio + nat r) mod SIZE_MOD\<rparr>"
    have k: "pair_ok a p (st1(a := map_option ?f (st1 a)))" "pending (st1(a := map_option ?f (st1 a))) = pending st1"
      by (rule pair_keep [OF st1(2)], simp)+
    show ?thesis using a False st1 k by (auto simp: BIO_write_def)
  qed
qed

lemma BIO_ctrl_pair:
  assumes ok: "pair_ok a p st"
  shows "\<exists>r st'. BIO_ctrl st (Some a) cmd num None = Some (r, st') \<and> pair_ok a p st' \<and> pending st' = pending st"
proof -
  obtain bio b where a: "st a = Some bio" "bio_init bio" "bio_method bio \<noteq> None" "bio_ptr bio = Some b" "bb_peer b = Some p" "ring_ok b"
    "pending st a = ring_bytes b" using ok by (auto simp: pair_ok_def elim: end_okE)
  obtain pbio pb where p: "st p = Some pbio" "bio_ptr pbio = Some pb" using ok by (auto simp: pair_ok_def elim: end_okE)
  have upd: "pair_ok a p (st(a \<mapsto> bio')) \<and> pending (st(a \<mapsto> bio')) = pending st"
    if "bio_init bio'" "bio_method bio' \<noteq> None" "bio_ptr bio' = Some b'" "bb_peer b' = Some p" "ring_ok b'" "ring_bytes b' = ring_bytes b" for bio' b'
    using pair_upd [OF ok that(1-5)] a(7) that(6) by (simp add: fun_upd_idem)
  have u1: "pair_ok a p (st(a \<mapsto> bio\<lparr>bio_ptr := Some (b\<lparr>bb_request := 0\<rparr>)\<rparr>)) \<and> pending (st(a \<mapsto> bio\<lparr>bio_ptr := Some (b\<lparr>bb_request := 0\<rparr>)\<rparr>)) = pending st"
    by (rule upd [where b' = "b\<lparr>bb_request := 0\<rparr>"]) (use a in simp_all)
  have u2: "pair_ok a p (st(a \<mapsto> bio\<lparr>bio_ptr := Some (b\<lparr>bb_closed := True\<rparr>)\<rparr>)) \<and> pending (st(a \<mapsto> bio\<lparr>bio_ptr := Some (b\<lparr>bb_closed := True\<rparr>)\<rparr>)) = pending st"
    by (rule upd [where b' = "b\<lparr>bb_closed := True\<rparr>"]) (use a in simp_all)
  have u3: "pair_ok a p (st(a \<mapsto> bio\<lparr>bio_shutdown := i\<rparr>)) \<and> pending (st(a \<mapsto> bio\<lparr>bio_shutdown := i\<rparr>)) = pending st" for i
    by (rule upd [where b' = b]) (use a in simp_all)
  have c: "BIO_ctrl st (Some a) cmd num None = bio_ctrl st a cmd num None" using a by (auto simp: BIO_ctrl_def)
  show ?thesis unfolding c bio_ctrl_def a(1,4) option.case using a(5) p u1 u2 u3 ok by (cases cmd) simp_all
qed

text \<open>The calls as the operations of a pipe.\<close>

definition client_put :: "store \<Rightarrow> nat \<Rightarrow> byte list \<Rightarrow> (nat \<times> store) option" where
  "client_put st a data =
     map_option (\<lambda>(ret, st'). (nat ret, st')) (BIO_write st (Some a) (Some data) (int (min (length data) INT_MAX)))"

definition client_get :: "store \<Rightarrow> nat \<Rightarrow> nat \<Rightarrow> (byte list \<times> store) option" where
  "client_get st a n = map_option (\<lambda>(ret, out, st'). (out, st')) (BIO_read st (Some a) True (int n))"

definition client_ctrl :: "store \<Rightarrow> nat \<Rightarrow> ctrl_cmd \<times> int \<Rightarrow> store option" where
  "client_ctrl st a c = map_option snd (BIO_ctrl st (Some a) (fst c) (snd c) None)"

definition other_end :: "nat \<Rightarrow> nat \<Rightarrow> nat \<Rightarrow> nat" where
  "other_end a1 a2 a = (if a = a1 then a2 else a1)"

lemma pair_ok_end: "pair_ok a1 a2 st \<Longrightarrow> e \<in> {a1, a2} \<Longrightarrow> pair_ok e (other_end a1 a2 e) st"
  using pair_ok_sym [of a1 a2 st] by (auto simp: other_end_def pair_ok_def)

lemma pair_ok_end_rev: "pair_ok e (other_end a1 a2 e) st \<Longrightarrow> e \<in> {a1, a2} \<Longrightarrow> pair_ok a1 a2 st"
  using pair_ok_sym [of a1 a2 st] by (auto simp: other_end_def split: if_splits)

interpretation pipe: byte_pipe "\<lambda>st. a1 \<noteq> a2 \<and> pair_ok a1 a2 st" "{a1, a2}" INT_MAX "other_end a1 a2" pending client_put client_get client_ctrl
  for a1 a2 :: nat
proof unfold_locales
  fix e assume "e \<in> {a1, a2}"
  then show "other_end a1 a2 e \<in> {a1, a2} \<and> other_end a1 a2 (other_end a1 a2 e) = e" by (auto simp: other_end_def)
next
  fix st e and data :: "byte list" assume ok: "a1 \<noteq> a2 \<and> pair_ok a1 a2 st" and e: "e \<in> {a1, a2}"
  let ?n = "min (length data) INT_MAX"
  from BIO_write_pair [OF pair_ok_end [OF conjunct2 [OF ok] e], of ?n data]
  show "\<exists>n s'. client_put st e data = Some (n, s') \<and> (a1 \<noteq> a2 \<and> pair_ok a1 a2 s') \<and>
      pending s' = (pending st)(e := pending st e @ take n data)"
    using ok pair_ok_end_rev [OF _ e] by (fastforce simp: client_put_def)
next
  fix st e n assume ok: "a1 \<noteq> a2 \<and> pair_ok a1 a2 st" and e: "e \<in> {a1, a2}" and n: "n \<le> INT_MAX"
  from BIO_read_pair [OF pair_ok_end [OF conjunct2 [OF ok] e], of n]
  show "\<exists>s'. client_get st e n = Some (take n (pending st (other_end a1 a2 e)), s') \<and> (a1 \<noteq> a2 \<and> pair_ok a1 a2 s') \<and>
      pending s' = (pending st)(other_end a1 a2 e := drop n (pending st (other_end a1 a2 e)))"
    using ok pair_ok_end_rev [OF _ e] by (fastforce simp: client_get_def)
next
  fix st e and c :: "ctrl_cmd \<times> int" assume ok: "a1 \<noteq> a2 \<and> pair_ok a1 a2 st" and e: "e \<in> {a1, a2}"
  from BIO_ctrl_pair [OF pair_ok_end [OF conjunct2 [OF ok] e], of "fst c" "snd c"]
  show "\<exists>s'. client_ctrl st e c = Some s' \<and> (a1 \<noteq> a2 \<and> pair_ok a1 a2 s') \<and> pending s' = pending st"
    using ok pair_ok_end_rev [OF _ e] by (fastforce simp: client_ctrl_def)
qed

section \<open>A new pair\<close>

lemma pair_alloc_ok:
  assumes "pair_alloc mem b w = (True, b')" and "bb_buf b = None" and "bb_size b = 17 * 1024" and "w \<le> 2 ^ 63"
  shows "ring_ok b' \<and> ring_bytes b' = []"
proof -
  let ?n = "if w \<noteq> 0 then w else 17 * 1024"
  obtain buf where buf: "OPENSSL_malloc mem ?n = Some buf"
    "b' = (if w \<noteq> 0 then b\<lparr>bb_size := w\<rparr> else b)\<lparr>bb_buf := Some buf, bb_len := 0, bb_offset := 0\<rparr>"
    using assms by (auto simp: pair_alloc_def Let_def split: option.splits if_splits)
  have "length buf = ?n" by (rule length_OPENSSL_malloc [OF buf(1)]) (use assms(4) in simp)
  with buf(2) assms(3,4) show ?thesis by (simp add: ring_ok_def ring_bytes_def)
qed

lemma new_pair_shape:
  assumes new: "BIO_new_bio_pair mem st a1 a2 w1 w2 = Some (Some r, st')" and ne: "a1 \<noteq> a2"
  defines "b \<equiv> \<lparr>bb_peer = None, bb_closed = False, bb_len = 0, bb_offset = 0, bb_size = 17 * 1024, bb_buf = None, bb_request = 0\<rparr>"
  obtains bio b1 b2 where "r = (a1, a2)" "bio_method bio \<noteq> None" "pair_alloc mem b w1 = (True, b1)" "pair_alloc mem b w2 = (True, b2)"
    "st' = st(a1 \<mapsto> bio\<lparr>bio_ptr := Some (b1\<lparr>bb_peer := Some a2, bb_closed := False, bb_request := 0\<rparr>), bio_init := True\<rparr>,
        a2 \<mapsto> bio\<lparr>bio_ptr := Some (b2\<lparr>bb_peer := Some a1, bb_closed := False, bb_request := 0\<rparr>), bio_init := True\<rparr>)"
proof -
  define bio where "bio = \<lparr>bio_method = Some methods_biop, bio_init = False, bio_shutdown = 1, bio_flags = 0, bio_retry_reason = 0, bio_num = 0,
    bio_references = 1, bio_ptr = Some b, bio_next = None, bio_num_read = 0, bio_num_write = 0\<rparr>"
  have "BIO_new mem st' a methods_biop = (None, st') \<or> BIO_new mem st' a methods_biop = (Some a, st'(a \<mapsto> bio))" for st' a
    by (auto simp: BIO_new_def bio_new_def bio_def b_def split: option.split)
  note D = this
  have n1: "BIO_new mem st a1 methods_biop = (Some a1, st(a1 \<mapsto> bio))"
    using D [of st a1] new by (auto simp: BIO_new_bio_pair_def split: option.splits prod.splits)
  have "BIO_new mem (st(a1 \<mapsto> bio)) a2 methods_biop = (Some a2, st(a1 \<mapsto> bio, a2 \<mapsto> bio))"
    using D [of "st(a1 \<mapsto> bio)" a2] new by (auto simp: BIO_new_bio_pair_def n1 split: option.splits prod.splits)
  note n = n1 this
  have b: "bio_ptr bio = Some b" "bb_peer b = None" by (simp_all add: bio_def b_def)
  obtain r1 b1 where p1: "pair_alloc mem b w1 = (r1, b1)" by fastforce
  obtain r2 b2 where p2: "pair_alloc mem b w2 = (r2, b2)" by fastforce
  show thesis
  proof (rule that [of bio b1 b2])
    show "r = (a1, a2)" using new n by (auto simp: BIO_new_bio_pair_def split: option.splits prod.splits bool.splits)
    show "bio_method bio \<noteq> None" by (simp add: bio_def)
    have "r1 \<and> r2" using new n b ne p1 p2
      by (auto simp: BIO_new_bio_pair_def bio_make_pair_def split: option.splits prod.splits bool.splits)
    with p1 p2 show "pair_alloc mem b w1 = (True, b1)" "pair_alloc mem b w2 = (True, b2)" by simp_all
    then show "st' = st(a1 \<mapsto> bio\<lparr>bio_ptr := Some (b1\<lparr>bb_peer := Some a2, bb_closed := False, bb_request := 0\<rparr>), bio_init := True\<rparr>,
        a2 \<mapsto> bio\<lparr>bio_ptr := Some (b2\<lparr>bb_peer := Some a1, bb_closed := False, bb_request := 0\<rparr>), bio_init := True\<rparr>)"
      using new n b ne by (simp add: BIO_new_bio_pair_def bio_make_pair_def fun_upd_twist)
  qed
qed

lemma new_pair_ok:
  assumes new: "BIO_new_bio_pair mem st a1 a2 w1 w2 = Some (Some r, st')" and ne: "a1 \<noteq> a2" and w: "w1 \<le> 2 ^ 63" "w2 \<le> 2 ^ 63"
  shows "r = (a1, a2) \<and> pair_ok a1 a2 st' \<and> pending st' a1 = [] \<and> pending st' a2 = [] \<and> \<not> end_closed st' a1 \<and> \<not> end_closed st' a2"
proof -
  let ?b = "\<lparr>bb_peer = None, bb_closed = False, bb_len = 0, bb_offset = 0, bb_size = 17 * 1024, bb_buf = None, bb_request = 0\<rparr>"
  obtain bio b1 b2 where n: "r = (a1, a2)" and m: "bio_method bio \<noteq> None" and al: "pair_alloc mem ?b w1 = (True, b1)" "pair_alloc mem ?b w2 = (True, b2)"
    and st': "st' = st(a1 \<mapsto> bio\<lparr>bio_ptr := Some (b1\<lparr>bb_peer := Some a2, bb_closed := False, bb_request := 0\<rparr>), bio_init := True\<rparr>,
        a2 \<mapsto> bio\<lparr>bio_ptr := Some (b2\<lparr>bb_peer := Some a1, bb_closed := False, bb_request := 0\<rparr>), bio_init := True\<rparr>)"
    by (rule new_pair_shape [OF new ne])
  have r: "ring_ok (b'\<lparr>bb_peer := q\<rparr>) = ring_ok b'" "ring_bytes (b'\<lparr>bb_peer := q\<rparr>) = ring_bytes b'" for b' q
    by (simp_all add: ring_ok_def ring_bytes_def split: option.split)
  from pair_alloc_ok [OF al(1) _ _ w(1)] pair_alloc_ok [OF al(2) _ _ w(2)] m ne n st' show ?thesis
    by (simp add: pair_ok_def end_ok_def pending_def end_closed_def r)
qed

lemma new_pair_fifo:
  assumes "BIO_new_bio_pair mem st a1 a2 w1 w2 = Some (Some r, st')" and "a1 \<noteq> a2" and "w1 \<le> 2 ^ 63" "w2 \<le> 2 ^ 63"
  shows "pipe.fifo a1 a2 (st', \<lambda>_. [], \<lambda>_. [])"
  using new_pair_ok [OF assms] assms(2) by (intro pipe.init_fifo) auto

text \<open>The objects of the concrete instances.\<close>

definition demo_pair :: "store" where
  "demo_pair = snd (the (BIO_new_bio_pair generous (\<lambda>_. None) 1 2 4 4))"

lemma demo_pair: "BIO_new_bio_pair generous (\<lambda>_. None) 1 2 4 4 = Some (Some (1, 2), demo_pair)"
proof -
  have "\<exists>st. BIO_new_bio_pair generous (\<lambda>_. None) 1 2 4 4 = Some (Some (1, 2), st)"
    using OPENSSL_malloc_granted [of generous sizeof_BIO] OPENSSL_malloc_granted [of generous sizeof_bio_bio_st] OPENSSL_malloc_granted [of generous 4]
    by (auto simp: BIO_new_bio_pair_def BIO_new_def bio_new_def bio_make_pair_def pair_alloc_def Let_def generous_def sizeof_BIO_def
        sizeof_bio_bio_st_def)
  then show ?thesis by (auto simp: demo_pair_def)
qed

definition demo_acts :: "(nat, ctrl_cmd \<times> int) pipe_act list" where
  "demo_acts = [Send 1 [10, 20, 30], Recv 2 2, Send 1 [40, 50, 60, 70], Send 2 [1], Recv 2 1, Other 1 (BIO_C_SHUTDOWN_WR, 0)]"

section \<open>Properties\<close>

text \<open>C7: A BIO pair is two FIFO pipes. On a new pair every sequence of reads, writes and control calls at the two ends goes through
  without a failed assertion or a dangling pointer, and the bytes one end accepted are those the other end has received followed
  by those still in the ring buffer, in order: none is lost, duplicated or invented, whatever the wrap-around of the rings.\<close>

theorem bio_pair_fifo:
  assumes "BIO_new_bio_pair mem st a1 a2 w1 w2 = Some (Some r, st1)" and "a1 \<noteq> a2" and "w1 \<le> 2 ^ 63" "w2 \<le> 2 ^ 63"
    and "list_all (act_ok {a1, a2} INT_MAX) acts"
  shows "\<exists>st' sent got. pipe_run client_put client_get client_ctrl (st1, \<lambda>_. [], \<lambda>_. []) acts = Some (st', sent, got) \<and>
    sent a1 = got a2 @ pending st' a1 \<and> sent a2 = got a1 @ pending st' a2"
proof -
  obtain st' sent got where r: "pipe_run client_put client_get client_ctrl (st1, \<lambda>_. [], \<lambda>_. []) acts = Some (st', sent, got)"
    and f: "pipe.fifo a1 a2 (st', sent, got)"
    using pipe.run_fifo [OF new_pair_fifo [OF assms(1-4)] assms(5)] by (metis prod_cases3)
  show ?thesis using r pipe.fifoD(1) [OF f, of a1] pipe.fifoD(1) [OF f, of a2] assms(2) by (simp add: other_end_def)
qed

theorem bio_pair_fifo_witness:
  "\<exists>st' sent got. pipe_run client_put client_get client_ctrl (demo_pair, \<lambda>_. [], \<lambda>_. []) demo_acts = Some (st', sent, got) \<and>
    sent 1 = got 2 @ pending st' 1 \<and> sent 2 = got 1 @ pending st' 2"
  by (rule bio_pair_fifo [OF demo_pair]) (simp_all add: demo_acts_def)

text \<open>C31: Every byte accepted is delivered: after any such sequence, reading at one end with a positive size, as many times as there are
  bytes pending, has brought over everything the other end ever sent.\<close>

theorem bio_pair_delivers:
  assumes "BIO_new_bio_pair mem st a1 a2 w1 w2 = Some (Some r, st1)" and "a1 \<noteq> a2" and "w1 \<le> 2 ^ 63" "w2 \<le> 2 ^ 63"
    and "list_all (act_ok {a1, a2} INT_MAX) acts" and "0 < n" "n \<le> INT_MAX"
    and "pipe_run client_put client_get client_ctrl (st1, \<lambda>_. [], \<lambda>_. []) acts = Some (st', sent, got)"
  shows "\<exists>st'' got'. pipe_run client_put client_get client_ctrl (st', sent, got) (replicate (length (pending st' a1)) (Recv a2 n)) =
      Some (st'', sent, got') \<and> got' a2 = sent a1"
proof -
  have "pipe.fifo a1 a2 (st', sent, got)"
    using pipe.run_fifo [OF new_pair_fifo [OF assms(1-4)] assms(5)] assms(8) by auto
  from pipe.drain [OF assms(6) _ assms(7) this, of a2 "length (pending st' a1)"] assms(2) show ?thesis by (simp add: other_end_def)
qed

theorem bio_pair_delivers_witness:
  "\<exists>st' sent got st'' got'. pipe_run client_put client_get client_ctrl (demo_pair, \<lambda>_. [], \<lambda>_. []) demo_acts = Some (st', sent, got) \<and>
    pipe_run client_put client_get client_ctrl (st', sent, got) (replicate (length (pending st' 1)) (Recv 2 1)) = Some (st'', sent, got') \<and>
    got' 2 = sent 1"
proof -
  have acts: "list_all (act_ok {1, 2} INT_MAX) demo_acts" by (simp add: demo_acts_def)
  obtain st' sent got where r: "pipe_run client_put client_get client_ctrl (demo_pair, \<lambda>_. [], \<lambda>_. []) demo_acts = Some (st', sent, got)"
    using pipe.run_fifo [OF new_pair_fifo [OF demo_pair] acts] by auto
  from bio_pair_delivers [OF demo_pair _ _ _ acts _ _ r, of 1] r show ?thesis by auto
qed

text \<open>The values \<open>BIO_read\<close> and \<open>BIO_write\<close> return on a linked pair: a read gives the number of bytes available up to the request, 0 at
  the end of a closed stream and \<open>-1\<close> when the caller has to wait; a write gives the number of bytes that fit, and \<open>-1\<close> when
  the buffer is full or the end has been shut down.\<close>

lemma bio_pair_results:
  assumes "pair_ok a p st" and "n \<le> length data"
  shows "(\<exists>st'. BIO_read st (Some a) True (int n) = Some
      (if n = 0 then 0 else if pending st p = [] then if end_closed st p then 0 else - 1 else int (min n (length (pending st p))),
       take n (pending st p), st') \<and> pending st' p = drop n (pending st p) \<and> pending st' a = pending st a) \<and>
    (\<exists>st'. BIO_write st (Some a) (Some data) (int n) = Some
      (if n = 0 then 0 else if end_closed st a \<or> length (pending st a) = end_size st a then - 1
       else int (min n (end_size st a - length (pending st a))), st') \<and> pending st' p = pending st p)"
proof
  have ne: "a \<noteq> p" using assms(1) by (simp add: pair_ok_def)
  show "\<exists>st'. BIO_read st (Some a) True (int n) = Some
      (if n = 0 then 0 else if pending st p = [] then if end_closed st p then 0 else - 1 else int (min n (length (pending st p))),
       take n (pending st p), st') \<and> pending st' p = drop n (pending st p) \<and> pending st' a = pending st a"
    using BIO_read_pair [OF assms(1), of n] ne unfolding read_result_def by auto
  show "\<exists>st'. BIO_write st (Some a) (Some data) (int n) = Some
      (if n = 0 then 0 else if end_closed st a \<or> length (pending st a) = end_size st a then - 1
       else int (min n (end_size st a - length (pending st a))), st') \<and> pending st' p = pending st p"
    using BIO_write_pair [OF assms] ne unfolding write_result_def by (elim exE conjE) (auto intro!: exI)
qed

end
