(* ===== verification/Err.thy ===== *)
theory Err
  imports Mem
begin

text \<open>
  The error queue of \<^verbatim>\<open>crypto/err/err.c\<close>: a ring of \<open>ERR_NUM_ERRORS\<close> records per thread. The thread-local slot is an argument and a result
  of every call, \<open>None\<close> before the first one. The environment says what memory is granted, whether the slot can be
  set, and what \<open>errno\<close> holds. A string is the list of its bytes before the terminator.
\<close>

unbundle bit_operations_syntax

section \<open>Data\<close>

definition ERR_NUM_ERRORS :: nat where "ERR_NUM_ERRORS = 16"

definition ERR_LIB_SYS :: int where "ERR_LIB_SYS = 2"

definition ERR_FLAG_STRING :: int where "ERR_FLAG_STRING = 1"

definition ERR_PACK :: "int \<Rightarrow> int \<Rightarrow> u32" where
  "ERR_PACK lib reason = push_bit 24 (word_of_int lib AND 0xff) OR (word_of_int reason AND 0xfff)"

definition ERR_GET_LIB :: "u32 \<Rightarrow> int" where
  "ERR_GET_LIB packed_error = uint (drop_bit 24 packed_error AND 0xff)"

definition ERR_GET_REASON :: "u32 \<Rightarrow> int" where
  "ERR_GET_REASON packed_error = uint (packed_error AND 0xfff)"

record err_error_st =
  ee_file :: "byte list option"
  ee_data :: "byte list option"
  ee_packed :: u32
  ee_line :: "16 word"
  ee_mark :: bool

record ERR_STATE =
  es_errors :: "err_error_st list"
  es_top :: nat
  es_bottom :: nat
  es_to_free :: "byte list option"

record err_env =
  env_mem :: allocator
  env_set_local :: bool
  env_errno :: int

type_synonym err_slot = "ERR_STATE option"

definition sizeof_ERR_STATE :: nat where "sizeof_ERR_STATE = 528"

definition sizeof_err_error_st :: nat where "sizeof_err_error_st = 32"

section \<open>Operations\<close>

definition err_clear :: err_error_st where
  "err_clear = \<lparr>ee_file = None, ee_data = None, ee_packed = 0, ee_line = 0, ee_mark = False\<rparr>"

text \<open>\<open>OPENSSL_strdup\<close> gives the block with its terminator.\<close>

definition err_copy :: "err_env \<Rightarrow> err_error_st \<Rightarrow> err_error_st" where
  "err_copy env src = err_clear\<lparr>ee_file := ee_file src,
     ee_data := (case ee_data src of None \<Rightarrow> None | Some data \<Rightarrow> map_option butlast (OPENSSL_strdup (env_mem env) (Some data))),
     ee_packed := ee_packed src, ee_line := ee_line src\<rparr>"

text \<open>\<open>err_get_state\<close> gives the state, if there is one, and the slot.\<close>

definition err_get_state :: "err_env \<Rightarrow> err_slot \<Rightarrow> ERR_STATE option \<times> err_slot" where
  "err_get_state env slot = (case slot of
      Some state \<Rightarrow> (Some state, slot)
    | None \<Rightarrow>
        (case OPENSSL_malloc (env_mem env) sizeof_ERR_STATE of
           None \<Rightarrow> (None, None)
         | Some _ \<Rightarrow>
             let state = \<lparr>es_errors = replicate ERR_NUM_ERRORS err_clear, es_top = 0, es_bottom = 0, es_to_free = None\<rparr>
             in if env_set_local env then (Some state, Some state) else (None, None)))"

text \<open>The values put in \<open>*file\<close> and \<open>*line\<close>, and in \<open>*data\<close> and \<open>*flags\<close>, when the caller asks for them.\<close>

definition error_location :: "err_error_st \<Rightarrow> byte list \<times> nat" where
  "error_location error = (case ee_file error of None \<Rightarrow> ([78, 65], 0) | Some file \<Rightarrow> (file, unat (ee_line error)))"

definition error_data :: "err_error_st \<Rightarrow> byte list \<times> int" where
  "error_data error = (case ee_data error of None \<Rightarrow> ([], 0) | Some data \<Rightarrow> (data, ERR_FLAG_STRING))"

record err_values =
  ev_packed :: u32
  ev_location :: "(byte list \<times> nat) option"
  ev_data :: "(byte list \<times> int) option"

text \<open>\<open>want_file\<close> says that \<open>file\<close> and \<open>line\<close> are not null, \<open>want_data\<close> that \<open>data\<close> is not.\<close>

definition get_error_values :: "err_env \<Rightarrow> err_slot \<Rightarrow> bool \<Rightarrow> bool \<Rightarrow> bool \<Rightarrow> bool \<Rightarrow> err_values \<times> err_slot" where
  "get_error_values env slot inc last_error want_file want_data = (case err_get_state env slot of
      (None, slot) \<Rightarrow> (\<lparr>ev_packed = 0, ev_location = None, ev_data = None\<rparr>, slot)
    | (Some state, slot) \<Rightarrow>
        if es_bottom state = es_top state then (\<lparr>ev_packed = 0, ev_location = None, ev_data = None\<rparr>, slot)
        else let i = (if last_error then es_top state else (es_bottom state + 1) mod ERR_NUM_ERRORS);
                 error = es_errors state ! i;
                 ret = \<lparr>ev_packed = ee_packed error,
                   ev_location = (if want_file then Some (error_location error) else None),
                   ev_data = (if want_data then Some (error_data error) else None)\<rparr>;
                 state = (if want_data \<and> inc \<and> ee_data error \<noteq> None then state\<lparr>es_to_free := ee_data error\<rparr> else state);
                 state = (if inc then state\<lparr>es_errors := (es_errors state)[i := err_clear], es_bottom := i\<rparr> else state)
             in (ret, Some state))"

definition ERR_get_error :: "err_env \<Rightarrow> err_slot \<Rightarrow> err_values \<times> err_slot" where
  "ERR_get_error env slot = get_error_values env slot True False False False"

definition ERR_get_error_line :: "err_env \<Rightarrow> err_slot \<Rightarrow> err_values \<times> err_slot" where
  "ERR_get_error_line env slot = get_error_values env slot True False True False"

definition ERR_get_error_line_data :: "err_env \<Rightarrow> err_slot \<Rightarrow> err_values \<times> err_slot" where
  "ERR_get_error_line_data env slot = get_error_values env slot True False True True"

definition ERR_peek_error :: "err_env \<Rightarrow> err_slot \<Rightarrow> err_values \<times> err_slot" where
  "ERR_peek_error env slot = get_error_values env slot False False False False"

definition ERR_peek_error_line :: "err_env \<Rightarrow> err_slot \<Rightarrow> err_values \<times> err_slot" where
  "ERR_peek_error_line env slot = get_error_values env slot False False True False"

definition ERR_peek_error_line_data :: "err_env \<Rightarrow> err_slot \<Rightarrow> err_values \<times> err_slot" where
  "ERR_peek_error_line_data env slot = get_error_values env slot False False True True"

definition ERR_peek_last_error :: "err_env \<Rightarrow> err_slot \<Rightarrow> err_values \<times> err_slot" where
  "ERR_peek_last_error env slot = get_error_values env slot False True False False"

definition ERR_peek_last_error_line :: "err_env \<Rightarrow> err_slot \<Rightarrow> err_values \<times> err_slot" where
  "ERR_peek_last_error_line env slot = get_error_values env slot False True True False"

definition ERR_peek_last_error_line_data :: "err_env \<Rightarrow> err_slot \<Rightarrow> err_values \<times> err_slot" where
  "ERR_peek_last_error_line_data env slot = get_error_values env slot False True True True"

definition ERR_clear_error :: "err_env \<Rightarrow> err_slot \<Rightarrow> err_slot" where
  "ERR_clear_error env slot = (case err_get_state env slot of
      (None, slot) \<Rightarrow> slot
    | (Some state, _) \<Rightarrow> Some (state\<lparr>es_errors := map (\<lambda>_. err_clear) (es_errors state), es_to_free := None, es_top := 0, es_bottom := 0\<rparr>))"

definition ERR_remove_state :: "err_env \<Rightarrow> err_slot \<Rightarrow> err_slot" where
  "ERR_remove_state env slot = ERR_clear_error env slot"

definition err_set_error_data :: "err_env \<Rightarrow> err_slot \<Rightarrow> byte list \<Rightarrow> err_slot" where
  "err_set_error_data env slot data = (case err_get_state env slot of
      (None, slot) \<Rightarrow> slot
    | (Some state, slot) \<Rightarrow>
        if es_top state = es_bottom state then slot
        else Some (state\<lparr>es_errors := (es_errors state)[es_top state := (es_errors state ! es_top state)\<lparr>ee_data := Some data\<rparr>]\<rparr>))"

definition ERR_put_error :: "err_env \<Rightarrow> err_slot \<Rightarrow> int \<Rightarrow> int \<Rightarrow> byte list option \<Rightarrow> nat \<Rightarrow> err_slot" where
  "ERR_put_error env slot library reason file line = (case err_get_state env slot of
      (None, slot) \<Rightarrow> slot
    | (Some state, _) \<Rightarrow>
        let reason = (if library = ERR_LIB_SYS \<and> reason = 0 then env_errno env else reason);
            new_top = (es_top state + 1) mod ERR_NUM_ERRORS;
            new_bottom = (if new_top = es_bottom state then (es_bottom state + 1) mod ERR_NUM_ERRORS else es_bottom state);
            error = err_clear\<lparr>ee_file := file, ee_line := of_nat line, ee_packed := ERR_PACK library reason\<rparr>
        in Some (state\<lparr>es_top := new_top, es_bottom := new_bottom, es_errors := (es_errors state)[new_top := error]\<rparr>))"

text \<open>The loop of \<open>err_add_error_vdata\<close> over the arguments, null pointers as \<open>None\<close>: the block, what is written at its start and its
  capacity without the terminator. \<open>None\<close> is the early return.\<close>

fun vdata_loop :: "err_env \<Rightarrow> byte list \<Rightarrow> nat \<Rightarrow> nat \<Rightarrow> byte list option list \<Rightarrow> (byte list \<times> nat) option" where
  "vdata_loop env buf len alloced [] = Some (buf, len)"
| "vdata_loop env buf len alloced (None # args) = vdata_loop env buf len alloced args"
| "vdata_loop env buf len alloced (Some substr # args) =
     (let substr_len = length substr;
          new_len = (len + substr_len) mod SIZE_MOD
      in if new_len > alloced then
           (if (alloced + 20 + 1) mod SIZE_MOD < alloced then None
            else let alloced = (new_len + 20) mod SIZE_MOD
                 in (case OPENSSL_realloc (env_mem env) (Some buf) ((alloced + 1) mod SIZE_MOD) of
                       None \<Rightarrow> None
                     | Some buf \<Rightarrow> vdata_loop env (OPENSSL_memcpy buf len substr) new_len alloced args))
         else vdata_loop env (OPENSSL_memcpy buf len substr) new_len alloced args)"

definition err_add_error_vdata :: "err_env \<Rightarrow> err_slot \<Rightarrow> byte list option list \<Rightarrow> err_slot" where
  "err_add_error_vdata env slot args = (case OPENSSL_malloc (env_mem env) (80 + 1) of
      None \<Rightarrow> slot
    | Some buf \<Rightarrow>
        (case vdata_loop env buf 0 80 args of
           None \<Rightarrow> slot
         | Some (buf, len) \<Rightarrow> err_set_error_data env slot (takeWhile (\<lambda>c. c \<noteq> 0) (buf[len := 0]))))"

definition ERR_add_error_data :: "err_env \<Rightarrow> err_slot \<Rightarrow> byte list option list \<Rightarrow> err_slot" where
  "ERR_add_error_data env slot args = err_add_error_vdata env slot args"

definition ERR_set_mark :: "err_env \<Rightarrow> err_slot \<Rightarrow> bool \<times> err_slot" where
  "ERR_set_mark env slot = (case err_get_state env slot of
      (None, slot) \<Rightarrow> (False, slot)
    | (Some state, slot) \<Rightarrow>
        if es_bottom state = es_top state then (False, slot)
        else (True, Some (state\<lparr>es_errors := (es_errors state)[es_top state := (es_errors state ! es_top state)\<lparr>ee_mark := True\<rparr>]\<rparr>)))"

text \<open>One round of the loop of \<open>ERR_pop_to_mark\<close>: \<open>Inl\<close> at a mark, \<open>Inr\<close> with the error gone.\<close>

definition pop_round :: "ERR_STATE \<Rightarrow> ERR_STATE + ERR_STATE" where
  "pop_round state =
     (let error = es_errors state ! es_top state
      in if ee_mark error then Inl (state\<lparr>es_errors := (es_errors state)[es_top state := error\<lparr>ee_mark := False\<rparr>]\<rparr>)
         else Inr (state\<lparr>es_errors := (es_errors state)[es_top state := err_clear],
           es_top := (if es_top state = 0 then ERR_NUM_ERRORS - 1 else es_top state - 1)\<rparr>))"

text \<open>A round uses one unit of fuel; the queue is shorter than the ring, so \<open>ERR_NUM_ERRORS\<close> units are enough.\<close>

fun pop_loop :: "nat \<Rightarrow> ERR_STATE \<Rightarrow> (bool \<times> ERR_STATE) option" where
  "pop_loop fuel state = (if es_bottom state = es_top state then Some (False, state)
     else case fuel of
         0 \<Rightarrow> None
       | Suc fuel' \<Rightarrow> (case pop_round state of Inl state' \<Rightarrow> Some (True, state') | Inr state' \<Rightarrow> pop_loop fuel' state'))"

declare pop_loop.simps [simp del]

definition ERR_pop_to_mark :: "err_env \<Rightarrow> err_slot \<Rightarrow> (bool \<times> err_slot) option" where
  "ERR_pop_to_mark env slot = (case err_get_state env slot of
      (None, slot) \<Rightarrow> Some (False, slot)
    | (Some state, _) \<Rightarrow> map_option (\<lambda>(r, state). (r, Some state)) (pop_loop ERR_NUM_ERRORS state))"

definition num_errors :: "ERR_STATE \<Rightarrow> nat" where
  "num_errors state = (if es_top state \<ge> es_bottom state then es_top state - es_bottom state
     else ERR_NUM_ERRORS + es_top state - es_bottom state)"

text \<open>A saved state is the list of its errors.\<close>

definition ERR_save_state :: "err_env \<Rightarrow> err_slot \<Rightarrow> err_error_st list option \<times> err_slot" where
  "ERR_save_state env slot = (case err_get_state env slot of
      (None, slot) \<Rightarrow> (None, slot)
    | (Some state, slot) \<Rightarrow>
        if es_top state = es_bottom state then (None, slot)
        else (case OPENSSL_malloc (env_mem env) 16 of
            None \<Rightarrow> (None, slot)
          | Some _ \<Rightarrow>
              (case OPENSSL_malloc (env_mem env) (num_errors state * sizeof_err_error_st) of
                 None \<Rightarrow> (None, slot)
               | Some _ \<Rightarrow>
                   (Some (map (\<lambda>i. err_copy env (es_errors state ! ((es_bottom state + i + 1) mod ERR_NUM_ERRORS))) [0..<num_errors state]),
                    slot))))"

definition ERR_restore_state :: "err_env \<Rightarrow> err_slot \<Rightarrow> err_error_st list option \<Rightarrow> err_slot" where
  "ERR_restore_state env slot saved = (case saved of
      None \<Rightarrow> ERR_clear_error env slot
    | Some errors \<Rightarrow>
        if errors = [] then ERR_clear_error env slot
        else (case err_get_state env slot of
            (None, slot) \<Rightarrow> slot
          | (Some dst, _) \<Rightarrow>
              Some (dst\<lparr>es_errors := map (err_copy env) errors @ drop (length errors) (es_errors dst),
                es_top := length errors - 1, es_bottom := ERR_NUM_ERRORS - 1\<rparr>)))"

end
