(* ===== verification/Err_Props.thy ===== *)
theory Err_Props
  imports Err
begin

text \<open>
  The ring of errors as a bounded queue: a list of at most fifteen errors, the oldest first. The refinement of sequences of calls is proved
  once, for any step function that is simulated by another.
\<close>

section \<open>Simulation\<close>

fun run_calls :: "('s \<Rightarrow> 'c \<Rightarrow> 'r \<times> 's) \<Rightarrow> 's \<Rightarrow> 'c list \<Rightarrow> 'r list \<times> 's" where
  "run_calls step s [] = ([], s)"
| "run_calls step s (c # cs) = (case step s c of (r, s') \<Rightarrow> (case run_calls step s' cs of (rs, s'') \<Rightarrow> (r # rs, s'')))"

locale simulation =
  fixes inv :: "'s \<Rightarrow> bool" and abs :: "'s \<Rightarrow> 'a" and step :: "'s \<Rightarrow> 'c \<Rightarrow> 'r \<times> 's" and astep :: "'a \<Rightarrow> 'c \<Rightarrow> 'r \<times> 'a"
  assumes step_sim: "inv s \<Longrightarrow> step s c = (r, s') \<Longrightarrow> inv s' \<and> astep (abs s) c = (r, abs s')"
begin

lemma run_sim: "inv s \<Longrightarrow> run_calls step s cs = (rs, s') \<Longrightarrow> inv s' \<and> run_calls astep (abs s) cs = (rs, abs s')"
proof (induction cs arbitrary: s rs)
  case (Cons c cs)
  obtain r s1 where c: "step s c = (r, s1)" by fastforce
  obtain rs1 s2 where cs: "run_calls step s1 cs = (rs1, s2)" by fastforce
  from step_sim [OF Cons.prems(1) c] Cons.IH [of s1 rs1] Cons.prems(2) c cs show ?case by auto
qed simp

end

section \<open>The ring\<close>

definition err_ok :: "ERR_STATE \<Rightarrow> bool" where
  "err_ok st \<longleftrightarrow> length (es_errors st) = 16 \<and> es_top st < 16 \<and> es_bottom st < 16"

definition queue :: "ERR_STATE \<Rightarrow> err_error_st list" where
  "queue st = map (\<lambda>i. es_errors st ! ((es_bottom st + 1 + i) mod 16)) [0..<num_errors st]"

lemma length_queue [simp]: "length (queue st) = num_errors st"
  by (simp add: queue_def)

lemma queue_nth: "i < num_errors st \<Longrightarrow> queue st ! i = es_errors st ! ((es_bottom st + 1 + i) mod 16)"
  by (simp add: queue_def)

lemma num_errors_bound: "err_ok st \<Longrightarrow> num_errors st < 16"
  by (auto simp: err_ok_def num_errors_def ERR_NUM_ERRORS_def)

lemma top_of: "err_ok st \<Longrightarrow> es_top st = (es_bottom st + num_errors st) mod 16"
  by (auto simp: err_ok_def num_errors_def ERR_NUM_ERRORS_def mod_if)

lemma num_errors_of:
  "es_bottom st < 16 \<Longrightarrow> n < 16 \<Longrightarrow> es_top st = (es_bottom st + n) mod 16 \<Longrightarrow> num_errors st = n"
  by (auto simp: num_errors_def ERR_NUM_ERRORS_def mod_if split: if_splits)

lemma empty_iff: "err_ok st \<Longrightarrow> es_bottom st = es_top st \<longleftrightarrow> queue st = []"
  by (auto simp: queue_def err_ok_def num_errors_def ERR_NUM_ERRORS_def)

lemma mod_16_inj: "(b + i) mod 16 = (b + j) mod 16 \<Longrightarrow> i < 16 \<Longrightarrow> j < 16 \<Longrightarrow> i = j" for b :: nat
proof (induction i j rule: linorder_wlog)
  case (le i j)
  then have "16 dvd j - i" using mod_eq_dvd_iff_nat [of "b + i" "b + j" 16] by simp
  then have "j - i = 0" using le.prems(3) dvd_imp_le [of 16 "j - i"] by linarith
  with le.hyps show ?case by simp
qed simp

lemma idx_shift: "((b + k) mod 16 + 1 + i) mod 16 = (b + 1 + (i + k)) mod 16" for b :: nat
  using mod_add_left_eq [of "b + k" 16 "1 + i"] by (simp only: ac_simps)

text \<open>The position of the last error, and reading and writing it.\<close>

lemma top_index:
  assumes "err_ok st" and "num_errors st \<noteq> 0"
  shows "es_top st = (es_bottom st + 1 + (num_errors st - 1)) mod 16"
  using top_of [OF assms(1)] assms(2) by simp

lemma queue_last:
  assumes "err_ok st" and "queue st \<noteq> []"
  shows "last (queue st) = es_errors st ! es_top st"
proof -
  have "num_errors st \<noteq> 0" using assms(2) by (metis length_0_conv length_queue)
  with assms top_index [OF assms(1)] show ?thesis by (simp add: last_conv_nth queue_nth)
qed

lemma queue_hd:
  assumes "queue st \<noteq> []"
  shows "hd (queue st) = es_errors st ! ((es_bottom st + 1) mod 16)"
proof -
  have "0 < num_errors st" using assms by (metis length_greater_0_conv length_queue)
  with assms show ?thesis by (simp add: hd_conv_nth queue_nth)
qed

lemma queue_upd_last:
  assumes ok: "err_ok st" and ne: "queue st \<noteq> []"
  shows "queue (st\<lparr>es_errors := (es_errors st)[es_top st := e]\<rparr>) = butlast (queue st) @ [e]"
proof (rule nth_equalityI)
  let ?st = "st\<lparr>es_errors := (es_errors st)[es_top st := e]\<rparr>"
  have n: "num_errors ?st = num_errors st" by (simp add: num_errors_def)
  have pos: "num_errors st \<noteq> 0" using ne by (metis length_0_conv length_queue)
  show "length (queue ?st) = length (butlast (queue st) @ [e])" using n pos by simp
  fix i assume "i < length (queue ?st)"
  then have i: "i < num_errors st" using n by simp
  have "(es_bottom st + 1 + i) mod 16 = es_top st \<longleftrightarrow> i = num_errors st - 1"
    using top_index [OF ok pos] mod_16_inj [of "es_bottom st + 1" i "num_errors st - 1"] num_errors_bound [OF ok] i by auto
  then show "queue ?st ! i = (butlast (queue st) @ [e]) ! i"
    using i n ok by (auto simp: queue_nth nth_append nth_butlast err_ok_def)
qed

lemma queue_push:
  fixes e :: err_error_st
  assumes ok: "err_ok st"
  defines "t \<equiv> (es_top st + 1) mod 16"
  defines "st' \<equiv> st\<lparr>es_top := t, es_bottom := (if t = es_bottom st then (es_bottom st + 1) mod 16 else es_bottom st),
    es_errors := (es_errors st)[t := e]\<rparr>"
  shows "err_ok st' \<and> queue st' = (if length (queue st) = 15 then tl (queue st) else queue st) @ [e]"
proof -
  let ?b = "es_bottom st" and ?n = "num_errors st"
  have n: "?n < 16" by (rule num_errors_bound [OF ok])
  have b: "?b < 16" and l: "length (es_errors st) = 16" using ok by (simp_all add: err_ok_def)
  have t: "t = (?b + 1 + ?n) mod 16" using top_of [OF ok] by (simp add: t_def mod_Suc_eq)
  have full: "t = ?b \<longleftrightarrow> ?n = 15"
  proof (cases "?n = 15")
    case False
    with n mod_16_inj [of ?b "1 + ?n" 0] t b show ?thesis by (auto simp: add.assoc)
  qed (use t b in simp)
  define k where "k = (if ?n = 15 then 1 else 0 :: nat)"
  have b': "es_bottom st' = (?b + k) mod 16" using full b by (simp add: st'_def k_def)
  have n': "num_errors st' = ?n + 1 - k"
  proof (rule num_errors_of)
    show "es_bottom st' < 16" "?n + 1 - k < 16" using b' n by (simp_all add: k_def)
    have "es_top st' = (?b + (?n + 1)) mod 16" using t by (simp add: st'_def add.commute add.left_commute)
    also have "\<dots> = (?b + k + (?n + 1 - k)) mod 16" by (simp add: k_def)
    finally show "es_top st' = (es_bottom st' + (?n + 1 - k)) mod 16" unfolding b' by (simp add: mod_add_left_eq)
  qed
  have idx: "(es_bottom st' + 1 + i) mod 16 = (?b + 1 + (i + k)) mod 16" for i
    unfolding b' by (rule idx_shift)
  have ok': "err_ok st'" using l b by (simp add: err_ok_def st'_def t_def)
  moreover have "queue st' = (if length (queue st) = 15 then tl (queue st) else queue st) @ [e]"
  proof (rule nth_equalityI)
    show "length (queue st') = length ((if length (queue st) = 15 then tl (queue st) else queue st) @ [e])" using n' by (simp add: k_def)
    fix i assume "i < length (queue st')"
    then have i: "i + k < ?n + 1" using n' by (simp add: k_def split: if_splits)
    have q: "queue st' ! i = (es_errors st)[t := e] ! ((?b + 1 + (i + k)) mod 16)" using i n' idx [of i] by (simp add: queue_nth st'_def)
    have "(?b + 1 + (i + k)) mod 16 = t \<longleftrightarrow> i + k = ?n" using mod_16_inj [of "?b + 1" "i + k" ?n] t n i by auto
    then show "queue st' ! i = ((if length (queue st) = 15 then tl (queue st) else queue st) @ [e]) ! i"
      using q i l by (auto simp: k_def nth_append nth_tl queue_nth t_def split: if_splits)
  qed
  ultimately show ?thesis by blast
qed

lemma queue_shift:
  fixes e :: err_error_st
  assumes ok: "err_ok st" and ne: "queue st \<noteq> []"
  defines "i \<equiv> (es_bottom st + 1) mod 16"
  defines "st' \<equiv> st\<lparr>es_errors := (es_errors st)[i := e], es_bottom := i\<rparr>"
  shows "err_ok st' \<and> queue st' = tl (queue st)"
proof -
  let ?b = "es_bottom st" and ?n = "num_errors st"
  have n: "?n < 16" by (rule num_errors_bound [OF ok])
  have pos: "?n \<noteq> 0" using ne by (metis length_0_conv length_queue)
  have b: "?b < 16" and l: "length (es_errors st) = 16" using ok by (simp_all add: err_ok_def)
  have n': "num_errors st' = ?n - 1"
  proof (rule num_errors_of)
    show "es_bottom st' < 16" "?n - 1 < 16" using n by (simp_all add: st'_def i_def)
    have "es_top st' = (?b + 1 + (?n - 1)) mod 16" using top_index [OF ok pos] by (simp add: st'_def)
    then show "es_top st' = (es_bottom st' + (?n - 1)) mod 16" by (simp add: st'_def i_def mod_add_left_eq)
  qed
  have "err_ok st'" using ok by (simp add: err_ok_def st'_def i_def)
  moreover have "queue st' = tl (queue st)"
  proof (rule nth_equalityI)
    show "length (queue st') = length (tl (queue st))" using n' by simp
    fix j assume "j < length (queue st')"
    then have j: "j + 1 < ?n" using n' by simp
    have "(es_bottom st' + 1 + j) mod 16 = (?b + 1 + (j + 1)) mod 16"
      using idx_shift [of ?b 1 j] by (simp add: st'_def i_def)
    moreover have "(?b + 1 + (j + 1)) mod 16 \<noteq> i" using mod_16_inj [of "?b + 1" "j + 1" 0] n j by (auto simp: i_def)
    ultimately have "queue st' ! j = es_errors st ! ((?b + 1 + (j + 1)) mod 16)" using j n' by (simp add: queue_nth st'_def)
    then show "queue st' ! j = tl (queue st) ! j" using j by (simp add: nth_tl queue_nth)
  qed
  ultimately show ?thesis by blast
qed

lemma queue_drop_last:
  fixes e :: err_error_st
  assumes ok: "err_ok st" and ne: "queue st \<noteq> []"
  defines "st' \<equiv> st\<lparr>es_errors := (es_errors st)[es_top st := e], es_top := (if es_top st = 0 then 15 else es_top st - 1)\<rparr>"
  shows "err_ok st' \<and> queue st' = butlast (queue st)"
proof -
  let ?b = "es_bottom st" and ?n = "num_errors st"
  have n: "?n < 16" by (rule num_errors_bound [OF ok])
  have pos: "?n \<noteq> 0" using ne by (metis length_0_conv length_queue)
  have b: "?b < 16" "es_top st < 16" and l: "length (es_errors st) = 16" using ok by (simp_all add: err_ok_def)
  have n': "num_errors st' = ?n - 1"
  proof (rule num_errors_of)
    show "es_bottom st' < 16" "?n - 1 < 16" using n b by (simp_all add: st'_def)
    show "es_top st' = (es_bottom st' + (?n - 1)) mod 16"
      using top_of [OF ok] b pos n by (auto simp: st'_def mod_if split: if_splits)
  qed
  have "err_ok st'" using ok by (auto simp: err_ok_def st'_def)
  moreover have "queue st' = butlast (queue st)"
  proof (rule nth_equalityI)
    show "length (queue st') = length (butlast (queue st))" using n' by simp
    fix j assume "j < length (queue st')"
    then have j: "j < ?n - 1" using n' by simp
    have "j \<noteq> ?n - 1" "j < 16" "?n - 1 < 16" using n j by auto
    then have "(?b + 1 + j) mod 16 \<noteq> es_top st" using mod_16_inj [of "?b + 1" j "?n - 1"] unfolding top_index [OF ok pos] by blast
    then show "queue st' ! j = butlast (queue st) ! j" using j n' by (simp add: queue_nth st'_def nth_butlast)
  qed
  ultimately show ?thesis by blast
qed

section \<open>The specification\<close>

definition no_values :: err_values where
  "no_values = \<lparr>ev_packed = 0, ev_location = None, ev_data = None\<rparr>"

datatype detail = Code | Line | Data

definition values_of :: "detail \<Rightarrow> err_error_st \<Rightarrow> err_values" where
  "values_of d e = \<lparr>ev_packed = ee_packed e, ev_location = (if d = Code then None else Some (error_location e)),
     ev_data = (if d = Data then Some (error_data e) else None)\<rparr>"

datatype err_call = Put int int "byte list option" nat | Get detail | Peek detail | Peek_last detail | Clear | Set_data "byte list"
  | Set_mark | Pop_to_mark

datatype err_ret = Values err_values | Flag bool | Done | Stuck

fun err_step :: "err_env \<Rightarrow> err_slot \<Rightarrow> err_call \<Rightarrow> err_ret \<times> err_slot" where
  "err_step env slot (Put library reason file line) = (Done, ERR_put_error env slot library reason file line)"
| "err_step env slot (Get d) = map_prod Values id (case d of Code \<Rightarrow> ERR_get_error env slot | Line \<Rightarrow> ERR_get_error_line env slot
    | Data \<Rightarrow> ERR_get_error_line_data env slot)"
| "err_step env slot (Peek d) = map_prod Values id (case d of Code \<Rightarrow> ERR_peek_error env slot | Line \<Rightarrow> ERR_peek_error_line env slot
    | Data \<Rightarrow> ERR_peek_error_line_data env slot)"
| "err_step env slot (Peek_last d) = map_prod Values id (case d of Code \<Rightarrow> ERR_peek_last_error env slot | Line \<Rightarrow> ERR_peek_last_error_line env slot
    | Data \<Rightarrow> ERR_peek_last_error_line_data env slot)"
| "err_step env slot Clear = (Done, ERR_clear_error env slot)"
| "err_step env slot (Set_data data) = (Done, err_set_error_data env slot data)"
| "err_step env slot Set_mark = map_prod Flag id (ERR_set_mark env slot)"
| "err_step env slot Pop_to_mark = (case ERR_pop_to_mark env slot of None \<Rightarrow> (Stuck, slot) | Some (r, slot') \<Rightarrow> (Flag r, slot'))"

definition spec_error :: "err_env \<Rightarrow> int \<Rightarrow> int \<Rightarrow> byte list option \<Rightarrow> nat \<Rightarrow> err_error_st" where
  "spec_error env library reason file line = \<lparr>ee_file = file, ee_data = None,
     ee_packed = ERR_PACK library (if library = ERR_LIB_SYS \<and> reason = 0 then env_errno env else reason), ee_line = of_nat line, ee_mark = False\<rparr>"

definition pop_unmarked :: "err_error_st list \<Rightarrow> bool \<times> err_error_st list" where
  "pop_unmarked q = (case dropWhile (\<lambda>e. \<not> ee_mark e) (rev q) of
      [] \<Rightarrow> (False, [])
    | e # older \<Rightarrow> (True, rev older @ [e\<lparr>ee_mark := False\<rparr>]))"

fun queue_step :: "err_env \<Rightarrow> err_error_st list \<Rightarrow> err_call \<Rightarrow> err_ret \<times> err_error_st list" where
  "queue_step env q (Put library reason file line) = (Done, (if length q = 15 then tl q else q) @ [spec_error env library reason file line])"
| "queue_step env q (Get d) = (if q = [] then (Values no_values, []) else (Values (values_of d (hd q)), tl q))"
| "queue_step env q (Peek d) = (Values (if q = [] then no_values else values_of d (hd q)), q)"
| "queue_step env q (Peek_last d) = (Values (if q = [] then no_values else values_of d (last q)), q)"
| "queue_step env q Clear = (Done, [])"
| "queue_step env q (Set_data data) = (Done, if q = [] then [] else butlast q @ [(last q)\<lparr>ee_data := Some data\<rparr>])"
| "queue_step env q Set_mark = (Flag (q \<noteq> []), if q = [] then [] else butlast q @ [(last q)\<lparr>ee_mark := True\<rparr>])"
| "queue_step env q Pop_to_mark = map_prod Flag id (pop_unmarked q)"

section \<open>Refinement\<close>

definition env_ready :: "err_env \<Rightarrow> bool" where
  "env_ready env \<longleftrightarrow> OPENSSL_malloc (env_mem env) sizeof_ERR_STATE \<noteq> None \<and> env_set_local env"

definition slot_ok :: "err_slot \<Rightarrow> bool" where
  "slot_ok slot \<longleftrightarrow> (case slot of None \<Rightarrow> True | Some st \<Rightarrow> err_ok st)"

definition slot_queue :: "err_slot \<Rightarrow> err_error_st list" where
  "slot_queue slot = (case slot of None \<Rightarrow> [] | Some st \<Rightarrow> queue st)"

lemma get_state:
  assumes "env_ready env" and "slot_ok slot"
  obtains st where "err_get_state env slot = (Some st, Some st)" "err_ok st" "slot_queue slot = queue st"
proof (cases slot)
  case (Some st)
  with assms that show thesis by (auto simp: err_get_state_def slot_ok_def slot_queue_def)
next
  case None
  let ?st = "\<lparr>es_errors = replicate ERR_NUM_ERRORS err_clear, es_top = 0, es_bottom = 0, es_to_free = None\<rparr>"
  have "err_get_state env slot = (Some ?st, Some ?st)" using assms(1) None by (auto simp: err_get_state_def env_ready_def Let_def)
  moreover have "err_ok ?st" "slot_queue slot = queue ?st"
    using None by (simp_all add: err_ok_def slot_queue_def queue_def num_errors_def ERR_NUM_ERRORS_def)
  ultimately show thesis by (rule that)
qed

lemmas slot_simps = slot_ok_def slot_queue_def

lemma get_values:
  assumes "env_ready env" and "slot_ok slot" and d: "fl = (d \<noteq> Code)" "dt = (d = Data)"
  shows "\<exists>slot'. get_error_values env slot True False fl dt = (if slot_queue slot = [] then no_values else values_of d (hd (slot_queue slot)), slot') \<and>
    slot_ok slot' \<and> slot_queue slot' = tl (slot_queue slot)"
    "\<exists>slot'. get_error_values env slot False False fl dt = (if slot_queue slot = [] then no_values else values_of d (hd (slot_queue slot)), slot') \<and>
    slot_ok slot' \<and> slot_queue slot' = slot_queue slot"
    "\<exists>slot'. get_error_values env slot False True fl dt = (if slot_queue slot = [] then no_values else values_of d (last (slot_queue slot)), slot') \<and>
    slot_ok slot' \<and> slot_queue slot' = slot_queue slot"
proof -
  obtain st where st: "err_get_state env slot = (Some st, Some st)" "err_ok st" "slot_queue slot = queue st" by (rule get_state [OF assms(1,2)])
  note e = empty_iff [OF st(2)]
  have free: "err_ok (st\<lparr>es_to_free := f\<rparr>) \<longleftrightarrow> err_ok st" "queue (st\<lparr>es_to_free := f\<rparr>) = queue st" for f
    by (simp_all add: err_ok_def queue_def num_errors_def)
  have sh: "queue st \<noteq> [] \<Longrightarrow> err_ok (st\<lparr>es_errors := (es_errors st)[(es_bottom st + 1) mod 16 := err_clear], es_bottom := (es_bottom st + 1) mod 16\<rparr>) \<and>
      queue (st\<lparr>es_errors := (es_errors st)[(es_bottom st + 1) mod 16 := err_clear], es_bottom := (es_bottom st + 1) mod 16\<rparr>) = tl (queue st)"
    by (rule queue_shift [OF st(2)])
  have sh': "queue st \<noteq> [] \<Longrightarrow> err_ok (st\<lparr>es_to_free := f, es_errors := (es_errors st)[(es_bottom st + 1) mod 16 := err_clear], es_bottom := (es_bottom st + 1) mod 16\<rparr>) \<and>
      queue (st\<lparr>es_to_free := f, es_errors := (es_errors st)[(es_bottom st + 1) mod 16 := err_clear], es_bottom := (es_bottom st + 1) mod 16\<rparr>) = tl (queue st)" for f
    using queue_shift [of "st\<lparr>es_to_free := f\<rparr>" err_clear] st(2) free [of f] by simp
  show "\<exists>slot'. get_error_values env slot True False fl dt = (if slot_queue slot = [] then no_values else values_of d (hd (slot_queue slot)), slot') \<and>
    slot_ok slot' \<and> slot_queue slot' = tl (slot_queue slot)"
  proof (cases "queue st = []")
    case True
    with st e show ?thesis by (simp add: get_error_values_def no_values_def slot_simps)
  next
    case False
    with st(1,3) e sh sh' queue_hd [of st] d show ?thesis
      by (cases d) (simp_all add: get_error_values_def values_of_def slot_simps ERR_NUM_ERRORS_def Let_def)
  qed
  show "\<exists>slot'. get_error_values env slot False False fl dt = (if slot_queue slot = [] then no_values else values_of d (hd (slot_queue slot)), slot') \<and>
    slot_ok slot' \<and> slot_queue slot' = slot_queue slot"
    using st e queue_hd [of st] d by (auto simp: get_error_values_def values_of_def no_values_def slot_simps ERR_NUM_ERRORS_def Let_def)
  show "\<exists>slot'. get_error_values env slot False True fl dt = (if slot_queue slot = [] then no_values else values_of d (last (slot_queue slot)), slot') \<and>
    slot_ok slot' \<and> slot_queue slot' = slot_queue slot"
    using st e queue_last [of st] d by (auto simp: get_error_values_def values_of_def no_values_def slot_simps Let_def)
qed

lemma err_upd_errors: "err_ok st \<Longrightarrow> err_ok (st\<lparr>es_errors := (es_errors st)[i := e]\<rparr>)"
  by (simp add: err_ok_def)

lemma pop_unmarked_last:
  assumes "q \<noteq> []"
  shows "pop_unmarked q = (if ee_mark (last q) then (True, butlast q @ [(last q)\<lparr>ee_mark := False\<rparr>]) else pop_unmarked (butlast q))"
  using assms by (cases q rule: rev_cases) (simp_all add: pop_unmarked_def)

lemma pop_loop_done:
  "err_ok st \<Longrightarrow> num_errors st \<le> fuel \<Longrightarrow>
    \<exists>r st'. pop_loop fuel st = Some (r, st') \<and> err_ok st' \<and> pop_unmarked (queue st) = (r, queue st')"
proof (induction fuel arbitrary: st)
  case 0
  then have q: "queue st = []" by (metis le_zero_eq length_0_conv length_queue)
  with 0 empty_iff [OF 0(1)] show ?case by (simp add: pop_loop.simps pop_unmarked_def ex_bool_eq)
next
  case (Suc fuel)
  note ok = Suc.prems(1)
  show ?case
  proof (cases "queue st = []")
    case True
    with ok empty_iff [OF ok] show ?thesis by (simp add: pop_loop.simps pop_unmarked_def ex_bool_eq)
  next
    case False
    note l = queue_last [OF ok False] and pu = pop_unmarked_last [OF False]
    have ne: "es_bottom st \<noteq> es_top st" using empty_iff [OF ok] False by simp
    show ?thesis
    proof (cases "ee_mark (last (queue st))")
      case True
      with ne l pu ok queue_upd_last [OF ok False] show ?thesis
        by (simp add: pop_loop.simps [of "Suc fuel"] pop_round_def Let_def err_upd_errors ex_bool_eq)
    next
      case unmarked: False
      let ?st = "st\<lparr>es_errors := (es_errors st)[es_top st := err_clear], es_top := (if es_top st = 0 then 15 else es_top st - 1)\<rparr>"
      have d: "err_ok ?st \<and> queue ?st = butlast (queue st)" by (rule queue_drop_last [OF ok False])
      then have "num_errors ?st = num_errors st - 1" by (metis length_butlast length_queue)
      with Suc.prems(2) have "num_errors ?st \<le> fuel" by simp
      from Suc.IH [OF conjunct1 [OF d] this] obtain r st' where "pop_loop fuel ?st = Some (r, st')" "err_ok st'"
        "pop_unmarked (butlast (queue st)) = (r, queue st')" using d by auto
      moreover have "pop_round st = Inr ?st" using unmarked l by (simp add: pop_round_def Let_def ERR_NUM_ERRORS_def)
      ultimately show ?thesis using ne pu unmarked by (simp add: pop_loop.simps [of "Suc fuel" st])
    qed
  qed
qed

lemma err_step_sim:
  assumes env: "env_ready env" and ok: "slot_ok slot" and st: "err_step env slot c = (r, slot')"
  shows "slot_ok slot' \<and> queue_step env (slot_queue slot) c = (r, slot_queue slot')"
proof -
  obtain s where s: "err_get_state env slot = (Some s, Some s)" "err_ok s" "slot_queue slot = queue s" by (rule get_state [OF env ok])
  note e = empty_iff [OF s(2)] and l = queue_last [OF s(2)] and u = queue_upd_last [OF s(2)]
  show ?thesis
  proof (cases c)
    case (Put library reason fname line)
    have "spec_error env library reason fname line = err_clear\<lparr>ee_file := fname, ee_line := of_nat line,
        ee_packed := ERR_PACK library (if library = ERR_LIB_SYS \<and> reason = 0 then env_errno env else reason)\<rparr>"
      by (simp add: spec_error_def err_clear_def)
    with Put st s queue_push [OF s(2), of "spec_error env library reason fname line"] show ?thesis
      by (auto simp: ERR_put_error_def slot_simps Let_def ERR_NUM_ERRORS_def)
  next
    case (Get d)
    with st get_values(1) [OF env ok, of "d \<noteq> Code" d "d = Data"] show ?thesis
      by (cases d) (auto simp: ERR_get_error_def ERR_get_error_line_def ERR_get_error_line_data_def)
  next
    case (Peek d)
    with st get_values(2) [OF env ok, of "d \<noteq> Code" d "d = Data"] show ?thesis
      by (cases d) (auto simp: ERR_peek_error_def ERR_peek_error_line_def ERR_peek_error_line_data_def)
  next
    case (Peek_last d)
    with st get_values(3) [OF env ok, of "d \<noteq> Code" d "d = Data"] show ?thesis
      by (cases d) (auto simp: ERR_peek_last_error_def ERR_peek_last_error_line_def ERR_peek_last_error_line_data_def)
  next
    case Clear
    with st s show ?thesis by (auto simp: ERR_clear_error_def slot_simps err_ok_def queue_def num_errors_def)
  next
    case (Set_data data)
    with st s e l u show ?thesis by (auto simp: err_set_error_data_def slot_simps err_upd_errors)
  next
    case Set_mark
    with st s e l u show ?thesis by (auto simp: ERR_set_mark_def slot_simps err_upd_errors)
  next
    case Pop_to_mark
    from pop_loop_done [OF s(2), of 16] num_errors_bound [OF s(2)] obtain r1 s1 where
      "pop_loop 16 s = Some (r1, s1)" "err_ok s1" "pop_unmarked (queue s) = (r1, queue s1)" by auto
    with Pop_to_mark st s show ?thesis by (auto simp: ERR_pop_to_mark_def slot_simps ERR_NUM_ERRORS_def)
  qed
qed

definition ready_env :: err_env where
  "ready_env = \<lparr>env_mem = generous, env_set_local = True, env_errno = 11\<rparr>"

lemma ready_env: "env_ready ready_env"
  by (simp add: env_ready_def ready_env_def OPENSSL_malloc_def malloc_def generous_def sizeof_ERR_STATE_def OPENSSL_MALLOC_PREFIX_def)

text \<open>The environment may be any one in which the state of the thread can be set up.\<close>

interpretation errq: simulation "\<lambda>slot. env_ready env \<and> slot_ok slot" slot_queue "err_step env" "queue_step env"
  for env
  by unfold_locales (use err_step_sim in blast)

section \<open>Saving and restoring\<close>

definition unmark :: "err_error_st \<Rightarrow> err_error_st" where
  "unmark e = e\<lparr>ee_mark := False\<rparr>"

definition grants_all :: "err_env \<Rightarrow> bool" where
  "grants_all env \<longleftrightarrow> (\<forall>n. grants (env_mem env) n) \<and> env_set_local env"

lemma grants_all_malloc: "grants_all env \<Longrightarrow> n + 8 < SIZE_MOD \<Longrightarrow> \<exists>p. OPENSSL_malloc (env_mem env) n = Some p"
  by (intro OPENSSL_malloc_granted) (simp_all add: grants_all_def)

lemma grants_all_ready: "grants_all env \<Longrightarrow> env_ready env"
  using grants_all_malloc [of env sizeof_ERR_STATE] by (auto simp: env_ready_def grants_all_def sizeof_ERR_STATE_def)

definition small_data :: "err_error_st \<Rightarrow> bool" where
  "small_data e \<longleftrightarrow> (case ee_data e of None \<Rightarrow> True | Some data \<Rightarrow> length data < 2 ^ 63)"

lemma err_copy_unmark:
  assumes "grants_all env" and "small_data e"
  shows "err_copy env e = unmark e"
proof (cases "ee_data e")
  case (Some data)
  with assms(2) have n: "length data + 1 < SIZE_MOD" "length data + 1 + 8 < SIZE_MOD" by (simp_all add: small_data_def)
  obtain p where p: "OPENSSL_malloc (env_mem env) (length data + 1) = Some p" using grants_all_malloc [OF assms(1) n(2)] by blast
  have "length p = length data + 1" by (rule length_OPENSSL_malloc [OF p n(1)])
  with p Some show ?thesis by (simp add: err_copy_def unmark_def err_clear_def OPENSSL_strdup_def Let_def)
qed (simp add: err_copy_def unmark_def err_clear_def)

text \<open>The data string of an error is the concatenation of the arguments.\<close>

fun given :: "byte list option list \<Rightarrow> byte list" where
  "given [] = []"
| "given (None # args) = given args"
| "given (Some s # args) = s @ given args"

lemma vdata_loop_concat:
  "grants_all env \<Longrightarrow> take len buf = acc \<Longrightarrow> length acc = len \<Longrightarrow> length buf = alloced + 1 \<Longrightarrow> len \<le> alloced \<Longrightarrow>
    len + length (given args) < 2 ^ 62 \<Longrightarrow> alloced < 2 ^ 63 \<Longrightarrow>
    \<exists>buf' len'. vdata_loop env buf len alloced args = Some (buf', len') \<and> take len' buf' = acc @ given args \<and> len' < length buf' \<and>
      len' = len + length (given args)"
proof (induction args arbitrary: buf len alloced acc rule: given.induct)
  case (3 s args)
  let ?n = "len + length s"
  have n: "?n mod SIZE_MOD = ?n" using 3(7) by simp
  have copy: "take ?n (OPENSSL_memcpy b len s) = acc @ s" "length (OPENSSL_memcpy b len s) = length b"
    if "take len b = acc" "?n \<le> length b" for b
    using that 3(4) by (auto simp: OPENSSL_memcpy_def)
  show ?case
  proof (cases "?n > alloced")
    case True
    let ?a = "?n + 20"
    have a: "?a mod SIZE_MOD = ?a" "(?a + 1) mod SIZE_MOD = ?a + 1" "\<not> (alloced + 20 + 1) mod SIZE_MOD < alloced" "?a + 1 < SIZE_MOD" using 3(7,8) by simp_all
    obtain b where b: "OPENSSL_realloc (env_mem env) (Some buf) (?a + 1) = Some b"
      using OPENSSL_realloc_granted [of "env_mem env" "?a + 1" "Some buf"] 3(2,7) by (auto simp: grants_all_def)
    have l: "length b = ?a + 1" by (rule length_OPENSSL_realloc [OF b a(4)])
    have "take len b = take len buf" by (rule OPENSSL_realloc_keeps [OF b a(4)]) (use 3 True in simp_all)
    with 3(3) l have t: "take len b = acc" "?n \<le> length b" by simp_all
    have "\<exists>buf' len'. vdata_loop env (OPENSSL_memcpy b len s) ?n ?a args = Some (buf', len') \<and> take len' buf' = (acc @ s) @ given args \<and>
        len' < length buf' \<and> len' = ?n + length (given args)"
      by (rule 3(1)) (use 3 copy [OF t] l in simp_all)
    then show ?thesis using True n a b by (simp add: Let_def add.assoc)
  next
    case False
    have t: "take len buf = acc" "?n \<le> length buf" using 3 False by simp_all
    have "\<exists>buf' len'. vdata_loop env (OPENSSL_memcpy buf len s) ?n alloced args = Some (buf', len') \<and> take len' buf' = (acc @ s) @ given args \<and>
        len' < length buf' \<and> len' = ?n + length (given args)"
      by (rule 3(1)) (use 3 copy [OF t] False in simp_all)
    then show ?thesis using False n by (simp add: Let_def add.assoc)
  qed
qed auto

lemma add_error_data_concat:
  assumes env: "grants_all env" and "length (given args) < 2 ^ 62" and "0 \<notin> set (given args)"
  shows "err_add_error_vdata env slot args = err_set_error_data env slot (given args)"
proof -
  obtain buf where buf: "OPENSSL_malloc (env_mem env) 81 = Some buf" using grants_all_malloc [OF env, of 81] by auto
  have "length buf = 81" by (rule length_OPENSSL_malloc [OF buf]) simp
  from vdata_loop_concat [OF env, of 0 buf "[]" 80 args] this assms(2) obtain buf' where
    v: "vdata_loop env buf 0 80 args = Some (buf', length (given args))" "take (length (given args)) buf' = given args" "length (given args) < length buf'"
    by auto
  have "buf'[length (given args) := 0] = given args @ 0 # drop (Suc (length (given args))) buf'"
    using v(2,3) by (metis upd_conv_take_nth_drop)
  then have "takeWhile (\<lambda>c. c \<noteq> 0) (buf'[length (given args) := 0]) = given args"
    using assms(3) by (simp add: takeWhile_append1 takeWhile_append)
  with buf v(1) show ?thesis by (simp add: err_add_error_vdata_def)
qed

lemma save_queue:
  assumes env: "grants_all env" and ok: "slot_ok slot" and small: "list_all small_data (slot_queue slot)"
  shows "fst (ERR_save_state env slot) = (if slot_queue slot = [] then None else Some (map unmark (slot_queue slot)))"
proof -
  obtain st where st: "err_get_state env slot = (Some st, Some st)" "err_ok st" "slot_queue slot = queue st"
    by (rule get_state [OF grants_all_ready [OF env] ok])
  have m: "\<exists>p. OPENSSL_malloc (env_mem env) 16 = Some p" "\<exists>p. OPENSSL_malloc (env_mem env) (num_errors st * sizeof_err_error_st) = Some p"
    using num_errors_bound [OF st(2)] by (intro grants_all_malloc [OF env]; simp add: sizeof_err_error_st_def)+
  have "map (\<lambda>i. err_copy env (es_errors st ! ((es_bottom st + i + 1) mod ERR_NUM_ERRORS))) [0..<num_errors st] = map (err_copy env) (queue st)"
    by (simp add: queue_def ERR_NUM_ERRORS_def add.commute add.left_commute)
  also have "\<dots> = map unmark (queue st)" using small st(3) err_copy_unmark [OF env] by (auto simp: list_all_iff)
  finally show ?thesis using st m empty_iff [OF st(2)] by (auto simp: ERR_save_state_def)
qed

lemma unmark_simps [simp]: "unmark (unmark e) = unmark e" "small_data (unmark e) = small_data e"
  by (simp_all add: unmark_def small_data_def)

lemma restore_queue:
  assumes env: "grants_all env" and ok: "slot_ok slot" and q: "length q < 16" "list_all small_data q"
  shows "slot_queue (ERR_restore_state env slot (if q = [] then None else Some (map unmark q))) = map unmark q"
proof -
  obtain st where st: "err_get_state env slot = (Some st, Some st)" "err_ok st" "slot_queue slot = queue st"
    by (rule get_state [OF grants_all_ready [OF env] ok])
  have c: "map (err_copy env) (map unmark q) = map unmark q" using q(2) err_copy_unmark [OF env] by (auto simp: list_all_iff)
  show ?thesis
  proof (cases "q = []")
    case True
    with st show ?thesis by (simp add: ERR_restore_state_def ERR_clear_error_def slot_queue_def queue_def num_errors_def)
  next
    case False
    let ?st = "st\<lparr>es_errors := map unmark q @ drop (length q) (es_errors st), es_top := length q - 1, es_bottom := 15\<rparr>"
    have n: "num_errors ?st = length q" using q(1) False by (cases q) (auto simp: num_errors_def ERR_NUM_ERRORS_def)
    have "queue ?st = map unmark q"
      by (rule nth_equalityI) (use n q(1) in \<open>simp_all add: queue_nth nth_append\<close>)
    with st False show ?thesis by (simp add: ERR_restore_state_def slot_queue_def ERR_NUM_ERRORS_def c del: map_map)
  qed
qed

lemma err_queue_len:
  assumes "env_ready env" and "run_calls (err_step env) None calls = (rets, slot)"
  shows "slot_ok slot" "length (slot_queue slot) < 16" "run_calls (queue_step env) [] calls = (rets, slot_queue slot)"
proof -
  have r: "slot_ok slot \<and> run_calls (queue_step env) (slot_queue None) calls = (rets, slot_queue slot)"
    using errq.run_sim [of env None calls rets slot] assms by (simp add: slot_ok_def)
  then show "slot_ok slot" "run_calls (queue_step env) [] calls = (rets, slot_queue slot)" by (simp_all add: slot_queue_def)
  with num_errors_bound show "length (slot_queue slot) < 16" by (auto simp: slot_simps split: option.splits)
qed

section \<open>Properties\<close>

text \<open>C11: The error ring implements a bounded queue. In a thread whose state can be set up, any sequence of calls that put, get, peek at, clear,
  annotate, mark and pop errors returns what a list of at most fifteen errors returns: a sixteenth error drops the oldest, errors are
  taken oldest first, and \<open>ERR_pop_to_mark\<close> ends and removes exactly the errors after the last mark.\<close>

theorem err_queue_refines:
  assumes "env_ready env" and "run_calls (err_step env) None calls = (rets, slot)"
  shows "slot_ok slot \<and> length (slot_queue slot) < 16 \<and> run_calls (queue_step env) [] calls = (rets, slot_queue slot)"
  using err_queue_len [OF assms] by blast

definition demo_calls :: "err_call list" where
  "demo_calls = [Put 11 5 None 1, Set_mark, Put 2 0 None 2, Put 3 7 None 3, Pop_to_mark, Get Code, Get Code]"

theorem err_queue_refines_witness:
  "\<exists>rets slot. run_calls (err_step ready_env) None demo_calls = (rets, slot) \<and>
    run_calls (queue_step ready_env) [] demo_calls = (rets, slot_queue slot) \<and> slot_queue slot = [] \<and>
    rets ! 4 = Flag True \<and> rets ! 6 = Values no_values"
proof -
  obtain rets slot where r: "run_calls (err_step ready_env) None demo_calls = (rets, slot)" by fastforce
  have spec: "run_calls (queue_step ready_env) [] demo_calls = (rets, slot_queue slot)" using err_queue_refines [OF ready_env r] by simp
  moreover from this have "slot_queue slot = [] \<and> rets ! 4 = Flag True \<and> rets ! 6 = Values no_values"
    by (auto simp: demo_calls_def pop_unmarked_def spec_error_def)
  ultimately show ?thesis using r by blast
qed

text \<open>C36: \<open>ERR_restore_state\<close> after \<open>ERR_save_state\<close> brings the queue back, whatever calls came in between and also across the wrap-around of
  the ring, when memory is granted; only the marks are not saved.\<close>

theorem err_save_restore:
  assumes "grants_all env" and "run_calls (err_step env) None calls = (rets, slot)" and "run_calls (err_step env) slot calls' = (rets', slot')"
    and "list_all small_data (slot_queue slot)"
  shows "slot_queue (ERR_restore_state env slot' (fst (ERR_save_state env slot))) = map unmark (slot_queue slot)"
proof -
  have ok: "slot_ok slot" and len: "length (slot_queue slot) < 16"
    using err_queue_len [OF grants_all_ready [OF assms(1)] assms(2)] by simp_all
  have "slot_ok slot'" using errq.run_sim [of env slot calls'] ok grants_all_ready [OF assms(1)] assms(3) by simp
  from restore_queue [OF assms(1) this len assms(4)] save_queue [OF assms(1) ok assms(4)] show ?thesis by simp
qed

theorem err_save_restore_witness:
  "\<exists>rets slot rets' slot'. run_calls (err_step ready_env) None [Put 11 5 None 1, Set_mark] = (rets, slot) \<and>
    run_calls (err_step ready_env) slot [Put 3 7 None 3, Clear] = (rets', slot') \<and>
    slot_queue (ERR_restore_state ready_env slot' (fst (ERR_save_state ready_env slot))) = [spec_error ready_env 11 5 None 1]"
proof -
  obtain rets slot where r: "run_calls (err_step ready_env) None [Put 11 5 None 1, Set_mark] = (rets, slot)" by fastforce
  obtain rets' slot' where r': "run_calls (err_step ready_env) slot [Put 3 7 None 3, Clear] = (rets', slot')" by fastforce
  have g: "grants_all ready_env" by (simp add: grants_all_def ready_env_def generous_def)
  have "slot_queue slot = [(spec_error ready_env 11 5 None 1)\<lparr>ee_mark := True\<rparr>]"
    using err_queue_len(3) [OF ready_env r] by simp
  with err_save_restore [OF g r r'] r r' show ?thesis by (auto simp: small_data_def spec_error_def unmark_def)
qed

end
