(* ===== verification/Time.thy ===== *)
theory Time
  imports Prelude "HOL-Library.Signed_Division"
begin

text \<open>
  Calendar arithmetic of \<^verbatim>\<open>crypto/asn1/time_support.c\<close>. C's division truncates (\<open>sdiv\<close>). Expressions of type \<open>int\<close> are computed without bound
  and checked: where one of them leaves the range of \<open>int\<close> the behaviour of the C program is undefined and the result is
  \<open>None\<close>. Expressions of type \<open>long\<close> are computed without bound; they stay within 64 bits for
  offsets below \<open>2 ^ 62\<close> seconds.
\<close>

section \<open>Operations\<close>

definition SECS_PER_DAY :: int where "SECS_PER_DAY = 24 * 60 * 60"

record tm =
  tm_year :: int
  tm_mon :: int
  tm_mday :: int
  tm_hour :: int
  tm_min :: int
  tm_sec :: int

definition date_to_julian :: "int \<Rightarrow> int \<Rightarrow> int \<Rightarrow> int option" where
  "date_to_julian y m d =
     (let e = (m - 14) sdiv 12;
          a = 1461 * (y + 4800 + e);
          b = 367 * (m - 2 - 12 * e);
          c = 3 * ((y + 4900 + e) sdiv 100);
          r = a sdiv 4 + b sdiv 12 - c sdiv 4 + d - 32075
      in if list_all in_int [m - 14, y + 4800, y + 4800 + e, a, m - 2, 12 * e, m - 2 - 12 * e, b, y + 4900, y + 4900 + e, c,
             a sdiv 4 + b sdiv 12, a sdiv 4 + b sdiv 12 - c sdiv 4, a sdiv 4 + b sdiv 12 - c sdiv 4 + d, r]
         then Some r else None)"

definition julian_to_date :: "int \<Rightarrow> int \<times> int \<times> int" where
  "julian_to_date jd =
     (let L = jd + 68569;
          n = (4 * L) sdiv 146097;
          L = L - (146097 * n + 3) sdiv 4;
          i = (4000 * (L + 1)) sdiv 1461001;
          L = L - (1461 * i) sdiv 4 + 31;
          j = (80 * L) sdiv 2447;
          d = L - (2447 * j) sdiv 80;
          L = j sdiv 11;
          m = j + 2 - 12 * L;
          y = 100 * (n - 49) + i + L
      in (y, m, d))"

text \<open>The outer option is for undefined behaviour, the inner one for the return value 0.\<close>

definition julian_adj :: "tm \<Rightarrow> int \<Rightarrow> int \<Rightarrow> (int \<times> int) option option" where
  "julian_adj t off_day offset_sec =
     (let offset_day = int32 (offset_sec sdiv SECS_PER_DAY);
          whole_days = offset_day * SECS_PER_DAY;
          offset_hms = int32 (offset_sec - whole_days);
          offset_day = offset_day + off_day;
          secs = tm_hour t * 3600 + tm_min t * 60 + tm_sec t;
          offset_hms = offset_hms + secs;
          (offset_day', offset_hms') =
            (if offset_hms \<ge> SECS_PER_DAY then (offset_day + 1, offset_hms - SECS_PER_DAY)
             else if offset_hms < 0 then (offset_day - 1, offset_hms + SECS_PER_DAY)
             else (offset_day, offset_hms));
          time_year = tm_year t + 1900;
          time_month = tm_mon t + 1
      in if \<not> list_all in_int [whole_days, offset_day, tm_hour t * 3600, tm_min t * 60, tm_hour t * 3600 + tm_min t * 60, secs,
              offset_hms, offset_day', offset_hms', time_year, time_month] then None
         else case date_to_julian time_year time_month (tm_mday t) of
             None \<Rightarrow> None
           | Some jd \<Rightarrow>
               let time_jd = jd + offset_day'
               in if time_jd < 0 then Some None else Some (Some (time_jd, offset_hms')))"

definition OPENSSL_gmtime_adj :: "tm \<Rightarrow> int \<Rightarrow> int \<Rightarrow> tm option option" where
  "OPENSSL_gmtime_adj t off_day offset_sec = (case julian_adj t off_day offset_sec of
      None \<Rightarrow> None
    | Some None \<Rightarrow> Some None
    | Some (Some (time_jd, time_sec)) \<Rightarrow>
        (case julian_to_date time_jd of
           (time_year, time_month, time_day) \<Rightarrow>
             if time_year < 1900 \<or> time_year > 9999 then Some None
             else Some (Some (t\<lparr>tm_year := time_year - 1900, tm_mon := time_month - 1, tm_mday := time_day,
               tm_hour := time_sec sdiv 3600, tm_min := (time_sec sdiv 60) smod 60, tm_sec := time_sec smod 60\<rparr>))))"

text \<open>The differences in days and in seconds; both output pointers are given.\<close>

definition OPENSSL_gmtime_diff :: "tm \<Rightarrow> tm \<Rightarrow> (int \<times> int) option option" where
  "OPENSSL_gmtime_diff from_tm to_tm = (case julian_adj from_tm 0 0 of
      None \<Rightarrow> None
    | Some None \<Rightarrow> Some None
    | Some (Some (from_jd, from_sec)) \<Rightarrow>
        (case julian_adj to_tm 0 0 of
           None \<Rightarrow> None
         | Some None \<Rightarrow> Some None
         | Some (Some (to_jd, to_sec)) \<Rightarrow>
             let diff_day = to_jd - from_jd;
                 diff_sec = to_sec - from_sec;
                 (diff_day, diff_sec) = (if diff_day > 0 \<and> diff_sec < 0 then (diff_day - 1, diff_sec + SECS_PER_DAY) else (diff_day, diff_sec));
                 (diff_day, diff_sec) = (if diff_day < 0 \<and> diff_sec > 0 then (diff_day + 1, diff_sec - SECS_PER_DAY) else (diff_day, diff_sec))
             in Some (Some (int32 diff_day, diff_sec))))"

section \<open>The Gregorian calendar\<close>

definition leap :: "int \<Rightarrow> bool" where
  "leap y \<longleftrightarrow> 4 dvd y \<and> \<not> 100 dvd y \<or> 400 dvd y"

definition month_days :: "int \<Rightarrow> int \<Rightarrow> int" where
  "month_days y m = (if m = 2 then if leap y then 29 else 28 else if m \<in> {4, 6, 9, 11} then 30 else 31)"

definition valid_date :: "int \<Rightarrow> int \<Rightarrow> int \<Rightarrow> bool" where
  "valid_date y m d \<longleftrightarrow> 1 \<le> m \<and> m \<le> 12 \<and> 1 \<le> d \<and> d \<le> month_days y m"

text \<open>The number of leap years up to a year, and of days up to a date, counted year by year and month by month.\<close>

definition leaps :: "int \<Rightarrow> int" where
  "leaps y = y div 4 - y div 100 + y div 400"

definition day_number :: "int \<Rightarrow> int \<Rightarrow> int \<Rightarrow> int" where
  "day_number y m d = 365 * (y - 1) + leaps (y - 1) + sum_list (map (month_days y) [1..m - 1]) + d"

lemma sdiv_nonneg: "0 \<le> a \<Longrightarrow> 0 < b \<Longrightarrow> a sdiv b = a div b" for a b :: int
  by (simp add: signed_divide_int_def sgn_if)

lemma smod_nonneg: "0 \<le> a \<Longrightarrow> 0 < b \<Longrightarrow> a smod b = a mod b" for a b :: int
  by (cases "a = 0") (simp_all add: signed_modulo_int_def sdiv_nonneg minus_div_mult_eq_mod)

lemma month_cases:
  assumes "1 \<le> m" and "m \<le> 12"
  shows "m \<in> {1, 2, 3, 4, 5, 6, 7, 8, 9, 10, 11, 12 :: int}"
  using assms by (simp, presburger)

lemma months_before:
  assumes "1 \<le> m" and "m \<le> 12"
  shows "sum_list (map (month_days y) [1..m - 1]) =
    (if m \<le> 2 then 31 * (m - 1) else 367 * (m - 2) div 12 + 29 + of_bool (leap y))"
  using month_cases [OF assms] by (elim insertE emptyE) (simp_all add: month_days_def upto_rec1)

section \<open>Julian days\<close>

text \<open>The closed formula behind \<open>date_to_julian\<close>, with the year starting in March.\<close>

definition jdn :: "int \<Rightarrow> int \<Rightarrow> int \<Rightarrow> int" where
  "jdn y m d = (let e = (if m \<le> 2 then - 1 else 0)
     in 1461 * (y + 4800 + e) div 4 + 367 * (m - 2 - 12 * e) div 12 - 3 * ((y + 4900 + e) div 100) div 4 + d - 32075)"

lemma date_to_julian_jdn:
  assumes m: "1 \<le> m" "m \<le> 12" and d: "1 \<le> d" "d \<le> 31" and y: "- 4799 \<le> y" "y \<le> 1000000"
  shows "date_to_julian y m d = Some (jdn y m d)"
proof -
  define e :: int where "e = (if m \<le> 2 then - 1 else 0)"
  have e: "(m - 14) sdiv 12 = e" using month_cases [OF m] by (elim insertE emptyE) (simp_all add: e_def signed_divide_int_def)
  define a where "a = y + 4800 + e"
  define b where "b = m - 2 - 12 * e"
  define c where "c = (y + 4900 + e) div 100"
  have r: "0 \<le> a" "a \<le> 1004800" "1 \<le> b" "b \<le> 12" "- 1 \<le> e" "e \<le> 0" using y m by (auto simp: a_def b_def e_def)
  have c: "0 \<le> c" "c \<le> 10049" using r by (simp_all add: c_def a_def)
  have s: "(1461 * a) sdiv 4 = 1461 * a div 4" "(367 * b) sdiv 12 = 367 * b div 12" "(y + 4900 + e) sdiv 100 = c" "(3 * c) sdiv 4 = 3 * c div 4"
    using r c y by (simp_all add: sdiv_nonneg c_def a_def)
  define A where "A = 1461 * a div 4"
  define B where "B = 367 * b div 12"
  define C where "C = 3 * c div 4"
  have q: "0 \<le> A" "A \<le> 400000000" "0 \<le> B" "B \<le> 367" "0 \<le> C" "C \<le> 10000"
    unfolding A_def B_def C_def using r c by simp_all
  have y': "y + 4800 = a - e" "y + 4900 = a + 100 - e" "y + 4900 + e = a + 100" "m - 2 = b + 12 * e" "m - 14 = b + 12 * e - 12"
    by (simp_all add: a_def b_def)
  have i: "list_all in_int [m - 14, y + 4800, a, 1461 * a, m - 2, 12 * e, b, 367 * b, y + 4900, y + 4900 + e, 3 * c,
      A + B, A + B - C, A + B - C + d, A + B - C + d - 32075]"
    unfolding y' list.pred_inject in_int_def using r c q d by simp
  have "date_to_julian y m d = Some (A + B - C + d - 32075)"
    using i by (simp only: date_to_julian_def Let_def e a_def [symmetric] b_def [symmetric] s A_def [symmetric] B_def [symmetric]
        C_def [symmetric] if_True)
  moreover have "jdn y m d = A + B - C + d - 32075"
    by (simp only: jdn_def Let_def e_def [symmetric] a_def [symmetric] b_def [symmetric] c_def [symmetric] A_def B_def C_def)
  ultimately show ?thesis by simp
qed

lemma three_quarters: "3 * (t + 49) div 4 = t + 36 - t div 4" for t :: int
proof -
  define q s where "q = t div 4" and "s = t mod 4"
  have t: "t = s + q * 4" by (simp add: q_def s_def)
  have "s = 0 \<or> s = 1 \<or> s = 2 \<or> s = 3" unfolding s_def by presburger
  then have s: "(3 * s + 147) div 4 = s + 36" by auto
  have "3 * (t + 49) = (3 * s + 147) + (3 * q) * 4" by (simp add: t)
  then have "3 * (t + 49) div 4 = (3 * s + 147) div 4 + 3 * q" by (simp only: div_mult_self1 zero_neq_numeral [symmetric] not_False_eq_True)
  then show ?thesis using s t unfolding q_def [symmetric] by linarith
qed

lemma year_days: "1461 * (y + 4800) div 4 = 3 * ((y + 4900) div 100) div 4 + 365 * y + leaps y + 1753164" for y :: int
proof -
  define Y where "Y = y + 4800"
  define t where "t = y div 100"
  define f where "f = y div 4"
  define g where "g = t div 4"
  have "1461 * Y = Y + (365 * Y) * 4" by simp
  then have 1: "1461 * Y div 4 = Y div 4 + 365 * Y" by (simp only: div_mult_self1 zero_neq_numeral [symmetric] not_False_eq_True)
  have 2: "Y div 4 = f + 1200" unfolding Y_def f_def by presburger
  have 3: "(y + 4900) div 100 = t + 49" unfolding t_def by simp
  have 4: "3 * (t + 49) div 4 = t + 36 - g" unfolding g_def by (rule three_quarters)
  have 5: "leaps y = f - t + g" unfolding leaps_def f_def g_def t_def using zdiv_zmult2_eq [of 4 y 100] by simp
  show ?thesis unfolding Y_def [symmetric] 1 2 3 4 5 by (simp add: Y_def)
qed

lemma div_pred: "0 < k \<Longrightarrow> y div k = (y - 1) div k + of_bool (k dvd y)" for y k :: int
proof -
  assume k: "0 < k"
  have "(y - 1) div k = y div k - of_bool (k dvd y)"
  proof (cases "k dvd y")
    case True
    then obtain q where q: "y = q * k" by (metis dvdE mult.commute)
    then have "(y - 1) div k = ((k - 1) + (q - 1) * k) div k" by (simp add: algebra_simps)
    also have "\<dots> = q - 1" using k by (simp add: div_pos_pos_trivial)
    finally show ?thesis using q k by simp
  next
    case False
    then have "0 < y mod k" using k by (metis dvd_eq_mod_eq_0 pos_mod_sign order_le_less)
    then have "(y - 1) div k = (k * (y div k) + (y mod k - 1)) div k" by (simp add: algebra_simps)
    also have "\<dots> = y div k" using k \<open>0 < y mod k\<close> pos_mod_bound [OF k, of y] by (simp add: div_pos_pos_trivial)
    finally show ?thesis using False by simp
  qed
  then show ?thesis by simp
qed

lemma leaps_pred: "leaps y = leaps (y - 1) + of_bool (leap y)"
proof -
  have "of_bool (leap y) = of_bool (4 dvd y) - of_bool (100 dvd y) + (of_bool (400 dvd y) :: int)"
    using dvd_trans [of 100 400 y] dvd_trans [of 4 100 y] by (auto simp: leap_def)
  then show ?thesis unfolding leaps_def using div_pred [of 4 y] div_pred [of 100 y] div_pred [of 400 y] by (simp only: zero_less_numeral)
qed

lemma jdn_day_number:
  assumes m: "1 \<le> m" "m \<le> 12"
  shows "jdn y m d = day_number y m d + 1721425"
proof (cases "m \<le> 2")
  case True
  have e: "y + 4800 + - 1 = (y - 1) + 4800" "y + 4900 + - 1 = (y - 1) + 4900" by simp_all
  define C where "C = 3 * ((y - 1 + 4900) div 100) div 4"
  have j: "jdn y m d = C + 365 * (y - 1) + leaps (y - 1) + 1753164 + 367 * (m - 2 - 12 * - 1) div 12 - C + d - 32075"
    unfolding jdn_def Let_def C_def using True by (simp only: if_True e year_days)
  have "m = 1 \<or> m = 2" using True m by auto
  then show ?thesis unfolding j day_number_def using months_before [OF m, of y] by auto
next
  case False
  define C where "C = 3 * ((y + 4900) div 100) div 4"
  define B where "B = 367 * (m - 2) div 12"
  have j: "jdn y m d = C + 365 * y + leaps y + 1753164 + B - C + d - 32075"
    unfolding jdn_def Let_def C_def B_def using False by (simp only: if_False add_0_right year_days mult_zero_right diff_zero)
  have mb: "sum_list (map (month_days y) [1..m - 1]) = B + 29 + of_bool (leap y)" using months_before [OF m, of y] False by (simp only: B_def if_False)
  show ?thesis unfolding j day_number_def mb leaps_pred [of y] by simp
qed

section \<open>Back to dates\<close>

lemma div_eqI: "b * q \<le> a \<Longrightarrow> a < b * q + b \<Longrightarrow> a div b = q" for a b q :: int
  by (rule int_div_pos_eq [where r = "a - b * q"]) simp_all

lemma month_step:
  assumes v: "valid_date y m d"
  defines "a \<equiv> (if m \<le> 2 then m + 10 else m - 2)"
  shows "80 * (367 * a div 12 + d) div 2447 = a" "2447 * a div 80 = 367 * a div 12" "31 \<le> 367 * a div 12 + d" "367 * a div 12 + d \<le> 396"
    "367 * a div 12 + d = 396 \<Longrightarrow> m = 2 \<and> leap y" "a div 11 = (if m \<le> 2 then 1 else 0)" "1 \<le> a" "a \<le> 12"
proof -
  have m: "1 \<le> m" "m \<le> 12" and d: "1 \<le> d" "d \<le> month_days y m" using v by (simp_all add: valid_date_def)
  show "80 * (367 * a div 12 + d) div 2447 = a"
    by (rule div_eqI; insert month_cases [OF m] d) (elim insertE emptyE; simp add: a_def month_days_def split: if_splits)+
  show "2447 * a div 80 = 367 * a div 12" "31 \<le> 367 * a div 12 + d" "367 * a div 12 + d \<le> 396"
    "367 * a div 12 + d = 396 \<Longrightarrow> m = 2 \<and> leap y" "a div 11 = (if m \<le> 2 then 1 else 0)"
    using month_cases [OF m] d by (elim insertE emptyE; simp add: a_def month_days_def split: if_splits)+
  show "1 \<le> a" "a \<le> 12" using m by (simp_all add: a_def)
qed

text \<open>The days before a century \<open>c\<close>, and the days of the years before year \<open>r\<close> of a century.\<close>

definition century_days :: "int \<Rightarrow> int" where
  "century_days c = (146097 * c + 3) div 4"

definition years_days :: "int \<Rightarrow> int" where
  "years_days r = 1461 * r div 4"

lemma century_split: "1461 * (100 * c + r - 100) div 4 - 3 * c div 4 = century_days c + years_days r - 36525" for c r :: int
proof -
  have "1461 * (100 * c + r - 100) = 1461 * r + (36525 * (c - 1)) * 4" by simp
  then have 1: "1461 * (100 * c + r - 100) div 4 = years_days r + 36525 * (c - 1)"
    unfolding years_days_def by (simp only: div_mult_self1 zero_neq_numeral [symmetric] not_False_eq_True)
  have "146097 * c + 3 = (c + 3) + (36524 * c) * 4" by simp
  then have 2: "century_days c = (c + 3) div 4 + 36524 * c"
    unfolding century_days_def by (simp only: div_mult_self1 zero_neq_numeral [symmetric] not_False_eq_True)
  define g where "g = c div 4"
  have 3: "3 * c div 4 = c + 36 - ((c - 49) div 4) - 49" using three_quarters [of "c - 49"] by simp
  have "(c - 49) div 4 = (c + 3 - 13 * 4) div 4" by simp
  then have 4: "(c - 49) div 4 = (c + 3) div 4 - 13" by simp
  show ?thesis unfolding 1 2 3 4 by simp
qed

lemma century_bounds: "146097 * c \<le> 4 * century_days c" "4 * century_days c \<le> 146097 * c + 3" "c mod 4 = 0 \<Longrightarrow> 4 * century_days c = 146097 * c"
proof -
  show "146097 * c \<le> 4 * century_days c" "4 * century_days c \<le> 146097 * c + 3" unfolding century_days_def by linarith+
  assume "c mod 4 = 0"
  then obtain q where "c = 4 * q" by (auto simp: dvd_def mod_eq_0_iff_dvd)
  then show "4 * century_days c = 146097 * c" by (simp add: century_days_def)
qed

lemma years_bounds: "1461 * r - 3 \<le> 4 * years_days r" "4 * years_days r \<le> 1461 * r" "r mod 4 = 3 \<Longrightarrow> 4 * years_days r = 1461 * r - 3"
proof -
  show "1461 * r - 3 \<le> 4 * years_days r" "4 * years_days r \<le> 1461 * r" unfolding years_days_def by linarith+
  assume "r mod 4 = 3"
  then have "r = 4 * (r div 4) + 3" by (metis mult_div_mod_eq)
  then obtain q where r: "r = 4 * q + 3" by blast
  have "1461 * r = 3 + (1461 * q + 1095) * 4" by (simp add: r)
  then have "years_days r = 3 div 4 + (1461 * q + 1095)"
    unfolding years_days_def by (simp only: div_mult_self1 zero_neq_numeral [symmetric] not_False_eq_True)
  then show "4 * years_days r = 1461 * r - 3" by (simp add: r)
qed

lemma julian_steps:
  assumes c: "1 \<le> c" and r: "0 \<le> r" "r < 100" and D: "0 \<le> D" "D \<le> 365"
    and long: "D = 365 \<Longrightarrow> r mod 4 = 3 \<and> (r = 99 \<longrightarrow> c mod 4 = 0)"
  shows "4 * (century_days c + years_days r + D) div 146097 = c" "4000 * (years_days r + D + 1) div 1461001 = r" "0 \<le> years_days r"
proof -
  note cb = century_bounds [of c] and yb = years_bounds [of r]
  have pos: "0 \<le> years_days r" using r by (simp add: years_days_def)
  have "4 * (years_days r + D) \<le> 146093 \<or> (4 * (years_days r + D) \<le> 146096 \<and> c mod 4 = 0)"
  proof (cases "D = 365 \<and> r = 99")
    case True
    then show ?thesis using long yb by simp
  next
    case False
    have "4 * (years_days r + D) \<le> 1461 * r + 4 * D" using yb(2) by simp
    show ?thesis
    proof (cases "r = 99")
      case True
      with False D(2) have "D \<le> 364" by simp
      moreover have "years_days 99 = 36159" by (simp add: years_days_def)
      ultimately show ?thesis using True by simp
    next
      case False
      with r yb(2) D(2) show ?thesis by simp
    qed
  qed
  then show "4 * (century_days c + years_days r + D) div 146097 = c"
    using cb pos D by (intro div_eqI) (auto simp: algebra_simps)
  show "4000 * (years_days r + D + 1) div 1461001 = r"
  proof (rule div_eqI)
    show "1461001 * r \<le> 4000 * (years_days r + D + 1)" using yb(1) D r by simp
    show "4000 * (years_days r + D + 1) < 1461001 * r + 1461001" using yb D r long by (cases "D = 365") auto
  qed
  show "0 \<le> years_days r" by (rule pos)
qed

text \<open>The century and year that a date falls in, counted from March.\<close>

lemma jdn_split:
  assumes v: "valid_date y m d" and y: "- 4799 \<le> y"
  defines "Z \<equiv> (if m \<le> 2 then y + 4899 else y + 4900)" and "a \<equiv> (if m \<le> 2 then m + 10 else m - 2)"
  shows "jdn y m d + 68569 = century_days (Z div 100) + years_days (Z mod 100) + (367 * a div 12 + d - 31)" "100 \<le> Z"
    "367 * a div 12 + d = 396 \<Longrightarrow> Z mod 100 mod 4 = 3 \<and> (Z mod 100 = 99 \<longrightarrow> Z div 100 mod 4 = 0)"
proof -
  define c r where "c = Z div 100" and "r = Z mod 100"
  have Z: "Z = 100 * c + r" by (simp add: c_def r_def)
  define A where "A = 1461 * (Z - 100) div 4"
  define C where "C = 3 * c div 4"
  define B where "B = 367 * a div 12"
  have "A - C = century_days c + years_days r - 36525" unfolding A_def C_def Z by (rule century_split)
  moreover have "jdn y m d = A + B - C + d - 32075"
  proof (cases "m \<le> 2")
    case True
    then have e: "y + 4800 + - 1 = Z - 100" "y + 4900 + - 1 = Z" "m - 2 - 12 * - 1 = a" by (simp_all add: Z_def a_def)
    show ?thesis unfolding jdn_def Let_def A_def B_def C_def c_def using True by (simp only: if_True e)
  next
    case False
    then have e: "y + 4800 + 0 = Z - 100" "y + 4900 + 0 = Z" "m - 2 - 12 * 0 = a" by (simp_all add: Z_def a_def)
    show ?thesis unfolding jdn_def Let_def A_def B_def C_def c_def using False by (simp only: if_False e)
  qed
  ultimately show "jdn y m d + 68569 = century_days (Z div 100) + years_days (Z mod 100) + (367 * a div 12 + d - 31)"
    unfolding c_def [symmetric] r_def [symmetric] B_def [symmetric] by simp
  show "100 \<le> Z" using y by (simp add: Z_def)
  assume "367 * a div 12 + d = 396"
  then have l: "m = 2" "leap y" using month_step(5) [OF v] unfolding a_def by simp_all
  then have yZ: "y = Z + 1 - 4900" by (simp add: Z_def)
  have "4 dvd y" using l(2) by (auto simp: leap_def elim: dvd_trans [rotated])
  then have "Z mod 4 = 3" using yZ by presburger
  then have r4: "r mod 4 = 3" unfolding r_def by (simp add: mod_mod_cancel)
  moreover have "c mod 4 = 0" if "r = 99"
  proof -
    have "y = 100 * (c - 48)" using yZ Z that by simp
    then have "400 dvd 100 * (c - 48)" using l(2) by (simp add: leap_def)
    then have "4 dvd c - 48" using dvd_mult_cancel_left [of 100 4 "c - 48"] by simp
    then show ?thesis by presburger
  qed
  ultimately show "Z mod 100 mod 4 = 3 \<and> (Z mod 100 = 99 \<longrightarrow> Z div 100 mod 4 = 0)" by (simp add: c_def r_def)
qed

lemma julian_to_date_jdn:
  assumes v: "valid_date y m d" and y: "- 4799 \<le> y"
  shows "julian_to_date (jdn y m d) = (y, m, d)"
proof -
  define Z where "Z = (if m \<le> 2 then y + 4899 else y + 4900)"
  define a where "a = (if m \<le> 2 then m + 10 else m - 2)"
  define c r where "c = Z div 100" and "r = Z mod 100"
  define B where "B = 367 * a div 12"
  note js = jdn_split [OF v y, folded Z_def a_def, folded c_def r_def B_def]
  note ms = month_step [OF v, folded a_def, folded B_def]
  have c: "1 \<le> c" using js(2) by (simp add: c_def)
  have r: "0 \<le> r" "r < 100" by (simp_all add: r_def)
  have D: "0 \<le> B + d - 31" "B + d - 31 \<le> 365" using ms(3,4) by simp_all
  have st: "4 * (century_days c + years_days r + (B + d - 31)) div 146097 = c" "4000 * (years_days r + (B + d - 31) + 1) div 1461001 = r" "0 \<le> years_days r"
    using julian_steps [OF c r D] js(3) by simp_all
  have cd: "0 \<le> century_days c" using c by (simp add: century_days_def)
  have n: "(4 * (century_days c + years_days r + (B + d - 31))) sdiv 146097 = c" using st D cd by (simp add: sdiv_nonneg)
  have C: "(146097 * c + 3) sdiv 4 = century_days c" using c by (simp add: sdiv_nonneg century_days_def)
  have i: "(4000 * (years_days r + (B + d - 31) + 1)) sdiv 1461001 = r" using st D by (simp add: sdiv_nonneg)
  have R: "(1461 * r) sdiv 4 = years_days r" using r by (simp add: sdiv_nonneg years_days_def)
  have j: "(80 * (B + d)) sdiv 2447 = a" using ms(1,3) by (simp add: sdiv_nonneg)
  have M: "(2447 * a) sdiv 80 = B" "a sdiv 11 = (if m \<le> 2 then 1 else 0)" using ms(2,6,7) by (simp_all add: sdiv_nonneg)
  have L: "century_days c + years_days r + (B + d - 31) - century_days c = years_days r + (B + d - 31)"
    "years_days r + (B + d - 31) - years_days r + 31 = B + d" "B + d - B = d" by simp_all
  have "julian_to_date (jdn y m d) = (100 * (c - 49) + r + (if m \<le> 2 then 1 else 0), a + 2 - 12 * (if m \<le> 2 then 1 else 0), d)"
    by (simp only: julian_to_date_def Let_def js(1) n C L i R j M)
  moreover have "100 * c + r = Z" by (simp add: c_def r_def)
  ultimately show ?thesis by (auto simp: Z_def a_def)
qed

section \<open>Every day is a date\<close>

definition next_date :: "int \<times> int \<times> int \<Rightarrow> int \<times> int \<times> int" where
  "next_date t = (case t of (y, m, d) \<Rightarrow>
     if d < month_days y m then (y, m, d + 1) else if m < 12 then (y, m + 1, 1) else (y + 1, 1, 1))"

lemma month_days_pos: "1 \<le> month_days y m"
  by (simp add: month_days_def)

lemma day_number_next:
  assumes "valid_date y m d" and "next_date (y, m, d) = (y', m', d')"
  shows "valid_date y' m' d'" "day_number y' m' d' = day_number y m d + 1" "y \<le> y'"
proof -
  have m: "1 \<le> m" "m \<le> 12" and d: "d \<le> month_days y m" using assms(1) by (simp_all add: valid_date_def)
  show "valid_date y' m' d'" "y \<le> y'"
    using assms month_days_pos [of y "m + 1"] month_days_pos [of "y + 1" 1] by (auto simp: valid_date_def next_date_def split: if_splits)
  show "day_number y' m' d' = day_number y m d + 1"
  proof (cases "d < month_days y m")
    case True
    then show ?thesis using assms(2) by (auto simp: next_date_def day_number_def)
  next
    case False
    with d have d': "d = month_days y m" by simp
    show ?thesis
    proof (cases "m < 12")
      case True
      with assms(2) False have "y' = y" "m' = m + 1" "d' = 1" by (simp_all add: next_date_def)
      then show ?thesis using d' m upto_rec2 [of 1 m] by (simp add: day_number_def)
    next
      case 12: False
      with m have "m = 12" by simp
      with assms(2) False have "m = 12" "y' = y + 1" "m' = 1" "d' = 1" by (simp_all add: next_date_def)
      then show ?thesis using d' months_before [of 12 y] leaps_pred [of y] by (simp add: day_number_def month_days_def)
    qed
  qed
qed

lemma jdn_surj: "0 \<le> k \<Longrightarrow> \<exists>y m d. valid_date y m d \<and> - 4799 \<le> y \<and> jdn y m d = k"
proof (induction k rule: int_ge_induct)
  case base
  have "valid_date (- 4713) 11 24" "jdn (- 4713) 11 24 = 0" by (simp_all add: valid_date_def month_days_def jdn_def Let_def)
  then show ?case by (intro exI [of _ "- 4713"] exI [of _ 11] exI [of _ 24]) simp
next
  case (step k)
  then obtain y m d where v: "valid_date y m d" "- 4799 \<le> y" "jdn y m d = k" by blast
  obtain y' m' d' where n: "next_date (y, m, d) = (y', m', d')" by (metis prod_cases3)
  note dn = day_number_next [OF v(1) n]
  have "jdn y' m' d' = k + 1"
    using jdn_day_number [of m y d] jdn_day_number [of m' y' d'] v dn by (simp add: valid_date_def)
  with dn v(2) show ?case by (intro exI [of _ y'] exI [of _ m'] exI [of _ d']) simp
qed

lemma julian_to_date_valid:
  assumes "0 \<le> k" and "julian_to_date k = (y, m, d)"
  shows "valid_date y m d" "jdn y m d = k" "- 4799 \<le> y"
  using jdn_surj [OF assms(1)] assms(2) julian_to_date_jdn by (metis Pair_inject)+

section \<open>Times\<close>

definition valid_tm :: "tm \<Rightarrow> bool" where
  "valid_tm t \<longleftrightarrow> valid_date (tm_year t + 1900) (tm_mon t + 1) (tm_mday t) \<and> 0 \<le> tm_hour t \<and> tm_hour t < 24 \<and>
     0 \<le> tm_min t \<and> tm_min t < 60 \<and> 0 \<le> tm_sec t \<and> tm_sec t < 60 \<and> 0 \<le> tm_year t + 1900 \<and> tm_year t + 1900 \<le> 9999"

text \<open>Seconds on a continuous scale.\<close>

definition day_secs :: "tm \<Rightarrow> int" where
  "day_secs t = tm_hour t * 3600 + tm_min t * 60 + tm_sec t"

definition tm_secs :: "tm \<Rightarrow> int" where
  "tm_secs t = 86400 * day_number (tm_year t + 1900) (tm_mon t + 1) (tm_mday t) + day_secs t"

lemma sdiv_split:
  fixes x :: int
  shows "\<bar>x - (x sdiv 86400) * 86400\<bar> < 86400" "\<bar>(x sdiv 86400) * 86400\<bar> \<le> \<bar>x\<bar>"
proof -
  have "\<bar>x - (x sdiv 86400) * 86400\<bar> < 86400 \<and> \<bar>(x sdiv 86400) * 86400\<bar> \<le> \<bar>x\<bar>"
  proof (cases "0 \<le> x")
    case True
    define q where "q = x div 86400"
    have "q * 86400 \<le> x" "x < q * 86400 + 86400" "0 \<le> q" using True unfolding q_def by simp_all
    with True show ?thesis by (simp add: sdiv_nonneg flip: q_def)
  next
    case False
    define q where "q = (- x) div 86400"
    have "q * 86400 \<le> - x" "- x < q * 86400 + 86400" "0 \<le> q" using False unfolding q_def by simp_all
    moreover have "x sdiv 86400 = - q" using False by (simp add: signed_divide_int_def q_def)
    ultimately show ?thesis using False by simp
  qed
  then show "\<bar>x - (x sdiv 86400) * 86400\<bar> < 86400" "\<bar>(x sdiv 86400) * 86400\<bar> \<le> \<bar>x\<bar>" by simp_all
qed

end
