(* ===== verification/Time_Props.thy ===== *)
theory Time_Props
  imports Time
begin

text \<open>
  What callers rely on when they add to a time or compare two times: exact arithmetic on the Gregorian calendar, for offsets that
  stay within the range of \<open>int\<close>.
\<close>

section \<open>Moving a time\<close>

text \<open>Fields within their ranges; the day need not exist in the month.\<close>

definition tm_ranges :: "tm \<Rightarrow> bool" where
  "tm_ranges t \<longleftrightarrow> 0 \<le> tm_year t + 1900 \<and> tm_year t + 1900 \<le> 9999 \<and> 1 \<le> tm_mon t + 1 \<and> tm_mon t + 1 \<le> 12 \<and> 1 \<le> tm_mday t \<and> tm_mday t \<le> 31 \<and>
     0 \<le> tm_hour t \<and> tm_hour t < 24 \<and> 0 \<le> tm_min t \<and> tm_min t < 60 \<and> 0 \<le> tm_sec t \<and> tm_sec t < 60"

lemma day_secs_ranges: "tm_ranges t \<Longrightarrow> 0 \<le> day_secs t \<and> day_secs t < 86400"
  by (simp add: tm_ranges_def day_secs_def)

lemma day_secs_bounds: "valid_tm t \<Longrightarrow> 0 \<le> day_secs t \<and> day_secs t < 86400"
  by (simp add: valid_tm_def day_secs_def)

lemma month_days_le: "month_days y m \<le> 31"
  by (simp add: month_days_def)

definition tm_jdn :: "tm \<Rightarrow> int" where
  "tm_jdn t = jdn (tm_year t + 1900) (tm_mon t + 1) (tm_mday t)"

lemma valid_tm_ranges: "valid_tm t \<Longrightarrow> tm_ranges t"
  using month_days_le [of "tm_year t + 1900" "tm_mon t + 1"] by (auto simp: tm_ranges_def valid_tm_def valid_date_def)

lemma tm_julian: "tm_ranges t \<Longrightarrow> date_to_julian (tm_year t + 1900) (tm_mon t + 1) (tm_mday t) = Some (tm_jdn t)"
  unfolding tm_jdn_def by (intro date_to_julian_jdn) (auto simp: tm_ranges_def)

lemma tm_secs_jdn: "valid_tm t \<Longrightarrow> tm_secs t = 86400 * (tm_jdn t - 1721425) + day_secs t"
  by (simp add: tm_secs_def tm_jdn_def jdn_day_number valid_tm_def valid_date_def)

text \<open>\<open>int\<close> keeps a number modulo \<open>2 ^ 32\<close>.\<close>

lemma int32_mod: "int32 x = (x + 2 ^ 31) mod 2 ^ 32 - 2 ^ 31"
  by (simp add: int32_def sint_sbintrunc' signed_take_bit_eq_take_bit_shift take_bit_eq_mod)

lemma int32_wrap: "int32 (x + 2 ^ 32 * j) = int32 x"
proof -
  have "x + 2 ^ 32 * j + 2 ^ 31 = (x + 2 ^ 31) + 2 ^ 32 * j" by simp
  then show ?thesis unfolding int32_mod by (simp only: mod_mult_self2)
qed

lemma int32_decompose: "\<exists>j. x = int32 x + 2 ^ 32 * j"
proof -
  have "(x + 2 ^ 31) mod 2 ^ 32 + 2 ^ 32 * ((x + 2 ^ 31) div 2 ^ 32) = x + 2 ^ 31" by (rule mod_mult_div_eq)
  then show ?thesis unfolding int32_mod by (intro exI [of _ "(x + 2 ^ 31) div 2 ^ 32"]) linarith
qed

text \<open>The days in an offset of seconds as \<open>julian_adj\<close> keeps them, and the offset that it adds in effect.\<close>

definition kept_days :: "int \<Rightarrow> int" where
  "kept_days offset_sec = int32 (offset_sec sdiv 86400)"

definition kept_offset :: "int \<Rightarrow> int" where
  "kept_offset offset_sec = 86400 * kept_days offset_sec + (offset_sec - 86400 * (offset_sec sdiv 86400))"

lemma julian_adj_kept:
  assumes t: "tm_ranges t" and od: "\<bar>off_day\<bar> \<le> 2 ^ 30" and k: "\<bar>kept_days offset_sec\<bar> \<le> 24855"
  obtains jd sec where "0 \<le> sec" "sec < 86400" "86400 * jd + sec = 86400 * tm_jdn t + day_secs t + 86400 * off_day + kept_offset offset_sec"
    "julian_adj t off_day offset_sec = Some (if jd < 0 then None else Some (jd, sec))"
proof -
  define q where "q = kept_days offset_sec"
  define rm where "rm = offset_sec - 86400 * (offset_sec sdiv 86400)"
  have rm: "\<bar>rm\<bar> < 86400" using sdiv_split(1) [of offset_sec] by (simp add: rm_def mult.commute)
  note ds = day_secs_ranges [OF t]
  have q: "\<bar>q\<bar> \<le> 24855" using k by (simp add: q_def)
  obtain j where "offset_sec sdiv 86400 = q + 2 ^ 32 * j" using int32_decompose unfolding q_def kept_days_def by blast
  then have "offset_sec - q * 86400 = rm + 2 ^ 32 * (86400 * j)" unfolding rm_def by (simp add: algebra_simps)
  then have i: "int32 (offset_sec - q * 86400) = rm"
    using rm by (simp only: int32_wrap) (intro int32_id, auto simp: in_int_def)
  define h where "h = rm + day_secs t"
  define D where "D = (if h \<ge> 86400 then q + off_day + 1 else if h < 0 then q + off_day - 1 else q + off_day)"
  define S where "S = (if h \<ge> 86400 then h - 86400 else if h < 0 then h + 86400 else h)"
  have h: "- 86400 < h" "h < 172800" using rm ds by (auto simp: h_def)
  have S: "0 \<le> S" "S < 86400" "86400 * D + S = 86400 * (q + off_day) + h" using h by (auto simp: S_def D_def)
  have D: "\<bar>D\<bar> \<le> 1073766680" using od q by (auto simp: D_def)
  have tm: "0 \<le> tm_hour t" "tm_hour t < 24" "0 \<le> tm_min t" "tm_min t < 60" "0 \<le> tm_year t + 1900" "tm_year t + 1900 \<le> 9999"
    "1 \<le> tm_mon t + 1" "tm_mon t + 1 \<le> 12" using t by (simp_all add: tm_ranges_def)
  have ok: "list_all in_int [q * 86400, q + off_day, tm_hour t * 3600, tm_min t * 60, tm_hour t * 3600 + tm_min t * 60, day_secs t, h, D, S,
      tm_year t + 1900, tm_mon t + 1]"
    unfolding list.pred_inject in_int_def using q od tm h D S(1,2) ds by auto
  have pair: "(if h \<ge> 86400 then (q + off_day + 1, h - 86400) else if h < 0 then (q + off_day - 1, h + 86400) else (q + off_day, h)) = (D, S)"
    by (simp add: D_def S_def)
  have s: "SECS_PER_DAY = 86400" by (simp add: SECS_PER_DAY_def)
  have "julian_adj t off_day offset_sec = Some (if tm_jdn t + D < 0 then None else Some (tm_jdn t + D, S))"
    unfolding julian_adj_def s Let_def kept_days_def [symmetric] q_def [symmetric] i day_secs_def [symmetric] h_def [symmetric] pair
    using ok tm_julian [OF t] by (auto simp: Let_def)
  with S show thesis by (intro that [of S "tm_jdn t + D"]) (simp_all add: h_def kept_offset_def q_def rm_def)
qed

lemma kept_small: "\<bar>offset_sec\<bar> < 24856 * 86400 \<Longrightarrow> \<bar>kept_days offset_sec\<bar> \<le> 24855 \<and> kept_offset offset_sec = offset_sec"
proof -
  assume o: "\<bar>offset_sec\<bar> < 24856 * 86400"
  define q where "q = offset_sec sdiv 86400"
  have "\<bar>q * 86400\<bar> \<le> \<bar>offset_sec\<bar>" using sdiv_split(2) [of offset_sec] unfolding q_def .
  then have "\<bar>q\<bar> \<le> 24855" using o by (simp add: abs_mult)
  moreover from this have "int32 q = q" by (intro int32_id) (auto simp: in_int_def)
  ultimately show ?thesis by (simp add: kept_days_def kept_offset_def q_def)
qed

lemma julian_adj_ranges:
  assumes t: "tm_ranges t" and od: "\<bar>off_day\<bar> \<le> 2 ^ 30" and os: "\<bar>offset_sec\<bar> < 2 ^ 31"
  obtains jd sec where "0 \<le> sec" "sec < 86400" "86400 * jd + sec = 86400 * tm_jdn t + day_secs t + 86400 * off_day + offset_sec"
    "julian_adj t off_day offset_sec = Some (if jd < 0 then None else Some (jd, sec))"
proof -
  have k: "\<bar>kept_days offset_sec\<bar> \<le> 24855" "kept_offset offset_sec = offset_sec" using kept_small [of offset_sec] os by simp_all
  obtain jd sec where "0 \<le> sec" "sec < 86400" "86400 * jd + sec = 86400 * tm_jdn t + day_secs t + 86400 * off_day + offset_sec"
    "julian_adj t off_day offset_sec = Some (if jd < 0 then None else Some (jd, sec))" by (rule julian_adj_kept [OF t od k(1), unfolded k(2)])
  then show thesis by (rule that)
qed

lemmas julian_adj_exact = julian_adj_ranges [OF valid_tm_ranges]

lemma gmtime_adj_defined:
  assumes "tm_ranges t" and "\<bar>off_day\<bar> \<le> 2 ^ 30" and "\<bar>offset_sec\<bar> < 2 ^ 31"
  shows "OPENSSL_gmtime_adj t off_day offset_sec \<noteq> None"
proof -
  obtain jd sec where "julian_adj t off_day offset_sec = Some (if jd < 0 then None else Some (jd, sec))" by (rule julian_adj_ranges [OF assms])
  then show ?thesis by (auto simp: OPENSSL_gmtime_adj_def split: prod.splits)
qed

text \<open>The time on a given day at a given second.\<close>

definition tm_at :: "int \<times> int \<times> int \<Rightarrow> int \<Rightarrow> tm \<Rightarrow> tm" where
  "tm_at date sec t = (case date of (y, m, d) \<Rightarrow> t\<lparr>tm_year := y - 1900, tm_mon := m - 1, tm_mday := d,
     tm_hour := sec div 3600, tm_min := sec div 60 mod 60, tm_sec := sec mod 60\<rparr>)"

lemma clock_split: "0 \<le> sec \<Longrightarrow> sec < 86400 \<Longrightarrow>
    sec div 3600 * 3600 + sec div 60 mod 60 * 60 + sec mod 60 = sec \<and> 0 \<le> sec div 3600 \<and> sec div 3600 < 24" for sec :: int
proof -
  assume s: "0 \<le> sec" "sec < 86400"
  define q where "q = sec div 60"
  have "sec div 3600 = q div 60" unfolding q_def using zdiv_zmult2_eq [of 60 sec 60] by simp
  moreover have "q div 60 * 60 + q mod 60 = q" "q * 60 + sec mod 60 = sec" by (simp_all add: q_def)
  ultimately have "sec div 3600 * 3600 + sec div 60 mod 60 * 60 + sec mod 60 = sec" unfolding q_def [symmetric] by linarith
  moreover have "0 \<le> sec div 3600" using s by simp
  moreover have "sec div 3600 < 24" using s by linarith
  ultimately show ?thesis by blast
qed

lemma clock_unique:
  fixes h m s :: int
  assumes "0 \<le> h" "0 \<le> m" "m < 60" "0 \<le> s" "s < 60"
  shows "(h * 3600 + m * 60 + s) div 3600 = h" "(h * 3600 + m * 60 + s) div 60 mod 60 = m" "(h * 3600 + m * 60 + s) mod 60 = s"
proof -
  have d: "(h * 3600 + m * 60 + s) div 60 = h * 60 + m" by (rule div_eqI) (use assms in simp_all)
  show "(h * 3600 + m * 60 + s) div 3600 = h" by (rule div_eqI) (use assms in simp_all)
  show "(h * 3600 + m * 60 + s) div 60 mod 60 = m" unfolding d using assms by simp
  have "h * 3600 + m * 60 + s = s + (h * 60 + m) * 60" by simp
  then have "(h * 3600 + m * 60 + s) mod 60 = s mod 60" by (simp only: mod_mult_self1)
  then show "(h * 3600 + m * 60 + s) mod 60 = s" using assms by simp
qed

lemma gmtime_adj_tm_at:
  assumes "0 \<le> jd" "0 \<le> sec" "sec < 86400" and "julian_adj t off_day offset_sec = Some (Some (jd, sec))"
  shows "OPENSSL_gmtime_adj t off_day offset_sec =
    (let y = fst (julian_to_date jd) in Some (if y < 1900 \<or> y > 9999 then None else Some (tm_at (julian_to_date jd) sec t)))"
  using assms by (auto simp: OPENSSL_gmtime_adj_def tm_at_def sdiv_nonneg smod_nonneg Let_def split: prod.split)

lemma tm_at_valid:
  assumes "0 \<le> jd" "0 \<le> sec" "sec < 86400" and "1900 \<le> fst (julian_to_date jd)" "fst (julian_to_date jd) \<le> 9999"
  shows "valid_tm (tm_at (julian_to_date jd) sec t)" "tm_jdn (tm_at (julian_to_date jd) sec t) = jd" "day_secs (tm_at (julian_to_date jd) sec t) = sec"
proof -
  obtain y m d where d: "julian_to_date jd = (y, m, d)" by (metis prod_cases3)
  note v = julian_to_date_valid [OF assms(1) d] and c = clock_split [OF assms(2,3)]
  show "valid_tm (tm_at (julian_to_date jd) sec t)" "tm_jdn (tm_at (julian_to_date jd) sec t) = jd"
    using v c assms(4,5) d by (simp_all add: valid_tm_def tm_at_def tm_jdn_def)
  show "day_secs (tm_at (julian_to_date jd) sec t) = sec" using c by (simp add: d tm_at_def day_secs_def)
qed

text \<open>A valid time is determined by its day and second.\<close>

lemma tm_at_unique:
  assumes "valid_tm t'"
  shows "tm_at (julian_to_date (tm_jdn t')) (day_secs t') t = t'"
proof -
  have "julian_to_date (tm_jdn t') = (tm_year t' + 1900, tm_mon t' + 1, tm_mday t')"
    using assms unfolding tm_jdn_def by (intro julian_to_date_jdn) (simp_all add: valid_tm_def)
  with clock_unique [of "tm_hour t'" "tm_min t'" "tm_sec t'"] assms show ?thesis
    by (simp add: tm_at_def day_secs_def valid_tm_def)
qed

lemma scale_unique:
  fixes a b :: int
  assumes "86400 * a + s = 86400 * b + u" "0 \<le> s" "s < 86400" "0 \<le> u" "u < 86400"
  shows "a = b \<and> s = u"
proof -
  have "(86400 * a + s) div 86400 = a" "(86400 * b + u) div 86400 = b" by (rule div_eqI; use assms in simp)+
  with assms(1) show ?thesis by simp
qed

lemma leaps_nonneg: "- 1 \<le> y \<Longrightarrow> - 1 \<le> leaps y"
proof (cases "y = - 1")
  case False
  assume "- 1 \<le> y"
  with False have y: "0 \<le> y" by simp
  have "y div 100 \<le> y div 4" by (rule zdiv_mono2) (use y in simp_all)
  moreover have "0 \<le> y div 400" using y by simp
  ultimately show ?thesis by (simp only: leaps_def)
qed (simp add: leaps_def)

lemma jdn_nonneg:
  assumes "valid_tm t"
  shows "0 \<le> tm_jdn t"
proof -
  let ?y = "tm_year t + 1900" and ?m = "tm_mon t + 1"
  have v: "0 \<le> ?y" "1 \<le> ?m" "?m \<le> 12" "1 \<le> tm_mday t" using assms by (simp_all add: valid_tm_def valid_date_def)
  have "- 1 \<le> leaps (?y - 1)" by (rule leaps_nonneg) (use v in simp)
  moreover have "0 \<le> sum_list (map (month_days ?y) [1..?m - 1])"
    by (rule sum_list_nonneg) (auto simp: month_days_def)
  moreover have "0 \<le> 365 * (y - 1) + l + k + d + 1721425" if "- 1 \<le> l" "0 \<le> k" "0 \<le> y" "1 \<le> d" for l k y d :: int using that by simp
  ultimately show ?thesis unfolding tm_jdn_def jdn_day_number [OF v(2,3)] day_number_def using v(1,4) by blast
qed

lemma tm_jdn_bound:
  assumes "valid_tm t"
  shows "tm_jdn t < 2 ^ 30"
proof -
  let ?y = "tm_year t + 1900" and ?m = "tm_mon t + 1"
  have v: "0 \<le> ?y" "?y \<le> 9999" "1 \<le> ?m" "?m \<le> 12" "tm_mday t \<le> 31"
    using assms month_days_le [of ?y ?m] by (auto simp: valid_tm_def valid_date_def)
  have l: "leaps z \<le> 10000" if "z \<le> 9999" "- 1 \<le> z" for z using that unfolding leaps_def by linarith
  have "leaps (?y - 1) \<le> 10000" by (rule l) (use v in simp_all)
  moreover have "sum_list (map (month_days ?y) [1..?m - 1]) \<le> 367" using month_cases [OF v(3,4)] months_before [OF v(3,4), of ?y] by auto
  moreover have "365 * (y - 1) + a + b + d + 1721425 < 2 ^ 30" if "y \<le> 9999" "a \<le> 10000" "b \<le> 367" "d \<le> 31" for y a b d :: int using that by simp
  ultimately show ?thesis unfolding tm_jdn_def jdn_day_number [OF v(3,4)] day_number_def using v(2,5) by blast
qed

lemma tm_jdn_date: "valid_tm t \<Longrightarrow> julian_to_date (tm_jdn t) = (tm_year t + 1900, tm_mon t + 1, tm_mday t)"
  unfolding tm_jdn_def by (intro julian_to_date_jdn) (simp_all add: valid_tm_def)

section \<open>Properties\<close>

lemma gmtime_adj_spec:
  assumes "valid_tm t" and "\<bar>off_day\<bar> \<le> 2 ^ 30" and "\<bar>offset_sec\<bar> < 2 ^ 31"
  shows "\<exists>r. OPENSSL_gmtime_adj t off_day offset_sec = Some r \<and>
    (\<forall>t'. r = Some t' \<longleftrightarrow> valid_tm t' \<and> 1900 \<le> tm_year t' + 1900 \<and> tm_secs t' = tm_secs t + 86400 * off_day + offset_sec)"
proof -
  obtain jd sec where js: "0 \<le> sec" "sec < 86400" "86400 * jd + sec = 86400 * tm_jdn t + day_secs t + 86400 * off_day + offset_sec"
    "julian_adj t off_day offset_sec = Some (if jd < 0 then None else Some (jd, sec))" by (rule julian_adj_exact [OF assms])
  have goal: "tm_secs t' = tm_secs t + 86400 * off_day + offset_sec \<longleftrightarrow> tm_jdn t' = jd \<and> day_secs t' = sec" if "valid_tm t'" for t'
  proof -
    note d = day_secs_bounds [OF that]
    have "tm_secs t' = tm_secs t + 86400 * off_day + offset_sec \<longleftrightarrow> 86400 * tm_jdn t' + day_secs t' = 86400 * jd + sec"
      unfolding tm_secs_jdn [OF assms(1)] tm_secs_jdn [OF that] by (rule iffI; insert js(3); simp only: right_diff_distrib; linarith)
    with scale_unique [OF _ conjunct1 [OF d] conjunct2 [OF d] js(1,2)] show ?thesis by blast
  qed
  have yr: "fst (julian_to_date (tm_jdn t')) = tm_year t' + 1900" "0 \<le> tm_jdn t'" "tm_year t' + 1900 \<le> 9999" if "valid_tm t'" for t'
    using tm_jdn_date [OF that] jdn_nonneg [OF that] that by (simp_all add: valid_tm_def)
  show ?thesis
  proof (cases "jd < 0 \<or> fst (julian_to_date jd) < 1900 \<or> 9999 < fst (julian_to_date jd)")
    case True
    then have "OPENSSL_gmtime_adj t off_day offset_sec = Some None"
      using js gmtime_adj_tm_at [OF _ js(1,2), of jd t off_day offset_sec] by (cases "jd < 0") (auto simp: OPENSSL_gmtime_adj_def Let_def)
    moreover have "\<not> (valid_tm t' \<and> 1900 \<le> tm_year t' + 1900 \<and> tm_secs t' = tm_secs t + 86400 * off_day + offset_sec)" for t'
      using True yr [of t'] goal [of t'] by auto
    ultimately show ?thesis by blast
  next
    case False
    let ?t = "tm_at (julian_to_date jd) sec t"
    have r: "OPENSSL_gmtime_adj t off_day offset_sec = Some (Some ?t)"
      using False js gmtime_adj_tm_at [OF _ js(1,2), of jd t off_day offset_sec] by (auto simp: Let_def)
    have v: "valid_tm ?t" "tm_jdn ?t = jd" "day_secs ?t = sec" using tm_at_valid [OF _ js(1,2)] False by auto
    then have "1900 \<le> tm_year ?t + 1900" using yr(1) [OF v(1)] False by simp
    with v goal [OF v(1)] goal tm_at_unique r show ?thesis by (intro exI [of _ "Some ?t"]) auto
  qed
qed

text \<open>C13: \<open>OPENSSL_gmtime_adj\<close> adds days and seconds exactly. For a valid time and offsets below \<open>2 ^ 31\<close> seconds it is defined; it gives a
  time of the years 1900 to 9999 if and only if that time is valid and lies the given number of seconds later on the
  scale that counts the days of the Gregorian calendar; otherwise it reports failure.\<close>

theorem gmtime_adj_exact:
  assumes "valid_tm t" and "\<bar>off_day\<bar> \<le> 2 ^ 30" and "\<bar>offset_sec\<bar> < 2 ^ 31"
  shows "\<exists>r. OPENSSL_gmtime_adj t off_day offset_sec = Some r \<and>
    (\<forall>t'. r = Some t' \<longleftrightarrow> valid_tm t' \<and> 1900 \<le> tm_year t' + 1900 \<and> tm_secs t' = tm_secs t + 86400 * off_day + offset_sec)"
  by (rule gmtime_adj_spec [OF assms])

definition demo_tm :: tm where
  "demo_tm = \<lparr>tm_year = 124, tm_mon = 1, tm_mday = 28, tm_hour = 23, tm_min = 59, tm_sec = 30\<rparr>"

lemma demo_tm: "valid_tm demo_tm"
  by (simp add: valid_tm_def demo_tm_def valid_date_def month_days_def leap_def)

text \<open>From the last minute of 28 February 2024 into the leap day.\<close>

theorem gmtime_adj_exact_witness:
  "\<exists>r. OPENSSL_gmtime_adj demo_tm 0 45 = Some r \<and> r = Some \<lparr>tm_year = 124, tm_mon = 1, tm_mday = 29, tm_hour = 0, tm_min = 0, tm_sec = 15\<rparr>"
proof -
  let ?t = "\<lparr>tm_year = 124, tm_mon = 1, tm_mday = 29, tm_hour = 0, tm_min = 0, tm_sec = 15\<rparr>"
  have v: "valid_tm ?t" by (simp add: valid_tm_def valid_date_def month_days_def leap_def)
  have "tm_secs ?t = tm_secs demo_tm + 86400 * 0 + 45" by (simp add: tm_secs_def day_number_def day_secs_def demo_tm_def)
  with v gmtime_adj_exact [OF demo_tm, of 0 45] show ?thesis by auto
qed

text \<open>\<open>OPENSSL_gmtime_diff\<close> gives the exact distance between two valid times, split into days and seconds of the same sign.\<close>

lemma gmtime_diff_spec:
  assumes "valid_tm t" and "valid_tm t'"
  shows "\<exists>days secs. OPENSSL_gmtime_diff t t' = Some (Some (days, secs)) \<and> 86400 * days + secs = tm_secs t' - tm_secs t \<and>
    \<bar>secs\<bar> < 86400 \<and> 0 \<le> days * secs"
proof -
  have adj: "julian_adj u 0 0 = Some (Some (tm_jdn u, day_secs u))" if u: "valid_tm u" for u
  proof -
    obtain jd sec where js: "0 \<le> sec" "sec < 86400" "86400 * jd + sec = 86400 * tm_jdn u + day_secs u + 86400 * 0 + 0"
      "julian_adj u 0 0 = Some (if jd < 0 then None else Some (jd, sec))" by (rule julian_adj_exact [OF u, of 0 0]) simp_all
    note d = day_secs_bounds [OF u]
    have "jd = tm_jdn u \<and> sec = day_secs u" by (rule scale_unique [OF _ js(1,2) conjunct1 [OF d] conjunct2 [OF d]]) (use js(3) in simp)
    with js(4) jdn_nonneg [OF u] show ?thesis by simp
  qed
  define D S where "D = tm_jdn t' - tm_jdn t" and "S = day_secs t' - day_secs t"
  have S: "\<bar>S\<bar> < 86400" using day_secs_bounds [OF assms(1)] day_secs_bounds [OF assms(2)] by (auto simp: S_def)
  have D: "\<bar>D\<bar> < 2 ^ 30" using tm_jdn_bound [OF assms(1)] tm_jdn_bound [OF assms(2)] jdn_nonneg [OF assms(1)] jdn_nonneg [OF assms(2)]
    by (simp add: D_def)
  have goal: "86400 * D + S = tm_secs t' - tm_secs t" using tm_secs_jdn [OF assms(1)] tm_secs_jdn [OF assms(2)] by (simp add: D_def S_def)
  have i: "int32 D = D" "int32 (D - 1) = D - 1" "int32 (D + 1) = D + 1" using D by (auto intro!: int32_id simp: in_int_def)
  have diff: "OPENSSL_gmtime_diff t t' = (case (if D > 0 \<and> S < 0 then (D - 1, S + SECS_PER_DAY) else (D, S)) of
      (days, secs) \<Rightarrow> case (if days < 0 \<and> secs > 0 then (days + 1, secs - SECS_PER_DAY) else (days, secs)) of
        (days, secs) \<Rightarrow> Some (Some (int32 days, secs)))"
    unfolding OPENSSL_gmtime_diff_def adj [OF assms(1)] adj [OF assms(2)] D_def S_def option.case prod.case Let_def ..
  consider "D > 0 \<and> S < 0" | "D < 0 \<and> S > 0" | "0 \<le> D * S" by (metis linorder_not_le mult_nonneg_nonneg mult_nonpos_nonpos less_imp_le)
  then show ?thesis
  proof cases
    case 1
    then have "OPENSSL_gmtime_diff t t' = Some (Some (D - 1, S + 86400))"
      unfolding diff using S i(2) by (simp add: SECS_PER_DAY_def)
    with 1 S goal show ?thesis by simp
  next
    case 2
    then have "OPENSSL_gmtime_diff t t' = Some (Some (D + 1, S - 86400))"
      unfolding diff using S i(3) by (simp add: SECS_PER_DAY_def)
    with 2 S goal show ?thesis by (simp add: mult_nonpos_nonpos)
  next
    case 3
    then have "\<not> (D > 0 \<and> S < 0)" "\<not> (D < 0 \<and> S > 0)" by (auto simp: mult_less_0_iff not_less [symmetric])
    then have "OPENSSL_gmtime_diff t t' = Some (Some (D, S))"
      unfolding diff using i(1) by auto
    with 3 S goal show ?thesis by simp
  qed
qed






end
