(* ===== verification/ASN1_String.thy ===== *)
theory ASN1_String
  imports Mem
begin

text \<open>
  The strings of \<^verbatim>\<open>crypto/asn1/asn1_lib.c\<close>. An \<open>ASN1_STRING\<close> keeps a block and the number of bytes in use; the block may be longer and, when
  it was filled by \<open>ASN1_STRING_set\<close>, holds a terminator after them. Lengths are of type \<open>int\<close> and below \<open>INT_MAX\<close>.
\<close>

unbundle bit_operations_syntax

section \<open>Data\<close>

definition V_ASN1_BIT_STRING :: int where "V_ASN1_BIT_STRING = 3"

definition V_ASN1_OCTET_STRING :: int where "V_ASN1_OCTET_STRING = 4"

definition V_ASN1_UTCTIME :: int where "V_ASN1_UTCTIME = 23"

definition V_ASN1_GENERALIZEDTIME :: int where "V_ASN1_GENERALIZEDTIME = 24"

definition ASN1_STRING_FLAG_BITS_LEFT :: u64 where "ASN1_STRING_FLAG_BITS_LEFT = 0x08"

record ASN1_STRING =
  s_length :: int
  s_type :: int
  s_data :: "byte list option"
  s_flags :: u64

definition sizeof_ASN1_STRING :: nat where "sizeof_ASN1_STRING = 24"

section \<open>Operations\<close>

definition ASN1_STRING_type_new :: "allocator \<Rightarrow> int \<Rightarrow> ASN1_STRING option" where
  "ASN1_STRING_type_new mem ty = (case OPENSSL_malloc mem sizeof_ASN1_STRING of
      None \<Rightarrow> None
    | Some _ \<Rightarrow> Some \<lparr>s_length = 0, s_type = ty, s_data = None, s_flags = 0\<rparr>)"

definition ASN1_STRING_new :: "allocator \<Rightarrow> ASN1_STRING option" where
  "ASN1_STRING_new mem = ASN1_STRING_type_new mem V_ASN1_OCTET_STRING"

text \<open>\<open>strlen\<close> of the C library, on a block that holds a terminator.\<close>

definition c_strlen :: "byte list \<Rightarrow> nat" where
  "c_strlen s = length (takeWhile (\<lambda>c. c \<noteq> 0) s)"

definition ASN1_STRING_set :: "allocator \<Rightarrow> ASN1_STRING \<Rightarrow> byte list option \<Rightarrow> int \<Rightarrow> bool \<times> ASN1_STRING" where
  "ASN1_STRING_set mem str data len =
     (if len < 0 \<and> data = None then (False, str)
      else let len = (case data of Some d \<Rightarrow> if len < 0 then int32 (int (c_strlen d)) else len | None \<Rightarrow> len);
               block = (if s_length str \<le> len \<or> s_data str = None
                        then (case s_data str of
                            None \<Rightarrow> OPENSSL_malloc mem (nat (len + 1))
                          | Some c \<Rightarrow> OPENSSL_realloc mem (Some c) (nat (len + 1)))
                        else s_data str)
           in (case block of
                 None \<Rightarrow> (False, str)
               | Some b \<Rightarrow>
                   (True, str\<lparr>s_length := len, s_data := Some (case data of
                       None \<Rightarrow> b
                     | Some d \<Rightarrow> (OPENSSL_memcpy b 0 (take (nat len) d))[nat len := 0])\<rparr>)))"

definition ASN1_STRING_set0 :: "ASN1_STRING \<Rightarrow> byte list option \<Rightarrow> int \<Rightarrow> ASN1_STRING" where
  "ASN1_STRING_set0 str data len = str\<lparr>s_data := data, s_length := len\<rparr>"

definition ASN1_STRING_copy :: "allocator \<Rightarrow> ASN1_STRING \<Rightarrow> ASN1_STRING option \<Rightarrow> bool \<times> ASN1_STRING" where
  "ASN1_STRING_copy mem dst str = (case str of
      None \<Rightarrow> (False, dst)
    | Some str \<Rightarrow>
        (case ASN1_STRING_set mem dst (s_data str) (s_length str) of
           (False, dst') \<Rightarrow> (False, dst')
         | (True, dst') \<Rightarrow> (True, dst'\<lparr>s_type := s_type str, s_flags := s_flags str\<rparr>)))"

definition ASN1_STRING_dup :: "allocator \<Rightarrow> ASN1_STRING option \<Rightarrow> ASN1_STRING option" where
  "ASN1_STRING_dup mem str = (case str of
      None \<Rightarrow> None
    | Some _ \<Rightarrow>
        (case ASN1_STRING_new mem of
           None \<Rightarrow> None
         | Some ret \<Rightarrow> (case ASN1_STRING_copy mem ret str of (True, ret') \<Rightarrow> Some ret' | (False, _) \<Rightarrow> None)))"

definition ASN1_STRING_length :: "ASN1_STRING \<Rightarrow> int" where
  "ASN1_STRING_length str = s_length str"

definition ASN1_STRING_type :: "ASN1_STRING \<Rightarrow> int" where
  "ASN1_STRING_type str = s_type str"

definition ASN1_STRING_data :: "ASN1_STRING \<Rightarrow> byte list option" where
  "ASN1_STRING_data str = s_data str"

definition ASN1_STRING_get0_data :: "ASN1_STRING \<Rightarrow> byte list option" where
  "ASN1_STRING_get0_data str = s_data str"

section \<open>Invariant and contents\<close>

text \<open>The block holds at least the bytes in use.\<close>

definition str_ok :: "ASN1_STRING \<Rightarrow> bool" where
  "str_ok s \<longleftrightarrow> 0 \<le> s_length s \<and> s_length s < 2 ^ 31 - 1 \<and>
     (case s_data s of None \<Rightarrow> s_length s = 0 | Some d \<Rightarrow> s_length s \<le> int (length d) \<and> length d < SIZE_MOD)"

text \<open>The bytes in use.\<close>

definition contents_of :: "ASN1_STRING \<Rightarrow> byte list" where
  "contents_of s = (case s_data s of None \<Rightarrow> [] | Some d \<Rightarrow> take (nat (s_length s)) d)"

text \<open>A block with a terminator after the bytes in use.\<close>

definition terminated :: "ASN1_STRING \<Rightarrow> bool" where
  "terminated s \<longleftrightarrow> (case s_data s of None \<Rightarrow> False | Some d \<Rightarrow> nat (s_length s) < length d \<and> d ! nat (s_length s) = 0)"

lemma type_new_ok: "ASN1_STRING_type_new mem ty = Some s \<Longrightarrow> str_ok s \<and> s_type s = ty \<and> contents_of s = []"
  by (auto simp: ASN1_STRING_type_new_def str_ok_def contents_of_def split: option.splits)

text \<open>\<open>ASN1_STRING_set\<close> with data, on success and on failure.\<close>

lemma string_set_room:
  assumes ok: "str_ok s" and len: "0 \<le> len" "len < 2 ^ 31 - 1"
    and b: "(if s_length s \<le> len \<or> s_data s = None
             then (case s_data s of None \<Rightarrow> OPENSSL_malloc mem (nat (len + 1)) | Some c \<Rightarrow> OPENSSL_realloc mem (Some c) (nat (len + 1)))
             else s_data s) = Some b"
  shows "nat len < length b" "length b < SIZE_MOD"
proof -
  have "nat len < length b \<and> length b < SIZE_MOD"
  proof (cases "s_length s \<le> len \<or> s_data s = None")
    case True
    have n: "nat (len + 1) < SIZE_MOD" using len by simp
    from True b have "length b = nat (len + 1)"
      by (auto split: option.splits intro: length_OPENSSL_malloc [OF _ n] length_OPENSSL_realloc [OF _ n])
    then show ?thesis using len by simp
  next
    case False
    with b ok len show ?thesis by (auto simp: str_ok_def split: option.splits)
  qed
  then show "nat len < length b" "length b < SIZE_MOD" by simp_all
qed

lemma ASN1_STRING_set_True:
  assumes ok: "str_ok s" and n: "0 \<le> n" "n < 2 ^ 31 - 1" "nat n \<le> length d" and set: "ASN1_STRING_set mem s (Some d) n = (True, s')"
  shows "str_ok s' \<and> contents_of s' = take (nat n) d \<and> terminated s' \<and> s_length s' = n \<and> s_type s' = s_type s \<and> s_flags s' = s_flags s"
proof -
  obtain b where b: "(if s_length s \<le> n \<or> s_data s = None
             then (case s_data s of None \<Rightarrow> OPENSSL_malloc mem (nat (n + 1)) | Some c \<Rightarrow> OPENSSL_realloc mem (Some c) (nat (n + 1)))
             else s_data s) = Some b"
    and s': "s' = s\<lparr>s_length := n, s_data := Some ((OPENSSL_memcpy b 0 (take (nat n) d))[nat n := 0])\<rparr>"
    using set n(1) by (fastforce simp: ASN1_STRING_set_def Let_def split: option.splits if_splits)
  have l: "nat n < length b" "length b < SIZE_MOD" using string_set_room [OF ok n(1,2) b] by simp_all
  have m: "OPENSSL_memcpy b 0 (take (nat n) d) = take (nat n) d @ drop (nat n) b" using n(3) by (simp add: OPENSSL_memcpy_def min_def)
  from l n show ?thesis unfolding s' m by (auto simp: str_ok_def contents_of_def terminated_def nth_append min_def)
qed

lemma ASN1_STRING_set_False: "ASN1_STRING_set mem s data len = (False, s') \<Longrightarrow> s' = s"
  by (auto simp: ASN1_STRING_set_def Let_def split: option.splits if_splits)

lemma ASN1_STRING_set_granted:
  assumes "grants mem (nat (len + 1) + 8)" and "0 \<le> len" and "len < 2 ^ 31 - 1"
  shows "fst (ASN1_STRING_set mem s data len)"
proof -
  have n: "nat (len + 1) + 8 < SIZE_MOD" using assms by simp
  obtain p where p: "OPENSSL_malloc mem (nat (len + 1)) = Some p" using OPENSSL_malloc_granted [OF assms(1) n] by blast
  obtain q where q: "\<forall>c. OPENSSL_realloc mem c (nat (len + 1)) = Some (q c)" using OPENSSL_realloc_granted [OF assms(1) n] by metis
  show ?thesis using assms(2) p q by (auto simp: ASN1_STRING_set_def Let_def split: option.splits)
qed

end
