(* ===== verification/ASN1_Time.thy ===== *)
theory ASN1_Time
  imports ASN1_String Time Format
begin

text \<open>
  The times of ASN.1, \<^verbatim>\<open>crypto/asn1/a_gentm.c\<close>, \<^verbatim>\<open>a_utctm.c\<close> and \<^verbatim>\<open>a_time.c\<close>: reading a string into a broken-down time, writing one, and
  comparing two. Results have two options: the outer one is \<open>None\<close> when the code reads outside of the string's block or
  overflows an \<open>int\<close>, the inner one when it reports failure. The C library's \<open>gmtime\<close> and the clock are parameters. Characters are unsigned bytes here: those of 128 and
  more are negative in C, and fail the tests for digits and signs as well.
\<close>

section \<open>Checked reads\<close>

definition chain :: "'a option option \<Rightarrow> ('a \<Rightarrow> 'b option option) \<Rightarrow> 'b option option" where
  "chain r f = (case r of None \<Rightarrow> None | Some None \<Rightarrow> Some None | Some (Some x) \<Rightarrow> f x)"

definition read_at :: "byte list \<Rightarrow> nat \<Rightarrow> byte option option" where
  "read_at a i = (if i < length a then Some (Some (a ! i)) else None)"

definition is_digit :: "byte \<Rightarrow> bool" where
  "is_digit c \<longleftrightarrow> 48 \<le> c \<and> c \<le> 57"

definition is_zone :: "byte \<Rightarrow> bool" where
  "is_zone c \<longleftrightarrow> c = 90 \<or> c = 43 \<or> c = 45"

section \<open>Reading\<close>

text \<open>Two digits at \<open>i\<close>, with a test that the position stays within \<open>l\<close> after each.\<close>

definition time_digits :: "byte list \<Rightarrow> int \<Rightarrow> nat \<Rightarrow> (int \<times> nat) option option" where
  "time_digits a l i = chain (read_at a i) (\<lambda>c.
     if \<not> is_digit c then Some None
     else if int (i + 1) > l then Some None
     else chain (read_at a (i + 1)) (\<lambda>d.
       if \<not> is_digit d then Some None
       else if int (i + 2) > l then Some None
       else Some (Some ((uint c - 48) * 10 + uint d - 48, i + 2))))"

text \<open>The loop over the fields, whose numbers are the list. At the field of the seconds a zone may follow instead.\<close>

fun time_loop :: "int list \<Rightarrow> int list \<Rightarrow> (nat \<Rightarrow> int \<Rightarrow> tm \<Rightarrow> tm) \<Rightarrow> nat \<Rightarrow> byte list \<Rightarrow> int \<Rightarrow> nat list \<Rightarrow> nat \<Rightarrow> tm option \<Rightarrow>
    (nat \<times> tm option) option option" where
  "time_loop mn mx field sec a l [] i tm = Some (Some (i, tm))"
| "time_loop mn mx field sec a l (k # ks) i tm =
     chain (if k = sec then chain (read_at a i) (\<lambda>c. Some (Some (is_zone c))) else Some (Some False)) (\<lambda>zone.
       if zone then Some (Some (i, map_option (tm_sec_update (\<lambda>_. 0)) tm))
       else chain (time_digits a l i) (\<lambda>(n, i).
         if n < mn ! k \<or> n > mx ! k then Some None
         else time_loop mn mx field sec a l ks i (map_option (field k n) tm)))"

definition gentime_min :: "int list" where "gentime_min = [0, 0, 1, 1, 0, 0, 0, 0, 0]"

definition gentime_max :: "int list" where "gentime_max = [99, 99, 12, 31, 23, 59, 59, 12, 59]"

definition gentime_field :: "nat \<Rightarrow> int \<Rightarrow> tm \<Rightarrow> tm" where
  "gentime_field k n tm =
     (if k = 0 then tm\<lparr>tm_year := n * 100 - 1900\<rparr>
      else if k = 1 then tm\<lparr>tm_year := tm_year tm + n\<rparr>
      else if k = 2 then tm\<lparr>tm_mon := n - 1\<rparr>
      else if k = 3 then tm\<lparr>tm_mday := n\<rparr>
      else if k = 4 then tm\<lparr>tm_hour := n\<rparr>
      else if k = 5 then tm\<lparr>tm_min := n\<rparr>
      else if k = 6 then tm\<lparr>tm_sec := n\<rparr>
      else tm)"

definition gentime_loop :: "byte list \<Rightarrow> int \<Rightarrow> nat \<Rightarrow> tm option \<Rightarrow> (nat \<times> tm option) option option" where
  "gentime_loop a l i tm = time_loop gentime_min gentime_max gentime_field 6 a l [0..<7] i tm"

definition utctime_min :: "int list" where "utctime_min = [0, 1, 1, 0, 0, 0, 0, 0]"

definition utctime_max :: "int list" where "utctime_max = [99, 12, 31, 23, 59, 59, 12, 59]"

definition utctime_field :: "nat \<Rightarrow> int \<Rightarrow> tm \<Rightarrow> tm" where
  "utctime_field k n tm =
     (if k = 0 then tm\<lparr>tm_year := (if n < 50 then n + 100 else n)\<rparr>
      else if k = 1 then tm\<lparr>tm_mon := n - 1\<rparr>
      else if k = 2 then tm\<lparr>tm_mday := n\<rparr>
      else if k = 3 then tm\<lparr>tm_hour := n\<rparr>
      else if k = 4 then tm\<lparr>tm_min := n\<rparr>
      else if k = 5 then tm\<lparr>tm_sec := n\<rparr>
      else tm)"

definition utctime_loop :: "byte list \<Rightarrow> int \<Rightarrow> nat \<Rightarrow> tm option \<Rightarrow> (nat \<times> tm option) option option" where
  "utctime_loop a l i tm = time_loop utctime_min utctime_max utctime_field 5 a l [0..<6] i tm"

text \<open>The digits of a fraction of a second.\<close>

function frac_loop :: "byte list \<Rightarrow> int \<Rightarrow> nat \<Rightarrow> nat option option" where
  "frac_loop a l i =
     (if i < length a then
        (if is_digit (a ! i) \<and> int i \<le> l then frac_loop a l (i + 1) else Some (Some i))
      else None)"
  by pat_completeness auto
termination
  by (relation "measure (\<lambda>(a, l, i). length a - i)") auto

declare frac_loop.simps [simp del]

definition time_fraction :: "byte list \<Rightarrow> int \<Rightarrow> nat \<Rightarrow> nat option option" where
  "time_fraction a l i = chain (read_at a i) (\<lambda>c.
     if c \<noteq> 46 then Some (Some i)
     else if int (i + 1) > l then Some None
     else chain (frac_loop a l (i + 1)) (\<lambda>j. if j = i + 1 then Some None else Some (Some j)))"

text \<open>The loop over the two fields of a zone offset, each with its largest value, and the call that moves the time.\<close>

fun offset_loop :: "byte list \<Rightarrow> (int \<times> int) list \<Rightarrow> nat \<Rightarrow> int \<Rightarrow> (nat \<times> int) option option" where
  "offset_loop a [] i offset = Some (Some (i, offset))"
| "offset_loop a ((mx, unit) # fs) i offset = chain (read_at a i) (\<lambda>c.
     if \<not> is_digit c then Some None
     else chain (read_at a (i + 1)) (\<lambda>d.
       if \<not> is_digit d then Some None
       else let n = (uint c - 48) * 10 + uint d - 48
            in if n < 0 \<or> n > mx then Some None
               else offset_loop a fs (i + 2) (offset + n * unit)))"

definition time_offset :: "byte list \<Rightarrow> int \<Rightarrow> nat \<Rightarrow> byte \<Rightarrow> tm option \<Rightarrow> (nat \<times> tm option) option option" where
  "time_offset a l i sign tm =
     (let offsign = (if sign = 45 then 1 else - 1)
      in if int (i + 1 + 4) > l then Some None
         else chain (offset_loop a [(12, 3600), (59, 60)] (i + 1) 0) (\<lambda>(i, offset).
           (case tm of
              None \<Rightarrow> Some (Some (i, None))
            | Some t \<Rightarrow>
                if offset \<noteq> 0 then chain (OPENSSL_gmtime_adj t 0 (offset * offsign)) (\<lambda>t. Some (Some (i, Some t)))
                else Some (Some (i, Some t)))))"

definition block_of :: "ASN1_STRING \<Rightarrow> byte list" where
  "block_of d = (case s_data d of None \<Rightarrow> [] | Some a \<Rightarrow> a)"

definition asn1_generalizedtime_to_tm :: "tm option \<Rightarrow> ASN1_STRING \<Rightarrow> tm option option option" where
  "asn1_generalizedtime_to_tm tm d =
     (let a = block_of d; l = s_length d
      in if s_type d \<noteq> V_ASN1_GENERALIZEDTIME then Some None
         else if l < 13 then Some None
         else chain (gentime_loop a l 0 tm) (\<lambda>(i, tm).
           chain (time_fraction a l i) (\<lambda>i.
             chain (read_at a i) (\<lambda>c.
               chain (if c = 90 then Some (Some (i + 1, tm))
                      else if c = 43 \<or> c = 45 then time_offset a l i c tm
                      else if c \<noteq> 0 then Some None
                      else Some (Some (i, tm))) (\<lambda>(i, tm).
                 if int i = l then Some (Some tm) else Some None)))))"

definition ASN1_GENERALIZEDTIME_check :: "ASN1_STRING \<Rightarrow> bool option" where
  "ASN1_GENERALIZEDTIME_check d = map_option (\<lambda>r. r \<noteq> None) (asn1_generalizedtime_to_tm None d)"

definition asn1_utctime_to_tm :: "tm option \<Rightarrow> ASN1_STRING \<Rightarrow> tm option option option" where
  "asn1_utctime_to_tm tm d =
     (let a = block_of d; l = s_length d
      in if s_type d \<noteq> V_ASN1_UTCTIME then Some None
         else if l < 11 then Some None
         else chain (utctime_loop a l 0 tm) (\<lambda>(i, tm).
           chain (read_at a i) (\<lambda>c.
             chain (if c = 90 then Some (Some (i + 1, tm))
                    else if c = 43 \<or> c = 45 then time_offset a l i c tm
                    else Some (Some (i, tm))) (\<lambda>(i, tm).
               if int i = l then Some (Some tm) else Some None))))"

definition ASN1_UTCTIME_check :: "ASN1_STRING \<Rightarrow> bool option" where
  "ASN1_UTCTIME_check d = map_option (\<lambda>r. r \<noteq> None) (asn1_utctime_to_tm None d)"

definition ASN1_TIME_check :: "ASN1_STRING \<Rightarrow> bool option" where
  "ASN1_TIME_check t =
     (if s_type t = V_ASN1_GENERALIZEDTIME then ASN1_GENERALIZEDTIME_check t
      else if s_type t = V_ASN1_UTCTIME then ASN1_UTCTIME_check t
      else Some False)"

text \<open>The string \<open>t\<close> on the stack of the functions that take text: \<open>str\<close> with its terminator.\<close>

definition stack_string :: "int \<Rightarrow> byte list \<Rightarrow> ASN1_STRING" where
  "stack_string ty str = \<lparr>s_length = int32 (int (length str)), s_type = ty, s_data = Some (str @ [0]), s_flags = 0\<rparr>"

text \<open>The destination may be null, and is given back as it is after the call.\<close>

definition ASN1_GENERALIZEDTIME_set_string :: "allocator \<Rightarrow> ASN1_STRING option \<Rightarrow> byte list \<Rightarrow> (bool \<times> ASN1_STRING option) option" where
  "ASN1_GENERALIZEDTIME_set_string mem s str =
     (let t = stack_string V_ASN1_GENERALIZEDTIME str
      in (case ASN1_GENERALIZEDTIME_check t of
            None \<Rightarrow> None
          | Some False \<Rightarrow> Some (False, s)
          | Some True \<Rightarrow>
              (case s of
                 None \<Rightarrow> Some (True, None)
               | Some s \<Rightarrow>
                   (case ASN1_STRING_set mem s (Some (str @ [0])) (s_length t) of
                      (False, s') \<Rightarrow> Some (False, Some s')
                    | (True, s') \<Rightarrow> Some (True, Some (s'\<lparr>s_type := V_ASN1_GENERALIZEDTIME\<rparr>))))))"

definition ASN1_UTCTIME_set_string :: "allocator \<Rightarrow> ASN1_STRING option \<Rightarrow> byte list \<Rightarrow> (bool \<times> ASN1_STRING option) option" where
  "ASN1_UTCTIME_set_string mem s str =
     (let t = stack_string V_ASN1_UTCTIME str
      in (case ASN1_UTCTIME_check t of
            None \<Rightarrow> None
          | Some False \<Rightarrow> Some (False, s)
          | Some True \<Rightarrow>
              (case s of
                 None \<Rightarrow> Some (True, None)
               | Some s \<Rightarrow>
                   (case ASN1_STRING_set mem s (Some (str @ [0])) (s_length t) of
                      (False, s') \<Rightarrow> Some (False, Some s')
                    | (True, s') \<Rightarrow> Some (True, Some (s'\<lparr>s_type := V_ASN1_UTCTIME\<rparr>))))))"

definition ASN1_TIME_set_string :: "allocator \<Rightarrow> ASN1_STRING option \<Rightarrow> byte list \<Rightarrow> (bool \<times> ASN1_STRING option) option" where
  "ASN1_TIME_set_string mem s str =
     (let finish = (\<lambda>t. case s of
              None \<Rightarrow> Some (True, None)
            | Some s \<Rightarrow> (case ASN1_STRING_copy mem s (Some t) of (r, s') \<Rightarrow> Some (r, Some s')));
          t = stack_string V_ASN1_UTCTIME str;
          t' = stack_string V_ASN1_GENERALIZEDTIME str
      in (case ASN1_TIME_check t of
            None \<Rightarrow> None
          | Some True \<Rightarrow> finish t
          | Some False \<Rightarrow>
              (case ASN1_TIME_check t' of
                 None \<Rightarrow> None
               | Some False \<Rightarrow> Some (False, s)
               | Some True \<Rightarrow> finish t')))"

section \<open>Writing\<close>

type_synonym gmtime = "int \<Rightarrow> tm option"

definition gentime_format :: "tm \<Rightarrow> byte list" where
  "gentime_format ts = fmt_0d 4 (tm_year ts + 1900) @ fmt_0d 2 (tm_mon ts + 1) @ fmt_0d 2 (tm_mday ts) @ fmt_0d 2 (tm_hour ts) @
     fmt_0d 2 (tm_min ts) @ fmt_0d 2 (tm_sec ts) @ [90]"

definition utctime_format :: "tm \<Rightarrow> byte list" where
  "utctime_format ts = fmt_0d 2 (tm_year ts smod 100) @ fmt_0d 2 (tm_mon ts + 1) @ fmt_0d 2 (tm_mday ts) @ fmt_0d 2 (tm_hour ts) @
     fmt_0d 2 (tm_min ts) @ fmt_0d 2 (tm_sec ts) @ [90]"

text \<open>The time that is written: \<open>gmtime\<close> of the argument, moved by the offsets unless both are zero.\<close>

definition adjusted_tm :: "gmtime \<Rightarrow> int \<Rightarrow> int \<Rightarrow> int \<Rightarrow> tm option option" where
  "adjusted_tm gmtime t offset_day offset_sec = (case gmtime t of
      None \<Rightarrow> Some None
    | Some ts \<Rightarrow> if offset_day \<noteq> 0 \<or> offset_sec \<noteq> 0 then OPENSSL_gmtime_adj ts offset_day offset_sec else Some (Some ts))"

text \<open>The block of a string, replaced by one of twenty bytes when there is none or the length in use, read as a \<open>size_t\<close>, is smaller.\<close>

definition time_block :: "allocator \<Rightarrow> ASN1_STRING \<Rightarrow> byte list option" where
  "time_block mem s = (if s_data s = None \<or> s_length s mod 2 ^ 64 < 20 then OPENSSL_malloc mem 20 else s_data s)"

definition time_store :: "allocator \<Rightarrow> ASN1_STRING \<Rightarrow> byte list \<Rightarrow> int \<Rightarrow> ASN1_STRING option" where
  "time_store mem s txt ty = (case time_block mem s of
      None \<Rightarrow> None
    | Some p \<Rightarrow>
        let p = c_snprintf p 20 txt
        in Some (s\<lparr>s_data := Some p, s_length := int32 (int (c_strlen p)), s_type := ty\<rparr>))"

definition ASN1_GENERALIZEDTIME_adj :: "allocator \<Rightarrow> gmtime \<Rightarrow> ASN1_STRING option \<Rightarrow> int \<Rightarrow> int \<Rightarrow> int \<Rightarrow> ASN1_STRING option option" where
  "ASN1_GENERALIZEDTIME_adj mem gmtime s t offset_day offset_sec =
     (case (case s of None \<Rightarrow> ASN1_STRING_type_new mem V_ASN1_GENERALIZEDTIME | Some s \<Rightarrow> Some s) of
        None \<Rightarrow> Some None
      | Some tmps \<Rightarrow>
          chain (adjusted_tm gmtime t offset_day offset_sec) (\<lambda>ts.
            if tm_year ts < 0 - 1900 \<or> tm_year ts > 9999 - 1900 then Some None
            else Some (time_store mem tmps (gentime_format ts) V_ASN1_GENERALIZEDTIME)))"

definition ASN1_GENERALIZEDTIME_set :: "allocator \<Rightarrow> gmtime \<Rightarrow> ASN1_STRING option \<Rightarrow> int \<Rightarrow> ASN1_STRING option option" where
  "ASN1_GENERALIZEDTIME_set mem gmtime s t = ASN1_GENERALIZEDTIME_adj mem gmtime s t 0 0"

definition ASN1_UTCTIME_adj :: "allocator \<Rightarrow> gmtime \<Rightarrow> ASN1_STRING option \<Rightarrow> int \<Rightarrow> int \<Rightarrow> int \<Rightarrow> ASN1_STRING option option" where
  "ASN1_UTCTIME_adj mem gmtime s t offset_day offset_sec =
     (case (case s of None \<Rightarrow> ASN1_STRING_type_new mem V_ASN1_UTCTIME | Some s \<Rightarrow> Some s) of
        None \<Rightarrow> Some None
      | Some s \<Rightarrow>
          chain (adjusted_tm gmtime t offset_day offset_sec) (\<lambda>ts.
            if tm_year ts < 50 \<or> tm_year ts \<ge> 150 then Some None
            else Some (time_store mem s (utctime_format ts) V_ASN1_UTCTIME)))"

definition ASN1_UTCTIME_set :: "allocator \<Rightarrow> gmtime \<Rightarrow> ASN1_STRING option \<Rightarrow> int \<Rightarrow> ASN1_STRING option option" where
  "ASN1_UTCTIME_set mem gmtime s t = ASN1_UTCTIME_adj mem gmtime s t 0 0"

definition ASN1_TIME_adj :: "allocator \<Rightarrow> gmtime \<Rightarrow> ASN1_STRING option \<Rightarrow> int \<Rightarrow> int \<Rightarrow> int \<Rightarrow> ASN1_STRING option option" where
  "ASN1_TIME_adj mem gmtime s t offset_day offset_sec =
     chain (adjusted_tm gmtime t offset_day offset_sec) (\<lambda>ts.
       if tm_year ts \<ge> 50 \<and> tm_year ts < 150 then ASN1_UTCTIME_adj mem gmtime s t offset_day offset_sec
       else ASN1_GENERALIZEDTIME_adj mem gmtime s t offset_day offset_sec)"

definition ASN1_TIME_set :: "allocator \<Rightarrow> gmtime \<Rightarrow> ASN1_STRING option \<Rightarrow> int \<Rightarrow> ASN1_STRING option option" where
  "ASN1_TIME_set mem gmtime s t = ASN1_TIME_adj mem gmtime s t 0 0"

text \<open>\<open>out\<close> is the string that \<open>*out\<close> points to, if there is one.\<close>

definition ASN1_TIME_to_generalizedtime :: "allocator \<Rightarrow> ASN1_STRING \<Rightarrow> ASN1_STRING option \<Rightarrow> ASN1_STRING option option" where
  "ASN1_TIME_to_generalizedtime mem t out = (case ASN1_TIME_check t of
      None \<Rightarrow> None
    | Some False \<Rightarrow> Some None
    | Some True \<Rightarrow>
        (case (case out of None \<Rightarrow> ASN1_STRING_type_new mem V_ASN1_GENERALIZEDTIME | Some ret \<Rightarrow> Some ret) of
           None \<Rightarrow> Some None
         | Some ret \<Rightarrow>
             if s_type t = V_ASN1_GENERALIZEDTIME then
               (case ASN1_STRING_set mem ret (s_data t) (s_length t) of
                  (False, _) \<Rightarrow> Some None
                | (True, ret) \<Rightarrow> Some (Some ret))
             else
               (case ASN1_STRING_set mem ret None (s_length t + 2) of
                  (False, _) \<Rightarrow> Some None
                | (True, ret) \<Rightarrow>
                    let newlen = nat (s_length t + 2 + 1);
                        str = block_of ret;
                        str = fst (OPENSSL_strlcpy str (if block_of t ! 0 \<ge> 53 then [49, 57] else [50, 48]) newlen);
                        str = fst (OPENSSL_strlcat str (block_of t) newlen)
                    in Some (Some (ret\<lparr>s_data := Some str\<rparr>)))))"

section \<open>Comparing\<close>

text \<open>A null time stands for the present.\<close>

definition asn1_time_to_tm :: "gmtime \<Rightarrow> int \<Rightarrow> tm \<Rightarrow> ASN1_STRING option \<Rightarrow> tm option option" where
  "asn1_time_to_tm gmtime now tm t = (case t of
      None \<Rightarrow> Some (gmtime now)
    | Some t \<Rightarrow>
        if s_type t = V_ASN1_UTCTIME then map_option (map_option the) (asn1_utctime_to_tm (Some tm) t)
        else if s_type t = V_ASN1_GENERALIZEDTIME then map_option (map_option the) (asn1_generalizedtime_to_tm (Some tm) t)
        else Some None)"

text \<open>The two structures on the stack hold arbitrary values before the calls.\<close>

definition ASN1_TIME_diff :: "gmtime \<Rightarrow> int \<Rightarrow> tm \<Rightarrow> tm \<Rightarrow> ASN1_STRING option \<Rightarrow> ASN1_STRING option \<Rightarrow> (int \<times> int) option option" where
  "ASN1_TIME_diff gmtime now tm1 tm2 from_t to_t =
     chain (asn1_time_to_tm gmtime now tm1 from_t) (\<lambda>tm_from.
       chain (asn1_time_to_tm gmtime now tm2 to_t) (\<lambda>tm_to. OPENSSL_gmtime_diff tm_from tm_to))"

definition ASN1_UTCTIME_cmp_time_t :: "gmtime \<Rightarrow> tm \<Rightarrow> ASN1_STRING \<Rightarrow> int \<Rightarrow> int option" where
  "ASN1_UTCTIME_cmp_time_t gmtime stm s t = (case asn1_utctime_to_tm (Some stm) s of
      None \<Rightarrow> None
    | Some None \<Rightarrow> Some (- 2)
    | Some (Some stm) \<Rightarrow>
        (case gmtime t of
           None \<Rightarrow> Some (- 2)
         | Some ttm \<Rightarrow>
             (case OPENSSL_gmtime_diff ttm (the stm) of
                None \<Rightarrow> None
              | Some None \<Rightarrow> Some (- 2)
              | Some (Some (day, sec)) \<Rightarrow>
                  Some (if day > 0 then 1 else if day < 0 then - 1 else if sec > 0 then 1 else if sec < 0 then - 1 else 0))))"

end
