(* ===== verification/ASN1_Time_Spec.thy ===== *)
theory ASN1_Time_Spec
  imports ASN1_Time Time_Props
begin

text \<open>
  The readers of ASN.1 times on the text alone. The index-based code refines readers on lists (\<open>time_loop_list\<close>,
  \<open>frac_loop_list\<close>, \<open>time_offset_list\<close>), which never look past the terminator; these accept exactly the printed
  forms of the parts of a time.
\<close>

section \<open>Two digits\<close>

fun get_two :: "byte list \<Rightarrow> nat cursor_result" where
  "get_two (c # d # r) = (if is_digit c \<and> is_digit d then (Some ((unat c - 48) * 10 + (unat d - 48)), r) else (None, c # d # r))"
| "get_two r = (None, r)"

lemma is_digit_iff: "is_digit c \<longleftrightarrow> 48 \<le> unat c \<and> unat c \<le> 57"
  by (simp add: is_digit_def word_le_nat_alt)

lemma is_digit_digit: "n < 10 \<Longrightarrow> is_digit (digit n)"
  by (simp add: is_digit_iff unat_digit)

lemma digit_of_digit: "is_digit c \<Longrightarrow> digit (unat c - 48) = c"
  by (simp add: is_digit_iff digit_def)

lemma uint_digit: "is_digit c \<Longrightarrow> uint c - 48 = int (unat c - 48)"
  by (simp add: is_digit_iff of_nat_diff)

interpretation two_digits: wire_format two get_two "\<lambda>n. n < 100"
proof
  fix n :: nat and rest assume "n < 100"
  then show "get_two (two n @ rest) = (Some n, rest)"
    by (simp add: two_def is_digit_digit unat_digit)
next
  fix cbs n rest assume "get_two cbs = (Some n, rest)"
  then obtain c d where s: "cbs = c # d # rest" "is_digit c" "is_digit d" "n = (unat c - 48) * 10 + (unat d - 48)"
    by (cases cbs rule: get_two.cases) (auto split: if_splits)
  let ?a = "unat c - 48" and ?b = "unat d - 48"
  have b: "?a < 10" "?b < 10" using s(2,3) by (auto simp: is_digit_iff)
  have "(?a * 10 + ?b) div 10 = ?a" "(?a * 10 + ?b) mod 10 = ?b" using b by simp_all
  then show "n < 100 \<and> cbs = two n @ rest" unfolding s(4) two_def using b s(1-3) by (simp add: digit_of_digit)
qed

section \<open>From positions to lists\<close>

text \<open>A block that holds a text and its terminator.\<close>

definition holds :: "byte list \<Rightarrow> int \<Rightarrow> byte list \<Rightarrow> bool" where
  "holds a l s \<longleftrightarrow> l = int (length s) \<and> length s < length a \<and> take (length s) a = s \<and> a ! length s = 0"

lemma holds_read:
  assumes "holds a l s" and "i \<le> length s"
  shows "read_at a i = Some (Some (case drop i s of [] \<Rightarrow> 0 | c # _ \<Rightarrow> c))"
proof (cases "i < length s")
  case True
  then have "drop i s = s ! i # drop (Suc i) s" by (rule Cons_nth_drop_Suc [symmetric])
  moreover have "a ! i = s ! i" using assms True by (metis holds_def nth_take)
  ultimately show ?thesis using True assms by (simp add: read_at_def holds_def)
next
  case False
  with assms show ?thesis by (simp add: read_at_def holds_def)
qed

lemma not_digit_0 [simp]: "\<not> is_digit 0" "\<not> is_zone 0"
  by (simp_all add: is_digit_def is_zone_def)

lemma is_digit_nonzero: "is_digit c \<Longrightarrow> c \<noteq> 0"
  by auto

lemma chain_simps [simp]: "chain (Some (Some x)) f = f x" "chain (Some None) f = Some None" "chain None f = None"
  by (simp_all add: chain_def)

lemma time_digits_list:
  assumes "holds a l s" and "i \<le> length s"
  shows "time_digits a l i = (case get_two (drop i s) of (None, _) \<Rightarrow> Some None | (Some n, r) \<Rightarrow> Some (Some (int n, i + 2)))"
proof -
  have l: "l = int (length s)" using assms(1) by (simp add: holds_def)
  consider "drop i s = []" | c where "drop i s = [c]" | c d r where "drop i s = c # d # r" by (metis list.exhaust)
  then show ?thesis
  proof cases
    case 1
    with holds_read [OF assms] show ?thesis by (simp add: time_digits_def)
  next
    case (2 c)
    then have "length s = i + 1" using assms(2) by (metis drop_eq_Nil2 length_Cons length_drop list.size(3) le_add_diff_inverse One_nat_def)
    with 2 holds_read [OF assms] holds_read [OF assms(1), of "i + 1"] l show ?thesis by (simp add: time_digits_def)
  next
    case (3 c d r)
    then have "length (drop i s) = length r + 2" by simp
    then have n: "length s = i + 2 + length r" using assms(2) by simp
    have "drop (i + 1) s = d # r" using 3 by (metis drop_drop drop_Suc_Cons drop0 One_nat_def add.commute)
    with 3 n holds_read [OF assms] holds_read [OF assms(1), of "i + 1"] l show ?thesis
      by (auto simp: time_digits_def uint_digit)
  qed
qed

lemma get_two_drop: "get_two (drop i s) = (Some n, r) \<Longrightarrow> i \<le> length s \<Longrightarrow> r = drop (i + 2) s \<and> i + 2 \<le> length s"
proof -
  assume "get_two (drop i s) = (Some n, r)" and i: "i \<le> length s"
  then have d: "drop i s = two n @ r" using two_digits.dec_sound by blast
  then have "length (drop i s) = 2 + length r" by simp
  moreover have "drop 2 (drop i s) = r" using d by (simp add: two_def)
  ultimately show ?thesis using i by (simp add: add.commute)
qed

fun fields_list :: "int list \<Rightarrow> int list \<Rightarrow> (nat \<Rightarrow> int \<Rightarrow> tm \<Rightarrow> tm) \<Rightarrow> nat \<Rightarrow> nat list \<Rightarrow> byte list \<Rightarrow> tm option \<Rightarrow>
    (byte list \<times> tm option) option" where
  "fields_list mn mx field sec [] s tm = Some (s, tm)"
| "fields_list mn mx field sec (k # ks) s tm =
     (if k = sec \<and> s \<noteq> [] \<and> is_zone (hd s) then Some (s, map_option (tm_sec_update (\<lambda>_. 0)) tm)
      else (case get_two s of
          (None, _) \<Rightarrow> None
        | (Some n, r) \<Rightarrow> if int n < mn ! k \<or> int n > mx ! k then None else fields_list mn mx field sec ks r (map_option (field k (int n)) tm)))"

text \<open>A position in the text that is left when \<open>r\<close> remains.\<close>

definition at_rest :: "byte list \<Rightarrow> (byte list \<times> 'a) option \<Rightarrow> (nat \<times> 'a) option" where
  "at_rest s = map_option (\<lambda>(r, x). (length s - length r, x))"

lemma time_loop_list:
  assumes "holds a l s"
  shows "i \<le> length s \<Longrightarrow> time_loop mn mx field sec a l ks i tm = Some (at_rest s (fields_list mn mx field sec ks (drop i s) tm))"
proof (induction ks arbitrary: i tm)
  case Nil
  then show ?case by (simp add: at_rest_def)
next
  case (Cons k ks)
  have z: "(if k = sec then chain (read_at a i) (\<lambda>c. Some (Some (is_zone c))) else Some (Some False)) =
      Some (Some (k = sec \<and> drop i s \<noteq> [] \<and> is_zone (hd (drop i s))))"
    using holds_read [OF assms Cons.prems] by (auto split: list.split)
  show ?case
  proof (cases "k = sec \<and> drop i s \<noteq> [] \<and> is_zone (hd (drop i s))")
    case True
    with z Cons.prems show ?thesis by (simp add: at_rest_def)
  next
    case False
    obtain g r where g: "get_two (drop i s) = (g, r)" by fastforce
    note td = time_digits_list [OF assms Cons.prems, unfolded g]
    show ?thesis
    proof (cases g)
      case None
      with False z td g show ?thesis by (auto simp: at_rest_def)
    next
      case (Some n)
      with get_two_drop [OF _ Cons.prems] g have "r = drop (i + 2) s" "i + 2 \<le> length s" by blast+
      with Cons.IH [of "i + 2"] False z td g Some show ?thesis by (auto simp: at_rest_def)
    qed
  qed
qed

lemma frac_loop_list:
  assumes "holds a l s"
  shows "i \<le> length s \<Longrightarrow> frac_loop a l i = Some (Some (i + length (takeWhile is_digit (drop i s))))"
proof (induction "length s - i" arbitrary: i)
  case 0
  then have "i = length s" by simp
  with assms show ?case by (subst frac_loop.simps) (simp add: holds_def)
next
  case (Suc n)
  then have i: "i < length s" by simp
  then have d: "drop i s = s ! i # drop (Suc i) s" by (rule Cons_nth_drop_Suc [symmetric])
  have r: "i < length a" "a ! i = s ! i" "int i \<le> l" using assms i by (auto simp: holds_def) (metis nth_take)
  have "frac_loop a l (i + 1) = Some (Some (i + 1 + length (takeWhile is_digit (drop (i + 1) s))))" using Suc i by (intro Suc.hyps) simp_all
  with d r show ?case by (subst frac_loop.simps) simp
qed

text \<open>A fraction: the rest of the text after it.\<close>

fun frac_list :: "byte list \<Rightarrow> byte list option" where
  "frac_list [] = Some []"
| "frac_list (c # s) = (if c \<noteq> 46 then Some (c # s) else if takeWhile is_digit s = [] then None else Some (dropWhile is_digit s))"

lemma length_frac_list: "frac_list s = Some r \<Longrightarrow> length r \<le> length s"
  by (cases s rule: frac_list.cases) (auto split: if_splits simp: le_Suc_eq length_dropWhile_le)

lemma time_fraction_list:
  assumes "holds a l s" and "i \<le> length s"
  shows "time_fraction a l i = Some (map_option (\<lambda>r. length s - length r) (frac_list (drop i s)))"
proof (cases "drop i s")
  case Nil
  with assms holds_read [OF assms] show ?thesis by (simp add: time_fraction_def)
next
  case (Cons c r)
  then have i: "i < length s" using assms(2) by (metis drop_eq_Nil2 linorder_not_less list.distinct(1))
  then have r: "r = drop (i + 1) s" using Cons by (metis Cons_nth_drop_Suc Suc_eq_plus1 list.inject)
  have l: "l = int (length s)" using assms(1) by (simp add: holds_def)
  have "length (takeWhile is_digit r) + length (dropWhile is_digit r) = length r" by (metis length_append takeWhile_dropWhile_id)
  moreover have "length r = length s - (i + 1)" using r by simp
  ultimately show ?thesis
    using i l frac_loop_list [OF assms(1), of "i + 1"] holds_read [OF assms] Cons r by (auto simp: time_fraction_def)
qed

text \<open>The digits of an offset and what remains.\<close>

definition offset_list :: "byte list \<Rightarrow> (byte list \<times> int) option" where
  "offset_list s = (case get_two s of
      (None, _) \<Rightarrow> None
    | (Some h, r) \<Rightarrow>
        if h > 12 then None
        else (case get_two r of
            (None, _) \<Rightarrow> None
          | (Some m, r') \<Rightarrow> if m > 59 then None else Some (r', int h * 3600 + int m * 60)))"

lemma offset_loop_step:
  assumes "i + 2 \<le> length s" and "holds a l s"
  shows "offset_loop a ((mx, unit) # fs) i offset = (case get_two (drop i s) of
      (None, _) \<Rightarrow> Some None
    | (Some n, _) \<Rightarrow> if int n > mx then Some None else offset_loop a fs (i + 2) (offset + int n * unit))"
proof -
  have "drop i s = s ! i # drop (Suc i) s" by (rule Cons_nth_drop_Suc [symmetric]) (use assms in simp)
  moreover have "drop (Suc i) s = s ! Suc i # drop (Suc (Suc i)) s" by (rule Cons_nth_drop_Suc [symmetric]) (use assms in simp)
  ultimately have d: "drop i s = s ! i # s ! Suc i # drop (i + 2) s" "drop (i + 1) s = s ! Suc i # drop (i + 2) s" by simp_all
  have "read_at a i = Some (Some (s ! i))" "read_at a (i + 1) = Some (Some (s ! Suc i))"
    using holds_read [OF assms(2), of i] holds_read [OF assms(2), of "i + 1"] assms(1) d by simp_all
  moreover have "(uint c - 48) * 10 + uint e - 48 = int ((unat c - 48) * 10 + (unat e - 48))" if "is_digit c" "is_digit e" for c e :: byte
    using uint_digit [OF that(1)] uint_digit [OF that(2)] by simp
  ultimately show ?thesis unfolding d(1) by (cases "is_digit (s ! i) \<and> is_digit (s ! Suc i)") (auto simp: Let_def)
qed

lemma get_two_short: "length s < 2 \<Longrightarrow> get_two s = (None, s)"
  by (cases s rule: get_two.cases) simp_all

lemma offset_loop_list:
  assumes "holds a l s" and "i + 4 \<le> length s"
  shows "offset_loop a [(12, 3600), (59, 60)] i 0 = Some (at_rest s (offset_list (drop i s)))"
proof -
  have s1: "i + 2 \<le> length s" and s2: "i + 2 + 2 \<le> length s" using assms(2) by simp_all
  note st = offset_loop_step [OF s1 assms(1), of 12 3600 "[(59, 60)]" 0]
  obtain g r where g: "get_two (drop i s) = (g, r)" by fastforce
  show ?thesis
  proof (cases g)
    case None
    with g st show ?thesis by (simp add: offset_list_def at_rest_def)
  next
    case (Some h)
    with get_two_drop g assms(2) have r: "r = drop (i + 2) s" by (metis add_leD1)
    obtain g' r' where g': "get_two r = (g', r')" by fastforce
    show ?thesis
    proof (cases g')
      case None
      with g g' st Some r offset_loop_step [OF s2 assms(1)] show ?thesis by (auto simp: offset_list_def at_rest_def)
    next
      case (Some m)
      with get_two_drop [OF _ s1] g' r have "r' = drop (i + 2 + 2) s" by blast
      with g g' st Some \<open>g = Some h\<close> r s2 offset_loop_step [OF s2 assms(1)] show ?thesis by (auto simp: offset_list_def at_rest_def)
    qed
  qed
qed

definition moved :: "tm \<Rightarrow> int \<Rightarrow> tm option option" where
  "moved t offset = (if offset = 0 then Some (Some t) else OPENSSL_gmtime_adj t 0 offset)"

text \<open>The zone ends the text. Nothing at all is accepted as well.\<close>

definition zone_list :: "byte list \<Rightarrow> tm option \<Rightarrow> tm option option option" where
  "zone_list s tm = (case s of
      [] \<Rightarrow> Some (Some tm)
    | c # r \<Rightarrow>
        if c = 90 then Some (if r = [] then Some tm else None)
        else if c = 43 \<or> c = 45 then
          (case offset_list r of
             None \<Rightarrow> Some None
           | Some (r', offset) \<Rightarrow>
               chain (case tm of None \<Rightarrow> Some (Some None) | Some t \<Rightarrow> map_option (map_option Some) (moved t (if c = 45 then offset else - offset))) (\<lambda>tm.
                 Some (if r' = [] then Some tm else None)))
        else Some None)"

lemma offset_list_length:
  assumes "offset_list s = Some (r, off)"
  shows "length s = length r + 4"
proof -
  from assms obtain h m r1 where "get_two s = (Some h, r1)" "get_two r1 = (Some m, r)"
    by (auto simp: offset_list_def split: prod.splits option.splits if_splits)
  then have "s = two h @ r1" "r1 = two m @ r" using two_digits.dec_sound by blast+
  then show ?thesis by simp
qed

lemma time_offset_list:
  assumes "holds a l s" and "drop i s = c # r" and "c = 43 \<or> c = 45"
  shows "chain (time_offset a l i c tm) (\<lambda>(i, tm). if int i = l then Some (Some tm) else Some None) = zone_list (c # r) tm"
proof -
  have l: "l = int (length s)" using assms(1) by (simp add: holds_def)
  have i: "i < length s" using assms(2) by (metis drop_eq_Nil2 linorder_not_less list.distinct(1))
  then have r: "r = drop (i + 1) s" using assms(2) by (metis Cons_nth_drop_Suc Suc_eq_plus1 list.inject)
  show ?thesis
  proof (cases "length s < i + 1 + 4")
    case True
    then have "offset_list r = None" using offset_list_length r by (cases "offset_list r") fastforce+
    with True l assms(3) show ?thesis by (auto simp: time_offset_def zone_list_def Let_def)
  next
    case False
    then have n: "i + 1 + 4 \<le> length s" by simp
    note ol = offset_loop_list [OF assms(1) n, folded r]
    show ?thesis
    proof (cases "offset_list r")
      case None
      with ol False l assms(3) show ?thesis by (auto simp: time_offset_def zone_list_def Let_def at_rest_def)
    next
      case (Some x)
      then obtain r' off where x: "offset_list r = Some (r', off)" by (cases x) auto
      have e: "length s - length r' = length s \<longleftrightarrow> r' = []" using offset_list_length [OF x] r i by (cases r') auto
      show ?thesis
      proof (cases tm)
        case (Some t)
        have "OPENSSL_gmtime_adj t 0 (off * (if c = 45 then 1 else - 1)) = OPENSSL_gmtime_adj t 0 (if c = 45 then off else - off)" by simp
        with Some x ol False l assms(3) e show ?thesis
          by (auto simp: time_offset_def zone_list_def Let_def at_rest_def moved_def chain_def split: option.splits)
      qed (use x ol False l assms(3) e in \<open>auto simp: time_offset_def zone_list_def Let_def at_rest_def\<close>)
    qed
  qed
qed

text \<open>The two readers. The code for a missing zone differs in the two functions but not in its effect.\<close>

lemma zone_end:
  assumes "holds a l s" and "i \<le> length s" and "e 0 = Some (Some (i, tm))" and "\<And>c. e c = Some None \<or> e c = Some (Some (i, tm))"
  shows "chain (read_at a i) (\<lambda>c. chain (if c = 90 then Some (Some (i + 1, tm)) else if c = 43 \<or> c = 45 then time_offset a l i c tm else e c)
      (\<lambda>(i, tm). if int i = l then Some (Some tm) else Some None)) = zone_list (drop i s) tm"
proof (cases "drop i s")
  case Nil
  then have "i = length s" using assms(2) by simp
  with Nil assms(1,3) holds_read [OF assms(1,2)] show ?thesis by (simp add: zone_list_def holds_def)
next
  case (Cons c r)
  then have "length (drop i s) = length r + 1" by simp
  then have n: "length s = i + 1 + length r" using assms(2) by simp
  have l: "l = int (length s)" using assms(1) by (simp add: holds_def)
  show ?thesis
  proof (cases "c = 43 \<or> c = 45")
    case True
    then have "c \<noteq> 90" by auto
    with True time_offset_list [OF assms(1) Cons True] holds_read [OF assms(1,2)] Cons show ?thesis by simp
  next
    case False
    with holds_read [OF assms(1,2)] Cons n l assms(4) [of c] show ?thesis by (auto simp: zone_list_def)
  qed
qed

definition gentime_list :: "byte list \<Rightarrow> tm option \<Rightarrow> tm option option option" where
  "gentime_list s tm = (case fields_list gentime_min gentime_max gentime_field 6 [0..<7] s tm of
      None \<Rightarrow> Some None
    | Some (r, tm) \<Rightarrow> (case frac_list r of None \<Rightarrow> Some None | Some r \<Rightarrow> zone_list r tm))"

definition utctime_list :: "byte list \<Rightarrow> tm option \<Rightarrow> tm option option option" where
  "utctime_list s tm = (case fields_list utctime_min utctime_max utctime_field 5 [0..<6] s tm of
      None \<Rightarrow> Some None
    | Some (r, tm) \<Rightarrow> zone_list r tm)"

lemma fields_suffix: "fields_list mn mx field sec ks s tm = Some (r, tm') \<Longrightarrow> \<exists>p. s = p @ r"
proof (induction ks arbitrary: s tm)
  case (Cons k ks)
  show ?case
  proof (cases "k = sec \<and> s \<noteq> [] \<and> is_zone (hd s)")
    case False
    with Cons.prems obtain n r1 where n: "get_two s = (Some n, r1)" "fields_list mn mx field sec ks r1 (map_option (field k (int n)) tm) = Some (r, tm')"
      by (auto split: prod.splits option.splits if_splits)
    with Cons.IH two_digits.dec_sound [OF n(1)] show ?thesis by (metis append.assoc)
  qed (use Cons.prems in auto)
qed simp

lemma frac_suffix: "frac_list s = Some r \<Longrightarrow> \<exists>p. s = p @ r"
proof (cases s rule: frac_list.cases)
  case (2 c s')
  assume "frac_list s = Some r"
  with 2 have "r = c # s' \<or> r = dropWhile is_digit s'" by (auto split: if_splits)
  then show ?thesis
  proof
    assume "r = dropWhile is_digit s'"
    with 2 have "s = (c # takeWhile is_digit s') @ r" by simp
    then show ?thesis by blast
  qed (use 2 in simp)
qed simp

lemma suffix_drop: "s = p @ r \<Longrightarrow> drop (length s - length r) s = r"
  by simp

lemma fields_append:
  "sec \<notin> set ks \<Longrightarrow> fields_list mn mx field sec (ks @ ks') s tm =
    (case fields_list mn mx field sec ks s tm of None \<Rightarrow> None | Some (r, tm) \<Rightarrow> fields_list mn mx field sec ks' r tm)"
  by (induction ks arbitrary: s tm) (auto split: prod.split option.split)

lemma fields_length:
  "fields_list mn mx field sec ks s tm = Some (r, tm') \<Longrightarrow> sec \<notin> set ks \<Longrightarrow> length s = 2 * length ks + length r"
proof (induction ks arbitrary: s tm)
  case (Cons k ks)
  then obtain n r1 where n: "get_two s = (Some n, r1)" "fields_list mn mx field sec ks r1 (map_option (field k (int n)) tm) = Some (r, tm')"
    by (auto split: prod.splits option.splits if_splits)
  with Cons.IH [OF n(2)] Cons.prems(2) two_digits.dec_sound [OF n(1)] show ?case by simp
qed simp

lemma fields_min_length:
  assumes "fields_list mn mx field sec [0..<Suc sec] s tm = Some (r, tm')"
  shows "2 * sec + 1 \<le> length s"
proof -
  obtain r1 tm1 where 1: "fields_list mn mx field sec [0..<sec] s tm = Some (r1, tm1)" "fields_list mn mx field sec [sec] r1 tm1 = Some (r, tm')"
    using assms fields_append [of sec "[0..<sec]" mn mx field "[sec]" s tm] by (auto split: option.splits)
  have "r1 \<noteq> []" using 1(2) by auto
  with fields_length [OF 1(1)] show ?thesis by (cases r1) auto
qed

lemma gentime_to_tm_list:
  assumes h: "holds (block_of d) (s_length d) s" and ty: "s_type d = V_ASN1_GENERALIZEDTIME"
  shows "asn1_generalizedtime_to_tm tm d = gentime_list s tm"
proof -
  let ?a = "block_of d" and ?l = "s_length d"
  have l: "?l = int (length s)" using h by (simp add: holds_def)
  obtain f where f: "fields_list gentime_min gentime_max gentime_field 6 [0..<7] s tm = f" by blast
  have loop: "gentime_loop ?a ?l 0 tm = Some (at_rest s f)" using time_loop_list [OF h, of 0] f by (simp add: gentime_loop_def)
  show ?thesis
  proof (cases "length s < 13")
    case True
    then have "f = None" using fields_min_length [of gentime_min gentime_max gentime_field 6 s tm] f by (cases f) auto
    with True l ty f show ?thesis by (simp add: asn1_generalizedtime_to_tm_def gentime_list_def Let_def)
  next
    case False
    show ?thesis
    proof (cases f)
      case None
      with False l ty f loop show ?thesis by (simp add: asn1_generalizedtime_to_tm_def gentime_list_def Let_def at_rest_def)
    next
      case (Some x)
      then obtain r tm' where x: "f = Some (r, tm')" by (cases x) auto
      then obtain p where p: "s = p @ r" using fields_suffix f by metis
      let ?i = "length s - length r"
      have i: "?i \<le> length s" by simp
      note fr = time_fraction_list [OF h i, unfolded suffix_drop [OF p]]
      show ?thesis
      proof (cases "frac_list r")
        case None
        with x False l ty f loop fr show ?thesis by (simp add: asn1_generalizedtime_to_tm_def gentime_list_def Let_def at_rest_def)
      next
        case (Some r')
        then obtain q where q: "s = (p @ q) @ r'" using frac_suffix p by fastforce
        have i': "length s - length r' \<le> length s" by simp
        have z: "chain (read_at ?a (length s - length r')) (\<lambda>c. chain (if c = 90 then Some (Some (length s - length r' + 1, tm'))
            else if c = 43 \<or> c = 45 then time_offset ?a ?l (length s - length r') c tm'
            else if c \<noteq> 0 then Some None else Some (Some (length s - length r', tm')))
            (\<lambda>(i, tm). if int i = ?l then Some (Some tm) else Some None)) = zone_list r' tm'"
          using zone_end [OF h i', of "\<lambda>c. if c \<noteq> 0 then Some None else Some (Some (length s - length r', tm'))" tm'] unfolding suffix_drop [OF q] by simp
        from x False l ty f loop fr Some z show ?thesis
          unfolding asn1_generalizedtime_to_tm_def gentime_list_def Let_def by (simp add: at_rest_def)
      qed
    qed
  qed
qed

lemma utctime_to_tm_list:
  assumes h: "holds (block_of d) (s_length d) s" and ty: "s_type d = V_ASN1_UTCTIME"
  shows "asn1_utctime_to_tm tm d = utctime_list s tm"
proof -
  let ?a = "block_of d" and ?l = "s_length d"
  have l: "?l = int (length s)" using h by (simp add: holds_def)
  obtain f where f: "fields_list utctime_min utctime_max utctime_field 5 [0..<6] s tm = f" by blast
  have loop: "utctime_loop ?a ?l 0 tm = Some (at_rest s f)" using time_loop_list [OF h, of 0] f by (simp add: utctime_loop_def)
  show ?thesis
  proof (cases "length s < 11")
    case True
    then have "f = None" using fields_min_length [of utctime_min utctime_max utctime_field 5 s tm] f by (cases f) auto
    with True l ty f show ?thesis by (simp add: asn1_utctime_to_tm_def utctime_list_def Let_def)
  next
    case False
    show ?thesis
    proof (cases f)
      case None
      with False l ty f loop show ?thesis by (simp add: asn1_utctime_to_tm_def utctime_list_def Let_def at_rest_def)
    next
      case (Some x)
      then obtain r tm' where x: "f = Some (r, tm')" by (cases x) auto
      then obtain p where p: "s = p @ r" using fields_suffix f by metis
      have i: "length s - length r \<le> length s" by simp
      note z = zone_end [OF h i, of "\<lambda>_. Some (Some (length s - length r, tm'))" tm', unfolded suffix_drop [OF p]]
      from x False l ty f loop z show ?thesis unfolding asn1_utctime_to_tm_def utctime_list_def Let_def by (simp add: at_rest_def)
    qed
  qed
qed

section \<open>Texts\<close>

datatype zone = Z_utc | Z_offset bool nat nat | Z_none

fun zone_text :: "zone \<Rightarrow> byte list" where
  "zone_text Z_utc = [90]"
| "zone_text (Z_offset neg h m) = (if neg then 45 else 43) # two h @ two m"
| "zone_text Z_none = []"

fun zone_ok :: "zone \<Rightarrow> bool" where
  "zone_ok (Z_offset neg h m) = (h \<le> 12 \<and> m \<le> 59)"
| "zone_ok _ = True"

text \<open>The seconds that are added to come to universal time.\<close>

fun zone_offset :: "zone \<Rightarrow> int" where
  "zone_offset (Z_offset neg h m) = (if neg then 1 else - 1) * (int h * 3600 + int m * 60)"
| "zone_offset _ = 0"

record time_parts =
  p_year :: nat
  p_mon :: nat
  p_day :: nat
  p_hour :: nat
  p_min :: nat
  p_sec :: "(nat \<times> byte list) option"
  p_zone :: zone

text \<open>The seconds come with the digits of their fraction; without seconds there is a zone.\<close>

fun sec_text :: "(nat \<times> byte list) option \<Rightarrow> byte list" where
  "sec_text None = []"
| "sec_text (Some (n, frac)) = two n @ (if frac = [] then [] else 46 # frac)"

definition clock_ok :: "time_parts \<Rightarrow> bool" where
  "clock_ok f \<longleftrightarrow> 1 \<le> p_mon f \<and> p_mon f \<le> 12 \<and> 1 \<le> p_day f \<and> p_day f \<le> 31 \<and> p_hour f \<le> 23 \<and> p_min f \<le> 59 \<and>
     (case p_sec f of None \<Rightarrow> p_zone f \<noteq> Z_none | Some (n, frac) \<Rightarrow> n \<le> 59 \<and> list_all is_digit frac) \<and> zone_ok (p_zone f)"

definition clock_text :: "time_parts \<Rightarrow> byte list" where
  "clock_text f = two (p_mon f) @ two (p_day f) @ two (p_hour f) @ two (p_min f) @ sec_text (p_sec f) @ zone_text (p_zone f)"

definition gentime_ok :: "time_parts \<Rightarrow> bool" where
  "gentime_ok f \<longleftrightarrow> p_year f \<le> 9999 \<and> clock_ok f"

definition gentime_text :: "time_parts \<Rightarrow> byte list" where
  "gentime_text f = two (p_year f div 100) @ two (p_year f mod 100) @ clock_text f"

definition utctime_ok :: "time_parts \<Rightarrow> bool" where
  "utctime_ok f \<longleftrightarrow> 1950 \<le> p_year f \<and> p_year f \<le> 2049 \<and> clock_ok f \<and> (case p_sec f of None \<Rightarrow> True | Some (n, frac) \<Rightarrow> frac = [])"

definition utctime_text :: "time_parts \<Rightarrow> byte list" where
  "utctime_text f = two (p_year f mod 100) @ clock_text f"

text \<open>The time a text stands for, before it is moved to universal time.\<close>

definition parts_tm :: "time_parts \<Rightarrow> tm" where
  "parts_tm f = \<lparr>tm_year = int (p_year f) - 1900, tm_mon = int (p_mon f) - 1, tm_mday = int (p_day f), tm_hour = int (p_hour f),
     tm_min = int (p_min f), tm_sec = (case p_sec f of None \<Rightarrow> 0 | Some (n, _) \<Rightarrow> int n)\<rparr>"

end
