(* ===== verification/ASN1_Time_Props.thy ===== *)
theory ASN1_Time_Props
  imports ASN1_Time_Spec
begin

text \<open>
  The readers of times accept exactly the texts of the grammar and give the time they stand for; what \<open>ASN1_TIME_adj\<close> writes is read
  back; a UTC time keeps its meaning when it is rewritten as a generalized time; and \<open>ASN1_TIME_diff\<close> is the distance of the two times.
\<close>

section \<open>Pieces of a text\<close>

lemma two_hd [simp]: "n < 100 \<Longrightarrow> is_digit (hd (two n))" "two n \<noteq> []" "hd (two n @ r) = hd (two n)"
  by (simp_all add: two_def is_digit_digit)

lemma digit_not_zone: "is_digit c \<Longrightarrow> \<not> is_zone c \<and> c \<noteq> 46 \<and> c \<noteq> 0"
  by (auto simp: is_digit_iff is_zone_def)

lemma two_not_zone: "n < 100 \<Longrightarrow> \<not> is_zone (hd (two n))"
  using digit_not_zone two_hd(1) by blast

lemma fields_Cons_iff:
  assumes "k \<noteq> sec"
  shows "fields_list mn mx field sec (k # ks) s tm = Some x \<longleftrightarrow> (\<exists>n r. n < 100 \<and> s = two n @ r \<and> mn ! k \<le> int n \<and> int n \<le> mx ! k \<and>
      fields_list mn mx field sec ks r (map_option (field k (int n)) tm) = Some x)"
proof -
  obtain g r where g: "get_two s = (g, r)" by fastforce
  show ?thesis
  proof (cases g)
    case None
    then have "s \<noteq> two n @ r'" if "n < 100" for n r' using two_digits.dec_enc [OF that] g by auto
    with None g assms show ?thesis by auto
  next
    case (Some n)
    with g have n: "n < 100" "s = two n @ r" using two_digits.dec_sound by blast+
    have "n' = n \<and> r' = r" if "n' < 100" "s = two n' @ r'" for n' r' using two_digits.prefix_free [OF that(1) n(1)] that n by simp
    then have ex: "(\<exists>n' r'. n' < 100 \<and> s = two n' @ r' \<and> P n' r') \<longleftrightarrow> P n r" for P using n by blast
    show ?thesis unfolding ex using g Some assms by auto
  qed
qed

lemma fields_last_iff:
  "fields_list mn mx field sec [sec] s tm = Some (r, tm') \<longleftrightarrow>
     (s \<noteq> [] \<and> is_zone (hd s) \<and> r = s \<and> tm' = map_option (tm_sec_update (\<lambda>_. 0)) tm) \<or>
     (\<exists>n. n < 100 \<and> s = two n @ r \<and> mn ! sec \<le> int n \<and> int n \<le> mx ! sec \<and> tm' = map_option (field sec (int n)) tm)"
proof (cases "s \<noteq> [] \<and> is_zone (hd s)")
  case True
  then have "s \<noteq> two n @ r" if "n < 100" for n using two_not_zone [OF that] two_hd(3) [of n r] by (metis two_hd(3))
  with True show ?thesis by auto
next
  case False
  have e: "fields_list mn mx field sec [sec] s tm = (case get_two s of
      (None, _) \<Rightarrow> None | (Some n, r) \<Rightarrow> if int n < mn ! sec \<or> int n > mx ! sec then None else Some (r, map_option (field sec (int n)) tm))"
    using False by (auto split: prod.split option.split)
  have "fields_list mn mx field sec [sec] s tm = Some (r, tm') \<longleftrightarrow>
      (\<exists>n. get_two s = (Some n, r) \<and> mn ! sec \<le> int n \<and> int n \<le> mx ! sec \<and> tm' = map_option (field sec (int n)) tm)"
    unfolding e by (auto split: prod.splits option.splits if_splits)
  with False show ?thesis unfolding two_digits.dec_iff by auto
qed

lemma frac_list_iff:
  assumes "r = [] \<or> \<not> is_digit (hd r) \<and> hd r \<noteq> 46"
  shows "frac_list s = Some r \<longleftrightarrow> s = r \<or> (\<exists>ds. ds \<noteq> [] \<and> list_all is_digit ds \<and> s = 46 # ds @ r)"
proof (cases s rule: frac_list.cases)
  case (2 c t)
  have nd: "takeWhile is_digit (ds @ r) = ds" "dropWhile is_digit (ds @ r) = r" if "list_all is_digit ds" for ds
    using that assms by (auto simp: list_all_iff takeWhile_append dropWhile_append split: list.split intro: takeWhile_eq_Nil_iff [THEN iffD2])
      (cases r; simp)+
  show ?thesis
  proof
    assume f: "frac_list s = Some r"
    show "s = r \<or> (\<exists>ds. ds \<noteq> [] \<and> list_all is_digit ds \<and> s = 46 # ds @ r)"
    proof (cases "c = 46")
      case True
      with f 2 have "takeWhile is_digit t \<noteq> []" "r = dropWhile is_digit t" by (auto split: if_splits)
      then have "takeWhile is_digit t \<noteq> [] \<and> list_all is_digit (takeWhile is_digit t) \<and> s = 46 # takeWhile is_digit t @ r"
        using 2 True by (auto simp: list_all_iff dest: set_takeWhileD)
      then show ?thesis by blast
    qed (use f 2 in auto)
  next
    assume "s = r \<or> (\<exists>ds. ds \<noteq> [] \<and> list_all is_digit ds \<and> s = 46 # ds @ r)"
    then show "frac_list s = Some r"
    proof
      assume "\<exists>ds. ds \<noteq> [] \<and> list_all is_digit ds \<and> s = 46 # ds @ r"
      then obtain ds where ds: "ds \<noteq> []" "list_all is_digit ds" "c = 46" "t = ds @ r" using 2 by auto
      show ?thesis unfolding 2 ds(3,4) using nd [OF ds(2)] ds(1) by simp
    qed (use 2 assms in auto)
  qed
qed (use assms in auto)

lemma offset_list_iff: "offset_list s = Some ([], off) \<longleftrightarrow>
    (\<exists>h m. h \<le> 12 \<and> m \<le> 59 \<and> s = two h @ two m \<and> off = int h * 3600 + int m * 60)"
proof
  assume "offset_list s = Some ([], off)"
  then obtain h m r where "get_two s = (Some h, r)" "\<not> h > 12" "get_two r = (Some m, [])" "\<not> m > 59" "off = int h * 3600 + int m * 60"
    by (auto simp: offset_list_def split: prod.splits option.splits if_splits)
  with two_digits.dec_sound show "\<exists>h m. h \<le> 12 \<and> m \<le> 59 \<and> s = two h @ two m \<and> off = int h * 3600 + int m * 60"
    by (metis append_Nil2 not_less)
next
  assume "\<exists>h m. h \<le> 12 \<and> m \<le> 59 \<and> s = two h @ two m \<and> off = int h * 3600 + int m * 60"
  then obtain h m where "h \<le> 12" "m \<le> 59" "s = two h @ two m @ []" "off = int h * 3600 + int m * 60" by auto
  then show "offset_list s = Some ([], off)"
    using two_digits.dec_enc [of h "two m @ []"] two_digits.dec_enc [of m "[]"] by (simp add: offset_list_def)
qed

text \<open>What a reader delivers for a time that is moved by a zone: nothing when no structure is given.\<close>

definition delivers :: "tm option \<Rightarrow> int \<Rightarrow> tm option \<Rightarrow> bool" where
  "delivers tm off tm' \<longleftrightarrow> (case tm of None \<Rightarrow> tm' = None | Some t \<Rightarrow> \<exists>t'. tm' = Some t' \<and> moved t off = Some (Some t'))"

lemma delivers_0 [simp]: "delivers tm 0 tm' \<longleftrightarrow> tm' = tm"
  by (auto simp: delivers_def moved_def split: option.splits)

lemma zone_list_iff:
  "zone_list s tm = Some (Some tm') \<longleftrightarrow> (\<exists>z. zone_ok z \<and> s = zone_text z \<and> delivers tm (zone_offset z) tm')" (is "?L = ?R")
proof -
  have ex: "?R \<longleftrightarrow> (s = [] \<and> tm' = tm) \<or> (s = [90] \<and> tm' = tm) \<or>
      (\<exists>neg h m. h \<le> 12 \<and> m \<le> 59 \<and> s = (if neg then 45 else 43) # two h @ two m \<and> delivers tm (zone_offset (Z_offset neg h m)) tm')"
    (is "_ \<longleftrightarrow> ?E")
  proof
    assume ?R
    then obtain z where z: "zone_ok z" "s = zone_text z" "delivers tm (zone_offset z) tm'" by blast
    show ?E
    proof (cases z)
      case (Z_offset neg h m)
      with z have "h \<le> 12 \<and> m \<le> 59 \<and> s = (if neg then 45 else 43) # two h @ two m \<and> delivers tm (zone_offset (Z_offset neg h m)) tm'"
        by (simp del: zone_offset.simps)
      then show ?thesis by blast
    qed (use z in simp_all)
  next
    assume ?E
    then consider "s = zone_text Z_none" "tm' = tm" | "s = zone_text Z_utc" "tm' = tm" |
      neg h m where "zone_ok (Z_offset neg h m)" "s = zone_text (Z_offset neg h m)" "delivers tm (zone_offset (Z_offset neg h m)) tm'" by auto
    then show ?R
    proof cases
      case 1
      then show ?thesis by (intro exI [of _ Z_none]) simp
    next
      case 2
      then show ?thesis by (intro exI [of _ Z_utc]) simp
    next
      case 3
      then show ?thesis by blast
    qed
  qed
  show ?thesis
  proof (cases s)
    case Nil
    then show ?thesis unfolding ex by (auto simp: zone_list_def)
  next
    case (Cons c r)
    consider "c = 90" | "c = 43 \<or> c = 45" | "c \<noteq> 90" "c \<noteq> 43" "c \<noteq> 45" by blast
    then show ?thesis
    proof cases
      case 1
      with Cons show ?thesis unfolding ex by (auto simp: zone_list_def)
    next
      case 2
      let ?sg = "\<lambda>off. if c = 45 then off else - off"
      have "c \<noteq> 90" using 2 by auto
      then have z: "zone_list s tm = (case offset_list r of None \<Rightarrow> Some None | Some (r', off) \<Rightarrow>
          chain (case tm of None \<Rightarrow> Some (Some None) | Some t \<Rightarrow> map_option (map_option Some) (moved t (?sg off))) (\<lambda>tm. Some (if r' = [] then Some tm else None)))"
        using 2 Cons by (simp add: zone_list_def)
      have "?L \<longleftrightarrow> (\<exists>off. offset_list r = Some ([], off) \<and> delivers tm (?sg off) tm')"
      proof (cases "offset_list r")
        case (Some x)
        then obtain r' off where x: "offset_list r = Some (r', off)" by (cases x) auto
        have "?L \<longleftrightarrow> r' = [] \<and> delivers tm (?sg off) tm'"
          unfolding z x by (cases tm; cases "moved (the tm) (?sg off)") (auto simp: delivers_def chain_def split: option.splits)
        then show ?thesis unfolding x by simp
      qed (simp add: z)
      also have "\<dots> \<longleftrightarrow> (\<exists>h m. h \<le> 12 \<and> m \<le> 59 \<and> r = two h @ two m \<and> delivers tm (?sg (int h * 3600 + int m * 60)) tm')"
        unfolding offset_list_iff by blast
      also have "\<dots> \<longleftrightarrow> (\<exists>neg h m. h \<le> 12 \<and> m \<le> 59 \<and> s = (if neg then 45 else 43) # two h @ two m \<and>
          delivers tm (zone_offset (Z_offset neg h m)) tm')"
        unfolding ex_bool_eq Cons zone_offset.simps using 2
        by (elim disjE) (simp_all only: if_True if_False list.inject mult_1 mult_minus1 simp_thms, simp_all)
      also have "\<dots> \<longleftrightarrow> ?R" unfolding ex using 2 Cons by auto
      finally show ?thesis .
    next
      case 3
      with Cons show ?thesis unfolding ex by (auto simp: zone_list_def)
    qed
  qed
qed

section \<open>Seconds and zone\<close>

definition sec_value :: "(nat \<times> byte list) option \<Rightarrow> int" where
  "sec_value sec = (case sec of None \<Rightarrow> 0 | Some (n, _) \<Rightarrow> int n)"

definition sec_ok :: "(nat \<times> byte list) option \<Rightarrow> zone \<Rightarrow> bool" where
  "sec_ok sec z \<longleftrightarrow> (case sec of None \<Rightarrow> z \<noteq> Z_none | Some (n, frac) \<Rightarrow> n \<le> 59 \<and> list_all is_digit frac)"

abbreviation with_sec :: "int \<Rightarrow> tm option \<Rightarrow> tm option" where
  "with_sec n \<equiv> map_option (tm_sec_update (\<lambda>_. n))"

lemma zone_text_hd: "zone_text z \<noteq> [] \<Longrightarrow> is_zone (hd (zone_text z)) \<and> \<not> is_digit (hd (zone_text z)) \<and> hd (zone_text z) \<noteq> 46"
  by (cases z) (auto simp: is_zone_def is_digit_def)

lemma zone_text_Nil: "zone_text z = [] \<longleftrightarrow> z = Z_none"
  by (cases z) auto

lemma frac_zone: "frac_list (zone_text z) = Some (zone_text z)"
  using zone_text_hd [of z] by (cases "zone_text z") auto

lemma frac_sec: "frac_list r = Some (zone_text z) \<longleftrightarrow> r = zone_text z \<or> (\<exists>ds. ds \<noteq> [] \<and> list_all is_digit ds \<and> r = 46 # ds @ zone_text z)"
  by (rule frac_list_iff) (use zone_text_hd in blast)

text \<open>The fields after the minutes, of a kind of time whose seconds go up to 59.\<close>

definition sec_field :: "int list \<Rightarrow> int list \<Rightarrow> (nat \<Rightarrow> int \<Rightarrow> tm \<Rightarrow> tm) \<Rightarrow> nat \<Rightarrow> bool" where
  "sec_field mn mx field sec \<longleftrightarrow> mn ! sec = 0 \<and> mx ! sec = 59 \<and> field sec = (\<lambda>n. tm_sec_update (\<lambda>_. n))"

lemma tail_frac_iff:
  assumes "sec_field mn mx field sec"
  shows "(\<exists>r tm2 r'. fields_list mn mx field sec [sec] s tm = Some (r, tm2) \<and> frac_list r = Some r' \<and> zone_list r' tm2 = Some (Some tm')) \<longleftrightarrow>
    (\<exists>sc z. sec_ok sc z \<and> zone_ok z \<and> s = sec_text sc @ zone_text z \<and> delivers (with_sec (sec_value sc) tm) (zone_offset z) tm')"
    (is "?L \<longleftrightarrow> ?R")
proof
  assume ?L
  then obtain r tm2 z where f: "fields_list mn mx field sec [sec] s tm = Some (r, tm2)" and r: "frac_list r = Some (zone_text z)"
    and z: "zone_ok z" "delivers tm2 (zone_offset z) tm'" unfolding zone_list_iff by blast
  from f consider "s \<noteq> []" "is_zone (hd s)" "r = s" "tm2 = with_sec 0 tm" |
    n where "n \<le> 59" "s = two n @ r" "tm2 = with_sec (int n) tm"
    unfolding fields_last_iff using assms by (auto simp: sec_field_def)
  then show ?R
  proof cases
    case 1
    then have "hd s \<noteq> 46" by (auto simp: is_zone_def)
    with 1 r frac_sec [of r z] have "s = zone_text z" by auto
    with 1 z have "sec_ok None z \<and> zone_ok z \<and> s = sec_text None @ zone_text z \<and> delivers (with_sec (sec_value None) tm) (zone_offset z) tm'"
      by (auto simp: sec_ok_def sec_value_def)
    then show ?thesis by blast
  next
    case (2 n)
    from r have "\<exists>ds. list_all is_digit ds \<and> r = (if ds = [] then [] else 46 # ds) @ zone_text z"
      unfolding frac_sec by (elim disjE) (rule exI [of _ "[]"], simp, auto)
    then obtain ds where ds: "list_all is_digit ds" "r = (if ds = [] then [] else 46 # ds) @ zone_text z" by blast
    with 2 z have "sec_ok (Some (n, ds)) z \<and> zone_ok z \<and> s = sec_text (Some (n, ds)) @ zone_text z \<and>
        delivers (with_sec (sec_value (Some (n, ds))) tm) (zone_offset z) tm'" by (simp add: sec_ok_def sec_value_def)
    then show ?thesis by blast
  qed
next
  assume ?R
  then obtain sc z where sz: "sec_ok sc z" "zone_ok z" "s = sec_text sc @ zone_text z" "delivers (with_sec (sec_value sc) tm) (zone_offset z) tm'"
    by blast
  have "fields_list mn mx field sec [sec] s tm = Some (case sc of None \<Rightarrow> s | Some (n, ds) \<Rightarrow> (if ds = [] then [] else 46 # ds) @ zone_text z, with_sec (sec_value sc) tm)"
    unfolding fields_last_iff using sz assms zone_text_hd [of z] zone_text_Nil [of z]
    by (cases sc) (auto simp: sec_field_def sec_ok_def sec_value_def)
  moreover have "frac_list (case sc of None \<Rightarrow> s | Some (n, ds) \<Rightarrow> (if ds = [] then [] else 46 # ds) @ zone_text z) = Some (zone_text z)"
    unfolding frac_sec using sz by (auto simp: sec_ok_def split: option.splits)
  ultimately show ?L using sz zone_list_iff by blast
qed

lemma tail_plain_iff:
  assumes "sec_field mn mx field sec"
  shows "(\<exists>r tm2. fields_list mn mx field sec [sec] s tm = Some (r, tm2) \<and> zone_list r tm2 = Some (Some tm')) \<longleftrightarrow>
    (\<exists>sc z. sec_ok sc z \<and> (case sc of None \<Rightarrow> True | Some (n, frac) \<Rightarrow> frac = []) \<and> zone_ok z \<and> s = sec_text sc @ zone_text z \<and>
      delivers (with_sec (sec_value sc) tm) (zone_offset z) tm')"
    (is "?L \<longleftrightarrow> ?R")
proof
  assume ?L
  then obtain r tm2 z where f: "fields_list mn mx field sec [sec] s tm = Some (r, tm2)" and r: "r = zone_text z"
    and z: "zone_ok z" "delivers tm2 (zone_offset z) tm'" unfolding zone_list_iff by blast
  from f consider "s \<noteq> []" "s = zone_text z" "tm2 = with_sec 0 tm" | n where "n \<le> 59" "s = two n @ zone_text z" "tm2 = with_sec (int n) tm"
    unfolding fields_last_iff using assms r by (auto simp: sec_field_def)
  then show ?R
  proof cases
    case 1
    with z show ?thesis by (intro exI [of _ None] exI [of _ z]) (auto simp: sec_ok_def sec_value_def)
  next
    case (2 n)
    with z show ?thesis by (intro exI [of _ "Some (n, [])"] exI [of _ z]) (simp add: sec_ok_def sec_value_def)
  qed
next
  assume ?R
  then obtain sc z where sz: "sec_ok sc z" "zone_ok z" "s = sec_text sc @ zone_text z" "delivers (with_sec (sec_value sc) tm) (zone_offset z) tm'"
    "case sc of None \<Rightarrow> True | Some (n, frac) \<Rightarrow> frac = []" by blast
  have "fields_list mn mx field sec [sec] s tm = Some (zone_text z, with_sec (sec_value sc) tm)"
    unfolding fields_last_iff using sz assms zone_text_hd [of z] zone_text_Nil [of z]
    by (cases sc) (auto simp: sec_field_def sec_ok_def sec_value_def)
  then show ?L using sz zone_list_iff by blast
qed

section \<open>Whole texts\<close>

definition with_date :: "int \<Rightarrow> nat \<Rightarrow> nat \<Rightarrow> nat \<Rightarrow> nat \<Rightarrow> tm \<Rightarrow> tm" where
  "with_date y mo d h mi t = \<lparr>tm_year = y, tm_mon = int mo - 1, tm_mday = int d, tm_hour = int h, tm_min = int mi, tm_sec = tm_sec t\<rparr>"

definition date_ok :: "nat \<Rightarrow> nat \<Rightarrow> nat \<Rightarrow> nat \<Rightarrow> bool" where
  "date_ok mo d h mi \<longleftrightarrow> 1 \<le> mo \<and> mo \<le> 12 \<and> 1 \<le> d \<and> d \<le> 31 \<and> h \<le> 23 \<and> mi \<le> 59"

lemma upt_fields: "[0..<6] = [0, 1, 2, 3, 4, 5 :: nat]" "[0..<7] = [0..<6] @ [6 :: nat]" "[0..<5] = [0, 1, 2, 3, 4 :: nat]" "[0..<6] = [0..<5] @ [5 :: nat]"
  by (simp_all add: upt_rec)

lemmas gentime_tables = gentime_min_def gentime_max_def gentime_field_def
lemmas utctime_tables = utctime_min_def utctime_max_def utctime_field_def

lemma get_two_two [simp]: "n < 100 \<Longrightarrow> get_two (two n @ r) = (Some n, r)"
  by (rule two_digits.dec_enc)

lemma map_option_same: "tm1 = map_option f tm \<Longrightarrow> (\<And>t. f t = g t) \<Longrightarrow> tm1 = map_option g tm"
  by (cases tm) simp_all

lemma gentime_date_intro:
  assumes "c < 100" "y < 100" "date_ok mo d h mi"
  shows "fields_list gentime_min gentime_max gentime_field 6 [0..<6] (two c @ two y @ two mo @ two d @ two h @ two mi @ r) tm =
    Some (r, map_option (with_date (int c * 100 + int y - 1900) mo d h mi) tm)"
proof -
  have "tm = None \<or> (\<exists>t. tm = Some t)" by (cases tm) auto
  then show ?thesis using assms
    by (elim disjE exE) (simp_all add: upt_fields gentime_tables date_ok_def with_date_def)
qed

lemma gentime_date_elim:
  assumes "fields_list gentime_min gentime_max gentime_field 6 [0..<6] s tm = Some (r, tm1)"
  obtains c y mo d h mi where "c < 100" "y < 100" "date_ok mo d h mi" "s = two c @ two y @ two mo @ two d @ two h @ two mi @ r"
proof -
  from assms obtain c y mo d h mi where "c < 100" "y < 100" "int mo \<le> 12" "1 \<le> int mo" "int d \<le> 31" "1 \<le> int d" "int h \<le> 23" "int mi \<le> 59"
    "s = two c @ two y @ two mo @ two d @ two h @ two mi @ r"
    unfolding upt_fields(1) by (simp add: fields_Cons_iff gentime_min_def gentime_max_def del: fields_list.simps(2)) blast
  then show thesis by (intro that) (auto simp: date_ok_def)
qed

lemma utctime_date_intro:
  assumes "y < 100" "date_ok mo d h mi"
  shows "fields_list utctime_min utctime_max utctime_field 5 [0..<5] (two y @ two mo @ two d @ two h @ two mi @ r) tm =
    Some (r, map_option (with_date (if y < 50 then int y + 100 else int y) mo d h mi) tm)"
proof -
  have "tm = None \<or> (\<exists>t. tm = Some t)" by (cases tm) auto
  then show ?thesis using assms
    by (elim disjE exE) (simp_all add: upt_fields utctime_tables date_ok_def with_date_def)
qed

lemma utctime_date_elim:
  assumes "fields_list utctime_min utctime_max utctime_field 5 [0..<5] s tm = Some (r, tm1)"
  obtains y mo d h mi where "y < 100" "date_ok mo d h mi" "s = two y @ two mo @ two d @ two h @ two mi @ r"
proof -
  from assms obtain y mo d h mi where "y < 100" "int mo \<le> 12" "1 \<le> int mo" "int d \<le> 31" "1 \<le> int d" "int h \<le> 23" "int mi \<le> 59"
    "s = two y @ two mo @ two d @ two h @ two mi @ r"
    unfolding upt_fields(3) by (simp add: fields_Cons_iff utctime_min_def utctime_max_def del: fields_list.simps(2)) blast
  then show thesis by (intro that) (auto simp: date_ok_def)
qed

lemma sec_field: "sec_field gentime_min gentime_max gentime_field 6" "sec_field utctime_min utctime_max utctime_field 5"
  by (simp_all add: sec_field_def gentime_tables utctime_tables fun_eq_iff)

definition read_parts :: "time_parts \<Rightarrow> tm option \<Rightarrow> tm option \<Rightarrow> bool" where
  "read_parts f tm tm' \<longleftrightarrow> delivers (map_option (\<lambda>_. parts_tm f) tm) (zone_offset (p_zone f)) tm'"

lemma with_sec_date: "with_sec (sec_value sc) (map_option (with_date y mo d h mi) tm) =
    map_option (\<lambda>_. \<lparr>tm_year = y, tm_mon = int mo - 1, tm_mday = int d, tm_hour = int h, tm_min = int mi, tm_sec = sec_value sc\<rparr>) tm"
  by (cases tm) (simp_all add: with_date_def)

lemma parts_tm_eq: "parts_tm \<lparr>p_year = y, p_mon = mo, p_day = d, p_hour = h, p_min = mi, p_sec = sc, p_zone = z\<rparr> =
    \<lparr>tm_year = int y - 1900, tm_mon = int mo - 1, tm_mday = int d, tm_hour = int h, tm_min = int mi, tm_sec = sec_value sc\<rparr>"
  by (simp add: parts_tm_def sec_value_def)

lemma clock_ok_eq: "clock_ok \<lparr>p_year = y, p_mon = mo, p_day = d, p_hour = h, p_min = mi, p_sec = sc, p_zone = z\<rparr> \<longleftrightarrow>
    date_ok mo d h mi \<and> sec_ok sc z \<and> zone_ok z"
  by (cases sc) (auto simp: clock_ok_def date_ok_def sec_ok_def)

lemma gentime_list_cases:
  "gentime_list s tm = Some (Some tm') \<longleftrightarrow> (\<exists>s1 tm1. fields_list gentime_min gentime_max gentime_field 6 [0..<6] s tm = Some (s1, tm1) \<and>
    (\<exists>r tm2 r'. fields_list gentime_min gentime_max gentime_field 6 [6] s1 tm1 = Some (r, tm2) \<and> frac_list r = Some r' \<and> zone_list r' tm2 = Some (Some tm')))"
  unfolding gentime_list_def upt_fields(2) by (subst fields_append) (simp, auto split: option.splits prod.splits simp del: fields_list.simps)

lemma utctime_list_cases:
  "utctime_list s tm = Some (Some tm') \<longleftrightarrow> (\<exists>s1 tm1. fields_list utctime_min utctime_max utctime_field 5 [0..<5] s tm = Some (s1, tm1) \<and>
    (\<exists>r tm2. fields_list utctime_min utctime_max utctime_field 5 [5] s1 tm1 = Some (r, tm2) \<and> zone_list r tm2 = Some (Some tm')))"
  unfolding utctime_list_def upt_fields(4) by (subst fields_append) (simp, auto split: option.splits prod.splits simp del: fields_list.simps)

lemma gentime_list_iff:
  "gentime_list s tm = Some (Some tm') \<longleftrightarrow> (\<exists>f. gentime_ok f \<and> s = gentime_text f \<and> read_parts f tm tm')" (is "?L \<longleftrightarrow> ?R")
proof
  assume ?L
  then obtain s1 tm1 where f: "fields_list gentime_min gentime_max gentime_field 6 [0..<6] s tm = Some (s1, tm1)"
    and t: "\<exists>sc z. sec_ok sc z \<and> zone_ok z \<and> s1 = sec_text sc @ zone_text z \<and> delivers (with_sec (sec_value sc) tm1) (zone_offset z) tm'"
    unfolding gentime_list_cases tail_frac_iff [OF sec_field(1)] by blast
  obtain c y mo d h mi where s: "c < 100" "y < 100" "date_ok mo d h mi" "s = two c @ two y @ two mo @ two d @ two h @ two mi @ s1"
    by (rule gentime_date_elim [OF f])
  have tm1: "tm1 = map_option (with_date (int c * 100 + int y - 1900) mo d h mi) tm" using f gentime_date_intro [OF s(1-3)] s(4) by simp
  from t obtain sc z where sz: "sec_ok sc z" "zone_ok z" "s1 = sec_text sc @ zone_text z" "delivers (with_sec (sec_value sc) tm1) (zone_offset z) tm'" by blast
  let ?f = "\<lparr>p_year = c * 100 + y, p_mon = mo, p_day = d, p_hour = h, p_min = mi, p_sec = sc, p_zone = z\<rparr>"
  have "gentime_ok ?f \<and> s = gentime_text ?f \<and> read_parts ?f tm tm'"
    using s sz tm1 by (simp add: gentime_ok_def clock_ok_eq gentime_text_def clock_text_def read_parts_def with_sec_date parts_tm_eq)
  then show ?R by blast
next
  assume ?R
  then obtain f where f: "gentime_ok f" "s = gentime_text f" "read_parts f tm tm'" by blast
  obtain y mo d h mi sc z where e: "f = \<lparr>p_year = y, p_mon = mo, p_day = d, p_hour = h, p_min = mi, p_sec = sc, p_zone = z\<rparr>" by (cases f) auto
  have ok: "date_ok mo d h mi" "sec_ok sc z" "zone_ok z" "y div 100 < 100" "y mod 100 < 100" using f(1) by (auto simp: e gentime_ok_def clock_ok_eq)
  have yr: "int (y div 100) * 100 + int (y mod 100) = int y" by (metis div_mult_mod_eq of_nat_add of_nat_mult of_nat_numeral)
  have "delivers (with_sec (sec_value sc) (map_option (with_date (int y - 1900) mo d h mi) tm)) (zone_offset z) tm'"
    using f(3) by (simp add: e read_parts_def with_sec_date parts_tm_eq)
  with ok(2,3) show ?L
    unfolding gentime_list_cases tail_frac_iff [OF sec_field(1)] f(2) e gentime_text_def clock_text_def
    using gentime_date_intro [OF ok(4,5,1), of "sec_text sc @ zone_text z" tm] yr by auto
qed

lemma utctime_list_iff:
  "utctime_list s tm = Some (Some tm') \<longleftrightarrow> (\<exists>f. utctime_ok f \<and> s = utctime_text f \<and> read_parts f tm tm')" (is "?L \<longleftrightarrow> ?R")
proof
  assume ?L
  then obtain s1 tm1 where f: "fields_list utctime_min utctime_max utctime_field 5 [0..<5] s tm = Some (s1, tm1)"
    and t: "\<exists>sc z. sec_ok sc z \<and> (case sc of None \<Rightarrow> True | Some (n, frac) \<Rightarrow> frac = []) \<and> zone_ok z \<and> s1 = sec_text sc @ zone_text z \<and>
      delivers (with_sec (sec_value sc) tm1) (zone_offset z) tm'"
    unfolding utctime_list_cases tail_plain_iff [OF sec_field(2)] by blast
  obtain y mo d h mi where s: "y < 100" "date_ok mo d h mi" "s = two y @ two mo @ two d @ two h @ two mi @ s1"
    by (rule utctime_date_elim [OF f])
  have tm1: "tm1 = map_option (with_date (if y < 50 then int y + 100 else int y) mo d h mi) tm" using f utctime_date_intro [OF s(1,2)] s(3) by simp
  from t obtain sc z where sz: "sec_ok sc z" "zone_ok z" "s1 = sec_text sc @ zone_text z" "delivers (with_sec (sec_value sc) tm1) (zone_offset z) tm'"
    "case sc of None \<Rightarrow> True | Some (n, frac) \<Rightarrow> frac = []" by blast
  define yr where "yr = (if y < 50 then 2000 + y else 1900 + y)"
  have yr: "1950 \<le> yr" "yr \<le> 2049" "yr mod 100 = y" "int yr - 1900 = (if y < 50 then int y + 100 else int y)"
    using s(1) by (auto simp: yr_def mod_nat_eqI)
  let ?f = "\<lparr>p_year = yr, p_mon = mo, p_day = d, p_hour = h, p_min = mi, p_sec = sc, p_zone = z\<rparr>"
  have "utctime_ok ?f \<and> s = utctime_text ?f \<and> read_parts ?f tm tm'"
    using s sz tm1 yr by (simp add: utctime_ok_def clock_ok_eq utctime_text_def clock_text_def read_parts_def with_sec_date parts_tm_eq)
  then show ?R by blast
next
  assume ?R
  then obtain f where f: "utctime_ok f" "s = utctime_text f" "read_parts f tm tm'" by blast
  obtain y mo d h mi sc z where e: "f = \<lparr>p_year = y, p_mon = mo, p_day = d, p_hour = h, p_min = mi, p_sec = sc, p_zone = z\<rparr>" by (cases f) auto
  have ok: "date_ok mo d h mi" "sec_ok sc z" "zone_ok z" "y mod 100 < 100" "1950 \<le> y" "y \<le> 2049" "case sc of None \<Rightarrow> True | Some (n, frac) \<Rightarrow> frac = []"
    using f(1) by (auto simp: e utctime_ok_def clock_ok_eq)
  have yr: "(if y mod 100 < 50 then int (y mod 100) + 100 else int (y mod 100)) = int y - 1900"
  proof (cases "y < 2000")
    case True
    then have "y mod 100 = y - 1900" using ok(5) by (intro mod_nat_eqI) (auto intro: dvdI [of _ _ 19])
    with True ok(5) show ?thesis by simp
  next
    case False
    then have "y mod 100 = y - 2000" using ok(6) by (intro mod_nat_eqI) (auto intro: dvdI [of _ _ 20])
    with False ok(6) show ?thesis by simp
  qed
  have "delivers (with_sec (sec_value sc) (map_option (with_date (int y - 1900) mo d h mi) tm)) (zone_offset z) tm'"
    using f(3) by (simp add: e read_parts_def with_sec_date parts_tm_eq)
  with ok(2,3,7) show ?L
    unfolding utctime_list_cases tail_plain_iff [OF sec_field(2)] f(2) e utctime_text_def clock_text_def
    using utctime_date_intro [OF ok(4,1), of "sec_text sc @ zone_text z" tm, unfolded yr] by auto
qed

section \<open>Strings\<close>

lemma holds_contents:
  assumes "str_ok d" and "terminated d"
  shows "holds (block_of d) (s_length d) (contents_of d)"
  using assms by (auto simp: holds_def block_of_def contents_of_def str_ok_def terminated_def split: option.splits)

text \<open>The text of a string of either kind, and the parts it stands for.\<close>

definition denotes :: "int \<Rightarrow> byte list \<Rightarrow> time_parts \<Rightarrow> bool" where
  "denotes ty s f \<longleftrightarrow> (ty = V_ASN1_UTCTIME \<and> utctime_ok f \<and> s = utctime_text f) \<or> (ty = V_ASN1_GENERALIZEDTIME \<and> gentime_ok f \<and> s = gentime_text f)"

lemma parts_ranges: "clock_ok f \<Longrightarrow> p_year f \<le> 9999 \<Longrightarrow> tm_ranges (parts_tm f)"
  by (auto simp: clock_ok_def tm_ranges_def parts_tm_def split: option.splits)

lemma zone_offset_bound: "zone_ok z \<Longrightarrow> \<bar>zone_offset z\<bar> < 2 ^ 31"
  by (cases z) auto

lemma moved_defined: "tm_ranges t \<Longrightarrow> zone_ok z \<Longrightarrow> moved t (zone_offset z) \<noteq> None"
  using gmtime_adj_defined [of t 0 "zone_offset z"] zone_offset_bound [of z] by (auto simp: moved_def)

lemma fields_map_None: "fields_list mn mx field sec ks s tm = Some (r, tm') \<Longrightarrow> fields_list mn mx field sec ks s None = Some (r, None)"
proof (induction ks arbitrary: s tm)
  case (Cons k ks)
  show ?case
  proof (cases "k = sec \<and> s \<noteq> [] \<and> is_zone (hd s)")
    case True
    with Cons.prems show ?thesis by auto
  next
    case False
    with Cons show ?thesis by (auto split: prod.splits option.splits if_splits)
  qed
qed simp

lemma zone_list_None: "zone_list s None \<noteq> None"
  by (auto simp: zone_list_def split: list.splits option.splits)

lemma zone_list_undefined:
  assumes "zone_list s (Some t) = None" and "tm_ranges t"
  shows False
proof -
  obtain c r where s: "s = c # r" "c = 43 \<or> c = 45" "c \<noteq> 90" using assms(1) by (cases s) (auto simp: zone_list_def split: if_splits)
  obtain r' off where o: "offset_list r = Some (r', off)" "moved t (if c = 45 then off else - off) = None"
    using assms(1) s by (auto simp: zone_list_def chain_def split: option.splits)
  have "\<bar>off\<bar> < 2 ^ 31" using o(1) by (auto simp: offset_list_def split: prod.splits option.splits if_splits)
  then have "moved t (if c = 45 then off else - off) \<noteq> None"
    using gmtime_adj_defined [OF assms(2), of 0] by (auto simp: moved_def)
  with o(2) show False by blast
qed

lemma gentime_list_defined: "gentime_list s (Some t) \<noteq> None"
proof
  assume none: "gentime_list s (Some t) = None"
  then obtain r tm r' where f: "fields_list gentime_min gentime_max gentime_field 6 [0..<7] s (Some t) = Some (r, tm)" and z: "zone_list r' tm = None"
    by (auto simp: gentime_list_def split: option.splits)
  obtain s1 tm1 where f1: "fields_list gentime_min gentime_max gentime_field 6 [0..<6] s (Some t) = Some (s1, tm1)"
    and f2: "fields_list gentime_min gentime_max gentime_field 6 [6] s1 tm1 = Some (r, tm)"
    using f fields_append [of 6 "[0..<6]" gentime_min gentime_max gentime_field "[6]" s "Some t"] unfolding upt_fields(2) by (auto split: option.splits)
  obtain c y mo d h mi where d: "c < 100" "y < 100" "date_ok mo d h mi" "s = two c @ two y @ two mo @ two d @ two h @ two mi @ s1"
    by (rule gentime_date_elim [OF f1])
  have "tm1 = Some (with_date (int c * 100 + int y - 1900) mo d h mi t)" using f1 gentime_date_intro [OF d(1-3)] d(4) by simp
  with f2 obtain n where n: "tm = Some ((with_date (int c * 100 + int y - 1900) mo d h mi t)\<lparr>tm_sec := n\<rparr>)" "0 \<le> n" "n \<le> 59"
    unfolding fields_last_iff using sec_field(1) by (auto simp: sec_field_def)
  then have "tm_ranges (the tm)" using d(1-3) by (auto simp: tm_ranges_def with_date_def date_ok_def)
  with z n(1) show False using zone_list_undefined by auto
qed

lemma utctime_list_defined: "utctime_list s (Some t) \<noteq> None"
proof
  assume none: "utctime_list s (Some t) = None"
  then obtain r tm where f: "fields_list utctime_min utctime_max utctime_field 5 [0..<6] s (Some t) = Some (r, tm)" and z: "zone_list r tm = None"
    by (auto simp: utctime_list_def split: option.splits)
  obtain s1 tm1 where f1: "fields_list utctime_min utctime_max utctime_field 5 [0..<5] s (Some t) = Some (s1, tm1)"
    and f2: "fields_list utctime_min utctime_max utctime_field 5 [5] s1 tm1 = Some (r, tm)"
    using f fields_append [of 5 "[0..<5]" utctime_min utctime_max utctime_field "[5]" s "Some t"] unfolding upt_fields(4) by (auto split: option.splits)
  obtain y mo d h mi where d: "y < 100" "date_ok mo d h mi" "s = two y @ two mo @ two d @ two h @ two mi @ s1"
    by (rule utctime_date_elim [OF f1])
  have "tm1 = Some (with_date (if y < 50 then int y + 100 else int y) mo d h mi t)" using f1 utctime_date_intro [OF d(1,2)] d(3) by simp
  with f2 obtain n where n: "tm = Some ((with_date (if y < 50 then int y + 100 else int y) mo d h mi t)\<lparr>tm_sec := n\<rparr>)" "0 \<le> n" "n \<le> 59"
    unfolding fields_last_iff using sec_field(2) by (auto simp: sec_field_def)
  then have "tm_ranges (the tm)" using d(1,2) by (auto simp: tm_ranges_def with_date_def date_ok_def)
  with z n(1) show False using zone_list_undefined by auto
qed

lemma read_parts_Some: "read_parts f (Some t0) tm' \<longleftrightarrow> (\<exists>t. tm' = Some t \<and> moved (parts_tm f) (zone_offset (p_zone f)) = Some (Some t))"
  by (simp add: read_parts_def delivers_def)

lemma type_codes [simp]: "V_ASN1_UTCTIME \<noteq> V_ASN1_GENERALIZEDTIME" "V_ASN1_GENERALIZEDTIME \<noteq> V_ASN1_UTCTIME"
  by (simp_all add: V_ASN1_UTCTIME_def V_ASN1_GENERALIZEDTIME_def)

lemma result_the:
  assumes "\<And>tm'. r = Some tm' \<longleftrightarrow> (\<exists>f. P f \<and> (\<exists>t. tm' = Some t \<and> Q f t))"
  shows "map_option the r = Some t \<longleftrightarrow> (\<exists>f. P f \<and> Q f t)"
proof (cases r)
  case None
  with assms [of "Some t"] show ?thesis by auto
next
  case (Some a)
  with assms [of a] obtain t' where "a = Some t'" by auto
  with Some assms [of "Some t"] show ?thesis by auto
qed

lemma time_to_tm_spec:
  assumes ok: "str_ok d" "terminated d"
  shows "\<exists>r. asn1_time_to_tm gmtime now t0 (Some d) = Some r \<and>
    (\<forall>t. r = Some t \<longleftrightarrow> (\<exists>f. denotes (s_type d) (contents_of d) f \<and> moved (parts_tm f) (zone_offset (p_zone f)) = Some (Some t)))"
proof -
  note h = holds_contents [OF ok]
  consider "s_type d = V_ASN1_UTCTIME" | "s_type d = V_ASN1_GENERALIZEDTIME" | "s_type d \<noteq> V_ASN1_UTCTIME" "s_type d \<noteq> V_ASN1_GENERALIZEDTIME" by blast
  then show ?thesis
  proof cases
    case 1
    obtain r where r: "utctime_list (contents_of d) (Some t0) = Some r" using utctime_list_defined by blast
    have "map_option the r = Some t \<longleftrightarrow> (\<exists>f. (utctime_ok f \<and> contents_of d = utctime_text f) \<and> moved (parts_tm f) (zone_offset (p_zone f)) = Some (Some t))" for t
      by (rule result_the) (use utctime_list_iff [of "contents_of d" "Some t0"] r in \<open>simp add: read_parts_Some\<close>)
    with 1 r utctime_to_tm_list [OF h 1] show ?thesis
      by (intro exI [of _ "map_option the r"]) (simp add: asn1_time_to_tm_def denotes_def)
  next
    case 2
    obtain r where r: "gentime_list (contents_of d) (Some t0) = Some r" using gentime_list_defined by blast
    have "map_option the r = Some t \<longleftrightarrow> (\<exists>f. (gentime_ok f \<and> contents_of d = gentime_text f) \<and> moved (parts_tm f) (zone_offset (p_zone f)) = Some (Some t))" for t
      by (rule result_the) (use gentime_list_iff [of "contents_of d" "Some t0"] r in \<open>simp add: read_parts_Some\<close>)
    with 2 r gentime_to_tm_list [OF h 2] show ?thesis
      by (intro exI [of _ "map_option the r"]) (simp add: asn1_time_to_tm_def denotes_def)
  next
    case 3
    then show ?thesis by (simp add: asn1_time_to_tm_def denotes_def)
  qed
qed

end
