(* ===== verification/ASN1_Time_Write.thy ===== *)
theory ASN1_Time_Write
  imports ASN1_Time_Props
begin

text \<open>
  What the writers of times produce: the text of the time in universal time, in a block with a terminator. With the grammar of
  \<open>ASN1_Time_Props\<close> this gives the round trip, the conversion of UTC times to generalized times, and the
  distance of two written times.
\<close>

section \<open>The texts that are written\<close>

definition parts_of :: "tm \<Rightarrow> time_parts" where
  "parts_of ts = \<lparr>p_year = nat (tm_year ts + 1900), p_mon = nat (tm_mon ts + 1), p_day = nat (tm_mday ts), p_hour = nat (tm_hour ts),
     p_min = nat (tm_min ts), p_sec = Some (nat (tm_sec ts), []), p_zone = Z_utc\<rparr>"

lemma parts_tm_of: "tm_ranges ts \<Longrightarrow> parts_tm (parts_of ts) = ts"
  by (simp add: parts_tm_def parts_of_def tm_ranges_def)

lemma clock_ok_of: "tm_ranges ts \<Longrightarrow> clock_ok (parts_of ts)"
  by (auto simp: clock_ok_def parts_of_def tm_ranges_def)

lemma fmt_field: "0 \<le> n \<Longrightarrow> n < 100 \<Longrightarrow> fmt_0d 2 n = two (nat n)"
  using fmt_02d [of "nat n"] by simp

lemma clock_text_of:
  assumes "tm_ranges ts"
  shows "fmt_0d 2 (tm_mon ts + 1) @ fmt_0d 2 (tm_mday ts) @ fmt_0d 2 (tm_hour ts) @ fmt_0d 2 (tm_min ts) @ fmt_0d 2 (tm_sec ts) @ [90] =
    clock_text (parts_of ts)"
  using assms by (simp add: tm_ranges_def clock_text_def parts_of_def fmt_field)

lemma gentime_format_text:
  assumes "tm_ranges ts"
  shows "gentime_format ts = gentime_text (parts_of ts)"
proof -
  have "fmt_0d 4 (tm_year ts + 1900) = two (nat (tm_year ts + 1900) div 100) @ two (nat (tm_year ts + 1900) mod 100)"
  proof -
    have "nat (tm_year ts + 1900) < 10000" "0 \<le> tm_year ts + 1900" using assms by (auto simp: tm_ranges_def)
    with fmt_04d [of "nat (tm_year ts + 1900)"] show ?thesis by simp
  qed
  then show ?thesis using clock_text_of [OF assms] by (simp add: gentime_format_def gentime_text_def parts_of_def)
qed

lemma utctime_format_text:
  assumes "tm_ranges ts" and "50 \<le> tm_year ts" and "tm_year ts < 150"
  shows "utctime_format ts = utctime_text (parts_of ts)"
proof -
  have m: "tm_year ts smod 100 = tm_year ts mod 100" using assms(2) by (simp add: smod_nonneg)
  have "(tm_year ts + 1900) mod 100 = tm_year ts mod 100" using mod_mult_self1 [of "tm_year ts" 19 100] by simp
  then have "nat (tm_year ts + 1900) mod 100 = nat (tm_year ts mod 100)" using assms(2) nat_mod_distrib [of "tm_year ts + 1900" 100] by simp
  moreover have "fmt_0d 2 (tm_year ts mod 100) = two (nat (tm_year ts mod 100))" by (rule fmt_field) simp_all
  ultimately show ?thesis using clock_text_of [OF assms(1)] m by (simp add: utctime_format_def utctime_text_def parts_of_def)
qed

lemma two_no_zero: "n < 100 \<Longrightarrow> 0 \<notin> set (two n)"
proof -
  assume "n < 100"
  then have "n div 10 < 10" "n mod 10 < 10" by simp_all
  then have "digit (n div 10) \<noteq> 0" "digit (n mod 10) \<noteq> 0" using is_digit_digit is_digit_nonzero by blast+
  then show ?thesis by (simp add: two_def)
qed

lemma clock_text_props:
  assumes "tm_ranges ts"
  shows "0 \<notin> set (clock_text (parts_of ts))" "length (clock_text (parts_of ts)) = 11"
  using assms two_no_zero by (auto simp: clock_text_def parts_of_def tm_ranges_def)

lemma c_strlen_block: "0 \<notin> set s \<Longrightarrow> c_strlen (s @ 0 # r) = length s"
  by (auto simp: c_strlen_def takeWhile_append)

lemma c_snprintf_fits: "length txt < 20 \<Longrightarrow> 20 \<le> length p \<Longrightarrow> c_snprintf p 20 txt = txt @ 0 # drop (Suc (length txt)) p"
  by (simp add: c_snprintf_def OPENSSL_memcpy_def)

lemma time_store_text:
  assumes ok: "str_ok s" and tx: "length txt < 20" "0 \<notin> set txt" and mem: "OPENSSL_malloc mem 20 \<noteq> None"
  shows "\<exists>r. time_store mem s txt ty = Some r \<and> str_ok r \<and> terminated r \<and> contents_of r = txt \<and> s_type r = ty"
proof -
  have "time_block mem s \<noteq> None" using mem by (auto simp: time_block_def)
  then obtain p where p: "time_block mem s = Some p" by blast
  have l: "20 \<le> length p" "length p < SIZE_MOD"
    using p ok by (auto simp: time_block_def str_ok_def split: if_splits option.splits dest!: length_OPENSSL_malloc)
  have c: "c_snprintf p 20 txt = txt @ 0 # drop (Suc (length txt)) p" by (rule c_snprintf_fits) (use tx l in simp_all)
  have len: "int32 (int (c_strlen (txt @ 0 # drop (Suc (length txt)) p))) = int (length txt)"
    unfolding c_strlen_block [OF tx(2)] by (rule int32_id) (use tx in \<open>simp add: in_int_def\<close>)
  from l tx show ?thesis
    by (auto simp: time_store_def p c len Let_def str_ok_def terminated_def contents_of_def)
qed

section \<open>Writing and reading back\<close>

lemma new_or_given:
  assumes "\<And>x. s = Some x \<Longrightarrow> str_ok x" and "OPENSSL_malloc mem sizeof_ASN1_STRING \<noteq> None"
  obtains x where "(case s of None \<Rightarrow> ASN1_STRING_type_new mem ty | Some s \<Rightarrow> Some s) = Some x" "str_ok x"
proof (cases s)
  case None
  obtain x where "ASN1_STRING_type_new mem ty = Some x" using assms(2) by (auto simp: ASN1_STRING_type_new_def)
  with None type_new_ok that show thesis by fastforce
qed (use assms that in auto)

lemma time_adj_writes:
  assumes s: "\<And>x. s = Some x \<Longrightarrow> str_ok x" and mem: "OPENSSL_malloc mem sizeof_ASN1_STRING \<noteq> None" "OPENSSL_malloc mem 20 \<noteq> None"
    and ts: "adjusted_tm gmtime t offset_day offset_sec = Some (Some ts)" "tm_ranges ts"
  shows "\<exists>r. ASN1_TIME_adj mem gmtime s t offset_day offset_sec = Some (Some r) \<and> str_ok r \<and> terminated r \<and> denotes (s_type r) (contents_of r) (parts_of ts)"
proof -
  note tx = clock_text_props [OF ts(2)] and yr = ts(2) [unfolded tm_ranges_def]
  let ?y = "nat (tm_year ts + 1900)"
  have two: "0 \<notin> set (two (?y div 100))" "0 \<notin> set (two (?y mod 100))" using yr by (auto intro!: two_no_zero)
  show ?thesis
  proof (cases "50 \<le> tm_year ts \<and> tm_year ts < 150")
    case True
    obtain x where x: "(case s of None \<Rightarrow> ASN1_STRING_type_new mem V_ASN1_UTCTIME | Some s \<Rightarrow> Some s) = Some x" "str_ok x"
      by (rule new_or_given [OF s mem(1)])
    have f: "utctime_format ts = utctime_text (parts_of ts)" using True by (intro utctime_format_text ts(2)) simp_all
    have "length (utctime_text (parts_of ts)) < 20" "0 \<notin> set (utctime_text (parts_of ts))"
      using tx two by (auto simp: utctime_text_def parts_of_def [of ts])
    with x(2) mem(2) obtain r where "time_store mem x (utctime_text (parts_of ts)) V_ASN1_UTCTIME = Some r" "str_ok r" "terminated r"
      "contents_of r = utctime_text (parts_of ts)" "s_type r = V_ASN1_UTCTIME" using time_store_text by blast
    moreover have "utctime_ok (parts_of ts)" using True clock_ok_of [OF ts(2)] by (auto simp: utctime_ok_def parts_of_def)
    ultimately show ?thesis using True x ts(1) f by (simp add: ASN1_TIME_adj_def ASN1_UTCTIME_adj_def denotes_def)
  next
    case False
    obtain x where x: "(case s of None \<Rightarrow> ASN1_STRING_type_new mem V_ASN1_GENERALIZEDTIME | Some s \<Rightarrow> Some s) = Some x" "str_ok x"
      by (rule new_or_given [OF s mem(1)])
    have "length (gentime_text (parts_of ts)) < 20" "0 \<notin> set (gentime_text (parts_of ts))"
      using tx two by (auto simp: gentime_text_def parts_of_def [of ts])
    with x(2) mem(2) obtain r where "time_store mem x (gentime_text (parts_of ts)) V_ASN1_GENERALIZEDTIME = Some r" "str_ok r" "terminated r"
      "contents_of r = gentime_text (parts_of ts)" "s_type r = V_ASN1_GENERALIZEDTIME" using time_store_text by blast
    moreover have "gentime_ok (parts_of ts)" using yr clock_ok_of [OF ts(2)] by (auto simp: gentime_ok_def parts_of_def)
    ultimately show ?thesis using False x ts yr gentime_format_text [OF ts(2)] by (auto simp: ASN1_TIME_adj_def ASN1_GENERALIZEDTIME_adj_def denotes_def)
  qed
qed

lemma read_back:
  assumes "str_ok r" "terminated r" "denotes (s_type r) (contents_of r) (parts_of ts)" "tm_ranges ts"
  shows "asn1_time_to_tm gmtime now t0 (Some r) = Some (Some ts)"
proof -
  have "moved (parts_tm (parts_of ts)) (zone_offset (p_zone (parts_of ts))) = Some (Some ts)"
    using parts_tm_of [OF assms(4)] by (simp add: moved_def parts_of_def)
  with time_to_tm_spec [OF assms(1,2)] assms(3) show ?thesis by metis
qed

text \<open>The time that \<open>adjusted_tm\<close> gives.\<close>

lemma adjusted_spec:
  assumes "gmtime t = Some t1" "valid_tm t1" "0 \<le> tm_year t1" "\<bar>offset_day\<bar> \<le> 2 ^ 30" "\<bar>offset_sec\<bar> < 2 ^ 31"
  shows "\<exists>r. adjusted_tm gmtime t offset_day offset_sec = Some r \<and>
    (\<forall>ts. r = Some ts \<longleftrightarrow> valid_tm ts \<and> 0 \<le> tm_year ts \<and> tm_secs ts = tm_secs t1 + 86400 * offset_day + offset_sec)"
proof (cases "offset_day \<noteq> 0 \<or> offset_sec \<noteq> 0")
  case True
  with gmtime_adj_spec [OF assms(2,4,5)] assms(1) show ?thesis by (auto simp: adjusted_tm_def)
next
  case False
  have "ts = t1" if "valid_tm ts" "tm_secs ts = tm_secs t1" for ts
  proof -
    from that(2) have "86400 * tm_jdn ts + day_secs ts = 86400 * tm_jdn t1 + day_secs t1"
      using tm_secs_jdn [OF that(1)] tm_secs_jdn [OF assms(2)] by simp
    with day_secs_bounds [OF that(1)] day_secs_bounds [OF assms(2)] have "tm_jdn ts = tm_jdn t1" "day_secs ts = day_secs t1"
      using scale_unique by blast+
    with tm_at_unique [OF that(1)] tm_at_unique [OF assms(2)] show ?thesis by metis
  qed
  with False assms(1-3) show ?thesis by (auto simp: adjusted_tm_def)
qed

section \<open>UTC times as generalized times\<close>

text \<open>Copying a text without a zero byte into a block that has room for it and for a terminator.\<close>

declare strlcpy_loop.simps [simp del]

lemma strlcpy_loop_text:
  "0 \<notin> set s \<Longrightarrow> length s < n \<Longrightarrow> src = s \<or> (\<exists>j. src = s @ 0 # j) \<Longrightarrow>
    \<exists>src'. strlcpy_loop done src n = (done @ s, src', n - length s, length done + length s) \<and> OPENSSL_strnlen src' (length src') = 0"
proof (induction s arbitrary: "done" src n)
  case Nil
  then show ?case by (subst strlcpy_loop.simps) auto
next
  case (Cons c s)
  then obtain src' where src: "src = c # src'" "src' = s \<or> (\<exists>j. src' = s @ 0 # j)" by auto
  have n: "length s < n - 1" "0 \<notin> set s" using Cons.prems(1,2) by auto
  obtain src'' where "strlcpy_loop (done @ [c]) src' (n - 1) = ((done @ [c]) @ s, src'', n - 1 - length s, length (done @ [c]) + length s)"
    "OPENSSL_strnlen src'' (length src'') = 0" using Cons.IH [OF n(2,1) src(2)] by blast
  with Cons.prems(1,2) src(1) show ?case by (subst strlcpy_loop.simps) simp
qed

lemma strlcpy_text:
  assumes "0 \<notin> set s" "length s < n" "src = s \<or> (\<exists>j. src = s @ 0 # j)" "length s < length dst"
  shows "fst (OPENSSL_strlcpy dst src n) = s @ 0 # drop (Suc (length s)) dst"
proof -
  obtain src' where "strlcpy_loop [] src n = (s, src', n - length s, length s)" using strlcpy_loop_text [OF assms(1-3), of "[]"] by auto
  moreover have "(s @ drop (length s) dst)[length s := 0] = s @ 0 # drop (Suc (length s)) dst"
    using assms(4) by (simp add: list_update_append Cons_nth_drop_Suc [symmetric])
  ultimately show ?thesis using assms(2) by (simp add: OPENSSL_strlcpy_def Let_def)
qed

lemma strlcat_scan_text: "0 \<notin> set s \<Longrightarrow> length s < n \<Longrightarrow> strlcat_scan (s @ 0 # r) n = length s"
  by (induction s arbitrary: n) auto

lemma strlcat_text:
  assumes "0 \<notin> set s" "0 \<notin> set s2" "length s + length s2 < n" "length s + length s2 < length (s @ 0 # r)"
  shows "fst (OPENSSL_strlcat (s @ 0 # r) (s2 @ 0 # j) n) = s @ s2 @ 0 # drop (Suc (length s2)) (0 # r)"
proof -
  have l: "strlcat_scan (s @ 0 # r) n = length s" using assms by (intro strlcat_scan_text) simp_all
  have "fst (OPENSSL_strlcpy (0 # r) (s2 @ 0 # j) (n - length s)) = s2 @ 0 # drop (Suc (length s2)) (0 # r)"
    by (rule strlcpy_text) (use assms in auto)
  then show ?thesis by (auto simp: OPENSSL_strlcat_def l Let_def split: prod.splits)
qed

lemma zone_no_zero: "zone_ok z \<Longrightarrow> 0 \<notin> set (zone_text z)"
  using two_no_zero by (cases z) auto

lemma clock_text_no_zero:
  assumes "clock_ok f"
  shows "0 \<notin> set (clock_text f)"
proof -
  have d: "0 \<notin> set ds" if "list_all is_digit ds" for ds using that not_digit_0(1) by (auto simp: list_all_iff)
  have "0 \<notin> set (sec_text (p_sec f))"
    using assms two_no_zero d by (cases "p_sec f") (auto simp: clock_ok_def split: if_splits)
  with assms two_no_zero zone_no_zero show ?thesis by (auto simp: clock_ok_def clock_text_def)
qed

lemma century:
  assumes "utctime_ok f"
  shows "(if hd (utctime_text f) \<ge> 53 then [49, 57] else [50, 48]) @ utctime_text f = gentime_text f"
proof -
  let ?y = "p_year f"
  have y: "1950 \<le> ?y" "?y \<le> 2049" using assms by (simp_all add: utctime_ok_def)
  have "hd (utctime_text f) = digit (?y mod 100 div 10)" by (simp add: utctime_text_def two_def)
  moreover have "unat (digit (?y mod 100 div 10)) = 48 + ?y mod 100 div 10" by (rule unat_digit) simp
  ultimately have h: "hd (utctime_text f) \<ge> 53 \<longleftrightarrow> 5 \<le> ?y mod 100 div 10" by (simp add: word_le_nat_alt)
  have t: "two 19 = [49, 57]" "two 20 = [50, 48]" by (simp_all add: two_def digit_def)
  show ?thesis
  proof (cases "?y < 2000")
    case True
    then have "?y div 100 = 19" "?y mod 100 = ?y - 1900" using y by (auto intro!: div_nat_eqI mod_nat_eqI dvdI [of _ _ 19])
    moreover from this y have "5 \<le> ?y mod 100 div 10" by simp
    ultimately show ?thesis using h t by (simp add: gentime_text_def utctime_text_def)
  next
    case False
    then have "?y div 100 = 20" "?y mod 100 = ?y - 2000" using y by (auto intro!: div_nat_eqI mod_nat_eqI dvdI [of _ _ 20])
    moreover from this y False have "\<not> 5 \<le> ?y mod 100 div 10" by simp
    ultimately show ?thesis using h t by (simp add: gentime_text_def utctime_text_def)
  qed
qed

lemma fields_None: "fields_list mn mx field sec ks s None = Some (r, tm) \<Longrightarrow> tm = None"
  using fields_map_None by fastforce

lemma gentime_list_None: "gentime_list s None \<noteq> None"
proof (cases "fields_list gentime_min gentime_max gentime_field 6 [0..<7] s None")
  case (Some x)
  then obtain r where "fields_list gentime_min gentime_max gentime_field 6 [0..<7] s None = Some (r, None)" using fields_None by (cases x) blast
  then show ?thesis using zone_list_None by (auto simp: gentime_list_def split: option.splits)
qed (simp add: gentime_list_def)

lemma utctime_list_None: "utctime_list s None \<noteq> None"
proof (cases "fields_list utctime_min utctime_max utctime_field 5 [0..<6] s None")
  case (Some x)
  then obtain r where "fields_list utctime_min utctime_max utctime_field 5 [0..<6] s None = Some (r, None)" using fields_None by (cases x) blast
  then show ?thesis using zone_list_None by (auto simp: utctime_list_def)
qed (simp add: utctime_list_def)

lemma time_check_spec:
  assumes "str_ok d" "terminated d"
  shows "ASN1_TIME_check d = Some (\<exists>f. denotes (s_type d) (contents_of d) f)"
proof -
  note h = holds_contents [OF assms]
  have g: "\<exists>r. gentime_list s None = Some r \<and> (r \<noteq> None \<longleftrightarrow> (\<exists>f. gentime_ok f \<and> s = gentime_text f))" for s
  proof -
    obtain r where r: "gentime_list s None = Some r" using gentime_list_None by blast
    have "r \<noteq> None \<longleftrightarrow> (\<exists>tm'. gentime_list s None = Some (Some tm'))" using r by auto
    with r show ?thesis unfolding gentime_list_iff read_parts_def delivers_def by auto
  qed
  have u: "\<exists>r. utctime_list s None = Some r \<and> (r \<noteq> None \<longleftrightarrow> (\<exists>f. utctime_ok f \<and> s = utctime_text f))" for s
  proof -
    obtain r where r: "utctime_list s None = Some r" using utctime_list_None by blast
    have "r \<noteq> None \<longleftrightarrow> (\<exists>tm'. utctime_list s None = Some (Some tm'))" using r by auto
    with r show ?thesis unfolding utctime_list_iff read_parts_def delivers_def by auto
  qed
  show ?thesis
    using g [of "contents_of d"] u [of "contents_of d"] gentime_to_tm_list [OF h] utctime_to_tm_list [OF h]
    by (auto simp: ASN1_TIME_check_def ASN1_GENERALIZEDTIME_check_def ASN1_UTCTIME_check_def denotes_def)
qed

lemma ASN1_STRING_set_space:
  assumes ok: "str_ok s" and len: "0 \<le> len" "len < 2 ^ 31 - 1" and set: "ASN1_STRING_set mem s None len = (True, s')"
  obtains b where "s' = s\<lparr>s_length := len, s_data := Some b\<rparr>" "nat len < length b" "length b < SIZE_MOD"
proof -
  obtain b where b: "(if s_length s \<le> len \<or> s_data s = None
             then (case s_data s of None \<Rightarrow> OPENSSL_malloc mem (nat (len + 1)) | Some c \<Rightarrow> OPENSSL_realloc mem (Some c) (nat (len + 1)))
             else s_data s) = Some b" "s' = s\<lparr>s_length := len, s_data := Some b\<rparr>"
    using set len by (fastforce simp: ASN1_STRING_set_def Let_def split: option.splits if_splits)
  with string_set_room [OF ok len b(1)] that show thesis by blast
qed

lemma utc_to_generalized:
  assumes t: "str_ok t" "terminated t" "s_type t = V_ASN1_UTCTIME" "utctime_ok f" "contents_of t = utctime_text f" "s_length t + 2 < 2 ^ 31 - 1"
    and out: "\<And>x. out = Some x \<Longrightarrow> str_ok x \<and> s_type x = V_ASN1_GENERALIZEDTIME"
    and r: "ASN1_TIME_to_generalizedtime mem t out = Some (Some r)"
  shows "str_ok r \<and> terminated r \<and> s_type r = V_ASN1_GENERALIZEDTIME \<and> contents_of r = gentime_text f"
proof -
  have chk: "ASN1_TIME_check t = Some True" unfolding time_check_spec [OF t(1,2)] using t(3-5) by (auto simp: denotes_def)
  obtain x where x: "(case out of None \<Rightarrow> ASN1_STRING_type_new mem V_ASN1_GENERALIZEDTIME | Some ret \<Rightarrow> Some ret) = Some x"
    using r chk by (auto simp: ASN1_TIME_to_generalizedtime_def split: option.splits)
  have xok: "str_ok x" "s_type x = V_ASN1_GENERALIZEDTIME" using x out type_new_ok by (cases out; fastforce)+
  let ?n = "s_length t + 2" and ?u = "utctime_text f"
  have n: "0 \<le> ?n" using t(1) by (simp add: str_ok_def)
  obtain x' where set: "ASN1_STRING_set mem x None ?n = (True, x')"
    and r': "r = x'\<lparr>s_data := Some (fst (OPENSSL_strlcat (fst (OPENSSL_strlcpy (block_of x') (if block_of t ! 0 \<ge> 53 then [49, 57] else [50, 48]) (nat (?n + 1)))) (block_of t) (nat (?n + 1))))\<rparr>"
    using r chk x t(3) by (auto simp: ASN1_TIME_to_generalizedtime_def Let_def split: prod.splits bool.splits)
  obtain b where b: "x' = x\<lparr>s_length := ?n, s_data := Some b\<rparr>" "nat ?n < length b" "length b < SIZE_MOD"
    by (rule ASN1_STRING_set_space [OF xok(1) n t(6) set])
  obtain j where j: "block_of t = ?u @ 0 # j" and lt: "s_length t = int (length ?u)"
  proof -
    have "holds (block_of t) (s_length t) ?u" using holds_contents [OF t(1,2)] t(5) by simp
    then have h: "s_length t = int (length ?u)" "length ?u < length (block_of t)" "take (length ?u) (block_of t) = ?u" "block_of t ! length ?u = 0"
      by (simp_all add: holds_def)
    have "block_of t = ?u @ 0 # drop (Suc (length ?u)) (block_of t)" using id_take_nth_drop [OF h(2)] h(3,4) by simp
    with h(1) that show thesis by blast
  qed
  define c :: "byte list" where "c = (if hd ?u \<ge> 53 then [49, 57] else [50, 48])"
  have u: "?u \<noteq> []" "0 \<notin> set ?u" using t(4) clock_text_no_zero two_no_zero by (auto simp: utctime_text_def utctime_ok_def)
  have h: "block_of t ! 0 = hd ?u" using j u(1) by (simp add: hd_conv_nth nth_append)
  have bl: "block_of x' = b" using b(1) by (simp add: block_of_def)
  have n': "nat (?n + 1) = length ?u + 3" "nat ?n = length ?u + 2" using lt by simp_all
  have c: "0 \<notin> set c" "length c = 2" by (simp_all add: c_def)
  have cpy: "fst (OPENSSL_strlcpy b c (length ?u + 3)) = c @ 0 # drop 3 b"
    using strlcpy_text [OF c(1), of "length ?u + 3" c b] b(2) n' c(2) by simp
  have cat: "fst (OPENSSL_strlcat (c @ 0 # drop 3 b) (?u @ 0 # j) (length ?u + 3)) = c @ ?u @ 0 # drop (Suc (length ?u)) (0 # drop 3 b)"
    by (rule strlcat_text [OF c(1) u(2)]) (use b(2) n' c(2) in simp_all)
  have r2: "r = x'\<lparr>s_data := Some (c @ ?u @ 0 # drop (Suc (length ?u)) (0 # drop 3 b))\<rparr>"
    using r' unfolding h n'(1) bl c_def [symmetric] cpy unfolding j cat .
  have d: "s_data r = Some (c @ ?u @ 0 # drop (Suc (length ?u)) (0 # drop 3 b))" "s_length r = int (length (c @ ?u))" "s_type r = V_ASN1_GENERALIZEDTIME"
    unfolding r2 using b(1) lt xok(2) c(2) by simp_all
  then have "str_ok r" "terminated r" "contents_of r = c @ ?u"
  proof -
    define w where "w = c @ ?u"
    let ?r = "drop (Suc (length ?u)) (0 # drop 3 b)"
    have l: "length (w @ 0 # ?r) < SIZE_MOD" "length w < 2 ^ 31 - 1" using b(2,3) n' lt t(6) c(2) by (auto simp: w_def)
    have e: "s_data r = Some (w @ 0 # ?r)" "s_length r = int (length w)" using d(1,2) by (simp_all only: w_def append_assoc)
    show "str_ok r" unfolding str_ok_def e using l by simp
    show "terminated r" unfolding terminated_def e by simp
    show "contents_of r = c @ ?u" unfolding contents_of_def e w_def [symmetric] by simp
  qed
  with d(3) century [OF t(4)] show ?thesis by (simp add: c_def)
qed

lemma to_generalized_spec:
  assumes t: "str_ok t" "terminated t" "denotes (s_type t) (contents_of t) f" "s_length t + 2 < 2 ^ 31 - 1"
    and out: "\<And>x. out = Some x \<Longrightarrow> str_ok x \<and> s_type x = V_ASN1_GENERALIZEDTIME"
    and mem: "\<And>n. grants mem n"
  shows "\<exists>r. ASN1_TIME_to_generalizedtime mem t out = Some (Some r) \<and> str_ok r \<and> terminated r \<and>
    denotes V_ASN1_GENERALIZEDTIME (contents_of r) f \<and> s_type r = V_ASN1_GENERALIZEDTIME"
proof -
  have chk: "ASN1_TIME_check t = Some True" unfolding time_check_spec [OF t(1,2)] using t(3) by auto
  have m: "OPENSSL_malloc mem sizeof_ASN1_STRING \<noteq> None"
    using OPENSSL_malloc_granted [of mem sizeof_ASN1_STRING] mem by (auto simp: sizeof_ASN1_STRING_def)
  obtain x where x: "(case out of None \<Rightarrow> ASN1_STRING_type_new mem V_ASN1_GENERALIZEDTIME | Some ret \<Rightarrow> Some ret) = Some x" "str_ok x"
    by (rule new_or_given [where s = out and ty = V_ASN1_GENERALIZEDTIME, OF _ m]) (use out in auto)
  have xt: "s_type x = V_ASN1_GENERALIZEDTIME" using x out type_new_ok by (cases out) fastforce+
  have len: "0 \<le> s_length t" using t(1) by (simp add: str_ok_def)
  show ?thesis
  proof (cases "s_type t = V_ASN1_GENERALIZEDTIME")
    case True
    obtain d where d: "s_data t = Some d" "nat (s_length t) \<le> length d" using t(1,2) by (auto simp: str_ok_def terminated_def split: option.splits)
    obtain r where r: "ASN1_STRING_set mem x (Some d) (s_length t) = (True, r)"
      using ASN1_STRING_set_granted [OF mem len] t(4) by (metis (no_types, lifting) fst_TrueE add_less_cancel_left le_less_trans less_trans add.commute
          zero_less_numeral less_add_same_cancel1)
    have "contents_of t = take (nat (s_length t)) d" using d(1) by (simp add: contents_of_def)
    with ASN1_STRING_set_True [OF x(2) len _ d(2) r] t(3,4) True xt
    have "str_ok r \<and> terminated r \<and> denotes V_ASN1_GENERALIZEDTIME (contents_of r) f \<and> s_type r = V_ASN1_GENERALIZEDTIME" by simp
    with chk x(1) True d(1) r show ?thesis by (simp add: ASN1_TIME_to_generalizedtime_def)
  next
    case False
    with t(3) have u: "s_type t = V_ASN1_UTCTIME" "utctime_ok f" "contents_of t = utctime_text f" by (auto simp: denotes_def)
    obtain r1 where "ASN1_STRING_set mem x None (s_length t + 2) = (True, r1)"
      using ASN1_STRING_set_granted [OF mem _ t(4)] len by (metis fst_TrueE add_nonneg_nonneg zero_le_numeral)
    with chk x(1) False obtain r where r: "ASN1_TIME_to_generalizedtime mem t out = Some (Some r)"
      by (auto simp: ASN1_TIME_to_generalizedtime_def Let_def)
    have "gentime_ok f" using u(2) by (simp add: utctime_ok_def gentime_ok_def)
    with utc_to_generalized [OF t(1,2) u t(4) out r] r show ?thesis by (auto simp: denotes_def)
  qed
qed

lemma denotes_unique:
  assumes d: "str_ok d" "terminated d" "asn1_time_to_tm gmtime now t0 (Some d) = Some (Some tm)"
  obtains f where "denotes (s_type d) (contents_of d) f" "moved (parts_tm f) (zone_offset (p_zone f)) = Some (Some tm)"
  using time_to_tm_spec [OF d(1,2), of gmtime now t0] d(3) by auto

section \<open>Properties\<close>

text \<open>C12: The readers of ASN.1 times never look past the terminator of a string and accept exactly the texts of UTCTime and
  GeneralizedTime: date, hours and minutes, optional seconds (with an optional fraction in a GeneralizedTime), and a zone, which is \<open>Z\<close>, an
  offset, or nothing after seconds. The result is the time the text stands for, moved to universal time.\<close>

theorem asn1_time_exact:
  assumes "str_ok d" and "terminated d"
  shows "\<exists>r. asn1_time_to_tm gmtime now init (Some d) = Some r \<and>
    (\<forall>t. r = Some t \<longleftrightarrow> (\<exists>f. denotes (s_type d) (contents_of d) f \<and> moved (parts_tm f) (zone_offset (p_zone f)) = Some (Some t)))"
  by (rule time_to_tm_spec [OF assms])

text \<open>\<open>20240229120000.5Z\<close>.\<close>

definition demo_parts :: time_parts where
  "demo_parts = \<lparr>p_year = 2024, p_mon = 2, p_day = 29, p_hour = 12, p_min = 0, p_sec = Some (0, [53]), p_zone = Z_utc\<rparr>"

definition demo_time :: ASN1_STRING where
  "demo_time = \<lparr>s_length = 17, s_type = V_ASN1_GENERALIZEDTIME, s_data = Some (gentime_text demo_parts @ [0]), s_flags = 0\<rparr>"

lemma demo_time: "str_ok demo_time" "terminated demo_time" "denotes (s_type demo_time) (contents_of demo_time) demo_parts"
  by (simp_all add: str_ok_def terminated_def denotes_def demo_time_def contents_of_def demo_parts_def gentime_text_def clock_text_def
      gentime_ok_def clock_ok_def two_def is_digit_def)

theorem asn1_time_exact_witness:
  "asn1_time_to_tm (\<lambda>_. None) 0 demo_tm (Some demo_time) =
    Some (Some \<lparr>tm_year = 124, tm_mon = 1, tm_mday = 29, tm_hour = 12, tm_min = 0, tm_sec = 0\<rparr>)"
proof -
  have "moved (parts_tm demo_parts) (zone_offset (p_zone demo_parts)) =
      Some (Some \<lparr>tm_year = 124, tm_mon = 1, tm_mday = 29, tm_hour = 12, tm_min = 0, tm_sec = 0\<rparr>)"
    by (simp add: moved_def parts_tm_def demo_parts_def)
  with asn1_time_exact [OF demo_time(1,2), of "\<lambda>_. None" 0 demo_tm] demo_time(3) show ?thesis by metis
qed



text \<open>\<open>ASN1_TIME_to_generalizedtime\<close> keeps the time. When memory is granted, a string that is read as a time is converted, and
  the GeneralizedTime that results is read as the same time.\<close>

lemma to_generalized_keeps_time:
  assumes "str_ok d" and "terminated d" and "s_length d + 2 < 2 ^ 31 - 1" and "asn1_time_to_tm gmtime now init (Some d) = Some (Some t)"
    and "\<And>x. out = Some x \<Longrightarrow> str_ok x \<and> s_type x = V_ASN1_GENERALIZEDTIME" and "\<And>n. grants mem n"
  shows "\<exists>r. ASN1_TIME_to_generalizedtime mem d out = Some (Some r) \<and> s_type r = V_ASN1_GENERALIZEDTIME \<and>
    asn1_time_to_tm gmtime now init (Some r) = Some (Some t)"
proof -
  obtain f where f: "denotes (s_type d) (contents_of d) f" "moved (parts_tm f) (zone_offset (p_zone f)) = Some (Some t)"
    by (rule denotes_unique [OF assms(1,2,4)])
  obtain r where r: "ASN1_TIME_to_generalizedtime mem d out = Some (Some r)" "str_ok r" "terminated r"
    "denotes V_ASN1_GENERALIZEDTIME (contents_of r) f" "s_type r = V_ASN1_GENERALIZEDTIME"
    using to_generalized_spec [OF assms(1,2) f(1) assms(3,5,6)] by blast
  with f(2) time_to_tm_spec [OF r(2,3), of gmtime now init] show ?thesis by auto
qed

text \<open>\<open>500101000000Z\<close>, the first UTCTime.\<close>

definition demo_utc :: ASN1_STRING where
  "demo_utc = \<lparr>s_length = 13, s_type = V_ASN1_UTCTIME, s_data = Some [53, 48, 48, 49, 48, 49, 48, 48, 48, 48, 48, 48, 90, 0], s_flags = 0\<rparr>"

text \<open>Writing, moving and comparing times agree. \<open>ASN1_TIME_diff\<close> from the string for a time to the string for that time moved by days and
  seconds gives the offset, as days and seconds of the same sign.\<close>

lemma asn1_time_diff_of_adj:
  assumes "OPENSSL_malloc mem sizeof_ASN1_STRING \<noteq> None" and "OPENSSL_malloc mem 20 \<noteq> None"
    and "gmtime t = Some t1" and "valid_tm t1" and "0 \<le> tm_year t1" and "\<bar>offset_day\<bar> \<le> 2 ^ 30" and "\<bar>offset_sec\<bar> < 2 ^ 31"
    and "valid_tm ts" and "0 \<le> tm_year ts" and "tm_secs ts = tm_secs t1 + 86400 * offset_day + offset_sec"
  shows "\<exists>a b days secs. ASN1_TIME_set mem gmtime None t = Some (Some a) \<and> ASN1_TIME_adj mem gmtime None t offset_day offset_sec = Some (Some b) \<and>
    ASN1_TIME_diff gmtime now init init' (Some a) (Some b) = Some (Some (days, secs)) \<and> 86400 * days + secs = 86400 * offset_day + offset_sec \<and>
    \<bar>secs\<bar> < 86400 \<and> 0 \<le> days * secs"
proof -
  have ts: "adjusted_tm gmtime t offset_day offset_sec = Some (Some ts)"
    using adjusted_spec [of gmtime t t1 offset_day offset_sec, OF assms(3-7)] assms(8-10) by auto
  have t1: "adjusted_tm gmtime t 0 0 = Some (Some t1)" using assms(3) by (simp add: adjusted_tm_def)
  note rg = valid_tm_ranges [OF assms(8)] valid_tm_ranges [OF assms(4)]
  obtain a where a: "ASN1_TIME_adj mem gmtime None t 0 0 = Some (Some a)" "str_ok a" "terminated a" "denotes (s_type a) (contents_of a) (parts_of t1)"
    using time_adj_writes [where s = None, OF _ assms(1,2) t1 rg(2)] by auto
  obtain b where b: "ASN1_TIME_adj mem gmtime None t offset_day offset_sec = Some (Some b)" "str_ok b" "terminated b"
    "denotes (s_type b) (contents_of b) (parts_of ts)" using time_adj_writes [where s = None, OF _ assms(1,2) ts rg(1)] by auto
  obtain days secs where d: "OPENSSL_gmtime_diff t1 ts = Some (Some (days, secs))" "86400 * days + secs = tm_secs ts - tm_secs t1"
    "\<bar>secs\<bar> < 86400" "0 \<le> days * secs" using gmtime_diff_spec [OF assms(4,8)] by blast
  have "ASN1_TIME_diff gmtime now init init' (Some a) (Some b) = Some (Some (days, secs))"
    using read_back [OF a(2-4) rg(2)] read_back [OF b(2-4) rg(1)] d(1) by (simp add: ASN1_TIME_diff_def)
  with a(1) b(1) d(2-4) assms(10) show ?thesis by (auto simp: ASN1_TIME_set_def)
qed

end
