(* ===== verification/ASN1_Object.thy ===== *)
theory ASN1_Object
  imports DER
begin

text \<open>
  The older reader and writer of element headers, \<open>ASN1_get_object\<close>, \<open>ASN1_put_object\<close> and \<open>ASN1_object_size\<close> of
  \<^verbatim>\<open>crypto/asn1/asn1_lib.c\<close>. The input is the list of bytes from \<open>*pp\<close> on; the outer option of a result is \<open>None\<close> when the code reads
  past it, the inner one for the return value \<open>0x80\<close>. A writer gives the bytes it stores at \<open>*pp\<close>. Values of type \<open>int\<close> and \<open>long\<close> are
  integers; they stay within their ranges by the tests of the code.
\<close>

section \<open>Operations\<close>

definition V_ASN1_CONSTRUCTED :: byte where "V_ASN1_CONSTRUCTED = 0x20"

definition V_ASN1_PRIVATE :: byte where "V_ASN1_PRIVATE = 0xc0"

definition V_ASN1_PRIMITIVE_TAG :: byte where "V_ASN1_PRIMITIVE_TAG = 0x1f"

definition V_ASN1_MAX_UNIVERSAL :: int where "V_ASN1_MAX_UNIVERSAL = 0xff"

text \<open>The number of a high tag: the loop over its leading bytes and the last one. The result is the number, the rest of the
  input and the remaining count.\<close>

fun high_tag :: "byte list \<Rightarrow> int \<Rightarrow> int \<Rightarrow> (int \<times> byte list \<times> int) option option" where
  "high_tag [] mx l = None"
| "high_tag (b # p) mx l =
     (let l = l * 128 + uint (b AND 0x7f); mx = mx - 1
      in if b AND 0x80 \<noteq> 0 then
           (if mx = 0 then Some None
            else if l > int INT_MAX div 128 then Some None
            else high_tag p mx l)
         else if mx = 0 then Some None
         else Some (Some (l, p, mx)))"

text \<open>The loop over the bytes of a long length. The accumulator is an \<open>unsigned long\<close>.\<close>

fun length_octets :: "nat \<Rightarrow> byte list \<Rightarrow> u64 \<Rightarrow> (u64 \<times> byte list) option" where
  "length_octets 0 p ret = Some (ret, p)"
| "length_octets (Suc i) [] ret = None"
| "length_octets (Suc i) (b # p) ret = length_octets i p (push_bit 8 ret OR ucast b)"

definition asn1_get_length :: "byte list \<Rightarrow> int \<Rightarrow> (int \<times> byte list) option option" where
  "asn1_get_length p mx =
     (if mx < 1 then Some None
      else case p of
          [] \<Rightarrow> None
        | b # p \<Rightarrow>
            if b = 0x80 then Some None
            else let mx = mx - 1;
                     i = uint (b AND 0x7f);
                     finish = (\<lambda>ret :: u64. \<lambda>p. if unat ret > INT_MAX div 2 then Some None else Some (Some (int (unat ret), p)))
                 in if b AND 0x80 \<noteq> 0 then
                      (if i > 8 \<or> mx < i then Some None
                       else (case length_octets (nat i) p 0 of None \<Rightarrow> None | Some (ret, p) \<Rightarrow> finish ret p))
                    else finish (word_of_int i) p)"

record asn1_header =
  h_ret :: byte
  h_length :: int
  h_tag :: int
  h_class :: byte
  h_rest :: "byte list"

definition ASN1_get_object :: "byte list \<Rightarrow> int \<Rightarrow> asn1_header option option" where
  "ASN1_get_object pp omax =
     (if omax = 0 then Some None
      else case pp of
          [] \<Rightarrow> None
        | b # p \<Rightarrow>
            let ret = b AND V_ASN1_CONSTRUCTED;
                xclass = b AND V_ASN1_PRIVATE;
                i = b AND V_ASN1_PRIMITIVE_TAG;
                mx = omax - 1
            in (case (if i = V_ASN1_PRIMITIVE_TAG then (if mx = 0 then Some None else high_tag p mx 0)
                      else if mx = 0 then Some None else Some (Some (uint i, p, mx))) of
                  None \<Rightarrow> None
                | Some None \<Rightarrow> Some None
                | Some (Some (tag, p, mx)) \<Rightarrow>
                    if xclass = 0 \<and> tag > V_ASN1_MAX_UNIVERSAL then Some None
                    else (case asn1_get_length p mx of
                        None \<Rightarrow> None
                      | Some None \<Rightarrow> Some None
                      | Some (Some (plength, p)) \<Rightarrow>
                          if plength > omax - (int (length pp) - int (length p)) then Some None
                          else Some (Some \<lparr>h_ret = ret, h_length = plength, h_tag = tag, h_class = xclass, h_rest = p\<rparr>))))"

text \<open>How often a positive number is shifted until nothing is left.\<close>

function count7 :: "int \<Rightarrow> nat" where
  "count7 n = (if n > 0 then Suc (count7 (drop_bit 7 n)) else 0)"
  by pat_completeness auto
termination
  by (relation "measure nat") (auto simp: drop_bit_eq_div)

function count8 :: "int \<Rightarrow> nat" where
  "count8 n = (if n > 0 then Suc (count8 (drop_bit 8 n)) else 0)"
  by pat_completeness auto
termination
  by (relation "measure nat") (auto simp: drop_bit_eq_div)

declare count7.simps [simp del] count8.simps [simp del]

text \<open>The loops that store digits from the last to the first.\<close>

fun put_tag_digits :: "nat \<Rightarrow> nat \<Rightarrow> int \<Rightarrow> byte list" where
  "put_tag_digits 0 ttag tag = []"
| "put_tag_digits (Suc i) ttag tag =
     put_tag_digits i ttag (drop_bit 7 tag) @ [word_of_int (tag AND 0x7f) OR (if i \<noteq> ttag - 1 then 0x80 else 0)]"

fun put_length_digits :: "nat \<Rightarrow> int \<Rightarrow> byte list" where
  "put_length_digits 0 len = []"
| "put_length_digits (Suc i) len = put_length_digits i (drop_bit 8 len) @ [word_of_int (len AND 0xff)]"

definition asn1_put_length :: "int \<Rightarrow> byte list" where
  "asn1_put_length len =
     (if len \<le> 127 then [word_of_int len]
      else let i = count8 len in (of_nat i OR 0x80) # put_length_digits i len)"

definition ASN1_put_object :: "int \<Rightarrow> int \<Rightarrow> int \<Rightarrow> byte \<Rightarrow> byte list" where
  "ASN1_put_object constructed len tag xclass =
     (let i = (if constructed \<noteq> 0 then V_ASN1_CONSTRUCTED else 0) OR (xclass AND V_ASN1_PRIVATE);
          hd_bytes = (if tag < 31 then [i OR (word_of_int tag AND V_ASN1_PRIMITIVE_TAG)]
                      else (i OR V_ASN1_PRIMITIVE_TAG) # put_tag_digits (count7 tag) (count7 tag) tag)
      in hd_bytes @ (if constructed = 2 then [0x80] else asn1_put_length len))"

definition ASN1_put_eoc :: "byte list" where
  "ASN1_put_eoc = [0, 0]"

definition ASN1_object_size :: "int \<Rightarrow> int \<Rightarrow> int \<Rightarrow> int" where
  "ASN1_object_size constructed len tag =
     (if len < 0 then - 1
      else let ret = 1 + (if tag \<ge> 31 then int (count7 tag) else 0);
               ret = (if constructed = 2 then ret + 3 else ret + 1 + (if len > 127 then int (count8 len) else 0))
           in if ret \<ge> int INT_MAX - len then - 1 else ret + len)"

end
