(* ===== verification/ASN1_Object_Props.thy ===== *)
theory ASN1_Object_Props
  imports ASN1_Object
begin

text \<open>
  The older header functions against the specification of DER: the reader stays within the announced bytes, agrees with
  \<open>CBS_get_any_asn1_element\<close> on DER, and the writer stores what the reader took apart; \<open>ASN1_object_size\<close> is the length of what is written.
\<close>

section \<open>Bounds\<close>

lemma high_tag_bounds:
  "0 < mx \<Longrightarrow> mx \<le> int (length p) \<Longrightarrow> \<exists>r. high_tag p mx l = Some r \<and>
    (\<forall>n q mx'. r = Some (n, q, mx') \<longrightarrow> 0 < mx' \<and> mx' \<le> int (length q) \<and> length q \<le> length p)"
proof (induction p mx l rule: high_tag.induct)
  case (2 b p mx l)
  then show ?case
  proof (cases "b AND 0x80 \<noteq> 0 \<and> mx - 1 \<noteq> 0 \<and> \<not> l * 128 + uint (b AND 0x7f) > int INT_MAX div 128")
    case True
    then have "\<exists>r. high_tag p (mx - 1) (l * 128 + uint (b AND 0x7f)) = Some r \<and>
        (\<forall>n q mx'. r = Some (n, q, mx') \<longrightarrow> 0 < mx' \<and> mx' \<le> int (length q) \<and> length q \<le> length p)"
      using 2 by (intro 2(1)) simp_all
    with True show ?thesis by (auto simp: Let_def)
  next
    case False
    with 2 show ?thesis by (auto simp: Let_def)
  qed
qed simp

lemma length_octets_value:
  "length_octets (length bs) (bs @ q) ret = Some (ret * 256 ^ length bs + of_nat (be_value bs), q)"
proof (induction bs arbitrary: ret)
  case (Cons b bs)
  have "(ucast b :: u64) = of_nat (unat b)" by simp
  then have "(ret * 256 + ucast b) * 256 ^ length bs + of_nat (be_value bs) = ret * 256 ^ length (b # bs) + of_nat (be_value (b # bs))"
    by (simp add: algebra_simps)
  with Cons show ?case by (simp only: length_Cons length_octets.simps append_Cons push8_or)
qed simp

lemma length_octets_bounds: "i \<le> length p \<Longrightarrow> \<exists>ret. length_octets i p r = Some (ret, drop i p)"
  using length_octets_value [of "take i p" "drop i p" r] by (metis append_take_drop_id length_take min.absorb2)

lemma uint_low7: "uint ((b :: byte) AND 0x7f) = int (unat b mod 128)"
  using unat_low7 [of b] by (metis uint_nat)

lemma get_length_bounds:
  assumes "mx \<le> int (length p)"
  shows "\<exists>r. asn1_get_length p mx = Some r \<and> (\<forall>n q. r = Some (n, q) \<longrightarrow> 0 \<le> n \<and> length q < length p)"
proof (cases "mx < 1")
  case True
  then show ?thesis by (simp add: asn1_get_length_def)
next
  case False
  with assms obtain b p' where p: "p = b # p'" by (cases p) auto
  let ?i = "unat b mod 128"
  have n: "\<exists>ret. length_octets ?i p' 0 = Some (ret, drop ?i p')" if "int ?i \<le> mx - 1" using that assms p by (intro length_octets_bounds) simp
  show ?thesis unfolding asn1_get_length_def p list.case Let_def uint_low7 nat_int
    using False n by (auto simp: not_less split: option.splits)
qed

lemma get_object_bounds:
  assumes "0 \<le> omax" and "omax \<le> int (length pp)"
  shows "\<exists>r. ASN1_get_object pp omax = Some r \<and>
    (\<forall>h. r = Some h \<longrightarrow> 0 \<le> h_length h \<and> h_length h \<le> omax - (int (length pp) - int (length (h_rest h))) \<and> length (h_rest h) < length pp)"
proof (cases "omax = 0")
  case True
  then show ?thesis by (simp add: ASN1_get_object_def)
next
  case False
  with assms obtain b p where p: "pp = b # p" by (cases pp) auto
  define t where "t = (if b AND V_ASN1_PRIMITIVE_TAG = V_ASN1_PRIMITIVE_TAG then (if omax - 1 = 0 then Some None else high_tag p (omax - 1) 0)
      else if omax - 1 = 0 then Some None else Some (Some (uint (b AND V_ASN1_PRIMITIVE_TAG), p, omax - 1)))"
  have "\<exists>r. t = Some r \<and> (\<forall>n q mx'. r = Some (n, q, mx') \<longrightarrow> mx' \<le> int (length q) \<and> length q \<le> length p)"
  proof (cases "omax = 1")
    case False
    with assms \<open>omax \<noteq> 0\<close> p have o: "0 < omax - 1" "omax - 1 \<le> int (length p)" by simp_all
    from high_tag_bounds [OF o, of 0] obtain r where "high_tag p (omax - 1) 0 = Some r"
      "\<forall>n q mx'. r = Some (n, q, mx') \<longrightarrow> 0 < mx' \<and> mx' \<le> int (length q) \<and> length q \<le> length p" by blast
    with o show ?thesis by (auto simp: t_def)
  qed (simp add: t_def)
  then obtain r where r: "t = Some r" "\<And>n q mx'. r = Some (n, q, mx') \<Longrightarrow> mx' \<le> int (length q) \<and> length q \<le> length p" by blast
  show ?thesis
  proof (cases r)
    case None
    with r(1) p False show ?thesis by (simp add: ASN1_get_object_def Let_def t_def [symmetric])
  next
    case (Some x)
    then obtain n q mx' where x: "r = Some (n, q, mx')" by (cases x) auto
    from r(2) [OF x] get_length_bounds [of mx' q] obtain s where s: "asn1_get_length q mx' = Some s"
      "\<forall>n q'. s = Some (n, q') \<longrightarrow> 0 \<le> n \<and> length q' < length q" by blast
    from r(1) x s r(2) [OF x] p False show ?thesis
      by (cases s) (auto simp: ASN1_get_object_def Let_def t_def [symmetric] not_less)
  qed
qed

section \<open>Reading DER\<close>

lemma high_tag_cont:
  "n \<le> 16777215 \<Longrightarrow> int (length (base128_cont n)) < mx \<Longrightarrow>
    high_tag (base128_cont n @ q) mx 0 = high_tag q (mx - int (length (base128_cont n))) (int n)"
proof (induction n arbitrary: q rule: base128_cont.induct)
  case (1 n)
  show ?case
  proof (cases "n = 0")
    case False
    let ?b = "of_nat (128 + n mod 128) :: byte" and ?m = "n div 128"
    have b: "unat ?b = 128 + n mod 128" by (simp only: unat_of_nat_byte) simp
    have b7: "uint (?b AND 0x7f) = int (n mod 128)" unfolding uint_low7 b by simp
    have e: "base128_cont n = base128_cont ?m @ [?b]" using False by (simp add: base128_cont.simps [of n])
    have "?m \<le> 16777215" "int (length (base128_cont ?m)) < mx" using 1(2,3) e by simp_all
    then have "high_tag (base128_cont n @ q) mx 0 = high_tag (?b # q) (mx - int (length (base128_cont ?m))) (int ?m)"
      using 1(1) [OF False] e by simp
    also have "\<dots> = high_tag q (mx - int (length (base128_cont n))) (int ?m * 128 + int (n mod 128))"
    proof -
      have v: "int ?m * 128 + int (n mod 128) = int n" by (metis div_mult_mod_eq of_nat_add of_nat_mult of_nat_numeral)
      have h: "?b AND 0x80 \<noteq> 0" unfolding byte_high_bit b by simp
      have mx: "mx - int (length (base128_cont ?m)) - 1 = mx - int (length (base128_cont n))" "mx - int (length (base128_cont n)) \<noteq> 0"
        using 1(3) e by simp_all
      show ?thesis unfolding high_tag.simps b7 Let_def v mx(1) using h mx(2) 1(2) by auto
    qed
    also have "int ?m * 128 + int (n mod 128) = int n" by (metis div_mult_mod_eq of_nat_add of_nat_mult of_nat_numeral)
    finally show ?thesis .
  qed simp
qed

lemma high_tag_base128:
  assumes "n \<le> INT_MAX" and "int (length (base128 n)) < mx"
  shows "high_tag (base128 n @ q) mx 0 = Some (Some (int n, q, mx - int (length (base128 n))))"
proof -
  let ?b = "of_nat (n mod 128) :: byte"
  have b: "unat ?b = n mod 128" by (simp only: unat_of_nat_byte) simp
  have b7: "uint (?b AND 0x7f) = int (n mod 128)" unfolding uint_low7 b by simp
  have h: "?b AND 0x80 = 0" unfolding byte_high_bit_clear b by simp
  have v: "int (n div 128) * 128 + int (n mod 128) = int n" by (metis div_mult_mod_eq of_nat_add of_nat_mult of_nat_numeral)
  have "high_tag (base128 n @ q) mx 0 = high_tag (?b # q) (mx - int (length (base128_cont (n div 128)))) (int (n div 128))"
    using high_tag_cont [of "n div 128" mx "?b # q"] assms by (simp add: base128_def)
  also have "\<dots> = Some (Some (int n, q, mx - int (length (base128 n))))"
    unfolding high_tag.simps b7 Let_def v using h assms(2) by (simp add: base128_def)
  finally show ?thesis .
qed

lemma unat_numeral_byte_80: "unat (0x80 :: byte) = 128"
  by simp

lemma get_length_der:
  assumes "n \<le> 1073741823" and "int (length (der_length n)) \<le> mx"
  shows "asn1_get_length (der_length n @ q) mx = Some (Some (int n, q))"
proof (cases "n < 128")
  case True
  then have b: "unat (of_nat n :: byte) = n" by simp
  have "(of_nat n :: byte) \<noteq> 0x80" using True b by (metis less_irrefl unat_numeral_byte_80)
  moreover have "(of_nat n :: byte) AND 0x80 = 0" unfolding byte_high_bit_clear b using True .
  moreover have "uint ((of_nat n :: byte) AND 0x7f) = int n" unfolding uint_low7 b using True by simp
  moreover have "unat (word_of_int (int n) :: u64) = n" using True by (simp add: unat_of_nat_u64)
  ultimately show ?thesis using True assms(2) by (simp add: asn1_get_length_def der_length_def Let_def)
next
  case False
  let ?k = "octets_needed n"
  have b: "unat (of_nat (128 + ?k) :: byte) = 128 + ?k" by (rule unat_long_form_byte)
  have k: "0 < ?k" "?k \<le> 4" using octets_needed_pos octets_needed_le by simp_all
  have ne: "(of_nat (128 + ?k) :: byte) \<noteq> 0x80" using k(1) b by (metis add_cancel_left_right less_irrefl unat_numeral_byte_80)
  have h: "(of_nat (128 + ?k) :: byte) AND 0x80 \<noteq> 0" unfolding byte_high_bit b by simp
  have i: "uint ((of_nat (128 + ?k) :: byte) AND 0x7f) = int ?k" unfolding uint_low7 b using k by simp
  have "be_value (be_bytes ?k n) = n" using octets_needed_bounds(2) [of n] assms(1) False by (simp add: be_value_be_bytes)
  then have oct: "length_octets ?k (be_bytes ?k n @ q) 0 = Some (of_nat n, q)" using length_octets_value [of "be_bytes ?k n" q 0] by simp
  have u: "unat (of_nat n :: u64) = n" using assms(1) by (simp add: unat_of_nat_u64)
  have e: "der_length n @ q = of_nat (128 + ?k) # be_bytes ?k n @ q" using False by (simp add: der_length_def)
  have l: "int ?k \<le> mx - 1" "\<not> mx < 1" using assms(2) False k by (simp_all add: der_length_def)
  show ?thesis unfolding asn1_get_length_def e list.case Let_def i using ne h k l oct u assms(1) by simp
qed

lemma and_c0: "unat ((b :: byte) AND 0xc0) = unat b div 64 * 64"
proof -
  have c0: "(0xc0 :: byte) = push_bit 6 (mask 2)" by (simp add: push_bit_eq_mult mask_eq_exp_minus_1)
  have "b AND 0xc0 = push_bit 6 (drop_bit 6 b)"
    unfolding c0 by (rule bit_word_eqI) (auto simp: bit_simps dest: bit_imp_le_length)
  moreover have "unat (push_bit 6 (drop_bit 6 b)) = unat b div 64 * 64"
  proof -
    have "unat b div 64 * 64 < 256" using unat_byte_less [of b] using div_times_less_eq_dividend [of "unat b" 64] by linarith
    then show ?thesis by (simp add: push_bit_eq_mult unat_word_ariths unat_drop mult.commute)
  qed
  ultimately show ?thesis by simp
qed

text \<open>A universal tag is one without class bits.\<close>

lemma tag_class_0:
  assumes "n < 32"
  shows "(der_tag_bits t + of_nat n) AND 0xc0 = 0 \<longleftrightarrow> unat t < 2 ^ 30"
proof -
  have "unat ((der_tag_bits t + of_nat n) AND 0xc0) = 0 \<longleftrightarrow> unat t div 2 ^ 29 < 2"
    unfolding and_c0 unat_tag_byte [OF assms] using assms by (auto simp: div_eq_0_iff)
  also have "\<dots> \<longleftrightarrow> unat t < 2 ^ 30" by (simp add: div_less_iff_less_mult)
  finally show ?thesis by (simp add: unat_eq_0)
qed

definition tag_byte :: "u32 \<Rightarrow> byte" where
  "tag_byte t = der_tag_bits t + of_nat (if der_tag_number t < 31 then der_tag_number t else 31)"

lemma der_tag_byte: "der_tag t = tag_byte t # (if der_tag_number t < 31 then [] else base128 (der_tag_number t))"
  by (simp add: der_tag_def tag_byte_def)

lemma tag_byte_low: "unat (tag_byte t AND 0x1f) = (if der_tag_number t < 31 then der_tag_number t else 31)"
proof -
  have *: "(k * 32 + m) mod 32 = m" if "m < 32" for k m :: nat using that by simp
  show ?thesis unfolding unat_low5 tag_byte_def by (subst unat_tag_byte) (auto simp: *)
qed

lemma tag_byte_class: "tag_byte t AND 0xc0 = 0 \<longleftrightarrow> unat t < 2 ^ 30"
  unfolding tag_byte_def by (rule tag_class_0) simp

lemma get_object_der:
  assumes n: "n \<le> 1073741823" and fit: "n \<le> length q" and univ: "unat t < 2 ^ 30 \<Longrightarrow> der_tag_number t \<le> 255"
  shows "ASN1_get_object (der_tag t @ der_length n @ q) (int (length (der_tag t @ der_length n @ q))) =
    Some (Some \<lparr>h_ret = tag_byte t AND 0x20, h_length = int n, h_tag = int (der_tag_number t), h_class = tag_byte t AND 0xc0, h_rest = q\<rparr>)"
proof -
  let ?k = "der_tag_number t" and ?b = "tag_byte t"
  let ?tl = "(if ?k < 31 then [] else base128 ?k) @ der_length n @ q"
  have l: "0 < length (der_length n)" by (simp add: der_length_def)
  have kb: "?k \<le> INT_MAX" using unat_u32_split(3) [of t] by simp
  define omax where "omax = int (length (?b # ?tl))"
  define mx where "mx = omax - 1 - int (length (if ?k < 31 then [] else base128 ?k))"
  have mx: "mx = int (length (der_length n @ q))" by (simp add: mx_def omax_def)
  have i: "?b AND 0x1f = 0x1f \<longleftrightarrow> \<not> ?k < 31" "?k < 31 \<Longrightarrow> uint (?b AND 0x1f) = int ?k"
    using tag_byte_low [of t] by (auto simp: word_unat_eq_iff uint_nat)
  have tag: "(if ?b AND 0x1f = 0x1f then (if omax - 1 = 0 then Some None else high_tag ?tl (omax - 1) 0)
      else if omax - 1 = 0 then Some None else Some (Some (uint (?b AND 0x1f), ?tl, omax - 1))) = Some (Some (int ?k, der_length n @ q, mx))"
  proof -
    have o: "omax - 1 = int (length (if ?k < 31 then [] else base128 ?k)) + (int (length (der_length n)) + int (length q))" by (simp add: omax_def)
    have "0 < int (length (der_length n)) + int (length q)" using l by linarith
    then have "int (length (base128 ?k)) < omax - 1" if "\<not> ?k < 31" "omax - 1 \<noteq> 0" using that unfolding o by simp
    moreover have "omax - 1 \<noteq> 0" unfolding o using \<open>0 < int (length (der_length n)) + int (length q)\<close> by linarith
    ultimately show ?thesis using i high_tag_base128 [OF kb, of "omax - 1" "der_length n @ q"] by (auto simp: mx_def)
  qed
  have len: "asn1_get_length (der_length n @ q) mx = Some (Some (int n, q))" by (rule get_length_der [OF n]) (simp add: mx)
  have c: "\<not> (?b AND 0xc0 = 0 \<and> int ?k > 255)" using univ tag_byte_class [of t] by auto
  have e: "der_tag t @ der_length n @ q = ?b # ?tl" by (simp add: der_tag_byte)
  have room: "\<not> int n > omax - (int (length (?b # ?tl)) - int (length q))" using fit by (simp add: omax_def)
  have "omax \<noteq> 0" by (simp add: omax_def)
  then show ?thesis
    unfolding e ASN1_get_object_def V_ASN1_CONSTRUCTED_def V_ASN1_PRIVATE_def V_ASN1_PRIMITIVE_TAG_def V_ASN1_MAX_UNIVERSAL_def
      list.case Let_def omax_def [symmetric] tag using c len fit by (simp add: omax_def)
qed

section \<open>Writing\<close>

lemma int_low7: "(n :: int) AND 0x7f = n mod 128"
  using take_bit_eq_mask [of 7 n] by (simp add: mask_eq_exp_minus_1 take_bit_eq_mod)

lemma int_low8: "(n :: int) AND 0xff = n mod 256"
  using take_bit_eq_mask [of 8 n] by (simp add: mask_eq_exp_minus_1 take_bit_eq_mod)

lemma drop7_nat: "drop_bit 7 (int n) = int (n div 128)"
  by (simp add: drop_bit_eq_div of_nat_div)

lemma drop8_nat: "drop_bit 8 (int n) = int (n div 256)"
  by (simp add: drop_bit_eq_div of_nat_div)

lemma word_of_int_mod: "word_of_int (int n mod 128) = (of_nat (n mod 128) :: byte)" "word_of_int (int n mod 256) = (of_nat (n mod 256) :: byte)"
  by (metis of_int_of_nat_eq of_nat_numeral zmod_int)+

lemma high_digit: "(word_of_int (int n AND 0x7f) OR 0x80 :: byte) = of_nat (128 + n mod 128)"
proof -
  let ?w = "of_nat (n mod 128) :: byte"
  have u: "unat ?w = n mod 128" by (simp only: unat_of_nat_byte) simp
  have "?w = ?w AND 0x7f" by (rule word_unat_eq_iff [THEN iffD2]) (simp only: unat_low7 u mod_mod_trivial)
  then have "?w AND 0x80 = (?w AND 0x7f) AND 0x80" by simp
  then have "?w AND 0x80 = 0" by (simp add: and.assoc)
  then have "?w OR 0x80 = ?w + 0x80" by (rule or_disjoint_add)
  then show ?thesis unfolding int_low7 word_of_int_mod by (simp add: add.commute)
qed

lemma put_tag_cont: "count7 (int n) < ttag \<Longrightarrow> put_tag_digits (count7 (int n)) ttag (int n) = base128_cont n"
proof (induction n rule: base128_cont.induct)
  case (1 n)
  show ?case
  proof (cases "n = 0")
    case True
    then show ?thesis by (simp add: count7.simps)
  next
    case False
    have c: "count7 (int n) = Suc (count7 (int (n div 128)))" using False by (subst count7.simps) (simp add: drop7_nat)
    with 1(2) have "count7 (int (n div 128)) \<noteq> ttag - 1" "count7 (int (n div 128)) < ttag" by simp_all
    with 1(1) [OF False] show ?thesis unfolding c put_tag_digits.simps drop7_nat using False
      by (simp add: base128_cont.simps [of n] high_digit)
  qed
qed

lemma put_tag_base128:
  assumes "0 < n"
  shows "put_tag_digits (count7 (int n)) (count7 (int n)) (int n) = base128 n"
proof -
  have c: "count7 (int n) = Suc (count7 (int (n div 128)))" using assms by (subst count7.simps) (simp add: drop7_nat)
  have "word_of_int (int n AND 0x7f) = (of_nat (n mod 128) :: byte)" unfolding int_low7 by (rule word_of_int_mod)
  then show ?thesis unfolding c put_tag_digits.simps drop7_nat by (simp add: put_tag_cont base128_def)
qed

lemma put_length_digits_be: "put_length_digits k (int n) = be_bytes k n"
proof (induction k arbitrary: n)
  case (Suc k)
  have "word_of_int (int n AND 0xff) = (of_nat (n mod 256) :: byte)" unfolding int_low8 by (rule word_of_int_mod)
  moreover have "(of_nat (n mod 256) :: byte) = of_nat n" by (rule word_unat_eq_iff [THEN iffD2]) (simp only: unat_of_nat_byte mod_mod_trivial)
  ultimately show ?case using Suc unfolding put_length_digits.simps drop8_nat be_bytes_Suc_snoc by simp
qed simp

lemma count8_octets:
  assumes "0 < n" "n < 4294967296"
  shows "count8 (int n) = octets_needed n"
proof -
  have step: "count8 (int m) = (if m = 0 then 0 else Suc (count8 (int (m div 256))))" for m by (subst count8.simps) (simp add: drop8_nat)
  have z: "m div 256 = 0" if "m < 256" for m :: nat using that by simp
  have d: "n div 256 div 256 = n div 65536" "n div 65536 div 256 = n div 16777216" "n div 16777216 div 256 = n div 4294967296"
    by (simp_all add: div_mult2_eq [symmetric])
  have "n div 4294967296 = 0" using assms(2) by simp
  then show ?thesis using assms(1) by (auto simp: step [of n] step [of "n div 256"] step [of "n div 65536"] step [of "n div 16777216"] count8.simps [of 0] d octets_needed_def
      not_less div_eq_0_iff)
qed

lemma put_length_der:
  assumes "n < 4294967296"
  shows "asn1_put_length (int n) = der_length n"
proof (cases "n < 128")
  case True
  then show ?thesis by (simp add: asn1_put_length_def der_length_def)
next
  case False
  let ?k = "octets_needed n"
  have c: "count8 (int n) = ?k" using False assms by (intro count8_octets) simp_all
  have "(of_nat ?k :: byte) OR 0x80 = of_nat (128 + ?k)"
    using octets_needed_le [of n] high_digit [of ?k] by (simp add: int_low7)
  then show ?thesis unfolding asn1_put_length_def c put_length_digits_be using False by (simp add: der_length_def Let_def)
qed

lemma tag_byte_parts: "((b AND 0x20) OR (b AND 0xc0)) OR (b AND 0x1f) = (b :: byte)"
proof -
  have "(b AND 0x20) OR (b AND 0xc0) OR (b AND 0x1f) = b AND (0x20 OR 0xc0 OR 0x1f)" by (simp only: bit.conj_disj_distrib)
  also have "(0x20 OR 0xc0 OR 0x1f :: byte) = - 1" by simp
  finally show ?thesis by (simp only: or.assoc and.right_neutral)
qed

lemma put_object_der:
  assumes "n < 4294967296"
  shows "ASN1_put_object (uint (tag_byte t AND 0x20)) (int n) (int (der_tag_number t)) (tag_byte t AND 0xc0) = der_tag t @ der_length n"
proof -
  let ?k = "der_tag_number t" and ?b = "tag_byte t"
  have bit: "b AND 0x20 = 0 \<or> b AND 0x20 = (0x20 :: byte)" for b :: byte
  proof -
    have "b AND 2 ^ n = (if bit b n then 2 ^ n else 0)" for n by (rule bit_word_eqI) (auto simp: bit_simps)
    from this [of 5] have "b AND 0x20 = (if bit b 5 then 0x20 else 0)" by simp
    then show ?thesis by simp
  qed
  have c: "(if uint (?b AND 0x20) \<noteq> 0 then 0x20 else 0) = ?b AND 0x20" using bit [of ?b] by auto
  have not2: "uint (?b AND 0x20) \<noteq> 2" using bit [of ?b] by auto
  have low: "?k < 31 \<Longrightarrow> word_of_int (int ?k) AND 0x1f = ?b AND 0x1f" "\<not> ?k < 31 \<Longrightarrow> ?b AND 0x1f = 0x1f"
    using tag_byte_low [of t] by (auto simp: word_unat_eq_iff unat_low5)
  have i: "((?b AND 0x20) OR ((?b AND 0xc0) AND 0xc0)) OR (?b AND 0x1f) = ?b" using tag_byte_parts [of ?b] by (simp add: and.assoc)
  note unfolds = ASN1_put_object_def V_ASN1_CONSTRUCTED_def V_ASN1_PRIVATE_def V_ASN1_PRIMITIVE_TAG_def Let_def c
  show ?thesis
  proof (cases "?k < 31")
    case True
    then have "int ?k < 31" by simp
    with not2 show ?thesis unfolding unfolds low(1) [OF True] i put_length_der [OF assms] by (simp add: der_tag_byte True)
  next
    case False
    then have "\<not> int ?k < 31" "put_tag_digits (count7 (int ?k)) (count7 (int ?k)) (int ?k) = base128 ?k" by (simp_all add: put_tag_base128)
    with not2 False i show ?thesis unfolding unfolds put_length_der [OF assms] low(2) [OF False] by (simp add: der_tag_byte)
  qed
qed

lemma length_put_tag [simp]: "length (put_tag_digits k m n) = k"
  by (induction k arbitrary: n) simp_all

lemma object_size_der:
  assumes n: "n \<le> 1073741823" and c: "c \<noteq> 2"
  shows "ASN1_object_size c (int n) (int (der_tag_number t)) = int (length (der_tag t @ der_length n)) + int n"
proof -
  let ?k = "der_tag_number t"
  have k: "length (der_tag t) = 1 + (if ?k < 31 then 0 else count7 (int ?k))"
  proof (cases "?k < 31")
    case False
    then have "put_tag_digits (count7 (int ?k)) (count7 (int ?k)) (int ?k) = base128 ?k" by (intro put_tag_base128) simp
    then have "length (base128 ?k) = count7 (int ?k)" by (metis length_put_tag)
    with False show ?thesis by (simp add: der_tag_byte)
  qed (simp add: der_tag_byte)
  have l: "length (der_length n) = 1 + (if n < 128 then 0 else count8 (int n))"
    using count8_octets [of n] n by (simp add: der_length_def)
  have "length (der_tag t @ der_length n) \<le> 11" using length_der_tag(2) [of t] octets_needed_le [of n] by (simp add: der_length_def)
  then have "\<not> int (length (der_tag t @ der_length n)) \<ge> int INT_MAX - int n" using n by simp
  then show ?thesis using c unfolding ASN1_object_size_def Let_def length_append k l by (auto split: if_splits)
qed

section \<open>Properties\<close>

text \<open>C32: \<open>ASN1_get_object\<close> never reads past the bytes it is given, and on success the contents it announces lie within them.\<close>

theorem get_object_safe:
  assumes "0 \<le> omax" and "omax \<le> int (length pp)"
  shows "\<exists>r. ASN1_get_object pp omax = Some r \<and>
    (\<forall>h. r = Some h \<longrightarrow> 0 \<le> h_length h \<and> h_length h \<le> omax - (int (length pp) - int (length (h_rest h))) \<and> length (h_rest h) < length pp)"
  by (rule get_object_bounds [OF assms])

theorem get_object_safe_witness: "\<exists>r. ASN1_get_object [0x1f, 0x81, 0x80] 3 = Some r"
  using get_object_safe [of 3 "[0x1f, 0x81, 0x80]"] by auto

text \<open>C15: The two readers of element headers agree, and the writer inverts them. On an element that \<open>CBS_get_any_asn1_element\<close> accepts, with contents of
  at most \<open>INT_MAX / 2\<close> bytes and no universal tag above 255, \<open>ASN1_get_object\<close> finds the same tag number and contents;
  \<open>ASN1_put_object\<close> writes the header again, and \<open>ASN1_object_size\<close> is the size of the element.\<close>

theorem asn1_readers_agree:
  assumes "CBS_get_any_asn1_element inp = (Some e, rest)" and "length (el_out e) - el_header_len e \<le> INT_MAX div 2"
    and "unat (el_tag e) < 2 ^ 30 \<Longrightarrow> der_tag_number (el_tag e) \<le> 255"
  shows "\<exists>h. ASN1_get_object inp (int (length inp)) = Some (Some h) \<and> h_tag h = int (der_tag_number (el_tag e)) \<and>
    int (el_header_len e) + h_length h = int (length (el_out e)) \<and> h_rest h = drop (el_header_len e) inp \<and>
    ASN1_put_object (uint (h_ret h)) (h_length h) (h_tag h) (h_class h) = take (el_header_len e) inp \<and>
    ASN1_object_size (uint (h_ret h)) (h_length h) (h_tag h) = int (length (el_out e))"
proof -
  obtain t c where c: "length c < 2 ^ 32" "inp = der_element t c @ rest" and
    e: "e = \<lparr>el_out = der_element t c, el_tag = t, el_header_len = length (der_tag t @ der_length (length c)), el_ber_found = False\<rparr>"
    using assms(1) unfolding CBS_get_any_asn1_element_iff by auto
  have n: "length c \<le> 1073741823" using assms(2) by (simp add: e der_element_def)
  have inp: "inp = der_tag t @ der_length (length c) @ c @ rest" using c(2) by (simp add: der_element_def)
  let ?h = "\<lparr>h_ret = tag_byte t AND 0x20, h_length = int (length c), h_tag = int (der_tag_number t), h_class = tag_byte t AND 0xc0, h_rest = c @ rest\<rparr>"
  have "ASN1_get_object inp (int (length inp)) = Some (Some ?h)"
    unfolding inp by (rule get_object_der [OF n]) (use assms(3) in \<open>simp_all add: e\<close>)
  moreover have "uint (tag_byte t AND 0x20) \<noteq> 2"
  proof
    assume "uint (tag_byte t AND 0x20) = 2"
    then have "tag_byte t AND 0x20 = 2" by (simp add: word_uint_eq_iff)
    then have "2 AND 0x20 = (2 :: byte)" by (metis and.assoc and.idem)
    then show False by simp
  qed
  ultimately show ?thesis
    using put_object_der [of "length c" t] object_size_der [OF n, of "uint (tag_byte t AND 0x20)" t] c(1)
    by (intro exI [of _ ?h]) (simp add: e inp der_element_def)
qed

theorem asn1_readers_agree_witness:
  "\<exists>h. ASN1_get_object (der_element 0xa0000001 [1, 2] @ [7]) (int (length (der_element 0xa0000001 [1, 2] @ [7]))) = Some (Some h) \<and> h_tag h = 1 \<and> h_length h = 2"
proof -
  let ?t = "0xa0000001 :: u32"
  let ?e = "\<lparr>el_out = der_element ?t [1, 2], el_tag = ?t, el_header_len = length (der_tag ?t @ der_length (length [1 :: byte, 2])), el_ber_found = False\<rparr>"
  have n: "der_tag_number ?t = 1" by (simp add: der_tag_number_def)
  have a: "CBS_get_any_asn1_element (der_element ?t [1, 2] @ [7]) = (Some ?e, [7])"
    unfolding CBS_get_any_asn1_element_iff by (intro exI [of _ ?t] exI [of _ "[1, 2]"]) simp
  have "length (el_out ?e) - el_header_len ?e = 2" by (simp add: der_element_def)
  then have l: "length (el_out ?e) - el_header_len ?e \<le> INT_MAX div 2" by simp
  have u: "der_tag_number (el_tag ?e) \<le> 255" using n by simp
  from asn1_readers_agree [OF a l u] n show ?thesis by (auto simp: der_element_def)
qed

end
