(* ===== verification/ASN1_BitString.thy ===== *)
theory ASN1_BitString
  imports ASN1_String CBB
begin

text \<open>
  The BIT STRINGs of \<^verbatim>\<open>crypto/asn1/a_bitstr.c\<close> and the comparison of strings in \<^verbatim>\<open>asn1_lib.c\<close>. Bits are numbered from zero, the first one the
  highest bit of the first byte. A string with the flag \<open>ASN1_STRING_FLAG_BITS_LEFT\<close> carries its number of padding bits in the flags;
  without it trailing zero bits are dropped when the string is encoded.
\<close>

unbundle bit_operations_syntax

section \<open>Operations\<close>

definition ASN1_BIT_STRING_set :: "allocator \<Rightarrow> ASN1_STRING \<Rightarrow> byte list option \<Rightarrow> int \<Rightarrow> bool \<times> ASN1_STRING" where
  "ASN1_BIT_STRING_set mem x d len = ASN1_STRING_set mem x d len"

definition bytes_of :: "ASN1_STRING \<Rightarrow> byte list" where
  "bytes_of str = (case s_data str of None \<Rightarrow> [] | Some d \<Rightarrow> d)"

fun strip_zeros :: "byte list \<Rightarrow> nat \<Rightarrow> nat" where
  "strip_zeros d 0 = 0"
| "strip_zeros d (Suc len) = (if d ! len = 0 then strip_zeros d len else Suc len)"

function padding_loop :: "byte \<Rightarrow> nat \<Rightarrow> nat" where
  "padding_loop last_byte k = (if k < 7 then (if last_byte AND push_bit k 1 \<noteq> 0 then k else padding_loop last_byte (k + 1)) else k)"
  by pat_completeness auto
termination
  by (relation "measure (\<lambda>(b, k). 7 - k)") auto

declare padding_loop.simps [simp del]

definition asn1_bit_string_length :: "ASN1_STRING \<Rightarrow> nat \<times> nat" where
  "asn1_bit_string_length str =
     (let len = nat (s_length str)
      in if s_flags str AND ASN1_STRING_FLAG_BITS_LEFT \<noteq> 0 then (len, if len = 0 then 0 else unat (s_flags str AND 7))
         else let len = strip_zeros (bytes_of str) len
              in (len, if len > 0 then padding_loop (bytes_of str ! (len - 1)) 0 else 0))"

definition ASN1_BIT_STRING_num_bytes :: "ASN1_STRING \<Rightarrow> nat option" where
  "ASN1_BIT_STRING_num_bytes str = (case asn1_bit_string_length str of (len, padding_bits) \<Rightarrow> if padding_bits \<noteq> 0 then None else Some len)"

text \<open>The value returned and the bytes stored at \<open>*pp\<close>.\<close>

definition i2c_ASN1_BIT_STRING :: "ASN1_STRING option \<Rightarrow> int \<times> byte list" where
  "i2c_ASN1_BIT_STRING a = (case a of
      None \<Rightarrow> (0, [])
    | Some a \<Rightarrow>
        (case asn1_bit_string_length a of
           (len, bits) \<Rightarrow>
             let p = take len (bytes_of a);
                 p = (if len > 0 then p[len - 1 := (p ! (len - 1)) AND push_bit bits 0xff] else p)
             in (1 + int len, of_nat bits # p)))"

text \<open>The string \<open>*a\<close> is given if there is one, and comes back changed; the result has the rest of the input.\<close>

definition c2i_ASN1_BIT_STRING :: "allocator \<Rightarrow> ASN1_STRING option \<Rightarrow> byte list \<Rightarrow> int \<Rightarrow> (ASN1_STRING \<times> byte list) option \<times> ASN1_STRING option" where
  "c2i_ASN1_BIT_STRING mem a pp len =
     (if len < 1 \<or> len > int INT_MAX then (None, a)
      else case (case a of None \<Rightarrow> ASN1_STRING_type_new mem V_ASN1_BIT_STRING | Some s \<Rightarrow> Some s) of
          None \<Rightarrow> (None, a)
        | Some ret \<Rightarrow>
            let padding = pp ! 0;
                p = drop 1 pp;
                len = nat (len - 1);
                padding_mask = (push_bit (unat padding) 1 - 1 :: byte)
            in if padding > 7 then (None, a)
               else if padding \<noteq> 0 \<and> (len < 1 \<or> p ! (len - 1) AND padding_mask \<noteq> 0) then (None, a)
               else let ret = ret\<lparr>s_flags := (s_flags ret AND NOT (ASN1_STRING_FLAG_BITS_LEFT OR 7)) OR (ASN1_STRING_FLAG_BITS_LEFT OR ucast padding)\<rparr>;
                        a = (case a of None \<Rightarrow> None | Some _ \<Rightarrow> Some ret);
                        store = (\<lambda>s. let ret = ret\<lparr>s_length := int len, s_data := s, s_type := V_ASN1_BIT_STRING\<rparr>
                                   in (Some (ret, drop len p), Some ret))
                    in if len > 0 then
                         (case OPENSSL_memdup mem (take len p) of None \<Rightarrow> (None, a) | Some s \<Rightarrow> store (Some s))
                       else store None)"

text \<open>Bit numbers are not negative.\<close>

definition ASN1_BIT_STRING_set_bit :: "allocator \<Rightarrow> ASN1_STRING option \<Rightarrow> nat \<Rightarrow> bool \<Rightarrow> bool \<times> ASN1_STRING option" where
  "ASN1_BIT_STRING_set_bit mem a n value =
     (let w = n div 8;
          v = push_bit (7 - n mod 8) 1 :: byte;
          iv = NOT v;
          v = (if value then v else 0)
      in (case a of
            None \<Rightarrow> (False, None)
          | Some a \<Rightarrow>
              let a = a\<lparr>s_flags := s_flags a AND NOT (ASN1_STRING_FLAG_BITS_LEFT OR 7)\<rparr>;
                  finish = (\<lambda>a. let d = bytes_of a; d = d[w := (d ! w AND iv) OR v]
                                 in (True, Some (a\<lparr>s_data := Some d, s_length := int (strip_zeros d (nat (s_length a)))\<rparr>)))
              in if s_length a < int w + 1 \<or> s_data a = None then
                   (if \<not> value then (True, Some a)
                    else (case (case s_data a of None \<Rightarrow> OPENSSL_malloc mem (w + 1) | Some d \<Rightarrow> OPENSSL_realloc mem (Some d) (w + 1)) of
                        None \<Rightarrow> (False, Some a)
                      | Some c \<Rightarrow>
                          let l = nat (s_length a);
                              c = (if w + 1 > l then OPENSSL_memcpy c l (replicate (w + 1 - l) 0) else c)
                          in finish (a\<lparr>s_data := Some c, s_length := int w + 1\<rparr>)))
                 else finish a))"

definition ASN1_BIT_STRING_get_bit :: "ASN1_STRING option \<Rightarrow> nat \<Rightarrow> bool" where
  "ASN1_BIT_STRING_get_bit a n =
     (let w = n div 8; v = push_bit (7 - n mod 8) 1 :: byte
      in (case a of
            None \<Rightarrow> False
          | Some a \<Rightarrow> if s_length a < int w + 1 \<or> s_data a = None then False else bytes_of a ! w AND v \<noteq> 0))"

fun check_loop :: "byte list \<Rightarrow> byte list \<Rightarrow> bool" where
  "check_loop [] flags = True"
| "check_loop (b # d) flags =
     (let m = (case flags of [] \<Rightarrow> 0xff | f # _ \<Rightarrow> NOT f)
      in if b AND m = 0 then check_loop d (tl flags) else False)"

definition ASN1_BIT_STRING_check :: "ASN1_STRING option \<Rightarrow> byte list \<Rightarrow> bool" where
  "ASN1_BIT_STRING_check a flags = (case a of
      None \<Rightarrow> True
    | Some a \<Rightarrow> (case s_data a of None \<Rightarrow> True | Some d \<Rightarrow> check_loop (take (nat (s_length a)) d) flags))"

definition ASN1_STRING_cmp :: "ASN1_STRING \<Rightarrow> ASN1_STRING \<Rightarrow> int" where
  "ASN1_STRING_cmp a b =
     (let (a_length, a_padding) = (if s_type a = V_ASN1_BIT_STRING then asn1_bit_string_length a else (nat (s_length a), 0));
          (b_length, b_padding) = (if s_type b = V_ASN1_BIT_STRING then asn1_bit_string_length b else (nat (s_length b), 0))
      in if a_length < b_length then - 1
         else if a_length > b_length then 1
         else if a_padding > b_padding then - 1
         else if a_padding < b_padding then 1
         else let ret = OPENSSL_memcmp (take a_length (bytes_of a)) (take a_length (bytes_of b))
              in if ret \<noteq> 0 then ret
                 else if s_type a < s_type b then - 1
                 else if s_type a > s_type b then 1
                 else 0)"

section \<open>Bits\<close>

text \<open>A string whose padding bits, where they are recorded, are zero.\<close>

definition bits_ok :: "ASN1_STRING \<Rightarrow> bool" where
  "bits_ok a \<longleftrightarrow> str_ok a \<and> (s_flags a AND ASN1_STRING_FLAG_BITS_LEFT \<noteq> 0 \<and> 0 < s_length a \<longrightarrow>
     bytes_of a ! (nat (s_length a) - 1) AND (push_bit (unat (s_flags a AND 7)) 1 - 1) = 0)"

lemma get_bit_eq:
  "ASN1_BIT_STRING_get_bit (Some a) n \<longleftrightarrow> s_data a \<noteq> None \<and> int (n div 8) < s_length a \<and> bit (bytes_of a ! (n div 8)) (7 - n mod 8)"
  by (auto simp: ASN1_BIT_STRING_get_bit_def Let_def and_exp_eq_0_iff_not_bit)

lemma strip_zeros_le: "strip_zeros d n \<le> n"
  by (induction n) auto

lemma strip_zeros_zero: "strip_zeros d n \<le> i \<Longrightarrow> i < n \<Longrightarrow> d ! i = 0"
  by (induction n) (auto simp: less_Suc_eq split: if_splits)

lemma strip_zeros_last: "0 < strip_zeros d n \<Longrightarrow> d ! (strip_zeros d n - 1) \<noteq> 0"
  by (induction n) (auto split: if_splits)

lemma same_bit: "m = n \<longleftrightarrow> m div 8 = n div 8 \<and> 7 - m mod 8 = 7 - n mod (8 :: nat)"
proof
  assume *: "m div 8 = n div 8 \<and> 7 - m mod 8 = 7 - n mod 8"
  have "m mod 8 < 8" "n mod 8 < 8" by simp_all
  with * have "m mod 8 = n mod 8" by linarith
  with * show "m = n" by (metis div_mult_mod_eq)
qed simp

lemma bit_byte_update: "bit ((b AND NOT (push_bit k 1)) OR (if v then push_bit k 1 else 0)) j \<longleftrightarrow> (if j = k \<and> k < 8 then v else bit (b :: byte) j)"
  by (cases "j < 8") (auto simp: bit_simps dest: bit_imp_le_length)

text \<open>The bits of a string, whether or not it has a block.\<close>

definition has_bit :: "ASN1_STRING \<Rightarrow> nat \<Rightarrow> bool" where
  "has_bit a m \<longleftrightarrow> ASN1_BIT_STRING_get_bit (Some a) m"

lemma set_bit_finish:
  assumes d: "s_data a = Some d" and w: "int (n div 8) < s_length a" "s_length a \<le> int (length d)" and k: "k = 7 - n mod 8"
    and d': "d' = d[n div 8 := (d ! (n div 8) AND NOT (push_bit k 1)) OR (if v then push_bit k 1 else 0)]"
    and a': "a' = a\<lparr>s_data := Some d', s_length := int (strip_zeros d' (nat (s_length a)))\<rparr>"
  shows "has_bit a' m \<longleftrightarrow> (if m = n then v else has_bit a m)"
proof -
  let ?w = "n div 8" and ?l = "nat (s_length a)" and ?i = "m div 8" and ?j = "7 - m mod 8"
  have k8: "k < 8" using k by simp
  have l: "?w < ?l" "?l \<le> length d" using w by simp_all
  have e: "d' ! i = (if i = ?w then (d ! ?w AND NOT (push_bit k 1)) OR (if v then push_bit k 1 else 0) else d ! i)" if "i < ?l" for i
    using that l by (simp add: d' nth_list_update)
  have in_range: "has_bit a' m \<longleftrightarrow> ?i < ?l \<and> bit (d' ! ?i) ?j"
  proof (cases "?i < strip_zeros d' ?l")
    case True
    then have "?i < ?l" using strip_zeros_le less_le_trans by blast
    with True show ?thesis by (simp add: has_bit_def get_bit_eq a' bytes_of_def)
  next
    case False
    then have "d' ! ?i = 0" if "?i < ?l" using strip_zeros_zero that by (metis not_less)
    with False show ?thesis by (auto simp: has_bit_def get_bit_eq a' bytes_of_def)
  qed
  have old: "has_bit a m \<longleftrightarrow> ?i < ?l \<and> bit (d ! ?i) ?j" using w by (auto simp: has_bit_def get_bit_eq d bytes_of_def)
  show ?thesis
  proof (cases "?i < ?l")
    case True
    have "bit (d' ! ?i) ?j = (if m = n then v else bit (d ! ?i) ?j)"
      unfolding e [OF True] using bit_byte_update [of "d ! ?w" k v ?j] k8 k same_bit [of m n] by (auto simp del: push_bit_of_1)
    with in_range old True show ?thesis by simp
  next
    case False
    with l have "m \<noteq> n" by auto
    with False in_range old show ?thesis by simp
  qed
qed

lemma strip_ok:
  assumes "length d < SIZE_MOD" "0 \<le> l" "l \<le> int (length d)" "l < 2 ^ 31 - 1"
  shows "str_ok (x\<lparr>s_data := Some d, s_length := int (strip_zeros d (nat l))\<rparr>)"
proof -
  have "int (strip_zeros d (nat l)) \<le> l" using strip_zeros_le [of d "nat l"] assms(2) by linarith
  with assms show ?thesis by (simp add: str_ok_def)
qed

lemma set_bit_array:
  assumes ok: "str_ok a" and n: "int (n div 8) + 2 < 2 ^ 31" and set: "ASN1_BIT_STRING_set_bit mem (Some a) n v = (r, b)"
  shows "\<exists>a'. b = Some a' \<and> str_ok a' \<and> s_flags a' AND ASN1_STRING_FLAG_BITS_LEFT = 0 \<and>
    (\<forall>m. has_bit a' m \<longleftrightarrow> (if m = n \<and> r then v else has_bit a m))"
proof -
  let ?w = "n div 8" and ?k = "7 - n mod 8"
  define f where "f = s_flags a AND NOT (ASN1_STRING_FLAG_BITS_LEFT OR 7)"
  define upd where "upd = (\<lambda>d :: byte list. d[?w := (d ! ?w AND NOT (push_bit ?k 1)) OR (if v then push_bit ?k 1 else 0)])"
  have f0: "f AND ASN1_STRING_FLAG_BITS_LEFT = 0" by (simp add: f_def ASN1_STRING_FLAG_BITS_LEFT_def and.assoc)
  have fl: "has_bit (x\<lparr>s_flags := f\<rparr>) m = has_bit x m" "str_ok (x\<lparr>s_flags := f\<rparr>) = str_ok x" for x m
    by (simp_all add: has_bit_def get_bit_eq bytes_of_def str_ok_def split: option.split)
  show ?thesis
  proof (cases "s_length a < int ?w + 1 \<or> s_data a = None")
    case False
    then obtain d where d: "s_data a = Some d" "int ?w < s_length a" by auto
    let ?a' = "a\<lparr>s_flags := f, s_data := Some (upd d), s_length := int (strip_zeros (upd d) (nat (s_length a)))\<rparr>"
    have b: "r" "b = Some ?a'" using set False d by (auto simp: ASN1_BIT_STRING_set_bit_def Let_def f_def upd_def bytes_of_def)
    have ok': "s_length a \<le> int (length d)" "length d < SIZE_MOD" using ok d by (auto simp: str_ok_def)
    have "has_bit ?a' m \<longleftrightarrow> (if m = n then v else has_bit (a\<lparr>s_flags := f\<rparr>) m)" for m
      by (rule set_bit_finish [OF _ _ _ refl refl]) (use d ok' in \<open>simp_all add: upd_def\<close>)
    moreover have "str_ok ?a'" using ok d ok' by (intro strip_ok) (auto simp: str_ok_def upd_def)
    ultimately show ?thesis using b f0 fl by auto
  next
    case True
    show ?thesis
    proof (cases v)
      case False
      have "b = Some (a\<lparr>s_flags := f\<rparr>)" using set True False by (auto simp: ASN1_BIT_STRING_set_bit_def Let_def f_def)
      moreover have "\<not> has_bit a n" using True by (auto simp: has_bit_def get_bit_eq)
      ultimately show ?thesis using False fl f0 ok by auto
    next
      case v: True
      define blk where "blk = (case s_data a of None \<Rightarrow> OPENSSL_malloc mem (?w + 1) | Some d \<Rightarrow> OPENSSL_realloc mem (Some d) (?w + 1))"
      show ?thesis
      proof (cases blk)
        case None
        have "\<not> r" "b = Some (a\<lparr>s_flags := f\<rparr>)" using set True v None by (auto simp: ASN1_BIT_STRING_set_bit_def Let_def f_def blk_def)
        then show ?thesis using fl f0 ok by auto
      next
        case (Some c)
        let ?l = "nat (s_length a)"
        have sm: "?w + 1 < SIZE_MOD" using n by simp
        have c: "length c = ?w + 1" using Some unfolding blk_def
          by (cases "s_data a") (use length_OPENSSL_malloc [OF _ sm] length_OPENSSL_realloc [OF _ sm] in simp_all)
        have l: "?l \<le> ?w" using True ok by (auto simp: str_ok_def split: option.splits)
        have keep: "take ?l c = take ?l (bytes_of a)"
        proof (cases "s_data a")
          case None
          with ok show ?thesis by (simp add: str_ok_def)
        next
          case (Some d)
          with ok \<open>blk = Some c\<close> l sm show ?thesis
            by (auto simp: blk_def bytes_of_def str_ok_def intro!: OPENSSL_realloc_keeps [where n = "?w + 1"])
        qed
        define c2 where "c2 = take ?l c @ replicate (?w + 1 - ?l) 0"
        have c2: "OPENSSL_memcpy c ?l (replicate (?w + 1 - ?l) 0) = c2" using c l by (simp add: OPENSSL_memcpy_def c2_def)
        let ?g = "a\<lparr>s_flags := f, s_data := Some c2, s_length := int ?w + 1\<rparr>"
        let ?a' = "?g\<lparr>s_data := Some (upd c2), s_length := int (strip_zeros (upd c2) (nat (s_length ?g)))\<rparr>"
        have nw: "nat (int ?w + 1) = ?w + 1" by simp
        have b: "r" "b = Some ?a'" using set True v Some c2 l
          by (auto simp: ASN1_BIT_STRING_set_bit_def Let_def f_def blk_def upd_def bytes_of_def)
        have len2: "length c2 = ?w + 1" using c l by (simp add: c2_def)
        have g: "has_bit ?g m = has_bit a m" for m
        proof -
          have "c2 ! i = (if i < ?l then bytes_of a ! i else 0)" if "i < ?w + 1" for i
          proof (cases "i < ?l")
            case True
            then have "c ! i = bytes_of a ! i" using keep by (metis nth_take)
            with True c l show ?thesis by (simp add: c2_def nth_append)
          qed (use that c l in \<open>simp add: c2_def nth_append\<close>)
          then show ?thesis using l ok by (auto simp: has_bit_def get_bit_eq bytes_of_def str_ok_def split: option.splits if_splits)
        qed
        have "has_bit ?a' m \<longleftrightarrow> (if m = n then v else has_bit ?g m)" for m
          by (rule set_bit_finish [OF _ _ _ refl refl]) (use len2 in \<open>simp_all add: upd_def\<close>)
        moreover have "str_ok ?a'" using n len2 by (intro strip_ok) (auto simp: upd_def)
        ultimately show ?thesis using b f0 g by auto
      qed
    qed
  qed
qed

end
