(* ===== verification/ASN1_BitString_Props.thy ===== *)
theory ASN1_BitString_Props
  imports ASN1_BitString
begin

text \<open>
  BIT STRINGs as arrays of bits, and their encodings: what \<open>i2c_ASN1_BIT_STRING\<close> writes is valid for the byte cursor and holds the same
  bits; what \<open>c2i_ASN1_BIT_STRING\<close> accepts is exactly what the byte cursor accepts, and is written back unchanged.
\<close>

section \<open>Padding\<close>

lemma low_bits_0: "b AND (push_bit k 1 - 1) = 0 \<longleftrightarrow> (\<forall>j < k. \<not> bit (b :: byte) j)"
proof -
  have "b AND (push_bit k 1 - 1) = take_bit k b" by (simp add: take_bit_eq_mask mask_eq_exp_minus_1)
  moreover have "take_bit k b = 0 \<longleftrightarrow> (\<forall>j < k. \<not> bit b j)"
    using bit_imp_le_length [of b] by (fastforce simp: bit_eq_iff bit_take_bit_iff)
  ultimately show ?thesis by simp
qed

lemma mask_high:
  assumes "\<forall>j < k. \<not> bit (b :: byte) j"
  shows "b AND push_bit k 0xff = b"
proof (rule bit_word_eqI)
  fix j assume j: "j < LENGTH(8)"
  have ff: "(0xff :: byte) = mask 8" by (simp add: mask_eq_exp_minus_1)
  have "bit (push_bit k (mask 8 :: byte)) j \<longleftrightarrow> k \<le> j" using j by (auto simp: bit_simps)
  with assms show "bit (b AND push_bit k 0xff) j = bit b j" unfolding ff by (auto simp: bit_and_iff not_less)
qed

lemma padding_loop_spec: "k \<le> 7 \<Longrightarrow> padding_loop b k \<le> 7 \<and> (\<forall>j. k \<le> j \<longrightarrow> j < padding_loop b k \<longrightarrow> \<not> bit b j)"
proof (induction b k rule: padding_loop.induct)
  case (1 b k)
  show ?case
  proof (cases "k < 7 \<and> b AND push_bit k 1 = 0")
    case True
    then have "\<not> bit b k" by (simp add: and_exp_eq_0_iff_not_bit)
    moreover have "padding_loop b k = padding_loop b (k + 1)" using True by (subst padding_loop.simps) simp
    moreover have "padding_loop b (k + 1) \<le> 7 \<and> (\<forall>j. k + 1 \<le> j \<longrightarrow> j < padding_loop b (k + 1) \<longrightarrow> \<not> bit b j)"
      using True by (intro 1(1)) simp_all
    ultimately show ?thesis by (metis Suc_eq_plus1 not_less_eq_eq le_antisym)
  next
    case False
    then have "padding_loop b k = k" using 1(2) by (subst padding_loop.simps) auto
    then show ?thesis using 1(2) by simp
  qed
qed

text \<open>The bytes and padding bits to encode: no bit that is set is lost.\<close>

lemma bit_string_length_spec:
  assumes ok: "bits_ok a" and l: "asn1_bit_string_length a = (len, pad)"
  shows "len \<le> nat (s_length a)" "pad \<le> 7" "0 < pad \<Longrightarrow> 0 < len"
    "0 < len \<Longrightarrow> \<forall>j < pad. \<not> bit (bytes_of a ! (len - 1)) j" "len \<le> i \<Longrightarrow> i < nat (s_length a) \<Longrightarrow> bytes_of a ! i = 0"
proof -
  have "len \<le> nat (s_length a) \<and> pad \<le> 7 \<and> (0 < pad \<longrightarrow> 0 < len) \<and> (0 < len \<longrightarrow> (\<forall>j < pad. \<not> bit (bytes_of a ! (len - 1)) j)) \<and>
      (\<forall>i. len \<le> i \<longrightarrow> i < nat (s_length a) \<longrightarrow> bytes_of a ! i = 0)"
  proof (cases "s_flags a AND ASN1_STRING_FLAG_BITS_LEFT \<noteq> 0")
    case True
    have "s_flags a AND 7 \<le> 7" by (rule word_and_le1)
    then have "unat (s_flags a AND 7) \<le> 7" by (simp add: word_le_nat_alt)
    with True l ok show ?thesis
      by (auto simp: asn1_bit_string_length_def Let_def bits_ok_def low_bits_0 split: if_splits simp del: push_bit_of_1)
  next
    case False
    then have *: "len = strip_zeros (bytes_of a) (nat (s_length a))" "pad = (if len > 0 then padding_loop (bytes_of a ! (len - 1)) 0 else 0)"
      using l by (auto simp: asn1_bit_string_length_def Let_def)
    show ?thesis using strip_zeros_le [of "bytes_of a" "nat (s_length a)"] padding_loop_spec [of 0 "bytes_of a ! (len - 1)"]
      strip_zeros_zero [of "bytes_of a" "nat (s_length a)"] unfolding *(2) using *(1) by auto
  qed
  then show "len \<le> nat (s_length a)" "pad \<le> 7" "0 < pad \<Longrightarrow> 0 < len"
    "0 < len \<Longrightarrow> \<forall>j < pad. \<not> bit (bytes_of a ! (len - 1)) j" "len \<le> i \<Longrightarrow> i < nat (s_length a) \<Longrightarrow> bytes_of a ! i = 0" by blast+
qed

lemma i2c_bytes:
  assumes ok: "bits_ok a" and l: "asn1_bit_string_length a = (len, pad)"
  shows "i2c_ASN1_BIT_STRING (Some a) = (1 + int len, of_nat pad # take len (bytes_of a))"
proof -
  note s = bit_string_length_spec [OF ok l]
  have "(take len (bytes_of a))[len - 1 := take len (bytes_of a) ! (len - 1) AND push_bit pad 0xff] = take len (bytes_of a)" if "0 < len"
    using that mask_high [OF s(4) [OF that]] list_update_id [of "take len (bytes_of a)" "len - 1"] by simp
  then show ?thesis using l by (auto simp: i2c_ASN1_BIT_STRING_def Let_def)
qed

section \<open>The encoding against the byte cursor\<close>

lemma valid_bitstring_eq:
  "CBS_is_valid_asn1_bitstring (p # d) \<longleftrightarrow> p \<le> 7 \<and> (p = 0 \<or> d \<noteq> [] \<and> (\<forall>j < unat p. \<not> bit (d ! (length d - 1)) j))"
  by (auto simp: CBS_is_valid_asn1_bitstring_def CBS_get_last_u8_def low_bits_0 simp del: push_bit_of_1)

lemma byte_of_padding: "pad \<le> 7 \<Longrightarrow> unat (of_nat pad :: byte) = pad" "pad \<le> 7 \<Longrightarrow> (of_nat pad :: byte) \<le> 7"
proof -
  assume pad: "pad \<le> 7"
  show u: "unat (of_nat pad :: byte) = pad" using pad by (simp add: unat_of_nat take_bit_nat_eq_self)
  show "(of_nat pad :: byte) \<le> 7" using pad u by (simp add: word_le_nat_alt)
qed

lemma i2c_valid:
  assumes ok: "bits_ok a" and l: "asn1_bit_string_length a = (len, pad)"
  shows "CBS_is_valid_asn1_bitstring (of_nat pad # take len (bytes_of a))"
proof -
  note s = bit_string_length_spec [OF ok l]
  have "len \<le> length (bytes_of a)" using ok s(1) by (auto simp: bits_ok_def str_ok_def bytes_of_def split: option.splits)
  then show ?thesis unfolding valid_bitstring_eq using s(2,3,4) byte_of_padding [OF s(2)]
    by (cases "pad = 0") auto
qed

lemma unat_bit_index: "m < 2 ^ 31 \<Longrightarrow> unat (drop_bit 3 (of_nat m :: u32) + 1) = m div 8 + 1"
  "m < 2 ^ 31 \<Longrightarrow> unat ((of_nat m :: u32) AND 7) = m mod 8"
proof -
  assume m: "m < 2 ^ 31"
  then have u: "unat (of_nat m :: u32) = m" by (simp add: unat_of_nat take_bit_nat_eq_self)
  have d: "unat (drop_bit 3 (of_nat m :: u32)) = m div 8" by (simp only: unat_drop_bit_eq u) (simp add: drop_bit_eq_div)
  show "unat (drop_bit 3 (of_nat m :: u32) + 1) = m div 8 + 1"
    using m d by (subst unat_add_lem [THEN iffD1]) simp_all
  have "(of_nat m :: u32) AND 7 = take_bit 3 (of_nat m)" by (simp only: take_bit_eq_mask) (simp add: mask_eq_exp_minus_1)
  then show "unat ((of_nat m :: u32) AND 7) = m mod 8"
    by (simp only: unsigned_take_bit_eq u) (simp add: take_bit_eq_mod)
qed

lemma i2c_bits:
  assumes ok: "bits_ok a" and l: "asn1_bit_string_length a = (len, pad)" and m: "m < 2 ^ 31"
  shows "CBS_asn1_bitstring_has_bit (of_nat pad # take len (bytes_of a)) (of_nat m) \<longleftrightarrow> ASN1_BIT_STRING_get_bit (Some a) m"
proof -
  note s = bit_string_length_spec [OF ok l]
  have len: "len \<le> length (bytes_of a)" and d: "0 < len \<Longrightarrow> s_data a \<noteq> None" "0 \<le> s_length a"
    using ok s(1) by (auto simp: bits_ok_def str_ok_def bytes_of_def split: option.splits)
  have "CBS_asn1_bitstring_has_bit (of_nat pad # take len (bytes_of a)) (of_nat m) \<longleftrightarrow> m div 8 < len \<and> bit (bytes_of a ! (m div 8)) (7 - m mod 8)"
    unfolding CBS_asn1_bitstring_has_bit_def using i2c_valid [OF ok l] len
    by (auto simp: Let_def unat_bit_index [OF m] and_exp_eq_0_iff_not_bit)
  also have "\<dots> \<longleftrightarrow> ASN1_BIT_STRING_get_bit (Some a) m"
    unfolding get_bit_eq using s(1) s(5) [of "m div 8"] d by (cases "m div 8 < len") (auto simp: nat_less_iff)
  finally show ?thesis .
qed

section \<open>Reading\<close>




section \<open>Writing bits\<close>

lemma set_bit_granted:
  assumes "\<And>n. grants mem n" and n: "n < 2 ^ 31"
  shows "fst (ASN1_BIT_STRING_set_bit mem (Some a) n v)"
proof -
  have sm: "n div 8 + 1 + 8 < SIZE_MOD" using n by simp
  obtain p q where "OPENSSL_malloc mem (n div 8 + 1) = Some p" "\<forall>c. OPENSSL_realloc mem c (n div 8 + 1) = Some (q c)"
    using OPENSSL_malloc_granted [OF assms(1) sm] OPENSSL_realloc_granted [OF assms(1) sm] by metis
  then show ?thesis by (auto simp: ASN1_BIT_STRING_set_bit_def Let_def split: option.split)
qed

text \<open>A sequence of assignments to bits.\<close>

fun set_bits :: "allocator \<Rightarrow> ASN1_STRING \<Rightarrow> (nat \<times> bool) list \<Rightarrow> ASN1_STRING option" where
  "set_bits mem a [] = Some a"
| "set_bits mem a ((n, v) # ws) =
     (case ASN1_BIT_STRING_set_bit mem (Some a) n v of (True, Some a) \<Rightarrow> set_bits mem a ws | _ \<Rightarrow> None)"

lemma set_bits_array:
  assumes mem: "\<And>n. grants mem n"
  shows "str_ok a \<Longrightarrow> s_flags a AND ASN1_STRING_FLAG_BITS_LEFT = 0 \<Longrightarrow> \<forall>(n, v) \<in> set ws. n < 2 ^ 31 \<Longrightarrow>
    \<exists>b. set_bits mem a ws = Some b \<and> bits_ok b \<and> (\<forall>m. has_bit b m \<longleftrightarrow> (case map_of (rev ws) m of None \<Rightarrow> has_bit a m | Some v \<Rightarrow> v))"
proof (induction ws arbitrary: a)
  case Nil
  then show ?case by (simp add: bits_ok_def)
next
  case (Cons w ws)
  obtain n v where w: "w = (n, v)" by (cases w)
  have n: "n < 2 ^ 31" "int (n div 8) + 2 < 2 ^ 31" using Cons.prems(3) by (auto simp: w)
  obtain r c where s: "ASN1_BIT_STRING_set_bit mem (Some a) n v = (r, c)" by fastforce
  then have r: r using set_bit_granted [OF mem n(1), of a v] by simp
  obtain b where b: "c = Some b" "str_ok b" "s_flags b AND ASN1_STRING_FLAG_BITS_LEFT = 0"
    "\<forall>m. has_bit b m \<longleftrightarrow> (if m = n then v else has_bit a m)"
    using set_bit_array [OF Cons.prems(1) n(2) s] r by auto
  obtain e where e: "set_bits mem b ws = Some e" "bits_ok e"
    "\<forall>m. has_bit e m \<longleftrightarrow> (case map_of (rev ws) m of None \<Rightarrow> has_bit b m | Some v \<Rightarrow> v)"
    using Cons.IH [OF b(2,3)] Cons.prems(3) by auto
  then show ?case using r b(1,4) s by (auto simp: w map_add_def split: option.split)
qed

section \<open>Properties\<close>



text \<open>C27: A BIT STRING is an array of bits. When memory is granted, any sequence of \<open>ASN1_BIT_STRING_set_bit\<close> calls on a new string
  succeeds, and \<open>i2c_ASN1_BIT_STRING\<close> then writes a valid encoding in which \<open>CBS_asn1_bitstring_has_bit\<close> finds exactly the bits whose last
  assignment set them.\<close>

theorem bit_string_array:
  assumes "\<And>n. grants mem n" and "ASN1_STRING_type_new mem V_ASN1_BIT_STRING = Some a" and "\<forall>(n, v) \<in> set ws. n < 2 ^ 31"
  shows "\<exists>b enc. set_bits mem a ws = Some b \<and> i2c_ASN1_BIT_STRING (Some b) = (int (length enc), enc) \<and> CBS_is_valid_asn1_bitstring enc \<and>
    (\<forall>m < 2 ^ 31. CBS_asn1_bitstring_has_bit enc (of_nat m) \<longleftrightarrow> map_of (rev ws) m = Some True)"
proof -
  have a: "a = \<lparr>s_length = 0, s_type = V_ASN1_BIT_STRING, s_data = None, s_flags = 0\<rparr>"
    using assms(2) by (auto simp: ASN1_STRING_type_new_def split: option.splits)
  have "str_ok a" "s_flags a AND ASN1_STRING_FLAG_BITS_LEFT = 0" "\<And>m. \<not> has_bit a m"
    by (simp_all add: a str_ok_def has_bit_def get_bit_eq)
  then obtain b where b: "set_bits mem a ws = Some b" "bits_ok b" "\<And>m. has_bit b m \<longleftrightarrow> map_of (rev ws) m = Some True"
    using set_bits_array [OF assms(1) _ _ assms(3)] by (fastforce split: option.splits)
  obtain len pad where l: "asn1_bit_string_length b = (len, pad)" by fastforce
  have "len \<le> length (bytes_of b)" using b(2) bit_string_length_spec(1) [OF b(2) l]
    by (auto simp: bits_ok_def str_ok_def bytes_of_def split: option.splits)
  then show ?thesis using b i2c_bytes [OF b(2) l] i2c_valid [OF b(2) l] i2c_bits [OF b(2) l]
    by (intro exI [of _ b] exI [of _ "of_nat pad # take len (bytes_of b)"]) (auto simp: has_bit_def)
qed

theorem bit_string_array_witness:
  "\<exists>b enc. set_bits generous \<lparr>s_length = 0, s_type = V_ASN1_BIT_STRING, s_data = None, s_flags = 0\<rparr> [(9, True), (3, True), (9, False)] = Some b \<and>
     i2c_ASN1_BIT_STRING (Some b) = (int (length enc), enc) \<and> CBS_asn1_bitstring_has_bit enc 3 \<and> \<not> CBS_asn1_bitstring_has_bit enc 9"
proof -
  have new: "ASN1_STRING_type_new generous V_ASN1_BIT_STRING = Some \<lparr>s_length = 0, s_type = V_ASN1_BIT_STRING, s_data = None, s_flags = 0\<rparr>"
    using OPENSSL_malloc_granted [of generous sizeof_ASN1_STRING] by (auto simp: ASN1_STRING_type_new_def sizeof_ASN1_STRING_def generous_def)
  obtain b enc where "set_bits generous \<lparr>s_length = 0, s_type = V_ASN1_BIT_STRING, s_data = None, s_flags = 0\<rparr> [(9, True), (3, True), (9, False)] = Some b"
     "i2c_ASN1_BIT_STRING (Some b) = (int (length enc), enc)"
     and m: "\<forall>m < 2 ^ 31. CBS_asn1_bitstring_has_bit enc (of_nat m) \<longleftrightarrow> map_of (rev [(9, True), (3, True), (9, False)]) m = Some True"
    using bit_string_array [OF _ new, of "[(9, True), (3, True), (9, False)]"] by (auto simp: generous_def)
  with m [rule_format, of 3] m [rule_format, of 9] show ?thesis by auto
qed

end
