(* ===== verification/BN_Words.thy ===== *)
theory BN_Words
  imports ConstTime
begin

text \<open>
  The loops over limbs of \<^verbatim>\<open>crypto/fipsmodule/bn/generic.c\<close>, the comparison of \<^verbatim>\<open>cmp.c\<close> and the helpers of \<^verbatim>\<open>bn.c\<close> on arrays of limbs, in the
  configuration with a two-word integer (\<open>BN_ULLONG\<close>). An array is the list of its limbs, the least significant first. A routine gives
  back the limbs it writes and its carry: each limb is read before the limb at the same position is written, so the destination
  may be one of the sources.
\<close>

unbundle bit_operations_syntax

type_synonym limb = u64
type_synonym dlimb = "128 word"

section \<open>Operations\<close>

definition BN_BITS2 :: nat where "BN_BITS2 = 64"

definition Lw :: "dlimb \<Rightarrow> limb" where
  "Lw t = ucast t"

definition Hw :: "dlimb \<Rightarrow> limb" where
  "Hw t = ucast (drop_bit BN_BITS2 t)"

text \<open>A loop with a carry, one limb at a time and four at a time as the routines are unrolled.\<close>

fun limb_loop :: "('x \<Rightarrow> 'c \<Rightarrow> limb \<times> 'c) \<Rightarrow> 'x list \<Rightarrow> 'c \<Rightarrow> limb list \<times> 'c" where
  "limb_loop step [] c = ([], c)"
| "limb_loop step (x # xs) c = (case step x c of (r, c) \<Rightarrow> case limb_loop step xs c of (rs, c) \<Rightarrow> (r # rs, c))"

fun limb_loop4 :: "('x \<Rightarrow> 'c \<Rightarrow> limb \<times> 'c) \<Rightarrow> 'x list \<Rightarrow> 'c \<Rightarrow> limb list \<times> 'c" where
  "limb_loop4 step (x0 # x1 # x2 # x3 # xs) c =
     (case step x0 c of (r0, c) \<Rightarrow> case step x1 c of (r1, c) \<Rightarrow> case step x2 c of (r2, c) \<Rightarrow> case step x3 c of (r3, c) \<Rightarrow>
        case limb_loop4 step xs c of (rs, c) \<Rightarrow> (r0 # r1 # r2 # r3 # rs, c))"
| "limb_loop4 step xs c = limb_loop step xs c"

definition mul_add :: "limb \<Rightarrow> limb \<times> limb \<Rightarrow> limb \<Rightarrow> limb \<times> limb" where
  "mul_add w = (\<lambda>(r, a) c. let t = ucast w * ucast a + ucast r + ucast c :: dlimb in (Lw t, Hw t))"

definition mul :: "limb \<Rightarrow> limb \<Rightarrow> limb \<Rightarrow> limb \<times> limb" where
  "mul w a c = (let t = ucast w * ucast a + ucast c :: dlimb in (Lw t, Hw t))"

definition sqr :: "limb \<Rightarrow> limb \<times> limb" where
  "sqr a = (let t = ucast a * ucast a :: dlimb in (Lw t, Hw t))"

definition bn_mul_add_words :: "limb list \<Rightarrow> limb list \<Rightarrow> nat \<Rightarrow> limb \<Rightarrow> limb list \<times> limb" where
  "bn_mul_add_words rp ap num w = (if num = 0 then ([], 0) else limb_loop4 (mul_add w) (zip (take num rp) (take num ap)) 0)"

definition bn_mul_words :: "limb list \<Rightarrow> nat \<Rightarrow> limb \<Rightarrow> limb list \<times> limb" where
  "bn_mul_words ap num w = (if num = 0 then ([], 0) else limb_loop4 (mul w) (take num ap) 0)"

text \<open>Two limbs are written for each one read.\<close>

fun sqr_loop :: "limb list \<Rightarrow> limb list" where
  "sqr_loop (a0 # a1 # a2 # a3 # as) =
     (case sqr a0 of (r0, r1) \<Rightarrow> case sqr a1 of (r2, r3) \<Rightarrow> case sqr a2 of (r4, r5) \<Rightarrow> case sqr a3 of (r6, r7) \<Rightarrow>
        r0 # r1 # r2 # r3 # r4 # r5 # r6 # r7 # sqr_loop as)"
| "sqr_loop [] = []"
| "sqr_loop (a # as) = (case sqr a of (r0, r1) \<Rightarrow> r0 # r1 # sqr_loop as)"

definition bn_sqr_words :: "limb list \<Rightarrow> nat \<Rightarrow> limb list" where
  "bn_sqr_words a n = (if n = 0 then [] else sqr_loop (take n a))"

definition add_step :: "limb \<times> limb \<Rightarrow> dlimb \<Rightarrow> limb \<times> dlimb" where
  "add_step = (\<lambda>(a, b) ll. let ll = ll + (ucast a + ucast b) in (ucast ll, drop_bit BN_BITS2 ll))"

definition bn_add_words :: "limb list \<Rightarrow> limb list \<Rightarrow> nat \<Rightarrow> limb list \<times> limb" where
  "bn_add_words a b n = (if n = 0 then ([], 0)
     else case limb_loop4 add_step (zip (take n a) (take n b)) 0 of (r, ll) \<Rightarrow> (r, ucast ll))"

text \<open>The borrow is an \<open>int\<close> that is zero or one.\<close>

definition sub_step :: "limb \<times> limb \<Rightarrow> bool \<Rightarrow> limb \<times> bool" where
  "sub_step = (\<lambda>(t1, t2) c. (t1 - t2 - of_bool c, if t1 \<noteq> t2 then t1 < t2 else c))"

definition bn_sub_words :: "limb list \<Rightarrow> limb list \<Rightarrow> nat \<Rightarrow> limb list \<times> limb" where
  "bn_sub_words a b n = (if n = 0 then ([], 0)
     else case limb_loop4 sub_step (zip (take n a) (take n b)) False of (r, c) \<Rightarrow> (r, of_bool c))"

text \<open>The loop that compares the common limbs, the later ones deciding, and the one that collects the other limbs.\<close>

fun cmp_loop :: "limb list \<Rightarrow> limb list \<Rightarrow> 32 word \<Rightarrow> 32 word" where
  "cmp_loop (a # as) (b # bs) ret =
     (let eq = constant_time_eq_w a b; lt = constant_time_lt_w a b
      in cmp_loop as bs (constant_time_select_int eq ret (constant_time_select_int lt (- 1) 1)))"
| "cmp_loop as bs ret = ret"

fun or_limbs :: "limb list \<Rightarrow> limb \<Rightarrow> limb" where
  "or_limbs [] msk = msk"
| "or_limbs (a # as) msk = or_limbs as (msk OR a)"

definition bn_cmp_words_consttime :: "limb list \<Rightarrow> nat \<Rightarrow> limb list \<Rightarrow> nat \<Rightarrow> int" where
  "bn_cmp_words_consttime a a_len b b_len =
     (let m = (if a_len < b_len then a_len else b_len);
          ret = cmp_loop (take m a) (take m b) 0;
          ret = (if a_len < b_len then
                   constant_time_select_int (constant_time_is_zero_w (or_limbs (drop a_len (take b_len b)) 0)) ret (- 1)
                 else if b_len < a_len then
                   constant_time_select_int (constant_time_is_zero_w (or_limbs (drop b_len (take a_len a)) 0)) ret 1
                 else ret)
      in sint ret)"

definition bn_less_than_words :: "limb list \<Rightarrow> limb list \<Rightarrow> nat \<Rightarrow> bool" where
  "bn_less_than_words a b len \<longleftrightarrow> bn_cmp_words_consttime a len b len < 0"

definition bn_select_words :: "limb \<Rightarrow> limb list \<Rightarrow> limb list \<Rightarrow> nat \<Rightarrow> limb list" where
  "bn_select_words msk a b num = map (\<lambda>(a, b). constant_time_select_w msk a b) (zip (take num a) (take num b))"

text \<open>The loops that carry through the remaining limbs of the longer number: addition, subtraction, and subtraction from zero.\<close>

definition carry_step :: "limb \<Rightarrow> limb \<Rightarrow> limb \<times> limb" where
  "carry_step a carry = (let tmp = carry + a in (tmp, of_bool (tmp < a)))"

definition borrow_step :: "limb \<Rightarrow> limb \<Rightarrow> limb \<times> limb" where
  "borrow_step a borrow = (let r = a - borrow in (r, of_bool (a < r)))"

definition neg_step :: "limb \<Rightarrow> limb \<Rightarrow> limb \<times> limb" where
  "neg_step b borrow = (let r = 0 - b - borrow in (r, borrow OR of_bool (r \<noteq> 0)))"

section \<open>The number an array stands for\<close>

definition limb_base :: nat where "limb_base = 2 ^ 64"

fun limbs_val :: "limb list \<Rightarrow> nat" where
  "limbs_val [] = 0"
| "limbs_val (w # ws) = unat w + limb_base * limbs_val ws"

lemma limb_less [simp]: "unat (w :: limb) < limb_base"
  using unsigned_less [of w, where 'a = nat] by (simp add: limb_base_def)

lemma limb_base_pos [simp]: "0 < limb_base" "limb_base \<noteq> 0"
  by (simp_all add: limb_base_def)

lemma limbs_val_append: "limbs_val (xs @ ys) = limbs_val xs + limb_base ^ length xs * limbs_val ys"
  by (induction xs) (simp_all add: algebra_simps)

lemma limbs_val_less: "limbs_val ws < limb_base ^ length ws"
proof (induction ws)
  case (Cons w ws)
  have "unat w + limb_base * limbs_val ws < limb_base + limb_base * limbs_val ws" by simp
  also have "\<dots> = limb_base * (limbs_val ws + 1)" by (simp add: algebra_simps)
  also have "\<dots> \<le> limb_base * limb_base ^ length ws" using Cons by (intro mult_le_mono2) simp
  finally show ?case by simp
qed simp

lemma limbs_val_take_less: "n \<le> length ws \<Longrightarrow> limbs_val (take n ws) < limb_base ^ n"
  using limbs_val_less [of "take n ws"] by (simp only: length_take min.absorb2)

lemma limbs_val_replicate_0 [simp]: "limbs_val (replicate n 0) = 0"
  by (induction n) simp_all

lemma limbs_val_0_iff: "limbs_val ws = 0 \<longleftrightarrow> (\<forall>w \<in> set ws. w = 0)"
  by (induction ws) (auto simp: unat_eq_0)

lemma limbs_val_inj: "length xs = length ys \<Longrightarrow> limbs_val xs = limbs_val ys \<Longrightarrow> xs = ys"
proof (induction xs ys rule: list_induct2)
  case (Cons x xs y ys)
  have "unat x = (unat x + limb_base * limbs_val xs) mod limb_base" by simp
  also have "\<dots> = (unat y + limb_base * limbs_val ys) mod limb_base" using Cons.prems by simp
  also have "\<dots> = unat y" by simp
  finally have "unat x = unat y" .
  with Cons show ?case by (simp add: word_unat_eq_iff)
qed simp

lemma limbs_val_take_drop: "limbs_val ws = limbs_val (take n ws) + limb_base ^ min n (length ws) * limbs_val (drop n ws)"
  using limbs_val_append [of "take n ws" "drop n ws"] by (simp add: min.commute)

section \<open>Loops with a carry\<close>

text \<open>The contract of a step: the limb written and the new carry have the weight of the limbs read and the old carry.\<close>

locale limb_step =
  fixes step :: "'x \<Rightarrow> 'c \<Rightarrow> limb \<times> 'c" and weight :: "'x \<Rightarrow> int" and cval :: "'c \<Rightarrow> int" and cok :: "'c \<Rightarrow> bool"
  assumes step: "cok c \<Longrightarrow> step x c = (r, c') \<Longrightarrow> cok c' \<and> int (unat r) + int limb_base * cval c' = weight x + cval c"
begin

fun total :: "'x list \<Rightarrow> int" where
  "total [] = 0"
| "total (x # xs) = weight x + int limb_base * total xs"

lemma loop:
  "cok c \<Longrightarrow> limb_loop step xs c = (rs, c') \<Longrightarrow>
    length rs = length xs \<and> cok c' \<and> int (limbs_val rs) + int limb_base ^ length xs * cval c' = total xs + cval c"
proof (induction xs arbitrary: c rs c')
  case (Cons x xs)
  obtain r d where s: "step x c = (r, d)" by fastforce
  obtain rs' e where l: "limb_loop step xs d = (rs', e)" by fastforce
  from Cons.prems(2) s l have rs: "rs = r # rs'" "c' = e" by simp_all
  note st = step [OF Cons.prems(1) s]
  from Cons.IH [OF conjunct1 [OF st] l] rs
  have ih: "length rs' = length xs" "cok c'" "int (limbs_val rs') + int limb_base ^ length xs * cval c' = total xs + cval d" by simp_all
  have "int (limbs_val rs) + int limb_base ^ length (x # xs) * cval c' =
      int (unat r) + int limb_base * (int (limbs_val rs') + int limb_base ^ length xs * cval c')"
    by (simp add: rs(1) algebra_simps)
  also have "\<dots> = int (unat r) + int limb_base * cval d + int limb_base * total xs" unfolding ih(3) by (simp only: algebra_simps)
  finally show ?case using st ih rs(1) by simp
qed simp

end

lemma limb_loop4_eq: "limb_loop4 step xs c = limb_loop step xs c"
  by (induction step xs c rule: limb_loop4.induct) (simp_all split: prod.split)

lemma limb_loop_append:
  "limb_loop step (xs @ ys) c = (case limb_loop step xs c of (rs, c) \<Rightarrow> case limb_loop step ys c of (ss, c) \<Rightarrow> (rs @ ss, c))"
  by (induction xs arbitrary: c) (simp_all split: prod.split)


section \<open>The steps\<close>

lemma Lw_Hw: "unat (Lw t) + limb_base * unat (Hw t) = unat t"
proof -
  have "unat t < 2 ^ 128" using unsigned_less [of t, where 'a = nat] by simp
  then have "unat t div 2 ^ 64 < 2 ^ 64" by (simp add: less_mult_imp_div_less)
  then have "unat (Hw t) = unat t div 2 ^ 64"
    by (simp only: Hw_def BN_BITS2_def unsigned_ucast_eq unat_drop_bit_eq) (simp add: drop_bit_eq_div take_bit_nat_eq_self)
  moreover have "unat (Lw t) = unat t mod 2 ^ 64" by (simp add: Lw_def unsigned_ucast_eq take_bit_eq_mod)
  ultimately show ?thesis by (simp add: limb_base_def)
qed

lemma unat_ucast_limb [simp]: "unat (ucast (w :: limb) :: dlimb) = unat w"
  using limb_less [of w] by (simp add: unsigned_ucast_eq take_bit_nat_eq_self limb_base_def)

text \<open>A product of two limbs and two more limbs fits a double limb.\<close>

lemma limb_product_less: "unat (w :: limb) * unat (a :: limb) + unat (r :: limb) + unat (c :: limb) < 2 ^ 128"
proof -
  have le: "unat x \<le> limb_base - 1" for x :: limb using limb_less [of x] by linarith
  have "unat w * unat a \<le> (limb_base - 1) * (limb_base - 1)" by (intro mult_le_mono le)
  moreover have "(limb_base - 1) * (limb_base - 1) + (limb_base - 1) + (limb_base - 1) < 2 ^ 128" by (simp add: limb_base_def)
  ultimately show ?thesis using le [of r] le [of c] by linarith
qed

lemma unat_limb_product: "unat (ucast w * ucast a + ucast r + ucast c :: dlimb) = unat (w :: limb) * unat (a :: limb) + unat (r :: limb) + unat (c :: limb)"
  using limb_product_less [of w a r c] by (simp add: unat_word_ariths mod_simps)

lemma mul_add_step: "mul_add w (r, a) c = (r', c') \<Longrightarrow> unat r' + limb_base * unat c' = unat r + unat w * unat a + unat c"
  using Lw_Hw [of "ucast w * ucast a + ucast r + ucast c"] by (auto simp: mul_add_def Let_def unat_limb_product)

lemma mul_step: "mul w a c = (r', c') \<Longrightarrow> unat r' + limb_base * unat c' = unat w * unat a + unat c"
  using Lw_Hw [of "ucast w * ucast a + ucast c"] unat_limb_product [of w a 0 c] by (auto simp: mul_def Let_def)

lemma sqr_step: "sqr a = (r0, r1) \<Longrightarrow> unat r0 + limb_base * unat r1 = unat a * unat a"
  using Lw_Hw [of "ucast a * ucast a"] unat_limb_product [of a a 0 0] by (auto simp: sqr_def Let_def)

interpretation mul_add: limb_step "mul_add w" "\<lambda>(r, a). int (unat r) + int (unat w) * int (unat a)" "\<lambda>c. int (unat c)" "\<lambda>_. True" for w
  by unfold_locales (auto dest!: mul_add_step simp flip: of_nat_mult of_nat_add simp del: of_nat_unat)

interpretation mul: limb_step "mul w" "\<lambda>a. int (unat w) * int (unat a)" "\<lambda>c. int (unat c)" "\<lambda>_. True" for w
  by unfold_locales (auto dest!: mul_step simp flip: of_nat_mult of_nat_add simp del: of_nat_unat)

lemma add_step_spec:
  assumes ll: "ll \<le> 1" and s: "add_step (a, b) ll = (r, ll')"
  shows "ll' \<le> 1 \<and> unat r + limb_base * unat ll' = unat a + unat b + unat ll"
proof -
  let ?t = "ll + (ucast a + ucast b) :: dlimb"
  have l: "unat ll \<le> 1" using ll by (simp add: word_le_nat_alt)
  have t: "unat ?t = unat ll + (unat a + unat b)" "unat ?t < 2 * limb_base"
    using limb_less [of a] limb_less [of b] l unfolding limb_base_def by (simp_all add: unat_word_ariths)
  have r: "r = Lw ?t" "ll' = drop_bit 64 ?t" using s by (simp_all add: add_step_def Let_def Lw_def BN_BITS2_def)
  have "unat ll' = unat ?t div limb_base" by (simp only: r(2) unat_drop_bit_eq) (simp add: drop_bit_eq_div limb_base_def)
  moreover have "unat ?t div limb_base < 2" using t(2) by (simp only: less_mult_imp_div_less mult.commute [of 2])
  ultimately have le: "unat ll' \<le> 1" by linarith
  then have "unat ll' = unat (Hw ?t)" by (simp add: Hw_def BN_BITS2_def r(2) [symmetric] unsigned_ucast_eq take_bit_nat_eq_self)
  then show ?thesis using Lw_Hw [of ?t] t(1) r(1) le by (simp add: word_le_nat_alt)
qed

interpretation add: limb_step add_step "\<lambda>(a, b). int (unat a) + int (unat b)" "\<lambda>c. int (unat c)" "\<lambda>c. c \<le> 1"
proof unfold_locales
  fix c c' :: dlimb and x :: "limb \<times> limb" and r assume c: "c \<le> 1" "add_step x c = (r, c')"
  obtain a b where x: "x = (a, b)" by (cases x)
  from add_step_spec [OF c(1) c(2) [unfolded x]]
  show "c' \<le> 1 \<and> int (unat r) + int limb_base * int (unat c') = (case x of (a, b) \<Rightarrow> int (unat a) + int (unat b)) + int (unat c)"
    by (simp only: x prod.case of_nat_add [symmetric] of_nat_mult [symmetric])
qed

lemma unat_limb_sub: "unat (a - b :: limb) = (if unat b \<le> unat a then unat a - unat b else limb_base + unat a - unat b)"
  unfolding unat_sub_if_size limb_base_def word_size by (simp only: add.commute [of "unat a" "2 ^ LENGTH(64)"]) simp

lemma int_limb_sub: "int (unat (a - b :: limb)) = int (unat a) - int (unat b) + int limb_base * of_bool (unat a < unat b)"
proof -
  have "unat b \<le> limb_base + unat a" using limb_less [of b] by linarith
  then show ?thesis by (simp add: unat_limb_sub of_nat_diff del: of_nat_unat)
qed

lemma limb_sub_borrow:
  "int (unat (a - b - of_bool c :: limb)) + int limb_base * - of_bool (if a \<noteq> b then a < b else c) = int (unat a) - int (unat b) - of_bool c"
proof -
  have o: "int (unat (of_bool c :: limb)) = of_bool c" "unat (of_bool c :: limb) = of_bool c" by simp_all
  have d: "unat (a - b) < of_bool c \<longleftrightarrow> c \<and> a = b" by (auto simp: unat_eq_0)
  show ?thesis unfolding int_limb_sub [of "a - b"] int_limb_sub [of a b] o d by (auto simp: word_less_nat_alt simp del: of_nat_unat)
qed

interpretation sub: limb_step sub_step "\<lambda>(a, b). int (unat a) - int (unat b)" "\<lambda>c. - of_bool c" "\<lambda>_. True"
proof unfold_locales
  fix c x r c' assume "sub_step x c = (r, c')"
  then obtain a b where x: "x = (a, b)" "r = a - b - of_bool c" "c' = (if a \<noteq> b then a < b else c)"
    by (cases x) (simp add: sub_step_def)
  show "True \<and> int (unat r) + int limb_base * - of_bool c' = (case x of (a, b) \<Rightarrow> int (unat a) - int (unat b)) + - of_bool c"
    using limb_sub_borrow [of a b c] unfolding x by simp
qed

lemma unat_limb_add: "unat (a + b :: limb) = (if unat a + unat b < limb_base then unat a + unat b else unat a + unat b - limb_base)"
  using limb_less [of a] limb_less [of b] by (auto simp: unat_word_ariths limb_base_def mod_if)

interpretation carry: limb_step carry_step "\<lambda>a. int (unat a)" "\<lambda>c. int (unat c)" "\<lambda>_. True"
proof unfold_locales
  fix c a r c' :: limb assume "carry_step a c = (r, c')"
  then have r: "r = c + a" "c' = of_bool (c + a < a)" by (auto simp: carry_step_def Let_def)
  note le = unat_limb_add [of c a]
  have c: "unat c < limb_base" by simp
  have "int (unat (c + a)) + int limb_base * of_bool (unat (c + a) < unat a) = int (unat a) + int (unat c)"
    unfolding le using c by (cases "unat c + unat a < limb_base") (auto simp: of_nat_diff simp del: of_nat_unat limb_less)
  then show "True \<and> int (unat r) + int limb_base * int (unat c') = int (unat a) + int (unat c)"
    by (cases "unat (c + a) < unat a") (simp_all add: r word_less_nat_alt del: of_nat_unat)
qed

interpretation borrow: limb_step borrow_step "\<lambda>a. int (unat a)" "\<lambda>c. - int (unat c)" "\<lambda>_. True"
proof unfold_locales
  fix c a r c' :: limb assume "borrow_step a c = (r, c')"
  then have r: "r = a - c" "c' = of_bool (a < a - c)" by (auto simp: borrow_step_def Let_def)
  have "a < a - c \<longleftrightarrow> unat a < unat c" using limb_less [of c] unfolding word_less_nat_alt unat_limb_sub
    by (cases "unat c \<le> unat a") (simp_all del: limb_less)
  then show "True \<and> int (unat r) + int limb_base * - int (unat c') = int (unat a) + - int (unat c)"
    by (simp add: r int_limb_sub del: of_nat_unat)
qed

interpretation neg: limb_step neg_step "\<lambda>b. - int (unat b)" "\<lambda>c. - int (unat c)" "\<lambda>c. c \<le> 1"
proof unfold_locales
  fix c b r c' :: limb assume c: "c \<le> 1" and "neg_step b c = (r, c')"
  then have r: "r = 0 - b - c" "c' = c OR of_bool (r \<noteq> 0)" by (auto simp: neg_step_def Let_def)
  from c have c01: "c = 0 \<or> c = 1" by (auto simp: word_le_nat_alt word_unat_eq_iff)
  then have b: "c = of_bool (c = 1)" by auto
  have "c' = of_bool (if 0 \<noteq> b then 0 < b else c = 1)"
  proof (cases "b = 0")
    case False
    then show ?thesis using c01 by (auto simp: r word_gt_0)
  qed (use c01 in \<open>auto simp: r\<close>)
  moreover have "int (unat r) + int limb_base * - of_bool (if 0 \<noteq> b then 0 < b else c = 1) = - int (unat b) - of_bool (c = 1)"
    using limb_sub_borrow [of 0 b "c = 1"] b unfolding r(1) by simp
  moreover have "int (unat c) = of_bool (c = 1)" using c01 by auto
  moreover have "int (unat (of_bool P :: limb)) = of_bool P" "(of_bool P :: limb) \<le> 1" for P by simp_all
  ultimately show "c' \<le> 1 \<and> int (unat r) + int limb_base * - int (unat c') = - int (unat b) + - int (unat c)"
    by (simp only: diff_conv_add_uminus simp_thms)
qed

section \<open>The routines\<close>

lemma carry_total: "carry.total as = int (limbs_val as)"
  by (induction as) (simp_all del: of_nat_unat)

lemma borrow_total: "borrow.total as = int (limbs_val as)"
  by (induction as) (simp_all del: of_nat_unat)

lemma neg_total: "neg.total as = - int (limbs_val as)"
  by (induction as) (simp_all del: of_nat_unat)

lemma mul_total: "mul.total w as = int (unat w) * int (limbs_val as)"
proof (induction as)
  case (Cons a as)
  show ?case unfolding mul.total.simps Cons limbs_val.simps of_nat_add of_nat_mult by (simp only: algebra_simps)
qed (simp del: of_nat_unat)

lemma add_total: "length as = length bs \<Longrightarrow> add.total (zip as bs) = int (limbs_val as) + int (limbs_val bs)"
  by (induction as bs rule: list_induct2) (simp_all add: distrib_left del: of_nat_unat)

lemma sub_total: "length as = length bs \<Longrightarrow> sub.total (zip as bs) = int (limbs_val as) - int (limbs_val bs)"
  by (induction as bs rule: list_induct2) (simp_all add: right_diff_distrib del: of_nat_unat)

lemma mul_add_total: "length as = length bs \<Longrightarrow> mul_add.total w (zip as bs) = int (limbs_val as) + int (unat w) * int (limbs_val bs)"
proof (induction as bs rule: list_induct2)
  case (Cons a as b bs)
  show ?case unfolding zip_Cons_Cons mul_add.total.simps Cons(2) limbs_val.simps of_nat_add of_nat_mult prod.case by (simp only: algebra_simps)
qed (simp del: of_nat_unat)

lemma bn_add_words_spec:
  assumes n: "n \<le> length a" "n \<le> length b" and s: "bn_add_words a b n = (r, c)"
  shows "length r = n" "unat c \<le> 1" "limbs_val r + limb_base ^ n * unat c = limbs_val (take n a) + limbs_val (take n b)"
proof -
  obtain ll where l: "limb_loop add_step (zip (take n a) (take n b)) 0 = (r, ll)" and c: "c = ucast ll"
    using s by (auto simp: bn_add_words_def limb_loop4_eq split: if_splits prod.splits)
  have "length (zip (take n a) (take n b)) = n" using n by simp
  with add.loop [OF _ l] add_total [of "take n a" "take n b"] n
  have r: "length r = n" "ll \<le> 1" "int (limbs_val r) + int limb_base ^ n * int (unat ll) = int (limbs_val (take n a)) + int (limbs_val (take n b))"
    by simp_all
  have "unat ll \<le> 1" using r(2) by (simp add: word_le_nat_alt)
  then have "unat c = unat ll" by (simp add: c unsigned_ucast_eq take_bit_nat_eq_self)
  then show "length r = n" "unat c \<le> 1" "limbs_val r + limb_base ^ n * unat c = limbs_val (take n a) + limbs_val (take n b)"
    using r(1,3) \<open>unat ll \<le> 1\<close> by (simp_all del: of_nat_unat flip: of_nat_add of_nat_mult of_nat_power)
qed

lemma bn_sub_words_spec:
  assumes n: "n \<le> length a" "n \<le> length b" and s: "bn_sub_words a b n = (r, c)"
  shows "length r = n" "unat c \<le> 1" "limbs_val r + limbs_val (take n b) = limbs_val (take n a) + limb_base ^ n * unat c"
proof -
  obtain d where l: "limb_loop sub_step (zip (take n a) (take n b)) False = (r, d)" and c: "c = of_bool d"
    using s by (auto simp: bn_sub_words_def limb_loop4_eq split: if_splits prod.splits)
  have "length (zip (take n a) (take n b)) = n" using n by simp
  with sub.loop [OF _ l] sub_total [of "take n a" "take n b"] n
  have r: "length r = n" "int (limbs_val r) - int limb_base ^ n * of_bool d = int (limbs_val (take n a)) - int (limbs_val (take n b))"
    by simp_all
  have u: "unat c = of_bool d" by (simp add: c)
  have "int (limbs_val r + limbs_val (take n b)) = int (limbs_val (take n a) + limb_base ^ n * unat c)"
    using r(2) unfolding u by simp
  then show "limbs_val r + limbs_val (take n b) = limbs_val (take n a) + limb_base ^ n * unat c" by (simp only: of_nat_eq_iff)
  show "length r = n" "unat c \<le> 1" using r(1) u by simp_all
qed

lemma bn_mul_words_spec:
  assumes n: "n \<le> length a" and s: "bn_mul_words a n w = (r, c)"
  shows "length r = n" "limbs_val r + limb_base ^ n * unat c = unat w * limbs_val (take n a)"
proof -
  have l: "limb_loop (mul w) (take n a) 0 = (r, c)" using s by (auto simp: bn_mul_words_def limb_loop4_eq split: if_splits)
  from mul.loop [OF _ l] mul_total [of w "take n a"] n
  show "length r = n" "limbs_val r + limb_base ^ n * unat c = unat w * limbs_val (take n a)"
    by (simp_all del: of_nat_unat flip: of_nat_add of_nat_mult of_nat_power)
qed

lemma bn_mul_add_words_spec:
  assumes n: "n \<le> length r" "n \<le> length a" and s: "bn_mul_add_words r a n w = (r', c)"
  shows "length r' = n" "limbs_val r' + limb_base ^ n * unat c = limbs_val (take n r) + unat w * limbs_val (take n a)"
proof -
  have l: "limb_loop (mul_add w) (zip (take n r) (take n a)) 0 = (r', c)"
    using s by (auto simp: bn_mul_add_words_def limb_loop4_eq split: if_splits)
  from mul_add.loop [OF _ l] mul_add_total [of "take n r" "take n a" w] n
  show "length r' = n" "limbs_val r' + limb_base ^ n * unat c = limbs_val (take n r) + unat w * limbs_val (take n a)"
    by (simp_all del: of_nat_unat flip: of_nat_add of_nat_mult of_nat_power)
qed

fun squares_val :: "limb list \<Rightarrow> nat" where
  "squares_val [] = 0"
| "squares_val (a # as) = unat a * unat a + limb_base ^ 2 * squares_val as"

lemma sqr_pair: "sqr a = (r0, r1) \<Longrightarrow> unat r0 + limb_base * (unat r1 + limb_base * v) = unat a * unat a + limb_base ^ 2 * v"
  using sqr_step [of a r0 r1] by (simp add: algebra_simps power2_eq_square)

lemma sqr_loop_Cons: "sqr_loop (a # as) = fst (sqr a) # snd (sqr a) # sqr_loop as"
proof (induction as arbitrary: a rule: sqr_loop.induct)
  case (1 a0 a1 a2 a3 as)
  then show ?case by (simp split: prod.split)
qed (simp_all split: prod.split)

lemma sqr_loop_spec: "length (sqr_loop as) = 2 * length as \<and> limbs_val (sqr_loop as) = squares_val as"
proof (induction as)
  case (Cons a as)
  obtain r0 r1 where "sqr a = (r0, r1)" by fastforce
  with Cons show ?case using sqr_pair [of a r0 r1 "squares_val as"] by (simp add: sqr_loop_Cons del: sqr_loop.simps)
qed simp

lemma bn_sqr_words_spec: "n \<le> length a \<Longrightarrow> length (bn_sqr_words a n) = 2 * n \<and> limbs_val (bn_sqr_words a n) = squares_val (take n a)"
  using sqr_loop_spec [of "take n a"] by (auto simp: bn_sqr_words_def)

section \<open>Comparison and selection\<close>

lemma select_int: "constant_time_select_int (ct_mask c) a b = (if c then a else b)"
proof -
  have "ucast (scast x :: u64) = x" for x :: "32 word" by (rule bit_word_eqI) (simp add: bit_simps)
  then show ?thesis by (simp add: constant_time_select_int_def select_w)
qed

lemma or_limbs_0: "or_limbs as w = 0 \<longleftrightarrow> w = 0 \<and> limbs_val as = 0"
proof (induction as arbitrary: w)
  case (Cons a as)
  have "w OR a = 0 \<longleftrightarrow> w = 0 \<and> a = 0" by (auto simp: bit_eq_iff bit_or_iff)
  with Cons show ?case by (auto simp: unsigned_eq_0_iff)
qed simp

lemma cmp_loop_spec:
  "length as = length bs \<Longrightarrow> cmp_loop as bs ret = (if limbs_val as = limbs_val bs then ret else if limbs_val as < limbs_val bs then - 1 else 1)"
proof (induction as bs arbitrary: ret rule: list_induct2)
  case (Cons a as b bs)
  have less: "unat a < limb_base" "unat b < limb_base" by simp_all
  have *: "limbs_val as < limbs_val bs \<Longrightarrow> unat a + limb_base * limbs_val as < unat b + limb_base * limbs_val bs" for a b :: limb and as bs
  proof -
    assume "limbs_val as < limbs_val bs"
    then have "limb_base * (limbs_val as + 1) \<le> limb_base * limbs_val bs" by (intro mult_le_mono2) simp
    then show "unat a + limb_base * limbs_val as < unat b + limb_base * limbs_val bs" using limb_less [of a] by (simp del: limb_less)
  qed
  show ?case using Cons * [of as bs a b] * [of bs as b a]
    by (auto simp: eq_w lt_w select_int Let_def word_less_nat_alt word_unat_eq_iff)
qed simp

lemma bn_cmp_words_spec:
  assumes "na \<le> length a" "nb \<le> length b"
  shows "bn_cmp_words_consttime a na b nb = sgn (int (limbs_val (take na a)) - int (limbs_val (take nb b)))"
proof -
  define m where "m = min na nb"
  define x y where "x = limbs_val (take m a)" and "y = limbs_val (take m b)"
  define u v where "u = limbs_val (drop nb (take na a))" and "v = limbs_val (drop na (take nb b))"
  have m: "(if na < nb then na else nb) = m" by (simp add: m_def)
  have len: "length (take m a) = m" "length (take m b) = m" using assms by (simp_all add: m_def)
  have ret: "cmp_loop (take m a) (take m b) 0 = (if x = y then 0 else if x < y then - 1 else 1)"
    using cmp_loop_spec [of "take m a" "take m b" 0] len by (simp add: x_def y_def)
  have b: "x < limb_base ^ m" "y < limb_base ^ m" using limbs_val_less len unfolding x_def y_def by metis+
  have va: "limbs_val (take na a) = x + limb_base ^ m * u"
  proof (cases "na \<le> nb")
    case True
    then show ?thesis using assms by (simp add: x_def u_def m_def)
  next
    case False
    then show ?thesis using limbs_val_take_drop [of "take na a" nb] assms by (simp add: x_def u_def m_def min_def)
  qed
  have vb: "limbs_val (take nb b) = y + limb_base ^ m * v"
  proof (cases "nb \<le> na")
    case True
    then show ?thesis using assms by (simp add: y_def v_def m_def)
  next
    case False
    then show ?thesis using limbs_val_take_drop [of "take nb b" na] assms by (simp add: y_def v_def m_def min_def)
  qed
  have zero: "na \<le> nb \<Longrightarrow> u = 0" "nb \<le> na \<Longrightarrow> v = 0" by (simp_all add: u_def v_def)
  have big: "0 < w \<Longrightarrow> z < limb_base ^ m \<Longrightarrow> z < z' + limb_base ^ m * w" for w z z' :: nat
    by (cases w) simp_all
  have c: "sint (cmp_loop (take m a) (take m b) 0) = sgn (int x - int y)" unfolding ret by simp
  note unfold = bn_cmp_words_consttime_def Let_def m is_zero_w select_int or_limbs_0 va vb u_def [symmetric] v_def [symmetric]
  consider "na = nb" | "na < nb" | "nb < na" by linarith
  then show ?thesis
  proof cases
    case 1
    then show ?thesis unfolding unfold using zero c by simp
  next
    case 2
    have "int x < int y + int limb_base ^ m * int v" if "0 < v"
      using big [OF that b(1), of y] by (simp flip: of_nat_add of_nat_mult of_nat_power)
    with 2 show ?thesis unfolding unfold using zero c by (cases "v = 0") (auto simp: sgn_if)
  next
    case 3
    have "int y < int x + int limb_base ^ m * int u" if "0 < u"
      using big [OF that b(2), of x] by (simp flip: of_nat_add of_nat_mult of_nat_power)
    with 3 show ?thesis unfolding unfold using zero c by (cases "u = 0") (auto simp: sgn_if)
  qed
qed

lemma bn_less_than_words_spec:
  "n \<le> length a \<Longrightarrow> n \<le> length b \<Longrightarrow> bn_less_than_words a b n \<longleftrightarrow> limbs_val (take n a) < limbs_val (take n b)"
  by (auto simp: bn_less_than_words_def bn_cmp_words_spec sgn_if)

lemma bn_select_words_spec: "length a = n \<Longrightarrow> length b = n \<Longrightarrow> bn_select_words (ct_mask c) a b n = (if c then a else b)"
  by (auto simp: bn_select_words_def select_w list_eq_iff_nth_eq)

end
