(* ===== verification/BN_Comba.thy ===== *)
theory BN_Comba
  imports BN_Words
begin

text \<open>
  The products and squares of arrays of fixed size in \<^verbatim>\<open>crypto/fipsmodule/bn/generic.c\<close>. A routine computes the result column by column in
  an accumulator of three limbs; when a column is finished its lowest limb is stored and becomes the highest limb of the next
  column. The order of the products in each column is that of the code.
\<close>

unbundle bit_operations_syntax

section \<open>Operations\<close>

type_synonym acc = "limb \<times> limb \<times> limb"

definition mul_add_c :: "limb \<Rightarrow> limb \<Rightarrow> acc \<Rightarrow> acc" where
  "mul_add_c a b = (\<lambda>(c0, c1, c2).
     let t = ucast a * ucast b :: dlimb;
         t = t + ucast c0;
         c0 = Lw t;
         hi = Hw t;
         c1 = c1 + hi
     in (c0, c1, if c1 < hi then c2 + 1 else c2))"

definition mul_add_c2 :: "limb \<Rightarrow> limb \<Rightarrow> acc \<Rightarrow> acc" where
  "mul_add_c2 a b = (\<lambda>(c0, c1, c2).
     let t = ucast a * ucast b :: dlimb;
         tt = t + ucast c0;
         c0 = Lw tt;
         hi = Hw tt;
         c1 = c1 + hi;
         c2 = (if c1 < hi then c2 + 1 else c2);
         t = t + ucast c0;
         c0 = Lw t;
         hi = Hw t;
         c1 = c1 + hi
     in (c0, c1, if c1 < hi then c2 + 1 else c2))"

definition sqr_add_c :: "limb list \<Rightarrow> nat \<Rightarrow> acc \<Rightarrow> acc" where
  "sqr_add_c a i = (\<lambda>(c0, c1, c2).
     let t = ucast (a ! i) * ucast (a ! i) :: dlimb;
         t = t + ucast c0;
         c0 = Lw t;
         hi = Hw t;
         c1 = c1 + hi
     in (c0, c1, if c1 < hi then c2 + 1 else c2))"

definition sqr_add_c2 :: "limb list \<Rightarrow> nat \<Rightarrow> nat \<Rightarrow> acc \<Rightarrow> acc" where
  "sqr_add_c2 a i j = mul_add_c2 (a ! i) (a ! j)"

text \<open>The columns one after another, each with the accumulator rotated.\<close>

fun comba :: "(acc \<Rightarrow> acc) list list \<Rightarrow> acc \<Rightarrow> limb list \<times> acc" where
  "comba [] c = ([], c)"
| "comba (col # cols) c = (case fold (\<lambda>f. f) col c of (c0, c1, c2) \<Rightarrow> case comba cols (c1, c2, 0) of (r, c) \<Rightarrow> (c0 # r, c))"

definition comba_result :: "limb list \<times> acc \<Rightarrow> limb list" where
  "comba_result = (\<lambda>(r, c0, c1, c2). r @ [c0])"

definition mul_comba8_columns :: "(nat \<times> nat) list list" where
  "mul_comba8_columns =
    [[(0, 0)],
     [(0, 1), (1, 0)],
     [(2, 0), (1, 1), (0, 2)],
     [(0, 3), (1, 2), (2, 1), (3, 0)],
     [(4, 0), (3, 1), (2, 2), (1, 3), (0, 4)],
     [(0, 5), (1, 4), (2, 3), (3, 2), (4, 1), (5, 0)],
     [(6, 0), (5, 1), (4, 2), (3, 3), (2, 4), (1, 5), (0, 6)],
     [(0, 7), (1, 6), (2, 5), (3, 4), (4, 3), (5, 2), (6, 1), (7, 0)],
     [(7, 1), (6, 2), (5, 3), (4, 4), (3, 5), (2, 6), (1, 7)],
     [(2, 7), (3, 6), (4, 5), (5, 4), (6, 3), (7, 2)],
     [(7, 3), (6, 4), (5, 5), (4, 6), (3, 7)],
     [(4, 7), (5, 6), (6, 5), (7, 4)],
     [(7, 5), (6, 6), (5, 7)],
     [(6, 7), (7, 6)],
     [(7, 7)]]"

definition bn_mul_comba8 :: "limb list \<Rightarrow> limb list \<Rightarrow> limb list" where
  "bn_mul_comba8 a b = comba_result (comba (map (map (\<lambda>(i, j). mul_add_c (a ! i) (b ! j))) mul_comba8_columns) (0, 0, 0))"

definition mul_comba4_columns :: "(nat \<times> nat) list list" where
  "mul_comba4_columns =
    [[(0, 0)],
     [(0, 1), (1, 0)],
     [(2, 0), (1, 1), (0, 2)],
     [(0, 3), (1, 2), (2, 1), (3, 0)],
     [(3, 1), (2, 2), (1, 3)],
     [(2, 3), (3, 2)],
     [(3, 3)]]"

definition bn_mul_comba4 :: "limb list \<Rightarrow> limb list \<Rightarrow> limb list" where
  "bn_mul_comba4 a b = comba_result (comba (map (map (\<lambda>(i, j). mul_add_c (a ! i) (b ! j))) mul_comba4_columns) (0, 0, 0))"

text \<open>A square, or a product that counts twice.\<close>

datatype sqr_term = Sqr nat | Dbl nat nat

fun sqr_term_step :: "limb list \<Rightarrow> sqr_term \<Rightarrow> acc \<Rightarrow> acc" where
  "sqr_term_step a (Sqr i) = sqr_add_c a i"
| "sqr_term_step a (Dbl i j) = sqr_add_c2 a i j"

definition sqr_comba8_columns :: "sqr_term list list" where
  "sqr_comba8_columns =
    [[Sqr 0],
     [Dbl 1 0],
     [Sqr 1, Dbl 2 0],
     [Dbl 3 0, Dbl 2 1],
     [Sqr 2, Dbl 3 1, Dbl 4 0],
     [Dbl 5 0, Dbl 4 1, Dbl 3 2],
     [Sqr 3, Dbl 4 2, Dbl 5 1, Dbl 6 0],
     [Dbl 7 0, Dbl 6 1, Dbl 5 2, Dbl 4 3],
     [Sqr 4, Dbl 5 3, Dbl 6 2, Dbl 7 1],
     [Dbl 7 2, Dbl 6 3, Dbl 5 4],
     [Sqr 5, Dbl 6 4, Dbl 7 3],
     [Dbl 7 4, Dbl 6 5],
     [Sqr 6, Dbl 7 5],
     [Dbl 7 6],
     [Sqr 7]]"

definition bn_sqr_comba8 :: "limb list \<Rightarrow> limb list" where
  "bn_sqr_comba8 a = comba_result (comba (map (map (sqr_term_step a)) sqr_comba8_columns) (0, 0, 0))"

definition sqr_comba4_columns :: "sqr_term list list" where
  "sqr_comba4_columns =
    [[Sqr 0],
     [Dbl 1 0],
     [Sqr 1, Dbl 2 0],
     [Dbl 3 0, Dbl 2 1],
     [Sqr 2, Dbl 3 1],
     [Dbl 3 2],
     [Sqr 3]]"

definition bn_sqr_comba4 :: "limb list \<Rightarrow> limb list" where
  "bn_sqr_comba4 a = comba_result (comba (map (map (sqr_term_step a)) sqr_comba4_columns) (0, 0, 0))"

section \<open>The accumulator\<close>

fun acc_val :: "acc \<Rightarrow> nat" where
  "acc_val (c0, c1, c2) = unat c0 + limb_base * unat c1 + limb_base ^ 2 * unat c2"

text \<open>A step that adds a number to the accumulator, unless it would overflow.\<close>

definition adds :: "(acc \<Rightarrow> acc) \<Rightarrow> nat \<Rightarrow> bool" where
  "adds f v \<longleftrightarrow> (\<forall>c. acc_val c + v < limb_base ^ 3 \<longrightarrow> acc_val (f c) = acc_val c + v)"

lemma addsD: "adds f v \<Longrightarrow> acc_val c + v < limb_base ^ 3 \<Longrightarrow> acc_val (f c) = acc_val c + v"
  unfolding adds_def by blast

lemma acc_carry:
  fixes c1 c2 hi :: limb
  assumes v: "u + limb_base * (unat c1 + unat hi) + limb_base ^ 2 * unat c2 < limb_base ^ 3"
  shows "u + limb_base * unat (c1 + hi) + limb_base ^ 2 * unat (if c1 + hi < hi then c2 + 1 else c2) =
    u + limb_base * (unat c1 + unat hi) + limb_base ^ 2 * unat c2"
proof (cases "unat c1 + unat hi < limb_base")
  case True
  then have "unat (c1 + hi) = unat c1 + unat hi" by (simp add: unat_limb_add)
  moreover from this have "\<not> c1 + hi < hi" by (simp add: word_less_nat_alt)
  ultimately show ?thesis by simp
next
  case False
  then obtain k where k: "unat c1 + unat hi = limb_base + k" by (metis add_diff_inverse_nat add.commute)
  have "unat c1 < limb_base" by simp
  with k have kh: "k < unat hi" by linarith
  have "limb_base ^ 2 * (unat c2 + 1) < limb_base ^ 2 * limb_base"
    using v unfolding k by (simp add: power2_eq_square power3_eq_cube algebra_simps)
  then have "unat c2 + 1 < limb_base" by (simp only: mult_less_cancel1)
  then have "unat (c2 + 1) = unat c2 + 1" by (simp add: unat_limb_add)
  then show ?thesis using k kh by (simp add: word_less_nat_alt unat_limb_add power2_eq_square algebra_simps)
qed

lemma adds_mul_add_c: "adds (mul_add_c a b) (unat a * unat b)"
  unfolding adds_def
proof (intro allI impI)
  fix c assume le: "acc_val c + unat a * unat b < limb_base ^ 3"
  obtain c0 c1 c2 where c: "c = (c0, c1, c2)" by (cases c)
  define t where "t = (ucast a * ucast b + ucast c0 :: dlimb)"
  have t: "unat (Lw t) + limb_base * unat (Hw t) = unat a * unat b + unat c0"
    using Lw_Hw [of t] unat_limb_product [of a b c0 0] by (simp add: t_def)
  have sum: "unat (Lw t) + limb_base * (unat c1 + unat (Hw t)) + limb_base ^ 2 * unat c2 = acc_val c + unat a * unat b"
    using t by (simp add: c algebra_simps)
  have "mul_add_c a b c = (Lw t, c1 + Hw t, if c1 + Hw t < Hw t then c2 + 1 else c2)" by (simp add: c mul_add_c_def Let_def t_def)
  then show "acc_val (mul_add_c a b c) = acc_val c + unat a * unat b"
    using acc_carry [of "unat (Lw t)" c1 "Hw t" c2] le sum by simp
qed

lemma mul_add_c2_twice: "mul_add_c2 a b c = mul_add_c a b (mul_add_c a b c)"
  by (cases c) (simp add: mul_add_c2_def mul_add_c_def Let_def)

lemma adds_mul_add_c2: "adds (mul_add_c2 a b) (2 * (unat a * unat b))"
  unfolding adds_def
proof (intro allI impI)
  fix c assume le: "acc_val c + 2 * (unat a * unat b) < limb_base ^ 3"
  have "acc_val (mul_add_c a b c) = acc_val c + unat a * unat b"
    using addsD [OF adds_mul_add_c] le by simp
  moreover from this have "acc_val (mul_add_c a b (mul_add_c a b c)) = acc_val (mul_add_c a b c) + unat a * unat b"
    using addsD [OF adds_mul_add_c] le by simp
  ultimately show "acc_val (mul_add_c2 a b c) = acc_val c + 2 * (unat a * unat b)" by (simp add: mul_add_c2_twice)
qed

lemma adds_sqr_add_c: "adds (sqr_add_c a i) (unat (a ! i) * unat (a ! i))"
proof -
  have "sqr_add_c a i = mul_add_c (a ! i) (a ! i)" by (simp add: sqr_add_c_def mul_add_c_def)
  then show ?thesis by (simp add: adds_mul_add_c)
qed

section \<open>Columns\<close>

lemma fold_adds:
  "list_all2 adds fs vs \<Longrightarrow> acc_val c + sum_list vs < limb_base ^ 3 \<Longrightarrow> acc_val (fold (\<lambda>f. f) fs c) = acc_val c + sum_list vs"
proof (induction fs vs arbitrary: c rule: list_all2_induct)
  case (Cons f fs v vs)
  then have "acc_val (f c) = acc_val c + v" by (intro addsD) simp_all
  with Cons show ?case by simp
qed simp

text \<open>The number the columns stand for. A column has the weight of at most eight products.\<close>

fun columns_val :: "nat list list \<Rightarrow> nat" where
  "columns_val [] = 0"
| "columns_val (col # cols) = sum_list col + limb_base * columns_val cols"

lemma comba_spec:
  "list_all2 (list_all2 adds) fs cols \<Longrightarrow> \<forall>col \<in> set cols. sum_list col \<le> 8 * (limb_base - 1) ^ 2 \<Longrightarrow> acc_val c < limb_base ^ 2 \<Longrightarrow>
    comba fs c = (r, c') \<Longrightarrow> length r = length cols \<and> acc_val c' < limb_base ^ 2 \<and>
      limbs_val r + limb_base ^ length cols * acc_val c' = columns_val cols + acc_val c"
proof (induction fs cols arbitrary: c r c' rule: list_all2_induct)
  case (Cons f fs col cols)
  have "8 * (limb_base - 1) ^ 2 + limb_base ^ 2 < limb_base ^ 3" by (simp add: limb_base_def)
  then have "acc_val c + sum_list col < limb_base ^ 3" using Cons.prems(1,2) by simp
  then have f: "acc_val (fold (\<lambda>f. f) f c) = acc_val c + sum_list col" by (rule fold_adds [OF Cons.hyps(1)])
  obtain c0 c1 c2 where d: "fold (\<lambda>f. f) f c = (c0, c1, c2)" by (cases "fold (\<lambda>f. f) f c")
  obtain r' e where r': "comba fs (c1, c2, 0) = (r', e)" by (rule prod.exhaust)
  have rc: "r = c0 # r'" "c' = e" using Cons.prems(3) d r' by simp_all
  have "unat c1 + limb_base * unat c2 < limb_base ^ 2"
    using limbs_val_less [of "[c1, c2]"] by (simp add: power2_eq_square)
  then have ih: "length r' = length cols" "acc_val e < limb_base ^ 2"
    "limbs_val r' + limb_base ^ length cols * acc_val e = columns_val cols + (unat c1 + limb_base * unat c2)"
    using Cons.IH [OF _ _ r'] Cons.prems(1) by simp_all
  have "limbs_val r + limb_base ^ length (col # cols) * acc_val c' = unat c0 + limb_base * (limbs_val r' + limb_base ^ length cols * acc_val e)"
    by (simp add: rc algebra_simps)
  also have "\<dots> = acc_val c + sum_list col + limb_base * columns_val cols"
    unfolding ih(3) f [symmetric] d by (simp add: power2_eq_square algebra_simps)
  finally show ?case using ih rc by simp
qed simp

lemma comba_result_spec:
  assumes "list_all2 (list_all2 adds) fs cols" and "\<forall>col \<in> set cols. sum_list col \<le> 8 * (limb_base - 1) ^ 2"
    and v: "columns_val cols < limb_base ^ (length cols + 1)"
  shows "length (comba_result (comba fs (0, 0, 0))) = length cols + 1 \<and> limbs_val (comba_result (comba fs (0, 0, 0))) = columns_val cols"
proof -
  obtain r c0 c1 c2 where c: "comba fs (0, 0, 0) = (r, c0, c1, c2)" by (metis prod.collapse)
  have s: "length r = length cols" "limbs_val r + limb_base ^ length cols * acc_val (c0, c1, c2) = columns_val cols"
    using comba_spec [OF assms(1,2) _ c] by simp_all
  moreover have "columns_val cols < limb_base ^ length cols * limb_base" using v by (simp add: mult.commute)
  ultimately have "limb_base ^ length cols * acc_val (c0, c1, c2) < limb_base ^ length cols * limb_base" by linarith
  then have "acc_val (c0, c1, c2) < limb_base" by (simp only: mult_less_cancel1)
  then have "limb_base * (unat c1 + limb_base * unat c2) < limb_base * 1" by (simp add: power2_eq_square algebra_simps)
  then have "unat c1 + limb_base * unat c2 < 1" by (simp only: mult_less_cancel1)
  then have "acc_val (c0, c1, c2) = unat c0" by simp
  then show ?thesis using s by (simp add: c comba_result_def limbs_val_append)
qed

text \<open>A product of two limbs has the weight of one product.\<close>

lemma limb_product_le: "unat (a :: limb) * unat (b :: limb) \<le> (limb_base - 1) ^ 2"
proof -
  have "unat a \<le> limb_base - 1" "unat b \<le> limb_base - 1" using limb_less [of a] limb_less [of b] by linarith+
  then show ?thesis unfolding power2_eq_square by (rule mult_le_mono)
qed

lemma products_le: "sum_list (map (\<lambda>(i, j). unat (a ! i :: limb) * unat (b ! j :: limb)) col) \<le> length col * (limb_base - 1) ^ 2"
proof (induction col)
  case (Cons p col)
  then show ?case using limb_product_le [of "a ! fst p" "b ! snd p"] by (simp add: split_def)
qed simp

text \<open>The columns of a product, with the pairs of each column adding up to its position.\<close>

lemma mul_columns_spec:
  assumes n: "length cols + 1 = length a + length b" and c: "list_all (\<lambda>col. length col \<le> 8) cols"
    and v: "columns_val (map (map (\<lambda>(i, j). unat (a ! i) * unat (b ! j))) cols) = limbs_val a * limbs_val b"
  shows "length (comba_result (comba (map (map (\<lambda>(i, j). mul_add_c (a ! i) (b ! j))) cols) (0, 0, 0))) = length a + length b \<and>
    limbs_val (comba_result (comba (map (map (\<lambda>(i, j). mul_add_c (a ! i) (b ! j))) cols) (0, 0, 0))) = limbs_val a * limbs_val b"
proof -
  let ?cols = "map (map (\<lambda>(i, j). unat (a ! i) * unat (b ! j))) cols"
  have le: "\<forall>col \<in> set ?cols. sum_list col \<le> 8 * (limb_base - 1) ^ 2"
  proof
    fix col assume "col \<in> set ?cols"
    then obtain ps where ps: "ps \<in> set cols" "col = map (\<lambda>(i, j). unat (a ! i) * unat (b ! j)) ps" by auto
    then have "length ps \<le> 8" using c by (auto simp: list_all_iff)
    then have "length ps * (limb_base - 1) ^ 2 \<le> 8 * (limb_base - 1) ^ 2" by (rule mult_le_mono1)
    with products_le [of a b ps] show "sum_list col \<le> 8 * (limb_base - 1) ^ 2" unfolding ps(2) by linarith
  qed
  have adds: "list_all2 (list_all2 adds) (map (map (\<lambda>(i, j). mul_add_c (a ! i) (b ! j))) cols) ?cols"
    by (auto simp: list_all2_conv_all_nth adds_mul_add_c split: prod.split)
  have "limbs_val a * limbs_val b < limb_base ^ length a * limb_base ^ length b"
    using limbs_val_less [of a] limbs_val_less [of b] by (intro mult_strict_mono) simp_all
  then have "columns_val ?cols < limb_base ^ (length ?cols + 1)" unfolding v length_map n by (simp only: power_add)
  from comba_result_spec [OF adds le this] show ?thesis unfolding v length_map n .
qed

text \<open>The pairs of the code make up the product.\<close>

lemma bn_mul_comba8_spec:
  assumes "length a = 8" "length b = 8"
  shows "length (bn_mul_comba8 a b) = 16 \<and> limbs_val (bn_mul_comba8 a b) = limbs_val a * limbs_val b"
proof -
  obtain a0 a1 a2 a3 a4 a5 a6 a7 where a: "a = [a0, a1, a2, a3, a4, a5, a6, a7]" using assms(1) by (auto simp: numeral_eq_Suc length_Suc_conv)
  obtain b0 b1 b2 b3 b4 b5 b6 b7 where b: "b = [b0, b1, b2, b3, b4, b5, b6, b7]" using assms(2) by (auto simp: numeral_eq_Suc length_Suc_conv)
  have "columns_val (map (map (\<lambda>(i, j). unat (a ! i) * unat (b ! j))) mul_comba8_columns) = limbs_val a * limbs_val b"
    unfolding a b mul_comba8_columns_def by (simp add: algebra_simps)
  moreover have "length mul_comba8_columns + 1 = length a + length b" "list_all (\<lambda>col. length col \<le> 8) mul_comba8_columns"
    by (simp_all add: assms mul_comba8_columns_def)
  ultimately show ?thesis using mul_columns_spec [of mul_comba8_columns a b] assms by (simp add: bn_mul_comba8_def)
qed

lemma bn_mul_comba4_spec:
  assumes "length a = 4" "length b = 4"
  shows "length (bn_mul_comba4 a b) = 8 \<and> limbs_val (bn_mul_comba4 a b) = limbs_val a * limbs_val b"
proof -
  obtain a0 a1 a2 a3 where a: "a = [a0, a1, a2, a3]" using assms(1) by (auto simp: numeral_eq_Suc length_Suc_conv)
  obtain b0 b1 b2 b3 where b: "b = [b0, b1, b2, b3]" using assms(2) by (auto simp: numeral_eq_Suc length_Suc_conv)
  have "columns_val (map (map (\<lambda>(i, j). unat (a ! i) * unat (b ! j))) mul_comba4_columns) = limbs_val a * limbs_val b"
    unfolding a b mul_comba4_columns_def by (simp add: algebra_simps)
  moreover have "length mul_comba4_columns + 1 = length a + length b" "list_all (\<lambda>col. length col \<le> 8) mul_comba4_columns"
    by (simp_all add: assms mul_comba4_columns_def)
  ultimately show ?thesis using mul_columns_spec [of mul_comba4_columns a b] assms by (simp add: bn_mul_comba4_def)
qed

text \<open>Squares: the weight of a term, and the number of products it counts for.\<close>

fun term_val :: "limb list \<Rightarrow> sqr_term \<Rightarrow> nat" where
  "term_val a (Sqr i) = unat (a ! i) * unat (a ! i)"
| "term_val a (Dbl i j) = 2 * (unat (a ! i) * unat (a ! j))"

fun term_count :: "sqr_term \<Rightarrow> nat" where
  "term_count (Sqr i) = 1"
| "term_count (Dbl i j) = 2"

lemma adds_term: "adds (sqr_term_step a t) (term_val a t)"
  by (cases t) (simp_all add: adds_sqr_add_c adds_mul_add_c2 sqr_add_c2_def)

lemma terms_le: "sum_list (map (term_val a) col) \<le> sum_list (map term_count col) * (limb_base - 1) ^ 2"
proof (induction col)
  case (Cons t col)
  have "term_val a t \<le> term_count t * (limb_base - 1) ^ 2"
    using limb_product_le by (cases t) (simp_all only: term_val.simps term_count.simps mult_1 mult_le_mono2)
  with Cons show ?case by (simp add: add_mult_distrib)
qed simp

lemma sqr_columns_spec:
  assumes n: "length cols + 1 = 2 * length a" and c: "list_all (\<lambda>col. sum_list (map term_count col) \<le> 8) cols"
    and v: "columns_val (map (map (term_val a)) cols) = limbs_val a ^ 2"
  shows "length (comba_result (comba (map (map (sqr_term_step a)) cols) (0, 0, 0))) = 2 * length a \<and>
    limbs_val (comba_result (comba (map (map (sqr_term_step a)) cols) (0, 0, 0))) = limbs_val a ^ 2"
proof -
  let ?cols = "map (map (term_val a)) cols"
  have le: "\<forall>col \<in> set ?cols. sum_list col \<le> 8 * (limb_base - 1) ^ 2"
  proof
    fix col assume "col \<in> set ?cols"
    then obtain ts where ts: "ts \<in> set cols" "col = map (term_val a) ts" by auto
    then have "sum_list (map term_count ts) \<le> 8" using c by (auto simp: list_all_iff)
    then have "sum_list (map term_count ts) * (limb_base - 1) ^ 2 \<le> 8 * (limb_base - 1) ^ 2" by (rule mult_le_mono1)
    with terms_le [of a ts] show "sum_list col \<le> 8 * (limb_base - 1) ^ 2" unfolding ts(2) by linarith
  qed
  have adds: "list_all2 (list_all2 adds) (map (map (sqr_term_step a)) cols) ?cols" by (auto simp: list_all2_conv_all_nth adds_term)
  have "limbs_val a ^ 2 < (limb_base ^ length a) ^ 2" using limbs_val_less [of a] by (intro power_strict_mono) simp_all
  then have "columns_val ?cols < limb_base ^ (length ?cols + 1)" unfolding v length_map n by (simp only: power_mult [symmetric] mult.commute)
  from comba_result_spec [OF adds le this] show ?thesis unfolding v length_map n .
qed

lemma bn_sqr_comba8_spec:
  assumes "length a = 8"
  shows "length (bn_sqr_comba8 a) = 16 \<and> limbs_val (bn_sqr_comba8 a) = limbs_val a ^ 2"
proof -
  obtain a0 a1 a2 a3 a4 a5 a6 a7 where a: "a = [a0, a1, a2, a3, a4, a5, a6, a7]" using assms by (auto simp: numeral_eq_Suc length_Suc_conv)
  have "columns_val (map (map (term_val a)) sqr_comba8_columns) = limbs_val a ^ 2"
    unfolding a sqr_comba8_columns_def power2_eq_square by (simp add: algebra_simps)
  moreover have "length sqr_comba8_columns + 1 = 2 * length a" "list_all (\<lambda>col. sum_list (map term_count col) \<le> 8) sqr_comba8_columns"
    by (simp_all add: assms sqr_comba8_columns_def)
  ultimately show ?thesis using sqr_columns_spec [of sqr_comba8_columns a] assms by (simp add: bn_sqr_comba8_def)
qed

lemma bn_sqr_comba4_spec:
  assumes "length a = 4"
  shows "length (bn_sqr_comba4 a) = 8 \<and> limbs_val (bn_sqr_comba4 a) = limbs_val a ^ 2"
proof -
  obtain a0 a1 a2 a3 where a: "a = [a0, a1, a2, a3]" using assms by (auto simp: numeral_eq_Suc length_Suc_conv)
  have "columns_val (map (map (term_val a)) sqr_comba4_columns) = limbs_val a ^ 2"
    unfolding a sqr_comba4_columns_def power2_eq_square by (simp add: algebra_simps)
  moreover have "length sqr_comba4_columns + 1 = 2 * length a" "list_all (\<lambda>col. sum_list (map term_count col) \<le> 8) sqr_comba4_columns"
    by (simp_all add: assms sqr_comba4_columns_def)
  ultimately show ?thesis using sqr_columns_spec [of sqr_comba4_columns a] assms by (simp add: bn_sqr_comba4_def)
qed

end
