(* ===== verification/BN_Mul.thy ===== *)
theory BN_Mul
  imports BN_Comba
begin

text \<open>
  Multiplication and squaring of arrays of limbs, \<^verbatim>\<open>crypto/fipsmodule/bn/mul.c\<close>: the schoolbook routines and Karatsuba's recursion. The
  destination \<open>r\<close> and the scratch space \<open>t\<close> of the code are disjoint from the sources; a routine gives back the limbs of \<open>r\<close>, and the parts of
  \<open>t\<close> are the lists bound in its body. \<open>None\<close> is a failed assertion.
\<close>

unbundle bit_operations_syntax

section \<open>Operations\<close>

definition BN_MUL_RECURSIVE_SIZE_NORMAL :: nat where "BN_MUL_RECURSIVE_SIZE_NORMAL = 16"

definition bn_abs_sub_words :: "limb list \<Rightarrow> limb list \<Rightarrow> nat \<Rightarrow> limb list" where
  "bn_abs_sub_words a b num =
     (case bn_sub_words a b num of (tmp, borrow) \<Rightarrow>
        bn_select_words (0 - borrow) (fst (bn_sub_words b a num)) tmp num)"

text \<open>The rows after the first one: \<open>r\<close> holds the limbs written so far, \<open>i\<close> is the position of the row.\<close>

fun mul_normal_loop :: "limb list \<Rightarrow> nat \<Rightarrow> limb list \<Rightarrow> nat \<Rightarrow> limb list \<Rightarrow> limb list" where
  "mul_normal_loop a na [] i r = r"
| "mul_normal_loop a na (b # bs) i r =
     (case bn_mul_add_words (drop i r) a na b of (s, c) \<Rightarrow> mul_normal_loop a na bs (i + 1) (take i r @ s @ [c]))"

definition bn_mul_normal :: "limb list \<Rightarrow> nat \<Rightarrow> limb list \<Rightarrow> nat \<Rightarrow> limb list" where
  "bn_mul_normal a na b nb =
     (let (a, na, b, nb) = (if na < nb then (b, nb, a, na) else (a, na, b, nb))
      in if nb = 0 then replicate na 0
         else case bn_mul_words a na (b ! 0) of (r, c) \<Rightarrow> mul_normal_loop a na (tl (take nb b)) 1 (r @ [c]))"

definition bn_sub_part_words :: "limb list \<Rightarrow> limb list \<Rightarrow> nat \<Rightarrow> int \<Rightarrow> limb list \<times> limb" where
  "bn_sub_part_words a b cl dl =
     (case bn_sub_words a b cl of (r, borrow) \<Rightarrow>
        if dl = 0 then (r, borrow)
        else if dl < 0 then
          (case limb_loop neg_step (take (nat (- dl)) (drop cl b)) borrow of (s, borrow) \<Rightarrow> (r @ s, borrow))
        else
          (case limb_loop borrow_step (take (nat dl) (drop cl a)) borrow of (s, borrow) \<Rightarrow> (r @ s, borrow)))"

definition bn_abs_sub_part_words :: "limb list \<Rightarrow> limb list \<Rightarrow> nat \<Rightarrow> int \<Rightarrow> limb list \<times> limb" where
  "bn_abs_sub_part_words a b cl dl =
     (case bn_sub_part_words a b cl dl of (tmp, borrow) \<Rightarrow>
        let r = fst (bn_sub_part_words b a cl (- dl));
            r_len = cl + nat \<bar>dl\<bar>;
            borrow = 0 - borrow
        in (bn_select_words borrow r tmp r_len, borrow))"

text \<open>The end of the three recursive routines: \<open>t23\<close> and \<open>c\<close> are added to the middle of \<open>r\<close>, and the carry goes through its last quarter.\<close>

definition add_middle :: "limb list \<Rightarrow> limb list \<Rightarrow> limb \<Rightarrow> nat \<Rightarrow> limb list option" where
  "add_middle r t23 c n =
     (let n2 = 2 * n
      in case bn_add_words (drop n r) t23 n2 of (m, c') \<Rightarrow>
        let c = c + c'
        in case limb_loop carry_step (take n (drop (n + n2) r)) c of (hi, c) \<Rightarrow>
             if c = 0 then Some (take n r @ m @ hi) else None)"

text \<open>The recombination of the three products, the same in both multiplications.\<close>

definition recombine :: "limb list \<Rightarrow> limb list \<Rightarrow> limb \<Rightarrow> nat \<Rightarrow> limb list option" where
  "recombine r t23 neg n =
     (let n2 = 2 * n
      in case bn_add_words r (drop n2 r) n2 of (t01, c) \<Rightarrow>
         case bn_sub_words t01 t23 n2 of (df, b) \<Rightarrow>
         case bn_add_words t01 t23 n2 of (sm, d) \<Rightarrow>
           let c_neg = c - b; c_pos = c + d
           in add_middle r (bn_select_words neg df sm n2) (constant_time_select_w neg c_neg c_pos) n)"

definition power_of_two :: "nat \<Rightarrow> bool" where
  "power_of_two n \<longleftrightarrow> n \<noteq> 0 \<and> n AND (n - 1) = 0"

function bn_mul_recursive :: "limb list \<Rightarrow> limb list \<Rightarrow> nat \<Rightarrow> int \<Rightarrow> int \<Rightarrow> limb list option" where
  "bn_mul_recursive a b n2 dna dnb =
     (if \<not> power_of_two n2 \<or> \<not> (- 8 \<le> dna \<and> dna \<le> 0) \<or> \<not> (- 8 \<le> dnb \<and> dnb \<le> 0) then None
      else if n2 = 8 \<and> dna = 0 \<and> dnb = 0 then Some (bn_mul_comba8 a b)
      else if n2 < BN_MUL_RECURSIVE_SIZE_NORMAL then
        Some (bn_mul_normal a (nat (int n2 + dna)) b (nat (int n2 + dnb)) @
          (if dna + dnb < 0 then replicate (nat (- (dna + dnb))) 0 else []))
      else
        let n = n2 div 2; tna = int n + dna; tnb = int n + dnb;
            (t0, neg_a) = bn_abs_sub_part_words a (drop n a) (nat tna) (int n - tna);
            (t1, neg_b) = bn_abs_sub_part_words (drop n b) b (nat tnb) (tnb - int n);
            neg = neg_a XOR neg_b
        in if n = 4 \<and> dna = 0 \<and> dnb = 0 then
             recombine (bn_mul_comba4 a b @ bn_mul_comba4 (drop n a) (drop n b)) (bn_mul_comba4 t0 t1) neg n
           else if n = 8 \<and> dna = 0 \<and> dnb = 0 then
             recombine (bn_mul_comba8 a b @ bn_mul_comba8 (drop n a) (drop n b)) (bn_mul_comba8 t0 t1) neg n
           else case bn_mul_recursive t0 t1 n 0 0 of
               None \<Rightarrow> None
             | Some t23 \<Rightarrow>
                 (case bn_mul_recursive a b n 0 0 of
                    None \<Rightarrow> None
                  | Some r01 \<Rightarrow>
                      (case bn_mul_recursive (drop n a) (drop n b) n dna dnb of
                         None \<Rightarrow> None
                       | Some r23 \<Rightarrow> recombine (r01 @ r23) t23 neg n)))"
  by pat_completeness auto
termination
  by (relation "measure (\<lambda>(a, b, n2, dna, dnb). n2)") (auto simp: BN_MUL_RECURSIVE_SIZE_NORMAL_def)

declare bn_mul_recursive.simps [simp del]

text \<open>The loop that looks for the size of the upper halves: with more than a bottom half (\<open>True\<close>), or with the bottom half alone.\<close>

function split_size :: "nat \<Rightarrow> int \<Rightarrow> int \<Rightarrow> (bool \<times> nat) option" where
  "split_size i tna tnb =
     (let i' = i div 2
      in if int i' < tna \<or> int i' < tnb then Some (True, i')
         else if int i' = tna \<or> int i' = tnb then Some (False, i')
         else if i = 0 then None
         else split_size i' tna tnb)"
  by pat_completeness auto
termination
  by (relation "measure (\<lambda>(i, tna, tnb). i)") auto

declare split_size.simps [simp del]

text \<open>\<open>memset\<close> with zero over a number of bytes that need not be a number of limbs.\<close>

definition clear_bytes :: "nat \<Rightarrow> limb list \<Rightarrow> limb list" where
  "clear_bytes k ws = map (\<lambda>(i, w). if 8 * i + 8 \<le> k then 0 else if 8 * i < k then push_bit (8 * (k - 8 * i)) (drop_bit (8 * (k - 8 * i)) w) else w)
     (enumerate 0 ws)"

text \<open>\<open>r\<close> is what the destination holds before the call.\<close>

function bn_mul_part_recursive :: "limb list \<Rightarrow> limb list \<Rightarrow> limb list \<Rightarrow> nat \<Rightarrow> int \<Rightarrow> int \<Rightarrow> limb list option" where
  "bn_mul_part_recursive r a b n tna tnb =
     (if \<not> power_of_two n \<or> \<not> (0 \<le> tna \<and> tna < int n) \<or> \<not> (0 \<le> tnb \<and> tnb < int n) \<or> \<not> (- 1 \<le> tna - tnb \<and> tna - tnb \<le> 1) then None
      else
        let n2 = n * 2;
            na = nat tna; nb = nat tnb
        in if n < 8 then
             Some (bn_mul_normal a (n + na) b (n + nb) @ clear_bytes (n2 - na - nb) (drop (n2 + na + nb) r))
           else
             let (t0, neg_a) = bn_abs_sub_part_words a (drop n a) na (int n - tna);
                 (t1, neg_b) = bn_abs_sub_part_words (drop n b) b nb (tnb - int n);
                 neg = neg_a XOR neg_b;
                 normal = bn_mul_normal (drop n a) na (drop n b) nb @ replicate (n2 - na - nb) 0
             in if n = 8 then
                  recombine (bn_mul_comba8 a b @ normal) (bn_mul_comba8 t0 t1) neg n
                else case bn_mul_recursive t0 t1 n 0 0 of
                    None \<Rightarrow> None
                  | Some t23 \<Rightarrow>
                      (case bn_mul_recursive a b n 0 0 of
                         None \<Rightarrow> None
                       | Some r01 \<Rightarrow>
                           if na < BN_MUL_RECURSIVE_SIZE_NORMAL \<and> nb < BN_MUL_RECURSIVE_SIZE_NORMAL then
                             recombine (r01 @ normal) t23 neg n
                           else (case split_size n tna tnb of
                               None \<Rightarrow> None
                             | Some (more, i) \<Rightarrow>
                                 if i < n then
                                   (case (if more then bn_mul_part_recursive (replicate (4 * i) 0) (drop n a) (drop n b) i (tna - int i) (tnb - int i)
                                          else bn_mul_recursive (drop n a) (drop n b) i (tna - int i) (tnb - int i)) of
                                      None \<Rightarrow> None
                                    | Some r23 \<Rightarrow> recombine (r01 @ r23 @ replicate (n2 - length r23) 0) t23 neg n)
                                 else None)))"
  by pat_completeness auto
termination
  by (relation "measure (\<lambda>(r, a, b, n, tna, tnb). n)") auto

declare bn_mul_part_recursive.simps [simp del]

definition bn_mul_small :: "nat \<Rightarrow> limb list \<Rightarrow> nat \<Rightarrow> limb list \<Rightarrow> nat \<Rightarrow> limb list option" where
  "bn_mul_small num_r a num_a b num_b =
     (if num_r \<noteq> num_a + num_b then None
      else if num_a = 8 \<and> num_b = 8 then Some (bn_mul_comba8 a b)
      else Some (bn_mul_normal a num_a b num_b))"

text \<open>The rows \<open>a[k] * a[j]\<close> with \<open>k < j\<close>, where \<open>a\<close> starts at \<open>k\<close> and \<open>r\<close> holds the limbs written so far.\<close>

fun sqr_rows :: "limb list \<Rightarrow> nat \<Rightarrow> limb list \<Rightarrow> limb list" where
  "sqr_rows (w # v # as) k r =
     (case bn_mul_add_words (drop (2 * k + 1) r) (v # as) (length (v # as)) w of (s, c) \<Rightarrow> sqr_rows (v # as) (k + 1) (take (2 * k + 1) r @ s @ [c]))"
| "sqr_rows as k r = r"

definition bn_sqr_normal :: "limb list \<Rightarrow> nat \<Rightarrow> limb list" where
  "bn_sqr_normal a n =
     (if n = 0 then []
      else
        let mx = n * 2;
            r = (if n > 1 then
                   (case bn_mul_words (tl a) (n - 1) (a ! 0) of (s, c) \<Rightarrow> sqr_rows (tl (take n a)) 1 ([0] @ s @ [c]))
                 else [0]);
            r = r @ [0];
            r = fst (bn_add_words r r mx);
            tmp = bn_sqr_words a n
        in fst (bn_add_words r tmp mx))"

function bn_sqr_recursive :: "limb list \<Rightarrow> nat \<Rightarrow> limb list option" where
  "bn_sqr_recursive a n2 =
     (if \<not> power_of_two n2 then None
      else if n2 = 4 then Some (bn_sqr_comba4 a)
      else if n2 = 8 then Some (bn_sqr_comba8 a)
      else if n2 < BN_MUL_RECURSIVE_SIZE_NORMAL then Some (bn_sqr_normal a n2)
      else
        let n = n2 div 2;
            t0 = bn_abs_sub_words a (drop n a) n
        in case bn_sqr_recursive t0 n of
            None \<Rightarrow> None
          | Some t23 \<Rightarrow>
              (case bn_sqr_recursive a n of
                 None \<Rightarrow> None
               | Some r01 \<Rightarrow>
                   (case bn_sqr_recursive (drop n a) n of
                      None \<Rightarrow> None
                    | Some r23 \<Rightarrow>
                        let r = r01 @ r23
                        in case bn_add_words r (drop n2 r) n2 of (t01, c) \<Rightarrow>
                           case bn_sub_words t01 t23 n2 of (m, b) \<Rightarrow> add_middle r m (c - b) n)))"
  by pat_completeness auto
termination
  by (relation "measure (\<lambda>(a, n2). n2)") (auto simp: BN_MUL_RECURSIVE_SIZE_NORMAL_def)

declare bn_sqr_recursive.simps [simp del]

definition bn_sqr_small :: "nat \<Rightarrow> limb list \<Rightarrow> nat \<Rightarrow> limb list option" where
  "bn_sqr_small num_r a num_a =
     (if num_r \<noteq> 2 * num_a \<or> num_a > 9 then None
      else if num_a = 4 then Some (bn_sqr_comba4 a)
      else if num_a = 8 then Some (bn_sqr_comba8 a)
      else Some (bn_sqr_normal a num_a))"

end
