(* ===== verification/BN_Mul_Spec.thy ===== *)
theory BN_Mul_Spec
  imports BN_Mul
begin

text \<open>
  The routines of \<open>BN_Mul\<close> compute products and squares. Karatsuba's recursion is correct for operands whose upper halves are short by up
  to eight limbs, as its callers need, and none of its assertions fails.
\<close>

unbundle bit_operations_syntax

section \<open>Schoolbook multiplication\<close>

lemma mul_normal_loop_spec:
  "na \<le> length a \<Longrightarrow> length r = na + i \<Longrightarrow> length (mul_normal_loop a na bs i r) = na + i + length bs \<and>
    limbs_val (mul_normal_loop a na bs i r) = limbs_val r + limb_base ^ i * (limbs_val (take na a) * limbs_val bs)"
proof (induction a na bs i r rule: mul_normal_loop.induct)
  case (2 a na b bs i r)
  obtain s c where m: "bn_mul_add_words (drop i r) a na b = (s, c)" by (rule prod.exhaust)
  have n: "na \<le> length (drop i r)" using 2(3) by simp
  note sp = bn_mul_add_words_spec [OF n 2(2) m]
  let ?r = "take i r @ s @ [c]"
  have v: "limbs_val ?r = limbs_val r + limb_base ^ i * (unat b * limbs_val (take na a))"
  proof -
    have "limbs_val ?r = limbs_val (take i r) + limb_base ^ i * (limbs_val s + limb_base ^ na * unat c)"
      using 2(3) sp(1) by (simp add: limbs_val_append)
    also have "\<dots> = limbs_val (take i r) + limb_base ^ i * limbs_val (drop i r) + limb_base ^ i * (unat b * limbs_val (take na a))"
      unfolding sp(2) using 2(3) by (simp add: distrib_left)
    finally show ?thesis using limbs_val_take_drop [of r i] 2(3) by simp
  qed
  have "length ?r = na + (i + 1)" using 2(3) sp(1) by simp
  from 2(1) [OF m [symmetric] 2(2) this] show ?case by (simp add: m v algebra_simps)
qed simp

lemma bn_mul_normal_aux:
  assumes "na \<le> length a" "nb \<le> length b" "0 < nb" and m: "bn_mul_words a na (b ! 0) = (r, c)"
  shows "length (mul_normal_loop a na (tl (take nb b)) 1 (r @ [c])) = na + nb \<and>
    limbs_val (mul_normal_loop a na (tl (take nb b)) 1 (r @ [c])) = limbs_val (take na a) * limbs_val (take nb b)"
proof -
  note s = bn_mul_words_spec [OF assms(1) m]
  have tb: "take nb b = b ! 0 # tl (take nb b)" using assms(2,3) by (cases b; cases nb) simp_all
  have "limbs_val (take nb b) = unat (b ! 0) + limb_base * limbs_val (tl (take nb b))" by (subst tb) simp
  moreover have "length (tl (take nb b)) = nb - 1" using assms(2) by simp
  moreover have "limbs_val (r @ [c]) = unat (b ! 0) * limbs_val (take na a)" using s by (simp add: limbs_val_append)
  ultimately show ?thesis using mul_normal_loop_spec [OF assms(1), of "r @ [c]" 1 "tl (take nb b)"] s(1) assms(3)
    by (simp add: algebra_simps)
qed

lemma bn_mul_normal_spec:
  assumes "na \<le> length a" "nb \<le> length b"
  shows "length (bn_mul_normal a na b nb) = na + nb \<and> limbs_val (bn_mul_normal a na b nb) = limbs_val (take na a) * limbs_val (take nb b)"
proof -
  have *: "length (bn_mul_normal a na b nb) = na + nb \<and> limbs_val (bn_mul_normal a na b nb) = limbs_val (take na a) * limbs_val (take nb b)"
    if le: "\<not> na < nb" and n: "na \<le> length a" "nb \<le> length b" for a b na nb
  proof (cases "nb = 0")
    case False
    obtain r c where "bn_mul_words a na (b ! 0) = (r, c)" by (rule prod.exhaust)
    with False le bn_mul_normal_aux [OF n _ this] show ?thesis by (simp add: bn_mul_normal_def)
  qed (use le in \<open>simp add: bn_mul_normal_def\<close>)
  show ?thesis
  proof (cases "na < nb")
    case True
    then have "bn_mul_normal a na b nb = bn_mul_normal b nb a na" by (simp add: bn_mul_normal_def)
    with True * [of nb na b a] assms show ?thesis by (simp add: mult.commute)
  qed (use * assms in blast)
qed

section \<open>Absolute differences\<close>

lemma bn_sub_part_words_spec:
  fixes dl :: int
  assumes la: "cl + nat dl \<le> length a" and lb: "cl + nat (- dl) \<le> length b" and s: "bn_sub_part_words a b cl dl = (r, c)"
  shows "length r = cl + nat \<bar>dl\<bar>" "unat c \<le> 1"
    "limbs_val r + limbs_val (take (cl + nat (- dl)) b) = limbs_val (take (cl + nat dl) a) + limb_base ^ (cl + nat \<bar>dl\<bar>) * unat c"
proof -
  obtain r0 c0 where b: "bn_sub_words a b cl = (r0, c0)" by (rule prod.exhaust)
  note sp = bn_sub_words_spec [OF _ _ b]
  have l: "cl \<le> length a" "cl \<le> length b" using la lb by simp_all
  consider "dl = 0" | "dl < 0" | "0 < dl" by linarith
  then have "length r = cl + nat \<bar>dl\<bar> \<and> unat c \<le> 1 \<and>
    limbs_val r + limbs_val (take (cl + nat (- dl)) b) = limbs_val (take (cl + nat dl) a) + limb_base ^ (cl + nat \<bar>dl\<bar>) * unat c"
  proof cases
    case 1
    then show ?thesis using s sp [OF l] by (simp add: bn_sub_part_words_def b)
  next
    case 2
    define d where "d = nat (- dl)"
    obtain t c1 where t: "limb_loop neg_step (take d (drop cl b)) c0 = (t, c1)" by (rule prod.exhaust)
    have r: "r = r0 @ t" "c = c1" using s 2 by (simp_all add: bn_sub_part_words_def b d_def [symmetric] t)
    have d: "nat dl = 0" "nat \<bar>dl\<bar> = d" "length (take d (drop cl b)) = d" using 2 lb by (simp_all add: d_def)
    have c0: "c0 \<le> 1" using sp(2) [OF l] by (simp add: word_le_nat_alt)
    have n: "length t = d" "unat c1 \<le> 1" "int (limbs_val t) + int limb_base ^ d * - int (unat c1) = - int (limbs_val (take d (drop cl b))) + - int (unat c0)"
      using neg.loop [OF c0 t] d(3) neg_total [of "take d (drop cl b)"] by (simp_all add: word_le_nat_alt del: of_nat_unat)
    then have "int (limbs_val t + limbs_val (take d (drop cl b)) + unat c0) = int (limb_base ^ d * unat c1)" by (simp del: of_nat_unat)
    then have e: "limbs_val t + limbs_val (take d (drop cl b)) + unat c0 = limb_base ^ d * unat c1" by (simp only: of_nat_eq_iff)
    have vb: "limbs_val (take (cl + d) b) = limbs_val (take cl b) + limb_base ^ cl * limbs_val (take d (drop cl b))"
      using l by (simp add: take_add limbs_val_append min_def)
    have "limbs_val r + limbs_val (take (cl + d) b) = limbs_val (take cl a) + limb_base ^ cl * (limbs_val t + limbs_val (take d (drop cl b)) + unat c0)"
      using sp(1,3) [OF l] unfolding r vb limbs_val_append by (simp add: algebra_simps)
    then show ?thesis using n(1,2) sp(1) [OF l] unfolding e d d_def [symmetric] by (simp add: r power_add)
  next
    case 3
    define d where "d = nat dl"
    obtain t c1 where t: "limb_loop borrow_step (take d (drop cl a)) c0 = (t, c1)" by (rule prod.exhaust)
    have r: "r = r0 @ t" "c = c1" using s 3 by (simp_all add: bn_sub_part_words_def b d_def [symmetric] t)
    have d: "nat (- dl) = 0" "nat \<bar>dl\<bar> = d" "length (take d (drop cl a)) = d" using 3 la by (simp_all add: d_def)
    have n: "length t = d" "int (limbs_val t) + int limb_base ^ d * - int (unat c1) = int (limbs_val (take d (drop cl a))) + - int (unat c0)"
      using borrow.loop [OF _ t] d(3) borrow_total [of "take d (drop cl a)"] by (simp_all del: of_nat_unat)
    then have "int (limbs_val t + unat c0) = int (limbs_val (take d (drop cl a)) + limb_base ^ d * unat c1)" by (simp del: of_nat_unat)
    then have e: "limbs_val t + unat c0 = limbs_val (take d (drop cl a)) + limb_base ^ d * unat c1" by (simp only: of_nat_eq_iff)
    have "limbs_val t < limb_base ^ d" using limbs_val_less [of t] n(1) by simp
    then have "limb_base ^ d * unat c1 < limb_base ^ d * 2" using e sp(2) [OF l] limbs_val_less [of t] by linarith
    then have c1: "unat c1 \<le> 1" by simp
    have va: "limbs_val (take (cl + d) a) = limbs_val (take cl a) + limb_base ^ cl * limbs_val (take d (drop cl a))"
      using l by (simp add: take_add limbs_val_append min_def)
    have "limbs_val r + limbs_val (take cl b) = limbs_val (take cl a) + limb_base ^ cl * (limbs_val t + unat c0)"
      using sp(1,3) [OF l] unfolding r limbs_val_append by (simp add: algebra_simps)
    then show ?thesis using n(1) c1 sp(1) [OF l] unfolding e va d d_def [symmetric] by (simp add: r power_add algebra_simps va)
  qed
  then show "length r = cl + nat \<bar>dl\<bar>" "unat c \<le> 1"
    "limbs_val r + limbs_val (take (cl + nat (- dl)) b) = limbs_val (take (cl + nat dl) a) + limb_base ^ (cl + nat \<bar>dl\<bar>) * unat c" by blast+
qed

text \<open>A borrow bit tells which operand is larger, and what is written is the difference when it is clear.\<close>

lemma borrow_cases:
  assumes v: "r + vb = va + m * c" and b: "r < m" "va < m" "vb < m" and c: "c \<le> (1 :: nat)"
  shows "c = of_bool (va < vb)" "vb \<le> va \<Longrightarrow> r = va - vb"
proof -
  consider "c = 0" | "c = 1" using c by linarith
  then show "c = of_bool (va < vb)" using v b by cases auto
  then show "vb \<le> va \<Longrightarrow> r = va - vb" using v by simp
qed

lemma mask_of_borrow: "unat (c :: limb) = of_bool P \<Longrightarrow> 0 - c = ct_mask P"
proof -
  assume "unat c = of_bool P"
  then have "c = of_bool P" by (cases P) (simp_all add: word_unat_eq_iff)
  then show ?thesis by (simp add: ct_mask_def)
qed

definition distance :: "nat \<Rightarrow> nat \<Rightarrow> nat" where
  "distance x y = (if x < y then y - x else x - y)"

lemma select_distance:
  assumes va: "va < limb_base ^ n" and vb: "vb < limb_base ^ n"
    and r: "length r = n" "unat c \<le> 1" "limbs_val r + vb = va + limb_base ^ n * unat (c :: limb)"
    and s: "length s = n" "unat d \<le> 1" "limbs_val s + va = vb + limb_base ^ n * unat (d :: limb)"
  shows "0 - c = ct_mask (va < vb)" "length (bn_select_words (0 - c) s r n) = n" "limbs_val (bn_select_words (0 - c) s r n) = distance va vb"
proof -
  have less: "limbs_val r < limb_base ^ n" "limbs_val s < limb_base ^ n" using limbs_val_less [of r] limbs_val_less [of s] r s by simp_all
  note cr = borrow_cases [OF r(3) less(1) va vb r(2)] and cs = borrow_cases [OF s(3) less(2) vb va s(2)]
  show c: "0 - c = ct_mask (va < vb)" by (rule mask_of_borrow [OF cr(1)])
  show "length (bn_select_words (0 - c) s r n) = n" "limbs_val (bn_select_words (0 - c) s r n) = distance va vb"
    unfolding c using bn_select_words_spec [OF s(1) r(1), of "va < vb"] r(1) s(1) cr(2) cs(2) by (simp_all add: distance_def)
qed

lemma bn_abs_sub_part_words_spec:
  fixes dl :: int
  assumes la: "cl + nat dl \<le> length a" and lb: "cl + nat (- dl) \<le> length b" and s: "bn_abs_sub_part_words a b cl dl = (r, c)"
  defines "va \<equiv> limbs_val (take (cl + nat dl) a)" and "vb \<equiv> limbs_val (take (cl + nat (- dl)) b)"
  shows "length r = cl + nat \<bar>dl\<bar>" "limbs_val r = distance va vb" "c = ct_mask (va < vb)"
proof -
  let ?n = "cl + nat \<bar>dl\<bar>"
  obtain tmp c0 where t: "bn_sub_part_words a b cl dl = (tmp, c0)" by (rule prod.exhaust)
  obtain u c1 where u: "bn_sub_part_words b a cl (- dl) = (u, c1)" by (rule prod.exhaust)
  note st = bn_sub_part_words_spec [OF la lb t]
  have su: "length u = ?n" "unat c1 \<le> 1" "limbs_val u + va = vb + limb_base ^ ?n * unat c1"
    using bn_sub_part_words_spec [OF _ _ u] la lb by (simp_all add: va_def vb_def)
  have less: "va < limb_base ^ ?n" "vb < limb_base ^ ?n"
  proof -
    have "va < limb_base ^ (cl + nat dl)" "vb < limb_base ^ (cl + nat (- dl))"
      unfolding va_def vb_def by (rule limbs_val_take_less [OF la], rule limbs_val_take_less [OF lb])
    moreover have "limb_base ^ (cl + nat dl) \<le> limb_base ^ ?n" "limb_base ^ (cl + nat (- dl)) \<le> limb_base ^ ?n"
      by (intro power_increasing; simp add: limb_base_def)+
    ultimately show "va < limb_base ^ ?n" "vb < limb_base ^ ?n" by linarith+
  qed
  have rc: "r = bn_select_words (0 - c0) u tmp ?n" "c = 0 - c0" using s by (auto simp: bn_abs_sub_part_words_def t u Let_def)
  from select_distance [OF less st [folded va_def vb_def] su]
  show "length r = ?n" "limbs_val r = distance va vb" "c = ct_mask (va < vb)" by (simp_all add: rc)
qed

lemma bn_abs_sub_words_spec:
  assumes "n \<le> length a" "n \<le> length b"
  shows "length (bn_abs_sub_words a b n) = n" "limbs_val (bn_abs_sub_words a b n) = distance (limbs_val (take n a)) (limbs_val (take n b))"
proof -
  obtain tmp c0 where t: "bn_sub_words a b n = (tmp, c0)" by (rule prod.exhaust)
  obtain u c1 where u: "bn_sub_words b a n = (u, c1)" by (rule prod.exhaust)
  have less: "limbs_val (take n a) < limb_base ^ n" "limbs_val (take n b) < limb_base ^ n"
    using assms by (simp_all only: limbs_val_take_less)
  from select_distance [OF less bn_sub_words_spec [OF assms t] bn_sub_words_spec [OF assms(2,1) u]]
  show "length (bn_abs_sub_words a b n) = n" "limbs_val (bn_abs_sub_words a b n) = distance (limbs_val (take n a)) (limbs_val (take n b))"
    by (simp_all add: bn_abs_sub_words_def t u)
qed

section \<open>Recombination\<close>

lemma add_middle_spec:
  assumes r: "length r = 4 * n" and t: "length t = 2 * n" and c: "unat c \<le> 2"
    and v: "limbs_val r + limb_base ^ n * (limbs_val t + limb_base ^ (2 * n) * unat c) < limb_base ^ (4 * n)"
  shows "\<exists>r'. add_middle r t c n = Some r' \<and> length r' = 4 * n \<and>
    limbs_val r' = limbs_val r + limb_base ^ n * (limbs_val t + limb_base ^ (2 * n) * unat c)"
proof -
  obtain m c' where m: "bn_add_words (drop n r) t (2 * n) = (m, c')" by (rule prod.exhaust)
  obtain hi d where h: "limb_loop carry_step (take n (drop (n + 2 * n) r)) (c + c') = (hi, d)" by (rule prod.exhaust)
  have sm: "length m = 2 * n" "unat c' \<le> 1" "limbs_val m + limb_base ^ (2 * n) * unat c' = limbs_val (take (2 * n) (drop n r)) + limbs_val t"
    using bn_add_words_spec [OF _ _ m] r t by simp_all
  have cc: "unat (c + c') = unat c + unat c'" using c sm(2) by (simp add: unat_limb_add limb_base_def)
  have sh: "length hi = n" "limbs_val hi + limb_base ^ n * unat d = limbs_val (drop (3 * n) r) + (unat c + unat c')"
    using carry.loop [OF _ h] carry_total [of "take n (drop (n + 2 * n) r)"] r cc
    by (simp_all del: of_nat_unat flip: of_nat_add of_nat_mult of_nat_power)
  let ?r = "take n r @ m @ hi"
  have "limbs_val r = limbs_val (take n r) + limb_base ^ n * (limbs_val (take (2 * n) (drop n r)) + limb_base ^ (2 * n) * limbs_val (drop (3 * n) r))"
    using limbs_val_take_drop [of r n] limbs_val_take_drop [of "drop n r" "2 * n"] r by (simp add: min_def)
  moreover have "limbs_val m + limb_base ^ (2 * n) * (limbs_val hi + limb_base ^ n * unat d) =
      limbs_val (take (2 * n) (drop n r)) + limbs_val t + limb_base ^ (2 * n) * (limbs_val (drop (3 * n) r) + unat c)"
    unfolding sh(2) using sm(3) by (simp add: distrib_left)
  ultimately have e: "limbs_val r + limb_base ^ n * (limbs_val t + limb_base ^ (2 * n) * unat c) =
      limbs_val (take n r) + limb_base ^ n * (limbs_val m + limb_base ^ (2 * n) * (limbs_val hi + limb_base ^ n * unat d))"
    by (simp add: distrib_left)
  have "limbs_val ?r = limbs_val (take n r) + limb_base ^ n * (limbs_val m + limb_base ^ (2 * n) * limbs_val hi)"
    using r sm(1) by (simp add: limbs_val_append min_def)
  then have e2: "limbs_val r + limb_base ^ n * (limbs_val t + limb_base ^ (2 * n) * unat c) = limbs_val ?r + limb_base ^ (4 * n) * unat d"
    unfolding e by (simp add: algebra_simps power_add [symmetric])
  then have "limb_base ^ (4 * n) * unat d < limb_base ^ (4 * n) * 1" using v by linarith
  then have "unat d < 1" by (simp only: mult_less_cancel1)
  then have "d = 0" by (simp add: unat_eq_0 [symmetric])
  then have "add_middle r t c n = Some ?r" unfolding add_middle_def Let_def m prod.case h by simp
  then show ?thesis using e2 \<open>d = 0\<close> r sm(1) sh(1) by simp
qed

text \<open>The three products give the whole: with \<open>x\<close> and \<open>y\<close> the products of the lower and of the upper halves and \<open>z\<close> the product of the distances.\<close>

lemma recombine_spec:
  assumes r: "length r = 4 * n" and t: "length t = 2 * n"
    and x: "x = limbs_val (take (2 * n) r)" and y: "y = limbs_val (drop (2 * n) r)" and z: "z = limbs_val t"
    and mid: "if neg then mid + z = x + y else mid = x + y + z" and v: "x + limb_base ^ n * mid + limb_base ^ (2 * n) * y < limb_base ^ (4 * n)"
  shows "\<exists>r'. recombine r t (ct_mask neg) n = Some r' \<and> length r' = 4 * n \<and> limbs_val r' = x + limb_base ^ n * mid + limb_base ^ (2 * n) * y"
proof -
  obtain t01 c where a: "bn_add_words r (drop (2 * n) r) (2 * n) = (t01, c)" by (rule prod.exhaust)
  obtain df b where s: "bn_sub_words t01 t (2 * n) = (df, b)" by (rule prod.exhaust)
  obtain sm d where p: "bn_add_words t01 t (2 * n) = (sm, d)" by (rule prod.exhaust)
  have sa: "length t01 = 2 * n" "unat c \<le> 1" "limbs_val t01 + limb_base ^ (2 * n) * unat c = x + y"
    using bn_add_words_spec [OF _ _ a] r by (simp_all add: x y)
  have ss: "length df = 2 * n" "unat b \<le> 1" "limbs_val df + z = limbs_val t01 + limb_base ^ (2 * n) * unat b"
    using bn_sub_words_spec [OF _ _ s] sa(1) t by (simp_all add: z)
  have sp: "length sm = 2 * n" "unat d \<le> 1" "limbs_val sm + limb_base ^ (2 * n) * unat d = limbs_val t01 + z"
    using bn_add_words_spec [OF _ _ p] sa(1) t by (simp_all add: z)
  define m where "m = (if neg then df else sm)"
  define e where "e = (if neg then c - b else c + d)"
  have m: "length m = 2 * n" using ss(1) sp(1) by (simp add: m_def)
  have e: "unat e \<le> 2" "limbs_val m + limb_base ^ (2 * n) * unat e = mid"
  proof -
    have "unat e \<le> 2 \<and> limbs_val m + limb_base ^ (2 * n) * unat e = mid"
    proof (cases neg)
      case True
      have le: "limb_base ^ (2 * n) * unat b \<le> limbs_val df + limb_base ^ (2 * n) * unat c"
        using True mid sa(3) ss(3) by simp
      have "unat b \<le> unat c"
      proof (rule ccontr)
        assume "\<not> unat b \<le> unat c"
        then have "unat b = 1" "unat c = 0" using ss(2) by simp_all
        then show False using le limbs_val_less [of df] ss(1) by simp
      qed
      then have "unat e = unat c - unat b" using True by (simp add: e_def unat_limb_sub)
      moreover have "limbs_val df + limb_base ^ (2 * n) * (unat c - unat b) = mid"
        using True mid sa(3) ss(3) \<open>unat b \<le> unat c\<close> by (simp add: diff_mult_distrib2)
      ultimately show ?thesis using True sa(2) by (simp add: m_def)
    next
      case False
      then have "unat e = unat c + unat d" using sa(2) sp(2) by (simp add: e_def unat_limb_add limb_base_def)
      then show ?thesis using False mid sa(2,3) sp(2,3) by (simp add: m_def distrib_left)
    qed
    then show "unat e \<le> 2" "limbs_val m + limb_base ^ (2 * n) * unat e = mid" by blast+
  qed
  have rv: "limbs_val r = x + limb_base ^ (2 * n) * y" using limbs_val_take_drop [of r "2 * n"] r by (simp add: x y min_def)
  have "recombine r t (ct_mask neg) n = add_middle r m e n"
    unfolding recombine_def Let_def a prod.case s p select_w bn_select_words_spec [OF ss(1) sp(1)] m_def e_def by simp
  moreover have "limbs_val r + limb_base ^ n * mid < limb_base ^ (4 * n)" using v unfolding rv by simp
  ultimately show ?thesis using add_middle_spec [OF r m e(1)] unfolding e(2) rv by (simp add: ac_simps)
qed

text \<open>Karatsuba's identity on distances.\<close>

lemma karatsuba_middle:
  fixes a0 a1 b0 b1 :: nat
  shows "if (a0 < a1) \<noteq> (b1 < b0) then a0 * b1 + a1 * b0 + distance a0 a1 * distance b1 b0 = a0 * b0 + a1 * b1
    else a0 * b1 + a1 * b0 = a0 * b0 + a1 * b1 + distance a0 a1 * distance b1 b0"
proof -
  have i: "int (distance x y) = (if x < y then int y - int x else int x - int y)" for x y :: nat by (auto simp: distance_def)
  have "int (a0 * b1 + a1 * b0 + distance a0 a1 * distance b1 b0) = int (a0 * b0 + a1 * b1)" if "(a0 < a1) \<noteq> (b1 < b0)"
    using that by (auto simp: i algebra_simps simp del: of_nat_eq_iff)
  moreover have "int (a0 * b1 + a1 * b0) = int (a0 * b0 + a1 * b1 + distance a0 a1 * distance b1 b0)" if "(a0 < a1) = (b1 < b0)"
    using that by (auto simp: i algebra_simps simp del: of_nat_eq_iff)
  ultimately show ?thesis by (simp only: of_nat_eq_iff) auto
qed

section \<open>Karatsuba's recursion\<close>

lemma power_of_two_half: "power_of_two n \<Longrightarrow> 2 \<le> n \<Longrightarrow> n = 2 * (n div 2) \<and> power_of_two (n div 2)"
proof -
  assume p: "power_of_two n" and n: "2 \<le> n"
  have "n AND (n - 1) = of_bool (odd n \<and> odd (n - 1)) + 2 * (n div 2 AND ((n - 1) div 2))" by (rule and_rec)
  then have z: "n div 2 AND ((n - 1) div 2) = 0" using p by (simp add: power_of_two_def)
  have "even n"
  proof (rule ccontr)
    assume "odd n"
    then have "(n - 1) div 2 = n div 2" by presburger
    with z n show False by simp
  qed
  then have "(n - 1) div 2 = n div 2 - 1" by presburger
  with z n \<open>even n\<close> show ?thesis by (auto simp: power_of_two_def)
qed

lemma take_split: "n + m \<le> length xs \<Longrightarrow> limbs_val (take (n + m) xs) = limbs_val (take n xs) + limb_base ^ n * limbs_val (take m (drop n xs))"
  by (simp add: take_add limbs_val_append min_def)

lemma ct_mask_xor: "ct_mask p XOR ct_mask q = (ct_mask (p \<noteq> q) :: limb)"
  by (simp add: ct_mask_def)

lemma karatsuba:
  fixes tna tnb :: int
  assumes ta: "0 \<le> tna" "tna \<le> int n" and tb: "0 \<le> tnb" "tnb \<le> int n" and la: "n + nat tna \<le> length a" and lb: "n + nat tnb \<le> length b"
    and s0: "bn_abs_sub_part_words a (drop n a) (nat tna) (int n - tna) = (t0, neg_a)"
    and s1: "bn_abs_sub_part_words (drop n b) b (nat tnb) (tnb - int n) = (t1, neg_b)"
  shows "length t0 = n" "length t1 = n"
    "length r01 = 2 * n \<Longrightarrow> limbs_val r01 = limbs_val (take n a) * limbs_val (take n b) \<Longrightarrow>
     length r23 = 2 * n \<Longrightarrow> limbs_val r23 = limbs_val (take (nat tna) (drop n a)) * limbs_val (take (nat tnb) (drop n b)) \<Longrightarrow>
     length t23 = 2 * n \<Longrightarrow> limbs_val t23 = limbs_val t0 * limbs_val t1 \<Longrightarrow>
     \<exists>r. recombine (r01 @ r23) t23 (neg_a XOR neg_b) n = Some r \<and> length r = 4 * n \<and>
       limbs_val r = limbs_val (take (n + nat tna) a) * limbs_val (take (n + nat tnb) b)"
proof -
  define a0 a1 b0 b1 where "a0 = limbs_val (take n a)" and "a1 = limbs_val (take (nat tna) (drop n a))"
    and "b0 = limbs_val (take n b)" and "b1 = limbs_val (take (nat tnb) (drop n b))"
  have na: "nat tna + nat (int n - tna) = n" "nat tna + nat (- (int n - tna)) = nat tna" "nat tna + nat \<bar>int n - tna\<bar> = n" using ta by simp_all
  have nb: "nat tnb + nat (tnb - int n) = nat tnb" "nat tnb + nat (- (tnb - int n)) = n" "nat tnb + nat \<bar>tnb - int n\<bar> = n" using tb by simp_all
  have l0: "nat tna + nat (int n - tna) \<le> length a" "nat tna + nat (- (int n - tna)) \<le> length (drop n a)" unfolding na using la by simp_all
  have l1: "nat tnb + nat (tnb - int n) \<le> length (drop n b)" "nat tnb + nat (- (tnb - int n)) \<le> length b" unfolding nb using lb by simp_all
  note sp0 = bn_abs_sub_part_words_spec [OF l0 s0, unfolded na, folded a0_def a1_def]
  note sp1 = bn_abs_sub_part_words_spec [OF l1 s1, unfolded nb, folded b0_def b1_def]
  show "length t0 = n" "length t1 = n" using sp0(1) sp1(1) .
  assume r01: "length r01 = 2 * n" "limbs_val r01 = limbs_val (take n a) * limbs_val (take n b)"
    and r23: "length r23 = 2 * n" "limbs_val r23 = limbs_val (take (nat tna) (drop n a)) * limbs_val (take (nat tnb) (drop n b))"
    and t23: "length t23 = 2 * n" "limbs_val t23 = limbs_val t0 * limbs_val t1"
  have A: "limbs_val (take (n + nat tna) a) = a0 + limb_base ^ n * a1" unfolding a0_def a1_def by (rule take_split [OF la])
  have B: "limbs_val (take (n + nat tnb) b) = b0 + limb_base ^ n * b1" unfolding b0_def b1_def by (rule take_split [OF lb])
  have prod: "a0 * b0 + limb_base ^ n * (a0 * b1 + a1 * b0) + limb_base ^ (2 * n) * (a1 * b1) = (a0 + limb_base ^ n * a1) * (b0 + limb_base ^ n * b1)"
    by (simp add: algebra_simps mult_2_right power_add mult_2)
  have "limb_base ^ (n + nat tna) \<le> limb_base ^ (2 * n)" "limb_base ^ (n + nat tnb) \<le> limb_base ^ (2 * n)"
    using ta tb by (auto intro!: power_increasing simp: limb_base_def)
  then have "a0 + limb_base ^ n * a1 < limb_base ^ (2 * n)" "b0 + limb_base ^ n * b1 < limb_base ^ (2 * n)"
    using limbs_val_take_less [OF la] limbs_val_take_less [OF lb] unfolding A B by linarith+
  then have "(a0 + limb_base ^ n * a1) * (b0 + limb_base ^ n * b1) < limb_base ^ (2 * n) * limb_base ^ (2 * n)" by (intro mult_strict_mono) simp_all
  then have v: "a0 * b0 + limb_base ^ n * (a0 * b1 + a1 * b0) + limb_base ^ (2 * n) * (a1 * b1) < limb_base ^ (4 * n)"
    unfolding prod by (simp only: power_add [symmetric]) simp
  have mid: "if (a0 < a1) \<noteq> (b1 < b0) then a0 * b1 + a1 * b0 + limbs_val t23 = a0 * b0 + a1 * b1
      else a0 * b1 + a1 * b0 = a0 * b0 + a1 * b1 + limbs_val t23"
    unfolding t23(2) sp0(2) sp1(2) by (rule karatsuba_middle)
  have x: "a0 * b0 = limbs_val (take (2 * n) (r01 @ r23))" using r01 by (simp add: a0_def b0_def)
  have y: "a1 * b1 = limbs_val (drop (2 * n) (r01 @ r23))" using r01(1) r23(2) by (simp add: a1_def b1_def)
  have len: "length (r01 @ r23) = 4 * n" using r01(1) r23(1) by simp
  have "neg_a XOR neg_b = ct_mask ((a0 < a1) \<noteq> (b1 < b0))" unfolding sp0(3) sp1(3) by (rule ct_mask_xor)
  with recombine_spec [OF len t23(1) x y refl mid v]
  show "\<exists>r. recombine (r01 @ r23) t23 (neg_a XOR neg_b) n = Some r \<and> length r = 4 * n \<and>
      limbs_val r = limbs_val (take (n + nat tna) a) * limbs_val (take (n + nat tnb) b)"
    unfolding A B prod by simp
qed

text \<open>The fixed-size products on arrays that may be longer.\<close>

lemma comba_take:
  "bn_mul_comba8 a b = bn_mul_comba8 (take 8 a) (take 8 b)" "bn_mul_comba4 a b = bn_mul_comba4 (take 4 a) (take 4 b)"
  "bn_sqr_comba8 a = bn_sqr_comba8 (take 8 a)" "bn_sqr_comba4 a = bn_sqr_comba4 (take 4 a)"
  by (simp_all add: bn_mul_comba8_def mul_comba8_columns_def bn_mul_comba4_def mul_comba4_columns_def bn_sqr_comba8_def sqr_comba8_columns_def
      bn_sqr_comba4_def sqr_comba4_columns_def sqr_add_c_def sqr_add_c2_def)

lemma comba8_product:
  "8 \<le> length a \<Longrightarrow> 8 \<le> length b \<Longrightarrow> length (bn_mul_comba8 a b) = 16 \<and> limbs_val (bn_mul_comba8 a b) = limbs_val (take 8 a) * limbs_val (take 8 b)"
  unfolding comba_take(1) [of a b] by (rule bn_mul_comba8_spec) simp_all

lemma bn_mul_recursive_8: "bn_mul_recursive a b 8 0 0 = Some (bn_mul_comba8 a b)"
  by (simp add: bn_mul_recursive.simps [of a b 8] power_of_two_def)

lemma bn_mul_recursive_spec:
  "power_of_two n2 \<Longrightarrow> 8 \<le> n2 \<Longrightarrow> - 8 \<le> dna \<Longrightarrow> dna \<le> 0 \<Longrightarrow> - 8 \<le> dnb \<Longrightarrow> dnb \<le> 0 \<Longrightarrow>
    nat (int n2 + dna) \<le> length a \<Longrightarrow> nat (int n2 + dnb) \<le> length b \<Longrightarrow>
    \<exists>r. bn_mul_recursive a b n2 dna dnb = Some r \<and> length r = 2 * n2 \<and>
      limbs_val r = limbs_val (take (nat (int n2 + dna)) a) * limbs_val (take (nat (int n2 + dnb)) b)"
proof (induction n2 arbitrary: a b dna dnb rule: less_induct)
  case (less n2)
  note da = less.prems(3,4) and db = less.prems(5,6) and la = less.prems(7) and lb = less.prems(8)
  have pre: "\<not> (\<not> power_of_two n2 \<or> \<not> (- 8 \<le> dna \<and> dna \<le> 0) \<or> \<not> (- 8 \<le> dnb \<and> dnb \<le> 0))" using less.prems by simp
  note unfold = bn_mul_recursive.simps [of a b n2 dna dnb] if_not_P [OF pre]
  consider (comba) "n2 = 8 \<and> dna = 0 \<and> dnb = 0" | (normal) "\<not> (n2 = 8 \<and> dna = 0 \<and> dnb = 0)" "n2 < BN_MUL_RECURSIVE_SIZE_NORMAL"
    | (rec) "\<not> (n2 = 8 \<and> dna = 0 \<and> dnb = 0)" "\<not> n2 < BN_MUL_RECURSIVE_SIZE_NORMAL" by blast
  then show ?case
  proof cases
    case comba
    then show ?thesis using comba8_product [of a b] la lb unfolding unfold if_P [OF comba] by simp
  next
    case normal
    have len: "nat (int n2 + dna) + nat (int n2 + dnb) + nat (- (dna + dnb)) = 2 * n2" using less.prems by simp
    show ?thesis using bn_mul_normal_spec [OF la lb] len unfolding unfold if_not_P [OF normal(1)] if_P [OF normal(2)]
      by (auto simp: limbs_val_append)
  next
    case rec
    define n where "n = n2 div 2"
    have n2: "n2 = 2 * n" "power_of_two n" using power_of_two_half [OF less.prems(1)] less.prems(2) by (simp_all add: n_def)
    have n8: "8 \<le> n" "n < n2" using rec(2) n2(1) by (simp_all add: BN_MUL_RECURSIVE_SIZE_NORMAL_def)
    have na: "nat (int n2 + dna) = n + nat (int n + dna)" "nat (int n2 + dnb) = n + nat (int n + dnb)" using n2(1) n8 da db by simp_all
    obtain t0 neg_a where s0: "bn_abs_sub_part_words a (drop n a) (nat (int n + dna)) (int n - (int n + dna)) = (t0, neg_a)" by (rule prod.exhaust)
    obtain t1 neg_b where s1: "bn_abs_sub_part_words (drop n b) b (nat (int n + dnb)) (int n + dnb - int n) = (t1, neg_b)" by (rule prod.exhaust)
    note k = karatsuba [OF _ _ _ _ la [unfolded na] lb [unfolded na] s0 s1]
    have k12: "length t0 = n" "length t1 = n" using k(1,2) n8 da db by simp_all
    note IH = less.IH [OF n8(2) n2(2) n8(1)]
    obtain t23 where t23: "bn_mul_recursive t0 t1 n 0 0 = Some t23" "length t23 = 2 * n" "limbs_val t23 = limbs_val t0 * limbs_val t1"
      using IH [of 0 0 t0 t1] k12 by auto
    obtain r01 where r01: "bn_mul_recursive a b n 0 0 = Some r01" "length r01 = 2 * n" "limbs_val r01 = limbs_val (take n a) * limbs_val (take n b)"
      using IH [of 0 0 a b] la lb na by auto
    obtain r23 where r23: "bn_mul_recursive (drop n a) (drop n b) n dna dnb = Some r23" "length r23 = 2 * n"
      "limbs_val r23 = limbs_val (take (nat (int n + dna)) (drop n a)) * limbs_val (take (nat (int n + dnb)) (drop n b))"
    proof -
      have "nat (int n + dna) \<le> length (drop n a)" "nat (int n + dnb) \<le> length (drop n b)" using la lb unfolding na by simp_all
      from IH [OF da db this] that show thesis by blast
    qed
    have c8: "n = 8 \<Longrightarrow> dna = 0 \<Longrightarrow> dnb = 0 \<Longrightarrow> r01 = bn_mul_comba8 a b \<and> r23 = bn_mul_comba8 (drop n a) (drop n b) \<and> t23 = bn_mul_comba8 t0 t1"
      using r01(1) r23(1) t23(1) by (simp add: bn_mul_recursive_8)
    have "bn_mul_recursive a b n2 dna dnb = recombine (r01 @ r23) t23 (neg_a XOR neg_b) n"
      unfolding unfold if_not_P [OF rec(1)] if_not_P [OF rec(2)] Let_def n_def [symmetric] s0 s1 prod.case t23(1) r01(1) r23(1) option.case
      using n8(1) c8 by auto
    moreover have "\<exists>r. recombine (r01 @ r23) t23 (neg_a XOR neg_b) n = Some r \<and> length r = 4 * n \<and>
        limbs_val r = limbs_val (take (n + nat (int n + dna)) a) * limbs_val (take (n + nat (int n + dnb)) b)"
      using k(3) [OF _ _ _ _ r01(2,3) r23(2,3) t23(2,3)] n8 da db by simp
    ultimately show ?thesis unfolding na using n2(1) by simp
  qed
qed

text \<open>The loop finds a power of two that is at least half of the larger upper part.\<close>

lemma split_size_spec:
  fixes tna tnb :: int
  assumes p: "power_of_two i" "8 \<le> i" and big: "16 \<le> tna \<or> 16 \<le> tnb" and near: "- 1 \<le> tna - tnb" "tna - tnb \<le> 1"
    and less: "tna < int i" "tnb < int i"
  shows "\<exists>more j. split_size i tna tnb = Some (more, j) \<and> power_of_two j \<and> 8 \<le> j \<and> 2 * j \<le> i \<and> tna < 2 * int j \<and> tnb < 2 * int j \<and>
    (more \<longrightarrow> int j \<le> tna \<and> int j \<le> tnb) \<and> (\<not> more \<longrightarrow> tna \<le> int j \<and> tnb \<le> int j \<and> int j \<le> tna + 1 \<and> int j \<le> tnb + 1)"
  using p less
proof (induction i rule: less_induct)
  case (less i)
  define j where "j = i div 2"
  have i: "i = 2 * j" "power_of_two j" using power_of_two_half [OF less.prems(1)] less.prems(2) by (simp_all add: j_def)
  have i16: "16 < i" using big less.prems by linarith
  consider (more) "int j < tna \<or> int j < tnb" | (bottom) "\<not> (int j < tna \<or> int j < tnb)" "int j = tna \<or> int j = tnb"
    | (again) "\<not> (int j < tna \<or> int j < tnb)" "\<not> (int j = tna \<or> int j = tnb)" by blast
  then show ?case
  proof cases
    case more
    then have "split_size i tna tnb = Some (True, j)" by (subst split_size.simps) (simp add: j_def [symmetric] Let_def)
    moreover have "int j \<le> tna \<and> int j \<le> tnb" using more near by linarith
    moreover have "8 \<le> j" "2 * j \<le> i" "tna < 2 * int j" "tnb < 2 * int j" using i(1) i16 less.prems by simp_all
    ultimately show ?thesis using i(2) by blast
  next
    case bottom
    have "split_size i tna tnb = Some (False, j)"
      unfolding split_size.simps [of i] j_def [symmetric] Let_def if_not_P [OF bottom(1)] if_P [OF bottom(2)] ..
    moreover have "8 \<le> j" "2 * j \<le> i" "tna < 2 * int j" "tnb < 2 * int j" using i(1) i16 less.prems by simp_all
    moreover have "tna \<le> int j \<and> tnb \<le> int j \<and> int j \<le> tna + 1 \<and> int j \<le> tnb + 1" using bottom near by linarith
    ultimately show ?thesis using i(2) by blast
  next
    case again
    then have s: "split_size i tna tnb = split_size j tna tnb" using i16
      unfolding split_size.simps [of i] j_def [symmetric] Let_def if_not_P [OF again(1)] if_not_P [OF again(2)] by simp
    have "j < i" "8 \<le> j" "tna < int j" "tnb < int j" using i(1) i16 again by simp_all
    from less.IH [OF this(1) i(2) this(2-4)] show ?thesis unfolding s using i(1) by fastforce
  qed
qed

lemma nat_upper: "int j \<le> t \<Longrightarrow> j + nat (t - int j) = nat t"
  by (simp add: nat_diff_distrib le_nat_iff)

lemma bn_mul_part_recursive_spec:
  "power_of_two n \<Longrightarrow> 8 \<le> n \<Longrightarrow> 0 \<le> tna \<Longrightarrow> tna < int n \<Longrightarrow> 0 \<le> tnb \<Longrightarrow> tnb < int n \<Longrightarrow> - 1 \<le> tna - tnb \<Longrightarrow> tna - tnb \<le> 1 \<Longrightarrow>
    n + nat tna \<le> length a \<Longrightarrow> n + nat tnb \<le> length b \<Longrightarrow>
    \<exists>r. bn_mul_part_recursive r0 a b n tna tnb = Some r \<and> length r = 4 * n \<and>
      limbs_val r = limbs_val (take (n + nat tna) a) * limbs_val (take (n + nat tnb) b)"
proof (induction n arbitrary: r0 a b tna tnb rule: less_induct)
  case (less n)
  note ta = less.prems(3,4) and tb = less.prems(5,6) and near = less.prems(7,8) and la = less.prems(9) and lb = less.prems(10)
  have pre: "\<not> (\<not> power_of_two n \<or> \<not> (0 \<le> tna \<and> tna < int n) \<or> \<not> (0 \<le> tnb \<and> tnb < int n) \<or> \<not> (- 1 \<le> tna - tnb \<and> tna - tnb \<le> 1))"
    using less.prems by simp
  have n8: "\<not> n < 8" using less.prems(2) by simp
  obtain t0 neg_a where s0: "bn_abs_sub_part_words a (drop n a) (nat tna) (int n - tna) = (t0, neg_a)" by (rule prod.exhaust)
  obtain t1 neg_b where s1: "bn_abs_sub_part_words (drop n b) b (nat tnb) (tnb - int n) = (t1, neg_b)" by (rule prod.exhaust)
  note unfold = bn_mul_part_recursive.simps [of r0 a b n tna tnb] if_not_P [OF pre] if_not_P [OF n8] Let_def s0 s1 prod.case
  note k = karatsuba [OF ta(1) less_imp_le [OF ta(2)] tb(1) less_imp_le [OF tb(2)] la lb s0 s1]
  have l1: "nat tna \<le> length (drop n a)" "nat tnb \<le> length (drop n b)" using la lb by simp_all
  let ?normal = "bn_mul_normal (drop n a) (nat tna) (drop n b) (nat tnb) @ replicate (n * 2 - nat tna - nat tnb) 0"
  have normal: "length ?normal = 2 * n" "limbs_val ?normal = limbs_val (take (nat tna) (drop n a)) * limbs_val (take (nat tnb) (drop n b))"
    using bn_mul_normal_spec [OF l1] ta tb by (simp_all add: limbs_val_append)
  have rec: "\<exists>r. bn_mul_recursive x y n 0 0 = Some r \<and> length r = 2 * n \<and> limbs_val r = limbs_val (take n x) * limbs_val (take n y)"
    if "n \<le> length x" "n \<le> length y" for x y
    using bn_mul_recursive_spec [OF less.prems(1,2), of 0 0 x y] that by simp
  obtain t23 where t23: "bn_mul_recursive t0 t1 n 0 0 = Some t23" "length t23 = 2 * n" "limbs_val t23 = limbs_val t0 * limbs_val t1"
    using rec [of t0 t1] k(1,2) by auto
  obtain r01 where r01: "bn_mul_recursive a b n 0 0 = Some r01" "length r01 = 2 * n" "limbs_val r01 = limbs_val (take n a) * limbs_val (take n b)"
    using rec [of a b] la lb by auto
  show ?case
  proof (cases "n = 8")
    case True
    then have "t23 = bn_mul_comba8 t0 t1" "r01 = bn_mul_comba8 a b" using t23(1) r01(1) by (simp_all add: bn_mul_recursive_8)
    then show ?thesis using k(3) [OF r01(2,3) normal t23(2,3)] unfolding unfold if_P [OF True] by simp
  next
    case False
    show ?thesis
    proof (cases "nat tna < BN_MUL_RECURSIVE_SIZE_NORMAL \<and> nat tnb < BN_MUL_RECURSIVE_SIZE_NORMAL")
      case True
      then show ?thesis using k(3) [OF r01(2,3) normal t23(2,3)] unfolding unfold if_not_P [OF False] t23(1) r01(1) option.case by simp
    next
      case big: False
      then have "16 \<le> tna \<or> 16 \<le> tnb" by (auto simp: BN_MUL_RECURSIVE_SIZE_NORMAL_def)
      from split_size_spec [OF less.prems(1,2) this near ta(2) tb(2)] obtain more j where j: "split_size n tna tnb = Some (more, j)"
        "power_of_two j" "8 \<le> j" "2 * j \<le> n" "tna < 2 * int j" "tnb < 2 * int j" "more \<Longrightarrow> int j \<le> tna \<and> int j \<le> tnb"
        "\<not> more \<Longrightarrow> tna \<le> int j \<and> tnb \<le> int j \<and> int j \<le> tna + 1 \<and> int j \<le> tnb + 1" by blast
      have jn: "j < n" using j(3,4) by simp
      define upper where "upper = (if more then bn_mul_part_recursive (replicate (4 * j) 0) (drop n a) (drop n b) j (tna - int j) (tnb - int j)
        else bn_mul_recursive (drop n a) (drop n b) j (tna - int j) (tnb - int j))"
      have "\<exists>r23. upper = Some r23 \<and> length r23 \<le> 2 * n \<and>
        limbs_val r23 = limbs_val (take (nat tna) (drop n a)) * limbs_val (take (nat tnb) (drop n b))"
      proof (cases more)
        case True
        note m = j(7) [OF True]
        have e: "j + nat (tna - int j) = nat tna \<and> j + nat (tnb - int j) = nat tnb" using m nat_upper by blast
        show ?thesis
          using less.IH [OF jn j(2,3), of "tna - int j" "tnb - int j" "drop n a" "drop n b" "replicate (4 * j) 0", unfolded conjunct1 [OF e] conjunct2 [OF e]] m j(4,5,6) near l1
          by (auto simp: upper_def True)
      next
        case bottom: False
        note m = j(8) [OF bottom]
        have e: "nat (int j + (tna - int j)) = nat tna" "nat (int j + (tnb - int j)) = nat tnb" by simp_all
        show ?thesis
          using bn_mul_recursive_spec [OF j(2,3), of "tna - int j" "tnb - int j" "drop n a" "drop n b", unfolded e] m j(4) l1
          by (auto simp: upper_def bottom)
      qed
      then obtain r23 where r23: "upper = Some r23" "length (r23 @ replicate (n * 2 - length r23) 0) = 2 * n"
        "limbs_val (r23 @ replicate (n * 2 - length r23) 0) = limbs_val (take (nat tna) (drop n a)) * limbs_val (take (nat tnb) (drop n b))"
        by (auto simp: limbs_val_append)
      show ?thesis using k(3) [OF r01(2,3) r23(2,3) t23(2,3)]
        unfolding unfold if_not_P [OF False] if_not_P [OF big] if_P [OF jn] t23(1) r01(1) j(1) option.case r23(1) [unfolded upper_def] by simp
    qed
  qed
qed

section \<open>Squares\<close>

text \<open>The products of different limbs, each counted once.\<close>

fun cross_val :: "limb list \<Rightarrow> nat" where
  "cross_val [] = 0"
| "cross_val (w # ws) = unat w * limbs_val ws + limb_base ^ 2 * cross_val ws"

lemma square_split: "limbs_val ws ^ 2 = 2 * limb_base * cross_val ws + squares_val ws"
proof (induction ws)
  case (Cons w ws)
  have "limbs_val (w # ws) ^ 2 = unat w * unat w + 2 * limb_base * (unat w * limbs_val ws) + limb_base ^ 2 * limbs_val ws ^ 2"
    by (simp add: power2_eq_square algebra_simps)
  then show ?case unfolding Cons by (simp add: algebra_simps)
qed simp

lemma sqr_rows_spec:
  "ws \<noteq> [] \<Longrightarrow> length r = 2 * k + length ws \<Longrightarrow> length (sqr_rows ws k r) = 2 * k + 2 * length ws - 1 \<and>
    limbs_val (sqr_rows ws k r) = limbs_val r + limb_base ^ (2 * k + 1) * cross_val ws"
proof (induction ws k r rule: sqr_rows.induct)
  case (1 w v ws k r)
  let ?a = "v # ws"
  obtain s c where m: "bn_mul_add_words (drop (2 * k + 1) r) ?a (length ?a) w = (s, c)" by (rule prod.exhaust)
  have n: "length ?a \<le> length (drop (2 * k + 1) r)" "length (drop (2 * k + 1) r) = length ?a" using 1(3) by simp_all
  note sp = bn_mul_add_words_spec [OF n(1) _ m]
  let ?r = "take (2 * k + 1) r @ s @ [c]"
  have len: "length ?r = 2 * (k + 1) + length ?a" using 1(3) sp(1) by simp
  have "limbs_val ?r = limbs_val (take (2 * k + 1) r) + limb_base ^ (2 * k + 1) * (limbs_val s + limb_base ^ length ?a * unat c)"
    using 1(3) sp(1) by (simp add: limbs_val_append del: power_Suc)
  also have "\<dots> = limbs_val r + limb_base ^ (2 * k + 1) * (unat w * limbs_val ?a)"
    using sp(2) n limbs_val_take_drop [of r "2 * k + 1"] 1(3) by (simp add: distrib_left del: power_Suc)
  finally have v: "limbs_val ?r = limbs_val r + limb_base ^ (2 * k + 1) * (unat w * limbs_val ?a)" .
  have p: "limb_base ^ (2 * (k + 1) + 1) = limb_base ^ (2 * k + 1) * limb_base ^ 2" by (simp add: power_add [symmetric])
  have e: "sqr_rows (w # v # ws) k r = sqr_rows ?a (k + 1) ?r" by (simp add: m [simplified])
  from 1(1) [OF m [symmetric] _ len] have ih: "length (sqr_rows ?a (k + 1) ?r) = 2 * (k + 1) + 2 * length ?a - 1"
    "limbs_val (sqr_rows ?a (k + 1) ?r) = limbs_val ?r + limb_base ^ (2 * (k + 1) + 1) * cross_val ?a" by blast+
  show ?case unfolding e ih(2) v p cross_val.simps(2) [of w ?a] using ih(1) by (simp add: distrib_left mult.assoc del: power_Suc cross_val.simps)
qed simp_all

lemma bn_sqr_normal_spec:
  assumes n: "n \<le> length a"
  shows "length (bn_sqr_normal a n) = 2 * n \<and> limbs_val (bn_sqr_normal a n) = limbs_val (take n a) ^ 2"
proof (cases "n = 0")
  case False
  define ws where "ws = take n a"
  obtain w ws' where ws: "ws = w # ws'" "length ws' = n - 1" using n False by (cases a; cases n) (simp_all add: ws_def)
  have w: "a ! 0 = w" "take (n - 1) (tl a) = ws'" "tl (take n a) = ws'" "length ws = n"
    using ws n False by (auto simp: ws_def take_tl nth_take [of 0 n a, symmetric] tl_take)
  define r where "r = (if n > 1 then (case bn_mul_words (tl a) (n - 1) (a ! 0) of (s, c) \<Rightarrow> sqr_rows (tl (take n a)) 1 ([0] @ s @ [c])) else [0])"
  have r: "length r = 2 * n - 1 \<and> limbs_val r = limb_base * cross_val ws"
  proof (cases "n > 1")
    case True
    obtain s c where m: "bn_mul_words (tl a) (n - 1) w = (s, c)" by (rule prod.exhaust)
    have "n - 1 \<le> length (tl a)" using n by simp
    note sp = bn_mul_words_spec [OF this m, unfolded w(2)]
    have ne: "ws' \<noteq> []" using ws(2) True by auto
    have "length ([0] @ s @ [c]) = 2 * 1 + length ws'" using sp(1) ws(2) by simp
    note rows = sqr_rows_spec [OF ne this]
    have "r = sqr_rows ws' 1 ([0] @ s @ [c])" unfolding r_def w m prod.case if_P [OF True] ..
    moreover have "limbs_val ([0] @ s @ [c]) = limb_base * (unat w * limbs_val ws')"
      unfolding sp(2) [symmetric] using sp(1) by (simp add: limbs_val_append)
    moreover have "limb_base ^ (2 * 1 + 1) = limb_base * limb_base ^ 2" by (simp add: power3_eq_cube power2_eq_square)
    ultimately show ?thesis using rows ws True by (simp add: distrib_left mult.assoc)
  next
    case False
    then have "n = 1" using \<open>n \<noteq> 0\<close> by simp
    then show ?thesis using ws by (simp add: r_def)
  qed
  have len: "length (r @ [0]) = n * 2" "limbs_val (r @ [0]) = limb_base * cross_val ws" using r False by (simp_all add: limbs_val_append)
  have "limbs_val ws ^ 2 < (limb_base ^ n) ^ 2" using limbs_val_less [of ws] w(4) by (intro power_strict_mono) simp_all
  then have less: "2 * limb_base * cross_val ws + squares_val ws < limb_base ^ (n * 2)" unfolding square_split by (simp add: power_mult)
  obtain d c1 where d: "bn_add_words (r @ [0]) (r @ [0]) (n * 2) = (d, c1)" by (rule prod.exhaust)
  have sd: "length d = n * 2" "limbs_val d + limb_base ^ (n * 2) * unat c1 = 2 * limb_base * cross_val ws"
    using bn_add_words_spec [OF _ _ d] len by simp_all
  then have "limb_base ^ (n * 2) * unat c1 < limb_base ^ (n * 2) * 1" using less by linarith
  then have dv: "limbs_val d = 2 * limb_base * cross_val ws" using sd(2) by simp
  have sq: "length (bn_sqr_words a n) = n * 2" "limbs_val (bn_sqr_words a n) = squares_val ws"
    using bn_sqr_words_spec [OF n] by (simp_all add: ws_def)
  obtain e c2 where e: "bn_add_words d (bn_sqr_words a n) (n * 2) = (e, c2)" by (rule prod.exhaust)
  have se: "length e = n * 2" "limbs_val e + limb_base ^ (n * 2) * unat c2 = limbs_val ws ^ 2"
    using bn_add_words_spec [OF _ _ e] sd(1) sq by (simp_all add: dv square_split)
  then have "limb_base ^ (n * 2) * unat c2 < limb_base ^ (n * 2) * 1" using less unfolding square_split by linarith
  then have "limbs_val e = limbs_val ws ^ 2" using se(2) by simp
  moreover have "bn_sqr_normal a n = e" unfolding bn_sqr_normal_def Let_def r_def [symmetric] d e if_not_P [OF False] by (simp add: d e)
  ultimately show ?thesis using se(1) by (simp add: ws_def)
qed (simp add: bn_sqr_normal_def)

lemma distance_square: "distance x y ^ 2 + 2 * x * y = x ^ 2 + y ^ (2 :: nat)"
proof -
  have "int (distance x y) = (if x < y then int y - int x else int x - int y)" by (auto simp: distance_def)
  then have "int (distance x y ^ 2 + 2 * x * y) = int (x ^ 2 + y ^ 2)" by (auto simp: power2_eq_square algebra_simps simp del: of_nat_eq_iff)
  then show ?thesis by (simp only: of_nat_eq_iff)
qed

lemma bn_sqr_recursive_spec:
  "power_of_two n2 \<Longrightarrow> 4 \<le> n2 \<Longrightarrow> n2 \<le> length a \<Longrightarrow>
    \<exists>r. bn_sqr_recursive a n2 = Some r \<and> length r = 2 * n2 \<and> limbs_val r = limbs_val (take n2 a) ^ 2"
proof (induction n2 arbitrary: a rule: less_induct)
  case (less n2)
  have pre: "\<not> \<not> power_of_two n2" using less.prems(1) by simp
  note unfold = bn_sqr_recursive.simps [of a n2] if_not_P [OF pre]
  consider (c4) "n2 = 4" | (c8) "n2 = 8" | (normal) "n2 \<noteq> 4" "n2 \<noteq> 8" "n2 < BN_MUL_RECURSIVE_SIZE_NORMAL"
    | (rec) "n2 \<noteq> 4" "n2 \<noteq> 8" "\<not> n2 < BN_MUL_RECURSIVE_SIZE_NORMAL" by blast
  then show ?case
  proof cases
    case c4
    then have "length (take 4 a) = 4" using less.prems(3) by simp
    from bn_sqr_comba4_spec [OF this] show ?thesis using c4 unfolding unfold comba_take(4) [of a] by simp
  next
    case c8
    then have "length (take 8 a) = 8" using less.prems(3) by simp
    from bn_sqr_comba8_spec [OF this] show ?thesis using c8 unfolding unfold comba_take(3) [of a] by simp
  next
    case normal
    then show ?thesis using bn_sqr_normal_spec [OF less.prems(3)] unfolding unfold by simp
  next
    case rec
    define n where "n = n2 div 2"
    have n2: "n2 = 2 * n" "power_of_two n" using power_of_two_half [OF less.prems(1)] less.prems(2) by (simp_all add: n_def)
    have n8: "n < n2" "4 \<le> n" using rec(3) n2(1) by (simp_all add: BN_MUL_RECURSIVE_SIZE_NORMAL_def)
    have la: "n \<le> length a" "n \<le> length (drop n a)" using less.prems(3) n2(1) by simp_all
    define x y where "x = limbs_val (take n a)" and "y = limbs_val (take n (drop n a))"
    let ?t0 = "bn_abs_sub_words a (drop n a) n"
    note t0 = bn_abs_sub_words_spec [OF la, folded x_def y_def]
    note IH = less.IH [OF n8(1) n2(2) n8(2)]
    obtain t23 where t23: "bn_sqr_recursive ?t0 n = Some t23" "length t23 = 2 * n" "limbs_val t23 = distance x y ^ 2"
      using IH [of ?t0] t0 by auto
    obtain r01 where r01: "bn_sqr_recursive a n = Some r01" "length r01 = 2 * n" "limbs_val r01 = x ^ 2"
      using IH [OF la(1)] by (auto simp: x_def)
    obtain r23 where r23: "bn_sqr_recursive (drop n a) n = Some r23" "length r23 = 2 * n" "limbs_val r23 = y ^ 2"
      using IH [OF la(2)] by (auto simp: y_def)
    let ?r = "r01 @ r23"
    have A: "limbs_val (take n2 a) = x + limb_base ^ n * y"
      using take_split [of n n a] less.prems(3) n2(1) by (simp add: x_def y_def mult_2)
    have sq: "x ^ 2 + limb_base ^ n * (2 * x * y) + limb_base ^ (2 * n) * y ^ 2 = (x + limb_base ^ n * y) ^ 2"
      by (simp add: power2_eq_square algebra_simps mult_2_right power_add mult_2)
    have "x + limb_base ^ n * y < limb_base ^ (2 * n)" using limbs_val_take_less [OF less.prems(3)] by (simp only: A) (simp only: n2(1))
    then have "(x + limb_base ^ n * y) ^ 2 < (limb_base ^ (2 * n)) ^ 2" by (intro power_strict_mono) simp_all
    then have v: "x ^ 2 + limb_base ^ n * (2 * x * y) + limb_base ^ (2 * n) * y ^ 2 < limb_base ^ (4 * n)"
      unfolding sq power_mult [symmetric] by simp
    have mid: "if True then 2 * x * y + limbs_val t23 = x ^ 2 + y ^ 2 else 2 * x * y = x ^ 2 + y ^ 2 + limbs_val t23"
      using distance_square [of x y] by (simp add: t23(3))
    have xv: "x ^ 2 = limbs_val (take (2 * n) ?r)" and yv: "y ^ 2 = limbs_val (drop (2 * n) ?r)" using r01 r23 by simp_all
    have "length ?r = 4 * n" using r01(2) r23(2) by simp
    from recombine_spec [OF this t23(2) xv yv refl mid v]
    have rc: "\<exists>r. recombine ?r t23 (ct_mask True) n = Some r \<and> length r = 4 * n \<and> limbs_val r = (x + limb_base ^ n * y) ^ 2" unfolding sq .
    obtain t01 c where p: "bn_add_words ?r (drop (2 * n) ?r) (2 * n) = (t01, c)" by (rule prod.exhaust)
    obtain df b where s: "bn_sub_words t01 t23 (2 * n) = (df, b)" by (rule prod.exhaust)
    have "2 * n \<le> length ?r" "2 * n \<le> length (drop (2 * n) ?r)" using r01(2) r23(2) by simp_all
    from bn_add_words_spec(1) [OF this p] have lt: "length t01 = 2 * n" .
    obtain sm d where q: "bn_add_words t01 t23 (2 * n) = (sm, d)" by (rule prod.exhaust)
    have "length df = 2 * n" "length sm = 2 * n"
      using bn_sub_words_spec(1) [OF _ _ s] bn_add_words_spec(1) [OF _ _ q] lt t23(2) by simp_all
    then have "recombine ?r t23 (ct_mask True) n = add_middle ?r df (c - b) n"
      unfolding recombine_def Let_def p prod.case s q select_w by (simp add: bn_select_words_spec)
    moreover have "bn_sqr_recursive a n2 = add_middle ?r df (c - b) n"
      unfolding unfold if_not_P [OF rec(1)] if_not_P [OF rec(2)] if_not_P [OF rec(3)] Let_def n_def [symmetric] t23(1) r01(1) r23(1) option.case
      unfolding n2(1) p prod.case s ..
    ultimately show ?thesis using rc unfolding A [symmetric] by (simp add: n2(1))
  qed
qed

end
