(* ===== verification/BN.thy ===== *)
theory BN
  imports BN_Words Mem
begin

text \<open>
  The integers of \<^verbatim>\<open>crypto/fipsmodule/bn/bn.c\<close>. A \<open>BIGNUM\<close> owns a block of \<open>dmax\<close> limbs of which \<open>width\<close> are in use; the width need not be
  minimal. Functions on one number take and return its record; a call that fails gives back the number as it leaves it.
\<close>

unbundle bit_operations_syntax

section \<open>Data\<close>

record BIGNUM =
  bn_d :: "limb list"
  bn_width :: nat
  bn_dmax :: nat
  bn_neg :: bool
  bn_flags :: u32

definition BN_FLG_MALLOCED :: u32 where "BN_FLG_MALLOCED = 1"

definition BN_FLG_STATIC_DATA :: u32 where "BN_FLG_STATIC_DATA = 2"

definition BN_BYTES :: nat where "BN_BYTES = 8"

definition BN_MASK2 :: limb where "BN_MASK2 = 0xffffffffffffffff"

definition sizeof_BIGNUM :: nat where "sizeof_BIGNUM = 24"

text \<open>Limbs in memory are little endian.\<close>

definition limb_bytes :: "limb \<Rightarrow> byte list" where
  "limb_bytes w = rev (be_bytes 8 (unat w))"

definition bytes_of_limbs :: "limb list \<Rightarrow> byte list" where
  "bytes_of_limbs ws = concat (map limb_bytes ws)"

fun limbs_of_bytes :: "nat \<Rightarrow> byte list \<Rightarrow> limb list" where
  "limbs_of_bytes 0 bs = []"
| "limbs_of_bytes (Suc n) bs = of_nat (le_value (take 8 bs)) # limbs_of_bytes n (drop 8 bs)"

section \<open>Operations\<close>

definition BN_init :: BIGNUM where
  "BN_init = \<lparr>bn_d = [], bn_width = 0, bn_dmax = 0, bn_neg = False, bn_flags = 0\<rparr>"

definition BN_new :: "allocator \<Rightarrow> BIGNUM option" where
  "BN_new mem = (case OPENSSL_malloc mem sizeof_BIGNUM of
      None \<Rightarrow> None
    | Some _ \<Rightarrow> Some (BN_init\<lparr>bn_flags := BN_FLG_MALLOCED\<rparr>))"

definition bn_wexpand :: "allocator \<Rightarrow> BIGNUM \<Rightarrow> nat \<Rightarrow> bool \<times> BIGNUM" where
  "bn_wexpand mem bn words =
     (if words \<le> bn_dmax bn then (True, bn)
      else if words > INT_MAX div (4 * BN_BITS2) then (False, bn)
      else if bn_flags bn AND BN_FLG_STATIC_DATA \<noteq> 0 then (False, bn)
      else case OPENSSL_malloc mem (BN_BYTES * words) of
          None \<Rightarrow> (False, bn)
        | Some a \<Rightarrow>
            let a = limbs_of_bytes words a;
                a = take (bn_width bn) (bn_d bn) @ drop (bn_width bn) a
            in (True, bn\<lparr>bn_d := a, bn_dmax := words\<rparr>))"

definition bn_expand :: "allocator \<Rightarrow> BIGNUM \<Rightarrow> nat \<Rightarrow> bool \<times> BIGNUM" where
  "bn_expand mem bn bits =
     (if (bits + BN_BITS2 - 1) mod SIZE_MOD < bits then (False, bn)
      else bn_wexpand mem bn ((bits + BN_BITS2 - 1) mod SIZE_MOD div BN_BITS2))"

text \<open>The copy of a number into another one; copying a number into itself changes nothing.\<close>

definition BN_copy :: "allocator \<Rightarrow> BIGNUM \<Rightarrow> BIGNUM \<Rightarrow> bool \<times> BIGNUM" where
  "BN_copy mem dest src = (case bn_wexpand mem dest (bn_width src) of
      (False, dest) \<Rightarrow> (False, dest)
    | (True, dest) \<Rightarrow>
        (True, dest\<lparr>bn_d := take (bn_width src) (bn_d src) @ drop (bn_width src) (bn_d dest), bn_width := bn_width src, bn_neg := bn_neg src\<rparr>))"

definition BN_dup :: "allocator \<Rightarrow> BIGNUM option \<Rightarrow> BIGNUM option" where
  "BN_dup mem src = (case src of
      None \<Rightarrow> None
    | Some src \<Rightarrow>
        (case BN_new mem of
           None \<Rightarrow> None
         | Some copy \<Rightarrow> (case BN_copy mem copy src of (True, copy) \<Rightarrow> Some copy | (False, _) \<Rightarrow> None)))"

definition BN_clear :: "BIGNUM \<Rightarrow> BIGNUM" where
  "BN_clear bn = bn\<lparr>bn_d := replicate (bn_dmax bn) 0, bn_width := 0, bn_neg := False\<rparr>"

definition BN_value_one :: BIGNUM where
  "BN_value_one = \<lparr>bn_d = [1], bn_width = 1, bn_dmax = 1, bn_neg = False, bn_flags = BN_FLG_STATIC_DATA\<rparr>"

text \<open>One of the six blocks of \<open>BN_num_bits_word\<close>: the bits counted so far and the part of the word that is left.\<close>

definition num_bits_step :: "nat \<Rightarrow> limb \<times> limb \<Rightarrow> limb \<times> limb" where
  "num_bits_step s = (\<lambda>(bits, l).
     let x = drop_bit s l;
         msk = 0 - x;
         msk = 0 - drop_bit (BN_BITS2 - 1) msk
     in (bits + (of_nat s AND msk), l XOR ((x XOR l) AND msk)))"

definition BN_num_bits_word :: "limb \<Rightarrow> nat" where
  "BN_num_bits_word l =
     unat (fst (num_bits_step 1 (num_bits_step 2 (num_bits_step 4 (num_bits_step 8 (num_bits_step 16 (num_bits_step 32 (of_bool (l \<noteq> 0), l))))))))"

fun minimal_width_loop :: "limb list \<Rightarrow> nat \<Rightarrow> nat" where
  "minimal_width_loop d 0 = 0"
| "minimal_width_loop d (Suc ret) = (if d ! ret = 0 then minimal_width_loop d ret else Suc ret)"

definition bn_minimal_width :: "BIGNUM \<Rightarrow> nat" where
  "bn_minimal_width bn = minimal_width_loop (bn_d bn) (bn_width bn)"

definition bn_set_minimal_width :: "BIGNUM \<Rightarrow> BIGNUM" where
  "bn_set_minimal_width bn =
     (let bn = bn\<lparr>bn_width := bn_minimal_width bn\<rparr>
      in if bn_width bn = 0 then bn\<lparr>bn_neg := False\<rparr> else bn)"

text \<open>The count is an \<open>unsigned\<close>, computed in \<open>int\<close>; for the \<open>8388607\<close> limbs \<open>bn_wexpand\<close> allows it is below \<open>2 ^ 29\<close>, so nothing wraps.\<close>

definition BN_num_bits :: "BIGNUM \<Rightarrow> nat" where
  "BN_num_bits bn =
     (let width = bn_minimal_width bn
      in if width = 0 then 0 else (width - 1) * BN_BITS2 + BN_num_bits_word (bn_d bn ! (width - 1)))"

definition BN_num_bytes :: "BIGNUM \<Rightarrow> nat" where
  "BN_num_bytes bn = (BN_num_bits bn + 7) div 8"

definition BN_zero :: "BIGNUM \<Rightarrow> BIGNUM" where
  "BN_zero bn = bn\<lparr>bn_width := 0, bn_neg := False\<rparr>"

definition BN_set_word :: "allocator \<Rightarrow> BIGNUM \<Rightarrow> limb \<Rightarrow> bool \<times> BIGNUM" where
  "BN_set_word mem bn value =
     (if value = 0 then (True, BN_zero bn)
      else case bn_wexpand mem bn 1 of
          (False, bn) \<Rightarrow> (False, bn)
        | (True, bn) \<Rightarrow> (True, bn\<lparr>bn_neg := False, bn_d := (bn_d bn)[0 := value], bn_width := 1\<rparr>))"

definition BN_one :: "allocator \<Rightarrow> BIGNUM \<Rightarrow> bool \<times> BIGNUM" where
  "BN_one mem bn = BN_set_word mem bn 1"

definition BN_set_u64 :: "allocator \<Rightarrow> BIGNUM \<Rightarrow> u64 \<Rightarrow> bool \<times> BIGNUM" where
  "BN_set_u64 mem bn value = BN_set_word mem bn value"

definition bn_set_words :: "allocator \<Rightarrow> BIGNUM \<Rightarrow> limb list \<Rightarrow> bool \<times> BIGNUM" where
  "bn_set_words mem bn words = (case bn_wexpand mem bn (length words) of
      (False, bn) \<Rightarrow> (False, bn)
    | (True, bn) \<Rightarrow> (True, bn\<lparr>bn_d := words @ drop (length words) (bn_d bn), bn_width := length words, bn_neg := False\<rparr>))"

definition bn_set_static_words :: "BIGNUM \<Rightarrow> limb list \<Rightarrow> BIGNUM" where
  "bn_set_static_words bn words =
     bn\<lparr>bn_d := words, bn_width := length words, bn_dmax := length words, bn_neg := False, bn_flags := bn_flags bn OR BN_FLG_STATIC_DATA\<rparr>"

definition bn_fits_in_words :: "BIGNUM \<Rightarrow> nat \<Rightarrow> bool" where
  "bn_fits_in_words bn num \<longleftrightarrow> or_limbs (drop num (take (bn_width bn) (bn_d bn))) 0 = 0"

text \<open>The \<open>num\<close> limbs stored at \<open>out\<close>.\<close>

definition bn_copy_words :: "nat \<Rightarrow> BIGNUM \<Rightarrow> limb list option" where
  "bn_copy_words num bn =
     (if bn_neg bn then None
      else let width = bn_width bn
           in if width > num \<and> \<not> bn_fits_in_words bn num then None
              else let width = (if width > num then num else width)
                   in Some (take width (bn_d bn) @ replicate (num - width) 0))"

definition BN_is_negative :: "BIGNUM \<Rightarrow> bool" where
  "BN_is_negative bn \<longleftrightarrow> bn_neg bn"

definition BN_is_zero :: "BIGNUM \<Rightarrow> bool" where
  "BN_is_zero bn \<longleftrightarrow> bn_fits_in_words bn 0"

definition BN_set_negative :: "BIGNUM \<Rightarrow> bool \<Rightarrow> BIGNUM" where
  "BN_set_negative bn sign = bn\<lparr>bn_neg := (sign \<and> \<not> BN_is_zero bn)\<rparr>"

definition bn_resize_words :: "allocator \<Rightarrow> BIGNUM \<Rightarrow> nat \<Rightarrow> bool \<times> BIGNUM" where
  "bn_resize_words mem bn words =
     (if bn_width bn \<le> words then
        (case bn_wexpand mem bn words of
           (False, bn) \<Rightarrow> (False, bn)
         | (True, bn) \<Rightarrow>
             (True, bn\<lparr>bn_d := take (bn_width bn) (bn_d bn) @ replicate (words - bn_width bn) 0 @ drop words (bn_d bn), bn_width := words\<rparr>))
      else if \<not> bn_fits_in_words bn words then (False, bn)
      else (True, bn\<lparr>bn_width := words\<rparr>))"

section \<open>Invariant and value\<close>

definition bn_ok :: "BIGNUM \<Rightarrow> bool" where
  "bn_ok bn \<longleftrightarrow> length (bn_d bn) = bn_dmax bn \<and> bn_width bn \<le> bn_dmax bn"

definition bn_abs :: "BIGNUM \<Rightarrow> nat" where
  "bn_abs bn = limbs_val (take (bn_width bn) (bn_d bn))"

definition bn_val :: "BIGNUM \<Rightarrow> int" where
  "bn_val bn = (if bn_neg bn then - int (bn_abs bn) else int (bn_abs bn))"

text \<open>Zero has no sign.\<close>

definition bn_canonical :: "BIGNUM \<Rightarrow> bool" where
  "bn_canonical bn \<longleftrightarrow> (bn_neg bn \<longrightarrow> bn_abs bn \<noteq> 0)"

lemma length_limbs_of_bytes [simp]: "length (limbs_of_bytes n bs) = n"
  by (induction n arbitrary: bs) simp_all

lemma bn_wexpand_True:
  assumes ok: "bn_ok bn" and s: "bn_wexpand mem bn n = (True, bn')"
  shows "bn_ok bn'" "n \<le> bn_dmax bn'" "take (bn_width bn) (bn_d bn') = take (bn_width bn) (bn_d bn)"
    "bn_width bn' = bn_width bn" "bn_neg bn' = bn_neg bn" "bn_flags bn' = bn_flags bn"
proof -
  have "bn_ok bn' \<and> n \<le> bn_dmax bn' \<and> take (bn_width bn) (bn_d bn') = take (bn_width bn) (bn_d bn) \<and>
      bn_width bn' = bn_width bn \<and> bn_neg bn' = bn_neg bn \<and> bn_flags bn' = bn_flags bn"
    using ok s by (auto simp: bn_wexpand_def bn_ok_def Let_def split: if_splits option.splits)
  then show "bn_ok bn'" "n \<le> bn_dmax bn'" "take (bn_width bn) (bn_d bn') = take (bn_width bn) (bn_d bn)"
    "bn_width bn' = bn_width bn" "bn_neg bn' = bn_neg bn" "bn_flags bn' = bn_flags bn" by blast+
qed

lemma bn_wexpand_False: "bn_wexpand mem bn n = (False, bn') \<Longrightarrow> bn' = bn"
  by (auto simp: bn_wexpand_def Let_def split: if_splits option.splits)

text \<open>When memory is granted and the number is not a static one, there is room for up to \<open>INT_MAX / 256\<close> limbs.\<close>

lemma bn_wexpand_granted:
  assumes "\<And>k. grants mem k" and "bn_flags bn AND BN_FLG_STATIC_DATA = 0" and n: "n \<le> 8388607"
  shows "fst (bn_wexpand mem bn n)"
proof -
  have "BN_BYTES * n + 8 < SIZE_MOD" using n by (simp add: BN_BYTES_def)
  then obtain p where "OPENSSL_malloc mem (BN_BYTES * n) = Some p" using OPENSSL_malloc_granted assms(1) by blast
  then show ?thesis using assms by (simp add: bn_wexpand_def Let_def BN_BITS2_def)
qed

lemma fits_iff: "bn_ok bn \<Longrightarrow> bn_fits_in_words bn n \<longleftrightarrow> bn_abs bn < limb_base ^ n"
proof -
  assume ok: "bn_ok bn"
  define x where "x = take (bn_width bn) (bn_d bn)"
  have e: "limbs_val x = limbs_val (take n x) + limb_base ^ min n (length x) * limbs_val (drop n x)" by (rule limbs_val_take_drop)
  show ?thesis
  proof (cases "n \<le> length x")
    case True
    then show ?thesis using e limbs_val_take_less [OF True]
      by (cases "limbs_val (drop n x)") (auto simp: bn_fits_in_words_def or_limbs_0 bn_abs_def x_def [symmetric] min_def)
  next
    case False
    then have "limb_base ^ length x \<le> limb_base ^ n" by (intro power_increasing) (simp_all add: Suc_leI)
    then have "limbs_val x < limb_base ^ n" using limbs_val_less [of x] by linarith
    then show ?thesis using False by (simp add: bn_fits_in_words_def or_limbs_0 bn_abs_def x_def [symmetric])
  qed
qed

lemma is_zero_iff: "bn_ok bn \<Longrightarrow> BN_is_zero bn \<longleftrightarrow> bn_abs bn = 0"
  by (simp add: BN_is_zero_def fits_iff)

lemma minimal_width_loop_spec:
  "n \<le> length d \<Longrightarrow> minimal_width_loop d n \<le> n \<and> limbs_val (take (minimal_width_loop d n) d) = limbs_val (take n d) \<and>
    (0 < minimal_width_loop d n \<longrightarrow> d ! (minimal_width_loop d n - 1) \<noteq> 0)"
  by (induction n) (auto simp: take_Suc_conv_app_nth limbs_val_append)

lemma set_minimal_width_spec:
  assumes "bn_ok bn"
  shows "bn_ok (bn_set_minimal_width bn)" "bn_val (bn_set_minimal_width bn) = bn_val bn" "bn_abs (bn_set_minimal_width bn) = bn_abs bn"
    "bn_canonical (bn_set_minimal_width bn)" "bn_dmax (bn_set_minimal_width bn) = bn_dmax bn" "bn_flags (bn_set_minimal_width bn) = bn_flags bn"
proof -
  have n: "bn_width bn \<le> length (bn_d bn)" using assms by (simp add: bn_ok_def)
  note m = minimal_width_loop_spec [OF n]
  have nz: "0 < minimal_width_loop (bn_d bn) (bn_width bn) \<Longrightarrow> limbs_val (take (minimal_width_loop (bn_d bn) (bn_width bn)) (bn_d bn)) \<noteq> 0"
  proof -
    let ?w = "minimal_width_loop (bn_d bn) (bn_width bn)"
    assume w: "0 < ?w"
    then have "bn_d bn ! (?w - 1) \<in> set (take ?w (bn_d bn))" using m n by (auto simp: in_set_conv_nth intro!: exI [of _ "?w - 1"])
    with m w show "limbs_val (take ?w (bn_d bn)) \<noteq> 0" unfolding limbs_val_0_iff by blast
  qed
  show "bn_ok (bn_set_minimal_width bn)" "bn_val (bn_set_minimal_width bn) = bn_val bn" "bn_abs (bn_set_minimal_width bn) = bn_abs bn"
    "bn_canonical (bn_set_minimal_width bn)" "bn_dmax (bn_set_minimal_width bn) = bn_dmax bn" "bn_flags (bn_set_minimal_width bn) = bn_flags bn"
    using assms m nz by (auto simp: bn_set_minimal_width_def bn_minimal_width_def Let_def bn_ok_def bn_abs_def bn_val_def bn_canonical_def)
qed

section \<open>Counting bits\<close>

text \<open>The number of bits of a number.\<close>

fun bit_length :: "nat \<Rightarrow> nat" where
  "bit_length n = (if n = 0 then 0 else Suc (bit_length (n div 2)))"

declare bit_length.simps [simp del]

lemma bit_length_0 [simp]: "bit_length 0 = 0"
  by (simp add: bit_length.simps)

lemma bit_length_div: "n div 2 ^ s \<noteq> 0 \<Longrightarrow> bit_length n = s + bit_length (n div 2 ^ s)"
proof (induction s arbitrary: n)
  case (Suc s)
  have d: "n div 2 ^ Suc s = n div 2 div 2 ^ s" by (simp add: div_mult2_eq)
  have "n \<noteq> 0" using Suc.prems by (metis div_0)
  then have "bit_length n = Suc (bit_length (n div 2))" by (simp add: bit_length.simps [of n])
  then show ?case using Suc.IH [of "n div 2"] Suc.prems unfolding d by simp
qed simp

lemma bit_length_bounds: "n < 2 ^ bit_length n \<and> (n \<noteq> 0 \<longrightarrow> 2 ^ (bit_length n - 1) \<le> n)"
proof (induction n rule: bit_length.induct)
  case (1 n)
  show ?case
  proof (cases "n = 0")
    case False
    have e: "bit_length n = Suc (bit_length (n div 2))" using False by (simp add: bit_length.simps [of n])
    note ih = 1 [OF False]
    have "n < 2 ^ bit_length n" using ih unfolding e power_Suc by linarith
    moreover have "2 ^ (bit_length n - 1) \<le> n"
    proof (cases "n div 2 = 0")
      case True
      then show ?thesis using False by (simp add: e)
    next
      case nz: False
      then have "bit_length (n div 2) \<noteq> 0" by (simp add: bit_length.simps [of "n div 2"])
      then have "(2 :: nat) ^ bit_length (n div 2) = 2 * 2 ^ (bit_length (n div 2) - 1)" by (cases "bit_length (n div 2)") simp_all
      moreover have "2 ^ (bit_length (n div 2) - 1) \<le> n div 2" using ih nz by blast
      ultimately have "2 ^ bit_length (n div 2) \<le> n" by linarith
      then show ?thesis by (simp add: e)
    qed
    ultimately show ?thesis by blast
  qed simp
qed

lemma num_bits_step_spec:
  assumes l: "unat l < 2 ^ (2 * s)" and s: "s \<le> 32" "0 < s" and r: "num_bits_step s (bits, l) = (bits', l')"
  shows "bits' = bits + (if unat l div 2 ^ s = 0 then 0 else of_nat s)" "unat l' = (if unat l div 2 ^ s = 0 then unat l else unat l div 2 ^ s)"
proof -
  let ?x = "drop_bit s l"
  have x: "unat ?x = unat l div 2 ^ s" by (simp only: unat_drop_bit_eq) (simp add: drop_bit_eq_div)
  have "unat l div 2 ^ s < 2 ^ s" using l by (simp add: less_mult_imp_div_less mult_2 power_add)
  moreover have "(2 :: nat) ^ s \<le> 2 ^ 32" using s by (intro power_increasing) simp_all
  ultimately have xl: "unat ?x < 2 ^ 32" using x by linarith
  then have "2 ^ 63 \<le> limb_base + unat (0 :: limb) - unat ?x" by (simp add: limb_base_def)
  then have "bit (0 - ?x) 63 \<longleftrightarrow> ?x \<noteq> 0"
    unfolding bit63 unat_limb_sub by (auto simp: unsigned_eq_0_iff simp del: power_numeral)
  then have m: "0 - drop_bit (BN_BITS2 - 1) (0 - ?x) = ct_mask (?x \<noteq> 0)"
    using msb_w [of "0 - ?x"] by (simp add: constant_time_msb_w_def BN_BITS2_def)
  have z: "?x = 0 \<longleftrightarrow> unat l div 2 ^ s = 0" using x by (metis unsigned_eq_0_iff)
  have "bits' = bits + (of_nat s AND ct_mask (?x \<noteq> 0))" "l' = l XOR ((?x XOR l) AND ct_mask (?x \<noteq> 0))"
    using r unfolding num_bits_step_def Let_def prod.case m by simp_all
  then show "bits' = bits + (if unat l div 2 ^ s = 0 then 0 else of_nat s)" "unat l' = (if unat l div 2 ^ s = 0 then unat l else unat l div 2 ^ s)"
    using x z by (auto simp: ct_mask_def xor.assoc [symmetric] xor.commute)
qed

text \<open>A block keeps the sum of the bits counted and the bits that are left.\<close>

definition bits_left :: "nat \<Rightarrow> nat \<Rightarrow> limb \<times> limb \<Rightarrow> bool" where
  "bits_left tot k p \<longleftrightarrow> unat (snd p) < 2 ^ k \<and> unat (fst p) + bit_length (unat (snd p)) = tot + of_bool (snd p \<noteq> 0) \<and> unat (fst p) \<le> 65 - k"

lemma num_bits_step_left:
  assumes p: "bits_left tot (2 * s) p" and s: "s \<le> 32" "0 < s"
  shows "bits_left tot s (num_bits_step s p)"
proof -
  obtain bits l where pl: "p = (bits, l)" by (cases p)
  obtain bits' l' where r: "num_bits_step s (bits, l) = (bits', l')" by (rule prod.exhaust)
  have l: "unat l < 2 ^ (2 * s)" and t: "unat bits + bit_length (unat l) = tot + of_bool (l \<noteq> 0)" and b: "unat bits \<le> 65 - 2 * s"
    using p by (simp_all add: bits_left_def pl)
  note st = num_bits_step_spec [OF l s r]
  show ?thesis
  proof (cases "unat l div 2 ^ s = 0")
    case True
    then have "bits' = bits" "l' = l" using st by (simp_all add: word_unat_eq_iff)
    moreover have "unat l < 2 ^ s" using True by (simp add: div_eq_0_iff)
    ultimately show ?thesis using t b by (simp add: bits_left_def pl r)
  next
    case False
    have "unat (of_nat s :: limb) = s" using s by (simp add: unat_of_nat take_bit_nat_eq_self)
    then have "unat bits' = unat bits + s" using st(1) False b s by (simp add: unat_limb_add limb_base_def)
    moreover have l': "unat l' = unat l div 2 ^ s" using st(2) False by simp
    moreover have "unat l div 2 ^ s < 2 ^ s" using l by (simp add: less_mult_imp_div_less mult_2 power_add)
    moreover have "l' \<noteq> 0" using l' False by auto
    moreover have "l \<noteq> 0" using False by auto
    ultimately show ?thesis using t b s bit_length_div [OF False] by (simp add: bits_left_def pl r)
  qed
qed

lemma num_bits_word_spec: "BN_num_bits_word l = bit_length (unat l)"
proof -
  have "bits_left (bit_length (unat l)) (2 * 32) (of_bool (l \<noteq> 0), l)"
    using limb_less [of l] by (simp add: bits_left_def limb_base_def)
  then have "bits_left (bit_length (unat l)) (2 * 16) (num_bits_step 32 (of_bool (l \<noteq> 0), l))" using num_bits_step_left by fastforce
  then have "bits_left (bit_length (unat l)) (2 * 8) (num_bits_step 16 (num_bits_step 32 (of_bool (l \<noteq> 0), l)))"
    using num_bits_step_left by fastforce
  then have "bits_left (bit_length (unat l)) (2 * 4) (num_bits_step 8 (num_bits_step 16 (num_bits_step 32 (of_bool (l \<noteq> 0), l))))"
    using num_bits_step_left by fastforce
  then have "bits_left (bit_length (unat l)) (2 * 2) (num_bits_step 4 (num_bits_step 8 (num_bits_step 16 (num_bits_step 32 (of_bool (l \<noteq> 0), l)))))"
    using num_bits_step_left by fastforce
  then have "bits_left (bit_length (unat l)) (2 * 1)
      (num_bits_step 2 (num_bits_step 4 (num_bits_step 8 (num_bits_step 16 (num_bits_step 32 (of_bool (l \<noteq> 0), l))))))"
    using num_bits_step_left by fastforce
  note num_bits_step_left [OF this]
  moreover define p where "p = num_bits_step 1 (num_bits_step 2 (num_bits_step 4 (num_bits_step 8 (num_bits_step 16 (num_bits_step 32 (of_bool (l \<noteq> 0), l))))))"
  ultimately have "bits_left (bit_length (unat l)) 1 p" by simp
  then have p: "unat (snd p) < 2" "unat (fst p) + bit_length (unat (snd p)) = bit_length (unat l) + of_bool (snd p \<noteq> 0)"
    by (simp_all add: bits_left_def)
  have "bit_length (unat (snd p)) = of_bool (snd p \<noteq> 0)"
    using p(1) by (cases "unat (snd p)") (auto simp: bit_length.simps [of "Suc 0"] unsigned_eq_0_iff)
  then show ?thesis using p(2) by (simp add: BN_num_bits_word_def p_def)
qed

lemma num_bits_spec: "bn_ok bn \<Longrightarrow> BN_num_bits bn = bit_length (bn_abs bn)"
proof -
  assume ok: "bn_ok bn"
  have w: "bn_width bn \<le> length (bn_d bn)" using ok by (simp add: bn_ok_def)
  note m = minimal_width_loop_spec [OF w]
  show ?thesis
  proof (cases "bn_minimal_width bn")
    case 0
    then show ?thesis using m by (simp add: BN_num_bits_def bn_minimal_width_def bn_abs_def)
  next
    case (Suc k)
    let ?lo = "take k (bn_d bn)" and ?hi = "bn_d bn ! k"
    have k: "Suc k \<le> length (bn_d bn)" "?hi \<noteq> 0" using m w Suc by (simp_all add: bn_minimal_width_def)
    have abs: "bn_abs bn = limbs_val ?lo + 2 ^ (64 * k) * unat ?hi"
      using m Suc k by (simp add: bn_minimal_width_def bn_abs_def take_Suc_conv_app_nth limbs_val_append limb_base_def power_mult)
    have "limbs_val ?lo < 2 ^ (64 * k)" using limbs_val_take_less [of k "bn_d bn"] k by (simp add: limb_base_def power_mult)
    then have d: "bn_abs bn div 2 ^ (64 * k) = unat ?hi" by (simp add: abs)
    then have "bit_length (bn_abs bn) = 64 * k + bit_length (unat ?hi)" using bit_length_div [of "bn_abs bn" "64 * k"] k(2) by (simp add: unsigned_eq_0_iff)
    then show ?thesis using Suc by (simp add: BN_num_bits_def num_bits_word_spec BN_BITS2_def)
  qed
qed

lemma bit_length_le: "bit_length n \<le> k \<longleftrightarrow> n < 2 ^ k"
proof
  assume "bit_length n \<le> k"
  then have "(2 :: nat) ^ bit_length n \<le> 2 ^ k" by (intro power_increasing) simp_all
  then show "n < 2 ^ k" using bit_length_bounds [of n] by linarith
next
  assume k: "n < 2 ^ k"
  show "bit_length n \<le> k"
  proof (rule ccontr)
    assume "\<not> bit_length n \<le> k"
    then have "(2 :: nat) ^ k \<le> 2 ^ (bit_length n - 1)" by (intro power_increasing) simp_all
    moreover have "n \<noteq> 0" using \<open>\<not> bit_length n \<le> k\<close> by (cases n) auto
    ultimately show False using bit_length_bounds [of n] k by linarith
  qed
qed

end
