(* ===== verification/BN_Arith.thy ===== *)
theory BN_Arith
  imports BN
begin

text \<open>
  Addition, subtraction and comparison of big integers: \<^verbatim>\<open>crypto/fipsmodule/bn/add.c\<close> and the operations of
  \<^verbatim>\<open>crypto/fipsmodule/bn/cmp.c\<close> on whole numbers. The numbers live in a store, so that the destination may be one of the
  operands, as the callers of these functions do; the routines on words write limb \<open>i\<close> after reading the limbs \<open>i\<close>.
\<close>

unbundle bit_operations_syntax

section \<open>Comparison\<close>

definition BN_ucmp :: "BIGNUM \<Rightarrow> BIGNUM \<Rightarrow> int" where
  "BN_ucmp a b = bn_cmp_words_consttime (bn_d a) (bn_width a) (bn_d b) (bn_width b)"

definition BN_cmp :: "BIGNUM option \<Rightarrow> BIGNUM option \<Rightarrow> int" where
  "BN_cmp a b = (case (a, b) of
      (Some a, None) \<Rightarrow> - 1
    | (None, Some b) \<Rightarrow> 1
    | (None, None) \<Rightarrow> 0
    | (Some a, Some b) \<Rightarrow>
        if bn_neg a \<noteq> bn_neg b then (if bn_neg a then - 1 else 1)
        else let ret = BN_ucmp a b in if bn_neg a then - ret else ret)"

definition BN_abs_is_word :: "BIGNUM \<Rightarrow> limb \<Rightarrow> bool" where
  "BN_abs_is_word bn w =
     (if bn_width bn = 0 then w = 0
      else or_limbs (drop 1 (take (bn_width bn) (bn_d bn))) (bn_d bn ! 0 XOR w) = 0)"

definition BN_cmp_word :: "BIGNUM \<Rightarrow> limb \<Rightarrow> int" where
  "BN_cmp_word a b =
     (let b_bn = BN_init\<lparr>bn_d := [b], bn_width := of_bool (b > 0), bn_dmax := 1, bn_flags := BN_FLG_STATIC_DATA\<rparr>
      in BN_cmp (Some a) (Some b_bn))"

definition BN_is_one :: "BIGNUM \<Rightarrow> bool" where
  "BN_is_one bn \<longleftrightarrow> \<not> bn_neg bn \<and> BN_abs_is_word bn 1"

definition BN_is_word :: "BIGNUM \<Rightarrow> limb \<Rightarrow> bool" where
  "BN_is_word bn w \<longleftrightarrow> BN_abs_is_word bn w \<and> (w = 0 \<or> \<not> bn_neg bn)"

definition BN_is_odd :: "BIGNUM \<Rightarrow> bool" where
  "BN_is_odd bn \<longleftrightarrow> bn_width bn > 0 \<and> bn_d bn ! 0 AND 1 = 1"

definition BN_is_pow2 :: "BIGNUM \<Rightarrow> bool" where
  "BN_is_pow2 bn =
     (let width = bn_minimal_width bn
      in if width = 0 \<or> bn_neg bn then False
         else if list_ex (\<lambda>i. bn_d bn ! i \<noteq> 0) [0..<width - 1] then False
         else 0 = bn_d bn ! (width - 1) AND (bn_d bn ! (width - 1) - 1))"

text \<open>The limbs that only one of the numbers has, then the differences of the common ones, then the signs.\<close>

definition BN_equal_consttime :: "BIGNUM \<Rightarrow> BIGNUM \<Rightarrow> bool" where
  "BN_equal_consttime a b =
     (let msk = or_limbs (drop (bn_width a) (take (bn_width b) (bn_d b))) 0;
          msk = or_limbs (drop (bn_width b) (take (bn_width a) (bn_d a))) msk;
          m = (if bn_width a < bn_width b then bn_width a else bn_width b);
          msk = or_limbs (map (\<lambda>(x, y). x XOR y) (zip (take m (bn_d a)) (take m (bn_d b)))) msk;
          msk = msk OR (of_bool (bn_neg a) XOR of_bool (bn_neg b))
      in msk = 0)"

section \<open>Addition and subtraction\<close>

type_synonym bn_addr = nat
type_synonym bn_store = "bn_addr \<Rightarrow> BIGNUM"

definition bn_uadd_consttime :: "allocator \<Rightarrow> bn_store \<Rightarrow> bn_addr \<Rightarrow> bn_addr \<Rightarrow> bn_addr \<Rightarrow> bool \<times> bn_store" where
  "bn_uadd_consttime mem st r a b =
     (let (a, b) = (if bn_width (st a) < bn_width (st b) then (b, a) else (a, b));
          mx = bn_width (st a);
          mn = bn_width (st b)
      in case bn_wexpand mem (st r) (mx + 1) of
           (False, bn) \<Rightarrow> (False, st(r := bn))
         | (True, bn) \<Rightarrow>
             let st = st(r := bn);
                 (lo, carry) = bn_add_words (bn_d (st a)) (bn_d (st b)) mn;
                 (hi, carry) = limb_loop carry_step (drop mn (take mx (bn_d (st a)))) carry
             in (True, st(r := (st r)\<lparr>bn_width := mx + 1, bn_d := lo @ hi @ [carry] @ drop (mx + 1) (bn_d (st r))\<rparr>)))"

definition BN_uadd :: "allocator \<Rightarrow> bn_store \<Rightarrow> bn_addr \<Rightarrow> bn_addr \<Rightarrow> bn_addr \<Rightarrow> bool \<times> bn_store" where
  "BN_uadd mem st r a b = (case bn_uadd_consttime mem st r a b of
      (False, st) \<Rightarrow> (False, st)
    | (True, st) \<Rightarrow> (True, st(r := bn_set_minimal_width (st r))))"

text \<open>When the last borrow is set the limbs of the destination have already been overwritten.\<close>

definition bn_usub_consttime :: "allocator \<Rightarrow> bn_store \<Rightarrow> bn_addr \<Rightarrow> bn_addr \<Rightarrow> bn_addr \<Rightarrow> bool \<times> bn_store" where
  "bn_usub_consttime mem st r a b =
     (let aw = bn_width (st a); bw = bn_width (st b)
      in if bw > aw \<and> \<not> bn_fits_in_words (st b) aw then (False, st)
         else let bw = (if bw > aw then aw else bw)
              in case bn_wexpand mem (st r) aw of
                   (False, bn) \<Rightarrow> (False, st(r := bn))
                 | (True, bn) \<Rightarrow>
                     let st = st(r := bn);
                         (lo, borrow) = bn_sub_words (bn_d (st a)) (bn_d (st b)) bw;
                         (hi, borrow) = limb_loop borrow_step (drop bw (take aw (bn_d (st a)))) borrow;
                         st = st(r := (st r)\<lparr>bn_d := lo @ hi @ drop aw (bn_d (st r))\<rparr>)
                     in if borrow \<noteq> 0 then (False, st)
                        else (True, st(r := (st r)\<lparr>bn_width := aw, bn_neg := False\<rparr>)))"

definition BN_usub :: "allocator \<Rightarrow> bn_store \<Rightarrow> bn_addr \<Rightarrow> bn_addr \<Rightarrow> bn_addr \<Rightarrow> bool \<times> bn_store" where
  "BN_usub mem st r a b = (case bn_usub_consttime mem st r a b of
      (False, st) \<Rightarrow> (False, st)
    | (True, st) \<Rightarrow> (True, st(r := bn_set_minimal_width (st r))))"

definition BN_add :: "allocator \<Rightarrow> bn_store \<Rightarrow> bn_addr \<Rightarrow> bn_addr \<Rightarrow> bn_addr \<Rightarrow> bool \<times> bn_store" where
  "BN_add mem st r a b =
     (let a_neg = bn_neg (st a)
      in if a_neg \<noteq> bn_neg (st b) then
           let (a, b) = (if a_neg then (b, a) else (a, b))
           in if BN_ucmp (st a) (st b) < 0 then
                (case BN_usub mem st r b a of
                   (False, st) \<Rightarrow> (False, st)
                 | (True, st) \<Rightarrow> (True, st(r := (st r)\<lparr>bn_neg := True\<rparr>)))
              else
                (case BN_usub mem st r a b of
                   (False, st) \<Rightarrow> (False, st)
                 | (True, st) \<Rightarrow> (True, st(r := (st r)\<lparr>bn_neg := False\<rparr>)))
         else case BN_uadd mem st r a b of (ret, st) \<Rightarrow> (ret, st(r := (st r)\<lparr>bn_neg := a_neg\<rparr>)))"

definition BN_sub :: "allocator \<Rightarrow> bn_store \<Rightarrow> bn_addr \<Rightarrow> bn_addr \<Rightarrow> bn_addr \<Rightarrow> bool \<times> bn_store" where
  "BN_sub mem st r a b =
     (let (a, b, add, neg) =
            (if bn_neg (st a) then (if bn_neg (st b) then (b, a, False, False) else (a, b, True, True))
             else if bn_neg (st b) then (a, b, True, False) else (a, b, False, False))
      in if add then
           (case BN_uadd mem st r a b of
              (False, st) \<Rightarrow> (False, st)
            | (True, st) \<Rightarrow> (True, st(r := (st r)\<lparr>bn_neg := neg\<rparr>)))
         else if BN_ucmp (st a) (st b) < 0 then
           (case BN_usub mem st r b a of
              (False, st) \<Rightarrow> (False, st)
            | (True, st) \<Rightarrow> (True, st(r := (st r)\<lparr>bn_neg := True\<rparr>)))
         else
           (case BN_usub mem st r a b of
              (False, st) \<Rightarrow> (False, st)
            | (True, st) \<Rightarrow> (True, st(r := (st r)\<lparr>bn_neg := False\<rparr>))))"

section \<open>Adding and subtracting a word\<close>

text \<open>The loop of \<open>BN_add_word\<close> over the limbs in use: the limbs it leaves, the index it stops at and the word still to add.\<close>

fun add_word_loop :: "limb list \<Rightarrow> limb \<Rightarrow> limb list \<times> nat \<times> limb" where
  "add_word_loop [] w = ([], 0, w)"
| "add_word_loop (d # ds) w =
     (if w = 0 then (d # ds, 0, w)
      else let l = d + w; w = of_bool (w > l)
           in case add_word_loop ds w of (ds, i, w) \<Rightarrow> (l # ds, Suc i, w))"

text \<open>The loop of \<open>BN_sub_word\<close> has no bound of its own: \<open>None\<close> is the access past the block of the number.\<close>

fun sub_word_loop :: "limb list \<Rightarrow> limb \<Rightarrow> (limb list \<times> nat) option" where
  "sub_word_loop [] w = None"
| "sub_word_loop (d # ds) w =
     (if d \<ge> w then Some ((d - w) # ds, 0)
      else case sub_word_loop ds 1 of
          None \<Rightarrow> None
        | Some (ds, i) \<Rightarrow> Some ((d - w) # ds, Suc i))"

text \<open>
  The two functions call each other on a negative number, after clearing its sign. \<open>None\<close> is the access past the block.
\<close>

function BN_add_word :: "allocator \<Rightarrow> BIGNUM \<Rightarrow> limb \<Rightarrow> (bool \<times> BIGNUM) option"
  and BN_sub_word :: "allocator \<Rightarrow> BIGNUM \<Rightarrow> limb \<Rightarrow> (bool \<times> BIGNUM) option" where
  "BN_add_word mem a w =
     (if w = 0 then Some (True, a)
      else if BN_is_zero a then Some (BN_set_word mem a w)
      else if bn_neg a then
        (case BN_sub_word mem (a\<lparr>bn_neg := False\<rparr>) w of
           None \<Rightarrow> None
         | Some (i, a) \<Rightarrow> Some (i, if \<not> BN_is_zero a then a\<lparr>bn_neg := \<not> bn_neg a\<rparr> else a))
      else case add_word_loop (take (bn_width a) (bn_d a)) w of
          (ds, i, w) \<Rightarrow>
            let a = a\<lparr>bn_d := ds @ drop (bn_width a) (bn_d a)\<rparr>
            in if w \<noteq> 0 \<and> i = bn_width a then
                 (case bn_wexpand mem a (bn_width a + 1) of
                    (False, a) \<Rightarrow> Some (False, a)
                  | (True, a) \<Rightarrow> Some (True, a\<lparr>bn_width := bn_width a + 1, bn_d := (bn_d a)[i := w]\<rparr>))
               else Some (True, a))"
| "BN_sub_word mem a w =
     (if w = 0 then Some (True, a)
      else if BN_is_zero a then
        (case BN_set_word mem a w of (i, a) \<Rightarrow> Some (i, if i then BN_set_negative a True else a))
      else if bn_neg a then
        (case BN_add_word mem (a\<lparr>bn_neg := False\<rparr>) w of
           None \<Rightarrow> None
         | Some (i, a) \<Rightarrow> Some (i, a\<lparr>bn_neg := True\<rparr>))
      else if bn_minimal_width a = 1 \<and> bn_d a ! 0 < w then
        Some (True, a\<lparr>bn_d := (bn_d a)[0 := w - bn_d a ! 0], bn_neg := True\<rparr>)
      else case sub_word_loop (bn_d a) w of
          None \<Rightarrow> None
        | Some (d, i) \<Rightarrow>
            let a = a\<lparr>bn_d := d\<rparr>
            in Some (True, if d ! i = 0 \<and> i + 1 = bn_width a then a\<lparr>bn_width := bn_width a - 1\<rparr> else a))"
  by pat_completeness auto

termination
  by (relation "measure (case_sum (\<lambda>(mem, a, w). of_bool (bn_neg a)) (\<lambda>(mem, a, w). of_bool (bn_neg a)))") auto

declare BN_add_word.simps [simp del] BN_sub_word.simps [simp del]

section \<open>Comparison is exact\<close>

lemma abs_less: "bn_ok x \<Longrightarrow> bn_abs x < limb_base ^ bn_width x"
  by (simp add: bn_abs_def bn_ok_def limbs_val_take_less)

lemma ucmp_spec: "bn_ok a \<Longrightarrow> bn_ok b \<Longrightarrow> BN_ucmp a b = sgn (int (bn_abs a) - int (bn_abs b))"
  by (simp add: BN_ucmp_def bn_cmp_words_spec bn_ok_def bn_abs_def)

lemma cmp_spec:
  assumes "bn_ok a" "bn_ok b" "bn_canonical a" "bn_canonical b"
  shows "BN_cmp (Some a) (Some b) = sgn (bn_val a - bn_val b)"
  using assms by (auto simp: BN_cmp_def Let_def ucmp_spec bn_val_def bn_canonical_def sgn_if)

section \<open>Addition and subtraction of magnitudes\<close>

text \<open>Growing the destination keeps the limbs of every operand, the destination included.\<close>

lemma wexpand_store:
  assumes "bn_ok (st r)" "bn_ok (st x)" and e: "bn_wexpand mem (st r) n = (True, bn)" and k: "k \<le> bn_width (st x)"
  shows "take k (bn_d ((st(r := bn)) x)) = take k (bn_d (st x))" "k \<le> length (bn_d ((st(r := bn)) x))"
proof -
  note w = bn_wexpand_True [OF assms(1) e]
  have "take k (bn_d bn) = take k (bn_d (st r))" if "k \<le> bn_width (st r)"
    using arg_cong [OF w(3), of "take k"] that by simp
  then show "take k (bn_d ((st(r := bn)) x)) = take k (bn_d (st x))" using k by (cases "x = r") simp_all
  show "k \<le> length (bn_d ((st(r := bn)) x))" using w assms(2) k by (auto simp: bn_ok_def)
qed

lemma add_words_cong: "take n as = take n as' \<Longrightarrow> take n bs = take n bs' \<Longrightarrow> bn_add_words as bs n = bn_add_words as' bs' n"
  by (simp add: bn_add_words_def)

lemma sub_words_cong: "take n as = take n as' \<Longrightarrow> take n bs = take n bs' \<Longrightarrow> bn_sub_words as bs n = bn_sub_words as' bs' n"
  by (simp add: bn_sub_words_def)

lemma add_limbs:
  assumes n: "n \<le> length as" "length bs = n" and lo: "bn_add_words as bs n = (lo, c)" and hi: "limb_loop carry_step (drop n as) c = (hi, c')"
  shows "length lo + length hi = length as" "limbs_val (lo @ hi @ [c']) = limbs_val as + limbs_val bs"
proof -
  have nb: "n \<le> length bs" using n by simp
  note l = bn_add_words_spec [OF n(1) nb lo]
  note h = carry.loop [OF TrueI hi]
  have h': "length hi = length as - n" "limbs_val hi + limb_base ^ (length as - n) * unat c' = limbs_val (drop n as) + unat c"
    using h by (simp_all add: carry_total flip: of_nat_power of_nat_mult of_nat_add del: of_nat_unat)
  show "length lo + length hi = length as" using l(1) h'(1) n by simp
  have "limbs_val (lo @ hi @ [c']) = limbs_val lo + limb_base ^ n * (limbs_val hi + limb_base ^ (length as - n) * unat c')"
    using l(1) h'(1) by (simp add: limbs_val_append)
  also have "\<dots> = (limbs_val lo + limb_base ^ n * unat c) + limb_base ^ n * limbs_val (drop n as)"
    unfolding h'(2) by (simp add: distrib_left)
  also have "\<dots> = limbs_val (take n as) + limbs_val (take n bs) + limb_base ^ n * limbs_val (drop n as)" unfolding l(3) ..
  also have "\<dots> = limbs_val as + limbs_val bs" using limbs_val_take_drop [of as n] n by simp
  finally show "limbs_val (lo @ hi @ [c']) = limbs_val as + limbs_val bs" .
qed

lemma sub_limbs:
  assumes n: "n \<le> length as" "length bs = n" and lo: "bn_sub_words as bs n = (lo, c)" and hi: "limb_loop borrow_step (drop n as) c = (hi, c')"
  shows "length lo + length hi = length as" "limbs_val (lo @ hi) + limbs_val bs = limbs_val as + limb_base ^ length as * unat c'"
proof -
  have nb: "n \<le> length bs" using n by simp
  note l = bn_sub_words_spec [OF n(1) nb lo]
  note h = borrow.loop [OF TrueI hi]
  have h1: "length hi = length as - n" using h by simp
  have "int (limbs_val hi + unat c) = int (limbs_val (drop n as) + limb_base ^ (length as - n) * unat c')"
    using h unfolding borrow_total by (simp del: of_nat_unat)
  then have h2: "limbs_val hi + unat c = limbs_val (drop n as) + limb_base ^ (length as - n) * unat c'" by (simp only: of_nat_eq_iff)
  show "length lo + length hi = length as" using l(1) h1 n by simp
  have pw: "limb_base ^ length as = limb_base ^ n * limb_base ^ (length as - n)" using n(1) by (simp flip: power_add)
  have "limbs_val (lo @ hi) + limbs_val bs + limb_base ^ n * unat c
      = (limbs_val lo + limbs_val (take n bs)) + limb_base ^ n * (limbs_val hi + unat c)"
    using l(1) n(2) by (simp add: limbs_val_append distrib_left)
  also have "\<dots> = limbs_val (take n as) + limb_base ^ n * unat c + limb_base ^ n * (limbs_val (drop n as) + limb_base ^ (length as - n) * unat c')"
    unfolding l(3) h2 ..
  also have "\<dots> = limbs_val as + limb_base ^ length as * unat c' + limb_base ^ n * unat c"
    using limbs_val_take_drop [of as n] n unfolding pw by (simp add: distrib_left)
  finally show "limbs_val (lo @ hi) + limbs_val bs = limbs_val as + limb_base ^ length as * unat c'" by simp
qed

text \<open>The outcome of an operation that stores a magnitude at \<open>r\<close>; the sign is what the caller makes of it.\<close>

definition stored :: "bn_store \<Rightarrow> bn_addr \<Rightarrow> nat \<Rightarrow> bn_store \<Rightarrow> bool" where
  "stored st r v st' \<longleftrightarrow> bn_ok (st' r) \<and> bn_abs (st' r) = v \<and> bn_flags (st' r) = bn_flags (st r) \<and> st'(r := st r) = st"

lemma stored_minimal: "stored st r v st' \<Longrightarrow> stored st r v (st'(r := bn_set_minimal_width (st' r)))"
  by (simp add: stored_def set_minimal_width_spec)

lemma stored_neg: "stored st r v st' \<Longrightarrow> stored st r v (st'(r := (st' r)\<lparr>bn_neg := s\<rparr>))"
  by (simp add: stored_def bn_ok_def bn_abs_def)

lemma uadd_ordered:
  assumes ok: "bn_ok (st a)" "bn_ok (st b)" "bn_ok (st r)" and w: "bn_width (st b) \<le> bn_width (st a)"
    and e: "bn_wexpand mem (st r) (bn_width (st a) + 1) = (True, bn)"
    and lo: "bn_add_words (bn_d ((st(r := bn)) a)) (bn_d ((st(r := bn)) b)) (bn_width (st b)) = (lo, c)"
    and hi: "limb_loop carry_step (drop (bn_width (st b)) (take (bn_width (st a)) (bn_d ((st(r := bn)) a)))) c = (hi, c')"
  shows "stored st r (bn_abs (st a) + bn_abs (st b))
    (st(r := bn\<lparr>bn_width := bn_width (st a) + 1, bn_d := lo @ hi @ [c'] @ drop (bn_width (st a) + 1) (bn_d bn)\<rparr>))"
proof -
  let ?A = "take (bn_width (st a)) (bn_d (st a))" and ?B = "take (bn_width (st b)) (bn_d (st b))" and ?s = "st(r := bn)"
  note x = bn_wexpand_True [OF ok(3) e]
  have sb: "take (bn_width (st b)) (bn_d (?s b)) = ?B" using ok(3,2) e order_refl by (rule wexpand_store)
  have sa: "take (bn_width (st a)) (bn_d (?s a)) = ?A" using ok(3,1) e order_refl by (rule wexpand_store)
  have sab: "take (bn_width (st b)) (bn_d (?s a)) = take (bn_width (st b)) (bn_d (st a))" using ok(3,1) e w by (rule wexpand_store)
  have lo': "bn_add_words ?A ?B (bn_width (st b)) = (lo, c)"
    unfolding lo [symmetric] by (rule add_words_cong) (simp_all only: sab sb, simp_all add: min_absorb1 w)
  have hi': "limb_loop carry_step (drop (bn_width (st b)) ?A) c = (hi, c')" using hi unfolding sa .
  have n: "bn_width (st b) \<le> length ?A" "length ?B = bn_width (st b)" using ok w by (simp_all add: bn_ok_def)
  note s = add_limbs [OF n lo' hi']
  show ?thesis using s x ok by (simp add: stored_def bn_ok_def bn_abs_def)
qed

lemma uadd_consttime_spec:
  assumes ok: "bn_ok (st a)" "bn_ok (st b)" "bn_ok (st r)" and s: "bn_uadd_consttime mem st r a b = (True, st')"
  shows "stored st r (bn_abs (st a) + bn_abs (st b)) st' \<and> bn_neg (st' r) = bn_neg (st r)"
proof -
  have "\<exists>a' b'. {a', b'} = {a, b} \<and> bn_width (st b') \<le> bn_width (st a') \<and> (if bn_width (st a) < bn_width (st b) then (b, a) else (a, b)) = (a', b')"
    by (cases "bn_width (st a) < bn_width (st b)") auto
  then obtain a' b' where ab: "{a', b'} = {a, b}" and w: "bn_width (st b') \<le> bn_width (st a')"
    and sw: "(if bn_width (st a) < bn_width (st b) then (b, a) else (a, b)) = (a', b')" by blast
  obtain bn where e: "bn_wexpand mem (st r) (bn_width (st a') + 1) = (True, bn)"
    using s unfolding bn_uadd_consttime_def sw by (auto simp: Let_def split: prod.splits bool.splits)
  obtain lo c where lo: "bn_add_words (bn_d ((st(r := bn)) a')) (bn_d ((st(r := bn)) b')) (bn_width (st b')) = (lo, c)" by (rule prod.exhaust)
  obtain hi c' where hi: "limb_loop carry_step (drop (bn_width (st b')) (take (bn_width (st a')) (bn_d ((st(r := bn)) a')))) c = (hi, c')"
    by (rule prod.exhaust)
  have ok': "bn_ok (st a')" "bn_ok (st b')" using ok ab by (auto simp: doubleton_eq_iff)
  have st': "st' = st(r := bn\<lparr>bn_width := bn_width (st a') + 1, bn_d := lo @ hi @ [c'] @ drop (bn_width (st a') + 1) (bn_d bn)\<rparr>)"
    using s unfolding bn_uadd_consttime_def sw prod.case Let_def e bool.case lo hi by simp
  have sum: "bn_abs (st a') + bn_abs (st b') = bn_abs (st a) + bn_abs (st b)" using ab by (auto simp: doubleton_eq_iff)
  show ?thesis
    using uadd_ordered [OF ok' ok(3) w e lo hi] bn_wexpand_True [OF ok(3) e] unfolding st' sum by simp
qed

lemma uadd_False:
  assumes "bn_uadd_consttime mem st r a b = (False, st')"
  shows "st' = st"
proof -
  obtain a' b' where sw: "(if bn_width (st a) < bn_width (st b) then (b, a) else (a, b)) = (a', b')" by (rule prod.exhaust)
  show ?thesis using assms unfolding bn_uadd_consttime_def sw prod.case Let_def
    by (auto split: prod.splits bool.splits dest: bn_wexpand_False)
qed

lemma usub_run:
  assumes ok: "bn_ok (st a)" "bn_ok (st b)" "bn_ok (st r)"
    and g: "\<not> (bn_width (st b) > bn_width (st a) \<and> \<not> bn_fits_in_words (st b) (bn_width (st a)))"
    and e: "bn_wexpand mem (st r) (bn_width (st a)) = (True, bn)"
  shows "\<exists>st'. bn_usub_consttime mem st r a b = (bn_abs (st b) \<le> bn_abs (st a), st') \<and>
    (bn_abs (st b) \<le> bn_abs (st a) \<longrightarrow> stored st r (bn_abs (st a) - bn_abs (st b)) st' \<and> \<not> bn_neg (st' r))"
proof -
  let ?A = "take (bn_width (st a)) (bn_d (st a))" and ?s = "st(r := bn)"
  define bw where "bw = (if bn_width (st b) > bn_width (st a) then bn_width (st a) else bn_width (st b))"
  obtain lo c where lo: "bn_sub_words (bn_d (?s a)) (bn_d (?s b)) bw = (lo, c)" by (rule prod.exhaust)
  obtain hi c' where hi: "limb_loop borrow_step (drop bw (take (bn_width (st a)) (bn_d (?s a)))) c = (hi, c')" by (rule prod.exhaust)
  define bn' where "bn' = bn\<lparr>bn_d := lo @ hi @ drop (bn_width (st a)) (bn_d bn)\<rparr>"
  have run: "bn_usub_consttime mem st r a b =
      (if c' \<noteq> 0 then (False, st(r := bn')) else (True, st(r := bn'\<lparr>bn_width := bn_width (st a), bn_neg := False\<rparr>)))"
    unfolding bn_usub_consttime_def Let_def if_not_P [OF g] bw_def [symmetric] e bool.case prod.case lo hi bn'_def by simp
  note x = bn_wexpand_True [OF ok(3) e]
  have bw: "bw \<le> bn_width (st a)" "bw \<le> bn_width (st b)" by (simp_all add: bw_def)
  have sb: "take bw (bn_d (?s b)) = take bw (bn_d (st b))" using ok(3,2) e bw(2) by (rule wexpand_store)
  have sa: "take (bn_width (st a)) (bn_d (?s a)) = ?A" using ok(3,1) e order_refl by (rule wexpand_store)
  have sab: "take bw (bn_d (?s a)) = take bw (bn_d (st a))" using ok(3,1) e bw(1) by (rule wexpand_store)
  have lo': "bn_sub_words ?A (take bw (bn_d (st b))) bw = (lo, c)"
    unfolding lo [symmetric] by (rule sub_words_cong) (simp_all only: sab sb, simp_all add: min_absorb1 bw)
  have hi': "limb_loop borrow_step (drop bw ?A) c = (hi, c')" using hi unfolding sa .
  have n: "bw \<le> length ?A" "length (take bw (bn_d (st b))) = bw" using ok bw by (simp_all add: bn_ok_def)
  note l = sub_limbs [OF n lo' hi']
  have B: "limbs_val (take bw (bn_d (st b))) = bn_abs (st b)"
  proof (cases "bn_width (st b) > bn_width (st a)")
    case True
    then have "or_limbs (drop bw (take (bn_width (st b)) (bn_d (st b)))) 0 = 0" using g by (simp add: bw_def bn_fits_in_words_def)
    then show ?thesis using limbs_val_take_drop [of "take (bn_width (st b)) (bn_d (st b))" bw] bw by (simp add: or_limbs_0 bn_abs_def min_def)
  qed (simp add: bw_def bn_abs_def)
  have le: "limbs_val (lo @ hi) + bn_abs (st b) = bn_abs (st a) + limb_base ^ length ?A * unat c'" using l(2) B by (simp add: bn_abs_def)
  have less: "limbs_val (lo @ hi) < limb_base ^ length ?A" using limbs_val_less [of "lo @ hi"] l(1) by simp
  show ?thesis
  proof (cases "c' = 0")
    case True
    then have "bn_abs (st a) - bn_abs (st b) = limbs_val (lo @ hi)" "bn_abs (st b) \<le> bn_abs (st a)" using le by simp_all
    then show ?thesis using l(1) x ok True unfolding run stored_def bn'_def by (simp add: bn_ok_def bn_abs_def)
  next
    case False
    then have "limb_base ^ length ?A \<le> limb_base ^ length ?A * unat c'" by (simp add: Suc_le_eq word_unat_eq_iff)
    then have "\<not> bn_abs (st b) \<le> bn_abs (st a)" using le less by linarith
    then show ?thesis using False unfolding run by simp
  qed
qed

lemma usub_spec:
  assumes ok: "bn_ok (st a)" "bn_ok (st b)" "bn_ok (st r)" and le: "bn_abs (st b) \<le> bn_abs (st a)"
  shows "case bn_wexpand mem (st r) (bn_width (st a)) of
      (False, _) \<Rightarrow> bn_usub_consttime mem st r a b = (False, st)
    | (True, _) \<Rightarrow> \<exists>st'. bn_usub_consttime mem st r a b = (True, st') \<and> stored st r (bn_abs (st a) - bn_abs (st b)) st' \<and> \<not> bn_neg (st' r)"
proof -
  have "bn_fits_in_words (st b) (bn_width (st a))" using le abs_less [OF ok(1)] by (simp add: fits_iff [OF ok(2)])
  then have g: "\<not> (bn_width (st b) > bn_width (st a) \<and> \<not> bn_fits_in_words (st b) (bn_width (st a)))" by blast
  obtain t bn where e: "bn_wexpand mem (st r) (bn_width (st a)) = (t, bn)" by (rule prod.exhaust)
  show ?thesis
  proof (cases t)
    case True
    then show ?thesis using usub_run [OF ok g e [unfolded eq_True [THEN iffD2, OF True]]] le e by simp
  next
    case False
    then have "bn = st r" using e bn_wexpand_False by simp
    then show ?thesis using False e g by (simp add: bn_usub_consttime_def Let_def)
  qed
qed

text \<open>There is memory for up to \<open>n\<close> limbs at \<open>r\<close>.\<close>

definition limb_room :: "allocator \<Rightarrow> BIGNUM \<Rightarrow> nat \<Rightarrow> bool" where
  "limb_room mem bn n \<longleftrightarrow> (\<forall>m \<le> n. fst (bn_wexpand mem bn m))"

lemma limb_room_granted: "(\<And>k. grants mem k) \<Longrightarrow> bn_flags bn AND BN_FLG_STATIC_DATA = 0 \<Longrightarrow> n \<le> 8388607 \<Longrightarrow> limb_room mem bn n"
  by (simp add: limb_room_def bn_wexpand_granted)

lemma uadd_outcome:
  assumes ok: "bn_ok (st a)" "bn_ok (st b)" "bn_ok (st r)" and s: "BN_uadd mem st r a b = (ret, st')"
  shows "if ret then stored st r (bn_abs (st a) + bn_abs (st b)) st' else st' = st"
    "limb_room mem (st r) (max (bn_width (st a)) (bn_width (st b)) + 1) \<Longrightarrow> ret"
proof -
  obtain ret1 st1 where u: "bn_uadd_consttime mem st r a b = (ret1, st1)" by (rule prod.exhaust)
  show "if ret then stored st r (bn_abs (st a) + bn_abs (st b)) st' else st' = st"
    using s u uadd_consttime_spec [OF ok, of mem st1] uadd_False [of mem st r a b st1]
    by (cases ret1) (auto simp: BN_uadd_def dest: stored_minimal)
  assume room: "limb_room mem (st r) (max (bn_width (st a)) (bn_width (st b)) + 1)"
  obtain a' b' where sw: "(if bn_width (st a) < bn_width (st b) then (b, a) else (a, b)) = (a', b')" by (rule prod.exhaust)
  then have "bn_width (st a') = max (bn_width (st a)) (bn_width (st b))" by (auto split: if_splits)
  with room obtain bn where e: "bn_wexpand mem (st r) (bn_width (st a') + 1) = (True, bn)"
    unfolding limb_room_def by (metis order_refl prod.collapse)
  have ret1
    using u unfolding bn_uadd_consttime_def sw prod.case Let_def e bool.case by (simp split: prod.splits)
  then show ret using s u by (simp add: BN_uadd_def)
qed

lemma usub_outcome:
  assumes ok: "bn_ok (st a)" "bn_ok (st b)" "bn_ok (st r)" and le: "bn_abs (st b) \<le> bn_abs (st a)" and s: "BN_usub mem st r a b = (ret, st')"
  shows "if ret then stored st r (bn_abs (st a) - bn_abs (st b)) st' else st' = st" "limb_room mem (st r) (bn_width (st a)) \<Longrightarrow> ret"
proof -
  obtain t bn where e: "bn_wexpand mem (st r) (bn_width (st a)) = (t, bn)" by (rule prod.exhaust)
  note u = usub_spec [OF ok le, of mem]
  show "if ret then stored st r (bn_abs (st a) - bn_abs (st b)) st' else st' = st"
    using u s unfolding e by (cases t) (auto simp: BN_usub_def dest: stored_minimal)
  show "limb_room mem (st r) (bn_width (st a)) \<Longrightarrow> ret"
  proof -
    assume "limb_room mem (st r) (bn_width (st a))"
    then have t using e unfolding limb_room_def by (metis fst_conv order_refl)
    then show ret using u s unfolding e by (auto simp: BN_usub_def)
  qed
qed

text \<open>
  What a signed operation promises: on success the destination holds the value, in canonical form; on failure it keeps its
  magnitude. Nothing else changes, and the operation succeeds when there is room for the result.
\<close>

definition stores :: "allocator \<Rightarrow> bn_store \<Rightarrow> bn_addr \<Rightarrow> nat \<Rightarrow> int \<Rightarrow> bool \<times> bn_store \<Rightarrow> bool" where
  "stores mem st r n v res \<longleftrightarrow>
     (case res of (ret, st') \<Rightarrow>
        (if ret then bn_ok (st' r) \<and> bn_canonical (st' r) \<and> bn_val (st' r) = v \<and> bn_flags (st' r) = bn_flags (st r)
         else bn_abs (st' r) = bn_abs (st r)) \<and>
        st'(r := st r) = st \<and> (limb_room mem (st r) n \<longrightarrow> ret))"

lemma limb_room_mono: "limb_room mem bn n \<Longrightarrow> m \<le> n \<Longrightarrow> limb_room mem bn m"
  by (simp add: limb_room_def)

lemma stored_value:
  assumes "stored st r v st'" "s \<Longrightarrow> v \<noteq> 0"
  shows "bn_canonical ((st' r)\<lparr>bn_neg := s\<rparr>)" "bn_val ((st' r)\<lparr>bn_neg := s\<rparr>) = (if s then - int v else int v)" "bn_ok ((st' r)\<lparr>bn_neg := s\<rparr>)"
  using assms by (auto simp: stored_def bn_canonical_def bn_val_def bn_abs_def bn_ok_def)

text \<open>The two endings of a signed operation: a magnitude computed by \<open>BN_uadd\<close> or \<open>BN_usub\<close>, then the sign.\<close>

lemma stores_uadd:
  assumes ok: "bn_ok (st a)" "bn_ok (st b)" "bn_ok (st r)" and v: "v = (if s then - int (bn_abs (st a) + bn_abs (st b)) else int (bn_abs (st a) + bn_abs (st b)))"
    and s: "s \<Longrightarrow> bn_abs (st a) + bn_abs (st b) \<noteq> 0" and n: "max (bn_width (st a)) (bn_width (st b)) + 1 \<le> n"
  shows "stores mem st r n v (case BN_uadd mem st r a b of (ret, st) \<Rightarrow> (ret, st(r := (st r)\<lparr>bn_neg := s\<rparr>)))"
    "stores mem st r n v (case BN_uadd mem st r a b of (False, st) \<Rightarrow> (False, st) | (True, st) \<Rightarrow> (True, st(r := (st r)\<lparr>bn_neg := s\<rparr>)))"
proof -
  obtain ret st' where e: "BN_uadd mem st r a b = (ret, st')" by (rule prod.exhaust)
  note u = uadd_outcome [OF ok e]
  have room: "limb_room mem (st r) n \<longrightarrow> ret" using u(2) n limb_room_mono by blast
  show "stores mem st r n v (case BN_uadd mem st r a b of (ret, st) \<Rightarrow> (ret, st(r := (st r)\<lparr>bn_neg := s\<rparr>)))"
    "stores mem st r n v (case BN_uadd mem st r a b of (False, st) \<Rightarrow> (False, st) | (True, st) \<Rightarrow> (True, st(r := (st r)\<lparr>bn_neg := s\<rparr>)))"
    using u(1) room stored_value [OF _ s, of st r st'] v unfolding e
    by (cases ret; auto simp: stores_def stored_def bn_abs_def)+
qed

lemma stores_usub:
  assumes ok: "bn_ok (st a)" "bn_ok (st b)" "bn_ok (st r)" and le: "bn_abs (st b) \<le> bn_abs (st a)"
    and v: "v = (if s then int (bn_abs (st b)) - int (bn_abs (st a)) else int (bn_abs (st a)) - int (bn_abs (st b)))"
    and s: "s \<Longrightarrow> bn_abs (st b) < bn_abs (st a)" and n: "bn_width (st a) \<le> n"
  shows "stores mem st r n v (case BN_usub mem st r a b of (False, st) \<Rightarrow> (False, st) | (True, st) \<Rightarrow> (True, st(r := (st r)\<lparr>bn_neg := s\<rparr>)))"
proof -
  obtain ret st' where e: "BN_usub mem st r a b = (ret, st')" by (rule prod.exhaust)
  note u = usub_outcome [OF ok le e]
  have room: "limb_room mem (st r) n \<longrightarrow> ret" using u(2) n limb_room_mono by blast
  have "s \<Longrightarrow> bn_abs (st a) - bn_abs (st b) \<noteq> 0" using s by simp
  note sv = stored_value [OF _ this, of st r st']
  have "v = (if s then - int (bn_abs (st a) - bn_abs (st b)) else int (bn_abs (st a) - bn_abs (st b)))"
    using v le by (simp add: of_nat_diff)
  then show ?thesis
    using u(1) room sv unfolding e by (cases ret) (auto simp: stores_def stored_def bn_abs_def)
qed

lemma sub_same_sign:
  assumes ok: "bn_ok (st a)" "bn_ok (st b)" "bn_ok (st r)" and v: "v = int (bn_abs (st a)) - int (bn_abs (st b))"
    and w: "bn_width (st a) \<le> n" "bn_width (st b) \<le> n"
  shows "stores mem st r n v
    (if BN_ucmp (st a) (st b) < 0 then
       (case BN_usub mem st r b a of (False, st) \<Rightarrow> (False, st) | (True, st) \<Rightarrow> (True, st(r := (st r)\<lparr>bn_neg := True\<rparr>)))
     else (case BN_usub mem st r a b of (False, st) \<Rightarrow> (False, st) | (True, st) \<Rightarrow> (True, st(r := (st r)\<lparr>bn_neg := False\<rparr>))))"
proof (cases "bn_abs (st a) < bn_abs (st b)")
  case lt: True
  then have u: "BN_ucmp (st a) (st b) < 0" by (simp add: ucmp_spec ok)
  show ?thesis unfolding if_P [OF u] v
    by (rule stores_usub [where s = True, simplified if_True]) (use ok lt w in simp_all)
next
  case ge: False
  then have u: "\<not> BN_ucmp (st a) (st b) < 0" by (simp add: ucmp_spec ok)
  show ?thesis unfolding if_not_P [OF u] v
    by (rule stores_usub [where s = False, simplified if_False]) (use ok ge w in simp_all)
qed

lemma add_spec:
  assumes ok: "bn_ok (st a)" "bn_ok (st b)" "bn_ok (st r)" and c: "bn_canonical (st a)" "bn_canonical (st b)"
  shows "stores mem st r (max (bn_width (st a)) (bn_width (st b)) + 1) (bn_val (st a) + bn_val (st b)) (BN_add mem st r a b)"
proof (cases "bn_neg (st a) \<noteq> bn_neg (st b)")
  case True
  obtain a' b' where sw: "(if bn_neg (st a) then (b, a) else (a, b)) = (a', b')" by (rule prod.exhaust)
  then have v: "bn_val (st a) + bn_val (st b) = int (bn_abs (st a')) - int (bn_abs (st b'))"
    and ok': "bn_ok (st a')" "bn_ok (st b')"
    and w: "bn_width (st a') \<le> max (bn_width (st a)) (bn_width (st b)) + 1" "bn_width (st b') \<le> max (bn_width (st a)) (bn_width (st b)) + 1"
    using True ok by (auto simp: bn_val_def split: if_splits)
  show ?thesis unfolding BN_add_def Let_def if_P [OF True] sw prod.case v
    by (rule sub_same_sign [OF ok' ok(3) refl w])
next
  case False
  show ?thesis unfolding BN_add_def Let_def if_not_P [OF False]
    by (rule stores_uadd [OF ok]) (use False c in \<open>auto simp: bn_val_def bn_canonical_def\<close>)
qed

lemma sub_spec:
  assumes ok: "bn_ok (st a)" "bn_ok (st b)" "bn_ok (st r)" and c: "bn_canonical (st a)" "bn_canonical (st b)"
  shows "stores mem st r (max (bn_width (st a)) (bn_width (st b)) + 1) (bn_val (st a) - bn_val (st b)) (BN_sub mem st r a b)"
proof (cases "bn_neg (st a) = bn_neg (st b)")
  case True
  then show ?thesis
    by (cases "bn_neg (st b)") (simp add: BN_sub_def Let_def bn_val_def split del: if_split, rule sub_same_sign, simp_all add: ok)+
next
  case False
  show ?thesis
  proof (cases "bn_neg (st a)")
    case n: True
    have e: "BN_sub mem st r a b = (case BN_uadd mem st r a b of
        (False, st) \<Rightarrow> (False, st) | (True, st) \<Rightarrow> (True, st(r := (st r)\<lparr>bn_neg := True\<rparr>)))"
      using False n by (simp add: BN_sub_def Let_def)
    show ?thesis unfolding e by (rule stores_uadd [OF ok]) (use False n c in \<open>auto simp: bn_val_def bn_canonical_def\<close>)
  next
    case n: False
    have e: "BN_sub mem st r a b = (case BN_uadd mem st r a b of
        (False, st) \<Rightarrow> (False, st) | (True, st) \<Rightarrow> (True, st(r := (st r)\<lparr>bn_neg := False\<rparr>)))"
      using False n by (simp add: BN_sub_def Let_def)
    show ?thesis unfolding e by (rule stores_uadd [OF ok]) (use False n c in \<open>auto simp: bn_val_def bn_canonical_def\<close>)
  qed
qed

section \<open>Words\<close>

lemma set_word_spec:
  assumes ok: "bn_ok a" and e: "BN_set_word mem a w = (ret, a')"
  shows "if ret then bn_ok a' \<and> bn_abs a' = unat w \<and> \<not> bn_neg a' \<and> bn_flags a' = bn_flags a else a' = a" "limb_room mem a 1 \<Longrightarrow> ret"
proof -
  obtain t b where x: "bn_wexpand mem a 1 = (t, b)" by (rule prod.exhaust)
  have w1: "t \<Longrightarrow> take (Suc 0) ((bn_d b)[0 := w]) = [w]" if "bn_ok b" "1 \<le> bn_dmax b"
    using that by (cases "bn_d b") (auto simp: bn_ok_def)
  show "if ret then bn_ok a' \<and> bn_abs a' = unat w \<and> \<not> bn_neg a' \<and> bn_flags a' = bn_flags a else a' = a"
    using e x ok bn_wexpand_True [OF ok, of mem 1 b] bn_wexpand_False [of mem a 1 b] w1
    by (cases t) (auto simp: BN_set_word_def BN_zero_def bn_ok_def bn_abs_def split: if_splits)
  show "limb_room mem a 1 \<Longrightarrow> ret"
    using e x unfolding limb_room_def by (auto simp: BN_set_word_def split: if_splits prod.splits bool.splits)
qed

lemma add_word_loop_spec:
  "add_word_loop ds w = (ds', i, w') \<Longrightarrow>
    length ds' = length ds \<and> i \<le> length ds \<and> (w' \<noteq> 0 \<longrightarrow> i = length ds) \<and> limbs_val ds' + limb_base ^ i * unat w' = limbs_val ds + unat w"
proof (induction ds arbitrary: w ds' i w')
  case (Cons d ds)
  show ?case
  proof (cases "w = 0")
    case False
    define c :: limb where "c = of_bool (w > d + w)"
    obtain es j v where r: "add_word_loop ds c = (es, j, v)" by (cases "add_word_loop ds c") auto
    note ih = Cons.IH [OF r]
    have res: "ds' = (d + w) # es" "i = Suc j" "w' = v" using Cons.prems False r by (simp_all add: Let_def c_def)
    have "limb_base ^ i * unat w' = limb_base * (limb_base ^ j * unat v)" by (simp add: res)
    then have "limbs_val ds' + limb_base ^ i * unat w' = unat (d + w) + limb_base * (limbs_val es + limb_base ^ j * unat v)"
      by (simp add: res distrib_left)
    also have "\<dots> = unat (d + w) + limb_base * unat c + limb_base * limbs_val ds" using ih by (simp add: distrib_left)
    also have "unat (d + w) + limb_base * unat c = unat d + unat w"
      unfolding c_def word_less_nat_alt unat_limb_add using limb_less [of d] limb_less [of w] by (auto simp del: limb_less)
    finally show ?thesis using ih by (auto simp: res)
  qed (use Cons.prems in auto)
qed simp

lemma sub_word_loop_spec:
  "unat w \<le> limbs_val ds \<Longrightarrow> ds \<noteq> [] \<Longrightarrow>
    \<exists>ds' i. sub_word_loop ds w = Some (ds', i) \<and> length ds' = length ds \<and> i < length ds \<and> limbs_val ds' + unat w = limbs_val ds"
proof (induction ds arbitrary: w)
  case (Cons d ds)
  show ?case
  proof (cases "d \<ge> w")
    case True
    then show ?thesis by (auto simp: unat_limb_sub word_le_nat_alt intro!: exI [of _ "(d - w) # ds"])
  next
    case False
    then have dw: "unat d < unat w" by (simp add: word_le_nat_alt)
    have w: "unat w < limb_base" by (rule limb_less)
    have v: "limbs_val ds \<noteq> 0" using Cons.prems(1) dw by (cases "limbs_val ds") auto
    then have "ds \<noteq> []" "unat (1 :: limb) \<le> limbs_val ds" by (auto simp: Suc_le_eq)
    from Cons.IH [OF this(2,1)] obtain es j
      where r: "sub_word_loop ds 1 = Some (es, j)" "length es = length ds" "j < length ds" "limbs_val es + 1 = limbs_val ds" by auto
    have "limb_base * limbs_val ds = limb_base * limbs_val es + limb_base" unfolding r(4) [symmetric] by (simp add: distrib_left)
    moreover have "limb_base + unat d - unat w + unat w = unat d + limb_base" using w by linarith
    ultimately show ?thesis using False r dw by (simp add: unat_limb_sub)
  qed
qed simp

text \<open>The cases of a number without a sign.\<close>

lemma limb_room_cong: "bn_dmax a = bn_dmax b \<Longrightarrow> bn_flags a = bn_flags b \<Longrightarrow> limb_room mem a n = limb_room mem b n"
  unfolding limb_room_def bn_wexpand_def Let_def by (auto split: option.splits)

lemma add_word_positive:
  assumes ok: "bn_ok a" and p: "\<not> bn_neg a"
  shows "\<exists>ret a'. BN_add_word mem a w = Some (ret, a') \<and> bn_ok a' \<and> \<not> bn_neg a' \<and>
    (ret \<longrightarrow> bn_abs a' = bn_abs a + unat w) \<and> (limb_room mem a (bn_width a + 1) \<longrightarrow> ret)"
proof (cases "w = 0 \<or> BN_is_zero a")
  case True
  obtain ret a' where sw: "BN_set_word mem a w = (ret, a')" by (rule prod.exhaust)
  have "BN_add_word mem a w = Some (True, a)" if "w = 0" using that by (simp add: BN_add_word.simps [of mem a])
  moreover have "BN_add_word mem a w = Some (ret, a')" "bn_abs a = 0" if "w \<noteq> 0"
    using sw that True ok by (simp_all add: BN_add_word.simps [of mem a w] is_zero_iff)
  moreover have "limb_room mem a (bn_width a + 1) \<Longrightarrow> ret" using set_word_spec(2) [OF ok sw] limb_room_mono by fastforce
  ultimately show ?thesis using ok p set_word_spec(1) [OF ok sw] by (cases "w = 0") (auto split: if_splits)
next
  case False
  obtain ds i v where l: "add_word_loop (take (bn_width a) (bn_d a)) w = (ds, i, v)" by (rule prod_cases3)
  have wl: "length (take (bn_width a) (bn_d a)) = bn_width a" using ok by (simp add: bn_ok_def)
  note s = add_word_loop_spec [OF l, unfolded wl]
  define b where "b = a\<lparr>bn_d := ds @ drop (bn_width a) (bn_d a)\<rparr>"
  have b: "bn_ok b" "bn_width b = bn_width a" "\<not> bn_neg b" "take (bn_width a) (bn_d b) = ds" using s ok p by (auto simp: b_def bn_ok_def)
  have run: "BN_add_word mem a w = (if v \<noteq> 0 \<and> i = bn_width a then
      (case bn_wexpand mem b (bn_width b + 1) of
         (False, a) \<Rightarrow> Some (False, a)
       | (True, a) \<Rightarrow> Some (True, a\<lparr>bn_width := bn_width a + 1, bn_d := (bn_d a)[i := v]\<rparr>))
      else Some (True, b))"
    using False p by (simp add: BN_add_word.simps [of mem a w] l Let_def b_def)
  show ?thesis
  proof (cases "v = 0")
    case True
    then show ?thesis using run s b by (auto simp: bn_abs_def)
  next
    case v: False
    then have i: "i = bn_width a" using s by blast
    obtain t c where x: "bn_wexpand mem b (bn_width b + 1) = (t, c)" by (rule prod.exhaust)
    show ?thesis
    proof (cases t)
      case True
      note w = bn_wexpand_True [OF b(1) x [unfolded eq_True [THEN iffD2, OF True]]]
      have "bn_width a < length (bn_d c)" using w b by (simp add: bn_ok_def)
      then have "take (Suc (bn_width a)) ((bn_d c)[i := v]) = ds @ [v]"
        using w(3) b i by (simp add: take_Suc_conv_app_nth)
      then show ?thesis using w b s i v x True by (auto simp: run bn_abs_def bn_ok_def limbs_val_append)
    next
      case False
      have "\<not> limb_room mem b (bn_width b + 1)" using x False unfolding limb_room_def by (metis fst_conv order_refl)
      then have "\<not> limb_room mem a (bn_width a + 1)" using limb_room_cong [of a b mem] by (simp add: b_def)
      moreover have "BN_add_word mem a w = Some (False, b)"
        using False x v i b(2) bn_wexpand_False [of mem b "bn_width b + 1" c] by (simp add: run)
      ultimately show ?thesis using b(1,3) by blast
    qed
  qed
qed

lemma sub_word_loop_append: "sub_word_loop xs w = Some (xs', i) \<Longrightarrow> sub_word_loop (xs @ ys) w = Some (xs' @ ys, i)"
  by (induction xs arbitrary: w xs' i) (auto split: if_splits option.splits)

lemma abs_minimal: "bn_ok a \<Longrightarrow> bn_abs a = limbs_val (take (bn_minimal_width a) (bn_d a))"
  using minimal_width_loop_spec [of "bn_width a" "bn_d a"] by (simp add: bn_minimal_width_def bn_abs_def bn_ok_def)

lemma abs_one_limb:
  assumes ok: "bn_ok a" and m: "bn_minimal_width a = 1"
  shows "bn_abs a = unat (bn_d a ! 0)" "0 < bn_width a" "limbs_val (drop 1 (take (bn_width a) (bn_d a))) = 0"
proof -
  have w: "0 < bn_width a" "bn_width a \<le> length (bn_d a)"
    using m ok minimal_width_loop_spec [of "bn_width a" "bn_d a"] by (auto simp: bn_minimal_width_def bn_ok_def)
  then obtain x xs where d: "bn_d a = x # xs" by (cases "bn_d a") auto
  show a: "bn_abs a = unat (bn_d a ! 0)" using abs_minimal [OF ok] m by (simp add: d)
  show "0 < bn_width a" by (rule w)
  show "limbs_val (drop 1 (take (bn_width a) (bn_d a))) = 0" using a w d by (cases "bn_width a") (simp_all add: bn_abs_def)
qed

lemma abs_more_limbs: "bn_ok a \<Longrightarrow> bn_minimal_width a \<noteq> 0 \<Longrightarrow> bn_minimal_width a \<noteq> 1 \<Longrightarrow> limb_base \<le> bn_abs a"
proof -
  assume ok: "bn_ok a" and m: "bn_minimal_width a \<noteq> 0" "bn_minimal_width a \<noteq> 1"
  define k where "k = bn_minimal_width a - 1"
  have k: "bn_minimal_width a = Suc k" "0 < k" using m by (simp_all add: k_def)
  have "Suc k \<le> length (bn_d a)" "bn_d a ! k \<noteq> 0"
    using ok k minimal_width_loop_spec [of "bn_width a" "bn_d a"] by (simp_all add: bn_ok_def bn_minimal_width_def)
  then have "bn_abs a = limbs_val (take k (bn_d a)) + limb_base ^ k * unat (bn_d a ! k)" and "0 < unat (bn_d a ! k)"
    using abs_minimal [OF ok] by (simp_all add: k(1) take_Suc_conv_app_nth limbs_val_append unat_gt_0)
  then have "limb_base ^ k \<le> bn_abs a" by (simp add: trans_le_add2)
  moreover have "limb_base ^ 1 \<le> limb_base ^ k" using k(2) by (intro power_increasing) (simp_all add: Suc_le_eq)
  ultimately show ?thesis by simp
qed

lemma abs_minimal_0: "bn_ok a \<Longrightarrow> bn_minimal_width a = 0 \<Longrightarrow> bn_abs a = 0"
  by (simp add: abs_minimal)

lemma sub_word_borrow:
  assumes ok: "bn_ok a" and m: "bn_minimal_width a = 1" "bn_d a ! 0 < w"
  shows "bn_abs (a\<lparr>bn_d := (bn_d a)[0 := w - bn_d a ! 0]\<rparr>) = unat w - bn_abs a" "bn_ok (a\<lparr>bn_d := (bn_d a)[0 := w - bn_d a ! 0]\<rparr>)"
proof -
  note one = abs_one_limb [OF ok m(1)]
  obtain n where n: "bn_width a = Suc n" using one(2) by (cases "bn_width a") auto
  obtain x xs where d: "bn_d a = x # xs" using ok n by (cases "bn_d a") (auto simp: bn_ok_def)
  have "unat x < unat w" using m(2) d by (simp add: word_less_nat_alt)
  then show "bn_abs (a\<lparr>bn_d := (bn_d a)[0 := w - bn_d a ! 0]\<rparr>) = unat w - bn_abs a"
    using one n d by (simp add: bn_abs_def unat_limb_sub)
  show "bn_ok (a\<lparr>bn_d := (bn_d a)[0 := w - bn_d a ! 0]\<rparr>)" using ok by (simp add: bn_ok_def)
qed

lemma sub_word_limbs:
  assumes ok: "bn_ok a" and w: "unat w \<le> bn_abs a" and z: "bn_abs a \<noteq> 0"
  shows "\<exists>d i. sub_word_loop (bn_d a) w = Some (d, i) \<and>
    (let b = (if d ! i = 0 \<and> i + 1 = bn_width a then a\<lparr>bn_d := d, bn_width := bn_width a - 1\<rparr> else a\<lparr>bn_d := d\<rparr>)
     in bn_ok b \<and> bn_abs b = bn_abs a - unat w)"
proof -
  let ?x = "take (bn_width a) (bn_d a)" and ?y = "drop (bn_width a) (bn_d a)"
  have "?x \<noteq> []" "unat w \<le> limbs_val ?x" using w z unfolding bn_abs_def by (auto simp del: take_eq_Nil)
  from sub_word_loop_spec [OF this(2,1)] obtain x' i
    where l: "sub_word_loop ?x w = Some (x', i)" "length x' = length ?x" "i < length ?x" "limbs_val x' + unat w = limbs_val ?x" by blast
  have l': "sub_word_loop (bn_d a) w = Some (x' @ ?y, i)" using sub_word_loop_append [OF l(1), of ?y] by simp
  have len: "length x' = bn_width a" "i < bn_width a" using l(2,3) ok by (simp_all add: bn_ok_def)
  have top_limb: "limbs_val (take (bn_width a - Suc 0) x') = limbs_val x'" if "x' ! i = 0" "Suc i = bn_width a"
  proof -
    have "x' = take i x' @ [x' ! i]" using len that(2) by (metis take_Suc_conv_app_nth take_all order_refl)
    moreover have "i = bn_width a - Suc 0" using that(2) by simp
    ultimately show ?thesis using that(1) by (metis limbs_val_append limbs_val_0_iff add.right_neutral mult_0_right empty_iff empty_set set_ConsD)
  qed
  have v: "limbs_val x' = limbs_val ?x - unat w" using l(4) by simp
  show ?thesis
    using ok len v top_limb unfolding l' by (auto simp: Let_def bn_ok_def bn_abs_def nth_append)
qed

lemma set_negative: "bn_ok a \<Longrightarrow> bn_ok (BN_set_negative a s) \<and> bn_abs (BN_set_negative a s) = bn_abs a \<and> bn_neg (BN_set_negative a s) = (s \<and> bn_abs a \<noteq> 0)"
  by (simp add: BN_set_negative_def is_zero_iff bn_ok_def bn_abs_def)

lemma sub_word_positive:
  assumes ok: "bn_ok a" and p: "\<not> bn_neg a"
  shows "\<exists>ret a'. BN_sub_word mem a w = Some (ret, a') \<and> bn_ok a' \<and>
    (ret \<longrightarrow> bn_val a' = int (bn_abs a) - int (unat w) \<and> bn_canonical a') \<and> (limb_room mem a (bn_width a + 1) \<longrightarrow> ret)"
proof -
  have nil: "BN_sub_word mem a 0 = Some (True, a)" by (simp add: BN_sub_word.simps [of mem a])
  consider "w = 0" | "w \<noteq> 0" "bn_abs a = 0" | "w \<noteq> 0" "bn_abs a \<noteq> 0" "bn_minimal_width a = 1" "bn_d a ! 0 < w"
    | "w \<noteq> 0" "bn_abs a \<noteq> 0" "\<not> (bn_minimal_width a = 1 \<and> bn_d a ! 0 < w)" by blast
  then show ?thesis
  proof cases
    case 1
    then show ?thesis using nil ok p by (auto simp: bn_val_def bn_canonical_def)
  next
    case 2
    obtain ret a' where sw: "BN_set_word mem a w = (ret, a')" by (rule prod.exhaust)
    note s = set_word_spec [OF ok sw]
    have "limb_room mem a (bn_width a + 1) \<Longrightarrow> ret" using s(2) limb_room_mono by fastforce
    moreover have "BN_sub_word mem a w = Some (ret, if ret then BN_set_negative a' True else a')"
      using 2 ok by (simp add: BN_sub_word.simps [of mem a] is_zero_iff sw)
    moreover have "bn_ok a' \<Longrightarrow> bn_abs a' = unat w \<Longrightarrow> bn_val (BN_set_negative a' True) = - int (unat w) \<and> bn_canonical (BN_set_negative a' True)"
      using set_negative [of a' True] by (simp add: bn_val_def bn_canonical_def del: of_nat_unat)
    ultimately show ?thesis using s(1) set_negative [of a' True] ok 2(2) by (cases ret) auto
  next
    case 3
    note b = sub_word_borrow [OF ok 3(3,4)]
    define c where "c = a\<lparr>bn_d := (bn_d a)[0 := w - bn_d a ! 0]\<rparr>"
    have "BN_sub_word mem a w = Some (True, c\<lparr>bn_neg := True\<rparr>)"
      using 3 ok p by (simp add: BN_sub_word.simps [of mem a] is_zero_iff c_def)
    moreover have "bn_abs a < unat w" using 3(4) abs_one_limb(1) [OF ok 3(3)] by (simp add: word_less_nat_alt)
    ultimately show ?thesis using b unfolding c_def [symmetric]
      by (auto simp: bn_val_def bn_canonical_def bn_abs_def bn_ok_def of_nat_diff simp del: of_nat_unat)
  next
    case 4
    have "unat w \<le> bn_abs a"
    proof (cases "bn_minimal_width a = 1")
      case True
      then show ?thesis using 4(3) abs_one_limb(1) [OF ok True] by (simp add: word_less_nat_alt)
    next
      case False
      moreover have "bn_minimal_width a \<noteq> 0" using abs_minimal_0 [OF ok] 4(2) by blast
      ultimately show ?thesis using abs_more_limbs [OF ok] limb_less [of w] by linarith
    qed
    from sub_word_limbs [OF ok this 4(2)] this obtain d i where l: "sub_word_loop (bn_d a) w = Some (d, i)"
      and b: "bn_ok (if d ! i = 0 \<and> i + 1 = bn_width a then a\<lparr>bn_d := d, bn_width := bn_width a - 1\<rparr> else a\<lparr>bn_d := d\<rparr>)"
        "bn_abs (if d ! i = 0 \<and> i + 1 = bn_width a then a\<lparr>bn_d := d, bn_width := bn_width a - 1\<rparr> else a\<lparr>bn_d := d\<rparr>) = bn_abs a - unat w"
      and le: "unat w \<le> bn_abs a" unfolding Let_def by blast
    have "BN_sub_word mem a w = Some (True, if d ! i = 0 \<and> i + 1 = bn_width a then a\<lparr>bn_d := d, bn_width := bn_width a - 1\<rparr> else a\<lparr>bn_d := d\<rparr>)"
      using 4 ok p by (auto simp: BN_sub_word.simps [of mem a] is_zero_iff l Let_def)
    then show ?thesis using b p le by (auto simp: bn_val_def bn_canonical_def of_nat_diff simp del: of_nat_unat)
  qed
qed

lemma add_word_spec:
  assumes ok: "bn_ok a" and c: "bn_canonical a"
  shows "\<exists>ret a'. BN_add_word mem a w = Some (ret, a') \<and> bn_ok a' \<and>
    (ret \<longrightarrow> bn_val a' = bn_val a + int (unat w) \<and> bn_canonical a') \<and> (limb_room mem a (bn_width a + 1) \<longrightarrow> ret)"
proof (cases "bn_neg a")
  case False
  obtain ret a' where s: "BN_add_word mem a w = Some (ret, a')" "bn_ok a'" "\<not> bn_neg a'"
      "ret \<longrightarrow> bn_abs a' = bn_abs a + unat w" "limb_room mem a (bn_width a + 1) \<longrightarrow> ret"
    using add_word_positive [OF ok False, of mem w] by blast
  have "ret \<longrightarrow> bn_val a' = bn_val a + int (unat w) \<and> bn_canonical a'"
    using s(3,4) False by (simp add: bn_val_def bn_canonical_def del: of_nat_unat)
  then show ?thesis using s(1,2,5) by blast
next
  case True
  let ?a = "a\<lparr>bn_neg := False\<rparr>"
  have z: "\<not> BN_is_zero a" using True c ok by (simp add: is_zero_iff bn_canonical_def)
  have ok': "bn_ok ?a" "bn_abs ?a = bn_abs a" using ok by (simp_all add: bn_ok_def bn_abs_def)
  obtain ret b where s: "BN_sub_word mem ?a w = Some (ret, b)" "bn_ok b" "ret \<longrightarrow> bn_val b = int (bn_abs a) - int (unat w) \<and> bn_canonical b"
      "limb_room mem ?a (bn_width a + 1) \<longrightarrow> ret"
    using sub_word_positive [OF ok'(1), of mem w] ok'(2) by auto
  have r: "limb_room mem ?a (bn_width a + 1) = limb_room mem a (bn_width a + 1)" by (rule limb_room_cong) simp_all
  show ?thesis
  proof (cases "w = 0")
    case True
    then show ?thesis using ok c by (simp add: BN_add_word.simps [of mem a]) (rule exI [of _ True], simp)
  next
    case False
    then have "BN_add_word mem a w = Some (ret, if \<not> BN_is_zero b then b\<lparr>bn_neg := \<not> bn_neg b\<rparr> else b)"
      using True z s(1) by (simp add: BN_add_word.simps [of mem a])
    moreover define b' where "b' = (if \<not> BN_is_zero b then b\<lparr>bn_neg := \<not> bn_neg b\<rparr> else b)"
    ultimately have "BN_add_word mem a w = Some (ret, b')" by simp
    moreover have "bn_ok b'" "bn_abs b' = bn_abs b" "bn_neg b' = (if bn_abs b = 0 then bn_neg b else \<not> bn_neg b)"
      using s(2) by (simp_all add: b'_def is_zero_iff bn_ok_def bn_abs_def)
    moreover have "bn_val b' = - bn_val b" "bn_canonical b'" if "bn_canonical b"
      using that calculation by (auto simp: bn_val_def bn_canonical_def)
    moreover have "bn_val a = - int (bn_abs a)" using True by (simp add: bn_val_def)
    ultimately show ?thesis using s(3,4) unfolding r by auto
  qed
qed

lemma sub_word_spec:
  assumes ok: "bn_ok a" and c: "bn_canonical a"
  shows "\<exists>ret a'. BN_sub_word mem a w = Some (ret, a') \<and> bn_ok a' \<and>
    (ret \<longrightarrow> bn_val a' = bn_val a - int (unat w) \<and> bn_canonical a') \<and> (limb_room mem a (bn_width a + 1) \<longrightarrow> ret)"
proof (cases "bn_neg a")
  case False
  then show ?thesis using sub_word_positive [OF ok False, of mem w] by (simp add: bn_val_def)
next
  case True
  let ?a = "a\<lparr>bn_neg := False\<rparr>"
  have z: "\<not> BN_is_zero a" using True c ok by (simp add: is_zero_iff bn_canonical_def)
  have ok': "bn_ok ?a" "bn_abs ?a = bn_abs a" "\<not> bn_neg ?a" using ok by (simp_all add: bn_ok_def bn_abs_def)
  obtain ret b where s: "BN_add_word mem ?a w = Some (ret, b)" "bn_ok b" "ret \<longrightarrow> bn_abs b = bn_abs a + unat w"
      "limb_room mem ?a (bn_width a + 1) \<longrightarrow> ret"
    using add_word_positive [OF ok'(1,3), of mem w] ok'(2) by auto
  have r: "limb_room mem ?a (bn_width a + 1) = limb_room mem a (bn_width a + 1)" by (rule limb_room_cong) simp_all
  show ?thesis
  proof (cases "w = 0")
    case True
    then show ?thesis using ok c by (simp add: BN_sub_word.simps [of mem a]) (rule exI [of _ True], simp)
  next
    case False
    then have "BN_sub_word mem a w = Some (ret, b\<lparr>bn_neg := True\<rparr>)"
      using True z s(1) by (simp add: BN_sub_word.simps [of mem a])
    then show ?thesis using s(2,3,4) True c unfolding r
      by (auto simp: bn_val_def bn_canonical_def bn_ok_def bn_abs_def simp del: of_nat_unat)
  qed
qed

end
