(* ===== verification/BN_Bytes.thy ===== *)
theory BN_Bytes
  imports BN_Arith
begin

text \<open>
  Big integers and byte strings: \<^verbatim>\<open>crypto/fipsmodule/bn/bytes.c\<close>. A function that writes a buffer returns its contents; a
  parser returns the number, \<open>None\<close> being \<open>NULL\<close>, and a number passed in and not returned is unchanged.
\<close>

unbundle bit_operations_syntax

section \<open>Operations\<close>

text \<open>The loop of \<open>BN_bin2bn\<close>, from the most significant limb down.\<close>

fun bin_loop :: "byte list \<Rightarrow> nat \<Rightarrow> nat \<Rightarrow> limb \<Rightarrow> limb list \<Rightarrow> limb list" where
  "bin_loop [] num_words m word d = d"
| "bin_loop (b # bs) num_words m word d =
     (let word = push_bit 8 word OR ucast b
      in if m = 0 then bin_loop bs (num_words - 1) (BN_BYTES - 1) 0 (d[num_words - 1 := word])
         else bin_loop bs num_words (m - 1) word d)"

definition BN_bin2bn :: "allocator \<Rightarrow> byte list \<Rightarrow> BIGNUM option \<Rightarrow> BIGNUM option" where
  "BN_bin2bn mem inp ret = (case (case ret of None \<Rightarrow> BN_new mem | Some ret \<Rightarrow> Some ret) of
      None \<Rightarrow> None
    | Some ret \<Rightarrow>
        if length inp = 0 then Some (ret\<lparr>bn_width := 0\<rparr>)
        else let num_words = (length inp - 1) div BN_BYTES + 1;
                 m = (length inp - 1) mod BN_BYTES
             in case bn_wexpand mem ret num_words of
                  (False, _) \<Rightarrow> None
                | (True, ret) \<Rightarrow>
                    let ret = ret\<lparr>bn_width := num_words, bn_neg := False\<rparr>
                    in Some (ret\<lparr>bn_d := bin_loop inp num_words m 0 (bn_d ret)\<rparr>))"

definition BN_le2bn :: "allocator \<Rightarrow> byte list \<Rightarrow> BIGNUM option \<Rightarrow> BIGNUM option" where
  "BN_le2bn mem inp ret = (case (case ret of None \<Rightarrow> BN_new mem | Some ret \<Rightarrow> Some ret) of
      None \<Rightarrow> None
    | Some ret \<Rightarrow>
        if length inp = 0 then Some (ret\<lparr>bn_width := 0, bn_neg := False\<rparr>)
        else let num_words = (length inp - 1) div BN_BYTES + 1
             in case bn_wexpand mem ret num_words of
                  (False, _) \<Rightarrow> None
                | (True, ret) \<Rightarrow>
                    let ret = ret\<lparr>bn_width := num_words\<rparr>;
                        d = (bn_d ret)[num_words - 1 := 0];
                        bytes = inp @ drop (length inp) (bytes_of_limbs d)
                    in Some (ret\<lparr>bn_d := limbs_of_bytes (length d) bytes\<rparr>))"

definition BN_bn2bin :: "BIGNUM \<Rightarrow> byte list" where
  "BN_bn2bin inp = map (\<lambda>i. ucast (drop_bit (8 * (i mod BN_BYTES)) (bn_d inp ! (i div BN_BYTES)))) (rev [0..<BN_num_bytes inp])"

definition fits_in_bytes :: "byte list \<Rightarrow> nat \<Rightarrow> nat \<Rightarrow> bool" where
  "fits_in_bytes bytes num_bytes len \<longleftrightarrow> fold (\<lambda>b msk. msk OR b) (drop len (take num_bytes bytes)) 0 = 0"

definition BN_bn2le_padded :: "nat \<Rightarrow> BIGNUM \<Rightarrow> byte list option" where
  "BN_bn2le_padded len inp =
     (let bytes = bytes_of_limbs (bn_d inp);
          num_bytes = bn_width inp * BN_BYTES
      in if len < num_bytes \<and> \<not> fits_in_bytes bytes num_bytes len then None
         else let num_bytes = (if len < num_bytes then len else num_bytes)
              in Some (take num_bytes bytes @ replicate (len - num_bytes) 0))"

definition BN_bn2bin_padded :: "nat \<Rightarrow> BIGNUM \<Rightarrow> byte list option" where
  "BN_bn2bin_padded len inp =
     (let bytes = bytes_of_limbs (bn_d inp);
          num_bytes = bn_width inp * BN_BYTES
      in if len < num_bytes \<and> \<not> fits_in_bytes bytes num_bytes len then None
         else let num_bytes = (if len < num_bytes then len else num_bytes)
              in Some (replicate (len - num_bytes) 0 @ rev (take num_bytes bytes)))"

definition BN_get_word :: "BIGNUM \<Rightarrow> limb" where
  "BN_get_word bn =
     (let n = bn_minimal_width bn in if n = 0 then 0 else if n = 1 then bn_d bn ! 0 else BN_MASK2)"

definition BN_get_u64 :: "BIGNUM \<Rightarrow> u64 option" where
  "BN_get_u64 bn =
     (let n = bn_minimal_width bn in if n = 0 then Some 0 else if n = 1 then Some (bn_d bn ! 0) else None)"

section \<open>Limbs as bytes\<close>

lemma le_value_append: "le_value (xs @ ys) = le_value xs + 256 ^ length xs * le_value ys"
  by (simp add: le_value_def be_value_append)

lemma le_value_Nil [simp]: "le_value [] = 0"
  by (simp add: le_value_def)

lemma le_value_Cons: "le_value (b # bs) = unat b + 256 * le_value bs"
  by (simp add: le_value_def be_value_append)

lemma le_value_replicate [simp]: "le_value (replicate n 0) = 0"
  by (simp add: le_value_def be_value_replicate_0)

lemma le_value_less: "le_value bs < 256 ^ length bs"
  using be_value_less [of "rev bs"] by (simp add: le_value_def)

lemma limb_base_bytes: "limb_base = 256 ^ 8"
  by (simp add: limb_base_def)

lemma limb_bytes: "length (limb_bytes w) = 8" "le_value (limb_bytes w) = unat w"
  using limb_less [of w] by (simp_all add: limb_bytes_def le_value_def be_value_be_bytes limb_base_bytes del: limb_less)

lemma length_bytes_of_limbs [simp]: "length (bytes_of_limbs ws) = 8 * length ws"
  by (induction ws) (simp_all add: bytes_of_limbs_def limb_bytes)

lemma le_value_bytes_of_limbs: "le_value (bytes_of_limbs ws) = limbs_val ws"
  by (induction ws) (simp_all add: bytes_of_limbs_def le_value_append limb_bytes limb_base_bytes)

lemma bytes_of_limbs_append: "bytes_of_limbs (xs @ ys) = bytes_of_limbs xs @ bytes_of_limbs ys"
  by (simp add: bytes_of_limbs_def)

lemma take_bytes_of_limbs: "k \<le> length ws \<Longrightarrow> take (8 * k) (bytes_of_limbs ws) = bytes_of_limbs (take k ws)"
  using bytes_of_limbs_append [of "take k ws" "drop k ws"] by simp

lemma limbs_of_bytes_val: "length bs = 8 * n \<Longrightarrow> limbs_val (limbs_of_bytes n bs) = le_value bs"
proof (induction n arbitrary: bs)
  case (Suc n)
  have "le_value (take 8 bs) < limb_base" using le_value_less [of "take 8 bs"] Suc.prems by (simp add: limb_base_bytes)
  then have "unat (of_nat (le_value (take 8 bs)) :: limb) = le_value (take 8 bs)" by (simp add: unat_of_nat limb_base_def take_bit_nat_eq_self)
  moreover have "le_value bs = le_value (take 8 bs) + limb_base * le_value (drop 8 bs)"
    using le_value_append [of "take 8 bs" "drop 8 bs"] Suc.prems by (simp add: limb_base_bytes)
  ultimately show ?case using Suc by simp
qed simp

lemma limbs_of_bytes_take: "n \<le> m \<Longrightarrow> take n (limbs_of_bytes m bs) = limbs_of_bytes n (take (8 * n) bs)"
proof (induction n arbitrary: m bs)
  case (Suc n)
  then obtain m' where "m = Suc m'" by (cases m) auto
  then show ?case using Suc.IH [of m' "drop 8 bs"] Suc.prems by (simp add: min_def drop_take)
qed simp

lemma fits_in_bytes_iff: "fits_in_bytes bytes num len \<longleftrightarrow> le_value (drop len (take num bytes)) = 0"
proof -
  have "fold (\<lambda>b msk. msk OR b) bs m = 0 \<longleftrightarrow> m = 0 \<and> le_value bs = 0" for bs and m :: byte
  proof (induction bs arbitrary: m)
    case (Cons b bs)
    have "m OR b = 0 \<longleftrightarrow> m = 0 \<and> b = 0" by (auto simp: bit_eq_iff bit_or_iff)
    then show ?case by (auto simp: Cons le_value_Cons unsigned_eq_0_iff)
  qed simp
  then show ?thesis by (simp add: fits_in_bytes_def)
qed

section \<open>Parsing\<close>

lemma bin_loop_spec:
  "length bs = (k - 1) * 8 + m + 1 \<Longrightarrow> 0 < k \<Longrightarrow> m < 8 \<Longrightarrow> k \<le> length d \<Longrightarrow> unat word < 256 ^ (7 - m) \<Longrightarrow>
    length (bin_loop bs k m word d) = length d \<and> drop k (bin_loop bs k m word d) = drop k d \<and>
    limbs_val (take k (bin_loop bs k m word d)) = unat word * 256 ^ length bs + be_value bs"
proof (induction bs k m word d rule: bin_loop.induct)
  case (2 b bs k m word d)
  define w where "w = push_bit 8 word OR ucast b"
  have "unat word * 256 + unat b < 256 ^ (8 - m)"
  proof -
    have "(unat word + 1) * 256 \<le> P * 256" if "unat word < P" for P using that by (intro mult_le_mono1) simp
    then have le: "unat word * 256 + unat b < P * 256" if "unat word < P" for P using that unat_byte_less [of b] by fastforce
    have "8 - m = Suc (7 - m)" using 2(5) by simp
    then have "(256 :: nat) ^ (8 - m) = 256 ^ (7 - m) * 256" by simp
    then show ?thesis using le [OF 2(7)] by simp
  qed
  moreover have "(256 :: nat) ^ (8 - m) \<le> 256 ^ 8" by (intro power_increasing) simp_all
  ultimately have "unat word * 256 + unat b < 2 ^ 64" "unat word * 256 + unat b < 256 ^ (8 - m)" by simp_all
  moreover have "unat w = unat word * 256 + unat b" if "unat word * 256 + unat b < 2 ^ 64"
  proof -
    have pb: "unat (push_bit 8 word) = unat word * 256" using that by (simp add: push_bit_eq_mult unat_word_ariths)
    have "push_bit 8 word AND ucast b = 0" by (rule bit_word_eqI) (auto simp: bit_simps dest: bit_imp_le_length)
    then have "w = push_bit 8 word + ucast b" by (simp add: w_def or_disjoint_add)
    then show ?thesis using pb that by (simp add: unat_word_ariths)
  qed
  ultimately have w: "unat w = unat word * 256 + unat b" "unat w < 256 ^ (8 - m)" by simp_all
  show ?case
  proof (cases "m = 0")
    case True
    define d' where "d' = d[k - 1 := w]"
    have len: "length bs = (k - 1) * 8" using 2(3) True by simp
    show ?thesis
    proof (cases "k = 1")
      case one: True
      then have "bs = []" using len by simp
      then show ?thesis using True one w 2(6) by (cases d) (simp_all add: Let_def w_def [symmetric])
    next
      case False
      note ih = 2(1) [OF w_def True, unfolded d'_def [symmetric] BN_BYTES_def]
      have "length bs = (k - 1 - 1) * 8 + (8 - 1) + 1" "0 < k - 1" "k - 1 \<le> length d'" using len False 2(4,6) by (simp_all add: d'_def)
      with ih have l: "length (bin_loop bs (k - 1) 7 0 d') = length d'" "drop (k - 1) (bin_loop bs (k - 1) 7 0 d') = drop (k - 1) d'"
        "limbs_val (take (k - 1) (bin_loop bs (k - 1) 7 0 d')) = be_value bs" by simp_all
      have k: "k - 1 < length d'" "Suc (k - 1) = k" using 2(4,6) by (simp_all add: d'_def)
      have n: "bin_loop bs (k - 1) 7 0 d' ! (k - 1) = w"
        using arg_cong [OF l(2), of hd] l(1) k 2(6) by (simp add: hd_drop_conv_nth) (simp add: d'_def)
      have "take k (bin_loop bs (k - 1) 7 0 d') = take (k - 1) (bin_loop bs (k - 1) 7 0 d') @ [w]"
        using n l(1) k take_Suc_conv_app_nth [of "k - 1" "bin_loop bs (k - 1) 7 0 d'"] by simp
      then have "limbs_val (take k (bin_loop bs (k - 1) 7 0 d')) = be_value bs + limb_base ^ (k - 1) * unat w"
        using l(1,3) k by (simp add: limbs_val_append)
      moreover have "limb_base ^ (k - 1) = 256 ^ length bs" unfolding len limb_base_bytes by (simp only: mult.commute flip: power_mult)
      moreover have "drop k (bin_loop bs (k - 1) 7 0 d') = drop k d"
        using arg_cong [OF l(2), of "drop 1"] k(2) by (simp add: d'_def)
      moreover have "bin_loop (b # bs) k m word d = bin_loop bs (k - 1) 7 0 d'" by (simp add: True Let_def w_def d'_def BN_BYTES_def)
      ultimately show ?thesis using l(1) w by (simp add: algebra_simps) (simp add: d'_def)
    qed
  next
    case False
    have "length bs = (k - 1) * 8 + (m - 1) + 1" "unat w < 256 ^ (7 - (m - 1))" using 2(3) False w(2) 2(5) by (simp_all add: Suc_diff_le)
    with 2(2) [OF w_def False] 2(4,5,6) show ?thesis using False w by (simp add: Let_def w_def [symmetric] algebra_simps)
  qed
qed simp

lemma num_words: "0 < n \<Longrightarrow> n = ((n - 1) div 8 + 1 - 1) * 8 + (n - 1) mod 8 + (1 :: nat)"
  by simp

lemma num_words_bounds: "0 < n \<Longrightarrow> (n - 1) div 8 * 8 < n \<and> n \<le> ((n - 1) div 8 + 1) * (8 :: nat)"
  by presburger

lemma bin2bn_into:
  assumes ok: "bn_ok bn" and n: "inp \<noteq> []"
  shows "case bn_wexpand mem bn ((length inp - 1) div 8 + 1) of
      (False, _) \<Rightarrow> BN_bin2bn mem inp (Some bn) = None
    | (True, _) \<Rightarrow> \<exists>r. BN_bin2bn mem inp (Some bn) = Some r \<and> bn_ok r \<and> \<not> bn_neg r \<and> bn_abs r = be_value inp \<and> bn_flags r = bn_flags bn"
proof -
  let ?k = "(length inp - 1) div 8 + 1" and ?m = "(length inp - 1) mod 8"
  obtain t b where e: "bn_wexpand mem bn ?k = (t, b)" by (rule prod.exhaust)
  show ?thesis
  proof (cases t)
    case True
    note x = bn_wexpand_True [OF ok e [unfolded eq_True [THEN iffD2, OF True]]]
    have "length inp = (?k - 1) * 8 + ?m + 1" using n by (intro num_words) simp
    then have l: "length (bin_loop inp ?k ?m 0 (bn_d b)) = length (bn_d b)" "limbs_val (take ?k (bin_loop inp ?k ?m 0 (bn_d b))) = be_value inp"
      using bin_loop_spec [of inp ?k ?m "bn_d b" 0] x(1,2) by (simp_all add: bn_ok_def)
    then show ?thesis using n e True x(1,2,6) by (simp add: BN_bin2bn_def Let_def BN_BYTES_def bn_ok_def bn_abs_def)
  qed (use n e in \<open>simp add: BN_bin2bn_def Let_def BN_BYTES_def\<close>)
qed

lemma le2bn_limbs:
  assumes k: "Suc j \<le> length d" "j * 8 < length inp" "length inp \<le> Suc j * 8" and z: "d ! j = 0"
  shows "limbs_val (take (Suc j) (limbs_of_bytes (length d) (inp @ drop (length inp) (bytes_of_limbs d)))) = le_value inp"
proof -
  let ?bytes = "inp @ drop (length inp) (bytes_of_limbs d)"
  have "take (Suc j) d = take j d @ [0]" using k(1) z by (simp add: take_Suc_conv_app_nth)
  moreover have "be_bytes n 0 = replicate n 0" for n by (induction n) simp_all
  then have "bytes_of_limbs [0] = replicate 8 0" by (simp add: bytes_of_limbs_def limb_bytes_def)
  ultimately have b: "take (8 * Suc j) (bytes_of_limbs d) = bytes_of_limbs (take j d) @ replicate 8 0"
    using take_bytes_of_limbs [OF k(1)] by (simp only: bytes_of_limbs_append)
  have "length (bytes_of_limbs (take j d)) \<le> length inp" using k by simp
  then have "le_value (drop (length inp) (take (8 * Suc j) (bytes_of_limbs d))) = 0"
    unfolding b drop_append by (simp only: drop_all append_Nil drop_replicate le_value_replicate)
  moreover have "take (8 * Suc j) ?bytes = inp @ drop (length inp) (take (8 * Suc j) (bytes_of_limbs d))"
    using k(3) by (simp only: take_append drop_take take_all mult.commute)
  ultimately have "le_value (take (8 * Suc j) ?bytes) = le_value inp" by (simp only: le_value_append mult_0_right add_0_right)
  moreover have "length (take (8 * Suc j) ?bytes) = 8 * Suc j" using k by simp
  ultimately show ?thesis by (simp only: limbs_of_bytes_take [OF k(1)] limbs_of_bytes_val)
qed

lemma le2bn_into:
  assumes ok: "bn_ok bn" and n: "inp \<noteq> []"
  shows "case bn_wexpand mem bn ((length inp - 1) div 8 + 1) of
      (False, _) \<Rightarrow> BN_le2bn mem inp (Some bn) = None
    | (True, _) \<Rightarrow> \<exists>r. BN_le2bn mem inp (Some bn) = Some r \<and> bn_ok r \<and> bn_neg r = bn_neg bn \<and> bn_abs r = le_value inp \<and> bn_flags r = bn_flags bn"
proof -
  define k where "k = (length inp - 1) div 8 + 1"
  obtain t b where e: "bn_wexpand mem bn k = (t, b)" by (rule prod.exhaust)
  have kb: "0 < k" "(k - 1) * 8 < length inp" "length inp \<le> k * 8" using num_words_bounds [of "length inp"] n unfolding k_def by auto
  let ?d = "(bn_d b)[k - 1 := 0]"
  have run: "BN_le2bn mem inp (Some bn) = (if t then Some (b\<lparr>bn_width := k,
      bn_d := limbs_of_bytes (length ?d) (inp @ drop (length inp) (bytes_of_limbs ?d))\<rparr>) else None)"
    using n e by (simp add: BN_le2bn_def Let_def BN_BYTES_def k_def split: bool.split)
  show ?thesis
  proof (cases t)
    case True
    note x = bn_wexpand_True [OF ok e [unfolded eq_True [THEN iffD2, OF True]]]
    have "k \<le> length ?d" "?d ! (k - 1) = 0" using x(1,2) kb(1) by (simp_all add: bn_ok_def)
    with le2bn_limbs [of "k - 1" ?d inp] kb have "limbs_val (take k (limbs_of_bytes (length ?d) (inp @ drop (length inp) (bytes_of_limbs ?d)))) = le_value inp"
      by simp
    then show ?thesis unfolding k_def [symmetric] e run
      using True x(1,2,5,6) kb(1) by (simp add: bn_ok_def bn_abs_def)
  qed (simp add: k_def [symmetric, simplified] e [simplified] run)
qed

section \<open>Serialising\<close>

lemma le_value_inj: "length xs = length ys \<Longrightarrow> le_value xs = le_value ys \<Longrightarrow> xs = ys"
  using be_value_inj [of "rev xs" "rev ys"] by (simp add: le_value_def)

lemma le_value_unique: "length r = n \<Longrightarrow> le_value r = v \<Longrightarrow> r = rev (be_bytes n v)"
  using le_value_less [of r] by (intro le_value_inj) (auto simp: le_value_def be_value_be_bytes)

text \<open>The bytes of the limbs in use, cut or padded to \<open>len\<close> bytes.\<close>

lemma padded_bytes:
  fixes bn len
  defines "num \<equiv> bn_width bn * 8" and "bytes \<equiv> bytes_of_limbs (bn_d bn)"
  assumes ok: "bn_ok bn"
  shows "len < num \<and> \<not> fits_in_bytes bytes num len \<longleftrightarrow> \<not> bn_abs bn < 256 ^ len"
    "bn_abs bn < 256 ^ len \<Longrightarrow> take (if len < num then len else num) bytes @ replicate (len - (if len < num then len else num)) 0 = rev (be_bytes len (bn_abs bn))"
proof -
  have w: "bn_width bn \<le> length (bn_d bn)" using ok by (simp add: bn_ok_def)
  define B where "B = take num bytes"
  have B: "length B = num" "le_value B = bn_abs bn"
    using w take_bytes_of_limbs [OF w] by (simp_all add: B_def num_def bytes_def bn_abs_def le_value_bytes_of_limbs mult.commute)
  have sp: "bn_abs bn = le_value (take len B) + 256 ^ len * le_value (drop len B)" if "len < num"
    using le_value_append [of "take len B" "drop len B"] B that by simp
  have lt: "le_value (take len B) < 256 ^ len" if "len < num" using le_value_less [of "take len B"] B(1) that by simp
  have fits: "fits_in_bytes bytes num len \<longleftrightarrow> bn_abs bn < 256 ^ len" if "len < num"
    using sp [OF that] lt [OF that] by (cases "le_value (drop len B)") (auto simp: fits_in_bytes_iff simp flip: B_def)
  have ge: "bn_abs bn < 256 ^ len" if "\<not> len < num"
  proof -
    have "(256 :: nat) ^ num \<le> 256 ^ len" using that by (intro power_increasing) simp_all
    moreover have "bn_abs bn < 256 ^ num" using le_value_less [of B] B by simp
    ultimately show ?thesis by (rule order_less_le_trans [rotated])
  qed
  show "len < num \<and> \<not> fits_in_bytes bytes num len \<longleftrightarrow> \<not> bn_abs bn < 256 ^ len" using fits ge by blast
  assume v: "bn_abs bn < 256 ^ len"
  show "take (if len < num then len else num) bytes @ replicate (len - (if len < num then len else num)) 0 = rev (be_bytes len (bn_abs bn))"
  proof (cases "len < num")
    case True
    then have "le_value (drop len B) = 0" using fits [OF True] v by (simp add: fits_in_bytes_iff flip: B_def)
    then have "le_value (take len B) = bn_abs bn" using sp [OF True] by simp
    moreover have "take len B = take len bytes" using True by (simp add: B_def min_def)
    moreover have "length (take len B) = len" using True B(1) by simp
    ultimately have "take len bytes = rev (be_bytes len (bn_abs bn))" by (metis le_value_unique)
    then show ?thesis using True by simp
  next
    case False
    have "B @ replicate (len - num) 0 = rev (be_bytes len (bn_abs bn))"
      using False B by (intro le_value_unique) (simp_all add: le_value_append)
    then show ?thesis using False by (simp add: B_def)
  qed
qed

lemma bn2le_padded_spec:
  "bn_ok bn \<Longrightarrow> BN_bn2le_padded len bn = (if bn_abs bn < 256 ^ len then Some (rev (be_bytes len (bn_abs bn))) else None)"
  using padded_bytes [of bn len] by (simp add: BN_bn2le_padded_def Let_def BN_BYTES_def)

lemma bn2bin_padded_spec:
  "bn_ok bn \<Longrightarrow> BN_bn2bin_padded len bn = (if bn_abs bn < 256 ^ len then Some (be_bytes len (bn_abs bn)) else None)"
proof -
  assume ok: "bn_ok bn"
  have "bn_abs bn < 256 ^ len \<Longrightarrow> replicate (len - (if len < bn_width bn * 8 then len else bn_width bn * 8)) 0 @
      rev (take (if len < bn_width bn * 8 then len else bn_width bn * 8) (bytes_of_limbs (bn_d bn))) = be_bytes len (bn_abs bn)"
    using arg_cong [OF padded_bytes(2) [OF ok, of len], of rev] by simp
  then show ?thesis using padded_bytes(1) [OF ok, of len] by (simp add: BN_bn2bin_padded_def Let_def BN_BYTES_def)
qed

lemma nth_be_bytes: "i < n \<Longrightarrow> be_bytes n v ! i = of_nat (v div 256 ^ (n - 1 - i))"
proof (induction n arbitrary: i)
  case (Suc n)
  then show ?case by (cases i) simp_all
qed simp

lemma nth_limb_bytes: "j < 8 \<Longrightarrow> limb_bytes w ! j = ucast (drop_bit (8 * j) w)"
proof -
  assume j: "j < 8"
  have "limb_bytes w ! j = of_nat (unat w div 256 ^ j)" using j by (simp add: limb_bytes_def rev_nth nth_be_bytes)
  moreover have "unat (ucast (drop_bit (8 * j) w) :: byte) = unat w div 256 ^ j mod 256"
    by (simp add: unsigned_ucast_eq take_bit_eq_mod unat_drop power_mult)
  ultimately show ?thesis by (simp add: word_unat_eq_iff del: of_nat_unat)
qed

lemma nth_bytes_of_limbs: "i < 8 * length ws \<Longrightarrow> bytes_of_limbs ws ! i = ucast (drop_bit (8 * (i mod 8)) (ws ! (i div 8)))"
proof (induction ws arbitrary: i)
  case (Cons w ws)
  show ?case
  proof (cases "i < 8")
    case True
    then show ?thesis by (simp add: bytes_of_limbs_def nth_append limb_bytes nth_limb_bytes)
  next
    case False
    then have "i div 8 = Suc ((i - 8) div 8)" "i mod 8 = (i - 8) mod 8" by (simp_all add: le_div_geq le_mod_geq)
    then show ?thesis using False Cons by (simp add: bytes_of_limbs_def nth_append limb_bytes)
  qed
qed simp

lemma num_bytes_spec: "bn_ok bn \<Longrightarrow> BN_num_bytes bn \<le> n \<longleftrightarrow> bn_abs bn < 256 ^ n"
proof -
  assume ok: "bn_ok bn"
  have "(x + 7) div 8 \<le> n \<longleftrightarrow> x \<le> 8 * n" for x :: nat by (simp add: less_mult_imp_div_less less_eq_div_iff_mult_less_eq div_less_iff_less_mult flip: less_Suc_eq_le) linarith
  then have "BN_num_bytes bn \<le> n \<longleftrightarrow> bit_length (bn_abs bn) \<le> 8 * n" unfolding BN_num_bytes_def num_bits_spec [OF ok] .
  moreover have "(2 :: nat) ^ (8 * n) = 256 ^ n" by (simp add: power_mult)
  ultimately show ?thesis by (simp only: bit_length_le)
qed

lemma bn2bin_spec: "bn_ok bn \<Longrightarrow> BN_bn2bin bn = be_bytes (BN_num_bytes bn) (bn_abs bn)"
proof -
  assume ok: "bn_ok bn"
  let ?n = "BN_num_bytes bn" and ?b = "bytes_of_limbs (bn_d bn)"
  have v: "bn_abs bn < 256 ^ ?n" using num_bytes_spec [OF ok, of ?n] by simp
  have "bn_abs bn < 256 ^ (8 * bn_width bn)" using abs_less [OF ok] unfolding limb_base_bytes power_mult .
  then have n: "?n \<le> 8 * bn_width bn" by (simp add: num_bytes_spec [OF ok])
  then have nb: "?n \<le> length ?b" using ok by (simp add: bn_ok_def)
  have "BN_bn2bin bn = rev (map (\<lambda>i. ?b ! i) [0..<?n])"
    unfolding BN_bn2bin_def rev_map [symmetric] using nb by (simp add: nth_bytes_of_limbs BN_BYTES_def)
  also have "map (\<lambda>i. ?b ! i) [0..<?n] = take ?n ?b" using nb by (intro nth_equalityI) simp_all
  also have "take ?n ?b = rev (be_bytes ?n (bn_abs bn))"
    using padded_bytes(2) [OF ok v] n by (cases "?n < bn_width bn * 8") (simp_all add: mult.commute)
  finally show ?thesis by simp
qed

end
