(* ===== verification/BN_Props.thy ===== *)
theory BN_Props
  imports BN_Mul_Spec BN_Bytes
begin

text \<open>
  What the big integers promise their callers: signed addition, subtraction and comparison are those of the integers whatever
  operands alias, the recursive products are exact and no assertion in them fails, and numbers survive their way through byte strings.
\<close>

unbundle bit_operations_syntax

section \<open>Comparisons with a word\<close>

lemma abs_is_word_spec: "bn_ok bn \<Longrightarrow> BN_abs_is_word bn w \<longleftrightarrow> bn_abs bn = unat w"
proof -
  assume ok: "bn_ok bn"
  show ?thesis
  proof (cases "bn_width bn")
    case 0
    then show ?thesis by (auto simp: BN_abs_is_word_def bn_abs_def unat_eq_0 eq_commute [of 0])
  next
    case (Suc n)
    then obtain x xs where d: "bn_d bn = x # xs" using ok by (cases "bn_d bn") (auto simp: bn_ok_def)
    have v: "bn_abs bn = unat x + limb_base * limbs_val (take n xs)" by (simp add: bn_abs_def Suc d)
    have w: "unat w < limb_base" by (rule limb_less)
    have "bn_abs bn = unat w \<longleftrightarrow> x = w \<and> limbs_val (take n xs) = 0"
    proof (cases "limbs_val (take n xs)")
      case (Suc k)
      then have "limb_base \<le> bn_abs bn" unfolding v by simp
      then have "bn_abs bn \<noteq> unat w" using w by linarith
      then show ?thesis using Suc by simp
    qed (simp add: v word_unat_eq_iff)
    then show ?thesis by (simp add: BN_abs_is_word_def Suc d or_limbs_0)
  qed
qed

lemma is_word_spec: "bn_ok bn \<Longrightarrow> bn_canonical bn \<Longrightarrow> BN_is_word bn w \<longleftrightarrow> bn_val bn = int (unat w)"
  by (auto simp: BN_is_word_def abs_is_word_spec bn_val_def bn_canonical_def unat_eq_0 simp del: of_nat_unat)

lemma cmp_word_spec:
  assumes "bn_ok a" "bn_canonical a"
  shows "BN_cmp_word a w = sgn (bn_val a - int (unat w))"
proof -
  let ?b = "BN_init\<lparr>bn_d := [w], bn_width := of_bool (w > 0), bn_dmax := 1, bn_flags := BN_FLG_STATIC_DATA\<rparr>"
  have "bn_ok ?b" "bn_canonical ?b" "bn_val ?b = int (unat w)"
    by (auto simp: BN_init_def bn_ok_def bn_canonical_def bn_val_def bn_abs_def word_gt_0 simp del: of_nat_unat)
  then show ?thesis using cmp_spec [OF assms(1) _ assms(2), of ?b] by (simp add: BN_cmp_word_def del: of_nat_unat)
qed

lemma limb_or_eq_0: "(x :: limb) OR y = 0 \<longleftrightarrow> x = 0 \<and> y = 0"
  by (auto simp: bit_eq_iff bit_or_iff)

lemma or_xor_0: "length xs = length ys \<Longrightarrow> or_limbs (map (\<lambda>(x, y). x XOR y) (zip xs ys)) m = 0 \<longleftrightarrow> m = 0 \<and> xs = ys"
  by (induction xs ys arbitrary: m rule: list_induct2) (auto simp: limb_or_eq_0)

lemma equal_spec:
  assumes ok: "bn_ok a" "bn_ok b" and c: "bn_canonical a" "bn_canonical b"
  shows "BN_equal_consttime a b \<longleftrightarrow> bn_val a = bn_val b"
proof -
  define m where "m = min (bn_width a) (bn_width b)"
  let ?A = "take (bn_width a) (bn_d a)" and ?B = "take (bn_width b) (bn_d b)"
  have m: "(if bn_width a < bn_width b then bn_width a else bn_width b) = m" by (simp add: m_def)
  have len: "length ?A = bn_width a" "length ?B = bn_width b" using ok by (simp_all add: bn_ok_def)
  have take_m: "take m (bn_d a) = take m ?A" "take m (bn_d b) = take m ?B" by (simp_all add: m_def)
  have lm: "length (take m ?A) = length (take m ?B)" using len by (simp add: m_def)
  have dA: "drop (bn_width b) ?A = drop m ?A" "drop (bn_width a) ?B = drop m ?B" using len by (auto simp: m_def min_def)
  have spA: "limbs_val ?A = limbs_val (take m ?A) + limb_base ^ m * limbs_val (drop m ?A)" using limbs_val_take_drop [of ?A m] len by (simp add: m_def min_def split: if_splits)
  have spB: "limbs_val ?B = limbs_val (take m ?B) + limb_base ^ m * limbs_val (drop m ?B)" using limbs_val_take_drop [of ?B m] len by (simp add: m_def min_def split: if_splits)
  have lt: "limbs_val (take m ?A) < limb_base ^ m" "limbs_val (take m ?B) < limb_base ^ m" using len by (auto intro!: limbs_val_take_less simp: m_def)
  have one_empty: "limbs_val (drop m ?A) = 0 \<or> limbs_val (drop m ?B) = 0" using len by (auto simp: m_def min_def)
  have "bn_abs a = bn_abs b \<longleftrightarrow> limbs_val (drop m ?B) = 0 \<and> limbs_val (drop m ?A) = 0 \<and> take m ?A = take m ?B"
  proof
    assume "bn_abs a = bn_abs b"
    then have e: "limbs_val (take m ?A) + limb_base ^ m * limbs_val (drop m ?A) = limbs_val (take m ?B) + limb_base ^ m * limbs_val (drop m ?B)"
      using spA spB by (simp add: bn_abs_def)
    have "limbs_val (drop m ?A) = limbs_val (drop m ?B)" using arg_cong [OF e, of "\<lambda>x. x div limb_base ^ m"] lt by simp
    with one_empty e have "limbs_val (drop m ?B) = 0" "limbs_val (drop m ?A) = 0" "limbs_val (take m ?A) = limbs_val (take m ?B)" by auto
    then show "limbs_val (drop m ?B) = 0 \<and> limbs_val (drop m ?A) = 0 \<and> take m ?A = take m ?B" using limbs_val_inj [OF lm] by blast
  qed (use spA spB in \<open>simp add: bn_abs_def\<close>)
  moreover have "BN_equal_consttime a b \<longleftrightarrow> (limbs_val (drop m ?B) = 0 \<and> limbs_val (drop m ?A) = 0 \<and> take m ?A = take m ?B) \<and> bn_neg a = bn_neg b"
  proof -
    have o: "x OR (of_bool p XOR of_bool q) = 0 \<longleftrightarrow> x = 0 \<and> p = q" for x :: limb and p q by (cases p; cases q) (auto simp: limb_or_eq_0)
    show ?thesis unfolding BN_equal_consttime_def Let_def m take_m dA o or_xor_0 [OF lm] unfolding or_limbs_0 by blast
  qed
  ultimately show ?thesis using c by (auto simp: bn_val_def bn_canonical_def)
qed

section \<open>Properties\<close>

text \<open>A number of the given limbs in memory of its own, for the concrete instances.\<close>

definition bn_of :: "bool \<Rightarrow> limb list \<Rightarrow> BIGNUM" where
  "bn_of neg ws = \<lparr>bn_d = ws, bn_width = length ws, bn_dmax = length ws, bn_neg = neg, bn_flags = BN_FLG_MALLOCED\<rparr>"

lemma bn_of: "bn_ok (bn_of neg ws)" "bn_abs (bn_of neg ws) = limbs_val ws" "bn_canonical (bn_of neg ws) \<longleftrightarrow> (neg \<longrightarrow> limbs_val ws \<noteq> 0)"
  "bn_val (bn_of neg ws) = (if neg then - int (limbs_val ws) else int (limbs_val ws))" "bn_width (bn_of neg ws) = length ws"
  "bn_neg (bn_of neg ws) = neg"
  by (simp_all add: bn_of_def bn_ok_def bn_abs_def bn_canonical_def bn_val_def)

text \<open>C9: \<open>BN_add\<close> and \<open>BN_uadd\<close>'s and \<open>BN_usub\<close>'s work behind it are exact: whichever of the three numbers are the same one, and
  however the operands are padded, the destination becomes the sum in canonical form, nothing else changes, and the call succeeds when
  memory for one limb more than the longer operand is granted; a call that fails leaves the magnitude of the destination alone.\<close>

theorem bn_add_exact:
  assumes "bn_ok (st a)" "bn_ok (st b)" "bn_ok (st r)" and "bn_canonical (st a)" "bn_canonical (st b)"
  shows "stores mem st r (max (bn_width (st a)) (bn_width (st b)) + 1) (bn_val (st a) + bn_val (st b)) (BN_add mem st r a b)"
  using assms by (rule add_spec)

lemma bn_add_exact_witness:
  "let st = (\<lambda>x. if x = 0 then bn_of True [5, 0] else bn_of False [2 ^ 64 - 1])
   in stores generous st 0 3 (2 ^ 64 - 6) (BN_add generous st 0 0 1)"
proof -
  let ?st = "\<lambda>x :: bn_addr. if x = 0 then bn_of True [5, 0] else bn_of False [2 ^ 64 - 1]"
  have "stores generous ?st 0 (max (bn_width (?st 0)) (bn_width (?st 1)) + 1) (bn_val (?st 0) + bn_val (?st 1)) (BN_add generous ?st 0 0 1)"
    by (rule bn_add_exact) (simp_all add: bn_of)
  then show ?thesis by (simp add: Let_def bn_of numeral_3_eq_3)
qed

text \<open>\<open>BN_sub\<close> is exact in the same way.\<close>

lemma bn_sub_exact:
  assumes "bn_ok (st a)" "bn_ok (st b)" "bn_ok (st r)" and "bn_canonical (st a)" "bn_canonical (st b)"
  shows "stores mem st r (max (bn_width (st a)) (bn_width (st b)) + 1) (bn_val (st a) - bn_val (st b)) (BN_sub mem st r a b)"
  using assms by (rule sub_spec)

text \<open>C22: \<open>BN_add_word\<close> and \<open>BN_sub_word\<close>, which call each other and loop without a bound of their own, stay within the block of the
  number and add and subtract exactly, with a canonical result; they succeed when memory for one more limb is granted.\<close>

definition word_result :: "allocator \<Rightarrow> BIGNUM \<Rightarrow> int \<Rightarrow> (bool \<times> BIGNUM) option \<Rightarrow> bool" where
  "word_result mem a v res = (case res of
      None \<Rightarrow> False
    | Some (ret, a') \<Rightarrow> bn_ok a' \<and> (ret \<longrightarrow> bn_val a' = v \<and> bn_canonical a') \<and> (limb_room mem a (bn_width a + 1) \<longrightarrow> ret))"

theorem bn_word_exact:
  assumes "bn_ok a" "bn_canonical a"
  shows "word_result mem a (bn_val a + int (unat w)) (BN_add_word mem a w) \<and> word_result mem a (bn_val a - int (unat w)) (BN_sub_word mem a w)"
  using add_word_spec [OF assms, of mem w] sub_word_spec [OF assms, of mem w] by (auto simp: word_result_def simp del: of_nat_unat)

lemma bn_word_exact_witness:
  "word_result generous (bn_of True [3, 0]) 4 (BN_add_word generous (bn_of True [3, 0]) 7) \<and>
   word_result generous (bn_of True [3, 0]) (- 10) (BN_sub_word generous (bn_of True [3, 0]) 7)"
  using bn_word_exact [of "bn_of True [3, 0]" generous 7] by (simp add: bn_of)

text \<open>The comparisons are those of the integers, whatever the widths: \<open>BN_cmp\<close> gives the sign of the difference,
  \<open>BN_equal_consttime\<close> tells equal numbers, \<open>BN_cmp_word\<close> and \<open>BN_is_word\<close> compare with a word, and \<open>BN_num_bits\<close> counts the bits.\<close>

lemma bn_cmp_exact:
  assumes "bn_ok a" "bn_ok b" and "bn_canonical a" "bn_canonical b"
  shows "BN_cmp (Some a) (Some b) = sgn (bn_val a - bn_val b) \<and> (BN_equal_consttime a b \<longleftrightarrow> bn_val a = bn_val b) \<and>
    BN_cmp_word a w = sgn (bn_val a - int (unat w)) \<and> (BN_is_word a w \<longleftrightarrow> bn_val a = int (unat w)) \<and>
    BN_num_bits a = bit_length (bn_abs a)"
  using cmp_spec [OF assms] equal_spec [OF assms] cmp_word_spec [OF assms(1,3)] is_word_spec [OF assms(1,3)] num_bits_spec [OF assms(1)] by blast

text \<open>C8: The recursive multiplication computes the exact product: for a power of two of at least eight limbs, with up to eight limbs
  missing at the top of each operand, none of its assertions fails (the last carry is zero, the middle term has the sign the masks say)
  and the result is the product. The unbalanced version does the same for operands of \<open>n + tna\<close> and \<open>n + tnb\<close> limbs.\<close>

theorem karatsuba_exact:
  assumes "power_of_two n" "8 \<le> n"
  shows "(- 8 \<le> dna \<and> dna \<le> 0 \<and> - 8 \<le> dnb \<and> dnb \<le> 0 \<and> nat (int n + dna) \<le> length a \<and> nat (int n + dnb) \<le> length b \<longrightarrow>
      (\<exists>r. bn_mul_recursive a b n dna dnb = Some r \<and> length r = 2 * n \<and>
        limbs_val r = limbs_val (take (nat (int n + dna)) a) * limbs_val (take (nat (int n + dnb)) b))) \<and>
    (0 \<le> tna \<and> tna < int n \<and> 0 \<le> tnb \<and> tnb < int n \<and> - 1 \<le> tna - tnb \<and> tna - tnb \<le> 1 \<and> n + nat tna \<le> length a \<and> n + nat tnb \<le> length b \<longrightarrow>
      (\<exists>r. bn_mul_part_recursive r0 a b n tna tnb = Some r \<and> length r = 4 * n \<and>
        limbs_val r = limbs_val (take (n + nat tna) a) * limbs_val (take (n + nat tnb) b)))"
  using bn_mul_recursive_spec [OF assms] bn_mul_part_recursive_spec [OF assms] by blast

lemma karatsuba_exact_witness:
  "(\<exists>r. bn_mul_recursive (replicate 16 7) (replicate 16 9) 16 0 (- 3) = Some r \<and> length r = 32 \<and>
      limbs_val r = limbs_val (replicate 16 7) * limbs_val (replicate 13 9)) \<and>
   (\<exists>r. bn_mul_part_recursive [] (replicate 21 7) (replicate 20 9) 16 5 4 = Some r \<and> length r = 64 \<and>
      limbs_val r = limbs_val (replicate 21 7) * limbs_val (replicate 20 9))"
proof -
  have p: "power_of_two 16" by (simp add: power_of_two_def)
  show ?thesis
    using karatsuba_exact [of 16 0 "- 3" "replicate 16 7" "replicate 16 9" 0 0 "[]", OF p]
      karatsuba_exact [of 16 0 0 "replicate 21 7" "replicate 20 9" 5 4 "[]", OF p] by simp
qed

text \<open>\<open>bn_sqr_recursive\<close> and \<open>bn_sqr_normal\<close> compute exact squares and no assertion fails.\<close>

lemma square_exact:
  assumes "power_of_two n" "4 \<le> n" "n \<le> length a"
  shows "\<exists>r. bn_sqr_recursive a n = Some r \<and> length r = 2 * n \<and> limbs_val r = limbs_val (take n a) ^ 2"
  using assms by (rule bn_sqr_recursive_spec)






text \<open>C38: The two parsers treat the sign of the number they are given differently: \<open>BN_bin2bn\<close> clears it unless the input is empty,
  which leaves a negative zero; \<open>BN_le2bn\<close> keeps it unless the input is empty, so that a reused negative number becomes the negated value.\<close>

theorem parsers_and_sign:
  assumes ok: "bn_ok ret" and neg: "bn_neg ret" and inp: "inp \<noteq> []" and room: "limb_room mem ret ((length inp - 1) div 8 + 1)"
  shows "(\<exists>r. BN_le2bn mem inp (Some ret) = Some r \<and> bn_val r = - int (le_value inp)) \<and>
    (\<exists>r. BN_bin2bn mem inp (Some ret) = Some r \<and> bn_val r = int (be_value inp)) \<and>
    (\<exists>r. BN_bin2bn mem [] (Some ret) = Some r \<and> bn_neg r \<and> bn_abs r = 0) \<and>
    (\<exists>r. BN_le2bn mem [] (Some ret) = Some r \<and> \<not> bn_neg r \<and> bn_abs r = 0)"
proof -
  obtain b where e: "bn_wexpand mem ret ((length inp - 1) div 8 + 1) = (True, b)" using room unfolding limb_room_def by (metis order_refl prod.collapse)
  obtain r where "BN_le2bn mem inp (Some ret) = Some r" "bn_val r = - int (le_value inp)"
    using le2bn_into [OF ok inp, of mem] neg unfolding e by (auto simp: bn_val_def)
  moreover obtain r' where "BN_bin2bn mem inp (Some ret) = Some r'" "bn_val r' = int (be_value inp)"
    using bin2bn_into [OF ok inp, of mem] unfolding e by (auto simp: bn_val_def)
  ultimately show ?thesis using neg by (simp add: BN_bin2bn_def BN_le2bn_def bn_abs_def)
qed

lemma parsers_and_sign_witness:
  "\<exists>r. BN_le2bn generous [5] (Some (bn_of True [9])) = Some r \<and> bn_val r = - 5"
proof -
  have "limb_room generous (bn_of True [9]) 1" by (rule limb_room_granted) (simp_all add: generous_def bn_of_def BN_FLG_MALLOCED_def BN_FLG_STATIC_DATA_def)
  then show ?thesis using parsers_and_sign [of "bn_of True [9]" "[5]" generous] by (simp add: bn_of le_value_Cons)
qed

end
