(* ===== verification/BN_Shift.thy ===== *)
theory BN_Shift
  imports BN_Arith
begin

text \<open>
  Shifts and single bits of big integers: \<^verbatim>\<open>crypto/fipsmodule/bn/shift.c\<close>. The bit counts are \<open>int\<close>s of the callers that are
  not negative after the first test; destination and operand may be the same number of the store.
\<close>

unbundle bit_operations_syntax

section \<open>Operations\<close>

text \<open>The loop of \<open>BN_lshift\<close> runs from the top limb down. With \<open>same\<close> the source is the destination itself.\<close>

fun lshift_loop :: "bool \<Rightarrow> limb list \<Rightarrow> nat \<Rightarrow> nat \<Rightarrow> nat \<Rightarrow> limb list \<Rightarrow> limb list" where
  "lshift_loop same f nw lb 0 t = t"
| "lshift_loop same f nw lb (Suc i) t =
     (let l = (if same then t ! i else f ! i)
      in if lb = 0 then lshift_loop same f nw lb i (t[nw + i := l])
         else
           let t = t[nw + i + 1 := t ! (nw + i + 1) OR drop_bit (BN_BITS2 - lb) l];
               t = t[nw + i := push_bit lb l]
           in lshift_loop same f nw lb i t)"

definition BN_lshift :: "allocator \<Rightarrow> bn_store \<Rightarrow> bn_addr \<Rightarrow> bn_addr \<Rightarrow> int \<Rightarrow> bool \<times> bn_store" where
  "BN_lshift mem st r a n =
     (if n < 0 then (False, st)
      else
        let st = st(r := (st r)\<lparr>bn_neg := bn_neg (st a)\<rparr>);
            nw = nat n div BN_BITS2
        in case bn_wexpand mem (st r) (bn_width (st a) + nw + 1) of
             (False, bn) \<Rightarrow> (False, st(r := bn))
           | (True, bn) \<Rightarrow>
               let st = st(r := bn);
                   lb = nat n mod BN_BITS2;
                   t = (bn_d (st r))[bn_width (st a) + nw := 0];
                   t = lshift_loop (r = a) (bn_d (st a)) nw lb (bn_width (st a)) t;
                   t = replicate nw 0 @ drop nw t;
                   bn = (st r)\<lparr>bn_d := t, bn_width := bn_width (st a) + nw + 1\<rparr>
               in (True, st(r := bn_set_minimal_width bn)))"

definition lshift1_step :: "limb \<Rightarrow> limb \<Rightarrow> limb \<times> limb" where
  "lshift1_step t c = (push_bit 1 t OR c, drop_bit (BN_BITS2 - 1) t)"

definition BN_lshift1 :: "allocator \<Rightarrow> bn_store \<Rightarrow> bn_addr \<Rightarrow> bn_addr \<Rightarrow> bool \<times> bn_store" where
  "BN_lshift1 mem st r a =
     (let st = (if r \<noteq> a then st(r := (st r)\<lparr>bn_neg := bn_neg (st a)\<rparr>) else st)
      in case bn_wexpand mem (st r) (bn_width (st a) + 1) of
           (False, bn) \<Rightarrow> (False, st(r := bn))
         | (True, bn) \<Rightarrow>
             let w = bn_width (st a);
                 st = st(r := bn);
                 (rp, c) = limb_loop lshift1_step (take w (bn_d (st a))) 0;
                 d = rp @ drop w (bn_d (st r))
             in (True, st(r := if c \<noteq> 0 then (st r)\<lparr>bn_d := d[w := 1], bn_width := w + 1\<rparr> else (st r)\<lparr>bn_d := d, bn_width := w\<rparr>)))"

definition bn_rshift_words :: "limb list \<Rightarrow> nat \<Rightarrow> nat \<Rightarrow> limb list" where
  "bn_rshift_words a shift num =
     (let shift_bits = shift mod BN_BITS2; shift_words = shift div BN_BITS2
      in if shift_words \<ge> num then replicate num 0
         else (if shift_bits = 0 then take (num - shift_words) (drop shift_words a)
               else map (\<lambda>i. drop_bit shift_bits (a ! i) OR push_bit (BN_BITS2 - shift_bits) (a ! (i + 1))) [shift_words..<num - 1] @
                 [drop_bit shift_bits (a ! (num - 1))]) @
           replicate shift_words 0)"

definition BN_rshift :: "allocator \<Rightarrow> bn_store \<Rightarrow> bn_addr \<Rightarrow> bn_addr \<Rightarrow> int \<Rightarrow> bool \<times> bn_store" where
  "BN_rshift mem st r a n =
     (if n < 0 then (False, st)
      else case bn_wexpand mem (st r) (bn_width (st a)) of
          (False, bn) \<Rightarrow> (False, st(r := bn))
        | (True, bn) \<Rightarrow>
            let st = st(r := bn);
                w = bn_width (st a);
                d = bn_rshift_words (bn_d (st a)) (nat n) w @ drop w (bn_d (st r))
            in (True, st(r := bn_set_minimal_width ((st r)\<lparr>bn_d := d, bn_neg := bn_neg (st a), bn_width := w\<rparr>))))"

definition bn_rshift1_words :: "limb list \<Rightarrow> nat \<Rightarrow> limb list" where
  "bn_rshift1_words a num =
     (if num = 0 then []
      else map (\<lambda>i. drop_bit 1 (a ! i) OR push_bit (BN_BITS2 - 1) (a ! (i + 1))) [0..<num - 1] @ [drop_bit 1 (a ! (num - 1))])"

definition BN_rshift1 :: "allocator \<Rightarrow> bn_store \<Rightarrow> bn_addr \<Rightarrow> bn_addr \<Rightarrow> bool \<times> bn_store" where
  "BN_rshift1 mem st r a =
     (case bn_wexpand mem (st r) (bn_width (st a)) of
        (False, bn) \<Rightarrow> (False, st(r := bn))
      | (True, bn) \<Rightarrow>
          let st = st(r := bn);
              w = bn_width (st a);
              d = bn_rshift1_words (bn_d (st a)) w @ drop w (bn_d (st r))
          in (True, st(r := bn_set_minimal_width ((st r)\<lparr>bn_d := d, bn_width := w, bn_neg := bn_neg (st a)\<rparr>))))"

definition BN_set_bit :: "allocator \<Rightarrow> BIGNUM \<Rightarrow> int \<Rightarrow> bool \<times> BIGNUM" where
  "BN_set_bit mem a n =
     (if n < 0 then (False, a)
      else
        let i = nat n div BN_BITS2; j = nat n mod BN_BITS2
        in case (if bn_width a \<le> i then
                   (case bn_wexpand mem a (i + 1) of
                      (False, a) \<Rightarrow> (False, a)
                    | (True, a) \<Rightarrow> (True, a\<lparr>bn_d := take (bn_width a) (bn_d a) @ replicate (i + 1 - bn_width a) 0 @ drop (i + 1) (bn_d a), bn_width := i + 1\<rparr>))
                 else (True, a)) of
             (False, a) \<Rightarrow> (False, a)
           | (True, a) \<Rightarrow> (True, a\<lparr>bn_d := (bn_d a)[i := bn_d a ! i OR push_bit j 1]\<rparr>))"

definition BN_clear_bit :: "BIGNUM \<Rightarrow> int \<Rightarrow> bool \<times> BIGNUM" where
  "BN_clear_bit a n =
     (if n < 0 then (False, a)
      else
        let i = nat n div BN_BITS2; j = nat n mod BN_BITS2
        in if bn_width a \<le> i then (False, a)
           else (True, bn_set_minimal_width (a\<lparr>bn_d := (bn_d a)[i := bn_d a ! i AND NOT (push_bit j 1)]\<rparr>)))"

definition bn_is_bit_set_words :: "limb list \<Rightarrow> nat \<Rightarrow> nat \<Rightarrow> bool" where
  "bn_is_bit_set_words a num b =
     (let i = b div BN_BITS2; j = b mod BN_BITS2
      in if i \<ge> num then False else drop_bit j (a ! i) AND 1 \<noteq> 0)"

definition BN_is_bit_set :: "BIGNUM \<Rightarrow> int \<Rightarrow> bool" where
  "BN_is_bit_set a n = (if n < 0 then False else bn_is_bit_set_words (bn_d a) (bn_width a) (nat n))"

definition BN_mask_bits :: "BIGNUM \<Rightarrow> int \<Rightarrow> bool \<times> BIGNUM" where
  "BN_mask_bits a n =
     (if n < 0 then (False, a)
      else
        let w = nat n div BN_BITS2; b = nat n mod BN_BITS2
        in if w \<ge> bn_width a then (True, a)
           else
             let a = (if b = 0 then a\<lparr>bn_width := w\<rparr>
                      else a\<lparr>bn_width := w + 1, bn_d := (bn_d a)[w := bn_d a ! w AND NOT (push_bit b BN_MASK2)]\<rparr>)
             in (True, bn_set_minimal_width a))"

text \<open>One block of \<open>bn_count_low_zero_bits_word\<close>.\<close>

definition low_zero_step :: "nat \<Rightarrow> limb \<times> limb \<Rightarrow> limb \<times> limb" where
  "low_zero_step s = (\<lambda>(bits, l).
     let msk = constant_time_is_zero_w (push_bit (BN_BITS2 - s) l)
     in (bits + (of_nat s AND msk), constant_time_select_w msk (drop_bit s l) l))"

definition bn_count_low_zero_bits_word :: "limb \<Rightarrow> nat" where
  "bn_count_low_zero_bits_word l =
     unat (fst (low_zero_step 1 (low_zero_step 2 (low_zero_step 4 (low_zero_step 8 (low_zero_step 16 (low_zero_step 32 (0, l))))))))"

fun low_zero_loop :: "limb list \<Rightarrow> nat \<Rightarrow> limb \<Rightarrow> limb \<Rightarrow> limb" where
  "low_zero_loop [] i saw_nonzero ret = ret"
| "low_zero_loop (d # ds) i saw_nonzero ret =
     (let nonzero = NOT (constant_time_is_zero_w d);
          first_nonzero = NOT saw_nonzero AND nonzero
      in low_zero_loop ds (i + 1) (saw_nonzero OR nonzero)
           (ret OR (first_nonzero AND of_nat (i * BN_BITS2 + bn_count_low_zero_bits_word d))))"

definition BN_count_low_zero_bits :: "BIGNUM \<Rightarrow> nat" where
  "BN_count_low_zero_bits bn = unat (low_zero_loop (take (bn_width bn) (bn_d bn)) 0 0 0)"

section \<open>Shifting to the left\<close>

text \<open>A limb shifted by \<open>k\<close> bits takes in the bits the one below it gave up.\<close>

definition shl_step :: "nat \<Rightarrow> limb \<Rightarrow> limb \<Rightarrow> limb \<times> limb" where
  "shl_step k l c = (push_bit k l OR c, drop_bit (64 - k) l)"

lemma shl_step_spec:
  assumes k: "0 < k" "k < 64" and c: "unat (c :: limb) < 2 ^ k"
  shows "unat (drop_bit (64 - k) (l :: limb)) < 2 ^ k" "unat (push_bit k l OR c) + limb_base * unat (drop_bit (64 - k) l) = unat l * 2 ^ k + unat c"
proof -
  have e: "limb_base = 2 ^ k * 2 ^ (64 - k)" using k by (simp add: limb_base_def flip: power_add)
  have hi: "unat (drop_bit (64 - k) l) = unat l div 2 ^ (64 - k)" by (rule unat_drop)
  have ll: "unat l < 2 ^ k * 2 ^ (64 - k)" using limb_less [of l] unfolding e .
  then show "unat (drop_bit (64 - k) l) < 2 ^ k" unfolding hi by (simp add: less_mult_imp_div_less)
  have "(2 :: nat) ^ k < 2 ^ 64" using k by (intro power_strict_increasing) simp_all
  then have p: "unat ((2 :: limb) ^ k) = 2 ^ k" using unat_of_nat [of "2 ^ k", where 'a = 64] by simp
  have len: "2 ^ LENGTH(64) = limb_base" by (simp add: limb_base_def)
  have "unat (push_bit k l) = unat l * 2 ^ k mod limb_base"
    unfolding push_bit_eq_mult unat_word_ariths(2) p len ..
  also have "\<dots> = 2 ^ k * (unat l mod 2 ^ (64 - k))" unfolding e mult_mod_right by (simp only: mult.commute)
  finally have lo: "unat (push_bit k l) = 2 ^ k * (unat l mod 2 ^ (64 - k))" .
  have "bit c i \<Longrightarrow> i < k" for i
  proof (rule ccontr)
    assume "bit c i" "\<not> i < k"
    then have "bit (unat c) i" by (simp add: bit_unsigned_iff)
    then have "odd (unat c div 2 ^ i)" unfolding bit_iff_odd .
    then have "unat c div 2 ^ i \<noteq> 0" by (metis even_zero)
    moreover have "(2 :: nat) ^ k \<le> 2 ^ i" using \<open>\<not> i < k\<close> by (intro power_increasing) simp_all
    ultimately show False using c by simp
  qed
  then have "push_bit k l AND c = 0" by (intro bit_word_eqI) (auto simp: bit_simps simp flip: not_less)
  then have "push_bit k l OR c = push_bit k l + c" by (simp add: or_disjoint_add)
  moreover have "2 ^ k * (unat l mod 2 ^ (64 - k)) + unat c < limb_base"
  proof -
    have "unat l mod 2 ^ (64 - k) + 1 \<le> 2 ^ (64 - k)" by (simp add: Suc_leI)
    then have "2 ^ k * (unat l mod 2 ^ (64 - k) + 1) \<le> 2 ^ k * 2 ^ (64 - k)" by (rule mult_le_mono2)
    then show ?thesis using c unfolding e by simp
  qed
  ultimately have "unat (push_bit k l OR c) = 2 ^ k * (unat l mod 2 ^ (64 - k)) + unat c" using lo by (simp add: unat_limb_add)
  then have "unat (push_bit k l OR c) + limb_base * unat (drop_bit (64 - k) l) = 2 ^ k * (2 ^ (64 - k) * (unat l div 2 ^ (64 - k)) + unat l mod 2 ^ (64 - k)) + unat c"
    unfolding hi e by (simp only: algebra_simps)
  then show "unat (push_bit k l OR c) + limb_base * unat (drop_bit (64 - k) l) = unat l * 2 ^ k + unat c"
    by (simp only: mult_div_mod_eq mult.commute [of "2 ^ k"])
qed

interpretation shl: limb_step "shl_step k" "\<lambda>l. int (unat l) * 2 ^ k" "\<lambda>c. int (unat c)" "\<lambda>c. 0 < k \<and> k < 64 \<and> unat c < 2 ^ k" for k
proof unfold_locales
  fix c l r c' :: limb assume c: "0 < k \<and> k < 64 \<and> unat c < 2 ^ k" and s: "shl_step k l c = (r, c')"
  then have r: "r = push_bit k l OR c" "c' = drop_bit (64 - k) l" by (simp_all add: shl_step_def)
  have "int (unat (push_bit k l OR c) + limb_base * unat (drop_bit (64 - k) l)) = int (unat l * 2 ^ k + unat c)"
    using shl_step_spec(2) [of k c l] c by simp
  then show "(0 < k \<and> k < 64 \<and> unat c' < 2 ^ k) \<and> int (unat r) + int limb_base * int (unat c') = int (unat l) * 2 ^ k + int (unat c)"
    using shl_step_spec(1) [of k c l] c unfolding r by (simp del: of_nat_unat)
qed

lemma shl_total: "shl.total k ws = int (limbs_val ws) * 2 ^ k"
proof (induction ws)
  case (Cons w ws)
  show ?case unfolding shl.total.simps Cons limbs_val.simps of_nat_add of_nat_mult by (simp only: algebra_simps)
qed (simp only: shl.total.simps limbs_val.simps of_nat_0 mult_zero_left)

lemma shl_loop_spec:
  assumes k: "0 < k" "k < 64" and l: "limb_loop (shl_step k) ws 0 = (rs, c)"
  shows "length rs = length ws" "limbs_val (rs @ [c]) = limbs_val ws * 2 ^ k" "unat c < 2 ^ k"
proof -
  have ok: "0 < k \<and> k < 64 \<and> unat (0 :: limb) < 2 ^ k" using k by simp
  note s = shl.loop [OF ok l]
  have "int (limbs_val rs + limb_base ^ length ws * unat c) = int (limbs_val ws * 2 ^ k)"
    using s by (simp add: shl_total del: of_nat_unat)
  then have "limbs_val rs + limb_base ^ length ws * unat c = limbs_val ws * 2 ^ k" by (simp only: of_nat_eq_iff)
  then show "length rs = length ws" "limbs_val (rs @ [c]) = limbs_val ws * 2 ^ k" "unat c < 2 ^ k" using s by (simp_all add: limbs_val_append)
qed

text \<open>The loop from the top down leaves what the loop from the bottom up computes; the source below \<open>i\<close> has not been overwritten.\<close>

lemma lshift_loop_bits:
  assumes lb: "0 < lb" "lb < 64"
  shows "i \<le> length f \<Longrightarrow> nw + i < length t \<Longrightarrow> (same \<Longrightarrow> take i t = take i f) \<Longrightarrow> limb_loop (shl_step lb) (take i f) 0 = (rs, c) \<Longrightarrow>
    lshift_loop same f nw lb i t = take nw t @ rs @ [t ! (nw + i) OR c] @ drop (nw + i + 1) t"
proof (induction i arbitrary: t rs c)
  case 0
  then show ?case by (simp add: Cons_nth_drop_Suc)
next
  case (Suc i)
  obtain rs' c' where l: "limb_loop (shl_step lb) (take i f) 0 = (rs', c')" by (rule prod.exhaust)
  have split: "take (Suc i) f = take i f @ [f ! i]" using Suc.prems(1) by (simp add: take_Suc_conv_app_nth)
  have rs: "rs = rs' @ [push_bit lb (f ! i) OR c']" "c = drop_bit (64 - lb) (f ! i)"
    using Suc.prems(4) unfolding split limb_loop_append l by (simp_all add: shl_step_def)
  have src: "(if same then t ! i else f ! i) = f ! i" using Suc.prems(3,1,2) by (metis lessI nth_take)
  define t' where "t' = t[nw + Suc i := t ! (nw + Suc i) OR drop_bit (64 - lb) (f ! i), nw + i := push_bit lb (f ! i)]"
  have run: "lshift_loop same f nw lb (Suc i) t = lshift_loop same f nw lb i t'"
    using lb by (simp only: lshift_loop.simps src) (simp add: Let_def t'_def BN_BITS2_def)
  have "take i t' = take i f" if same
  proof -
    have "take i t = take i f" using arg_cong [OF Suc.prems(3) [OF that], of "take i"] by (simp add: min_def)
    then show ?thesis by (simp add: t'_def)
  qed
  then have "lshift_loop same f nw lb i t' = take nw t' @ rs' @ [t' ! (nw + i) OR c'] @ drop (nw + i + 1) t'"
    using Suc.IH [of t' rs' c'] Suc.prems(1,2) l by (simp add: t'_def)
  moreover have "drop (nw + i + 1) t' = (t ! (nw + Suc i) OR c) # drop (nw + Suc i + 1) t"
    using Suc.prems(2) by (simp add: t'_def rs(2) drop_update_swap flip: Cons_nth_drop_Suc)
  ultimately show ?case using Suc.prems(2) unfolding run rs(1) by (simp add: t'_def)
qed

lemma lshift_loop_words:
  "i \<le> length f \<Longrightarrow> nw + i \<le> length t \<Longrightarrow> (same \<Longrightarrow> take i t = take i f) \<Longrightarrow>
    lshift_loop same f nw 0 i t = take nw t @ take i f @ drop (nw + i) t"
proof (induction i arbitrary: t)
  case (Suc i)
  have src: "(if same then t ! i else f ! i) = f ! i" using Suc.prems(3,1,2) by (metis lessI nth_take)
  have "take i (t[nw + i := f ! i]) = take i f" if same
    using arg_cong [OF Suc.prems(3) [OF that], of "take i"] by (simp add: min_def)
  then have "lshift_loop same f nw 0 i (t[nw + i := f ! i]) = take nw (t[nw + i := f ! i]) @ take i f @ drop (nw + i) (t[nw + i := f ! i])"
    using Suc.prems(1,2) by (intro Suc.IH) simp_all
  moreover have "drop (nw + i) (t[nw + i := f ! i]) = f ! i # drop (nw + Suc i) t"
    using Suc.prems(2) by (simp add: drop_update_swap flip: Cons_nth_drop_Suc)
  ultimately show ?case using Suc.prems(1) by (simp only: lshift_loop.simps src Let_def if_P simp_thms) (simp add: take_Suc_conv_app_nth)
qed simp

lemma lshift_limbs:
  assumes "w \<le> length f" "w + nw < length t" "same \<Longrightarrow> take w t = take w f" "t ! (w + nw) = 0" "lb < 64"
  shows "\<exists>xs. length xs = Suc w \<and> limbs_val xs = limbs_val (take w f) * 2 ^ lb \<and> drop nw (lshift_loop same f nw lb w t) = xs @ drop (w + nw + 1) t"
proof (cases "lb = 0")
  case True
  have "lshift_loop same f nw 0 w t = take nw t @ take w f @ drop (nw + w) t" using assms by (intro lshift_loop_words) simp_all
  moreover have "drop (nw + w) t = 0 # drop (w + nw + 1) t" using assms(2,4) by (simp add: add.commute flip: Cons_nth_drop_Suc)
  ultimately show ?thesis using assms True by (intro exI [of _ "take w f @ [0]"]) (simp add: limbs_val_append)
next
  case False
  obtain rs c where l: "limb_loop (shl_step lb) (take w f) 0 = (rs, c)" by (rule prod.exhaust)
  have lb: "0 < lb" using False by simp
  have "lshift_loop same f nw lb w t = take nw t @ rs @ [t ! (nw + w) OR c] @ drop (nw + w + 1) t"
    using assms(1-3) l by (intro lshift_loop_bits [OF lb assms(5)]) (simp_all add: add.commute)
  then show ?thesis using assms(1,2,4) shl_loop_spec [OF lb assms(5) l] by (intro exI [of _ "rs @ [c]"]) (simp add: add.commute)
qed

lemma stores_of:
  assumes "bn_wexpand mem (st1 r) n = (t, bn)" and st1: "st1(r := st r) = st" "bn_abs (st1 r) = bn_abs (st r)"
      "bn_dmax (st1 r) = bn_dmax (st r)" "bn_flags (st1 r) = bn_flags (st r)"
    and res: "t \<Longrightarrow> ret \<and> bn_ok b \<and> bn_canonical b \<and> bn_val b = v \<and> bn_flags b = bn_flags (st r) \<and> st' = st1(r := b)"
    and "\<not> t \<Longrightarrow> \<not> ret \<and> st' = st1"
  shows "stores mem st r n v (ret, st')"
proof -
  have eq: "st1(r := x, r := st r) = st" for x using st1(1) by simp
  have "limb_room mem (st r) n \<longrightarrow> t"
  proof
    assume "limb_room mem (st r) n"
    then have "limb_room mem (st1 r) n" using limb_room_cong [of "st1 r" "st r"] st1(3,4) by simp
    then have "fst (bn_wexpand mem (st1 r) n)" unfolding limb_room_def by blast
    then show t using assms(1) by simp
  qed
  then show ?thesis using res assms(7) st1 eq by (cases t) (simp_all add: stores_def)
qed

lemma lshift_spec:
  assumes ok: "bn_ok (st a)" "bn_ok (st r)" and n: "0 \<le> n"
  shows "stores mem st r (bn_width (st a) + nat n div 64 + 1) (bn_val (st a) * 2 ^ nat n) (BN_lshift mem st r a n)"
proof -
  define st1 where "st1 = st(r := (st r)\<lparr>bn_neg := bn_neg (st a)\<rparr>)"
  define w nw lb where "w = bn_width (st a)" and "nw = nat n div 64" and "lb = nat n mod 64"
  have st1: "st1(r := st r) = st" "bn_abs (st1 r) = bn_abs (st r)" "bn_dmax (st1 r) = bn_dmax (st r)" "bn_flags (st1 r) = bn_flags (st r)"
    "bn_ok (st1 r)" "bn_ok (st1 a)" "bn_width (st1 a) = w" "bn_d (st1 a) = bn_d (st a)" "bn_neg (st1 r) = bn_neg (st a)"
    using ok by (auto simp: st1_def bn_abs_def bn_ok_def w_def)
  obtain t bn where e: "bn_wexpand mem (st1 r) (w + nw + 1) = (t, bn)" by (rule prod.exhaust)
  define f where "f = bn_d ((st1(r := bn)) a)"
  define w' where "w' = bn_width ((st1(r := bn)) a)"
  define t0 where "t0 = (bn_d bn)[w' + nw := 0]"
  define t1 where "t1 = replicate nw 0 @ drop nw (lshift_loop (r = a) f nw lb w' t0)"
  define b where "b = bn\<lparr>bn_d := t1, bn_width := w' + nw + 1\<rparr>"
  have run: "BN_lshift mem st r a n = (if t then (True, st1(r := bn_set_minimal_width b)) else (False, st1(r := bn)))"
    using n e st1(7) unfolding BN_lshift_def Let_def BN_BITS2_def
    by (simp add: st1_def [symmetric] nw_def [symmetric] lb_def [symmetric] b_def t1_def t0_def f_def w'_def split: bool.split)
  have True_case: "bn_ok b \<and> bn_abs b = bn_abs (st a) * 2 ^ nat n \<and> bn_neg b = bn_neg (st a) \<and> bn_flags b = bn_flags (st r)" if t
  proof -
    have e': "bn_wexpand mem (st1 r) (w + nw + 1) = (True, bn)" using e that by simp
    note x = bn_wexpand_True [OF st1(5) e']
    have w': "w' = w" using x(4) st1(7) by (auto simp: w'_def)
    have f: "take w f = take w (bn_d (st a))" "w \<le> length f"
      using wexpand_store [where st = st1 and r = r and x = a and k = w, OF st1(5,6) e'] st1(7,8) unfolding f_def by simp_all
    have len: "w + nw < length (bn_d bn)" using x(1,2) by (simp add: bn_ok_def)
    have same: "take w t0 = take w f" if "r = a" using that by (simp add: t0_def w' f_def)
    obtain xs where xs: "length xs = Suc w" "limbs_val xs = limbs_val (take w f) * 2 ^ lb" "drop nw (lshift_loop (r = a) f nw lb w' t0) = xs @ drop (w + nw + 1) t0"
      using lshift_limbs [OF f(2), of nw t0 "r = a" lb] same len by (auto simp: t0_def w' lb_def)
    have tk: "take (w' + nw + 1) t1 = replicate nw 0 @ xs" "length t1 = length (bn_d bn)" using xs(1,3) len unfolding t1_def by (simp_all add: w' t0_def)
    have "limb_base ^ nw * 2 ^ lb = (2 :: nat) ^ nat n"
    proof -
      have "64 * nw + lb = nat n" by (simp add: nw_def lb_def)
      then show ?thesis unfolding limb_base_def by (simp only: flip: power_mult power_add)
    qed
    then have "limbs_val (replicate nw 0 @ xs) = bn_abs (st a) * 2 ^ nat n"
      using xs(2) f(1) by (simp add: limbs_val_append bn_abs_def w_def [symmetric] mult.left_commute)
    then show ?thesis using tk x(1,2,5,6) st1(4,9) by (simp add: b_def bn_ok_def bn_abs_def w')
  qed
  have val: "bn_val (bn_set_minimal_width b) = bn_val (st a) * 2 ^ nat n" if t
    using True_case [OF that] set_minimal_width_spec(2) [of b] by (simp add: bn_val_def [of b] bn_val_def [of "st a"])
  have ret: "(if t then (True, st1(r := bn_set_minimal_width b)) else (False, st1(r := bn))) = (t, if t then st1(r := bn_set_minimal_width b) else st1(r := bn))"
    by simp
  show ?thesis unfolding run ret w_def [symmetric] nw_def [symmetric]
  proof (rule stores_of [where ?st1.0 = st1 and bn = bn and b = "bn_set_minimal_width b", OF e])
    show "\<not> t \<Longrightarrow> \<not> t \<and> (if t then st1(r := bn_set_minimal_width b) else st1(r := bn)) = st1"
      using e bn_wexpand_False [of mem "st1 r" "w + nw + 1" bn] by simp
  qed (use st1 val True_case set_minimal_width_spec [of b] in \<open>simp_all\<close>)
qed

lemma lshift1_step: "lshift1_step = shl_step 1"
  by (intro ext) (simp add: lshift1_step_def shl_step_def BN_BITS2_def)

lemma lshift1_spec:
  assumes ok: "bn_ok (st a)" "bn_ok (st r)" and c: "bn_canonical (st a)"
  shows "stores mem st r (bn_width (st a) + 1) (bn_val (st a) * 2) (BN_lshift1 mem st r a)"
proof -
  define st1 where "st1 = (if r \<noteq> a then st(r := (st r)\<lparr>bn_neg := bn_neg (st a)\<rparr>) else st)"
  define w where "w = bn_width (st a)"
  have st1: "st1(r := st r) = st" "bn_abs (st1 r) = bn_abs (st r)" "bn_dmax (st1 r) = bn_dmax (st r)" "bn_flags (st1 r) = bn_flags (st r)"
    "bn_ok (st1 r)" "bn_ok (st1 a)" "bn_width (st1 a) = w" "bn_d (st1 a) = bn_d (st a)" "bn_neg (st1 r) = bn_neg (st a)"
    using ok by (auto simp: st1_def bn_abs_def bn_ok_def w_def)
  obtain t bn where e: "bn_wexpand mem (st1 r) (w + 1) = (t, bn)" by (rule prod.exhaust)
  define f where "f = bn_d ((st1(r := bn)) a)"
  obtain rp c where l: "limb_loop lshift1_step (take w f) 0 = (rp, c)" by (rule prod.exhaust)
  define d where "d = rp @ drop w (bn_d bn)"
  define b where "b = (if c \<noteq> 0 then bn\<lparr>bn_d := d[w := 1], bn_width := w + 1\<rparr> else bn\<lparr>bn_d := d, bn_width := w\<rparr>)"
  have run: "BN_lshift1 mem st r a = (t, if t then st1(r := b) else st1(r := bn))"
    unfolding BN_lshift1_def st1_def [symmetric] Let_def st1(7) e prod.case l [unfolded f_def] b_def d_def
    by (cases t) (simp_all add: fun_upd_same)
  have True_case: "bn_ok b \<and> bn_abs b = bn_abs (st a) * 2 \<and> bn_neg b = bn_neg (st a) \<and> bn_flags b = bn_flags (st r)" if t
  proof -
    have e': "bn_wexpand mem (st1 r) (w + 1) = (True, bn)" using e that by simp
    note x = bn_wexpand_True [OF st1(5) e']
    have f: "take w f = take w (bn_d (st a))" "w \<le> length f"
      using wexpand_store [where st = st1 and r = r and x = a and k = w, OF st1(5,6) e'] st1(7,8) unfolding f_def by simp_all
    have l': "limb_loop (shl_step 1) (take w (bn_d (st a))) 0 = (rp, c)" using l f(1) by (simp add: lshift1_step)
    have s: "length rp = w" "limbs_val (rp @ [c]) = bn_abs (st a) * 2" "unat c < 2"
      using shl_loop_spec [OF _ _ l'] ok(1) by (simp_all add: w_def bn_ok_def bn_abs_def)
    have len: "w < length (bn_d bn)" using x(1,2) by (simp add: bn_ok_def)
    have d: "length d = length (bn_d bn)" "take w d = rp" "d = rp @ bn_d bn ! w # drop (Suc w) (bn_d bn)"
      using s(1) len by (simp_all add: d_def Cons_nth_drop_Suc)
    have "c \<noteq> 0 \<Longrightarrow> c = 1" using s(3) by (auto simp: word_unat_eq_iff)
    moreover have "take (Suc w) (d[w := 1]) = rp @ [1]" unfolding d(3) s(1) [symmetric] by (simp add: list_update_append)
    moreover have "limbs_val (rp @ [0]) = limbs_val rp" by (simp add: limbs_val_append)
    ultimately show ?thesis using s(2) d(1,2) len x(1,5,6) st1(4,9) by (auto simp: b_def bn_ok_def bn_abs_def)
  qed
  have val: "bn_val b = bn_val (st a) * 2" "bn_canonical b" if t
    using True_case [OF that] assms(3) by (simp_all add: bn_val_def bn_canonical_def)
  show ?thesis unfolding run w_def [symmetric]
  proof (rule stores_of [where ?st1.0 = st1 and bn = bn and b = b, OF e])
    show "\<not> t \<Longrightarrow> \<not> t \<and> (if t then st1(r := b) else st1(r := bn)) = st1"
      using e bn_wexpand_False [of mem "st1 r" "w + 1" bn] by simp
  qed (use st1 val True_case in \<open>simp_all\<close>)
qed

section \<open>Shifting to the right\<close>

text \<open>The same with the limbs from the bottom up, each taking in bits from the one above it.\<close>

fun shr :: "nat \<Rightarrow> limb list \<Rightarrow> limb list" where
  "shr k [] = []"
| "shr k [w] = [drop_bit k w]"
| "shr k (w # v # ws) = (drop_bit k w OR push_bit (64 - k) v) # shr k (v # ws)"

lemma shr_val: "0 < k \<Longrightarrow> k < 64 \<Longrightarrow> length (shr k ws) = length ws \<and> limbs_val (shr k ws) = limbs_val ws div 2 ^ k"
proof (induction k ws rule: shr.induct)
  case (2 k w)
  then show ?case by (simp add: unat_drop)
next
  case (3 k w v ws)
  define V where "V = limbs_val (v # ws)"
  have e: "limb_base = 2 ^ (64 - k) * 2 ^ k" using 3(2,3) by (simp add: limb_base_def flip: power_add)
  have c: "unat (drop_bit k w) < 2 ^ (64 - k)" using limb_less [of w] unfolding e unat_drop by (simp add: less_mult_imp_div_less)
  have k': "0 < 64 - k" "64 - k < 64" "64 - (64 - k) = k" using 3(2,3) by simp_all
  have "unat (push_bit (64 - k) v OR drop_bit k w) + limb_base * unat (drop_bit k v) = unat v * 2 ^ (64 - k) + unat (drop_bit k w)"
    using shl_step_spec(2) [OF k'(1,2) c, of v] unfolding k'(3) .
  then have hd: "unat (drop_bit k w OR push_bit (64 - k) v) + limb_base * (unat v div 2 ^ k) = unat v * 2 ^ (64 - k) + unat w div 2 ^ k"
    by (simp add: unat_drop or.commute)
  have ih: "limbs_val (shr k (v # ws)) = V div 2 ^ k" "length (shr k (v # ws)) = Suc (length ws)" using 3 by (simp_all add: V_def)
  have Vv: "V mod 2 ^ k = unat v mod 2 ^ k" 
  proof -
    have "V = unat v + 2 ^ k * (2 ^ (64 - k) * limbs_val ws)" by (simp add: V_def e)
    then show ?thesis by (simp only: mod_mult_self2)
  qed
  have "(unat w + limb_base * V) div 2 ^ k = unat w div 2 ^ k + 2 ^ (64 - k) * V" unfolding e by (simp add: mult.assoc mult.left_commute [of _ "2 ^ k"])
  also have "\<dots> = unat (drop_bit k w OR push_bit (64 - k) v) + limb_base * (V div 2 ^ k)"
  proof -
    have "2 ^ (64 - k) * V = 2 ^ (64 - k) * (2 ^ k * (V div 2 ^ k) + V mod 2 ^ k)" by simp
    also have "\<dots> = limb_base * (V div 2 ^ k) + 2 ^ (64 - k) * (unat v mod 2 ^ k)" unfolding e Vv by (simp only: algebra_simps)
    finally have "2 ^ (64 - k) * V = limb_base * (V div 2 ^ k) + 2 ^ (64 - k) * (unat v mod 2 ^ k)" .
    moreover have "unat v * 2 ^ (64 - k) = limb_base * (unat v div 2 ^ k) + 2 ^ (64 - k) * (unat v mod 2 ^ k)"
    proof -
      have "unat v * 2 ^ (64 - k) = 2 ^ (64 - k) * (2 ^ k * (unat v div 2 ^ k) + unat v mod 2 ^ k)" by (simp add: mult.commute)
      then show ?thesis unfolding e by (simp only: algebra_simps)
    qed
    ultimately show ?thesis using hd by linarith
  qed
  finally show ?case using ih by (simp add: V_def)
qed simp

lemma shr_map: "ws \<noteq> [] \<Longrightarrow> shr k ws = map (\<lambda>i. drop_bit k (ws ! i) OR push_bit (64 - k) (ws ! (i + 1))) [0..<length ws - 1] @ [drop_bit k (ws ! (length ws - 1))]"
proof (induction k ws rule: shr.induct)
  case (3 k w v ws)
  have "[0..<length (w # v # ws) - 1] = 0 # map Suc [0..<length (v # ws) - 1]" by (simp add: map_Suc_upt upt_conv_Cons del: upt_Suc)
  then show ?case using 3 by (simp add: comp_def del: upt_Suc)
qed simp_all

lemma rshift_core:
  assumes n: "s < num" "num \<le> length a" and k: "k < 64"
  shows "(if k = 0 then take (num - s) (drop s a)
      else map (\<lambda>i. drop_bit k (a ! i) OR push_bit (64 - k) (a ! (i + 1))) [s..<num - 1] @ [drop_bit k (a ! (num - 1))]) =
    (if k = 0 then drop s (take num a) else shr k (drop s (take num a)))"
proof (cases "k = 0")
  case False
  let ?us = "drop s (take num a)"
  have us: "?us \<noteq> []" "length ?us = num - s" using n by simp_all
  have nth: "?us ! i = a ! (s + i)" if "i < num - s" for i using that n by simp
  have "[s..<num - 1] = map (\<lambda>i. s + i) [0..<num - s - 1]" using n by (simp add: map_add_upt add.commute)
  then have "map (\<lambda>i. drop_bit k (a ! i) OR push_bit (64 - k) (a ! (i + 1))) [s..<num - 1] =
      map (\<lambda>i. drop_bit k (?us ! i) OR push_bit (64 - k) (?us ! (i + 1))) [0..<length ?us - 1]"
    using us(2) nth by (auto simp: comp_def)
  moreover have "a ! (num - 1) = ?us ! (length ?us - 1)" using n us(2) nth [of "num - s - 1"] by simp
  ultimately show ?thesis using False shr_map [OF us(1), of k] by simp
qed (simp add: drop_take)

lemma rshift_words_spec:
  assumes n: "num \<le> length a"
  shows "length (bn_rshift_words a shift num) = num \<and> limbs_val (bn_rshift_words a shift num) = limbs_val (take num a) div 2 ^ shift"
proof -
  define s k where "s = shift div 64" and "k = shift mod 64"
  have sk: "shift = 64 * s + k" "k < 64" by (simp_all add: s_def k_def)
  have pw: "(2 :: nat) ^ shift = limb_base ^ s * 2 ^ k" unfolding sk(1) limb_base_def by (simp only: power_add power_mult)
  have lt: "limbs_val (take num a) < limb_base ^ num" using n by (rule limbs_val_take_less)
  show ?thesis
  proof (cases "s < num")
    case False
    then have "limb_base ^ num \<le> limb_base ^ s" by (intro power_increasing) (simp_all add: Suc_leI)
    moreover have "limb_base ^ s \<le> limb_base ^ s * 2 ^ k" by simp
    ultimately have "limbs_val (take num a) < 2 ^ shift" using lt unfolding pw by linarith
    then show ?thesis using False by (simp add: bn_rshift_words_def BN_BITS2_def s_def)
  next
    case True
    let ?us = "drop s (take num a)"
    have "limbs_val (take num a) = limbs_val (take s (take num a)) + limb_base ^ s * limbs_val ?us"
      using limbs_val_take_drop [of "take num a" s] True n by simp
    moreover have "limbs_val (take s (take num a)) < limb_base ^ s" using True n by (intro limbs_val_take_less) simp
    ultimately have us: "limbs_val ?us = limbs_val (take num a) div limb_base ^ s" by simp
    have "bn_rshift_words a shift num = (if k = 0 then ?us else shr k ?us) @ replicate s 0"
      using True unfolding bn_rshift_words_def Let_def BN_BITS2_def s_def [symmetric] k_def [symmetric] rshift_core [OF True n sk(2)] by simp
    moreover have "limbs_val (if k = 0 then ?us else shr k ?us) = limbs_val ?us div 2 ^ k" "length (if k = 0 then ?us else shr k ?us) = num - s"
      using shr_val [of k ?us] sk(2) n by simp_all
    ultimately show ?thesis using True by (simp add: limbs_val_append us pw div_mult2_eq)
  qed
qed

lemma rshift1_words: "bn_rshift1_words a num = bn_rshift_words a 1 num"
  by (simp add: bn_rshift1_words_def bn_rshift_words_def BN_BITS2_def)

lemma stores_rshift:
  fixes st mem a r bn t
  assumes ok: "bn_ok (st a)" "bn_ok (st r)" and e: "bn_wexpand mem (st r) (bn_width (st a)) = (t, bn)"
    and d: "\<And>ws w. w \<le> length ws \<Longrightarrow> length (f ws w) = w \<and> limbs_val (f ws w) = limbs_val (take w ws) div 2 ^ n"
  defines "st' \<equiv> st(r := bn)"
  shows "stores mem st r (bn_width (st a)) (if bn_neg (st a) then - int (bn_abs (st a) div 2 ^ n) else int (bn_abs (st a) div 2 ^ n))
    (if t then (True, st'(r := bn_set_minimal_width ((st' r)\<lparr>bn_d := f (bn_d (st' a)) (bn_width (st' a)) @ drop (bn_width (st' a)) (bn_d (st' r)),
       bn_neg := bn_neg (st' a), bn_width := bn_width (st' a)\<rparr>))) else (False, st'))"
proof -
  define b where "b = (st' r)\<lparr>bn_d := f (bn_d (st' a)) (bn_width (st' a)) @ drop (bn_width (st' a)) (bn_d (st' r)), bn_neg := bn_neg (st' a), bn_width := bn_width (st' a)\<rparr>"
  have b: "bn_ok b \<and> bn_abs b = bn_abs (st a) div 2 ^ n \<and> bn_flags b = bn_flags (st r) \<and> bn_neg b = bn_neg (st a)" if t
  proof -
    have e': "bn_wexpand mem (st r) (bn_width (st a)) = (True, bn)" using e that by simp
    note x = bn_wexpand_True [OF ok(2) e']
    have w: "bn_width (st' a) = bn_width (st a)" "bn_neg (st' a) = bn_neg (st a)" using x(4,5) by (auto simp: st'_def)
    have ws: "take (bn_width (st a)) (bn_d (st' a)) = take (bn_width (st a)) (bn_d (st a))" "bn_width (st a) \<le> length (bn_d (st' a))"
      using wexpand_store [where st = st and r = r and x = a and k = "bn_width (st a)", OF ok(2,1) e'] by (simp_all add: st'_def)
    have r: "st' r = bn" by (simp add: st'_def)
    show ?thesis using d [OF ws(2)] ws x(1,2,6) w by (simp add: b_def r bn_ok_def bn_abs_def)
  qed
  have False_case: "\<not> t \<Longrightarrow> st' = st" using e bn_wexpand_False [of mem "st r" "bn_width (st a)" bn] by (simp add: st'_def)
  have res: "(if t then (True, st'(r := bn_set_minimal_width b)) else (False, st')) = (t, if t then st(r := bn_set_minimal_width b) else st)"
    using False_case by (simp add: st'_def)
  show ?thesis unfolding b_def [symmetric] res
    by (rule stores_of [where ?st1.0 = st and bn = bn and b = "bn_set_minimal_width b", OF e])
      (use b set_minimal_width_spec [of b] in \<open>simp_all add: bn_val_def [of b]\<close>)
qed

lemma rshift_spec:
  assumes ok: "bn_ok (st a)" "bn_ok (st r)" and n: "0 \<le> n"
  shows "stores mem st r (bn_width (st a)) (if bn_neg (st a) then - int (bn_abs (st a) div 2 ^ nat n) else int (bn_abs (st a) div 2 ^ nat n)) (BN_rshift mem st r a n)"
proof -
  obtain t bn where e: "bn_wexpand mem (st r) (bn_width (st a)) = (t, bn)" by (rule prod.exhaust)
  show ?thesis
    using stores_rshift [OF ok e, of "\<lambda>ws w. bn_rshift_words ws (nat n) w" "nat n"] rshift_words_spec n e
    by (cases t) (simp_all add: BN_rshift_def Let_def)
qed

lemma rshift1_spec:
  assumes ok: "bn_ok (st a)" "bn_ok (st r)"
  shows "stores mem st r (bn_width (st a)) (if bn_neg (st a) then - int (bn_abs (st a) div 2) else int (bn_abs (st a) div 2)) (BN_rshift1 mem st r a)"
proof -
  obtain t bn where e: "bn_wexpand mem (st r) (bn_width (st a)) = (t, bn)" by (rule prod.exhaust)
  have order: "b\<lparr>bn_d := d, bn_width := w, bn_neg := g\<rparr> = b\<lparr>bn_d := d, bn_neg := g, bn_width := w\<rparr>" for b d w g by simp
  have d: "length (bn_rshift1_words ws w) = w \<and> limbs_val (bn_rshift1_words ws w) = limbs_val (take w ws) div 2 ^ 1" if "w \<le> length ws" for ws w
    using rshift_words_spec [OF that, of 1] by (simp add: rshift1_words)
  note s = stores_rshift [OF ok e, where f = bn_rshift1_words and n = 1, OF d, unfolded power_one_right]
  show ?thesis using s e by (cases t) (simp_all add: BN_rshift1_def Let_def order del: if_split)
qed

section \<open>Single bits\<close>

lemma bit_limbs_val: "bit (limbs_val ws) n \<longleftrightarrow> n div 64 < length ws \<and> bit (ws ! (n div 64)) (n mod 64)"
proof (induction ws arbitrary: n)
  case (Cons w ws)
  show ?case
  proof (cases "n < 64")
    case True
    have e: "limb_base = 2 ^ n * 2 ^ (64 - n)" using True by (simp add: limb_base_def flip: power_add)
    have "limbs_val (w # ws) div 2 ^ n = unat w div 2 ^ n + 2 ^ (64 - n) * limbs_val ws"
      unfolding limbs_val.simps e by (simp add: mult.assoc)
    moreover have "even ((2 :: nat) ^ (64 - n))" using True by simp
    ultimately have "bit (limbs_val (w # ws)) n \<longleftrightarrow> bit (unat w) n" unfolding bit_iff_odd by simp
    then show ?thesis using True by (simp add: bit_unsigned_iff)
  next
    case False
    then have n: "n = 64 + (n - 64)" by simp
    have "limbs_val (w # ws) div 2 ^ n = limbs_val (w # ws) div limb_base div 2 ^ (n - 64)"
      by (subst n) (simp add: power_add limb_base_def div_mult2_eq)
    also have "limbs_val (w # ws) div limb_base = limbs_val ws" by simp
    finally have "bit (limbs_val (w # ws)) n \<longleftrightarrow> bit (limbs_val ws) (n - 64)" unfolding bit_iff_odd by simp
    moreover have "n div 64 = Suc ((n - 64) div 64)" "n mod 64 = (n - 64) mod 64" using False by (simp_all add: le_div_geq le_mod_geq)
    ultimately show ?thesis using Cons by simp
  qed
qed simp

lemma bit_abs: "bn_ok a \<Longrightarrow> bit (bn_abs a) n \<longleftrightarrow> n div 64 < bn_width a \<and> bit (bn_d a ! (n div 64)) (n mod 64)"
  by (auto simp: bn_abs_def bit_limbs_val bn_ok_def)

lemma bit_test: "drop_bit j (x :: limb) AND 1 \<noteq> 0 \<longleftrightarrow> bit x j"
  by (simp add: and_one_eq mod_2_eq_odd bit_iff_odd_drop_bit)

lemma is_bit_set_spec: "bn_ok a \<Longrightarrow> BN_is_bit_set a n \<longleftrightarrow> 0 \<le> n \<and> bit (bn_abs a) (nat n)"
  by (simp add: BN_is_bit_set_def bn_is_bit_set_words_def Let_def BN_BITS2_def bit_abs bit_test)

lemma div_mod_64: "(m :: nat) = n \<longleftrightarrow> m div 64 = n div 64 \<and> m mod 64 = n mod 64"
  by (metis div_mult_mod_eq)

lemma same_value_nonneg:
  assumes "bn_ok b" "bn_abs b = v"
  shows "bn_ok (bn_set_minimal_width b) \<and> bn_abs (bn_set_minimal_width b) = v \<and> bn_canonical (bn_set_minimal_width b)"
  using set_minimal_width_spec [OF assms(1)] assms(2) by simp

lemma clear_bit_spec:
  assumes ok: "bn_ok a" and n: "0 \<le> n" "nat n div 64 < bn_width a"
  shows "\<exists>a'. BN_clear_bit a n = (True, a') \<and> bn_ok a' \<and> bn_abs a' = unset_bit (nat n) (bn_abs a) \<and> bn_canonical a'"
proof -
  define i j where "i = nat n div 64" and "j = nat n mod 64"
  define b where "b = a\<lparr>bn_d := (bn_d a)[i := bn_d a ! i AND NOT (push_bit j 1)]\<rparr>"
  have b: "bn_ok b" "bn_width b = bn_width a" using ok by (simp_all add: b_def bn_ok_def)
  have i: "i < length (bn_d a)" using ok n by (simp add: i_def bn_ok_def)
  have "bn_abs b = unset_bit (nat n) (bn_abs a)"
  proof (rule bit_eqI)
    fix m :: nat
    have m: "m = nat n \<longleftrightarrow> m div 64 = i \<and> m mod 64 = j" using div_mod_64 [of m "nat n"] by (simp add: i_def j_def)
    have "bit (bn_abs b) m \<longleftrightarrow> bit (bn_abs a) m \<and> m \<noteq> nat n"
      using i unfolding bit_abs [OF b(1)] bit_abs [OF ok] b(2) m
      by (cases "m div 64 = i") (auto simp: b_def bit_simps)
    then show "bit (bn_abs b) m = bit (unset_bit (nat n) (bn_abs a)) m" by (auto simp: bit_unset_bit_iff)
  qed
  moreover have "BN_clear_bit a n = (True, bn_set_minimal_width b)" using n by (simp add: BN_clear_bit_def BN_BITS2_def Let_def b_def i_def j_def)
  ultimately show ?thesis using same_value_nonneg [OF b(1)] by simp
qed

lemma mask_bits_spec:
  assumes ok: "bn_ok a" and c: "bn_canonical a" and n: "0 \<le> n"
  shows "\<exists>a'. BN_mask_bits a n = (True, a') \<and> bn_ok a' \<and> bn_abs a' = take_bit (nat n) (bn_abs a) \<and> bn_canonical a'"
proof -
  define i j where "i = nat n div 64" and "j = nat n mod 64"
  have ij: "nat n = 64 * i + j" "j < 64" by (simp_all add: i_def j_def)
  show ?thesis
  proof (cases "i < bn_width a")
    case False
    have "limb_base ^ bn_width a \<le> 2 ^ nat n" unfolding limb_base_def power_mult [symmetric] ij(1) using False by (intro power_increasing) simp_all
    then have "bn_abs a < 2 ^ nat n" using abs_less [OF ok] by linarith
    then have "take_bit (nat n) (bn_abs a) = bn_abs a" by (simp add: take_bit_nat_eq_self)
    then show ?thesis using False ok c n by (simp add: BN_mask_bits_def BN_BITS2_def Let_def i_def)
  next
    case True
    define b where "b = (if j = 0 then a\<lparr>bn_width := i\<rparr> else a\<lparr>bn_width := i + 1, bn_d := (bn_d a)[i := bn_d a ! i AND NOT (push_bit j BN_MASK2)]\<rparr>)"
    have b: "bn_ok b" "bn_width b = (if j = 0 then i else i + 1)" using ok True by (auto simp: b_def bn_ok_def)
    have i: "i < length (bn_d a)" using ok True by (simp add: bn_ok_def)
    have "bn_abs b = take_bit (nat n) (bn_abs a)"
    proof (rule bit_eqI)
      fix m :: nat
      have lt: "m < nat n \<longleftrightarrow> m div 64 < i \<or> m div 64 = i \<and> m mod 64 < j"
      proof -
        define q r where "q = m div 64" and "r = m mod 64"
        then have q: "m = 64 * q + r" "r < 64" by simp_all
        have "64 * q + r < 64 * i + j \<longleftrightarrow> q < i \<or> q = i \<and> r < j" using q(2) ij(2) by (cases q i rule: linorder_cases) auto
        then show ?thesis unfolding ij(1) q_def [symmetric] r_def [symmetric] q(1) [symmetric] .
      qed
      have mask: "bit BN_MASK2 k \<longleftrightarrow> k < 64" for k
      proof -
        have "BN_MASK2 = - 1" by (simp add: BN_MASK2_def)
        moreover have "bit (- 1 :: limb) k \<longleftrightarrow> k < 64" by (auto dest: bit_imp_le_length)
        ultimately show ?thesis by metis
      qed
      have md: "m mod 64 < 64" by simp
      have "bit (bn_abs b) m \<longleftrightarrow> m < nat n \<and> bit (bn_abs a) m"
        using i True md unfolding bit_abs [OF b(1)] bit_abs [OF ok] b(2) lt
        by (cases "m div 64 = i"; cases "j = 0") (auto simp: b_def bit_simps mask)
      then show "bit (bn_abs b) m = bit (take_bit (nat n) (bn_abs a)) m" by (simp add: bit_take_bit_iff)
    qed
    moreover have "BN_mask_bits a n = (True, bn_set_minimal_width b)" using n True
      by (simp add: BN_mask_bits_def BN_BITS2_def Let_def b_def i_def j_def)
    ultimately show ?thesis using same_value_nonneg [OF b(1)] by simp
  qed
qed

lemma set_bit_word:
  assumes ok: "bn_ok a" and i: "nat n div 64 < bn_width a"
  defines "b \<equiv> a\<lparr>bn_d := (bn_d a)[nat n div 64 := bn_d a ! (nat n div 64) OR push_bit (nat n mod 64) 1]\<rparr>"
  shows "bn_ok b \<and> bn_abs b = set_bit (nat n) (bn_abs a)"
proof -
  have b: "bn_ok b" "bn_width b = bn_width a" using ok by (simp_all add: b_def bn_ok_def)
  have il: "nat n div 64 < length (bn_d a)" using ok i by (simp add: bn_ok_def)
  have "bn_abs b = set_bit (nat n) (bn_abs a)"
  proof (rule bit_eqI)
    fix m :: nat
    have m: "m = nat n \<longleftrightarrow> m div 64 = nat n div 64 \<and> m mod 64 = nat n mod 64" by (rule div_mod_64)
    have "bit (bn_abs b) m \<longleftrightarrow> bit (bn_abs a) m \<or> m = nat n"
      using il i unfolding bit_abs [OF b(1)] bit_abs [OF ok] b(2) m
      by (cases "m div 64 = nat n div 64") (auto simp: b_def bit_simps)
    then show "bit (bn_abs b) m = bit (set_bit (nat n) (bn_abs a)) m" by (auto simp: bit_set_bit_iff)
  qed
  with b show ?thesis by blast
qed

lemma set_bit_spec:
  assumes ok: "bn_ok a" and n: "0 \<le> n"
  shows "\<exists>ret a'. BN_set_bit mem a n = (ret, a') \<and> bn_ok a' \<and> bn_neg a' = bn_neg a \<and>
    bn_abs a' = (if ret then set_bit (nat n) (bn_abs a) else bn_abs a) \<and> (limb_room mem a (nat n div 64 + 1) \<longrightarrow> ret)"
proof (cases "bn_width a \<le> nat n div 64")
  case False
  define b where "b = a\<lparr>bn_d := (bn_d a)[nat n div 64 := bn_d a ! (nat n div 64) OR push_bit (nat n mod 64) 1]\<rparr>"
  have "BN_set_bit mem a n = (True, b)" using False n by (simp add: BN_set_bit_def Let_def BN_BITS2_def b_def)
  moreover have "bn_ok b \<and> bn_abs b = set_bit (nat n) (bn_abs a)" using set_bit_word [OF ok, of n] False by (simp add: b_def)
  moreover have "bn_neg b = bn_neg a" by (simp add: b_def)
  ultimately show ?thesis by auto
next
  case True
  define i where "i = nat n div 64"
  obtain t c where e: "bn_wexpand mem a (i + 1) = (t, c)" by (rule prod.exhaust)
  have room: "limb_room mem a (i + 1) \<longrightarrow> t" using e unfolding limb_room_def by (metis fst_conv order_refl)
  show ?thesis
  proof (cases t)
    case t: True
    note x = bn_wexpand_True [OF ok e [unfolded eq_True [THEN iffD2, OF t]]]
    define c' where "c' = c\<lparr>bn_d := take (bn_width c) (bn_d c) @ replicate (i + 1 - bn_width c) 0 @ drop (i + 1) (bn_d c), bn_width := i + 1\<rparr>"
    have w: "bn_width c \<le> i" using True x(4) by (simp add: i_def)
    have c': "bn_ok c'" "bn_width c' = i + 1" "bn_neg c' = bn_neg a" using x(1,2,5) w by (simp_all add: c'_def bn_ok_def)
    have "length (take (bn_width c) (bn_d c)) = bn_width c" using x(1) by (simp add: bn_ok_def)
    then have "take (i + 1) (bn_d c') = take (bn_width a) (bn_d a) @ replicate (i + 1 - bn_width c) 0" using w x(3,4) by (simp add: c'_def)
    then have a: "bn_abs c' = bn_abs a" using c'(2) by (simp add: bn_abs_def limbs_val_append)
    define b where "b = c'\<lparr>bn_d := (bn_d c')[nat n div 64 := bn_d c' ! (nat n div 64) OR push_bit (nat n mod 64) 1]\<rparr>"
    have "BN_set_bit mem a n = (True, b)" using True n e t by (simp add: BN_set_bit_def Let_def BN_BITS2_def b_def c'_def i_def [symmetric])
    moreover have "bn_ok b \<and> bn_abs b = set_bit (nat n) (bn_abs a)" using set_bit_word [OF c'(1), of n] c'(2) a by (simp add: b_def i_def)
    moreover have "bn_neg b = bn_neg a" using c'(3) by (simp add: b_def)
    ultimately show ?thesis by auto
  next
    case False
    then have "BN_set_bit mem a n = (False, a)" using True n e bn_wexpand_False [of mem a "i + 1" c] by (simp add: BN_set_bit_def Let_def BN_BITS2_def i_def [symmetric])
    then show ?thesis using ok room False by (auto simp: i_def)
  qed
qed

text \<open>The lowest bit that is set is \<open>j\<close> places above the bits already counted.\<close>

definition lowest_bit :: "limb \<Rightarrow> nat \<Rightarrow> bool" where
  "lowest_bit l j \<longleftrightarrow> bit l j \<and> (\<forall>i < j. \<not> bit l i)"

lemma low_zero_step_spec:
  assumes l: "lowest_bit l j" "j < 2 * s" and s: "0 < s" "s \<le> 32" and b: "unat bits + j = k" "k < 64"
  shows "case low_zero_step s (bits, l) of (bits', l') \<Rightarrow> \<exists>j'. lowest_bit l' j' \<and> j' < s \<and> unat bits' + j' = k"
proof -
  have z: "push_bit (BN_BITS2 - s) l = 0 \<longleftrightarrow> s \<le> j"
  proof
    assume z: "push_bit (BN_BITS2 - s) l = 0"
    show "s \<le> j"
    proof (rule ccontr)
      assume "\<not> s \<le> j"
      then have "bit (push_bit (BN_BITS2 - s) l) (64 - s + j)" using l s by (auto simp: bit_push_bit_iff lowest_bit_def BN_BITS2_def)
      then show False using z by simp
    qed
  next
    assume "s \<le> j"
    then show "push_bit (BN_BITS2 - s) l = 0" using l(1) s
      by (intro bit_word_eqI) (auto simp: bit_push_bit_iff lowest_bit_def BN_BITS2_def)
  qed
  have sel: "constant_time_select_w (- 1) x y = x" "constant_time_select_w 0 x y = y" for x y
    using select_w [of True x y] select_w [of False x y] by (simp_all add: ct_mask_def)
  show ?thesis
  proof (cases "s \<le> j")
    case True
    have "unat (of_nat s :: limb) = s" using s by (simp add: unat_of_nat take_bit_nat_eq_self)
    then have "unat (bits + of_nat s) = unat bits + s" using b True by (simp add: unat_limb_add limb_base_def)
    moreover have "lowest_bit (drop_bit s l) (j - s)" using l(1) True by (auto simp: lowest_bit_def bit_drop_bit_eq)
    ultimately show ?thesis using True l(2) b z
      by (auto simp: low_zero_step_def is_zero_w sel ct_mask_def Let_def intro!: exI [of _ "j - s"])
  next
    case False
    then show ?thesis using l b z by (auto simp: low_zero_step_def is_zero_w sel Let_def ct_mask_def intro!: exI [of _ j])
  qed
qed

lemma low_zero_word_spec:
  assumes "lowest_bit l j"
  shows "bn_count_low_zero_bits_word l = j"
proof -
  have j: "j < 2 * 32" using assms bit_imp_le_length [of l j] by (simp add: lowest_bit_def)
  define P where "P s p \<longleftrightarrow> (case p of (bits, l') \<Rightarrow> \<exists>j'. lowest_bit l' j' \<and> j' < s \<and> unat bits + j' = j)" for s and p :: "limb \<times> limb"
  have step: "P (2 * s) p \<Longrightarrow> 0 < s \<Longrightarrow> s \<le> 32 \<Longrightarrow> P s (low_zero_step s p)" for s p
    using low_zero_step_spec [of "snd p" _ s "fst p" j] j unfolding P_def by (auto split: prod.splits)
  have "P (2 * 32) (0, l)" using assms j by (auto simp: P_def)
  then have "P (2 * 16) (low_zero_step 32 (0, l))" using step [of 32] by simp
  then have "P (2 * 8) (low_zero_step 16 (low_zero_step 32 (0, l)))" using step [of 16] by simp
  then have "P (2 * 4) (low_zero_step 8 (low_zero_step 16 (low_zero_step 32 (0, l))))" using step [of 8] by simp
  then have "P (2 * 2) (low_zero_step 4 (low_zero_step 8 (low_zero_step 16 (low_zero_step 32 (0, l)))))" using step [of 4] by simp
  then have "P (2 * 1) (low_zero_step 2 (low_zero_step 4 (low_zero_step 8 (low_zero_step 16 (low_zero_step 32 (0, l))))))" using step [of 2] by simp
  then have "P 1 (low_zero_step 1 (low_zero_step 2 (low_zero_step 4 (low_zero_step 8 (low_zero_step 16 (low_zero_step 32 (0, l)))))))" using step [of 1] by simp
  then show ?thesis by (auto simp: P_def bn_count_low_zero_bits_word_def split: prod.splits)
qed

lemma low_zero_loop_saw: "low_zero_loop ds i (- 1) ret = ret"
  by (induction ds arbitrary: i) (simp_all add: Let_def)

lemma lowest_bit_exists: "l \<noteq> 0 \<Longrightarrow> \<exists>j. lowest_bit l j"
proof -
  assume "l \<noteq> 0"
  then obtain n where "bit l n" by (auto simp: bit_eq_iff)
  then have "bit l (LEAST n. bit l n)" by (rule LeastI)
  moreover have "\<not> bit l i" if "i < (LEAST n. bit l n)" for i using that by (rule not_less_Least)
  ultimately show ?thesis unfolding lowest_bit_def by blast
qed

lemma low_zero_loop_spec:
  "limbs_val ds \<noteq> 0 \<Longrightarrow> i + length ds \<le> 2 ^ 32 \<Longrightarrow>
    \<exists>k. unat (low_zero_loop ds i 0 0) = i * 64 + k \<and> bit (limbs_val ds) k \<and> (\<forall>m < k. \<not> bit (limbs_val ds) m)"
proof (induction ds arbitrary: i)
  case (Cons d ds)
  show ?case
  proof (cases "d = 0")
    case True
    have run: "low_zero_loop (d # ds) i 0 0 = low_zero_loop ds (i + 1) 0 0" using True by (simp add: Let_def is_zero_w ct_mask_def)
    have "limbs_val ds \<noteq> 0" using Cons.prems(1) True by simp
    then obtain k where k: "unat (low_zero_loop ds (i + 1) 0 0) = (i + 1) * 64 + k" "bit (limbs_val ds) k" "\<forall>m < k. \<not> bit (limbs_val ds) m"
      using Cons.IH [of "i + 1"] Cons.prems(2) by auto
    have b: "bit (limbs_val (d # ds)) m \<longleftrightarrow> 64 \<le> m \<and> bit (limbs_val ds) (m - 64)" for m
    proof (cases "m < 64")
      case True
      then show ?thesis using \<open>d = 0\<close> by (simp add: bit_limbs_val [where n = m] del: limbs_val.simps)
    next
      case False
      then have "m div 64 = Suc ((m - 64) div 64)" "m mod 64 = (m - 64) mod 64" by (simp_all add: le_div_geq le_mod_geq)
      then show ?thesis using False by (simp add: bit_limbs_val del: limbs_val.simps)
    qed
    show ?thesis using k unfolding run b by (intro exI [of _ "64 + k"]) auto
  next
    case False
    then obtain j where j: "lowest_bit d j" using lowest_bit_exists by blast
    have j64: "j < 64" using j bit_imp_le_length [of d j] by (simp add: lowest_bit_def)
    have run: "low_zero_loop (d # ds) i 0 0 = of_nat (i * 64 + j)"
      using False low_zero_word_spec [OF j] by (simp add: Let_def is_zero_w ct_mask_def low_zero_loop_saw BN_BITS2_def)
    have "unat (of_nat x :: limb) = x" if "x < 2 ^ 64" for x using that by (simp add: unat_of_nat take_bit_nat_eq_self)
    moreover have "i * 64 + j < 2 ^ 64" using Cons.prems(2) j64 by simp
    ultimately have "unat (low_zero_loop (d # ds) i 0 0) = i * 64 + j" unfolding run by blast
    moreover have "bit (limbs_val (d # ds)) m \<longleftrightarrow> bit d m" if "m < 64" for m using that by (simp add: bit_limbs_val [of "d # ds"] del: limbs_val.simps)
    ultimately show ?thesis using j j64 by (intro exI [of _ j]) (auto simp: lowest_bit_def)
  qed
qed simp

lemma count_low_zero_bits_spec:
  assumes "bn_ok a" "bn_width a \<le> 2 ^ 32"
  shows "if bn_abs a = 0 then BN_count_low_zero_bits a = 0
    else bit (bn_abs a) (BN_count_low_zero_bits a) \<and> (\<forall>m < BN_count_low_zero_bits a. \<not> bit (bn_abs a) m)"
proof -
  have "low_zero_loop ds i 0 0 = 0" if "limbs_val ds = 0" for ds i
    using that by (induction ds arbitrary: i) (simp_all add: Let_def is_zero_w ct_mask_def unat_eq_0)
  then show ?thesis
    using low_zero_loop_spec [of "take (bn_width a) (bn_d a)" 0] assms by (auto simp: BN_count_low_zero_bits_def bn_abs_def)
qed

end
