(* ===== verification/BN_Div.thy ===== *)
theory BN_Div
  imports BN_Shift
begin

text \<open>
  Division of big integers by words and by powers of two, the reduction steps of modular arithmetic, and the binary long division
  behind \<open>bn_div_consttime\<close>: \<^verbatim>\<open>crypto/fipsmodule/bn/div.c\<close>; and \<open>BN_mul_word\<close> of \<^verbatim>\<open>mul.c\<close>. The double-word division is the one of the
  compiler, as on arm64.
\<close>

unbundle bit_operations_syntax

section \<open>Operations\<close>

definition BN_mul_word :: "allocator \<Rightarrow> BIGNUM \<Rightarrow> limb \<Rightarrow> bool \<times> BIGNUM" where
  "BN_mul_word mem bn w =
     (if bn_width bn = 0 then (True, bn)
      else if w = 0 then (True, BN_zero bn)
      else case bn_mul_words (bn_d bn) (bn_width bn) w of
          (r, ll) \<Rightarrow>
            let bn = bn\<lparr>bn_d := r @ drop (bn_width bn) (bn_d bn)\<rparr>
            in if ll \<noteq> 0 then
                 (case bn_wexpand mem bn (bn_width bn + 1) of
                    (False, bn) \<Rightarrow> (False, bn)
                  | (True, bn) \<Rightarrow> (True, bn\<lparr>bn_d := (bn_d bn)[bn_width bn := ll], bn_width := bn_width bn + 1\<rparr>))
               else (True, bn))"

definition bn_div_rem_words :: "limb \<Rightarrow> limb \<Rightarrow> limb \<Rightarrow> limb \<times> limb" where
  "bn_div_rem_words n0 n1 d0 =
     (let n = push_bit BN_BITS2 (ucast n0) OR ucast n1 :: dlimb;
          quotient = ucast (n div ucast d0)
      in (quotient, n1 - quotient * d0))"

text \<open>The loop of \<open>BN_div_word\<close> starts at the top limb, the end of the list.\<close>

fun div_word_loop :: "limb list \<Rightarrow> limb \<Rightarrow> limb list \<times> limb" where
  "div_word_loop [] w = ([], 0)"
| "div_word_loop (l # ls) w =
     (case div_word_loop ls w of
        (ds, ret) \<Rightarrow> (case bn_div_rem_words ret l w of (d, unused_rem) \<Rightarrow> (d # ds, l - d * w)))"

definition BN_div_word :: "allocator \<Rightarrow> BIGNUM \<Rightarrow> limb \<Rightarrow> limb \<times> BIGNUM" where
  "BN_div_word mem a w =
     (if w = 0 then (- 1, a)
      else if bn_width a = 0 then (0, a)
      else
        let j = BN_BITS2 - BN_num_bits_word w;
            w = push_bit j w
        in case BN_lshift mem (\<lambda>_. a) 0 0 (int j) of
             (False, st) \<Rightarrow> (- 1, st 0)
           | (True, st) \<Rightarrow>
               let a = st 0;
                   (d, ret) = div_word_loop (take (bn_width a) (bn_d a)) w;
                   a = a\<lparr>bn_d := d @ drop (bn_width a) (bn_d a)\<rparr>
               in (drop_bit j ret, bn_set_minimal_width a))"

fun mod_word_loop :: "limb list \<Rightarrow> limb \<Rightarrow> dlimb" where
  "mod_word_loop [] w = 0"
| "mod_word_loop (d # ds) w = (push_bit BN_BITS2 (mod_word_loop ds w) OR ucast d) mod ucast w"

definition BN_mod_word :: "BIGNUM \<Rightarrow> limb \<Rightarrow> limb" where
  "BN_mod_word a w = (if w = 0 then - 1 else ucast (mod_word_loop (take (bn_width a) (bn_d a)) w))"

definition BN_mod_pow2 :: "allocator \<Rightarrow> bn_store \<Rightarrow> bn_addr \<Rightarrow> bn_addr \<Rightarrow> nat \<Rightarrow> bool \<times> bn_store" where
  "BN_mod_pow2 mem st r a e =
     (if e = 0 \<or> bn_width (st a) = 0 then (True, st(r := BN_zero (st r)))
      else
        let num_words = 1 + (e - 1) div BN_BITS2
        in if bn_width (st a) < num_words then
             (if r = a then (True, st) else case BN_copy mem (st r) (st a) of (ret, bn) \<Rightarrow> (ret, st(r := bn)))
           else case bn_wexpand mem (st r) num_words of
               (False, bn) \<Rightarrow> (False, st(r := bn))
             | (True, bn) \<Rightarrow>
                 let st = st(r := bn);
                     d = take num_words (bn_d (st a)) @ drop num_words (bn_d (st r));
                     top_word_exponent = e mod (BN_BYTES * 8);
                     d = (if top_word_exponent \<noteq> 0 then d[num_words - 1 := d ! (num_words - 1) AND (push_bit top_word_exponent 1 - 1)] else d)
                 in (True, st(r := bn_set_minimal_width ((st r)\<lparr>bn_d := d, bn_neg := bn_neg (st a), bn_width := num_words\<rparr>))))"

text \<open>\<open>BN_value_one\<close> lives at an address of its own.\<close>

definition BN_nnmod_pow2 :: "allocator \<Rightarrow> bn_store \<Rightarrow> bn_addr \<Rightarrow> bn_addr \<Rightarrow> bn_addr \<Rightarrow> nat \<Rightarrow> bool \<times> bn_store" where
  "BN_nnmod_pow2 mem st value_one r a e =
     (case BN_mod_pow2 mem st r a e of
        (False, st) \<Rightarrow> (False, st)
      | (True, st) \<Rightarrow>
          if BN_is_zero (st r) \<or> \<not> bn_neg (st r) then (True, st)
          else
            let num_words = 1 + (e - 1) div BN_BITS2
            in case bn_wexpand mem (st r) num_words of
                 (False, bn) \<Rightarrow> (False, st(r := bn))
               | (True, bn) \<Rightarrow>
                   let d = take (bn_width bn) (bn_d bn) @ replicate (num_words - bn_width bn) 0 @ drop num_words (bn_d bn);
                       d = map (\<lambda>w. NOT w) (take num_words d) @ drop num_words d;
                       top_word_exponent = e mod BN_BITS2;
                       d = (if top_word_exponent \<noteq> 0 then d[num_words - 1 := d ! (num_words - 1) AND (push_bit top_word_exponent 1 - 1)] else d);
                       bn = bn_set_minimal_width (bn\<lparr>bn_d := d, bn_neg := False, bn_width := num_words\<rparr>)
                   in BN_add mem (st(r := bn)) r r value_one)"

text \<open>Reductions of a number below twice the modulus; \<open>None\<close> is a failed assertion.\<close>

definition bn_reduce_once :: "limb list \<Rightarrow> limb \<Rightarrow> limb list \<Rightarrow> nat \<Rightarrow> (limb list \<times> limb) option" where
  "bn_reduce_once a carry m num =
     (case bn_sub_words a m num of
        (r, borrow) \<Rightarrow>
          let carry = carry - borrow
          in if carry = 0 \<or> carry = - 1 then Some (bn_select_words carry a r num, carry) else None)"

definition bn_reduce_once_in_place :: "limb list \<Rightarrow> limb \<Rightarrow> limb list \<Rightarrow> nat \<Rightarrow> (limb list \<times> limb) option" where
  "bn_reduce_once_in_place r carry m num =
     (case bn_sub_words r m num of
        (tmp, borrow) \<Rightarrow>
          let carry = carry - borrow
          in if carry = 0 \<or> carry = - 1 then Some (bn_select_words carry r tmp num, carry) else None)"

definition bn_mod_sub_words :: "limb list \<Rightarrow> limb list \<Rightarrow> limb list \<Rightarrow> nat \<Rightarrow> limb list" where
  "bn_mod_sub_words a b m num =
     (case bn_sub_words a b num of
        (r, borrow) \<Rightarrow>
          let tmp = fst (bn_add_words r m num)
          in bn_select_words (0 - borrow) tmp r num)"

definition bn_mod_add_words :: "limb list \<Rightarrow> limb list \<Rightarrow> limb list \<Rightarrow> nat \<Rightarrow> limb list option" where
  "bn_mod_add_words a b m num =
     (case bn_add_words a b num of
        (r, carry) \<Rightarrow> (case bn_reduce_once_in_place r carry m num of None \<Rightarrow> None | Some (r, _) \<Rightarrow> Some r))"

text \<open>The two loops of \<open>bn_div_consttime\<close>: over the bits of a limb of the numerator, and over its limbs, both from the top down.\<close>

fun div_bits_loop :: "limb \<Rightarrow> limb list \<Rightarrow> nat \<Rightarrow> nat \<Rightarrow> limb list \<times> limb \<Rightarrow> (limb list \<times> limb) option" where
  "div_bits_loop n m num 0 (r, q) = Some (r, q)"
| "div_bits_loop n m num (Suc b) (r, q) =
     (case bn_add_words r r num of
        (r, carry) \<Rightarrow>
          let r = r[0 := r ! 0 OR (drop_bit b n AND 1)]
          in case bn_reduce_once_in_place r carry m num of
               None \<Rightarrow> None
             | Some (r, subtracted) \<Rightarrow> div_bits_loop n m num b (r, q OR push_bit b (NOT subtracted AND 1)))"

fun div_words_loop :: "limb list \<Rightarrow> limb list \<Rightarrow> nat \<Rightarrow> limb list \<Rightarrow> (limb list \<times> limb list) option" where
  "div_words_loop [] m num r = Some ([], r)"
| "div_words_loop (n # ns) m num r =
     (case div_words_loop ns m num r of
        None \<Rightarrow> None
      | Some (qs, r) \<Rightarrow>
          (case div_bits_loop n m num BN_BITS2 (r, 0) of
             None \<Rightarrow> None
           | Some (r, q) \<Rightarrow> Some (q # qs, r)))"


section \<open>Multiplication and division by a word\<close>

lemma mul_word_spec:
  assumes ok: "bn_ok bn" and e: "BN_mul_word mem bn w = (ret, bn')"
  shows "bn_ok bn'" "ret \<Longrightarrow> bn_val bn' = int (unat w) * bn_val bn" "ret \<Longrightarrow> bn_canonical bn \<Longrightarrow> bn_canonical bn'"
    "limb_room mem bn (bn_width bn + 1) \<Longrightarrow> ret" "bn_neg bn' \<Longrightarrow> bn_neg bn" "bn_flags bn' = bn_flags bn"
proof -
  have "bn_ok bn' \<and> (ret \<longrightarrow> bn_abs bn' = unat w * bn_abs bn \<and> (bn_neg bn' = bn_neg bn \<or> \<not> bn_neg bn' \<and> bn_abs bn' = 0)) \<and>
      (limb_room mem bn (bn_width bn + 1) \<longrightarrow> ret) \<and> (bn_neg bn' \<longrightarrow> bn_neg bn) \<and> bn_flags bn' = bn_flags bn \<and> (bn_width bn \<noteq> 0 \<longrightarrow> w = 0 \<longrightarrow> \<not> bn_neg bn')"
  proof (cases "bn_width bn = 0 \<or> w = 0")
    case True
    then show ?thesis using e ok by (cases "bn_width bn = 0") (auto simp: BN_mul_word_def BN_zero_def bn_ok_def bn_abs_def)
  next
    case False
    obtain r ll where m: "bn_mul_words (bn_d bn) (bn_width bn) w = (r, ll)" by (rule prod.exhaust)
    have wl: "bn_width bn \<le> length (bn_d bn)" using ok by (simp add: bn_ok_def)
    note s = bn_mul_words_spec [OF wl m]
    define b where "b = bn\<lparr>bn_d := r @ drop (bn_width bn) (bn_d bn)\<rparr>"
    have b: "bn_ok b" "take (bn_width bn) (bn_d b) = r" "bn_width b = bn_width bn" "bn_dmax b = bn_dmax bn" "bn_flags b = bn_flags bn" "bn_neg b = bn_neg bn"
      using ok s(1) wl by (simp_all add: b_def bn_ok_def)
    obtain t c where x: "bn_wexpand mem b (bn_width bn + 1) = (t, c)" by (rule prod.exhaust)
    have run: "(ret, bn') = (if ll \<noteq> 0 then (if t then (True, c\<lparr>bn_d := (bn_d c)[bn_width c := ll], bn_width := bn_width c + 1\<rparr>) else (False, c)) else (True, b))"
      using e False x unfolding BN_mul_word_def m prod.case Let_def b_def [symmetric] b(3) by (cases t) auto
    have room: "limb_room mem bn (bn_width bn + 1) \<Longrightarrow> t"
      using limb_room_cong [of b bn mem "bn_width bn + 1"] b(4,5) x by (auto simp: limb_room_def)
    have grown: "bn_ok c \<and> bn_width c = bn_width bn \<and> bn_neg c = bn_neg bn \<and> bn_flags c = bn_flags bn \<and> take (bn_width bn) (bn_d c) = r \<and> bn_width bn < length (bn_d c)" if t
    proof -
      have x': "bn_wexpand mem b (bn_width bn + 1) = (True, c)" using x that by simp
      show ?thesis using bn_wexpand_True [OF b(1) x'] b by (auto simp: bn_ok_def)
    qed
    have kept: "\<not> t \<Longrightarrow> c = b" using x by (auto dest: bn_wexpand_False)
    show ?thesis
    proof (cases "ll = 0")
      case True
      then show ?thesis using run s b False by (simp add: bn_abs_def)
    next
      case nz: False
      show ?thesis
      proof (cases t)
        case True
        then have "take (Suc (bn_width bn)) ((bn_d c)[bn_width bn := ll]) = r @ [ll]" using grown by (simp add: take_Suc_conv_app_nth)
        then show ?thesis using run nz True grown s False by (simp add: bn_ok_def bn_abs_def limbs_val_append)
      next
        case f: False
        then have "\<not> ret \<and> bn' = b" using run nz kept by simp
        then show ?thesis using f room b False by auto
      qed
    qed
  qed
  then show "bn_ok bn'" "ret \<Longrightarrow> bn_val bn' = int (unat w) * bn_val bn" "ret \<Longrightarrow> bn_canonical bn \<Longrightarrow> bn_canonical bn'"
    "limb_room mem bn (bn_width bn + 1) \<Longrightarrow> ret" "bn_neg bn' \<Longrightarrow> bn_neg bn" "bn_flags bn' = bn_flags bn"
    by (auto simp: bn_val_def bn_canonical_def unsigned_eq_0_iff bn_abs_def simp del: of_nat_unat)
qed

lemma val_abs: "bn_val x = (if s then - int v else int v) \<Longrightarrow> v \<noteq> 0 \<Longrightarrow> bn_abs x = v \<and> bn_neg x = s"
  by (cases "bn_neg x"; cases s) (simp_all add: bn_val_def)

text \<open>A double limb put together from two limbs.\<close>

lemma dlimb_join:
  assumes h: "unat h < limb_base"
  shows "unat (push_bit 64 h OR ucast l :: dlimb) = limb_base * unat h + unat (l :: limb)"
proof -
  have "push_bit 64 h AND (ucast l :: dlimb) = 0" by (intro bit_word_eqI) (auto simp: bit_simps dest: bit_imp_le_length)
  then have "push_bit 64 h OR ucast l = push_bit 64 h + (ucast l :: dlimb)" by (simp add: or_disjoint_add)
  moreover have lt: "limb_base * unat h + unat l < 2 ^ 128"
  proof -
    have "limb_base * unat h + unat l < limb_base * (unat h + 1)" by simp
    also have "\<dots> \<le> limb_base * limb_base" using h by (intro mult_le_mono2) simp
    finally show ?thesis by (simp add: limb_base_def)
  qed
  moreover have "unat (push_bit 64 h) = limb_base * unat h"
  proof -
    have "unat (push_bit 64 h) = unat h * 2 ^ 64 mod 2 ^ 128" by (simp add: push_bit_eq_mult unat_word_ariths)
    then show ?thesis using lt by (simp add: limb_base_def)
  qed
  ultimately show ?thesis by (simp add: unat_word_ariths)
qed

lemma div_rem_words_spec:
  assumes lt: "n0 < d0" and e: "bn_div_rem_words n0 n1 d0 = (q, r)"
  shows "unat q = (limb_base * unat n0 + unat n1) div unat d0" "unat r = (limb_base * unat n0 + unat n1) mod unat d0" "r = n1 - q * d0"
proof -
  define N D where "N = limb_base * unat n0 + unat n1" and "D = unat d0"
  have n: "unat (push_bit 64 (ucast n0) OR ucast n1 :: dlimb) = N" unfolding N_def by (subst dlimb_join) simp_all
  have d: "unat n0 + 1 \<le> D" "0 < D" using lt by (simp_all add: D_def word_less_nat_alt)
  have "limb_base * (unat n0 + 1) \<le> limb_base * D" using d(1) by (rule mult_le_mono2)
  then have "N < limb_base * D" using limb_less [of n1] by (simp add: N_def del: limb_less)
  then have ql: "N div D < limb_base" by (simp add: less_mult_imp_div_less)
  have q: "q = ucast ((push_bit 64 (ucast n0) OR ucast n1 :: dlimb) div ucast d0)" "r = n1 - q * d0"
    using e by (auto simp: bn_div_rem_words_def Let_def BN_BITS2_def)
  have "unat ((push_bit 64 (ucast n0) OR ucast n1 :: dlimb) div ucast d0) = N div D" by (simp only: unat_div n unat_ucast_limb D_def)
  then have uq: "unat q = N div D" using ql unfolding q(1) unsigned_ucast_eq by (simp add: take_bit_nat_eq_self limb_base_def)
  have "(of_nat limb_base :: limb) = 0" by (simp add: limb_base_def)
  then have "n1 = of_nat N" by (simp add: N_def)
  moreover have "of_nat (N div D) = q" by (simp flip: uq)
  then have "q * d0 = of_nat (N div D * D)" by (simp add: D_def)
  ultimately have "r = of_nat N - of_nat (N div D * D)" using q(2) by (simp only:)
  also have "\<dots> = of_nat (N - N div D * D)" by (simp only: of_nat_diff div_times_less_eq_dividend)
  also have "N - N div D * D = N mod D" by (simp add: minus_div_mult_eq_mod)
  finally have r: "r = of_nat (N mod D)" .
  have "N mod D < limb_base" using limb_less [of d0] mod_less_divisor [OF d(2), of N] unfolding D_def by linarith
  then have "unat r = N mod D" using take_bit_nat_eq_self [of "N mod D" 64] unfolding r limb_base_def by (simp add: unsigned_of_nat)
  then show "unat q = (limb_base * unat n0 + unat n1) div unat d0" "unat r = (limb_base * unat n0 + unat n1) mod unat d0" "r = n1 - q * d0"
    using uq q(2) by (simp_all add: N_def D_def)
qed

text \<open>One step of schoolbook long division.\<close>

lemma long_division:
  fixes m :: nat
  assumes "0 < m"
  shows "(l + b * v) div m = (b * (v mod m) + l) div m + b * (v div m)" "(l + b * v) mod m = (b * (v mod m) + l) mod m"
proof -
  have "l + b * v = (b * (v mod m) + l) + m * (b * (v div m))"
  proof -
    have "b * v = b * (m * (v div m) + v mod m)" by simp
    then show ?thesis by (simp only: algebra_simps)
  qed
  then show "(l + b * v) div m = (b * (v mod m) + l) div m + b * (v div m)" "(l + b * v) mod m = (b * (v mod m) + l) mod m"
    using assms by (simp_all only: div_mult_self2 mod_mult_self2)
qed

lemma div_word_loop_spec:
  assumes w: "w \<noteq> 0"
  shows "div_word_loop ls w = (ds, ret) \<Longrightarrow>
    length ds = length ls \<and> limbs_val ds = limbs_val ls div unat w \<and> unat ret = limbs_val ls mod unat w"
proof (induction ls arbitrary: ds ret)
  case (Cons l ls)
  have w0: "0 < unat w" using w by (simp add: unat_gt_0)
  obtain ds' R where r: "div_word_loop ls w = (ds', R)" by (rule prod.exhaust)
  obtain d x where q: "bn_div_rem_words R l w = (d, x)" by (rule prod.exhaust)
  have ih: "length ds' = length ls" "limbs_val ds' = limbs_val ls div unat w" "unat R = limbs_val ls mod unat w" using Cons.IH [OF r] by simp_all
  have "R < w" using ih(3) w0 by (simp add: word_less_nat_alt)
  note s = div_rem_words_spec [OF this q]
  show ?case using Cons.prems r q s ih long_division [OF w0, of "unat l" limb_base "limbs_val ls"] by auto
qed simp

lemma shifted_word:
  assumes "w \<noteq> 0" "j = 64 - BN_num_bits_word w"
  shows "unat (push_bit j w) = unat w * 2 ^ j" "push_bit j w \<noteq> 0" "j < 64"
proof -
  have b: "unat w < 2 ^ BN_num_bits_word w" "BN_num_bits_word w \<le> 64" "0 < BN_num_bits_word w"
    using bit_length_bounds [of "unat w"] bit_length_le [of "unat w" 64] limb_less [of w] assms(1)
    by (auto simp: num_bits_word_spec limb_base_def unsigned_eq_0_iff bit_length.simps [of "unat w"])
  then show j: "j < 64" using assms(2) by simp
  have "unat w * 2 ^ j < 2 ^ BN_num_bits_word w * 2 ^ j" using b(1) by simp
  also have "\<dots> = 2 ^ 64" using b(2) assms(2) by (simp flip: power_add)
  finally have lt: "unat w * 2 ^ j < 2 ^ 64" .
  have "(2 :: nat) ^ j < 2 ^ 64" using j by (intro power_strict_increasing) simp_all
  then have "unat ((2 :: limb) ^ j) = 2 ^ j" using unat_of_nat [of "2 ^ j", where 'a = 64] by simp
  then show u: "unat (push_bit j w) = unat w * 2 ^ j" using lt by (simp add: push_bit_eq_mult unat_word_ariths(2))
  then have "unat (push_bit j w) \<noteq> 0" using assms(1) by (simp add: unsigned_eq_0_iff)
  then show "push_bit j w \<noteq> 0" by (metis unsigned_0)
qed

lemma div_word_spec:
  assumes ok: "bn_ok a" and c: "bn_canonical a" and w: "w \<noteq> 0" and e: "BN_div_word mem a w = (ret, a')"
  shows "if ret = - 1 then bn_abs a' = bn_abs a
     else unat ret = bn_abs a mod unat w \<and> bn_ok a' \<and> bn_canonical a' \<and> bn_flags a' = bn_flags a \<and>
       bn_val a' = (if bn_neg a then - int (bn_abs a div unat w) else int (bn_abs a div unat w))"
    "limb_room mem a (bn_width a + 1) \<Longrightarrow> ret \<noteq> - 1"
proof -
  define j where "j = 64 - BN_num_bits_word w"
  note sw = shifted_word [OF w j_def]
  define v where "v = push_bit j w"
  obtain t st where l: "BN_lshift mem (\<lambda>_. a) 0 0 (int j) = (t, st)" by (rule prod.exhaust)
  obtain d R where lp: "div_word_loop (take (bn_width (st 0)) (bn_d (st 0))) v = (d, R)" by (rule prod.exhaust)
  define b where "b = (st 0)\<lparr>bn_d := d @ drop (bn_width (st 0)) (bn_d (st 0))\<rparr>"
  have run: "(ret, a') = (if bn_width a = 0 then (0, a) else if t then (drop_bit j R, bn_set_minimal_width b) else (- 1, st 0))"
    using e w l lp unfolding BN_div_word_def Let_def BN_BITS2_def j_def [symmetric] v_def [symmetric] by (cases t) (auto simp: b_def split: if_splits)
  have "stores mem (\<lambda>_. a) 0 (bn_width a + 1) (bn_val a * 2 ^ j) (t, st)"
    using lshift_spec [of "\<lambda>_. a" 0 0 "int j" mem] ok sw(3) l by simp
  then have s: "if t then bn_ok (st 0) \<and> bn_canonical (st 0) \<and> bn_val (st 0) = bn_val a * 2 ^ j \<and> bn_flags (st 0) = bn_flags a else bn_abs (st 0) = bn_abs a"
    "limb_room mem a (bn_width a + 1) \<Longrightarrow> t"
    by (simp_all add: stores_def)
  have divided: "drop_bit j R \<noteq> - 1 \<and> unat (drop_bit j R) = bn_abs a mod unat w \<and> bn_ok b \<and> bn_abs b = bn_abs a div unat w \<and> bn_neg b = bn_neg a \<and> bn_flags b = bn_flags a"
    if t and "bn_abs a \<noteq> 0"
  proof -
    have abs: "bn_abs (st 0) = bn_abs a * 2 ^ j \<and> bn_neg (st 0) = bn_neg a"
    proof -
      have "bn_val (st 0) = (if bn_neg a then - int (bn_abs a * 2 ^ j) else int (bn_abs a * 2 ^ j))" "bn_abs a * 2 ^ j \<noteq> 0"
        using s(1) that by (simp_all add: bn_val_def)
      then show ?thesis by (rule val_abs)
    qed
    have ok0: "bn_ok (st 0)" using s(1) that by simp
    have v: "v \<noteq> 0" "unat v = unat w * 2 ^ j" using sw by (simp_all add: v_def)
    note lo = div_word_loop_spec [OF v(1) lp]
    have len: "length d = bn_width (st 0)" using lo ok0 by (simp add: bn_ok_def)
    have "limbs_val d = bn_abs a * 2 ^ j div (unat w * 2 ^ j)" "unat R = bn_abs a * 2 ^ j mod (unat w * 2 ^ j)"
      using lo abs v(2) by (simp_all add: bn_abs_def)
    then have vals: "limbs_val d = bn_abs a div unat w" "unat R = (bn_abs a mod unat w) * 2 ^ j"
      by (simp_all add: mod_mult_mult2)
    then have ur: "unat (drop_bit j R) = bn_abs a mod unat w" by (simp add: unat_drop)
    have "bn_abs a mod unat w < unat w" using w by (simp add: unat_gt_0)
    moreover have "unat (- 1 :: limb) = limb_base - 1" by (simp add: limb_base_def unsigned_minus_1_eq_mask mask_eq_exp_minus_1)
    ultimately have "unat (drop_bit j R) \<noteq> unat (- 1 :: limb)" using ur limb_less [of w] by linarith
    then have "drop_bit j R \<noteq> - 1" by auto
    then show ?thesis using ur vals(1) len ok0 abs s(1) that by (simp add: b_def bn_ok_def bn_abs_def)
  qed
  have zero: "drop_bit j R = 0 \<and> bn_ok b \<and> bn_abs b = 0 \<and> bn_flags b = bn_flags a" if t and "bn_abs a = 0"
  proof -
    have ok0: "bn_ok (st 0)" and "bn_abs (st 0) = 0" using s(1) that by (auto simp: bn_val_def split: if_splits)
    moreover have v: "v \<noteq> 0" using sw by (simp_all add: v_def)
    moreover note lo = div_word_loop_spec [OF v(1) lp]
    moreover have "length d = bn_width (st 0)" using lo ok0 by (simp add: bn_ok_def)
    ultimately have "unat R = 0" "bn_ok b \<and> bn_abs b = 0 \<and> bn_flags b = bn_flags a" using s(1) that by (simp_all add: b_def bn_ok_def bn_abs_def)
    then show ?thesis by (simp add: unsigned_eq_0_iff)
  qed
  have z: "bn_width a = 0 \<Longrightarrow> bn_abs a = 0 \<and> \<not> bn_neg a" using c by (auto simp: bn_abs_def bn_canonical_def)
  show "if ret = - 1 then bn_abs a' = bn_abs a
     else unat ret = bn_abs a mod unat w \<and> bn_ok a' \<and> bn_canonical a' \<and> bn_flags a' = bn_flags a \<and>
       bn_val a' = (if bn_neg a then - int (bn_abs a div unat w) else int (bn_abs a div unat w))"
  proof (cases "bn_width a = 0")
    case True
    then show ?thesis using run ok c z by (simp add: bn_val_def)
  next
    case False
    then show ?thesis
      using run divided zero s(1) set_minimal_width_spec [of b] by (cases t; cases "bn_abs a = 0") (auto simp: bn_val_def [of b])
  qed
  show "limb_room mem a (bn_width a + 1) \<Longrightarrow> ret \<noteq> - 1"
    using run s(2) divided zero by (cases "bn_abs a = 0") (auto split: if_splits)
qed

lemma mod_word_loop_spec:
  assumes w: "w \<noteq> 0"
  shows "unat (mod_word_loop ds w) = limbs_val ds mod unat w"
proof (induction ds)
  case (Cons d ds)
  have w0: "0 < unat w" using w by (simp add: unat_gt_0)
  have "unat (mod_word_loop ds w) < limb_base" unfolding Cons using mod_less_divisor [OF w0, of "limbs_val ds"] limb_less [of w] by linarith
  then have "unat (mod_word_loop (d # ds) w) = (limb_base * (limbs_val ds mod unat w) + unat d) mod unat w"
    by (simp add: unat_mod BN_BITS2_def dlimb_join Cons)
  then show ?case using long_division(2) [OF w0, of "unat d" limb_base "limbs_val ds"] by simp
qed simp

lemma mod_word_spec: "w \<noteq> 0 \<Longrightarrow> unat (BN_mod_word a w) = bn_abs a mod unat w"
proof -
  assume w: "w \<noteq> 0"
  then have "0 < unat w" by (simp add: unat_gt_0)
  then have "bn_abs a mod unat w < limb_base" using mod_less_divisor [of "unat w" "bn_abs a"] limb_less [of w] by linarith
  then show ?thesis using w mod_word_loop_spec [OF w, of "take (bn_width a) (bn_d a)"]
    by (simp add: BN_mod_word_def bn_abs_def unsigned_ucast_eq take_bit_nat_eq_self limb_base_def)
qed

section \<open>Modular reduction\<close>

lemma reduce_words:
  assumes n: "length a = num" "length m = num" and x: "limbs_val a + limb_base ^ num * unat carry < 2 * limbs_val m"
    and s: "bn_sub_words a m num = (r, borrow)"
  shows "carry - borrow = ct_mask (limbs_val a + limb_base ^ num * unat carry < limbs_val m)" "length r = num"
    "limbs_val (if limbs_val a + limb_base ^ num * unat carry < limbs_val m then a else r) = (limbs_val a + limb_base ^ num * unat carry) mod limbs_val m"
proof -
  have le: "num \<le> length a" "num \<le> length m" using n by simp_all
  note sub = bn_sub_words_spec [OF le s]
  have bounds: "limbs_val a < limb_base ^ num" "limbs_val m < limb_base ^ num" "limbs_val r < limb_base ^ num"
    using limbs_val_less [of a] limbs_val_less [of m] limbs_val_less [of r] n sub(1) by simp_all
  have eq: "limbs_val r + limbs_val m = limbs_val a + limb_base ^ num * unat borrow" using sub(3) n by simp
  have "\<not> 2 \<le> unat carry"
  proof
    assume "2 \<le> unat carry"
    then have "limb_base ^ num * 2 \<le> limb_base ^ num * unat carry" by (intro mult_le_mono2)
    then show False using x bounds(2) by linarith
  qed
  then have c: "carry = 0 \<or> carry = 1" by (auto simp: word_unat_eq_iff)
  have b: "borrow = 0 \<or> borrow = 1" using sub(2) by (auto simp: word_unat_eq_iff)
  show len: "length r = num" by (rule sub(1))
  consider "carry = 0" "borrow = 0" | "carry = 0" "borrow = 1" | "carry = 1" "borrow = 1" | "carry = 1" "borrow = 0" using b c by blast
  then show "carry - borrow = ct_mask (limbs_val a + limb_base ^ num * unat carry < limbs_val m)"
    by cases (use eq bounds x in \<open>simp_all add: ct_mask_def\<close>)
  from \<open>carry = 0 \<or> carry = 1\<close> b show "limbs_val (if limbs_val a + limb_base ^ num * unat carry < limbs_val m then a else r) = (limbs_val a + limb_base ^ num * unat carry) mod limbs_val m"
    by (elim disjE) (use eq bounds x in \<open>simp_all add: mod_if [of "limbs_val a"] mod_if [of "limbs_val a + limb_base ^ num"]\<close>)
qed

lemma reduce_once_spec:
  assumes "length a = num" "length m = num" "limbs_val a + limb_base ^ num * unat carry < 2 * limbs_val m"
  shows "\<exists>r. bn_reduce_once a carry m num = Some (r, ct_mask (limbs_val a + limb_base ^ num * unat carry < limbs_val m)) \<and>
    length r = num \<and> limbs_val r = (limbs_val a + limb_base ^ num * unat carry) mod limbs_val m"
proof -
  obtain r borrow where s: "bn_sub_words a m num = (r, borrow)" by (rule prod.exhaust)
  note red = reduce_words [OF assms s]
  have c: "ct_mask P = 0 \<or> ct_mask P = (- 1 :: limb)" for P by (simp add: ct_mask_def)
  show ?thesis
    unfolding bn_reduce_once_def s prod.case Let_def red(1) if_P [OF c] bn_select_words_spec [OF assms(1) red(2)]
    using red(2,3) assms(1) by auto
qed

lemma reduce_in_place: "bn_reduce_once_in_place r carry m num = bn_reduce_once r carry m num"
  by (simp add: bn_reduce_once_in_place_def bn_reduce_once_def)

lemma mod_add_words_spec:
  assumes n: "length a = num" "length b = num" "length m = num" and l: "limbs_val a < limbs_val m" "limbs_val b < limbs_val m"
  shows "\<exists>r. bn_mod_add_words a b m num = Some r \<and> length r = num \<and> limbs_val r = (limbs_val a + limbs_val b) mod limbs_val m"
proof -
  obtain r c where s: "bn_add_words a b num = (r, c)" by (rule prod.exhaust)
  have le: "num \<le> length a" "num \<le> length b" using n by simp_all
  have r: "length r = num" "limbs_val r + limb_base ^ num * unat c = limbs_val a + limbs_val b"
    using bn_add_words_spec [OF le s] n by simp_all
  have "limbs_val r + limb_base ^ num * unat c < 2 * limbs_val m" unfolding r(2) using l by linarith
  from reduce_once_spec [OF r(1) n(3) this] show ?thesis unfolding bn_mod_add_words_def s prod.case reduce_in_place r(2) by auto
qed

lemma mod_sub_words_spec:
  assumes n: "length a = num" "length b = num" "length m = num" and l: "limbs_val a < limbs_val m" "limbs_val b < limbs_val m"
  shows "length (bn_mod_sub_words a b m num) = num"
    "int (limbs_val (bn_mod_sub_words a b m num)) = (int (limbs_val a) - int (limbs_val b)) mod int (limbs_val m)"
proof -
  obtain r c where s: "bn_sub_words a b num = (r, c)" by (rule prod.exhaust)
  obtain t d where p: "bn_add_words r m num = (t, d)" by (rule prod.exhaust)
  have le: "num \<le> length a" "num \<le> length b" using n by simp_all
  note r = bn_sub_words_spec [OF le s]
  have le': "num \<le> length r" "num \<le> length m" using r(1) n by simp_all
  note t = bn_add_words_spec [OF le' p]
  have c: "c = 0 \<or> c = 1" using r(2) by (auto simp: word_unat_eq_iff)
  then have "0 - c = ct_mask (c = 1)" by (auto simp: ct_mask_def)
  then have run: "bn_mod_sub_words a b m num = (if c = 1 then t else r)"
    unfolding bn_mod_sub_words_def s prod.case p fst_conv Let_def using bn_select_words_spec [OF t(1) r(1)] by simp
  show "length (bn_mod_sub_words a b m num) = num" using run r(1) t(1) by simp
  have e: "limbs_val r + limbs_val b = limbs_val a + limb_base ^ num * unat c" "limbs_val t + limb_base ^ num * unat d = limbs_val r + limbs_val m"
    using r(3) t(3) n r(1) by simp_all
  have bounds: "limbs_val r < limb_base ^ num" "limbs_val t < limb_base ^ num" "limbs_val m < limb_base ^ num"
    using limbs_val_less [of r] limbs_val_less [of t] limbs_val_less [of m] r(1) t(1) n(3) by simp_all
  from c show "int (limbs_val (bn_mod_sub_words a b m num)) = (int (limbs_val a) - int (limbs_val b)) mod int (limbs_val m)"
  proof
    assume c0: "c = 0"
    then have "int (limbs_val r) = int (limbs_val a) - int (limbs_val b)" using e(1) by simp
    moreover have "limbs_val r < limbs_val m" using e(1) c0 l by simp
    ultimately show ?thesis using run c0 by (simp flip: zmod_int)
  next
    assume c1: "c = 1"
    have "d = 0 \<or> d = 1" using t(2) by (auto simp: word_unat_eq_iff)
    moreover have "d \<noteq> 0"
    proof
      assume "d = 0"
      then have "limbs_val t + limbs_val b = limbs_val a + limbs_val m + limb_base ^ num" using e c1 by simp
      then show False using bounds l by linarith
    qed
    ultimately have "limbs_val t + limbs_val b = limbs_val a + limbs_val m" using e c1 by auto
    then have v: "int (limbs_val t) = int (limbs_val a) - int (limbs_val b) + int (limbs_val m)" by linarith
    moreover have "limbs_val t < limbs_val m"
    proof -
      have "limbs_val a + limb_base ^ num = limbs_val r + limbs_val b" using e(1) c1 by simp
      then have "limbs_val a < limbs_val b" using bounds(1) by linarith
      then show ?thesis using v by linarith
    qed
    ultimately have "int (limbs_val t) = (int (limbs_val a) - int (limbs_val b) + int (limbs_val m)) mod int (limbs_val m)" by (simp flip: v zmod_int)
    then show ?thesis using run c1 by simp
  qed
qed

section \<open>Binary long division\<close>

lemma set_low_bit:
  fixes c :: limb
  assumes "limbs_val ws + limb_base ^ length ws * unat c = 2 * v" "ws \<noteq> []"
  shows "length (ws[0 := ws ! 0 OR of_bool b]) = length ws" "limbs_val (ws[0 := ws ! 0 OR of_bool b]) = limbs_val ws + of_bool b"
proof -
  obtain x xs where ws: "ws = x # xs" using assms(2) by (cases ws) auto
  have "unat x + limb_base * (limbs_val xs + limb_base ^ length xs * unat c) = 2 * v" using assms(1) unfolding ws by (simp add: algebra_simps)
  moreover have "even limb_base" by (simp add: limb_base_def)
  ultimately have "even (unat x)" by (metis dvd_triv_left even_add even_mult_iff)
  then have "\<not> bit (unat x) 0" by (simp only: bit_0) simp
  then have "\<not> bit x 0" by (simp only: bit_unsigned_iff) simp
  then have "x AND of_bool b = 0" by (intro bit_word_eqI) (auto simp: bit_simps)
  then have o: "x OR of_bool b = x + of_bool b" by (simp add: or_disjoint_add)
  have "unat x + 1 < limb_base" 
  proof -
    have "unat x \<noteq> limb_base - 1" using \<open>even (unat x)\<close> by (auto simp: limb_base_def)
    then show ?thesis using limb_less [of x] by linarith
  qed
  then have "unat (x + of_bool b) = unat x + of_bool b" by (simp add: unat_limb_add)
  then show "length (ws[0 := ws ! 0 OR of_bool b]) = length ws" "limbs_val (ws[0 := ws ! 0 OR of_bool b]) = limbs_val ws + of_bool b"
    by (simp_all add: ws o)
qed

lemma set_quotient_bit:
  fixes q :: limb
  assumes b: "b < 64" and z: "take_bit (Suc b) (unat q) = 0"
  shows "unat (q OR push_bit b (of_bool p)) = unat q + 2 ^ b * of_bool p" "take_bit b (unat (q OR push_bit b (of_bool p))) = 0"
proof -
  have "\<not> bit (take_bit (Suc b) (unat q)) b" by (simp add: z)
  then have "\<not> bit (unat q) b" by (simp add: bit_take_bit_iff)
  then have d: "unat q AND push_bit b (of_bool p) = 0" by (intro bit_eqI) (auto simp: bit_simps)
  have "unat (push_bit b (of_bool p :: limb)) = push_bit b (of_bool p)"
  proof -
    have "(2 :: nat) ^ b < 2 ^ 64" using b by (intro power_strict_increasing) simp_all
    then show ?thesis using unat_of_nat [of "2 ^ b", where 'a = 64] by (cases p) (simp_all add: push_bit_eq_mult)
  qed
  then have "unat (q OR push_bit b (of_bool p)) = unat q OR push_bit b (of_bool p)" by (simp only: unsigned_or_eq)
  also have "\<dots> = unat q + push_bit b (of_bool p)" using d by (rule disjunctive_add_eq_or [symmetric])
  finally show e: "unat (q OR push_bit b (of_bool p)) = unat q + 2 ^ b * of_bool p" by (simp add: push_bit_eq_mult mult.commute)
  have "2 ^ Suc b dvd unat q" using z by (simp only: take_bit_eq_mod dvd_eq_mod_eq_0)
  then have "2 ^ b dvd unat q" by (rule power_le_dvd) simp
  then show "take_bit b (unat (q OR push_bit b (of_bool p))) = 0" unfolding e take_bit_eq_mod by simp
qed

lemma div_bits_loop_spec:
  assumes m: "length m = num"
  shows "b \<le> 64 \<Longrightarrow> length r = num \<Longrightarrow> limbs_val r < limbs_val m \<Longrightarrow> take_bit b (unat q) = 0 \<Longrightarrow>
    \<exists>r' q'. div_bits_loop n m num b (r, q) = Some (r', q') \<and> length r' = num \<and>
      limbs_val r' = (limbs_val r * 2 ^ b + take_bit b (unat n)) mod limbs_val m \<and>
      unat q' = unat q + (limbs_val r * 2 ^ b + take_bit b (unat n)) div limbs_val m"
proof (induction b arbitrary: r q)
  case (Suc b)
  define M R where "M = limbs_val m" and "R = limbs_val r"
  have M: "R < M" "0 < M" using Suc.prems(3) by (simp_all add: M_def R_def)
  obtain s c where add: "bn_add_words r r num = (s, c)" by (rule prod.exhaust)
  have le: "num \<le> length r" using Suc.prems(2) by simp
  have s: "length s = num" "limbs_val s + limb_base ^ num * unat c = 2 * R"
    using bn_add_words_spec [OF le le add] Suc.prems(2) by (simp_all add: R_def mult_2)
  have ne: "s \<noteq> []" using s(1) m M by (auto simp: M_def)
  define s' where "s' = s[0 := s ! 0 OR of_bool (bit n b)]"
  define x where "x = 2 * R + of_bool (bit n b)"
  have s': "length s' = num" "limbs_val s' + limb_base ^ num * unat c = x"
    using set_low_bit [of s c R "bit n b"] s ne by (simp_all add: s'_def x_def)
  have x: "x < 2 * M" using M by (simp add: x_def)
  obtain r2 where r2: "bn_reduce_once s' c m num = Some (r2, ct_mask (x < M))" "length r2 = num" "limbs_val r2 = x mod M"
    using reduce_once_spec [OF s'(1) m, of c] x s'(2) by (auto simp: M_def)
  define q2 where "q2 = q OR push_bit b (of_bool (\<not> x < M))"
  have "of_bool (\<not> x < M) = x div M"
  proof (cases "x < M")
    case False
    then have "1 \<le> x div M" using M(2) by (metis div_le_mono div_self not_less less_irrefl)
    moreover have "x div M < 2" using x by (simp add: less_mult_imp_div_less)
    ultimately show ?thesis using False by simp
  qed simp
  then have q2: "unat q2 = unat q + 2 ^ b * (x div M)" "take_bit b (unat q2) = 0"
    using set_quotient_bit [of b q "\<not> x < M"] Suc.prems(1,4) by (simp_all add: q2_def)
  have low: "drop_bit b n AND 1 = of_bool (bit n b)" by (simp add: and_one_eq bit_iff_odd_drop_bit mod_2_eq_odd)
  have msk: "NOT (ct_mask P) AND 1 = (of_bool (\<not> P) :: limb)" for P by (simp add: ct_mask_def)
  have run: "div_bits_loop n m num (Suc b) (r, q) = div_bits_loop n m num b (r2, q2)"
    by (simp only: div_bits_loop.simps add prod.case Let_def low s'_def [symmetric] reduce_in_place r2(1) option.case msk q2_def)
  have "limbs_val r2 < limbs_val m" using r2(3) M(2) by (simp add: M_def)
  then obtain r' q' where ih: "div_bits_loop n m num b (r2, q2) = Some (r', q')" "length r' = num"
      "limbs_val r' = (x mod M * 2 ^ b + take_bit b (unat n)) mod M" "unat q' = unat q2 + (x mod M * 2 ^ b + take_bit b (unat n)) div M"
    using Suc.IH [of r2 q2] Suc.prems(1) r2(2,3) q2(2) by (auto simp: M_def)
  have "take_bit (Suc b) (unat n) = 2 ^ b * of_bool (bit n b) + take_bit b (unat n)"
    using Suc.prems(1) by (simp add: take_bit_Suc_from_most bit_unsigned_iff)
  then have tot: "R * 2 ^ Suc b + take_bit (Suc b) (unat n) = take_bit b (unat n) + 2 ^ b * x"
    by (simp add: x_def distrib_left)
  show ?case unfolding run ih(1) R_def [symmetric] M_def [symmetric] tot
    using ih(2-4) q2(1) long_division [OF M(2), of "take_bit b (unat n)" "2 ^ b" x] by (simp add: mult.commute)
qed simp

lemma div_words_loop_spec:
  assumes m: "length m = num" and r: "length r = num" "limbs_val r < limbs_val m"
  shows "\<exists>qs r'. div_words_loop ns m num r = Some (qs, r') \<and> length qs = length ns \<and> length r' = num \<and>
    limbs_val r' = (limbs_val ns + limb_base ^ length ns * limbs_val r) mod limbs_val m \<and>
    limbs_val qs = (limbs_val ns + limb_base ^ length ns * limbs_val r) div limbs_val m"
proof (induction ns)
  case Nil
  then show ?case using r by simp
next
  case (Cons n ns)
  define M V where "M = limbs_val m" and "V = limbs_val ns + limb_base ^ length ns * limbs_val r"
  have M: "0 < M" using r(2) by (simp add: M_def)
  obtain qs r1 where ih: "div_words_loop ns m num r = Some (qs, r1)" "length qs = length ns" "length r1 = num"
    "limbs_val r1 = V mod M" "limbs_val qs = V div M" using Cons by (auto simp: V_def M_def)
  have lt: "limbs_val r1 < limbs_val m" using ih(4) M by (simp add: M_def)
  have tb: "take_bit 64 (unat n) = unat n" using limb_less [of n] by (simp add: take_bit_nat_eq_self limb_base_def)
  obtain r2 q where w: "div_bits_loop n m num 64 (r1, 0) = Some (r2, q)" "length r2 = num"
    "limbs_val r2 = (limb_base * (V mod M) + unat n) mod M" "unat q = (limb_base * (V mod M) + unat n) div M"
    using div_bits_loop_spec [OF m _ ih(3) lt, of 64 0 n] unfolding tb by (auto simp: ih(4) M_def limb_base_def mult.commute)
  have tot: "limbs_val (n # ns) + limb_base ^ length (n # ns) * limbs_val r = unat n + limb_base * V" by (simp add: V_def distrib_left)
  show ?case unfolding tot M_def [symmetric]
    using ih(1,2,5) w long_division [OF M, of "unat n" limb_base V] by (simp add: BN_BITS2_def)
qed

section \<open>Reduction modulo a power of two\<close>

lemma less_limb_bit: "(m :: nat) < 64 * i + j \<longleftrightarrow> m div 64 < i \<or> m div 64 = i \<and> m mod 64 < j" if "j < 64"
proof -
  define q r where "q = m div 64" and "r = m mod 64"
  then have q: "m = 64 * q + r" "r < 64" by simp_all
  have "64 * q + r < 64 * i + j \<longleftrightarrow> q < i \<or> q = i \<and> r < j" using q(2) that by (cases q i rule: linorder_cases) auto
  then show ?thesis unfolding q_def [symmetric] r_def [symmetric] q(1) [symmetric] .
qed

text \<open>The number of limbs that hold \<open>e\<close> bits, and the mask for the top one.\<close>

lemma mask_top_limb:
  assumes e: "0 < e" and n: "n = 1 + (e - 1) div 64" "length ws = n"
  shows "limbs_val (if e mod 64 \<noteq> 0 then ws[n - 1 := ws ! (n - 1) AND (push_bit (e mod 64) 1 - 1)] else ws) = take_bit e (limbs_val ws)"
proof (cases "e mod 64 = 0")
  case True
  then have "e = 64 * n" using e n(1) by (metis Suc_eq_plus1 Suc_pred' add.commute div_Suc mod_Suc_eq mult_div_mod_eq add_0_right mod_0_imp_dvd dvd_mult_div_cancel)
  then have "limbs_val ws < 2 ^ e" using limbs_val_less [of ws] by (simp add: n(2) limb_base_def power_mult)
  then show ?thesis using True by (simp add: take_bit_nat_eq_self)
next
  case False
  define i j where "i = e div 64" and "j = e mod 64"
  have ij: "e = 64 * i + j" "j < 64" "0 < j" using False by (simp_all add: i_def j_def)
  have ni: "n = i + 1" using n(1) ij by simp
  have m: "(push_bit j 1 - 1 :: limb) = mask j" by (simp add: mask_eq_exp_minus_1)
  have "limbs_val (ws[i := ws ! i AND (push_bit j 1 - 1)]) = take_bit e (limbs_val ws)"
  proof (rule bit_eqI)
    fix m :: nat
    have "m mod 64 < 64" by simp
    then show "bit (limbs_val (ws[i := ws ! i AND (push_bit j 1 - 1)])) m = bit (take_bit e (limbs_val ws)) m"
      using n(2) ni ij(2) unfolding bit_take_bit_iff bit_limbs_val ij(1) less_limb_bit [OF ij(2)] m
      by (cases "m div 64 = i") (auto simp: bit_and_iff bit_mask_iff)
  qed
  then show ?thesis using False ni by (simp add: j_def)
qed

lemma limb_room_D: "limb_room mem bn n \<Longrightarrow> bn_wexpand mem bn m = (t, b) \<Longrightarrow> m \<le> n \<Longrightarrow> t"
  unfolding limb_room_def by (metis fst_conv)

lemma mod_pow2_copy:
  assumes ok: "bn_ok (st a)" "bn_ok (st r)" and c: "bn_canonical (st a)" and e: "e \<noteq> 0" "bn_width (st a) \<noteq> 0" "bn_width (st a) < 1 + (e - 1) div 64"
  shows "stores mem st r (bn_width (st a)) (if bn_neg (st a) then - int (bn_abs (st a) mod 2 ^ e) else int (bn_abs (st a) mod 2 ^ e)) (BN_mod_pow2 mem st r a e)"
proof -
  have "limb_base ^ bn_width (st a) \<le> 2 ^ e" unfolding limb_base_def power_mult [symmetric] using e by (intro power_increasing) simp_all
  then have "bn_abs (st a) < 2 ^ e" using abs_less [OF ok(1)] by linarith
  then have v: "(if bn_neg (st a) then - int (bn_abs (st a) mod 2 ^ e) else int (bn_abs (st a) mod 2 ^ e)) = bn_val (st a)" by (simp add: bn_val_def)
  obtain t b where x: "bn_wexpand mem (st r) (bn_width (st a)) = (t, b)" by (rule prod.exhaust)
  define b' where "b' = b\<lparr>bn_d := take (bn_width (st a)) (bn_d (st a)) @ drop (bn_width (st a)) (bn_d b), bn_width := bn_width (st a), bn_neg := bn_neg (st a)\<rparr>"
  have nz: "\<not> (e = 0 \<or> bn_width (st a) = 0)" using e by simp
  have run: "BN_mod_pow2 mem st r a e = (if r = a then (True, st) else (t, st(r := if t then b' else b)))"
    unfolding BN_mod_pow2_def if_not_P [OF nz] BN_BITS2_def Let_def if_P [OF e(3)] BN_copy_def x b'_def by (cases t) simp_all
  have bt: "bn_ok b' \<and> bn_canonical b' \<and> bn_val b' = bn_val (st a) \<and> bn_flags b' = bn_flags (st r)" if t
  proof -
    have x': "bn_wexpand mem (st r) (bn_width (st a)) = (True, b)" using x that by simp
    have "take (bn_width (st a)) (bn_d b') = take (bn_width (st a)) (bn_d (st a))" using ok(1) by (simp add: b'_def bn_ok_def)
    then show ?thesis using bn_wexpand_True [OF ok(2) x'] ok(1) c
      by (auto simp: b'_def bn_ok_def bn_canonical_def bn_val_def bn_abs_def)
  qed
  show ?thesis unfolding v run
  proof (cases "r = a")
    case False
    show "stores mem st r (bn_width (st a)) (bn_val (st a)) (if r = a then (True, st) else (t, st(r := if t then b' else b)))"
      unfolding if_not_P [OF False]
      by (rule stores_of [where ?st1.0 = st and bn = b and b = b', OF x])
        (use bt x bn_wexpand_False [of mem "st r" "bn_width (st a)" b] in \<open>simp_all\<close>)
  qed (use ok c in \<open>simp add: stores_def\<close>)
qed

lemma low_limbs_mod:
  assumes "n \<le> length ws" "e \<le> 64 * n"
  shows "limbs_val (take n ws) mod 2 ^ e = limbs_val ws mod 2 ^ e"
proof -
  have "limbs_val ws = limbs_val (take n ws) + limb_base ^ n * limbs_val (drop n ws)" using limbs_val_take_drop [of ws n] assms(1) by simp
  moreover have "limb_base ^ n = 2 ^ e * 2 ^ (64 * n - e)" unfolding limb_base_def power_mult [symmetric] power_add [symmetric] using assms(2) by simp
  ultimately have "limbs_val ws = limbs_val (take n ws) + 2 ^ e * (2 ^ (64 * n - e) * limbs_val (drop n ws))" by simp
  then show ?thesis by (metis mod_mult_self2)
qed

lemma mod_pow2_mask:
  assumes ok: "bn_ok (st a)" "bn_ok (st r)" and e: "e \<noteq> 0" and le: "1 + (e - 1) div 64 \<le> bn_width (st a)"
  shows "stores mem st r (1 + (e - 1) div 64) (if bn_neg (st a) then - int (bn_abs (st a) mod 2 ^ e) else int (bn_abs (st a) mod 2 ^ e)) (BN_mod_pow2 mem st r a e)"
proof -
  define n where "n = 1 + (e - 1) div 64"
  obtain t bn where x: "bn_wexpand mem (st r) n = (t, bn)" by (rule prod.exhaust)
  define st1 where "st1 = st(r := bn)"
  define d where "d = take n (bn_d (st1 a)) @ drop n (bn_d bn)"
  define d' where "d' = (if e mod 64 \<noteq> 0 then d[n - 1 := d ! (n - 1) AND (push_bit (e mod 64) 1 - 1)] else d)"
  define b where "b = bn\<lparr>bn_d := d', bn_neg := bn_neg (st1 a), bn_width := n\<rparr>"
  have nz: "\<not> (e = 0 \<or> bn_width (st a) = 0)" "\<not> bn_width (st a) < n" "BN_BYTES * 8 = 64" using e le by (simp_all add: n_def BN_BYTES_def)
  have run: "BN_mod_pow2 mem st r a e = (t, if t then st(r := bn_set_minimal_width b) else st(r := bn))"
    unfolding BN_mod_pow2_def if_not_P [OF nz(1)] BN_BITS2_def Let_def n_def [symmetric] if_not_P [OF nz(2)] x nz(3) b_def d'_def d_def st1_def
    by (cases t) simp_all
  have bt: "bn_ok b \<and> bn_abs b = bn_abs (st a) mod 2 ^ e \<and> bn_neg b = bn_neg (st a) \<and> bn_flags b = bn_flags (st r)" if t
  proof -
    have x': "bn_wexpand mem (st r) n = (True, bn)" using x that by simp
    note w = bn_wexpand_True [OF ok(2) x']
    have s: "take n (bn_d (st1 a)) = take n (bn_d (st a))"
      using wexpand_store [where st = st and r = r and x = a and k = n, OF ok(2,1) x'] le by (simp add: st1_def n_def)
    have n0: "n - 1 < n" "n \<le> length (bn_d bn)" using w(1,2) by (simp_all add: n_def bn_ok_def)
    define ws where "ws = take n (bn_d (st a))"
    have lw: "length ws = n" using ok(1) le by (simp add: ws_def bn_ok_def n_def)
    have dw: "d = ws @ drop n (bn_d bn)" using s by (simp add: d_def ws_def)
    have tk: "take n d' = (if e mod 64 \<noteq> 0 then ws[n - 1 := ws ! (n - 1) AND (push_bit (e mod 64) 1 - 1)] else ws)"
      using lw n0 by (simp add: d'_def dw list_update_append nth_append)
    have "limbs_val (take n d') = take_bit e (limbs_val ws)" unfolding tk using e by (intro mask_top_limb [OF _ n_def lw]) simp
    also have "\<dots> = bn_abs (st a) mod 2 ^ e"
      using low_limbs_mod [of n "take (bn_width (st a)) (bn_d (st a))" e] le ok(1) e by (simp add: take_bit_eq_mod ws_def bn_abs_def bn_ok_def n_def)
    finally have "limbs_val (take n d') = bn_abs (st a) mod 2 ^ e" .
    moreover have "length d' = length (bn_d bn)" using lw n0(2) by (simp add: d'_def dw)
    moreover have "bn_neg (st1 a) = bn_neg (st a)" using w(5) by (simp add: st1_def)
    ultimately show ?thesis using w(1,2,6) by (simp add: b_def bn_ok_def bn_abs_def)
  qed
  show ?thesis unfolding run n_def [symmetric]
    by (rule stores_of [where ?st1.0 = st and bn = bn and b = "bn_set_minimal_width b", OF x])
      (use bt set_minimal_width_spec [of b] x bn_wexpand_False [of mem "st r" n bn] in \<open>simp_all add: bn_val_def [of b]\<close>)
qed

lemma stores_room: "stores mem st r n v res \<Longrightarrow> n \<le> m \<Longrightarrow> stores mem st r m v res"
  using limb_room_mono [of mem "st r" m n] by (auto simp: stores_def)

lemma mod_pow2_spec:
  assumes ok: "bn_ok (st a)" "bn_ok (st r)" and c: "bn_canonical (st a)"
  shows "stores mem st r (bn_width (st a)) (if bn_neg (st a) then - int (bn_abs (st a) mod 2 ^ e) else int (bn_abs (st a) mod 2 ^ e)) (BN_mod_pow2 mem st r a e)"
proof (cases "e = 0 \<or> bn_width (st a) = 0")
  case True
  then show ?thesis using ok
    by (auto simp: BN_mod_pow2_def stores_def BN_zero_def bn_ok_def bn_canonical_def bn_val_def bn_abs_def)
next
  case False
  show ?thesis
  proof (cases "bn_width (st a) < 1 + (e - 1) div 64")
    case True
    then show ?thesis using False by (intro mod_pow2_copy ok c) simp_all
  next
    case le: False
    then show ?thesis using False by (intro stores_room [OF mod_pow2_mask [OF ok]]) simp_all
  qed
qed

text \<open>Inverting every limb subtracts from the largest number of that width.\<close>

lemma limbs_val_not: "limbs_val (map (\<lambda>w. NOT w) ws) + limbs_val ws + 1 = limb_base ^ length ws"
proof (induction ws)
  case (Cons w ws)
  have "NOT w = - 1 - w" by (simp add: not_eq_complement)
  then have "int (unat (NOT w)) + int (unat w) = int limb_base - 1"
    using int_limb_sub [of "- 1" w] limb_less [of w] by (auto simp: limb_base_def unsigned_minus_1_eq_mask mask_eq_exp_minus_1 simp del: of_nat_unat)
  then have "unat (NOT w) + unat w + 1 = limb_base" by (simp del: of_nat_unat flip: of_nat_add of_nat_Suc)
  moreover have "limbs_val (map (\<lambda>w. NOT w) (w # ws)) + limbs_val (w # ws) + 1 =
      (unat (NOT w) + unat w + 1) + limb_base * (limbs_val (map (\<lambda>w. NOT w) ws) + limbs_val ws)" by (simp add: algebra_simps)
  ultimately have "limbs_val (map (\<lambda>w. NOT w) (w # ws)) + limbs_val (w # ws) + 1 = limb_base * (limbs_val (map (\<lambda>w. NOT w) ws) + limbs_val ws + 1)"
    by (simp only: distrib_left mult_1_right add.commute)
  then show ?case unfolding Cons by simp
qed simp

text \<open>The complement of \<open>x\<close> among the numbers of \<open>e\<close> bits.\<close>

lemma complement_mod:
  fixes x y :: nat
  assumes "y + x + 1 = 2 ^ e * k" "x < 2 ^ e"
  shows "y mod 2 ^ e = 2 ^ e - 1 - x"
proof -
  have "k \<noteq> 0" using assms(1) by (intro notI) simp
  then obtain k' where k: "k = Suc k'" by (cases k) auto
  have "y = (2 ^ e - 1 - x) + 2 ^ e * k'" using assms k by simp
  moreover have "2 ^ e - 1 - x < 2 ^ e" by simp
  ultimately show ?thesis by simp
qed

definition room_for :: "allocator \<Rightarrow> u32 \<Rightarrow> nat \<Rightarrow> bool" where
  "room_for mem flags n \<longleftrightarrow> (\<forall>bn. bn_flags bn = flags \<longrightarrow> limb_room mem bn n)"

lemma room_for_granted: "(\<And>k. grants mem k) \<Longrightarrow> flags AND BN_FLG_STATIC_DATA = 0 \<Longrightarrow> n \<le> 8388607 \<Longrightarrow> room_for mem flags n"
  by (simp add: room_for_def limb_room_granted)

lemma twos_complement:
  assumes ok: "bn_ok b" and n: "n = 1 + (e - 1) div 64" "0 < e" and b: "bn_abs b < 2 ^ e" "bn_width b \<le> n"
    and x: "bn_wexpand mem b n = (True, c)"
  defines "d \<equiv> take (bn_width c) (bn_d c) @ replicate (n - bn_width c) 0 @ drop n (bn_d c)"
  defines "d1 \<equiv> map (\<lambda>w. NOT w) (take n d) @ drop n d"
  defines "d2 \<equiv> (if e mod 64 \<noteq> 0 then d1[n - 1 := d1 ! (n - 1) AND (push_bit (e mod 64) 1 - 1)] else d1)"
  shows "bn_ok (c\<lparr>bn_d := d2, bn_neg := False, bn_width := n\<rparr>)" "bn_abs (c\<lparr>bn_d := d2, bn_neg := False, bn_width := n\<rparr>) = 2 ^ e - 1 - bn_abs b"
proof -
  note w = bn_wexpand_True [OF ok x]
  have lc: "n \<le> length (bn_d c)" "bn_width c \<le> n" using w b(2) by (simp_all add: bn_ok_def)
  define ws where "ws = take (bn_width b) (bn_d b) @ replicate (n - bn_width b) 0"
  have lw: "length ws = n" using ok b(2) by (simp add: ws_def bn_ok_def)
  have dw: "d = ws @ drop n (bn_d c)" using w(3,4) by (simp add: d_def ws_def)
  have vw: "limbs_val ws = bn_abs b" by (simp add: ws_def bn_abs_def limbs_val_append)
  define us where "us = map (\<lambda>w. NOT w) ws"
  have lu: "length us = n" "d1 = us @ drop n (bn_d c)" using lw dw by (simp_all add: us_def d1_def)
  have n0: "n - 1 < n" using n(1) by simp
  have "take n d2 = (if e mod 64 \<noteq> 0 then us[n - 1 := us ! (n - 1) AND (push_bit (e mod 64) 1 - 1)] else us)"
    using lu n0 by (simp add: d2_def list_update_append nth_append)
  then have v: "limbs_val (take n d2) = take_bit e (limbs_val us)" using mask_top_limb [OF n(2,1) lu(1)] by (simp only:)
  have "limb_base ^ n = 2 ^ e * 2 ^ (64 * n - e)" unfolding limb_base_def power_mult [symmetric] power_add [symmetric] using n by simp
  then have "limbs_val us + limbs_val ws + 1 = 2 ^ e * 2 ^ (64 * n - e)" using limbs_val_not [of ws] lw by (simp add: us_def)
  then have "limbs_val (take n d2) = 2 ^ e - 1 - bn_abs b" using complement_mod [of "limbs_val us" "limbs_val ws" e] b(1) v vw by (simp add: take_bit_eq_mod)
  moreover have "length d2 = length (bn_d c)" using lu lc by (simp add: d2_def)
  ultimately show "bn_ok (c\<lparr>bn_d := d2, bn_neg := False, bn_width := n\<rparr>)" "bn_abs (c\<lparr>bn_d := d2, bn_neg := False, bn_width := n\<rparr>) = 2 ^ e - 1 - bn_abs b"
    using w(1,2) by (simp_all add: bn_ok_def bn_abs_def)
qed

lemma minimal_width_loop_le: "minimal_width_loop d n \<le> n"
  by (induction n) simp_all

lemma mod_pow2_width: "BN_mod_pow2 mem st r a e = (True, st') \<Longrightarrow> bn_width (st' r) \<le> 1 + (e - 1) div 64"
proof -
  assume s: "BN_mod_pow2 mem st r a e = (True, st')"
  have m: "bn_width (bn_set_minimal_width (bn\<lparr>bn_d := d, bn_neg := g, bn_width := w\<rparr>)) \<le> w" for bn d g w
    by (simp add: bn_set_minimal_width_def bn_minimal_width_def minimal_width_loop_le Let_def)
  show ?thesis
  proof (cases "e = 0 \<or> bn_width (st a) = 0")
    case True
    then show ?thesis using s by (auto simp: BN_mod_pow2_def BN_zero_def)
  next
    case F: False
    show ?thesis
    proof (cases "bn_width (st a) < 1 + (e - 1) div 64")
      case True
      then show ?thesis using s unfolding BN_mod_pow2_def if_not_P [OF F] BN_BITS2_def Let_def if_P [OF True] BN_copy_def
        by (auto split: if_splits prod.splits bool.splits)
    next
      case False
      obtain t bn where x: "bn_wexpand mem (st r) (1 + (e - 1) div 64) = (t, bn)" by (rule prod.exhaust)
      show ?thesis using s m unfolding BN_mod_pow2_def if_not_P [OF F] BN_BITS2_def Let_def if_not_P [OF False] x prod.case
        by (cases t) (auto simp: m)
    qed
  qed
qed

lemma int_mod_pow: "int A mod 2 ^ e = int (A mod 2 ^ e)"
  by (simp add: zmod_int)

lemma nnmod_value:
  fixes A :: nat
  assumes "A mod 2 ^ e \<noteq> 0"
  shows "int (2 ^ e - 1 - A mod 2 ^ e) + 1 = - int A mod 2 ^ e"
proof -
  have lt: "A mod 2 ^ e < 2 ^ e" by simp
  have "int A mod 2 ^ e \<noteq> 0" using assms unfolding int_mod_pow by (simp only: of_nat_eq_0_iff not_False_eq_True)
  then have "- int A mod 2 ^ e = 2 ^ e - int A mod 2 ^ e" by (simp only: zmod_zminus1_eq_if if_False)
  also have "\<dots> = 2 ^ e - int (A mod 2 ^ e)" unfolding int_mod_pow ..
  also have "\<dots> = int (2 ^ e - 1 - A mod 2 ^ e) + 1" using lt by (simp add: of_nat_diff del: mod_less_divisor)
  finally show ?thesis by (rule sym)
qed

lemma nnmod_nonneg:
  assumes ok: "bn_ok b" and n: "BN_is_zero b \<or> \<not> bn_neg b"
    and v: "bn_val b = (if bn_neg a then - int (bn_abs a mod 2 ^ e) else int (bn_abs a mod 2 ^ e))"
  shows "bn_val b = bn_val a mod 2 ^ e"
proof (cases "bn_neg a")
  case True
  have "0 \<le> bn_val b" using ok n by (auto simp: is_zero_iff bn_val_def)
  then have z: "bn_abs a mod 2 ^ e = 0" using v True by simp
  have "int (bn_abs a) mod 2 ^ e = 0" unfolding int_mod_pow z by simp
  then show ?thesis using v True z by (simp only: bn_val_def [of a] zmod_zminus1_eq_if if_True) simp
next
  case False
  then show ?thesis using v by (simp only: bn_val_def [of a] int_mod_pow if_False)
qed

lemma value_one: "bn_ok BN_value_one" "bn_canonical BN_value_one" "bn_val BN_value_one = 1" "bn_width BN_value_one = 1"
  by (simp_all add: BN_value_one_def bn_ok_def bn_canonical_def bn_val_def bn_abs_def)

lemma nnmod_pow2_complement:
  assumes b: "bn_ok (st r)" "bn_abs (st r) < 2 ^ e" "bn_width (st r) \<le> n" and n: "n = 1 + (e - 1) div 64" "0 < e"
    and one: "st one = BN_value_one" "one \<noteq> r" and x: "bn_wexpand mem (st r) n = (True, bn)"
  defines "d \<equiv> take (bn_width bn) (bn_d bn) @ replicate (n - bn_width bn) 0 @ drop n (bn_d bn)"
  defines "d1 \<equiv> map (\<lambda>w. NOT w) (take n d) @ drop n d"
  defines "d2 \<equiv> (if e mod 64 \<noteq> 0 then d1[n - 1 := d1 ! (n - 1) AND (push_bit (e mod 64) 1 - 1)] else d1)"
  assumes run: "BN_add mem (st(r := bn_set_minimal_width (bn\<lparr>bn_d := d2, bn_neg := False, bn_width := n\<rparr>))) r r one = (ret, st')"
  shows "ret \<Longrightarrow> bn_ok (st' r) \<and> bn_canonical (st' r) \<and> bn_val (st' r) = int (2 ^ e - 1 - bn_abs (st r)) + 1" "st'(r := st r) = st"
    "room_for mem (bn_flags (st r)) (n + 1) \<Longrightarrow> ret"
proof -
  define h where "h = bn\<lparr>bn_d := d2, bn_neg := False, bn_width := n\<rparr>"
  define g where "g = bn_set_minimal_width h"
  have h: "bn_ok h" "bn_abs h = 2 ^ e - 1 - bn_abs (st r)" "\<not> bn_neg h" "bn_flags h = bn_flags bn" "bn_width h = n"
    unfolding h_def d2_def d1_def d_def using twos_complement [OF b(1) n b(2,3) x] by simp_all
  have "bn_width g \<le> bn_width h" by (simp add: g_def bn_set_minimal_width_def bn_minimal_width_def minimal_width_loop_le Let_def)
  then have g: "bn_ok g" "bn_canonical g" "bn_val g = int (2 ^ e - 1 - bn_abs (st r))" "bn_flags g = bn_flags (st r)" "bn_width g \<le> n"
    using set_minimal_width_spec [OF h(1)] h(2-5) bn_wexpand_True(6) [OF b(1) x] by (simp_all add: g_def bn_val_def [of h])
  have "stores mem (st(r := g)) r (max (bn_width g) 1 + 1) (bn_val g + 1) (ret, st')"
    using add_spec [of "st(r := g)" r one r mem] g one value_one run unfolding h_def [symmetric] g_def [symmetric] by simp
  then have s: "ret \<Longrightarrow> bn_ok (st' r) \<and> bn_canonical (st' r) \<and> bn_val (st' r) = bn_val g + 1" "st'(r := g) = st(r := g)"
      "limb_room mem g (max (bn_width g) 1 + 1) \<Longrightarrow> ret"
    by (auto simp: stores_def)
  show "ret \<Longrightarrow> bn_ok (st' r) \<and> bn_canonical (st' r) \<and> bn_val (st' r) = int (2 ^ e - 1 - bn_abs (st r)) + 1" using s(1) g(3) by simp
  show "st'(r := st r) = st" using arg_cong [OF s(2), of "\<lambda>f. f(r := st r)"] by simp
  show "room_for mem (bn_flags (st r)) (n + 1) \<Longrightarrow> ret"
    using s(3) g(4,5) limb_room_mono [of mem g "n + 1" "max (bn_width g) 1 + 1"] n(1) by (simp add: room_for_def)
qed

lemma nnmod_pow2_spec:
  assumes ok: "bn_ok (st a)" "bn_ok (st r)" and c: "bn_canonical (st a)" and one: "st one = BN_value_one" "one \<noteq> r"
    and run: "BN_nnmod_pow2 mem st one r a e = (ret, st')"
  shows "ret \<Longrightarrow> bn_ok (st' r) \<and> bn_canonical (st' r) \<and> bn_val (st' r) = bn_val (st a) mod 2 ^ e" "st'(r := st r) = st"
    "room_for mem (bn_flags (st r)) (max (bn_width (st a)) (2 + (e - 1) div 64)) \<Longrightarrow> ret"
proof -
  define n where "n = 1 + (e - 1) div 64"
  obtain t st1 where m: "BN_mod_pow2 mem st r a e = (t, st1)" by (rule prod.exhaust)
  define v where "v = (if bn_neg (st a) then - int (bn_abs (st a) mod 2 ^ e) else int (bn_abs (st a) mod 2 ^ e))"
  have s: "t \<Longrightarrow> bn_ok (st1 r) \<and> bn_canonical (st1 r) \<and> bn_flags (st1 r) = bn_flags (st r) \<and> bn_val (st1 r) = v"
    "st1(r := st r) = st" "limb_room mem (st r) (bn_width (st a)) \<Longrightarrow> t"
    using mod_pow2_spec [of st a r mem e] ok c m unfolding v_def [symmetric] by (auto simp: stores_def)
  have room: "limb_room mem (st r) (bn_width (st a))" if "room_for mem (bn_flags (st r)) (max (bn_width (st a)) (n + 1))"
    using that by (auto simp: room_for_def intro: limb_room_mono)
  have "(ret \<longrightarrow> bn_ok (st' r) \<and> bn_canonical (st' r) \<and> bn_val (st' r) = bn_val (st a) mod 2 ^ e) \<and> st'(r := st r) = st \<and>
    (room_for mem (bn_flags (st r)) (max (bn_width (st a)) (n + 1)) \<longrightarrow> ret)"
  proof (cases "t \<and> \<not> (BN_is_zero (st1 r) \<or> \<not> bn_neg (st1 r))")
    case False
    have ret: "(ret, st') = (t, st1)" using run m False by (cases t) (auto simp: BN_nnmod_pow2_def)
    have "bn_val (st1 r) = bn_val (st a) mod 2 ^ e" if t
      using nnmod_nonneg [of "st1 r" "st a" e] s(1) [OF that] that False by (auto simp: v_def)
    then show ?thesis using ret s room by auto
  next
    case True
    then have t: t and F: "\<not> (BN_is_zero (st1 r) \<or> \<not> bn_neg (st1 r))" by simp_all
    note s1 = s(1) [OF t]
    have b: "bn_ok (st1 r)" "bn_neg (st1 r)" "bn_abs (st1 r) \<noteq> 0" "bn_flags (st1 r) = bn_flags (st r)" using F s1 by (auto simp: is_zero_iff)
    then have "v < 0" using s1 by (simp add: bn_val_def)
    then have neg: "bn_neg (st a)" "bn_abs (st1 r) = bn_abs (st a) mod 2 ^ e"
      using s1 b(2) by (auto simp: v_def bn_val_def split: if_splits)
    have e0: "0 < e" using b(3) neg(2) by (cases e) auto
    have t': "BN_mod_pow2 mem st r a e = (True, st1)" using m t by simp
    have wd: "bn_width (st1 r) \<le> n" using mod_pow2_width [OF t'] by (simp add: n_def)
    have lt: "bn_abs (st1 r) < 2 ^ e" using neg(2) by simp
    have o: "st1 one = BN_value_one" using s(2) one by (metis fun_upd_other)
    obtain u bn where x: "bn_wexpand mem (st1 r) n = (u, bn)" by (rule prod.exhaust)
    have rg: "limb_room mem (st1 r) n \<and> room_for mem (bn_flags (st1 r)) (n + 1)" if "room_for mem (bn_flags (st r)) (max (bn_width (st a)) (n + 1))"
      using that b(4) by (auto simp: room_for_def intro: limb_room_mono)
    show ?thesis
    proof (cases u)
      case False
      then have "(ret, st') = (False, st1)" using run F t' x bn_wexpand_False [of mem "st1 r" n bn]
        by (simp add: BN_nnmod_pow2_def Let_def BN_BITS2_def n_def)
      then show ?thesis using s(2) rg limb_room_D [OF _ x] False by auto
    next
      case True
      then have x': "bn_wexpand mem (st1 r) n = (True, bn)" using x by simp
      note run' = run [unfolded BN_nnmod_pow2_def t' prod.case bool.case if_not_P [OF F] BN_BITS2_def Let_def n_def [symmetric] x']
      note fin = nnmod_pow2_complement [OF b(1) lt wd n_def e0 o one(2) x' run']
      have nz: "bn_abs (st a) mod 2 ^ e \<noteq> 0" using b(3) neg by simp
      have "bn_val (st a) mod 2 ^ e = int (2 ^ e - 1 - bn_abs (st1 r)) + 1"
        by (simp only: bn_val_def [of "st a"] if_True neg nnmod_value [OF nz])
      moreover have "st'(r := st r) = st" using arg_cong [OF fin(2), of "\<lambda>f. f(r := st r)"] s(2) by simp
      ultimately show ?thesis using fin(1,3) rg by auto
    qed
  qed
  then show "ret \<Longrightarrow> bn_ok (st' r) \<and> bn_canonical (st' r) \<and> bn_val (st' r) = bn_val (st a) mod 2 ^ e" "st'(r := st r) = st"
    "room_for mem (bn_flags (st r)) (max (bn_width (st a)) (2 + (e - 1) div 64)) \<Longrightarrow> ret"
    by (auto simp: n_def)
qed

end
