(* ===== verification/BN_Div_Props.thy ===== *)
theory BN_Div_Props
  imports BN_Props BN_Div
begin

text \<open>
  What shifts, single bits, division by a word, reduction modulo a power of two and binary long division promise: each of them is the
  operation on integers of the same name, whatever the width of its operands and whichever of them are the same number.
\<close>

unbundle bit_operations_syntax

section \<open>Shifts and bits\<close>

text \<open>C21: \<open>BN_lshift\<close> multiplies by a power of two and \<open>BN_rshift\<close> divides the magnitude by one, rounding towards zero and giving up the
  sign with the last bit, also in place; both succeed when memory for the limbs of the result is granted, and refuse a negative count.\<close>

theorem bn_shift_exact:
  assumes "bn_ok (st a)" "bn_ok (st r)"
  shows "if n < 0 then BN_lshift mem st r a n = (False, st) \<and> BN_rshift mem st r a n = (False, st)
    else stores mem st r (bn_width (st a) + nat n div 64 + 1) (bn_val (st a) * 2 ^ nat n) (BN_lshift mem st r a n) \<and>
      stores mem st r (bn_width (st a)) (sgn (bn_val (st a)) * int (bn_abs (st a) div 2 ^ nat n)) (BN_rshift mem st r a n)"
proof (cases "n < 0")
  case False
  have "sgn (bn_val (st a)) * int (bn_abs (st a) div 2 ^ nat n) =
      (if bn_neg (st a) then - int (bn_abs (st a) div 2 ^ nat n) else int (bn_abs (st a) div 2 ^ nat n))"
    by (cases "bn_abs (st a) = 0") (simp_all add: bn_val_def)
  moreover have "0 \<le> n" using False by simp
  ultimately show ?thesis using lshift_spec [OF assms, of n mem] rshift_spec [OF assms, of n mem] unfolding if_not_P [OF False] by simp
qed (simp add: BN_lshift_def BN_rshift_def)

lemma bn_shift_exact_witness:
  "let st = (\<lambda>_. bn_of True [2 ^ 63, 5])
   in stores generous st 0 4 (- (2 ^ 63 + 2 ^ 64 * 5) * 2 ^ 65) (BN_lshift generous st 0 0 65) \<and>
      stores generous st 1 2 (- 5) (BN_rshift generous st 1 0 64)"
proof -
  let ?st = "\<lambda>_ :: bn_addr. bn_of True [2 ^ 63, 5]"
  have v: "bn_val (?st x) = - (2 ^ 63 + 2 ^ 64 * 5)" "bn_abs (?st x) = 2 ^ 63 + 2 ^ 64 * 5" "bn_width (?st x) = 2" for x
    by (simp_all add: bn_of limb_base_def)
  have n: "(65 :: int) < 0 \<longleftrightarrow> False" "(64 :: int) < 0 \<longleftrightarrow> False" "nat 65 = 65" "nat 64 = 64" "(2 :: nat) + 65 div 64 + 1 = 4"
    "sgn (- (2 ^ 63 + 2 ^ 64 * 5) :: int) * int ((2 ^ 63 + 2 ^ 64 * 5) div 2 ^ 64) = - 5" by simp_all
  have "stores generous ?st 0 (bn_width (?st 0) + nat 65 div 64 + 1) (bn_val (?st 0) * 2 ^ nat 65) (BN_lshift generous ?st 0 0 65)"
    "stores generous ?st 1 (bn_width (?st 0)) (sgn (bn_val (?st 0)) * int (bn_abs (?st 0) div 2 ^ nat 64)) (BN_rshift generous ?st 1 0 64)"
    using bn_shift_exact [of ?st 0 0 65 generous] bn_shift_exact [of ?st 0 1 64 generous] by (simp_all only: bn_of n if_False)
  then show ?thesis unfolding v n Let_def by blast
qed

text \<open>C39: The bits of a number are read, set, cut off and searched as those of its magnitude; setting a bit past the end grows the
  number and fails only when memory is refused. \<open>BN_clear_bit\<close> clears a bit within the limbs in use; for a bit beyond them, which is clear
  already, it reports failure and changes nothing, although it allocates no memory and \<^verbatim>\<open>bn.h\<close> has it fail on allocation failure only.
  For a negative position all of them refuse. The bound on the width is the one \<open>bn_wexpand\<close> keeps, below which bit counts are \<open>int\<close>s.\<close>

theorem bn_bits_exact:
  assumes "bn_ok a" "bn_canonical a" "bn_width a \<le> 8388607"
  shows "(if n < 0 then \<not> BN_is_bit_set a n \<and> BN_set_bit mem a n = (False, a) \<and> BN_clear_bit a n = (False, a) \<and> BN_mask_bits a n = (False, a)
     else
      (BN_is_bit_set a n \<longleftrightarrow> bit (bn_abs a) (nat n)) \<and>
      (\<exists>ret b. BN_set_bit mem a n = (ret, b) \<and> bn_ok b \<and> bn_abs b = (if ret then set_bit (nat n) (bn_abs a) else bn_abs a) \<and>
        (limb_room mem a (nat n div 64 + 1) \<longrightarrow> ret)) \<and>
      (if nat n div 64 < bn_width a then \<exists>b. BN_clear_bit a n = (True, b) \<and> bn_ok b \<and> bn_canonical b \<and> bn_abs b = unset_bit (nat n) (bn_abs a)
       else BN_clear_bit a n = (False, a) \<and> unset_bit (nat n) (bn_abs a) = bn_abs a) \<and>
      (\<exists>b. BN_mask_bits a n = (True, b) \<and> bn_ok b \<and> bn_canonical b \<and> bn_abs b = bn_abs a mod 2 ^ nat n)) \<and>
    (if bn_abs a = 0 then BN_count_low_zero_bits a = 0
     else bit (bn_abs a) (BN_count_low_zero_bits a) \<and> bn_abs a mod 2 ^ BN_count_low_zero_bits a = 0)"
proof
  show "if bn_abs a = 0 then BN_count_low_zero_bits a = 0
     else bit (bn_abs a) (BN_count_low_zero_bits a) \<and> bn_abs a mod 2 ^ BN_count_low_zero_bits a = 0"
  proof -
    have "take_bit k x = 0" if "\<forall>m < k. \<not> bit x m" for k and x :: nat using that by (intro bit_eqI) (auto simp: bit_take_bit_iff)
    then show ?thesis using count_low_zero_bits_spec [OF assms(1)] assms(3) by (auto simp: take_bit_eq_mod)
  qed
  show "if n < 0 then \<not> BN_is_bit_set a n \<and> BN_set_bit mem a n = (False, a) \<and> BN_clear_bit a n = (False, a) \<and> BN_mask_bits a n = (False, a)
     else
      (BN_is_bit_set a n \<longleftrightarrow> bit (bn_abs a) (nat n)) \<and>
      (\<exists>ret b. BN_set_bit mem a n = (ret, b) \<and> bn_ok b \<and> bn_abs b = (if ret then set_bit (nat n) (bn_abs a) else bn_abs a) \<and>
        (limb_room mem a (nat n div 64 + 1) \<longrightarrow> ret)) \<and>
      (if nat n div 64 < bn_width a then \<exists>b. BN_clear_bit a n = (True, b) \<and> bn_ok b \<and> bn_canonical b \<and> bn_abs b = unset_bit (nat n) (bn_abs a)
       else BN_clear_bit a n = (False, a) \<and> unset_bit (nat n) (bn_abs a) = bn_abs a) \<and>
      (\<exists>b. BN_mask_bits a n = (True, b) \<and> bn_ok b \<and> bn_canonical b \<and> bn_abs b = bn_abs a mod 2 ^ nat n)"
  proof (cases "n < 0")
    case True
    then show ?thesis by (simp add: BN_is_bit_set_def BN_set_bit_def BN_clear_bit_def BN_mask_bits_def)
  next
    case False
    then have n: "0 \<le> n" by simp
    show ?thesis unfolding if_not_P [OF False]
    proof (intro conjI)
      show "BN_is_bit_set a n \<longleftrightarrow> bit (bn_abs a) (nat n)" using assms n by (simp add: is_bit_set_spec)
      show "\<exists>ret b. BN_set_bit mem a n = (ret, b) \<and> bn_ok b \<and> bn_abs b = (if ret then set_bit (nat n) (bn_abs a) else bn_abs a) \<and>
          (limb_room mem a (nat n div 64 + 1) \<longrightarrow> ret)" using set_bit_spec [OF assms(1) n, of mem] by blast
      show "if nat n div 64 < bn_width a then \<exists>b. BN_clear_bit a n = (True, b) \<and> bn_ok b \<and> bn_canonical b \<and> bn_abs b = unset_bit (nat n) (bn_abs a)
         else BN_clear_bit a n = (False, a) \<and> unset_bit (nat n) (bn_abs a) = bn_abs a"
      proof (cases "nat n div 64 < bn_width a")
        case True
        then show ?thesis using clear_bit_spec [OF assms(1) n] by auto
      next
        case out: False
        then have "\<not> bit (bn_abs a) (nat n)" using bit_abs [OF assms(1)] by simp
        then have "unset_bit (nat n) (bn_abs a) = bn_abs a" by (intro bit_eqI) (auto simp: bit_unset_bit_iff)
        then show ?thesis using out n by (simp add: BN_clear_bit_def BN_BITS2_def Let_def)
      qed
      show "\<exists>b. BN_mask_bits a n = (True, b) \<and> bn_ok b \<and> bn_canonical b \<and> bn_abs b = bn_abs a mod 2 ^ nat n"
        using mask_bits_spec [OF assms(1,2) n] by (auto simp: take_bit_eq_mod)
    qed
  qed
qed

lemma bn_bits_exact_witness:
  "BN_is_bit_set (bn_of False [0, 12]) 66 \<and> BN_count_low_zero_bits (bn_of False [0, 12]) \<noteq> 0 \<and>
   (\<exists>b. BN_mask_bits (bn_of False [0, 12]) 67 = (True, b) \<and> bn_abs b = 2 ^ 66) \<and> BN_clear_bit (bn_of False [0, 12]) 200 = (False, bn_of False [0, 12])"
proof -
  let ?a = "bn_of False [0, 12]"
  have a: "bn_ok ?a" "bn_canonical ?a" "bn_width ?a \<le> 8388607" "bn_abs ?a = 12 * 2 ^ 64" "bn_abs ?a \<noteq> 0" by (simp_all add: bn_of limb_base_def)
  have b: "bit (bn_abs ?a) (nat 66)" "\<not> bit (bn_abs ?a) 0" "bn_abs ?a mod 2 ^ nat 67 = 2 ^ 66" "\<not> nat 200 div 64 < bn_width ?a"
    unfolding a(4) by (simp_all add: bit_iff_odd bn_of)
  have n: "\<not> (66 :: int) < 0" "\<not> (67 :: int) < 0" "\<not> (200 :: int) < 0" by simp_all
  note p = bn_bits_exact [OF a(1-3), where mem = generous]
  have "BN_is_bit_set ?a 66" using p [of 66, THEN conjunct1, unfolded if_not_P [OF n(1)], THEN conjunct1] b(1) by (rule iffD2)
  moreover have "BN_count_low_zero_bits ?a \<noteq> 0" using p [of 66, THEN conjunct2, unfolded if_not_P [OF a(5)]] b(2) by metis
  moreover have "\<exists>b. BN_mask_bits ?a 67 = (True, b) \<and> bn_abs b = 2 ^ 66"
    using p [of 67, THEN conjunct1, unfolded if_not_P [OF n(2)], THEN conjunct2, THEN conjunct2, THEN conjunct2] unfolding b(3) by force
  moreover have "BN_clear_bit ?a 200 = (False, ?a)"
    using p [of 200, THEN conjunct1, unfolded if_not_P [OF n(3)], THEN conjunct2, THEN conjunct2, THEN conjunct1, unfolded if_not_P [OF b(4)]] by (rule conjunct1)
  ultimately show ?thesis by blast
qed

section \<open>Division by a word\<close>

text \<open>C17: \<open>BN_div_word\<close> leaves the quotient rounded towards zero and gives the remainder of the magnitude, the value \<open>BN_mod_word\<close> gives;
  multiplying by the word and adding the remainder again, or subtracting it when the number was negative, brings the number back.
  The result \<open>- 1\<close> means that memory was refused, and the magnitude is untouched then.\<close>

theorem bn_div_word_exact:
  assumes "bn_ok a" "bn_canonical a" "w \<noteq> 0" and "BN_div_word mem a w = (ret, q)"
  shows "(limb_room mem a (bn_width a + 1) \<longrightarrow> ret \<noteq> - 1) \<and>
    (if ret = - 1 then bn_abs q = bn_abs a
     else bn_ok q \<and> bn_canonical q \<and> ret < w \<and> ret = BN_mod_word a w \<and> bn_val q = sgn (bn_val a) * int (bn_abs a div unat w) \<and>
       (case BN_mul_word mem q w of
          (False, b) \<Rightarrow> True
        | (True, b) \<Rightarrow> (case (if bn_neg a then BN_sub_word mem b ret else BN_add_word mem b ret) of
              None \<Rightarrow> False
            | Some (ok, c) \<Rightarrow> ok \<longrightarrow> bn_val c = bn_val a)))"
proof (intro conjI impI)
  note d = div_word_spec [OF assms]
  show "limb_room mem a (bn_width a + 1) \<Longrightarrow> ret \<noteq> - 1" by (rule d(2))
  show "if ret = - 1 then bn_abs q = bn_abs a
     else bn_ok q \<and> bn_canonical q \<and> ret < w \<and> ret = BN_mod_word a w \<and> bn_val q = sgn (bn_val a) * int (bn_abs a div unat w) \<and>
       (case BN_mul_word mem q w of
          (False, b) \<Rightarrow> True
        | (True, b) \<Rightarrow> (case (if bn_neg a then BN_sub_word mem b ret else BN_add_word mem b ret) of
              None \<Rightarrow> False
            | Some (ok, c) \<Rightarrow> ok \<longrightarrow> bn_val c = bn_val a))"
  proof (cases "ret = - 1")
    case True
    then show ?thesis using d(1) by simp
  next
    case False
    have w0: "0 < unat w" using assms(3) by (simp add: unat_gt_0)
    have q: "unat ret = bn_abs a mod unat w" "bn_ok q" "bn_canonical q" "bn_val q = (if bn_neg a then - int (bn_abs a div unat w) else int (bn_abs a div unat w))"
      using d(1) False by simp_all
    have r: "ret < w" "ret = BN_mod_word a w" using q(1) w0 mod_word_spec [OF assms(3), of a] by (simp_all add: word_less_nat_alt word_unat_eq_iff)
    have v: "bn_val q = sgn (bn_val a) * int (bn_abs a div unat w)" using q(4) by (cases "bn_abs a = 0") (simp_all add: bn_val_def [of a])
    obtain m b where mw: "BN_mul_word mem q w = (m, b)" by (rule prod.exhaust)
    note mul = mul_word_spec [OF q(2) mw]
    have tot: "int (unat w) * int (bn_abs a div unat w) + int (unat ret) = int (bn_abs a)"
      unfolding q(1) by (simp only: mult_div_mod_eq flip: of_nat_mult of_nat_add)
    have restored: "case (if bn_neg a then BN_sub_word mem b ret else BN_add_word mem b ret) of None \<Rightarrow> False | Some (ok, c) \<Rightarrow> ok \<longrightarrow> bn_val c = bn_val a" if m
    proof -
      have b: "bn_canonical b" "bn_val b = int (unat w) * bn_val q" using mul(2,3) q(3) that by blast+
      have s: "bn_val a = (if bn_neg a then bn_val b - int (unat ret) else bn_val b + int (unat ret))"
        unfolding b(2) q(4) bn_val_def [of a] using tot by (simp split: if_split del: of_nat_unat)
      show ?thesis using add_word_spec [OF mul(1) b(1), of mem ret] sub_word_spec [OF mul(1) b(1), of mem ret] s
        by (cases "bn_neg a") (auto simp del: of_nat_unat)
    qed
    show ?thesis unfolding if_not_P [OF False] mw prod.case using restored by (intro conjI q(2,3) r v) (cases m, simp_all only: bool.case)
  qed
qed

lemma bn_div_word_exact_witness:
  "case BN_div_word generous (bn_of True [7, 5]) 10 of (ret, q) \<Rightarrow> ret = BN_mod_word (bn_of True [7, 5]) 10 \<and> ret < 10 \<and> bn_val q = - 9223372036854775808"
proof -
  let ?a = "bn_of True [7, 5]"
  obtain ret q where e: "BN_div_word generous ?a 10 = (ret, q)" by (rule prod.exhaust)
  have a: "bn_ok ?a" "bn_canonical ?a" "(10 :: limb) \<noteq> 0" by (simp_all add: bn_of)
  have room: "limb_room generous ?a (bn_width ?a + 1)"
    by (rule limb_room_granted) (simp_all add: generous_def bn_of bn_of_def BN_FLG_MALLOCED_def BN_FLG_STATIC_DATA_def)
  have v: "sgn (bn_val ?a) * int (bn_abs ?a div unat (10 :: limb)) = - 9223372036854775808" by (simp add: bn_of limb_base_def)
  show ?thesis using bn_div_word_exact [OF a e] room e unfolding v by (auto split: if_splits)
qed

section \<open>Modular arithmetic\<close>

text \<open>C20: \<open>BN_nnmod_pow2\<close> gives the residue modulo a power of two that is not negative, also in place and for a negative number, whose
  two's complement it computes; nothing else changes, and it succeeds when memory is granted. \<open>BN_mod_pow2\<close> keeps the sign.\<close>

theorem bn_mod_pow2_exact:
  assumes "bn_ok (st a)" "bn_ok (st r)" "bn_canonical (st a)" "st one = BN_value_one" "one \<noteq> r"
  shows "stores mem st r (bn_width (st a)) (sgn (bn_val (st a)) * int (bn_abs (st a) mod 2 ^ e)) (BN_mod_pow2 mem st r a e) \<and>
    (case BN_nnmod_pow2 mem st one r a e of (ret, st') \<Rightarrow>
       (ret \<longrightarrow> bn_ok (st' r) \<and> bn_canonical (st' r) \<and> bn_val (st' r) = bn_val (st a) mod 2 ^ e) \<and> st'(r := st r) = st \<and>
       (room_for mem (bn_flags (st r)) (max (bn_width (st a)) (2 + (e - 1) div 64)) \<longrightarrow> ret))"
proof (intro conjI)
  have v: "sgn (bn_val (st a)) * int (bn_abs (st a) mod 2 ^ e) = (if bn_neg (st a) then - int (bn_abs (st a) mod 2 ^ e) else int (bn_abs (st a) mod 2 ^ e))"
    by (cases "bn_abs (st a) = 0") (simp_all add: bn_val_def)
  show "stores mem st r (bn_width (st a)) (sgn (bn_val (st a)) * int (bn_abs (st a) mod 2 ^ e)) (BN_mod_pow2 mem st r a e)"
    unfolding v by (rule mod_pow2_spec [OF assms(1-3)])
  obtain ret st' where e: "BN_nnmod_pow2 mem st one r a e = (ret, st')" by (rule prod.exhaust)
  show "case BN_nnmod_pow2 mem st one r a e of (ret, st') \<Rightarrow>
       (ret \<longrightarrow> bn_ok (st' r) \<and> bn_canonical (st' r) \<and> bn_val (st' r) = bn_val (st a) mod 2 ^ e) \<and> st'(r := st r) = st \<and>
       (room_for mem (bn_flags (st r)) (max (bn_width (st a)) (2 + (e - 1) div 64)) \<longrightarrow> ret)"
    unfolding e prod.case using nnmod_pow2_spec [OF assms e] by blast
qed

lemma bn_mod_pow2_exact_witness:
  "case BN_nnmod_pow2 generous (\<lambda>x. if x = 2 then BN_value_one else bn_of True [5, 1]) 2 0 0 70 of (ret, st') \<Rightarrow>
     ret \<and> bn_val (st' 0) = 2 ^ 70 - 2 ^ 64 - 5"
proof -
  let ?st = "\<lambda>x :: bn_addr. if x = 2 then BN_value_one else bn_of True [5, 1]"
  have a: "bn_ok (?st 0)" "bn_canonical (?st 0)" "?st 2 = BN_value_one" "(2 :: bn_addr) \<noteq> 0" by (simp_all add: bn_of)
  have room: "room_for generous (bn_flags (?st 0)) (max (bn_width (?st 0)) (2 + (70 - 1) div 64))"
    by (rule room_for_granted) (simp_all add: generous_def bn_of bn_of_def BN_FLG_MALLOCED_def BN_FLG_STATIC_DATA_def)
  have v: "bn_val (?st 0) mod 2 ^ 70 = 2 ^ 70 - 2 ^ 64 - 5" by (simp add: bn_of limb_base_def)
  obtain ret st' where e: "BN_nnmod_pow2 generous ?st 2 0 0 70 = (ret, st')" by (rule prod.exhaust)
  note c = conjunct2 [OF bn_mod_pow2_exact [OF a(1,1,2,3,4), of generous 70], unfolded e prod.case]
  have ret using c [THEN conjunct2, THEN conjunct2] room by (rule mp)
  then have "bn_val (st' 0) = 2 ^ 70 - 2 ^ 64 - 5" using c [THEN conjunct1] unfolding v by simp
  then show ?thesis using \<open>ret\<close> unfolding e prod.case by simp
qed

text \<open>C40: On arrays of limbs below the modulus, the additions and subtractions modulo a number are exact; the assertion of
  \<open>bn_reduce_once_in_place\<close> does not fail.\<close>

theorem bn_mod_words_exact:
  assumes "length a = num" "length b = num" "length m = num" "limbs_val a < limbs_val m" "limbs_val b < limbs_val m"
  shows "(\<exists>r. bn_mod_add_words a b m num = Some r \<and> length r = num \<and> int (limbs_val r) = (int (limbs_val a) + int (limbs_val b)) mod int (limbs_val m)) \<and>
    length (bn_mod_sub_words a b m num) = num \<and> int (limbs_val (bn_mod_sub_words a b m num)) = (int (limbs_val a) - int (limbs_val b)) mod int (limbs_val m)"
proof (intro conjI mod_sub_words_spec assms)
  show "\<exists>r. bn_mod_add_words a b m num = Some r \<and> length r = num \<and> int (limbs_val r) = (int (limbs_val a) + int (limbs_val b)) mod int (limbs_val m)"
    using mod_add_words_spec [OF assms] by (auto simp: zmod_int)
qed

lemma bn_mod_words_exact_witness:
  "int (limbs_val (bn_mod_sub_words [1, 0] [2, 0] [3, 4] 2)) = 2 + 2 ^ 64 * 4"
  using bn_mod_words_exact [of "[1, 0]" 2 "[2, 0]" "[3, 4]"] by (simp add: limb_base_def)

text \<open>C18: The loops of \<open>bn_div_consttime\<close> are long division: started on the leading limbs \<open>hs\<close> of the numerator, when these are below the
  divisor, they leave the quotient and the remainder of the whole numerator, one bit at a time and without a failed assertion.\<close>

theorem bn_long_division_exact:
  assumes "length m = num" "length hs \<le> num" "limbs_val hs < limbs_val m"
  shows "\<exists>qs r. div_words_loop ns m num (hs @ replicate (num - length hs) 0) = Some (qs, r) \<and> length qs = length ns \<and> length r = num \<and>
    limbs_val qs = limbs_val (ns @ hs) div limbs_val m \<and> limbs_val r = limbs_val (ns @ hs) mod limbs_val m"
proof -
  have h: "length (hs @ replicate (num - length hs) 0) = num" "limbs_val (hs @ replicate (num - length hs) 0) = limbs_val hs"
    using assms(2) by (simp_all add: limbs_val_append)
  show ?thesis using div_words_loop_spec [OF assms(1) h(1), of ns] assms(3) unfolding h(2) limbs_val_append [of ns hs] by blast
qed

lemma bn_long_division_exact_witness:
  "\<exists>qs r. div_words_loop [5, 6] [10, 1] 2 [0, 0] = Some (qs, r) \<and> limbs_val qs = 5 \<and> limbs_val r = 2 ^ 64 - 45"
proof -
  have z: "[] @ replicate (2 - length []) 0 = [0, 0 :: limb]" by (simp add: numeral_2_eq_2)
  show ?thesis using bn_long_division_exact [of "[10, 1]" 2 "[]" "[5, 6]"] unfolding z by (auto simp: limb_base_def simp del: div_words_loop.simps)
qed

end
